(* ===== verification/Prelude.thy ===== *)
theory Prelude
  imports Complex_Main "HOL-Library.AList"
begin

text \<open>
  Shared ground of the development: the shape of an effectful Python call, insertion-ordered
  dictionaries, dynamically typed Python values, and the lemma collections the component
  theories extend.

  A call that may raise and that changes state is a function from the state to a result and the
  state it leaves behind: the state survives an exception, as Python's objects do. Loops over a
  sequence with an accumulator are \<open>for_each\<close>; a Python \<open>dict\<close> is an association list with
  distinct keys, updated in place or at the end (\<open>AList.update\<close>), which keeps insertion order.
\<close>

named_theorems prog_simps \<open>how programs compute on a given state\<close>
named_theorems dict_simps \<open>lookups and key sets of updated dictionaries\<close>
named_theorems wf_defs \<open>definitions of the workflow operations\<close>
named_theorems lock_defs \<open>definitions of the lock operations\<close>
named_theorems limiter_defs \<open>definitions of the rate limiter operations\<close>
named_theorems access_defs \<open>definitions of the authorization operations\<close>
named_theorems event_defs \<open>definitions of the event dispatcher operations\<close>
named_theorems order_defs \<open>definitions of the ordering operations\<close>
named_theorems dotenv_defs \<open>definitions of the dotenv operations\<close>

section \<open>Programs: state, result or error\<close>

type_synonym ('s, 'e, 'a) prog = "'s \<Rightarrow> ('e + 'a) \<times> 's"

definition ret :: "'a \<Rightarrow> ('s, 'e, 'a) prog" where
  "ret x = (\<lambda>s. (Inr x, s))"

definition raise :: "'e \<Rightarrow> ('s, 'e, 'a) prog" where
  "raise e = (\<lambda>s. (Inl e, s))"

definition lift :: "'e + 'a \<Rightarrow> ('s, 'e, 'a) prog" where
  "lift r = (\<lambda>s. (r, s))"

definition andthen :: "('s, 'e, 'a) prog \<Rightarrow> ('a \<Rightarrow> ('s, 'e, 'b) prog) \<Rightarrow> ('s, 'e, 'b) prog" where
  "andthen m f = (\<lambda>s. case m s of (r, s') \<Rightarrow> (case r of Inl e \<Rightarrow> (Inl e, s') | Inr x \<Rightarrow> f x s'))"

fun for_each :: "('x \<Rightarrow> 'a \<Rightarrow> ('s, 'e, 'a) prog) \<Rightarrow> 'x list \<Rightarrow> 'a \<Rightarrow> ('s, 'e, 'a) prog" where
  "for_each f [] acc = ret acc"
| "for_each f (x # xs) acc = andthen (f x acc) (for_each f xs)"

text \<open>
  A program that leaves the state alone is, up to eta, the pair of its result; that is the form
  the simplifier works with.
\<close>

lemma ret_Pair [simp]: "ret x = Pair (Inr x)"
  by (rule ext) (simp add: ret_def)

lemma raise_Pair [simp]: "raise e = Pair (Inl e)"
  by (rule ext) (simp add: raise_def)

lemma lift_Pair [simp]: "lift r = Pair r"
  by (rule ext) (simp add: lift_def)

lemma andthen_Pair_Inr [simp]: "andthen (Pair (Inr x)) f = f x"
  by (rule ext) (simp add: andthen_def)

lemma andthen_Pair_Inl [simp]: "andthen (Pair (Inl e)) f = Pair (Inl e)"
  by (rule ext) (simp add: andthen_def)

lemma andthen_Inr [prog_simps]: "m s = (Inr x, s') \<Longrightarrow> andthen m f s = f x s'"
  by (simp add: andthen_def)

lemma andthen_Inl [prog_simps]: "m s = (Inl e, s') \<Longrightarrow> andthen m f s = (Inl e, s')"
  by (simp add: andthen_def)

lemma andthen_assoc: "andthen (andthen m f) g = andthen m (\<lambda>x. andthen (f x) g)"
  by (rule ext) (simp add: andthen_def split: prod.splits sum.splits)

lemma andthen_InrE:
  assumes "andthen m f s = (Inr y, s'')"
  obtains x s' where "m s = (Inr x, s')" "f x s' = (Inr y, s'')"
  using assms by (auto simp: andthen_def split: prod.splits sum.splits)

lemma for_each_append: "for_each f (xs @ ys) acc = andthen (for_each f xs acc) (for_each f ys)"
proof (induction xs arbitrary: acc)
  case Nil
  then show ?case by simp
next
  case (Cons x xs)
  then have "for_each f (xs @ ys) = (\<lambda>a. andthen (for_each f xs a) (for_each f ys))"
    by blast
  then show ?case by (simp add: andthen_assoc)
qed

text \<open>A loop whose body never fails and leaves the state alone is a fold.\<close>

lemma for_each_pure:
  assumes "\<And>x acc. x \<in> set xs \<Longrightarrow> f x acc = ret (g x acc)"
  shows "for_each f xs acc = ret (fold g xs acc)"
  using assms
proof (induction xs arbitrary: acc)
  case Nil
  then show ?case by simp
next
  case (Cons x xs)
  then show ?case by simp
qed

text \<open>Invariant rule of a loop that returned.\<close>

lemma for_each_inv:
  assumes "for_each f xs acc s = (Inr acc', s')" and "P acc s"
    and "\<And>x a t a' t'. x \<in> set xs \<Longrightarrow> P a t \<Longrightarrow> f x a t = (Inr a', t') \<Longrightarrow> P a' t'"
  shows "P acc' s'"
  using assms
proof (induction xs arbitrary: acc s)
  case Nil
  then show ?case by simp
next
  case (Cons x xs)
  from Cons.prems(1) obtain a t where "f x acc s = (Inr a, t)" "for_each f xs a t = (Inr acc', s')"
    by (auto elim: andthen_InrE)
  with Cons show ?case by (metis list.set_intros(1) list.set_intros(2))
qed

section \<open>Results without state\<close>

fun fold_r :: "('x \<Rightarrow> 'a \<Rightarrow> 'e + 'a) \<Rightarrow> 'x list \<Rightarrow> 'a \<Rightarrow> 'e + 'a" where
  "fold_r f [] acc = Inr acc"
| "fold_r f (x # xs) acc = (case f x acc of Inl e \<Rightarrow> Inl e | Inr a \<Rightarrow> fold_r f xs a)"

lemma fold_r_append:
  "fold_r f (xs @ ys) acc = (case fold_r f xs acc of Inl e \<Rightarrow> Inl e | Inr a \<Rightarrow> fold_r f ys a)"
  by (induction xs arbitrary: acc) (simp_all split: sum.splits)

lemma fold_r_inv:
  assumes "fold_r f xs acc = Inr acc'" and "P acc"
    and "\<And>x a a'. x \<in> set xs \<Longrightarrow> P a \<Longrightarrow> f x a = Inr a' \<Longrightarrow> P a'"
  shows "P acc'"
  using assms
proof (induction xs arbitrary: acc)
  case Nil
  then show ?case by simp
next
  case (Cons x xs)
  then obtain a where "f x acc = Inr a" "fold_r f xs a = Inr acc'"
    by (auto split: sum.splits)
  with Cons show ?case by (metis list.set_intros(1) list.set_intros(2))
qed

lemma for_each_lift:
  assumes "\<And>x acc. x \<in> set xs \<Longrightarrow> f x acc = lift (g x acc)"
  shows "for_each f xs acc = lift (fold_r g xs acc)"
  using assms
proof (induction xs arbitrary: acc)
  case Nil
  then show ?case by simp
next
  case (Cons x xs)
  then show ?case by (cases "g x acc") simp_all
qed

section \<open>Insertion-ordered dictionaries\<close>

type_synonym ('k, 'v) dict = "('k \<times> 'v) list"

abbreviation dict_set :: "'k \<Rightarrow> 'v \<Rightarrow> ('k, 'v) dict \<Rightarrow> ('k, 'v) dict" where
  "dict_set \<equiv> AList.update"

abbreviation dict_del :: "'k \<Rightarrow> ('k, 'v) dict \<Rightarrow> ('k, 'v) dict" where
  "dict_del \<equiv> AList.delete"

abbreviation dict_keys :: "('k, 'v) dict \<Rightarrow> 'k list" where
  "dict_keys d \<equiv> map fst d"

definition dict_ok :: "('k, 'v) dict \<Rightarrow> bool" where
  "dict_ok d \<longleftrightarrow> distinct (dict_keys d)"

definition dict_get_or :: "('k, 'v) dict \<Rightarrow> 'k \<Rightarrow> 'v \<Rightarrow> 'v" where
  "dict_get_or d k v0 = (case map_of d k of None \<Rightarrow> v0 | Some v \<Rightarrow> v)"

lemma dict_ok_Nil [simp]: "dict_ok []"
  by (simp add: dict_ok_def)

lemma dict_ok_set [simp]: "dict_ok d \<Longrightarrow> dict_ok (dict_set k v d)"
  by (simp add: dict_ok_def distinct_update)

lemma dict_ok_del [simp]: "dict_ok d \<Longrightarrow> dict_ok (dict_del k d)"
  by (simp add: dict_ok_def distinct_delete)

lemma map_of_dict_set [simp, dict_simps]: "map_of (dict_set k v d) = (map_of d)(k \<mapsto> v)"
  by (simp add: update_conv')

lemma map_of_dict_del [simp, dict_simps]: "map_of (dict_del k d) = (map_of d)(k := None)"
  by (simp add: delete_conv')

lemma dict_get_or_set [simp, dict_simps]:
  "dict_get_or (dict_set k v d) k' v0 = (if k' = k then v else dict_get_or d k' v0)"
  by (simp add: dict_get_or_def)

lemma dict_get_or_del [simp, dict_simps]:
  "dict_get_or (dict_del k d) k' v0 = (if k' = k then v0 else dict_get_or d k' v0)"
  by (simp add: dict_get_or_def)

lemma dict_mem_iff: "k \<in> set (dict_keys d) \<longleftrightarrow> map_of d k \<noteq> None"
  by (simp add: map_of_eq_None_iff image_iff)

section \<open>Python values\<close>

text \<open>
  What a loosely typed \<open>object\<close> may be. An instance with neither \<open>__bool__\<close> nor \<open>__len__\<close>
  (\<open>VObj\<close>, by identity) is true, as is an enum member (\<open>VEnum\<close>, its class and its value); an empty string, list or dict and zero are false.
\<close>

datatype pyval =
    VNone
  | VBool bool
  | VInt int
  | VStr string
  | VList "pyval list"
  | VDict "(string \<times> pyval) list"
  | VEnum nat pyval
  | VObj nat

fun truthy :: "pyval \<Rightarrow> bool" where
  "truthy VNone = False"
| "truthy (VBool b) = b"
| "truthy (VInt i) = (i \<noteq> 0)"
| "truthy (VStr s) = (s \<noteq> [])"
| "truthy (VList xs) = (xs \<noteq> [])"
| "truthy (VDict d) = (d \<noteq> [])"
| "truthy (VEnum c v) = True"
| "truthy (VObj n) = True"

type_synonym call_context = "(string, pyval) dict"

section \<open>Text\<close>

text \<open>\<open>text.split(c)\<close> with a separator.\<close>

fun split_on :: "char \<Rightarrow> string \<Rightarrow> string list" where
  "split_on c [] = [[]]"
| "split_on c (x # xs) =
     (if x = c then [] # split_on c xs
      else (case split_on c xs of [] \<Rightarrow> [[x]] | p # ps \<Rightarrow> (x # p) # ps))"

text \<open>\<open>text.strip()\<close>: the white space of Python among the characters of one byte.\<close>

definition is_white :: "char \<Rightarrow> bool" where
  "is_white c \<longleftrightarrow> (of_char c :: nat) \<in> {9, 10, 11, 12, 13, 28, 29, 30, 31, 32, 133, 160}"

definition strip_text :: "string \<Rightarrow> string" where
  "strip_text s = rev (dropWhile is_white (rev (dropWhile is_white s)))"

section \<open>Decimal numerals\<close>

text \<open>\<open>str(n)\<close> of a number that is not negative.\<close>

fun show_nat :: "nat \<Rightarrow> string" where
  "show_nat n = (if n < 10 then [char_of (48 + n)] else show_nat (n div 10) @ [char_of (48 + n mod 10)])"

declare show_nat.simps [simp del]

definition read_nat :: "string \<Rightarrow> nat" where
  "read_nat cs = fold (\<lambda>c n. 10 * n + (of_char c - 48)) cs 0"

lemma read_show_nat: "read_nat (show_nat n) = n"
proof (induction n rule: show_nat.induct)
  case (1 n)
  show ?case
  proof (cases "n < 10")
    case True
    then show ?thesis by (simp add: show_nat.simps [of n] read_nat_def)
  next
    case False
    then have "read_nat (show_nat (n div 10)) = n div 10" using 1 by simp
    moreover have "n mod 10 < 10" by simp
    then have "(48 + n mod 10) mod 256 = 48 + n mod 10" by (simp only: mod_less)
    ultimately show ?thesis using False by (simp add: show_nat.simps [of n] read_nat_def)
  qed
qed

lemma show_nat_inject: "show_nat m = show_nat n \<Longrightarrow> m = n"
  by (metis read_show_nat)

lemma show_nat_digits: "c \<in> set (show_nat n) \<Longrightarrow> 48 \<le> (of_char c :: nat) \<and> (of_char c :: nat) \<le> 57"
proof (induction n rule: show_nat.induct)
  case (1 n)
  show ?case
  proof (cases "n < 10")
    case True
    then show ?thesis using "1.prems" by (simp add: show_nat.simps [of n])
  next
    case False
    have "n mod 10 < 10" by simp
    then have "(48 + n mod 10) mod 256 = 48 + n mod 10" "48 + n mod 10 \<le> 57" by simp_all
    then show ?thesis using "1.prems" "1.IH" False by (auto simp: show_nat.simps [of n])
  qed
qed

end
