(* ===== verification/Workflow_Net.thy ===== *)
theory Workflow_Net
  imports Prelude
begin

text \<open>
  The data of a workflow (package xtr-workflow): arcs, transitions, markings, definitions and the
  definition builder, with the errors they raise. A marking is the ordered dict of token counts
  of \<open>marking.py\<close>; its abstraction \<open>tokens\<close> is the token count of every place, which is how the
  later theories read it as a Petri net marking.
\<close>

section \<open>Errors\<close>

text \<open>The reasons behind \<open>InvalidArgumentError\<close>, carrying what its message quotes.\<close>

datatype invalid_argument =
    TokensBelowOne int
  | PlaceNotMarked string
  | NegativeTokens string int int
  | WeightBelowOne int
  | EmptyPlaceName
  | MixedEventList
  | GuardBlocked
  | MissingWorkflowName
  | NoWorkflowForSubject
  | TooManyWorkflows "string list"
  | UnknownMetadataSubject

datatype logic_error =
    NotAnInitialPlace string
  | EmptyMarkingNoInitial
  | PlaceNotValid string bool
  | KeptNotADict
  | NoAccessor
  | EventWithoutTransition

text \<open>What a validator refuses, with the transition and place it names.\<close>

datatype definition_problem =
    SameNameLeaves string string
  | TooManyOutputs string nat
  | HeavyFromArc string string int
  | HeavyToArc string string int
  | NotOneOutput string nat
  | NotOneInput string nat
  | TooManyInitialPlaces nat

section \<open>Arcs and transitions\<close>

record arc =
  arc_place :: string
  arc_weight :: int

text \<open>What the constructors take where they are typed loosely: a place name, an arc, anything else.\<close>

datatype arc_spec = PlaceName string | AnArc arc | NotAnArc

datatype arcs_spec = OneArc arc_spec | ArcSeq "arc_spec list"

text \<open>A transition is known by its identity, not by its name or its places.\<close>

record transition =
  t_id :: nat
  t_name :: string
  t_from_arcs :: "arc list"
  t_to_arcs :: "arc list"

text \<open>A marking: the tokens of each marked place in the order they were marked, and the context.\<close>

record marking =
  m_places :: "(string, int) dict"
  m_context :: call_context

text \<open>
  A reason a transition is blocked. The parameters of the two blockers the package builds are the
  marking, or the name of the guard expression.
\<close>

datatype blocker_param = MarkingParam marking | ExpressionParam string | OtherParam pyval

record blocker =
  bl_message :: string
  bl_code :: string
  bl_parameters :: "(string, blocker_param) dict"

datatype wf_error =
    InvalidArgumentError invalid_argument
  | LogicError logic_error
  | UndefinedTransitionError string
  | NotEnabledTransitionError string "blocker list"
  | InvalidDefinitionError definition_problem string
  | TypeError
  | ListenerError nat

definition Arc_init :: "string \<Rightarrow> int \<Rightarrow> wf_error + arc" where
  "Arc_init place weight =
     (if weight < 1 then Inl (InvalidArgumentError (WeightBelowOne weight))
      else if place = [] then Inl (InvalidArgumentError EmptyPlaceName)
      else Inr \<lparr>arc_place = place, arc_weight = weight\<rparr>)"

fun arc_of :: "arc_spec \<Rightarrow> wf_error + arc" where
  "arc_of (AnArc a) = Inr a"
| "arc_of (PlaceName p) = Arc_init p 1"
| "arc_of NotAnArc = Inl TypeError"

fun collect_arcs :: "arc_spec list \<Rightarrow> wf_error + arc list" where
  "collect_arcs [] = Inr []"
| "collect_arcs (x # xs) =
     (case arc_of x of Inl e \<Rightarrow> Inl e
      | Inr a \<Rightarrow> (case collect_arcs xs of Inl e \<Rightarrow> Inl e | Inr as \<Rightarrow> Inr (a # as)))"

fun arcs_of :: "arcs_spec \<Rightarrow> wf_error + arc list" where
  "arcs_of (OneArc x) = (case arc_of x of Inl e \<Rightarrow> Inl e | Inr a \<Rightarrow> Inr [a])"
| "arcs_of (ArcSeq xs) = collect_arcs xs"

definition Transition_init :: "nat \<Rightarrow> string \<Rightarrow> arcs_spec \<Rightarrow> arcs_spec \<Rightarrow> wf_error + transition" where
  "Transition_init ident name froms tos =
     (case arcs_of froms of Inl e \<Rightarrow> Inl e
      | Inr fs \<Rightarrow> (case arcs_of tos of Inl e \<Rightarrow> Inl e
         | Inr ts \<Rightarrow> Inr \<lparr>t_id = ident, t_name = name, t_from_arcs = fs, t_to_arcs = ts\<rparr>))"

definition get_froms :: "transition \<Rightarrow> string list" where
  "get_froms t = map arc_place (t_from_arcs t)"

definition get_tos :: "transition \<Rightarrow> string list" where
  "get_tos t = map arc_place (t_to_arcs t)"

definition arc_ok :: "arc \<Rightarrow> bool" where
  "arc_ok a \<longleftrightarrow> 1 \<le> arc_weight a \<and> arc_place a \<noteq> []"

definition transition_ok :: "transition \<Rightarrow> bool" where
  "transition_ok t \<longleftrightarrow> list_all arc_ok (t_from_arcs t) \<and> list_all arc_ok (t_to_arcs t)"

section \<open>Markings\<close>

definition Marking_empty :: marking where
  "Marking_empty = \<lparr>m_places = [], m_context = []\<rparr>"

definition refuse_below_one :: "int \<Rightarrow> wf_error + unit" where
  "refuse_below_one n = (if n < 1 then Inl (InvalidArgumentError (TokensBelowOne n)) else Inr ())"

definition get_token_count :: "marking \<Rightarrow> string \<Rightarrow> int" where
  "get_token_count m place = dict_get_or (m_places m) place 0"

definition has_place :: "marking \<Rightarrow> string \<Rightarrow> bool" where
  "has_place m place = (map_of (m_places m) place \<noteq> None)"

definition mark :: "string \<Rightarrow> int \<Rightarrow> marking \<Rightarrow> wf_error + marking" where
  "mark place n m =
     (case refuse_below_one n of Inl e \<Rightarrow> Inl e
      | Inr _ \<Rightarrow> Inr (m\<lparr>m_places := dict_set place (dict_get_or (m_places m) place 0 + n) (m_places m)\<rparr>))"

definition unmark :: "string \<Rightarrow> int \<Rightarrow> marking \<Rightarrow> wf_error + marking" where
  "unmark place n m =
     (case refuse_below_one n of Inl e \<Rightarrow> Inl e
      | Inr _ \<Rightarrow>
        (case map_of (m_places m) place of
           None \<Rightarrow> Inl (InvalidArgumentError (PlaceNotMarked place))
         | Some initial \<Rightarrow>
             let remaining = initial - n in
             if remaining < 0 then Inl (InvalidArgumentError (NegativeTokens place initial n))
             else if remaining = 0 then Inr (m\<lparr>m_places := dict_del place (m_places m)\<rparr>)
             else Inr (m\<lparr>m_places := dict_set place remaining (m_places m)\<rparr>)))"

text \<open>\<open>Marking(places)\<close>: each place of the mapping is marked in turn.\<close>

definition Marking_init :: "(string, int) dict \<Rightarrow> wf_error + marking" where
  "Marking_init places = fold_r (\<lambda>(p, n). mark p n) places Marking_empty"

definition set_context :: "call_context \<Rightarrow> marking \<Rightarrow> marking" where
  "set_context c m = m\<lparr>m_context := c\<rparr>"

text \<open>Well-formed: one entry per place, each holding at least a token.\<close>

definition marking_ok :: "marking \<Rightarrow> bool" where
  "marking_ok m \<longleftrightarrow> dict_ok (m_places m) \<and> list_all (\<lambda>(p, n). 1 \<le> n) (m_places m)"

section \<open>Definitions\<close>

record wf_definition =
  d_places :: "string list"
  d_transitions :: "transition list"
  d_initial_places :: "string list"

datatype initial_spec = NoInitial | InitialPlace string | InitialPlaces "string list"

definition Definition_empty :: wf_definition where
  "Definition_empty = \<lparr>d_places = [], d_transitions = [], d_initial_places = []\<rparr>"

text \<open>The \<open>_places\<close> dict maps each place to itself: its key order is all there is to it.\<close>

definition add_key :: "'k \<Rightarrow> 'k list \<Rightarrow> 'k list" where
  "add_key k ks = (if k \<in> set ks then ks else ks @ [k])"

definition add_place :: "string \<Rightarrow> wf_definition \<Rightarrow> wf_definition" where
  "add_place place d =
     (let d' = (if d_places d = [] then d\<lparr>d_initial_places := [place]\<rparr> else d)
      in d'\<lparr>d_places := add_key place (d_places d')\<rparr>)"

definition add_transition :: "transition \<Rightarrow> wf_definition \<Rightarrow> wf_definition" where
  "add_transition t d =
     (let d' = fold add_place (get_froms t @ get_tos t) d
      in d'\<lparr>d_transitions := d_transitions d' @ [t]\<rparr>)"

fun initial_list :: "initial_spec \<Rightarrow> string list" where
  "initial_list NoInitial = []"
| "initial_list (InitialPlace p) = (if p = [] then [] else [p])"
| "initial_list (InitialPlaces ps) = ps"

text \<open>\<open>if not places: return\<close> leaves the first place; a place the definition lacks is refused.\<close>

definition set_initial_places :: "initial_spec \<Rightarrow> wf_definition \<Rightarrow> wf_error + wf_definition" where
  "set_initial_places spec d =
     (if initial_list spec = [] then Inr d
      else case find (\<lambda>p. p \<notin> set (d_places d)) (initial_list spec) of
             Some p \<Rightarrow> Inl (LogicError (NotAnInitialPlace p))
           | None \<Rightarrow> Inr (d\<lparr>d_initial_places := initial_list spec\<rparr>))"

definition Definition_init ::
  "string list \<Rightarrow> transition list \<Rightarrow> initial_spec \<Rightarrow> wf_error + wf_definition" where
  "Definition_init places transitions initial =
     set_initial_places initial (fold add_transition transitions (fold add_place places Definition_empty))"

definition definition_ok :: "wf_definition \<Rightarrow> bool" where
  "definition_ok d \<longleftrightarrow>
     distinct (d_places d)
     \<and> set (d_initial_places d) \<subseteq> set (d_places d)
     \<and> (d_places d \<noteq> [] \<longrightarrow> d_initial_places d \<noteq> [])
     \<and> (\<forall>t \<in> set (d_transitions d). set (get_froms t) \<union> set (get_tos t) \<subseteq> set (d_places d))"

section \<open>The definition builder\<close>

record builder =
  b_places :: "string list"
  b_transitions :: "transition list"
  b_initial :: initial_spec

definition Builder_empty :: builder where
  "Builder_empty = \<lparr>b_places = [], b_transitions = [], b_initial = NoInitial\<rparr>"

definition builder_add_place :: "string \<Rightarrow> builder \<Rightarrow> builder" where
  "builder_add_place p b =
     (let b' = (if b_places b = [] then b\<lparr>b_initial := InitialPlace p\<rparr> else b)
      in b'\<lparr>b_places := add_key p (b_places b')\<rparr>)"

definition builder_add_places :: "string list \<Rightarrow> builder \<Rightarrow> builder" where
  "builder_add_places ps b = fold builder_add_place ps b"

definition builder_add_transition :: "transition \<Rightarrow> builder \<Rightarrow> builder" where
  "builder_add_transition t b = b\<lparr>b_transitions := b_transitions b @ [t]\<rparr>"

definition builder_add_transitions :: "transition list \<Rightarrow> builder \<Rightarrow> builder" where
  "builder_add_transitions ts b = fold builder_add_transition ts b"

definition builder_set_initial_places :: "initial_spec \<Rightarrow> builder \<Rightarrow> builder" where
  "builder_set_initial_places i b = b\<lparr>b_initial := i\<rparr>"

definition builder_clear :: "builder \<Rightarrow> builder" where
  "builder_clear b = Builder_empty"

definition Builder_init :: "string list \<Rightarrow> transition list \<Rightarrow> builder" where
  "Builder_init ps ts = builder_add_transitions ts (builder_add_places ps Builder_empty)"

definition builder_build :: "builder \<Rightarrow> wf_error + wf_definition" where
  "builder_build b = Definition_init (b_places b) (b_transitions b) (b_initial b)"

section \<open>Token bags: the contract between markings and the engine\<close>

text \<open>
  What the engine relies on when it moves tokens: putting adds, taking removes exactly when enough
  tokens are there and fails otherwise. The loops over the arcs of a transition are then a matter
  of the total weight of the arcs on each place.
\<close>

definition arcs_weight :: "('p \<times> int) list \<Rightarrow> 'p \<Rightarrow> int" where
  "arcs_weight as p = (\<Sum>(q, n) \<leftarrow> as. if q = p then n else 0)"

lemma arcs_weight_Nil [simp]: "arcs_weight [] p = 0"
  by (simp add: arcs_weight_def)

lemma arcs_weight_Cons [simp]:
  "arcs_weight ((q, n) # as) p = (if q = p then n else 0) + arcs_weight as p"
  by (simp add: arcs_weight_def)

lemma arcs_weight_nonneg: "list_all (\<lambda>(q, n). 1 \<le> n) as \<Longrightarrow> 0 \<le> arcs_weight as p"
  by (induction as) auto

lemma arcs_weight_notin: "p \<notin> fst ` set as \<Longrightarrow> arcs_weight as p = 0"
  by (induction as) auto

lemma arcs_weight_distinct:
  "distinct (map fst as) \<Longrightarrow> (p, n) \<in> set as \<Longrightarrow> arcs_weight as p = n"
  by (induction as) (auto simp: arcs_weight_notin image_iff)

locale token_bag =
  fixes put :: "'p \<Rightarrow> int \<Rightarrow> 'm \<Rightarrow> 'e + 'm"
    and take_out :: "'p \<Rightarrow> int \<Rightarrow> 'm \<Rightarrow> 'e + 'm"
    and count_of :: "'m \<Rightarrow> 'p \<Rightarrow> int"
    and ok :: "'m \<Rightarrow> bool"
  assumes count_nonneg: "ok m \<Longrightarrow> 0 \<le> count_of m p"
    and put_adds: "ok m \<Longrightarrow> 1 \<le> n \<Longrightarrow>
      \<exists>m'. put p n m = Inr m' \<and> ok m' \<and> count_of m' = (count_of m)(p := count_of m p + n)"
    and take_removes: "ok m \<Longrightarrow> 1 \<le> n \<Longrightarrow> n \<le> count_of m p \<Longrightarrow>
      \<exists>m'. take_out p n m = Inr m' \<and> ok m' \<and> count_of m' = (count_of m)(p := count_of m p - n)"
    and take_short: "ok m \<Longrightarrow> 1 \<le> n \<Longrightarrow> count_of m p < n \<Longrightarrow> \<exists>e. take_out p n m = Inl e"
begin

lemma put_all:
  assumes "ok m" and "list_all (\<lambda>(q, n). 1 \<le> n) as"
  shows "\<exists>m'. fold_r (\<lambda>(q, n). put q n) as m = Inr m' \<and> ok m'
      \<and> (\<forall>p. count_of m' p = count_of m p + arcs_weight as p)"
  using assms
proof (induction as arbitrary: m)
  case Nil
  then show ?case by simp
next
  case (Cons a as)
  obtain q n where a: "a = (q, n)" by (cases a)
  with Cons.prems obtain m1 where m1: "put q n m = Inr m1" "ok m1"
      "count_of m1 = (count_of m)(q := count_of m q + n)"
    using put_adds [of m n q] by auto
  from Cons.IH [OF m1(2)] Cons.prems(2) obtain m' where
      "fold_r (\<lambda>(q, n). put q n) as m1 = Inr m'" "ok m'"
      "\<forall>p. count_of m' p = count_of m1 p + arcs_weight as p"
    by auto
  with a m1 show ?case by auto
qed

lemma take_all:
  assumes "ok m" and "list_all (\<lambda>(q, n). 1 \<le> n) as" and "\<forall>p. arcs_weight as p \<le> count_of m p"
  shows "\<exists>m'. fold_r (\<lambda>(q, n). take_out q n) as m = Inr m' \<and> ok m'
      \<and> (\<forall>p. count_of m' p = count_of m p - arcs_weight as p)"
  using assms
proof (induction as arbitrary: m)
  case Nil
  then show ?case by simp
next
  case (Cons a as)
  obtain q n where a: "a = (q, n)" by (cases a)
  have rest: "list_all (\<lambda>(q, n). 1 \<le> n) as" and n: "1 \<le> n" using Cons.prems(2) a by auto
  have "n + arcs_weight as q \<le> count_of m q" using Cons.prems(3) a by (auto dest: spec [of _ q])
  then have "n \<le> count_of m q" using arcs_weight_nonneg [OF rest, of q] by simp
  with Cons.prems(1) n obtain m1 where m1: "take_out q n m = Inr m1" "ok m1"
      "count_of m1 = (count_of m)(q := count_of m q - n)"
    using take_removes by blast
  have "arcs_weight as p \<le> count_of m1 p" for p
    using Cons.prems(3) a m1(3) by (auto dest: spec [of _ p])
  then obtain m' where "fold_r (\<lambda>(q, n). take_out q n) as m1 = Inr m'" "ok m'"
      "\<forall>p. count_of m' p = count_of m1 p - arcs_weight as p"
    using Cons.IH [OF m1(2) rest] by blast
  with a m1 show ?case by auto
qed

lemma take_all_short:
  assumes "ok m" and "list_all (\<lambda>(q, n). 1 \<le> n) as" and "count_of m p < arcs_weight as p"
  shows "\<exists>e. fold_r (\<lambda>(q, n). take_out q n) as m = Inl e"
  using assms
proof (induction as arbitrary: m)
  case Nil
  then show ?case using count_nonneg [of m p] by simp
next
  case (Cons a as)
  obtain q n where a: "a = (q, n)" by (cases a)
  have n: "1 \<le> n" using Cons.prems(2) a by auto
  show ?case
  proof (cases "n \<le> count_of m q")
    case True
    with Cons.prems(1) n obtain m1 where m1: "take_out q n m = Inr m1" "ok m1"
        "count_of m1 = (count_of m)(q := count_of m q - n)"
      using take_removes by blast
    have "count_of m1 p < arcs_weight as p"
      using Cons.prems(3) a m1(3) by (auto split: if_splits)
    then show ?thesis using Cons.IH [OF m1(2)] Cons.prems(2) a m1(1) by auto
  next
    case False
    then show ?thesis using take_short [OF Cons.prems(1) n, of q] a by auto
  qed
qed

end

section \<open>Markings are token bags\<close>

lemma mark_cases:
  "mark p n m = (if n < 1 then Inl (InvalidArgumentError (TokensBelowOne n))
     else Inr (m\<lparr>m_places := dict_set p (get_token_count m p + n) (m_places m)\<rparr>))"
  by (simp add: mark_def refuse_below_one_def get_token_count_def)

lemma list_all_update:
  "list_all P d \<Longrightarrow> P (k, v) \<Longrightarrow> list_all P (dict_set k v d)"
  by (induction d) auto

lemma list_all_delete: "list_all P d \<Longrightarrow> list_all P (dict_del k d)"
  by (auto simp: list_all_iff AList.delete_eq)

lemma token_count_set [simp]:
  "get_token_count (m\<lparr>m_places := dict_set p n (m_places m)\<rparr>) = (get_token_count m)(p := n)"
  by (rule ext) (simp add: get_token_count_def)

lemma token_count_del [simp]:
  "get_token_count (m\<lparr>m_places := dict_del p (m_places m)\<rparr>) = (get_token_count m)(p := 0)"
  by (rule ext) (simp add: get_token_count_def)

lemma marking_ok_entry: "marking_ok m \<Longrightarrow> map_of (m_places m) p = Some n \<Longrightarrow> 1 \<le> n"
  by (auto simp: marking_ok_def list_all_iff dest!: map_of_SomeD)

lemma token_count_nonneg: "marking_ok m \<Longrightarrow> 0 \<le> get_token_count m p"
  using marking_ok_entry [of m p] by (auto simp: get_token_count_def dict_get_or_def split: option.splits)

lemma token_count_pos_iff:
  assumes "marking_ok m"
  shows "0 < get_token_count m p \<longleftrightarrow> p \<in> set (dict_keys (m_places m))"
  using marking_ok_entry [OF assms, of p]
  unfolding dict_mem_iff by (auto simp: get_token_count_def dict_get_or_def split: option.splits)

lemma mark_ok: "marking_ok m \<Longrightarrow> mark p n m = Inr m' \<Longrightarrow> marking_ok m'"
  using token_count_nonneg [of m p]
  by (auto simp: mark_cases marking_ok_def intro!: list_all_update split: if_splits)

lemma unmark_ok: "marking_ok m \<Longrightarrow> unmark p n m = Inr m' \<Longrightarrow> marking_ok m'"
  by (auto simp: unmark_def refuse_below_one_def marking_ok_def Let_def
      intro!: list_all_update list_all_delete split: if_splits option.splits)

lemma Marking_empty_ok [simp]: "marking_ok Marking_empty"
  by (simp add: marking_ok_def Marking_empty_def)

lemma Marking_init_ok: "Marking_init ps = Inr m \<Longrightarrow> marking_ok m"
  unfolding Marking_init_def
  by (erule fold_r_inv [where P = marking_ok]) (auto intro: mark_ok split: prod.splits)

lemma mark_adds:
  assumes "marking_ok m" and "1 \<le> n"
  shows "\<exists>m'. mark p n m = Inr m' \<and> marking_ok m'
    \<and> get_token_count m' = (get_token_count m)(p := get_token_count m p + n)"
  using assms mark_ok [OF assms(1), of p n] by (auto simp: mark_cases)

lemma unmark_removes:
  assumes "marking_ok m" and "1 \<le> n" and "n \<le> get_token_count m p"
  shows "\<exists>m'. unmark p n m = Inr m' \<and> marking_ok m'
    \<and> get_token_count m' = (get_token_count m)(p := get_token_count m p - n)"
proof -
  obtain k where k: "map_of (m_places m) p = Some k" "get_token_count m p = k"
    using assms(2,3) by (auto simp: get_token_count_def dict_get_or_def split: option.splits)
  then obtain m' where "unmark p n m = Inr m'"
      and "get_token_count m' = (get_token_count m)(p := get_token_count m p - n)"
    using assms(2,3) by (cases "k = n") (auto simp: unmark_def refuse_below_one_def Let_def)
  with unmark_ok [OF assms(1)] show ?thesis by blast
qed

lemma unmark_short:
  assumes "marking_ok m" and "1 \<le> n" and "get_token_count m p < n"
  shows "\<exists>e. unmark p n m = Inl e"
  using assms
  by (auto simp: unmark_def refuse_below_one_def get_token_count_def dict_get_or_def Let_def
      split: option.splits)

interpretation mk: token_bag mark unmark get_token_count marking_ok
  by unfold_locales (simp_all add: token_count_nonneg mark_adds unmark_removes unmark_short)

section \<open>Correctness of markings and definitions\<close>

lemma update_delete_fresh: "k \<notin> set (dict_keys d) \<Longrightarrow> dict_del k (dict_set k v d) = d"
  by (induction d) (auto simp: AList.delete_eq intro: filter_True)

lemma update_same: "map_of d k = Some v \<Longrightarrow> dict_set k v d = d"
  by (induction d) auto

text \<open>
  taking back the tokens just put in a place restores the marking exactly, order of the places
  included, and taking more than a place holds is refused.
\<close>

theorem mark_unmark_roundtrip:
  assumes "marking_ok m" and "1 \<le> n"
  shows "(\<exists>m'. mark p n m = Inr m' \<and> unmark p n m' = Inr m)
    \<and> (\<forall>k. get_token_count m p < k \<longrightarrow> 1 \<le> k \<longrightarrow> (\<exists>e. unmark p k m = Inl e))"
proof -
  have "unmark p n (m\<lparr>m_places := dict_set p (get_token_count m p + n) (m_places m)\<rparr>) = Inr m"
  proof (cases "map_of (m_places m) p")
    case None
    then have "p \<notin> set (dict_keys (m_places m))" by (simp add: map_of_eq_None_iff)
    with None assms(2) show ?thesis
      by (simp add: unmark_def refuse_below_one_def get_token_count_def dict_get_or_def
          update_delete_fresh)
  next
    case (Some k)
    with marking_ok_entry [OF assms(1) Some] assms(2) show ?thesis
      by (simp add: unmark_def refuse_below_one_def get_token_count_def dict_get_or_def update_same)
  qed
  with assms show ?thesis by (auto simp: mark_cases dest: unmark_short)
qed

theorem mark_unmark_roundtrip_witness:
  "\<exists>m'. mark ''b'' 2 \<lparr>m_places = [(''a'', 1), (''b'', 3)], m_context = []\<rparr> = Inr m'
     \<and> unmark ''b'' 2 m' = Inr \<lparr>m_places = [(''a'', 1), (''b'', 3)], m_context = []\<rparr>"
  using mark_unmark_roundtrip [of "\<lparr>m_places = [(''a'', 1), (''b'', 3)], m_context = []\<rparr>" 2 "''b''"]
  by (simp add: marking_ok_def dict_ok_def)

lemma set_add_key [simp]: "set (add_key k ks) = insert k (set ks)"
  by (auto simp: add_key_def)

lemma distinct_add_key [simp]: "distinct ks \<Longrightarrow> distinct (add_key k ks)"
  by (simp add: add_key_def)

lemma add_key_not_Nil [simp]: "add_key k ks \<noteq> []"
  by (auto simp: add_key_def)

lemma d_places_add_place [simp]: "d_places (add_place p d) = add_key p (d_places d)"
  by (simp add: add_place_def Let_def)

lemma d_transitions_add_place [simp]: "d_transitions (add_place p d) = d_transitions d"
  by (simp add: add_place_def Let_def)

lemma d_transitions_fold_add_place [simp]: "d_transitions (fold add_place ps d) = d_transitions d"
  by (induction ps arbitrary: d) simp_all

lemma set_places_fold [simp]: "set (d_places (fold add_place ps d)) = set ps \<union> set (d_places d)"
  by (induction ps arbitrary: d) auto

lemma add_place_ok: "definition_ok d \<Longrightarrow> definition_ok (add_place p d)"
  by (auto simp: definition_ok_def add_place_def Let_def)

lemma fold_add_place_ok: "definition_ok d \<Longrightarrow> definition_ok (fold add_place ps d)"
  by (induction ps arbitrary: d) (simp_all add: add_place_ok)

lemma add_transition_ok: "definition_ok d \<Longrightarrow> definition_ok (add_transition t d)"
  using fold_add_place_ok [of d "get_froms t @ get_tos t"]
  by (auto simp: definition_ok_def add_transition_def Let_def)

lemma fold_add_transition_ok: "definition_ok d \<Longrightarrow> definition_ok (fold add_transition ts d)"
  by (induction ts arbitrary: d) (simp_all add: add_transition_ok)

lemma d_transitions_fold_add_transition:
  "d_transitions (fold add_transition ts d) = d_transitions d @ ts"
  by (induction ts arbitrary: d) (simp_all add: add_transition_def Let_def)

lemma Definition_empty_ok: "definition_ok Definition_empty"
  by (simp add: definition_ok_def Definition_empty_def)

lemma set_initial_places_ok:
  assumes "definition_ok d" and "set_initial_places i d = Inr d'"
  shows "definition_ok d' \<and> d_transitions d' = d_transitions d \<and> d_places d' = d_places d"
  using assms
  by (auto simp: set_initial_places_def definition_ok_def find_None_iff
      split: if_splits option.splits; blast)

text \<open>
  C30: a definition that is built has distinct places, holds every place a transition leaves or
  enters, starts its subjects in places of its own (at least one, when it has a place at all), and
  keeps its transitions in the order given.
\<close>

theorem Definition_init_ok:
  assumes "Definition_init ps ts i = Inr d"
  shows "definition_ok d \<and> d_transitions d = ts
    \<and> set (d_places d) = set ps \<union> (\<Union>t \<in> set ts. set (get_froms t) \<union> set (get_tos t))"
proof -
  let ?d0 = "fold add_place ps Definition_empty"
  let ?d1 = "fold add_transition ts ?d0"
  have ok: "definition_ok ?d1"
    by (intro fold_add_transition_ok fold_add_place_ok Definition_empty_ok)
  have places: "set (d_places (fold add_transition us e)) =
      set (d_places e) \<union> (\<Union>t \<in> set us. set (get_froms t) \<union> set (get_tos t))" for us e
    by (induction us arbitrary: e) (auto simp: add_transition_def Let_def)
  have "set_initial_places i ?d1 = Inr d" using assms by (simp add: Definition_init_def)
  from set_initial_places_ok [OF ok this] places [of ts ?d0] show ?thesis
    by (simp add: d_transitions_fold_add_transition Definition_empty_def)
qed

theorem Definition_init_ok_witness:
  "definition_ok \<lparr>d_places = [''draft'', ''live''],
     d_transitions = [\<lparr>t_id = 0, t_name = ''go'', t_from_arcs = [\<lparr>arc_place = ''draft'', arc_weight = 1\<rparr>],
        t_to_arcs = [\<lparr>arc_place = ''live'', arc_weight = 1\<rparr>]\<rparr>],
     d_initial_places = [''draft'']\<rparr>"
  using Definition_init_ok [of "[''draft'']"
      "[\<lparr>t_id = 0, t_name = ''go'', t_from_arcs = [\<lparr>arc_place = ''draft'', arc_weight = 1\<rparr>],
        t_to_arcs = [\<lparr>arc_place = ''live'', arc_weight = 1\<rparr>]\<rparr>]" NoInitial
      "\<lparr>d_places = [''draft'', ''live''],
     d_transitions = [\<lparr>t_id = 0, t_name = ''go'', t_from_arcs = [\<lparr>arc_place = ''draft'', arc_weight = 1\<rparr>],
        t_to_arcs = [\<lparr>arc_place = ''live'', arc_weight = 1\<rparr>]\<rparr>],
     d_initial_places = [''draft'']\<rparr>"]
  by (simp add: Definition_init_def add_transition_def add_place_def set_initial_places_def
      get_froms_def get_tos_def add_key_def Definition_empty_def)

section \<open>The builder agrees with the constructor\<close>

lemma fold_add_key_set [simp]: "set (fold add_key ps ks) = set ps \<union> set ks"
  by (induction ps arbitrary: ks) auto

lemma fold_add_key_eq_Nil [simp]: "fold add_key ps ks = [] \<longleftrightarrow> ps = [] \<and> ks = []"
  by (induction ps arbitrary: ks) auto

lemma add_place_known: "p \<in> set (d_places d) \<Longrightarrow> add_place p d = d"
  by (cases "d_places d") (auto simp: add_place_def add_key_def Let_def)

lemma fold_add_place_dedup:
  "fold add_place (fold add_key ps []) Definition_empty = fold add_place ps Definition_empty"
proof (induction ps rule: rev_induct)
  case Nil
  then show ?case by simp
next
  case (snoc p ps)
  let ?K = "fold add_key ps []"
  show ?case
  proof (cases "p \<in> set ps")
    case True
    then have "add_key p ?K = ?K" by (simp add: add_key_def)
    moreover have "add_place p (fold add_place ps Definition_empty) = fold add_place ps Definition_empty"
      using True by (intro add_place_known) simp
    ultimately show ?thesis using snoc by simp
  next
    case False
    then have "add_key p ?K = ?K @ [p]" by (simp add: add_key_def)
    then show ?thesis using snoc by simp
  qed
qed

lemma b_places_add_places: "b_places (builder_add_places ps b) = fold add_key ps (b_places b)"
  unfolding builder_add_places_def
  by (induction ps arbitrary: b) (simp_all add: builder_add_place_def Let_def)

lemma b_transitions_add_places: "b_transitions (builder_add_places ps b) = b_transitions b"
  unfolding builder_add_places_def
  by (induction ps arbitrary: b) (simp_all add: builder_add_place_def Let_def)

lemma b_initial_kept: "b_places b \<noteq> [] \<Longrightarrow> b_initial (builder_add_places ps b) = b_initial b"
  unfolding builder_add_places_def
  by (induction ps arbitrary: b) (simp_all add: builder_add_place_def Let_def)

lemma builder_add_transitions_fields [simp]:
  "b_transitions (builder_add_transitions ts b) = b_transitions b @ ts"
  "b_places (builder_add_transitions ts b) = b_places b"
  "b_initial (builder_add_transitions ts b) = b_initial b"
  unfolding builder_add_transitions_def
  by (induction ts arbitrary: b) (simp_all add: builder_add_transition_def)

lemma Builder_init_fields:
  "b_places (Builder_init ps ts) = fold add_key ps []"
  "b_transitions (Builder_init ps ts) = ts"
  "b_initial (Builder_init ps ts) = (case ps of [] \<Rightarrow> NoInitial | p # _ \<Rightarrow> InitialPlace p)"
proof -
  show "b_places (Builder_init ps ts) = fold add_key ps []" "b_transitions (Builder_init ps ts) = ts"
    by (simp_all add: Builder_init_def b_places_add_places b_transitions_add_places Builder_empty_def)
  have "b_initial (builder_add_places (p # qs) Builder_empty) = InitialPlace p" for p qs
    using b_initial_kept [of "builder_add_place p Builder_empty" qs]
    by (simp add: builder_add_places_def builder_add_place_def Builder_empty_def Let_def)
  then show "b_initial (Builder_init ps ts) = (case ps of [] \<Rightarrow> NoInitial | p # _ \<Rightarrow> InitialPlace p)"
    by (simp add: Builder_init_def builder_add_places_def Builder_empty_def split: list.splits)
qed

lemma initial_kept_places: "d_places d \<noteq> [] \<Longrightarrow> d_initial_places (fold add_place ps d) = d_initial_places d"
  by (induction ps arbitrary: d) (simp_all add: add_place_def Let_def)

lemma initial_kept_transitions:
  "d_places d \<noteq> [] \<Longrightarrow> d_initial_places (fold add_transition ts d) = d_initial_places d
     \<and> set (d_places d) \<subseteq> set (d_places (fold add_transition ts d))"
proof (induction ts arbitrary: d)
  case Nil
  then show ?case by simp
next
  case (Cons t ts)
  have "d_places (add_transition t d) \<noteq> []" "set (d_places d) \<subseteq> set (d_places (add_transition t d))"
    using Cons.prems set_places_fold [of "get_froms t @ get_tos t" d]
    by (auto simp: add_transition_def Let_def simp del: set_places_fold)
  moreover have "d_initial_places (add_transition t d) = d_initial_places d"
    using initial_kept_places [OF Cons.prems, of "get_froms t @ get_tos t"]
    by (simp add: add_transition_def Let_def)
  ultimately show ?case using Cons.IH [of "add_transition t d"] by auto
qed

lemma first_place_is_initial:
  "set_initial_places (InitialPlace p) (fold add_transition ts (fold add_place (p # ps) Definition_empty))
    = Inr (fold add_transition ts (fold add_place (p # ps) Definition_empty))"
proof -
  let ?d0 = "fold add_place ps (add_place p Definition_empty)"
  let ?d1 = "fold add_transition ts ?d0"
  have p: "p \<in> set (d_places ?d0)" by simp
  then have ne: "d_places ?d0 \<noteq> []" by (metis empty_iff list.set(1))
  have "d_initial_places ?d0 = [p]"
    using initial_kept_places [of "add_place p Definition_empty" ps]
    by (simp add: add_place_def Definition_empty_def Let_def)
  with initial_kept_transitions [OF ne, of ts] p
  have "d_initial_places ?d1 = [p]" "p \<in> set (d_places ?d1)" by auto
  then show ?thesis by (simp add: set_initial_places_def)
qed

text \<open>
  assembling a definition step by step with the builder gives what the constructor gives from
  the same parts, repeated places included; initial places set after the places are added are the
  constructor's initial places, and without them the first place is the initial one.
\<close>

theorem builder_agrees:
  "builder_build (builder_set_initial_places i (Builder_init ps ts)) = Definition_init ps ts i
   \<and> builder_build (Builder_init ps ts) = Definition_init ps ts NoInitial"
proof
  show "builder_build (builder_set_initial_places i (Builder_init ps ts)) = Definition_init ps ts i"
    by (simp add: builder_build_def builder_set_initial_places_def Builder_init_fields
        Definition_init_def fold_add_place_dedup)
  show "builder_build (Builder_init ps ts) = Definition_init ps ts NoInitial"
  proof (cases ps)
    case Nil
    then show ?thesis
      by (simp add: builder_build_def Builder_init_fields)
  next
    case (Cons p qs)
    then show ?thesis
      using first_place_is_initial [of p ts qs] fold_add_place_dedup [of ps]
      by (simp add: builder_build_def Builder_init_fields Definition_init_def
          set_initial_places_def [of NoInitial])
  qed
qed

end
