(* ===== verification/Workflow_Engine.thy ===== *)
theory Workflow_Engine
  imports Workflow_Net "HOL-Library.Sublist"
begin

text \<open>
  The engine of xtr-workflow (\<open>workflow.py\<close>, with the events it dispatches and the blockers it
  collects). The marking store and the dispatcher are the two collaborators a workflow is built
  with: both are arguments of the model, programs over a world \<open>'w\<close> that holds the subjects and
  whatever listeners touch. An event object is handed to the listeners and comes back as they left
  it: the marking inside it is the very marking the engine works on, so a listener that changes it
  changes the rest of the move, and that is threaded through every step below.
\<close>

section \<open>Events, blockers and names\<close>

datatype event_kind =
    GuardEvent | LeaveEvent | TransitionEvent | EnterEvent | EnteredEvent | CompletedEvent | AnnounceEvent

record wf_event =
  ev_kind :: event_kind
  ev_marking :: marking
  ev_transition :: "transition option"
  ev_context :: call_context
  ev_blockers :: "blocker list"

definition GUARD :: string where "GUARD = ''workflow.guard''"
definition LEAVE :: string where "LEAVE = ''workflow.leave''"
definition TRANSITION :: string where "TRANSITION = ''workflow.transition''"
definition ENTER :: string where "ENTER = ''workflow.enter''"
definition ENTERED :: string where "ENTERED = ''workflow.entered''"
definition COMPLETED :: string where "COMPLETED = ''workflow.completed''"
definition ANNOUNCE :: string where "ANNOUNCE = ''workflow.announce''"

lemmas event_names = GUARD_def LEAVE_def TRANSITION_def ENTER_def ENTERED_def COMPLETED_def ANNOUNCE_def

definition disable_events_mapping :: "(string, string) dict" where
  "disable_events_mapping =
     [(LEAVE, ''workflow_disable_leave_event''),
      (TRANSITION, ''workflow_disable_transition_event''),
      (ENTER, ''workflow_disable_enter_event''),
      (ENTERED, ''workflow_disable_entered_event''),
      (COMPLETED, ''workflow_disable_completed_event''),
      (ANNOUNCE, ''workflow_disable_announce_event'')]"

definition DEFAULT_INITIAL_CONTEXT :: call_context where
  "DEFAULT_INITIAL_CONTEXT = [(''initial'', VBool True)]"

definition removeprefix :: "string \<Rightarrow> string \<Rightarrow> string" where
  "removeprefix p s = (if take (length p) s = p then drop (length p) s else s)"

definition BLOCKED_BY_MARKING :: string where
  "BLOCKED_BY_MARKING = ''19beefc8-6b1e-4716-9d07-a39bd6d16e34''"

definition BLOCKED_BY_EXPRESSION_GUARD_LISTENER :: string where
  "BLOCKED_BY_EXPRESSION_GUARD_LISTENER = ''326a1e9c-0c12-11e8-ba89-0ed5f89f718b''"

definition UNKNOWN :: string where
  "UNKNOWN = ''e8b5bbb9-5913-4b98-bfa6-65dbd228a82a''"

definition create_blocked_by_marking :: "marking \<Rightarrow> blocker" where
  "create_blocked_by_marking m =
     \<lparr>bl_message = ''The marking does not enable the transition.'', bl_code = BLOCKED_BY_MARKING,
      bl_parameters = [(''marking'', MarkingParam m)]\<rparr>"

definition create_blocked_by_expression_guard_listener :: "string \<Rightarrow> blocker" where
  "create_blocked_by_expression_guard_listener expression =
     \<lparr>bl_message = ''The expression blocks the transition.'',
      bl_code = BLOCKED_BY_EXPRESSION_GUARD_LISTENER,
      bl_parameters = [(''expression'', ExpressionParam expression)]\<rparr>"

text \<open>The class found up the call stack, when there is one, is an argument: it names the guard.\<close>

definition create_unknown :: "string option \<Rightarrow> string option \<Rightarrow> blocker" where
  "create_unknown message caller =
     \<lparr>bl_message = (case message of Some msg \<Rightarrow> msg
        | None \<Rightarrow> (case caller of
            Some c \<Rightarrow> ''The transition has been blocked by a guard ('' @ c @ '').''
          | None \<Rightarrow> ''The transition has been blocked by a guard.'')),
      bl_code = UNKNOWN, bl_parameters = []\<rparr>"

definition blockers_has :: "blocker list \<Rightarrow> string \<Rightarrow> bool" where
  "blockers_has bs code = list_ex (\<lambda>b. bl_code b = code) bs"

text \<open>What a guard listener may do to the event: add a blocker, or lift every one of them.\<close>

definition set_blocked :: "bool \<Rightarrow> string option \<Rightarrow> string option \<Rightarrow> wf_event \<Rightarrow> wf_event" where
  "set_blocked blocked message caller e =
     (if \<not> blocked then e\<lparr>ev_blockers := []\<rparr>
      else e\<lparr>ev_blockers := ev_blockers e @ [create_unknown message caller]\<rparr>)"

definition add_transition_blocker :: "blocker \<Rightarrow> wf_event \<Rightarrow> wf_event" where
  "add_transition_blocker b e = e\<lparr>ev_blockers := ev_blockers e @ [b]\<rparr>"

section \<open>Which events go out\<close>

definition DISPATCHABLE_EVENTS :: "string list" where
  "DISPATCHABLE_EVENTS = [LEAVE, TRANSITION, ENTER, ENTERED, COMPLETED, ANNOUNCE]"

definition starts_with_bang :: "string \<Rightarrow> bool" where
  "starts_with_bang s = (take 1 s = ''!'')"

definition events_to_dispatch_from :: "string list \<Rightarrow> wf_error + string list" where
  "events_to_dispatch_from events =
     (let blocked = map (removeprefix ''!'') (filter starts_with_bang events)
      in if blocked = [] then Inr events
         else if length blocked \<noteq> length events then Inl (InvalidArgumentError MixedEventList)
         else if GUARD \<in> set blocked then Inl (InvalidArgumentError GuardBlocked)
         else Inr (filter (\<lambda>e. e \<notin> set blocked) DISPATCHABLE_EVENTS))"

section \<open>The workflow and its steps\<close>

type_synonym ('sub, 'w) dispatcher = "'sub \<Rightarrow> wf_event \<Rightarrow> string \<Rightarrow> ('w, wf_error, wf_event) prog"

record ('sub, 'w) workflow =
  w_definition :: wf_definition
  w_get_marking :: "'sub \<Rightarrow> ('w, wf_error, marking) prog"
  w_set_marking :: "'sub \<Rightarrow> marking \<Rightarrow> call_context option \<Rightarrow> ('w, wf_error, unit) prog"
  w_dispatcher :: "('sub, 'w) dispatcher option"
  w_name :: string
  w_events :: "string list option"

text \<open>\<open>Workflow.__init__\<close>: the events to dispatch are read once, which may refuse them.\<close>

definition Workflow_init ::
  "wf_definition \<Rightarrow> ('sub \<Rightarrow> ('w, wf_error, marking) prog)
     \<Rightarrow> ('sub \<Rightarrow> marking \<Rightarrow> call_context option \<Rightarrow> ('w, wf_error, unit) prog)
     \<Rightarrow> ('sub, 'w) dispatcher option \<Rightarrow> string \<Rightarrow> string list option
     \<Rightarrow> wf_error + ('sub, 'w) workflow" where
  "Workflow_init d getm setm disp name events =
     (case (case events of None \<Rightarrow> Inr None
            | Some es \<Rightarrow> (case events_to_dispatch_from es of Inl e \<Rightarrow> Inl e | Inr es' \<Rightarrow> Inr (Some es'))) of
        Inl e \<Rightarrow> Inl e
      | Inr evs \<Rightarrow> Inr \<lparr>w_definition = d, w_get_marking = getm, w_set_marking = setm,
                      w_dispatcher = disp, w_name = name, w_events = evs\<rparr>)"

definition new_event :: "event_kind \<Rightarrow> marking \<Rightarrow> transition option \<Rightarrow> call_context \<Rightarrow> wf_event" where
  "new_event k m t c = \<lparr>ev_kind = k, ev_marking = m, ev_transition = t, ev_context = c, ev_blockers = []\<rparr>"

definition narrowed :: "string \<Rightarrow> string \<Rightarrow> string" where
  "narrowed wname event_name = ''workflow.'' @ wname @ ''.'' @ removeprefix ''workflow.'' event_name"

definition dispatch_under ::
  "('sub, 'w) workflow \<Rightarrow> ('sub, 'w) dispatcher \<Rightarrow> 'sub \<Rightarrow> wf_event \<Rightarrow> string \<Rightarrow> string list
     \<Rightarrow> ('w, wf_error, wf_event) prog" where
  "dispatch_under self disp sub e name nodes =
     andthen (disp sub e name) (\<lambda>e1.
     andthen (disp sub e1 (narrowed (w_name self) name)) (\<lambda>e2.
     for_each (\<lambda>node ev. disp sub ev (narrowed (w_name self) name @ ''.'' @ node)) nodes e2))"

definition dispatcher_for ::
  "('sub, 'w) workflow \<Rightarrow> string \<Rightarrow> call_context \<Rightarrow> ('sub, 'w) dispatcher option" where
  "dispatcher_for self name ctx =
     (let disabled = (case map_of disable_events_mapping name of
            None \<Rightarrow> False
          | Some key \<Rightarrow> (case map_of ctx key of None \<Rightarrow> False | Some v \<Rightarrow> truthy v))
      in if w_dispatcher self = None \<or> disabled then None
         else (case w_events self of
                 Some es \<Rightarrow> if name \<in> set es then w_dispatcher self else None
               | None \<Rightarrow> w_dispatcher self))"

definition transitions_named :: "('sub, 'w) workflow \<Rightarrow> string \<Rightarrow> transition list" where
  "transitions_named self name = filter (\<lambda>t. t_name t = name) (d_transitions (w_definition self))"

definition entered ::
  "('sub, 'w) workflow \<Rightarrow> 'sub \<Rightarrow> transition option \<Rightarrow> marking \<Rightarrow> call_context
     \<Rightarrow> ('w, wf_error, marking) prog" where
  "entered self sub t m ctx =
     (case dispatcher_for self ENTERED ctx of
        None \<Rightarrow> ret m
      | Some disp \<Rightarrow>
          andthen (dispatch_under self disp sub (new_event EnteredEvent m t ctx) ENTERED
             (case t of None \<Rightarrow> d_initial_places (w_definition self) | Some t' \<Rightarrow> get_tos t'))
            (\<lambda>e. ret (ev_marking e)))"

definition get_marking ::
  "('sub, 'w) workflow \<Rightarrow> 'sub \<Rightarrow> call_context \<Rightarrow> ('w, wf_error, marking) prog" where
  "get_marking self sub ctx =
     andthen (w_get_marking self sub) (\<lambda>m.
     andthen
       (if m_places m = [] then
          (let initial = d_initial_places (w_definition self)
           in if initial = [] then raise (LogicError EmptyMarkingNoInitial)
              else andthen (lift (fold_r (\<lambda>p. mark p 1) initial m)) (\<lambda>m1.
                   andthen (w_set_marking self sub m1 None) (\<lambda>_.
                   entered self sub None m1 (if ctx = [] then DEFAULT_INITIAL_CONTEXT else ctx))))
        else ret m) (\<lambda>m2.
     let places = d_places (w_definition self)
     in case find (\<lambda>p. p \<notin> set places) (dict_keys (m_places m2)) of
          Some p \<Rightarrow> raise (LogicError (PlaceNotValid p (places = [])))
        | None \<Rightarrow> ret m2))"

definition build_transition_blocker_list_for ::
  "('sub, 'w) workflow \<Rightarrow> 'sub \<Rightarrow> marking \<Rightarrow> transition \<Rightarrow> ('w, wf_error, blocker list \<times> marking) prog" where
  "build_transition_blocker_list_for self sub m t =
     (if list_ex (\<lambda>a. get_token_count m (arc_place a) < arc_weight a) (t_from_arcs t)
      then ret ([create_blocked_by_marking m], m)
      else case w_dispatcher self of
             None \<Rightarrow> ret ([], m)
           | Some disp \<Rightarrow>
               andthen (dispatch_under self disp sub (new_event GuardEvent m (Some t) []) GUARD [t_name t])
                 (\<lambda>e. ret (ev_blockers e, ev_marking e)))"

fun first_unblocked ::
  "('sub, 'w) workflow \<Rightarrow> 'sub \<Rightarrow> transition list \<Rightarrow> marking \<Rightarrow> ('w, wf_error, transition option) prog" where
  "first_unblocked self sub [] m = ret None"
| "first_unblocked self sub (t # ts) m =
     andthen (build_transition_blocker_list_for self sub m t) (\<lambda>(bs, m').
     if bs = [] then ret (Some t) else first_unblocked self sub ts m')"

definition can :: "('sub, 'w) workflow \<Rightarrow> 'sub \<Rightarrow> string \<Rightarrow> ('w, wf_error, bool) prog" where
  "can self sub name =
     andthen (get_marking self sub []) (\<lambda>m.
     andthen (first_unblocked self sub (transitions_named self name) m) (\<lambda>t. ret (t \<noteq> None)))"

definition get_enabled_transition ::
  "('sub, 'w) workflow \<Rightarrow> 'sub \<Rightarrow> string \<Rightarrow> ('w, wf_error, transition option) prog" where
  "get_enabled_transition self sub name =
     andthen (get_marking self sub []) (first_unblocked self sub (transitions_named self name))"

fun explain_blockers ::
  "('sub, 'w) workflow \<Rightarrow> 'sub \<Rightarrow> transition list \<Rightarrow> marking \<Rightarrow> blocker list option
     \<Rightarrow> ('w, wf_error, blocker list option) prog" where
  "explain_blockers self sub [] m prev = ret prev"
| "explain_blockers self sub (t # ts) m prev =
     andthen (build_transition_blocker_list_for self sub m t) (\<lambda>(bs, m').
     if bs = [] \<or> \<not> blockers_has bs BLOCKED_BY_MARKING then ret (Some bs)
     else explain_blockers self sub ts m' (Some bs))"

definition build_transition_blocker_list ::
  "('sub, 'w) workflow \<Rightarrow> 'sub \<Rightarrow> string \<Rightarrow> ('w, wf_error, blocker list) prog" where
  "build_transition_blocker_list self sub name =
     andthen (get_marking self sub []) (\<lambda>m.
     andthen (explain_blockers self sub (transitions_named self name) m None) (\<lambda>r.
     case r of None \<Rightarrow> raise (UndefinedTransitionError name) | Some bs \<Rightarrow> ret bs))"

definition get_enabled_transitions ::
  "('sub, 'w) workflow \<Rightarrow> 'sub \<Rightarrow> ('w, wf_error, transition list) prog" where
  "get_enabled_transitions self sub =
     andthen (get_marking self sub []) (\<lambda>m.
     andthen (for_each (\<lambda>t (ts, m').
                andthen (build_transition_blocker_list_for self sub m' t) (\<lambda>(bs, m'').
                ret (if bs = [] then ts @ [t] else ts, m'')))
              (d_transitions (w_definition self)) ([], m))
       (\<lambda>(ts, _). ret ts))"

section \<open>Applying a transition\<close>

definition leave ::
  "('sub, 'w) workflow \<Rightarrow> 'sub \<Rightarrow> transition \<Rightarrow> marking \<Rightarrow> call_context \<Rightarrow> ('w, wf_error, marking) prog" where
  "leave self sub t m ctx =
     andthen
       (case dispatcher_for self LEAVE ctx of
          None \<Rightarrow> ret m
        | Some disp \<Rightarrow>
            andthen (dispatch_under self disp sub (new_event LeaveEvent m (Some t) ctx) LEAVE (get_froms t))
              (\<lambda>e. ret (ev_marking e)))
       (\<lambda>m'. lift (fold_r (\<lambda>a. unmark (arc_place a) (arc_weight a)) (t_from_arcs t) m'))"

definition take_transition ::
  "('sub, 'w) workflow \<Rightarrow> 'sub \<Rightarrow> transition \<Rightarrow> marking \<Rightarrow> call_context
     \<Rightarrow> ('w, wf_error, marking \<times> call_context) prog" where
  "take_transition self sub t m ctx =
     (case dispatcher_for self TRANSITION ctx of
        None \<Rightarrow> ret (m, ctx)
      | Some disp \<Rightarrow>
          andthen (dispatch_under self disp sub (new_event TransitionEvent m (Some t) ctx) TRANSITION [t_name t])
            (\<lambda>e. ret (ev_marking e, ev_context e)))"

definition enter ::
  "('sub, 'w) workflow \<Rightarrow> 'sub \<Rightarrow> transition \<Rightarrow> marking \<Rightarrow> call_context \<Rightarrow> ('w, wf_error, marking) prog" where
  "enter self sub t m ctx =
     andthen
       (case dispatcher_for self ENTER ctx of
          None \<Rightarrow> ret m
        | Some disp \<Rightarrow>
            andthen (dispatch_under self disp sub (new_event EnterEvent m (Some t) ctx) ENTER (get_tos t))
              (\<lambda>e. ret (ev_marking e)))
       (\<lambda>m'. lift (fold_r (\<lambda>a. mark (arc_place a) (arc_weight a)) (t_to_arcs t) m'))"

definition completed ::
  "('sub, 'w) workflow \<Rightarrow> 'sub \<Rightarrow> transition \<Rightarrow> marking \<Rightarrow> call_context \<Rightarrow> ('w, wf_error, marking) prog" where
  "completed self sub t m ctx =
     (case dispatcher_for self COMPLETED ctx of
        None \<Rightarrow> ret m
      | Some disp \<Rightarrow>
          andthen (dispatch_under self disp sub (new_event CompletedEvent m (Some t) ctx) COMPLETED [t_name t])
            (\<lambda>e. ret (ev_marking e)))"

definition announce_name :: "string \<Rightarrow> string \<Rightarrow> string" where
  "announce_name wname tname = ''workflow.'' @ wname @ ''.announce.'' @ tname"

definition announce ::
  "('sub, 'w) workflow \<Rightarrow> 'sub \<Rightarrow> transition \<Rightarrow> marking \<Rightarrow> call_context \<Rightarrow> ('w, wf_error, marking) prog" where
  "announce self sub t m ctx =
     (case dispatcher_for self ANNOUNCE ctx of
        None \<Rightarrow> ret m
      | Some disp \<Rightarrow>
          andthen (dispatch_under self disp sub (new_event AnnounceEvent m (Some t) ctx) ANNOUNCE []) (\<lambda>e.
          andthen (get_enabled_transitions self sub) (\<lambda>ts.
          andthen (for_each (\<lambda>t' ev. disp sub ev (announce_name (w_name self) (t_name t'))) ts e)
            (\<lambda>e'. ret (ev_marking e')))))"

text \<open>One round of the loop over the approved transitions.\<close>

definition fire ::
  "('sub, 'w) workflow \<Rightarrow> 'sub \<Rightarrow> transition \<Rightarrow> marking \<times> call_context
     \<Rightarrow> ('w, wf_error, marking \<times> call_context) prog" where
  "fire self sub t mc =
     andthen (leave self sub t (fst mc) (snd mc)) (\<lambda>m1.
     andthen (take_transition self sub t m1 (snd mc)) (\<lambda>(m2, ctx).
     andthen (enter self sub t m2 ctx) (\<lambda>m3.
     andthen (w_set_marking self sub m3 (Some ctx)) (\<lambda>_.
     andthen (entered self sub (Some t) m3 ctx) (\<lambda>m4.
     andthen (completed self sub t m4 ctx) (\<lambda>m5.
     andthen (announce self sub t m5 ctx) (\<lambda>m6.
     ret (m6, ctx))))))))"

text \<open>The first loop of \<open>apply\<close>: which transitions are approved, and the best explanation if none is.\<close>

fun survey ::
  "('sub, 'w) workflow \<Rightarrow> 'sub \<Rightarrow> transition list \<Rightarrow> marking \<Rightarrow> transition list \<Rightarrow> blocker list option
     \<Rightarrow> ('w, wf_error, transition list \<times> blocker list option \<times> marking) prog" where
  "survey self sub [] m approved best = ret (approved, best, m)"
| "survey self sub (t # ts) m approved best =
     andthen (build_transition_blocker_list_for self sub m t) (\<lambda>(bs, m').
     if bs = [] then survey self sub ts m' (approved @ [t]) best
     else if best = None \<or> \<not> blockers_has bs BLOCKED_BY_MARKING
       then survey self sub ts m' approved (Some bs)
     else survey self sub ts m' approved best)"

definition wf_apply ::
  "('sub, 'w) workflow \<Rightarrow> 'sub \<Rightarrow> string \<Rightarrow> call_context \<Rightarrow> ('w, wf_error, marking) prog" where
  "wf_apply self sub name context =
     andthen (get_marking self sub context) (\<lambda>m.
     andthen (survey self sub (transitions_named self name) m [] None) (\<lambda>(approved, best, m').
     if approved = [] then
       (case best of
          None \<Rightarrow> raise (UndefinedTransitionError name)
        | Some bs \<Rightarrow> raise (NotEnabledTransitionError name bs))
     else
       andthen (for_each (fire self sub) approved (m', context)) (\<lambda>(m'', ctx).
       ret (set_context ctx m''))))"

lemmas engine_defs [wf_defs] =
  entered_def get_marking_def build_transition_blocker_list_for_def leave_def take_transition_def
  enter_def completed_def announce_def fire_def wf_apply_def

section \<open>Petri net reading of a move\<close>

definition arc_pairs :: "arc list \<Rightarrow> (string \<times> int) list" where
  "arc_pairs as = map (\<lambda>a. (arc_place a, arc_weight a)) as"

definition effect :: "transition \<Rightarrow> string \<Rightarrow> int" where
  "effect t p = arcs_weight (arc_pairs (t_to_arcs t)) p - arcs_weight (arc_pairs (t_from_arcs t)) p"

definition marking_enables :: "marking \<Rightarrow> transition \<Rightarrow> bool" where
  "marking_enables m t \<longleftrightarrow> list_all (\<lambda>a. arc_weight a \<le> get_token_count m (arc_place a)) (t_from_arcs t)"

text \<open>
  The specification: a transition fires on token counts when every place it leaves holds the total
  weight taken from it, and moves exactly its arcs' weights.
\<close>

inductive net_run :: "(string \<Rightarrow> int) \<Rightarrow> transition list \<Rightarrow> (string \<Rightarrow> int) \<Rightarrow> bool" where
  net_done: "net_run M [] M"
| net_step: "\<forall>p. arcs_weight (arc_pairs (t_from_arcs t)) p \<le> M p \<Longrightarrow>
     net_run (\<lambda>p. M p + effect t p) ts M' \<Longrightarrow> net_run M (t # ts) M'"

inductive_simps net_run_Nil [simp]: "net_run M [] M'"
inductive_cases net_run_ConsE: "net_run M (t # ts) M'"

lemma net_run_counts: "net_run M ts M' \<Longrightarrow> M' p = M p + (\<Sum>t \<leftarrow> ts. effect t p)"
  by (induction rule: net_run.induct) simp_all

lemma fold_r_arcs:
  "fold_r (\<lambda>a. f (arc_place a) (arc_weight a)) as m = fold_r (\<lambda>(p, n). f p n) (arc_pairs as) m"
  unfolding arc_pairs_def by (induction as arbitrary: m) (simp_all split: sum.splits)

lemma arc_pairs_pos: "list_all arc_ok as \<Longrightarrow> list_all (\<lambda>(p, n). 1 \<le> n) (arc_pairs as)"
  by (auto simp: arc_pairs_def arc_ok_def list_all_iff)

lemma unmark_all_returned:
  assumes "marking_ok m" and "list_all arc_ok as"
    and "fold_r (\<lambda>a. unmark (arc_place a) (arc_weight a)) as m = Inr m'"
  shows "marking_ok m' \<and> (\<forall>p. arcs_weight (arc_pairs as) p \<le> get_token_count m p)
    \<and> (\<forall>p. get_token_count m' p = get_token_count m p - arcs_weight (arc_pairs as) p)"
proof -
  note pos = arc_pairs_pos [OF assms(2)]
  have enough: "arcs_weight (arc_pairs as) p \<le> get_token_count m p" for p
    using mk.take_all_short [OF assms(1) pos, of p] assms(3) fold_r_arcs [of unmark as m] by force
  then show ?thesis
    using mk.take_all [OF assms(1) pos] assms(3) fold_r_arcs [of unmark as m] by auto
qed

lemma mark_all_returns:
  assumes "marking_ok m" and "list_all arc_ok as"
  shows "\<exists>m'. fold_r (\<lambda>a. mark (arc_place a) (arc_weight a)) as m = Inr m' \<and> marking_ok m'
    \<and> (\<forall>p. get_token_count m' p = get_token_count m p + arcs_weight (arc_pairs as) p)"
  using mk.put_all [OF assms(1) arc_pairs_pos [OF assms(2)]] by (simp add: fold_r_arcs)

lemma unmark_all_returns:
  assumes "marking_ok m" and "list_all arc_ok as" and "distinct (map arc_place as)"
    and "list_all (\<lambda>a. arc_weight a \<le> get_token_count m (arc_place a)) as"
  shows "\<exists>m'. fold_r (\<lambda>a. unmark (arc_place a) (arc_weight a)) as m = Inr m' \<and> marking_ok m'
    \<and> (\<forall>p. get_token_count m' p = get_token_count m p - arcs_weight (arc_pairs as) p)"
proof -
  have "map fst (arc_pairs as) = map arc_place as" by (simp add: arc_pairs_def)
  then have d: "distinct (map fst (arc_pairs as))" using assms(3) by simp
  have "arcs_weight (arc_pairs as) p \<le> get_token_count m p" for p
  proof (cases "p \<in> fst ` set (arc_pairs as)")
    case True
    then obtain a where a: "a \<in> set as" "p = arc_place a" by (auto simp: arc_pairs_def)
    then have "(p, arc_weight a) \<in> set (arc_pairs as)" by (auto simp: arc_pairs_def)
    with arcs_weight_distinct [OF d] assms(4) a show ?thesis by (auto simp: list_all_iff)
  next
    case False
    with arcs_weight_notin [OF False] token_count_nonneg [OF assms(1)] show ?thesis by simp
  qed
  then show ?thesis
    using mk.take_all [OF assms(1) arc_pairs_pos [OF assms(2)]] by (simp add: fold_r_arcs)
qed

section \<open>Listeners that leave the marking alone\<close>

text \<open>
  Listeners may do anything to the world; the one thing the engine needs of them is that they do
  not write to the marking of the event they are handed, which \<open>Marking\<close> reserves to the workflow.
\<close>

definition keeps_marking :: "('sub, 'w) dispatcher \<Rightarrow> bool" where
  "keeps_marking disp \<longleftrightarrow>
     (\<forall>sub e n s e' s'. disp sub e n s = (Inr e', s') \<longrightarrow> ev_marking e' = ev_marking e)"

definition respectful :: "('sub, 'w) workflow \<Rightarrow> bool" where
  "respectful self \<longleftrightarrow> (case w_dispatcher self of None \<Rightarrow> True | Some disp \<Rightarrow> keeps_marking disp)"

lemma keeps_markingD: "keeps_marking disp \<Longrightarrow> disp sub e n s = (Inr e', s') \<Longrightarrow> ev_marking e' = ev_marking e"
  unfolding keeps_marking_def by blast

lemma for_each_dispatch:
  assumes "keeps_marking disp" and "for_each (\<lambda>x ev. disp sub ev (g x)) xs e s = (Inr e', s')"
  shows "ev_marking e' = ev_marking e"
  using for_each_inv [OF assms(2), of "\<lambda>ev _. ev_marking ev = ev_marking e"] keeps_markingD [OF assms(1)]
  by auto

lemma dispatch_under_marking:
  assumes "keeps_marking disp" and "dispatch_under self disp sub e name nodes s = (Inr e', s')"
  shows "ev_marking e' = ev_marking e"
  using assms(2) unfolding dispatch_under_def
  by (auto elim!: andthen_InrE dest!: keeps_markingD [OF assms(1)] for_each_dispatch [OF assms(1)])

lemma dispatcher_for_respectful:
  "respectful self \<Longrightarrow> dispatcher_for self name ctx = Some disp \<Longrightarrow> keeps_marking disp"
  by (auto simp: respectful_def dispatcher_for_def Let_def split: option.splits if_splits)

lemma new_event_marking [simp]: "ev_marking (new_event k m t c) = m"
  by (simp add: new_event_def)

lemma announce_marking:
  assumes "respectful self" and "announce self sub t m ctx s = (Inr m', s')"
  shows "m' = m"
proof (cases "dispatcher_for self ANNOUNCE ctx")
  case None
  with assms(2) show ?thesis by (simp add: announce_def)
next
  case (Some disp)
  note k = dispatcher_for_respectful [OF assms(1) Some]
  from assms(2) Some obtain e and ts :: "transition list" and e' s1 s2 where
      "dispatch_under self disp sub (new_event AnnounceEvent m (Some t) ctx) ANNOUNCE [] s = (Inr e, s1)"
      "for_each (\<lambda>t' ev. disp sub ev (announce_name (w_name self) (t_name t'))) ts e s2 = (Inr e', s')"
      "m' = ev_marking e'"
    by (auto simp: announce_def elim!: andthen_InrE)
  with dispatch_under_marking [OF k] for_each_dispatch [OF k, where g = "\<lambda>t' :: transition. announce_name (w_name self) (t_name t')"]
  show ?thesis by fastforce
qed

lemma step_marking:
  assumes "respectful self"
  shows "entered self sub ot m ctx s = (Inr m', s') \<Longrightarrow> m' = m"
    and "completed self sub t m ctx s = (Inr m', s') \<Longrightarrow> m' = m"
    and "take_transition self sub t m ctx s = (Inr (m', c'), s') \<Longrightarrow> m' = m"
  unfolding entered_def completed_def take_transition_def
  by (auto split: option.splits elim!: andthen_InrE
      dest!: dispatcher_for_respectful [OF assms] dest: dispatch_under_marking)

lemma leave_returned:
  assumes "respectful self" and "leave self sub t m ctx s = (Inr m', s')"
  shows "fold_r (\<lambda>a. unmark (arc_place a) (arc_weight a)) (t_from_arcs t) m = Inr m'"
  using assms(2) unfolding leave_def
  by (auto split: option.splits elim!: andthen_InrE dest!: dispatcher_for_respectful [OF assms(1)]
      dest: dispatch_under_marking)

lemma enter_returned:
  assumes "respectful self" and "enter self sub t m ctx s = (Inr m', s')"
  shows "fold_r (\<lambda>a. mark (arc_place a) (arc_weight a)) (t_to_arcs t) m = Inr m'"
  using assms(2) unfolding enter_def
  by (auto split: option.splits elim!: andthen_InrE dest!: dispatcher_for_respectful [OF assms(1)]
      dest: dispatch_under_marking)

lemma blocker_list_returned:
  assumes "respectful self"
    and "build_transition_blocker_list_for self sub m t s = (Inr (bs, m'), s')"
  shows "m' = m \<and> (bs = [] \<longrightarrow> marking_enables m t)"
proof -
  have disp: "keeps_marking disp" if "w_dispatcher self = Some disp" for disp
    using assms(1) that by (simp add: respectful_def)
  show ?thesis
    using assms(2) unfolding build_transition_blocker_list_for_def marking_enables_def
    by (auto simp: list_all_iff list_ex_iff not_less split: if_splits option.splits elim!: andthen_InrE
        dest!: disp dest: dispatch_under_marking)
qed

lemma set_subseq: "subseq xs ys \<Longrightarrow> set xs \<subseteq> set ys"
  by (auto elim: list_emb_set)

lemma token_count_context: "get_token_count (set_context c m) = get_token_count m"
  by (rule ext) (simp add: set_context_def get_token_count_def)

lemma set_context_places [simp]: "m_places (set_context c m) = m_places m" "m_context (set_context c m) = c"
  by (simp_all add: set_context_def)

lemma marking_ok_context: "marking_ok (set_context c m) = marking_ok m"
  by (simp add: set_context_def marking_ok_def)

lemma survey_returned:
  assumes "respectful self"
    and "survey self sub ts m approved best s = (Inr (approved', best', m'), s')"
  shows "m' = m \<and> (\<exists>us. approved' = approved @ us \<and> subseq us ts \<and> (\<forall>t \<in> set us. marking_enables m t))"
  using assms(2)
proof (induction ts arbitrary: approved best s)
  case Nil
  then show ?case by simp
next
  case (Cons t ts)
  from Cons.prems obtain bs m1 s1 where
      b: "build_transition_blocker_list_for self sub m t s = (Inr (bs, m1), s1)"
    by (auto elim!: andthen_InrE)
  from blocker_list_returned [OF assms(1) b] have m1: "m1 = m" and en: "bs = [] \<longrightarrow> marking_enables m t"
    by auto
  show ?case
  proof (cases "bs = []")
    case True
    with Cons.prems b m1 have "survey self sub ts m (approved @ [t]) best s1 = (Inr (approved', best', m'), s')"
      by (simp add: andthen_Inr)
    from Cons.IH [OF this] obtain us where "m' = m" "approved' = approved @ t # us" "subseq us ts"
        "\<forall>t \<in> set us. marking_enables m t" by auto
    with True en show ?thesis
      by (intro conjI exI [of _ "t # us"]) auto
  next
    case False
    with Cons.prems b m1 obtain best1 where
        "survey self sub ts m approved best1 s1 = (Inr (approved', best', m'), s')"
      by (auto simp: andthen_Inr split: if_splits)
    from Cons.IH [OF this] show ?thesis by auto
  qed
qed

lemma fire_returned:
  assumes "respectful self" and "marking_ok (fst mc)" and "transition_ok t"
    and "fire self sub t mc s = (Inr mc', s')"
  shows "marking_ok (fst mc')
    \<and> (\<forall>p. arcs_weight (arc_pairs (t_from_arcs t)) p \<le> get_token_count (fst mc) p)
    \<and> get_token_count (fst mc') = (\<lambda>p. get_token_count (fst mc) p + effect t p)"
proof -
  from assms(4) obtain m1 m2 ctx m3 m4 m5 m6 s1 s2 s3 s4 s5 s6 where
      st: "leave self sub t (fst mc) (snd mc) s = (Inr m1, s1)"
      "take_transition self sub t m1 (snd mc) s1 = (Inr (m2, ctx), s2)"
      "enter self sub t m2 ctx s2 = (Inr m3, s3)"
      "entered self sub (Some t) m3 ctx s4 = (Inr m4, s5)"
      "completed self sub t m4 ctx s5 = (Inr m5, s6)"
      "announce self sub t m5 ctx s6 = (Inr m6, s')" "mc' = (m6, ctx)"
    unfolding fire_def by (auto elim!: andthen_InrE)
  from assms(3) have ok: "list_all arc_ok (t_from_arcs t)" "list_all arc_ok (t_to_arcs t)"
    by (auto simp: transition_ok_def)
  note un = unmark_all_returned [OF assms(2) ok(1) leave_returned [OF assms(1) st(1)]]
  have "m2 = m1" using step_marking(3) [OF assms(1) st(2)] .
  moreover have "m6 = m3"
    using step_marking(1,2) [OF assms(1)] announce_marking [OF assms(1)] st by metis
  ultimately have "marking_ok m6 \<and> (\<forall>p. get_token_count m6 p
      = get_token_count m1 p + arcs_weight (arc_pairs (t_to_arcs t)) p)"
    using mark_all_returns [of m1 "t_to_arcs t"] un ok(2) enter_returned [OF assms(1) st(3)] by auto
  with un st(7) show ?thesis by (auto simp: effect_def)
qed

lemma fire_all_returned:
  assumes "respectful self"
  shows "marking_ok (fst mc) \<Longrightarrow> \<forall>t \<in> set ts. transition_ok t
    \<Longrightarrow> for_each (fire self sub) ts mc s = (Inr mc', s')
    \<Longrightarrow> marking_ok (fst mc') \<and> net_run (get_token_count (fst mc)) ts (get_token_count (fst mc'))"
proof (induction ts arbitrary: mc s)
  case Nil
  then show ?case by simp
next
  case (Cons t ts)
  from Cons.prems(3) obtain mc1 s1 where
      f: "fire self sub t mc s = (Inr mc1, s1)" "for_each (fire self sub) ts mc1 s1 = (Inr mc', s')"
    by (auto elim: andthen_InrE)
  have t: "transition_ok t" using Cons.prems(2) by simp
  note r = fire_returned [OF assms Cons.prems(1) t f(1)]
  with Cons.IH [OF _ _ f(2)] Cons.prems(2) show ?case
    by (auto intro: net_run.net_step)
qed

text \<open>
  C25: whatever the listeners do to the world, as long as they leave the marking alone, applying a
  name that returns has run, as a Petri net, a selection of the transitions of that name, all
  enabled by the marking the subject was in, in the order of the definition; and the marking
  returned is the result of that run.
\<close>

theorem apply_refines_net:
  assumes "respectful self" and "\<forall>t \<in> set (d_transitions (w_definition self)). transition_ok t"
    and "wf_apply self sub name ctx s = (Inr m', s')"
    and "\<forall>m0 s0. get_marking self sub ctx s = (Inr m0, s0) \<longrightarrow> marking_ok m0"
  shows "\<exists>m0 s0 us. get_marking self sub ctx s = (Inr m0, s0) \<and> us \<noteq> []
      \<and> subseq us (transitions_named self name) \<and> (\<forall>t \<in> set us. marking_enables m0 t)
      \<and> net_run (get_token_count m0) us (get_token_count m') \<and> marking_ok m'"
proof -
  from assms(3) obtain m0 s0 approved best m1 s1 where
      g: "get_marking self sub ctx s = (Inr m0, s0)"
      and sv: "survey self sub (transitions_named self name) m0 [] None s0 = (Inr (approved, best, m1), s1)"
      and r: "(if approved = [] then (case best of None \<Rightarrow> raise (UndefinedTransitionError name)
          | Some bs \<Rightarrow> raise (NotEnabledTransitionError name bs))
        else andthen (for_each (fire self sub) approved (m1, ctx)) (\<lambda>(m'', ctx). ret (set_context ctx m''))) s1
        = (Inr m', s')"
    unfolding wf_apply_def by (auto elim!: andthen_InrE)
  from survey_returned [OF assms(1) sv] have "m1 = m0" and sub: "subseq approved (transitions_named self name)"
      and en: "\<forall>t \<in> set approved. marking_enables m0 t" by auto
  have ne: "approved \<noteq> []" using r by (auto split: option.splits)
  with r \<open>m1 = m0\<close> obtain m2 c2 where f: "for_each (fire self sub) approved (m0, ctx) s1 = (Inr (m2, c2), s')"
      and m': "m' = set_context c2 m2"
    by (auto elim!: andthen_InrE)
  have "\<forall>t \<in> set approved. transition_ok t"
    using assms(2) set_subseq [OF sub] by (auto simp: transitions_named_def)
  with fire_all_returned [OF assms(1) _ _ f] assms(4) g
  have "marking_ok m2" "net_run (get_token_count m0) approved (get_token_count m2)" by auto
  with g sub en ne m' show ?thesis
    by (auto simp: token_count_context marking_ok_context)
qed

section \<open>Without a dispatcher\<close>

lemma dispatcher_for_none [simp]: "w_dispatcher self = None \<Longrightarrow> dispatcher_for self name ctx = None"
  by (simp add: dispatcher_for_def)

lemma quiet_steps:
  assumes "w_dispatcher self = None"
  shows "entered self sub ot m ctx = ret m"
    and "completed self sub t m ctx = ret m"
    and "announce self sub t m ctx = ret m"
    and "take_transition self sub t m ctx = ret (m, ctx)"
    and "leave self sub t m ctx = lift (fold_r (\<lambda>a. unmark (arc_place a) (arc_weight a)) (t_from_arcs t) m)"
    and "enter self sub t m ctx = lift (fold_r (\<lambda>a. mark (arc_place a) (arc_weight a)) (t_to_arcs t) m)"
  using assms
  by (simp_all add: entered_def completed_def announce_def take_transition_def leave_def enter_def)

lemma quiet_blockers:
  assumes "w_dispatcher self = None"
  shows "build_transition_blocker_list_for self sub m t
    = ret (if marking_enables m t then [] else [create_blocked_by_marking m], m)"
  using assms by (auto simp: build_transition_blocker_list_for_def marking_enables_def
      list_ex_iff list_all_iff not_less)

fun quiet_best :: "marking \<Rightarrow> transition list \<Rightarrow> blocker list option \<Rightarrow> blocker list option" where
  "quiet_best m ts (Some bs) = Some bs"
| "quiet_best m ts None =
     (if list_all (marking_enables m) ts then None else Some [create_blocked_by_marking m])"

lemma blocked_by_marking_has: "blockers_has [create_blocked_by_marking m] BLOCKED_BY_MARKING"
  by (simp add: blockers_has_def create_blocked_by_marking_def)

lemma quiet_survey:
  assumes "w_dispatcher self = None"
  shows "survey self sub ts m approved best
    = ret (approved @ filter (marking_enables m) ts, quiet_best m ts best, m)"
proof (induction ts arbitrary: approved best)
  case Nil
  then show ?case by (cases best) simp_all
next
  case (Cons t ts)
  then show ?case
    by (cases best) (simp_all add: quiet_blockers [OF assms] blocked_by_marking_has)
qed

lemma quiet_first_unblocked:
  assumes "w_dispatcher self = None"
  shows "first_unblocked self sub ts m = ret (find (marking_enables m) ts)"
  by (induction ts) (simp_all add: quiet_blockers [OF assms])

lemma quiet_fire:
  assumes "w_dispatcher self = None"
    and "fold_r (\<lambda>a. unmark (arc_place a) (arc_weight a)) (t_from_arcs t) m = Inr m1"
    and "fold_r (\<lambda>a. mark (arc_place a) (arc_weight a)) (t_to_arcs t) m1 = Inr m2"
    and "w_set_marking self sub m2 (Some ctx) w = (Inr (), w')"
  shows "fire self sub t (m, ctx) w = (Inr (m2, ctx), w')"
  using assms(2,3,4) by (simp add: fire_def quiet_steps [OF assms(1)] andthen_Inr)

text \<open>Transitions of one name conflict when they leave a common place, or one leaves a place twice.\<close>

definition conflict_free :: "transition list \<Rightarrow> bool" where
  "conflict_free ts \<longleftrightarrow> distinct (concat (map get_froms ts))"

lemma conflict_free_Cons:
  "conflict_free (t # ts) \<longleftrightarrow> distinct (get_froms t) \<and> conflict_free ts
     \<and> (\<forall>u \<in> set ts. set (get_froms t) \<inter> set (get_froms u) = {})"
  unfolding conflict_free_def by auto

lemma conflict_free_filter: "conflict_free ts \<Longrightarrow> conflict_free (filter P ts)"
  by (induction ts) (auto simp: conflict_free_Cons conflict_free_def)

lemma effect_elsewhere:
  assumes "transition_ok t" and "p \<notin> set (get_froms t)"
  shows "0 \<le> effect t p"
proof -
  have "arcs_weight (arc_pairs (t_from_arcs t)) p = 0"
    using assms(2) by (intro arcs_weight_notin) (auto simp: arc_pairs_def get_froms_def)
  moreover have "0 \<le> arcs_weight (arc_pairs (t_to_arcs t)) p"
    using assms(1) by (intro arcs_weight_nonneg arc_pairs_pos) (simp add: transition_ok_def)
  ultimately show ?thesis by (simp add: effect_def)
qed

lemma enabled_after_other:
  assumes "transition_ok t" and "set (get_froms t) \<inter> set (get_froms u) = {}" and "marking_enables m u"
    and "\<forall>p. get_token_count m' p = get_token_count m p + effect t p"
  shows "marking_enables m' u"
proof -
  have "arc_weight a \<le> get_token_count m' (arc_place a)" if a: "a \<in> set (t_from_arcs u)" for a
  proof -
    from a assms(2) have "arc_place a \<notin> set (get_froms t)" by (auto simp: get_froms_def)
    from effect_elsewhere [OF assms(1) this] a assms(3,4) show ?thesis
      by (auto simp: marking_enables_def list_all_iff)
  qed
  then show ?thesis by (simp add: marking_enables_def list_all_iff)
qed

text \<open>
  The marking a workflow works on: the subject's own, or the one a subject without tokens is given,
  a token in each initial place per mention.
\<close>

definition first_marking :: "wf_definition \<Rightarrow> marking" where
  "first_marking d = (case fold_r (\<lambda>p. mark p 1) (d_initial_places d) Marking_empty of
     Inl e \<Rightarrow> Marking_empty
   | Inr m \<Rightarrow> m)"

definition met_marking :: "wf_definition \<Rightarrow> marking \<Rightarrow> marking" where
  "met_marking d m = (if m_places m = [] then first_marking d else m)"

section \<open>The marking store contract\<close>

text \<open>
  What a workflow relies on in its store: reading returns what is stored and leaves it stored,
  and writing a marking the store can hold makes it what is stored for that subject alone. A store
  that keeps a single place only holds some markings (\<open>fits\<close>).
\<close>

locale marking_store =
  fixes get_m :: "'sub \<Rightarrow> ('w, wf_error, marking) prog"
    and set_m :: "'sub \<Rightarrow> marking \<Rightarrow> call_context option \<Rightarrow> ('w, wf_error, unit) prog"
    and stored :: "'w \<Rightarrow> 'sub \<Rightarrow> (string, int) dict"
    and good :: "'w \<Rightarrow> bool"
    and fits :: "(string, int) dict \<Rightarrow> bool"
  assumes get_stored: "good w \<Longrightarrow>
      \<exists>w'. get_m sub w = (Inr \<lparr>m_places = stored w sub, m_context = []\<rparr>, w') \<and> good w' \<and> stored w' = stored w"
    and stored_ok: "good w \<Longrightarrow> marking_ok \<lparr>m_places = stored w sub, m_context = []\<rparr>"
    and set_stored: "good w \<Longrightarrow> marking_ok m \<Longrightarrow> fits (m_places m) \<Longrightarrow>
      \<exists>w'. set_m sub m c w = (Inr (), w') \<and> good w' \<and> stored w' = (stored w)(sub := m_places m)"
begin

definition stands_on :: "('sub, 'w) workflow \<Rightarrow> bool" where
  "stands_on self \<longleftrightarrow> w_get_marking self = get_m \<and> w_set_marking self = set_m \<and> w_dispatcher self = None"

lemma get_marking_stored:
  assumes "stands_on self" and "good w" and "stored w sub \<noteq> []"
    and "set (dict_keys (stored w sub)) \<subseteq> set (d_places (w_definition self))"
  shows "\<exists>w'. get_marking self sub ctx w = (Inr \<lparr>m_places = stored w sub, m_context = []\<rparr>, w')
    \<and> good w' \<and> stored w' = stored w"
proof -
  have "find (\<lambda>p. p \<notin> set (d_places (w_definition self))) (dict_keys (stored w sub)) = None"
    using assms(4) by (auto simp: find_None_iff)
  with assms(1,3) get_stored [OF assms(2), of sub] show ?thesis
    by (auto simp: get_marking_def stands_on_def andthen_Inr Let_def)
qed

lemma get_marking_initial:
  assumes "stands_on self" and "good w" and "stored w sub = []"
    and "definition_ok (w_definition self)" and "d_places (w_definition self) \<noteq> []"
    and fits_all: "\<And>ps. fits ps"
  shows "\<exists>m w'. get_marking self sub ctx w = (Inr m, w') \<and> good w' \<and> marking_ok m
    \<and> stored w' = (stored w)(sub := m_places m) \<and> m = first_marking (w_definition self)
    \<and> (\<forall>p. get_token_count m p = count_list (d_initial_places (w_definition self)) p)"
proof -
  let ?is = "d_initial_places (w_definition self)"
  let ?m = "\<lparr>m_places = stored w sub, m_context = []\<rparr>"
  have counts: "arcs_weight (map (\<lambda>p. (p, 1)) ps) p = count_list ps p" for ps :: "string list" and p
    by (induction ps) auto
  have conv: "fold_r (\<lambda>p. mark p 1) ps m = fold_r (\<lambda>(p, n). mark p n) (map (\<lambda>p. (p, 1)) ps) m"
    for ps m by (induction ps arbitrary: m) (auto split: sum.splits)
  obtain m1 where m1: "fold_r (\<lambda>p. mark p 1) ?is ?m = Inr m1" "marking_ok m1"
      "\<forall>p. get_token_count m1 p = get_token_count ?m p + count_list ?is p"
    using mk.put_all [OF stored_ok [OF assms(2)], of "map (\<lambda>p. (p, 1)) ?is" sub]
    by (auto simp: conv counts list_all_iff)
  obtain w0 where w0: "get_m sub w = (Inr ?m, w0)" "good w0" "stored w0 = stored w"
    using get_stored [OF assms(2)] by blast
  obtain w' where w': "set_m sub m1 None w0 = (Inr (), w')" "good w'" "stored w' = (stored w)(sub := m_places m1)"
    using set_stored [OF w0(2) m1(2) fits_all] w0(3) by metis
  have zero: "get_token_count ?m p = 0" for p
    using assms(3) by (simp add: get_token_count_def dict_get_or_def)
  have "set (dict_keys (m_places m1)) \<subseteq> set (d_places (w_definition self))"
  proof
    fix p assume "p \<in> set (dict_keys (m_places m1))"
    then have "count_list ?is p \<noteq> 0"
      using token_count_pos_iff [OF m1(2), of p] m1(3) zero by auto
    then show "p \<in> set (d_places (w_definition self))"
      using assms(4) count_list_0_iff [of ?is p] by (auto simp: definition_ok_def)
  qed
  then have chk: "find (\<lambda>p. p \<notin> set (d_places (w_definition self))) (dict_keys (m_places m1)) = None"
    by (auto simp: find_None_iff)
  have "?is \<noteq> []" using assms(4,5) by (simp add: definition_ok_def)
  with assms(1,3) w0(1) m1(1) w'(1) chk
  have "get_marking self sub ctx w = (Inr m1, w')"
    by (simp add: get_marking_def stands_on_def andthen_Inr Let_def quiet_steps)
  moreover have "m1 = first_marking (w_definition self)"
    using m1(1) assms(3) by (simp add: first_marking_def Marking_empty_def)
  ultimately show ?thesis using w' m1 zero by auto
qed

lemma get_marking_met:
  assumes "stands_on self" and fits_all: "\<And>ps. fits ps" and "good w"
    and "stored w sub = [] \<Longrightarrow> definition_ok (w_definition self) \<and> d_places (w_definition self) \<noteq> []"
    and "set (dict_keys (stored w sub)) \<subseteq> set (d_places (w_definition self))"
    and m: "m = met_marking (w_definition self) \<lparr>m_places = stored w sub, m_context = []\<rparr>"
  shows "\<exists>w'. get_marking self sub ctx w = (Inr m, w') \<and> good w' \<and> marking_ok m
    \<and> stored w' = (stored w)(sub := m_places m)"
proof (cases "stored w sub = []")
  case True
  with assms(4) m get_marking_initial [OF assms(1,3) True _ _ fits_all, of ctx] show ?thesis
    by (auto simp: met_marking_def)
next
  case False
  with m have "m = \<lparr>m_places = stored w sub, m_context = []\<rparr>" by (simp add: met_marking_def)
  with get_marking_stored [OF assms(1,3) False assms(5), of ctx] stored_ok [OF assms(3), of sub] show ?thesis
    by (simp add: fun_upd_idem)
qed

lemma fire_all_stored:
  assumes "stands_on self" and fits_all: "\<And>ps. fits ps"
  shows "good w \<Longrightarrow> marking_ok m \<Longrightarrow> conflict_free ts \<Longrightarrow> \<forall>t \<in> set ts. transition_ok t \<and> marking_enables m t
    \<Longrightarrow> \<exists>m' w'. for_each (fire self sub) ts (m, ctx) w = (Inr (m', ctx), w') \<and> good w' \<and> marking_ok m'
      \<and> (\<forall>p. get_token_count m' p = get_token_count m p + (\<Sum>t \<leftarrow> ts. effect t p))
      \<and> (ts \<noteq> [] \<longrightarrow> stored w' = (stored w)(sub := m_places m'))"
proof (induction ts arbitrary: m w)
  case Nil
  then show ?case by simp
next
  case (Cons t ts)
  from Cons.prems have t: "transition_ok t" "marking_enables m t" by auto
  obtain m1 where m1: "fold_r (\<lambda>a. unmark (arc_place a) (arc_weight a)) (t_from_arcs t) m = Inr m1"
      "marking_ok m1" "\<forall>p. get_token_count m1 p = get_token_count m p - arcs_weight (arc_pairs (t_from_arcs t)) p"
    using unmark_all_returns [of m "t_from_arcs t"] Cons.prems t
    by (auto simp: conflict_free_Cons get_froms_def transition_ok_def marking_enables_def)
  obtain m2 where m2: "fold_r (\<lambda>a. mark (arc_place a) (arc_weight a)) (t_to_arcs t) m1 = Inr m2"
      "marking_ok m2" "\<forall>p. get_token_count m2 p = get_token_count m p + effect t p"
    using mark_all_returns [OF m1(2), of "t_to_arcs t"] m1(3) t(1)
    by (auto simp: transition_ok_def effect_def)
  obtain w1 where w1: "set_m sub m2 (Some ctx) w = (Inr (), w1)" "good w1" "stored w1 = (stored w)(sub := m_places m2)"
    using set_stored [OF Cons.prems(1) m2(2) fits_all] by blast
  have f: "fire self sub t (m, ctx) w = (Inr (m2, ctx), w1)"
    using assms(1) w1(1) by (intro quiet_fire [OF _ m1(1) m2(1)]) (auto simp: stands_on_def)
  have "\<forall>u \<in> set ts. transition_ok u \<and> marking_enables m2 u"
    using Cons.prems(3,4) enabled_after_other [OF t(1) _ _ m2(3)] by (auto simp: conflict_free_Cons)
  moreover have "conflict_free ts" using Cons.prems(3) by (simp add: conflict_free_Cons)
  ultimately obtain m' w' where "for_each (fire self sub) ts (m2, ctx) w1 = (Inr (m', ctx), w')" "good w'"
      "marking_ok m'" "\<forall>p. get_token_count m' p = get_token_count m2 p + (\<Sum>t \<leftarrow> ts. effect t p)"
      "ts \<noteq> [] \<longrightarrow> stored w' = (stored w1)(sub := m_places m')" "ts = [] \<longrightarrow> w' = w1 \<and> m' = m2"
    using Cons.IH [OF w1(2) m2(2)] by (cases "ts = []") (auto simp: w1(2) m2(2) fun_upd_def)
  with f m2(3) w1(3) show ?case by (auto simp: andthen_Inr)
qed

lemma apply_stored:
  assumes "stands_on self" and fits_all: "\<And>ps. fits ps" and "good w"
    and met: "get_marking self sub ctx w = (Inr m0, w0)" "good w0" "marking_ok m0"
      "stored w0 = (stored w)(sub := m_places m0)"
    and "conflict_free (transitions_named self name)"
    and "\<forall>t \<in> set (d_transitions (w_definition self)). transition_ok t"
    and us: "us = filter (marking_enables m0) (transitions_named self name)"
    and "us \<noteq> []"
  shows "\<exists>m w'. wf_apply self sub name ctx w = (Inr m, w') \<and> good w' \<and> marking_ok m \<and> m_context m = ctx
    \<and> stored w' = (stored w)(sub := m_places m)
    \<and> (\<forall>p. get_token_count m p = get_token_count m0 p + (\<Sum>t \<leftarrow> us. effect t p))"
proof -
  have quiet: "w_dispatcher self = None" using assms(1) by (simp add: stands_on_def)
  have "\<forall>t \<in> set us. transition_ok t \<and> marking_enables m0 t"
    using assms(9) us by (auto simp: transitions_named_def)
  then obtain m' w' where r: "for_each (fire self sub) us (m0, ctx) w0 = (Inr (m', ctx), w')" "good w'"
      "marking_ok m'" "\<forall>p. get_token_count m' p = get_token_count m0 p + (\<Sum>t \<leftarrow> us. effect t p)"
      "stored w' = (stored w)(sub := m_places m')"
    using fire_all_stored [OF assms(1) fits_all met(2,3), of us] assms(11) us
      conflict_free_filter [OF assms(8)] met(4) by (metis fun_upd_upd)
  have "wf_apply self sub name ctx w = (Inr (set_context ctx m'), w')"
    using met(1) assms(11) r(1) us
    by (simp add: wf_apply_def andthen_Inr quiet_survey [OF quiet])
  with r show ?thesis
    by (auto simp: token_count_context marking_ok_context)
qed

lemma apply_refused:
  assumes "stands_on self" and met: "get_marking self sub ctx w = (Inr m0, w0)"
    and none: "filter (marking_enables m0) (transitions_named self name) = []"
  shows "wf_apply self sub name ctx w =
      (Inl (if transitions_named self name = [] then UndefinedTransitionError name
            else NotEnabledTransitionError name [create_blocked_by_marking m0]), w0)"
proof -
  have quiet: "w_dispatcher self = None" using assms(1) by (simp add: stands_on_def)
  have "list_all (marking_enables m0) (transitions_named self name) \<longleftrightarrow> transitions_named self name = []"
    using none by (auto simp: filter_empty_conv list_all_iff)
  with met none show ?thesis
    by (auto simp: wf_apply_def andthen_Inr quiet_survey [OF quiet])
qed

lemma can_met:
  assumes "stands_on self" and met: "get_marking self sub [] w = (Inr m0, w0)"
  shows "can self sub name w = (Inr (filter (marking_enables m0) (transitions_named self name) \<noteq> []), w0)"
proof -
  have quiet: "w_dispatcher self = None" using assms(1) by (simp add: stands_on_def)
  have "(find (marking_enables m0) ts \<noteq> None) = (filter (marking_enables m0) ts \<noteq> [])" for ts
    by (auto simp: find_None_iff filter_empty_conv)
  with met show ?thesis
    by (auto simp: can_def andthen_Inr quiet_first_unblocked [OF quiet])
qed

end

end
