(* ===== verification/Workflow_Store.thy ===== *)
theory Workflow_Store
  imports Workflow_Engine
begin

text \<open>
  The method marking store (\<open>marking_store/method_marking_store.py\<close>): a subject's marking kept on
  the subject, through its accessors or its attribute, as a dict of places or, for a state machine,
  as the name of one place. What a subject's class offers is application code: its accessors and
  its attribute are the arguments \<open>subject_ops\<close>. How the subjects of a class are reached is worked
  out for the first one met and kept for the others.
\<close>

datatype store_method = METHOD | PROPERTY

text \<open>
  A subject class as the store meets it. A read that yields \<open>None\<close> is the \<open>AttributeError\<close> of the
  marking's own attribute on that subject; \<open>so_enum\<close> is the enum the setter or the attribute is
  annotated with; \<open>so_str\<close> is \<open>str()\<close> on a value that is not a string.
\<close>

record ('sub, 'w) subject_ops =
  so_class :: "'sub \<Rightarrow> nat"
  so_has_getter :: "'sub \<Rightarrow> bool"
  so_has_setter :: "'sub \<Rightarrow> bool"
  so_has_attribute :: "'sub \<Rightarrow> 'w \<Rightarrow> bool"
  so_call_getter :: "'sub \<Rightarrow> ('w, wf_error, pyval option) prog"
  so_call_setter :: "'sub \<Rightarrow> pyval \<Rightarrow> call_context \<Rightarrow> ('w, wf_error, unit) prog"
  so_read :: "'sub \<Rightarrow> 'w \<Rightarrow> pyval option"
  so_write :: "'sub \<Rightarrow> pyval \<Rightarrow> 'w \<Rightarrow> 'w"
  so_enum :: "'sub \<Rightarrow> (pyval \<Rightarrow> wf_error + pyval) option"
  so_str :: "pyval \<Rightarrow> string"

text \<open>The store's two per-class memos, beside the application's objects.\<close>

record 'w store_world =
  sw_getters :: "(nat, store_method) dict"
  sw_setters :: "(nat, store_method) dict"
  sw_objects :: 'w

definition on_objects :: "('w, 'e, 'a) prog \<Rightarrow> ('w store_world, 'e, 'a) prog" where
  "on_objects m = (\<lambda>s. case m (sw_objects s) of (r, w') \<Rightarrow> (r, s\<lparr>sw_objects := w'\<rparr>))"

definition reached_through :: "bool \<Rightarrow> bool \<Rightarrow> wf_error + store_method" where
  "reached_through has_method has_attribute =
     (if has_method then Inr METHOD
      else if has_attribute then Inr PROPERTY
      else Inl (LogicError NoAccessor))"

definition getter_of ::
  "('sub, 'w) subject_ops \<Rightarrow> 'sub \<Rightarrow> ('w store_world, wf_error, store_method) prog" where
  "getter_of ops sub = (\<lambda>s.
     case map_of (sw_getters s) (so_class ops sub) of
       Some a \<Rightarrow> (Inr a, s)
     | None \<Rightarrow>
         (case reached_through (so_has_getter ops sub) (so_has_attribute ops sub (sw_objects s)) of
            Inl e \<Rightarrow> (Inl e, s)
          | Inr a \<Rightarrow> (Inr a, s\<lparr>sw_getters := dict_set (so_class ops sub) a (sw_getters s)\<rparr>)))"

definition setter_of ::
  "('sub, 'w) subject_ops \<Rightarrow> 'sub \<Rightarrow> ('w store_world, wf_error, store_method) prog" where
  "setter_of ops sub = (\<lambda>s.
     case map_of (sw_setters s) (so_class ops sub) of
       Some a \<Rightarrow> (Inr a, s)
     | None \<Rightarrow>
         (case reached_through (so_has_setter ops sub) (so_has_attribute ops sub (sw_objects s)) of
            Inl e \<Rightarrow> (Inl e, s)
          | Inr a \<Rightarrow> (Inr a, s\<lparr>sw_setters := dict_set (so_class ops sub) a (sw_setters s)\<rparr>)))"

fun mark_value :: "string \<times> pyval \<Rightarrow> marking \<Rightarrow> wf_error + marking" where
  "mark_value (p, VInt n) m = mark p n m"
| "mark_value (p, VBool b) m = mark p (of_bool b) m"
| "mark_value (p, _) m = Inl TypeError"

definition place_name :: "(pyval \<Rightarrow> string) \<Rightarrow> pyval \<Rightarrow> string" where
  "place_name str v = (case v of VStr s \<Rightarrow> s | _ \<Rightarrow> str v)"

definition decode_kept :: "(pyval \<Rightarrow> string) \<Rightarrow> bool \<Rightarrow> pyval option \<Rightarrow> wf_error + marking" where
  "decode_kept str single kept =
     (case kept of
        None \<Rightarrow> Inr Marking_empty
      | Some v \<Rightarrow>
          if v = VNone then Inr Marking_empty
          else if single then
            (let place = (case v of VEnum c x \<Rightarrow> x | _ \<Rightarrow> v)
             in Marking_init [(place_name str place, 1)])
          else (case v of
                  VDict d \<Rightarrow> fold_r mark_value d Marking_empty
                | _ \<Rightarrow> Inl (LogicError KeptNotADict)))"

definition store_get_marking ::
  "('sub, 'w) subject_ops \<Rightarrow> bool \<Rightarrow> 'sub \<Rightarrow> ('w store_world, wf_error, marking) prog" where
  "store_get_marking ops single sub =
     andthen (getter_of ops sub) (\<lambda>a.
     andthen
       (case a of
          METHOD \<Rightarrow> on_objects (so_call_getter ops sub)
        | PROPERTY \<Rightarrow> (\<lambda>s. (Inr (so_read ops sub (sw_objects s)), s)))
       (\<lambda>kept. lift (decode_kept (so_str ops) single kept)))"

definition encode_kept :: "bool \<Rightarrow> marking \<Rightarrow> pyval" where
  "encode_kept single m =
     (if single then (case m_places m of [] \<Rightarrow> VNone | (p, _) # _ \<Rightarrow> VStr p)
      else VDict (map (\<lambda>(p, n). (p, VInt n)) (m_places m)))"

definition store_set_marking ::
  "('sub, 'w) subject_ops \<Rightarrow> bool \<Rightarrow> 'sub \<Rightarrow> marking \<Rightarrow> call_context option
     \<Rightarrow> ('w store_world, wf_error, unit) prog" where
  "store_set_marking ops single sub m context =
     andthen (setter_of ops sub) (\<lambda>a.
     andthen
       (case (if single then so_enum ops sub else None) of
          None \<Rightarrow> ret (encode_kept single m)
        | Some enum_type \<Rightarrow> lift (enum_type (encode_kept single m)))
       (\<lambda>kept.
          case a of
            METHOD \<Rightarrow> on_objects (so_call_setter ops sub kept (case context of None \<Rightarrow> [] | Some c \<Rightarrow> c))
          | PROPERTY \<Rightarrow> (\<lambda>s. (Inr (), s\<lparr>sw_objects := so_write ops sub kept (sw_objects s)\<rparr>))))"

section \<open>What is written is what is read back\<close>

lemma mark_value_int: "mark_value (p, VInt n) = mark p n"
  by (rule ext) simp

lemma update_notin: "k \<notin> set (dict_keys d) \<Longrightarrow> dict_set k v d = d @ [(k, v)]"
  by (induction d) auto

lemma mark_all_fresh:
  "distinct (dict_keys ps) \<Longrightarrow> list_all (\<lambda>(p, n). 1 \<le> n) ps
    \<Longrightarrow> set (dict_keys ps) \<inter> set (dict_keys (m_places m)) = {}
    \<Longrightarrow> fold_r mark_value (map (\<lambda>(p, n). (p, VInt n)) ps) m = Inr (m\<lparr>m_places := m_places m @ ps\<rparr>)"
proof (induction ps arbitrary: m)
  case Nil
  then show ?case by simp
next
  case (Cons a ps)
  obtain p n where a: "a = (p, n)" by (cases a)
  have p: "p \<notin> set (dict_keys (m_places m))" and n: "1 \<le> n" using Cons.prems a by auto
  then have "get_token_count m p = 0"
    by (simp add: get_token_count_def dict_get_or_def map_of_eq_None_iff split: option.splits)
       (metis map_of_SomeD fst_conv image_eqI)
  with p n a have "mark p n m = Inr (m\<lparr>m_places := m_places m @ [(p, n)]\<rparr>)"
    by (simp add: mark_cases update_notin)
  moreover have "fold_r mark_value (map (\<lambda>(p, n). (p, VInt n)) ps) (m\<lparr>m_places := m_places m @ [(p, n)]\<rparr>)
      = Inr (m\<lparr>m_places := m_places m @ [(p, n)] @ ps\<rparr>)"
    using Cons.IH [of "m\<lparr>m_places := m_places m @ [(p, n)]\<rparr>"] Cons.prems a by auto
  ultimately show ?case using a by simp
qed

lemma decode_encode_multi:
  assumes "marking_ok m"
  shows "decode_kept str False (Some (encode_kept False m)) = Inr (m\<lparr>m_context := []\<rparr>)"
proof -
  have "distinct (dict_keys (m_places m))" "list_all (\<lambda>(p, n). 1 \<le> n) (m_places m)"
    using assms by (auto simp: marking_ok_def dict_ok_def)
  from mark_all_fresh [OF this, of Marking_empty] show ?thesis
    by (simp add: decode_kept_def encode_kept_def Marking_empty_def)
qed

text \<open>The markings a single-place store holds: no place, or one place with one token.\<close>

definition single_place :: "(string, int) dict \<Rightarrow> bool" where
  "single_place ps \<longleftrightarrow> (case ps of [] \<Rightarrow> True | a # qs \<Rightarrow> qs = [] \<and> snd a = 1)"

lemma single_place_iff: "single_place ps \<longleftrightarrow> ps = [] \<or> (\<exists>p. ps = [(p, 1)])"
  by (cases ps) (auto simp: single_place_def)

lemma decode_encode_single:
  assumes "single_place (m_places m)"
  shows "decode_kept str True (Some (encode_kept True m)) = Inr (m\<lparr>m_context := []\<rparr>)"
  using assms
  by (auto simp: single_place_iff decode_kept_def encode_kept_def Marking_empty_def Marking_init_def
      place_name_def mark_cases get_token_count_def dict_get_or_def split: list.splits)

section \<open>Subjects that keep their marking in an attribute\<close>

text \<open>
  The default case of the store: a class without accessors whose instances have the attribute,
  unset until the first write. The objects are then a map from subjects to the attribute.
\<close>

definition attribute_ops :: "('sub, 'sub \<Rightarrow> pyval option) subject_ops" where
  "attribute_ops =
     \<lparr>so_class = (\<lambda>_. 0), so_has_getter = (\<lambda>_. False), so_has_setter = (\<lambda>_. False),
      so_has_attribute = (\<lambda>_ _. True), so_call_getter = (\<lambda>_. ret None),
      so_call_setter = (\<lambda>_ _ _. ret ()), so_read = (\<lambda>sub w. w sub),
      so_write = (\<lambda>sub v w. w(sub := Some v)), so_enum = (\<lambda>_. None), so_str = (\<lambda>_. [])\<rparr>"

definition kept_places :: "bool \<Rightarrow> ('sub \<Rightarrow> pyval option) store_world \<Rightarrow> 'sub \<Rightarrow> (string, int) dict" where
  "kept_places single s sub =
     (case decode_kept (\<lambda>_. []) single (sw_objects s sub) of Inl _ \<Rightarrow> [] | Inr m \<Rightarrow> m_places m)"

definition store_good :: "bool \<Rightarrow> ('sub \<Rightarrow> pyval option) store_world \<Rightarrow> bool" where
  "store_good single s \<longleftrightarrow> map_of (sw_getters s) 0 \<noteq> Some METHOD \<and> map_of (sw_setters s) 0 \<noteq> Some METHOD
     \<and> (\<forall>sub. \<exists>m. decode_kept (\<lambda>_. []) single (sw_objects s sub) = Inr m)"

lemma Marking_init_context: "Marking_init ps = Inr m \<Longrightarrow> m_context m = []"
  unfolding Marking_init_def
  by (erule fold_r_inv [where P = "\<lambda>m. m_context m = []"])
     (auto simp: Marking_empty_def mark_cases split: prod.splits if_splits)

lemma Marking_empty_context [simp]: "m_context Marking_empty = []"
  by (simp add: Marking_empty_def)

lemma decode_kept_context: "decode_kept str single v = Inr m \<Longrightarrow> m_context m = [] \<and> marking_ok m"
proof -
  have *: "m_context m' = [] \<and> marking_ok m'" if "fold_r mark_value d Marking_empty = Inr m'" for d m'
  proof (rule fold_r_inv [OF that, where P = "\<lambda>m. m_context m = [] \<and> marking_ok m"])
    fix x a a' assume a: "m_context a = [] \<and> marking_ok a" and r: "mark_value x a = Inr a'"
    obtain p v where x: "x = (p, v)" by (cases x)
    from r x obtain n where "mark p n a = Inr a'" by (cases v) auto
    with a mark_ok [of a p n a'] show "m_context a' = [] \<and> marking_ok a'"
      by (auto simp: mark_cases split: if_splits)
  qed (simp add: Marking_empty_def marking_ok_def)
  assume "decode_kept str single v = Inr m"
  then show ?thesis
    by (auto simp: decode_kept_def Let_def dest: * Marking_init_ok Marking_init_context
        split: option.splits if_splits pyval.splits)
qed

lemma store_method_not_METHOD: "a \<noteq> METHOD \<longleftrightarrow> a = PROPERTY"
  by (cases a) auto

lemma attribute_getter:
  assumes "map_of (sw_getters s) 0 \<noteq> Some METHOD"
  shows "\<exists>g. getter_of attribute_ops sub s = (Inr PROPERTY, s\<lparr>sw_getters := g\<rparr>) \<and> map_of g 0 \<noteq> Some METHOD"
proof (cases "map_of (sw_getters s) 0")
  case None
  then show ?thesis
    by (intro exI [of _ "dict_set 0 PROPERTY (sw_getters s)"])
       (simp add: getter_of_def attribute_ops_def reached_through_def)
next
  case (Some a)
  with assms have "a = PROPERTY" by (cases a) auto
  with Some show ?thesis
    by (intro exI [of _ "sw_getters s"]) (simp add: getter_of_def attribute_ops_def)
qed

lemma attribute_setter:
  assumes "map_of (sw_setters s) 0 \<noteq> Some METHOD"
  shows "\<exists>g. setter_of attribute_ops sub s = (Inr PROPERTY, s\<lparr>sw_setters := g\<rparr>) \<and> map_of g 0 \<noteq> Some METHOD"
proof (cases "map_of (sw_setters s) 0")
  case None
  then show ?thesis
    by (intro exI [of _ "dict_set 0 PROPERTY (sw_setters s)"])
       (simp add: setter_of_def attribute_ops_def reached_through_def)
next
  case (Some a)
  with assms have "a = PROPERTY" by (cases a) auto
  with Some show ?thesis
    by (intro exI [of _ "sw_setters s"]) (simp add: setter_of_def attribute_ops_def)
qed

lemma kept_places_ok:
  assumes "store_good single s"
  shows "decode_kept (\<lambda>_. []) single (sw_objects s sub)
      = Inr \<lparr>m_places = kept_places single s sub, m_context = []\<rparr>
    \<and> marking_ok \<lparr>m_places = kept_places single s sub, m_context = []\<rparr>"
proof -
  obtain m where m: "decode_kept (\<lambda>_. []) single (sw_objects s sub) = Inr m"
    using assms by (auto simp: store_good_def)
  moreover have "m = \<lparr>m_places = kept_places single s sub, m_context = []\<rparr>"
    using decode_kept_context [OF m] m by (simp add: kept_places_def)
  ultimately show ?thesis using decode_kept_context [OF m] by simp
qed

lemma attribute_get:
  assumes "store_good single s"
  shows "\<exists>s'. store_get_marking attribute_ops single sub s
      = (Inr \<lparr>m_places = kept_places single s sub, m_context = []\<rparr>, s')
    \<and> store_good single s' \<and> kept_places single s' = kept_places single s"
proof -
  obtain g where g: "getter_of attribute_ops sub s = (Inr PROPERTY, s\<lparr>sw_getters := g\<rparr>)" "map_of g 0 \<noteq> Some METHOD"
    using attribute_getter [of s sub] assms unfolding store_good_def by blast
  let ?s' = "s\<lparr>sw_getters := g\<rparr>"
  have "store_get_marking attribute_ops single sub s
      = (Inr \<lparr>m_places = kept_places single s sub, m_context = []\<rparr>, ?s')"
    using g(1) kept_places_ok [OF assms, of sub]
    by (simp add: store_get_marking_def andthen_Inr attribute_ops_def)
  moreover have "store_good single ?s' \<and> kept_places single ?s' = kept_places single s"
    using g(2) assms by (auto simp: store_good_def kept_places_def)
  ultimately show ?thesis by blast
qed

lemma attribute_set:
  assumes "store_good single s" and "marking_ok m" and "single \<longrightarrow> single_place (m_places m)"
  shows "\<exists>s'. store_set_marking attribute_ops single sub m c s = (Inr (), s') \<and> store_good single s'
    \<and> kept_places single s' = (kept_places single s)(sub := m_places m)"
proof -
  obtain g where g: "setter_of attribute_ops sub s = (Inr PROPERTY, s\<lparr>sw_setters := g\<rparr>)" "map_of g 0 \<noteq> Some METHOD"
    using attribute_setter [of s sub] assms(1) unfolding store_good_def by blast
  let ?s' = "s\<lparr>sw_setters := g, sw_objects := (sw_objects s)(sub := Some (encode_kept single m))\<rparr>"
  have "store_set_marking attribute_ops single sub m c s = (Inr (), ?s')"
    using g(1) by (simp add: store_set_marking_def andthen_Inr attribute_ops_def)
  moreover have d: "decode_kept (\<lambda>_. []) single (Some (encode_kept single m)) = Inr (m\<lparr>m_context := []\<rparr>)"
    using assms(2,3) decode_encode_multi decode_encode_single by (cases single) auto
  ultimately show ?thesis
    using assms(1) g(2) by (intro exI [of _ ?s']) (auto simp: store_good_def kept_places_def)
qed

interpretation places_store: marking_store
  "store_get_marking attribute_ops False" "store_set_marking attribute_ops False"
  "kept_places False" "store_good False" "\<lambda>_. True"
proof (unfold_locales, goal_cases)
  case (1 w sub)
  then show ?case by (rule attribute_get)
next
  case (2 w sub)
  then show ?case by (simp add: kept_places_ok)
next
  case (3 w m sub c)
  then show ?case by (intro attribute_set) simp_all
qed

interpretation single_store: marking_store
  "store_get_marking attribute_ops True" "store_set_marking attribute_ops True"
  "kept_places True" "store_good True" single_place
proof (unfold_locales, goal_cases)
  case (1 w sub)
  then show ?case by (rule attribute_get)
next
  case (2 w sub)
  then show ?case by (simp add: kept_places_ok)
next
  case (3 w m sub c)
  then show ?case by (intro attribute_set) simp_all
qed

end
