(* ===== verification/Workflow_Validation.thy ===== *)
theory Workflow_Validation
  imports Workflow_Store
begin

text \<open>
  The definition validators (\<open>validator/workflow_validator.py\<close>, \<open>validator/state_machine_validator.py\<close>)
  and what a definition that passes them guarantees of the engine: a workflow's application never
  runs out of tokens half-way, and a state machine's subject is always in exactly one place.
\<close>

section \<open>The validators\<close>

text \<open>\<open>names_leaving\<close>: the transition names seen so far leaving each place, as (place, name) pairs.\<close>

fun check_leaving :: "string \<Rightarrow> string \<Rightarrow> string list \<Rightarrow> (string \<times> string) list
    \<Rightarrow> wf_error + (string \<times> string) list" where
  "check_leaving wname tname [] seen = Inr seen"
| "check_leaving wname tname (place # places) seen =
     (if (place, tname) \<in> set seen
      then Inl (InvalidDefinitionError (SameNameLeaves tname place) wname)
      else check_leaving wname tname places ((place, tname) # seen))"

definition check_fits_a_single_place :: "string \<Rightarrow> transition \<Rightarrow> wf_error + unit" where
  "check_fits_a_single_place wname t =
     (if length (t_to_arcs t) > 1
      then Inl (InvalidDefinitionError (TooManyOutputs (t_name t) (length (t_to_arcs t))) wname)
      else case find (\<lambda>a. arc_weight a > 1) (t_from_arcs t) of
        Some a \<Rightarrow> Inl (InvalidDefinitionError (HeavyFromArc (t_name t) (arc_place a) (arc_weight a)) wname)
      | None \<Rightarrow> (case find (\<lambda>a. arc_weight a > 1) (t_to_arcs t) of
          Some a \<Rightarrow> Inl (InvalidDefinitionError (HeavyToArc (t_name t) (arc_place a) (arc_weight a)) wname)
        | None \<Rightarrow> Inr ()))"

definition workflow_validate :: "bool \<Rightarrow> wf_definition \<Rightarrow> string \<Rightarrow> wf_error + unit" where
  "workflow_validate single d name =
     (case fold_r (\<lambda>t. check_leaving name (t_name t) (get_froms t)) (d_transitions d) [] of
        Inl e \<Rightarrow> Inl e
      | Inr _ \<Rightarrow>
          if \<not> single then Inr ()
          else (case fold_r (\<lambda>t _. check_fits_a_single_place name t) (d_transitions d) () of
                  Inl e \<Rightarrow> Inl e
                | Inr _ \<Rightarrow>
                    if length (d_initial_places d) > 1
                    then Inl (InvalidDefinitionError (TooManyInitialPlaces (length (d_initial_places d))) name)
                    else Inr ()))"

definition check_moves_one_token :: "string \<Rightarrow> transition \<Rightarrow> wf_error + unit" where
  "check_moves_one_token name t =
     (if length (t_to_arcs t) \<noteq> 1
      then Inl (InvalidDefinitionError (NotOneOutput (t_name t) (length (t_to_arcs t))) name)
      else case find (\<lambda>a. arc_weight a > 1) (t_from_arcs t) of
        Some a \<Rightarrow> Inl (InvalidDefinitionError (HeavyFromArc (t_name t) (arc_place a) (arc_weight a)) name)
      | None \<Rightarrow>
          if length (t_from_arcs t) \<noteq> 1
          then Inl (InvalidDefinitionError (NotOneInput (t_name t) (length (t_from_arcs t))) name)
          else (case t_to_arcs t of
                  [a] \<Rightarrow> if arc_weight a > 1
                     then Inl (InvalidDefinitionError (HeavyToArc (t_name t) (arc_place a) (arc_weight a)) name)
                     else Inr ()
                | _ \<Rightarrow> Inr ()))"

definition state_machine_step ::
  "string \<Rightarrow> transition \<Rightarrow> (string \<times> string) list \<Rightarrow> wf_error + (string \<times> string) list" where
  "state_machine_step name t seen =
     (case check_moves_one_token name t of
        Inl e \<Rightarrow> Inl e
      | Inr _ \<Rightarrow> check_leaving name (t_name t) (get_froms t) seen)"

definition state_machine_validate :: "wf_definition \<Rightarrow> string \<Rightarrow> wf_error + unit" where
  "state_machine_validate d name =
     (case fold_r (state_machine_step name) (d_transitions d) [] of
        Inl e \<Rightarrow> Inl e
      | Inr _ \<Rightarrow>
          if length (d_initial_places d) > 1
          then Inl (InvalidDefinitionError (TooManyInitialPlaces (length (d_initial_places d))) name)
          else Inr ())"

section \<open>What they establish\<close>

definition leaving_pairs :: "transition list \<Rightarrow> (string \<times> string) list" where
  "leaving_pairs ts = concat (map (\<lambda>t. map (\<lambda>p. (p, t_name t)) (get_froms t)) ts)"

lemma check_leaving_iff:
  "(\<exists>seen'. check_leaving wn tn ps seen = Inr seen')
    \<longleftrightarrow> distinct ps \<and> (\<forall>p \<in> set ps. (p, tn) \<notin> set seen)"
  by (induction ps arbitrary: seen) auto

lemma check_leaving_seen:
  "check_leaving wn tn ps seen = Inr seen' \<Longrightarrow> set seen' = set (map (\<lambda>p. (p, tn)) ps) \<union> set seen"
  by (induction ps arbitrary: seen) (auto split: if_splits)

lemma fold_leaving_iff:
  "(\<exists>seen'. fold_r (\<lambda>t. check_leaving wn (t_name t) (get_froms t)) ts seen = Inr seen')
    \<longleftrightarrow> distinct (leaving_pairs ts) \<and> set (leaving_pairs ts) \<inter> set seen = {}"
proof (induction ts arbitrary: seen)
  case Nil
  then show ?case by (simp add: leaving_pairs_def)
next
  case (Cons t ts)
  have lp: "leaving_pairs (t # ts) = map (\<lambda>p. (p, t_name t)) (get_froms t) @ leaving_pairs ts"
    by (simp add: leaving_pairs_def)
  show ?case
  proof (cases "check_leaving wn (t_name t) (get_froms t) seen")
    case (Inl e)
    then show ?thesis
      using check_leaving_iff [of wn "t_name t" "get_froms t" seen]
      by (auto simp: lp distinct_map inj_on_def)
  next
    case (Inr seen1)
    have d: "distinct (get_froms t)" "\<forall>p \<in> set (get_froms t). (p, t_name t) \<notin> set seen"
      using check_leaving_iff [of wn "t_name t" "get_froms t" seen] Inr by auto
    show ?thesis
      using Inr Cons.IH [of seen1] d check_leaving_seen [OF Inr]
      by (auto simp: lp distinct_map inj_on_def)
  qed
qed

lemma leaving_pairs_conflict_free:
  "distinct (leaving_pairs ts) \<longleftrightarrow> (\<forall>n. conflict_free (filter (\<lambda>t. t_name t = n) ts))"
proof (induction ts)
  case Nil
  then show ?case by (simp add: leaving_pairs_def conflict_free_def)
next
  case (Cons t ts)
  have "distinct (leaving_pairs (t # ts)) \<longleftrightarrow> distinct (get_froms t) \<and> distinct (leaving_pairs ts)
      \<and> (\<forall>u \<in> set ts. t_name u = t_name t \<longrightarrow> set (get_froms t) \<inter> set (get_froms u) = {})"
    by (auto simp: leaving_pairs_def distinct_map inj_on_def)
  also have "\<dots> \<longleftrightarrow> (\<forall>n. conflict_free (filter (\<lambda>t. t_name t = n) (t # ts)))"
    using Cons.IH by (auto simp: conflict_free_Cons split: if_splits)
  finally show ?case .
qed

text \<open>
  C29: a definition passes the workflow validator exactly when no place is left twice by transitions
  of one name: neither by two of them nor twice by one.
\<close>

theorem workflow_validate_iff:
  "workflow_validate False d name = Inr ()
    \<longleftrightarrow> (\<forall>n. conflict_free (filter (\<lambda>t. t_name t = n) (d_transitions d)))"
proof -
  have "workflow_validate False d name = Inr ()
      \<longleftrightarrow> (\<exists>seen'. fold_r (\<lambda>t. check_leaving name (t_name t) (get_froms t)) (d_transitions d) [] = Inr seen')"
    by (auto simp: workflow_validate_def split: sum.splits)
  then show ?thesis
    by (simp add: fold_leaving_iff leaving_pairs_conflict_free)
qed

lemma workflow_validate_conflict_free:
  "workflow_validate single d name = Inr () \<Longrightarrow> conflict_free (filter (\<lambda>t. t_name t = n) (d_transitions d))"
proof -
  assume "workflow_validate single d name = Inr ()"
  then have "workflow_validate False d name = Inr ()"
    by (auto simp: workflow_validate_def split: sum.splits)
  then have "distinct (leaving_pairs (d_transitions d))"
    using fold_leaving_iff [of name "d_transitions d" "[]"]
    by (auto simp: workflow_validate_def split: sum.splits)
  then show ?thesis by (simp add: leaving_pairs_conflict_free)
qed

section \<open>Workflows over the attribute store\<close>

text \<open>
  \<open>Workflow(definition, name=name)\<close> and \<open>StateMachine(definition, name=name)\<close>: no dispatcher, and the
  marking kept in the subject's attribute, as a dict of places or as one place.
\<close>

definition attribute_workflow ::
  "bool \<Rightarrow> wf_definition \<Rightarrow> string \<Rightarrow> ('sub, ('sub \<Rightarrow> pyval option) store_world) workflow" where
  "attribute_workflow single d name =
     \<lparr>w_definition = d, w_get_marking = store_get_marking attribute_ops single,
      w_set_marking = store_set_marking attribute_ops single, w_dispatcher = None,
      w_name = name, w_events = None\<rparr>"

lemma attribute_workflow_fields [simp]:
  "w_definition (attribute_workflow single d name) = d"
  "transitions_named (attribute_workflow single d name) n = filter (\<lambda>t. t_name t = n) (d_transitions d)"
  "w_dispatcher (attribute_workflow single d name) = None"
  by (simp_all add: attribute_workflow_def transitions_named_def)

lemma attribute_workflow_stands:
  "places_store.stands_on (attribute_workflow False d name)"
  "single_store.stands_on (attribute_workflow True d name)"
  by (simp_all add: places_store.stands_on_def single_store.stands_on_def attribute_workflow_def)

definition kept_marking :: "bool \<Rightarrow> ('sub \<Rightarrow> pyval option) store_world \<Rightarrow> 'sub \<Rightarrow> marking" where
  "kept_marking single s sub = \<lparr>m_places = kept_places single s sub, m_context = []\<rparr>"

definition enabled_named :: "wf_definition \<Rightarrow> marking \<Rightarrow> string \<Rightarrow> transition list" where
  "enabled_named d m n = filter (marking_enables m) (filter (\<lambda>t. t_name t = n) (d_transitions d))"

text \<open>
  C3: for a workflow with an attribute marking store and no event dispatcher (so no listener runs
  in the middle of a move), over a definition the validator passed, applying a name never stops
  half-way. The marking it works on is the subject's own, whose places are the definition's, or,
  for a subject without tokens, the initial one of a well-formed definition, which is written to
  the subject before anything else, whatever follows. When no transition of the name is enabled by
  that marking, the call raises (undefined when there is no transition of that name, not enabled
  otherwise), the subject keeps that marking and every other subject its own: a call refused on a
  marked subject changes no marking. Otherwise it returns, every enabled transition of the name has
  moved its tokens, the marking returned carries the call's context and is the one now kept, and the
  other subjects are untouched. \<open>can\<close> answers exactly whether it would return, and moves nothing.
\<close>

theorem validated_apply_total:
  fixes sub :: 'sub
  assumes "workflow_validate False d wname = Inr ()"
    and "\<forall>t \<in> set (d_transitions d). transition_ok t"
    and "store_good False s"
    and "kept_places False s sub = [] \<Longrightarrow> definition_ok d \<and> d_places d \<noteq> []"
    and "set (dict_keys (kept_places False s sub)) \<subseteq> set (d_places d)"
  defines "m0 \<equiv> met_marking d (kept_marking False s sub)"
  shows "(if enabled_named d m0 n = []
     then \<exists>s'. wf_apply (attribute_workflow False d wname) sub n ctx s =
         (Inl (if filter (\<lambda>t. t_name t = n) (d_transitions d) = [] then UndefinedTransitionError n
               else NotEnabledTransitionError n [create_blocked_by_marking m0]), s')
         \<and> kept_places False s' = (kept_places False s)(sub := m_places m0)
     else \<exists>m s'. wf_apply (attribute_workflow False d wname) sub n ctx s = (Inr m, s')
         \<and> marking_ok m \<and> m_context m = ctx
         \<and> kept_places False s' = (kept_places False s)(sub := m_places m)
         \<and> (\<forall>p. get_token_count m p = get_token_count m0 p
              + (\<Sum>t \<leftarrow> enabled_named d m0 n. effect t p)))
   \<and> (kept_places False s sub \<noteq> [] \<longrightarrow> (kept_places False s)(sub := m_places m0) = kept_places False s)
   \<and> (kept_places False s sub = [] \<longrightarrow> (\<forall>p. get_token_count m0 p = count_list (d_initial_places d) p))
   \<and> (\<exists>s'. can (attribute_workflow False d wname) sub n s = (Inr (enabled_named d m0 n \<noteq> []), s')
         \<and> kept_places False s' = (kept_places False s)(sub := m_places m0))"
proof -
  let ?self = "attribute_workflow False d wname :: ('sub, ('sub \<Rightarrow> pyval option) store_world) workflow"
  note on = attribute_workflow_stands(1) [of d wname]
  have en: "enabled_named d m0 n = filter (marking_enables m0) (transitions_named ?self n)"
    by (simp add: enabled_named_def)
  have met: "\<exists>s0. get_marking ?self sub c s = (Inr m0, s0) \<and> store_good False s0 \<and> marking_ok m0
      \<and> kept_places False s0 = (kept_places False s)(sub := m_places m0)" for c
    using assms(4,5) by (intro places_store.get_marking_met [OF on _ assms(3)]) (simp_all add: m0_def kept_marking_def)
  obtain s0 where s0: "get_marking ?self sub ctx s = (Inr m0, s0)" "store_good False s0" "marking_ok m0"
      "kept_places False s0 = (kept_places False s)(sub := m_places m0)"
    using met [of ctx] by blast
  have answer: "\<exists>s'. can ?self sub n s = (Inr (enabled_named d m0 n \<noteq> []), s')
      \<and> kept_places False s' = (kept_places False s)(sub := m_places m0)"
    using met [of "[]"] by (auto simp: en dest!: places_store.can_met [OF on])
  have own: "kept_places False s sub \<noteq> [] \<Longrightarrow> m_places m0 = kept_places False s sub"
    by (simp add: m0_def met_marking_def kept_marking_def)
  have initial: "\<forall>p. get_token_count m0 p = count_list (d_initial_places d) p" if "kept_places False s sub = []"
    using places_store.get_marking_initial [OF on assms(3) that, of ctx] assms(4) that s0(1) by auto
  have refused: "wf_apply ?self sub n ctx s =
         (Inl (if transitions_named ?self n = [] then UndefinedTransitionError n
               else NotEnabledTransitionError n [create_blocked_by_marking m0]), s0)"
    if "enabled_named d m0 n = []"
    using that unfolding en by (intro places_store.apply_refused [OF on s0(1)])
  have applied: "\<exists>m s'. wf_apply ?self sub n ctx s = (Inr m, s') \<and> marking_ok m \<and> m_context m = ctx
         \<and> kept_places False s' = (kept_places False s)(sub := m_places m)
         \<and> (\<forall>p. get_token_count m p = get_token_count m0 p + (\<Sum>t \<leftarrow> enabled_named d m0 n. effect t p))"
    if "enabled_named d m0 n \<noteq> []"
    using places_store.apply_stored [OF on _ assms(3) s0 _ _ en that] assms(2)
      workflow_validate_conflict_free [OF assms(1)] by auto
  show ?thesis
    using refused applied s0(4) answer own initial by (auto simp: fun_upd_idem)
qed

text \<open>
  the first time a workflow meets a subject without a marking, it puts one token in each initial
  place per mention, writes that marking to the subject, and answers the same marking, without
  writing, from then on.
\<close>

theorem first_contact:
  fixes sub :: 'sub
  assumes "definition_ok d" and "d_places d \<noteq> []" and "store_good False s" and "kept_places False s sub = []"
  shows "\<exists>m s'. get_marking (attribute_workflow False d wname) sub ctx s = (Inr m, s') \<and> marking_ok m
    \<and> kept_places False s' = (kept_places False s)(sub := m_places m)
    \<and> (\<forall>p. get_token_count m p = count_list (d_initial_places d) p)
    \<and> (\<forall>ctx'. \<exists>s''. get_marking (attribute_workflow False d wname) sub ctx' s' = (Inr (m\<lparr>m_context := []\<rparr>), s'')
         \<and> kept_places False s'' = kept_places False s')"
proof -
  let ?self = "attribute_workflow False d wname :: ('sub, ('sub \<Rightarrow> pyval option) store_world) workflow"
  note on = attribute_workflow_stands(1) [of d wname]
  obtain m s' where m: "get_marking ?self sub ctx s = (Inr m, s')" "store_good False s'" "marking_ok m"
      "kept_places False s' = (kept_places False s)(sub := m_places m)"
      "\<forall>p. get_token_count m p = count_list (d_initial_places d) p"
    using places_store.get_marking_initial [OF on assms(3,4), of ctx] assms(1,2) by auto
  have initial: "d_initial_places d \<noteq> []" "set (d_initial_places d) \<subseteq> set (d_places d)"
    using assms(1,2) by (auto simp: definition_ok_def)
  have marked: "p \<in> set (dict_keys (m_places m)) \<longleftrightarrow> p \<in> set (d_initial_places d)" for p
    using token_count_pos_iff [OF m(3), of p] m(5) count_list_0_iff [of "d_initial_places d" p]
    by (metis of_nat_0_less_iff gr_zeroI less_numeral_extra(3))
  then have "m_places m \<noteq> []" using initial(1) by (metis empty_iff list.set(1) list.set_sel(1) list.simps(8))
  moreover have "set (dict_keys (m_places m)) \<subseteq> set (d_places d)" using marked initial(2) by blast
  ultimately have "\<exists>s''. get_marking ?self sub ctx' s' = (Inr (m\<lparr>m_context := []\<rparr>), s'')
      \<and> kept_places False s'' = kept_places False s'" for ctx'
    using places_store.get_marking_stored [OF on m(2), of sub ctx'] m(4) by auto
  with m show ?thesis by blast
qed

section \<open>State machines\<close>

lemma find_heavy: "find (\<lambda>a. 1 < arc_weight a) as = None \<longleftrightarrow> (\<forall>a \<in> set as. arc_weight a \<le> 1)"
  by (auto simp: find_None_iff)

lemma check_moves_one_token_iff:
  "check_moves_one_token name t = Inr ()
    \<longleftrightarrow> (\<exists>a b. t_from_arcs t = [a] \<and> t_to_arcs t = [b] \<and> arc_weight a \<le> 1 \<and> arc_weight b \<le> 1)"
proof (cases "t_to_arcs t")
  case Nil
  then show ?thesis by (simp add: check_moves_one_token_def)
next
  case (Cons b bs)
  show ?thesis
  proof (cases "find (\<lambda>a. 1 < arc_weight a) (t_from_arcs t)")
    case None
    with Cons show ?thesis
      by (cases "t_from_arcs t") (auto simp: check_moves_one_token_def split: if_splits)
  next
    case (Some a)
    then have "a \<in> set (t_from_arcs t)" "1 < arc_weight a"
      using find_Some_iff [of "\<lambda>a. 1 < arc_weight a" "t_from_arcs t" a] by (auto simp: in_set_conv_nth)
    with Cons Some show ?thesis by (auto simp: check_moves_one_token_def)
  qed
qed

lemma fold_state_machine_iff:
  "fold_r (state_machine_step name) ts seen = Inr seen'
    \<longleftrightarrow> (\<forall>t \<in> set ts. check_moves_one_token name t = Inr ())
      \<and> fold_r (\<lambda>t. check_leaving name (t_name t) (get_froms t)) ts seen = Inr seen'"
  by (induction ts arbitrary: seen) (auto simp: state_machine_step_def split: sum.splits)

lemma state_machine_validate_iff:
  "state_machine_validate d name = Inr ()
    \<longleftrightarrow> (\<forall>t \<in> set (d_transitions d). \<exists>a b. t_from_arcs t = [a] \<and> t_to_arcs t = [b]
            \<and> arc_weight a \<le> 1 \<and> arc_weight b \<le> 1)
      \<and> (\<forall>n. conflict_free (filter (\<lambda>t. t_name t = n) (d_transitions d)))
      \<and> length (d_initial_places d) \<le> 1"
proof -
  have "state_machine_validate d name = Inr () \<longleftrightarrow>
      (\<exists>seen'. fold_r (state_machine_step name) (d_transitions d) [] = Inr seen') \<and> length (d_initial_places d) \<le> 1"
    by (auto simp: state_machine_validate_def split: sum.splits if_splits)
  then show ?thesis
    by (auto simp: fold_state_machine_iff check_moves_one_token_iff fold_leaving_iff leaving_pairs_conflict_free)
qed

text \<open>
  The automaton a state machine stands for: from a place, a name leads where the first transition
  of that name leaving the place leads.
\<close>

definition machine_target :: "wf_definition \<Rightarrow> string \<Rightarrow> string \<Rightarrow> string option" where
  "machine_target d p n =
     map_option (\<lambda>t. hd (get_tos t)) (find (\<lambda>t. t_name t = n \<and> get_froms t = [p]) (d_transitions d))"

definition machine_next :: "wf_definition \<Rightarrow> string \<Rightarrow> string \<Rightarrow> string" where
  "machine_next d n p = (case machine_target d p n of None \<Rightarrow> p | Some q \<Rightarrow> q)"

text \<open>A caller that applies names one after the other, whatever each of them answers.\<close>

fun apply_each :: "('sub, 'w) workflow \<Rightarrow> 'sub \<Rightarrow> (string \<times> call_context) list \<Rightarrow> 'w \<Rightarrow> 'w" where
  "apply_each self sub [] s = s"
| "apply_each self sub ((n, ctx) # cs) s = apply_each self sub cs (snd (wf_apply self sub n ctx s))"

definition machine_ok :: "wf_definition \<Rightarrow> bool" where
  "machine_ok d \<longleftrightarrow> definition_ok d \<and> (\<forall>t \<in> set (d_transitions d). transition_ok t)
     \<and> state_machine_validate d [] = Inr ()"

lemma filter_first_only:
  assumes "find P xs = Some x" and "\<And>y ys zs. xs = ys @ y # zs \<Longrightarrow> P y \<Longrightarrow> \<forall>z \<in> set zs. \<not> P z"
  shows "filter P xs = [x]"
  using assms
proof (induction xs)
  case Nil
  then show ?case by simp
next
  case (Cons y ys)
  show ?case
  proof (cases "P y")
    case True
    moreover have "\<forall>z \<in> set ys. \<not> P z" using Cons.prems(2) [of "[]" y ys] True by simp
    ultimately show ?thesis using Cons.prems(1) by simp
  next
    case False
    have "\<forall>z \<in> set zs. \<not> P z" if "ys = us @ u # zs" "P u" for us u zs
      using Cons.prems(2) [of "y # us" u zs] that by simp
    with Cons.IH Cons.prems(1) False show ?thesis by auto
  qed
qed

lemma machine_arcs:
  assumes "machine_ok d" and "t \<in> set (d_transitions d)"
  shows "\<exists>p q. t_from_arcs t = [\<lparr>arc_place = p, arc_weight = 1\<rparr>] \<and> t_to_arcs t = [\<lparr>arc_place = q, arc_weight = 1\<rparr>]
    \<and> q \<in> set (d_places d)"
proof -
  obtain a b where ab: "t_from_arcs t = [a]" "t_to_arcs t = [b]" "arc_weight a \<le> 1" "arc_weight b \<le> 1"
    using assms by (auto simp: machine_ok_def state_machine_validate_iff)
  moreover have "1 \<le> arc_weight a" "1 \<le> arc_weight b" "arc_place b \<in> set (d_places d)"
    using assms ab by (auto simp: machine_ok_def transition_ok_def arc_ok_def definition_ok_def get_tos_def)
  ultimately show ?thesis
    by (intro exI [of _ "arc_place a"] exI [of _ "arc_place b"]) simp
qed

lemma machine_enabled:
  assumes "machine_ok d"
  shows "filter (marking_enables \<lparr>m_places = [(p, 1)], m_context = []\<rparr>) (filter (\<lambda>t. t_name t = n) (d_transitions d))
    = (case find (\<lambda>t. t_name t = n \<and> get_froms t = [p]) (d_transitions d) of None \<Rightarrow> [] | Some t \<Rightarrow> [t])"
proof -
  let ?P = "\<lambda>t. t_name t = n \<and> get_froms t = [p]"
  let ?m = "\<lparr>m_places = [(p, 1)], m_context = []\<rparr> :: marking"
  have "marking_enables ?m t \<longleftrightarrow> get_froms t = [p]" if "t \<in> set (d_transitions d)" for t
    using machine_arcs [OF assms that]
    by (auto simp: marking_enables_def get_froms_def get_token_count_def dict_get_or_def)
  then have eq: "filter (marking_enables ?m) (filter (\<lambda>t. t_name t = n) (d_transitions d)) = filter ?P (d_transitions d)"
    by (auto simp: filter_filter intro: filter_cong)
  have cf: "conflict_free (filter (\<lambda>t. t_name t = n) (d_transitions d))"
    using assms by (simp add: machine_ok_def state_machine_validate_iff)
  have "\<forall>z \<in> set zs. \<not> ?P z" if "d_transitions d = ys @ y # zs" "?P y" for ys y zs
    using cf that by (auto simp: conflict_free_def)
  then show ?thesis
    using filter_first_only [of ?P "d_transitions d"] unfolding eq
    by (auto simp: find_None_iff filter_empty_conv split: option.splits)
qed

lemma machine_apply:
  fixes sub :: 'sub
  assumes "machine_ok d" and "store_good True s" and "kept_places True s sub = [(p, 1)]" and "p \<in> set (d_places d)"
  shows "case machine_target d p n of
      None \<Rightarrow> \<exists>e s'. wf_apply (attribute_workflow True d wname) sub n ctx s = (Inl e, s')
        \<and> store_good True s' \<and> kept_places True s' = kept_places True s
    | Some q \<Rightarrow> \<exists>s'. wf_apply (attribute_workflow True d wname) sub n ctx s
          = (Inr \<lparr>m_places = [(q, 1)], m_context = ctx\<rparr>, s')
        \<and> store_good True s' \<and> kept_places True s' = (kept_places True s)(sub := [(q, 1)]) \<and> q \<in> set (d_places d)"
proof -
  let ?self = "attribute_workflow True d wname :: ('sub, ('sub \<Rightarrow> pyval option) store_world) workflow"
  let ?m = "\<lparr>m_places = [(p, 1)], m_context = []\<rparr> :: marking"
  note on = attribute_workflow_stands(2) [of d wname]
  note en = machine_enabled [OF assms(1), of p n]
  have keys: "set (dict_keys (kept_places True s sub)) \<subseteq> set (d_places (w_definition ?self))"
      and ne: "kept_places True s sub \<noteq> []"
    using assms(3,4) by simp_all
  obtain s0 where s0: "get_marking ?self sub ctx s = (Inr ?m, s0)" "store_good True s0"
      "kept_places True s0 = kept_places True s"
    using single_store.get_marking_stored [OF on assms(2) ne keys, of ctx] assms(3) by auto
  show ?thesis
  proof (cases "find (\<lambda>t. t_name t = n \<and> get_froms t = [p]) (d_transitions d)")
    case None
    with en s0 single_store.apply_refused [OF on s0(1), of n] show ?thesis
      by (auto simp: machine_target_def)
  next
    case (Some t)
    then have t: "t \<in> set (d_transitions d)" "get_froms t = [p]"
      using find_Some_iff [of "\<lambda>t. t_name t = n \<and> get_froms t = [p]" "d_transitions d" t]
      by (auto simp: in_set_conv_nth)
    then obtain q where q: "t_from_arcs t = [\<lparr>arc_place = p, arc_weight = 1\<rparr>]"
        "t_to_arcs t = [\<lparr>arc_place = q, arc_weight = 1\<rparr>]" "q \<in> set (d_places d)"
      using machine_arcs [OF assms(1) t(1)] by (auto simp: get_froms_def)
    let ?m' = "\<lparr>m_places = [(q, 1)], m_context = []\<rparr> :: marking"
    obtain s' where s': "w_set_marking ?self sub ?m' (Some ctx) s0 = (Inr (), s')" "store_good True s'"
        "kept_places True s' = (kept_places True s)(sub := [(q, 1)])"
      using single_store.set_stored [OF s0(2), of ?m' sub "Some ctx"] s0(3)
      by (auto simp: marking_ok_def dict_ok_def single_place_def attribute_workflow_def)
    have "fire ?self sub t (?m, ctx) s0 = (Inr (?m', ctx), s')"
      using s'(1) q(1,2)
      by (intro quiet_fire [where ?m1.0 = Marking_empty])
         (simp_all add: unmark_def refuse_below_one_def mark_cases Marking_empty_def get_token_count_def dict_get_or_def)
    then have "wf_apply ?self sub n ctx s = (Inr (set_context ctx ?m'), s')"
      using s0(1) en Some by (simp add: wf_apply_def andthen_Inr quiet_survey)
    with s' Some q show ?thesis by (auto simp: machine_target_def get_tos_def set_context_def)
  qed
qed

text \<open>
  C20: a state machine is the automaton its transitions draw. Over a definition the state machine
  validator passed, a subject in one place answers any sequence of applications the way the
  automaton does, each refused name leaving it where it is; it is always in exactly one place of the
  definition, and no other subject moves.
\<close>

theorem state_machine_is_automaton:
  fixes sub :: 'sub
  assumes "machine_ok d" and "store_good True s" and "kept_places True s sub = [(p, 1)]" and "p \<in> set (d_places d)"
  shows "kept_places True (apply_each (attribute_workflow True d wname) sub cs s)
      = (kept_places True s)(sub := [(fold (machine_next d) (map fst cs) p, 1)])
    \<and> fold (machine_next d) (map fst cs) p \<in> set (d_places d)"
  using assms(2-)
proof (induction cs arbitrary: s p)
  case Nil
  then show ?case by (auto simp: fun_upd_idem)
next
  case (Cons c cs)
  obtain n ctx where c: "c = (n, ctx)" by (cases c)
  let ?self = "attribute_workflow True d wname :: ('sub, ('sub \<Rightarrow> pyval option) store_world) workflow"
  let ?s1 = "snd (wf_apply ?self sub n ctx s)"
  have "store_good True ?s1 \<and> kept_places True ?s1 = (kept_places True s)(sub := [(machine_next d n p, 1)])
      \<and> machine_next d n p \<in> set (d_places d)"
    using machine_apply [OF assms(1) Cons.prems, of wname n ctx] Cons.prems(2,3)
    by (auto simp: machine_next_def fun_upd_idem split: option.splits)
  with Cons.IH [of ?s1 "machine_next d n p"] c show ?case by auto
qed

section \<open>A worked example\<close>

text \<open>An article that is published from its draft, or rejected; one subject, in its draft.\<close>

definition publish :: transition where
  "publish = \<lparr>t_id = 0, t_name = ''publish'', t_from_arcs = [\<lparr>arc_place = ''draft'', arc_weight = 1\<rparr>],
     t_to_arcs = [\<lparr>arc_place = ''live'', arc_weight = 1\<rparr>]\<rparr>"

definition article :: wf_definition where
  "article = \<lparr>d_places = [''draft'', ''live''], d_transitions = [publish], d_initial_places = [''draft'']\<rparr>"

definition shelf :: "(unit \<Rightarrow> pyval option) store_world" where
  "shelf = \<lparr>sw_getters = [], sw_setters = [],
     sw_objects = (\<lambda>_. Some (VDict [(''draft'', VInt 1)]))\<rparr>"

definition heard :: "(unit, (unit \<Rightarrow> pyval option) store_world) workflow" where
  "heard = (attribute_workflow False article ''article'')\<lparr>w_dispatcher := Some (\<lambda>sub e n. ret e)\<rparr>"

lemmas example_defs = publish_def article_def shelf_def heard_def attribute_workflow_def attribute_ops_def

lemma kept_shelf [simp]: "kept_places False shelf = (\<lambda>_. [(''draft'', 1)])"
  by (rule ext) (simp add: kept_places_def shelf_def decode_kept_def mark_cases Marking_empty_def get_token_count_def
      dict_get_or_def)

lemma store_good_shelf: "store_good False shelf"
  by (simp add: store_good_def shelf_def decode_kept_def mark_cases)

lemma transition_ok_article: "\<forall>t \<in> set (d_transitions article). transition_ok t"
  by (simp add: article_def publish_def transition_ok_def arc_ok_def)

lemma validated_article: "workflow_validate False article wname = Inr ()"
  by (simp add: workflow_validate_def article_def publish_def get_froms_def)

lemma enabled_article:
  "enabled_named article (kept_marking False shelf ()) ''publish'' = [publish]"
  by (simp add: enabled_named_def kept_marking_def article_def publish_def marking_enables_def
      get_token_count_def dict_get_or_def)

lemma respectful_heard: "respectful heard"
  by (simp add: heard_def respectful_def keeps_marking_def)

lemmas running_defs = example_defs engine_defs transitions_named_def dispatcher_for_def dispatch_under_def
  get_enabled_transitions_def new_event_def event_names disable_events_mapping_def get_froms_def get_tos_def
  store_get_marking_def store_set_marking_def getter_of_def setter_of_def reached_through_def decode_kept_def
  encode_kept_def mark_cases unmark_def refuse_below_one_def Marking_empty_def get_token_count_def
  dict_get_or_def set_context_def create_blocked_by_marking_def andthen_def

lemma get_marking_heard:
  "\<exists>s'. get_marking heard () [] shelf = (Inr \<lparr>m_places = [(''draft'', 1)], m_context = []\<rparr>, s')"
  by (simp add: running_defs)

lemma apply_heard:
  "\<exists>s'. wf_apply heard () ''publish'' [] shelf = (Inr \<lparr>m_places = [(''live'', 1)], m_context = []\<rparr>, s')"
  by (simp add: running_defs)

theorem apply_refines_net_witness:
  "\<exists>us. us \<noteq> [] \<and> net_run (get_token_count \<lparr>m_places = [(''draft'', 1)], m_context = []\<rparr>) us
     (get_token_count \<lparr>m_places = [(''live'', 1)], m_context = []\<rparr>)"
proof -
  obtain s' where s': "wf_apply heard () ''publish'' [] shelf = (Inr \<lparr>m_places = [(''live'', 1)], m_context = []\<rparr>, s')"
    using apply_heard by blast
  have "\<forall>m0 s0. get_marking heard () [] shelf = (Inr m0, s0) \<longrightarrow> marking_ok m0"
    using get_marking_heard by (auto simp: marking_ok_def dict_ok_def)
  moreover have "\<forall>t \<in> set (d_transitions (w_definition heard)). transition_ok t"
    using transition_ok_article by (simp add: heard_def)
  ultimately obtain m0 s0 us where "get_marking heard () [] shelf = (Inr m0, s0)" "us \<noteq> []"
      "net_run (get_token_count m0) us (get_token_count \<lparr>m_places = [(''live'', 1)], m_context = []\<rparr>)"
    using apply_refines_net [OF respectful_heard _ s'] by blast
  with get_marking_heard show ?thesis by auto
qed

text \<open>The same article as a state machine, its subject holding the name of its place.\<close>

definition desk :: "(unit \<Rightarrow> pyval option) store_world" where
  "desk = \<lparr>sw_getters = [], sw_setters = [], sw_objects = (\<lambda>_. Some (VStr ''draft''))\<rparr>"

lemma kept_desk: "kept_places True desk = (\<lambda>_. [(''draft'', 1)])" "store_good True desk"
  by (auto simp: kept_places_def store_good_def desk_def decode_kept_def place_name_def Marking_init_def mark_cases
      Marking_empty_def get_token_count_def dict_get_or_def)

lemma machine_ok_article: "machine_ok article"
  unfolding machine_ok_def using transition_ok_article
  by (simp add: definition_ok_def state_machine_validate_def state_machine_step_def check_moves_one_token_def
      article_def publish_def get_froms_def get_tos_def)

theorem state_machine_is_automaton_witness:
  "kept_places True (apply_each (attribute_workflow True article ''article'') ()
      [(''reject'', []), (''publish'', []), (''publish'', [])] desk) = (\<lambda>_. [(''live'', 1)])"
proof -
  have "fold (machine_next article) [''reject'', ''publish'', ''publish''] ''draft'' = ''live''"
    by (simp add: machine_next_def machine_target_def article_def publish_def get_froms_def get_tos_def)
  moreover have "''draft'' \<in> set (d_places article)" by (simp add: article_def)
  ultimately show ?thesis
    using state_machine_is_automaton [OF machine_ok_article kept_desk(2), of "()" "''draft''" "''article''"
        "[(''reject'', []), (''publish'', []), (''publish'', [])]"]
    by (auto simp: kept_desk(1) fun_upd_def)
qed

text \<open>A subject that has not been met yet.\<close>

definition blank :: "(unit \<Rightarrow> pyval option) store_world" where
  "blank = \<lparr>sw_getters = [], sw_setters = [], sw_objects = (\<lambda>_. None)\<rparr>"

lemma met_blank: "met_marking article (kept_marking False blank ()) = kept_marking False shelf ()"
  by (simp add: met_marking_def first_marking_def kept_marking_def kept_places_def blank_def decode_kept_def
      Marking_empty_def article_def mark_cases get_token_count_def dict_get_or_def)

lemma fun_upd_unit: "f(() := x) = (\<lambda>_. x)"
  by (simp add: fun_eq_iff)

lemma enabled_unknown: "enabled_named article m ''archive'' = []"
  by (simp add: enabled_named_def article_def publish_def)

theorem validated_apply_total_witness:
  "(\<exists>m s'. wf_apply (attribute_workflow False article ''article'') () ''publish'' [] blank = (Inr m, s')
      \<and> kept_places False s' = (\<lambda>_. m_places m) \<and> get_token_count m ''live'' = 1 \<and> get_token_count m ''draft'' = 0)
   \<and> (\<exists>s'. wf_apply (attribute_workflow False article ''article'') () ''archive'' [] shelf
        = (Inl (UndefinedTransitionError ''archive''), s') \<and> kept_places False s' = kept_places False shelf)"
proof -
  have blank: "store_good False blank" "kept_places False blank () = []"
    by (simp_all add: store_good_def kept_places_def blank_def decode_kept_def Marking_empty_def)
  have article: "definition_ok article \<and> d_places article \<noteq> []"
    using machine_ok_article by (simp add: machine_ok_def article_def)
  obtain m s' where r: "wf_apply (attribute_workflow False article ''article'') () ''publish'' [] blank = (Inr m, s')"
      "kept_places False s' = (\<lambda>_. m_places m)"
      "\<forall>p. get_token_count m p = get_token_count (kept_marking False shelf ()) p + effect publish p"
    using validated_apply_total [OF validated_article transition_ok_article blank(1), of "()" "''publish''" "''article''" "[]"]
      article blank(2)
    unfolding met_blank enabled_article fun_upd_unit by auto
  have "get_token_count m ''live'' = 1" "get_token_count m ''draft'' = 0"
    unfolding r(3) [rule_format]
    by (simp_all add: kept_marking_def effect_def publish_def arc_pairs_def get_token_count_def dict_get_or_def)
  moreover have "\<exists>s'. wf_apply (attribute_workflow False article ''article'') () ''archive'' [] shelf
      = (Inl (UndefinedTransitionError ''archive''), s') \<and> kept_places False s' = kept_places False shelf"
  proof -
    have "filter (\<lambda>t. t_name t = ''archive'') (d_transitions article) = []"
        "set (dict_keys (kept_places False shelf ())) \<subseteq> set (d_places article)"
      by (simp_all add: article_def publish_def)
    then show ?thesis
      using validated_apply_total [OF validated_article transition_ok_article store_good_shelf, of "()" "''archive''"
          "''article''" "[]"] article
      unfolding enabled_unknown by auto
  qed
  ultimately show ?thesis using r(1,2) by blast
qed

theorem first_contact_witness:
  "\<exists>m s'. get_marking (attribute_workflow False article ''article'') () [] blank = (Inr m, s')
     \<and> get_token_count m ''draft'' = 1 \<and> kept_places False s' () = m_places m"
proof -
  have "definition_ok article" "d_places article \<noteq> []" "store_good False blank" "kept_places False blank () = []"
    using machine_ok_article
    by (simp_all add: machine_ok_def article_def store_good_def kept_places_def blank_def decode_kept_def Marking_empty_def)
  from first_contact [OF this, of "''article''" "[]"] show ?thesis
    by (auto simp: article_def)
qed

end
