(* ===== verification/Workflow_Trace.thy ===== *)
theory Workflow_Trace
  imports Workflow_Engine
begin

text \<open>
  What an application looks like from outside: which events go out under which names, in which
  order, and where in that order the new marking is written. The listener here only records; the
  store only remembers the last marking written and records the write.
\<close>

section \<open>Which events a workflow is silent about\<close>

definition flagged_off :: "call_context \<Rightarrow> string \<Rightarrow> bool" where
  "flagged_off ctx name =
     (case map_of disable_events_mapping name of
        None \<Rightarrow> False
      | Some key \<Rightarrow> (case map_of ctx key of None \<Rightarrow> False | Some v \<Rightarrow> truthy v))"

lemma bang_block_list:
  "map (removeprefix ''!'') (filter starts_with_bang (map (\<lambda>e. ''!'' @ e) bs)) = bs"
  by (induction bs) (simp_all add: starts_with_bang_def removeprefix_def)

text \<open>
  a workflow built with a list of blocked events refuses a list that blocks the guard, and
  otherwise sends out exactly the other events, unless the context of the call switches one of them
  off; the guard cannot be silenced by either.
\<close>

theorem blocked_events_silent:
  assumes "bs \<noteq> []"
  shows "if GUARD \<in> set bs
    then Workflow_init d getm setm (Some disp) name (Some (map (\<lambda>e. ''!'' @ e) bs)) = Inl (InvalidArgumentError GuardBlocked)
    else \<exists>self. Workflow_init d getm setm (Some disp) name (Some (map (\<lambda>e. ''!'' @ e) bs)) = Inr self
      \<and> w_dispatcher self = Some disp
      \<and> (\<forall>e \<in> set DISPATCHABLE_EVENTS. \<forall>ctx.
           dispatcher_for self e ctx = (if e \<in> set bs \<or> flagged_off ctx e then None else Some disp))"
proof -
  have "events_to_dispatch_from (map (\<lambda>e. ''!'' @ e) bs)
      = (if GUARD \<in> set bs then Inl (InvalidArgumentError GuardBlocked)
         else Inr (filter (\<lambda>e. e \<notin> set bs) DISPATCHABLE_EVENTS))"
    unfolding events_to_dispatch_from_def bang_block_list using assms by (simp add: Let_def)
  then show ?thesis
    by (simp add: Workflow_init_def dispatcher_for_def flagged_off_def Let_def)
qed

theorem blocked_events_silent_witness:
  "\<exists>self :: (unit, unit) workflow.
     Workflow_init Definition_empty (\<lambda>_. ret Marking_empty) (\<lambda>_ _ _. ret ()) (Some (\<lambda>_ e _. ret e)) ''w''
       (Some [''!workflow.leave'']) = Inr self
     \<and> dispatcher_for self LEAVE [] = None \<and> dispatcher_for self ENTER [] \<noteq> None"
proof -
  have "[LEAVE] \<noteq> []" by simp
  from blocked_events_silent [OF this, of Definition_empty "\<lambda>_. ret Marking_empty" "\<lambda>_ _ _. ret ()"
      "\<lambda>_ e _. ret e" "''w''"]
  show ?thesis
    by (auto simp: event_names DISPATCHABLE_EVENTS_def flagged_off_def disable_events_mapping_def)
qed

section \<open>The recorder\<close>

datatype observed = Heard event_kind string | Wrote marking

type_synonym noted = "observed list \<times> marking"

definition recorder :: "('sub, noted) dispatcher" where
  "recorder sub e n = (\<lambda>(tr, k). (Inr e, (tr @ [Heard (ev_kind e) n], k)))"

definition noted_get :: "'sub \<Rightarrow> (noted, wf_error, marking) prog" where
  "noted_get sub = (\<lambda>(tr, k). (Inr k, (tr, k)))"

definition noted_set :: "'sub \<Rightarrow> marking \<Rightarrow> call_context option \<Rightarrow> (noted, wf_error, unit) prog" where
  "noted_set sub m c = (\<lambda>(tr, k). (Inr (), (tr @ [Wrote m], m)))"

definition noted_workflow :: "wf_definition \<Rightarrow> string \<Rightarrow> string list option \<Rightarrow> ('sub, noted) workflow" where
  "noted_workflow d name evs =
     \<lparr>w_definition = d, w_get_marking = noted_get, w_set_marking = noted_set,
      w_dispatcher = Some recorder, w_name = name, w_events = evs\<rparr>"

text \<open>The names one event goes out under: the bare one, the workflow's own, and one per node.\<close>

definition heard_under :: "string \<Rightarrow> event_kind \<Rightarrow> string \<Rightarrow> string list \<Rightarrow> observed list" where
  "heard_under wname k event nodes =
     map (Heard k) (event # narrowed wname event # map (\<lambda>n. narrowed wname event @ ''.'' @ n) nodes)"

definition sounds :: "string list option \<Rightarrow> call_context \<Rightarrow> string \<Rightarrow> bool" where
  "sounds evs ctx event \<longleftrightarrow> \<not> flagged_off ctx event \<and> (case evs of None \<Rightarrow> True | Some es \<Rightarrow> event \<in> set es)"

definition heard_if :: "string \<Rightarrow> string list option \<Rightarrow> call_context \<Rightarrow> event_kind \<Rightarrow> string \<Rightarrow> string list \<Rightarrow> observed list" where
  "heard_if wname evs ctx k event nodes = (if sounds evs ctx event then heard_under wname k event nodes else [])"

text \<open>What announcing amounts to: every transition the new marking enables is guarded, then announced.\<close>

definition announced :: "wf_definition \<Rightarrow> string \<Rightarrow> string list option \<Rightarrow> call_context \<Rightarrow> marking \<Rightarrow> observed list" where
  "announced d wname evs ctx m =
     (if sounds evs ctx ANNOUNCE
      then let ts = filter (marking_enables m) (d_transitions d)
           in heard_under wname AnnounceEvent ANNOUNCE []
              @ concat (map (\<lambda>t. heard_under wname GuardEvent GUARD [t_name t]) ts)
              @ map (\<lambda>t. Heard AnnounceEvent (announce_name wname (t_name t))) ts
      else [])"

lemma noted_dispatcher_for:
  "dispatcher_for (noted_workflow d name evs) event ctx = (if sounds evs ctx event then Some recorder else None)"
  by (simp add: dispatcher_for_def sounds_def flagged_off_def noted_workflow_def Let_def split: option.splits)

lemma noted_fields [simp]:
  "w_definition (noted_workflow d name evs) = d" "w_name (noted_workflow d name evs) = name"
  "w_get_marking (noted_workflow d name evs) = noted_get" "w_set_marking (noted_workflow d name evs) = noted_set"
  "w_dispatcher (noted_workflow d name evs) = Some recorder"
  by (simp_all add: noted_workflow_def)

lemma for_each_recorder:
  "for_each (\<lambda>x ev. recorder sub ev (g x)) xs e (tr, k) = (Inr e, (tr @ map (\<lambda>x. Heard (ev_kind e) (g x)) xs, k))"
  by (induction xs arbitrary: tr) (simp_all add: recorder_def andthen_Inr)

lemma dispatch_under_recorder:
  "dispatch_under self recorder sub e name nodes (tr, k)
    = (Inr e, (tr @ heard_under (w_name self) (ev_kind e) name nodes, k))"
proof -
  have r: "recorder sub e n (tr, k) = (Inr e, (tr @ [Heard (ev_kind e) n], k))" for n tr
    by (simp add: recorder_def)
  show ?thesis
    by (simp add: dispatch_under_def andthen_Inr r for_each_recorder heard_under_def)
qed

lemma new_event_fields [simp]:
  "ev_kind (new_event k m t c) = k" "ev_context (new_event k m t c) = c" "ev_blockers (new_event k m t c) = []"
  by (simp_all add: new_event_def)

lemma noted_steps:
  fixes sub :: 'sub and d name evs
  defines "self \<equiv> noted_workflow d name evs :: ('sub, noted) workflow"
  shows "entered self sub (Some t) m ctx (tr, k)
      = (Inr m, (tr @ heard_if name evs ctx EnteredEvent ENTERED (get_tos t), k))"
    and "completed self sub t m ctx (tr, k)
      = (Inr m, (tr @ heard_if name evs ctx CompletedEvent COMPLETED [t_name t], k))"
    and "take_transition self sub t m ctx (tr, k)
      = (Inr (m, ctx), (tr @ heard_if name evs ctx TransitionEvent TRANSITION [t_name t], k))"
    and "leave self sub t m ctx (tr, k)
      = (fold_r (\<lambda>a. unmark (arc_place a) (arc_weight a)) (t_from_arcs t) m,
         (tr @ heard_if name evs ctx LeaveEvent LEAVE (get_froms t), k))"
    and "enter self sub t m ctx (tr, k)
      = (fold_r (\<lambda>a. mark (arc_place a) (arc_weight a)) (t_to_arcs t) m,
         (tr @ heard_if name evs ctx EnterEvent ENTER (get_tos t), k))"
  unfolding self_def entered_def completed_def take_transition_def leave_def enter_def noted_dispatcher_for
  by (simp_all add: andthen_def dispatch_under_recorder heard_if_def)

lemma noted_blockers:
  "build_transition_blocker_list_for (noted_workflow d name evs) sub m t (tr, k)
    = (if marking_enables m t then (Inr ([], m), (tr @ heard_under name GuardEvent GUARD [t_name t], k))
       else (Inr ([create_blocked_by_marking m], m), (tr, k)))"
  by (auto simp: build_transition_blocker_list_for_def marking_enables_def andthen_Inr dispatch_under_recorder
      list_ex_iff list_all_iff not_le)

definition guards_heard :: "string \<Rightarrow> marking \<Rightarrow> transition list \<Rightarrow> observed list" where
  "guards_heard wname m ts = concat (map (\<lambda>t. heard_under wname GuardEvent GUARD [t_name t]) (filter (marking_enables m) ts))"

lemma noted_survey_enabled:
  "for_each (\<lambda>t (ts, m'). andthen (build_transition_blocker_list_for (noted_workflow d name evs) sub m' t)
       (\<lambda>(bs, m''). Pair (Inr (if bs = [] then ts @ [t] else ts, m'')))) us (acc, m) (tr, k)
    = (Inr (acc @ filter (marking_enables m) us, m), (tr @ guards_heard name m us, k))"
proof (induction us arbitrary: acc tr)
  case Nil
  then show ?case by (simp add: guards_heard_def)
next
  case (Cons t us)
  then show ?case
    by (cases "marking_enables m t") (simp_all add: andthen_def noted_blockers guards_heard_def)
qed

lemma noted_get_marking:
  assumes "m_places k \<noteq> []" and "set (dict_keys (m_places k)) \<subseteq> set (d_places d)"
  shows "get_marking (noted_workflow d name evs) sub ctx (tr, k) = (Inr k, (tr, k))"
proof -
  have "find (\<lambda>p. p \<notin> set (d_places d)) (dict_keys (m_places k)) = None"
    using assms(2) by (auto simp: find_None_iff)
  with assms(1) show ?thesis by (simp add: get_marking_def andthen_def noted_get_def)
qed

lemma noted_announce:
  assumes "m_places k \<noteq> []" and "set (dict_keys (m_places k)) \<subseteq> set (d_places d)"
  shows "announce (noted_workflow d name evs) sub t m ctx (tr, k) = (Inr m, (tr @ announced d name evs ctx k, k))"
proof -
  have "get_enabled_transitions (noted_workflow d name evs) sub (tr', k)
      = (Inr (filter (marking_enables k) (d_transitions d)), (tr' @ guards_heard name k (d_transitions d), k))" for tr'
    by (simp add: get_enabled_transitions_def andthen_Inr noted_get_marking [OF assms] noted_survey_enabled)
  then show ?thesis
    by (simp add: announce_def noted_dispatcher_for andthen_Inr dispatch_under_recorder for_each_recorder
        announced_def guards_heard_def Let_def)
qed

text \<open>
  C28: an application of one transition is heard in this order: the guard of the transition, then
  leaving each place, the transition, entering each place; only then is the new marking written;
  then entered, completed, and, when announcing, the guards of the transitions now enabled followed
  by one announcement each. Every event goes out under its bare name, the workflow's and one name
  per node, and an event that is switched off leaves the rest of the order as it is.
\<close>

theorem apply_order:
  assumes "filter (\<lambda>t. t_name t = n) (d_transitions d) = [t]"
    and "m_places m \<noteq> []" and "set (dict_keys (m_places m)) \<subseteq> set (d_places d)" and "marking_enables m t"
    and "fold_r (\<lambda>a. unmark (arc_place a) (arc_weight a)) (t_from_arcs t) m = Inr m1"
    and "fold_r (\<lambda>a. mark (arc_place a) (arc_weight a)) (t_to_arcs t) m1 = Inr m2"
    and "m_places m2 \<noteq> []" and "set (dict_keys (m_places m2)) \<subseteq> set (d_places d)"
  shows "wf_apply (noted_workflow d name evs) sub n ctx ([], m) =
    (Inr (set_context ctx m2),
     (heard_under name GuardEvent GUARD [n]
      @ heard_if name evs ctx LeaveEvent LEAVE (get_froms t)
      @ heard_if name evs ctx TransitionEvent TRANSITION [n]
      @ heard_if name evs ctx EnterEvent ENTER (get_tos t)
      @ [Wrote m2]
      @ heard_if name evs ctx EnteredEvent ENTERED (get_tos t)
      @ heard_if name evs ctx CompletedEvent COMPLETED [n]
      @ announced d name evs ctx m2, m2))"
proof -
  have n: "t_name t = n" using assms(1) by (metis (mono_tags) filter_eq_Cons_iff)
  have fire: "fire (noted_workflow d name evs) sub t (m, ctx) (tr, m) =
      (Inr (m2, ctx), (tr @ heard_if name evs ctx LeaveEvent LEAVE (get_froms t)
      @ heard_if name evs ctx TransitionEvent TRANSITION [n]
      @ heard_if name evs ctx EnterEvent ENTER (get_tos t) @ [Wrote m2]
      @ heard_if name evs ctx EnteredEvent ENTERED (get_tos t)
      @ heard_if name evs ctx CompletedEvent COMPLETED [n] @ announced d name evs ctx m2, m2))" for tr
    using assms(5,6) n
    by (simp add: fire_def andthen_def noted_steps noted_set_def noted_announce [OF assms(7,8)])
  show ?thesis
    using assms(1,4) n
    by (simp add: wf_apply_def andthen_def noted_get_marking [OF assms(2,3)] transitions_named_def noted_blockers fire)
qed

section \<open>A worked example\<close>

definition approve :: transition where
  "approve = \<lparr>t_id = 0, t_name = ''ok'', t_from_arcs = [\<lparr>arc_place = ''a'', arc_weight = 1\<rparr>],
     t_to_arcs = [\<lparr>arc_place = ''b'', arc_weight = 1\<rparr>]\<rparr>"

definition approval :: wf_definition where
  "approval = \<lparr>d_places = [''a'', ''b''], d_transitions = [approve], d_initial_places = [''a'']\<rparr>"

lemma approval_moves:
  "filter (\<lambda>t. t_name t = ''ok'') (d_transitions approval) = [approve]"
  "m_places \<lparr>m_places = [(''a'', 1)], m_context = []\<rparr> \<noteq> []"
  "set (dict_keys (m_places \<lparr>m_places = [(''a'', 1 :: int)], m_context = []\<rparr>)) \<subseteq> set (d_places approval)"
  "marking_enables \<lparr>m_places = [(''a'', 1)], m_context = []\<rparr> approve"
  "fold_r (\<lambda>a. unmark (arc_place a) (arc_weight a)) (t_from_arcs approve) \<lparr>m_places = [(''a'', 1)], m_context = []\<rparr>
    = Inr Marking_empty"
  "fold_r (\<lambda>a. mark (arc_place a) (arc_weight a)) (t_to_arcs approve) Marking_empty
    = Inr \<lparr>m_places = [(''b'', 1)], m_context = []\<rparr>"
  "m_places \<lparr>m_places = [(''b'', 1)], m_context = []\<rparr> \<noteq> []"
  "set (dict_keys (m_places \<lparr>m_places = [(''b'', 1 :: int)], m_context = []\<rparr>)) \<subseteq> set (d_places approval)"
  by (simp_all add: approval_def approve_def marking_enables_def get_token_count_def dict_get_or_def unmark_def
      refuse_below_one_def mark_cases Marking_empty_def)

theorem apply_order_witness:
  "fst (snd (wf_apply (noted_workflow approval ''w'' (Some [ENTERED])) () ''ok'' []
        ([], \<lparr>m_places = [(''a'', 1)], m_context = []\<rparr>)))
    = [Heard GuardEvent ''workflow.guard'', Heard GuardEvent ''workflow.w.guard'',
       Heard GuardEvent ''workflow.w.guard.ok'', Wrote \<lparr>m_places = [(''b'', 1)], m_context = []\<rparr>,
       Heard EnteredEvent ''workflow.entered'', Heard EnteredEvent ''workflow.w.entered'',
       Heard EnteredEvent ''workflow.w.entered.b'']"
  using apply_order [OF approval_moves, of "''w''" "Some [ENTERED]" "()" "[]"]
  by (simp add: heard_if_def heard_under_def announced_def sounds_def flagged_off_def narrowed_def removeprefix_def
        event_names disable_events_mapping_def approve_def get_tos_def)

end
