(* ===== verification/Workflow_Services.thy ===== *)
theory Workflow_Services
  imports Workflow_Trace
begin

text \<open>
  What surrounds the engine of xtr-workflow: the names of the event classes, the registry that finds
  the workflow of a subject, the metadata store, the guard listener and the audit trail. Guards,
  security services and support strategies are application code: they are arguments of the model.
\<close>

section \<open>Event names\<close>

fun class_name :: "event_kind \<Rightarrow> string" where
  "class_name GuardEvent = ''GuardEvent''"
| "class_name LeaveEvent = ''LeaveEvent''"
| "class_name TransitionEvent = ''TransitionEvent''"
| "class_name EnterEvent = ''EnterEvent''"
| "class_name EnteredEvent = ''EnteredEvent''"
| "class_name CompletedEvent = ''CompletedEvent''"
| "class_name AnnounceEvent = ''AnnounceEvent''"

definition lower_char :: "char \<Rightarrow> char" where
  "lower_char c = (let k = (of_char c :: nat) in if 65 \<le> k \<and> k \<le> 90 then char_of (k + 32) else c)"

definition removesuffix :: "string \<Rightarrow> string \<Rightarrow> string" where
  "removesuffix suf s =
     (if length suf \<le> length s \<and> drop (length s - length suf) s = suf
      then take (length s - length suf) s else s)"

definition event_name :: "event_kind \<Rightarrow> string option \<Rightarrow> string option \<Rightarrow> wf_error + string" where
  "event_name k workflow_name node =
     (let short_name = map lower_char (removesuffix ''Event'' (class_name k)) in
      case workflow_name of
        None \<Rightarrow> (case node of
            Some _ \<Rightarrow> Inl (InvalidArgumentError MissingWorkflowName)
          | None \<Rightarrow> Inr (''workflow.'' @ short_name))
      | Some w \<Rightarrow> (case node of
            None \<Rightarrow> Inr (''workflow.'' @ w @ ''.'' @ short_name)
          | Some n \<Rightarrow> Inr (''workflow.'' @ w @ ''.'' @ short_name @ ''.'' @ n)))"

text \<open>\<open>WorkflowEvents\<close>: the bare name each event class goes out under.\<close>

fun bare_name :: "event_kind \<Rightarrow> string" where
  "bare_name GuardEvent = GUARD"
| "bare_name LeaveEvent = LEAVE"
| "bare_name TransitionEvent = TRANSITION"
| "bare_name EnterEvent = ENTER"
| "bare_name EnteredEvent = ENTERED"
| "bare_name CompletedEvent = COMPLETED"
| "bare_name AnnounceEvent = ANNOUNCE"

text \<open>
  the name a listener asks an event class for is the name the engine sends that event under: the
  bare one, the workflow's, and the one narrowed to a place or a transition.
\<close>

theorem event_name_agrees:
  "event_name k None None = Inr (bare_name k)
   \<and> event_name k (Some w) None = Inr (narrowed w (bare_name k))
   \<and> event_name k (Some w) (Some n) = Inr (narrowed w (bare_name k) @ ''.'' @ n)
   \<and> event_name k None (Some n) = Inl (InvalidArgumentError MissingWorkflowName)"
  by (cases k; simp add: event_name_def narrowed_def removesuffix_def removeprefix_def lower_char_def event_names
      of_char_def char_of_def bit_0)

section \<open>The guard listener\<close>

text \<open>
  What a guard is handed, and a guard: a callable known to a blocker by its qualified name. It is
  application code, so calling it may do anything to the world, and its answer is any value.
\<close>

record ('sub, 'tok, 'usr, 'chk, 'res) guard_context =
  gc_subject :: 'sub
  gc_token :: "'tok option"
  gc_user :: "'usr option"
  gc_role_names :: "string list"
  gc_authorization_checker :: 'chk
  gc_trust_resolver :: 'res

record ('c, 'w) guard_fn =
  qualified_name :: string
  run_guard :: "'c \<Rightarrow> ('w, wf_error, pyval) prog"

text \<open>A guard configured on one transition, by identity, or a bare one.\<close>

datatype ('c, 'w) guard_entry = GuardExpression nat "('c, 'w) guard_fn" | BareGuard "('c, 'w) guard_fn"

record ('sub, 'tok, 'usr, 'chk, 'res, 'w) guard_listener =
  gl_configuration :: "(string, (('sub, 'tok, 'usr, 'chk, 'res) guard_context, 'w) guard_entry list) dict"
  gl_get_token :: "('w, wf_error, 'tok option) prog"
  gl_get_user :: "'tok \<Rightarrow> 'usr option"
  gl_get_role_names :: "'tok \<Rightarrow> string list"
  gl_reachable :: "string list \<Rightarrow> string list"
  gl_authorization_checker :: 'chk
  gl_trust_resolver :: 'res

fun guard_applies :: "transition option \<Rightarrow> ('c, 'w) guard_entry \<Rightarrow> bool" where
  "guard_applies t (GuardExpression i g) = (map_option t_id t = Some i)"
| "guard_applies t (BareGuard g) = True"

fun get_expression :: "('c, 'w) guard_entry \<Rightarrow> ('c, 'w) guard_fn" where
  "get_expression (GuardExpression i g) = g"
| "get_expression (BareGuard g) = g"

definition guards_for ::
  "('sub, 'tok, 'usr, 'chk, 'res, 'w) guard_listener \<Rightarrow> string \<Rightarrow> transition option
     \<Rightarrow> (('sub, 'tok, 'usr, 'chk, 'res) guard_context, 'w) guard_fn list" where
  "guards_for self ename t =
     map get_expression (filter (guard_applies t) (dict_get_or (gl_configuration self) ename []))"

definition get_guard_names ::
  "('sub, 'tok, 'usr, 'chk, 'res, 'w) guard_listener \<Rightarrow> string \<Rightarrow> transition \<Rightarrow> string list" where
  "get_guard_names self ename t = map qualified_name (guards_for self ename (Some t))"

definition guard_context_of ::
  "('sub, 'tok, 'usr, 'chk, 'res, 'w) guard_listener \<Rightarrow> 'sub
     \<Rightarrow> ('w, wf_error, ('sub, 'tok, 'usr, 'chk, 'res) guard_context) prog" where
  "guard_context_of self sub =
     andthen (gl_get_token self) (\<lambda>token.
     ret (case token of
        None \<Rightarrow> \<lparr>gc_subject = sub, gc_token = None, gc_user = None, gc_role_names = [],
                 gc_authorization_checker = gl_authorization_checker self,
                 gc_trust_resolver = gl_trust_resolver self\<rparr>
      | Some tok \<Rightarrow> \<lparr>gc_subject = sub, gc_token = Some tok, gc_user = gl_get_user self tok,
                 gc_role_names = gl_reachable self (gl_get_role_names self tok),
                 gc_authorization_checker = gl_authorization_checker self,
                 gc_trust_resolver = gl_trust_resolver self\<rparr>))"

definition validate_guard_expression ::
  "('sub, 'tok, 'usr, 'chk, 'res, 'w) guard_listener \<Rightarrow> 'sub
     \<Rightarrow> (('sub, 'tok, 'usr, 'chk, 'res) guard_context, 'w) guard_fn \<Rightarrow> wf_event \<Rightarrow> ('w, wf_error, wf_event) prog" where
  "validate_guard_expression self sub guard e =
     andthen (guard_context_of self sub) (\<lambda>c.
     andthen (run_guard guard c) (\<lambda>outcome.
     ret (if truthy outcome then e
          else add_transition_blocker
                 (create_blocked_by_expression_guard_listener (qualified_name guard)) e)))"

definition on_transition ::
  "('sub, 'tok, 'usr, 'chk, 'res, 'w) guard_listener \<Rightarrow> 'sub \<Rightarrow> wf_event \<Rightarrow> string
     \<Rightarrow> ('w, wf_error, wf_event) prog" where
  "on_transition self sub e ename =
     for_each (validate_guard_expression self sub) (guards_for self ename (ev_transition e)) e"

text \<open>
  A dispatcher whose only listener is the guard listener, registered for the guard events. The
  hypothesis on the guards is that they answer, without touching the subject's world: \<open>answer\<close> is
  what each of them says of the subject.
\<close>

definition guarding ::
  "('sub, 'tok, 'usr, 'chk, 'res, 'w) guard_listener \<Rightarrow> ('sub, 'w) dispatcher" where
  "guarding gl sub e n = (if ev_kind e = GuardEvent then on_transition gl sub e n else ret e)"

definition guards_answer ::
  "('sub, 'tok, 'usr, 'chk, 'res, 'w) guard_listener \<Rightarrow> (string \<Rightarrow> 'sub \<Rightarrow> bool) \<Rightarrow> bool" where
  "guards_answer gl answer \<longleftrightarrow>
     (\<forall>gs \<in> set (map snd (gl_configuration gl)). \<forall>g \<in> set gs. \<forall>sub w.
        \<exists>v. andthen (guard_context_of gl sub) (run_guard (get_expression g)) w = (Inr v, w)
          \<and> truthy v = answer (qualified_name (get_expression g)) sub)"

definition refusals ::
  "('sub, 'tok, 'usr, 'chk, 'res, 'w) guard_listener \<Rightarrow> (string \<Rightarrow> 'sub \<Rightarrow> bool) \<Rightarrow> 'sub \<Rightarrow> transition \<Rightarrow> string \<Rightarrow> blocker list" where
  "refusals gl answer sub t ename =
     map create_blocked_by_expression_guard_listener
       (filter (\<lambda>g. \<not> answer g sub) (get_guard_names gl ename t))"

lemma guards_for_configured:
  assumes "g \<in> set (guards_for gl n t)"
  shows "\<exists>gs \<in> set (map snd (gl_configuration gl)). \<exists>x \<in> set gs. g = get_expression x"
proof -
  from assms obtain x where x: "x \<in> set (dict_get_or (gl_configuration gl) n [])" "g = get_expression x"
    by (auto simp: guards_for_def)
  then obtain gs where "map_of (gl_configuration gl) n = Some gs" "x \<in> set gs"
    by (cases "map_of (gl_configuration gl) n") (simp_all add: dict_get_or_def)
  then show ?thesis using x(2) by (auto dest!: map_of_SomeD intro!: bexI [of _ "(n, gs)"])
qed

lemma validate_guard_answer:
  assumes "guards_answer gl answer" and "g \<in> set (guards_for gl n t)"
  shows "validate_guard_expression gl sub g e w
    = (Inr (if answer (qualified_name g) sub then e
            else add_transition_blocker (create_blocked_by_expression_guard_listener (qualified_name g)) e), w)"
proof -
  obtain v where v: "andthen (guard_context_of gl sub) (run_guard g) w = (Inr v, w)"
      "truthy v = answer (qualified_name g) sub"
    using guards_for_configured [OF assms(2)] assms(1) unfolding guards_answer_def by metis
  have "validate_guard_expression gl sub g e = andthen (andthen (guard_context_of gl sub) (run_guard g))
      (\<lambda>outcome. ret (if truthy outcome then e
         else add_transition_blocker (create_blocked_by_expression_guard_listener (qualified_name g)) e))"
    unfolding validate_guard_expression_def andthen_assoc by simp
  with v show ?thesis by (simp add: andthen_Inr)
qed

lemma on_transition_answer:
  assumes "guards_answer gl answer" and "ev_transition e = Some t"
  shows "on_transition gl sub e n w = (Inr (e\<lparr>ev_blockers := ev_blockers e @ refusals gl answer sub t n\<rparr>), w)"
proof -
  have "for_each (validate_guard_expression gl sub) gs ev w
      = (Inr (ev\<lparr>ev_blockers := ev_blockers ev @ map create_blocked_by_expression_guard_listener
           (filter (\<lambda>g. \<not> answer g sub) (map qualified_name gs))\<rparr>), w)"
    if "set gs \<subseteq> set (guards_for gl n (Some t))" for gs ev
    using that
  proof (induction gs arbitrary: ev)
    case Nil
    then show ?case by simp
  next
    case (Cons g gs)
    then have "g \<in> set (guards_for gl n (Some t))" by simp
    from validate_guard_answer [OF assms(1) this] Cons show ?case
      by (simp add: andthen_Inr add_transition_blocker_def)
  qed
  from this [of "guards_for gl n (Some t)" e] show ?thesis
    by (simp add: on_transition_def assms(2) refusals_def get_guard_names_def)
qed

text \<open>
  with a guard listener in place, a transition is blocked by exactly the guards that refuse the
  subject. A transition the marking does not enable is blocked by the marking alone, and no guard
  is asked; otherwise the blockers are the refusing guards configured for the three names of its guard
  event, from the widest name to the narrowest, a guard expression only for its own transition.
\<close>

theorem guard_listener_blocks:
  assumes "guards_answer gl answer" and "w_dispatcher self = Some (guarding gl)"
  shows "build_transition_blocker_list_for self sub m t w =
    (if \<not> marking_enables m t then (Inr ([create_blocked_by_marking m], m), w)
     else (Inr (concat (map (refusals gl answer sub t)
         [GUARD, narrowed (w_name self) GUARD, narrowed (w_name self) GUARD @ ''.'' @ t_name t]), m), w))"
proof -
  have g: "guarding gl sub e n w = (Inr (e\<lparr>ev_blockers := ev_blockers e @ refusals gl answer sub t n\<rparr>), w)"
    if "ev_kind e = GuardEvent" "ev_transition e = Some t" for e n
    using that on_transition_answer [OF assms(1)] by (simp add: guarding_def)
  have "dispatch_under self (guarding gl) sub (new_event GuardEvent m (Some t) []) GUARD [t_name t] w
      = (Inr ((new_event GuardEvent m (Some t) [])\<lparr>ev_blockers := concat (map (refusals gl answer sub t)
         [GUARD, narrowed (w_name self) GUARD, narrowed (w_name self) GUARD @ ''.'' @ t_name t])\<rparr>), w)"
    by (simp add: dispatch_under_def andthen_Inr g new_event_def)
  then show ?thesis
    using assms(2)
    by (auto simp: build_transition_blocker_list_for_def marking_enables_def andthen_Inr new_event_def
        list_ex_iff list_all_iff not_le)
qed

text \<open>A transition guarded by two guards, one of which lets nobody through.\<close>

definition open_guard :: "((nat, unit, unit, unit, unit) guard_context, unit) guard_fn" where
  "open_guard = \<lparr>qualified_name = ''app.open'', run_guard = (\<lambda>c. ret (VBool True))\<rparr>"

definition closed_guard :: "((nat, unit, unit, unit, unit) guard_context, unit) guard_fn" where
  "closed_guard = \<lparr>qualified_name = ''app.closed'', run_guard = (\<lambda>c. ret (VInt 0))\<rparr>"

definition gate :: "(nat, unit, unit, unit, unit, unit) guard_listener" where
  "gate = \<lparr>gl_configuration = [(''workflow.w.guard.ok'', [BareGuard open_guard, GuardExpression 0 closed_guard,
        GuardExpression 1 open_guard])],
     gl_get_token = ret None, gl_get_user = (\<lambda>_. None), gl_get_role_names = (\<lambda>_. []), gl_reachable = (\<lambda>rs. rs),
     gl_authorization_checker = (), gl_trust_resolver = ()\<rparr>"

theorem guard_listener_blocks_witness:
  "fst (build_transition_blocker_list_for \<lparr>w_definition = approval, w_get_marking = (\<lambda>_. ret Marking_empty),
       w_set_marking = (\<lambda>_ _ _. ret ()), w_dispatcher = Some (guarding gate), w_name = ''w'', w_events = None\<rparr>
     0 \<lparr>m_places = [(''a'', 1)], m_context = []\<rparr> approve ())
    = Inr ([create_blocked_by_expression_guard_listener ''app.closed''], \<lparr>m_places = [(''a'', 1)], m_context = []\<rparr>)"
proof -
  let ?self = "\<lparr>w_definition = approval, w_get_marking = (\<lambda>_. ret Marking_empty),
       w_set_marking = (\<lambda>_ _ _. ret ()), w_dispatcher = Some (guarding gate), w_name = ''w'', w_events = None\<rparr>"
  let ?answer = "\<lambda>g (_ :: nat). g = ''app.open''"
  have "guards_answer gate ?answer"
    by (simp add: guards_answer_def gate_def open_guard_def closed_guard_def guard_context_of_def)
  from guard_listener_blocks [OF this, of ?self 0 "\<lparr>m_places = [(''a'', 1)], m_context = []\<rparr>" approve "()"] show ?thesis
    by (simp add: marking_enables_def approve_def get_token_count_def dict_get_or_def refusals_def get_guard_names_def
        guards_for_def gate_def open_guard_def closed_guard_def narrowed_def removeprefix_def GUARD_def)
qed

section \<open>The registry\<close>

text \<open>A support strategy is asked with the workflow and the subject.\<close>

type_synonym ('sub, 'w) registry = "(('sub, 'w) workflow \<times> (('sub, 'w) workflow \<Rightarrow> 'sub \<Rightarrow> bool)) list"

definition Registry_init :: "('sub, 'w) registry" where
  "Registry_init = []"

definition add_workflow ::
  "('sub, 'w) workflow \<Rightarrow> (('sub, 'w) workflow \<Rightarrow> 'sub \<Rightarrow> bool) \<Rightarrow> ('sub, 'w) registry \<Rightarrow> ('sub, 'w) registry" where
  "add_workflow w strategy r = r @ [(w, strategy)]"

definition supporting :: "('sub, 'w) registry \<Rightarrow> 'sub \<Rightarrow> string option \<Rightarrow> ('sub, 'w) workflow list" where
  "supporting r sub name =
     map fst (filter (\<lambda>(w, strategy). (name = None \<or> name = Some (w_name w)) \<and> strategy w sub) r)"

definition registry_has :: "('sub, 'w) registry \<Rightarrow> 'sub \<Rightarrow> string option \<Rightarrow> bool" where
  "registry_has r sub name = (supporting r sub name \<noteq> [])"

definition registry_get :: "('sub, 'w) registry \<Rightarrow> 'sub \<Rightarrow> string option \<Rightarrow> wf_error + ('sub, 'w) workflow" where
  "registry_get r sub name =
     (case supporting r sub name of
        [] \<Rightarrow> Inl (InvalidArgumentError NoWorkflowForSubject)
      | [w] \<Rightarrow> Inr w
      | ws \<Rightarrow> Inl (InvalidArgumentError (TooManyWorkflows (map w_name ws))))"

definition registry_all :: "('sub, 'w) registry \<Rightarrow> 'sub \<Rightarrow> ('sub, 'w) workflow list" where
  "registry_all r sub = supporting r sub None"

definition instance_of_supports :: "('sub \<Rightarrow> 'cls \<Rightarrow> bool) \<Rightarrow> 'cls \<Rightarrow> ('sub, 'w) workflow \<Rightarrow> 'sub \<Rightarrow> bool" where
  "instance_of_supports isinstance cls w sub = isinstance sub cls"

lemma supporting_add:
  "supporting (add_workflow w strategy r) sub name
    = supporting r sub name @ (if (name = None \<or> name = Some (w_name w)) \<and> strategy w sub then [w] else [])"
  by (simp add: supporting_def add_workflow_def)

text \<open>
  a workflow added to a registry under a name no other workflow has is found by that name, for
  the subjects its strategy supports and no others; by subject alone it is found exactly when no
  earlier workflow supports the subject, and an ambiguous subject is refused with every candidate
  named in the order they were added.
\<close>

theorem registry_finds:
  assumes "\<forall>(w', strategy') \<in> set r. w_name w' \<noteq> w_name w"
  shows "registry_get (add_workflow w strategy r) sub (Some (w_name w))
      = (if strategy w sub then Inr w else Inl (InvalidArgumentError NoWorkflowForSubject))
   \<and> (strategy w sub \<longrightarrow> registry_get (add_workflow w strategy r) sub None
        = (if registry_has r sub None
           then Inl (InvalidArgumentError (TooManyWorkflows (map w_name (registry_all r sub) @ [w_name w])))
           else Inr w))"
proof
  have "supporting r sub (Some (w_name w)) = []"
    using assms by (auto simp: supporting_def filter_empty_conv)
  then show "registry_get (add_workflow w strategy r) sub (Some (w_name w))
      = (if strategy w sub then Inr w else Inl (InvalidArgumentError NoWorkflowForSubject))"
    by (simp add: registry_get_def supporting_add)
  show "strategy w sub \<longrightarrow> registry_get (add_workflow w strategy r) sub None
        = (if registry_has r sub None
           then Inl (InvalidArgumentError (TooManyWorkflows (map w_name (registry_all r sub) @ [w_name w])))
           else Inr w)"
    by (cases "supporting r sub None"; cases "tl (supporting r sub None)")
       (auto simp: registry_get_def supporting_add registry_has_def registry_all_def)
qed

theorem registry_finds_witness:
  "registry_get (add_workflow (noted_workflow approval ''b'' None) (\<lambda>_ n. n = (0 :: nat))
       [(noted_workflow approval ''a'' None, \<lambda>_ _. True)]) 0 (Some ''b'') = Inr (noted_workflow approval ''b'' None)
   \<and> registry_get (add_workflow (noted_workflow approval ''b'' None) (\<lambda>_ n. n = (0 :: nat))
       [(noted_workflow approval ''a'' None, \<lambda>_ _. True)]) 0 None
     = Inl (InvalidArgumentError (TooManyWorkflows [''a'', ''b'']))"
  using registry_finds [of "[(noted_workflow approval ''a'' None, \<lambda>_ _. True)]" "noted_workflow approval ''b'' None"
      "\<lambda>_ n. n = (0 :: nat)" 0]
  by (simp add: registry_has_def registry_all_def supporting_def)

section \<open>Metadata\<close>

text \<open>Whose metadata is asked for; a transition's is kept under its identity.\<close>

datatype metadata_subject = OfWorkflow | OfPlace string | OfTransition transition | OfOther

record metadata_store =
  ms_workflow :: "(string, pyval) dict"
  ms_places :: "(string, (string, pyval) dict) dict"
  ms_transitions :: "(nat, (string, pyval) dict) dict"

definition InMemoryMetadataStore_init ::
  "(string, pyval) dict option \<Rightarrow> (string, (string, pyval) dict) dict option
     \<Rightarrow> (transition \<times> (string, pyval) dict) list option \<Rightarrow> metadata_store" where
  "InMemoryMetadataStore_init w ps ts =
     \<lparr>ms_workflow = (case w of None \<Rightarrow> [] | Some d \<Rightarrow> d),
      ms_places = (case ps of None \<Rightarrow> [] | Some d \<Rightarrow> d),
      ms_transitions = (case ts of None \<Rightarrow> [] | Some d \<Rightarrow> map (\<lambda>(t, md). (t_id t, md)) d)\<rparr>"

definition get_place_metadata :: "metadata_store \<Rightarrow> string \<Rightarrow> (string, pyval) dict" where
  "get_place_metadata ms place = dict_get_or (ms_places ms) place []"

definition get_transition_metadata :: "metadata_store \<Rightarrow> transition \<Rightarrow> (string, pyval) dict" where
  "get_transition_metadata ms t = dict_get_or (ms_transitions ms) (t_id t) []"

fun metadata_of :: "metadata_store \<Rightarrow> metadata_subject \<Rightarrow> wf_error + (string, pyval) dict" where
  "metadata_of ms OfWorkflow = Inr (ms_workflow ms)"
| "metadata_of ms (OfPlace p) = Inr (get_place_metadata ms p)"
| "metadata_of ms (OfTransition t) = Inr (get_transition_metadata ms t)"
| "metadata_of ms OfOther = Inl (InvalidArgumentError UnknownMetadataSubject)"

definition get_metadata :: "metadata_store \<Rightarrow> string \<Rightarrow> metadata_subject \<Rightarrow> wf_error + pyval option" where
  "get_metadata ms key subject =
     (case metadata_of ms subject of Inl e \<Rightarrow> Inl e | Inr d \<Rightarrow> Inr (map_of d key))"

section \<open>The audit trail\<close>

text \<open>The log is a list of lines; the subject's class is named by its module and qualified name.\<close>

definition quoted :: "string \<Rightarrow> string" where
  "quoted s = [CHR 0x22] @ s @ [CHR 0x22]"

definition audit_line :: "string \<Rightarrow> string \<Rightarrow> string \<Rightarrow> string \<Rightarrow> string" where
  "audit_line step node subject_class wname =
     step @ '' '' @ quoted node @ '' for subject of class '' @ quoted subject_class
       @ '' in workflow '' @ quoted wname @ ''.''"

definition transition_of :: "wf_event \<Rightarrow> wf_error + transition" where
  "transition_of e = (case ev_transition e of None \<Rightarrow> Inl (LogicError EventWithoutTransition) | Some t \<Rightarrow> Inr t)"

definition audit_on_leave :: "string \<Rightarrow> string \<Rightarrow> wf_event \<Rightarrow> (string list \<times> 'w, wf_error, unit) prog" where
  "audit_on_leave cls wname e =
     andthen (lift (transition_of e)) (\<lambda>t (l, w).
       (Inr (), (l @ map (\<lambda>a. audit_line ''Leaving'' (arc_place a) cls wname) (t_from_arcs t), w)))"

definition audit_on_transition :: "string \<Rightarrow> string \<Rightarrow> wf_event \<Rightarrow> (string list \<times> 'w, wf_error, unit) prog" where
  "audit_on_transition cls wname e =
     andthen (lift (transition_of e)) (\<lambda>t (l, w).
       (Inr (), (l @ [audit_line ''Transition'' (t_name t) cls wname], w)))"

definition audit_on_enter :: "string \<Rightarrow> string \<Rightarrow> wf_event \<Rightarrow> (string list \<times> 'w, wf_error, unit) prog" where
  "audit_on_enter cls wname e =
     andthen (lift (transition_of e)) (\<lambda>t (l, w).
       (Inr (), (l @ map (\<lambda>a. audit_line ''Entering'' (arc_place a) cls wname) (t_to_arcs t), w)))"

text \<open>\<open>get_subscribed_events\<close>: the trail hears the three bare names.\<close>

definition audit_dispatch :: "string \<Rightarrow> string \<Rightarrow> ('sub, string list \<times> 'w) dispatcher" where
  "audit_dispatch cls wname sub e n =
     andthen
       (if n = LEAVE then audit_on_leave cls wname e
        else if n = TRANSITION then audit_on_transition cls wname e
        else if n = ENTER then audit_on_enter cls wname e
        else ret ()) (\<lambda>_. ret e)"

definition kept_get :: "'sub \<Rightarrow> (string list \<times> marking, wf_error, marking) prog" where
  "kept_get sub = (\<lambda>(l, k). (Inr k, (l, k)))"

definition kept_set :: "'sub \<Rightarrow> marking \<Rightarrow> call_context option \<Rightarrow> (string list \<times> marking, wf_error, unit) prog" where
  "kept_set sub m c = (\<lambda>(l, k). (Inr (), (l, m)))"

definition audited_workflow ::
  "string \<Rightarrow> wf_definition \<Rightarrow> string \<Rightarrow> string list option \<Rightarrow> ('sub, string list \<times> marking) workflow" where
  "audited_workflow cls d name evs =
     \<lparr>w_definition = d, w_get_marking = kept_get, w_set_marking = kept_set,
      w_dispatcher = Some (audit_dispatch cls name), w_name = name, w_events = evs\<rparr>"

lemma dotted_not_bare:
  assumes "CHR ''.'' \<in> set xs"
  shows "''workflow.'' @ xs \<noteq> LEAVE" "''workflow.'' @ xs \<noteq> TRANSITION" "''workflow.'' @ xs \<noteq> ENTER"
  using assms by (auto simp: event_names)

lemma audit_dispatch_elsewhere:
  assumes "n \<noteq> LEAVE" and "n \<noteq> TRANSITION" and "n \<noteq> ENTER"
  shows "audit_dispatch cls wname sub e n = ret e"
  using assms by (simp add: audit_dispatch_def)

lemma audit_dispatch_narrowed:
  "audit_dispatch cls wname sub e (narrowed w n) = ret e"
  "audit_dispatch cls wname sub e (narrowed w n @ ys) = ret e"
  "audit_dispatch cls wname sub e (announce_name w n) = ret e"
proof -
  have *: "CHR ''.'' \<in> set (w @ ''.'' @ zs)" for zs by simp
  show "audit_dispatch cls wname sub e (narrowed w n) = ret e"
    using dotted_not_bare [OF *] unfolding narrowed_def by (intro audit_dispatch_elsewhere) simp_all
  show "audit_dispatch cls wname sub e (narrowed w n @ ys) = ret e"
    using dotted_not_bare [OF *] unfolding narrowed_def append_assoc by (intro audit_dispatch_elsewhere) simp_all
  show "audit_dispatch cls wname sub e (announce_name w n) = ret e"
    using dotted_not_bare [of "w @ ''.announce.'' @ n"] unfolding announce_name_def
    by (intro audit_dispatch_elsewhere) simp_all
qed

lemma for_each_silent: "(\<And>x a. f x a = ret a) \<Longrightarrow> for_each f xs a = ret a"
  by (induction xs) simp_all

lemma audit_dispatch_under:
  "dispatch_under self (audit_dispatch cls wname) sub e name nodes
    = andthen (audit_dispatch cls wname sub e name) (\<lambda>e'. ret e')"
  by (simp add: dispatch_under_def audit_dispatch_narrowed for_each_silent)

lemma audited_fields [simp]:
  "w_definition (audited_workflow cls d name evs) = d" "w_name (audited_workflow cls d name evs) = name"
  "w_get_marking (audited_workflow cls d name evs) = kept_get" "w_set_marking (audited_workflow cls d name evs) = kept_set"
  "w_dispatcher (audited_workflow cls d name evs) = Some (audit_dispatch cls name)"
  "dispatcher_for (audited_workflow cls d name evs) event ctx
    = (if sounds evs ctx event then Some (audit_dispatch cls name) else None)"
  by (simp_all add: audited_workflow_def dispatcher_for_def sounds_def flagged_off_def Let_def split: option.splits)

lemma bare_elsewhere:
  "GUARD \<noteq> LEAVE" "GUARD \<noteq> TRANSITION" "GUARD \<noteq> ENTER" "ENTERED \<noteq> LEAVE" "ENTERED \<noteq> TRANSITION" "ENTERED \<noteq> ENTER"
  "COMPLETED \<noteq> LEAVE" "COMPLETED \<noteq> TRANSITION" "COMPLETED \<noteq> ENTER" "ANNOUNCE \<noteq> LEAVE" "ANNOUNCE \<noteq> TRANSITION"
  "ANNOUNCE \<noteq> ENTER" "TRANSITION \<noteq> LEAVE" "ENTER \<noteq> LEAVE" "ENTER \<noteq> TRANSITION"
  by (simp_all add: event_names)

lemma audited_blockers:
  "build_transition_blocker_list_for (audited_workflow cls d name evs) sub m t
    = ret (if marking_enables m t then [] else [create_blocked_by_marking m], m)"
  by (auto simp: build_transition_blocker_list_for_def audit_dispatch_under audit_dispatch_def bare_elsewhere
      new_event_def marking_enables_def list_ex_iff list_all_iff not_le)

lemma audited_steps:
  fixes sub :: 'sub and cls d name evs
  defines "self \<equiv> audited_workflow cls d name evs :: ('sub, string list \<times> marking) workflow"
  shows "entered self sub (Some t) m ctx = ret m"
    and "completed self sub t m ctx = ret m"
    and "take_transition self sub t m ctx (l, k)
      = (Inr (m, ctx), (l @ (if sounds evs ctx TRANSITION then [audit_line ''Transition'' (t_name t) cls name] else []), k))"
    and "leave self sub t m ctx (l, k)
      = (fold_r (\<lambda>a. unmark (arc_place a) (arc_weight a)) (t_from_arcs t) m,
         (l @ (if sounds evs ctx LEAVE then map (\<lambda>p. audit_line ''Leaving'' p cls name) (get_froms t) else []), k))"
    and "enter self sub t m ctx (l, k)
      = (fold_r (\<lambda>a. mark (arc_place a) (arc_weight a)) (t_to_arcs t) m,
         (l @ (if sounds evs ctx ENTER then map (\<lambda>p. audit_line ''Entering'' p cls name) (get_tos t) else []), k))"
  unfolding self_def entered_def completed_def take_transition_def leave_def enter_def
  by (simp_all add: audit_dispatch_under audit_dispatch_def bare_elsewhere audit_on_transition_def audit_on_leave_def
      audit_on_enter_def transition_of_def new_event_def andthen_def get_froms_def get_tos_def o_def)

lemma audited_get_marking:
  assumes "m_places k \<noteq> []" and "set (dict_keys (m_places k)) \<subseteq> set (d_places d)"
  shows "get_marking (audited_workflow cls d name evs) sub ctx (l, k) = (Inr k, (l, k))"
proof -
  have "find (\<lambda>p. p \<notin> set (d_places d)) (dict_keys (m_places k)) = None"
    using assms(2) by (auto simp: find_None_iff)
  with assms(1) show ?thesis by (simp add: get_marking_def andthen_def kept_get_def)
qed

lemma audited_announce:
  assumes "m_places k \<noteq> []" and "set (dict_keys (m_places k)) \<subseteq> set (d_places d)"
  shows "announce (audited_workflow cls d name evs) sub t m ctx (l, k) = (Inr m, (l, k))"
proof -
  have "for_each (\<lambda>t (ts, m'). andthen (build_transition_blocker_list_for (audited_workflow cls d name evs) sub m' t)
       (\<lambda>(bs, m''). Pair (Inr (if bs = [] then ts @ [t] else ts, m'')))) us (acc, k)
      = ret (acc @ filter (marking_enables k) us, k)" for us acc
    by (induction us arbitrary: acc) (simp_all add: audited_blockers)
  then have "get_enabled_transitions (audited_workflow cls d name evs) sub (l, k)
      = (Inr (filter (marking_enables k) (d_transitions d)), (l, k))"
    by (simp add: get_enabled_transitions_def andthen_Inr audited_get_marking [OF assms])
  then show ?thesis
    by (simp add: announce_def audit_dispatch_under audit_dispatch_def [of _ _ _ _ ANNOUNCE] bare_elsewhere andthen_Inr
        audit_dispatch_narrowed for_each_silent)
qed

text \<open>
  the audit trail tells every move: an application of one transition adds one line per place
  left, one for the transition, and one per place entered, in that order, and nothing else, whatever
  else the workflow dispatches; an event the workflow is told not to send leaves its lines out.
\<close>

theorem audit_trail_lines:
  assumes "filter (\<lambda>t. t_name t = n) (d_transitions d) = [t]"
    and "m_places m \<noteq> []" and "set (dict_keys (m_places m)) \<subseteq> set (d_places d)" and "marking_enables m t"
    and "fold_r (\<lambda>a. unmark (arc_place a) (arc_weight a)) (t_from_arcs t) m = Inr m1"
    and "fold_r (\<lambda>a. mark (arc_place a) (arc_weight a)) (t_to_arcs t) m1 = Inr m2"
    and "m_places m2 \<noteq> []" and "set (dict_keys (m_places m2)) \<subseteq> set (d_places d)"
  shows "wf_apply (audited_workflow cls d name evs) sub n ctx (l, m) =
    (Inr (set_context ctx m2),
     (l @ (if sounds evs ctx LEAVE then map (\<lambda>p. audit_line ''Leaving'' p cls name) (get_froms t) else [])
        @ (if sounds evs ctx TRANSITION then [audit_line ''Transition'' n cls name] else [])
        @ (if sounds evs ctx ENTER then map (\<lambda>p. audit_line ''Entering'' p cls name) (get_tos t) else []), m2))"
proof -
  have n: "t_name t = n" using assms(1) by (metis (mono_tags) filter_eq_Cons_iff)
  have "fire (audited_workflow cls d name evs) sub t (m, ctx) (l, m) =
      (Inr (m2, ctx),
       (l @ (if sounds evs ctx LEAVE then map (\<lambda>p. audit_line ''Leaving'' p cls name) (get_froms t) else [])
          @ (if sounds evs ctx TRANSITION then [audit_line ''Transition'' n cls name] else [])
          @ (if sounds evs ctx ENTER then map (\<lambda>p. audit_line ''Entering'' p cls name) (get_tos t) else []), m2))"
    using assms(5,6) n
    by (simp add: fire_def andthen_def audited_steps kept_set_def audited_announce [OF assms(7,8)])
  then show ?thesis
    using assms(1,4) n
    by (simp add: wf_apply_def andthen_def audited_get_marking [OF assms(2,3)] transitions_named_def audited_blockers)
qed

theorem audit_trail_lines_witness:
  "fst (snd (wf_apply (audited_workflow ''app.Post'' approval ''w'' None) () ''ok'' []
        ([], \<lparr>m_places = [(''a'', 1)], m_context = []\<rparr>)))
    = [audit_line ''Leaving'' ''a'' ''app.Post'' ''w'', audit_line ''Transition'' ''ok'' ''app.Post'' ''w'',
       audit_line ''Entering'' ''b'' ''app.Post'' ''w'']"
  using audit_trail_lines [OF approval_moves, of "''app.Post''" "''w''" None "()" "[]" "[]"]
  by (simp add: sounds_def flagged_off_def event_names disable_events_mapping_def approve_def get_tos_def get_froms_def)

end
