(* ===== verification/Lock_Key.thy ===== *)
theory Lock_Key
  imports Prelude
begin

text \<open>
  Package xtr-lock, its ground: the key that names a resource and is the holder of its lock
  (\<open>key.py\<close>), the token a store tells holders apart by (\<open>store/_holder_token.py\<close>), and the world the
  locks of one event loop share. Keys are objects: the world maps a key's identity to its fields, so
  that every lock made for one key sees the same lifetime and the same stashed state.

  Time is the reading of the clock, a real; it moves only while something is awaited, which is for
  the store and the sleep a model is given to say. A token is known by the draw that made it: two
  draws of 32 random bytes are taken to differ.
\<close>

section \<open>Errors\<close>

text \<open>
  What the package raises, the failure of a store for a reason of its own (by its identity), and the
  cancellation of a task, which is no \<open>Exception\<close>. \<open>StillWaiting\<close> is not an error of the code: it is
  the mark of a wait that has been followed for as many rounds as were asked for.
\<close>

datatype lock_error =
    LockConflictedError string
  | LockExpiredError string
  | LockAcquiringError string
  | LockReleasingError string
  | NoExpirationDuration
  | ResourceNotAString
  | UnserializableKeyError string
  | NoStoreToCombine
  | StoreFailure nat
  | CancelledError
  | StillWaiting

text \<open>What \<open>except Exception\<close> and \<open>suppress(Exception)\<close> catch.\<close>

fun is_exception :: "lock_error \<Rightarrow> bool" where
  "is_exception CancelledError = False"
| "is_exception StillWaiting = False"
| "is_exception _ = True"

section \<open>The world\<close>

record key =
  k_resource :: string
  k_expiring :: "real option"
  k_state :: "(string, nat) dict"
  k_serializable :: bool

text \<open>\<open>_Holder\<close>: what every lock acting for one key shares, its turn apart: the operations of one
  holder take turns, so each of them below is one step.\<close>

record holder =
  h_dirty :: bool
  h_entered :: "bool list"

text \<open>The two dictionaries of an in-memory store (\<open>store/in_memory_store.py\<close>).\<close>

record mem_store =
  ms_locks :: "(string, nat) dict"
  ms_read_locks :: "(string, nat set) dict"

record 'x lock_world =
  lw_keys :: "nat \<Rightarrow> key"
  lw_now :: real
  lw_fresh :: nat
  lw_mem :: "nat \<Rightarrow> mem_store"
  lw_holders :: "nat \<Rightarrow> holder"
  lw_ext :: 'x

type_synonym ('x, 'a) lock_prog = "('x lock_world, lock_error, 'a) prog"

definition Key_init :: "string \<Rightarrow> key" where
  "Key_init resource = \<lparr>k_resource = resource, k_expiring = None, k_state = [], k_serializable = True\<rparr>"

definition has_state :: "key \<Rightarrow> string \<Rightarrow> bool" where
  "has_state k sk = (map_of (k_state k) sk \<noteq> None)"

definition set_state :: "string \<Rightarrow> nat \<Rightarrow> key \<Rightarrow> key" where
  "set_state sk v k = k\<lparr>k_state := dict_set sk v (k_state k)\<rparr>"

definition remove_state :: "string \<Rightarrow> key \<Rightarrow> key" where
  "remove_state sk k = k\<lparr>k_state := dict_del sk (k_state k)\<rparr>"

text \<open>\<open>None\<close> is the \<open>KeyError\<close>.\<close>

definition get_state :: "key \<Rightarrow> string \<Rightarrow> nat option" where
  "get_state k sk = map_of (k_state k) sk"

definition mark_unserializable :: "key \<Rightarrow> key" where
  "mark_unserializable k = k\<lparr>k_serializable := False\<rparr>"

definition reset_lifetime :: "key \<Rightarrow> key" where
  "reset_lifetime k = k\<lparr>k_expiring := None\<rparr>"

definition reduce_lifetime :: "real \<Rightarrow> real \<Rightarrow> key \<Rightarrow> key" where
  "reduce_lifetime now ttl k =
     (let new_time = now + ttl
      in case k_expiring k of
           None \<Rightarrow> k\<lparr>k_expiring := Some new_time\<rparr>
         | Some t \<Rightarrow> if t > new_time then k\<lparr>k_expiring := Some new_time\<rparr> else k)"

definition get_remaining_lifetime :: "real \<Rightarrow> key \<Rightarrow> real option" where
  "get_remaining_lifetime now k = map_option (\<lambda>t. t - now) (k_expiring k)"

definition is_expired :: "real \<Rightarrow> key \<Rightarrow> bool" where
  "is_expired now k = (case k_expiring k of None \<Rightarrow> False | Some t \<Rightarrow> t \<le> now)"

text \<open>
  What a pickle carries, and a key rebuilt from one: the resource must be a string, an expiry that is
  no number and a state that is no dict are dropped.
\<close>

datatype pickled_time = TimeNumber real | TimeOther
datatype pickled_state = StateDict "(string, nat) dict" | StateOther

record pickled_key =
  pk_resource :: "string option"
  pk_expiring :: "pickled_time option"
  pk_state :: "pickled_state option"

definition key_getstate :: "key \<Rightarrow> lock_error + pickled_key" where
  "key_getstate k =
     (if \<not> k_serializable k then Inl (UnserializableKeyError (k_resource k))
      else Inr \<lparr>pk_resource = Some (k_resource k),
                pk_expiring = Some (case k_expiring k of None \<Rightarrow> TimeOther | Some t \<Rightarrow> TimeNumber t),
                pk_state = Some (StateDict (k_state k))\<rparr>)"

definition key_setstate :: "pickled_key \<Rightarrow> lock_error + key" where
  "key_setstate d =
     (case pk_resource d of
        None \<Rightarrow> Inl ResourceNotAString
      | Some resource \<Rightarrow>
          Inr \<lparr>k_resource = resource,
               k_expiring = (case pk_expiring d of Some (TimeNumber t) \<Rightarrow> Some t | _ \<Rightarrow> None),
               k_state = (case pk_state d of Some (StateDict s) \<Rightarrow> s | _ \<Rightarrow> []),
               k_serializable = True\<rparr>)"

section \<open>Steps on the world\<close>

definition on_key :: "nat \<Rightarrow> (key \<Rightarrow> key) \<Rightarrow> 'x lock_world \<Rightarrow> 'x lock_world" where
  "on_key k f w = w\<lparr>lw_keys := (lw_keys w)(k := f (lw_keys w k))\<rparr>"

definition resource_of :: "'x lock_world \<Rightarrow> nat \<Rightarrow> string" where
  "resource_of w k = k_resource (lw_keys w k)"

definition key_expired :: "'x lock_world \<Rightarrow> nat \<Rightarrow> bool" where
  "key_expired w k = is_expired (lw_now w) (lw_keys w k)"

definition set_dirty :: "nat \<Rightarrow> bool \<Rightarrow> 'x lock_world \<Rightarrow> 'x lock_world" where
  "set_dirty k b w = w\<lparr>lw_holders := (lw_holders w)(k := (lw_holders w k)\<lparr>h_dirty := b\<rparr>)\<rparr>"

definition dirty :: "'x lock_world \<Rightarrow> nat \<Rightarrow> bool" where
  "dirty w k = h_dirty (lw_holders w k)"

text \<open>\<open>holder_token\<close>, with the value the store reserves, if any.\<close>

definition holder_token :: "nat \<Rightarrow> string \<Rightarrow> nat option \<Rightarrow> ('x, nat) lock_prog" where
  "holder_token k sk reserved = (\<lambda>w.
     case get_state (lw_keys w k) sk of
       Some t \<Rightarrow>
         if reserved = Some t
         then (Inr (lw_fresh w), (on_key k (set_state sk (lw_fresh w)) w)\<lparr>lw_fresh := Suc (lw_fresh w)\<rparr>)
         else (Inr t, w)
     | None \<Rightarrow> (Inr (lw_fresh w), (on_key k (set_state sk (lw_fresh w)) w)\<lparr>lw_fresh := Suc (lw_fresh w)\<rparr>))"

section \<open>Properties of keys\<close>

lemma Min_merge: "finite S \<Longrightarrow> Min (insert (min a b) S) = Min (insert a (insert (b :: real) S))"
  by (cases "S = {}") (simp_all add: min.assoc)

text \<open>
  stores can only shorten the life of a key: after any number of lifetimes set at any moments, the
  key expires with the earliest deadline any of them set (or the one it had), and not before; a reset
  forgets them all.
\<close>

theorem lifetime_is_the_shortest:
  "k_expiring (fold (\<lambda>(now, ttl). reduce_lifetime now ttl) ls k)
     = (let deadlines = (case k_expiring k of None \<Rightarrow> [] | Some t \<Rightarrow> [t]) @ map (\<lambda>(now, ttl). now + ttl) ls
        in if deadlines = [] then None else Some (Min (set deadlines)))
   \<and> (is_expired now (fold (\<lambda>(now, ttl). reduce_lifetime now ttl) ls (reset_lifetime k))
        \<longleftrightarrow> (\<exists>(t, ttl) \<in> set ls. t + ttl \<le> now))"
proof -
  have *: "k_expiring (fold (\<lambda>(now, ttl). reduce_lifetime now ttl) ls k)
     = (let deadlines = (case k_expiring k of None \<Rightarrow> [] | Some t \<Rightarrow> [t]) @ map (\<lambda>(now, ttl). now + ttl) ls
        in if deadlines = [] then None else Some (Min (set deadlines)))" for k ls
  proof (induction ls arbitrary: k)
    case Nil
    then show ?case by (simp split: option.splits)
  next
    case (Cons l ls)
    obtain now ttl where l: "l = (now, ttl)" by (cases l)
    have e: "k_expiring (reduce_lifetime now ttl k)
        = Some (case k_expiring k of None \<Rightarrow> now + ttl | Some t \<Rightarrow> min t (now + ttl))"
      by (auto simp: reduce_lifetime_def Let_def min_def split: option.splits)
    show ?case
      using Cons.IH [of "reduce_lifetime now ttl k"]
      by (cases "k_expiring k") (simp_all add: l e Let_def Min_merge)
  qed
  show ?thesis
  proof
    show "is_expired now (fold (\<lambda>(now, ttl). reduce_lifetime now ttl) ls (reset_lifetime k))
        \<longleftrightarrow> (\<exists>(t, ttl) \<in> set ls. t + ttl \<le> now)"
      using * [of ls "reset_lifetime k"]
      by (auto simp: is_expired_def reset_lifetime_def Let_def Min_le_iff split: option.splits prod.splits)
  qed (rule *)
qed

text \<open>
  a key survives being pickled: what is rebuilt from its pickle is the same holder, with the same
  resource, expiry and stashed state; a key that a store marked as bound to this process is refused.
\<close>

theorem key_pickle_roundtrip:
  "case key_getstate k of
     Inl e \<Rightarrow> \<not> k_serializable k \<and> e = UnserializableKeyError (k_resource k)
   | Inr d \<Rightarrow> k_serializable k \<and> key_setstate d = Inr k"
  by (cases k) (auto simp: key_getstate_def key_setstate_def split: option.splits)

section \<open>How the steps commute with reading\<close>

lemma on_key_fields [simp]:
  "lw_keys (on_key k f w) = (lw_keys w)(k := f (lw_keys w k))"
  "lw_now (on_key k f w) = lw_now w" "lw_fresh (on_key k f w) = lw_fresh w"
  "lw_mem (on_key k f w) = lw_mem w" "lw_holders (on_key k f w) = lw_holders w" "lw_ext (on_key k f w) = lw_ext w"
  by (simp_all add: on_key_def)

lemma set_dirty_fields [simp]:
  "lw_keys (set_dirty k b w) = lw_keys w" "lw_now (set_dirty k b w) = lw_now w"
  "lw_fresh (set_dirty k b w) = lw_fresh w" "lw_mem (set_dirty k b w) = lw_mem w"
  "lw_holders (set_dirty k b w) = (lw_holders w)(k := (lw_holders w k)\<lparr>h_dirty := b\<rparr>)"
  by (simp_all add: set_dirty_def)

lemma reset_lifetime_fields [simp]:
  "k_resource (reset_lifetime k) = k_resource k" "k_state (reset_lifetime k) = k_state k"
  "k_expiring (reset_lifetime k) = None" "k_serializable (reset_lifetime k) = k_serializable k"
  by (simp_all add: reset_lifetime_def)

lemma set_state_fields [simp]:
  "k_resource (set_state sk v k) = k_resource k" "k_expiring (set_state sk v k) = k_expiring k"
  "k_state (set_state sk v k) = dict_set sk v (k_state k)"
  by (simp_all add: set_state_def)

text \<open>
  What a store must leave alone of the world it is handed: whose locks the holders think they hold, and
  what the keys name and when they expire.
\<close>

definition kept :: "'x lock_world \<Rightarrow> 'x lock_world \<Rightarrow> bool" where
  "kept w w' \<longleftrightarrow> lw_holders w' = lw_holders w \<and> lw_now w' = lw_now w
     \<and> (\<forall>k. k_resource (lw_keys w' k) = k_resource (lw_keys w k)
          \<and> k_expiring (lw_keys w' k) = k_expiring (lw_keys w k))"

lemma kept_refl [simp]: "kept w w"
  by (simp add: kept_def)

lemma kept_trans: "kept w w' \<Longrightarrow> kept w' w'' \<Longrightarrow> kept w w''"
  by (simp add: kept_def)

lemma kept_resource: "kept w w' \<Longrightarrow> resource_of w' k = resource_of w k"
  by (simp add: kept_def resource_of_def)

lemma kept_expired: "kept w w' \<Longrightarrow> key_expired w' k = key_expired w k"
  by (simp add: kept_def key_expired_def is_expired_def)

lemma kept_dirty: "kept w w' \<Longrightarrow> dirty w' k = dirty w k"
  by (simp add: kept_def dirty_def)

end
