(* ===== verification/Lock_Store.thy ===== *)
theory Lock_Store
  imports Lock_Key
begin

text \<open>
  The stores of xtr-lock that keep locks in this process: the in-memory store
  (\<open>store/in_memory_store.py\<close>), which shares a resource between readers or gives it to one writer,
  and the null store (\<open>store/null_store.py\<close>). The in-memory store is shown to implement a plain
  readers-writer lock per resource, and to fulfil the contract of a persisting store that the lock and
  the combined store rely on.
\<close>

section \<open>The in-memory store\<close>

definition IN_MEMORY :: string where
  "IN_MEMORY = ''InMemoryStore''"

definition unique_token :: "nat \<Rightarrow> ('x, nat) lock_prog" where
  "unique_token k = holder_token k IN_MEMORY None"

definition put_mem :: "nat \<Rightarrow> mem_store \<Rightarrow> 'x lock_world \<Rightarrow> 'x lock_world" where
  "put_mem i ms w = w\<lparr>lw_mem := (lw_mem w)(i := ms)\<rparr>"

definition mem_save :: "nat \<Rightarrow> nat \<Rightarrow> ('x, unit) lock_prog" where
  "mem_save i k = andthen (unique_token k) (\<lambda>token w.
     let resource = resource_of w k; ms = lw_mem w i;
         taken = put_mem i (ms\<lparr>ms_locks := dict_set resource token (ms_locks ms)\<rparr>) w
     in case map_of (ms_locks ms) resource of
          Some holder \<Rightarrow>
            if holder = token then (Inr (), w) else (Inl (LockConflictedError resource), w)
        | None \<Rightarrow>
            (case map_of (ms_read_locks ms) resource of
               Some readers \<Rightarrow>
                 if token \<in> readers \<and> card readers = 1
                 then (Inr (), put_mem i
                        (ms\<lparr>ms_read_locks := dict_del resource (ms_read_locks ms),
                            ms_locks := dict_set resource token (ms_locks ms)\<rparr>) w)
                 else if readers \<noteq> {} then (Inl (LockConflictedError resource), w)
                 else (Inr (), taken)
             | None \<Rightarrow> (Inr (), taken)))"

definition mem_save_read :: "nat \<Rightarrow> nat \<Rightarrow> ('x, unit) lock_prog" where
  "mem_save_read i k = andthen (unique_token k) (\<lambda>token w.
     let resource = resource_of w k; ms = lw_mem w i
     in case map_of (ms_read_locks ms) resource of
          Some readers \<Rightarrow>
            (Inr (), put_mem i
               (ms\<lparr>ms_read_locks := dict_set resource (insert token readers) (ms_read_locks ms)\<rparr>) w)
        | None \<Rightarrow>
            (case map_of (ms_locks ms) resource of
               Some holder \<Rightarrow>
                 if holder \<noteq> token then (Inl (LockConflictedError resource), w)
                 else (Inr (), put_mem i
                        (ms\<lparr>ms_locks := dict_del resource (ms_locks ms),
                            ms_read_locks := dict_set resource {token} (ms_read_locks ms)\<rparr>) w)
             | None \<Rightarrow>
                 (Inr (), put_mem i
                    (ms\<lparr>ms_read_locks := dict_set resource {token} (ms_read_locks ms)\<rparr>) w)))"

definition mem_exists :: "nat \<Rightarrow> nat \<Rightarrow> ('x, bool) lock_prog" where
  "mem_exists i k = andthen (unique_token k) (\<lambda>token w.
     let resource = resource_of w k; ms = lw_mem w i
     in (Inr (token \<in> dict_get_or (ms_read_locks ms) resource {}
              \<or> map_of (ms_locks ms) resource = Some token), w))"

definition mem_put_off_expiration :: "nat \<Rightarrow> nat \<Rightarrow> real \<Rightarrow> ('x, unit) lock_prog" where
  "mem_put_off_expiration i k ttl = andthen (mem_exists i k) (\<lambda>held w.
     if \<not> held then (Inl (LockConflictedError (resource_of w k)), w) else (Inr (), w))"

definition mem_delete :: "nat \<Rightarrow> nat \<Rightarrow> ('x, unit) lock_prog" where
  "mem_delete i k = andthen (unique_token k) (\<lambda>token w.
     let resource = resource_of w k; ms = lw_mem w i;
         ms1 = (case map_of (ms_read_locks ms) resource of
                  None \<Rightarrow> ms
                | Some readers \<Rightarrow>
                    let left = readers - {token}
                    in if left = {} then ms\<lparr>ms_read_locks := dict_del resource (ms_read_locks ms)\<rparr>
                       else ms\<lparr>ms_read_locks := dict_set resource left (ms_read_locks ms)\<rparr>);
         ms2 = (if map_of (ms_locks ms1) resource = Some token
                then ms1\<lparr>ms_locks := dict_del resource (ms_locks ms1)\<rparr> else ms1)
     in (Inr (), put_mem i ms2 w))"

section \<open>The readers-writer lock it implements\<close>

text \<open>
  The specification: a resource is free, shared by some holders, or held by one for writing. The only
  reader may become the writer, and the writer may become a reader.
\<close>

datatype rw = Free | Shared "nat set" | Exclusive nat

fun rw_write :: "nat \<Rightarrow> rw \<Rightarrow> rw option" where
  "rw_write t Free = Some (Exclusive t)"
| "rw_write t (Shared R) = (if R = {t} then Some (Exclusive t) else None)"
| "rw_write t (Exclusive h) = (if h = t then Some (Exclusive t) else None)"

fun rw_read :: "nat \<Rightarrow> rw \<Rightarrow> rw option" where
  "rw_read t Free = Some (Shared {t})"
| "rw_read t (Shared R) = Some (Shared (insert t R))"
| "rw_read t (Exclusive h) = (if h = t then Some (Shared {t}) else None)"

fun rw_release :: "nat \<Rightarrow> rw \<Rightarrow> rw" where
  "rw_release t Free = Free"
| "rw_release t (Shared R) = (if R \<subseteq> {t} then Free else Shared (R - {t}))"
| "rw_release t (Exclusive h) = (if h = t then Free else Exclusive h)"

fun rw_holds :: "rw \<Rightarrow> nat \<Rightarrow> bool" where
  "rw_holds Free t = False"
| "rw_holds (Shared R) t = (t \<in> R)"
| "rw_holds (Exclusive h) t = (h = t)"

definition rw_of :: "mem_store \<Rightarrow> string \<Rightarrow> rw" where
  "rw_of ms r =
     (case map_of (ms_locks ms) r of
        Some h \<Rightarrow> Exclusive h
      | None \<Rightarrow> (case map_of (ms_read_locks ms) r of Some R \<Rightarrow> Shared R | None \<Rightarrow> Free))"

text \<open>A resource never has a writer and readers at once, nor an empty set of readers.\<close>

definition mem_ok :: "mem_store \<Rightarrow> bool" where
  "mem_ok ms \<longleftrightarrow>
     (\<forall>r R. map_of (ms_read_locks ms) r = Some R \<longrightarrow> map_of (ms_locks ms) r = None \<and> R \<noteq> {})"

lemma map_of_single: "card R = 1 \<and> t \<in> R \<longleftrightarrow> R = {t}"
  by (auto simp: card_1_singleton_iff)

text \<open>The state of a key's token: made the first time the store sees the key, and kept.\<close>

definition token_of :: "'x lock_world \<Rightarrow> nat \<Rightarrow> nat" where
  "token_of w k = (case get_state (lw_keys w k) IN_MEMORY of Some t \<Rightarrow> t | None \<Rightarrow> lw_fresh w)"

definition with_token :: "nat \<Rightarrow> 'x lock_world \<Rightarrow> 'x lock_world" where
  "with_token k w =
     (if has_state (lw_keys w k) IN_MEMORY then w
      else (on_key k (set_state IN_MEMORY (lw_fresh w)) w)\<lparr>lw_fresh := Suc (lw_fresh w)\<rparr>)"

lemma unique_token_run: "unique_token k w = (Inr (token_of w k), with_token k w)"
  by (auto simp: unique_token_def holder_token_def token_of_def with_token_def has_state_def get_state_def
      split: option.splits)

lemma with_token_mem [simp]: "lw_mem (with_token k w) = lw_mem w"
  by (simp add: with_token_def)

lemma with_token_kept [simp]: "kept w (with_token k w)"
  by (auto simp: with_token_def kept_def)

lemma with_token_resource [simp]: "resource_of (with_token k w) k' = resource_of w k'"
  by (rule kept_resource) simp

lemma put_mem_fields [simp]:
  "lw_mem (put_mem i ms w) = (lw_mem w)(i := ms)" "lw_keys (put_mem i ms w) = lw_keys w"
  "lw_fresh (put_mem i ms w) = lw_fresh w" "resource_of (put_mem i ms w) k = resource_of w k"
  by (simp_all add: put_mem_def resource_of_def)

lemma put_mem_kept: "kept w w' \<Longrightarrow> kept w (put_mem i ms w')"
  by (simp add: kept_def put_mem_def)

text \<open>
  One call on the store, as the specification sees it: the resource of the key goes through the
  operation for the key's token, and no other resource changes.
\<close>

lemma mem_save_refines:
  assumes "mem_ok (lw_mem w i)"
  shows "\<exists>ms. mem_ok ms \<and> mem_save i k w =
      (case rw_write (token_of w k) (rw_of (lw_mem w i) (resource_of w k)) of
         None \<Rightarrow> Inl (LockConflictedError (resource_of w k)) | Some _ \<Rightarrow> Inr (),
       put_mem i ms (with_token k w))
    \<and> rw_of ms = (case rw_write (token_of w k) (rw_of (lw_mem w i) (resource_of w k)) of
         None \<Rightarrow> rw_of (lw_mem w i) | Some s \<Rightarrow> (rw_of (lw_mem w i))(resource_of w k := s))"
proof -
  let ?ms = "lw_mem w i" and ?r = "resource_of w k" and ?t = "token_of w k"
  have same: "put_mem i ?ms (with_token k w) = with_token k w"
    by (simp add: put_mem_def)
  show ?thesis
  proof (cases "map_of (ms_locks ?ms) ?r")
    case (Some h)
    then show ?thesis
      using assms same
      by (intro exI [of _ ?ms])
         (auto simp: mem_save_def andthen_Inr unique_token_run rw_of_def fun_eq_iff Let_def)
  next
    case None
    show ?thesis
    proof (cases "map_of (ms_read_locks ?ms) ?r")
      case (Some R)
      then have "R \<noteq> {}" using assms by (simp add: mem_ok_def)
      show ?thesis
      proof (cases "R = {?t}")
        case True
        with None Some assms show ?thesis
          by (intro exI [of _ "?ms\<lparr>ms_read_locks := dict_del ?r (ms_read_locks ?ms),
                ms_locks := dict_set ?r ?t (ms_locks ?ms)\<rparr>"])
             (auto simp: mem_save_def andthen_Inr unique_token_run rw_of_def fun_eq_iff Let_def mem_ok_def
               cong: option.case_cong)
      next
        case False
        then have "\<not> (?t \<in> R \<and> card R = 1)" using map_of_single [of R ?t] by blast
        with None Some assms same False \<open>R \<noteq> {}\<close> show ?thesis
          by (intro exI [of _ ?ms])
             (auto simp: mem_save_def andthen_Inr unique_token_run rw_of_def fun_eq_iff Let_def)
      qed
    next
      case None': None
      with None assms show ?thesis
        by (intro exI [of _ "?ms\<lparr>ms_locks := dict_set ?r ?t (ms_locks ?ms)\<rparr>"])
           (auto simp: mem_save_def andthen_Inr unique_token_run rw_of_def fun_eq_iff Let_def mem_ok_def
               cong: option.case_cong)
    qed
  qed
qed

lemma mem_save_read_refines:
  assumes "mem_ok (lw_mem w i)"
  shows "\<exists>ms. mem_ok ms \<and> mem_save_read i k w =
      (case rw_read (token_of w k) (rw_of (lw_mem w i) (resource_of w k)) of
         None \<Rightarrow> Inl (LockConflictedError (resource_of w k)) | Some _ \<Rightarrow> Inr (),
       put_mem i ms (with_token k w))
    \<and> rw_of ms = (case rw_read (token_of w k) (rw_of (lw_mem w i) (resource_of w k)) of
         None \<Rightarrow> rw_of (lw_mem w i) | Some s \<Rightarrow> (rw_of (lw_mem w i))(resource_of w k := s))"
proof -
  let ?ms = "lw_mem w i" and ?r = "resource_of w k" and ?t = "token_of w k"
  have same: "put_mem i ?ms (with_token k w) = with_token k w"
    by (simp add: put_mem_def)
  show ?thesis
  proof (cases "map_of (ms_read_locks ?ms) ?r")
    case (Some R)
    then have "map_of (ms_locks ?ms) ?r = None" using assms by (simp add: mem_ok_def)
    with Some assms show ?thesis
      by (intro exI [of _ "?ms\<lparr>ms_read_locks := dict_set ?r (insert ?t R) (ms_read_locks ?ms)\<rparr>"])
         (auto simp: mem_save_read_def andthen_Inr unique_token_run rw_of_def fun_eq_iff Let_def mem_ok_def
           cong: option.case_cong)
  next
    case None
    note no_readers = None
    show ?thesis
    proof (cases "map_of (ms_locks ?ms) ?r")
      case (Some h)
      with no_readers assms same show ?thesis
        by (intro exI [of _ "if h = ?t then ?ms\<lparr>ms_locks := dict_del ?r (ms_locks ?ms),
              ms_read_locks := dict_set ?r {?t} (ms_read_locks ?ms)\<rparr> else ?ms"])
           (auto simp: mem_save_read_def andthen_Inr unique_token_run rw_of_def fun_eq_iff Let_def mem_ok_def
             cong: option.case_cong)
    next
      case None
      with no_readers assms show ?thesis
        by (intro exI [of _ "?ms\<lparr>ms_read_locks := dict_set ?r {?t} (ms_read_locks ?ms)\<rparr>"])
           (auto simp: mem_save_read_def andthen_Inr unique_token_run rw_of_def fun_eq_iff Let_def mem_ok_def
             cong: option.case_cong)
    qed
  qed
qed

lemma mem_delete_refines:
  assumes "mem_ok (lw_mem w i)"
  shows "\<exists>ms. mem_ok ms \<and> mem_delete i k w = (Inr (), put_mem i ms (with_token k w))
    \<and> rw_of ms = (rw_of (lw_mem w i))(resource_of w k := rw_release (token_of w k) (rw_of (lw_mem w i) (resource_of w k)))"
proof -
  let ?ms = "lw_mem w i" and ?r = "resource_of w k" and ?t = "token_of w k"
  show ?thesis
  proof (cases "map_of (ms_read_locks ?ms) ?r")
    case (Some R)
    then have "map_of (ms_locks ?ms) ?r = None" using assms by (simp add: mem_ok_def)
    moreover have "R - {?t} = {} \<longleftrightarrow> R \<subseteq> {?t}" by auto
    ultimately show ?thesis using Some assms
      by (intro exI [of _ "if R \<subseteq> {?t} then ?ms\<lparr>ms_read_locks := dict_del ?r (ms_read_locks ?ms)\<rparr>
            else ?ms\<lparr>ms_read_locks := dict_set ?r (R - {?t}) (ms_read_locks ?ms)\<rparr>"])
         (auto simp: mem_delete_def andthen_Inr unique_token_run rw_of_def fun_eq_iff Let_def mem_ok_def
           cong: option.case_cong)
  next
    case None
    then show ?thesis using assms
      by (intro exI [of _ "if map_of (ms_locks ?ms) ?r = Some ?t
            then ?ms\<lparr>ms_locks := dict_del ?r (ms_locks ?ms)\<rparr> else ?ms"])
         (cases "map_of (ms_locks ?ms) ?r";
          auto simp: mem_delete_def andthen_Inr unique_token_run rw_of_def fun_eq_iff Let_def mem_ok_def
           cong: option.case_cong)
  qed
qed

lemma mem_exists_refines:
  assumes "mem_ok (lw_mem w i)"
  shows "mem_exists i k w = (Inr (rw_holds (rw_of (lw_mem w i) (resource_of w k)) (token_of w k)), with_token k w)"
  using assms
  by (cases "map_of (ms_read_locks (lw_mem w i)) (resource_of w k)";
      cases "map_of (ms_locks (lw_mem w i)) (resource_of w k)")
     (auto simp: mem_exists_def andthen_Inr unique_token_run rw_of_def dict_get_or_def mem_ok_def Let_def)

text \<open>
  C27: the in-memory store is a readers-writer lock per resource. Every call takes the key's resource
  through the specification's operation for the key's token, raises a conflict exactly when the
  specification refuses (leaving every resource as it was), touches no other resource, and keeps the
  invariant that a resource never has both a writer and readers.
\<close>

theorem in_memory_refines_rw:
  assumes "mem_ok (lw_mem w i)"
  shows "\<exists>ms1 ms2 ms3. mem_ok ms1 \<and> mem_ok ms2 \<and> mem_ok ms3
    \<and> mem_save i k w =
       (case rw_write (token_of w k) (rw_of (lw_mem w i) (resource_of w k)) of
          None \<Rightarrow> Inl (LockConflictedError (resource_of w k)) | Some _ \<Rightarrow> Inr (), put_mem i ms1 (with_token k w))
    \<and> rw_of ms1 = (case rw_write (token_of w k) (rw_of (lw_mem w i) (resource_of w k)) of
          None \<Rightarrow> rw_of (lw_mem w i) | Some s \<Rightarrow> (rw_of (lw_mem w i))(resource_of w k := s))
    \<and> mem_save_read i k w =
       (case rw_read (token_of w k) (rw_of (lw_mem w i) (resource_of w k)) of
          None \<Rightarrow> Inl (LockConflictedError (resource_of w k)) | Some _ \<Rightarrow> Inr (), put_mem i ms2 (with_token k w))
    \<and> rw_of ms2 = (case rw_read (token_of w k) (rw_of (lw_mem w i) (resource_of w k)) of
          None \<Rightarrow> rw_of (lw_mem w i) | Some s \<Rightarrow> (rw_of (lw_mem w i))(resource_of w k := s))
    \<and> mem_delete i k w = (Inr (), put_mem i ms3 (with_token k w))
    \<and> rw_of ms3 = (rw_of (lw_mem w i))
         (resource_of w k := rw_release (token_of w k) (rw_of (lw_mem w i) (resource_of w k)))
    \<and> mem_exists i k w = (Inr (rw_holds (rw_of (lw_mem w i) (resource_of w k)) (token_of w k)), with_token k w)"
  using mem_save_refines [OF assms, of k] mem_save_read_refines [OF assms, of k]
    mem_delete_refines [OF assms, of k] mem_exists_refines [OF assms, of k] by blast

section \<open>Who holds what\<close>

definition mem_holds :: "nat \<Rightarrow> 'x lock_world \<Rightarrow> nat \<Rightarrow> bool" where
  "mem_holds i w k = (case get_state (lw_keys w k) IN_MEMORY of
     None \<Rightarrow> False | Some t \<Rightarrow> rw_holds (rw_of (lw_mem w i) (resource_of w k)) t)"

definition mem_writes :: "nat \<Rightarrow> 'x lock_world \<Rightarrow> nat \<Rightarrow> bool" where
  "mem_writes i w k = (case get_state (lw_keys w k) IN_MEMORY of
     None \<Rightarrow> False | Some t \<Rightarrow> rw_of (lw_mem w i) (resource_of w k) = Exclusive t)"

text \<open>Tokens tell keys apart, and are older than the next one to be drawn.\<close>

definition tokens_ok :: "'x lock_world \<Rightarrow> bool" where
  "tokens_ok w \<longleftrightarrow>
     (\<forall>k t. get_state (lw_keys w k) IN_MEMORY = Some t \<longrightarrow> t < lw_fresh w)
     \<and> (\<forall>k k' t. get_state (lw_keys w k) IN_MEMORY = Some t
          \<longrightarrow> get_state (lw_keys w k') IN_MEMORY = Some t \<longrightarrow> k = k')"

text \<open>Every token the store keeps on a resource is that of a key for that resource.\<close>

definition mem_owned :: "'x lock_world \<Rightarrow> mem_store \<Rightarrow> bool" where
  "mem_owned w ms \<longleftrightarrow> (\<forall>r t. rw_holds (rw_of ms r) t
     \<longrightarrow> (\<exists>k. get_state (lw_keys w k) IN_MEMORY = Some t \<and> resource_of w k = r))"

definition mem_good :: "'x lock_world \<Rightarrow> bool" where
  "mem_good w \<longleftrightarrow> tokens_ok w \<and> (\<forall>i. mem_ok (lw_mem w i) \<and> mem_owned w (lw_mem w i))"

lemma get_state_set_state: "get_state (set_state sk v k) sk' = (if sk' = sk then Some v else get_state k sk')"
  by (simp add: get_state_def set_state_def)

lemma get_state_with_token:
  "get_state (lw_keys (with_token k w) k') IN_MEMORY
    = (if k' = k then Some (token_of w k) else get_state (lw_keys w k') IN_MEMORY)"
  by (auto simp: with_token_def token_of_def has_state_def get_state_def split: option.splits)

lemma with_token_fresh: "lw_fresh w \<le> lw_fresh (with_token k w)"
  by (simp add: with_token_def)

lemma token_of_fresh: "tokens_ok w \<Longrightarrow> token_of w k < lw_fresh (with_token k w)"
  by (auto simp: tokens_ok_def token_of_def with_token_def has_state_def get_state_def split: option.splits)

lemma token_of_other:
  assumes "tokens_ok w" and "get_state (lw_keys w k') IN_MEMORY = Some t" and "k' \<noteq> k"
  shows "t \<noteq> token_of w k"
  using assms by (fastforce simp: tokens_ok_def token_of_def split: option.splits)

lemma tokens_ok_with_token: "tokens_ok w \<Longrightarrow> tokens_ok (with_token k w)"
  unfolding tokens_ok_def [of "with_token k w"] get_state_with_token
  using with_token_fresh [of w k] token_of_fresh [of w k] token_of_other [of w _ _ k]
  by (auto simp: tokens_ok_def split: if_splits; force)

lemma mem_owned_with_token:
  assumes "tokens_ok w" and "mem_owned w ms"
  shows "mem_owned (with_token k w) ms"
  unfolding mem_owned_def
proof (intro allI impI)
  fix r t assume "rw_holds (rw_of ms r) t"
  with assms(2) obtain k' where k': "get_state (lw_keys w k') IN_MEMORY = Some t" "resource_of w k' = r"
    by (auto simp: mem_owned_def)
  then show "\<exists>k'. get_state (lw_keys (with_token k w) k') IN_MEMORY = Some t \<and> resource_of (with_token k w) k' = r"
    by (intro exI [of _ k']) (auto simp: get_state_with_token token_of_def)
qed

lemma mem_good_put:
  assumes "mem_good w" and "mem_ok ms"
    and "\<And>r t. rw_holds (rw_of ms r) t \<Longrightarrow>
      rw_holds (rw_of (lw_mem w i) r) t \<or> r = resource_of w k \<and> t = token_of w k"
  shows "mem_good (put_mem i ms (with_token k w))"
proof -
  note good = assms(1) [unfolded mem_good_def]
  have owned: "mem_owned (put_mem i ms (with_token k w)) ms'" if "mem_owned (with_token k w) ms'" for ms'
    using that by (simp add: mem_owned_def)
  have "mem_owned (with_token k w) ms"
    unfolding mem_owned_def
  proof (intro allI impI)
    fix r t assume "rw_holds (rw_of ms r) t"
    from assms(3) [OF this]
    show "\<exists>k'. get_state (lw_keys (with_token k w) k') IN_MEMORY = Some t \<and> resource_of (with_token k w) k' = r"
    proof
      assume "rw_holds (rw_of (lw_mem w i) r) t"
      with mem_owned_with_token [of w "lw_mem w i" k] good show ?thesis by (simp add: mem_owned_def)
    qed (auto intro!: exI [of _ k] simp: get_state_with_token)
  qed
  moreover have "tokens_ok (put_mem i ms (with_token k w))"
    using tokens_ok_with_token [of w k] good by (simp add: tokens_ok_def)
  ultimately show ?thesis
    using good assms(2) mem_owned_with_token [of w _ k] by (auto simp: mem_good_def intro!: owned)
qed

lemma rw_steps_holds:
  "rw_write t s = Some s' \<Longrightarrow> rw_holds s' u \<Longrightarrow> u = t"
  "rw_read t s = Some s' \<Longrightarrow> rw_holds s' u \<Longrightarrow> rw_holds s u \<or> u = t"
  "rw_holds (rw_release t s) u \<longleftrightarrow> rw_holds s u \<and> u \<noteq> t"
  by (cases s; auto split: if_splits)+

lemma mem_good_steps:
  assumes "mem_good w"
  shows "mem_good (snd (mem_save i k w))" and "mem_good (snd (mem_save_read i k w))"
    and "mem_good (snd (mem_delete i k w))" and "mem_good (snd (mem_exists i k w))"
    and "mem_good (snd (mem_put_off_expiration i k ttl w))"
proof -
  have ok: "mem_ok (lw_mem w i)" using assms by (simp add: mem_good_def)
  have same: "put_mem i (lw_mem w i) (with_token k w) = with_token k w" by (simp add: put_mem_def)
  obtain ms where "mem_ok ms" "snd (mem_save i k w) = put_mem i ms (with_token k w)"
      "rw_of ms = (case rw_write (token_of w k) (rw_of (lw_mem w i) (resource_of w k)) of
         None \<Rightarrow> rw_of (lw_mem w i) | Some s \<Rightarrow> (rw_of (lw_mem w i))(resource_of w k := s))"
    using mem_save_refines [OF ok, of k] by auto
  then show "mem_good (snd (mem_save i k w))"
    by (auto intro!: mem_good_put [OF assms] dest: rw_steps_holds(1) split: option.splits if_splits)
  obtain ms where "mem_ok ms" "snd (mem_save_read i k w) = put_mem i ms (with_token k w)"
      "rw_of ms = (case rw_read (token_of w k) (rw_of (lw_mem w i) (resource_of w k)) of
         None \<Rightarrow> rw_of (lw_mem w i) | Some s \<Rightarrow> (rw_of (lw_mem w i))(resource_of w k := s))"
    using mem_save_read_refines [OF ok, of k] by auto
  then show "mem_good (snd (mem_save_read i k w))"
    by (auto intro!: mem_good_put [OF assms] dest: rw_steps_holds(2) split: option.splits if_splits)
  obtain ms where "mem_ok ms" "snd (mem_delete i k w) = put_mem i ms (with_token k w)"
      "rw_of ms = (rw_of (lw_mem w i))(resource_of w k := rw_release (token_of w k) (rw_of (lw_mem w i) (resource_of w k)))"
    using mem_delete_refines [OF ok, of k] by auto
  then show "mem_good (snd (mem_delete i k w))"
    by (auto intro!: mem_good_put [OF assms] simp: rw_steps_holds(3) split: if_splits)
  have e: "mem_good (with_token k w)"
    using mem_good_put [OF assms ok, of i k] same by simp
  then show "mem_good (snd (mem_exists i k w))" by (simp add: mem_exists_refines [OF ok])
  from e show "mem_good (snd (mem_put_off_expiration i k ttl w))"
    by (simp add: mem_put_off_expiration_def andthen_def mem_exists_refines [OF ok])
qed

section \<open>Mutual exclusion, however calls interleave\<close>

text \<open>
  A call of one of the store's methods; every method runs without awaiting, so what the tasks of an
  event loop do to the stores is a sequence of calls, in whatever order the loop runs the tasks.
\<close>

datatype mem_call =
    Save nat nat | SaveRead nat nat | Delete nat nat | Exists nat nat | PutOff nat nat real

fun mem_run :: "mem_call \<Rightarrow> 'x lock_world \<Rightarrow> 'x lock_world" where
  "mem_run (Save i k) w = snd (mem_save i k w)"
| "mem_run (SaveRead i k) w = snd (mem_save_read i k w)"
| "mem_run (Delete i k) w = snd (mem_delete i k w)"
| "mem_run (Exists i k) w = snd (mem_exists i k w)"
| "mem_run (PutOff i k ttl) w = snd (mem_put_off_expiration i k ttl w)"

definition mem_start :: "'x lock_world \<Rightarrow> bool" where
  "mem_start w \<longleftrightarrow> (\<forall>k. get_state (lw_keys w k) IN_MEMORY = None)
     \<and> (\<forall>i. ms_locks (lw_mem w i) = [] \<and> ms_read_locks (lw_mem w i) = [])"

lemma mem_start_good: "mem_start w \<Longrightarrow> mem_good w"
  by (simp add: mem_start_def mem_good_def tokens_ok_def mem_ok_def mem_owned_def rw_of_def)

lemma mem_run_good: "mem_good w \<Longrightarrow> mem_good (fold mem_run cs w)"
proof (induction cs arbitrary: w)
  case (Cons c cs)
  from mem_good_steps [OF Cons.prems] have "mem_good (mem_run c w)" by (cases c) simp_all
  with Cons.IH show ?case by simp
qed simp

lemma mem_exclusive:
  assumes "mem_good w" and "mem_writes i w k" and "k' \<noteq> k" and "resource_of w k' = resource_of w k"
  shows "\<not> mem_holds i w k'"
  using assms
  by (auto simp: mem_writes_def mem_holds_def mem_good_def tokens_ok_def split: option.splits)

lemma mem_save_grants:
  assumes "mem_good w" and "fst (mem_save i k w) = Inr ()"
  shows "mem_writes i (snd (mem_save i k w)) k"
proof -
  have "mem_ok (lw_mem w i)" using assms(1) by (simp add: mem_good_def)
  from mem_save_refines [OF this, of k] assms(2) obtain ms where
      "mem_save i k w = (Inr (), put_mem i ms (with_token k w))"
      "rw_of ms (resource_of w k) = Exclusive (token_of w k)"
    by (auto split: option.splits; cases "rw_of (lw_mem w i) (resource_of w k)"; auto split: if_splits)
  then show ?thesis by (simp add: mem_writes_def get_state_with_token)
qed

lemma held_by_token:
  assumes "mem_good w"
  shows "rw_holds (rw_of (lw_mem w i) (resource_of w k)) (token_of w k) = mem_holds i w k"
proof (cases "get_state (lw_keys w k) IN_MEMORY")
  case None
  then have "token_of w k = lw_fresh w" by (simp add: token_of_def)
  moreover have "\<not> rw_holds (rw_of (lw_mem w i) r) (lw_fresh w)" for r
    using assms unfolding mem_good_def mem_owned_def tokens_ok_def by blast
  ultimately show ?thesis using None by (simp add: mem_holds_def)
next
  case (Some t)
  then show ?thesis by (simp add: mem_holds_def token_of_def)
qed

text \<open>
  C31: starting from empty stores, after any sequence of calls by any keys on any of the in-memory
  stores, a key whose write lock was just granted holds it alone: no other key for the same resource
  holds that store's lock, for reading or writing.
\<close>

theorem in_memory_mutual_exclusion:
  assumes "mem_start w0" and "w = fold mem_run cs w0"
    and "mem_save i k w = (Inr (), w')"
    and "k' \<noteq> k" and "resource_of w' k' = resource_of w' k"
  shows "fst (mem_exists i k w') = Inr True \<and> fst (mem_exists i k' w') = Inr False"
proof -
  have good: "mem_good w" using assms(1,2) mem_start_good mem_run_good by blast
  have good': "mem_good w'" using mem_good_steps(1) [OF good, of i k] assms(3) by simp
  then have ok: "mem_ok (lw_mem w' i)" by (simp add: mem_good_def)
  have writes: "mem_writes i w' k" using mem_save_grants [OF good, of i k] assms(3) by simp
  have "mem_holds i w' k" using writes by (auto simp: mem_writes_def mem_holds_def split: option.splits)
  moreover have "\<not> mem_holds i w' k'" using mem_exclusive [OF good' writes assms(4,5)] .
  ultimately show ?thesis by (simp add: mem_exists_refines [OF ok] held_by_token [OF good'])
qed

section \<open>The contract of a persisting store\<close>

text \<open>
  What the lock and the combined store rely on: saving succeeds exactly when no other key holds the
  resource (and the key's own lifetime has not run out), deleting lets go, asking tells the truth, putting off an expiry needs the lock to be held,
  and none of it touches what the holders and the keys' lifetimes are. A store may keep more (a
  token on the key): \<open>good\<close> is its invariant, indifferent to holders and lifetimes.
\<close>

definition rival :: "('x lock_world \<Rightarrow> nat \<Rightarrow> bool) \<Rightarrow> 'x lock_world \<Rightarrow> nat \<Rightarrow> bool" where
  "rival holds w k \<longleftrightarrow> (\<exists>k'. k' \<noteq> k \<and> resource_of w k' = resource_of w k \<and> holds w k')"

definition same_but_lifetimes :: "'x lock_world \<Rightarrow> 'x lock_world \<Rightarrow> bool" where
  "same_but_lifetimes w w' \<longleftrightarrow> lw_mem w' = lw_mem w \<and> lw_fresh w' = lw_fresh w
     \<and> (\<forall>k. k_resource (lw_keys w' k) = k_resource (lw_keys w k) \<and> k_state (lw_keys w' k) = k_state (lw_keys w k))"

locale persisting_store =
  fixes save delete :: "nat \<Rightarrow> ('x, unit) lock_prog"
    and exists :: "nat \<Rightarrow> ('x, bool) lock_prog"
    and put_off :: "nat \<Rightarrow> real \<Rightarrow> ('x, unit) lock_prog"
    and holds :: "'x lock_world \<Rightarrow> nat \<Rightarrow> bool"
    and good :: "'x lock_world \<Rightarrow> bool"
  assumes save_free: "good w \<Longrightarrow> \<not> key_expired w k \<Longrightarrow> \<not> rival holds w k \<Longrightarrow>
      \<exists>w'. save k w = (Inr (), w') \<and> good w' \<and> kept w w' \<and> holds w' = (holds w)(k := True)"
    and save_taken: "good w \<Longrightarrow> \<not> key_expired w k \<Longrightarrow> rival holds w k \<Longrightarrow>
      \<exists>w'. save k w = (Inl (LockConflictedError (resource_of w k)), w') \<and> good w' \<and> kept w w' \<and> holds w' = holds w"
    and delete_law: "good w \<Longrightarrow>
      \<exists>w'. delete k w = (Inr (), w') \<and> good w' \<and> kept w w' \<and> holds w' = (holds w)(k := False)"
    and exists_law: "good w \<Longrightarrow>
      \<exists>w'. exists k w = (Inr (holds w k), w') \<and> good w' \<and> kept w w' \<and> holds w' = holds w"
    and put_off_law: "good w \<Longrightarrow> \<not> key_expired w k \<Longrightarrow> 0 < ttl \<Longrightarrow>
      \<exists>w'. put_off k ttl w = (if holds w k then Inr () else Inl (LockConflictedError (resource_of w k)), w')
        \<and> good w' \<and> kept w w' \<and> holds w' = holds w"
    and framed: "good w \<Longrightarrow> same_but_lifetimes w w' \<Longrightarrow> good w' \<and> holds w' = holds w"
    and alone: "good w \<Longrightarrow> holds w k \<Longrightarrow> \<not> rival holds w k"

text \<open>The in-memory stores while they are used for writing only: nobody reads.\<close>

definition mem_writing :: "'x lock_world \<Rightarrow> bool" where
  "mem_writing w \<longleftrightarrow> mem_good w \<and> (\<forall>i r R. rw_of (lw_mem w i) r \<noteq> Shared R)"

lemma rw_holds_writing: "mem_writing w \<Longrightarrow> rw_holds (rw_of (lw_mem w i) r) t \<longleftrightarrow> rw_of (lw_mem w i) r = Exclusive t"
  by (cases "rw_of (lw_mem w i) r") (auto simp: mem_writing_def)

lemma rival_writing:
  assumes "mem_writing w"
  shows "rival (mem_holds i) w k \<longleftrightarrow>
    (\<exists>t. rw_of (lw_mem w i) (resource_of w k) = Exclusive t \<and> t \<noteq> token_of w k)"
proof
  assume "rival (mem_holds i) w k"
  then obtain k' t where "k' \<noteq> k" "resource_of w k' = resource_of w k"
      "get_state (lw_keys w k') IN_MEMORY = Some t" "rw_holds (rw_of (lw_mem w i) (resource_of w k)) t"
    by (auto simp: rival_def mem_holds_def split: option.splits)
  with token_of_other [of w k' t k] assms rw_holds_writing [OF assms]
  show "\<exists>t. rw_of (lw_mem w i) (resource_of w k) = Exclusive t \<and> t \<noteq> token_of w k"
    by (auto simp: mem_writing_def mem_good_def)
next
  assume "\<exists>t. rw_of (lw_mem w i) (resource_of w k) = Exclusive t \<and> t \<noteq> token_of w k"
  then obtain t where t: "rw_holds (rw_of (lw_mem w i) (resource_of w k)) t" "t \<noteq> token_of w k" by auto
  then obtain k' where k': "get_state (lw_keys w k') IN_MEMORY = Some t" "resource_of w k' = resource_of w k"
    using assms unfolding mem_writing_def mem_good_def mem_owned_def by blast
  then have "k' \<noteq> k" using t(2) by (auto simp: token_of_def)
  then show "rival (mem_holds i) w k" using k' t(1) by (auto simp: rival_def mem_holds_def)
qed

text \<open>What a call leaves behind, read off the states of the resources.\<close>

lemma mem_holds_put:
  assumes "mem_good w" and "\<And>r. r \<noteq> resource_of w k \<Longrightarrow> rw_of ms r = rw_of (lw_mem w i) r"
    and "\<And>t. t \<noteq> token_of w k \<Longrightarrow>
      rw_holds (rw_of ms (resource_of w k)) t = rw_holds (rw_of (lw_mem w i) (resource_of w k)) t"
  shows "mem_holds i (put_mem i ms (with_token k w))
    = (mem_holds i w)(k := rw_holds (rw_of ms (resource_of w k)) (token_of w k))"
proof (rule ext)
  fix k'
  have "tokens_ok w" using assms(1) by (simp add: mem_good_def)
  then show "mem_holds i (put_mem i ms (with_token k w)) k'
      = ((mem_holds i w)(k := rw_holds (rw_of ms (resource_of w k)) (token_of w k))) k'"
    using token_of_other [of w k' _ k] assms(2) [of "resource_of w k'"] assms(3)
    by (cases "resource_of w k' = resource_of w k")
       (auto simp: mem_holds_def get_state_with_token split: option.splits)
qed

lemma mem_save_law:
  assumes "mem_writing w"
  shows "\<exists>w'. mem_save i k w = (if rival (mem_holds i) w k then Inl (LockConflictedError (resource_of w k)) else Inr (), w')
    \<and> mem_writing w' \<and> kept w w' \<and> mem_holds i w' = (if rival (mem_holds i) w k then mem_holds i w else (mem_holds i w)(k := True))"
proof -
  let ?r = "resource_of w k" and ?t = "token_of w k"
  have good: "mem_good w" and ok: "mem_ok (lw_mem w i)" using assms by (simp_all add: mem_writing_def mem_good_def)
  obtain ms where ms: "mem_save i k w =
      (case rw_write ?t (rw_of (lw_mem w i) ?r) of None \<Rightarrow> Inl (LockConflictedError ?r) | Some _ \<Rightarrow> Inr (),
       put_mem i ms (with_token k w))"
      "rw_of ms = (case rw_write ?t (rw_of (lw_mem w i) ?r) of
         None \<Rightarrow> rw_of (lw_mem w i) | Some s \<Rightarrow> (rw_of (lw_mem w i))(?r := s))"
    using mem_save_refines [OF ok, of k] by blast
  have w: "rw_write ?t (rw_of (lw_mem w i) ?r) = (if rival (mem_holds i) w k then None else Some (Exclusive ?t))"
    using assms by (cases "rw_of (lw_mem w i) ?r") (auto simp: rival_writing [OF assms] mem_writing_def)
  have "mem_holds i (put_mem i ms (with_token k w)) = (mem_holds i w)(k := rw_holds (rw_of ms ?r) ?t)"
  proof (rule mem_holds_put [OF good])
    show "rw_of ms r = rw_of (lw_mem w i) r" if "r \<noteq> ?r" for r
      using that by (simp add: ms(2) split: option.splits)
    show "rw_holds (rw_of ms ?r) t = rw_holds (rw_of (lw_mem w i) ?r) t" if "t \<noteq> ?t" for t
      using that rival_writing [OF assms, of i k]
      by (auto simp: ms(2) w rw_holds_writing [OF assms])
  qed
  moreover have "rw_holds (rw_of ms ?r) ?t = (if rival (mem_holds i) w k then mem_holds i w k else True)"
    using held_by_token [OF good, of i k] by (simp add: ms(2) w)
  moreover have "mem_writing (put_mem i ms (with_token k w))"
    using assms mem_good_steps(1) [OF good, of i k] ms
    by (auto simp: mem_writing_def w split: if_splits)
  ultimately show ?thesis
    using ms(1) put_mem_kept [OF with_token_kept] by (auto simp: w fun_upd_idem)
qed

lemma mem_delete_law:
  assumes "mem_writing w"
  shows "\<exists>w'. mem_delete i k w = (Inr (), w') \<and> mem_writing w' \<and> kept w w'
    \<and> mem_holds i w' = (mem_holds i w)(k := False)"
proof -
  let ?r = "resource_of w k" and ?t = "token_of w k"
  have good: "mem_good w" and ok: "mem_ok (lw_mem w i)" using assms by (simp_all add: mem_writing_def mem_good_def)
  obtain ms where ms: "mem_delete i k w = (Inr (), put_mem i ms (with_token k w))"
      "rw_of ms = (rw_of (lw_mem w i))(?r := rw_release ?t (rw_of (lw_mem w i) ?r))"
    using mem_delete_refines [OF ok, of k] by blast
  have "mem_holds i (put_mem i ms (with_token k w)) = (mem_holds i w)(k := False)"
    using mem_holds_put [OF good, of k ms i] by (simp add: ms(2) rw_steps_holds(3))
  moreover have "mem_writing (put_mem i ms (with_token k w))"
    using assms mem_good_steps(3) [OF good, of i k] ms
    by (cases "rw_of (lw_mem w i) ?r") (auto simp: mem_writing_def)
  ultimately show ?thesis using ms(1) put_mem_kept [OF with_token_kept] by blast
qed

lemma mem_exists_law:
  assumes "mem_good w"
  shows "mem_exists i k w = (Inr (mem_holds i w k), with_token k w) \<and> mem_holds j (with_token k w) = mem_holds j w
    \<and> mem_good (with_token k w)"
proof -
  have ok: "mem_ok (lw_mem w i)" using assms by (simp add: mem_good_def)
  have "put_mem j (lw_mem w j) (with_token k w) = with_token k w" by (simp add: put_mem_def)
  then have "mem_holds j (with_token k w) = mem_holds j w"
    using mem_holds_put [OF assms, of k "lw_mem w j" j] held_by_token [OF assms, of j k] by (simp add: fun_upd_idem)
  with mem_good_steps(4) [OF assms, of i k] show ?thesis
    by (simp add: mem_exists_refines [OF ok] held_by_token [OF assms])
qed

lemma mem_framed:
  assumes "same_but_lifetimes w w'"
  shows "mem_good w' = mem_good w" and "mem_holds i w' = mem_holds i w" and "mem_writing w' = mem_writing w"
proof -
  have g: "get_state (lw_keys w' k) sk = get_state (lw_keys w k) sk" "resource_of w' k = resource_of w k"
      "lw_mem w' = lw_mem w" "lw_fresh w' = lw_fresh w" for k sk
    using assms by (simp_all add: same_but_lifetimes_def get_state_def resource_of_def)
  show "mem_good w' = mem_good w"
    by (simp add: mem_good_def tokens_ok_def mem_owned_def g)
  show "mem_holds i w' = mem_holds i w"
    by (rule ext) (simp add: mem_holds_def g cong: option.case_cong)
  from \<open>mem_good w' = mem_good w\<close> show "mem_writing w' = mem_writing w" by (simp add: mem_writing_def g)
qed

interpretation mem: persisting_store "mem_save i" "mem_delete i" "mem_exists i" "mem_put_off_expiration i"
  "mem_holds i" mem_writing for i
proof (unfold_locales, goal_cases)
  case (1 w k)
  then show ?case using mem_save_law [OF 1(1), of i k] by auto
next
  case (2 w k)
  then show ?case using mem_save_law [OF 2(1), of i k] by auto
next
  case (3 w k)
  then show ?case by (rule mem_delete_law)
next
  case (4 w k)
  then show ?case using mem_exists_law [of w i k i] by (auto simp: mem_writing_def)
next
  case (5 w k ttl)
  then show ?case
    using mem_exists_law [of w i k i] by (auto simp: mem_writing_def mem_put_off_expiration_def andthen_Inr)
next
  case (6 w w')
  then show ?case using mem_framed by blast
next
  case (7 w k)
  then show ?case
    using held_by_token [of w i k] by (auto simp: rival_writing rw_holds_writing mem_writing_def)
qed

text \<open>A call on one store leaves what the others hold as it was.\<close>

lemma mem_holds_elsewhere: "mem_good w \<Longrightarrow> j \<noteq> i \<Longrightarrow> mem_holds j (put_mem i ms (with_token k w)) = mem_holds j w"
proof -
  assume "mem_good w" "j \<noteq> i"
  then have "mem_holds j (put_mem i ms (with_token k w)) = mem_holds j (with_token k w)"
    by (intro ext) (simp add: mem_holds_def cong: option.case_cong)
  with mem_exists_law [OF \<open>mem_good w\<close>] show ?thesis by simp
qed

lemma mem_elsewhere:
  assumes "mem_good w" and "j \<noteq> i"
  shows "mem_holds j (snd (mem_save i k w)) = mem_holds j w" "mem_holds j (snd (mem_delete i k w)) = mem_holds j w"
    "mem_holds j (snd (mem_exists i k w)) = mem_holds j w" "mem_holds j (snd (mem_put_off_expiration i k ttl w)) = mem_holds j w"
proof -
  have ok: "mem_ok (lw_mem w i)" using assms(1) by (simp add: mem_good_def)
  show "mem_holds j (snd (mem_save i k w)) = mem_holds j w"
    using mem_save_refines [OF ok, of k] mem_holds_elsewhere [OF assms] by auto
  show "mem_holds j (snd (mem_delete i k w)) = mem_holds j w"
    using mem_delete_refines [OF ok, of k] mem_holds_elsewhere [OF assms] by auto
  show "mem_holds j (snd (mem_exists i k w)) = mem_holds j w"
    using mem_exists_law [OF assms(1), of i k j] by simp
  then show "mem_holds j (snd (mem_put_off_expiration i k ttl w)) = mem_holds j w"
    using mem_exists_law [OF assms(1), of i k i] by (simp add: mem_put_off_expiration_def andthen_Inr)
qed

section \<open>The null store\<close>

definition null_save :: "nat \<Rightarrow> ('x, unit) lock_prog" where
  "null_save k = ret ()"

definition null_delete :: "nat \<Rightarrow> ('x, unit) lock_prog" where
  "null_delete k = ret ()"

definition null_put_off_expiration :: "nat \<Rightarrow> real \<Rightarrow> ('x, unit) lock_prog" where
  "null_put_off_expiration k ttl = ret ()"

definition null_exists :: "nat \<Rightarrow> ('x, bool) lock_prog" where
  "null_exists k = ret False"

section \<open>Stores as the lock meets them\<close>

text \<open>
  A store with the optional abilities the lock looks for: sharing (\<open>SharedLockStoreInterface\<close>) and
  waiting of its own (\<open>BlockingStoreInterface\<close>, \<open>BlockingSharedLockStoreInterface\<close>).
\<close>

record 'x store_ops =
  st_save :: "nat \<Rightarrow> ('x, unit) lock_prog"
  st_delete :: "nat \<Rightarrow> ('x, unit) lock_prog"
  st_exists :: "nat \<Rightarrow> ('x, bool) lock_prog"
  st_put_off_expiration :: "nat \<Rightarrow> real \<Rightarrow> ('x, unit) lock_prog"
  st_save_read :: "(nat \<Rightarrow> ('x, unit) lock_prog) option"
  st_wait_and_save :: "(nat \<Rightarrow> ('x, unit) lock_prog) option"
  st_wait_and_save_read :: "(nat \<Rightarrow> ('x, unit) lock_prog) option"

definition InMemoryStore :: "nat \<Rightarrow> 'x store_ops" where
  "InMemoryStore i =
     \<lparr>st_save = mem_save i, st_delete = mem_delete i, st_exists = mem_exists i,
      st_put_off_expiration = mem_put_off_expiration i, st_save_read = Some (mem_save_read i),
      st_wait_and_save = None, st_wait_and_save_read = None\<rparr>"

definition NullStore :: "'x store_ops" where
  "NullStore =
     \<lparr>st_save = null_save, st_delete = null_delete, st_exists = null_exists,
      st_put_off_expiration = null_put_off_expiration, st_save_read = Some null_save,
      st_wait_and_save = Some null_save, st_wait_and_save_read = Some null_save\<rparr>"

section \<open>A worked example\<close>

text \<open>A world of keys that all name one resource, and empty stores.\<close>

definition empty_world :: "unit lock_world" where
  "empty_world = \<lparr>lw_keys = (\<lambda>_. Key_init ''r''), lw_now = 0, lw_fresh = 0,
     lw_mem = (\<lambda>_. \<lparr>ms_locks = [], ms_read_locks = []\<rparr>),
     lw_holders = (\<lambda>_. \<lparr>h_dirty = False, h_entered = []\<rparr>), lw_ext = ()\<rparr>"

lemma empty_world_start: "mem_start empty_world"
  by (simp add: mem_start_def empty_world_def Key_init_def get_state_def)

lemmas mem_run_defs = mem_save_def mem_delete_def mem_exists_def mem_save_read_def unique_token_def holder_token_def
  get_state_def set_state_def on_key_def resource_of_def put_mem_def IN_MEMORY_def Key_init_def empty_world_def
  andthen_def Let_def dict_get_or_def

theorem in_memory_refines_rw_witness:
  "\<exists>ms. mem_save 0 7 empty_world = (Inr (), put_mem 0 ms (with_token 7 empty_world))
     \<and> rw_of ms = (\<lambda>_. Free)(''r'' := Exclusive 0)"
proof -
  have "mem_ok (lw_mem empty_world 0)" by (simp add: mem_ok_def empty_world_def)
  moreover have "rw_of (lw_mem empty_world 0) = (\<lambda>_. Free)" by (rule ext) (simp add: rw_of_def empty_world_def)
  moreover have "token_of empty_world 7 = 0" "resource_of empty_world 7 = ''r''"
    by (simp_all add: token_of_def resource_of_def get_state_def empty_world_def Key_init_def)
  ultimately show ?thesis using in_memory_refines_rw [of empty_world 0 7] by auto
qed

lemma mem_run_resource:
  assumes "mem_good w"
  shows "resource_of (mem_run c w) k = resource_of w k"
proof -
  have "\<exists>ms. mem_run c w = put_mem i ms (with_token k' w)" if "c = Save i k' \<or> c = SaveRead i k' \<or> c = Delete i k'" for i k'
    using that mem_save_refines [of w i k'] mem_save_read_refines [of w i k'] mem_delete_refines [of w i k'] assms
    by (auto simp: mem_good_def)
  moreover have "mem_run c w = with_token k' w" if "c = Exists i k' \<or> c = PutOff i k' ttl" for i k' ttl
    using that mem_exists_law [OF assms, of i k' i] by (auto simp: mem_put_off_expiration_def andthen_Inr)
  ultimately show ?thesis
    by (cases c) (metis put_mem_fields(4) with_token_resource)+
qed

theorem in_memory_mutual_exclusion_witness:
  "\<exists>w'. mem_save 0 1 (fold mem_run [SaveRead 0 2, Exists 0 1, Delete 0 2] empty_world) = (Inr (), w')
     \<and> fst (mem_exists 0 1 w') = Inr True \<and> fst (mem_exists 0 2 w') = Inr False"
proof -
  let ?w = "fold mem_run [SaveRead 0 2, Exists 0 1, Delete 0 2] empty_world"
  have "fst (mem_save 0 1 ?w) = Inr ()" by code_simp
  then obtain w' where w': "mem_save 0 1 ?w = (Inr (), w')" by (metis prod.collapse)
  have good: "mem_good ?w" using empty_world_start mem_start_good mem_run_good by blast
  have "resource_of w' k = resource_of ?w k" for k
    using mem_run_resource [OF good, of "Save 0 1" k] w' by simp
  moreover have "resource_of ?w 2 = resource_of ?w 1" by code_simp
  ultimately have "resource_of w' 2 = resource_of w' 1" by simp
  from in_memory_mutual_exclusion [OF empty_world_start refl w' _ this] w' show ?thesis by auto
qed

end
