(* ===== verification/Lock_Combined.thy ===== *)
theory Lock_Combined
  imports Lock_Store
begin

text \<open>
  The combined store (\<open>store/combined_store.py\<close>) and the strategies that decide how many of its stores
  must agree (\<open>strategy/\<close>). A strategy is shown to be a quorum: two holders can never both have one.
  Over stores that fulfil the contract of a persisting store, the combined store fulfils it too.
\<close>

section \<open>Strategies\<close>

definition consensus_is_met :: "nat \<Rightarrow> nat \<Rightarrow> bool" where
  "consensus_is_met number_of_success number_of_items = (real number_of_success > real number_of_items / 2)"

definition consensus_can_be_met :: "nat \<Rightarrow> nat \<Rightarrow> bool" where
  "consensus_can_be_met number_of_failure number_of_items = (real number_of_failure < real number_of_items / 2)"

definition unanimous_is_met :: "nat \<Rightarrow> nat \<Rightarrow> bool" where
  "unanimous_is_met number_of_success number_of_items = (number_of_success = number_of_items)"

definition unanimous_can_be_met :: "nat \<Rightarrow> nat \<Rightarrow> bool" where
  "unanimous_can_be_met number_of_failure number_of_items = (number_of_failure = 0)"

record strategy =
  is_met :: "nat \<Rightarrow> nat \<Rightarrow> bool"
  can_be_met :: "nat \<Rightarrow> nat \<Rightarrow> bool"

definition ConsensusStrategy :: strategy where
  "ConsensusStrategy = \<lparr>is_met = consensus_is_met, can_be_met = consensus_can_be_met\<rparr>"

definition UnanimousStrategy :: strategy where
  "UnanimousStrategy = \<lparr>is_met = unanimous_is_met, can_be_met = unanimous_can_be_met\<rparr>"

section \<open>The combined store\<close>

text \<open>\<open>__init__\<close> refuses to combine no store.\<close>

record 'x combined =
  co_stores :: "'x store_ops list"
  co_strategy :: strategy

definition Combined_init :: "'x store_ops list \<Rightarrow> strategy \<Rightarrow> lock_error + 'x combined" where
  "Combined_init stores strat =
     (if stores = [] then Inl NoStoreToCombine else Inr \<lparr>co_stores = stores, co_strategy = strat\<rparr>)"

text \<open>
  The loop of \<open>_take\<close>: a store that fails, for whatever reason, is a vote against; asking stops once
  the strategy can no longer be met. What is no \<open>Exception\<close> goes through.
\<close>

fun poll_saves :: "strategy \<Rightarrow> nat \<Rightarrow> ('x, unit) lock_prog list \<Rightarrow> nat \<Rightarrow> nat \<Rightarrow> ('x, nat \<times> nat) lock_prog" where
  "poll_saves strat n [] s f = ret (s, f)"
| "poll_saves strat n (p # ps) s f = (\<lambda>w.
     case p w of
       (Inr _, w') \<Rightarrow>
         if can_be_met strat f n then poll_saves strat n ps (Suc s) f w' else (Inr (Suc s, f), w')
     | (Inl e, w') \<Rightarrow>
         if \<not> is_exception e then (Inl e, w')
         else if can_be_met strat (Suc f) n then poll_saves strat n ps s (Suc f) w'
         else (Inr (s, Suc f), w'))"

fun delete_all :: "'x store_ops list \<Rightarrow> nat \<Rightarrow> ('x, unit) lock_prog" where
  "delete_all [] k = ret ()"
| "delete_all (st # sts) k = (\<lambda>w.
     case st_delete st k w of
       (Inr _, w') \<Rightarrow> delete_all sts k w'
     | (Inl e, w') \<Rightarrow> if is_exception e then delete_all sts k w' else (Inl e, w'))"

definition combined_delete :: "'x combined \<Rightarrow> nat \<Rightarrow> ('x, unit) lock_prog" where
  "combined_delete c k = delete_all (co_stores c) k"

text \<open>\<open>ExpiringStoreMixin._check_not_expired\<close>, for a store with this \<open>delete\<close>.\<close>

definition check_not_expired :: "(nat \<Rightarrow> ('x, unit) lock_prog) \<Rightarrow> nat \<Rightarrow> ('x, unit) lock_prog" where
  "check_not_expired del k = (\<lambda>w.
     if \<not> key_expired w k then (Inr (), w)
     else case del k w of
            (Inl e, w') \<Rightarrow> (Inl (if is_exception e then LockExpiredError (resource_of w' k) else e), w')
          | (Inr _, w') \<Rightarrow> (Inl (LockExpiredError (resource_of w' k)), w'))"

definition combined_settle :: "'x combined \<Rightarrow> nat \<Rightarrow> nat \<Rightarrow> ('x, unit) lock_prog" where
  "combined_settle c k success_count =
     andthen (check_not_expired (combined_delete c) k) (\<lambda>_.
     if is_met (co_strategy c) success_count (length (co_stores c)) then ret ()
     else andthen (combined_delete c k) (\<lambda>_ w. (Inl (LockConflictedError (resource_of w k)), w)))"

definition combined_take :: "'x combined \<Rightarrow> nat \<Rightarrow> ('x, unit) lock_prog list \<Rightarrow> ('x, unit) lock_prog" where
  "combined_take c k saves =
     andthen (poll_saves (co_strategy c) (length (co_stores c)) saves 0 0) (\<lambda>(success_count, failure_count).
     combined_settle c k success_count)"

definition combined_save :: "'x combined \<Rightarrow> nat \<Rightarrow> ('x, unit) lock_prog" where
  "combined_save c k = combined_take c k (map (\<lambda>st. st_save st k) (co_stores c))"

definition combined_save_read :: "'x combined \<Rightarrow> nat \<Rightarrow> ('x, unit) lock_prog" where
  "combined_save_read c k = combined_take c k
     (map (\<lambda>st. case st_save_read st of Some save_read \<Rightarrow> save_read k | None \<Rightarrow> st_save st k) (co_stores c))"

text \<open>The loop of \<open>put_off_expiration\<close>: each store gets what is left until the deadline.\<close>

fun poll_put_off :: "strategy \<Rightarrow> nat \<Rightarrow> real \<Rightarrow> nat \<Rightarrow> 'x store_ops list \<Rightarrow> nat \<Rightarrow> nat \<Rightarrow> ('x, nat \<times> nat) lock_prog" where
  "poll_put_off strat n expire_at k [] s f = ret (s, f)"
| "poll_put_off strat n expire_at k (st # sts) s f = (\<lambda>w.
     let adjusted_ttl = expire_at - lw_now w
     in if adjusted_ttl \<le> 0 then (Inr (s, f), on_key k (reduce_lifetime (lw_now w) 0) w)
        else case st_put_off_expiration st k adjusted_ttl w of
               (Inr _, w') \<Rightarrow>
                 if can_be_met strat f n then poll_put_off strat n expire_at k sts (Suc s) f w'
                 else (Inr (Suc s, f), w')
             | (Inl e, w') \<Rightarrow>
                 if \<not> is_exception e then (Inl e, w')
                 else if can_be_met strat (Suc f) n then poll_put_off strat n expire_at k sts s (Suc f) w'
                 else (Inr (s, Suc f), w'))"

definition combined_put_off_expiration :: "'x combined \<Rightarrow> nat \<Rightarrow> real \<Rightarrow> ('x, unit) lock_prog" where
  "combined_put_off_expiration c k ttl = (\<lambda>w.
     andthen (poll_put_off (co_strategy c) (length (co_stores c)) (lw_now w + ttl) k (co_stores c) 0 0)
       (\<lambda>(success_count, failure_count). combined_settle c k success_count) w)"

fun poll_exists :: "strategy \<Rightarrow> nat \<Rightarrow> nat \<Rightarrow> 'x store_ops list \<Rightarrow> nat \<Rightarrow> nat \<Rightarrow> ('x, bool) lock_prog" where
  "poll_exists strat n k [] s f = ret False"
| "poll_exists strat n k (st # sts) s f = (\<lambda>w.
     case st_exists st k w of
       (Inl e, w') \<Rightarrow>
         if \<not> is_exception e then (Inl e, w')
         else if is_met strat s n then (Inr True, w')
         else if \<not> can_be_met strat (Suc f) n then (Inr False, w')
         else poll_exists strat n k sts s (Suc f) w'
     | (Inr held, w') \<Rightarrow>
         let s' = (if held then Suc s else s); f' = (if held then f else Suc f)
         in if is_met strat s' n then (Inr True, w')
            else if \<not> can_be_met strat f' n then (Inr False, w')
            else poll_exists strat n k sts s' f' w')"

definition combined_exists :: "'x combined \<Rightarrow> nat \<Rightarrow> ('x, bool) lock_prog" where
  "combined_exists c k = poll_exists (co_strategy c) (length (co_stores c)) k (co_stores c) 0 0"

definition CombinedStore :: "'x combined \<Rightarrow> 'x store_ops" where
  "CombinedStore c =
     \<lparr>st_save = combined_save c, st_delete = combined_delete c, st_exists = combined_exists c,
      st_put_off_expiration = combined_put_off_expiration c, st_save_read = Some (combined_save_read c),
      st_wait_and_save = None, st_wait_and_save_read = None\<rparr>"

section \<open>Quorums\<close>

text \<open>
  What a strategy has to be for the combined store to be safe: giving up early must not change the
  outcome, more successes never hurt, and two quorums always share a store.
\<close>

locale quorum =
  fixes strat :: strategy
  assumes give_up: "0 < n \<Longrightarrow> f \<le> n \<Longrightarrow> can_be_met strat f n \<longleftrightarrow> is_met strat (n - f) n"
    and more_is_met: "is_met strat s n \<Longrightarrow> s \<le> s' \<Longrightarrow> s' \<le> n \<Longrightarrow> is_met strat s' n"
    and overlap: "0 < n \<Longrightarrow> is_met strat s n \<Longrightarrow> is_met strat s' n \<Longrightarrow> n < s + s'"
    and all_is_met: "0 < n \<Longrightarrow> is_met strat n n"
begin

lemma none_not_met: "0 < n \<Longrightarrow> \<not> is_met strat 0 n"
  using overlap [of n 0 0] by auto

text \<open>Two quorums share a store.\<close>

lemma both_share:
  assumes "stores \<noteq> []" and "is_met strat (length (filter P stores)) (length stores)"
    and "is_met strat (length (filter Q stores)) (length stores)"
  shows "\<exists>st \<in> set stores. P st \<and> Q st"
proof (rule ccontr)
  assume apart: "\<not> (\<exists>st \<in> set stores. P st \<and> Q st)"
  have "length (filter P xs) + length (filter Q xs) \<le> length xs" if "set xs \<subseteq> set stores" for xs
    using that by (induction xs) (use apart in auto)
  from this [of stores] show False using overlap [of "length stores"] assms by (meson length_greater_0_conv not_le order_refl)
qed

end

interpretation consensus: quorum ConsensusStrategy
  by unfold_locales (auto simp: ConsensusStrategy_def consensus_is_met_def consensus_can_be_met_def field_simps of_nat_diff)

interpretation unanimous: quorum UnanimousStrategy
  by unfold_locales (auto simp: UnanimousStrategy_def unanimous_is_met_def unanimous_can_be_met_def)

text \<open>Of no store at all, the unanimous strategy is met and the consensus strategy is not.\<close>

lemma strategies_of_none: "is_met UnanimousStrategy 0 0" "\<not> is_met ConsensusStrategy 0 0"
  by (simp_all add: UnanimousStrategy_def unanimous_is_met_def ConsensusStrategy_def consensus_is_met_def)

section \<open>A family of stores behind one contract\<close>

text \<open>Stores that can be asked whether they hold a key, under a common invariant: all that counting votes needs.\<close>

locale asked_family = quorum strat
  for strat :: strategy +
  fixes store :: "nat \<Rightarrow> 'x store_ops"
    and holds :: "nat \<Rightarrow> 'x lock_world \<Rightarrow> nat \<Rightarrow> bool"
    and good :: "'x lock_world \<Rightarrow> bool"
  assumes asked: "good w \<Longrightarrow> \<exists>w'. st_exists (store i) k w = (Inr (holds i w k), w') \<and> good w' \<and> kept w w'
      \<and> (\<forall>j. holds j w' = holds j w)"
begin

text \<open>
  Asking stops early without changing the answer: the key holds the combined lock exactly when the
  stores that hold it are a quorum, whatever happened to the stores one by one.
\<close>

lemma poll_exists_counts:
  assumes "good w" and "s + f + length is = n" and "0 < n" and "\<not> is_met strat s n" and "can_be_met strat f n"
  shows "\<exists>w'. poll_exists strat n k (map store is) s f w
        = (Inr (is_met strat (s + length (filter (\<lambda>i. holds i w k) is)) n), w')
    \<and> good w' \<and> kept w w' \<and> (\<forall>j. holds j w' = holds j w)"
  using assms(1,2,4,5)
proof (induction "is" arbitrary: w s f)
  case Nil
  then show ?case by simp
next
  case (Cons i "is")
  obtain w1 where w1: "st_exists (store i) k w = (Inr (holds i w k), w1)" "good w1" "kept w w1" "\<forall>j. holds j w1 = holds j w"
    using asked [OF Cons.prems(1), of i k] by blast
  define s' where "s' = (if holds i w k then Suc s else s)"
  define f' where "f' = (if holds i w k then f else Suc f)"
  let ?more = "length (filter (\<lambda>i. holds i w k) is)"
  have sum: "s' + f' + length is = n" using Cons.prems(2) by (simp add: s'_def f'_def)
  have total: "s + length (filter (\<lambda>i. holds i w k) (i # is)) = s' + ?more" by (simp add: s'_def)
  have more: "?more \<le> length is" by simp
  have run: "poll_exists strat n k (map store (i # is)) s f w =
      (if is_met strat s' n then (Inr True, w1)
       else if \<not> can_be_met strat f' n then (Inr False, w1) else poll_exists strat n k (map store is) s' f' w1)"
    using w1(1) by (simp add: s'_def f'_def Let_def)
  show ?case
  proof (cases "is_met strat s' n")
    case True
    moreover have "is_met strat (s' + ?more) n" using more_is_met [OF True, of "s' + ?more"] sum more by simp
    ultimately show ?thesis using run total w1 by auto
  next
    case not_yet: False
    show ?thesis
    proof (cases "can_be_met strat f' n")
      case True
      from Cons.IH [OF w1(2) sum not_yet True] obtain w2 where
          "poll_exists strat n k (map store is) s' f' w1
            = (Inr (is_met strat (s' + length (filter (\<lambda>i. holds i w1 k) is)) n), w2)"
          "good w2" "kept w1 w2" "\<forall>j. holds j w2 = holds j w1"
        by blast
      then show ?thesis using run total not_yet True w1 kept_trans [of w w1 w2] by auto
    next
      case False
      have "\<not> is_met strat (n - f') n" using give_up [OF assms(3), of f'] False sum by simp
      then have "\<not> is_met strat (s' + ?more) n" using more_is_met [of "s' + ?more" n "n - f'"] sum more by auto
      then show ?thesis using run total not_yet False w1 by auto
    qed
  qed
qed

lemma asked_counts:
  assumes "good w" and "members \<noteq> []"
  shows "\<exists>w'. combined_exists \<lparr>co_stores = map store members, co_strategy = strat\<rparr> k w
      = (Inr (is_met strat (length (filter (\<lambda>i. holds i w k) members)) (length members)), w')
    \<and> good w' \<and> kept w w' \<and> (\<forall>j. holds j w' = holds j w)"
proof -
  have "0 < length members" using assms(2) by simp
  then have "can_be_met strat 0 (length members)" "\<not> is_met strat 0 (length members)"
    using give_up [of "length members" 0] all_is_met none_not_met by auto
  with poll_exists_counts [OF assms(1), of 0 0 members "length members" k] \<open>0 < length members\<close> show ?thesis
    by (simp add: combined_exists_def)
qed

text \<open>Two keys are both told that they hold the combined lock only if one store at least holds it for both.\<close>

lemma told_share:
  assumes "good w" and "members \<noteq> []"
    and "fst (combined_exists \<lparr>co_stores = map store members, co_strategy = strat\<rparr> k w) = Inr True"
    and "fst (combined_exists \<lparr>co_stores = map store members, co_strategy = strat\<rparr> k' w) = Inr True"
  shows "\<exists>i \<in> set members. holds i w k \<and> holds i w k'"
  using both_share [OF assms(2), of "\<lambda>i. holds i w k" "\<lambda>i. holds i w k'"] assms(3,4)
    asked_counts [OF assms(1,2), of k] asked_counts [OF assms(1,2), of k'] by auto

end

text \<open>
  Stores that each fulfil the contract, with a common invariant, and that keep out of each other's way.
\<close>

locale store_family =
  fixes store :: "nat \<Rightarrow> 'x store_ops"
    and holds :: "nat \<Rightarrow> 'x lock_world \<Rightarrow> nat \<Rightarrow> bool"
    and good :: "'x lock_world \<Rightarrow> bool"
  assumes member: "persisting_store (st_save (store i)) (st_delete (store i)) (st_exists (store i))
      (st_put_off_expiration (store i)) (holds i) good"
    and apart: "good w \<Longrightarrow> j \<noteq> i \<Longrightarrow>
      holds j (snd (st_save (store i) k w)) = holds j w \<and> holds j (snd (st_delete (store i) k w)) = holds j w
      \<and> holds j (snd (st_exists (store i) k w)) = holds j w
      \<and> holds j (snd (st_put_off_expiration (store i) k ttl w)) = holds j w"
begin

text \<open>A key is all in or all out: between two operations no lock is held in some of the stores only.\<close>

definition settled :: "nat list \<Rightarrow> 'x lock_world \<Rightarrow> bool" where
  "settled is w \<longleftrightarrow> good w \<and> (\<forall>k. \<forall>i \<in> set is. \<forall>j \<in> set is. holds i w k \<longrightarrow> holds j w k)"

definition held :: "nat list \<Rightarrow> 'x lock_world \<Rightarrow> nat \<Rightarrow> bool" where
  "held is w k \<longleftrightarrow> (\<forall>i \<in> set is. holds i w k)"

lemma save_one:
  assumes "good w" and "\<not> key_expired w k"
  shows "\<exists>w'. st_save (store i) k w
        = (if rival (holds i) w k then Inl (LockConflictedError (resource_of w k)) else Inr (), w')
    \<and> good w' \<and> kept w w' \<and> (\<forall>j. holds j w' = (if j = i \<and> \<not> rival (holds i) w k then (holds j w)(k := True) else holds j w))"
proof (cases "rival (holds i) w k")
  case True
  then show ?thesis
    using persisting_store.save_taken [OF member assms True] apart [OF assms(1), of _ i k] by force
next
  case False
  then show ?thesis
    using persisting_store.save_free [OF member assms False] apart [OF assms(1), of _ i k] by force
qed

lemma delete_one:
  assumes "good w"
  shows "\<exists>w'. st_delete (store i) k w = (Inr (), w') \<and> good w' \<and> kept w w'
    \<and> (\<forall>j. holds j w' = (if j = i then (holds j w)(k := False) else holds j w))"
  using persisting_store.delete_law [OF member assms, of i k] apart [OF assms, of _ i k] by force

lemma exists_one:
  assumes "good w"
  shows "\<exists>w'. st_exists (store i) k w = (Inr (holds i w k), w') \<and> good w' \<and> kept w w' \<and> (\<forall>j. holds j w' = holds j w)"
  using persisting_store.exists_law [OF member assms, of i k] apart [OF assms, of _ i k] by force

lemma put_off_one:
  assumes "good w" and "\<not> key_expired w k" and "0 < ttl"
  shows "\<exists>w'. st_put_off_expiration (store i) k ttl w
        = (if holds i w k then Inr () else Inl (LockConflictedError (resource_of w k)), w')
    \<and> good w' \<and> kept w w' \<and> (\<forall>j. holds j w' = holds j w)"
  using persisting_store.put_off_law [OF member assms, of i] apart [OF assms(1), of _ i k ttl] by force

lemma rival_kept:
  assumes "kept w w'" and "holds i w' = holds i w"
  shows "rival (holds i) w' k = rival (holds i) w k"
  using assms by (simp add: rival_def kept_resource)

lemma delete_all_family:
  assumes "good w"
  shows "\<exists>w'. delete_all (map store is) k w = (Inr (), w') \<and> good w' \<and> kept w w'
    \<and> (\<forall>j. holds j w' = (if j \<in> set is then (holds j w)(k := False) else holds j w))"
  using assms
proof (induction "is" arbitrary: w)
  case Nil
  then show ?case by simp
next
  case (Cons i "is")
  obtain w1 where w1: "st_delete (store i) k w = (Inr (), w1)" "good w1" "kept w w1"
      "\<forall>j. holds j w1 = (if j = i then (holds j w)(k := False) else holds j w)"
    using delete_one [OF Cons.prems, of i k] by blast
  obtain w2 where w2: "delete_all (map store is) k w1 = (Inr (), w2)" "good w2" "kept w1 w2"
      "\<forall>j. holds j w2 = (if j \<in> set is then (holds j w1)(k := False) else holds j w1)"
    using Cons.IH [OF w1(2)] by blast
  show ?case
    by (intro exI [of _ w2]) (use w1 w2 kept_trans in auto)
qed

lemma rival_family:
  "kept w w' \<Longrightarrow> \<forall>j. holds j w' = holds j w \<Longrightarrow> rival (holds i) w' k = rival (holds i) w k"
  using rival_kept by blast

lemma saves_free:
  assumes "good w" and "\<not> key_expired w k" and "distinct is" and "\<forall>i \<in> set is. \<not> rival (holds i) w k"
    and "can_be_met strat 0 n"
  shows "\<exists>w'. poll_saves strat n (map (\<lambda>i. st_save (store i) k) is) s 0 w = (Inr (s + length is, 0), w')
    \<and> good w' \<and> kept w w' \<and> (\<forall>j. holds j w' = (if j \<in> set is then (holds j w)(k := True) else holds j w))"
  using assms(1-4)
proof (induction "is" arbitrary: w s)
  case Nil
  then show ?case by simp
next
  case (Cons i "is")
  obtain w1 where w1: "st_save (store i) k w = (Inr (), w1)" "good w1" "kept w w1"
      "\<forall>j. holds j w1 = (if j = i then (holds j w)(k := True) else holds j w)"
    using save_one [OF Cons.prems(1,2), of i] Cons.prems(4) by auto
  have rest: "\<forall>j \<in> set is. \<not> rival (holds j) w1 k"
  proof
    fix j assume j: "j \<in> set is"
    then have "holds j w1 = holds j w" using w1(4) Cons.prems(3) by auto
    with rival_kept [OF w1(3)] Cons.prems(4) j show "\<not> rival (holds j) w1 k" by auto
  qed
  have "\<not> key_expired w1 k" using Cons.prems(2) kept_expired [OF w1(3)] by simp
  from Cons.IH [OF w1(2) this _ rest, of "Suc s"] Cons.prems(3) obtain w2 where w2:
      "poll_saves strat n (map (\<lambda>i. st_save (store i) k) is) (Suc s) 0 w1 = (Inr (Suc s + length is, 0), w2)"
      "good w2" "kept w1 w2"
      "\<forall>j. holds j w2 = (if j \<in> set is then (holds j w1)(k := True) else holds j w1)"
    by auto
  show ?case
    by (intro exI [of _ w2]) (use w1 w2 assms(5) kept_trans in auto)
qed

lemma saves_taken:
  assumes "good w" and "\<not> key_expired w k" and "\<forall>i \<in> set is. rival (holds i) w k"
  shows "\<exists>f' w'. poll_saves strat n (map (\<lambda>i. st_save (store i) k) is) s f w = (Inr (s, f'), w')
    \<and> good w' \<and> kept w w' \<and> (\<forall>j. holds j w' = holds j w)"
  using assms
proof (induction "is" arbitrary: w f)
  case Nil
  then show ?case by simp
next
  case (Cons i "is")
  obtain w1 where w1: "st_save (store i) k w = (Inl (LockConflictedError (resource_of w k)), w1)" "good w1" "kept w w1"
      "\<forall>j. holds j w1 = holds j w"
    using save_one [OF Cons.prems(1,2), of i] Cons.prems(3) by auto
  have "\<not> key_expired w1 k" "\<forall>i \<in> set is. rival (holds i) w1 k"
    using Cons.prems(2,3) kept_expired [OF w1(3)] rival_family [OF w1(3,4)] by auto
  from Cons.IH [OF w1(2) this, of "Suc f"] obtain f' w2 where
      "poll_saves strat n (map (\<lambda>i. st_save (store i) k) is) s (Suc f) w1 = (Inr (s, f'), w2)"
      "good w2" "kept w1 w2" "\<forall>j. holds j w2 = holds j w1"
    by blast
  then show ?case using w1 kept_trans [of w w1 w2] by auto
qed

lemma put_offs_held:
  assumes "good w" and "\<not> key_expired w k" and "\<forall>i \<in> set is. holds i w k" and "can_be_met strat 0 n" and "lw_now w < expire_at"
  shows "\<exists>w'. poll_put_off strat n expire_at k (map store is) s 0 w = (Inr (s + length is, 0), w')
    \<and> good w' \<and> kept w w' \<and> (\<forall>j. holds j w' = holds j w)"
  using assms(1-3,5)
proof (induction "is" arbitrary: w s)
  case Nil
  then show ?case by simp
next
  case (Cons i "is")
  obtain w1 where w1: "st_put_off_expiration (store i) k (expire_at - lw_now w) w = (Inr (), w1)" "good w1" "kept w w1"
      "\<forall>j. holds j w1 = holds j w"
    using put_off_one [OF Cons.prems(1,2), of "expire_at - lw_now w" i] Cons.prems(3,4) by auto
  have "\<not> key_expired w1 k" "\<forall>i \<in> set is. holds i w1 k" "lw_now w1 < expire_at"
    using Cons.prems kept_expired [OF w1(3)] w1(3,4) by (auto simp: kept_def)
  from Cons.IH [OF w1(2) this, of "Suc s"] obtain w2 where
      "poll_put_off strat n expire_at k (map store is) (Suc s) 0 w1 = (Inr (Suc s + length is, 0), w2)"
      "good w2" "kept w1 w2" "\<forall>j. holds j w2 = holds j w1"
    by blast
  then show ?case using w1 kept_trans [of w w1 w2] assms(4) Cons.prems(4) by (auto simp: Let_def)
qed

lemma put_offs_lost:
  assumes "good w" and "\<not> key_expired w k" and "\<forall>i \<in> set is. \<not> holds i w k" and "lw_now w < expire_at"
  shows "\<exists>f' w'. poll_put_off strat n expire_at k (map store is) s f w = (Inr (s, f'), w')
    \<and> good w' \<and> kept w w' \<and> (\<forall>j. holds j w' = holds j w)"
  using assms
proof (induction "is" arbitrary: w f)
  case Nil
  then show ?case by simp
next
  case (Cons i "is")
  obtain w1 where w1: "st_put_off_expiration (store i) k (expire_at - lw_now w) w
        = (Inl (LockConflictedError (resource_of w k)), w1)" "good w1" "kept w w1" "\<forall>j. holds j w1 = holds j w"
    using put_off_one [OF Cons.prems(1,2), of "expire_at - lw_now w" i] Cons.prems(3,4) by auto
  have "\<not> key_expired w1 k" "\<forall>i \<in> set is. \<not> holds i w1 k" "lw_now w1 < expire_at"
    using Cons.prems kept_expired [OF w1(3)] w1(3,4) by (auto simp: kept_def)
  from Cons.IH [OF w1(2) this, of "Suc f"] obtain f' w2 where
      "poll_put_off strat n expire_at k (map store is) s (Suc f) w1 = (Inr (s, f'), w2)"
      "good w2" "kept w1 w2" "\<forall>j. holds j w2 = holds j w1"
    by blast
  then show ?case using w1 kept_trans [of w w1 w2] Cons.prems(4) by (auto simp: Let_def)
qed

end

text \<open>The stores of a combination, by their places in the family, and the strategy over them.\<close>

locale combined_family = store_family store holds good + quorum strat
  for store :: "nat \<Rightarrow> 'x store_ops" and holds :: "nat \<Rightarrow> 'x lock_world \<Rightarrow> nat \<Rightarrow> bool"
    and good :: "'x lock_world \<Rightarrow> bool" and strat :: strategy +
  fixes members :: "nat list"
  assumes some_member: "members \<noteq> []" and distinct_members: "distinct members"
begin

definition combination :: "'x combined" where
  "combination = \<lparr>co_stores = map store members, co_strategy = strat\<rparr>"

lemma combination_fields [simp]:
  "co_stores combination = map store members" "co_strategy combination = strat"
  by (simp_all add: combination_def)

lemma size_pos: "0 < length members"
  using some_member by simp

lemma can_start: "can_be_met strat 0 (length members)"
  using give_up [OF size_pos, of 0] all_is_met [OF size_pos] by simp

end

sublocale combined_family \<subseteq> asked_family strat store holds good
  by unfold_locales (rule exists_one)

context combined_family
begin

lemma combined_exists_counts:
  assumes "good w"
  shows "\<exists>w'. combined_exists combination k w
      = (Inr (is_met strat (length (filter (\<lambda>i. holds i w k) members)) (length members)), w')
    \<and> good w' \<and> kept w w' \<and> (\<forall>j. holds j w' = holds j w)"
  using asked_counts [OF assms some_member] by (simp add: combination_def)

lemma held_member: "settled members w \<Longrightarrow> i \<in> set members \<Longrightarrow> holds i w k = held members w k"
  by (auto simp: settled_def held_def)

lemma rival_member:
  assumes "settled members w" and "i \<in> set members"
  shows "rival (holds i) w k = rival (held members) w k"
  using held_member [OF assms] by (simp add: rival_def)

lemma settledI:
  assumes "good w'" and "settled members w" and "\<And>j. j \<in> set members \<Longrightarrow> holds j w' = (holds j w)(k := b)"
  shows "settled members w' \<and> held members w' = (held members w)(k := b)"
  using assms some_member
  by (auto simp: settled_def held_def fun_eq_iff split: if_splits)

lemma settled_same:
  assumes "good w'" and "settled members w" and "\<And>j. holds j w' = holds j w"
  shows "settled members w' \<and> held members w' = held members w"
  using assms by (auto simp: settled_def held_def)

lemma combined_delete_law:
  assumes "settled members w"
  shows "\<exists>w'. combined_delete combination k w = (Inr (), w') \<and> settled members w' \<and> kept w w'
    \<and> held members w' = (held members w)(k := False)"
proof -
  have "good w" using assms by (simp add: settled_def)
  from delete_all_family [OF this, of members k] obtain w' where "delete_all (map store members) k w = (Inr (), w')"
      "good w'" "kept w w'" "\<forall>j. holds j w' = (if j \<in> set members then (holds j w)(k := False) else holds j w)"
    by blast
  with settledI [of w' w k False] assms show ?thesis by (auto simp: combined_delete_def)
qed

lemma settle_met:
  assumes "\<not> key_expired w k"
  shows "combined_settle combination k (length members) w = (Inr (), w)"
  using assms all_is_met [OF size_pos]
  by (simp add: combined_settle_def check_not_expired_def andthen_def)

lemma settle_short:
  assumes "settled members w" and "\<not> key_expired w k" and "\<not> held members w k"
  shows "\<exists>w'. combined_settle combination k 0 w = (Inl (LockConflictedError (resource_of w k)), w')
    \<and> settled members w' \<and> kept w w' \<and> held members w' = held members w"
proof -
  obtain w' where w': "combined_delete combination k w = (Inr (), w')" "settled members w'" "kept w w'"
      "held members w' = (held members w)(k := False)"
    using combined_delete_law [OF assms(1)] by blast
  then show ?thesis
    using assms(2,3) none_not_met [OF size_pos] kept_resource [OF w'(3)]
    by (auto simp: combined_settle_def check_not_expired_def andthen_def fun_upd_idem)
qed

lemma combined_save_law:
  assumes "settled members w" and "\<not> key_expired w k"
  shows "\<exists>w'. combined_save combination k w
        = (if rival (held members) w k then Inl (LockConflictedError (resource_of w k)) else Inr (), w')
    \<and> settled members w' \<and> kept w w'
    \<and> held members w' = (if rival (held members) w k then held members w else (held members w)(k := True))"
proof (cases "rival (held members) w k")
  case True
  have good: "good w" using assms(1) by (simp add: settled_def)
  have "\<forall>i \<in> set members. rival (holds i) w k" using True rival_member [OF assms(1)] by blast
  from saves_taken [OF good assms(2) this, of strat "length members" 0 0] obtain f' w1 where w1:
      "poll_saves strat (length members) (map (\<lambda>i. st_save (store i) k) members) 0 0 w = (Inr (0, f'), w1)"
      "good w1" "kept w w1" "\<forall>j. holds j w1 = holds j w"
    by blast
  have s1: "settled members w1 \<and> held members w1 = held members w"
    using settled_same [OF w1(2) assms(1)] w1(4) by blast
  have "\<not> held members w k"
  proof
    assume "held members w k"
    then have "holds (hd members) w k" using some_member by (simp add: held_def)
    from persisting_store.alone [OF member good this] True rival_member [OF assms(1), of "hd members"] some_member
    show False by simp
  qed
  with settle_short [of w1 k] s1 assms(2) kept_expired [OF w1(3)] kept_resource [OF w1(3)] obtain w2 where
      "combined_settle combination k 0 w1 = (Inl (LockConflictedError (resource_of w k)), w2)"
      "settled members w2" "kept w1 w2" "held members w2 = held members w"
    by auto
  with True w1 show ?thesis
    by (auto simp: combined_save_def combined_take_def andthen_def comp_def intro: kept_trans)
next
  case False
  have good: "good w" using assms(1) by (simp add: settled_def)
  have "\<forall>i \<in> set members. \<not> rival (holds i) w k" using False rival_member [OF assms(1)] by blast
  from saves_free [OF good assms(2) distinct_members this can_start, of 0] obtain w1 where w1:
      "poll_saves strat (length members) (map (\<lambda>i. st_save (store i) k) members) 0 0 w = (Inr (length members, 0), w1)"
      "good w1" "kept w w1"
      "\<forall>j. holds j w1 = (if j \<in> set members then (holds j w)(k := True) else holds j w)"
    by auto
  have "settled members w1 \<and> held members w1 = (held members w)(k := True)"
    using settledI [OF w1(2) assms(1), of k True] w1(4) by simp
  with False w1 settle_met [of w1 k] assms(2) kept_expired [OF w1(3)] show ?thesis
    by (auto simp: combined_save_def combined_take_def andthen_def comp_def)
qed

lemma combined_put_off_law:
  assumes "settled members w" and "\<not> key_expired w k" and "0 < ttl"
  shows "\<exists>w'. combined_put_off_expiration combination k ttl w
        = (if held members w k then Inr () else Inl (LockConflictedError (resource_of w k)), w')
    \<and> settled members w' \<and> kept w w' \<and> held members w' = held members w"
proof -
  have good: "good w" and later: "lw_now w < lw_now w + ttl" using assms by (simp_all add: settled_def)
  show ?thesis
  proof (cases "held members w k")
    case True
    then have "\<forall>i \<in> set members. holds i w k" by (simp add: held_def)
    from put_offs_held [OF good assms(2) this can_start later, of 0] obtain w1 where w1:
        "poll_put_off strat (length members) (lw_now w + ttl) k (map store members) 0 0 w = (Inr (length members, 0), w1)"
        "good w1" "kept w w1" "\<forall>j. holds j w1 = holds j w"
      by auto
    with True settle_met [of w1 k] assms(2) kept_expired [OF w1(3)] settled_same [OF w1(2) assms(1)] show ?thesis
      by (auto simp: combined_put_off_expiration_def andthen_def)
  next
    case False
    then have "\<forall>i \<in> set members. \<not> holds i w k" using held_member [OF assms(1)] by blast
    from put_offs_lost [OF good assms(2) this later, of strat "length members" 0 0] obtain f' w1 where w1:
        "poll_put_off strat (length members) (lw_now w + ttl) k (map store members) 0 0 w = (Inr (0, f'), w1)"
        "good w1" "kept w w1" "\<forall>j. holds j w1 = holds j w"
      by blast
    have s1: "settled members w1 \<and> held members w1 = held members w"
      using settled_same [OF w1(2) assms(1)] w1(4) by blast
    with settle_short [of w1 k] False assms(2) kept_expired [OF w1(3)] kept_resource [OF w1(3)] obtain w2 where
        "combined_settle combination k 0 w1 = (Inl (LockConflictedError (resource_of w k)), w2)"
        "settled members w2" "kept w1 w2" "held members w2 = held members w"
      by auto
    with False w1 show ?thesis
      by (auto simp: combined_put_off_expiration_def andthen_def intro: kept_trans)
  qed
qed

lemma combined_exists_law:
  assumes "settled members w"
  shows "\<exists>w'. combined_exists combination k w = (Inr (held members w k), w') \<and> settled members w' \<and> kept w w'
    \<and> held members w' = held members w"
proof -
  have good: "good w" using assms by (simp add: settled_def)
  have "filter (\<lambda>i. holds i w k) members = (if held members w k then members else [])"
    using held_member [OF assms] by (auto simp: filter_empty_conv intro: filter_True)
  then have "is_met strat (length (filter (\<lambda>i. holds i w k) members)) (length members) = held members w k"
    using none_not_met [OF size_pos] all_is_met [OF size_pos] by simp
  with combined_exists_counts [OF good, of k] settled_same [OF _ assms] show ?thesis by auto
qed

end

sublocale combined_family \<subseteq> combined: persisting_store
  "combined_save combination" "combined_delete combination" "combined_exists combination"
  "combined_put_off_expiration combination" "held members" "settled members"
proof (unfold_locales, goal_cases)
  case (1 w k)
  then show ?case using combined_save_law [OF 1(1,2)] by auto
next
  case (2 w k)
  then show ?case using combined_save_law [OF 2(1,2)] by auto
next
  case (3 w k)
  then show ?case by (rule combined_delete_law)
next
  case (4 w k)
  then show ?case by (rule combined_exists_law)
next
  case (5 w k ttl)
  then show ?case by (rule combined_put_off_law)
next
  case (6 w w')
  have "good w" using 6(1) by (simp add: settled_def)
  from persisting_store.framed [OF member this 6(2)] settled_same [OF _ 6(1), of w'] show ?case by blast
next
  case (7 w k)
  then have "holds (hd members) w k" "good w" using some_member by (simp_all add: held_def settled_def)
  from persisting_store.alone [OF member this(2,1)] rival_member [OF 7(1), of "hd members" k] some_member
  show ?case by simp
qed

section \<open>Combining in-memory stores\<close>

definition first_stores :: "nat \<Rightarrow> nat list" where
  "first_stores n = [0 ..< Suc n]"

lemma first_stores_facts [simp]:
  "first_stores n \<noteq> []" "distinct (first_stores n)" "set (first_stores n) = {.. n}" "length (first_stores n) = Suc n"
  unfolding first_stores_def by (simp_all del: upt_Suc add: atLeastLessThanSuc_atLeastAtMost atLeast0AtMost)

interpretation mem_family: store_family InMemoryStore mem_holds mem_writing
proof (rule store_family.intro, goal_cases)
  case (1 i)
  then show ?case using mem.persisting_store_axioms [of i] by (simp add: InMemoryStore_def)
next
  case (2 w j i k ttl)
  then show ?case by (simp add: InMemoryStore_def mem_writing_def mem_elsewhere)
qed

interpretation majority: combined_family InMemoryStore mem_holds mem_writing ConsensusStrategy "first_stores n" for n
  by unfold_locales simp_all

interpretation all_agree: combined_family InMemoryStore mem_holds mem_writing UnanimousStrategy "first_stores n" for n
  by unfold_locales simp_all

text \<open>Several in-memory stores combined under a strategy.\<close>

definition combined_memory :: "strategy \<Rightarrow> nat \<Rightarrow> 'x combined" where
  "combined_memory strat n = \<lparr>co_stores = map InMemoryStore (first_stores n), co_strategy = strat\<rparr>"

lemma combined_memory_eq:
  "majority.combination n = combined_memory ConsensusStrategy n"
  "all_agree.combination n = combined_memory UnanimousStrategy n"
  by (simp_all add: majority.combination_def all_agree.combination_def combined_memory_def)

lemma empty_world_writing: "mem_writing empty_world"
proof -
  have "rw_of (lw_mem empty_world i) r = Free" for i r by (simp add: rw_of_def empty_world_def)
  then show ?thesis using mem_start_good [OF empty_world_start] by (simp add: mem_writing_def)
qed

text \<open>Readers and writers: the stores answer for both.\<close>

lemma mem_asked:
  "mem_good w \<Longrightarrow> \<exists>w'. st_exists (InMemoryStore i) k w = (Inr (mem_holds i w k), w') \<and> mem_good w' \<and> kept w w'
    \<and> (\<forall>j. mem_holds j w' = mem_holds j w)"
  using mem_exists_law [of w i k] with_token_kept [of w k] by (auto simp: InMemoryStore_def)

interpretation asked_majority: asked_family ConsensusStrategy InMemoryStore mem_holds mem_good
  by unfold_locales (rule mem_asked)

interpretation asked_all: asked_family UnanimousStrategy InMemoryStore mem_holds mem_good
  by unfold_locales (rule mem_asked)

lemma writer_alone:
  assumes "mem_good w" and "mem_writes i w k" and "mem_holds i w k'" and "resource_of w k' = resource_of w k"
  shows "k' = k"
  using assms by (auto simp: mem_writes_def mem_holds_def mem_good_def tokens_ok_def split: option.splits)

text \<open>
  C21: a combined lock is never held twice for writing. Whatever became of the in-memory stores one by one,
  readers among their holders or not, what a key is told is whether the stores that hold it are a quorum,
  although asking stops as soon as the answer is known; and two keys for one resource are both told that
  they hold the combined lock only if they share some store as readers, under either strategy. So a key
  that writes wherever it holds, as one that took the lock for writing does, is never told so together
  with another key.
\<close>

theorem combined_never_split:
  assumes "mem_good w" and "strat = ConsensusStrategy \<or> strat = UnanimousStrategy"
    and "told = (\<lambda>k. fst (combined_exists (combined_memory strat n) k w))"
  shows "told k = Inr (is_met strat (length (filter (\<lambda>i. mem_holds i w k) (first_stores n))) (Suc n))
    \<and> (k' \<noteq> k \<and> resource_of w k' = resource_of w k \<and> told k = Inr True \<and> told k' = Inr True \<longrightarrow>
        (\<exists>i \<le> n. mem_holds i w k \<and> \<not> mem_writes i w k \<and> mem_holds i w k' \<and> \<not> mem_writes i w k'))
    \<and> ((\<forall>i \<le> n. mem_holds i w k \<longrightarrow> mem_writes i w k) \<and> k' \<noteq> k \<and> resource_of w k' = resource_of w k \<longrightarrow>
        \<not> (told k = Inr True \<and> told k' = Inr True))"
proof -
  have counts: "told k = Inr (is_met strat (length (filter (\<lambda>i. mem_holds i w k) (first_stores n))) (Suc n))"
    using assms(2) asked_majority.asked_counts [OF assms(1), of "first_stores n" k] asked_all.asked_counts [OF assms(1), of "first_stores n" k]
    by (auto simp: assms(3) combined_memory_def)
  have share: "\<exists>i \<le> n. mem_holds i w k \<and> mem_holds i w k'" if "told k = Inr True" "told k' = Inr True"
    using assms(2) that asked_majority.told_share [OF assms(1), of "first_stores n" k k'] asked_all.told_share [OF assms(1), of "first_stores n" k k']
    by (fastforce simp: assms(3) combined_memory_def)
  have "\<not> mem_writes i w k \<and> \<not> mem_writes i w k'"
    if "k' \<noteq> k" "resource_of w k' = resource_of w k" "mem_holds i w k" "mem_holds i w k'" for i
    using writer_alone [OF assms(1), of i k k'] writer_alone [OF assms(1), of i k' k] that by auto
  with counts share show ?thesis by blast
qed

text \<open>Of three stores, one lost to key 6, key 5 writes in two: told so, by two votes out of three.\<close>

definition two_of_three :: "unit lock_world" where
  "two_of_three = snd (mem_save 2 6 (snd (mem_save 1 5 (snd (mem_save 0 5 empty_world)))))"

lemma two_of_three_facts:
  "mem_writing two_of_three" "resource_of two_of_three k = ''r''"
  "mem_holds 0 two_of_three 5" "mem_holds 1 two_of_three 5" "\<not> mem_holds 2 two_of_three 5"
proof -
  let ?w0 = "empty_world :: unit lock_world"
  have fresh: "\<not> key_expired ?w0 k" "resource_of ?w0 k = ''r''" "mem_holds i ?w0 = (\<lambda>k. False)" for i k
    by (simp_all add: key_expired_def is_expired_def resource_of_def empty_world_def Key_init_def mem_holds_def get_state_def fun_eq_iff)
  obtain w1 where w1: "mem_save 0 5 ?w0 = (Inr (), w1)" "mem_writing w1" "kept ?w0 w1"
      "\<forall>j. mem_holds j w1 = (if j = 0 then (\<lambda>k. False)(5 := True) else (\<lambda>k. False))"
    using mem_family.save_one [OF empty_world_writing fresh(1), of 0 5] by (auto simp: rival_def fresh(3) InMemoryStore_def)
  have "\<not> key_expired w1 5" using fresh(1) kept_expired [OF w1(3)] by simp
  then obtain w2 where w2: "mem_save 1 5 w1 = (Inr (), w2)" "mem_writing w2" "kept w1 w2"
      "\<forall>j. mem_holds j w2 = (if j \<le> 1 then (\<lambda>k. False)(5 := True) else (\<lambda>k. False))"
    using mem_family.save_one [OF w1(2), of 5 1] w1(4) by (auto simp: rival_def InMemoryStore_def)
  have "\<not> key_expired w2 6" using fresh(1) kept_expired [OF w1(3)] kept_expired [OF w2(3)] by simp
  then obtain w3 where w3: "mem_save 2 6 w2 = (Inr (), w3)" "mem_writing w3" "kept w2 w3"
      "\<forall>j. mem_holds j w3 = (if j = 2 then (mem_holds j w2)(6 := True) else mem_holds j w2)"
    using mem_family.save_one [OF w2(2), of 6 2] w2(4) by (auto simp: rival_def InMemoryStore_def)
  have "two_of_three = w3" unfolding two_of_three_def w1(1) snd_conv w2(1) w3(1) ..
  moreover have "resource_of w3 k = ''r''"
    using kept_resource [OF w1(3)] kept_resource [OF w2(3)] kept_resource [OF w3(3)] fresh(2) by simp
  ultimately show "mem_writing two_of_three" "resource_of two_of_three k = ''r''"
      "mem_holds 0 two_of_three 5" "mem_holds 1 two_of_three 5" "\<not> mem_holds 2 two_of_three 5"
    using w2(4) w3(2,4) by auto
qed

theorem combined_never_split_witness:
  "fst (combined_exists (combined_memory ConsensusStrategy 2) 5 two_of_three) = Inr True
    \<and> fst (combined_exists (combined_memory ConsensusStrategy 2) 6 two_of_three) \<noteq> Inr True"
proof -
  have good: "mem_good two_of_three" using two_of_three_facts(1) by (simp add: mem_writing_def)
  have votes: "length (filter (\<lambda>i. mem_holds i two_of_three 5) (first_stores 2)) = 2"
    using two_of_three_facts(3-5) by (simp add: first_stores_def upt_rec [of _ 3] numeral_3_eq_3 numeral_2_eq_2)
  have "mem_writes i two_of_three k" if "mem_holds i two_of_three k" for i k
    using that rw_holds_writing [OF two_of_three_facts(1)] by (auto simp: mem_writes_def mem_holds_def split: option.splits)
  then show ?thesis
    using combined_never_split [OF good _ refl, of ConsensusStrategy 2 5 6] two_of_three_facts(2) votes
    by (simp add: ConsensusStrategy_def consensus_is_met_def)
qed

text \<open>
  taking the combined lock is all or nothing. When no other key holds the combined lock, saving
  succeeds and every one of the stores holds it for the key; when another key holds it, saving raises a
  conflict and every store is left as it was. In both cases no other key's hold changes, and a later
  delete lets go in every store.
\<close>

theorem combined_save_all_or_nothing:
  fixes w :: "'x lock_world"
  assumes "mem_writing w" and "strat = ConsensusStrategy \<or> strat = UnanimousStrategy" and "\<not> key_expired w k"
    and "\<forall>j i. i \<le> n \<longrightarrow> mem_holds i w j = mem_holds 0 w j"
  shows "\<exists>w'. combined_save (combined_memory strat n) k w
      = (if rival (mem_holds 0) w k then Inl (LockConflictedError (resource_of w k)) else Inr (), w')
    \<and> (\<forall>i \<le> n. mem_holds i w' = (if rival (mem_holds 0) w k then mem_holds i w else (mem_holds i w)(k := True)))
    \<and> (\<exists>w''. combined_delete (combined_memory strat n) k w' = (Inr (), w'')
         \<and> (\<forall>i \<le> n. mem_holds i w'' = (mem_holds i w')(k := False)))"
proof -
  let ?ms = "first_stores n"
  have eq: "mem_holds i w j = mem_holds i' w j" if "i \<in> set ?ms" "i' \<in> set ?ms" for i i' j
    using assms(4) that by (metis atMost_iff first_stores_facts(3))
  have settled: "mem_family.settled ?ms w"
    unfolding mem_family.settled_def using assms(1) eq by blast
  have held: "mem_family.held ?ms v = mem_holds i v" if "mem_family.settled ?ms v" "i \<le> n" for v :: "'x lock_world" and i
    using majority.held_member [OF that(1), of i] that(2) by (intro ext) simp
  have del: "\<exists>w''. combined_delete (combined_memory strat n) k v = (Inr (), w'') \<and> mem_family.settled ?ms w''
      \<and> mem_family.held ?ms w'' = (mem_family.held ?ms v)(k := False)"
    if "mem_family.settled ?ms v" for v :: "'x lock_world"
    using assms(2) majority.combined_delete_law [OF that, of k] all_agree.combined_delete_law [OF that, of k]
    unfolding combined_memory_eq by blast
  have rival: "rival (mem_family.held ?ms) w k = rival (mem_holds 0) w k"
    using held [OF settled, of 0] by (simp add: rival_def)
  obtain w' where w': "combined_save (combined_memory strat n) k w
        = (if rival (mem_family.held ?ms) w k then Inl (LockConflictedError (resource_of w k)) else Inr (), w')"
      "mem_family.settled ?ms w'"
      "mem_family.held ?ms w' = (if rival (mem_family.held ?ms) w k then mem_family.held ?ms w
          else (mem_family.held ?ms w)(k := True))"
    using assms(2) majority.combined_save_law [OF settled assms(3)] all_agree.combined_save_law [OF settled assms(3)]
    unfolding combined_memory_eq by blast
  obtain w'' where w'': "combined_delete (combined_memory strat n) k w' = (Inr (), w'')" "mem_family.settled ?ms w''"
      "mem_family.held ?ms w'' = (mem_family.held ?ms w')(k := False)"
    using del [OF w'(2)] by blast
  have "\<forall>i \<le> n. mem_holds i w' = (if rival (mem_holds 0) w k then mem_holds i w else (mem_holds i w)(k := True))"
    using w'(3) held [OF w'(2)] held [OF settled] rival by auto
  moreover have "\<forall>i \<le> n. mem_holds i w'' = (mem_holds i w')(k := False)"
    using w''(3) held [OF w''(2)] held [OF w'(2)] by auto
  ultimately show ?thesis using w'(1) w''(1) rival by auto
qed

theorem combined_save_all_or_nothing_witness:
  "\<exists>w'. combined_save (combined_memory UnanimousStrategy 1) 0 empty_world = (Inr (), w')
     \<and> mem_holds 0 w' 0 \<and> mem_holds 1 w' 0"
proof -
  have none: "mem_holds i empty_world j = False" for i j
    by (simp add: mem_holds_def empty_world_def Key_init_def get_state_def)
  have "\<not> key_expired empty_world 0" by (simp add: key_expired_def is_expired_def empty_world_def Key_init_def)
  with combined_save_all_or_nothing [OF empty_world_writing, of UnanimousStrategy 0 1] none show ?thesis
    by (fastforce simp: rival_def)
qed

end
