(* ===== verification/Lock_Client.thy ===== *)
theory Lock_Client
  imports Lock_Combined
begin

text \<open>
  The lock itself (\<open>lock.py\<close>) and its factory. Operations of one holder take turns, so each of them
  is one program; what other tasks do while a waiting acquire sleeps is the \<open>lk_sleep\<close> the lock is
  given. A wait is followed for \<open>fuel\<close> rounds: the theorem on waiting says how many are enough. What is
  logged is left out.
\<close>

section \<open>The lock\<close>

record 'x lock =
  lk_key :: nat
  lk_store :: "'x store_ops"
  lk_ttl :: "real option"
  lk_randbelow :: "nat \<Rightarrow> ('x, nat) lock_prog"
  lk_sleep :: "real \<Rightarrow> ('x, unit) lock_prog"

text \<open>\<open>try: m\<close> with one handler for whatever is raised, which may raise it again.\<close>

definition catch :: "('x, 'a) lock_prog \<Rightarrow> (lock_error \<Rightarrow> ('x, 'a) lock_prog) \<Rightarrow> ('x, 'a) lock_prog" where
  "catch m h = (\<lambda>w. case m w of (Inl e, w') \<Rightarrow> h e w' | (Inr x, w') \<Rightarrow> (Inr x, w'))"

definition raise_for :: "nat \<Rightarrow> (string \<Rightarrow> lock_error) \<Rightarrow> ('x, 'a) lock_prog" where
  "raise_for k err = (\<lambda>w. (Inl (err (resource_of w k)), w))"

definition RETRY_DELAY_MS :: int where "RETRY_DELAY_MS = 100"
definition RETRY_JITTER_MS :: int where "RETRY_JITTER_MS = 10"

definition retry_delay :: "nat \<Rightarrow> real" where
  "retry_delay drawn = of_int (RETRY_DELAY_MS + (int drawn - RETRY_JITTER_MS)) / 1000"

fun wait_loop :: "nat \<Rightarrow> 'x lock \<Rightarrow> ('x, unit) lock_prog \<Rightarrow> ('x, unit) lock_prog" where
  "wait_loop 0 lk save = raise StillWaiting"
| "wait_loop (Suc fuel) lk save =
     catch save (\<lambda>e. case e of
       LockConflictedError _ \<Rightarrow>
         andthen (lk_randbelow lk (nat (2 * RETRY_JITTER_MS + 1))) (\<lambda>drawn.
         andthen (lk_sleep lk (retry_delay drawn)) (\<lambda>_. wait_loop fuel lk save))
     | _ \<Rightarrow> raise e)"

definition lock_wait_and_save :: "nat \<Rightarrow> 'x lock \<Rightarrow> ('x, unit) lock_prog" where
  "lock_wait_and_save fuel lk =
     (case st_wait_and_save (lk_store lk) of
        Some wait_and_save \<Rightarrow> wait_and_save (lk_key lk)
      | None \<Rightarrow> wait_loop fuel lk (st_save (lk_store lk) (lk_key lk)))"

definition lock_wait_and_save_read ::
  "nat \<Rightarrow> 'x lock \<Rightarrow> (nat \<Rightarrow> ('x, unit) lock_prog) \<Rightarrow> ('x, unit) lock_prog" where
  "lock_wait_and_save_read fuel lk save_read =
     (case st_wait_and_save_read (lk_store lk) of
        Some wait_and_save_read \<Rightarrow> wait_and_save_read (lk_key lk)
      | None \<Rightarrow> wait_loop fuel lk (save_read (lk_key lk)))"

definition lock_delete :: "'x lock \<Rightarrow> ('x, unit) lock_prog" where
  "lock_delete lk =
     andthen
       (catch (st_delete (lk_store lk) (lk_key lk)) (\<lambda>e. case e of
          LockReleasingError _ \<Rightarrow> raise e
        | _ \<Rightarrow> if is_exception e then raise_for (lk_key lk) LockReleasingError else raise e))
       (\<lambda>_ w. (Inr (), set_dirty (lk_key lk) False w))"

definition fail_if_still_held :: "'x lock \<Rightarrow> ('x, unit) lock_prog" where
  "fail_if_still_held lk =
     andthen (st_exists (lk_store lk) (lk_key lk)) (\<lambda>held.
     if held then raise_for (lk_key lk) LockReleasingError else ret ())"

definition lock_release :: "'x lock \<Rightarrow> ('x, unit) lock_prog" where
  "lock_release lk = andthen (lock_delete lk) (\<lambda>_. fail_if_still_held lk)"

definition fail_if_expired :: "'x lock \<Rightarrow> ('x, unit) lock_prog" where
  "fail_if_expired lk = (\<lambda>w.
     if \<not> key_expired w (lk_key lk) then (Inr (), w)
     else andthen
            (catch (lock_release lk) (\<lambda>e. if is_exception e then ret () else raise e))
            (\<lambda>_. raise_for (lk_key lk) LockExpiredError) w)"

definition lock_refresh :: "'x lock \<Rightarrow> real option \<Rightarrow> ('x, unit) lock_prog" where
  "lock_refresh lk ttl =
     (case (case ttl of None \<Rightarrow> lk_ttl lk | Some t \<Rightarrow> Some t) of
        None \<Rightarrow> raise NoExpirationDuration
      | Some t \<Rightarrow>
          if t = 0 then raise NoExpirationDuration
          else catch
            (\<lambda>w. andthen (st_put_off_expiration (lk_store lk) (lk_key lk) t)
                   (\<lambda>_ w'. fail_if_expired lk (set_dirty (lk_key lk) True w'))
                   (on_key (lk_key lk) reset_lifetime w))
            (\<lambda>e. case e of
               LockConflictedError _ \<Rightarrow> (\<lambda>w. (Inl e, set_dirty (lk_key lk) False w))
             | LockExpiredError _ \<Rightarrow> raise e
             | _ \<Rightarrow> if is_exception e then raise_for (lk_key lk) LockAcquiringError else raise e))"

definition lock_settle :: "'x lock \<Rightarrow> ('x, unit) lock_prog" where
  "lock_settle lk =
     andthen (case lk_ttl lk of None \<Rightarrow> ret () | Some t \<Rightarrow> if t = 0 then ret () else lock_refresh lk None)
       (\<lambda>_. fail_if_expired lk)"

definition abandon :: "'x lock \<Rightarrow> ('x, unit) lock_prog" where
  "abandon lk = (\<lambda>w.
     catch (st_delete (lk_store lk) (lk_key lk)) (\<lambda>e. if is_exception e then ret () else raise e)
       (set_dirty (lk_key lk) False w))"

definition lock_take ::
  "nat \<Rightarrow> 'x lock \<Rightarrow> bool \<Rightarrow> (nat \<Rightarrow> ('x, unit) lock_prog) option \<Rightarrow> ('x, bool) lock_prog" where
  "lock_take fuel lk blocking shared = (\<lambda>w0.
     let k = lk_key lk;
         w = on_key k reset_lifetime w0;
         held_before = dirty w k
     in catch
          (andthen
             (case shared of
                None \<Rightarrow> if blocking then lock_wait_and_save fuel lk else st_save (lk_store lk) k
              | Some save_read \<Rightarrow>
                  if blocking then lock_wait_and_save_read fuel lk save_read else save_read k)
             (\<lambda>_ w1. andthen (lock_settle lk) (\<lambda>_. ret True) (set_dirty k True w1)))
          (\<lambda>e. case e of
             CancelledError \<Rightarrow>
               andthen (if held_before then ret () else abandon lk) (\<lambda>_. raise CancelledError)
           | LockConflictedError _ \<Rightarrow>
               (\<lambda>w1. (if blocking then Inl e else Inr False, set_dirty k False w1))
           | LockExpiredError _ \<Rightarrow> raise e
           | _ \<Rightarrow> if is_exception e then raise_for k LockAcquiringError else raise e) w)"

definition acquire :: "nat \<Rightarrow> 'x lock \<Rightarrow> bool \<Rightarrow> ('x, bool) lock_prog" where
  "acquire fuel lk blocking = lock_take fuel lk blocking None"

definition acquire_read :: "nat \<Rightarrow> 'x lock \<Rightarrow> bool \<Rightarrow> ('x, bool) lock_prog" where
  "acquire_read fuel lk blocking =
     (case st_save_read (lk_store lk) of
        Some save_read \<Rightarrow> lock_take fuel lk blocking (Some save_read)
      | None \<Rightarrow> (\<lambda>w. lock_take fuel lk blocking None (on_key (lk_key lk) reset_lifetime w)))"

definition is_acquired :: "'x lock \<Rightarrow> ('x, bool) lock_prog" where
  "is_acquired lk = andthen (st_exists (lk_store lk) (lk_key lk)) (\<lambda>held w.
     (Inr held, set_dirty (lk_key lk) held w))"

definition push_entered :: "nat \<Rightarrow> bool \<Rightarrow> 'x lock_world \<Rightarrow> 'x lock_world" where
  "push_entered k took w =
     w\<lparr>lw_holders := (lw_holders w)(k := (lw_holders w k)\<lparr>h_entered := h_entered (lw_holders w k) @ [took]\<rparr>)\<rparr>"

definition lock_aenter :: "nat \<Rightarrow> 'x lock \<Rightarrow> ('x, unit) lock_prog" where
  "lock_aenter fuel lk = (\<lambda>w.
     let took = \<not> dirty w (lk_key lk)
     in andthen (lock_take fuel lk True None) (\<lambda>_ w'. (Inr (), push_entered (lk_key lk) took w')) w)"

definition lock_aexit :: "'x lock \<Rightarrow> ('x, unit) lock_prog" where
  "lock_aexit lk = (\<lambda>w.
     let k = lk_key lk; entered = h_entered (lw_holders w k);
         took = (if entered = [] then True else List.last entered);
         w' = w\<lparr>lw_holders := (lw_holders w)(k := (lw_holders w k)\<lparr>h_entered := butlast entered\<rparr>)\<rparr>
     in if \<not> took \<or> \<not> dirty w' k then (Inr (), w')
        else andthen (is_acquired lk) (\<lambda>held. if \<not> held then ret () else lock_release lk) w')"

section \<open>The factory\<close>

definition DEFAULT_TTL :: real where "DEFAULT_TTL = 300"

record 'x lock_factory =
  lf_store :: "'x store_ops"
  lf_randbelow :: "nat \<Rightarrow> ('x, nat) lock_prog"
  lf_sleep :: "real \<Rightarrow> ('x, unit) lock_prog"

definition create_lock_from_key :: "'x lock_factory \<Rightarrow> nat \<Rightarrow> real option \<Rightarrow> 'x lock" where
  "create_lock_from_key lf k ttl =
     \<lparr>lk_key = k, lk_store = lf_store lf, lk_ttl = ttl, lk_randbelow = lf_randbelow lf, lk_sleep = lf_sleep lf\<rparr>"

text \<open>A new key at a fresh identity \<open>k\<close>, and a lock for it.\<close>

definition create_lock :: "'x lock_factory \<Rightarrow> nat \<Rightarrow> string \<Rightarrow> real option \<Rightarrow> 'x lock_world \<Rightarrow> 'x lock \<times> 'x lock_world" where
  "create_lock lf k resource ttl w =
     (create_lock_from_key lf k ttl, w\<lparr>lw_keys := (lw_keys w)(k := Key_init resource)\<rparr>)"

lemmas lock_ops_defs [lock_defs] = catch_def raise_for_def lock_delete_def fail_if_still_held_def lock_release_def
  fail_if_expired_def lock_refresh_def lock_settle_def abandon_def lock_take_def acquire_def is_acquired_def

lemma retry_delay_bounds:
  "drawn < nat (2 * RETRY_JITTER_MS + 1) \<Longrightarrow> 0.09 \<le> retry_delay drawn \<and> retry_delay drawn \<le> 0.11"
  by (simp add: retry_delay_def RETRY_DELAY_MS_def RETRY_JITTER_MS_def)

section \<open>A lock over a store that keeps its contract\<close>

text \<open>What changes in the holders is the lock's own doing: the dirty flag, and the blocks entered.\<close>

lemma frame_dirty: "same_but_lifetimes w (set_dirty k b w)"
  by (simp add: same_but_lifetimes_def)

lemma frame_reset: "same_but_lifetimes w (on_key k reset_lifetime w)"
  by (simp add: same_but_lifetimes_def)

lemma resource_frame [simp]:
  "resource_of (set_dirty k b w) k' = resource_of w k'" "resource_of (on_key k reset_lifetime w) k' = resource_of w k'"
  by (simp_all add: resource_of_def)

lemma expired_frame [simp]:
  "key_expired (set_dirty k b w) k' = key_expired w k'" "\<not> key_expired (on_key k reset_lifetime w) k"
  by (simp_all add: key_expired_def is_expired_def)

lemma dirty_frame [simp]:
  "dirty (set_dirty k b w) k' = (if k' = k then b else dirty w k')" "dirty (on_key k f w) k' = dirty w k'"
  by (simp_all add: dirty_def)

lemma rival_frame: "(\<And>k'. resource_of w' k' = resource_of w k') \<Longrightarrow> holds w' = holds w \<Longrightarrow> rival holds w' k = rival holds w k"
  by (simp add: rival_def)

definition entered_of :: "'x lock_world \<Rightarrow> nat \<Rightarrow> bool list" where
  "entered_of w k = h_entered (lw_holders w k)"

lemma entered_frame [simp]:
  "entered_of (set_dirty k b w) k' = entered_of w k'" "entered_of (on_key k f w) k' = entered_of w k'"
  by (simp_all add: entered_of_def)

text \<open>What an operation of the lock for \<open>k\<close> may change beside the store: that holder's flag.\<close>

definition only_flag :: "nat \<Rightarrow> bool \<Rightarrow> 'x lock_world \<Rightarrow> 'x lock_world \<Rightarrow> bool" where
  "only_flag k b w w' \<longleftrightarrow> dirty w' k = b \<and> (\<forall>k'. k' \<noteq> k \<longrightarrow> dirty w' k' = dirty w k')
     \<and> entered_of w' = entered_of w \<and> (\<forall>k'. resource_of w' k' = resource_of w k')"

lemma kept_entered: "kept w w' \<Longrightarrow> entered_of w' = entered_of w"
  by (rule ext) (simp add: kept_def entered_of_def)

lemma only_flag_trans:
  "only_flag k a w w1 \<Longrightarrow> only_flag k b w1 w2 \<Longrightarrow> only_flag k b w w2"
  by (simp add: only_flag_def)

lemma only_flag_kept: "kept w w' \<Longrightarrow> only_flag k (dirty w k) w w'"
  by (simp add: only_flag_def kept_dirty kept_entered kept_resource)

lemma only_flag_set: "only_flag k b w (set_dirty k b w)" "only_flag k (dirty w k) w (on_key k reset_lifetime w)"
  by (auto simp: only_flag_def fun_eq_iff)

context persisting_store
begin

definition locks_on :: "'x lock \<Rightarrow> bool" where
  "locks_on lk \<longleftrightarrow> st_save (lk_store lk) = save \<and> st_delete (lk_store lk) = delete
     \<and> st_exists (lk_store lk) = exists \<and> st_put_off_expiration (lk_store lk) = put_off
     \<and> st_wait_and_save (lk_store lk) = None
     \<and> (case lk_ttl lk of None \<Rightarrow> True | Some t \<Rightarrow> 0 < t)"

lemma frame_good:
  assumes "good w"
  shows "good (set_dirty k b w)" "holds (set_dirty k b w) = holds w"
    "good (on_key k reset_lifetime w)" "holds (on_key k reset_lifetime w) = holds w"
  using framed [OF assms frame_dirty, of k b] framed [OF assms frame_reset, of k] by auto

lemma release_law:
  assumes "locks_on lk" and "good w"
  shows "\<exists>w'. lock_release lk w = (Inr (), w') \<and> good w' \<and> holds w' = (holds w)(lk_key lk := False)
    \<and> only_flag (lk_key lk) False w w'"
proof -
  let ?k = "lk_key lk"
  obtain w1 where w1: "delete ?k w = (Inr (), w1)" "good w1" "kept w w1" "holds w1 = (holds w)(?k := False)"
    using delete_law [OF assms(2)] by blast
  let ?w2 = "set_dirty ?k False w1"
  have g2: "good ?w2" "holds ?w2 = (holds w)(?k := False)" using frame_good [OF w1(2)] w1(4) by simp_all
  obtain w3 where w3: "exists ?k ?w2 = (Inr False, w3)" "good w3" "kept ?w2 w3" "holds w3 = (holds w)(?k := False)"
    using exists_law [OF g2(1), of ?k] g2(2) by auto
  have "lock_release lk w = (Inr (), w3)"
    using assms(1) w1(1) w3(1)
    by (simp add: locks_on_def lock_release_def lock_delete_def fail_if_still_held_def catch_def andthen_def)
  moreover have "only_flag ?k False w w3"
    using only_flag_trans [OF only_flag_trans [OF only_flag_kept [OF w1(3)] only_flag_set(1)] only_flag_kept [OF w3(3)]]
    by simp
  ultimately show ?thesis using w3 by blast
qed

lemma is_acquired_law:
  assumes "locks_on lk" and "good w"
  shows "\<exists>w'. is_acquired lk w = (Inr (holds w (lk_key lk)), w') \<and> good w' \<and> holds w' = holds w
    \<and> only_flag (lk_key lk) (holds w (lk_key lk)) w w'"
proof -
  let ?k = "lk_key lk"
  obtain w1 where w1: "exists ?k w = (Inr (holds w ?k), w1)" "good w1" "kept w w1" "holds w1 = holds w"
    using exists_law [OF assms(2)] by blast
  then have "is_acquired lk w = (Inr (holds w ?k), set_dirty ?k (holds w ?k) w1)"
    using assms(1) by (simp add: locks_on_def is_acquired_def andthen_def)
  with w1 frame_good [OF w1(2)] only_flag_trans [OF only_flag_kept [OF w1(3)] only_flag_set(1)] show ?thesis
    by auto
qed

lemma fail_if_expired_passes: "\<not> key_expired w (lk_key lk) \<Longrightarrow> fail_if_expired lk w = (Inr (), w)"
  by (simp add: fail_if_expired_def)

lemma settle_held:
  assumes "locks_on lk" and "good w" and "\<not> key_expired w (lk_key lk)" and "holds w (lk_key lk)" and "dirty w (lk_key lk)"
  shows "\<exists>w'. lock_settle lk w = (Inr (), w') \<and> good w' \<and> holds w' = holds w \<and> only_flag (lk_key lk) True w w'"
proof (cases "lk_ttl lk")
  case None
  then show ?thesis
    using assms fail_if_expired_passes [OF assms(3)] by (auto simp: lock_settle_def only_flag_def)
next
  case (Some t)
  let ?k = "lk_key lk"
  let ?w1 = "on_key ?k reset_lifetime w"
  have t: "0 < t" using assms(1) Some by (simp add: locks_on_def)
  obtain w2 where w2: "put_off ?k t ?w1 = (Inr (), w2)" "good w2" "kept ?w1 w2" "holds w2 = holds w"
    using put_off_law [OF frame_good(3) [OF assms(2)] expired_frame(2) t, of ?k] frame_good(4) [OF assms(2)] assms(4) by auto
  have ne: "\<not> key_expired (set_dirty ?k True w2) ?k" using kept_expired [OF w2(3), of ?k] by simp
  have "lock_refresh lk None w = (Inr (), set_dirty ?k True w2)"
    using assms(1) Some t w2(1) fail_if_expired_passes [OF ne]
    by (simp add: lock_refresh_def locks_on_def catch_def andthen_def)
  then have "lock_settle lk w = (Inr (), set_dirty ?k True w2)"
    using Some t fail_if_expired_passes [OF ne] by (simp add: lock_settle_def andthen_def)
  moreover have "only_flag ?k True w (set_dirty ?k True w2)"
    using only_flag_trans [OF only_flag_trans [OF only_flag_set(2) only_flag_kept [OF w2(3)]] only_flag_set(1)] .
  ultimately show ?thesis using w2 frame_good [OF w2(2)] by auto
qed

lemma take_saved:
  assumes "locks_on lk" and "good w" and w1: "(if blocking then wait_loop fuel lk (save (lk_key lk)) else save (lk_key lk))
      (on_key (lk_key lk) reset_lifetime w) = (Inr (), w1)"
    and "good w1" and "holds w1 (lk_key lk)" and "\<not> key_expired w1 (lk_key lk)"
  shows "\<exists>w'. lock_take fuel lk blocking None w = (Inr True, w') \<and> good w' \<and> holds w' = holds w1
    \<and> only_flag (lk_key lk) True w1 w'"
proof -
  let ?k = "lk_key lk"
  let ?w2 = "set_dirty ?k True w1"
  obtain w' where w': "lock_settle lk ?w2 = (Inr (), w')" "good w'" "holds w' = holds w1" "only_flag ?k True ?w2 w'"
    using settle_held [OF assms(1), of ?w2] frame_good [OF assms(4)] assms(5,6) by auto
  have "lock_take fuel lk blocking None w = (Inr True, w')"
    using assms(1) w1 w'(1)
    by (auto simp: lock_take_def locks_on_def lock_wait_and_save_def catch_def andthen_def Let_def split: if_splits)
  with w' only_flag_trans [OF only_flag_set(1) w'(4)] show ?thesis by blast
qed

lemma acquire_free:
  assumes "locks_on lk" and "good w" and "\<not> rival holds w (lk_key lk)" and "blocking \<longrightarrow> 0 < fuel"
  shows "\<exists>w'. lock_take fuel lk blocking None w = (Inr True, w') \<and> good w' \<and> holds w' = (holds w)(lk_key lk := True)
    \<and> only_flag (lk_key lk) True w w'"
proof -
  let ?k = "lk_key lk"
  let ?w0 = "on_key ?k reset_lifetime w"
  have "\<not> rival holds ?w0 ?k"
    using assms(3) rival_frame [of ?w0 w holds ?k] frame_good(4) [OF assms(2)] by simp
  then obtain w1 where w1: "save ?k ?w0 = (Inr (), w1)" "good w1" "kept ?w0 w1" "holds w1 = (holds w)(?k := True)"
    using save_free [OF frame_good(3) [OF assms(2)] expired_frame(2)] frame_good(4) [OF assms(2)] by metis
  have "(if blocking then wait_loop fuel lk (save ?k) else save ?k) ?w0 = (Inr (), w1)"
    using w1(1) assms(4) by (cases fuel) (auto simp: catch_def)
  moreover have "\<not> key_expired w1 ?k" using kept_expired [OF w1(3), of ?k] by simp
  ultimately obtain w' where "lock_take fuel lk blocking None w = (Inr True, w')" "good w'" "holds w' = holds w1"
      "only_flag ?k True w1 w'"
    using take_saved [OF assms(1,2) _ w1(2)] w1(4) by auto
  with w1(4) only_flag_trans [OF only_flag_trans [OF only_flag_set(2) only_flag_kept [OF w1(3)]]] show ?thesis by auto
qed

lemma acquire_taken:
  assumes "locks_on lk" and "good w" and "rival holds w (lk_key lk)"
  shows "\<exists>w'. lock_take fuel lk False None w = (Inr False, w') \<and> good w' \<and> holds w' = holds w
    \<and> only_flag (lk_key lk) False w w'"
proof -
  let ?k = "lk_key lk"
  let ?w0 = "on_key ?k reset_lifetime w"
  have "rival holds ?w0 ?k"
    using assms(3) rival_frame [of ?w0 w holds ?k] frame_good(4) [OF assms(2)] by simp
  then obtain w1 where w1: "save ?k ?w0 = (Inl (LockConflictedError (resource_of w ?k)), w1)" "good w1"
      "kept ?w0 w1" "holds w1 = holds w"
    using save_taken [OF frame_good(3) [OF assms(2)] expired_frame(2)] frame_good(4) [OF assms(2)] by fastforce
  have "lock_take fuel lk False None w = (Inr False, set_dirty ?k False w1)"
    using assms(1) w1(1) by (simp add: lock_take_def locks_on_def catch_def andthen_def Let_def)
  moreover have "only_flag ?k False w (set_dirty ?k False w1)"
    using only_flag_trans [OF only_flag_trans [OF only_flag_set(2) only_flag_kept [OF w1(3)]] only_flag_set(1)] .
  ultimately show ?thesis using w1 frame_good [OF w1(2)] by auto
qed

text \<open>Two holders of one resource: the second is refused while the first holds, and gets it after.\<close>

lemma handover:
  assumes "locks_on lk1" and "locks_on lk2" and "good w" and "lk_key lk2 \<noteq> lk_key lk1"
    and "resource_of w (lk_key lk2) = resource_of w (lk_key lk1)"
    and "\<forall>k. resource_of w k = resource_of w (lk_key lk1) \<longrightarrow> \<not> holds w k"
  shows "\<exists>w1 w2 w3 w4. acquire fuel lk1 False w = (Inr True, w1) \<and> acquire fuel lk2 False w1 = (Inr False, w2)
    \<and> fst (is_acquired lk1 w2) = Inr True \<and> fst (is_acquired lk2 w2) = Inr False
    \<and> lock_release lk1 w2 = (Inr (), w3) \<and> acquire fuel lk2 False w3 = (Inr True, w4)
    \<and> fst (is_acquired lk1 w4) = Inr False \<and> fst (is_acquired lk2 w4) = Inr True"
proof -
  let ?k1 = "lk_key lk1" and ?k2 = "lk_key lk2"
  have "\<not> rival holds w ?k1" using assms(6) by (auto simp: rival_def)
  then obtain w1 where w1: "acquire fuel lk1 False w = (Inr True, w1)" "good w1" "holds w1 = (holds w)(?k1 := True)"
      "only_flag ?k1 True w w1"
    using acquire_free [OF assms(1,3), of False fuel] by (auto simp: acquire_def)
  have "rival holds w1 ?k2"
    using assms(4,5) w1(3,4) by (auto simp: rival_def only_flag_def intro!: exI [of _ ?k1])
  then obtain w2 where w2: "acquire fuel lk2 False w1 = (Inr False, w2)" "good w2" "holds w2 = holds w1"
      "only_flag ?k2 False w1 w2"
    using acquire_taken [OF assms(2) w1(2), of fuel] by (auto simp: acquire_def)
  have q2: "fst (is_acquired lk1 w2) = Inr True" "fst (is_acquired lk2 w2) = Inr False"
    using is_acquired_law [OF assms(1) w2(2)] is_acquired_law [OF assms(2) w2(2)] w2(3) w1(3) assms(4,5,6) by auto
  obtain w3 where w3: "lock_release lk1 w2 = (Inr (), w3)" "good w3" "holds w3 = (holds w2)(?k1 := False)"
      "only_flag ?k1 False w2 w3"
    using release_law [OF assms(1) w2(2)] by blast
  have res: "resource_of w3 k = resource_of w k" for k
    using w1(4) w2(4) w3(4) by (simp add: only_flag_def)
  have "\<not> rival holds w3 ?k2"
    using assms(5,6) w1(3) w2(3) w3(3) by (auto simp: rival_def res)
  then obtain w4 where w4: "acquire fuel lk2 False w3 = (Inr True, w4)" "good w4" "holds w4 = (holds w3)(?k2 := True)"
    using acquire_free [OF assms(2) w3(2), of False fuel] by (auto simp: acquire_def)
  have "fst (is_acquired lk1 w4) = Inr False" "fst (is_acquired lk2 w4) = Inr True"
    using is_acquired_law [OF assms(1) w4(2)] is_acquired_law [OF assms(2) w4(2)] w4(3) w3(3) assms(4) by auto
  with w1(1) w2(1) q2 w3(1) w4(1) show ?thesis by blast
qed

text \<open>Waiting: after each refused attempt the world moves on while the lock sleeps.\<close>

definition pause :: "'x lock \<Rightarrow> ('x, unit) lock_prog" where
  "pause lk = andthen (lk_randbelow lk (nat (2 * RETRY_JITTER_MS + 1))) (\<lambda>drawn. lk_sleep lk (retry_delay drawn))"

fun waited :: "nat \<Rightarrow> 'x lock \<Rightarrow> 'x lock_world \<Rightarrow> 'x lock_world" where
  "waited 0 lk w = w"
| "waited (Suc m) lk w = waited m lk (snd (pause lk (snd (save (lk_key lk) w))))"

lemma wait_loop_returns:
  assumes "\<forall>j \<le> m. good (waited j lk w) \<and> \<not> key_expired (waited j lk w) (lk_key lk)"
    and "\<forall>j < m. fst (pause lk (snd (save (lk_key lk) (waited j lk w)))) = Inr ()"
    and "\<not> rival holds (waited m lk w) (lk_key lk)" and "m < fuel"
  shows "\<exists>w'. wait_loop fuel lk (save (lk_key lk)) w = (Inr (), w') \<and> good w' \<and> holds w' (lk_key lk)
    \<and> \<not> key_expired w' (lk_key lk)"
  using assms
proof (induction m arbitrary: w fuel)
  case 0
  then obtain w' where w': "save (lk_key lk) w = (Inr (), w')" "good w'" "kept w w'" "holds w' = (holds w)(lk_key lk := True)"
    using save_free [of w "lk_key lk"] by auto
  with 0 kept_expired [OF w'(3)] show ?case by (cases fuel) (auto simp: catch_def)
next
  case (Suc m)
  let ?k = "lk_key lk"
  obtain fuel' where fuel: "fuel = Suc fuel'" "m < fuel'" using Suc.prems(4) by (cases fuel) auto
  have here: "good w" "\<not> key_expired w ?k" using Suc.prems(1) [rule_format, of 0] by simp_all
  show ?case
  proof (cases "rival holds w ?k")
    case False
    then obtain w' where w': "save ?k w = (Inr (), w')" "good w'" "kept w w'" "holds w' = (holds w)(?k := True)"
      using save_free [OF here] by blast
    with here kept_expired [OF w'(3)] fuel(1) show ?thesis by (auto simp: catch_def)
  next
    case True
    then obtain w1 where w1: "save ?k w = (Inl (LockConflictedError (resource_of w ?k)), w1)"
      using save_taken [OF here] by blast
    then obtain w2 where w2: "pause lk w1 = (Inr (), w2)"
      using Suc.prems(2) [rule_format, of 0] by (cases "pause lk w1") simp
    from w2 obtain drawn v where "lk_randbelow lk (nat (2 * RETRY_JITTER_MS + 1)) w1 = (Inr drawn, v)"
        "lk_sleep lk (retry_delay drawn) v = (Inr (), w2)"
      unfolding pause_def by (erule andthen_InrE)
    with w1 have run: "wait_loop fuel lk (save ?k) w = wait_loop fuel' lk (save ?k) w2"
      by (simp add: fuel(1) catch_def andthen_Inr)
    have next_world: "waited (Suc j) lk w = waited j lk w2" for j using w1 w2 by simp
    have "\<exists>w'. wait_loop fuel' lk (save ?k) w2 = (Inr (), w') \<and> good w' \<and> holds w' ?k \<and> \<not> key_expired w' ?k"
    proof (rule Suc.IH)
      show "\<forall>j \<le> m. good (waited j lk w2) \<and> \<not> key_expired (waited j lk w2) ?k"
        using Suc.prems(1) next_world by (metis Suc_le_mono)
      show "\<forall>j < m. fst (pause lk (snd (save ?k (waited j lk w2)))) = Inr ()"
        using Suc.prems(2) next_world by (metis Suc_mono)
      show "\<not> rival holds (waited m lk w2) ?k" using Suc.prems(3) next_world by metis
    qed (rule fuel(2))
    with run show ?thesis by simp
  qed
qed

lemma blocking_acquire:
  assumes "locks_on lk" and "good w" and "w0 = on_key (lk_key lk) reset_lifetime w"
    and "\<forall>j \<le> m. good (waited j lk w0) \<and> \<not> key_expired (waited j lk w0) (lk_key lk)"
    and "\<forall>j < m. fst (pause lk (snd (save (lk_key lk) (waited j lk w0)))) = Inr ()"
    and "\<not> rival holds (waited m lk w0) (lk_key lk)" and "m < fuel"
  shows "\<exists>w'. acquire fuel lk True w = (Inr True, w') \<and> good w' \<and> holds w' (lk_key lk) \<and> dirty w' (lk_key lk)"
proof -
  obtain w1 where w1: "wait_loop fuel lk (save (lk_key lk)) w0 = (Inr (), w1)" "good w1" "holds w1 (lk_key lk)"
      "\<not> key_expired w1 (lk_key lk)"
    using wait_loop_returns [OF assms(4-7)] by blast
  from take_saved [OF assms(1,2), where blocking = True, simplified, folded assms(3), OF w1] w1(3) show ?thesis
    by (auto simp: acquire_def only_flag_def)
qed

text \<open>Blocks: entering and leaving, nested any way, leaves the hold as it was found.\<close>

lemma aenter_free:
  assumes "locks_on lk" and "good w" and "\<not> rival holds w (lk_key lk)" and "0 < fuel"
  shows "\<exists>w'. lock_aenter fuel lk w = (Inr (), w') \<and> good w' \<and> holds w' = (holds w)(lk_key lk := True)
    \<and> dirty w' (lk_key lk) \<and> (\<forall>k'. k' \<noteq> lk_key lk \<longrightarrow> dirty w' k' = dirty w k')
    \<and> entered_of w' = (entered_of w)(lk_key lk := entered_of w (lk_key lk) @ [\<not> dirty w (lk_key lk)])
    \<and> (\<forall>k'. resource_of w' k' = resource_of w k')"
proof -
  let ?k = "lk_key lk"
  obtain w1 where w1: "lock_take fuel lk True None w = (Inr True, w1)" "good w1" "holds w1 = (holds w)(?k := True)"
      "only_flag ?k True w w1"
    using acquire_free [OF assms(1-3), of True fuel] assms(4) by blast
  let ?w2 = "push_entered ?k (\<not> dirty w ?k) w1"
  have frame: "same_but_lifetimes w1 ?w2" by (simp add: same_but_lifetimes_def push_entered_def)
  have "lock_aenter fuel lk w = (Inr (), ?w2)"
    using w1(1) by (simp add: lock_aenter_def andthen_def Let_def)
  moreover have "good ?w2" "holds ?w2 = (holds w)(?k := True)" using framed [OF w1(2) frame] w1(3) by simp_all
  moreover have "entered_of ?w2 = (entered_of w)(?k := entered_of w ?k @ [\<not> dirty w ?k])"
    using w1(4) by (auto simp: only_flag_def entered_of_def push_entered_def fun_eq_iff)
  moreover have "dirty ?w2 ?k" "\<forall>k'. k' \<noteq> ?k \<longrightarrow> dirty ?w2 k' = dirty w k'" "\<forall>k'. resource_of ?w2 k' = resource_of w k'"
    using w1(4) by (auto simp: only_flag_def dirty_def push_entered_def resource_of_def)
  ultimately show ?thesis by blast
qed

lemma aexit_law:
  assumes "locks_on lk" and "good w" and "entered_of w (lk_key lk) = es @ [took]" and "dirty w (lk_key lk)" and "holds w (lk_key lk)"
  shows "\<exists>w'. lock_aexit lk w = (Inr (), w') \<and> good w' \<and> holds w' = (if took then (holds w)(lk_key lk := False) else holds w)
    \<and> dirty w' (lk_key lk) = (\<not> took) \<and> (\<forall>k'. k' \<noteq> lk_key lk \<longrightarrow> dirty w' k' = dirty w k')
    \<and> entered_of w' = (entered_of w)(lk_key lk := es) \<and> (\<forall>k'. resource_of w' k' = resource_of w k')"
proof -
  let ?k = "lk_key lk"
  let ?w1 = "w\<lparr>lw_holders := (lw_holders w)(?k := (lw_holders w ?k)\<lparr>h_entered := es\<rparr>)\<rparr>"
  have frame: "same_but_lifetimes w ?w1" by (simp add: same_but_lifetimes_def)
  have g1: "good ?w1" "holds ?w1 = holds w" using framed [OF assms(2) frame] by simp_all
  have f1: "dirty ?w1 ?k" "\<forall>k'. dirty ?w1 k' = dirty w k'" "entered_of ?w1 = (entered_of w)(?k := es)"
      "\<forall>k'. resource_of ?w1 k' = resource_of w k'"
    using assms(4) by (auto simp: dirty_def entered_of_def resource_of_def fun_eq_iff)
  have run: "lock_aexit lk w = (if \<not> took then (Inr (), ?w1)
      else andthen (is_acquired lk) (\<lambda>held. if \<not> held then ret () else lock_release lk) ?w1)"
    using assms(3) f1(1) by (simp add: lock_aexit_def entered_of_def Let_def)
  show ?thesis
  proof (cases took)
    case False
    with run g1 f1 assms(4) show ?thesis by auto
  next
    case True
    obtain w2 where w2: "is_acquired lk ?w1 = (Inr True, w2)" "good w2" "holds w2 = holds w" "only_flag ?k True ?w1 w2"
      using is_acquired_law [OF assms(1) g1(1)] g1(2) assms(5) by auto
    obtain w3 where w3: "lock_release lk w2 = (Inr (), w3)" "good w3" "holds w3 = (holds w)(?k := False)" "only_flag ?k False w2 w3"
      using release_law [OF assms(1) w2(2)] w2(3) by auto
    have "lock_aexit lk w = (Inr (), w3)" using run True w2(1) w3(1) by (simp add: andthen_Inr)
    moreover have "only_flag ?k False ?w1 w3" using only_flag_trans [OF w2(4) w3(4)] .
    ultimately show ?thesis using True w3(2,3) f1 by (auto simp: only_flag_def)
  qed
qed

end

text \<open>What a task does inside: nothing with the lock, another block on it, or one thing after another.\<close>

datatype with_body = Nop | Block with_body | Then with_body with_body

fun run_body :: "nat \<Rightarrow> 'x lock \<Rightarrow> with_body \<Rightarrow> ('x, unit) lock_prog" where
  "run_body fuel lk Nop = ret ()"
| "run_body fuel lk (Block b) =
     andthen (lock_aenter fuel lk) (\<lambda>_. andthen (run_body fuel lk b) (\<lambda>_. lock_aexit lk))"
| "run_body fuel lk (Then b c) = andthen (run_body fuel lk b) (\<lambda>_. run_body fuel lk c)"

context persisting_store
begin

lemma blocks_restore:
  assumes "locks_on lk" and "0 < fuel"
  shows "good w \<Longrightarrow> \<not> rival holds w (lk_key lk) \<Longrightarrow> dirty w (lk_key lk) = holds w (lk_key lk)
    \<Longrightarrow> \<exists>w'. run_body fuel lk b w = (Inr (), w') \<and> good w' \<and> holds w' = holds w
      \<and> dirty w' (lk_key lk) = dirty w (lk_key lk) \<and> (\<forall>k'. dirty w' k' = dirty w k') \<and> entered_of w' = entered_of w
      \<and> (\<forall>k'. resource_of w' k' = resource_of w k')"
proof (induction b arbitrary: w)
  case Nop
  then show ?case by simp
next
  case (Then b c)
  let ?k = "lk_key lk"
  obtain w1 where w1: "run_body fuel lk b w = (Inr (), w1)" "good w1" "holds w1 = holds w" "\<forall>k'. dirty w1 k' = dirty w k'"
      "entered_of w1 = entered_of w" "\<forall>k'. resource_of w1 k' = resource_of w k'"
    using Then.IH(1) [OF Then.prems] by blast
  have "\<not> rival holds w1 ?k" "dirty w1 ?k = holds w1 ?k"
    using Then.prems rival_frame [of w1 w holds ?k] w1 by auto
  from Then.IH(2) [OF w1(2) this] w1 show ?case by (auto simp: andthen_Inr)
next
  case (Block b)
  let ?k = "lk_key lk"
  obtain w1 where w1: "lock_aenter fuel lk w = (Inr (), w1)" "good w1" "holds w1 = (holds w)(?k := True)" "dirty w1 ?k"
      "\<forall>k'. k' \<noteq> ?k \<longrightarrow> dirty w1 k' = dirty w k'" "entered_of w1 = (entered_of w)(?k := entered_of w ?k @ [\<not> dirty w ?k])"
      "\<forall>k'. resource_of w1 k' = resource_of w k'"
    using aenter_free [OF assms(1) Block.prems(1,2) assms(2)] by blast
  have sync: "dirty w1 ?k = holds w1 ?k" using w1(3,4) by simp
  have "\<not> rival holds w1 ?k" using Block.prems(2) w1(3,7) by (auto simp: rival_def)
  then obtain w2 where w2: "run_body fuel lk b w1 = (Inr (), w2)" "good w2" "holds w2 = holds w1" "\<forall>k'. dirty w2 k' = dirty w1 k'"
      "entered_of w2 = entered_of w1" "\<forall>k'. resource_of w2 k' = resource_of w1 k'"
    using Block.IH [OF w1(2) _ sync] by blast
  obtain w3 where w3: "lock_aexit lk w2 = (Inr (), w3)" "good w3"
      "holds w3 = (if \<not> dirty w ?k then (holds w2)(?k := False) else holds w2)" "dirty w3 ?k = dirty w ?k"
      "\<forall>k'. k' \<noteq> ?k \<longrightarrow> dirty w3 k' = dirty w2 k'" "entered_of w3 = (entered_of w2)(?k := entered_of w ?k)"
      "\<forall>k'. resource_of w3 k' = resource_of w2 k'"
    using aexit_law [OF assms(1) w2(2), of "entered_of w ?k" "\<not> dirty w ?k"] w1 w2 by auto
  have "run_body fuel lk (Block b) w = (Inr (), w3)" using w1(1) w2(1) w3(1) by (simp add: andthen_Inr)
  moreover have "holds w3 = holds w" using w3(3) w2(3) w1(3) Block.prems(3) by (auto simp: fun_upd_idem)
  moreover have "entered_of w3 = entered_of w" using w3(6) w2(5) w1(6) by auto
  moreover have "\<forall>k'. dirty w3 k' = dirty w k'" using w3(4,5) w2(4) w1(5) by metis
  ultimately show ?case using w3(2,7) w2(6) w1(7) by auto
qed

end

section \<open>Locks made by a factory\<close>

text \<open>The lock a factory makes for a key; a lifetime, when there is one, is positive.\<close>

definition ttl_ok :: "real option \<Rightarrow> bool" where
  "ttl_ok ttl = (case ttl of None \<Rightarrow> True | Some t \<Rightarrow> 0 < t)"

lemma ttl_ok_default: "ttl_ok (Some DEFAULT_TTL)"
  by (simp add: ttl_ok_def DEFAULT_TTL_def)

lemma factory_fields [simp]:
  "lk_key (create_lock_from_key lf k ttl) = k" "lk_store (create_lock_from_key lf k ttl) = lf_store lf"
  "lk_ttl (create_lock_from_key lf k ttl) = ttl"
  by (simp_all add: create_lock_from_key_def)

lemma mem_locks_on: "lf_store lf = InMemoryStore i \<Longrightarrow> ttl_ok ttl \<Longrightarrow> mem.locks_on i (create_lock_from_key lf k ttl)"
  by (simp add: mem.locks_on_def create_lock_from_key_def InMemoryStore_def ttl_ok_def)

lemma combined_locks_on:
  assumes "ttl_ok ttl"
  shows "lf_store lf = CombinedStore (combined_memory ConsensusStrategy n)
      \<Longrightarrow> majority.combined.locks_on n (create_lock_from_key lf k ttl)"
    and "lf_store lf = CombinedStore (combined_memory UnanimousStrategy n)
      \<Longrightarrow> all_agree.combined.locks_on n (create_lock_from_key lf k ttl)"
  using assms
  unfolding majority.combined.locks_on_def all_agree.combined.locks_on_def
  unfolding combined_memory_eq
  by (simp_all add: create_lock_from_key_def CombinedStore_def ttl_ok_def)

text \<open>
  C6: two locks for one resource, made from two keys over one in-memory store: while the first is held
  the second is refused and knows it, the first still knows it holds; once the first is released the
  second is granted, and the first no longer reports holding it.
\<close>

theorem lock_handover:
  assumes "lf_store lf = InMemoryStore i" and "ttl_ok ttl1" and "ttl_ok ttl2" and "mem_writing w" and "k2 \<noteq> k1"
    and "resource_of w k2 = resource_of w k1"
    and "\<forall>k. resource_of w k = resource_of w k1 \<longrightarrow> \<not> mem_holds i w k"
    and "lk1 = create_lock_from_key lf k1 ttl1" and "lk2 = create_lock_from_key lf k2 ttl2"
  shows "\<exists>w1 w2 w3 w4. acquire fuel lk1 False w = (Inr True, w1) \<and> acquire fuel lk2 False w1 = (Inr False, w2)
    \<and> fst (is_acquired lk1 w2) = Inr True \<and> fst (is_acquired lk2 w2) = Inr False
    \<and> lock_release lk1 w2 = (Inr (), w3) \<and> acquire fuel lk2 False w3 = (Inr True, w4)
    \<and> fst (is_acquired lk1 w4) = Inr False \<and> fst (is_acquired lk2 w4) = Inr True"
  using mem.handover [OF mem_locks_on [OF assms(1,2), of k1] mem_locks_on [OF assms(1,3), of k2] assms(4)] assms(5-9)
  by simp

text \<open>
  the same over several in-memory stores combined under a strategy: the combined store is as good a
  store for a lock as one of its members.
\<close>

theorem combined_lock_handover:
  assumes "lf_store lf = CombinedStore (combined_memory strat n)" and "strat = ConsensusStrategy \<or> strat = UnanimousStrategy"
    and "ttl_ok ttl1" and "ttl_ok ttl2" and "mem_writing w" and "k2 \<noteq> k1" and "resource_of w k2 = resource_of w k1"
    and "\<forall>j i. i \<le> n \<longrightarrow> \<not> mem_holds i w j"
    and "lk1 = create_lock_from_key lf k1 ttl1" and "lk2 = create_lock_from_key lf k2 ttl2"
  shows "\<exists>w1 w2 w3 w4. acquire fuel lk1 False w = (Inr True, w1) \<and> acquire fuel lk2 False w1 = (Inr False, w2)
    \<and> fst (is_acquired lk1 w2) = Inr True \<and> fst (is_acquired lk2 w2) = Inr False
    \<and> lock_release lk1 w2 = (Inr (), w3) \<and> acquire fuel lk2 False w3 = (Inr True, w4)
    \<and> fst (is_acquired lk1 w4) = Inr False \<and> fst (is_acquired lk2 w4) = Inr True"
proof -
  have settled: "mem_family.settled (first_stores n) w"
    using assms(5,8) by (auto simp: mem_family.settled_def)
  have free: "\<forall>k. resource_of w k = resource_of w k1 \<longrightarrow> \<not> mem_family.held (first_stores n) w k"
    using assms(8) by (auto simp: mem_family.held_def)
  from assms(2) show ?thesis
  proof
    assume s: "strat = ConsensusStrategy"
    show ?thesis
      using majority.combined.handover [OF combined_locks_on(1) [OF assms(3), of lf n k1] combined_locks_on(1) [OF assms(4), of lf n k2] settled]
        assms(1,6,7,9,10) free s by simp
  next
    assume s: "strat = UnanimousStrategy"
    show ?thesis
      using all_agree.combined.handover [OF combined_locks_on(2) [OF assms(3), of lf n k1] combined_locks_on(2) [OF assms(4), of lf n k2] settled]
        assms(1,6,7,9,10) free s by simp
  qed
qed

text \<open>
  C33: blocks on one lock nest. A task that enters and leaves \<open>async with\<close> blocks on a lock in any
  nesting ends with the lock exactly as it found it: released if it was not held, still held if it
  was, and no other holder, flag or open block disturbed.
\<close>

theorem with_blocks_nest:
  assumes "lf_store lf = InMemoryStore i" and "ttl_ok ttl" and "mem_writing w" and "\<not> rival (mem_holds i) w k"
    and "dirty w k = mem_holds i w k" and "0 < fuel"
  shows "\<exists>w'. run_body fuel (create_lock_from_key lf k ttl) b w = (Inr (), w') \<and> mem_holds i w' = mem_holds i w
    \<and> (\<forall>k'. dirty w' k' = dirty w k') \<and> entered_of w' = entered_of w"
  using mem.blocks_restore [OF mem_locks_on [OF assms(1,2), of k] assms(6), of w b] assms(3-5) by auto

text \<open>
  C32: a waiting acquire ends. If the sleeps between attempts return, the store stays in order, and the
  resource is free of other holders after \<open>m\<close> of them, then with more than \<open>m\<close> rounds the acquire
  returns with the lock held.
\<close>

theorem waiting_acquire_returns:
  assumes "lf_store lf = InMemoryStore i" and "ttl_ok ttl" and "mem_writing w" and "lk = create_lock_from_key lf k ttl"
    and "w0 = on_key k reset_lifetime w"
    and "\<forall>j \<le> m. mem_writing (mem.waited i j lk w0) \<and> \<not> key_expired (mem.waited i j lk w0) k"
    and "\<forall>j < m. fst (mem.pause lk (snd (mem_save i k (mem.waited i j lk w0)))) = Inr ()"
    and "\<not> rival (mem_holds i) (mem.waited i m lk w0) k" and "m < fuel"
  shows "\<exists>w'. acquire fuel lk True w = (Inr True, w') \<and> mem_writing w' \<and> mem_holds i w' k \<and> dirty w' k"
  using mem.blocking_acquire [OF mem_locks_on [OF assms(1,2), of k] assms(3), of w0 m fuel] assms(4-9) by simp

section \<open>Cancellation and expiry\<close>

text \<open>
  Where a waiting acquire is cancelled: in its attempt number \<open>m\<close>, either while the store was saving or in
  the pause that follows a refusal. The value is the world the cancellation leaves; the attempts before it
  were refused and their pauses ended.
\<close>

definition lock_pause :: "'x lock \<Rightarrow> ('x, unit) lock_prog" where
  "lock_pause lk = andthen (lk_randbelow lk (nat (2 * RETRY_JITTER_MS + 1))) (\<lambda>drawn. lk_sleep lk (retry_delay drawn))"

fun cancelled_at :: "nat \<Rightarrow> 'x lock \<Rightarrow> 'x lock_world \<Rightarrow> 'x lock_world option" where
  "cancelled_at m lk w = (case st_save (lk_store lk) (lk_key lk) w of
      (Inl CancelledError, v) \<Rightarrow> (if m = 0 then Some v else None)
    | (Inl (LockConflictedError _), v) \<Rightarrow> (case (m, lock_pause lk v) of
          (0, Inl CancelledError, v') \<Rightarrow> Some v'
        | (Suc m', Inr _, v') \<Rightarrow> cancelled_at m' lk v'
        | _ \<Rightarrow> None)
    | _ \<Rightarrow> None)"

declare cancelled_at.simps [simp del]

lemma wait_loop_cancelled:
  assumes "cancelled_at m lk w = Some v" and "m < fuel"
  shows "wait_loop fuel lk (st_save (lk_store lk) (lk_key lk)) w = (Inl CancelledError, v)"
  using assms
proof (induction m arbitrary: w fuel)
  case 0
  then show ?case
    by (cases fuel; cases "lk_randbelow lk (nat (2 * RETRY_JITTER_MS + 1)) (snd (st_save (lk_store lk) (lk_key lk) w))")
      (auto simp: cancelled_at.simps [of 0] catch_def andthen_def lock_pause_def split: prod.splits sum.splits lock_error.splits)
next
  case (Suc m)
  obtain f where f: "fuel = Suc f" "m < f" using Suc.prems(2) by (cases fuel) auto
  obtain r v1 v2 where save: "st_save (lk_store lk) (lk_key lk) w = (Inl (LockConflictedError r), v1)"
      and pause: "lock_pause lk v1 = (Inr (), v2)" and rest: "cancelled_at m lk v2 = Some v"
    using Suc.prems(1) by (auto simp: cancelled_at.simps [of "Suc m"] split: prod.splits sum.splits lock_error.splits)
  from pause obtain drawn u where "lk_randbelow lk (nat (2 * RETRY_JITTER_MS + 1)) v1 = (Inr drawn, u)"
      "lk_sleep lk (retry_delay drawn) u = (Inr (), v2)"
    unfolding lock_pause_def by (erule andthen_InrE)
  with save Suc.IH [OF rest f(2)] f(1) show ?case by (simp add: catch_def andthen_Inr)
qed

text \<open>A store beside the in-memory ones: letting go of a key in it fails at most with an exception, and disturbs none of them.\<close>

definition keeps_apart :: "'x store_ops \<Rightarrow> nat \<Rightarrow> bool" where
  "keeps_apart st k \<longleftrightarrow> (\<forall>v. mem_writing v \<longrightarrow> (case st_delete st k v of (r, v') \<Rightarrow>
      (case r of Inl e \<Rightarrow> is_exception e | Inr _ \<Rightarrow> True) \<and> mem_writing v' \<and> kept v v' \<and> (\<forall>i. mem_holds i v' = mem_holds i v)))"

lemma delete_all_append:
  "delete_all (xs @ ys) k w = (case delete_all xs k w of (Inl e, w') \<Rightarrow> (Inl e, w') | (Inr u, w') \<Rightarrow> delete_all ys k w')"
  by (induction xs arbitrary: w) (auto split: prod.split sum.split)

lemma delete_apart:
  assumes "\<forall>st\<in>set others. keeps_apart st k" and "mem_writing w"
  shows "\<exists>w'. delete_all others k w = (Inr (), w') \<and> mem_writing w' \<and> kept w w' \<and> (\<forall>i. mem_holds i w' = mem_holds i w)"
  using assms
proof (induction others arbitrary: w)
  case Nil
  then show ?case by simp
next
  case (Cons st others)
  obtain r v where v: "st_delete st k w = (r, v)" by (metis surj_pair)
  then have ok: "case r of Inl e \<Rightarrow> is_exception e | Inr _ \<Rightarrow> True" "mem_writing v" "kept w v" "\<forall>i. mem_holds i v = mem_holds i w"
    using Cons.prems unfolding keeps_apart_def by (auto split: prod.splits)
  obtain w' where "delete_all others k v = (Inr (), w')" "mem_writing w'" "kept v w'" "\<forall>i. mem_holds i w' = mem_holds i v"
    using Cons.IH [OF _ ok(2)] Cons.prems(1) by auto
  with v ok kept_trans [of w v w'] show ?case by (auto split: sum.splits)
qed

text \<open>
  C34: a waiting acquire that is cancelled, by a timeout say, takes back what the stores kept for it. The
  lock is kept in any number of in-memory stores combined, under either strategy, alone or with other stores
  beside them; its attempts are refused, and the cancellation reaches it in the pause after one of them
  or while the combined store is saving, when some of the stores may have kept the lock already. The caller
  hears the cancellation, and none of the in-memory stores holds the lock for the key afterwards, no hold
  of another key being disturbed, unless the holder had the lock before it began: then nothing is let go.
\<close>

theorem cancelled_acquire_takes_back:
  assumes "lk_store lk = CombinedStore \<lparr>co_stores = map InMemoryStore (first_stores n) @ others, co_strategy = strat\<rparr>"
    and "\<forall>st\<in>set others. keeps_apart st (lk_key lk)"
    and "cancelled_at m lk (on_key (lk_key lk) reset_lifetime w) = Some v" and "mem_writing v" and "m < fuel"
  shows "\<exists>w'. acquire fuel lk True w = (Inl CancelledError, w')
    \<and> (\<forall>i \<le> n. mem_holds i w' = (if dirty w (lk_key lk) then mem_holds i v else (mem_holds i v)(lk_key lk := False)))
    \<and> (\<not> dirty w (lk_key lk) \<longrightarrow> \<not> dirty w' (lk_key lk))"
proof -
  let ?k = "lk_key lk"
  have wait: "lock_wait_and_save fuel lk (on_key ?k reset_lifetime w) = (Inl CancelledError, v)"
    using wait_loop_cancelled [OF assms(3,5)] assms(1) by (simp add: lock_wait_and_save_def CombinedStore_def)
  show ?thesis
  proof (cases "dirty w ?k")
    case True
    then have "acquire fuel lk True w = (Inl CancelledError, v)"
      using wait by (simp add: acquire_def lock_take_def catch_def andthen_def Let_def)
    with True show ?thesis by auto
  next
    case False
    let ?v = "set_dirty ?k False v"
    have v: "mem_writing ?v" "mem_holds i ?v = mem_holds i v" for i
      using mem.frame_good [OF assms(4)] by simp_all
    obtain v1 where v1: "delete_all (map InMemoryStore (first_stores n)) ?k ?v = (Inr (), v1)" "mem_writing v1" "kept ?v v1"
        "\<forall>i. mem_holds i v1 = (if i \<in> set (first_stores n) then (mem_holds i ?v)(?k := False) else mem_holds i ?v)"
      using mem_family.delete_all_family [OF v(1), of "first_stores n" ?k] by blast
    obtain w' where w': "delete_all others ?k v1 = (Inr (), w')" "kept v1 w'" "\<forall>i. mem_holds i w' = mem_holds i v1"
      using delete_apart [OF assms(2) v1(2)] by blast
    have "st_delete (lk_store lk) ?k ?v = (Inr (), w')"
      using v1(1) w'(1) assms(1) by (simp add: CombinedStore_def combined_delete_def delete_all_append)
    then have "acquire fuel lk True w = (Inl CancelledError, w')"
      using False wait by (simp add: acquire_def lock_take_def abandon_def catch_def andthen_def Let_def)
    moreover have "\<not> dirty w' ?k" using kept_dirty [OF v1(3)] kept_dirty [OF w'(2)] by simp
    ultimately show ?thesis using False v1(4) w'(3) v(2) by auto
  qed
qed

text \<open>
  a lock whose lifetime ran out while it was being taken is not returned as held: the acquire
  lets it go again and raises the expiry, which says the resource, whatever happened while letting go.
\<close>

theorem expired_acquire_lets_go:
  assumes "st_save (lk_store lk) (lk_key lk) (on_key (lk_key lk) reset_lifetime w) = (Inr (), w1)"
    and "lk_ttl lk = None" and "key_expired w1 (lk_key lk)" and "mem_writing w1"
    and "st_delete (lk_store lk) = mem_delete i" and "st_exists (lk_store lk) = mem_exists i"
  shows "\<exists>w'. acquire fuel lk False w = (Inl (LockExpiredError (resource_of w1 (lk_key lk))), w')
    \<and> mem_holds i w' = (mem_holds i w1)(lk_key lk := False) \<and> \<not> dirty w' (lk_key lk)"
proof -
  let ?k = "lk_key lk"
  let ?w2 = "set_dirty ?k True w1"
  have f: "mem_writing ?w2" "mem_holds i ?w2 = mem_holds i w1"
    using mem.frame_good [OF assms(4)] by simp_all
  obtain w3 where w3: "mem_delete i ?k ?w2 = (Inr (), w3)" "mem_writing w3" "kept ?w2 w3"
      "mem_holds i w3 = (mem_holds i w1)(?k := False)"
    using mem_delete_law [OF f(1), of i ?k] f(2) by auto
  let ?w4 = "set_dirty ?k False w3"
  have f4: "mem_writing ?w4" "mem_holds i ?w4 = (mem_holds i w1)(?k := False)"
    using mem.frame_good [OF w3(2)] w3(4) by simp_all
  have "mem_good ?w4" using f4(1) by (simp add: mem_writing_def)
  from mem_exists_law [OF this, of i ?k i] f4(2) have e:
      "mem_exists i ?k ?w4 = (Inr False, with_token ?k ?w4)" "mem_holds i (with_token ?k ?w4) = (mem_holds i w1)(?k := False)"
    by simp_all
  have release: "lock_release lk ?w2 = (Inr (), with_token ?k ?w4)"
    using assms(5,6) w3(1) e(1)
    by (simp add: lock_release_def lock_delete_def fail_if_still_held_def catch_def andthen_def)
  have "resource_of w3 ?k = resource_of w1 ?k" using kept_resource [OF w3(3), of ?k] by simp
  then have "fail_if_expired lk ?w2 = (Inl (LockExpiredError (resource_of w1 ?k)), with_token ?k ?w4)"
    using assms(3) release by (simp add: fail_if_expired_def catch_def andthen_def raise_for_def)
  then have "acquire fuel lk False w = (Inl (LockExpiredError (resource_of w1 ?k)), with_token ?k ?w4)"
    using assms(1,2) by (simp add: acquire_def lock_take_def lock_settle_def catch_def andthen_def Let_def)
  moreover have "\<not> dirty (with_token ?k ?w4) ?k"
    using kept_dirty [OF with_token_kept, of ?k ?w4 ?k] by simp
  ultimately show ?thesis using e(2) by auto
qed

section \<open>Worked examples\<close>

definition shop :: "'x store_ops \<Rightarrow> (real \<Rightarrow> ('x, unit) lock_prog) \<Rightarrow> 'x lock_factory" where
  "shop st sleep = \<lparr>lf_store = st, lf_randbelow = (\<lambda>n. ret 0), lf_sleep = sleep\<rparr>"

lemma shop_fields [simp]: "lf_store (shop st sleep) = st" "lf_sleep (shop st sleep) = sleep" "lf_randbelow (shop st sleep) n = ret 0"
  by (simp_all add: shop_def)

lemma empty_holds: "mem_holds i empty_world k = False"
  by (simp add: mem_holds_def empty_world_def Key_init_def get_state_def)

lemma empty_resource: "resource_of empty_world k = ''r''"
  by (simp add: resource_of_def empty_world_def Key_init_def)

lemma ttl_ok_None: "ttl_ok None"
  by (simp add: ttl_ok_def)

theorem lock_handover_witness:
  "\<exists>w1 w2. acquire 0 (create_lock_from_key (shop (InMemoryStore 0) (\<lambda>_. ret ())) 1 None) False empty_world = (Inr True, w1)
     \<and> acquire 0 (create_lock_from_key (shop (InMemoryStore 0) (\<lambda>_. ret ())) 2 (Some DEFAULT_TTL)) False w1 = (Inr False, w2)"
  using lock_handover [of "shop (InMemoryStore 0) (\<lambda>_. ret ())" 0, OF _ ttl_ok_None ttl_ok_default empty_world_writing, of 2 1 _ _ 0]
    empty_holds empty_resource by fastforce

theorem combined_lock_handover_witness:
  "\<exists>w1 w2. acquire 0 (create_lock_from_key (shop (CombinedStore (combined_memory ConsensusStrategy 2)) (\<lambda>_. ret ())) 1 None) False
       empty_world = (Inr True, w1)
     \<and> acquire 0 (create_lock_from_key (shop (CombinedStore (combined_memory ConsensusStrategy 2)) (\<lambda>_. ret ())) 2
         (Some DEFAULT_TTL)) False w1 = (Inr False, w2)"
  using combined_lock_handover [of "shop (CombinedStore (combined_memory ConsensusStrategy 2)) (\<lambda>_. ret ())" ConsensusStrategy 2,
      OF _ _ ttl_ok_None ttl_ok_default empty_world_writing, of 2 1 _ _ 0]
    empty_holds empty_resource by fastforce

theorem with_blocks_nest_witness:
  "\<exists>w'. run_body 1 (create_lock_from_key (shop (InMemoryStore 0) (\<lambda>_. ret ())) 1 None) (Block (Then (Block Nop) (Block Nop)))
     empty_world = (Inr (), w') \<and> \<not> mem_holds 0 w' 1"
proof -
  have "\<not> rival (mem_holds 0) empty_world 1" by (simp add: rival_def empty_holds)
  moreover have "dirty empty_world 1 = mem_holds 0 empty_world 1"
    by (simp add: empty_holds) (simp add: dirty_def empty_world_def)
  ultimately show ?thesis
    using with_blocks_nest [of "shop (InMemoryStore 0) (\<lambda>_. ret ())" 0, OF _ ttl_ok_None empty_world_writing, of 1 1
        "Block (Then (Block Nop) (Block Nop))"]
    by (auto simp: empty_holds)
qed

text \<open>Key 1 holds the resource, and lets it go while key 0 sleeps for the first time.\<close>

theorem waiting_acquire_returns_witness:
  "\<exists>w'. acquire 2 (create_lock_from_key (shop (InMemoryStore 0) (\<lambda>_. mem_delete 0 1)) 0 None) True
     (snd (mem_save 0 1 empty_world)) = (Inr True, w') \<and> mem_holds 0 w' 0"
proof -
  let ?lk = "create_lock_from_key (shop (InMemoryStore 0) (\<lambda>_. mem_delete 0 1)) 0 None :: unit lock"
  define w where "w = snd (mem_save 0 1 empty_world)"
  define r where "r = on_key 0 reset_lifetime w"
  have w: "mem_writing w" "mem_holds 0 w = (mem_holds 0 empty_world)(1 := True)"
    using mem_save_law [OF empty_world_writing, of 0 1] by (auto simp: rival_def empty_holds w_def)
  have w0: "mem_writing r" "mem_holds 0 r = mem_holds 0 w" "\<not> key_expired r 0"
    unfolding r_def using mem.frame_good(3,4) [OF w(1)] by simp_all
  let ?w1 = "snd (mem_save 0 0 r)"
  have w1: "mem_writing ?w1" "kept r ?w1" "\<forall>k. k > 1 \<longrightarrow> \<not> mem_holds 0 ?w1 k"
    using mem_save_law [OF w0(1), of 0 0] w0(2) w(2) by (auto simp: empty_holds split: if_splits)
  obtain w2 where w2: "mem_delete 0 1 ?w1 = (Inr (), w2)" "mem_writing w2" "kept ?w1 w2" "mem_holds 0 w2 = (mem_holds 0 ?w1)(1 := False)"
    using mem_delete_law [OF w1(1), of 0 1] by blast
  have pause: "mem.pause ?lk ?w1 = (Inr (), w2)"
    using w2(1) by (simp add: mem.pause_def create_lock_from_key_def)
  have waited: "mem.waited 0 0 ?lk r = r" "mem.waited 0 1 ?lk r = w2"
    using pause by (simp_all add: create_lock_from_key_def)
  have "\<not> key_expired w2 0" using w0(3) kept_expired [OF w1(2)] kept_expired [OF w2(3)] by simp
  then have "\<forall>j \<le> 1. mem_writing (mem.waited 0 j ?lk r) \<and> \<not> key_expired (mem.waited 0 j ?lk r) 0"
    using waited w0 w2(2) by (metis le_antisym less_one not_le)
  moreover have "\<forall>j < 1. fst (mem.pause ?lk (snd (mem_save 0 0 (mem.waited 0 j ?lk r)))) = Inr ()"
    using pause waited(1) by simp
  moreover have "\<not> rival (mem_holds 0) (mem.waited 0 1 ?lk r) 0"
  proof -
    have "\<not> mem_holds 0 w2 k" if "k \<noteq> 0" for k
      using that w1(3) w2(4) by (cases "k = 1") auto
    then show ?thesis unfolding waited(2) by (auto simp: rival_def)
  qed
  ultimately show ?thesis
    using waiting_acquire_returns [of "shop (InMemoryStore 0) (\<lambda>_. mem_delete 0 1)" 0 None w ?lk 0 r 1 2] w(1) ttl_ok_None
    by (auto simp: r_def w_def)
qed

text \<open>A store in which the timeout strikes while it saves, and which had kept nothing.\<close>

definition times_out :: "unit store_ops" where
  "times_out = NullStore\<lparr>st_save := (\<lambda>k. raise CancelledError)\<rparr>"

lemma times_out_apart: "keeps_apart times_out k"
  by (simp add: keeps_apart_def times_out_def NullStore_def null_delete_def kept_refl)

definition waiting_lock :: "unit store_ops list \<Rightarrow> (real \<Rightarrow> (unit, unit) lock_prog) \<Rightarrow> unit lock" where
  "waiting_lock others sleep = create_lock_from_key (shop (CombinedStore
     \<lparr>co_stores = map InMemoryStore (first_stores 0) @ others, co_strategy = UnanimousStrategy\<rparr>) sleep) 0 None"

text \<open>
  Key 1 holds the one store and key 0 waits until the timeout strikes in its pause; and, of two stores, the
  first keeps the lock for key 0 before the timeout strikes in the second.
\<close>

theorem cancelled_acquire_takes_back_witness:
  "(\<exists>w'. acquire 1 (waiting_lock [] (\<lambda>_. raise CancelledError)) True (snd (mem_save 0 1 empty_world)) = (Inl CancelledError, w')
      \<and> mem_holds 0 w' 1 \<and> \<not> mem_holds 0 w' 0)
    \<and> (\<exists>w' v. cancelled_at 0 (waiting_lock [times_out] (\<lambda>_. ret ())) (on_key 0 reset_lifetime empty_world) = Some v \<and> mem_holds 0 v 0
      \<and> acquire 1 (waiting_lock [times_out] (\<lambda>_. ret ())) True empty_world = (Inl CancelledError, w') \<and> \<not> mem_holds 0 w' 0)"
proof (intro conjI)
  let ?lk = "waiting_lock [] (\<lambda>_. raise CancelledError)"
  define w where "w = snd (mem_save 0 1 (empty_world :: unit lock_world))"
  define r where "r = on_key 0 reset_lifetime w"
  have w: "mem_writing w" "mem_holds 0 w = (mem_holds 0 empty_world)(1 := True)" "kept empty_world w"
    using mem_save_law [OF empty_world_writing, of 0 1] by (auto simp: rival_def empty_holds w_def)
  have r: "mem_writing r" "mem_holds 0 r = (mem_holds 0 empty_world)(1 := True)" "\<not> key_expired r 0"
    unfolding r_def using mem.frame_good(3,4) [OF w(1)] w(2) by simp_all
  have settled: "mem_family.settled (first_stores 0) r" "mem_family.held (first_stores 0) r = mem_holds 0 r"
    using r(1) by (simp_all add: mem_family.settled_def mem_family.held_def fun_eq_iff)
  have "resource_of r 1 = resource_of r 0" using kept_resource [OF w(3)] by (simp add: r_def empty_resource)
  then have "rival (mem_family.held (first_stores 0)) r 0" using r(2) by (auto simp: rival_def settled(2) intro!: exI [of _ 1])
  then obtain v where v: "combined_save (combined_memory UnanimousStrategy 0) 0 r = (Inl (LockConflictedError (resource_of r 0)), v)"
      "mem_family.settled (first_stores 0) v" "mem_family.held (first_stores 0) v = mem_holds 0 r"
    using all_agree.combined.save_taken [OF settled(1) r(3)] settled(2) unfolding combined_memory_eq by auto
  have holds: "mem_writing v" "mem_holds 0 v = mem_holds 0 r"
    using v(2,3) by (auto simp: mem_family.settled_def mem_family.held_def fun_eq_iff)
  have "st_save (lk_store ?lk) 0 r = (Inl (LockConflictedError (resource_of r 0)), v)"
    using v(1) by (simp add: waiting_lock_def create_lock_from_key_def CombinedStore_def combined_memory_def)
  then have "cancelled_at 0 ?lk r = Some v"
    by (simp add: cancelled_at.simps waiting_lock_def create_lock_from_key_def lock_pause_def)
  then obtain w' where "acquire 1 ?lk True w = (Inl CancelledError, w')"
      "\<forall>i \<le> 0. mem_holds i w' = (if dirty w 0 then mem_holds i v else (mem_holds i v)(0 := False))"
    using cancelled_acquire_takes_back [of ?lk 0 "[]" UnanimousStrategy 0 w v 1] holds(1)
    by (auto simp: waiting_lock_def create_lock_from_key_def r_def)
  then show "\<exists>w'. acquire 1 ?lk True (snd (mem_save 0 1 empty_world)) = (Inl CancelledError, w') \<and> mem_holds 0 w' 1 \<and> \<not> mem_holds 0 w' 0"
    unfolding w_def [symmetric] using holds(2) r(2) by (auto simp: empty_holds)
next
  let ?lk = "waiting_lock [times_out] (\<lambda>_. ret ())"
  define r where "r = on_key 0 reset_lifetime (empty_world :: unit lock_world)"
  have r: "mem_writing r" "mem_holds 0 r = mem_holds 0 empty_world" "\<not> key_expired r 0"
    unfolding r_def using mem.frame_good(3,4) [OF empty_world_writing] by simp_all
  obtain v where v: "mem_save 0 0 r = (Inr (), v)" "mem_writing v" "mem_holds 0 v 0"
    using mem_save_law [OF r(1), of 0 0] r(2) by (auto simp: rival_def empty_holds)
  have "st_save (lk_store ?lk) 0 r = (Inl CancelledError, v)"
    using v(1) by (simp add: waiting_lock_def create_lock_from_key_def CombinedStore_def combined_save_def combined_take_def andthen_def
        InMemoryStore_def times_out_def UnanimousStrategy_def unanimous_can_be_met_def first_stores_def)
  then have cancelled: "cancelled_at 0 ?lk r = Some v"
    by (simp add: cancelled_at.simps waiting_lock_def create_lock_from_key_def)
  have "\<not> dirty empty_world 0" by (simp add: dirty_def empty_world_def)
  then obtain w' where acq: "acquire 1 ?lk True empty_world = (Inl CancelledError, w')"
      and held: "\<forall>i \<le> 0. mem_holds i w' = (mem_holds i v)(0 := False)"
    using cancelled_acquire_takes_back [of ?lk 0 "[times_out]" UnanimousStrategy 0 empty_world v 1] v(2) cancelled times_out_apart
    by (auto simp: waiting_lock_def create_lock_from_key_def r_def)
  have gone: "\<not> mem_holds 0 w' 0" using held by simp
  show "\<exists>w' v. cancelled_at 0 ?lk (on_key 0 reset_lifetime empty_world) = Some v \<and> mem_holds 0 v 0
      \<and> acquire 1 ?lk True empty_world = (Inl CancelledError, w') \<and> \<not> mem_holds 0 w' 0"
    unfolding r_def [symmetric] by (intro exI [of _ w'] exI [of _ v] conjI cancelled v(3) acq gone)
qed

theorem expired_acquire_lets_go_witness:
  "\<exists>w'. acquire 0 (create_lock_from_key (shop ((InMemoryStore 0)\<lparr>st_save := (\<lambda>k w. (Inr (),
       on_key k (reduce_lifetime (lw_now w) 0) (snd (mem_save 0 k w))))\<rparr>) (\<lambda>_. ret ())) 0 None) False empty_world
     = (Inl (LockExpiredError ''r''), w') \<and> \<not> mem_holds 0 w' 0"
proof -
  let ?lk = "create_lock_from_key (shop ((InMemoryStore 0)\<lparr>st_save := (\<lambda>k w. (Inr (),
       on_key k (reduce_lifetime (lw_now w) 0) (snd (mem_save 0 k w))))\<rparr>) (\<lambda>_. ret ())) 0 None :: unit lock"
  let ?w0 = "on_key 0 reset_lifetime empty_world"
  let ?s = "snd (mem_save 0 0 ?w0)"
  let ?w1 = "on_key 0 (reduce_lifetime (lw_now ?w0) 0) ?s"
  have s: "mem_writing ?s" "kept ?w0 ?s"
    using mem_save_law [OF mem.frame_good(3) [OF empty_world_writing], of 0 0 0] by auto
  have e: "k_expiring (lw_keys ?s 0) = None" "lw_now ?s = lw_now ?w0" "resource_of ?s 0 = ''r''"
    using s(2) kept_resource [OF s(2), of 0] by (simp_all add: kept_def empty_resource)
  have "same_but_lifetimes ?s ?w1"
    by (simp add: same_but_lifetimes_def reduce_lifetime_def Let_def split: option.splits)
  with mem.framed [OF s(1)] have "mem_writing ?w1" by blast
  moreover have "key_expired ?w1 0" "resource_of ?w1 0 = ''r''"
    using e by (simp_all add: key_expired_def is_expired_def reduce_lifetime_def resource_of_def)
  ultimately show ?thesis
    using expired_acquire_lets_go [of ?lk empty_world ?w1 0 0]
    by (auto simp: InMemoryStore_def)
qed

end
