(* ===== verification/Limiter_State.thy ===== *)
theory Limiter_State
  imports Prelude
begin

text \<open>
  Package xtr-rate-limiter, its states: the fixed window, the calendar window, the sliding window and
  the token bucket (\<open>policy/window.py\<close>, \<open>policy/calendar_aligned_window.py\<close>, \<open>policy/sliding_window.py\<close>,
  \<open>policy/token_bucket.py\<close>), and the storage that keeps them (\<open>storage/in_memory_storage.py\<close>). Instants
  and spans are reals: the rounding of floating point is left out. A hit count is an \<open>int\<close>.
\<close>

section \<open>The fixed window\<close>

record window =
  wi_id :: string
  wi_interval :: real
  wi_max_size :: int
  wi_timer :: real
  wi_hit_count :: int
  wi_expires_at :: real

definition Window_init :: "string \<Rightarrow> real \<Rightarrow> int \<Rightarrow> real \<Rightarrow> window" where
  "Window_init state_id interval window_size timer =
     \<lparr>wi_id = state_id, wi_interval = interval, wi_max_size = window_size, wi_timer = timer,
      wi_hit_count = 0, wi_expires_at = timer + interval\<rparr>"

text \<open>\<open>int(elapsed / interval)\<close> of a span that is not negative is its floor.\<close>

definition carried_hit_count :: "window \<Rightarrow> real \<Rightarrow> int" where
  "carried_hit_count w now =
     (let elapsed = now - wi_timer w
      in if elapsed < wi_interval w then wi_hit_count w
         else let windows_elapsed = \<lfloor>elapsed / wi_interval w\<rfloor>
              in max 0 (wi_hit_count w - windows_elapsed * wi_max_size w))"

definition window_add :: "int \<Rightarrow> real \<Rightarrow> window \<Rightarrow> window" where
  "window_add hits now w =
     (let w1 = (if now - wi_timer w \<ge> wi_interval w
                then w\<lparr>wi_hit_count := carried_hit_count w now, wi_timer := now\<rparr> else w);
          count = max 0 (wi_hit_count w1 + hits);
          windows = max 1 \<lceil>real_of_int count / real_of_int (wi_max_size w1)\<rceil>
      in w1\<lparr>wi_hit_count := count, wi_expires_at := now + wi_interval w1 * real_of_int windows\<rparr>)"

definition window_available_tokens :: "window \<Rightarrow> real \<Rightarrow> int" where
  "window_available_tokens w now = wi_max_size w - carried_hit_count w now"

definition window_availability_time :: "window \<Rightarrow> int \<Rightarrow> real \<Rightarrow> real" where
  "window_availability_time w tokens now =
     (if wi_max_size w - wi_hit_count w \<ge> tokens then now
      else let in_window = \<lceil>real_of_int (wi_hit_count w + tokens) / real_of_int (wi_max_size w)\<rceil> - 1
           in wi_timer w + wi_interval w * real_of_int in_window)"

definition window_time_for_tokens :: "window \<Rightarrow> int \<Rightarrow> real \<Rightarrow> real" where
  "window_time_for_tokens w tokens now = max 0 (window_availability_time w tokens now - now)"

section \<open>The calendar window\<close>

record calendar_window =
  cw_id :: string
  cw_max_size :: int
  cw_period_start :: real
  cw_period_end :: real
  cw_hit_count :: int

definition CalendarAlignedWindow_init :: "string \<Rightarrow> int \<Rightarrow> real \<Rightarrow> real \<Rightarrow> calendar_window" where
  "CalendarAlignedWindow_init state_id max_size period_start period_end =
     \<lparr>cw_id = state_id, cw_max_size = max_size, cw_period_start = period_start,
      cw_period_end = period_end, cw_hit_count = 0\<rparr>"

definition calendar_add :: "int \<Rightarrow> calendar_window \<Rightarrow> calendar_window" where
  "calendar_add hits w = w\<lparr>cw_hit_count := max 0 (cw_hit_count w + hits)\<rparr>"

definition calendar_available_tokens :: "calendar_window \<Rightarrow> int" where
  "calendar_available_tokens w = cw_max_size w - cw_hit_count w"

definition calendar_availability_time :: "calendar_window \<Rightarrow> int \<Rightarrow> real \<Rightarrow> real" where
  "calendar_availability_time w tokens now =
     (if cw_max_size w - cw_hit_count w \<ge> tokens then now else cw_period_end w)"

definition calendar_time_for_tokens :: "calendar_window \<Rightarrow> int \<Rightarrow> real \<Rightarrow> real" where
  "calendar_time_for_tokens w tokens now = max 0 (calendar_availability_time w tokens now - now)"

section \<open>The sliding window\<close>

datatype limiter_error =
    NegativeTokensAsked int
  | TooManyTokensAsked int int
  | LimitBelowOne int
  | AnchorNeedsMonths
  | IntervalNotPositive
  | RateBelowOne int
  | NoLimiters
  | ReserveNotSupportedError
  | LockFailure nat

record sliding_window =
  sl_id :: string
  sl_interval :: real
  sl_hit_count :: int
  sl_last :: int
  sl_window_end_at :: real

definition SlidingWindow_init :: "string \<Rightarrow> real \<Rightarrow> real \<Rightarrow> limiter_error + sliding_window" where
  "SlidingWindow_init state_id interval now =
     (if interval \<le> 0 then Inl IntervalNotPositive
      else Inr \<lparr>sl_id = state_id, sl_interval = interval, sl_hit_count = 0, sl_last = 0,
                sl_window_end_at = now + interval\<rparr>)"

definition from_previous_window :: "sliding_window \<Rightarrow> real \<Rightarrow> real \<Rightarrow> limiter_error + sliding_window" where
  "from_previous_window w interval now =
     (case SlidingWindow_init (sl_id w) interval now of
        Inl e \<Rightarrow> Inl e
      | Inr new \<Rightarrow>
          let window_end_at = sl_window_end_at w + interval
          in Inr (if now < window_end_at
                  then new\<lparr>sl_last := sl_hit_count w, sl_window_end_at := window_end_at\<rparr> else new))"

definition sliding_is_expired :: "sliding_window \<Rightarrow> real \<Rightarrow> bool" where
  "sliding_is_expired w now = (now > sl_window_end_at w)"

definition sliding_add :: "int \<Rightarrow> sliding_window \<Rightarrow> sliding_window" where
  "sliding_add hits w = w\<lparr>sl_hit_count := max 0 (sl_hit_count w + hits)\<rparr>"

definition sliding_hit_count :: "sliding_window \<Rightarrow> real \<Rightarrow> int" where
  "sliding_hit_count w now =
     (let start_of_window = sl_window_end_at w - sl_interval w;
          percent = min ((now - start_of_window) / sl_interval w) 1
      in \<lfloor>real_of_int (sl_last w) * (1 - percent) + real_of_int (sl_hit_count w)\<rfloor>)"

definition full_capacity_time :: "sliding_window \<Rightarrow> real \<Rightarrow> real" where
  "full_capacity_time w now =
     (if sl_hit_count w \<noteq> 0
      then sl_window_end_at w + sl_interval w * (1 - 1 / real_of_int (sl_hit_count w))
      else if sl_last w \<noteq> 0 then sl_window_end_at w - sl_interval w / real_of_int (sl_last w)
      else now)"

definition sliding_time_for_tokens :: "sliding_window \<Rightarrow> int \<Rightarrow> int \<Rightarrow> real \<Rightarrow> real" where
  "sliding_time_for_tokens w max_size tokens now =
     (let remaining = max_size - sliding_hit_count w now
      in if remaining \<ge> tokens then 0
         else let start_of_window = sl_window_end_at w - sl_interval w;
                  time_passed = now - start_of_window;
                  window_passed = min (time_passed / sl_interval w) 1;
                  releasable = max 1 (max_size - \<lfloor>real_of_int (sl_last w) * (1 - window_passed)\<rfloor>);
                  remaining_window = sl_interval w - time_passed;
                  needed = tokens - remaining
              in if releasable \<ge> needed
                 then real_of_int needed * (remaining_window / real_of_int (max 1 releasable))
                 else (sl_window_end_at w - now)
                        + real_of_int (needed - releasable) * (sl_interval w / real_of_int max_size))"

section \<open>The token bucket\<close>

record token_bucket =
  tb_id :: string
  tb_tokens :: int
  tb_burst_size :: int
  tb_cycle :: real
  tb_amount :: int
  tb_timer :: real
  tb_expires_at :: real

definition bucket_time_for_tokens :: "token_bucket \<Rightarrow> int \<Rightarrow> real" where
  "bucket_time_for_tokens b tokens = real_of_int \<lceil>real_of_int tokens / real_of_int (tb_amount b)\<rceil> * tb_cycle b"

definition TokenBucket_init ::
  "string \<Rightarrow> int \<Rightarrow> real \<Rightarrow> int \<Rightarrow> real \<Rightarrow> limiter_error + token_bucket" where
  "TokenBucket_init state_id initial_tokens cycle amount timer =
     (if initial_tokens < 1 then Inl (LimitBelowOne initial_tokens)
      else let b = \<lparr>tb_id = state_id, tb_tokens = initial_tokens, tb_burst_size = initial_tokens,
                    tb_cycle = cycle, tb_amount = amount, tb_timer = timer, tb_expires_at = 0\<rparr>
           in Inr (b\<lparr>tb_expires_at := timer + bucket_time_for_tokens b initial_tokens\<rparr>))"

definition bucket_cycles :: "token_bucket \<Rightarrow> real \<Rightarrow> int" where
  "bucket_cycles b now = \<lfloor>max 0 (now - tb_timer b) / tb_cycle b\<rfloor>"

definition set_tokens :: "int \<Rightarrow> real \<Rightarrow> token_bucket \<Rightarrow> token_bucket" where
  "set_tokens tokens now b =
     (let b1 = b\<lparr>tb_timer := tb_timer b + real_of_int (bucket_cycles b now) * tb_cycle b, tb_tokens := tokens\<rparr>;
          owed = max (tb_burst_size b1) (tb_burst_size b1 - tokens)
      in b1\<lparr>tb_expires_at := now + bucket_time_for_tokens b1 owed\<rparr>)"

definition bucket_available_tokens :: "token_bucket \<Rightarrow> real \<Rightarrow> int" where
  "bucket_available_tokens b now = min (tb_burst_size b) (tb_tokens b + bucket_cycles b now * tb_amount b)"

section \<open>The in-memory storage\<close>

datatype limiter_state =
    WindowState window
  | CalendarState calendar_window
  | SlidingState sliding_window
  | BucketState token_bucket

fun state_id :: "limiter_state \<Rightarrow> string" where
  "state_id (WindowState w) = wi_id w"
| "state_id (CalendarState w) = cw_id w"
| "state_id (SlidingState w) = sl_id w"
| "state_id (BucketState b) = tb_id b"

fun state_expires_at :: "limiter_state \<Rightarrow> real option" where
  "state_expires_at (WindowState w) = Some (wi_expires_at w)"
| "state_expires_at (CalendarState w) = Some (cw_period_end w)"
| "state_expires_at (SlidingState w) = Some (sl_window_end_at w + sl_interval w)"
| "state_expires_at (BucketState b) = Some (tb_expires_at b)"

definition PRUNE_EVERY :: nat where "PRUNE_EVERY = 1000"

text \<open>The storage and the clock it reads. A state is copied in and out: here states are values.\<close>

record storage_world =
  st_states :: "(string, real option \<times> limiter_state) dict"
  st_saves :: nat
  st_now :: real

type_synonym 'a limiter_prog = "(storage_world, limiter_error, 'a) prog"

definition past :: "real option \<Rightarrow> real \<Rightarrow> bool" where
  "past expires_at now = (case expires_at of None \<Rightarrow> False | Some t \<Rightarrow> t \<le> now)"

definition storage_prune :: "storage_world \<Rightarrow> storage_world" where
  "storage_prune s =
     s\<lparr>st_states := fold dict_del
         (map fst (filter (\<lambda>(i, expires_at, _). past expires_at (st_now s)) (st_states s))) (st_states s)\<rparr>"

definition storage_save :: "limiter_state \<Rightarrow> unit limiter_prog" where
  "storage_save state = (\<lambda>s.
     let expires_at = (case state_expires_at state of
           None \<Rightarrow> (case map_of (st_states s) (state_id state) of None \<Rightarrow> None | Some (e, _) \<Rightarrow> e)
         | Some e \<Rightarrow> Some e);
         s1 = s\<lparr>st_states := dict_set (state_id state) (expires_at, state) (st_states s),
                st_saves := Suc (st_saves s)\<rparr>
     in (Inr (), if st_saves s1 mod PRUNE_EVERY = 0 then storage_prune s1 else s1))"

definition storage_fetch :: "string \<Rightarrow> limiter_state option limiter_prog" where
  "storage_fetch i = (\<lambda>s.
     case map_of (st_states s) i of
       None \<Rightarrow> (Inr None, s)
     | Some (expires_at, state) \<Rightarrow>
         if past expires_at (st_now s)
         then (Inr None, s\<lparr>st_states := dict_del i (st_states s)\<rparr>)
         else (Inr (Some state), s))"

definition storage_delete :: "string \<Rightarrow> unit limiter_prog" where
  "storage_delete i = (\<lambda>s. (Inr (), s\<lparr>st_states := dict_del i (st_states s)\<rparr>))"

end
