(* ===== verification/Limiter_Policies.thy ===== *)
theory Limiter_Policies
  imports Limiter_State
begin

text \<open>
  The limiters of xtr-rate-limiter that keep their state in a storage (\<open>policy/_stored_limiter.py\<close> and
  the three policies), the limiter that accepts everything and the compound limiter. A reservation that
  would have to wait too long is an outcome of its own (\<open>Refused\<close>), which \<open>consume\<close> turns into an answer.
  Which period of a calendar a moment falls in is an argument of the fixed window limiter.
\<close>

section \<open>Answers\<close>

record rate_limit =
  rl_remaining_tokens :: int
  rl_retry_after :: real
  rl_accepted :: bool
  rl_limit :: int
  rl_reset_at :: "real option"

record reservation =
  rv_time_to_act :: real
  rv_rate_limit :: rate_limit

text \<open>\<open>MaxWaitDurationExceededError\<close> carries the wait, the most that was allowed and the limit.\<close>

datatype booking = Booked reservation | Refused real real rate_limit

definition wait_duration :: "reservation \<Rightarrow> real \<Rightarrow> real" where
  "wait_duration r now = max 0 (rv_time_to_act r - now)"

definition check_tokens :: "int \<Rightarrow> int \<Rightarrow> limiter_error + unit" where
  "check_tokens tokens limit =
     (if tokens < 0 then Inl (NegativeTokensAsked tokens)
      else if tokens > limit then Inl (TooManyTokensAsked tokens limit) else Inr ())"

definition check_limit :: "int \<Rightarrow> limiter_error + unit" where
  "check_limit limit = (if limit < 1 then Inl (LimitBelowOne limit) else Inr ())"

section \<open>What every stored limiter does\<close>

text \<open>The lock on the limiter's id; a limiter's operation is the body, and releases whatever happened.\<close>

record limiter_lock =
  ll_acquire :: "unit limiter_prog"
  ll_release :: "unit limiter_prog"

definition under_lock :: "limiter_lock \<Rightarrow> 'a limiter_prog \<Rightarrow> 'a limiter_prog" where
  "under_lock l body = andthen (ll_acquire l) (\<lambda>_ s.
     case body s of (r, s1) \<Rightarrow>
       (case ll_release l s1 of (Inl e, s2) \<Rightarrow> (Inl e, s2) | (Inr _, s2) \<Rightarrow> (r, s2)))"

definition stored_reserve ::
  "limiter_lock \<Rightarrow> (int \<Rightarrow> real option \<Rightarrow> booking limiter_prog) \<Rightarrow> int \<Rightarrow> real option \<Rightarrow> booking limiter_prog" where
  "stored_reserve l reserve tokens max_time = under_lock l (reserve tokens max_time)"

definition stored_consume ::
  "limiter_lock \<Rightarrow> (int \<Rightarrow> real option \<Rightarrow> booking limiter_prog) \<Rightarrow> int \<Rightarrow> rate_limit limiter_prog" where
  "stored_consume l reserve tokens =
     andthen (stored_reserve l reserve tokens (Some 0)) (\<lambda>b. ret (case b of
        Booked r \<Rightarrow> rv_rate_limit r
      | Refused wait max_time limit \<Rightarrow> limit))"

definition stored_reset :: "limiter_lock \<Rightarrow> string \<Rightarrow> unit limiter_prog" where
  "stored_reset l i = under_lock l (storage_delete i)"

section \<open>The fixed window limiter\<close>

record fixed_window_limiter =
  fw_id :: string
  fw_limit :: int
  fw_interval :: real
  fw_period_around :: "(real \<Rightarrow> real \<times> real) option"

definition FixedWindowLimiter_init ::
  "string \<Rightarrow> int \<Rightarrow> real \<Rightarrow> int \<Rightarrow> (real \<Rightarrow> real \<times> real) option \<Rightarrow> limiter_error + fixed_window_limiter" where
  "FixedWindowLimiter_init i limit interval_seconds months anchored =
     (case check_limit limit of
        Inl e \<Rightarrow> Inl e
      | Inr _ \<Rightarrow>
          if anchored \<noteq> None \<and> months = 0 then Inl AnchorNeedsMonths
          else Inr \<lparr>fw_id = i, fw_limit = limit, fw_interval = interval_seconds, fw_period_around = anchored\<rparr>)"

datatype any_window = Rolling window | Calendar calendar_window

fun any_available :: "any_window \<Rightarrow> real \<Rightarrow> int" where
  "any_available (Rolling w) now = window_available_tokens w now"
| "any_available (Calendar w) now = calendar_available_tokens w"

fun any_add :: "int \<Rightarrow> real \<Rightarrow> any_window \<Rightarrow> any_window" where
  "any_add tokens now (Rolling w) = Rolling (window_add tokens now w)"
| "any_add tokens now (Calendar w) = Calendar (calendar_add tokens w)"

fun any_time_for_tokens :: "any_window \<Rightarrow> int \<Rightarrow> real \<Rightarrow> real" where
  "any_time_for_tokens (Rolling w) tokens now = window_time_for_tokens w tokens now"
| "any_time_for_tokens (Calendar w) tokens now = calendar_time_for_tokens w tokens now"

fun any_availability_time :: "any_window \<Rightarrow> int \<Rightarrow> real \<Rightarrow> real" where
  "any_availability_time (Rolling w) tokens now = window_availability_time w tokens now"
| "any_availability_time (Calendar w) tokens now = calendar_availability_time w tokens now"

fun any_state :: "any_window \<Rightarrow> limiter_state" where
  "any_state (Rolling w) = WindowState w"
| "any_state (Calendar w) = CalendarState w"

definition fixed_window :: "fixed_window_limiter \<Rightarrow> real \<Rightarrow> limiter_state option \<Rightarrow> any_window" where
  "fixed_window self now stored =
     (case fw_period_around self of
        Some period_around \<Rightarrow>
          (case stored of
             Some (CalendarState w) \<Rightarrow>
               if cw_period_start w \<le> now \<and> now < cw_period_end w then Calendar w
               else (case period_around now of (start, finish) \<Rightarrow>
                       Calendar (CalendarAlignedWindow_init (fw_id self) (fw_limit self) start finish))
           | _ \<Rightarrow> (case period_around now of (start, finish) \<Rightarrow>
                    Calendar (CalendarAlignedWindow_init (fw_id self) (fw_limit self) start finish)))
      | None \<Rightarrow>
          (case stored of
             Some (WindowState w) \<Rightarrow> Rolling w
           | _ \<Rightarrow> Rolling (Window_init (fw_id self) (fw_interval self) (fw_limit self) now)))"

definition fixed_rate_limit :: "fixed_window_limiter \<Rightarrow> any_window \<Rightarrow> real \<Rightarrow> real \<Rightarrow> bool \<Rightarrow> rate_limit" where
  "fixed_rate_limit self w now retry_after accepted =
     \<lparr>rl_remaining_tokens = any_available w now, rl_retry_after = retry_after, rl_accepted = accepted,
      rl_limit = fw_limit self, rl_reset_at = Some (any_availability_time w (fw_limit self) now)\<rparr>"

definition fixed_reserve :: "fixed_window_limiter \<Rightarrow> int \<Rightarrow> real option \<Rightarrow> booking limiter_prog" where
  "fixed_reserve self tokens max_time =
     andthen (lift (check_tokens tokens (fw_limit self))) (\<lambda>_.
     andthen (storage_fetch (fw_id self)) (\<lambda>stored s.
     let now = st_now s; w = fixed_window self now stored
     in if tokens = 0 then
          (Inr (Booked \<lparr>rv_time_to_act = now,
                 rv_rate_limit = fixed_rate_limit self w now (now + any_time_for_tokens w 1 now) True\<rparr>), s)
        else if any_available w now \<ge> tokens then
          (let exhausts = (any_available w now = tokens);
               w1 = any_add tokens now w;
               retry_after = (if exhausts then now + any_time_for_tokens w1 1 now else now)
           in andthen (storage_save (any_state w1)) (\<lambda>_.
              ret (Booked \<lparr>rv_time_to_act = now,
                     rv_rate_limit = fixed_rate_limit self w1 now retry_after True\<rparr>)) s)
        else
          (let wait = any_time_for_tokens w tokens now
           in case max_time of
                Some most \<Rightarrow>
                  if wait > most
                  then (Inr (Refused wait most (fixed_rate_limit self w now (now + wait) False)), s)
                  else (let w1 = any_add tokens now w
                        in andthen (storage_save (any_state w1)) (\<lambda>_.
                           ret (Booked \<lparr>rv_time_to_act = now + wait,
                                  rv_rate_limit = fixed_rate_limit self w1 now (now + wait) False\<rparr>)) s)
              | None \<Rightarrow>
                  (let w1 = any_add tokens now w
                   in andthen (storage_save (any_state w1)) (\<lambda>_.
                      ret (Booked \<lparr>rv_time_to_act = now + wait,
                             rv_rate_limit = fixed_rate_limit self w1 now (now + wait) False\<rparr>)) s))))"

section \<open>The sliding window limiter\<close>

record sliding_window_limiter =
  sw_id :: string
  sw_limit :: int
  sw_interval :: real

definition SlidingWindowLimiter_init :: "string \<Rightarrow> int \<Rightarrow> real \<Rightarrow> limiter_error + sliding_window_limiter" where
  "SlidingWindowLimiter_init i limit interval_seconds =
     (case check_limit limit of
        Inl e \<Rightarrow> Inl e
      | Inr _ \<Rightarrow> Inr \<lparr>sw_id = i, sw_limit = limit, sw_interval = interval_seconds\<rparr>)"

definition sliding_window_of ::
  "sliding_window_limiter \<Rightarrow> real \<Rightarrow> limiter_state option \<Rightarrow> limiter_error + sliding_window" where
  "sliding_window_of self now stored =
     (case stored of
        Some (SlidingState w) \<Rightarrow>
          if sliding_is_expired w now then from_previous_window w (sw_interval self) now else Inr w
      | _ \<Rightarrow> SlidingWindow_init (sw_id self) (sw_interval self) now)"

definition sliding_rate_limit :: "sliding_window_limiter \<Rightarrow> sliding_window \<Rightarrow> real \<Rightarrow> real \<Rightarrow> bool \<Rightarrow> rate_limit" where
  "sliding_rate_limit self w now retry_after accepted =
     \<lparr>rl_remaining_tokens = sw_limit self - sliding_hit_count w now, rl_retry_after = retry_after,
      rl_accepted = accepted, rl_limit = sw_limit self,
      rl_reset_at = Some (if sliding_hit_count w now = 0 then now
                          else real_of_int (\<lfloor>max now (full_capacity_time w now)\<rfloor> + 1))\<rparr>"

definition sliding_reserve :: "sliding_window_limiter \<Rightarrow> int \<Rightarrow> real option \<Rightarrow> booking limiter_prog" where
  "sliding_reserve self tokens max_time =
     andthen (lift (check_tokens tokens (sw_limit self))) (\<lambda>_.
     andthen (storage_fetch (sw_id self)) (\<lambda>stored s0.
     let now = st_now s0 in
     andthen (lift (sliding_window_of self now stored)) (\<lambda>w s.
     let available = sw_limit self - sliding_hit_count w now
     in if tokens = 0 then
          (let reset_duration = sliding_time_for_tokens w (sw_limit self) (sliding_hit_count w now) now;
               retry_after = (if available > 0 then now else now + reset_duration)
           in (Inr (Booked \<lparr>rv_time_to_act = now,
                 rv_rate_limit = sliding_rate_limit self w now retry_after True\<rparr>), s))
        else if available \<ge> tokens then
          (let w1 = sliding_add tokens w;
               retry_after = (if available = tokens
                 then now + sliding_time_for_tokens w1 (sw_limit self) (sliding_hit_count w1 now) now else now)
           in andthen (storage_save (SlidingState w1)) (\<lambda>_.
              ret (Booked \<lparr>rv_time_to_act = now,
                     rv_rate_limit = sliding_rate_limit self w1 now retry_after True\<rparr>)) s)
        else
          (let wait = sliding_time_for_tokens w (sw_limit self) tokens now;
               book = (let w1 = sliding_add tokens w
                       in andthen (storage_save (SlidingState w1)) (\<lambda>_.
                          ret (Booked \<lparr>rv_time_to_act = now + wait,
                                 rv_rate_limit = sliding_rate_limit self w1 now (now + wait) False\<rparr>)))
           in case max_time of
                Some most \<Rightarrow>
                  if wait > most
                  then (Inr (Refused wait most (sliding_rate_limit self w now (now + wait) False)), s)
                  else book s
              | None \<Rightarrow> book s)) s0))"

section \<open>The token bucket limiter\<close>

record token_bucket_limiter =
  bk_id :: string
  bk_max_burst :: int
  bk_cycle :: real
  bk_amount :: int

definition TokenBucketLimiter_init :: "string \<Rightarrow> int \<Rightarrow> real \<Rightarrow> int \<Rightarrow> limiter_error + token_bucket_limiter" where
  "TokenBucketLimiter_init i max_burst cycle amount =
     (case check_limit max_burst of
        Inl e \<Rightarrow> Inl e
      | Inr _ \<Rightarrow> Inr \<lparr>bk_id = i, bk_max_burst = max_burst, bk_cycle = cycle, bk_amount = amount\<rparr>)"

definition bucket_reset_at :: "token_bucket_limiter \<Rightarrow> token_bucket \<Rightarrow> int \<Rightarrow> real \<Rightarrow> real" where
  "bucket_reset_at self b left now = now + bucket_time_for_tokens b (max 0 (bk_max_burst self - left))"

definition bucket_rate_limit :: "token_bucket_limiter \<Rightarrow> int \<Rightarrow> real \<Rightarrow> real \<Rightarrow> bool \<Rightarrow> rate_limit" where
  "bucket_rate_limit self remaining retry_after reset_at accepted =
     \<lparr>rl_remaining_tokens = remaining, rl_retry_after = retry_after, rl_accepted = accepted,
      rl_limit = bk_max_burst self, rl_reset_at = Some reset_at\<rparr>"

definition bucket_of :: "token_bucket_limiter \<Rightarrow> real \<Rightarrow> limiter_state option \<Rightarrow> limiter_error + token_bucket" where
  "bucket_of self now stored =
     (case stored of
        Some (BucketState b) \<Rightarrow> Inr b
      | _ \<Rightarrow> TokenBucket_init (bk_id self) (bk_max_burst self) (bk_cycle self) (bk_amount self) now)"

definition bucket_reserve :: "token_bucket_limiter \<Rightarrow> int \<Rightarrow> real option \<Rightarrow> booking limiter_prog" where
  "bucket_reserve self tokens max_time =
     andthen (lift (check_tokens tokens (bk_max_burst self))) (\<lambda>_ s0.
     let now = st_now s0 in
     andthen (storage_fetch (bk_id self)) (\<lambda>stored.
     andthen (lift (bucket_of self now stored)) (\<lambda>b s.
     let available = min (bucket_available_tokens b now) (bk_max_burst self)
     in if tokens = 0 then
          (let retry_after = (if available = 0 then now + bucket_time_for_tokens b 1 else now)
           in (Inr (Booked \<lparr>rv_time_to_act = now, rv_rate_limit =
                 bucket_rate_limit self available retry_after (bucket_reset_at self b available now) True\<rparr>), s))
        else if available \<ge> tokens then
          (let b1 = set_tokens (available - tokens) now b;
               retry_after = (if available = tokens then now + bucket_time_for_tokens b1 1 else now)
           in andthen (storage_save (BucketState b1)) (\<lambda>_.
              ret (Booked \<lparr>rv_time_to_act = now, rv_rate_limit =
                 bucket_rate_limit self (bucket_available_tokens b1 now) retry_after
                   (bucket_reset_at self b1 (available - tokens) now) True\<rparr>)) s)
        else
          (let wait = bucket_time_for_tokens b (tokens - available);
               book = (let b1 = set_tokens (available - tokens) now b
                       in andthen (storage_save (BucketState b1)) (\<lambda>_.
                          ret (Booked \<lparr>rv_time_to_act = now + wait, rv_rate_limit =
                             bucket_rate_limit self 0 (now + wait) (bucket_reset_at self b1 (available - tokens) now) False\<rparr>)))
           in case max_time of
                Some most \<Rightarrow>
                  if wait > most
                  then (Inr (Refused wait most
                         (bucket_rate_limit self available (now + wait) (bucket_reset_at self b available now) False)), s)
                  else book s
              | None \<Rightarrow> book s))) s0)"

section \<open>No limit, and several at once\<close>

definition MAXSIZE :: int where "MAXSIZE = 2 ^ 63 - 1"

definition no_limiter_rate_limit :: "real \<Rightarrow> rate_limit" where
  "no_limiter_rate_limit now =
     \<lparr>rl_remaining_tokens = MAXSIZE, rl_retry_after = now, rl_accepted = True, rl_limit = MAXSIZE, rl_reset_at = None\<rparr>"

definition no_limiter_consume :: "int \<Rightarrow> rate_limit limiter_prog" where
  "no_limiter_consume tokens = (\<lambda>s. (Inr (no_limiter_rate_limit (st_now s)), s))"

definition no_limiter_reserve :: "int \<Rightarrow> real option \<Rightarrow> booking limiter_prog" where
  "no_limiter_reserve tokens max_time = (\<lambda>s.
     (Inr (Booked \<lparr>rv_time_to_act = st_now s, rv_rate_limit = no_limiter_rate_limit (st_now s)\<rparr>), s))"

definition CompoundLimiter_init :: "'l list \<Rightarrow> limiter_error + 'l list" where
  "CompoundLimiter_init limiters = (if limiters = [] then Inl NoLimiters else Inr limiters)"

definition compound_reserve :: "int \<Rightarrow> real option \<Rightarrow> booking limiter_prog" where
  "compound_reserve tokens max_time = raise ReserveNotSupportedError"

text \<open>The first of the limits with the fewest remaining tokens, as \<open>min\<close> picks it.\<close>

fun closest :: "rate_limit \<Rightarrow> rate_limit list \<Rightarrow> rate_limit" where
  "closest l [] = l"
| "closest l (l' # ls) = closest (if rl_remaining_tokens l' < rl_remaining_tokens l then l' else l) ls"

fun compound_consume_from ::
  "(int \<Rightarrow> rate_limit limiter_prog) list \<Rightarrow> int \<Rightarrow> rate_limit list \<Rightarrow> rate_limit limiter_prog" where
  "compound_consume_from [] tokens accepted =
     (case accepted of [] \<Rightarrow> raise NoLimiters | l # ls \<Rightarrow> ret (closest l ls))"
| "compound_consume_from (c # cs) tokens accepted =
     andthen (c tokens) (\<lambda>limit.
     if \<not> rl_accepted limit then ret limit
     else compound_consume_from cs tokens (accepted @ [limit]))"

definition compound_consume :: "(int \<Rightarrow> rate_limit limiter_prog) list \<Rightarrow> int \<Rightarrow> rate_limit limiter_prog" where
  "compound_consume limiters tokens = compound_consume_from limiters tokens []"

definition compound_reset :: "unit limiter_prog list \<Rightarrow> unit limiter_prog" where
  "compound_reset resets = for_each (\<lambda>r _. r) resets ()"

end
