(* ===== verification/Limiter_Bounds.thy ===== *)
theory Limiter_Bounds
  imports Limiter_Policies
begin

text \<open>
  What the limiters promise: how many tokens they grant over time, whatever is asked of them and
  whatever the storage sweeps away meanwhile.
\<close>

section \<open>The storage, as a limiter sees it\<close>

definition visible_at :: "real \<Rightarrow> storage_world \<Rightarrow> string \<Rightarrow> limiter_state option" where
  "visible_at t s i = (case map_of (st_states s) i of
     None \<Rightarrow> None | Some (expires_at, state) \<Rightarrow> if past expires_at t then None else Some state)"

definition states_ok :: "storage_world \<Rightarrow> bool" where
  "states_ok s \<longleftrightarrow> dict_ok (st_states s)
     \<and> (\<forall>i e st. map_of (st_states s) i = Some (e, st) \<longrightarrow> e = state_expires_at st \<and> state_id st = i)"

lemma map_of_fold_del: "map_of (fold dict_del ks d) i = (if i \<in> set ks then None else map_of d i)"
  by (induction ks arbitrary: d) auto

lemma dict_ok_fold_del: "dict_ok d \<Longrightarrow> dict_ok (fold dict_del ks d)"
  by (induction ks arbitrary: d) auto

lemma map_of_prune:
  assumes "dict_ok (st_states s)"
  shows "map_of (st_states (storage_prune s)) i = (case map_of (st_states s) i of
    None \<Rightarrow> None | Some (e, st) \<Rightarrow> if past e (st_now s) then None else Some (e, st))"
proof -
  have "i \<in> set (map fst (filter (\<lambda>(i, e, _). past e (st_now s)) (st_states s)))
      \<longleftrightarrow> (\<exists>e st. map_of (st_states s) i = Some (e, st) \<and> past e (st_now s))"
    using assms by (force simp: dict_ok_def image_iff)
  then show ?thesis
    by (auto simp: storage_prune_def map_of_fold_del split: option.splits)
qed

lemma past_later: "past e t \<Longrightarrow> t \<le> t' \<Longrightarrow> past e t'"
  by (auto simp: past_def split: option.splits)

lemma prune_ok: "states_ok s \<Longrightarrow> states_ok (storage_prune s)"
  by (auto simp: states_ok_def map_of_prune storage_prune_def dict_ok_fold_del map_of_fold_del)

lemma visible_prune:
  assumes "states_ok s" and "st_now s \<le> t"
  shows "visible_at t (storage_prune s) i = visible_at t s i"
  using assms past_later
  by (auto simp: visible_at_def map_of_prune states_ok_def split: option.splits)

lemma state_has_expiry: "state_expires_at st = Some (the (state_expires_at st))"
  by (cases st) simp_all

lemma save_ok: "states_ok s \<Longrightarrow> states_ok (snd (storage_save st s))"
proof -
  assume s: "states_ok s"
  let ?s1 = "s\<lparr>st_states := dict_set (state_id st) (state_expires_at st, st) (st_states s), st_saves := Suc (st_saves s)\<rparr>"
  have "states_ok ?s1" using s by (auto simp: states_ok_def)
  moreover have "snd (storage_save st s) = (if Suc (st_saves s) mod PRUNE_EVERY = 0 then storage_prune ?s1 else ?s1)"
    using state_has_expiry [of st] by (auto simp: storage_save_def Let_def split: option.splits)
  ultimately show ?thesis using prune_ok by simp
qed

lemma visible_save:
  assumes "states_ok s" and "st_now s \<le> t"
  shows "visible_at t (snd (storage_save st s)) i
    = (if i = state_id st then (if past (state_expires_at st) t then None else Some st) else visible_at t s i)"
proof -
  let ?s1 = "s\<lparr>st_states := dict_set (state_id st) (state_expires_at st, st) (st_states s), st_saves := Suc (st_saves s)\<rparr>"
  have ok: "states_ok ?s1" using assms(1) by (auto simp: states_ok_def)
  have run: "snd (storage_save st s) = (if Suc (st_saves s) mod PRUNE_EVERY = 0 then storage_prune ?s1 else ?s1)"
    using state_has_expiry [of st] by (auto simp: storage_save_def Let_def split: option.splits)
  have "visible_at t (storage_prune ?s1) i = visible_at t ?s1 i"
    using visible_prune [OF ok] assms(2) by simp
  then have "visible_at t (snd (storage_save st s)) i = visible_at t ?s1 i"
    by (simp only: run split: if_split) simp
  then show ?thesis by (simp add: visible_at_def)
qed

lemma fetch_run:
  assumes "states_ok s"
  shows "\<exists>s'. storage_fetch i s = (Inr (visible_at (st_now s) s i), s') \<and> states_ok s' \<and> st_now s' = st_now s
    \<and> (\<forall>t j. st_now s \<le> t \<longrightarrow> visible_at t s' j = visible_at t s j)"
proof (cases "map_of (st_states s) i")
  case None
  then show ?thesis using assms by (intro exI [of _ s]) (simp add: storage_fetch_def visible_at_def)
next
  case (Some p)
  obtain e st where p: "p = (e, st)" by (cases p)
  show ?thesis
  proof (cases "past e (st_now s)")
    case True
    let ?s' = "s\<lparr>st_states := dict_del i (st_states s)\<rparr>"
    have "states_ok ?s'" using assms by (auto simp: states_ok_def)
    moreover have "\<forall>t j. st_now s \<le> t \<longrightarrow> visible_at t ?s' j = visible_at t s j"
      using Some p True past_later by (auto simp: visible_at_def)
    ultimately show ?thesis
      using Some p True by (intro exI [of _ ?s']) (simp add: storage_fetch_def visible_at_def)
  next
    case False
    then show ?thesis using assms Some p by (intro exI [of _ s]) (simp add: storage_fetch_def visible_at_def)
  qed
qed

lemma visible_later:
  assumes "states_ok s" and "t \<le> t'"
  shows "visible_at t' s i = (case visible_at t s i of
    None \<Rightarrow> None | Some st \<Rightarrow> if past (state_expires_at st) t' then None else Some st)"
proof (cases "map_of (st_states s) i")
  case None
  then show ?thesis by (simp add: visible_at_def)
next
  case (Some p)
  then obtain st where "p = (state_expires_at st, st)" using assms(1) by (cases p) (auto simp: states_ok_def)
  then show ?thesis using Some past_later [OF _ assms(2)] by (auto simp: visible_at_def)
qed

lemma visible_not_past: "states_ok s \<Longrightarrow> visible_at t s i = Some st \<Longrightarrow> \<not> past (state_expires_at st) t \<and> state_id st = i"
  by (auto simp: visible_at_def states_ok_def split: option.splits if_splits)

lemma visible_now [simp]: "visible_at t (s\<lparr>st_now := u\<rparr>) i = visible_at t s i"
  by (simp add: visible_at_def)

lemma states_ok_now [simp]: "states_ok (s\<lparr>st_now := u\<rparr>) = states_ok s"
  by (simp add: states_ok_def)

lemma save_now [simp]: "fst (storage_save st s) = Inr ()" "st_now (snd (storage_save st s)) = st_now s"
  by (simp_all add: storage_save_def storage_prune_def Let_def)

lemma andthen_save [simp]: "andthen (storage_save st) f s = f () (snd (storage_save st s))"
  by (simp add: andthen_def save_now(1) split: prod.split) (metis fst_conv save_now(1) old.sum.simps(6))

text \<open>
  a limiter's state is there until it expires and not after, and the sweeps of the storage are
  invisible: after a save, what a fetch finds at any later moment is the saved state under its id until
  its own expiry, and for every other id what it would have found without the save.
\<close>

theorem storage_sweeps_invisible:
  assumes "states_ok s" and "st_now s \<le> t" and "s1 = snd (storage_save st s)"
  shows "fst (storage_fetch i (s1\<lparr>st_now := t\<rparr>))
    = (if i = state_id st then Inr (if past (state_expires_at st) t then None else Some st)
       else fst (storage_fetch i (s\<lparr>st_now := t\<rparr>)))"
proof -
  have "fst (storage_fetch i (r\<lparr>st_now := t\<rparr>)) = Inr (visible_at t r i)" if "states_ok r" for r
    using fetch_run [of "r\<lparr>st_now := t\<rparr>" i] that by auto
  then show ?thesis
    using visible_save [OF assms(1,2), of st i] save_ok [OF assms(1), of st] assms(1,3) by auto
qed

section \<open>Runs of a limiter\<close>

text \<open>What a call granted, and what was granted to each of a series of calls made at given moments.\<close>

fun grant :: "limiter_error + rate_limit \<Rightarrow> int \<Rightarrow> int" where
  "grant (Inl e) n = 0"
| "grant (Inr l) n = (if rl_accepted l then n else 0)"

fun granted :: "(int \<Rightarrow> rate_limit limiter_prog) \<Rightarrow> (real \<times> int) list \<Rightarrow> storage_world \<Rightarrow> int list" where
  "granted consume [] s = []"
| "granted consume ((t, n) # cs) s =
     (case consume n (s\<lparr>st_now := t\<rparr>) of (r, s') \<Rightarrow> grant r n # granted consume cs s')"

fun after_calls :: "(int \<Rightarrow> rate_limit limiter_prog) \<Rightarrow> (real \<times> int) list \<Rightarrow> storage_world \<Rightarrow> storage_world" where
  "after_calls consume [] s = s"
| "after_calls consume ((t, n) # cs) s = after_calls consume cs (snd (consume n (s\<lparr>st_now := t\<rparr>)))"

text \<open>Calls made one after the other, none before \<open>t0\<close> and none after \<open>t1\<close>.\<close>

fun in_order :: "real \<Rightarrow> (real \<times> int) list \<Rightarrow> real \<Rightarrow> bool" where
  "in_order t0 [] t1 = (t0 \<le> t1)"
| "in_order t0 ((t, n) # cs) t1 = (t0 \<le> t \<and> in_order t cs t1)"

lemma in_order_le: "in_order t0 cs t1 \<Longrightarrow> t0 \<le> t1"
  by (induction cs arbitrary: t0) force+

text \<open>
  A metered limiter: some level of its stored state pays for what it grants, and grows at most at a
  given rate while nothing happens.
\<close>

locale metered =
  fixes consume :: "int \<Rightarrow> rate_limit limiter_prog"
    and ok :: "storage_world \<Rightarrow> real \<Rightarrow> bool"
    and level :: "storage_world \<Rightarrow> real \<Rightarrow> real"
    and rate :: real and most :: real
  assumes later: "ok s t \<Longrightarrow> t \<le> t' \<Longrightarrow> ok s t'"
    and grows: "ok s t \<Longrightarrow> t \<le> t' \<Longrightarrow> level s t' \<le> level s t + rate * (t' - t)"
    and call: "ok s t \<Longrightarrow> t \<le> t' \<Longrightarrow> consume n (s\<lparr>st_now := t'\<rparr>) = (r, s')
      \<Longrightarrow> ok s' t' \<and> level s' t' + real_of_int (grant r n) \<le> level s t'"
    and level_bounds: "ok s t \<Longrightarrow> 0 \<le> level s t \<and> level s t \<le> most"
    and rate_nonneg: "ok s t \<Longrightarrow> 0 \<le> rate"
begin

lemma granted_le:
  assumes "ok s t0" and "in_order t0 cs t1"
  shows "real_of_int (sum_list (granted consume cs s)) \<le> level s t0 + rate * (t1 - t0)"
  using assms
proof (induction cs arbitrary: s t0)
  case Nil
  then show ?case using level_bounds rate_nonneg by (simp add: add_nonneg_nonneg)
next
  case (Cons c cs)
  obtain t n where c: "c = (t, n)" by (cases c)
  obtain r s' where run: "consume n (s\<lparr>st_now := t\<rparr>) = (r, s')" by (cases "consume n (s\<lparr>st_now := t\<rparr>)")
  have le: "t0 \<le> t" and rest: "in_order t cs t1" using Cons.prems(2) c by auto
  have step: "ok s' t" "level s' t + real_of_int (grant r n) \<le> level s t"
    using call [OF Cons.prems(1) le run] by auto
  have "real_of_int (sum_list (granted consume cs s')) \<le> level s' t + rate * (t1 - t)"
    using Cons.IH [OF step(1) rest] .
  moreover have "level s t \<le> level s t0 + rate * (t - t0)" using grows [OF Cons.prems(1) le] .
  ultimately show ?case using step(2) by (simp add: c run algebra_simps)
qed

lemma ok_after: "ok s t0 \<Longrightarrow> in_order t0 cs t1 \<Longrightarrow> ok (after_calls consume cs s) t1"
proof (induction cs arbitrary: s t0)
  case Nil
  then show ?case using later by simp
next
  case (Cons c cs)
  obtain t n where c: "c = (t, n)" by (cases c)
  have "ok (snd (consume n (s\<lparr>st_now := t\<rparr>))) t"
    using call [OF Cons.prems(1), of t n] Cons.prems(2) c by (metis in_order.simps(2) prod.collapse)
  from Cons.IH [OF this] show ?case using Cons.prems(2) c by simp
qed

lemma granted_span:
  assumes "ok s t0" and "in_order t0 before t1" and "in_order t1 cs t2"
  shows "real_of_int (sum_list (granted consume cs (after_calls consume before s))) \<le> most + rate * (t2 - t1)"
  using granted_le [OF ok_after [OF assms(1,2)] assms(3)] level_bounds [OF ok_after [OF assms(1,2)]] by linarith

end

text \<open>A lock that is free: taking it and letting it go come back at once.\<close>

definition free_lock :: "limiter_lock \<Rightarrow> bool" where
  "free_lock l \<longleftrightarrow> (\<forall>s. ll_acquire l s = (Inr (), s) \<and> ll_release l s = (Inr (), s))"

lemma under_free_lock: "free_lock l \<Longrightarrow> under_lock l body s = body s"
  by (auto simp: free_lock_def under_lock_def andthen_def split: prod.splits)

fun booking_limit :: "booking \<Rightarrow> rate_limit" where
  "booking_limit (Booked r) = rv_rate_limit r"
| "booking_limit (Refused wait max_time limit) = limit"

lemma stored_consume_run:
  "free_lock l \<Longrightarrow> reserve n (Some 0) s = (Inr bk, s') \<Longrightarrow> stored_consume l reserve n s = (Inr (booking_limit bk), s')"
  by (cases bk) (simp_all add: stored_consume_def stored_reserve_def under_free_lock andthen_def)

lemma stored_consume_error:
  "free_lock l \<Longrightarrow> reserve n (Some 0) s = (Inl e, s') \<Longrightarrow> stored_consume l reserve n s = (Inl e, s')"
  by (simp add: stored_consume_def stored_reserve_def under_free_lock andthen_def)

text \<open>
  A policy over what the storage shows of its state (nothing, or a state not yet expired): its level is
  that of the view, an idle spell raises it at most at the rate, even across the expiry of the state,
  and a call that does not wait either leaves the storage as it found it, granting nothing, or saves a
  state that has paid for what was granted.
\<close>

definition view_at :: "real \<Rightarrow> limiter_state option \<Rightarrow> limiter_state option" where
  "view_at t v = (case v of None \<Rightarrow> None | Some st \<Rightarrow> if past (state_expires_at st) t then None else Some st)"

locale stored_policy =
  fixes l :: limiter_lock and i :: string and reserve :: "int \<Rightarrow> real option \<Rightarrow> booking limiter_prog"
    and sound :: "real \<Rightarrow> limiter_state option \<Rightarrow> bool" and view_level :: "real \<Rightarrow> limiter_state option \<Rightarrow> real"
    and rate :: real and most :: real
  assumes idle: "sound t v \<Longrightarrow> t \<le> t' \<Longrightarrow>
      sound t' (view_at t' v) \<and> view_level t' (view_at t' v) \<le> view_level t v + rate * (t' - t)"
    and bounds: "sound t v \<Longrightarrow> 0 \<le> view_level t v \<and> view_level t v \<le> most \<and> 0 \<le> rate"
    and refused: "storage_fetch i s = (Inr v, s1) \<Longrightarrow> sound (st_now s) v \<Longrightarrow> reserve n (Some 0) s = (Inl e, s') \<Longrightarrow> s' = s \<or> s' = s1"
    and answered: "storage_fetch i s = (Inr v, s1) \<Longrightarrow> sound (st_now s) v \<Longrightarrow> reserve n (Some 0) s = (Inr bk, s') \<Longrightarrow>
      s' = s1 \<and> grant (Inr (booking_limit bk)) n = 0
      \<or> (\<exists>st. s' = snd (storage_save st s1) \<and> state_id st = i \<and> \<not> past (state_expires_at st) (st_now s)
            \<and> sound (st_now s) (Some st)
            \<and> view_level (st_now s) (Some st) + real_of_int (grant (Inr (booking_limit bk)) n) \<le> view_level (st_now s) v)"
begin

definition world_ok :: "storage_world \<Rightarrow> real \<Rightarrow> bool" where
  "world_ok s t \<longleftrightarrow> free_lock l \<and> states_ok s \<and> st_now s \<le> t \<and> sound t (visible_at t s i)"

definition kept_level :: "storage_world \<Rightarrow> real \<Rightarrow> real" where
  "kept_level s t = view_level t (visible_at t s i)"

lemma visible_view: "states_ok s \<Longrightarrow> t \<le> t' \<Longrightarrow> visible_at t' s i = view_at t' (visible_at t s i)"
  using visible_later by (auto simp: view_at_def)

lemma world_later: "world_ok s t \<Longrightarrow> t \<le> t' \<Longrightarrow> world_ok s t'"
  using idle by (auto simp: world_ok_def visible_view)

lemma level_grows: "world_ok s t \<Longrightarrow> t \<le> t' \<Longrightarrow> kept_level s t' \<le> kept_level s t + rate * (t' - t)"
  using idle by (auto simp: world_ok_def kept_level_def visible_view)

lemma world_call:
  assumes "world_ok s t" and "t \<le> t'" and run: "stored_consume l reserve n (s\<lparr>st_now := t'\<rparr>) = (r, s')"
  shows "world_ok s' t' \<and> kept_level s' t' + real_of_int (grant r n) \<le> kept_level s t'"
proof -
  let ?s = "s\<lparr>st_now := t'\<rparr>"
  have now: "world_ok ?s t'" "kept_level ?s t' = kept_level s t'"
    using world_later [OF assms(1,2)] by (simp_all add: world_ok_def kept_level_def)
  then have free: "free_lock l" and st: "states_ok ?s" and snd: "sound (st_now ?s) (visible_at t' s i)"
    by (simp_all add: world_ok_def)
  obtain s1 where fetch: "storage_fetch i ?s = (Inr (visible_at t' s i), s1)" "states_ok s1" "st_now s1 = t'"
    and same: "visible_at t' s1 i = visible_at t' s i"
    using fetch_run [OF st, of i] by auto
  have s1: "world_ok s1 t'" "kept_level s1 t' = kept_level s t'"
    using now fetch same by (simp_all add: world_ok_def kept_level_def)
  show ?thesis
  proof (cases "reserve n (Some 0) ?s")
    case (Pair r' s2)
    show ?thesis
    proof (cases r')
      case (Inl e)
      then have "r = Inl e" "s' = s2" using stored_consume_error [OF free] Pair run by auto
      then show ?thesis using refused [OF fetch(1) snd, of n e s2] Pair Inl now s1 by auto
    next
      case (Inr bk)
      then have r: "r = Inr (booking_limit bk)" "s' = s2" using stored_consume_run [OF free] Pair run by auto
      from answered [OF fetch(1) snd, of n bk s2] Pair Inr consider
        "s2 = s1" "grant (Inr (booking_limit bk)) n = 0"
        | st where "s2 = snd (storage_save st s1)" "state_id st = i" "\<not> past (state_expires_at st) t'" "sound t' (Some st)"
          "view_level t' (Some st) + real_of_int (grant (Inr (booking_limit bk)) n) \<le> kept_level s t'"
        by (auto simp: kept_level_def)
      then show ?thesis
      proof cases
        case 1
        then show ?thesis using s1 r by simp
      next
        case 2
        then have "visible_at t' s2 i = Some st" using visible_save [OF fetch(2), of t' st i] fetch(3) by simp
        then show ?thesis
          using 2 r free save_ok [OF fetch(2), of st] fetch(3) by (simp add: world_ok_def kept_level_def)
      qed
    qed
  qed
qed

end

sublocale stored_policy \<subseteq> metered "stored_consume l reserve" world_ok kept_level rate most
proof
  fix s t
  assume ok: "world_ok s t"
  then show "0 \<le> kept_level s t \<and> kept_level s t \<le> most" and "0 \<le> rate"
    using bounds by (auto simp: world_ok_def kept_level_def)
qed (fact world_later level_grows world_call)+

context stored_policy
begin

text \<open>From a moment at which the key has no state, and over any later span.\<close>

lemma fresh_total:
  assumes "free_lock l" and "states_ok s" and "st_now s \<le> t0" and "visible_at t0 s i = None" and "sound t0 None"
    and "in_order t0 calls t1"
  shows "real_of_int (sum_list (granted (stored_consume l reserve) calls s)) \<le> view_level t0 None + rate * (t1 - t0)"
  using granted_le [of s t0 calls t1] assms by (simp add: world_ok_def kept_level_def)

lemma fresh_span:
  assumes "free_lock l" and "states_ok s" and "st_now s \<le> t0" and "visible_at t0 s i = None" and "sound t0 None"
    and "in_order t0 before t1" and "in_order t1 calls t2" and "consume = stored_consume l reserve"
  shows "real_of_int (sum_list (granted consume calls (after_calls consume before s))) \<le> most + rate * (t2 - t1)"
  using granted_span [of s t0 before t1 calls t2] assms by (simp add: world_ok_def)

end

section \<open>The token bucket\<close>

definition bucket_ok :: "token_bucket_limiter \<Rightarrow> token_bucket \<Rightarrow> bool" where
  "bucket_ok self b \<longleftrightarrow> tb_burst_size b = bk_max_burst self \<and> tb_cycle b = bk_cycle self \<and> tb_amount b = bk_amount self
     \<and> 0 \<le> tb_tokens b \<and> tb_tokens b \<le> bk_max_burst self
     \<and> tb_timer b + real_of_int \<lceil>real_of_int (bk_max_burst self) / real_of_int (bk_amount self)\<rceil> * bk_cycle self \<le> tb_expires_at b"

definition bucket_limiter_ok :: "token_bucket_limiter \<Rightarrow> bool" where
  "bucket_limiter_ok self \<longleftrightarrow> 1 \<le> bk_max_burst self \<and> 0 < bk_cycle self \<and> 1 \<le> bk_amount self"

text \<open>
  The continuous level of a bucket: its tokens and the share of the next refill already elapsed. It
  never grows faster than the rate.
\<close>

definition bucket_level :: "token_bucket_limiter \<Rightarrow> token_bucket \<Rightarrow> real \<Rightarrow> real" where
  "bucket_level self b t = real_of_int (bucket_available_tokens b t)
     + real_of_int (bk_amount self) * ((t - tb_timer b) / bk_cycle self - real_of_int (bucket_cycles b t))"

lemma bucket_level_bounds:
  assumes "bucket_limiter_ok self" and "bucket_ok self b" and "tb_timer b \<le> t"
  shows "real_of_int (bucket_available_tokens b t) \<le> bucket_level self b t"
    and "bucket_level self b t < real_of_int (bk_max_burst self) + real_of_int (bk_amount self)"
    and "0 \<le> bucket_available_tokens b t"
proof -
  let ?x = "(t - tb_timer b) / bk_cycle self"
  have c: "bucket_cycles b t = \<lfloor>?x\<rfloor>" "0 < bk_cycle self" "1 \<le> bk_amount self"
    using assms by (auto simp: bucket_cycles_def bucket_ok_def bucket_limiter_ok_def)
  have frac: "0 \<le> ?x - real_of_int (bucket_cycles b t)" "?x - real_of_int (bucket_cycles b t) < 1"
    using c(1) by linarith+
  show "real_of_int (bucket_available_tokens b t) \<le> bucket_level self b t"
    using frac(1) c(3) by (simp add: bucket_level_def)
  have "real_of_int (bk_amount self) * (?x - real_of_int (bucket_cycles b t)) < real_of_int (bk_amount self)"
    using frac(2) c(3) by (simp add: mult_less_cancel_left1)
  moreover have "bucket_available_tokens b t \<le> bk_max_burst self"
    using assms(2) by (simp add: bucket_available_tokens_def bucket_ok_def)
  ultimately show "bucket_level self b t < real_of_int (bk_max_burst self) + real_of_int (bk_amount self)"
    unfolding bucket_level_def by linarith
  have "0 \<le> ?x" using assms(3) c(2) by simp
  then have "0 \<le> bucket_cycles b t" using c(1) by simp
  then show "0 \<le> bucket_available_tokens b t"
    using assms(1,2) by (simp add: bucket_available_tokens_def bucket_ok_def bucket_limiter_ok_def)
qed

lemma bucket_level_grows:
  assumes "bucket_limiter_ok self" and "bucket_ok self b" and "tb_timer b \<le> t" and "t \<le> t'"
  shows "bucket_level self b t' \<le> bucket_level self b t + real_of_int (bk_amount self) * ((t' - t) / bk_cycle self)"
proof -
  let ?a = "bk_amount self"
  have pos: "0 < bk_cycle self" "1 \<le> ?a" using assms(1) by (auto simp: bucket_limiter_ok_def)
  have c: "bucket_cycles b u = \<lfloor>(u - tb_timer b) / bk_cycle self\<rfloor>" if "tb_timer b \<le> u" for u
    using that assms(2) by (simp add: bucket_cycles_def bucket_ok_def)
  have "(t - tb_timer b) / bk_cycle self \<le> (t' - tb_timer b) / bk_cycle self"
    using assms(4) pos(1) by (simp add: divide_right_mono)
  then have k: "bucket_cycles b t \<le> bucket_cycles b t'"
    using c [of t] c [of t'] assms(3,4) by (simp add: floor_mono)
  have "bucket_available_tokens b t' \<le> bucket_available_tokens b t + (bucket_cycles b t' - bucket_cycles b t) * ?a"
  proof -
    have "0 \<le> (bucket_cycles b t' - bucket_cycles b t) * ?a" using k pos(2) by simp
    moreover have "tb_tokens b + bucket_cycles b t' * ?a
        = tb_tokens b + bucket_cycles b t * ?a + (bucket_cycles b t' - bucket_cycles b t) * ?a"
      by (simp add: algebra_simps)
    ultimately show ?thesis
      using assms(2) by (simp add: bucket_available_tokens_def bucket_ok_def)
  qed
  then have "real_of_int (bucket_available_tokens b t')
      \<le> real_of_int (bucket_available_tokens b t) + real_of_int ((bucket_cycles b t' - bucket_cycles b t) * ?a)"
    by linarith
  moreover have "(t' - tb_timer b) / bk_cycle self = (t - tb_timer b) / bk_cycle self + (t' - t) / bk_cycle self"
    by (simp add: diff_divide_distrib)
  ultimately show ?thesis
    by (simp add: bucket_level_def algebra_simps)
qed

text \<open>A bucket whose state has expired has had the time to fill up again.\<close>

lemma bucket_expired_full:
  assumes "bucket_limiter_ok self" and "bucket_ok self b" and "tb_expires_at b \<le> t"
  shows "bucket_available_tokens b t = bk_max_burst self" and "tb_timer b \<le> t"
proof -
  let ?n = "\<lceil>real_of_int (bk_max_burst self) / real_of_int (bk_amount self)\<rceil>"
  have pos: "0 < bk_cycle self" "1 \<le> bk_amount self" "1 \<le> bk_max_burst self"
    using assms(1) by (auto simp: bucket_limiter_ok_def)
  have n: "real_of_int (bk_max_burst self) \<le> real_of_int ?n * real_of_int (bk_amount self)"
    using pos(2) by (subst pos_divide_le_eq [symmetric]) (simp_all add: le_of_int_ceiling)
  have "0 \<le> real_of_int (bk_max_burst self) / real_of_int (bk_amount self)" using pos by simp
  then have n0: "0 \<le> ?n" by linarith
  have late: "real_of_int ?n * bk_cycle self \<le> t - tb_timer b"
    using assms(2,3) by (simp add: bucket_ok_def)
  then show timer: "tb_timer b \<le> t" using n0 pos(1) by (smt (verit) mult_nonneg_nonneg of_int_nonneg)
  from late have "real_of_int ?n \<le> (t - tb_timer b) / bk_cycle self"
    using pos(1) by (simp add: pos_le_divide_eq)
  then have "?n \<le> bucket_cycles b t"
    using timer assms(2) by (simp add: bucket_cycles_def bucket_ok_def le_floor_iff)
  then have "?n * bk_amount self \<le> bucket_cycles b t * bk_amount self"
    using pos(2) by (simp add: mult_right_mono)
  moreover have "bk_max_burst self \<le> ?n * bk_amount self"
    using n by (metis of_int_le_iff of_int_mult)
  ultimately show "bucket_available_tokens b t = bk_max_burst self"
    using assms(2) by (simp add: bucket_available_tokens_def bucket_ok_def)
qed

lemma bucket_init_ok:
  assumes "bucket_limiter_ok self"
  shows "\<exists>b. TokenBucket_init (bk_id self) (bk_max_burst self) (bk_cycle self) (bk_amount self) t = Inr b
    \<and> bucket_ok self b \<and> tb_timer b = t \<and> tb_id b = bk_id self \<and> bucket_available_tokens b t = bk_max_burst self
    \<and> bucket_level self b t = real_of_int (bk_max_burst self)"
  using assms
  by (auto simp: TokenBucket_init_def bucket_limiter_ok_def bucket_ok_def bucket_time_for_tokens_def Let_def
      bucket_available_tokens_def bucket_cycles_def bucket_level_def)

lemma set_tokens_ok:
  assumes "bucket_limiter_ok self" and "bucket_ok self b" and "tb_timer b \<le> t" and "0 \<le> n" and "n \<le> bucket_available_tokens b t"
  shows "bucket_ok self (set_tokens (bucket_available_tokens b t - n) t b)"
    and "tb_timer (set_tokens (bucket_available_tokens b t - n) t b) \<le> t"
    and "tb_id (set_tokens k t b) = tb_id b"
    and "bucket_level self (set_tokens (bucket_available_tokens b t - n) t b) t = bucket_level self b t - real_of_int n"
    and "t < tb_expires_at (set_tokens (bucket_available_tokens b t - n) t b)"
proof -
  let ?left = "bucket_available_tokens b t - n"
  let ?b = "set_tokens ?left t b"
  let ?x = "(t - tb_timer b) / bk_cycle self"
  have pos: "0 < bk_cycle self" "1 \<le> bk_amount self" "1 \<le> bk_max_burst self"
    using assms(1) by (auto simp: bucket_limiter_ok_def)
  have c: "bucket_cycles b t = \<lfloor>?x\<rfloor>" using assms(2,3) by (simp add: bucket_cycles_def bucket_ok_def)
  have left: "0 \<le> ?left" "?left \<le> bk_max_burst self"
    using assms(2,4,5) by (auto simp: bucket_available_tokens_def bucket_ok_def)
  have timer: "tb_timer ?b = tb_timer b + real_of_int (bucket_cycles b t) * bk_cycle self"
    using assms(2) by (simp add: set_tokens_def Let_def bucket_ok_def)
  have "real_of_int \<lfloor>?x\<rfloor> * bk_cycle self \<le> ?x * bk_cycle self"
    using pos(1) by (intro mult_right_mono) simp_all
  then show le: "tb_timer ?b \<le> t" using pos(1) by (simp add: timer c)
  let ?n = "\<lceil>real_of_int (bk_max_burst self) / real_of_int (bk_amount self)\<rceil>"
  have expires: "tb_expires_at ?b = t + real_of_int ?n * bk_cycle self"
    using assms(2) left by (simp add: set_tokens_def Let_def bucket_ok_def bucket_time_for_tokens_def)
  have "0 < ?n" using pos by simp
  then show "t < tb_expires_at ?b" using pos(1) by (simp add: expires)
  show "bucket_ok self ?b"
    using assms(2) left le expires by (simp add: bucket_ok_def set_tokens_def Let_def)
  show "tb_id (set_tokens k t b) = tb_id b" by (simp add: set_tokens_def Let_def)
  have "(t - tb_timer ?b) / bk_cycle self = ?x - real_of_int (bucket_cycles b t)"
    using pos(1) by (simp add: timer field_simps)
  moreover have "\<lfloor>?x - real_of_int (bucket_cycles b t)\<rfloor> = 0" unfolding c by linarith
  moreover have "tb_cycle ?b = bk_cycle self" using assms(2) by (simp add: set_tokens_def Let_def bucket_ok_def)
  ultimately have c': "bucket_cycles ?b t = 0" and x': "(t - tb_timer ?b) / bk_cycle self = ?x - real_of_int (bucket_cycles b t)"
    using le by (simp_all only: bucket_cycles_def [of ?b] max_absorb2 diff_ge_0_iff_ge)
  have "tb_burst_size ?b = bk_max_burst self" "tb_tokens ?b = ?left"
    using assms(2) by (simp_all add: set_tokens_def Let_def bucket_ok_def)
  then have "bucket_available_tokens ?b t = ?left"
    using left c' by (simp add: bucket_available_tokens_def [of ?b])
  with c' x' show "bucket_level self ?b t = bucket_level self b t - real_of_int n"
    by (simp add: bucket_level_def [of _ ?b] bucket_level_def [of _ b])
qed

text \<open>The level a limiter would find: a missing state is a full bucket.\<close>

definition bucket_view_level :: "token_bucket_limiter \<Rightarrow> real \<Rightarrow> limiter_state option \<Rightarrow> real" where
  "bucket_view_level self t v = (case v of
     Some (BucketState b) \<Rightarrow> bucket_level self b t | _ \<Rightarrow> real_of_int (bk_max_burst self))"

definition bucket_sound :: "token_bucket_limiter \<Rightarrow> real \<Rightarrow> limiter_state option \<Rightarrow> bool" where
  "bucket_sound self t v \<longleftrightarrow> bucket_limiter_ok self
     \<and> (\<forall>b. v = Some (BucketState b) \<longrightarrow> bucket_ok self b \<and> tb_timer b \<le> t \<and> tb_id b = bk_id self)"

lemma bucket_found:
  assumes "bucket_sound self t v"
  shows "\<exists>b. bucket_of self t v = Inr b \<and> bucket_ok self b \<and> tb_timer b \<le> t
    \<and> tb_id b = bk_id self \<and> bucket_view_level self t v = bucket_level self b t"
  using assms bucket_init_ok [of self t]
  by (auto simp: bucket_sound_def bucket_of_def bucket_view_level_def split: option.splits limiter_state.splits)

lemma bucket_idle:
  assumes "bucket_sound self t v" and "t \<le> t'"
  shows "bucket_view_level self t' (view_at t' v) \<le> bucket_view_level self t v + real_of_int (bk_amount self) / bk_cycle self * (t' - t)"
proof -
  have lim: "bucket_limiter_ok self" using assms by (simp add: bucket_sound_def)
  then have grow: "0 \<le> real_of_int (bk_amount self) / bk_cycle self * (t' - t)"
    using assms(2) by (simp add: bucket_limiter_ok_def)
  show ?thesis
  proof (cases "\<exists>b. v = Some (BucketState b)")
    case False
    then show ?thesis
      using grow by (auto simp: bucket_view_level_def view_at_def split: option.splits limiter_state.splits if_splits)
  next
    case True
    then obtain b where b: "v = Some (BucketState b)" by blast
    then have ok: "bucket_ok self b" "tb_timer b \<le> t" using assms(1) by (auto simp: bucket_sound_def)
    have full: "real_of_int (bk_max_burst self) \<le> bucket_level self b t'" if "tb_expires_at b \<le> t'"
      using bucket_expired_full [OF lim ok(1) that] bucket_level_bounds(1) [OF lim ok(1)] by fastforce
    show ?thesis
      using bucket_level_grows [OF lim ok assms(2)] full b by (auto simp: bucket_view_level_def view_at_def past_def)
  qed
qed

lemma bucket_wait_positive:
  assumes "bucket_limiter_ok self" and "bucket_ok self b" and "0 < k"
  shows "0 < bucket_time_for_tokens b k"
proof -
  have "0 < real_of_int k / real_of_int (bk_amount self)" using assms by (simp add: bucket_limiter_ok_def)
  then have "0 < \<lceil>real_of_int k / real_of_int (bk_amount self)\<rceil>" by linarith
  then show ?thesis using assms by (simp add: bucket_time_for_tokens_def bucket_ok_def bucket_limiter_ok_def)
qed

text \<open>What one call does: it charges the bucket when the tokens are there, and touches nothing when not.\<close>

lemma bucket_reserve_run:
  assumes "bucket_limiter_ok self" and "check_tokens n (bk_max_burst self) = Inr ()"
    and "storage_fetch (bk_id self) s = (Inr v, s1)" and "bucket_of self now v = Inr b" and "bucket_ok self b"
    and "a = bucket_available_tokens b now" and "now = st_now s"
  shows "\<exists>bk. bucket_reserve self n (Some 0) s = (Inr bk,
        if n \<noteq> 0 \<and> n \<le> a then snd (storage_save (BucketState (set_tokens (a - n) now b)) s1) else s1)
      \<and> rl_accepted (booking_limit bk) = (n \<le> a \<or> n = 0)
      \<and> (n \<noteq> 0 \<and> \<not> n \<le> a \<longrightarrow> rl_retry_after (booking_limit bk) = now + bucket_time_for_tokens b (n - a))"
proof -
  have avail: "bucket_available_tokens b now = a" "a \<le> bk_max_burst self"
    using assms(5,6) by (simp_all add: bucket_available_tokens_def bucket_ok_def)
  have le: "n \<le> bk_max_burst self" if "n \<le> a" using that avail(2) by simp
  have wait: "0 < bucket_time_for_tokens b (n - a)" if "\<not> n \<le> a"
    using bucket_wait_positive [OF assms(1,5)] that by simp
  note reserve = bucket_reserve_def assms(2,4) assms(7) [symmetric] andthen_Inr [of "storage_fetch _", OF assms(3)] avail Let_def bucket_rate_limit_def
  consider "n = 0" | "n \<noteq> 0" "n \<le> a" | "n \<noteq> 0" "\<not> n \<le> a" by blast
  then show ?thesis
    by cases (use wait assms(2) in \<open>simp_all add: reserve le\<close>)
qed

interpretation bucket: stored_policy l "bk_id self" "bucket_reserve self" "bucket_sound self" "bucket_view_level self"
  "real_of_int (bk_amount self) / bk_cycle self" "real_of_int (bk_max_burst self) + real_of_int (bk_amount self)" for l self
proof
  fix t t' v
  assume snd: "bucket_sound self t v"
  then have lim: "bucket_limiter_ok self" by (simp add: bucket_sound_def)
  then show "0 \<le> bucket_view_level self t v \<and> bucket_view_level self t v \<le> real_of_int (bk_max_burst self) + real_of_int (bk_amount self)
      \<and> 0 \<le> real_of_int (bk_amount self) / bk_cycle self"
    using bucket_found [OF snd] bucket_level_bounds [OF lim] by (fastforce simp: bucket_limiter_ok_def)
  assume "t \<le> t'"
  then show "bucket_sound self t' (view_at t' v) \<and> bucket_view_level self t' (view_at t' v)
      \<le> bucket_view_level self t v + real_of_int (bk_amount self) / bk_cycle self * (t' - t)"
    using bucket_idle [OF snd] snd by (auto simp: bucket_sound_def view_at_def split: option.splits if_splits)
next
  fix s v s1 n e s'
  assume fetch: "storage_fetch (bk_id self) s = (Inr v, s1)" and snd: "bucket_sound self (st_now s) v"
    and run: "bucket_reserve self n (Some 0) s = (Inl e, s')"
  obtain b where b: "bucket_of self (st_now s) v = Inr b" "bucket_ok self b" using bucket_found [OF snd] by blast
  have lim: "bucket_limiter_ok self" using snd by (simp add: bucket_sound_def)
  show "s' = s \<or> s' = s1"
  proof (cases "check_tokens n (bk_max_burst self)")
    case (Inl x)
    then show ?thesis using run by (simp add: bucket_reserve_def)
  next
    case (Inr x)
    then show ?thesis using bucket_reserve_run [OF lim _ fetch b refl refl, of n] run by simp
  qed
next
  fix s v s1 n bk s'
  assume fetch: "storage_fetch (bk_id self) s = (Inr v, s1)" and snd: "bucket_sound self (st_now s) v"
    and run: "bucket_reserve self n (Some 0) s = (Inr bk, s')"
  have lim: "bucket_limiter_ok self" using snd by (simp add: bucket_sound_def)
  obtain b where b: "bucket_of self (st_now s) v = Inr b" "bucket_ok self b" "tb_timer b \<le> st_now s" "tb_id b = bk_id self"
    "bucket_view_level self (st_now s) v = bucket_level self b (st_now s)"
    using bucket_found [OF snd] by blast
  have check: "check_tokens n (bk_max_burst self) = Inr ()"
    using run by (cases "check_tokens n (bk_max_burst self)") (simp_all add: bucket_reserve_def)
  then have n: "0 \<le> n" by (auto simp: check_tokens_def split: if_splits)
  define a where "a = bucket_available_tokens b (st_now s)"
  note ran = bucket_reserve_run [OF lim check fetch b(1,2) a_def refl]
  note kept = set_tokens_ok [OF lim b(2,3) n, folded a_def]
  show "s' = s1 \<and> grant (Inr (booking_limit bk)) n = 0
      \<or> (\<exists>st. s' = snd (storage_save st s1) \<and> state_id st = bk_id self \<and> \<not> past (state_expires_at st) (st_now s)
          \<and> bucket_sound self (st_now s) (Some st)
          \<and> bucket_view_level self (st_now s) (Some st) + real_of_int (grant (Inr (booking_limit bk)) n)
            \<le> bucket_view_level self (st_now s) v)"
  proof (cases "n \<noteq> 0 \<and> n \<le> a")
    case True
    then show ?thesis
      using ran run kept lim b(4,5)
      by (intro disjI2 exI [of _ "BucketState (set_tokens (a - n) (st_now s) b)"])
        (simp add: past_def bucket_sound_def bucket_view_level_def)
  next
    case False
    then show ?thesis using ran run by auto
  qed
qed

text \<open>
  C16: a token bucket never grants more than the bucket holds plus what the rate has added: for a key that
  has no state yet, whatever calls are made, the tokens granted up to \<open>t1\<close> are at most
  \<open>max_burst + amount * (t1 - t0) / cycle\<close>, and in any later span at most \<open>max_burst + amount\<close> more than the
  rate adds during the span. Expiry of the state and the sweeps of the storage give nothing away.
\<close>

theorem token_bucket_rate:
  assumes "TokenBucketLimiter_init i max_burst cycle amount = Inr self" and "0 < cycle" and "1 \<le> amount" and "free_lock l"
    and "states_ok s" and "st_now s \<le> t0" and "visible_at t0 s i = None" and "in_order t0 before t1" and "in_order t1 calls t2"
    and "consume = stored_consume l (bucket_reserve self)"
  shows "real_of_int (sum_list (granted consume before s)) \<le> real_of_int max_burst + real_of_int amount / cycle * (t1 - t0)
    \<and> real_of_int (sum_list (granted consume calls (after_calls consume before s)))
      \<le> real_of_int max_burst + real_of_int amount + real_of_int amount / cycle * (t2 - t1)"
proof -
  have self: "self = \<lparr>bk_id = i, bk_max_burst = max_burst, bk_cycle = cycle, bk_amount = amount\<rparr>" and "1 \<le> max_burst"
    using assms(1) by (auto simp: TokenBucketLimiter_init_def check_limit_def split: if_splits)
  then have fresh: "bucket_sound self t0 None" using assms(2,3) by (simp add: bucket_sound_def bucket_limiter_ok_def)
  show ?thesis
    using bucket.fresh_total [OF assms(4-6) _ fresh assms(8)] bucket.fresh_span [OF assms(4-6) _ fresh assms(8-10)] assms(7,10) self
    by (simp add: bucket_view_level_def)
qed

text \<open>Waiting as told is enough: the tokens missing now are there when the wait is over.\<close>

lemma bucket_available_after_wait:
  assumes "bucket_limiter_ok self" and "bucket_ok self b" and "tb_timer b \<le> t" and "n \<le> bk_max_burst self"
    and "bucket_available_tokens b t < n"
  shows "n \<le> bucket_available_tokens b (t + bucket_time_for_tokens b (n - bucket_available_tokens b t))"
proof -
  note ok = assms(1,2) [unfolded bucket_limiter_ok_def bucket_ok_def]
  let ?a = "bucket_available_tokens b t"
  define m where "m = \<lceil>real_of_int (n - ?a) / real_of_int (bk_amount self)\<rceil>"
  have "real_of_int (n - ?a) / real_of_int (bk_amount self) \<le> real_of_int m" by (simp add: m_def)
  then have "real_of_int (n - ?a) \<le> real_of_int (m * bk_amount self)" using ok by (simp add: pos_divide_le_eq)
  then have enough: "n - ?a \<le> m * bk_amount self" by (simp only: of_int_le_iff)
  have "0 < m" using assms(5) ok by (simp add: m_def)
  then have later: "t \<le> t + real_of_int m * bk_cycle self" using ok by simp
  have "(t + real_of_int m * bk_cycle self - tb_timer b) / bk_cycle self = (t - tb_timer b) / bk_cycle self + real_of_int m"
    using ok by (simp add: field_simps)
  then have "bucket_cycles b (t + real_of_int m * bk_cycle self) = bucket_cycles b t + m"
    using ok assms(3) later by (simp add: bucket_cycles_def)
  moreover have "?a = tb_tokens b + bucket_cycles b t * bk_amount self"
    using assms(4,5) ok by (simp add: bucket_available_tokens_def min_def split: if_splits)
  ultimately have "n \<le> bucket_available_tokens b (t + real_of_int m * bk_cycle self)"
    using enough assms(4) ok by (simp add: bucket_available_tokens_def algebra_simps)
  then show ?thesis using ok by (simp add: bucket_time_for_tokens_def m_def)
qed

lemma fetch_later:
  assumes "states_ok s" and "st_now s \<le> t"
  shows "\<exists>s'. storage_fetch i (s\<lparr>st_now := t\<rparr>) = (Inr (view_at t (visible_at (st_now s) s i)), s')"
  using fetch_run [of "s\<lparr>st_now := t\<rparr>" i] assms visible_later [OF assms, of i] by (auto simp: view_at_def)

lemma bucket_after_wait:
  assumes "bucket_sound self t v" and "bucket_of self t v = Inr b" and "n \<le> bk_max_burst self"
    and "bucket_available_tokens b t < n" and "t' = t + bucket_time_for_tokens b (n - bucket_available_tokens b t)"
  shows "\<exists>b'. bucket_of self t' (view_at t' v) = Inr b' \<and> bucket_ok self b' \<and> n \<le> bucket_available_tokens b' t'"
proof -
  have lim: "bucket_limiter_ok self" using assms(1) by (simp add: bucket_sound_def)
  have b: "bucket_ok self b" "tb_timer b \<le> t" using bucket_found [OF assms(1)] assms(2) by auto
  have later: "t \<le> t'" using bucket_wait_positive [OF lim b(1)] assms(4,5) by (simp add: less_imp_le)
  obtain b' where b': "bucket_of self t' (view_at t' v) = Inr b'" "bucket_ok self b'"
    using bucket_found bucket.idle [OF assms(1) later] by blast
  have "n \<le> bucket_available_tokens b' t'"
  proof (cases "\<exists>c. view_at t' v = Some (BucketState c)")
    case True
    then have "b' = b" using assms(2) b'(1) by (auto simp: bucket_of_def view_at_def split: option.splits if_splits)
    then show ?thesis using bucket_available_after_wait [OF lim b assms(3,4)] assms(5) by simp
  next
    case False
    then have "bucket_of self t' (view_at t' v) = TokenBucket_init (bk_id self) (bk_max_burst self) (bk_cycle self) (bk_amount self) t'"
      by (auto simp: bucket_of_def split: option.splits limiter_state.splits)
    then show ?thesis using bucket_init_ok [OF lim, of t'] b'(1) assms(3) by auto
  qed
  with b' show ?thesis by blast
qed

lemma bucket_refused_then_retry:
  assumes "bucket.world_ok l self s (st_now s)" and "stored_consume l (bucket_reserve self) n s = (Inr limit, s1)" and "\<not> rl_accepted limit"
  shows "st_now s < rl_retry_after limit \<and>
    (\<exists>limit' s2. stored_consume l (bucket_reserve self) n (s1\<lparr>st_now := rl_retry_after limit\<rparr>) = (Inr limit', s2) \<and> rl_accepted limit')"
proof -
  define t where "t = st_now s"
  define v where "v = visible_at t s (bk_id self)"
  have free: "free_lock l" and st: "states_ok s" and snd: "bucket_sound self t v"
    using assms(1) by (simp_all add: bucket.world_ok_def t_def v_def)
  have lim: "bucket_limiter_ok self" using snd by (simp add: bucket_sound_def)
  obtain b where b: "bucket_of self t v = Inr b" "bucket_ok self b" using bucket_found [OF snd] by blast
  obtain r1 where fetch: "storage_fetch (bk_id self) s = (Inr v, r1)" "states_ok r1" "st_now r1 = t" "visible_at t r1 (bk_id self) = v"
    using fetch_run [OF st, of "bk_id self"] by (auto simp: t_def v_def)
  have check: "check_tokens n (bk_max_burst self) = Inr ()"
    using assms(2) stored_consume_error [OF free, of "bucket_reserve self" n s]
    by (cases "check_tokens n (bk_max_burst self)") (auto simp: bucket_reserve_def)
  then have n: "n \<le> bk_max_burst self" by (auto simp: check_tokens_def split: if_splits)
  define a where "a = bucket_available_tokens b t"
  note ran = bucket_reserve_run [OF lim check fetch(1) b a_def t_def]
  have no: "n \<noteq> 0" "\<not> n \<le> a" "s1 = r1" "rl_retry_after limit = t + bucket_time_for_tokens b (n - a)"
    using ran stored_consume_run [of l "bucket_reserve self" n s, OF free] assms(2,3) by (auto split: if_splits)
  define t' where "t' = t + bucket_time_for_tokens b (n - a)"
  have later: "t < t'" using bucket_wait_positive [OF lim b(2), of "n - a"] no(2) by (simp add: t'_def)
  obtain r2 where fetch2: "storage_fetch (bk_id self) (r1\<lparr>st_now := t'\<rparr>) = (Inr (view_at t' v), r2)"
    using fetch_later [OF fetch(2), of t' "bk_id self"] fetch(3,4) later by auto
  obtain b' where b': "bucket_of self t' (view_at t' v) = Inr b'" "bucket_ok self b'" "n \<le> bucket_available_tokens b' t'"
    using bucket_after_wait [OF snd b(1) n, of t'] no(2) by (auto simp: a_def t'_def)
  obtain bk2 r3 where "bucket_reserve self n (Some 0) (r1\<lparr>st_now := t'\<rparr>) = (Inr bk2, r3)" "rl_accepted (booking_limit bk2)"
    using bucket_reserve_run [OF lim check fetch2 b'(1,2) refl] b'(3) by auto
  then show ?thesis
    using stored_consume_run [of l "bucket_reserve self" n, OF free] no(3,4) later by (auto simp: t'_def t_def)
qed

text \<open>
  A token bucket's \<open>retry_after\<close> is true: whatever was asked before, a call refused at \<open>t\<close> names a
  later instant, and the same call made at that instant, with nothing consumed in between, is accepted.
\<close>

theorem token_bucket_retry_succeeds:
  assumes "TokenBucketLimiter_init i max_burst cycle amount = Inr self" and "0 < cycle" and "1 \<le> amount" and "free_lock l"
    and "states_ok s" and "st_now s \<le> t0" and "visible_at t0 s i = None" and "in_order t0 before t"
    and "consume = stored_consume l (bucket_reserve self)"
    and "consume n ((after_calls consume before s)\<lparr>st_now := t\<rparr>) = (Inr limit, s1)" and "\<not> rl_accepted limit"
  shows "t < rl_retry_after limit \<and>
    (\<exists>limit' s2. consume n (s1\<lparr>st_now := rl_retry_after limit\<rparr>) = (Inr limit', s2) \<and> rl_accepted limit')"
proof -
  have self: "self = \<lparr>bk_id = i, bk_max_burst = max_burst, bk_cycle = cycle, bk_amount = amount\<rparr>" and "1 \<le> max_burst"
    using assms(1) by (auto simp: TokenBucketLimiter_init_def check_limit_def split: if_splits)
  then have "bucket_sound self t0 None" using assms(2,3) by (simp add: bucket_sound_def bucket_limiter_ok_def)
  moreover have "bk_id self = i" using self by simp
  ultimately have "bucket.world_ok l self s t0" 
    unfolding bucket.world_ok_def using assms(4-7) by simp
  then have "bucket.world_ok l self (after_calls consume before s) t"
    using bucket.ok_after [OF _ assms(8)] assms(9) by simp
  then have "bucket.world_ok l self ((after_calls consume before s)\<lparr>st_now := t\<rparr>) t"
    by (simp add: bucket.world_ok_def)
  then show ?thesis
    using bucket_refused_then_retry [of l self "(after_calls consume before s)\<lparr>st_now := t\<rparr>" n limit s1] assms(9-11) by simp
qed

end
