(* ===== verification/Limiter_Windows.thy ===== *)
theory Limiter_Windows
  imports Limiter_Bounds
begin

text \<open>
  The fixed window without an anchor and the sliding window as policies over the storage: how many
  tokens each grants in a span, and where the sliding window departs from what it says of itself.
\<close>

section \<open>The fixed window\<close>

definition fixed_limiter_ok :: "fixed_window_limiter \<Rightarrow> bool" where
  "fixed_limiter_ok self \<longleftrightarrow> 1 \<le> fw_limit self \<and> 0 < fw_interval self \<and> fw_period_around self = None"

definition window_ok :: "fixed_window_limiter \<Rightarrow> window \<Rightarrow> bool" where
  "window_ok self w \<longleftrightarrow> wi_id w = fw_id self \<and> wi_max_size w = fw_limit self \<and> wi_interval w = fw_interval self
     \<and> 0 \<le> wi_hit_count w \<and> wi_hit_count w \<le> fw_limit self \<and> wi_timer w + fw_interval self \<le> wi_expires_at w"

text \<open>What is left in the window, and the share of the next window's limit already elapsed.\<close>

definition window_level :: "fixed_window_limiter \<Rightarrow> window \<Rightarrow> real \<Rightarrow> real" where
  "window_level self w t = (if t - wi_timer w < fw_interval self
     then real_of_int (fw_limit self - wi_hit_count w) + real_of_int (fw_limit self) * ((t - wi_timer w) / fw_interval self)
     else real_of_int (fw_limit self))"

definition window_view_level :: "fixed_window_limiter \<Rightarrow> real \<Rightarrow> limiter_state option \<Rightarrow> real" where
  "window_view_level self t v = (case v of
     Some (WindowState w) \<Rightarrow> window_level self w t | _ \<Rightarrow> real_of_int (fw_limit self))"

definition window_sound :: "fixed_window_limiter \<Rightarrow> real \<Rightarrow> limiter_state option \<Rightarrow> bool" where
  "window_sound self t v \<longleftrightarrow> fixed_limiter_ok self
     \<and> (\<forall>w. v = Some (WindowState w) \<longrightarrow> window_ok self w \<and> wi_timer w \<le> t)"

lemma window_level_bounds:
  assumes "fixed_limiter_ok self" and "window_ok self w" and "wi_timer w \<le> t"
  shows "0 \<le> window_level self w t" and "window_level self w t \<le> 2 * real_of_int (fw_limit self)"
proof -
  have pos: "0 < fw_interval self" "1 \<le> fw_limit self" "0 \<le> wi_hit_count w" "wi_hit_count w \<le> fw_limit self"
    using assms by (auto simp: fixed_limiter_ok_def window_ok_def)
  have "0 \<le> real_of_int (fw_limit self) * ((t - wi_timer w) / fw_interval self)" using assms(3) pos by simp
  moreover have "real_of_int (fw_limit self) * ((t - wi_timer w) / fw_interval self) \<le> real_of_int (fw_limit self)"
    if "t - wi_timer w < fw_interval self" by (rule mult_left_le) (use that pos in simp_all)
  ultimately show "0 \<le> window_level self w t" and "window_level self w t \<le> 2 * real_of_int (fw_limit self)"
    using pos by (auto simp: window_level_def)
qed

lemma window_level_grows:
  assumes "fixed_limiter_ok self" and "window_ok self w" and "wi_timer w \<le> t" and "t \<le> t'"
  shows "window_level self w t' \<le> window_level self w t + real_of_int (fw_limit self) / fw_interval self * (t' - t)"
    and "fw_interval self \<le> t' - wi_timer w
      \<Longrightarrow> real_of_int (fw_limit self) \<le> window_level self w t + real_of_int (fw_limit self) / fw_interval self * (t' - t)"
proof -
  let ?l = "real_of_int (fw_limit self)" and ?i = "fw_interval self"
  have pos: "0 < ?i" "1 \<le> fw_limit self" "0 \<le> wi_hit_count w" "wi_hit_count w \<le> fw_limit self"
    using assms by (auto simp: fixed_limiter_ok_def window_ok_def)
  have grow: "0 \<le> ?l / ?i * (t' - t)" using pos assms(4) by simp
  have split: "?l * ((t' - wi_timer w) / ?i) = ?l * ((t - wi_timer w) / ?i) + ?l / ?i * (t' - t)"
    using pos(1) by (simp add: field_simps)
  have whole: "?l \<le> ?l * ((t' - wi_timer w) / ?i)" if "?i \<le> t' - wi_timer w" using that pos by (simp add: le_divide_eq)
  show over: "?l \<le> window_level self w t + ?l / ?i * (t' - t)" if "?i \<le> t' - wi_timer w"
    using whole [OF that] split pos grow by (auto simp: window_level_def)
  show "window_level self w t' \<le> window_level self w t + ?l / ?i * (t' - t)"
  proof (cases "t' - wi_timer w < ?i")
    case True
    then show ?thesis using split assms(4) by (simp add: window_level_def)
  next
    case False
    then show ?thesis using over by (simp add: window_level_def)
  qed
qed

lemma window_idle:
  assumes "window_sound self t v" and "t \<le> t'"
  shows "window_view_level self t' (view_at t' v) \<le> window_view_level self t v + real_of_int (fw_limit self) / fw_interval self * (t' - t)"
proof -
  have lim: "fixed_limiter_ok self" using assms by (simp add: window_sound_def)
  then have grow: "0 \<le> real_of_int (fw_limit self) / fw_interval self * (t' - t)"
    using assms(2) by (simp add: fixed_limiter_ok_def)
  show ?thesis
  proof (cases "\<exists>w. v = Some (WindowState w)")
    case False
    then show ?thesis
      using grow by (auto simp: window_view_level_def view_at_def split: option.splits limiter_state.splits if_splits)
  next
    case True
    then obtain w where w: "v = Some (WindowState w)" by blast
    then have ok: "window_ok self w" "wi_timer w \<le> t" using assms(1) by (auto simp: window_sound_def)
    have "fw_interval self \<le> t' - wi_timer w" if "wi_expires_at w \<le> t'" using that ok(1) by (simp add: window_ok_def)
    then show ?thesis
      using window_level_grows [OF lim ok assms(2)] w by (auto simp: window_view_level_def view_at_def past_def)
  qed
qed

text \<open>The window a call works on, with the tokens it has left.\<close>

lemma window_found:
  assumes "window_sound self t v"
  shows "\<exists>w. fixed_window self t v = Rolling w \<and> window_ok self w \<and> wi_timer w \<le> t
    \<and> window_view_level self t v = window_level self w t"
  using assms
  by (auto simp: window_sound_def fixed_limiter_ok_def fixed_window_def window_view_level_def window_ok_def Window_init_def window_level_def
      split: option.splits limiter_state.splits)

lemma window_carried:
  assumes "fixed_limiter_ok self" and "window_ok self w"
  shows "carried_hit_count w t = (if t - wi_timer w < fw_interval self then wi_hit_count w else 0)"
proof (cases "t - wi_timer w < fw_interval self")
  case True
  then show ?thesis using assms by (simp add: carried_hit_count_def window_ok_def)
next
  case False
  then have "1 \<le> (t - wi_timer w) / fw_interval self" using assms by (simp add: fixed_limiter_ok_def)
  then have "1 \<le> \<lfloor>(t - wi_timer w) / fw_interval self\<rfloor>" by simp
  then have "fw_limit self \<le> \<lfloor>(t - wi_timer w) / fw_interval self\<rfloor> * fw_limit self"
    using assms(1) by (simp add: fixed_limiter_ok_def)
  then show ?thesis using False assms by (simp add: carried_hit_count_def window_ok_def Let_def)
qed

lemma window_add_ok:
  assumes "fixed_limiter_ok self" and "window_ok self w" and "wi_timer w \<le> t" and "0 \<le> n" and "n \<le> window_available_tokens w t"
  shows "window_ok self (window_add n t w)" and "wi_timer (window_add n t w) \<le> t" and "t < wi_expires_at (window_add n t w)"
    and "window_level self (window_add n t w) t = window_level self w t - real_of_int n"
proof -
  note ok = assms(1,2) [unfolded fixed_limiter_ok_def window_ok_def]
  note carried = window_carried [OF assms(1,2)]
  have avail: "n \<le> fw_limit self - carried_hit_count w t" using assms(5) ok by (simp add: window_available_tokens_def)
  let ?w = "window_add n t w"
  define k where "k = max 1 \<lceil>real_of_int (carried_hit_count w t + n) / real_of_int (fw_limit self)\<rceil>"
  have fields: "wi_hit_count ?w = carried_hit_count w t + n" "wi_id ?w = wi_id w" "wi_max_size ?w = fw_limit self" "wi_interval ?w = fw_interval self"
      "wi_timer ?w = (if t - wi_timer w < fw_interval self then wi_timer w else t)" "wi_expires_at ?w = t + fw_interval self * real_of_int k"
    using ok carried [of t] assms(4) by (auto simp: window_add_def Let_def k_def)
  have k: "fw_interval self \<le> fw_interval self * real_of_int k" using ok by (simp add: k_def)
  have "wi_timer ?w + fw_interval self \<le> wi_expires_at ?w" using k assms(3) by (auto simp: fields)
  then show "window_ok self ?w"
    using ok avail assms(4) carried [of t] by (auto simp: window_ok_def fields(1-4))
  show "wi_timer ?w \<le> t" using assms(3) by (simp add: fields)
  show "t < wi_expires_at ?w" using k ok by (simp add: fields)
  show "window_level self ?w t = window_level self w t - real_of_int n"
    using ok carried [of t] by (auto simp: window_level_def fields)
qed

lemma window_wait_positive:
  assumes "fixed_limiter_ok self" and "window_ok self w" and "wi_timer w \<le> t" and "n \<le> fw_limit self" and "\<not> n \<le> window_available_tokens w t"
  shows "0 < window_time_for_tokens w n t"
proof -
  note ok = assms(1,2) [unfolded fixed_limiter_ok_def window_ok_def]
  have inside: "t - wi_timer w < fw_interval self" and over: "fw_limit self < wi_hit_count w + n"
    using assms(4,5) ok window_carried [OF assms(1,2), of t] by (auto simp: window_available_tokens_def split: if_splits)
  define k where "k = \<lceil>real_of_int (wi_hit_count w + n) / real_of_int (fw_limit self)\<rceil> - 1"
  have "1 < real_of_int (wi_hit_count w + n) / real_of_int (fw_limit self)"
    using over ok by (simp add: less_divide_eq del: of_int_add)
  then have "1 \<le> k" unfolding k_def by linarith
  then have "fw_interval self \<le> fw_interval self * real_of_int k" using ok by simp
  moreover have "window_availability_time w n t = wi_timer w + fw_interval self * real_of_int k"
    using over ok by (simp add: window_availability_time_def k_def Let_def)
  ultimately show ?thesis using inside by (simp add: window_time_for_tokens_def)
qed

lemma fixed_reserve_run:
  assumes "fixed_limiter_ok self" and "check_tokens n (fw_limit self) = Inr ()"
    and "storage_fetch (fw_id self) s = (Inr v, s1)" and "fixed_window self now v = Rolling w" and "window_ok self w" and "wi_timer w \<le> now"
    and "a = window_available_tokens w now" and "now = st_now s"
  shows "\<exists>bk. fixed_reserve self n (Some 0) s = (Inr bk,
        if n \<noteq> 0 \<and> n \<le> a then snd (storage_save (WindowState (window_add n now w)) s1) else s1)
      \<and> rl_accepted (booking_limit bk) = (n \<le> a \<or> n = 0)
      \<and> (n \<noteq> 0 \<and> \<not> n \<le> a \<longrightarrow> rl_retry_after (booking_limit bk) = now + window_time_for_tokens w n now)"
proof -
  have now: "st_now s1 = now"
    using assms(3,8) by (auto simp: storage_fetch_def split: option.splits if_splits)
  have wait: "0 < window_time_for_tokens w n now" if "\<not> n \<le> a"
    using window_wait_positive [OF assms(1,5,6)] that assms(2,7) by (auto simp: check_tokens_def split: if_splits)
  note reserve = fixed_reserve_def assms(2,4) assms(7) [symmetric] now andthen_Inr [of "storage_fetch _", OF assms(3)] Let_def fixed_rate_limit_def
  consider "n = 0" | "n \<noteq> 0" "n \<le> a" | "n \<noteq> 0" "\<not> n \<le> a" by blast
  then show ?thesis
    by cases (use wait assms(2) in \<open>simp_all add: reserve\<close>)
qed

interpretation window: stored_policy l "fw_id self" "fixed_reserve self" "window_sound self" "window_view_level self"
  "real_of_int (fw_limit self) / fw_interval self" "2 * real_of_int (fw_limit self)" for l self
proof
  fix t t' v
  assume snd: "window_sound self t v"
  then have lim: "fixed_limiter_ok self" by (simp add: window_sound_def)
  then show "0 \<le> window_view_level self t v \<and> window_view_level self t v \<le> 2 * real_of_int (fw_limit self)
      \<and> 0 \<le> real_of_int (fw_limit self) / fw_interval self"
    using window_found [OF snd] window_level_bounds [OF lim] by (fastforce simp: fixed_limiter_ok_def)
  assume "t \<le> t'"
  then show "window_sound self t' (view_at t' v) \<and> window_view_level self t' (view_at t' v)
      \<le> window_view_level self t v + real_of_int (fw_limit self) / fw_interval self * (t' - t)"
    using window_idle [OF snd] snd by (auto simp: window_sound_def view_at_def split: option.splits if_splits)
next
  fix s v s1 n e s'
  assume fetch: "storage_fetch (fw_id self) s = (Inr v, s1)" and snd: "window_sound self (st_now s) v"
    and run: "fixed_reserve self n (Some 0) s = (Inl e, s')"
  obtain w where w: "fixed_window self (st_now s) v = Rolling w" "window_ok self w" "wi_timer w \<le> st_now s"
    using window_found [OF snd] by blast
  have lim: "fixed_limiter_ok self" using snd by (simp add: window_sound_def)
  show "s' = s \<or> s' = s1"
  proof (cases "check_tokens n (fw_limit self)")
    case (Inl x)
    then show ?thesis using run by (simp add: fixed_reserve_def)
  next
    case (Inr x)
    then show ?thesis using fixed_reserve_run [OF lim _ fetch w refl refl, of n] run by simp
  qed
next
  fix s v s1 n bk s'
  assume fetch: "storage_fetch (fw_id self) s = (Inr v, s1)" and snd: "window_sound self (st_now s) v"
    and run: "fixed_reserve self n (Some 0) s = (Inr bk, s')"
  have lim: "fixed_limiter_ok self" using snd by (simp add: window_sound_def)
  obtain w where w: "fixed_window self (st_now s) v = Rolling w" "window_ok self w" "wi_timer w \<le> st_now s"
    "window_view_level self (st_now s) v = window_level self w (st_now s)"
    using window_found [OF snd] by blast
  have check: "check_tokens n (fw_limit self) = Inr ()"
    using run by (cases "check_tokens n (fw_limit self)") (simp_all add: fixed_reserve_def)
  then have n: "0 \<le> n" by (auto simp: check_tokens_def split: if_splits)
  define a where "a = window_available_tokens w (st_now s)"
  note ran = fixed_reserve_run [OF lim check fetch w(1-3) a_def refl]
  note kept = window_add_ok [OF lim w(2,3) n, folded a_def]
  show "s' = s1 \<and> grant (Inr (booking_limit bk)) n = 0
      \<or> (\<exists>st. s' = snd (storage_save st s1) \<and> state_id st = fw_id self \<and> \<not> past (state_expires_at st) (st_now s)
          \<and> window_sound self (st_now s) (Some st)
          \<and> window_view_level self (st_now s) (Some st) + real_of_int (grant (Inr (booking_limit bk)) n)
            \<le> window_view_level self (st_now s) v)"
  proof (cases "n \<noteq> 0 \<and> n \<le> a")
    case True
    then have "wi_id (window_add n (st_now s) w) = fw_id self" using kept(1) by (simp add: window_ok_def)
    then show ?thesis
      using True ran run kept lim w(4)
      by (intro disjI2 exI [of _ "WindowState (window_add n (st_now s) w)"])
        (simp add: past_def window_sound_def window_view_level_def)
  next
    case False
    then show ?thesis using ran run by auto
  qed
qed

text \<open>
  C23: a fixed window without an anchor grants, in any span and whatever was asked before it, at most
  twice the limit more than the limit's share of the span; from a moment at which the key has no state, at
  most once the limit more.
\<close>

theorem fixed_window_rate:
  assumes "FixedWindowLimiter_init i limit interval months None = Inr self" and "0 < interval" and "free_lock l"
    and "states_ok s" and "st_now s \<le> t0" and "visible_at t0 s i = None" and "in_order t0 before t1" and "in_order t1 calls t2"
    and "consume = stored_consume l (fixed_reserve self)"
  shows "real_of_int (sum_list (granted consume calls (after_calls consume before s)))
      \<le> 2 * real_of_int limit + real_of_int limit / interval * (t2 - t1)
    \<and> real_of_int (sum_list (granted consume before s)) \<le> real_of_int limit + real_of_int limit / interval * (t1 - t0)"
proof -
  have self: "self = \<lparr>fw_id = i, fw_limit = limit, fw_interval = interval, fw_period_around = None\<rparr>" and "1 \<le> limit"
    using assms(1) by (auto simp: FixedWindowLimiter_init_def check_limit_def split: if_splits)
  then have fresh: "window_sound self t0 None" using assms(2) by (simp add: window_sound_def fixed_limiter_ok_def)
  show ?thesis
    using window.fresh_span [OF assms(3-5) _ fresh assms(7-9)] window.fresh_total [OF assms(3-5) _ fresh assms(7)] assms(6,9) self
    by (simp add: window_view_level_def)
qed

section \<open>The sliding window\<close>

definition sliding_limiter_ok :: "sliding_window_limiter \<Rightarrow> bool" where
  "sliding_limiter_ok self \<longleftrightarrow> 1 \<le> sw_limit self \<and> 0 < sw_interval self"

definition sliding_ok :: "sliding_window_limiter \<Rightarrow> sliding_window \<Rightarrow> bool" where
  "sliding_ok self w \<longleftrightarrow> sl_id w = sw_id self \<and> sl_interval w = sw_interval self \<and> 0 \<le> sl_hit_count w \<and> 0 \<le> sl_last w"

definition sliding_sound :: "sliding_window_limiter \<Rightarrow> real \<Rightarrow> limiter_state option \<Rightarrow> bool" where
  "sliding_sound self t v \<longleftrightarrow> sliding_limiter_ok self
     \<and> (\<forall>w. v = Some (SlidingState w) \<longrightarrow> sliding_ok self w \<and> sl_window_end_at w - sw_interval self \<le> t)"

definition sliding_level :: "sliding_window_limiter \<Rightarrow> sliding_window \<Rightarrow> real \<Rightarrow> real" where
  "sliding_level self w t = real_of_int (sw_limit self - min (sl_hit_count w) (sw_limit self))
     + real_of_int (sw_limit self) * ((t - (sl_window_end_at w - sw_interval self)) / sw_interval self)"

definition sliding_view_level :: "sliding_window_limiter \<Rightarrow> real \<Rightarrow> limiter_state option \<Rightarrow> real" where
  "sliding_view_level self t v = (case sliding_window_of self t v of Inl e \<Rightarrow> 0 | Inr w \<Rightarrow> sliding_level self w t)"

lemma sliding_found:
  assumes "sliding_sound self t v"
  shows "\<exists>w. sliding_window_of self t v = Inr w \<and> sliding_ok self w \<and> sl_window_end_at w - sw_interval self \<le> t \<and> t \<le> sl_window_end_at w"
proof (cases "\<exists>w. v = Some (SlidingState w)")
  case True
  then obtain w where w: "v = Some (SlidingState w)" by blast
  then have ok: "0 < sw_interval self" "sliding_ok self w" "sl_window_end_at w - sw_interval self \<le> t"
    using assms by (auto simp: sliding_sound_def sliding_limiter_ok_def)
  show ?thesis
  proof (cases "sliding_is_expired w t")
    case True
    then show ?thesis
      using w ok by (simp add: sliding_window_of_def from_previous_window_def SlidingWindow_init_def sliding_ok_def sliding_is_expired_def Let_def)
  next
    case False
    then show ?thesis using w ok by (simp add: sliding_window_of_def sliding_is_expired_def)
  qed
next
  case False
  then have "sliding_window_of self t v = SlidingWindow_init (sw_id self) (sw_interval self) t"
    by (auto simp: sliding_window_of_def split: option.splits limiter_state.splits)
  then show ?thesis using assms by (simp add: sliding_sound_def sliding_limiter_ok_def SlidingWindow_init_def sliding_ok_def)
qed

lemma sliding_view_None: "sliding_limiter_ok self \<Longrightarrow> (\<And>w. v \<noteq> Some (SlidingState w)) \<Longrightarrow> sliding_view_level self t v = real_of_int (sw_limit self)"
  by (auto simp: sliding_limiter_ok_def sliding_view_level_def sliding_window_of_def SlidingWindow_init_def sliding_level_def
      split: option.splits limiter_state.splits)

lemma sliding_view_Some:
  assumes "sliding_limiter_ok self" and "sliding_ok self w"
  shows "sliding_view_level self t (Some (SlidingState w)) =
    (if t \<le> sl_window_end_at w then sliding_level self w t
     else if t < sl_window_end_at w + sw_interval self
     then real_of_int (sw_limit self) + real_of_int (sw_limit self) * ((t - sl_window_end_at w) / sw_interval self)
     else real_of_int (sw_limit self))"
  using assms
  by (auto simp: sliding_view_level_def sliding_window_of_def sliding_is_expired_def from_previous_window_def SlidingWindow_init_def
      sliding_limiter_ok_def sliding_level_def Let_def)

lemma sliding_level_bounds:
  assumes "sliding_sound self t v"
  shows "0 \<le> sliding_view_level self t v" and "sliding_view_level self t v \<le> 2 * real_of_int (sw_limit self)"
proof -
  obtain w where w: "sliding_window_of self t v = Inr w" "sliding_ok self w" "sl_window_end_at w - sw_interval self \<le> t" "t \<le> sl_window_end_at w"
    using sliding_found [OF assms] by blast
  have pos: "0 < sw_interval self" "1 \<le> sw_limit self" using assms by (auto simp: sliding_sound_def sliding_limiter_ok_def)
  let ?x = "(t - (sl_window_end_at w - sw_interval self)) / sw_interval self"
  have "0 \<le> ?x" "?x \<le> 1" using w(3,4) pos(1) by simp_all
  then have "0 \<le> real_of_int (sw_limit self) * ?x" "real_of_int (sw_limit self) * ?x \<le> real_of_int (sw_limit self)"
    using pos(2) by (intro mult_nonneg_nonneg mult_left_le; simp)+
  then show "0 \<le> sliding_view_level self t v" and "sliding_view_level self t v \<le> 2 * real_of_int (sw_limit self)"
    using w(1,2) by (auto simp: sliding_view_level_def sliding_level_def sliding_ok_def min_def)
qed

lemma sliding_idle_kept:
  assumes "sliding_limiter_ok self" and "sliding_ok self w" and "sl_window_end_at w - sw_interval self \<le> t" and "t \<le> t'"
  shows "sliding_view_level self t' (Some (SlidingState w))
      \<le> sliding_view_level self t (Some (SlidingState w)) + real_of_int (sw_limit self) / sw_interval self * (t' - t)"
    and "sl_window_end_at w + sw_interval self \<le> t'
      \<Longrightarrow> real_of_int (sw_limit self) \<le> sliding_view_level self t (Some (SlidingState w)) + real_of_int (sw_limit self) / sw_interval self * (t' - t)"
proof -
  let ?l = "real_of_int (sw_limit self)" and ?i = "sw_interval self" and ?e = "sl_window_end_at w"
  have pos: "0 < ?i" "1 \<le> sw_limit self" "0 \<le> sl_hit_count w" using assms by (auto simp: sliding_limiter_ok_def sliding_ok_def)
  have grow: "0 \<le> ?l / ?i * (t' - t)" using pos assms(4) by simp
  have left: "0 \<le> ?l - real_of_int (min (sl_hit_count w) (sw_limit self))" by simp
  have share: "?l * ((t' - u) / ?i) = ?l * ((t - u) / ?i) + ?l / ?i * (t' - t)" for u
    using pos(1) by (simp add: field_simps)
  have start: "?l * ((u - (?e - ?i)) / ?i) = ?l + ?l * ((u - ?e) / ?i)" for u
    using pos(1) by (simp add: field_simps)
  have after: "0 \<le> ?l * ((t' - ?e) / ?i)" if "?e \<le> t'" using that pos by simp
  have later: "0 \<le> ?l * ((t - ?e) / ?i)" if "?e \<le> t" using that pos by simp
  note view = sliding_view_Some [OF assms(1,2)] sliding_level_def start of_int_diff
  show "?l \<le> sliding_view_level self t (Some (SlidingState w)) + ?l / ?i * (t' - t)" if "?e + ?i \<le> t'"
  proof -
    have "?e \<le> t'" using that pos by simp
    then show ?thesis using after share [of ?e] later left grow by (simp only: view split: if_split; intro conjI impI; linarith)
  qed
  then show "sliding_view_level self t' (Some (SlidingState w)) \<le> sliding_view_level self t (Some (SlidingState w)) + ?l / ?i * (t' - t)"
    using after share [of ?e] later left grow assms(4) pos by (simp only: view split: if_split; intro conjI impI; linarith)
qed

lemma sliding_idle:
  assumes "sliding_sound self t v" and "t \<le> t'"
  shows "sliding_view_level self t' (view_at t' v) \<le> sliding_view_level self t v + real_of_int (sw_limit self) / sw_interval self * (t' - t)"
proof -
  have lim: "sliding_limiter_ok self" using assms by (simp add: sliding_sound_def)
  then have grow: "0 \<le> real_of_int (sw_limit self) / sw_interval self * (t' - t)"
    using assms(2) by (simp add: sliding_limiter_ok_def)
  show ?thesis
  proof (cases "\<exists>w. v = Some (SlidingState w)")
    case False
    then have "\<And>w. view_at t' v \<noteq> Some (SlidingState w)" by (auto simp: view_at_def split: option.splits if_splits)
    then show ?thesis using False grow by (simp add: sliding_view_None [OF lim])
  next
    case True
    then obtain w where w: "v = Some (SlidingState w)" by blast
    then have ok: "sliding_ok self w" "sl_window_end_at w - sw_interval self \<le> t" using assms(1) by (auto simp: sliding_sound_def)
    show ?thesis
      using sliding_idle_kept [OF lim ok assms(2)] w ok(1) by (auto simp: view_at_def past_def sliding_ok_def sliding_view_None [OF lim])
  qed
qed

text \<open>The estimate never falls short of the hits of the current window.\<close>

lemma sliding_hit_count_ge:
  assumes "sliding_limiter_ok self" and "sliding_ok self w" and "sl_window_end_at w - sw_interval self \<le> t"
  shows "sl_hit_count w \<le> sliding_hit_count w t"
proof -
  let ?p = "min ((t - (sl_window_end_at w - sw_interval self)) / sw_interval self) 1"
  have "0 \<le> real_of_int (sl_last w) * (1 - ?p)" using assms(2) by (simp add: sliding_ok_def)
  then have "real_of_int (sl_hit_count w) \<le> real_of_int (sl_last w) * (1 - ?p) + real_of_int (sl_hit_count w)" by simp
  then show ?thesis using assms(2) by (simp only: sliding_hit_count_def Let_def sliding_ok_def le_floor_iff)
qed

lemma sliding_add_ok:
  assumes "sliding_limiter_ok self" and "sliding_ok self w" and "sl_window_end_at w - sw_interval self \<le> t" and "t \<le> sl_window_end_at w" and "0 \<le> n"
  shows "sliding_sound self t (Some (SlidingState (sliding_add n w)))"
    and "sliding_view_level self t (Some (SlidingState (sliding_add n w))) \<le> sliding_level self w t"
    and "n \<le> sw_limit self - sliding_hit_count w t
      \<Longrightarrow> sliding_view_level self t (Some (SlidingState (sliding_add n w))) + real_of_int n \<le> sliding_level self w t"
proof -
  have ok: "sliding_ok self (sliding_add n w)" using assms(2) by (simp add: sliding_ok_def sliding_add_def)
  then show "sliding_sound self t (Some (SlidingState (sliding_add n w)))"
    using assms(1,3) by (simp add: sliding_sound_def sliding_add_def)
  have hit: "sl_hit_count (sliding_add n w) = sl_hit_count w + n" "sl_window_end_at (sliding_add n w) = sl_window_end_at w"
    using assms(2,5) by (simp_all add: sliding_add_def sliding_ok_def)
  have view: "sliding_view_level self t (Some (SlidingState (sliding_add n w))) = sliding_level self (sliding_add n w) t"
    using assms(4) by (simp add: sliding_view_Some [OF assms(1) ok] hit)
  show "sliding_view_level self t (Some (SlidingState (sliding_add n w))) \<le> sliding_level self w t"
    using assms(5) unfolding view by (auto simp: sliding_level_def hit min_def)
  show "sliding_view_level self t (Some (SlidingState (sliding_add n w))) + real_of_int n \<le> sliding_level self w t"
    if "n \<le> sw_limit self - sliding_hit_count w t"
    using that sliding_hit_count_ge [OF assms(1-3)] assms(5) unfolding view by (auto simp: sliding_level_def hit min_def)
qed

lemma sliding_reserve_run:
  assumes "check_tokens n (sw_limit self) = Inr ()" and "storage_fetch (sw_id self) s = (Inr v, s1)"
    and "sliding_window_of self now v = Inr w" and "now = st_now s" and "a = sw_limit self - sliding_hit_count w now"
  shows "\<exists>bk. sliding_reserve self n (Some 0) s = (Inr bk,
        if n \<noteq> 0 \<and> (n \<le> a \<or> sliding_time_for_tokens w (sw_limit self) n now \<le> 0)
        then snd (storage_save (SlidingState (sliding_add n w)) s1) else s1)
      \<and> rl_accepted (booking_limit bk) = (n \<le> a \<or> n = 0)"
proof -
  have now: "st_now s1 = now"
    using assms(2,4) by (auto simp: storage_fetch_def split: option.splits if_splits)
  note reserve = sliding_reserve_def assms(1,3) assms(5) [symmetric] now andthen_Inr [of "storage_fetch _", OF assms(2)] Let_def sliding_rate_limit_def
  consider "n = 0" | "n \<noteq> 0" "n \<le> a" | "n \<noteq> 0" "\<not> n \<le> a" by blast
  then show ?thesis
    by cases (use assms(1) in \<open>simp_all add: reserve\<close>)
qed

text \<open>What a call does to the storage, whatever is measured of it.\<close>

lemma sliding_wait_end:
  assumes "sliding_limiter_ok self" and "sliding_ok self w" and "t \<le> sl_window_end_at w"
    and "\<not> n \<le> sw_limit self - sliding_hit_count w t" and "sliding_time_for_tokens w (sw_limit self) n t \<le> 0"
  shows "t = sl_window_end_at w"
proof (rule ccontr)
  assume "t \<noteq> sl_window_end_at w"
  then have t: "0 < sl_window_end_at w - t" using assms(3) by simp
  define m where "m = n - (sw_limit self - sliding_hit_count w t)"
  define r where "r = max 1 (sw_limit self
    - \<lfloor>real_of_int (sl_last w) * (1 - min ((t - (sl_window_end_at w - sl_interval w)) / sl_interval w) 1)\<rfloor>)"
  have m: "0 < m" using assms(4) by (simp add: m_def)
  have wait: "sliding_time_for_tokens w (sw_limit self) n t = (if m \<le> r
      then real_of_int m * ((sl_window_end_at w - t) / real_of_int (max 1 r))
      else (sl_window_end_at w - t) + real_of_int (m - r) * (sl_interval w / real_of_int (sw_limit self)))"
    using assms(4) by (simp add: sliding_time_for_tokens_def Let_def m_def r_def algebra_simps)
  have "0 < real_of_int m * ((sl_window_end_at w - t) / real_of_int (max 1 r))" using m t by simp
  moreover have "0 < (sl_window_end_at w - t) + real_of_int (m - r) * (sl_interval w / real_of_int (sw_limit self))" if "r < m"
    using that t assms(1,2) by (intro add_pos_nonneg mult_nonneg_nonneg) (simp_all add: sliding_limiter_ok_def sliding_ok_def)
  ultimately show False using wait assms(5) by (auto split: if_splits)
qed

lemma sliding_refused:
  assumes "storage_fetch (sw_id self) s = (Inr v, s1)" and "sliding_sound self (st_now s) v"
    and "sliding_reserve self n (Some 0) s = (Inl e, s')"
  shows "s' = s \<or> s' = s1"
proof -
  obtain w where w: "sliding_window_of self (st_now s) v = Inr w" using sliding_found [OF assms(2)] by blast
  show ?thesis
  proof (cases "check_tokens n (sw_limit self)")
    case (Inl x)
    then show ?thesis using assms(3) by (simp add: sliding_reserve_def)
  next
    case (Inr x)
    then show ?thesis using sliding_reserve_run [OF _ assms(1) w refl refl, of n] assms(3) by simp
  qed
qed

text \<open>A call grants nothing and saves nothing, or books its tokens: granted, or refused at the very end of the window.\<close>

definition sliding_books :: "sliding_window_limiter \<Rightarrow> real \<Rightarrow> limiter_state option \<Rightarrow> int \<Rightarrow> int \<Rightarrow> sliding_window \<Rightarrow> bool" where
  "sliding_books self t v n g w \<longleftrightarrow> sliding_window_of self t v = Inr w \<and> sliding_ok self w
    \<and> sl_window_end_at w - sw_interval self \<le> t \<and> t \<le> sl_window_end_at w \<and> 0 \<le> n
    \<and> (n \<le> sw_limit self - sliding_hit_count w t \<and> g = n \<or> t = sl_window_end_at w \<and> g = 0)"

lemma sliding_booked:
  assumes "storage_fetch (sw_id self) s = (Inr v, s1)" and "sliding_sound self (st_now s) v"
    and "sliding_reserve self n (Some 0) s = (Inr bk, s')"
  shows "s' = s1 \<and> grant (Inr (booking_limit bk)) n = 0
    \<or> (\<exists>w. sliding_books self (st_now s) v n (grant (Inr (booking_limit bk)) n) w
        \<and> s' = snd (storage_save (SlidingState (sliding_add n w)) s1) \<and> state_id (SlidingState (sliding_add n w)) = sw_id self
        \<and> \<not> past (state_expires_at (SlidingState (sliding_add n w))) (st_now s))"
proof -
  have lim: "sliding_limiter_ok self" using assms(2) by (simp add: sliding_sound_def)
  obtain w where w: "sliding_window_of self (st_now s) v = Inr w" "sliding_ok self w" "sl_window_end_at w - sw_interval self \<le> st_now s"
    "st_now s \<le> sl_window_end_at w"
    using sliding_found [OF assms(2)] by blast
  have check: "check_tokens n (sw_limit self) = Inr ()"
    using assms(3) by (cases "check_tokens n (sw_limit self)") (simp_all add: sliding_reserve_def)
  then have n: "0 \<le> n" by (auto simp: check_tokens_def split: if_splits)
  note ran = sliding_reserve_run [OF check assms(1) w(1) refl refl]
  have kept: "sl_id (sliding_add n w) = sw_id self" "st_now s < sl_window_end_at (sliding_add n w) + sl_interval (sliding_add n w)"
    using w(2,4) lim by (simp_all add: sliding_ok_def sliding_add_def sliding_limiter_ok_def)
  let ?fits = "n \<le> sw_limit self - sliding_hit_count w (st_now s)"
  show ?thesis
  proof (cases "n \<noteq> 0 \<and> (?fits \<or> sliding_time_for_tokens w (sw_limit self) n (st_now s) \<le> 0)")
    case True
    have "st_now s = sl_window_end_at w" if "\<not> ?fits"
      using sliding_wait_end [OF lim w(2,4) that] True that by blast
    then have "sliding_books self (st_now s) v n (grant (Inr (booking_limit bk)) n) w"
      using w n ran assms(3) True by (auto simp: sliding_books_def)
    then show ?thesis
      using ran assms(3) True kept by (intro disjI2 exI [of _ w]) (auto simp: past_def)
  next
    case False
    then show ?thesis using ran assms(3) by auto
  qed
qed

interpretation sliding: stored_policy l "sw_id self" "sliding_reserve self" "sliding_sound self" "sliding_view_level self"
  "real_of_int (sw_limit self) / sw_interval self" "2 * real_of_int (sw_limit self)" for l self
proof
  fix t t' v
  assume snd: "sliding_sound self t v"
  then show "0 \<le> sliding_view_level self t v \<and> sliding_view_level self t v \<le> 2 * real_of_int (sw_limit self)
      \<and> 0 \<le> real_of_int (sw_limit self) / sw_interval self"
    using sliding_level_bounds [OF snd] by (simp add: sliding_sound_def sliding_limiter_ok_def)
  assume "t \<le> t'"
  then show "sliding_sound self t' (view_at t' v) \<and> sliding_view_level self t' (view_at t' v)
      \<le> sliding_view_level self t v + real_of_int (sw_limit self) / sw_interval self * (t' - t)"
    using sliding_idle [OF snd] snd by (auto simp: sliding_sound_def view_at_def split: option.splits if_splits)
next
  fix s v s1 n bk s'
  assume "storage_fetch (sw_id self) s = (Inr v, s1)" and snd: "sliding_sound self (st_now s) v"
    and "sliding_reserve self n (Some 0) s = (Inr bk, s')"
  note booked = sliding_booked [OF this]
  have lim: "sliding_limiter_ok self" using snd by (simp add: sliding_sound_def)
  have "sliding_sound self (st_now s) (Some (SlidingState (sliding_add n w)))
      \<and> sliding_view_level self (st_now s) (Some (SlidingState (sliding_add n w))) + real_of_int g \<le> sliding_view_level self (st_now s) v"
    if "sliding_books self (st_now s) v n g w" for w g
    using that sliding_add_ok [OF lim, of w "st_now s" n] by (auto simp: sliding_books_def sliding_view_level_def)
  with booked show "s' = s1 \<and> grant (Inr (booking_limit bk)) n = 0
      \<or> (\<exists>st. s' = snd (storage_save st s1) \<and> state_id st = sw_id self \<and> \<not> past (state_expires_at st) (st_now s)
          \<and> sliding_sound self (st_now s) (Some st)
          \<and> sliding_view_level self (st_now s) (Some st) + real_of_int (grant (Inr (booking_limit bk)) n)
            \<le> sliding_view_level self (st_now s) v)"
    by blast
qed (fact sliding_refused)

text \<open>
  A tighter measure, which counts what is carried over from the window before: the room left in the limit,
  and one more for the rounding of the hits carried over, which slide out as the window passes.
\<close>

definition sliding_room :: "sliding_window_limiter \<Rightarrow> sliding_window \<Rightarrow> real \<Rightarrow> real" where
  "sliding_room self w t = real_of_int (sw_limit self) + 1 - real_of_int (min (sl_hit_count w) (sw_limit self))
     - real_of_int (min (sl_last w) (sw_limit self)) * (1 - (t - (sl_window_end_at w - sw_interval self)) / sw_interval self)"

definition sliding_view_room :: "sliding_window_limiter \<Rightarrow> real \<Rightarrow> limiter_state option \<Rightarrow> real" where
  "sliding_view_room self t v = (case sliding_window_of self t v of Inl e \<Rightarrow> 0 | Inr w \<Rightarrow> sliding_room self w t)"

definition sliding_held :: "sliding_window_limiter \<Rightarrow> real \<Rightarrow> limiter_state option \<Rightarrow> bool" where
  "sliding_held self t v \<longleftrightarrow> sliding_sound self t v \<and> 0 \<le> sliding_view_room self t v"

lemma room_None: "sliding_limiter_ok self \<Longrightarrow> (\<And>w. v \<noteq> Some (SlidingState w)) \<Longrightarrow> sliding_view_room self t v = real_of_int (sw_limit self) + 1"
  by (auto simp: sliding_limiter_ok_def sliding_view_room_def sliding_window_of_def SlidingWindow_init_def sliding_room_def
      split: option.splits limiter_state.splits)

text \<open>Over time: first what was carried over slides out, then, in the window after, this window's own hits.\<close>

lemma room_Some:
  assumes "sliding_limiter_ok self" and "sliding_ok self w" and "x = (t - sl_window_end_at w) / sw_interval self"
  shows "sliding_view_room self t (Some (SlidingState w)) = real_of_int (sw_limit self) + 1
    - real_of_int (min (sl_hit_count w) (sw_limit self)) + real_of_int (min (sl_last w) (sw_limit self)) * min x 0
    + real_of_int (min (sl_hit_count w) (sw_limit self)) * min (max x 0) 1"
proof -
  have pos: "0 < sw_interval self" "1 \<le> sw_limit self" using assms(1) by (simp_all add: sliding_limiter_ok_def)
  let ?e = "sl_window_end_at w" and ?i = "sw_interval self"
  have share: "1 - (t - (?e - ?i)) / ?i = - x" using pos assms(3) by (simp add: field_simps)
  have next_share: "1 - (t - ?e) / ?i = 1 - x" using assms(3) by simp
  have at: "t \<le> ?e \<longleftrightarrow> x \<le> 0" "t < ?e + ?i \<longleftrightarrow> x < 1" using pos assms(3) by (auto simp: divide_le_0_iff pos_divide_less_eq)
  note view = sliding_view_room_def sliding_window_of_def sliding_is_expired_def from_previous_window_def SlidingWindow_init_def
    sliding_room_def sliding_ok_def Let_def
  consider "x \<le> 0" | "0 < x" "x < 1" | "1 \<le> x" by linarith
  then show ?thesis
  proof cases
    case 1
    then show ?thesis using at share by (simp add: view min_def max_def)
  next
    case 2
    then have "\<not> t \<le> ?e" "t < ?e + ?i" using at by auto
    then show ?thesis using 2 pos assms(2) next_share assms(1)
      by (simp add: view sliding_limiter_ok_def) (simp add: algebra_simps)
  next
    case 3
    then have "\<not> t \<le> ?e" "\<not> t < ?e + ?i" using at by auto
    then show ?thesis using 3 pos assms(2) by (simp add: view)
  qed
qed

lemma sliding_room_idle:
  assumes "sliding_held self t v" and "t \<le> t'"
  shows "sliding_view_room self t v \<le> sliding_view_room self t' (view_at t' v)"
    and "sliding_view_room self t' (view_at t' v) \<le> sliding_view_room self t v + real_of_int (sw_limit self) / sw_interval self * (t' - t)"
proof -
  have lim: "sliding_limiter_ok self" using assms by (simp add: sliding_held_def sliding_sound_def)
  let ?l = "real_of_int (sw_limit self)"
  have "sliding_view_room self t v \<le> sliding_view_room self t' (view_at t' v)
    \<and> sliding_view_room self t' (view_at t' v) \<le> sliding_view_room self t v + ?l / sw_interval self * (t' - t)"
  proof (cases "\<exists>w. v = Some (SlidingState w)")
    case False
    then have "\<And>w. view_at t' v \<noteq> Some (SlidingState w)" by (auto simp: view_at_def split: option.splits if_splits)
    then show ?thesis using False lim assms(2) by (simp add: room_None [OF lim] sliding_limiter_ok_def)
  next
    case True
    then obtain w where w: "v = Some (SlidingState w)" by blast
    then have ok: "sliding_ok self w" using assms(1) by (simp add: sliding_held_def sliding_sound_def)
    define x x' c p where "x = (t - sl_window_end_at w) / sw_interval self" and "x' = (t' - sl_window_end_at w) / sw_interval self"
      and "c = real_of_int (min (sl_hit_count w) (sw_limit self))" and "p = real_of_int (min (sl_last w) (sw_limit self))"
    have cp: "0 \<le> c" "c \<le> ?l" "0 \<le> p" "p \<le> ?l" "0 < sw_interval self"
      using ok lim by (auto simp: c_def p_def sliding_ok_def sliding_limiter_ok_def)
    have x: "x \<le> x'" using assms(2) cp(5) by (simp add: x_def x'_def divide_right_mono)
    have grown: "?l / sw_interval self * (t' - t) = ?l * (x' - x)"
      using cp(5) by (simp add: x_def x'_def diff_divide_distrib [symmetric])
    have before: "sliding_view_room self t v = ?l + 1 - c + p * min x 0 + c * min (max x 0) 1"
      unfolding w c_def p_def by (rule room_Some [OF lim ok x_def])
    have after: "sliding_view_room self t' (view_at t' v) = ?l + 1 - c + p * min x' 0 + c * min (max x' 0) 1"
    proof (cases "past (state_expires_at (SlidingState w)) t'")
      case True
      then have "1 \<le> x'" using ok cp(5) by (simp add: past_def sliding_ok_def x'_def le_divide_eq)
      then show ?thesis using True w by (simp add: view_at_def room_None [OF lim])
    next
      case False
      then have "view_at t' v = Some (SlidingState w)" by (simp add: view_at_def w)
      then show ?thesis unfolding c_def p_def by (simp only: room_Some [OF lim ok x'_def])
    qed
    have a: "0 \<le> min x' 0 - min x 0" and b: "0 \<le> min (max x' 0) 1 - min (max x 0) 1"
      and ab: "(min x' 0 - min x 0) + (min (max x' 0) 1 - min (max x 0) 1) \<le> x' - x"
      using x by (auto simp: min_def max_def)
    have "0 \<le> p * (min x' 0 - min x 0)" "0 \<le> c * (min (max x' 0) 1 - min (max x 0) 1)" using a b cp by simp_all
    moreover have "p * (min x' 0 - min x 0) + c * (min (max x' 0) 1 - min (max x 0) 1)
      \<le> ?l * ((min x' 0 - min x 0) + (min (max x' 0) 1 - min (max x 0) 1))"
      using mult_right_mono [OF cp(4) a] mult_right_mono [OF cp(2) b] by (simp only: distrib_left)
    moreover have "\<dots> \<le> ?l * (x' - x)" using ab cp by (intro mult_left_mono) simp_all
    ultimately show ?thesis unfolding before after grown by (simp add: right_diff_distrib)
  qed
  then show "sliding_view_room self t v \<le> sliding_view_room self t' (view_at t' v)"
    and "sliding_view_room self t' (view_at t' v) \<le> sliding_view_room self t v + ?l / sw_interval self * (t' - t)" by blast+
qed

text \<open>A grant takes up room it has: what is carried over and what was counted, rounded down, and the grant fit in the limit.\<close>

lemma sliding_room_books:
  assumes "sliding_limiter_ok self" and "sliding_books self t v n g w"
  shows "0 \<le> sliding_view_room self t (Some (SlidingState (sliding_add n w)))"
    and "sliding_view_room self t (Some (SlidingState (sliding_add n w))) + real_of_int g \<le> sliding_view_room self t v"
proof -
  note bk = assms(2) [unfolded sliding_books_def]
  have pos: "0 < sw_interval self" "1 \<le> sw_limit self" using assms(1) by (auto simp: sliding_limiter_ok_def)
  let ?l = "real_of_int (sw_limit self)"
  define u where "u = (t - (sl_window_end_at w - sw_interval self)) / sw_interval self"
  have u: "0 \<le> u" "u \<le> 1" using bk pos by (auto simp: u_def field_simps)
  have counts: "0 \<le> sl_last w" "0 \<le> sl_hit_count w" "sl_interval w = sw_interval self" using bk by (simp_all add: sliding_ok_def)
  have added: "sl_hit_count (sliding_add n w) = sl_hit_count w + n" "sl_window_end_at (sliding_add n w) = sl_window_end_at w"
    "sl_last (sliding_add n w) = sl_last w"
    using bk counts by (simp_all add: sliding_add_def)
  have before: "sliding_view_room self t v
      = ?l + 1 - real_of_int (min (sl_hit_count w) (sw_limit self)) - real_of_int (min (sl_last w) (sw_limit self)) * (1 - u)"
    using bk by (simp add: sliding_view_room_def sliding_room_def u_def)
  have after: "sliding_view_room self t (Some (SlidingState (sliding_add n w)))
      = ?l + 1 - real_of_int (min (sl_hit_count w + n) (sw_limit self)) - real_of_int (min (sl_last w) (sw_limit self)) * (1 - u)"
    using bk by (simp add: sliding_view_room_def sliding_window_of_def sliding_is_expired_def sliding_room_def added u_def)
  have "0 \<le> sliding_view_room self t (Some (SlidingState (sliding_add n w)))
    \<and> sliding_view_room self t (Some (SlidingState (sliding_add n w))) + real_of_int g \<le> sliding_view_room self t v"
  proof (cases "n \<le> sw_limit self - sliding_hit_count w t \<and> g = n")
    case True
    define carried where "carried = real_of_int (sl_last w) * (1 - u)"
    have hits: "sliding_hit_count w t = \<lfloor>carried + real_of_int (sl_hit_count w)\<rfloor>"
      using u counts(3) by (simp add: sliding_hit_count_def Let_def carried_def u_def)
    have "0 \<le> carried" using u counts(1) by (simp add: carried_def)
    then have "sl_hit_count w \<le> sliding_hit_count w t" by (simp add: hits le_floor_iff)
    then have room: "sl_hit_count w + n \<le> sw_limit self" using True by linarith
    have "real_of_int (min (sl_last w) (sw_limit self)) * (1 - u) \<le> carried"
      unfolding carried_def using u by (intro mult_right_mono) simp_all
    moreover have "carried + real_of_int (sl_hit_count w) + real_of_int n < ?l + 1"
      using True hits by linarith
    ultimately show ?thesis using room bk True by (simp add: before after)
  next
    case False
    then have "u = 1" "g = 0" using bk pos by (auto simp: u_def)
    then show ?thesis using bk by (auto simp: before after)
  qed
  then show "0 \<le> sliding_view_room self t (Some (SlidingState (sliding_add n w)))"
    and "sliding_view_room self t (Some (SlidingState (sliding_add n w))) + real_of_int g \<le> sliding_view_room self t v" by blast+
qed

interpretation sliding_room: stored_policy l "sw_id self" "sliding_reserve self" "sliding_held self" "sliding_view_room self"
  "real_of_int (sw_limit self) / sw_interval self" "real_of_int (sw_limit self) + 1" for l self
proof
  fix t t' v
  assume held: "sliding_held self t v"
  then have snd: "sliding_sound self t v" and lim: "sliding_limiter_ok self" by (simp_all add: sliding_held_def sliding_sound_def)
  obtain w where w: "sliding_window_of self t v = Inr w" "sliding_ok self w" "sl_window_end_at w - sw_interval self \<le> t" "t \<le> sl_window_end_at w"
    using sliding_found [OF snd] by blast
  have "0 \<le> real_of_int (min (sl_last w) (sw_limit self)) * (1 - (t - (sl_window_end_at w - sw_interval self)) / sw_interval self)"
    using w lim by (intro mult_nonneg_nonneg) (auto simp: sliding_ok_def sliding_limiter_ok_def field_simps)
  moreover have "0 \<le> real_of_int (min (sl_hit_count w) (sw_limit self))"
    using w(2) lim by (simp add: sliding_ok_def sliding_limiter_ok_def)
  ultimately have "sliding_view_room self t v \<le> real_of_int (sw_limit self) + 1"
    unfolding sliding_view_room_def w(1) sum.case sliding_room_def by linarith
  then show "0 \<le> sliding_view_room self t v \<and> sliding_view_room self t v \<le> real_of_int (sw_limit self) + 1
      \<and> 0 \<le> real_of_int (sw_limit self) / sw_interval self"
    using held lim by (simp add: sliding_held_def sliding_limiter_ok_def)
  assume later: "t \<le> t'"
  then have "sliding_sound self t' (view_at t' v)"
    using snd by (auto simp: sliding_sound_def view_at_def split: option.splits if_splits)
  then show "sliding_held self t' (view_at t' v) \<and> sliding_view_room self t' (view_at t' v)
      \<le> sliding_view_room self t v + real_of_int (sw_limit self) / sw_interval self * (t' - t)"
    using sliding_room_idle [OF held later] held by (simp add: sliding_held_def)
next
  fix s v s1 n bk s'
  assume "storage_fetch (sw_id self) s = (Inr v, s1)" and held: "sliding_held self (st_now s) v"
    and "sliding_reserve self n (Some 0) s = (Inr bk, s')"
  then have booked: "s' = s1 \<and> grant (Inr (booking_limit bk)) n = 0
    \<or> (\<exists>w. sliding_books self (st_now s) v n (grant (Inr (booking_limit bk)) n) w
        \<and> s' = snd (storage_save (SlidingState (sliding_add n w)) s1) \<and> state_id (SlidingState (sliding_add n w)) = sw_id self
        \<and> \<not> past (state_expires_at (SlidingState (sliding_add n w))) (st_now s))"
    by (intro sliding_booked) (simp_all add: sliding_held_def)
  have lim: "sliding_limiter_ok self" using held by (simp add: sliding_held_def sliding_sound_def)
  have "sliding_held self (st_now s) (Some (SlidingState (sliding_add n w)))
      \<and> sliding_view_room self (st_now s) (Some (SlidingState (sliding_add n w))) + real_of_int g \<le> sliding_view_room self (st_now s) v"
    if "sliding_books self (st_now s) v n g w" for w g
    using that sliding_add_ok(1) [OF lim, of w "st_now s" n] sliding_room_books [OF lim that]
    by (auto simp: sliding_books_def sliding_held_def)
  with booked show "s' = s1 \<and> grant (Inr (booking_limit bk)) n = 0
      \<or> (\<exists>st. s' = snd (storage_save st s1) \<and> state_id st = sw_id self \<and> \<not> past (state_expires_at st) (st_now s)
          \<and> sliding_held self (st_now s) (Some st)
          \<and> sliding_view_room self (st_now s) (Some st) + real_of_int (grant (Inr (booking_limit bk)) n)
            \<le> sliding_view_room self (st_now s) v)"
    by blast
qed (simp add: sliding_held_def sliding_refused)

text \<open>
  C35: a sliding window never lets the burst at a window's edge through: in any span, and whatever was asked
  before it, it grants at most the limit's share of the span and one limit and one token more, the token for
  the hits carried over being rounded down; from a moment at which the key has no state, at most the limit's
  share and one limit more.
\<close>

theorem sliding_window_rate:
  assumes "SlidingWindowLimiter_init i limit interval = Inr self" and "0 < interval" and "free_lock l"
    and "states_ok s" and "st_now s \<le> t0" and "visible_at t0 s i = None" and "in_order t0 before t1" and "in_order t1 calls t2"
    and "consume = stored_consume l (sliding_reserve self)"
  shows "real_of_int (sum_list (granted consume calls (after_calls consume before s)))
      \<le> real_of_int limit + 1 + real_of_int limit / interval * (t2 - t1)
    \<and> real_of_int (sum_list (granted consume before s)) \<le> real_of_int limit + real_of_int limit / interval * (t1 - t0)"
proof -
  have self: "self = \<lparr>sw_id = i, sw_limit = limit, sw_interval = interval\<rparr>" and "1 \<le> limit"
    using assms(1) by (auto simp: SlidingWindowLimiter_init_def check_limit_def split: if_splits)
  then have lim: "sliding_limiter_ok self" and fresh: "sliding_sound self t0 None"
    using assms(2) by (simp_all add: sliding_sound_def sliding_limiter_ok_def)
  have "sliding_view_level self t0 None = real_of_int limit" using sliding_view_None [OF lim] self by simp
  moreover have "sliding_held self t0 None" using fresh room_None [OF lim] \<open>1 \<le> limit\<close> self by (simp add: sliding_held_def)
  ultimately show ?thesis
    using sliding_room.fresh_span [OF assms(3-5) _ _ assms(7-9)] sliding.fresh_total [OF assms(3-5) _ fresh assms(7)] assms(6,9) self
    by simp
qed

text \<open>
  a call refused at the very end of a sliding window is counted all the same: the wait comes out as
  zero, so the refusal is booked as a reservation that need not wait, which saves the hits and answers
  that it was not accepted.
\<close>

theorem sliding_end_refusal_counted:
  assumes "sliding_limiter_ok self" and "free_lock l" and "states_ok s"
    and "visible_at (st_now s) s (sw_id self) = Some (SlidingState w)" and "sliding_ok self w" and "sl_window_end_at w = st_now s"
    and "0 < n" and "n \<le> sw_limit self" and "sl_hit_count w \<le> sw_limit self" and "sw_limit self < sl_hit_count w + n"
  shows "\<exists>limit s'. stored_consume l (sliding_reserve self) n s = (Inr limit, s') \<and> \<not> rl_accepted limit
    \<and> visible_at (st_now s) s' (sw_id self) = Some (SlidingState (w\<lparr>sl_hit_count := sl_hit_count w + n\<rparr>))"
proof -
  have pos: "0 < sw_interval self" using assms(1) by (simp add: sliding_limiter_ok_def)
  obtain s1 where fetch: "storage_fetch (sw_id self) s = (Inr (Some (SlidingState w)), s1)" "states_ok s1" "st_now s1 = st_now s"
    using fetch_run [OF assms(3), of "sw_id self"] assms(4) by auto
  have w: "sliding_window_of self (st_now s) (Some (SlidingState w)) = Inr w"
    using assms(6) by (simp add: sliding_window_of_def sliding_is_expired_def)
  have hits: "sliding_hit_count w (st_now s) = sl_hit_count w" "sl_interval w = sw_interval self"
    using assms(5,6) pos by (simp_all add: sliding_hit_count_def sliding_ok_def Let_def)
  then have wait: "sliding_time_for_tokens w (sw_limit self) n (st_now s) = 0"
    using assms(6-10) pos by (simp add: sliding_time_for_tokens_def Let_def)
  have check: "check_tokens n (sw_limit self) = Inr ()" using assms(7,8) by (simp add: check_tokens_def)
  have add: "sliding_add n w = w\<lparr>sl_hit_count := sl_hit_count w + n\<rparr>"
    using assms(5,7) by (simp add: sliding_add_def sliding_ok_def)
  obtain bk where bk: "sliding_reserve self n (Some 0) s = (Inr bk, snd (storage_save (SlidingState (sliding_add n w)) s1))"
      "\<not> rl_accepted (booking_limit bk)"
    using sliding_reserve_run [OF check fetch(1) w refl refl] wait assms(7,10) hits(1) by auto
  have "visible_at (st_now s) (snd (storage_save (SlidingState (sliding_add n w)) s1)) (sw_id self) = Some (SlidingState (sliding_add n w))"
    using visible_save [OF fetch(2), of "st_now s" "SlidingState (sliding_add n w)" "sw_id self"] fetch(3) assms(5,6) pos
    by (simp add: past_def sliding_ok_def add)
  then show ?thesis using stored_consume_run [of l "sliding_reserve self", OF assms(2) bk(1)] bk(2) add by auto
qed

text \<open>
  When the current window's own hits fill the limit, none of them slides out before the window
  ends, yet \<open>time_for_tokens\<close> answers a shorter wait: at the instant it names, and at every other until
  the end of the window, no token fits.
\<close>

theorem sliding_wait_too_short:
  assumes "sl_last w = 0" and "sl_hit_count w = max_size" and "0 < sl_interval w"
    and "sl_window_end_at w - sl_interval w \<le> now" and "now < sl_window_end_at w" and "1 \<le> tokens" and "tokens < max_size"
  shows "sliding_time_for_tokens w max_size tokens now < sl_window_end_at w - now
    \<and> (\<forall>t. now \<le> t \<and> t \<le> sl_window_end_at w \<longrightarrow> sliding_hit_count w t = max_size)"
proof -
  have hits: "sliding_hit_count w t = max_size" for t
    using assms(1,2) by (simp add: sliding_hit_count_def Let_def)
  have wait: "sliding_time_for_tokens w max_size tokens now = real_of_int tokens * ((sl_window_end_at w - now) / real_of_int max_size)"
    using assms(1,6,7) hits [of now] by (simp add: sliding_time_for_tokens_def Let_def algebra_simps)
  have "real_of_int tokens / real_of_int max_size < 1" using assms(6,7) by simp
  then have "real_of_int tokens / real_of_int max_size * (sl_window_end_at w - now) < 1 * (sl_window_end_at w - now)"
    using assms(5) by (intro mult_strict_right_mono) simp_all
  then show ?thesis using hits wait by simp
qed

end
