(* ===== verification/Limiter_Compound.thy ===== *)
theory Limiter_Compound
  imports Limiter_Windows
begin

text \<open>
  Several limits on one hit (\<open>compound_limiter.py\<close>), the name a limiter's state is kept under
  (\<open>_state_id.py\<close>), and concrete runs of the limiters.
\<close>

section \<open>The name of a state\<close>

definition limiter_state_id :: "string \<Rightarrow> string option \<Rightarrow> string" where
  "limiter_state_id limiter_id key =
     show_nat (length limiter_id) @ '':'' @ limiter_id @ '':'' @ (case key of None \<Rightarrow> '''' | Some k \<Rightarrow> k)"

lemma show_nat_no_colon: "CHR '':'' \<notin> set (show_nat n)"
  using show_nat_digits [of "CHR '':''" n] by auto

lemma split_at_colon: "CHR '':'' \<notin> set a \<Longrightarrow> takeWhile (\<lambda>c. c \<noteq> CHR '':'') (a @ CHR '':'' # b) = a"
  by (induction a) auto

text \<open>
  two limits never share a count: two pairs of a limit's name and a key are kept under the same name
  only when the names are equal and the keys are equal, no key and the empty key being the same.
\<close>

theorem state_id_separates:
  "limiter_state_id a k = limiter_state_id b k' \<longleftrightarrow>
     a = b \<and> (case k of None \<Rightarrow> '''' | Some x \<Rightarrow> x) = (case k' of None \<Rightarrow> '''' | Some x \<Rightarrow> x)"
proof
  assume eq: "limiter_state_id a k = limiter_state_id b k'"
  then have "show_nat (length a) = show_nat (length b)"
    using split_at_colon [OF show_nat_no_colon, of "length a"] split_at_colon [OF show_nat_no_colon, of "length b"]
    by (simp add: limiter_state_id_def) metis
  then show "a = b \<and> (case k of None \<Rightarrow> '''' | Some x \<Rightarrow> x) = (case k' of None \<Rightarrow> '''' | Some x \<Rightarrow> x)"
    using eq show_nat_inject by (simp add: limiter_state_id_def)
qed (simp add: limiter_state_id_def)

section \<open>Several limits at once\<close>

lemma closest_least: "closest l ls \<in> set (l # ls) \<and> (\<forall>x \<in> set (l # ls). rl_remaining_tokens (closest l ls) \<le> rl_remaining_tokens x)"
proof (induction ls arbitrary: l)
  case Nil
  then show ?case by simp
next
  case (Cons l' ls)
  then show ?case
    using Cons [of l] Cons [of l'] by (smt (verit) closest.simps(2) list.set_intros set_ConsD)
qed

text \<open>Every limiter asked in turn, whatever it answers: what a compound limiter is compared with.\<close>

definition ask_all :: "(int \<Rightarrow> rate_limit limiter_prog) list \<Rightarrow> int \<Rightarrow> rate_limit list limiter_prog" where
  "ask_all cs n = for_each (\<lambda>c ls. andthen (c n) (\<lambda>l. ret (ls @ [l]))) cs []"

lemma compound_from:
  assumes "compound_consume_from cs n acc s = (Inr l, s')" and "\<forall>x \<in> set acc. rl_accepted x"
  shows "if rl_accepted l
    then \<exists>ls. for_each (\<lambda>c ls. andthen (c n) (\<lambda>l. ret (ls @ [l]))) cs acc s = (Inr ls, s')
      \<and> (\<forall>x \<in> set ls. rl_accepted x) \<and> l \<in> set ls \<and> (\<forall>x \<in> set ls. rl_remaining_tokens l \<le> rl_remaining_tokens x)
    else \<exists>pre c post ls s1. cs = pre @ c # post
      \<and> for_each (\<lambda>c ls. andthen (c n) (\<lambda>l. ret (ls @ [l]))) pre acc s = (Inr ls, s1)
      \<and> (\<forall>x \<in> set ls. rl_accepted x) \<and> c n s1 = (Inr l, s')"
  using assms
proof (induction cs arbitrary: acc s)
  case Nil
  then obtain x xs where acc: "acc = x # xs" by (cases acc) simp_all
  with Nil have "l = closest x xs" "s' = s" by simp_all
  then show ?case using closest_least [of x xs] Nil.prems(2) acc by auto
next
  case (Cons c cs)
  from Cons.prems(1) obtain l1 s1 where l1: "c n s = (Inr l1, s1)"
    "(if \<not> rl_accepted l1 then ret l1 else compound_consume_from cs n (acc @ [l1])) s1 = (Inr l, s')"
    by (auto elim: andthen_InrE)
  note step = andthen_Inr [of "c n" s l1 s1, OF l1(1)]
  show ?case
  proof (cases "rl_accepted l1")
    case False
    then have "l = l1" "s' = s1" using l1(2) by simp_all
    then show ?thesis using False l1(1) Cons.prems(2)
      by simp (rule exI [of _ "[]"], simp)
  next
    case True
    then have rest: "compound_consume_from cs n (acc @ [l1]) s1 = (Inr l, s')" using l1(2) by simp
    have acc: "\<forall>x \<in> set (acc @ [l1]). rl_accepted x" using Cons.prems(2) True by simp
    show ?thesis
    proof (cases "rl_accepted l")
      case True
      then show ?thesis using Cons.IH [OF rest acc] by (simp add: andthen_assoc step)
    next
      case False
      then obtain pre c' post ls s2 where "cs = pre @ c' # post"
        "for_each (\<lambda>c ls. andthen (c n) (\<lambda>l. ret (ls @ [l]))) pre (acc @ [l1]) s1 = (Inr ls, s2)"
        "\<forall>x \<in> set ls. rl_accepted x" "c' n s2 = (Inr l, s')"
        using Cons.IH [OF rest acc] by auto
      then show ?thesis using False
        by simp (rule exI [of _ "c # pre"], simp add: andthen_assoc step)
    qed
  qed
qed

text \<open>
  a compound limiter accepts only when every limiter did, each having been asked once and in order,
  and then answers with one of the limits that have the fewest tokens left. A refusal is that of the first limiter that
  refused: those before it have spent their tokens and those after it were not asked.
\<close>

theorem compound_consume_all:
  assumes "compound_consume limiters tokens s = (Inr limit, s')"
  shows "if rl_accepted limit
    then \<exists>ls. ask_all limiters tokens s = (Inr ls, s') \<and> (\<forall>x \<in> set ls. rl_accepted x)
      \<and> limit \<in> set ls \<and> (\<forall>x \<in> set ls. rl_remaining_tokens limit \<le> rl_remaining_tokens x)
    else \<exists>before c rest ls s1. limiters = before @ c # rest
      \<and> ask_all before tokens s = (Inr ls, s1) \<and> (\<forall>x \<in> set ls. rl_accepted x) \<and> c tokens s1 = (Inr limit, s')"
  using compound_from [of limiters tokens "[]" s limit s'] assms by (simp only: compound_consume_def ask_all_def) simp

section \<open>Concrete runs\<close>

definition idle_lock :: limiter_lock where
  "idle_lock = \<lparr>ll_acquire = ret (), ll_release = ret ()\<rparr>"

definition empty_storage :: storage_world where
  "empty_storage = \<lparr>st_states = [], st_saves = 0, st_now = 0\<rparr>"

lemma idle_lock_free [simp]: "free_lock idle_lock"
  by (simp add: idle_lock_def free_lock_def)

lemma empty_storage_ok [simp]: "states_ok empty_storage" "st_now empty_storage = 0" "visible_at t empty_storage i = None"
  by (simp_all add: empty_storage_def states_ok_def visible_at_def)

definition demo_bucket :: token_bucket_limiter where
  "demo_bucket = \<lparr>bk_id = ''login'', bk_max_burst = 5, bk_cycle = 2, bk_amount = 1\<rparr>"

definition demo_fixed :: fixed_window_limiter where
  "demo_fixed = \<lparr>fw_id = ''login'', fw_limit = 5, fw_interval = 60, fw_period_around = None\<rparr>"

definition demo_sliding :: sliding_window_limiter where
  "demo_sliding = \<lparr>sw_id = ''login'', sw_limit = 5, sw_interval = 60\<rparr>"

definition demo_window :: sliding_window where
  "demo_window = \<lparr>sl_id = ''login'', sl_interval = 60, sl_hit_count = 5, sl_last = 0, sl_window_end_at = 60\<rparr>"

theorem storage_sweeps_invisible_witness:
  "fst (storage_fetch ''login'' ((snd (storage_save (SlidingState demo_window) empty_storage))\<lparr>st_now := 100\<rparr>))
    = Inr (Some (SlidingState demo_window))"
  using storage_sweeps_invisible [of empty_storage 100 _ "SlidingState demo_window" "''login''", OF _ _ refl]
  by (simp add: demo_window_def past_def)

theorem token_bucket_rate_witness:
  "let consume = stored_consume idle_lock (bucket_reserve demo_bucket) in
    real_of_int (sum_list (granted consume [(0, 3), (1, 4), (7, 4)] empty_storage)) \<le> 5 + 1 / 2 * (10 - 0)
    \<and> real_of_int (sum_list (granted consume [(10, 2), (12, 5)] (after_calls consume [(0, 3), (1, 4), (7, 4)] empty_storage)))
      \<le> 5 + 1 + 1 / 2 * (12 - 10)"
  using token_bucket_rate [of "''login''" 5 2 1 demo_bucket idle_lock empty_storage 0 "[(0, 3), (1, 4), (7, 4)]" 10 "[(10, 2), (12, 5)]" 12, OF _ _ _ _ _ _ _ _ _ refl]
  by (simp add: TokenBucketLimiter_init_def check_limit_def demo_bucket_def)

theorem fixed_window_rate_witness:
  "let consume = stored_consume idle_lock (fixed_reserve demo_fixed) in
    real_of_int (sum_list (granted consume [(61, 5)] (after_calls consume [(0, 3), (59, 4)] empty_storage)))
      \<le> 2 * 5 + 5 / 60 * (62 - 60)
    \<and> real_of_int (sum_list (granted consume [(0, 3), (59, 4)] empty_storage)) \<le> 5 + 5 / 60 * (60 - 0)"
  using fixed_window_rate [of "''login''" 5 60 0 demo_fixed idle_lock empty_storage 0 "[(0, 3), (59, 4)]" 60 "[(61, 5)]" 62, OF _ _ _ _ _ _ _ _ refl]
  by (simp add: FixedWindowLimiter_init_def check_limit_def demo_fixed_def)

theorem sliding_window_rate_witness:
  "let consume = stored_consume idle_lock (sliding_reserve demo_sliding) in
    real_of_int (sum_list (granted consume [(61, 5)] (after_calls consume [(0, 3), (59, 4)] empty_storage)))
      \<le> 5 + 1 + 5 / 60 * (62 - 60)
    \<and> real_of_int (sum_list (granted consume [(0, 3), (59, 4)] empty_storage)) \<le> 5 + 5 / 60 * (60 - 0)"
  using sliding_window_rate [of "''login''" 5 60 demo_sliding idle_lock empty_storage 0 "[(0, 3), (59, 4)]" 60 "[(61, 5)]" 62, OF _ _ _ _ _ _ _ _ refl]
  by (simp add: SlidingWindowLimiter_init_def check_limit_def demo_sliding_def)

theorem sliding_wait_too_short_witness:
  "sliding_time_for_tokens demo_window 5 1 10 < 60 - 10 \<and> sliding_hit_count demo_window 20 = 5"
  using sliding_wait_too_short [of demo_window 5 10 1] by (simp add: demo_window_def)

definition full_storage :: storage_world where
  "full_storage = \<lparr>st_states = [(''login'', Some 120, SlidingState demo_window)], st_saves = 1, st_now = 60\<rparr>"

theorem sliding_end_refusal_counted_witness:
  "\<exists>limit s'. stored_consume idle_lock (sliding_reserve demo_sliding) 2 full_storage = (Inr limit, s') \<and> \<not> rl_accepted limit
    \<and> visible_at 60 s' ''login'' = Some (SlidingState (demo_window\<lparr>sl_hit_count := 7\<rparr>))"
proof -
  have "states_ok full_storage" "visible_at 60 full_storage ''login'' = Some (SlidingState demo_window)"
    by (auto simp: full_storage_def states_ok_def visible_at_def demo_window_def past_def dict_ok_def split: if_splits)
  then show ?thesis
    using sliding_end_refusal_counted [of demo_sliding idle_lock full_storage demo_window 2]
    by (simp add: sliding_limiter_ok_def sliding_ok_def demo_sliding_def demo_window_def full_storage_def)
qed

theorem token_bucket_retry_succeeds_witness:
  "\<exists>limit s1. stored_consume idle_lock (bucket_reserve demo_bucket) 3
      ((after_calls (stored_consume idle_lock (bucket_reserve demo_bucket)) [(0, 4)] empty_storage)\<lparr>st_now := 1\<rparr>) = (Inr limit, s1)
    \<and> \<not> rl_accepted limit \<and> 1 < rl_retry_after limit \<and>
    (\<exists>limit' s2. stored_consume idle_lock (bucket_reserve demo_bucket) 3 (s1\<lparr>st_now := rl_retry_after limit\<rparr>) = (Inr limit', s2)
      \<and> rl_accepted limit')"
proof -
  let ?consume = "stored_consume idle_lock (bucket_reserve demo_bucket)"
  let ?s = "(after_calls ?consume [(0, 4)] empty_storage)\<lparr>st_now := 1\<rparr>"
  note run = stored_consume_def stored_reserve_def under_lock_def idle_lock_def bucket_reserve_def demo_bucket_def check_tokens_def
    andthen_def storage_fetch_def storage_save_def PRUNE_EVERY_def empty_storage_def bucket_of_def TokenBucket_init_def
    bucket_time_for_tokens_def bucket_available_tokens_def bucket_cycles_def set_tokens_def bucket_rate_limit_def past_def Let_def
  obtain limit s1 where call: "?consume 3 ?s = (Inr limit, s1)" "\<not> rl_accepted limit"
    by (simp add: run)
  moreover have "1 < rl_retry_after limit \<and> (\<exists>limit' s2. ?consume 3 (s1\<lparr>st_now := rl_retry_after limit\<rparr>) = (Inr limit', s2) \<and> rl_accepted limit')"
    by (rule token_bucket_retry_succeeds [of "''login''" 5 2 1 demo_bucket idle_lock empty_storage 0 "[(0, 4)]" 1, OF _ _ _ _ _ _ _ _ refl call])
      (simp_all add: TokenBucketLimiter_init_def check_limit_def demo_bucket_def)
  ultimately show ?thesis by blast
qed

theorem compound_consume_all_witness:
  "let l = no_limiter_rate_limit 0 in
    \<exists>ls. ask_all [no_limiter_consume, no_limiter_consume] 1 empty_storage = (Inr ls, empty_storage)
      \<and> list_all rl_accepted ls \<and> l \<in> set ls"
  using compound_consume_all [of "[no_limiter_consume, no_limiter_consume]" 1 empty_storage "no_limiter_rate_limit 0" empty_storage]
  by (simp add: compound_consume_def no_limiter_consume_def no_limiter_rate_limit_def andthen_def empty_storage_def list_all_iff) blast

end
