(* ===== verification/Access_Roles.thy ===== *)
theory Access_Roles
  imports Prelude
begin

text \<open>
  Package xtr-security-core, role hierarchies (\<open>role/role_hierarchy.py\<close>): the declared hierarchy with its
  wildcard entries, the search for the roles a set of roles reaches, with its cap and its memo, and the
  inverse question. The regular expression of a wildcard key is the list of its literal parts: lazy
  matching is backtracking over the length of each captured segment, shortest first.
\<close>

section \<open>Wildcard keys\<close>

abbreviation star :: char where "star \<equiv> CHR ''*''"

abbreviation newline :: char where "newline \<equiv> CHR 0x0A"

text \<open>\<open>(.+?)\<close> and what follows it: one character at least, no line end, as few as the rest allows.\<close>

fun capture :: "(string \<Rightarrow> string list option) \<Rightarrow> string \<Rightarrow> string \<Rightarrow> string list option" where
  "capture rest taken [] = None"
| "capture rest taken (c # cs) =
     (if c = newline then None
      else (case rest cs of
              Some captures \<Rightarrow> Some ((taken @ [c]) # captures)
            | None \<Rightarrow> capture rest (taken @ [c]) cs))"

fun fullmatch :: "string list \<Rightarrow> string \<Rightarrow> string list option" where
  "fullmatch [] role = (if role = [] then Some [] else None)"
| "fullmatch [part] role = (if role = part then Some [] else None)"
| "fullmatch (part # q # parts) role =
     (if take (length part) role = part
      then capture (\<lambda>s. fullmatch (q # parts) s) [] (drop (length part) role) else None)"

fun substitute_parts :: "string \<Rightarrow> string list \<Rightarrow> string list \<Rightarrow> string" where
  "substitute_parts result [] captures = result"
| "substitute_parts result (part # parts) [] = substitute_parts (result @ part) parts []"
| "substitute_parts result (part # parts) (c # captures) = substitute_parts (result @ c @ part) parts captures"

definition substitute :: "string \<Rightarrow> string list \<Rightarrow> string" where
  "substitute template captures =
     (case split_on star template of
        [] \<Rightarrow> [] | part # parts \<Rightarrow> substitute_parts part parts captures)"

section \<open>The hierarchy\<close>

datatype access_error =
    TooManyWildcards string string
  | CapReached
  | NotOneAttribute nat
  | OfflineToken
  | UnboundClosureVoter
  | BoundToAnotherManager
  | VoterError nat

definition MAX_REACHABLE :: nat where "MAX_REACHABLE = 10000"

definition MAX_MEMO :: nat where "MAX_MEMO = 1024"

record role_hierarchy =
  rh_exact :: "(string, string list) dict"
  rh_wildcards :: "(string list \<times> string list) list"
  rh_memo :: "(string set, string list) dict"

definition declare_entry :: "string \<times> string list \<Rightarrow> role_hierarchy \<Rightarrow> access_error + role_hierarchy" where
  "declare_entry entry h =
     (case entry of (key, parents) \<Rightarrow>
        if star \<in> set key then
          (let captures = count_list key star
           in case filter (\<lambda>parent. count_list parent star > captures) parents of
                parent # _ \<Rightarrow> Inl (TooManyWildcards parent key)
              | [] \<Rightarrow> Inr (h\<lparr>rh_wildcards := rh_wildcards h @ [(split_on star key, parents)]\<rparr>))
        else Inr (h\<lparr>rh_exact := dict_set key parents (rh_exact h)\<rparr>))"

definition RoleHierarchy_init :: "(string, string list) dict \<Rightarrow> access_error + role_hierarchy" where
  "RoleHierarchy_init hierarchy =
     fold_r declare_entry hierarchy \<lparr>rh_exact = [], rh_wildcards = [], rh_memo = []\<rparr>"

definition wildcard_parents :: "string \<Rightarrow> string list \<times> string list \<Rightarrow> string list" where
  "wildcard_parents role entry =
     (case entry of (pattern, parents) \<Rightarrow>
        (case fullmatch pattern role of
           None \<Rightarrow> [] | Some captures \<Rightarrow> map (\<lambda>value. substitute value captures) parents))"

definition parents_of :: "role_hierarchy \<Rightarrow> string \<Rightarrow> string list" where
  "parents_of h role =
     dict_get_or (rh_exact h) role [] @ concat (map (wildcard_parents role) (rh_wildcards h))"

function expand :: "role_hierarchy \<Rightarrow> string list \<Rightarrow> string list \<Rightarrow> string set \<Rightarrow> access_error + string list" where
  "expand h [] reachable seen = Inr reachable"
| "expand h (role # pending) reachable seen =
     (if length reachable \<ge> MAX_REACHABLE then Inl CapReached
      else if role \<in> seen then expand h pending reachable seen
      else expand h (pending @ filter (\<lambda>parent. parent \<notin> insert role seen) (parents_of h role))
             (reachable @ [role]) (insert role seen))"
  by pat_completeness auto
termination
  by (relation "measures [\<lambda>(h, pending, reachable, seen). MAX_REACHABLE - length reachable,
      \<lambda>(h, pending, reachable, seen). length pending]") auto

definition get_reachable_role_names :: "string list \<Rightarrow> (role_hierarchy, access_error, string list) prog" where
  "get_reachable_role_names roles = (\<lambda>h.
     let key = set roles
     in case map_of (rh_memo h) key of
          Some cached \<Rightarrow> (Inr cached, h\<lparr>rh_memo := dict_del key (rh_memo h) @ [(key, cached)]\<rparr>)
        | None \<Rightarrow>
            (case expand h roles [] {} of
               Inl e \<Rightarrow> (Inl e, h)
             | Inr reachable \<Rightarrow>
                 let memo = (if length (rh_memo h) \<ge> MAX_MEMO then tl (rh_memo h) else rh_memo h)
                 in (Inr reachable, h\<lparr>rh_memo := dict_set key reachable memo\<rparr>)))"

function exact_descendants_from :: "role_hierarchy \<Rightarrow> string list \<Rightarrow> string set \<Rightarrow> string set" where
  "exact_descendants_from h [] descendants = descendants"
| "exact_descendants_from h (role # pending) descendants =
     (if role \<in> descendants then exact_descendants_from h pending descendants
      else exact_descendants_from h (pending @ dict_get_or (rh_exact h) role []) (insert role descendants))"
  by pat_completeness auto
termination
proof (relation "measures [\<lambda>(h, pending, descendants). card (set (dict_keys (rh_exact h)) - descendants),
      \<lambda>(h, pending, descendants). length pending]", goal_cases)
  case (3 h role pending descendants)
  show ?case
  proof (cases "role \<in> set (dict_keys (rh_exact h))")
    case True
    with 3 have "set (dict_keys (rh_exact h)) - insert role descendants \<subset> set (dict_keys (rh_exact h)) - descendants" by blast
    then have "card (set (dict_keys (rh_exact h)) - insert role descendants) < card (set (dict_keys (rh_exact h)) - descendants)"
      by (intro psubset_card_mono) auto
    then show ?thesis by simp
  next
    case False
    then have "dict_get_or (rh_exact h) role [] = []"
      using dict_mem_iff [of role "rh_exact h"] by (simp add: dict_get_or_def)
    moreover have "set (dict_keys (rh_exact h)) - insert role descendants = set (dict_keys (rh_exact h)) - descendants"
      using False by blast
    ultimately show ?thesis by simp
  qed
qed auto

definition exact_descendants :: "role_hierarchy \<Rightarrow> string \<Rightarrow> string set" where
  "exact_descendants h key = exact_descendants_from h (dict_get_or (rh_exact h) key []) {}"

text \<open>The roles found so far are the keys of a dict: in order, each once.\<close>

definition note_role :: "string \<Rightarrow> string list \<Rightarrow> string list" where
  "note_role role parents = (if role \<in> set parents then parents else parents @ [role])"

definition get_parent_role_names :: "role_hierarchy \<Rightarrow> string list \<Rightarrow> string list" where
  "get_parent_role_names h roles =
     fold (\<lambda>role parents.
             fold (\<lambda>key parents. if role \<in> exact_descendants h key then note_role key parents else parents)
               (dict_keys (rh_exact h)) (note_role role parents))
       roles []"

section \<open>What a wildcard key captures\<close>

text \<open>Laying the captured segments between the literal parts.\<close>

fun interleave :: "string list \<Rightarrow> string list \<Rightarrow> string" where
  "interleave [] captures = []"
| "interleave [part] captures = part"
| "interleave (part # q # parts) [] = part @ interleave (q # parts) []"
| "interleave (part # q # parts) (c # captures) = part @ c @ interleave (q # parts) captures"

definition segment_ok :: "string \<Rightarrow> bool" where
  "segment_ok c \<longleftrightarrow> c \<noteq> [] \<and> newline \<notin> set c"

lemma capture_sound:
  assumes "capture rest taken s = Some captures" and "newline \<notin> set taken"
  shows "\<exists>c cs tail. captures = (taken @ c) # cs \<and> segment_ok c \<and> s = c @ tail \<and> rest tail = Some cs"
  using assms
proof (induction s arbitrary: taken)
  case Nil
  then show ?case by simp
next
  case (Cons x s)
  then have x: "x \<noteq> newline" by (auto split: if_splits)
  show ?case
  proof (cases "rest s")
    case None
    with Cons.prems(1) x have "capture rest (taken @ [x]) s = Some captures" by simp
    from Cons.IH [OF this] Cons.prems(2) x obtain c cs tail where
      "captures = (taken @ [x] @ c) # cs" "segment_ok c" "s = c @ tail" "rest tail = Some cs" by auto
    then show ?thesis using x by (intro exI [of _ "x # c"]) (auto simp: segment_ok_def)
  next
    case (Some cs)
    with Cons.prems(1) x have "captures = (taken @ [x]) # cs" by simp
    then show ?thesis using Some x by (intro exI [of _ "[x]"]) (auto simp: segment_ok_def)
  qed
qed

lemma capture_complete:
  assumes "segment_ok c" and "rest tail \<noteq> None"
  shows "capture rest taken (c @ tail) \<noteq> None"
  using assms
proof (induction c arbitrary: taken)
  case Nil
  then show ?case by (simp add: segment_ok_def)
next
  case (Cons x c)
  then show ?case by (cases "c = []") (auto simp: segment_ok_def split: option.splits)
qed

lemma fullmatch_sound:
  "fullmatch parts role = Some captures \<Longrightarrow> parts \<noteq> [] \<Longrightarrow>
    role = interleave parts captures \<and> Suc (length captures) = length parts \<and> list_all segment_ok captures"
proof (induction parts role arbitrary: captures rule: fullmatch.induct)
  case (1 role)
  then show ?case by simp
next
  case (2 part role)
  then show ?case by (auto split: if_splits)
next
  case (3 part q parts role)
  then have role: "role = part @ drop (length part) role"
    and cap: "capture (\<lambda>s. fullmatch (q # parts) s) [] (drop (length part) role) = Some captures"
    by (auto split: if_splits) (metis append_take_drop_id)
  from capture_sound [OF cap] obtain c cs tail where c: "captures = c # cs" "segment_ok c"
    "drop (length part) role = c @ tail" "fullmatch (q # parts) tail = Some cs" by auto
  have "take (length part) role = part" using "3.prems"(1) by (auto split: if_splits)
  from "3.IH" [OF this c(4)] show ?case using c role by auto
qed

lemma fullmatch_complete:
  "Suc (length captures) = length parts \<Longrightarrow> list_all segment_ok captures \<Longrightarrow> fullmatch parts (interleave parts captures) \<noteq> None"
proof (induction parts captures rule: interleave.induct)
  case (4 part q parts c captures)
  then have "fullmatch (q # parts) (interleave (q # parts) captures) \<noteq> None" by simp
  with "4.prems" show ?case by (simp add: capture_complete)
qed simp_all

lemma interleave_append: "interleave ((a @ b) # parts) captures = a @ interleave (b # parts) captures"
  by (cases parts; cases captures) auto

lemma substitute_parts_interleave: "substitute_parts result parts captures = interleave (result # parts) captures"
  by (induction result parts captures rule: substitute_parts.induct) (simp_all add: interleave_append)

lemma split_on_not_Nil [simp]: "split_on c s \<noteq> []"
  by (induction s) (auto split: list.splits)

lemma substitute_interleave: "substitute template captures = interleave (split_on star template) captures"
  by (cases "split_on star template") (simp_all add: substitute_def substitute_parts_interleave)

lemma split_on_length: "length (split_on c s) = Suc (count_list s c)"
  by (induction s) (auto split: list.splits)

text \<open>
  A wildcard key matches a role exactly when the role is the key with each \<open>*\<close> replaced by a
  segment of at least one character and no line end; the segments captured then spell the role when they are
  substituted back into the key.
\<close>

theorem wildcard_match_roundtrip:
  "(fullmatch (split_on star key) role = Some captures \<longrightarrow>
      substitute key captures = role \<and> length captures = count_list key star \<and> list_all segment_ok captures)
   \<and> (list_all segment_ok captures \<and> length captures = count_list key star
      \<longrightarrow> fullmatch (split_on star key) (substitute key captures) \<noteq> None)"
  using fullmatch_sound [of "split_on star key" role captures] fullmatch_complete [of captures "split_on star key"]
  by (auto simp: substitute_interleave split_on_length)

section \<open>What a set of roles reaches\<close>

definition parent_rel :: "role_hierarchy \<Rightarrow> (string \<times> string) set" where
  "parent_rel h = {(role, parent). parent \<in> set (parents_of h role)}"

definition reach :: "role_hierarchy \<Rightarrow> string set \<Rightarrow> string set" where
  "reach h R = (parent_rel h)\<^sup>* `` R"

lemma reach_closed: "r \<in> reach h R \<Longrightarrow> p \<in> set (parents_of h r) \<Longrightarrow> p \<in> reach h R"
  by (auto simp: reach_def parent_rel_def intro: rtrancl_into_rtrancl)

lemma reach_least:
  assumes "R \<subseteq> S" and "\<And>r. r \<in> S \<Longrightarrow> set (parents_of h r) \<subseteq> S"
  shows "reach h R \<subseteq> S"
proof
  fix x
  assume "x \<in> reach h R"
  then obtain r where "r \<in> R" "(r, x) \<in> (parent_rel h)\<^sup>*" by (auto simp: reach_def)
  from this(2) this(1) show "x \<in> S"
    by (induction rule: rtrancl_induct) (use assms in \<open>auto simp: parent_rel_def\<close>)
qed

definition search_inv :: "role_hierarchy \<Rightarrow> string set \<Rightarrow> string list \<Rightarrow> string list \<Rightarrow> string set \<Rightarrow> bool" where
  "search_inv h R pending reachable seen \<longleftrightarrow> seen = set reachable \<and> distinct reachable
     \<and> set reachable \<union> set pending \<subseteq> reach h R \<and> R \<subseteq> seen \<union> set pending
     \<and> (\<forall>r \<in> seen. set (parents_of h r) \<subseteq> seen \<union> set pending)"

lemma search_inv_step:
  assumes "search_inv h R (role # pending) reachable seen" and "role \<notin> seen"
  shows "search_inv h R (pending @ filter (\<lambda>parent. parent \<notin> insert role seen) (parents_of h role)) (reachable @ [role]) (insert role seen)"
  using assms reach_closed [of role h R] by (auto simp: search_inv_def)

lemma search_inv_skip: "search_inv h R (role # pending) reachable seen \<Longrightarrow> role \<in> seen \<Longrightarrow> search_inv h R pending reachable seen"
  by (auto simp: search_inv_def)

lemma expand_result:
  "search_inv h R pending reachable seen \<Longrightarrow> expand h pending reachable seen = Inr xs \<Longrightarrow> set xs = reach h R \<and> distinct xs"
proof (induction h pending reachable seen rule: expand.induct)
  case (1 h reachable seen)
  then have "reach h R \<subseteq> set reachable" by (intro reach_least) (auto simp: search_inv_def)
  with 1 show ?case by (auto simp: search_inv_def)
next
  case (2 h role pending reachable seen)
  then have small: "\<not> MAX_REACHABLE \<le> length reachable" by (auto split: if_splits)
  show ?case
  proof (cases "role \<in> seen")
    case True
    then show ?thesis using "2.IH"(1) [OF small True search_inv_skip [OF "2.prems"(1) True]] "2.prems"(2) small by simp
  next
    case False
    then show ?thesis using "2.IH"(2) [OF small False search_inv_step [OF "2.prems"(1) False]] "2.prems"(2) small by simp
  qed
qed

lemma expand_error:
  "search_inv h R pending reachable seen \<Longrightarrow> expand h pending reachable seen = Inl e \<Longrightarrow>
    e = CapReached \<and> (finite (reach h R) \<longrightarrow> MAX_REACHABLE \<le> card (reach h R))"
proof (induction h pending reachable seen rule: expand.induct)
  case (1 h reachable seen)
  then show ?case by simp
next
  case (2 h role pending reachable seen)
  show ?case
  proof (cases "MAX_REACHABLE \<le> length reachable")
    case True
    have "length reachable \<le> card (reach h R)" if "finite (reach h R)"
      using "2.prems"(1) card_mono [OF that, of "set reachable"] by (auto simp: search_inv_def distinct_card)
    then show ?thesis using True "2.prems"(2) by auto
  next
    case small: False
    show ?thesis
    proof (cases "role \<in> seen")
      case True
      then show ?thesis using "2.IH"(1) [OF small True search_inv_skip [OF "2.prems"(1) True]] "2.prems"(2) small by simp
    next
      case False
      then show ?thesis using "2.IH"(2) [OF small False search_inv_step [OF "2.prems"(1) False]] "2.prems"(2) small by simp
    qed
  qed
qed

lemma search_inv_start: "search_inv h (set roles) roles [] {}"
  by (auto simp: search_inv_def reach_def)

definition memo_ok :: "role_hierarchy \<Rightarrow> bool" where
  "memo_ok h \<longleftrightarrow> dict_ok (rh_memo h) \<and> length (rh_memo h) \<le> MAX_MEMO
     \<and> (\<forall>K xs. map_of (rh_memo h) K = Some xs \<longrightarrow> set xs = reach h K \<and> distinct xs)"

lemma reach_memo [simp]: "reach (h\<lparr>rh_memo := memo\<rparr>) R = reach h R"
  by (simp add: reach_def parent_rel_def parents_of_def)

lemma dict_ok_move_to_end: "dict_ok d \<Longrightarrow> dict_ok (dict_del k d @ [(k, v)])"
  using delete_notin_dom [of k d] by (auto simp: dict_ok_def distinct_delete)

lemma map_of_move_to_end: "map_of d k = Some v \<Longrightarrow> map_of (dict_del k d @ [(k, v)]) = map_of d"
  by (rule ext) (auto simp: map_add_def split: option.splits)

lemma length_move_to_end: "map_of d k = Some v \<Longrightarrow> length (dict_del k d @ [(k, v)]) \<le> length d"
proof -
  assume "map_of d k = Some v"
  then have "(k, v) \<in> set d" by (rule map_of_SomeD)
  then have "length (filter (\<lambda>(k', _). k \<noteq> k') d) < length d" by (intro length_filter_less) auto
  then show ?thesis by (simp add: AList.delete_eq)
qed

lemma length_dict_set: "length (dict_set k v d) \<le> Suc (length d)"
  by (induction d) auto

lemma dict_ok_tl: "dict_ok d \<Longrightarrow> dict_ok (tl d)"
  by (cases d) (auto simp: dict_ok_def)

lemma map_of_tl: "dict_ok d \<Longrightarrow> map_of (tl d) k = Some v \<Longrightarrow> map_of d k = Some v"
  by (cases d) (auto simp: dict_ok_def dest: map_of_SomeD intro: rev_image_eqI)

lemma reachable_call:
  assumes "memo_ok h" and "get_reachable_role_names roles h = (r, h')"
  shows "memo_ok h' \<and> rh_exact h' = rh_exact h \<and> rh_wildcards h' = rh_wildcards h \<and>
    (case r of
       Inr xs \<Rightarrow> set xs = reach h (set roles) \<and> distinct xs
     | Inl e \<Rightarrow> e = CapReached \<and> h' = h \<and> (finite (reach h (set roles)) \<longrightarrow> MAX_REACHABLE \<le> card (reach h (set roles))))"
proof (cases "map_of (rh_memo h) (set roles)")
  case (Some cached)
  then have "r = Inr cached" "h' = h\<lparr>rh_memo := dict_del (set roles) (rh_memo h) @ [(set roles, cached)]\<rparr>"
    using assms(2) by (simp_all add: get_reachable_role_names_def Let_def)
  then show ?thesis
    using assms(1) Some dict_ok_move_to_end map_of_move_to_end [OF Some] length_move_to_end [OF Some]
    by (auto simp: memo_ok_def)
next
  case None
  show ?thesis
  proof (cases "expand h roles [] {}")
    case (Inl e)
    then have "r = Inl e" "h' = h" using assms(2) None by (simp_all add: get_reachable_role_names_def Let_def)
    then show ?thesis using assms(1) expand_error [OF search_inv_start Inl] by simp
  next
    case (Inr xs)
    define memo where "memo = (if MAX_MEMO \<le> length (rh_memo h) then tl (rh_memo h) else rh_memo h)"
    have r: "r = Inr xs" "h' = h\<lparr>rh_memo := dict_set (set roles) xs memo\<rparr>"
      using assms(2) None Inr by (simp_all add: get_reachable_role_names_def memo_def Let_def)
    have memo: "dict_ok memo" "length memo < MAX_MEMO" "map_of memo K = Some ys \<Longrightarrow> map_of (rh_memo h) K = Some ys" for K ys
      using assms(1) dict_ok_tl map_of_tl by (auto simp: memo_ok_def memo_def MAX_MEMO_def split: if_splits)
    have "length (dict_set (set roles) xs memo) \<le> MAX_MEMO" using length_dict_set [of "set roles" xs memo] memo(2) by simp
    moreover have "set ys = reach h K \<and> distinct ys" if "map_of (dict_set (set roles) xs memo) K = Some ys" for K ys
      using that assms(1) memo(3) [of K ys] expand_result [OF search_inv_start Inr] by (auto simp: memo_ok_def split: if_splits)
    moreover have "dict_ok (dict_set (set roles) xs memo)" using memo(1) by simp
    moreover have "rh_memo h' = dict_set (set roles) xs memo" "reach h' K = reach h K" for K using r(2) by simp_all
    ultimately have "memo_ok h'" unfolding memo_ok_def by presburger
    then show ?thesis using expand_result [OF search_inv_start Inr] r by simp
  qed
qed

definition asked :: "string list list \<Rightarrow> role_hierarchy \<Rightarrow> role_hierarchy" where
  "asked = fold (\<lambda>roles h. snd (get_reachable_role_names roles h))"

lemma asked_ok: "memo_ok h \<Longrightarrow> memo_ok (asked calls h) \<and> rh_exact (asked calls h) = rh_exact h \<and> rh_wildcards (asked calls h) = rh_wildcards h"
  unfolding asked_def
proof (induction calls arbitrary: h)
  case Nil
  then show ?case by simp
next
  case (Cons roles calls)
  obtain r h' where run: "get_reachable_role_names roles h = (r, h')" by (cases "get_reachable_role_names roles h")
  then show ?case using reachable_call [OF Cons.prems run] Cons.IH [of h'] by simp
qed

lemma init_memo_ok: "RoleHierarchy_init hierarchy = Inr h \<Longrightarrow> memo_ok h"
proof -
  assume "RoleHierarchy_init hierarchy = Inr h"
  then have "rh_memo h = []"
    unfolding RoleHierarchy_init_def
    by (rule fold_r_inv) (auto simp: declare_entry_def Let_def split: if_splits list.splits)
  then show ?thesis by (simp add: memo_ok_def)
qed

lemma reach_same: "rh_exact h' = rh_exact h \<Longrightarrow> rh_wildcards h' = rh_wildcards h \<Longrightarrow> reach h' R = reach h R"
  by (simp add: reach_def parent_rel_def parents_of_def)

text \<open>
  C19: whatever was asked of a hierarchy before, the roles it returns are exactly those the given roles
  reach through the declared entries, each once, memoised or not; it refuses only when they reach at
  least the cap of ten thousand roles, and the memo never outgrows its cap.
\<close>

theorem reachable_roles_exact:
  assumes "RoleHierarchy_init hierarchy = Inr h" and "get_reachable_role_names roles (asked calls h) = (r, h')"
  shows "length (rh_memo h') \<le> MAX_MEMO \<and>
    (case r of
       Inr xs \<Rightarrow> set xs = reach h (set roles) \<and> distinct xs
     | Inl e \<Rightarrow> e = CapReached \<and> (finite (reach h (set roles)) \<longrightarrow> MAX_REACHABLE \<le> card (reach h (set roles))))"
proof -
  note ok = asked_ok [OF init_memo_ok [OF assms(1)], of calls]
  have "reach (asked calls h) (set roles) = reach h (set roles)" using ok by (intro reach_same) auto
  then show ?thesis
    using reachable_call [OF conjunct1 [OF ok] assms(2)] by (cases r) (auto simp: memo_ok_def)
qed

text \<open>
  Without wildcards only the declared parents can be reached, so a hierarchy that declares fewer than
  the cap never refuses.
\<close>

definition declared_parents :: "role_hierarchy \<Rightarrow> string set" where
  "declared_parents h = (\<Union>(key, parents) \<in> set (rh_exact h). set parents)"

lemma finite_declared_parents: "finite (declared_parents h)"
  by (auto simp: declared_parents_def)

lemma reach_declared:
  assumes "rh_wildcards h = []"
  shows "reach h R \<subseteq> R \<union> declared_parents h"
proof (rule reach_least)
  fix r
  show "set (parents_of h r) \<subseteq> R \<union> declared_parents h"
  proof (cases "map_of (rh_exact h) r")
    case None
    then show ?thesis using assms by (simp add: parents_of_def dict_get_or_def)
  next
    case (Some parents)
    then have "(r, parents) \<in> set (rh_exact h)" by (rule map_of_SomeD)
    then show ?thesis using assms Some by (auto simp: parents_of_def dict_get_or_def declared_parents_def)
  qed
qed simp

text \<open>
  C36: a hierarchy with no wildcard entry always answers, cycles included, as long as the roles asked about and the
  roles it declares number fewer than ten thousand together.
\<close>

theorem exact_hierarchy_answers:
  assumes "RoleHierarchy_init hierarchy = Inr h" and "rh_wildcards h = []" and "card (set roles \<union> declared_parents h) < MAX_REACHABLE"
  shows "\<exists>xs. fst (get_reachable_role_names roles (asked calls h)) = Inr xs \<and> set xs = reach h (set roles)"
proof -
  obtain r h' where run: "get_reachable_role_names roles (asked calls h) = (r, h')" by (cases "get_reachable_role_names roles (asked calls h)")
  note ok = asked_ok [OF init_memo_ok [OF assms(1)], of calls]
  have same: "reach (asked calls h) (set roles) = reach h (set roles)" using ok by (intro reach_same) auto
  have "finite (set roles \<union> declared_parents h)" using finite_declared_parents by simp
  then have "finite (reach h (set roles))" "card (reach h (set roles)) \<le> card (set roles \<union> declared_parents h)"
    using reach_declared [OF assms(2)] by (auto intro: finite_subset card_mono)
  then show ?thesis using reachable_call [OF conjunct1 [OF ok] run] same run assms(3) by (cases r) simp_all
qed

section \<open>Which roles reach a role\<close>

definition exact_rel :: "role_hierarchy \<Rightarrow> (string \<times> string) set" where
  "exact_rel h = {(role, parent). parent \<in> set (dict_get_or (rh_exact h) role [])}"

lemma descendants_from:
  assumes "S \<subseteq> D \<union> set pending" and "D \<union> set pending \<subseteq> (exact_rel h)\<^sup>* `` S"
    and "\<And>r. r \<in> D \<Longrightarrow> set (dict_get_or (rh_exact h) r []) \<subseteq> D \<union> set pending"
  shows "exact_descendants_from h pending D = (exact_rel h)\<^sup>* `` S"
  using assms
proof (induction h pending D rule: exact_descendants_from.induct)
  case (1 h D)
  have "x \<in> D" if "(s, x) \<in> (exact_rel h)\<^sup>*" "s \<in> S" for s x
    using that by (induction rule: rtrancl_induct) (use 1 in \<open>auto simp: exact_rel_def\<close>)
  with 1 show ?case by auto
next
  case (2 h role pending D)
  show ?case
  proof (cases "role \<in> D")
    case True
    have "exact_descendants_from h pending D = (exact_rel h)\<^sup>* `` S"
      by (rule "2.IH"(1) [OF True]) (use "2.prems" True in auto)
    then show ?thesis using True by simp
  next
    case False
    have "set (dict_get_or (rh_exact h) role []) \<subseteq> (exact_rel h)\<^sup>* `` S"
      using "2.prems"(2) by (auto simp: exact_rel_def intro: rtrancl_into_rtrancl)
    then have "exact_descendants_from h (pending @ dict_get_or (rh_exact h) role []) (insert role D) = (exact_rel h)\<^sup>* `` S"
      by (intro "2.IH"(2) [OF False]) (use "2.prems" in auto)
    then show ?thesis using False by simp
  qed
qed

lemma exact_descendants_eq: "exact_descendants h key = (exact_rel h)\<^sup>+ `` {key}"
proof -
  have "exact_descendants h key = (exact_rel h)\<^sup>* `` (exact_rel h `` {key})"
    unfolding exact_descendants_def by (rule descendants_from) (auto simp: exact_rel_def)
  then show ?thesis by (auto simp: trancl_unfold_left)
qed

lemma set_note_role [simp]: "set (note_role r xs) = insert r (set xs)"
  by (auto simp: note_role_def)

lemma distinct_note_role: "distinct xs \<Longrightarrow> distinct (note_role r xs)"
  by (auto simp: note_role_def)

lemma note_keys:
  "set (fold (\<lambda>key parents. if P key then note_role key parents else parents) keys xs) = set xs \<union> {k \<in> set keys. P k}"
  "distinct xs \<Longrightarrow> distinct (fold (\<lambda>key parents. if P key then note_role key parents else parents) keys xs)"
  by (induction keys arbitrary: xs) (auto simp: distinct_note_role)

lemma parent_roles_set:
  "set (get_parent_role_names h roles) = set roles \<union> {key \<in> set (dict_keys (rh_exact h)). \<exists>role \<in> set roles. role \<in> exact_descendants h key}"
  "distinct (get_parent_role_names h roles)"
proof -
  let ?step = "\<lambda>role parents. fold (\<lambda>key parents. if role \<in> exact_descendants h key then note_role key parents else parents)
      (dict_keys (rh_exact h)) (note_role role parents)"
  have "set (fold ?step rs xs) = set xs \<union> set rs
      \<union> {key \<in> set (dict_keys (rh_exact h)). \<exists>role \<in> set rs. role \<in> exact_descendants h key}" for rs xs
    by (induction rs arbitrary: xs) (auto simp: note_keys(1))
  then show "set (get_parent_role_names h roles) = set roles \<union> {key \<in> set (dict_keys (rh_exact h)). \<exists>role \<in> set roles. role \<in> exact_descendants h key}"
    by (simp add: get_parent_role_names_def)
  have "distinct xs \<Longrightarrow> distinct (fold ?step rs xs)" for rs xs
    by (induction rs arbitrary: xs) (auto simp: note_keys(2) distinct_note_role)
  then show "distinct (get_parent_role_names h roles)" by (simp add: get_parent_role_names_def)
qed

text \<open>
  the inverse question is answered by the inverse relation: in a hierarchy without wildcards, a
  declared role is among the parents of some roles exactly when expanding it reaches one of them.
\<close>

theorem parent_roles_inverse:
  assumes "rh_wildcards h = []" and "key \<in> set (dict_keys (rh_exact h))"
  shows "key \<in> set (get_parent_role_names h roles) \<longleftrightarrow> reach h {key} \<inter> set roles \<noteq> {}"
proof -
  have "parent_rel h = exact_rel h" using assms(1) by (auto simp: parent_rel_def exact_rel_def parents_of_def)
  then have "reach h {key} = insert key ((exact_rel h)\<^sup>+ `` {key})"
    by (auto simp: reach_def dest: rtranclD intro: trancl_into_rtrancl)
  then show ?thesis using assms(2) by (auto simp: parent_roles_set(1) exact_descendants_eq)
qed

section \<open>Concrete hierarchies\<close>

definition demo_roles :: "(string, string list) dict" where
  "demo_roles = [(''ROLE_ADMIN'', [''ROLE_EDITOR'']), (''ROLE_EDITOR'', [''ROLE_USER'', ''ROLE_ADMIN'']),
     (''ROLE_T_*_ADMIN'', [''ROLE_T_*_USER''])]"

lemma demo_wildcard: "substitute ''ROLE_T_*_USER'' [''42''] = ''ROLE_T_42_USER''"
  by code_simp

definition demo_hierarchy :: role_hierarchy where
  "demo_hierarchy =
     \<lparr>rh_exact = [(''ROLE_ADMIN'', [''ROLE_EDITOR'']), (''ROLE_EDITOR'', [''ROLE_USER'', ''ROLE_ADMIN''])],
      rh_wildcards = [([''ROLE_T_'', ''_ADMIN''], [''ROLE_T_*_USER''])], rh_memo = []\<rparr>"

lemma demo_init: "RoleHierarchy_init demo_roles = Inr demo_hierarchy"
  by code_simp

lemma demo_parents:
  "parents_of demo_hierarchy ''ROLE_ADMIN'' = [''ROLE_EDITOR'']"
  "parents_of demo_hierarchy ''ROLE_EDITOR'' = [''ROLE_USER'', ''ROLE_ADMIN'']"
  "parents_of demo_hierarchy ''ROLE_USER'' = []"
  "parents_of demo_hierarchy ''ROLE_T_42_ADMIN'' = [''ROLE_T_42_USER'']"
  "parents_of demo_hierarchy ''ROLE_T_42_USER'' = []"
  by code_simp+

lemma demo_expand:
  "expand demo_hierarchy [''ROLE_ADMIN'', ''ROLE_T_42_ADMIN''] [] {}
    = Inr [''ROLE_ADMIN'', ''ROLE_T_42_ADMIN'', ''ROLE_EDITOR'', ''ROLE_T_42_USER'', ''ROLE_USER'']"
  by (simp add: MAX_REACHABLE_def demo_parents)

theorem reachable_roles_exact_witness:
  "set [''ROLE_ADMIN'', ''ROLE_T_42_ADMIN'', ''ROLE_EDITOR'', ''ROLE_T_42_USER'', ''ROLE_USER'']
    = reach demo_hierarchy {''ROLE_ADMIN'', ''ROLE_T_42_ADMIN''}"
proof -
  have "fst (get_reachable_role_names [''ROLE_ADMIN'', ''ROLE_T_42_ADMIN''] (asked [] demo_hierarchy))
    = Inr [''ROLE_ADMIN'', ''ROLE_T_42_ADMIN'', ''ROLE_EDITOR'', ''ROLE_T_42_USER'', ''ROLE_USER'']"
    using demo_expand by (simp add: asked_def get_reachable_role_names_def Let_def del: expand.simps)
      (simp add: demo_hierarchy_def)
  then obtain h' where "get_reachable_role_names [''ROLE_ADMIN'', ''ROLE_T_42_ADMIN''] (asked [] demo_hierarchy)
    = (Inr [''ROLE_ADMIN'', ''ROLE_T_42_ADMIN'', ''ROLE_EDITOR'', ''ROLE_T_42_USER'', ''ROLE_USER''], h')"
    by (metis prod.collapse)
  from reachable_roles_exact [OF demo_init this] show ?thesis by simp
qed

definition demo_cycle :: role_hierarchy where
  "demo_cycle = \<lparr>rh_exact = [(''A'', [''B'']), (''B'', [''C'', ''A''])], rh_wildcards = [], rh_memo = []\<rparr>"

lemma demo_cycle_init: "RoleHierarchy_init [(''A'', [''B'']), (''B'', [''C'', ''A''])] = Inr demo_cycle"
  by code_simp

theorem exact_hierarchy_answers_witness:
  "\<exists>xs. fst (get_reachable_role_names [''A''] (asked [[''B''], [''A'']] demo_cycle)) = Inr xs \<and> set xs = reach demo_cycle {''A''}"
proof -
  have "set [''A''] \<union> declared_parents demo_cycle = {''A'', ''B'', ''C''}"
    by (auto simp: declared_parents_def demo_cycle_def)
  moreover have "card {''A'', ''B'', ''C''} < MAX_REACHABLE" by (simp add: MAX_REACHABLE_def)
  ultimately show ?thesis
    using exact_hierarchy_answers [OF demo_cycle_init, of "[''A'']" "[[''B''], [''A'']]"] by (simp add: demo_cycle_def)
qed

theorem parent_roles_inverse_witness:
  "get_parent_role_names demo_cycle [''C''] = [''C'', ''A'', ''B''] \<and> reach demo_cycle {''A''} \<inter> {''C''} \<noteq> {}"
proof -
  have "get_parent_role_names demo_cycle [''C''] = [''C'', ''A'', ''B'']" by code_simp
  then show ?thesis using parent_roles_inverse [of demo_cycle "''A''" "[''C'']"] by (simp add: demo_cycle_def)
qed

theorem wildcard_match_roundtrip_witness:
  "fullmatch (split_on star ''ROLE_*_OF_*'') ''ROLE_X_OF_Y'' = Some [''X'', ''Y''] \<and> substitute ''ROLE_*_OF_*'' [''X'', ''Y''] = ''ROLE_X_OF_Y''
    \<and> fullmatch (split_on star ''ROLE_*_OF_*'') (substitute ''ROLE_*_OF_*'' [''P'', ''Q'']) \<noteq> None"
proof -
  have "fullmatch (split_on star ''ROLE_*_OF_*'') ''ROLE_X_OF_Y'' = Some [''X'', ''Y'']" by code_simp
  then show ?thesis
    using wildcard_match_roundtrip [of "''ROLE_*_OF_*''" "''ROLE_X_OF_Y''" "[''X'', ''Y'']"]
      wildcard_match_roundtrip [of "''ROLE_*_OF_*''" "''X''" "[''P'', ''Q'']"] by (simp add: segment_ok_def)
qed

end
