(* ===== verification/Access_Decision.thy ===== *)
theory Access_Decision
  imports Access_Roles
begin

text \<open>
  Package xtr-security-core, authorization: tokens and the trust resolver, the four decision strategies, the
  access decision manager with its applicability caches and its stack of decisions in progress, the voters
  and the authorization checker. A voter is a program: it may raise, and it returns its answer with the vote it
  filled in. The results a strategy pulls are the programs of the voters, each run only when pulled. A
  closure attribute is the tree of the questions it asks.
\<close>

section \<open>Tokens\<close>

record user =
  us_identifier :: string
  us_roles :: "string list"

datatype token_kind =
    NullToken
  | UsernamePasswordToken string
  | SwitchUserToken string
  | RememberMeToken string
  | PreAuthenticatedToken string
  | OfflineTokenKind

record token =
  tk_kind :: token_kind
  tk_user :: "user option"
  tk_role_names :: "string list"
  tk_proofs :: "(string, int) dict option"

definition null_token :: token where
  "null_token = \<lparr>tk_kind = NullToken, tk_user = None, tk_role_names = [], tk_proofs = None\<rparr>"

definition AbstractToken_init :: "token_kind \<Rightarrow> string list \<Rightarrow> token" where
  "AbstractToken_init kind roles = \<lparr>tk_kind = kind, tk_user = None, tk_role_names = roles, tk_proofs = None\<rparr>"

definition set_user :: "user \<Rightarrow> token \<Rightarrow> token" where
  "set_user user token = token\<lparr>tk_user := Some user\<rparr>"

definition get_user_identifier :: "token \<Rightarrow> string" where
  "get_user_identifier token = (case tk_user token of None \<Rightarrow> [] | Some user \<Rightarrow> us_identifier user)"

definition get_authentication_proofs :: "token \<Rightarrow> (string, int) dict" where
  "get_authentication_proofs token = (case tk_proofs token of None \<Rightarrow> [] | Some proofs \<Rightarrow> proofs)"

definition set_authentication_proofs :: "(string, int) dict \<Rightarrow> token \<Rightarrow> token" where
  "set_authentication_proofs proofs token = token\<lparr>tk_proofs := Some proofs\<rparr>"

datatype token_error = EmptyFirewallName

definition UsernamePasswordToken_init :: "user \<Rightarrow> string \<Rightarrow> string list \<Rightarrow> token_error + token" where
  "UsernamePasswordToken_init user firewall_name roles =
     (let token = AbstractToken_init (UsernamePasswordToken firewall_name) roles
      in if firewall_name = [] then Inl EmptyFirewallName else Inr (set_user user token))"

definition SwitchUserToken_init :: "user \<Rightarrow> string \<Rightarrow> string list \<Rightarrow> token_error + token" where
  "SwitchUserToken_init user firewall_name roles =
     (case UsernamePasswordToken_init user firewall_name roles of
        Inl e \<Rightarrow> Inl e | Inr token \<Rightarrow> Inr (token\<lparr>tk_kind := SwitchUserToken firewall_name\<rparr>))"

definition RememberMeToken_init :: "user \<Rightarrow> string \<Rightarrow> token_error + token" where
  "RememberMeToken_init user firewall_name =
     (let token = AbstractToken_init (RememberMeToken firewall_name) (us_roles user)
      in if firewall_name = [] then Inl EmptyFirewallName else Inr (set_user user token))"

definition PreAuthenticatedToken_init :: "user \<Rightarrow> string \<Rightarrow> string list \<Rightarrow> token_error + token" where
  "PreAuthenticatedToken_init user firewall_name roles =
     (let token = AbstractToken_init (PreAuthenticatedToken firewall_name) roles
      in if firewall_name = [] then Inl EmptyFirewallName else Inr (set_user user token))"

section \<open>How strongly a token is authenticated\<close>

record trust_resolver =
  tr_is_authenticated :: "token option \<Rightarrow> bool"
  tr_is_remember_me :: "token option \<Rightarrow> bool"
  tr_is_full_fledged :: "token option \<Rightarrow> bool"
  tr_is_authenticated_recently :: "int \<Rightarrow> token option \<Rightarrow> bool"
  tr_is_authenticated_very_recently :: "int \<Rightarrow> token option \<Rightarrow> bool"

definition is_authenticated :: "token option \<Rightarrow> bool" where
  "is_authenticated token = (case token of None \<Rightarrow> False | Some t \<Rightarrow> tk_user t \<noteq> None)"

definition is_remember_me :: "token option \<Rightarrow> bool" where
  "is_remember_me token = False"

definition is_full_fledged :: "token option \<Rightarrow> bool" where
  "is_full_fledged token = (is_authenticated token \<and> \<not> is_remember_me token)"

definition is_authenticated_within :: "int \<Rightarrow> int \<Rightarrow> token option \<Rightarrow> bool" where
  "is_authenticated_within lifetime now token =
     (case token of
        None \<Rightarrow> False
      | Some t \<Rightarrow>
          if \<not> is_full_fledged token then False
          else (case get_authentication_proofs t of
                  [] \<Rightarrow> False
                | p # ps \<Rightarrow> now - fold max (map snd ps) (snd p) \<le> lifetime))"

definition AuthenticationTrustResolver_init :: "int \<Rightarrow> int \<Rightarrow> trust_resolver" where
  "AuthenticationTrustResolver_init recent_lifetime very_recent_lifetime =
     \<lparr>tr_is_authenticated = is_authenticated, tr_is_remember_me = is_remember_me, tr_is_full_fledged = is_full_fledged,
      tr_is_authenticated_recently = is_authenticated_within recent_lifetime,
      tr_is_authenticated_very_recently = is_authenticated_within very_recent_lifetime\<rparr>"

section \<open>Questions, votes and decisions\<close>

datatype subject =
    SNone | SBool bool | SArray nat | SInt int | SFloat real | SStr string | SObject nat string

datatype attribute = AStr string | AClosure string closure | AOther nat
and closure = Return bool | Ask attribute subject "bool \<Rightarrow> closure"

datatype access = GRANTED | ABSTAIN | DENIED

record vote =
  vt_voter :: nat
  vt_result :: access
  vt_reasons :: "string list"
  vt_re_authentication :: "string option"

definition Vote_init :: "nat \<Rightarrow> vote" where
  "Vote_init voter = \<lparr>vt_voter = voter, vt_result = ABSTAIN, vt_reasons = [], vt_re_authentication = None\<rparr>"

definition add_reason :: "string \<Rightarrow> vote \<Rightarrow> vote" where
  "add_reason reason vote = vote\<lparr>vt_reasons := vt_reasons vote @ [reason]\<rparr>"

definition request_re_authentication :: "string \<Rightarrow> vote \<Rightarrow> vote" where
  "request_re_authentication attribute vote = vote\<lparr>vt_re_authentication := Some attribute\<rparr>"

record access_decision =
  ad_is_granted :: bool
  ad_votes :: "vote list"
  ad_strategy :: "string option"

definition AccessDecision_init :: access_decision where
  "AccessDecision_init = \<lparr>ad_is_granted = False, ad_votes = [], ad_strategy = None\<rparr>"

text \<open>\<open>" ".join\<close>\<close>

fun join_with :: "string \<Rightarrow> string list \<Rightarrow> string" where
  "join_with sep [] = []"
| "join_with sep [x] = x"
| "join_with sep (x # y # xs) = x @ sep @ join_with sep (y # xs)"

definition decision_message :: "access_decision \<Rightarrow> string" where
  "decision_message d =
     (if ad_is_granted d then ''Access granted.''
      else let reasons = concat (map vt_reasons (filter (\<lambda>v. vt_result v = DENIED) (ad_votes d)))
           in if reasons \<noteq> [] then ''Access denied. '' @ join_with '' '' reasons else ''Access denied.'')"

text \<open>
  What the calls share: the manager's caches, the decisions made so far (a decision is its index),
  the stack of those in progress, the token storage, the stack of tokens a user's access is
  decided for (each with the checker that pushed it), the role hierarchy and the clock.
\<close>

record access_world =
  aw_attribute_cache :: "(nat \<times> string, bool) dict"
  aw_type_cache :: "(nat \<times> string, bool) dict"
  aw_decisions :: "access_decision list"
  aw_stack :: "nat list"
  aw_token :: "token option"
  aw_token_stack :: "(nat \<times> token) list"
  aw_hierarchy :: role_hierarchy
  aw_now :: int

type_synonym 'a access_prog = "(access_world, access_error, 'a) prog"

section \<open>Strategies\<close>

text \<open>A result that was not yielded, because the voter does not apply, is \<open>None\<close>.\<close>

fun affirmative_decide :: "bool \<Rightarrow> nat \<Rightarrow> access option access_prog list \<Rightarrow> bool access_prog" where
  "affirmative_decide allow_if_all_abstain deny [] = ret (if deny > 0 then False else allow_if_all_abstain)"
| "affirmative_decide allow_if_all_abstain deny (p # results) =
     andthen p (\<lambda>result.
       case result of
         Some GRANTED \<Rightarrow> ret True
       | Some DENIED \<Rightarrow> affirmative_decide allow_if_all_abstain (Suc deny) results
       | _ \<Rightarrow> affirmative_decide allow_if_all_abstain deny results)"

fun consensus_decide :: "bool \<Rightarrow> bool \<Rightarrow> nat \<Rightarrow> nat \<Rightarrow> access option access_prog list \<Rightarrow> bool access_prog" where
  "consensus_decide allow_if_all_abstain allow_if_equal granted denied [] =
     ret (if granted > denied then True
          else if denied > granted then False
          else if granted > 0 then allow_if_equal else allow_if_all_abstain)"
| "consensus_decide allow_if_all_abstain allow_if_equal granted denied (p # results) =
     andthen p (\<lambda>result.
       case result of
         Some GRANTED \<Rightarrow> consensus_decide allow_if_all_abstain allow_if_equal (Suc granted) denied results
       | Some DENIED \<Rightarrow> consensus_decide allow_if_all_abstain allow_if_equal granted (Suc denied) results
       | _ \<Rightarrow> consensus_decide allow_if_all_abstain allow_if_equal granted denied results)"

fun priority_decide :: "bool \<Rightarrow> access option access_prog list \<Rightarrow> bool access_prog" where
  "priority_decide allow_if_all_abstain [] = ret allow_if_all_abstain"
| "priority_decide allow_if_all_abstain (p # results) =
     andthen p (\<lambda>result.
       case result of
         Some GRANTED \<Rightarrow> ret True
       | Some DENIED \<Rightarrow> ret False
       | _ \<Rightarrow> priority_decide allow_if_all_abstain results)"

fun unanimous_decide :: "bool \<Rightarrow> nat \<Rightarrow> access option access_prog list \<Rightarrow> bool access_prog" where
  "unanimous_decide allow_if_all_abstain granted [] = ret (if granted > 0 then True else allow_if_all_abstain)"
| "unanimous_decide allow_if_all_abstain granted (p # results) =
     andthen p (\<lambda>result.
       case result of
         Some DENIED \<Rightarrow> ret False
       | Some GRANTED \<Rightarrow> unanimous_decide allow_if_all_abstain (Suc granted) results
       | _ \<Rightarrow> unanimous_decide allow_if_all_abstain granted results)"

datatype strategy =
    AffirmativeStrategy bool
  | ConsensusStrategy bool bool
  | PriorityStrategy bool
  | UnanimousStrategy bool

fun strategy_decide :: "strategy \<Rightarrow> access option access_prog list \<Rightarrow> bool access_prog" where
  "strategy_decide (AffirmativeStrategy a) results = affirmative_decide a 0 results"
| "strategy_decide (ConsensusStrategy a e) results = consensus_decide a e 0 0 results"
| "strategy_decide (PriorityStrategy a) results = priority_decide a results"
| "strategy_decide (UnanimousStrategy a) results = unanimous_decide a 0 results"

fun strategy_name :: "strategy \<Rightarrow> string" where
  "strategy_name (AffirmativeStrategy a) = ''affirmative''"
| "strategy_name (ConsensusStrategy a e) = ''consensus''"
| "strategy_name (PriorityStrategy a) = ''priority''"
| "strategy_name (UnanimousStrategy a) = ''unanimous''"

section \<open>The access decision manager\<close>

record voter =
  vo_id :: nat
  vo_cacheable :: bool
  vo_supports_attribute :: "string \<Rightarrow> bool"
  vo_supports_type :: "string \<Rightarrow> bool"
  vo_vote :: "token \<Rightarrow> subject \<Rightarrow> attribute list \<Rightarrow> vote \<Rightarrow> (access \<times> vote) access_prog"

record manager =
  am_voters :: "voter list"
  am_strategy :: strategy

definition MAX_ATTRIBUTE_CACHE :: nat where "MAX_ATTRIBUTE_CACHE = 4096"

definition MAX_TYPE_CACHE :: nat where "MAX_TYPE_CACHE = 4096"

definition cached_answer :: "nat \<Rightarrow> 'k \<Rightarrow> bool \<Rightarrow> ('k, bool) dict \<Rightarrow> bool \<times> ('k, bool) dict" where
  "cached_answer cap key answer cache =
     (case map_of cache key of
        None \<Rightarrow> (answer, dict_set key answer (if length cache \<ge> cap then tl cache else cache))
      | Some known \<Rightarrow> (known, dict_del key cache @ [(key, known)]))"

fun type_name :: "subject \<Rightarrow> string" where
  "type_name SNone = ''null''"
| "type_name (SBool b) = ''bool''"
| "type_name (SArray i) = ''array''"
| "type_name (SInt i) = ''int''"
| "type_name (SFloat x) = ''float''"
| "type_name (SStr s) = ''string''"
| "type_name (SObject i class_name) = class_name"

definition supports :: "nat \<Rightarrow> voter \<Rightarrow> attribute \<Rightarrow> subject \<Rightarrow> bool access_prog" where
  "supports index v attribute subject = (\<lambda>w.
     if \<not> vo_cacheable v then (Inr True, w)
     else (case attribute of
       AStr a \<Rightarrow>
         (case cached_answer MAX_ATTRIBUTE_CACHE (index, a) (vo_supports_attribute v a) (aw_attribute_cache w) of
            (supported_attribute, cache) \<Rightarrow>
              let w1 = w\<lparr>aw_attribute_cache := cache\<rparr>
              in if \<not> supported_attribute then (Inr False, w1)
                 else (case cached_answer MAX_TYPE_CACHE (index, type_name subject)
                              (vo_supports_type v (type_name subject)) (aw_type_cache w1) of
                         (supported_type, type_cache) \<Rightarrow> (Inr supported_type, w1\<lparr>aw_type_cache := type_cache\<rparr>)))
     | _ \<Rightarrow> (Inr True, w)))"

definition change_decision :: "nat \<Rightarrow> (access_decision \<Rightarrow> access_decision) \<Rightarrow> access_world \<Rightarrow> access_world" where
  "change_decision d f w = w\<lparr>aw_decisions := (aw_decisions w)[d := f (aw_decisions w ! d)]\<rparr>"

definition collect_one :: "token \<Rightarrow> attribute \<Rightarrow> attribute list \<Rightarrow> subject \<Rightarrow> nat \<Rightarrow> nat \<times> voter \<Rightarrow> access option access_prog" where
  "collect_one token attribute attribute_list subject d entry =
     (case entry of (index, v) \<Rightarrow>
        andthen (supports index v attribute subject) (\<lambda>supported.
        if \<not> supported then ret None
        else andthen (vo_vote v token subject attribute_list (Vote_init (vo_id v))) (\<lambda>(result, vote) w.
          (Inr (Some result),
           change_decision d (\<lambda>ad. ad\<lparr>ad_votes := ad_votes ad @ [vote\<lparr>vt_result := result\<rparr>]\<rparr>) w))))"

definition collect :: "manager \<Rightarrow> token \<Rightarrow> attribute \<Rightarrow> attribute list \<Rightarrow> subject \<Rightarrow> nat \<Rightarrow> access option access_prog list" where
  "collect self token attribute attribute_list subject d =
     map (collect_one token attribute attribute_list subject d) (List.enumerate 0 (am_voters self))"

text \<open>Which record a decision is made in, and whether the decision owns it.\<close>

definition decision_record :: "nat option \<Rightarrow> access_world \<Rightarrow> nat \<times> bool \<times> access_world" where
  "decision_record access_decision w =
     (case access_decision of
        Some d \<Rightarrow> (d, True, w)
      | None \<Rightarrow>
          if aw_stack w \<noteq> [] then (last (aw_stack w), False, w)
          else (length (aw_decisions w), True, w\<lparr>aw_decisions := aw_decisions w @ [AccessDecision_init]\<rparr>))"

definition decide :: "manager \<Rightarrow> token \<Rightarrow> attribute list \<Rightarrow> subject \<Rightarrow> nat option \<Rightarrow> bool access_prog" where
  "decide self token attributes subject access_decision = (\<lambda>w.
     case attributes of
       [attribute] \<Rightarrow>
         (case decision_record access_decision w of (d, owns_record, w1) \<Rightarrow>
            let w2 = change_decision d (\<lambda>ad. ad\<lparr>ad_strategy := Some (strategy_name (am_strategy self))\<rparr>) w1
            in case strategy_decide (am_strategy self) (collect self token attribute attributes subject d)
                      (w2\<lparr>aw_stack := aw_stack w @ [d]\<rparr>) of
                 (Inl e, w3) \<Rightarrow> (Inl e, w3\<lparr>aw_stack := aw_stack w\<rparr>)
               | (Inr granted, w3) \<Rightarrow>
                   (Inr granted,
                    (if owns_record then change_decision d (\<lambda>ad. ad\<lparr>ad_is_granted := granted\<rparr>) w3 else w3)
                      \<lparr>aw_stack := aw_stack w\<rparr>))
     | _ \<Rightarrow> (Inl (NotOneAttribute (length attributes)), w))"

section \<open>Voters\<close>

definition starts_with :: "string \<Rightarrow> string \<Rightarrow> bool" where
  "starts_with prefix s = (take (length prefix) s = prefix)"

fun role_vote_from :: "string \<Rightarrow> string list \<Rightarrow> attribute list \<Rightarrow> access \<Rightarrow> string list \<Rightarrow> vote \<Rightarrow> access \<times> vote" where
  "role_vote_from prefix roles [] result missing_roles vote =
     (if result = DENIED
      then let any_of = (if length missing_roles > 1 then '' any of'' else '''')
           in (result, add_reason (''The user doesn'' @ [CHR 0x27] @ ''t have'' @ any_of @ '' '' @ join_with '', '' missing_roles @ ''.'') vote)
      else (result, vote))"
| "role_vote_from prefix roles (AStr attribute # attributes) result missing_roles vote =
     (if \<not> starts_with prefix attribute then role_vote_from prefix roles attributes result missing_roles vote
      else if attribute \<in> set roles then (GRANTED, add_reason (''The user has '' @ attribute @ ''.'') vote)
      else role_vote_from prefix roles attributes DENIED (missing_roles @ [attribute]) vote)"
| "role_vote_from prefix roles (_ # attributes) result missing_roles vote =
     role_vote_from prefix roles attributes result missing_roles vote"

definition role_vote ::
  "string \<Rightarrow> (token \<Rightarrow> string list access_prog) \<Rightarrow> token \<Rightarrow> subject \<Rightarrow> attribute list \<Rightarrow> vote \<Rightarrow> (access \<times> vote) access_prog" where
  "role_vote prefix extract_roles token subject attributes vote =
     andthen (extract_roles token) (\<lambda>roles. ret (role_vote_from prefix roles attributes ABSTAIN [] vote))"

definition RoleVoter_init :: "nat \<Rightarrow> string \<Rightarrow> voter" where
  "RoleVoter_init i prefix =
     \<lparr>vo_id = i, vo_cacheable = True, vo_supports_attribute = starts_with prefix, vo_supports_type = (\<lambda>_. True),
      vo_vote = role_vote prefix (\<lambda>token. ret (tk_role_names token))\<rparr>"

definition hierarchy_roles :: "token \<Rightarrow> string list access_prog" where
  "hierarchy_roles token = (\<lambda>w.
     case get_reachable_role_names (tk_role_names token) (aw_hierarchy w) of
       (r, h) \<Rightarrow> (r, w\<lparr>aw_hierarchy := h\<rparr>))"

definition RoleHierarchyVoter_init :: "nat \<Rightarrow> string \<Rightarrow> voter" where
  "RoleHierarchyVoter_init i prefix = (RoleVoter_init i prefix)\<lparr>vo_vote := role_vote prefix hierarchy_roles\<rparr>"

definition IS_AUTHENTICATED_VERY_RECENTLY :: string where "IS_AUTHENTICATED_VERY_RECENTLY = ''IS_AUTHENTICATED_VERY_RECENTLY''"
definition IS_AUTHENTICATED_RECENTLY :: string where "IS_AUTHENTICATED_RECENTLY = ''IS_AUTHENTICATED_RECENTLY''"
definition IS_AUTHENTICATED_FULLY :: string where "IS_AUTHENTICATED_FULLY = ''IS_AUTHENTICATED_FULLY''"
definition IS_AUTHENTICATED_REMEMBERED :: string where "IS_AUTHENTICATED_REMEMBERED = ''IS_AUTHENTICATED_REMEMBERED''"
definition IS_AUTHENTICATED :: string where "IS_AUTHENTICATED = ''IS_AUTHENTICATED''"
definition IS_IMPERSONATOR :: string where "IS_IMPERSONATOR = ''IS_IMPERSONATOR''"
definition IS_REMEMBERED :: string where "IS_REMEMBERED = ''IS_REMEMBERED''"
definition PUBLIC_ACCESS :: string where "PUBLIC_ACCESS = ''PUBLIC_ACCESS''"

definition DENIAL_REASONS :: "(string \<times> string) list" where
  "DENIAL_REASONS =
     [(IS_AUTHENTICATED_VERY_RECENTLY, ''The user did not authenticate very recently.''),
      (IS_AUTHENTICATED_RECENTLY, ''The user is not authenticated recently enough.''),
      (IS_AUTHENTICATED_FULLY, ''The user is not fully authenticated.''),
      (IS_AUTHENTICATED_REMEMBERED, ''The user is neither fully authenticated nor remembered.''),
      (IS_AUTHENTICATED, ''The user is not authenticated.''),
      (IS_IMPERSONATOR, ''The user is not impersonating another user.''),
      (IS_REMEMBERED, ''The user is not remembered.'')]"

definition AUTHENTICATION_ATTRIBUTES :: "string list" where
  "AUTHENTICATION_ATTRIBUTES =
     [IS_AUTHENTICATED_VERY_RECENTLY, IS_AUTHENTICATED_RECENTLY, IS_AUTHENTICATED_FULLY, IS_AUTHENTICATED_REMEMBERED,
      IS_AUTHENTICATED, IS_IMPERSONATOR, IS_REMEMBERED]"

definition is_authenticated_recently_for :: "trust_resolver \<Rightarrow> int \<Rightarrow> token \<Rightarrow> string \<Rightarrow> bool" where
  "is_authenticated_recently_for resolver now token attribute =
     (if attribute = IS_AUTHENTICATED_RECENTLY then tr_is_authenticated_recently resolver now (Some token)
      else tr_is_authenticated_very_recently resolver now (Some token))"

text \<open>The reason an attribute is granted for, if it is.\<close>

definition granted_because :: "trust_resolver \<Rightarrow> int \<Rightarrow> token \<Rightarrow> string \<Rightarrow> string option" where
  "granted_because resolver now token attribute =
     (if attribute \<in> {IS_AUTHENTICATED_RECENTLY, IS_AUTHENTICATED_VERY_RECENTLY}
           \<and> tr_is_full_fledged resolver (Some token) \<and> is_authenticated_recently_for resolver now token attribute
      then Some (if attribute = IS_AUTHENTICATED_RECENTLY then ''The user authenticated recently.''
                 else ''The user authenticated very recently.'')
      else if attribute \<in> {IS_AUTHENTICATED_FULLY, IS_AUTHENTICATED_REMEMBERED} \<and> tr_is_full_fledged resolver (Some token)
      then Some ''The user is fully authenticated.''
      else if attribute = IS_AUTHENTICATED_REMEMBERED \<and> tr_is_remember_me resolver (Some token) then Some ''The user is remembered.''
      else if attribute = IS_AUTHENTICATED \<and> tr_is_authenticated resolver (Some token) then Some ''The user is authenticated.''
      else if attribute = IS_REMEMBERED \<and> tr_is_remember_me resolver (Some token) then Some ''The user is remembered.''
      else if attribute = IS_IMPERSONATOR \<and> (case tk_kind token of SwitchUserToken _ \<Rightarrow> True | _ \<Rightarrow> False)
      then Some ''The user is impersonating another user.''
      else None)"

definition denial_of :: "attribute list \<Rightarrow> vote \<Rightarrow> vote" where
  "denial_of attributes vote =
     (let vote1 = (case find (\<lambda>(denied, _). AStr denied \<in> set attributes) DENIAL_REASONS of
                     None \<Rightarrow> vote | Some (_, reason) \<Rightarrow> add_reason reason vote)
      in case find (\<lambda>a. AStr a \<in> set attributes) [IS_AUTHENTICATED_VERY_RECENTLY, IS_AUTHENTICATED_RECENTLY] of
           None \<Rightarrow> vote1 | Some a \<Rightarrow> request_re_authentication a vote1)"

fun authenticated_vote_from ::
  "trust_resolver \<Rightarrow> int \<Rightarrow> token \<Rightarrow> attribute list \<Rightarrow> attribute list \<Rightarrow> access \<Rightarrow> vote \<Rightarrow> access_error + access \<times> vote" where
  "authenticated_vote_from resolver now token attributes [] result vote =
     Inr (if result = DENIED then (result, denial_of attributes vote) else (result, vote))"
| "authenticated_vote_from resolver now token attributes (AStr attribute # rest) result vote =
     (if attribute \<notin> set AUTHENTICATION_ATTRIBUTES then authenticated_vote_from resolver now token attributes rest result vote
      else if tk_kind token = OfflineTokenKind \<and> tk_user token \<noteq> None then Inl OfflineToken
      else (case granted_because resolver now token attribute of
              Some reason \<Rightarrow> Inr (GRANTED, add_reason reason vote)
            | None \<Rightarrow> authenticated_vote_from resolver now token attributes rest DENIED vote))"
| "authenticated_vote_from resolver now token attributes (_ # rest) result vote =
     authenticated_vote_from resolver now token attributes rest result vote"

definition authenticated_vote :: "trust_resolver \<Rightarrow> token \<Rightarrow> subject \<Rightarrow> attribute list \<Rightarrow> vote \<Rightarrow> (access \<times> vote) access_prog" where
  "authenticated_vote resolver token subject attributes vote = (\<lambda>w.
     (if attributes = [AStr PUBLIC_ACCESS] then Inr (GRANTED, add_reason ''Access is public.'' vote)
      else authenticated_vote_from resolver (aw_now w) token attributes attributes ABSTAIN vote, w))"

definition AuthenticatedVoter_init :: "nat \<Rightarrow> trust_resolver \<Rightarrow> voter" where
  "AuthenticatedVoter_init i resolver =
     \<lparr>vo_id = i, vo_cacheable = True,
      vo_supports_attribute = (\<lambda>a. a \<in> set (AUTHENTICATION_ATTRIBUTES @ [PUBLIC_ACCESS])), vo_supports_type = (\<lambda>_. True),
      vo_vote = authenticated_vote resolver\<rparr>"

text \<open>The template of a simple voter; what it recognises and grants are a subclass's.\<close>

fun template_vote ::
  "(attribute \<Rightarrow> subject \<Rightarrow> bool) \<Rightarrow> (attribute \<Rightarrow> subject \<Rightarrow> token \<Rightarrow> vote \<Rightarrow> (bool \<times> vote) access_prog)
    \<Rightarrow> token \<Rightarrow> subject \<Rightarrow> attribute list \<Rightarrow> access \<Rightarrow> vote \<Rightarrow> (access \<times> vote) access_prog" where
  "template_vote recognises vote_on token subject [] result vote = ret (result, vote)"
| "template_vote recognises vote_on token subject (attribute # attributes) result vote =
     (if \<not> recognises attribute subject then template_vote recognises vote_on token subject attributes result vote
      else andthen (vote_on attribute subject token vote) (\<lambda>(granted, vote1).
        if granted then ret (GRANTED, vote1) else template_vote recognises vote_on token subject attributes DENIED vote1))"

section \<open>Closures\<close>

text \<open>
  The checker a closure is handed decides each question in a decision of its own and remembers its
  votes and the first re-authentication its denials asked for.
\<close>

record nested_checker =
  nc_votes :: "vote list"
  nc_re_authentication :: "string option"

type_synonym decider = "token \<Rightarrow> attribute list \<Rightarrow> subject \<Rightarrow> nat option \<Rightarrow> bool access_prog"

definition wants_re_authentication :: "attribute \<Rightarrow> vote \<Rightarrow> bool" where
  "wants_re_authentication attribute vote =
     (vt_result vote = DENIED \<and> (case attribute of AStr a \<Rightarrow> vt_re_authentication vote = Some a | _ \<Rightarrow> False))"

definition nested_is_granted ::
  "decider \<Rightarrow> token \<Rightarrow> attribute \<Rightarrow> subject \<Rightarrow> nested_checker \<Rightarrow> (bool \<times> nested_checker) access_prog" where
  "nested_is_granted dec token attribute subject nc = (\<lambda>w.
     let d = length (aw_decisions w);
         w1 = w\<lparr>aw_decisions := aw_decisions w @ [AccessDecision_init]\<rparr>
     in case dec token [attribute] subject (Some d) w1 of
          (Inl e, w2) \<Rightarrow> (Inl e, w2)
        | (Inr granted, w2) \<Rightarrow>
            let votes = ad_votes (aw_decisions w2 ! d);
                nc1 = nc\<lparr>nc_votes := nc_votes nc @ votes\<rparr>
            in (Inr (granted,
                  if granted then nc1
                  else if nc_re_authentication nc = None \<and> list_ex (wants_re_authentication attribute) votes
                  then nc1\<lparr>nc_re_authentication := (case attribute of AStr a \<Rightarrow> Some a | _ \<Rightarrow> None)\<rparr> else nc1), w2))"

primrec run_closure :: "decider \<Rightarrow> token \<Rightarrow> closure \<Rightarrow> nested_checker \<Rightarrow> (bool \<times> nested_checker) access_prog" where
  "run_closure dec token (Return b) = (\<lambda>nc. ret (b, nc))"
| "run_closure dec token (Ask attribute subject k) = (\<lambda>nc.
     andthen (nested_is_granted dec token attribute subject nc) (\<lambda>(granted, nc1). run_closure dec token (k granted) nc1))"

definition add_reasons :: "nested_checker \<Rightarrow> bool \<Rightarrow> vote \<Rightarrow> vote" where
  "add_reasons nc is_granted vote =
     (let result = (if is_granted then GRANTED else DENIED)
      in fold add_reason (concat (map vt_reasons (filter (\<lambda>v. vt_result v = result) (nc_votes nc)))) vote)"

fun closure_vote_from ::
  "decider option \<Rightarrow> token \<Rightarrow> subject \<Rightarrow> attribute list \<Rightarrow> access \<Rightarrow> string list \<Rightarrow> string option \<Rightarrow> vote
    \<Rightarrow> (access \<times> vote) access_prog" where
  "closure_vote_from bound token subject [] result failing re_authentication vote =
     (let vote1 = (if failing \<noteq> []
                   then add_reason (''Closure'' @ (if length failing > 1 then ''s'' else '''') @ '' ''
                          @ join_with '', '' failing @ '' returned false.'') vote else vote);
          vote2 = (case re_authentication of None \<Rightarrow> vote1 | Some a \<Rightarrow> request_re_authentication a vote1)
      in ret (result, vote2))"
| "closure_vote_from bound token subject (AClosure name closure # attributes) result failing re_authentication vote =
     (case bound of
        None \<Rightarrow> raise UnboundClosureVoter
      | Some dec \<Rightarrow>
          andthen (run_closure dec token closure \<lparr>nc_votes = [], nc_re_authentication = None\<rparr>) (\<lambda>(outcome, nc).
          if outcome
          then ret (GRANTED, add_reason (''Closure '' @ name @ '' returned true.'') (add_reasons nc True vote))
          else closure_vote_from bound token subject attributes DENIED (failing @ [name])
                 (case re_authentication of None \<Rightarrow> nc_re_authentication nc | Some a \<Rightarrow> Some a)
                 (add_reasons nc False vote)))"
| "closure_vote_from bound token subject (_ # attributes) result failing re_authentication vote =
     closure_vote_from bound token subject attributes result failing re_authentication vote"

text \<open>Binding a closure voter to a manager, each known by its identity.\<close>

definition bind_manager :: "nat option \<Rightarrow> nat \<Rightarrow> access_error + nat option" where
  "bind_manager bound manager_id =
     (case bound of
        Some other \<Rightarrow> if other \<noteq> manager_id then Inl BoundToAnotherManager else Inr (Some manager_id)
      | None \<Rightarrow> Inr (Some manager_id))"

definition ClosureVoter_init :: "nat \<Rightarrow> decider option \<Rightarrow> voter" where
  "ClosureVoter_init i bound =
     \<lparr>vo_id = i, vo_cacheable = True, vo_supports_attribute = (\<lambda>_. False), vo_supports_type = (\<lambda>_. True),
      vo_vote = (\<lambda>token subject attributes vote. closure_vote_from bound token subject attributes ABSTAIN [] None vote)\<rparr>"

section \<open>The authorization checker\<close>

record checker =
  ck_id :: nat
  ck_decide :: decider

definition current_offline_token :: "checker \<Rightarrow> access_world \<Rightarrow> token option" where
  "current_offline_token self w =
     map_option snd (find (\<lambda>(c, _). c = ck_id self) (rev (aw_token_stack w)))"

definition is_granted :: "checker \<Rightarrow> attribute \<Rightarrow> subject \<Rightarrow> nat option \<Rightarrow> bool access_prog" where
  "is_granted self attribute subject access_decision = (\<lambda>w.
     let token = (case current_offline_token self w of
           Some token \<Rightarrow> token
         | None \<Rightarrow> (case aw_token w of
                      None \<Rightarrow> null_token
                    | Some token \<Rightarrow> if tk_user token = None then null_token else token))
     in ck_decide self token [attribute] subject access_decision w)"

definition is_granted_for_user :: "checker \<Rightarrow> user option \<Rightarrow> attribute \<Rightarrow> subject \<Rightarrow> nat option \<Rightarrow> bool access_prog" where
  "is_granted_for_user self user attribute subject access_decision = (\<lambda>w.
     let roles = (case user of None \<Rightarrow> [] | Some u \<Rightarrow> us_roles u);
         token = AbstractToken_init OfflineTokenKind roles;
         token1 = (case user of None \<Rightarrow> token | Some u \<Rightarrow> set_user u token)
     in case is_granted self attribute subject access_decision
               (w\<lparr>aw_token_stack := aw_token_stack w @ [(ck_id self, token1)]\<rparr>) of
          (r, w1) \<Rightarrow> (r, w1\<lparr>aw_token_stack := aw_token_stack w\<rparr>))"

end
