(* ===== verification/Access_Rules.thy ===== *)
theory Access_Rules
  imports Access_Decision
begin

text \<open>
  What the authorization of xtr-security-core promises: the strategies ask lazily and decide as if they had
  asked everyone, the manager's caches change no answer, a role is granted exactly when the hierarchy
  reaches it, and the authentication attributes are ordered by strength.
\<close>

section \<open>Strategies\<close>

text \<open>Asking in order, until what was heard settles the matter.\<close>

fun ask_until :: "(access list \<Rightarrow> bool) \<Rightarrow> (access list \<Rightarrow> bool) \<Rightarrow> access list \<Rightarrow> access option access_prog list \<Rightarrow> bool access_prog" where
  "ask_until stop judge heard [] = ret (judge heard)"
| "ask_until stop judge heard (p # ps) =
     andthen p (\<lambda>result. case result of
         None \<Rightarrow> ask_until stop judge heard ps
       | Some a \<Rightarrow> if stop (heard @ [a]) then ret (judge (heard @ [a])) else ask_until stop judge (heard @ [a]) ps)"

fun verdict :: "strategy \<Rightarrow> access list \<Rightarrow> bool" where
  "verdict (AffirmativeStrategy a) votes = (GRANTED \<in> set votes \<or> DENIED \<notin> set votes \<and> a)"
| "verdict (ConsensusStrategy a e) votes =
     (let g = count_list votes GRANTED; d = count_list votes DENIED in d < g \<or> g = d \<and> (if g > 0 then e else a))"
| "verdict (PriorityStrategy a) votes = (case filter (\<lambda>x. x \<noteq> ABSTAIN) votes of [] \<Rightarrow> a | x # _ \<Rightarrow> x = GRANTED)"
| "verdict (UnanimousStrategy a) votes = (DENIED \<notin> set votes \<and> (GRANTED \<in> set votes \<or> a))"

fun settled :: "strategy \<Rightarrow> access list \<Rightarrow> bool" where
  "settled (AffirmativeStrategy a) votes = (GRANTED \<in> set votes)"
| "settled (ConsensusStrategy a e) votes = False"
| "settled (PriorityStrategy a) votes = (\<exists>x \<in> set votes. x \<noteq> ABSTAIN)"
| "settled (UnanimousStrategy a) votes = (DENIED \<in> set votes)"

lemma count_pos [simp]: "0 < count_list xs x \<longleftrightarrow> x \<in> set xs"
  using count_list_0_iff [of xs x] by auto

lemma asks_step: "(\<And>r. f r = g r) \<Longrightarrow> andthen p f = andthen p g"
  by (rule arg_cong [of f g]) (rule ext)

lemma affirmative_asks:
  assumes stop: "\<And>x. stop x = (GRANTED \<in> set x)" and judge: "\<And>x. judge x = (GRANTED \<in> set x \<or> DENIED \<notin> set x \<and> a)" and "GRANTED \<notin> set heard"
  shows "affirmative_decide a (count_list heard DENIED) ps
    = ask_until stop judge heard ps"
  using assms(3)
proof (induction ps arbitrary: heard)
  case Nil
  then show ?case by (auto simp: judge [of heard])
next
  case (Cons p ps)
  have "(case r of Some GRANTED \<Rightarrow> ret True | Some DENIED \<Rightarrow> affirmative_decide a (Suc (count_list heard DENIED)) ps
      | _ \<Rightarrow> affirmative_decide a (count_list heard DENIED) ps)
    = (case r of None \<Rightarrow> ask_until stop judge heard ps
       | Some x \<Rightarrow> if stop (heard @ [x]) then ret (judge (heard @ [x]))
           else ask_until stop judge (heard @ [x]) ps)" for r
    using Cons.IH [of heard] Cons.IH [of "heard @ [DENIED]"] Cons.IH [of "heard @ [ABSTAIN]"] Cons.prems
    by (auto simp: stop [of "heard @ [_]"] judge [of "heard @ [_]"] split: option.split access.split)
  then show ?case unfolding affirmative_decide.simps ask_until.simps by (rule asks_step)
qed

lemma consensus_asks:
  assumes stop: "\<And>x. stop x = (False)" and judge: "\<And>x. judge x = (let g = count_list x GRANTED; d = count_list x DENIED in d < g \<or> g = d \<and> (if g > 0 then e else a))"
  shows "consensus_decide a e (count_list heard GRANTED) (count_list heard DENIED) ps
    = ask_until stop judge heard ps"
proof (induction ps arbitrary: heard)
  case Nil
  then show ?case by (auto simp: judge [of heard] Let_def)
next
  case (Cons p ps)
  have "(case r of Some GRANTED \<Rightarrow> consensus_decide a e (Suc (count_list heard GRANTED)) (count_list heard DENIED) ps
      | Some DENIED \<Rightarrow> consensus_decide a e (count_list heard GRANTED) (Suc (count_list heard DENIED)) ps
      | _ \<Rightarrow> consensus_decide a e (count_list heard GRANTED) (count_list heard DENIED) ps)
    = (case r of None \<Rightarrow> ask_until stop judge heard ps
       | Some x \<Rightarrow> if stop (heard @ [x]) then ret (judge (heard @ [x])) else ask_until stop judge (heard @ [x]) ps)" for r
    using Cons.IH [of heard] Cons.IH [of "heard @ [GRANTED]"] Cons.IH [of "heard @ [DENIED]"] Cons.IH [of "heard @ [ABSTAIN]"]
    by (auto simp: stop [of "heard @ [_]"] judge [of "heard @ [_]"] split: option.split access.split)
  then show ?case unfolding consensus_decide.simps ask_until.simps by (rule asks_step)
qed

lemma priority_asks:
  assumes stop: "\<And>x. stop x = (\<exists>y \<in> set x. y \<noteq> ABSTAIN)" and judge: "\<And>x. judge x = (case filter (\<lambda>y. y \<noteq> ABSTAIN) x of [] \<Rightarrow> a | y # _ \<Rightarrow> y = GRANTED)" and "\<forall>x \<in> set heard. x = ABSTAIN"
  shows "priority_decide a ps = ask_until stop judge heard ps"
  using assms(3)
proof (induction ps arbitrary: heard)
  case Nil
  then have "filter (\<lambda>x. x \<noteq> ABSTAIN) heard = []" by (simp add: filter_empty_conv)
  then show ?case by (simp add: judge [of heard])
next
  case (Cons p ps)
  then have none: "filter (\<lambda>x. x \<noteq> ABSTAIN) heard = []" by (simp add: filter_empty_conv)
  have "(case r of Some GRANTED \<Rightarrow> ret True | Some DENIED \<Rightarrow> ret False | _ \<Rightarrow> priority_decide a ps)
    = (case r of None \<Rightarrow> ask_until stop judge heard ps
       | Some x \<Rightarrow> if stop (heard @ [x]) then ret (judge (heard @ [x]))
           else ask_until stop judge (heard @ [x]) ps)" for r
    using Cons.IH [of heard] Cons.IH [of "heard @ [ABSTAIN]"] Cons.prems none
    by (auto simp: stop [of "heard @ [_]"] judge [of "heard @ [_]"] split: option.split access.split)
  then show ?case unfolding priority_decide.simps ask_until.simps by (rule asks_step)
qed

lemma unanimous_asks:
  assumes stop: "\<And>x. stop x = (DENIED \<in> set x)" and judge: "\<And>x. judge x = (DENIED \<notin> set x \<and> (GRANTED \<in> set x \<or> a))" and "DENIED \<notin> set heard"
  shows "unanimous_decide a (count_list heard GRANTED) ps
    = ask_until stop judge heard ps"
  using assms(3)
proof (induction ps arbitrary: heard)
  case Nil
  then show ?case by (auto simp: judge [of heard])
next
  case (Cons p ps)
  have "(case r of Some DENIED \<Rightarrow> ret False | Some GRANTED \<Rightarrow> unanimous_decide a (Suc (count_list heard GRANTED)) ps
      | _ \<Rightarrow> unanimous_decide a (count_list heard GRANTED) ps)
    = (case r of None \<Rightarrow> ask_until stop judge heard ps
       | Some x \<Rightarrow> if stop (heard @ [x]) then ret (judge (heard @ [x]))
           else ask_until stop judge (heard @ [x]) ps)" for r
    using Cons.IH [of heard] Cons.IH [of "heard @ [GRANTED]"] Cons.IH [of "heard @ [ABSTAIN]"] Cons.prems
    by (auto simp: stop [of "heard @ [_]"] judge [of "heard @ [_]"] split: option.split access.split)
  then show ?case unfolding unanimous_decide.simps ask_until.simps by (rule asks_step)
qed

lemma settled_final: "settled s votes \<Longrightarrow> verdict s (votes @ others) = verdict s votes"
proof (cases s)
  case (PriorityStrategy a)
  assume "settled s votes"
  then have "filter (\<lambda>x. x \<noteq> ABSTAIN) votes \<noteq> []" using PriorityStrategy by (auto simp: filter_empty_conv)
  then show ?thesis using PriorityStrategy by (auto split: list.splits)
qed auto

text \<open>The votes that are heard before the matter is settled.\<close>

fun heard_until :: "(access list \<Rightarrow> bool) \<Rightarrow> access list \<Rightarrow> access list \<Rightarrow> access list" where
  "heard_until stop heard [] = heard"
| "heard_until stop heard (a # votes) = (if stop (heard @ [a]) then heard @ [a] else heard_until stop (heard @ [a]) votes)"

lemma heard_until_extends: "\<exists>zs. heard_until stop heard votes = heard @ zs"
proof (induction votes arbitrary: heard)
  case Nil
  then show ?case by simp
next
  case (Cons a votes)
  then show ?case by (cases "stop (heard @ [a])") (simp, metis append_assoc heard_until.simps(2))
qed

text \<open>
  A strategy under the contract of the manager: it asks in order and stops only once the votes it has
  heard settle the verdict.
\<close>

locale lazy_strategy =
  fixes decide_by :: "access option access_prog list \<Rightarrow> bool access_prog"
    and stop :: "access list \<Rightarrow> bool" and judge :: "access list \<Rightarrow> bool"
  assumes asks: "decide_by ps = ask_until stop judge [] ps"
    and final: "stop votes \<Longrightarrow> judge (votes @ others) = judge votes"
begin

lemma judge_heard: "judge (heard_until stop heard votes) = judge (heard @ votes)"
proof (induction votes arbitrary: heard)
  case Nil
  then show ?case by simp
next
  case (Cons a votes)
  then show ?case using final [of "heard @ [a]" votes] by auto
qed

end

interpretation strat: lazy_strategy "strategy_decide s" "settled s" "verdict s" for s
proof
  show "strategy_decide s ps = ask_until (settled s) (verdict s) [] ps" for ps
  proof (cases s)
    case (AffirmativeStrategy a)
    then show ?thesis using affirmative_asks [of "settled s" "verdict s" a "[]" ps] by simp
  next
    case (ConsensusStrategy a e)
    then show ?thesis using consensus_asks [of "settled s" "verdict s" e a "[]" ps] by simp
  next
    case (PriorityStrategy a)
    then show ?thesis using priority_asks [of "settled s" "verdict s" a "[]" ps] by simp
  next
    case (UnanimousStrategy a)
    then show ?thesis using unanimous_asks [of "settled s" "verdict s" a "[]" ps] by simp
  qed
qed (rule settled_final)

text \<open>
  each strategy is its reference: it runs the voters one by one, passes over those that do not apply,
  stops as soon as the votes heard settle the matter (a grant for affirmative, a denial for unanimous, any opinion for
  priority, never for consensus), passes on what a voter raises, and what it answers is the verdict over the votes
  heard, which no further vote could change.
\<close>

theorem strategies_decide_lazily:
  "strategy_decide s ps = ask_until (settled s) (verdict s) [] ps
    \<and> (settled s votes \<longrightarrow> verdict s (votes @ others) = verdict s votes)"
  using strat.asks strat.final by blast

section \<open>The applicability caches\<close>

definition cache_says :: "nat \<Rightarrow> ('k \<Rightarrow> bool option) \<Rightarrow> ('k, bool) dict \<Rightarrow> bool" where
  "cache_says cap truth cache \<longleftrightarrow> dict_ok cache \<and> length cache \<le> cap
     \<and> (\<forall>k b. map_of cache k = Some b \<longrightarrow> truth k = Some b)"

lemma cached_answer_true:
  assumes "cache_says cap truth cache" and "truth key = Some answer" and "0 < cap"
  shows "\<exists>cache'. cached_answer cap key answer cache = (answer, cache') \<and> cache_says cap truth cache'"
proof (cases "map_of cache key")
  case None
  define rest where "rest = (if cap \<le> length cache then tl cache else cache)"
  have rest: "dict_ok rest" "length rest < cap" "map_of rest k = Some b \<Longrightarrow> map_of cache k = Some b" for k b
    using assms(1,3) dict_ok_tl map_of_tl by (auto simp: cache_says_def rest_def split: if_splits)
  have "length (dict_set key answer rest) \<le> cap" using length_dict_set [of key answer rest] rest(2) by simp
  moreover have "truth k = Some b" if "map_of (dict_set key answer rest) k = Some b" for k b
    using that rest(3) [of k b] assms(1,2) by (auto simp: cache_says_def split: if_splits)
  ultimately have "cache_says cap truth (dict_set key answer rest)" unfolding cache_says_def using dict_ok_set [OF rest(1)] by blast
  then show ?thesis using None by (simp add: cached_answer_def rest_def)
next
  case (Some known)
  then have "known = answer" using assms(1,2) by (auto simp: cache_says_def)
  moreover have "cache_says cap truth (dict_del key cache @ [(key, known)])"
    using assms(1) dict_ok_move_to_end map_of_move_to_end [OF Some] length_move_to_end [OF Some] by (auto simp: cache_says_def)
  ultimately show ?thesis using Some by (simp add: cached_answer_def)
qed

definition attribute_truth :: "manager \<Rightarrow> nat \<times> string \<Rightarrow> bool option" where
  "attribute_truth self k = (if fst k < length (am_voters self) then Some (vo_supports_attribute (am_voters self ! fst k) (snd k)) else None)"

definition type_truth :: "manager \<Rightarrow> nat \<times> string \<Rightarrow> bool option" where
  "type_truth self k = (if fst k < length (am_voters self) then Some (vo_supports_type (am_voters self ! fst k) (snd k)) else None)"

definition caches_ok :: "manager \<Rightarrow> access_world \<Rightarrow> bool" where
  "caches_ok self w \<longleftrightarrow> cache_says MAX_ATTRIBUTE_CACHE (attribute_truth self) (aw_attribute_cache w)
     \<and> cache_says MAX_TYPE_CACHE (type_truth self) (aw_type_cache w)"

definition applies :: "attribute \<Rightarrow> subject \<Rightarrow> voter \<Rightarrow> bool" where
  "applies attribute subject v \<longleftrightarrow> (case attribute of
     AStr a \<Rightarrow> vo_cacheable v \<longrightarrow> vo_supports_attribute v a \<and> vo_supports_type v (type_name subject)
   | _ \<Rightarrow> True)"

text \<open>Only the caches change while a voter's applicability is looked up.\<close>

lemma supports_run:
  assumes "caches_ok self w" and "index < length (am_voters self)" and "v = am_voters self ! index"
  shows "\<exists>ac tc. supports index v attribute subject w
      = (Inr (applies attribute subject v), w\<lparr>aw_attribute_cache := ac, aw_type_cache := tc\<rparr>)
    \<and> caches_ok self (w\<lparr>aw_attribute_cache := ac, aw_type_cache := tc\<rparr>)"
proof -
  have same: "w = w\<lparr>aw_attribute_cache := aw_attribute_cache w, aw_type_cache := aw_type_cache w\<rparr>" by simp
  show ?thesis
  proof (cases "\<exists>a. vo_cacheable v \<and> attribute = AStr a")
    case False
    then have "supports index v attribute subject w = (Inr (applies attribute subject v), w)"
      by (auto simp: supports_def applies_def split: attribute.splits)
    then show ?thesis using assms(1) same by metis
  next
    case True
    then obtain a where a: "vo_cacheable v" "attribute = AStr a" by blast
    have caps: "0 < MAX_ATTRIBUTE_CACHE" "0 < MAX_TYPE_CACHE" by (simp_all add: MAX_ATTRIBUTE_CACHE_def MAX_TYPE_CACHE_def)
    have "attribute_truth self (index, a) = Some (vo_supports_attribute v a)"
      using assms(2,3) by (simp add: attribute_truth_def)
    then obtain ac where ac: "cached_answer MAX_ATTRIBUTE_CACHE (index, a) (vo_supports_attribute v a) (aw_attribute_cache w) = (vo_supports_attribute v a, ac)"
      "cache_says MAX_ATTRIBUTE_CACHE (attribute_truth self) ac"
      using cached_answer_true assms(1) caps by (metis caches_ok_def)
    have "type_truth self (index, type_name subject) = Some (vo_supports_type v (type_name subject))"
      using assms(2,3) by (simp add: type_truth_def)
    then obtain tc where tc: "cached_answer MAX_TYPE_CACHE (index, type_name subject) (vo_supports_type v (type_name subject)) (aw_type_cache w)
        = (vo_supports_type v (type_name subject), tc)"
      "cache_says MAX_TYPE_CACHE (type_truth self) tc"
      using cached_answer_true assms(1) caps by (metis caches_ok_def)
    show ?thesis
    proof (cases "vo_supports_attribute v a")
      case True
      then show ?thesis
        using a ac tc by (intro exI [of _ ac] exI [of _ tc]) (simp add: supports_def applies_def caches_ok_def Let_def)
    next
      case False
      then have "supports index v attribute subject w = (Inr False, w\<lparr>aw_attribute_cache := ac, aw_type_cache := aw_type_cache w\<rparr>)"
        using a ac(1) by (simp add: supports_def Let_def)
      then show ?thesis
        using False a ac(2) assms(1) by (intro exI [of _ ac] exI [of _ "aw_type_cache w"]) (simp add: applies_def caches_ok_def)
    qed
  qed
qed

section \<open>A decision\<close>

text \<open>
  A voter gives an answer on a question when, in every world with this hierarchy and this clock, it
  returns that answer and changes nothing but the memo of the hierarchy.
\<close>

definition ready :: "role_hierarchy \<Rightarrow> int \<Rightarrow> access_world \<Rightarrow> bool" where
  "ready h now w \<longleftrightarrow> memo_ok (aw_hierarchy w) \<and> rh_exact (aw_hierarchy w) = rh_exact h
     \<and> rh_wildcards (aw_hierarchy w) = rh_wildcards h \<and> aw_now w = now"

definition answers :: "role_hierarchy \<Rightarrow> int \<Rightarrow> token \<Rightarrow> subject \<Rightarrow> attribute \<Rightarrow> voter \<Rightarrow> access \<Rightarrow> bool" where
  "answers h now token subject attribute v a \<longleftrightarrow> (\<forall>vote w. ready h now w \<longrightarrow>
     (\<exists>vote' hw. vo_vote v token subject [attribute] vote w = (Inr (a, vote'), w\<lparr>aw_hierarchy := hw\<rparr>)
        \<and> ready h now (w\<lparr>aw_hierarchy := hw\<rparr>)))"

definition ballot_results :: "access_world \<Rightarrow> nat \<Rightarrow> access list" where
  "ballot_results w d = map vt_result (ad_votes (aw_decisions w ! d))"

text \<open>What holds between two moments of a decision recorded at \<open>d\<close>: only \<open>d\<close> gained votes.\<close>

definition only_votes :: "nat \<Rightarrow> access_world \<Rightarrow> access_world \<Rightarrow> access list \<Rightarrow> bool" where
  "only_votes d w w' results \<longleftrightarrow> aw_stack w' = aw_stack w \<and> aw_token w' = aw_token w \<and> aw_token_stack w' = aw_token_stack w
     \<and> length (aw_decisions w') = length (aw_decisions w)
     \<and> (\<forall>i. i \<noteq> d \<longrightarrow> aw_decisions w' ! i = aw_decisions w ! i)
     \<and> ad_is_granted (aw_decisions w' ! d) = ad_is_granted (aw_decisions w ! d)
     \<and> ad_strategy (aw_decisions w' ! d) = ad_strategy (aw_decisions w ! d)
     \<and> ballot_results w' d = ballot_results w d @ results"

lemma only_votes_refl: "only_votes d w w []"
  by (simp add: only_votes_def)

lemma only_votes_trans: "only_votes d w w1 r1 \<Longrightarrow> only_votes d w1 w2 r2 \<Longrightarrow> only_votes d w w2 (r1 @ r2)"
  by (auto simp: only_votes_def)

lemma only_votes_none: "only_votes d w w1 [] \<Longrightarrow> only_votes d w1 w2 r \<Longrightarrow> only_votes d w w2 r"
  using only_votes_trans [of d w w1 "[]" w2 r] by simp

definition deciding :: "manager \<Rightarrow> role_hierarchy \<Rightarrow> int \<Rightarrow> nat \<Rightarrow> access_world \<Rightarrow> bool" where
  "deciding self h now d w \<longleftrightarrow> caches_ok self w \<and> ready h now w \<and> d < length (aw_decisions w)"

lemma collect_one_run:
  assumes "deciding self h now d w" and "index < length (am_voters self)" and "v = am_voters self ! index"
    and "applies attribute subject v \<Longrightarrow> answers h now token subject attribute v a"
  shows "\<exists>w'. collect_one token attribute [attribute] subject d (index, v) w
      = (Inr (if applies attribute subject v then Some a else None), w')
    \<and> deciding self h now d w' \<and> only_votes d w w' (if applies attribute subject v then [a] else [])"
proof -
  obtain ac tc where sup: "supports index v attribute subject w
      = (Inr (applies attribute subject v), w\<lparr>aw_attribute_cache := ac, aw_type_cache := tc\<rparr>)"
    "caches_ok self (w\<lparr>aw_attribute_cache := ac, aw_type_cache := tc\<rparr>)"
    using supports_run assms(1-3) by (metis deciding_def)
  define w1 where "w1 = w\<lparr>aw_attribute_cache := ac, aw_type_cache := tc\<rparr>"
  have w1: "ready h now w1" "d < length (aw_decisions w1)" "caches_ok self w1"
    using assms(1) sup(2) by (auto simp: w1_def deciding_def ready_def)
  show ?thesis
  proof (cases "applies attribute subject v")
    case False
    then have "collect_one token attribute [attribute] subject d (index, v) w = (Inr None, w1)"
      using sup(1) by (simp add: collect_one_def andthen_def w1_def)
    moreover have "only_votes d w w1 []" by (simp add: w1_def only_votes_def ballot_results_def)
    ultimately show ?thesis using False w1 by (auto simp: deciding_def)
  next
    case True
    then obtain vote hw where vote: "vo_vote v token subject [attribute] (Vote_init (vo_id v)) w1 = (Inr (a, vote), w1\<lparr>aw_hierarchy := hw\<rparr>)"
      "ready h now (w1\<lparr>aw_hierarchy := hw\<rparr>)"
      using assms(4) [OF True] w1(1) unfolding answers_def by blast
    define w2 where "w2 = change_decision d (\<lambda>ad. ad\<lparr>ad_votes := ad_votes ad @ [vote\<lparr>vt_result := a\<rparr>]\<rparr>) (w1\<lparr>aw_hierarchy := hw\<rparr>)"
    have "collect_one token attribute [attribute] subject d (index, v) w = (Inr (Some a), w2)"
      using True sup(1) vote(1) by (simp add: collect_one_def andthen_def w1_def w2_def)
    moreover have "only_votes d w w2 [a]" and "deciding self h now d w2"
      using w1 vote(2) by (auto simp: w2_def w1_def only_votes_def ballot_results_def change_decision_def deciding_def caches_ok_def ready_def)
    ultimately show ?thesis using True by auto
  qed
qed

lemma ask_run:
  assumes "deciding self h now d w" and "start + length vs \<le> length (am_voters self)"
    and "\<And>i. i < length vs \<Longrightarrow> vs ! i = am_voters self ! (start + i)"
    and "\<And>v. v \<in> set vs \<Longrightarrow> applies attribute subject v \<Longrightarrow> answers h now token subject attribute v (ballot v)"
  shows "\<exists>w'. ask_until (settled s) (verdict s) heard (map (collect_one token attribute [attribute] subject d) (List.enumerate start vs)) w
      = (Inr (verdict s (heard @ map ballot (filter (applies attribute subject) vs))), w')
    \<and> deciding self h now d w'
    \<and> only_votes d w w' (drop (length heard) (heard_until (settled s) heard (map ballot (filter (applies attribute subject) vs))))"
  using assms
proof (induction vs arbitrary: start heard w)
  case Nil
  then show ?case using only_votes_refl by simp
next
  case (Cons v vs)
  have v: "v = am_voters self ! start" using Cons.prems(3) [of 0] by simp
  obtain w1 where w1: "collect_one token attribute [attribute] subject d (start, v) w
      = (Inr (if applies attribute subject v then Some (ballot v) else None), w1)"
    "deciding self h now d w1" "only_votes d w w1 (if applies attribute subject v then [ballot v] else [])"
    using collect_one_run [OF Cons.prems(1) _ v, of attribute subject token "ballot v"] Cons.prems(2,4) by auto
  have rest: "Suc start + length vs \<le> length (am_voters self)" "\<And>i. i < length vs \<Longrightarrow> vs ! i = am_voters self ! (Suc start + i)"
    "\<And>v. v \<in> set vs \<Longrightarrow> applies attribute subject v \<Longrightarrow> answers h now token subject attribute v (ballot v)"
    using Cons.prems(2,4) Cons.prems(3) [of "Suc _"] by auto
  note IH = Cons.IH [OF w1(2) rest]
  show ?case
  proof (cases "applies attribute subject v")
    case False
    then show ?thesis using IH [of heard] w1 by (auto simp: andthen_def intro: only_votes_none)
  next
    case True
    show ?thesis
    proof (cases "settled s (heard @ [ballot v])")
      case stop: True
      then show ?thesis using True w1 settled_final [OF stop, of "map ballot (filter (applies attribute subject) vs)"] by (simp add: andthen_def)
    next
      case False
      obtain zs where "heard_until (settled s) (heard @ [ballot v]) (map ballot (filter (applies attribute subject) vs)) = heard @ [ballot v] @ zs"
        using heard_until_extends by (metis append_assoc)
      then show ?thesis
        using False True IH [of "heard @ [ballot v]"] w1 only_votes_trans [of d w w1 "[ballot v]"] by (auto simp: andthen_def)
    qed
  qed
qed

definition ballots :: "manager \<Rightarrow> attribute \<Rightarrow> subject \<Rightarrow> (voter \<Rightarrow> access) \<Rightarrow> access list" where
  "ballots self attribute subject ballot = map ballot (filter (applies attribute subject) (am_voters self))"

lemma decide_run:
  assumes "caches_ok self w" and "ready h now w" and "decision_record access_decision w = (d, owns, w1)" and "d < length (aw_decisions w1)"
    and "\<And>v. v \<in> set (am_voters self) \<Longrightarrow> applies attribute subject v \<Longrightarrow> answers h now token subject attribute v (ballot v)"
    and "g = verdict (am_strategy self) (ballots self attribute subject ballot)"
  shows "\<exists>w'. decide self token [attribute] subject access_decision w = (Inr g, w')
    \<and> caches_ok self w' \<and> ready h now w' \<and> aw_stack w' = aw_stack w \<and> aw_token w' = aw_token w \<and> aw_token_stack w' = aw_token_stack w
    \<and> length (aw_decisions w') = length (aw_decisions w1) \<and> (\<forall>i. i \<noteq> d \<longrightarrow> aw_decisions w' ! i = aw_decisions w1 ! i)
    \<and> ad_is_granted (aw_decisions w' ! d) = (if owns then g else ad_is_granted (aw_decisions w1 ! d))
    \<and> ad_strategy (aw_decisions w' ! d) = Some (strategy_name (am_strategy self))
    \<and> ballot_results w' d = ballot_results w1 d @ heard_until (settled (am_strategy self)) [] (ballots self attribute subject ballot)"
proof -
  have w1: "caches_ok self w1" "ready h now w1" "aw_stack w1 = aw_stack w" "aw_token w1 = aw_token w" "aw_token_stack w1 = aw_token_stack w"
    using assms(1-3) by (auto simp: decision_record_def caches_ok_def ready_def split: option.splits if_splits)
  define w2 where "w2 = (change_decision d (\<lambda>ad. ad\<lparr>ad_strategy := Some (strategy_name (am_strategy self))\<rparr>) w1)\<lparr>aw_stack := aw_stack w @ [d]\<rparr>"
  have w2: "deciding self h now d w2"
    using w1 assms(4) by (auto simp: w2_def deciding_def change_decision_def caches_ok_def ready_def)
  obtain w3 where w3: "strategy_decide (am_strategy self) (collect self token attribute [attribute] subject d) w2 = (Inr g, w3)"
    "deciding self h now d w3"
    "only_votes d w2 w3 (heard_until (settled (am_strategy self)) [] (ballots self attribute subject ballot))"
    using ask_run [OF w2, of 0 "am_voters self" attribute subject token ballot "am_strategy self" "[]"] assms(5,6)
    by (auto simp: strat.asks collect_def ballots_def)
  define w4 where "w4 = (if owns then change_decision d (\<lambda>ad. ad\<lparr>ad_is_granted := g\<rparr>) w3 else w3)\<lparr>aw_stack := aw_stack w\<rparr>"
  have "decide self token [attribute] subject access_decision w = (Inr g, w4)"
    using assms(3) w3(1) by (simp add: decide_def w2_def w4_def Let_def)
  moreover have "caches_ok self w4" "ready h now w4" "aw_stack w4 = aw_stack w"
    using w3(2) by (auto simp: w4_def deciding_def change_decision_def caches_ok_def ready_def)
  moreover have "aw_token w4 = aw_token w" "aw_token_stack w4 = aw_token_stack w" "length (aw_decisions w4) = length (aw_decisions w1)"
    "\<forall>i. i \<noteq> d \<longrightarrow> aw_decisions w4 ! i = aw_decisions w1 ! i"
    "ad_is_granted (aw_decisions w4 ! d) = (if owns then g else ad_is_granted (aw_decisions w1 ! d))"
    "ad_strategy (aw_decisions w4 ! d) = Some (strategy_name (am_strategy self))"
    "ballot_results w4 d = ballot_results w1 d @ heard_until (settled (am_strategy self)) [] (ballots self attribute subject ballot)"
    using w3(2,3) w1(4,5) assms(4)
    by (auto simp: w4_def w2_def change_decision_def only_votes_def ballot_results_def deciding_def)
  ultimately show ?thesis by blast
qed

text \<open>
  C22: a decision asked from outside any other answers with the verdict over the answers of the voters that apply,
  whatever the caches hold, and leaves one new record: its outcome, the strategy, and the votes
  heard until the matter was settled, in the order of the voters. A decision asked while another runs
  adds its votes to the record in progress and leaves that record's outcome alone.
\<close>

theorem decide_is_verdict:
  assumes "caches_ok self w" and "ready h now w" and "\<forall>d \<in> set (aw_stack w). d < length (aw_decisions w)"
    and "\<forall>v \<in> set (am_voters self). applies attribute subject v \<longrightarrow> answers h now token subject attribute v (ballot v)"
    and "g = verdict (am_strategy self) (ballots self attribute subject ballot)"
    and "heard = heard_until (settled (am_strategy self)) [] (ballots self attribute subject ballot)"
  shows "\<exists>w'. decide self token [attribute] subject None w = (Inr g, w') \<and> caches_ok self w' \<and> aw_stack w' = aw_stack w
    \<and> (if aw_stack w = []
       then length (aw_decisions w') = Suc (length (aw_decisions w))
         \<and> ad_is_granted (last (aw_decisions w')) = g \<and> map vt_result (ad_votes (last (aw_decisions w'))) = heard
       else length (aw_decisions w') = length (aw_decisions w)
         \<and> ad_is_granted (aw_decisions w' ! last (aw_stack w)) = ad_is_granted (aw_decisions w ! last (aw_stack w))
         \<and> ballot_results w' (last (aw_stack w)) = ballot_results w (last (aw_stack w)) @ heard)"
proof (cases "aw_stack w = []")
  case True
  let ?w1 = "w\<lparr>aw_decisions := aw_decisions w @ [AccessDecision_init]\<rparr>"
  have rec: "decision_record None w = (length (aw_decisions w), True, ?w1)" using True by (simp add: decision_record_def)
  from decide_run [OF assms(1,2) rec _ _ assms(5)] assms(4) obtain w' where
    "decide self token [attribute] subject None w = (Inr g, w')" "caches_ok self w'" "aw_stack w' = aw_stack w"
    "length (aw_decisions w') = Suc (length (aw_decisions w))" "ad_is_granted (aw_decisions w' ! length (aw_decisions w)) = g"
    "ballot_results w' (length (aw_decisions w)) = ballot_results ?w1 (length (aw_decisions w)) @ heard"
    by (force simp: assms(6))
  moreover from this(4) have "last (aw_decisions w') = aw_decisions w' ! length (aw_decisions w)"
    by (metis diff_Suc_1 last_conv_nth length_0_conv nat.distinct(1))
  ultimately show ?thesis using True by (simp add: ballot_results_def AccessDecision_init_def)
next
  case False
  have rec: "decision_record None w = (last (aw_stack w), False, w)" using False by (simp add: decision_record_def)
  have "last (aw_stack w) < length (aw_decisions w)" using assms(3) False by simp
  from decide_run [OF assms(1,2) rec this _ assms(5)] assms(4) show ?thesis using False by (force simp: assms(6))
qed

section \<open>Roles\<close>

text \<open>A manager with the role, authentication and closure voters, under a strategy.\<close>

definition ROLE_PREFIX :: string where "ROLE_PREFIX = ''ROLE_''"

definition standard_manager :: "trust_resolver \<Rightarrow> decider option \<Rightarrow> strategy \<Rightarrow> manager" where
  "standard_manager resolver bound strategy =
     \<lparr>am_voters = [RoleHierarchyVoter_init 0 ROLE_PREFIX, AuthenticatedVoter_init 1 resolver, ClosureVoter_init 2 bound], am_strategy = strategy\<rparr>"

lemma hierarchy_voter_answers:
  assumes "starts_with prefix a" and "finite (reach h (set (tk_role_names token)))" and "card (reach h (set (tk_role_names token))) < MAX_REACHABLE"
  shows "answers h now token subject (AStr a) (RoleHierarchyVoter_init i prefix) (if a \<in> reach h (set (tk_role_names token)) then GRANTED else DENIED)"
  unfolding answers_def
proof (intro allI impI)
  fix vote w
  assume ready: "ready h now w"
  obtain r hw where run: "get_reachable_role_names (tk_role_names token) (aw_hierarchy w) = (r, hw)"
    by (cases "get_reachable_role_names (tk_role_names token) (aw_hierarchy w)")
  have same: "reach (aw_hierarchy w) R = reach h R" for R using ready by (intro reach_same) (auto simp: ready_def)
  note call = reachable_call [OF _ run, unfolded same]
  obtain xs where xs: "r = Inr xs" "set xs = reach h (set (tk_role_names token))"
    using call ready assms(2,3) by (cases r) (auto simp: ready_def)
  have "ready h now (w\<lparr>aw_hierarchy := hw\<rparr>)" using call ready by (auto simp: ready_def)
  then show "\<exists>vote' hw. vo_vote (RoleHierarchyVoter_init i prefix) token subject [AStr a] vote w
      = (Inr (if a \<in> reach h (set (tk_role_names token)) then GRANTED else DENIED, vote'), w\<lparr>aw_hierarchy := hw\<rparr>)
    \<and> ready h now (w\<lparr>aw_hierarchy := hw\<rparr>)"
    using xs run assms(1)
    by (cases "a \<in> reach h (set (tk_role_names token))")
      (auto simp: RoleHierarchyVoter_init_def role_vote_def hierarchy_roles_def andthen_def Let_def)
qed

lemma role_attribute_not_authentication: "starts_with ROLE_PREFIX a \<Longrightarrow> a \<notin> set (AUTHENTICATION_ATTRIBUTES @ [PUBLIC_ACCESS])"
  by (auto simp: starts_with_def ROLE_PREFIX_def AUTHENTICATION_ATTRIBUTES_def PUBLIC_ACCESS_def IS_AUTHENTICATED_VERY_RECENTLY_def
      IS_AUTHENTICATED_RECENTLY_def IS_AUTHENTICATED_FULLY_def IS_AUTHENTICATED_REMEMBERED_def IS_AUTHENTICATED_def IS_IMPERSONATOR_def IS_REMEMBERED_def)

lemma verdict_single: "verdict s [if b then GRANTED else DENIED] = b"
  by (cases s) auto

text \<open>The token a checker decides against.\<close>

definition effective_roles :: "checker \<Rightarrow> access_world \<Rightarrow> string list" where
  "effective_roles self w = (case current_offline_token self w of
     Some token \<Rightarrow> tk_role_names token
   | None \<Rightarrow> (case aw_token w of None \<Rightarrow> [] | Some token \<Rightarrow> if tk_user token = None then [] else tk_role_names token))"

lemma decide_role:
  assumes "caches_ok self w" and "ready h now w" and "aw_stack w = []" and "self = standard_manager resolver bound s" and "starts_with ROLE_PREFIX a"
    and "finite (reach h (set (tk_role_names token)))" and "card (reach h (set (tk_role_names token))) < MAX_REACHABLE"
  shows "\<exists>w'. decide self token [AStr a] subject None w = (Inr (a \<in> reach h (set (tk_role_names token))), w') \<and> caches_ok self w' \<and> ready h now w'
    \<and> aw_stack w' = [] \<and> aw_token w' = aw_token w \<and> aw_token_stack w' = aw_token_stack w"
proof -
  let ?v = "RoleHierarchyVoter_init 0 ROLE_PREFIX"
  let ?b = "if a \<in> reach h (set (tk_role_names token)) then GRANTED else DENIED"
  have applies: "applies (AStr a) subject v \<longleftrightarrow> v = ?v" if "v \<in> set (am_voters self)" for v
    using that assms(4,5) role_attribute_not_authentication [OF assms(5)]
    by (auto simp: standard_manager_def applies_def RoleHierarchyVoter_init_def RoleVoter_init_def AuthenticatedVoter_init_def ClosureVoter_init_def)
  have votes: "ballots self (AStr a) subject (\<lambda>_. ?b) = [?b]"
    using applies assms(4) by (simp add: ballots_def standard_manager_def)
      (simp add: RoleHierarchyVoter_init_def RoleVoter_init_def AuthenticatedVoter_init_def ClosureVoter_init_def)
  have ans: "answers h now token subject (AStr a) v ?b" if "v \<in> set (am_voters self)" "applies (AStr a) subject v" for v
    using applies [OF that(1)] that(2) hierarchy_voter_answers [OF assms(5-7)] by simp
  have rec: "decision_record None w = (length (aw_decisions w), True, w\<lparr>aw_decisions := aw_decisions w @ [AccessDecision_init]\<rparr>)"
    using assms(3) by (simp add: decision_record_def)
  have g: "a \<in> reach h (set (tk_role_names token)) = verdict (am_strategy self) (ballots self (AStr a) subject (\<lambda>_. ?b))"
    unfolding votes verdict_single ..
  show ?thesis using decide_run [OF assms(1,2) rec _ ans g] assms(3) by force
qed

text \<open>
  C13: with the role hierarchy, authentication and closure voters, under every strategy and whatever was decided before,
  the checker grants a role exactly when the roles of the token it decides against reach it through
  the hierarchy. That token is the one of the user asked about, when one is; otherwise the one in the storage when it
  carries a user; a caller who is nobody holds no role.
\<close>

theorem role_granted_iff_reached:
  assumes "caches_ok self w" and "ready h now w" and "aw_stack w = []" and "self = standard_manager resolver bound s" and "starts_with ROLE_PREFIX a"
    and "finite (reach h (set (case user of None \<Rightarrow> effective_roles \<lparr>ck_id = c, ck_decide = decide self\<rparr> w | Some u \<Rightarrow> us_roles u)))"
    and "card (reach h (set (case user of None \<Rightarrow> effective_roles \<lparr>ck_id = c, ck_decide = decide self\<rparr> w | Some u \<Rightarrow> us_roles u))) < MAX_REACHABLE"
    and "check = \<lparr>ck_id = c, ck_decide = decide self\<rparr>"
  shows "fst (case user of None \<Rightarrow> is_granted check (AStr a) subject None w | Some u \<Rightarrow> is_granted_for_user check (Some u) (AStr a) subject None w)
    = Inr (a \<in> reach h (set (case user of None \<Rightarrow> effective_roles check w | Some u \<Rightarrow> us_roles u)))"
proof (cases user)
  case None
  define token where "token = (case current_offline_token check w of
      Some token \<Rightarrow> token
    | None \<Rightarrow> (case aw_token w of None \<Rightarrow> null_token | Some token \<Rightarrow> if tk_user token = None then null_token else token))"
  have roles: "tk_role_names token = effective_roles check w"
    by (auto simp: token_def effective_roles_def null_token_def split: option.splits)
  have "is_granted check (AStr a) subject None w = decide self token [AStr a] subject None w"
    by (simp add: is_granted_def token_def assms(8))
  then show ?thesis
    using decide_role [OF assms(1-5), of token subject] assms(6-8) roles None by auto
next
  case (Some u)
  define token where "token = set_user u (AbstractToken_init OfflineTokenKind (us_roles u))"
  let ?w = "w\<lparr>aw_token_stack := aw_token_stack w @ [(c, token)]\<rparr>"
  have ok: "caches_ok self ?w" "ready h now ?w" "aw_stack ?w = []" using assms(1-3) by (simp_all add: caches_ok_def ready_def)
  have roles: "tk_role_names token = us_roles u" by (simp add: token_def set_user_def AbstractToken_init_def)
  have "is_granted check (AStr a) subject None ?w = decide self token [AStr a] subject None ?w"
    by (simp add: is_granted_def current_offline_token_def assms(8))
  then have "fst (is_granted_for_user check (Some u) (AStr a) subject None w) = fst (decide self token [AStr a] subject None ?w)"
    by (simp add: is_granted_for_user_def token_def assms(8) Let_def split: prod.splits)
  then show ?thesis
    using decide_role [OF ok assms(4,5), of token subject] assms(6,7) roles Some by auto
qed

section \<open>The strength of an authentication\<close>

definition STRENGTHS :: "string list" where
  "STRENGTHS = [IS_AUTHENTICATED_VERY_RECENTLY, IS_AUTHENTICATED_RECENTLY, IS_AUTHENTICATED_FULLY, IS_AUTHENTICATED_REMEMBERED, IS_AUTHENTICATED]"

lemmas attribute_names = IS_AUTHENTICATED_VERY_RECENTLY_def IS_AUTHENTICATED_RECENTLY_def IS_AUTHENTICATED_FULLY_def
  IS_AUTHENTICATED_REMEMBERED_def IS_AUTHENTICATED_def IS_IMPERSONATOR_def IS_REMEMBERED_def PUBLIC_ACCESS_def

text \<open>What a voter relies on in a trust resolver.\<close>

locale trust =
  fixes resolver :: trust_resolver and nested_windows :: bool
  assumes full_fledged: "tr_is_full_fledged resolver t \<Longrightarrow> tr_is_authenticated resolver t"
    and remembered: "tr_is_remember_me resolver t \<Longrightarrow> tr_is_authenticated resolver t"
    and windows: "nested_windows \<Longrightarrow> tr_is_authenticated_very_recently resolver now t \<Longrightarrow> tr_is_authenticated_recently resolver now t"
begin

lemma granted_strengths:
  "granted_because resolver now token IS_AUTHENTICATED_VERY_RECENTLY \<noteq> None
    \<longleftrightarrow> tr_is_full_fledged resolver (Some token) \<and> tr_is_authenticated_very_recently resolver now (Some token)"
  "granted_because resolver now token IS_AUTHENTICATED_RECENTLY \<noteq> None
    \<longleftrightarrow> tr_is_full_fledged resolver (Some token) \<and> tr_is_authenticated_recently resolver now (Some token)"
  "granted_because resolver now token IS_AUTHENTICATED_FULLY \<noteq> None \<longleftrightarrow> tr_is_full_fledged resolver (Some token)"
  "granted_because resolver now token IS_AUTHENTICATED_REMEMBERED \<noteq> None
    \<longleftrightarrow> tr_is_full_fledged resolver (Some token) \<or> tr_is_remember_me resolver (Some token)"
  "granted_because resolver now token IS_AUTHENTICATED \<noteq> None \<longleftrightarrow> tr_is_authenticated resolver (Some token)"
  by (simp_all add: granted_because_def is_authenticated_recently_for_def attribute_names)

lemma weaker:
  assumes "nested_windows" and "i \<le> j" and "j < length STRENGTHS" and "granted_because resolver now token (STRENGTHS ! i) \<noteq> None"
  shows "granted_because resolver now token (STRENGTHS ! j) \<noteq> None"
proof -
  define G where "G k \<longleftrightarrow> granted_because resolver now token (STRENGTHS ! k) \<noteq> None" for k
  have G: "G 0 = (tr_is_full_fledged resolver (Some token) \<and> tr_is_authenticated_very_recently resolver now (Some token))"
    "G 1 = (tr_is_full_fledged resolver (Some token) \<and> tr_is_authenticated_recently resolver now (Some token))"
    "G 2 = tr_is_full_fledged resolver (Some token)"
    "G 3 = (tr_is_full_fledged resolver (Some token) \<or> tr_is_remember_me resolver (Some token))"
    "G 4 = tr_is_authenticated resolver (Some token)"
    using granted_strengths [of now token] by (simp_all add: G_def STRENGTHS_def del: not_None_eq)
  have "i < 5" "j < 5" using assms(2,3) by (simp_all add: STRENGTHS_def)
  then have "i = 0 \<or> i = 1 \<or> i = 2 \<or> i = 3 \<or> i = 4" "j = 0 \<or> j = 1 \<or> j = 2 \<or> j = 3 \<or> j = 4" by auto
  moreover have "G i" using assms(4) by (simp add: G_def)
  ultimately have "G j"
    using assms(1,2) G full_fledged [of "Some token"] remembered [of "Some token"] windows [of now "Some token"] by auto
  then show ?thesis by (simp add: G_def)
qed

end

interpretation base_trust: trust "AuthenticationTrustResolver_init recent very" "very \<le> recent" for recent very
  by unfold_locales
    (auto simp: AuthenticationTrustResolver_init_def is_full_fledged_def is_remember_me_def is_authenticated_within_def split: option.splits list.splits if_splits)

lemma authenticated_vote_single:
  assumes "a \<in> set AUTHENTICATION_ATTRIBUTES" and "tk_kind token \<noteq> OfflineTokenKind \<or> tk_user token = None"
  shows "(\<exists>vote'. authenticated_vote resolver token subject [AStr a] vote w = (Inr (GRANTED, vote'), w))
    \<longleftrightarrow> granted_because resolver (aw_now w) token a \<noteq> None"
proof -
  have "a \<noteq> PUBLIC_ACCESS" using assms(1) by (auto simp: AUTHENTICATION_ATTRIBUTES_def attribute_names)
  then show ?thesis
    using assms by (cases "granted_because resolver (aw_now w) token a") (auto simp: authenticated_vote_def)
qed

text \<open>
  The authentication attributes are ordered by strength: over the default trust resolver, with a very
  recent window no longer than the recent one, whoever is granted one of \<open>IS_AUTHENTICATED_VERY_RECENTLY\<close>,
  \<open>IS_AUTHENTICATED_RECENTLY\<close>, \<open>IS_AUTHENTICATED_FULLY\<close>, \<open>IS_AUTHENTICATED_REMEMBERED\<close> and \<open>IS_AUTHENTICATED\<close> is
  granted every later one; an offline token that carries a user is granted none, the question being refused.
\<close>

theorem authentication_strength_order:
  assumes "very \<le> recent" and "resolver = AuthenticationTrustResolver_init recent very" and "i \<le> j" and "j < length STRENGTHS"
    and "authenticated_vote resolver token subject [AStr (STRENGTHS ! i)] vote w = (Inr (GRANTED, vote1), w)"
  shows "(\<exists>vote2. authenticated_vote resolver token subject [AStr (STRENGTHS ! j)] vote w = (Inr (GRANTED, vote2), w))
    \<and> \<not> (tk_kind token = OfflineTokenKind \<and> tk_user token \<noteq> None)"
proof -
  have known: "STRENGTHS ! k \<in> set AUTHENTICATION_ATTRIBUTES" if "k < length STRENGTHS" for k
  proof -
    have "set STRENGTHS \<subseteq> set AUTHENTICATION_ATTRIBUTES" by (auto simp: STRENGTHS_def AUTHENTICATION_ATTRIBUTES_def)
    then show ?thesis using nth_mem [OF that] by blast
  qed
  have i: "STRENGTHS ! i \<in> set AUTHENTICATION_ATTRIBUTES" and j: "STRENGTHS ! j \<in> set AUTHENTICATION_ATTRIBUTES"
    using known assms(3,4) by simp_all
  have public: "STRENGTHS ! i \<noteq> PUBLIC_ACCESS" using i by (auto simp: AUTHENTICATION_ATTRIBUTES_def attribute_names)
  have online: "tk_kind token \<noteq> OfflineTokenKind \<or> tk_user token = None"
    using assms(5) i public by (auto simp: authenticated_vote_def split: if_splits)
  have "granted_because resolver (aw_now w) token (STRENGTHS ! i) \<noteq> None"
    using authenticated_vote_single [OF i online, of resolver subject vote w] assms(5) by blast
  then have "granted_because resolver (aw_now w) token (STRENGTHS ! j) \<noteq> None"
    using base_trust.weaker [OF assms(1,3,4)] assms(2) by simp
  then show ?thesis using authenticated_vote_single [OF j online, of resolver subject vote w] online by auto
qed

section \<open>Concrete decisions\<close>

definition demo_world :: access_world where
  "demo_world = \<lparr>aw_attribute_cache = [], aw_type_cache = [], aw_decisions = [], aw_stack = [],
     aw_token = Some \<lparr>tk_kind = UsernamePasswordToken ''main'', tk_user = Some \<lparr>us_identifier = ''ann'', us_roles = [''ROLE_USER'']\<rparr>,
       tk_role_names = [''ROLE_A''], tk_proofs = Some [(''pwd'', 100)]\<rparr>,
     aw_token_stack = [], aw_hierarchy = \<lparr>rh_exact = [(''ROLE_A'', [''ROLE_B''])], rh_wildcards = [], rh_memo = []\<rparr>, aw_now = 150\<rparr>"

definition demo_manager :: manager where
  "demo_manager = standard_manager (AuthenticationTrustResolver_init 7200 300) None (UnanimousStrategy False)"

lemma demo_world_ok: "caches_ok demo_manager demo_world" "ready (aw_hierarchy demo_world) 150 demo_world" "aw_stack demo_world = []"
  by (simp_all add: caches_ok_def cache_says_def ready_def demo_world_def memo_ok_def)

lemma demo_reach: "reach (aw_hierarchy demo_world) {''ROLE_A''} \<subseteq> {''ROLE_A'', ''ROLE_B''}"
  using reach_declared [of "aw_hierarchy demo_world" "{''ROLE_A''}"] by (auto simp: demo_world_def declared_parents_def)

lemma demo_reach_small:
  "finite (reach (aw_hierarchy demo_world) {''ROLE_A''})" "card (reach (aw_hierarchy demo_world) {''ROLE_A''}) < MAX_REACHABLE"
proof -
  show "finite (reach (aw_hierarchy demo_world) {''ROLE_A''})" using demo_reach by (rule finite_subset) simp
  have "card (reach (aw_hierarchy demo_world) {''ROLE_A''}) \<le> card {''ROLE_A'', ''ROLE_B''}" using demo_reach by (intro card_mono) simp_all
  then show "card (reach (aw_hierarchy demo_world) {''ROLE_A''}) < MAX_REACHABLE" by (simp add: MAX_REACHABLE_def)
qed

theorem role_granted_iff_reached_witness:
  "fst (is_granted \<lparr>ck_id = 0, ck_decide = decide demo_manager\<rparr> (AStr ''ROLE_B'') SNone None demo_world)
    = Inr (''ROLE_B'' \<in> reach (aw_hierarchy demo_world) {''ROLE_A''})"
proof -
  have roles: "effective_roles \<lparr>ck_id = 0, ck_decide = decide demo_manager\<rparr> demo_world = [''ROLE_A'']"
    by (simp add: effective_roles_def current_offline_token_def demo_world_def)
  show ?thesis
    using role_granted_iff_reached [OF demo_world_ok demo_manager_def, where a = "''ROLE_B''" and user = None and c = 0 and subject = SNone, OF _ _ _ refl] demo_reach_small
    by (simp add: roles starts_with_def ROLE_PREFIX_def)
qed

theorem decide_is_verdict_witness:
  "\<exists>w'. decide demo_manager null_token [AStr ''PAGE_EDIT''] SNone None demo_world = (Inr False, w')
    \<and> map vt_result (ad_votes (last (aw_decisions w'))) = []"
proof -
  have none: "filter (applies (AStr ''PAGE_EDIT'') SNone) (am_voters demo_manager) = []"
    by (simp add: demo_manager_def standard_manager_def applies_def RoleHierarchyVoter_init_def RoleVoter_init_def AuthenticatedVoter_init_def
        ClosureVoter_init_def starts_with_def ROLE_PREFIX_def AUTHENTICATION_ATTRIBUTES_def attribute_names)
  have quiet: "\<forall>v \<in> set (am_voters demo_manager). applies (AStr ''PAGE_EDIT'') SNone v \<longrightarrow> answers (aw_hierarchy demo_world) 150 null_token SNone (AStr ''PAGE_EDIT'') v ABSTAIN"
    using none by (auto simp: filter_empty_conv)
  have "am_strategy demo_manager = UnanimousStrategy False" by (simp add: demo_manager_def standard_manager_def)
  then show ?thesis
    using decide_is_verdict [OF demo_world_ok(1,2) _ quiet refl refl] demo_world_ok(3) none by (auto simp: ballots_def)
qed

theorem strategies_decide_lazily_witness:
  "settled (AffirmativeStrategy False) [DENIED, GRANTED]
    \<and> verdict (AffirmativeStrategy False) ([DENIED, GRANTED] @ [DENIED, DENIED]) = verdict (AffirmativeStrategy False) [DENIED, GRANTED]"
  using strategies_decide_lazily [of "AffirmativeStrategy False" "[]" "[DENIED, GRANTED]" "[DENIED, DENIED]"] by simp

theorem authentication_strength_order_witness:
  "\<exists>vote2. authenticated_vote (AuthenticationTrustResolver_init 7200 300) (the (aw_token demo_world)) SNone
      [AStr IS_AUTHENTICATED_FULLY] (Vote_init 0) demo_world = (Inr (GRANTED, vote2), demo_world)"
proof -
  have "\<exists>vote1. authenticated_vote (AuthenticationTrustResolver_init 7200 300) (the (aw_token demo_world)) SNone
      [AStr (STRENGTHS ! 0)] (Vote_init 0) demo_world = (Inr (GRANTED, vote1), demo_world)"
    by (simp add: authenticated_vote_def STRENGTHS_def attribute_names AUTHENTICATION_ATTRIBUTES_def granted_because_def
        is_authenticated_recently_for_def AuthenticationTrustResolver_init_def is_full_fledged_def is_authenticated_def is_remember_me_def
        is_authenticated_within_def get_authentication_proofs_def demo_world_def)
  then show ?thesis
    using authentication_strength_order [of 300 7200 _ 0 2, OF _ refl] by (force simp: STRENGTHS_def)
qed

end
