(* ===== verification/Order_Sorter.thy ===== *)
theory Order_Sorter
  imports Prelude "HOL-Library.Multiset"
begin

text \<open>
  Ordering by \<open>before\<close> and \<open>after\<close> constraints: \<open>compiler/before_after_sorter.py\<close> of
  xtr-dependency-injection, with the iterative depth-first search it rests on and the propagation of
  priorities to the items that declare none. What the functions promise is in
  \<open>Order_Search\<close> and \<open>Order_Priorities\<close>.

  The constraints of an item are the lists of the names it runs before and after; a missing list is
  the empty one.
\<close>

section \<open>Data\<close>

type_synonym item = string
type_synonym constraints = "(item, string list \<times> string list) dict"
type_synonym aliases = "(string, item list) dict"
type_synonym predecessors = "(item, item list) dict"

text \<open>
  Why an order is refused (\<open>ServiceOrderError\<close>), with what the message quotes; \<open>KeyError\<close> is a lookup
  that finds nothing.
\<close>

datatype direction = Before | After

datatype order_error =
    CycleDetected "item list"
  | Contradiction item int direction item int
  | Unsatisfiable item int item int item
  | OutOfOrder item int item int
  | KeyError item

datatype visit_state = VISITING | VISITED

type_synonym states = "(item, visit_state) dict"
type_synonym stack = "(item \<times> item list) list"

section \<open>The depth-first search\<close>

text \<open>
  \<open>_visit\<close>, its loop: the top of the stack comes first, an iterator is the list of what it has not
  yielded yet, and the path grows at its end.
\<close>

function visit_loop ::
  "predecessors \<Rightarrow> stack \<Rightarrow> item list \<Rightarrow> states \<Rightarrow> item list \<Rightarrow> order_error + (states \<times> item list)" where
  "visit_loop preds [] path states sorted_items = Inr (states, sorted_items)"
| "visit_loop preds ((current, []) # stack) path states sorted_items =
     visit_loop preds stack (butlast path) (dict_set current VISITED states) (sorted_items @ [current])"
| "visit_loop preds ((current, predecessor # pending) # stack) path states sorted_items =
     (case map_of states predecessor of
        Some VISITED \<Rightarrow> visit_loop preds ((current, pending) # stack) path states sorted_items
      | Some VISITING \<Rightarrow> Inl (CycleDetected (dropWhile (\<lambda>x. x \<noteq> predecessor) path @ [predecessor]))
      | None \<Rightarrow>
          (case map_of preds predecessor of
             None \<Rightarrow> Inl (KeyError predecessor)
           | Some its \<Rightarrow>
               visit_loop preds ((predecessor, its) # (current, pending) # stack) (path @ [predecessor])
                 (dict_set predecessor VISITING states) sorted_items))"
  by pat_completeness auto

text \<open>Every round marks a new item or uses up a position of a predecessor list.\<close>

definition unmarked :: "predecessors \<Rightarrow> states \<Rightarrow> nat" where
  "unmarked preds states = card (set (dict_keys preds) - set (dict_keys states))"

lemma unmarked_mono: "unmarked preds (dict_set x v states) \<le> unmarked preds states"
  unfolding unmarked_def by (rule card_mono) (auto simp: dom_update)

lemma unmarked_mark:
  assumes "map_of states x = None" "map_of preds x = Some its"
  shows "unmarked preds (dict_set x v states) < unmarked preds states"
proof -
  have "x \<in> set (dict_keys preds) - set (dict_keys states)"
    using assms by (auto simp: map_of_eq_None_iff dest: map_of_SomeD intro: rev_image_eqI)
  moreover have "set (dict_keys (dict_set x v states)) = insert x (set (dict_keys states))"
    by (simp add: dom_update)
  ultimately show ?thesis
    unfolding unmarked_def by (metis Diff_insert card_Diff1_less finite_Diff List.finite_set)
qed

termination visit_loop
  by (relation "measures [\<lambda>(preds, stack, path, states, out). unmarked preds states,
                          \<lambda>(preds, stack, path, states, out). sum_list (map (\<lambda>x. Suc (length (snd x))) stack)]")
     (auto simp: unmarked_mark le_less dest: unmarked_mono [THEN le_neq_implies_less])

definition visit ::
  "predecessors \<Rightarrow> item \<Rightarrow> states \<times> item list \<Rightarrow> order_error + (states \<times> item list)" where
  "visit preds item acc =
     (case acc of (states, sorted_items) \<Rightarrow>
        if map_of states item = Some VISITED then Inr (states, sorted_items)
        else case map_of preds item of
          None \<Rightarrow> Inl (KeyError item)
        | Some its \<Rightarrow> visit_loop preds [(item, its)] [item] (dict_set item VISITING states) sorted_items)"

section \<open>Sorting by constraints alone\<close>

definition designated :: "aliases \<Rightarrow> string \<Rightarrow> item list" where
  "designated aliases target = (case map_of aliases target of Some items \<Rightarrow> items | None \<Rightarrow> [target])"

text \<open>The loops over the directions, the targets and the items a target designates.\<close>

definition targets_of :: "aliases \<Rightarrow> string list \<times> string list \<Rightarrow> (direction \<times> item) list" where
  "targets_of aliases c =
     map (Pair Before) (concat (map (designated aliases) (fst c)))
     @ map (Pair After) (concat (map (designated aliases) (snd c)))"

definition add_predecessor :: "item \<Rightarrow> direction \<times> item \<Rightarrow> predecessors \<Rightarrow> predecessors" where
  "add_predecessor item dt preds =
     (case dt of (dir, target_item) \<Rightarrow>
        if target_item = item \<or> target_item \<notin> set (dict_keys preds) then preds
        else case dir of
          Before \<Rightarrow> dict_set target_item (dict_get_or preds target_item [] @ [item]) preds
        | After \<Rightarrow> dict_set item (dict_get_or preds item [] @ [target_item]) preds)"

definition add_constraint ::
  "aliases \<Rightarrow> item \<times> string list \<times> string list \<Rightarrow> predecessors \<Rightarrow> predecessors" where
  "add_constraint aliases ic preds =
     (if fst ic \<notin> set (dict_keys preds) then preds
      else fold (add_predecessor (fst ic)) (targets_of aliases (snd ic)) preds)"

definition predecessors_of :: "item list \<Rightarrow> constraints \<Rightarrow> aliases \<Rightarrow> predecessors" where
  "predecessors_of seed constraints aliases =
     fold (add_constraint aliases) constraints (fold (\<lambda>item. dict_set item []) seed [])"

definition sort_items :: "item list \<Rightarrow> constraints \<Rightarrow> aliases \<Rightarrow> order_error + item list" where
  "sort_items seed constraints aliases =
     (if constraints = [] then Inr seed
      else case fold_r (visit (predecessors_of seed constraints aliases)) seed ([], []) of
        Inl e \<Rightarrow> Inl e
      | Inr (states, sorted_items) \<Rightarrow> Inr sorted_items)"

section \<open>Sorting by priority and constraints\<close>

type_synonym priorities = "(item, int option) dict"

definition INT64_MIN :: int where "INT64_MIN = - (2 ^ 63)"
definition INT64_MAX :: int where "INT64_MAX = 2 ^ 63 - 1"

definition declared :: "priorities \<Rightarrow> item \<Rightarrow> int option" where
  "declared priorities item = (case map_of priorities item of None \<Rightarrow> None | Some p \<Rightarrow> p)"

definition declared_or_zero :: "priorities \<Rightarrow> item \<Rightarrow> int" where
  "declared_or_zero priorities item = (case declared priorities item of None \<Rightarrow> 0 | Some p \<Rightarrow> p)"

text \<open>
  \<open>seed.sort(key=...)\<close> with ties broken by the position in the mapping: a stable sort of the items in
  that order.
\<close>

definition seed_by_priority :: "(item \<Rightarrow> int) \<Rightarrow> item list \<Rightarrow> item list" where
  "seed_by_priority p items = sort_key (\<lambda>item. - p item) items"

text \<open>One edge of the second reading of the constraints: kept, or refused by two declared priorities.\<close>

definition read_edge ::
  "priorities \<Rightarrow> item \<Rightarrow> direction \<times> item \<Rightarrow> (item \<times> item) list \<Rightarrow> order_error + (item \<times> item) list" where
  "read_edge priorities item dt edges =
     (case dt of (dir, target_item) \<Rightarrow>
        if target_item = item \<or> target_item \<notin> set (dict_keys priorities) then Inr edges
        else let edges' = edges @ [case dir of Before \<Rightarrow> (item, target_item) | After \<Rightarrow> (target_item, item)]
             in case (declared priorities item, declared priorities target_item) of
                  (Some p, Some q) \<Rightarrow>
                    if dir = Before \<and> p < q \<or> dir = After \<and> p > q
                    then Inl (Contradiction item p dir target_item q) else Inr edges'
                | _ \<Rightarrow> Inr edges')"

definition read_constraint ::
  "priorities \<Rightarrow> aliases \<Rightarrow> item \<times> string list \<times> string list \<Rightarrow> (item \<times> item) list
     \<Rightarrow> order_error + (item \<times> item) list" where
  "read_constraint priorities aliases ic edges =
     (if fst ic \<notin> set (dict_keys priorities) then Inr edges
      else fold_r (read_edge priorities (fst ic)) (targets_of aliases (snd ic)) edges)"

definition read_edges :: "priorities \<Rightarrow> constraints \<Rightarrow> aliases \<Rightarrow> order_error + (item \<times> item) list" where
  "read_edges priorities constraints aliases = fold_r (read_constraint priorities aliases) constraints []"

text \<open>The bounds of the items without a priority, and which item each bound came from.\<close>

record bounds =
  lows :: "(item, int) dict"
  highs :: "(item, int) dict"
  lows_from :: "(item, item) dict"
  highs_from :: "(item, item) dict"
  settled :: bool

definition free_items :: "priorities \<Rightarrow> item list" where
  "free_items priorities = map fst (filter (\<lambda>ip. snd ip = None) priorities)"

definition initial_bounds :: "priorities \<Rightarrow> bounds" where
  "initial_bounds priorities =
     \<lparr>lows = map (\<lambda>item. (item, INT64_MIN)) (free_items priorities),
      highs = map (\<lambda>item. (item, INT64_MAX)) (free_items priorities),
      lows_from = [], highs_from = [], settled = False\<rparr>"

definition raise_low :: "priorities \<Rightarrow> item \<times> item \<Rightarrow> bounds \<Rightarrow> bounds" where
  "raise_low priorities e b =
     (case e of (before, after) \<Rightarrow>
        case map_of (lows b) before of
          None \<Rightarrow> b
        | Some l \<Rightarrow>
            (let low = (case declared priorities after of
                          Some p \<Rightarrow> p | None \<Rightarrow> dict_get_or (lows b) after INT64_MIN)
             in if low > l
                then b\<lparr>lows := dict_set before low (lows b),
                       lows_from := dict_set before after (lows_from b), settled := False\<rparr>
                else b))"

definition cut_high :: "priorities \<Rightarrow> item \<times> item \<Rightarrow> bounds \<Rightarrow> bounds" where
  "cut_high priorities e b =
     (case e of (before, after) \<Rightarrow>
        case map_of (highs b) after of
          None \<Rightarrow> b
        | Some h \<Rightarrow>
            (let high = (case declared priorities before of
                           Some p \<Rightarrow> p | None \<Rightarrow> dict_get_or (highs b) before INT64_MAX)
             in if high < h
                then b\<lparr>highs := dict_set after high (highs b),
                       highs_from := dict_set after before (highs_from b), settled := False\<rparr>
                else b))"

definition relax :: "priorities \<Rightarrow> item \<times> item \<Rightarrow> bounds \<Rightarrow> bounds" where
  "relax priorities e b = cut_high priorities e (raise_low priorities e b)"

definition relax_pass :: "priorities \<Rightarrow> (item \<times> item) list \<Rightarrow> bounds \<Rightarrow> bounds" where
  "relax_pass priorities edges b = fold (relax priorities) edges (b\<lparr>settled := True\<rparr>)"

text \<open>
  The passes end: every bound is one of finitely many values, and a pass that changes anything moves
  a bound along them.
\<close>

definition bound_values :: "priorities \<Rightarrow> bounds \<Rightarrow> int set" where
  "bound_values priorities b =
     {p. \<exists>item. declared priorities item = Some p} \<union> set (map snd (lows b)) \<union> set (map snd (highs b))
     \<union> {INT64_MIN, INT64_MAX}"

definition slack_over :: "int set \<Rightarrow> bounds \<Rightarrow> nat" where
  "slack_over V b =
     sum_list (map (\<lambda>xl. card {v \<in> V. v > snd xl}) (lows b))
     + sum_list (map (\<lambda>xh. card {v \<in> V. v < snd xh}) (highs b))"

definition slack :: "priorities \<Rightarrow> bounds \<Rightarrow> nat" where
  "slack priorities b = slack_over (bound_values priorities b) b"

lemma finite_bound_values: "finite (bound_values priorities b)"
proof -
  have "{p. \<exists>item. declared priorities item = Some p} \<subseteq> the ` snd ` set priorities"
    by (force simp: declared_def split: option.splits dest: map_of_SomeD intro: rev_image_eqI)
  then have "finite {p. \<exists>item. declared priorities item = Some p}"
    by (rule finite_subset) simp
  then show ?thesis by (simp add: bound_values_def)
qed

lemma slack_over_mono: "finite V \<Longrightarrow> V' \<subseteq> V \<Longrightarrow> slack_over V' b \<le> slack_over V b"
  unfolding slack_over_def by (intro add_mono sum_list_mono card_mono) auto

lemma sum_list_update:
  "map_of xs k = Some v0 \<Longrightarrow>
     sum_list (map f (dict_set k v xs)) + f (k, v0) = sum_list (map f xs) + f (k, v)"
  for f :: "'k \<times> 'v \<Rightarrow> nat"
  by (induction xs) auto

lemma dict_set_values: "set (map snd (dict_set k v xs)) \<subseteq> insert v (set (map snd xs))"
  by (induction xs) auto

lemma dict_get_or_values: "dict_get_or xs k v0 \<in> insert v0 (set (map snd xs))"
  by (auto simp: dict_get_or_def split: option.splits dest: map_of_SomeD intro: rev_image_eqI)

lemma relax_slack:
  "raise_low priorities e b = b
     \<or> (\<not> settled (raise_low priorities e b) \<and> slack priorities (raise_low priorities e b) < slack priorities b)"
  "cut_high priorities e b = b
     \<or> (\<not> settled (cut_high priorities e b) \<and> slack priorities (cut_high priorities e b) < slack priorities b)"
proof -
  let ?V = "bound_values priorities b"
  have decl: "declared priorities x = Some p \<Longrightarrow> p \<in> ?V" for x p
    by (auto simp: bound_values_def)
  obtain before after where e: "e = (before, after)" by fastforce
  show "raise_low priorities e b = b
     \<or> (\<not> settled (raise_low priorities e b) \<and> slack priorities (raise_low priorities e b) < slack priorities b)"
  proof (cases "raise_low priorities e b = b")
    case False
    define low where "low = (case declared priorities after of
                          Some p \<Rightarrow> p | None \<Rightarrow> dict_get_or (lows b) after INT64_MIN)"
    from False obtain l where l: "map_of (lows b) before = Some l" "low > l"
      and b': "raise_low priorities e b = b\<lparr>lows := dict_set before low (lows b),
                       lows_from := dict_set before after (lows_from b), settled := False\<rparr>"
      by (auto simp: raise_low_def e low_def Let_def split: option.splits if_splits)
    have low: "low \<in> ?V"
      using decl dict_get_or_values [of "lows b" after INT64_MIN]
      by (auto simp: low_def bound_values_def split: option.splits)
    then have sub: "bound_values priorities (raise_low priorities e b) \<subseteq> ?V"
      using dict_set_values [of before low "lows b"] by (auto simp: b' bound_values_def)
    have "card {v \<in> ?V. v > low} < card {v \<in> ?V. v > l}"
      using finite_bound_values low l(2) by (intro psubset_card_mono) auto
    then have "slack_over ?V (raise_low priorities e b) < slack_over ?V b"
      using sum_list_update [OF l(1), of "\<lambda>xl. card {v \<in> ?V. v > snd xl}" low]
      by (simp add: b' slack_over_def)
    then show ?thesis
      using slack_over_mono [OF finite_bound_values sub] by (auto simp: slack_def b' intro: le_less_trans)
  qed simp
  show "cut_high priorities e b = b
     \<or> (\<not> settled (cut_high priorities e b) \<and> slack priorities (cut_high priorities e b) < slack priorities b)"
  proof (cases "cut_high priorities e b = b")
    case False
    define high where "high = (case declared priorities before of
                          Some p \<Rightarrow> p | None \<Rightarrow> dict_get_or (highs b) before INT64_MAX)"
    from False obtain h where h: "map_of (highs b) after = Some h" "high < h"
      and b': "cut_high priorities e b = b\<lparr>highs := dict_set after high (highs b),
                       highs_from := dict_set after before (highs_from b), settled := False\<rparr>"
      by (auto simp: cut_high_def e high_def Let_def split: option.splits if_splits)
    have high: "high \<in> ?V"
      using decl dict_get_or_values [of "highs b" before INT64_MAX]
      by (auto simp: high_def bound_values_def split: option.splits)
    then have sub: "bound_values priorities (cut_high priorities e b) \<subseteq> ?V"
      using dict_set_values [of after high "highs b"] by (auto simp: b' bound_values_def)
    have "card {v \<in> ?V. v < high} < card {v \<in> ?V. v < h}"
      using finite_bound_values high h(2) by (intro psubset_card_mono) auto
    then have "slack_over ?V (cut_high priorities e b) < slack_over ?V b"
      using sum_list_update [OF h(1), of "\<lambda>xh. card {v \<in> ?V. v < snd xh}" high]
      by (simp add: b' slack_over_def)
    then show ?thesis
      using slack_over_mono [OF finite_bound_values sub] by (auto simp: slack_def b' intro: le_less_trans)
  qed simp
qed

lemma relax_settled_slack:
  "relax priorities e b = b \<or> (\<not> settled (relax priorities e b) \<and> slack priorities (relax priorities e b) < slack priorities b)"
  using relax_slack(1) [of priorities e b] relax_slack(2) [of priorities e "raise_low priorities e b"]
  by (auto simp: relax_def)

text \<open>A pass either changes nothing, or says so and comes closer to the end.\<close>

lemma relax_fold_slack:
  "fold (relax priorities) edges b = b
     \<or> (\<not> settled (fold (relax priorities) edges b) \<and> slack priorities (fold (relax priorities) edges b) < slack priorities b)"
proof (induction edges arbitrary: b)
  case (Cons e edges)
  from Cons [of "relax priorities e b"] relax_settled_slack [of priorities e b] show ?case
    by auto
qed simp

lemma slack_settled [simp]: "slack priorities (b\<lparr>settled := s\<rparr>) = slack priorities b"
  by (simp add: slack_def slack_over_def bound_values_def)

lemma relax_pass_slack:
  "\<not> settled (relax_pass priorities edges b) \<Longrightarrow> slack priorities (relax_pass priorities edges b) < slack priorities b"
  using relax_fold_slack [of priorities edges "b\<lparr>settled := True\<rparr>"] by (auto simp: relax_pass_def)

text \<open>\<open>while not settled\<close>: the first pass always runs.\<close>

function settle :: "priorities \<Rightarrow> (item \<times> item) list \<Rightarrow> bounds \<Rightarrow> bounds" where
  "settle priorities edges b =
     (let b' = relax_pass priorities edges b
      in if settled b' then b' else settle priorities edges b')"
  by pat_completeness auto

termination settle
  by (relation "measure (\<lambda>(priorities, edges, b). slack priorities b)") (auto simp: relax_pass_slack)

declare settle.simps [simp del]

definition resolve_one ::
  "bounds \<Rightarrow> item \<times> int option \<Rightarrow> (item, int) dict \<Rightarrow> order_error + (item, int) dict" where
  "resolve_one b ip resolved =
     (case ip of (item, p) \<Rightarrow>
        case p of
          Some priority \<Rightarrow> Inr (dict_set item priority resolved)
        | None \<Rightarrow>
            (case (map_of (lows b) item, map_of (highs b) item) of
               (Some l, Some h) \<Rightarrow>
                 if l > h
                 then (case map_of (lows_from b) item of
                         None \<Rightarrow> Inl (KeyError item)
                       | Some lf \<Rightarrow>
                           (case map_of (highs_from b) item of
                              None \<Rightarrow> Inl (KeyError item)
                            | Some hf \<Rightarrow> Inl (Unsatisfiable item l lf h hf)))
                 else Inr (dict_set item (min h (max l 0)) resolved)
             | _ \<Rightarrow> Inl (KeyError item)))"

text \<open>The last loop: an item may not have a higher priority than the one ahead of it.\<close>

fun check_order :: "(item \<Rightarrow> int) \<Rightarrow> item list \<Rightarrow> order_error + unit" where
  "check_order resolved (previous # item # items) =
     (if resolved item > resolved previous
      then Inl (OutOfOrder previous (resolved previous) item (resolved item))
      else check_order resolved (item # items))"
| "check_order resolved _ = Inr ()"

definition place ::
  "priorities \<Rightarrow> constraints \<Rightarrow> aliases \<Rightarrow> (item \<times> item) list \<Rightarrow> order_error + (item \<times> int) list" where
  "place priorities constraints aliases edges =
     (case fold_r (resolve_one (settle priorities edges (initial_bounds priorities))) priorities [] of
        Inl e \<Rightarrow> Inl e
      | Inr resolved \<Rightarrow>
          (let r = (\<lambda>item. dict_get_or resolved item 0)
           in case sort_items (seed_by_priority r (dict_keys priorities)) constraints aliases of
                Inl e \<Rightarrow> Inl e
              | Inr sorted_items \<Rightarrow>
                  (case check_order r sorted_items of
                     Inl e \<Rightarrow> Inl e
                   | Inr u \<Rightarrow> Inr (map (\<lambda>item. (item, r item)) sorted_items))))"

definition sort_with_priorities ::
  "priorities \<Rightarrow> constraints \<Rightarrow> aliases \<Rightarrow> order_error + (item \<times> int) list" where
  "sort_with_priorities priorities constraints aliases =
     (let p = declared_or_zero priorities;
          seed = seed_by_priority p (dict_keys priorities)
      in if constraints = [] then Inr (map (\<lambda>item. (item, p item)) seed)
         else case sort_items seed constraints aliases of
           Inl e \<Rightarrow> Inl e
         | Inr ignored \<Rightarrow>
             (case read_edges priorities constraints aliases of
                Inl e \<Rightarrow> Inl e
              | Inr edges \<Rightarrow> place priorities constraints aliases edges))"

lemmas [order_defs] =
  visit_def add_predecessor_def add_constraint_def predecessors_of_def sort_items_def
  read_edge_def read_constraint_def read_edges_def relax_def raise_low_def cut_high_def relax_pass_def
  resolve_one_def place_def sort_with_priorities_def

end
