(* ===== verification/Order_Search.thy ===== *)
theory Order_Search
  imports Order_Sorter
begin

text \<open>
  What \<open>sort\<close> of xtr-dependency-injection promises. The constraints are a relation "runs before" on the
  items; sorting returns a permutation in which it holds, or a cycle of it. What is in order already is
  left alone, and items sorted by priorities that agree with the constraints only move among those of
  the same priority.
\<close>

section \<open>Orders and cycles\<close>

text \<open>Every item comes after the items that run before it.\<close>

definition in_order :: "('a \<times> 'a) set \<Rightarrow> 'a list \<Rightarrow> bool" where
  "in_order R xs \<longleftrightarrow> (\<forall>ys x zs. xs = ys @ x # zs \<longrightarrow> (\<forall>b. (b, x) \<in> R \<longrightarrow> b \<in> set ys))"

lemma in_order_Nil [simp]: "in_order R []"
  by (simp add: in_order_def)

lemma in_order_snoc: "in_order R (xs @ [x]) \<longleftrightarrow> in_order R xs \<and> (\<forall>b. (b, x) \<in> R \<longrightarrow> b \<in> set xs)"
proof
  assume l: "in_order R (xs @ [x])"
  show "in_order R xs \<and> (\<forall>b. (b, x) \<in> R \<longrightarrow> b \<in> set xs)"
    unfolding in_order_def
  proof (intro conjI allI impI)
    show "b \<in> set ys" if "xs = ys @ y # zs" "(b, y) \<in> R" for ys y zs b
      using l that unfolding in_order_def by (metis append.assoc append_Cons)
    show "b \<in> set xs" if "(b, x) \<in> R" for b
      using l that unfolding in_order_def by blast
  qed
next
  assume r: "in_order R xs \<and> (\<forall>b. (b, x) \<in> R \<longrightarrow> b \<in> set xs)"
  show "in_order R (xs @ [x])"
    unfolding in_order_def
  proof (intro allI impI)
    fix ys y zs b
    assume "xs @ [x] = ys @ y # zs" "(b, y) \<in> R"
    with r show "b \<in> set ys"
      unfolding in_order_def by (cases zs rule: rev_cases) auto
  qed
qed

lemma in_order_before:
  assumes "in_order R xs" "(b, a) \<in> R" "a \<in> set xs"
  shows "\<exists>us vs ws. xs = us @ b # vs @ a # ws"
proof -
  obtain ys zs where "xs = ys @ a # zs" using assms(3) by (auto dest: split_list)
  moreover from this have "b \<in> set ys" using assms unfolding in_order_def by blast
  ultimately show ?thesis by (metis append.assoc append_Cons split_list)
qed

definition position :: "'a list \<Rightarrow> 'a \<Rightarrow> nat" where
  "position xs x = length (takeWhile (\<lambda>y. y \<noteq> x) xs)"

lemma position_append:
  "position (ys @ zs) x = (if x \<in> set ys then position ys x else length ys + position zs x)"
  by (induction ys) (auto simp: position_def)

lemma position_less: "x \<in> set xs \<Longrightarrow> position xs x < length xs"
  by (induction xs) (auto simp: position_def)

lemma in_order_position:
  assumes "in_order R xs" "distinct xs" "(b, a) \<in> R" "a \<in> set xs"
  shows "b \<in> set xs \<and> position xs b < position xs a"
proof -
  obtain ys zs where xs: "xs = ys @ a # zs" using assms(4) by (auto dest: split_list)
  then have b: "b \<in> set ys" using assms unfolding in_order_def by blast
  moreover have "a \<notin> set ys" using assms(2) xs by auto
  ultimately show ?thesis
    using position_less [OF b] by (simp add: xs position_append)
qed

text \<open>An order rules out cycles.\<close>

lemma in_order_acyclic:
  assumes "in_order R xs" "distinct xs" "snd ` R \<subseteq> set xs"
  shows "acyclic R"
proof (rule acyclic_subset)
  show "acyclic (measure (position xs))"
    by (rule wf_acyclic) simp
  show "R \<subseteq> measure (position xs)"
    using in_order_position [OF assms(1,2)] assms(3) by force
qed

text \<open>
  What an error names: a walk along the relation, each item run after the next one, that ends where it
  began.
\<close>

fun backward_walk :: "('a \<times> 'a) set \<Rightarrow> 'a list \<Rightarrow> bool" where
  "backward_walk R (x # y # xs) \<longleftrightarrow> (y, x) \<in> R \<and> backward_walk R (y # xs)"
| "backward_walk R xs \<longleftrightarrow> True"

definition is_cycle :: "('a \<times> 'a) set \<Rightarrow> 'a list \<Rightarrow> bool" where
  "is_cycle R xs \<longleftrightarrow> length xs \<ge> 2 \<and> hd xs = last xs \<and> backward_walk R xs"

lemma backward_walk_append:
  "backward_walk R (xs @ [y]) \<longleftrightarrow> backward_walk R xs \<and> (xs \<noteq> [] \<longrightarrow> (y, last xs) \<in> R)"
  by (induction R xs rule: backward_walk.induct) auto

lemma backward_walk_suffix: "backward_walk R (xs @ ys) \<Longrightarrow> backward_walk R ys"
  by (induction xs) (auto simp: neq_Nil_conv elim: backward_walk.elims)

lemma backward_walk_trancl: "backward_walk R (x # xs) \<Longrightarrow> xs \<noteq> [] \<Longrightarrow> (last xs, x) \<in> R\<^sup>+"
proof (induction xs arbitrary: x)
  case (Cons y ys)
  show ?case
  proof (cases "ys = []")
    case False
    with Cons have "(last ys, y) \<in> R\<^sup>+" "(y, x) \<in> R" by simp_all
    then show ?thesis using False by simp
  qed (use Cons.prems in auto)
qed simp

lemma is_cycle_not_acyclic: "is_cycle R xs \<Longrightarrow> \<not> acyclic R"
  by (cases xs) (auto simp: is_cycle_def acyclic_def dest!: backward_walk_trancl split: if_splits)

section \<open>The relation the predecessors say\<close>

definition runs_before :: "predecessors \<Rightarrow> (item \<times> item) set" where
  "runs_before preds = {(b, a). b \<in> set (dict_get_or preds a [])}"

definition closed :: "predecessors \<Rightarrow> bool" where
  "closed preds \<longleftrightarrow> fst ` runs_before preds \<subseteq> set (dict_keys preds)"

lemma runs_before_lookup: "map_of preds a = Some its \<Longrightarrow> set its = {b. (b, a) \<in> runs_before preds}"
  by (auto simp: runs_before_def dict_get_or_def)

lemma runs_before_key: "(b, a) \<in> runs_before preds \<Longrightarrow> a \<in> set (dict_keys preds)"
  unfolding dict_mem_iff by (cases "map_of preds a") (auto simp: runs_before_def dict_get_or_def)

section \<open>The search\<close>

text \<open>
  The frames of the stack: what a frame has not looked at yet is among the predecessors of its item,
  and every predecessor is still to be looked at, emitted, or the item of the frame above.
\<close>

fun frames_ok :: "('a \<times> 'a) set \<Rightarrow> 'a set \<Rightarrow> 'a set \<Rightarrow> ('a \<times> 'a list) list \<Rightarrow> bool" where
  "frames_ok R out over [] \<longleftrightarrow> True"
| "frames_ok R out over ((c, pending) # stack) \<longleftrightarrow>
     (\<forall>b\<in>over \<union> set pending. (b, c) \<in> R) \<and> (\<forall>b. (b, c) \<in> R \<longrightarrow> b \<in> set pending \<union> out \<union> over)
     \<and> frames_ok R out {c} stack"

lemma frames_ok_mono: "frames_ok R out over stack \<Longrightarrow> out \<subseteq> out' \<Longrightarrow> frames_ok R out' over stack"
  by (induction R out over stack rule: frames_ok.induct) auto

lemma frames_ok_emit: "frames_ok R out {c} stack \<Longrightarrow> frames_ok R (insert c out) {} stack"
  by (cases stack) (auto elim: frames_ok_mono)

lemma frames_ok_walk: "frames_ok R out over stack \<Longrightarrow> backward_walk R (rev (map fst stack))"
proof (induction R out over stack rule: frames_ok.induct)
  case (2 R out over c pending stack)
  then show ?case
    using backward_walk_append [of R "rev (map fst stack)" c] by (cases stack) auto
qed simp

definition dfs_inv :: "predecessors \<Rightarrow> stack \<Rightarrow> item list \<Rightarrow> states \<Rightarrow> item list \<Rightarrow> bool" where
  "dfs_inv preds stack path states out \<longleftrightarrow>
     path = rev (map fst stack)
     \<and> distinct (map fst stack @ out)
     \<and> set (map fst stack @ out) \<subseteq> set (dict_keys preds)
     \<and> (\<forall>x. map_of states x = Some VISITING \<longleftrightarrow> x \<in> set (map fst stack))
     \<and> (\<forall>x. map_of states x = Some VISITED \<longleftrightarrow> x \<in> set out)
     \<and> frames_ok (runs_before preds) (set out) {} stack
     \<and> in_order (runs_before preds) out"

lemma dfs_inv_Nil [simp]: "dfs_inv preds [] [] [] []"
  by (simp add: dfs_inv_def)

lemma dfs_inv_emit:
  assumes "dfs_inv preds ((c, []) # stack) path states out"
  shows "dfs_inv preds stack (butlast path) (dict_set c VISITED states) (out @ [c])"
  using assms by (auto simp: dfs_inv_def in_order_snoc intro: frames_ok_emit)

lemma dfs_inv_skip:
  assumes "dfs_inv preds ((c, p # pending) # stack) path states out" "map_of states p = Some VISITED"
  shows "dfs_inv preds ((c, pending) # stack) path states out"
  using assms by (auto simp: dfs_inv_def)

lemma dfs_inv_push:
  assumes "dfs_inv preds ((c, p # pending) # stack) path states out"
    and "map_of states p = None" "map_of preds p = Some its"
  shows "dfs_inv preds ((p, its) # (c, pending) # stack) (path @ [p]) (dict_set p VISITING states) out"
proof -
  have "p \<notin> set (map fst ((c, p # pending) # stack))" "p \<notin> set out"
    using assms(1,2) unfolding dfs_inv_def by (metis option.distinct(1))+
  then show ?thesis
    using assms runs_before_lookup [OF assms(3)]
    by (auto simp: dfs_inv_def dest: map_of_SomeD intro: rev_image_eqI)
qed

lemma dfs_inv_cycle:
  assumes "dfs_inv preds ((c, p # pending) # stack) path states out" "map_of states p = Some VISITING"
  shows "is_cycle (runs_before preds) (dropWhile (\<lambda>x. x \<noteq> p) path @ [p])"
proof -
  from assms have path: "path = rev (map fst stack) @ [c]" and p: "p \<in> set path" "(p, c) \<in> runs_before preds"
    by (auto simp: dfs_inv_def)
  have walk: "backward_walk (runs_before preds) path"
    using assms frames_ok_walk [of "runs_before preds" "set out" "{}" "(c, p # pending) # stack"]
    by (simp add: dfs_inv_def)
  obtain us vs where "path = us @ p # vs" "p \<notin> set us"
    using p(1) by (metis split_list_first)
  then have drop: "dropWhile (\<lambda>x. x \<noteq> p) path = p # vs" "path = us @ p # vs"
    by (auto simp: dropWhile_append)
  then have "last (p # vs) = c" using path by (metis last_appendR last_snoc list.distinct(1))
  then have "backward_walk (runs_before preds) ((p # vs) @ [p])"
    using walk p(2) unfolding drop(2) backward_walk_append by (auto dest: backward_walk_suffix)
  then show ?thesis by (simp add: is_cycle_def drop(1))
qed

text \<open>
  The loop ends with everything on the stack emitted, after what runs before it and together with
  nothing else, or names a cycle; a lookup never fails.
\<close>

definition dfs_result ::
  "predecessors \<Rightarrow> item set \<Rightarrow> item list \<Rightarrow> order_error + (states \<times> item list) \<Rightarrow> bool" where
  "dfs_result preds roots out r \<longleftrightarrow>
     (case r of
        Inl e \<Rightarrow> (\<exists>c. e = CycleDetected c \<and> is_cycle (runs_before preds) c)
      | Inr (states', out') \<Rightarrow>
          dfs_inv preds [] [] states' out'
          \<and> (\<exists>ys. out' = out @ ys \<and> roots \<subseteq> set out'
                 \<and> (\<forall>y\<in>set ys. \<exists>x\<in>roots. (y, x) \<in> (runs_before preds)\<^sup>*)))"

lemma visit_loop_result:
  assumes "closed preds" "dfs_inv preds stack path states out"
  shows "dfs_result preds (set (map fst stack)) out (visit_loop preds stack path states out)"
  using assms
proof (induction preds stack path states out rule: visit_loop.induct)
  case (1 preds path states out)
  then show ?case by (auto simp: dfs_result_def dfs_inv_def)
next
  case (2 preds c stack path states out)
  from 2(1) [OF 2(2) dfs_inv_emit [OF 2(3)]] show ?case
    by (fastforce simp: dfs_result_def split: sum.splits)
next
  case (3 preds c p pending stack path states out)
  have pc: "(p, c) \<in> runs_before preds" using 3(4) by (simp add: dfs_inv_def)
  show ?case
  proof (cases "map_of states p")
    case None
    from pc 3(3) have "p \<in> set (dict_keys preds)" by (force simp: closed_def)
    then obtain its where its: "map_of preds p = Some its" by (metis dict_mem_iff not_None_eq)
    from 3(1) [OF None its 3(3) dfs_inv_push [OF 3(4) None its]] pc show ?thesis
      by (fastforce simp: dfs_result_def None its split: sum.splits intro: rtrancl_into_rtrancl)
  next
    case (Some v)
    then show ?thesis
    proof (cases v)
      case VISITED
      with Some 3(2) [OF _ _ 3(3) dfs_inv_skip [OF 3(4)]] show ?thesis by simp
    next
      case VISITING
      with Some dfs_inv_cycle [OF 3(4)] show ?thesis by (auto simp: dfs_result_def)
    qed
  qed
qed

lemma visit_result:
  assumes "closed preds" "dfs_inv preds [] [] states out" "item \<in> set (dict_keys preds)"
  shows "dfs_result preds {item} out (visit preds item (states, out))"
proof (cases "map_of states item = Some VISITED")
  case True
  with assms(2) show ?thesis by (auto simp: dfs_result_def visit_def dfs_inv_def)
next
  case False
  obtain its where its: "map_of preds item = Some its" using assms(3) by (metis dict_mem_iff not_None_eq)
  have "dfs_inv preds [(item, its)] [item] (dict_set item VISITING states) out"
    using assms(2,3) False runs_before_lookup [OF its] by (auto simp: dfs_inv_def)
  from visit_loop_result [OF assms(1) this] show ?thesis
    by (simp add: visit_def False its)
qed

section \<open>The relation the constraints say\<close>

fun edge :: "item \<Rightarrow> direction \<times> item \<Rightarrow> item \<times> item" where
  "edge item (Before, target) = (item, target)"
| "edge item (After, target) = (target, item)"

text \<open>The targets of an item that count: other items of the set.\<close>

definition edges_to :: "item set \<Rightarrow> item \<Rightarrow> (direction \<times> item) list \<Rightarrow> (item \<times> item) set" where
  "edges_to items item dts = edge item ` {dt \<in> set dts. snd dt \<in> items \<and> snd dt \<noteq> item}"

definition must_precede :: "item set \<Rightarrow> constraints \<Rightarrow> aliases \<Rightarrow> (item \<times> item) set" where
  "must_precede items constraints aliases =
     (\<Union>(item, c)\<in>set constraints. if item \<in> items then edges_to items item (targets_of aliases c) else {})"

lemma edges_to_simps [simp]:
  "edges_to items item [] = {}"
  "edges_to items item (dt # dts) =
     (if snd dt \<in> items \<and> snd dt \<noteq> item then {edge item dt} else {}) \<union> edges_to items item dts"
  by (auto simp: edges_to_def)

lemma must_precede_simps [simp]:
  "must_precede items [] aliases = {}"
  "must_precede items (ic # cs) aliases =
     (if fst ic \<in> items then edges_to items (fst ic) (targets_of aliases (snd ic)) else {})
     \<union> must_precede items cs aliases"
  by (simp_all add: must_precede_def split: prod.splits)

lemma must_precede_items: "must_precede items constraints aliases \<subseteq> {(b, a). b \<in> items \<and> a \<in> items \<and> b \<noteq> a}"
proof
  fix e assume "e \<in> must_precede items constraints aliases"
  then obtain item dt where "e = edge item dt" "item \<in> items" "snd dt \<in> items" "snd dt \<noteq> item"
    by (auto simp: must_precede_def edges_to_def split: if_splits)
  then show "e \<in> {(b, a). b \<in> items \<and> a \<in> items \<and> b \<noteq> a}"
    by (cases "(item, dt)" rule: edge.cases) auto
qed

lemma add_predecessor_keys [simp]:
  "item \<in> set (dict_keys preds) \<Longrightarrow> dict_keys (add_predecessor item dt preds) = dict_keys preds"
  by (auto simp: add_predecessor_def update_keys split: prod.splits direction.splits)

lemma add_predecessor_edge:
  assumes "item \<in> set (dict_keys preds)"
  shows "runs_before (add_predecessor item dt preds) =
     runs_before preds \<union> (if snd dt \<in> set (dict_keys preds) \<and> snd dt \<noteq> item then {edge item dt} else {})"
  using assms by (cases "(item, dt)" rule: edge.cases) (auto simp: add_predecessor_def runs_before_def split: if_splits)

lemma add_predecessors:
  assumes "item \<in> set (dict_keys preds)"
  shows "dict_keys (fold (add_predecessor item) dts preds) = dict_keys preds
    \<and> runs_before (fold (add_predecessor item) dts preds)
        = runs_before preds \<union> edges_to (set (dict_keys preds)) item dts"
  using assms
proof (induction dts arbitrary: preds)
  case (Cons dt dts)
  then have keys: "dict_keys (add_predecessor item dt preds) = dict_keys preds" by simp
  from Cons.IH [of "add_predecessor item dt preds"] Cons.prems show ?case
    by (simp only: keys add_predecessor_edge fold_simps comp_def edges_to_simps Un_assoc simp_thms)
qed simp

lemma add_constraint_edges:
  "dict_keys (add_constraint aliases ic preds) = dict_keys preds
   \<and> runs_before (add_constraint aliases ic preds) = runs_before preds
       \<union> (if fst ic \<in> set (dict_keys preds) then edges_to (set (dict_keys preds)) (fst ic) (targets_of aliases (snd ic)) else {})"
  using add_predecessors [of "fst ic" preds "targets_of aliases (snd ic)"]
  by (simp add: add_constraint_def)

lemma add_constraints_edges:
  "dict_keys (fold (add_constraint aliases) cs preds) = dict_keys preds
   \<and> runs_before (fold (add_constraint aliases) cs preds)
       = runs_before preds \<union> must_precede (set (dict_keys preds)) cs aliases"
proof (induction cs arbitrary: preds)
  case (Cons ic cs)
  from Cons.IH [of "add_constraint aliases ic preds"] add_constraint_edges [of aliases ic preds] show ?case
    by (simp only: fold_simps comp_def must_precede_simps Un_assoc simp_thms)
qed simp

lemma seed_predecessors:
  "set (dict_keys (fold (\<lambda>item. dict_set item []) seed preds)) = set (dict_keys preds) \<union> set seed"
  "runs_before preds = {} \<Longrightarrow> runs_before (fold (\<lambda>item. dict_set item []) seed preds) = {}"
proof (induction seed arbitrary: preds)
  case (Cons item seed)
  { case 1 show ?case using Cons.IH(1) [of "dict_set item [] preds"] by (simp add: dom_update) }
  { case 2
    then have "runs_before (dict_set item [] preds) = {}" by (auto simp: runs_before_def)
    with Cons.IH(2) show ?case by simp }
qed simp_all

lemma runs_before_predecessors_of:
  "set (dict_keys (predecessors_of seed constraints aliases)) = set seed"
  "runs_before (predecessors_of seed constraints aliases) = must_precede (set seed) constraints aliases"
proof -
  let ?start = "fold (\<lambda>item. dict_set item []) seed [] :: predecessors"
  have "runs_before ([] :: predecessors) = {}" by (simp add: runs_before_def dict_get_or_def)
  then have start: "set (dict_keys ?start) = set seed" "runs_before ?start = {}"
    using seed_predecessors(1) [of seed "[] :: predecessors"] seed_predecessors(2) [of "[] :: predecessors" seed] by simp_all
  show "set (dict_keys (predecessors_of seed constraints aliases)) = set seed"
    "runs_before (predecessors_of seed constraints aliases) = must_precede (set seed) constraints aliases"
    unfolding predecessors_of_def using add_constraints_edges [of aliases constraints ?start] start by simp_all
qed

lemma closed_predecessors_of: "closed (predecessors_of seed constraints aliases)"
  unfolding closed_def runs_before_predecessors_of using must_precede_items by force

section \<open>Sorting\<close>

lemma fold_visit_result:
  assumes "closed preds" "dfs_inv preds [] [] states out" "set seed \<subseteq> set (dict_keys preds)"
  shows "case fold_r (visit preds) seed (states, out) of
       Inl e \<Rightarrow> \<exists>c. e = CycleDetected c \<and> is_cycle (runs_before preds) c
     | Inr (states', out') \<Rightarrow> dfs_inv preds [] [] states' out' \<and> set out \<union> set seed \<subseteq> set out'"
  using assms(2,3)
proof (induction seed arbitrary: states out)
  case (Cons item seed)
  then have res: "dfs_result preds {item} out (visit preds item (states, out))"
    using assms(1) by (intro visit_result) auto
  show ?case
  proof (cases "visit preds item (states, out)")
    case (Inl e)
    with res show ?thesis by (simp add: dfs_result_def)
  next
    case (Inr p)
    obtain states' out' where p: "p = (states', out')" by fastforce
    with res Inr have "dfs_inv preds [] [] states' out'" "insert item (set out) \<subseteq> set out'"
      by (auto simp: dfs_result_def)
    with Cons.IH [of states' out'] Cons.prems show ?thesis
      by (auto simp: Inr p split: sum.splits prod.splits)
  qed
qed simp

lemma sort_items_spec:
  assumes "distinct seed"
  shows "case sort_items seed constraints aliases of
       Inl e \<Rightarrow> \<exists>c. e = CycleDetected c \<and> is_cycle (must_precede (set seed) constraints aliases) c
     | Inr xs \<Rightarrow> mset xs = mset seed \<and> in_order (must_precede (set seed) constraints aliases) xs"
proof (cases "constraints = []")
  case True
  have "in_order {} seed" by (simp add: in_order_def)
  with True show ?thesis by (simp add: sort_items_def must_precede_def)
next
  case False
  let ?preds = "predecessors_of seed constraints aliases"
  have *: "case fold_r (visit ?preds) seed ([], []) of
       Inl e \<Rightarrow> \<exists>c. e = CycleDetected c \<and> is_cycle (runs_before ?preds) c
     | Inr (states', out') \<Rightarrow> dfs_inv ?preds [] [] states' out' \<and> set [] \<union> set seed \<subseteq> set out'"
    by (rule fold_visit_result) (simp_all only: closed_predecessors_of dfs_inv_Nil runs_before_predecessors_of)
  show ?thesis
  proof (cases "fold_r (visit ?preds) seed ([], [])")
    case (Inl e)
    with * False show ?thesis by (simp add: sort_items_def runs_before_predecessors_of)
  next
    case (Inr p)
    obtain states out where p: "p = (states, out)" by fastforce
    from * have "dfs_inv ?preds [] [] states out" "set seed \<subseteq> set out" by (simp_all add: Inr p)
    then have "distinct out" "set out = set seed" "in_order (must_precede (set seed) constraints aliases) out"
      unfolding dfs_inv_def runs_before_predecessors_of by auto
    then show ?thesis
      using False assms by (simp add: sort_items_def Inr p set_eq_iff_mset_eq_distinct)
  qed
qed

lemma sort_items_acyclic:
  assumes "distinct seed" "acyclic (must_precede (set seed) constraints aliases)"
  obtains xs where "sort_items seed constraints aliases = Inr xs" "mset xs = mset seed"
    "in_order (must_precede (set seed) constraints aliases) xs"
  using sort_items_spec [OF assms(1), of constraints aliases] assms(2)
  by (auto dest: is_cycle_not_acyclic split: sum.splits)

text \<open>What is already in order stays as it is.\<close>

lemma in_order_trancl:
  assumes "in_order R xs" "xs = ys @ x # zs" "(b, x) \<in> R\<^sup>+"
  shows "b \<in> set ys"
  using assms(3,2)
proof (induction arbitrary: ys zs rule: converse_trancl_induct)
  case (base y)
  with assms(1) show ?case unfolding in_order_def by blast
next
  case (step y z)
  then have "z \<in> set ys" by blast
  then obtain us vs where "ys = us @ z # vs" by (auto dest: split_list)
  with step.prems have "xs = us @ z # (vs @ x # zs)" by simp
  with assms(1) step.hyps(1) have "y \<in> set us" unfolding in_order_def by blast
  with \<open>ys = us @ z # vs\<close> show ?case by simp
qed

lemma visit_in_order:
  assumes "closed preds" "acyclic (runs_before preds)" "dfs_inv preds [] [] states out"
    and "in_order (runs_before preds) (out @ item # rest)" "distinct (out @ item # rest)" "item \<in> set (dict_keys preds)"
  shows "\<exists>states'. visit preds item (states, out) = Inr (states', out @ [item]) \<and> dfs_inv preds [] [] states' (out @ [item])"
proof -
  have res: "dfs_result preds {item} out (visit preds item (states, out))"
    using assms by (intro visit_result)
  then obtain states' ys where v: "visit preds item (states, out) = Inr (states', out @ ys)"
    and inv: "dfs_inv preds [] [] states' (out @ ys)" and item: "item \<in> set (out @ ys)"
    and ys: "\<forall>y\<in>set ys. (y, item) \<in> (runs_before preds)\<^sup>*"
    using assms(2) by (auto simp: dfs_result_def dest: is_cycle_not_acyclic split: sum.splits)
  have "set ys \<subseteq> {item}"
  proof
    fix y assume y: "y \<in> set ys"
    then have "y \<notin> set out" using inv by (auto simp: dfs_inv_def)
    then show "y \<in> {item}"
      using ys y in_order_trancl [OF assms(4) refl, of y] by (auto dest: rtranclD)
  qed
  moreover have "distinct ys" "item \<in> set ys" using inv item assms(5) by (auto simp: dfs_inv_def)
  ultimately have "ys = [item]"
    by (cases ys; cases "tl ys") auto
  with v inv show ?thesis by simp
qed

lemma fold_visit_in_order:
  assumes "closed preds" "acyclic (runs_before preds)" "dfs_inv preds [] [] states out"
    and "in_order (runs_before preds) (out @ seed)" "distinct (out @ seed)" "set seed \<subseteq> set (dict_keys preds)"
  shows "\<exists>states'. fold_r (visit preds) seed (states, out) = Inr (states', out @ seed)"
  using assms(3-)
proof (induction seed arbitrary: states out)
  case (Cons item seed)
  then have "\<exists>states'. visit preds item (states, out) = Inr (states', out @ [item])
      \<and> dfs_inv preds [] [] states' (out @ [item])"
    using assms(1,2) by (intro visit_in_order [where rest = seed]) auto
  then obtain states' where "visit preds item (states, out) = Inr (states', out @ [item])"
    "dfs_inv preds [] [] states' (out @ [item])" by blast
  with Cons.IH [of states' "out @ [item]"] Cons.prems show ?case by simp
qed simp

lemma sort_items_keeps_order:
  assumes "distinct seed" "in_order (must_precede (set seed) constraints aliases) seed"
  shows "sort_items seed constraints aliases = Inr seed"
proof (cases "constraints = []")
  case False
  let ?preds = "predecessors_of seed constraints aliases"
  have "acyclic (must_precede (set seed) constraints aliases)"
    using assms must_precede_items by (intro in_order_acyclic) force+
  then have "\<exists>states'. fold_r (visit ?preds) seed ([], []) = Inr (states', [] @ seed)"
    using assms by (intro fold_visit_in_order)
      (simp_all only: closed_predecessors_of dfs_inv_Nil runs_before_predecessors_of append_Nil subset_refl)
  with False show ?thesis by (auto simp: sort_items_def)
qed (simp add: sort_items_def)

section \<open>Buckets\<close>

text \<open>
  With priorities that agree with the constraints, sorting a list in order of priority moves items
  only among those of the same priority.
\<close>

definition agrees :: "('a \<times> 'a) set \<Rightarrow> ('a \<Rightarrow> int) \<Rightarrow> bool" where
  "agrees R r \<longleftrightarrow> (\<forall>(b, a)\<in>R. r a \<le> r b)"

abbreviation descending :: "('a \<Rightarrow> int) \<Rightarrow> 'a list \<Rightarrow> bool" where
  "descending r \<equiv> sorted_wrt (\<lambda>x y. r y \<le> r x)"

lemma agrees_rtrancl: "(b, a) \<in> R\<^sup>* \<Longrightarrow> agrees R r \<Longrightarrow> r a \<le> r b"
  by (induction rule: rtrancl_induct) (force simp: agrees_def)+

lemma fold_visit_descending:
  assumes "closed preds" "agrees (runs_before preds) r"
    and "dfs_inv preds [] [] states out" "fold_r (visit preds) seed (states, out) = Inr (states', out')"
    and "descending r out" "descending r seed" "\<forall>x\<in>set out. \<forall>y\<in>set seed. r y \<le> r x"
    and "set (dict_keys preds) \<subseteq> set out \<union> set seed" "set seed \<subseteq> set (dict_keys preds)"
  shows "descending r out'"
  using assms(3-)
proof (induction seed arbitrary: states out)
  case (Cons item seed)
  have res: "dfs_result preds {item} out (visit preds item (states, out))"
    using assms(1) Cons.prems by (intro visit_result) auto
  with Cons.prems(2) obtain states1 ys where v: "visit preds item (states, out) = Inr (states1, out @ ys)"
    and rest: "fold_r (visit preds) seed (states1, out @ ys) = Inr (states', out')"
    and inv: "dfs_inv preds [] [] states1 (out @ ys)" and item: "item \<in> set (out @ ys)"
    and ys: "\<forall>y\<in>set ys. (y, item) \<in> (runs_before preds)\<^sup>*"
    by (auto simp: dfs_result_def split: sum.splits)
  have eq: "r y = r item" if y: "y \<in> set ys" for y
  proof (rule antisym)
    show "r item \<le> r y" using agrees_rtrancl [OF _ assms(2)] ys y by blast
    have "y \<in> set (dict_keys preds)" "y \<notin> set out" using inv y by (auto simp: dfs_inv_def)
    with Cons.prems(6) have "y \<in> set (item # seed)" by blast
    with Cons.prems(4) show "r y \<le> r item" by auto
  qed
  show ?case
  proof (rule Cons.IH [OF inv rest])
    show "descending r (out @ ys)"
      using Cons.prems(3,5) eq by (auto simp: sorted_wrt_append intro: sorted_wrt_mono_rel [of _ "\<lambda>x y. True"])
    show "\<forall>x\<in>set (out @ ys). \<forall>y\<in>set seed. r y \<le> r x"
      using Cons.prems(4,5) eq by auto
    show "set (dict_keys preds) \<subseteq> set (out @ ys) \<union> set seed"
      using Cons.prems(6) item by auto
  qed (use Cons.prems in auto)
qed simp

lemma sort_items_descending:
  assumes "sort_items seed constraints aliases = Inr xs" "descending r seed"
    and "agrees (must_precede (set seed) constraints aliases) r"
  shows "descending r xs"
proof (cases "constraints = []")
  case False
  let ?preds = "predecessors_of seed constraints aliases"
  obtain states where f: "fold_r (visit ?preds) seed ([], []) = Inr (states, xs)"
    using assms(1) False by (auto simp: sort_items_def split: sum.splits)
  show ?thesis
    by (rule fold_visit_descending [OF _ _ _ f])
      (use assms(2,3) in \<open>simp_all only: closed_predecessors_of dfs_inv_Nil runs_before_predecessors_of\<close>, simp_all)
qed (use assms in \<open>simp add: sort_items_def\<close>)

lemma check_order_iff: "check_order r xs = Inr () \<longleftrightarrow> descending r xs"
  by (induction r xs rule: check_order.induct) (auto intro: order_trans)

lemma seed_by_priority_mset [simp]: "mset (seed_by_priority p items) = mset items"
  by (simp add: seed_by_priority_def)

lemma seed_by_priority_set [simp]: "set (seed_by_priority p items) = set items"
  by (simp add: seed_by_priority_def)

lemma seed_by_priority_distinct [simp]: "distinct (seed_by_priority p items) = distinct items"
  by (simp add: seed_by_priority_def)

lemma seed_by_priority_descending: "descending p (seed_by_priority p items)"
  using sorted_sort_key [of "\<lambda>x. - p x" items] by (simp add: seed_by_priority_def sorted_map)

section \<open>The property\<close>

text \<open>
  C38: sorting by constraints is total and exact. It fails only by naming a cycle of the constraints, and
  succeeds exactly when there is none; what it returns is a permutation of the items in which every item
  comes after all those that must precede it, and a list that is already in order is returned as it is.
\<close>

theorem sort_items_correct:
  assumes "distinct seed"
  shows "case sort_items seed constraints aliases of
       Inl e \<Rightarrow> \<not> acyclic (must_precede (set seed) constraints aliases)
         \<and> (\<exists>c. e = CycleDetected c \<and> is_cycle (must_precede (set seed) constraints aliases) c)
     | Inr xs \<Rightarrow> acyclic (must_precede (set seed) constraints aliases)
         \<and> mset xs = mset seed \<and> in_order (must_precede (set seed) constraints aliases) xs
         \<and> (in_order (must_precede (set seed) constraints aliases) seed \<longrightarrow> xs = seed)"
proof (cases "sort_items seed constraints aliases")
  case (Inl e)
  with sort_items_spec [OF assms, of constraints aliases] show ?thesis
    by (auto dest: is_cycle_not_acyclic)
next
  case (Inr xs)
  let ?R = "must_precede (set seed) constraints aliases"
  from Inr sort_items_spec [OF assms, of constraints aliases] have xs: "mset xs = mset seed" "in_order ?R xs" by simp_all
  then have "distinct xs" "set xs = set seed" using assms by (metis mset_eq_imp_distinct_iff, metis set_mset_mset)
  moreover have "snd ` ?R \<subseteq> set seed" using must_precede_items [of "set seed" constraints aliases] by fastforce
  ultimately have "acyclic ?R" using xs(2) by (intro in_order_acyclic [of ?R xs]) simp_all
  with Inr xs sort_items_keeps_order [OF assms, of constraints aliases] show ?thesis by auto
qed

definition example_constraints :: constraints where
  "example_constraints = [(''router'', [''firewall''], []), (''profiler'', [], [''router''])]"

lemma example_sort: "sort_items [''firewall'', ''profiler'', ''router''] example_constraints [] = Inr [''router'', ''firewall'', ''profiler'']"
  by code_simp

theorem sort_items_correct_witness:
  "distinct [''firewall'', ''profiler'', ''router'']
   \<and> acyclic (must_precede {''firewall'', ''profiler'', ''router''} example_constraints [])
   \<and> in_order (must_precede {''firewall'', ''profiler'', ''router''} example_constraints []) [''router'', ''firewall'', ''profiler'']"
  using sort_items_correct [of "[''firewall'', ''profiler'', ''router'']" example_constraints "[]"] by (simp add: example_sort)

end
