(* ===== verification/Order_Priorities.thy ===== *)
theory Order_Priorities
  imports Order_Search
begin

text \<open>
  What \<open>sort_with_priorities\<close> of xtr-dependency-injection promises: it succeeds exactly when the
  constraints have no cycle and the declared priorities can be completed to ones that agree with every
  constraint; it then completes them with the priorities nearest to zero. The refusal of an order that
  contradicts the resolved priorities is never reached.
\<close>

section \<open>Completions of the declared priorities\<close>

definition completes :: "priorities \<Rightarrow> (item \<Rightarrow> int) \<Rightarrow> bool" where
  "completes priorities r \<longleftrightarrow> (\<forall>x p. declared priorities x = Some p \<longrightarrow> r x = p)"

definition contradicted :: "priorities \<Rightarrow> (item \<times> item) set \<Rightarrow> bool" where
  "contradicted priorities R \<longleftrightarrow>
     (\<exists>b a p q. (b, a) \<in> R \<and> declared priorities b = Some p \<and> declared priorities a = Some q \<and> p < q)"

lemma contradicted_no_completion: "contradicted priorities R \<Longrightarrow> completes priorities r \<Longrightarrow> \<not> agrees R r"
  by (fastforce simp: contradicted_def completes_def agrees_def)

lemma contradicted_Un [simp]:
  "contradicted priorities (R \<union> S) \<longleftrightarrow> contradicted priorities R \<or> contradicted priorities S"
  "\<not> contradicted priorities {}"
  by (unfold contradicted_def) blast+

definition in_range :: "int \<Rightarrow> bool" where
  "in_range p \<longleftrightarrow> INT64_MIN \<le> p \<and> p \<le> INT64_MAX"

definition priorities_in_range :: "priorities \<Rightarrow> bool" where
  "priorities_in_range priorities \<longleftrightarrow> (\<forall>(item, p)\<in>set priorities. \<forall>q. p = Some q \<longrightarrow> in_range q)"

lemma declared_in_range: "priorities_in_range priorities \<Longrightarrow> declared priorities x = Some p \<Longrightarrow> in_range p"
  by (auto simp: declared_def priorities_in_range_def split: option.splits dest!: map_of_SomeD)

text \<open>A completion can be cut to 64 bits.\<close>

definition clamp :: "int \<Rightarrow> int" where
  "clamp p = min INT64_MAX (max INT64_MIN p)"

lemma clamp_in_range: "in_range (clamp p)"
  by (simp add: in_range_def clamp_def INT64_MIN_def INT64_MAX_def)

lemma clamp_id: "in_range p \<Longrightarrow> clamp p = p"
  by (simp add: in_range_def clamp_def)

lemma clamp_mono: "p \<le> q \<Longrightarrow> clamp p \<le> clamp q"
  by (simp add: clamp_def min_def max_def)

lemma clamp_abs: "\<bar>clamp p\<bar> \<le> \<bar>p\<bar>"
  by (simp add: clamp_def min_def max_def INT64_MIN_def INT64_MAX_def)

lemma completes_clamp:
  "priorities_in_range priorities \<Longrightarrow> completes priorities r \<Longrightarrow> completes priorities (\<lambda>x. clamp (r x))"
  by (auto simp: completes_def clamp_id dest: declared_in_range)

lemma agrees_clamp: "agrees R r \<Longrightarrow> agrees R (\<lambda>x. clamp (r x))"
  by (auto simp: agrees_def clamp_mono)

section \<open>Reading the edges\<close>

lemma read_edge_result:
  "case read_edge priorities item dt es of
     Inl e \<Rightarrow> (\<exists>p q. e = Contradiction item p (fst dt) (snd dt) q)
        \<and> contradicted priorities (edges_to (set (dict_keys priorities)) item [dt])
   | Inr es' \<Rightarrow> set es' = set es \<union> edges_to (set (dict_keys priorities)) item [dt]
        \<and> \<not> contradicted priorities (edges_to (set (dict_keys priorities)) item [dt])"
  by (cases "(item, dt)" rule: edge.cases)
     (auto simp: read_edge_def contradicted_def Let_def split: option.splits)

definition read_result :: "priorities \<Rightarrow> (item \<times> item) list \<Rightarrow> (item \<times> item) set \<Rightarrow> order_error + (item \<times> item) list \<Rightarrow> bool" where
  "read_result priorities es R r \<longleftrightarrow>
     (case r of
        Inl e \<Rightarrow> (\<exists>item p d t q. e = Contradiction item p d t q) \<and> contradicted priorities R
      | Inr es' \<Rightarrow> set es' = set es \<union> R \<and> \<not> contradicted priorities R)"

lemma read_edges_to:
  "read_result priorities es (edges_to (set (dict_keys priorities)) item dts) (fold_r (read_edge priorities item) dts es)"
proof (induction dts arbitrary: es)
  case Nil
  then show ?case by (simp add: read_result_def)
next
  case (Cons dt dts)
  let ?K = "set (dict_keys priorities)"
  have split: "edges_to ?K item (dt # dts) = edges_to ?K item [dt] \<union> edges_to ?K item dts" by simp
  show ?case
    unfolding split using read_edge_result [where priorities = priorities and item = item and dt = dt and es = es]
    by (cases "read_edge priorities item dt es")
      (use Cons.IH in \<open>fastforce simp del: edges_to_simps simp: read_result_def split: sum.splits\<close>)+
qed

lemma read_constraints:
  "read_result priorities es (must_precede (set (dict_keys priorities)) cs aliases)
     (fold_r (read_constraint priorities aliases) cs es)"
proof (induction cs arbitrary: es)
  case Nil
  then show ?case by (simp add: read_result_def)
next
  case (Cons ic cs)
  let ?K = "set (dict_keys priorities)"
  let ?R = "if fst ic \<in> ?K then edges_to ?K (fst ic) (targets_of aliases (snd ic)) else {}"
  have "read_result priorities es ?R (read_constraint priorities aliases ic es)"
    using read_edges_to [of priorities es "fst ic" "targets_of aliases (snd ic)"]
    by (cases "fst ic \<in> ?K") (simp_all del: set_map add: read_constraint_def, simp add: read_result_def)
  then show ?case
    by (cases "read_constraint priorities aliases ic es")
      (use Cons.IH in \<open>fastforce simp: read_result_def split: sum.splits if_splits\<close>)+
qed

section \<open>The bounds\<close>

definition free :: "priorities \<Rightarrow> item set" where
  "free priorities = {x. map_of priorities x = Some None}"

text \<open>
  The bounds of the free items: present for each of them, within 64 bits, and with a source once they
  differ from the initial ones.
\<close>

definition bounds_ok :: "priorities \<Rightarrow> bounds \<Rightarrow> bool" where
  "bounds_ok priorities b \<longleftrightarrow>
     dom (map_of (lows b)) = free priorities \<and> dom (map_of (highs b)) = free priorities
     \<and> (\<forall>x l. map_of (lows b) x = Some l \<longrightarrow> in_range l \<and> (l > INT64_MIN \<longrightarrow> map_of (lows_from b) x \<noteq> None))
     \<and> (\<forall>x h. map_of (highs b) x = Some h \<longrightarrow> in_range h \<and> (h < INT64_MAX \<longrightarrow> map_of (highs_from b) x \<noteq> None))"

text \<open>Every completion within 64 bits lies between the bounds.\<close>

definition bounded_by :: "bounds \<Rightarrow> (item \<Rightarrow> int) \<Rightarrow> bool" where
  "bounded_by b r \<longleftrightarrow>
     (\<forall>x l. map_of (lows b) x = Some l \<longrightarrow> l \<le> r x) \<and> (\<forall>x h. map_of (highs b) x = Some h \<longrightarrow> r x \<le> h)"

lemma free_items_set: "dict_ok priorities \<Longrightarrow> set (free_items priorities) = free priorities"
  by (force simp: free_items_def free_def dict_ok_def)

lemma map_of_const: "map_of (map (\<lambda>x. (x, c)) xs) x = (if x \<in> set xs then Some c else None)"
  by (induction xs) auto

lemma initial_bounds_ok: "dict_ok priorities \<Longrightarrow> bounds_ok priorities (initial_bounds priorities)"
  by (auto simp: bounds_ok_def initial_bounds_def map_of_const in_range_def INT64_MIN_def INT64_MAX_def
      simp flip: free_items_set split: if_splits)

lemma initial_bounds_bounded: "\<forall>x. in_range (r x) \<Longrightarrow> bounded_by (initial_bounds priorities) r"
  by (auto simp: bounded_by_def initial_bounds_def map_of_const in_range_def split: if_splits)

text \<open>What one edge tells of an end of it: its priority when it is declared, its bound otherwise.\<close>

lemma declared_free: "x \<in> free priorities \<longleftrightarrow> x \<in> set (dict_keys priorities) \<and> declared priorities x = None"
  unfolding dict_mem_iff by (auto simp: free_def declared_def split: option.splits)

lemma bounds_ok_raise_low:
  assumes "bounds_ok priorities b" "priorities_in_range priorities"
  shows "bounds_ok priorities (raise_low priorities e b)"
proof -
  obtain x y where e: "e = (x, y)" by fastforce
  define low where "low = (case declared priorities y of Some p \<Rightarrow> p | None \<Rightarrow> dict_get_or (lows b) y INT64_MIN)"
  have "in_range low"
    using assms declared_in_range [OF assms(2), of y]
    by (auto simp: low_def bounds_ok_def dict_get_or_def in_range_def INT64_MIN_def INT64_MAX_def split: option.splits)
  then show ?thesis
    using assms(1) by (auto simp: raise_low_def e bounds_ok_def Let_def simp flip: low_def split: option.splits)
qed

lemma bounds_ok_cut_high:
  assumes "bounds_ok priorities b" "priorities_in_range priorities"
  shows "bounds_ok priorities (cut_high priorities e b)"
proof -
  obtain x y where e: "e = (x, y)" by fastforce
  define high where "high = (case declared priorities x of Some p \<Rightarrow> p | None \<Rightarrow> dict_get_or (highs b) x INT64_MAX)"
  have "in_range high"
    using assms declared_in_range [OF assms(2), of x]
    by (auto simp: high_def bounds_ok_def dict_get_or_def in_range_def INT64_MIN_def INT64_MAX_def split: option.splits)
  then show ?thesis
    using assms(1) by (auto simp: cut_high_def e bounds_ok_def Let_def simp flip: high_def split: option.splits)
qed

lemma bounded_by_relax:
  assumes "bounded_by b r" "completes priorities r" "\<forall>x. in_range (r x)" "r (snd e) \<le> r (fst e)"
  shows "bounded_by (raise_low priorities e b) r" "bounded_by (cut_high priorities e b) r"
proof -
  obtain x y where e: "e = (x, y)" by fastforce
  have low: "(case declared priorities y of Some p \<Rightarrow> p | None \<Rightarrow> dict_get_or (lows b) y INT64_MIN) \<le> r y"
    using assms by (auto simp: bounded_by_def completes_def in_range_def dict_get_or_def split: option.splits)
  have high: "r x \<le> (case declared priorities x of Some p \<Rightarrow> p | None \<Rightarrow> dict_get_or (highs b) x INT64_MAX)"
    using assms by (auto simp: bounded_by_def completes_def in_range_def dict_get_or_def split: option.splits)
  have le: "r y \<le> r x" using assms(4) by (simp add: e)
  show "bounded_by (raise_low priorities e b) r"
    using assms(1) order_trans [OF low le] by (auto simp: raise_low_def e bounded_by_def Let_def split: option.splits)
  show "bounded_by (cut_high priorities e b) r"
    using assms(1) order_trans [OF le high] by (auto simp: cut_high_def e bounded_by_def Let_def split: option.splits)
qed

text \<open>What every edge keeps, a pass keeps, and so does the propagation.\<close>

lemma relax_pass_inv:
  assumes "P b" and "\<And>b e. e \<in> set edges \<Longrightarrow> P b \<Longrightarrow> P (relax priorities e b)"
    and "\<And>b v. P b \<Longrightarrow> P (b\<lparr>settled := v\<rparr>)"
  shows "P (relax_pass priorities edges b)"
proof -
  have "P (fold (relax priorities) es b)" if "set es \<subseteq> set edges" "P b" for es b
    using that assms(2) by (induction es arbitrary: b) auto
  then show ?thesis using assms(1,3) by (simp add: relax_pass_def)
qed

lemma settle_inv:
  assumes "P b" and "\<And>b. P b \<Longrightarrow> P (relax_pass priorities edges b)"
  shows "P (settle priorities edges b)"
  using assms
proof (induction priorities edges b rule: settle.induct)
  case (1 priorities edges b)
  then show ?case by (subst settle.simps) (simp add: Let_def)
qed

lemma settle_ok:
  assumes "bounds_ok priorities b" "priorities_in_range priorities"
  shows "bounds_ok priorities (settle priorities edges b)"
  using assms(1)
proof (rule settle_inv)
  show "bounds_ok priorities (relax_pass priorities edges b)" if "bounds_ok priorities b" for b
    using that
  proof (rule relax_pass_inv [where P = "bounds_ok priorities"])
    show "bounds_ok priorities (relax priorities e b)" if "bounds_ok priorities b" for b e
      unfolding relax_def using that assms(2) by (intro bounds_ok_raise_low bounds_ok_cut_high)
  qed (simp add: bounds_ok_def)
qed

lemma settle_bounded:
  assumes "bounded_by b r" "completes priorities r" "\<forall>x. in_range (r x)" "agrees (set edges) r"
  shows "bounded_by (settle priorities edges b) r"
  using assms(1)
proof (rule settle_inv)
  have le: "r (snd e) \<le> r (fst e)" if "e \<in> set edges" for e
    using that assms(4) by (auto simp: agrees_def)
  show "bounded_by (relax_pass priorities edges b) r" if "bounded_by b r" for b
    using that
  proof (rule relax_pass_inv [where P = "\<lambda>b. bounded_by b r"])
    show "bounded_by (relax priorities e b) r" if "e \<in> set edges" "bounded_by b r" for b e
      unfolding relax_def using that assms(2,3) le by (intro bounded_by_relax) auto
  qed (simp add: bounded_by_def)
qed

text \<open>Once settled, no edge moves a bound.\<close>

lemma fold_relax_settled:
  assumes "settled (fold (relax priorities) edges b)"
  shows "fold (relax priorities) edges b = b \<and> (\<forall>e\<in>set edges. relax priorities e b = b)"
  using assms
proof (induction edges arbitrary: b)
  case (Cons e edges)
  then have "settled (relax priorities e b)"
    using Cons.IH [of "relax priorities e b"] by (metis fold_simps(2))
  then have "relax priorities e b = b"
    using relax_settled_slack [of priorities e b] by auto
  with Cons show ?case by auto
qed simp

lemma relax_fixed:
  assumes "relax priorities e b = b"
  shows "raise_low priorities e b = b" "cut_high priorities e b = b"
proof -
  from assms relax_slack(1) [of priorities e b] relax_slack(2) [of priorities e "raise_low priorities e b"]
  show "raise_low priorities e b = b" by (fastforce simp: relax_def)
  with assms show "cut_high priorities e b = b" by (simp add: relax_def)
qed

lemma settle_fixed:
  "e \<in> set edges \<Longrightarrow> raise_low priorities e (settle priorities edges b) = settle priorities edges b
     \<and> cut_high priorities e (settle priorities edges b) = settle priorities edges b"
proof (induction priorities edges b rule: settle.induct)
  case (1 priorities edges b)
  show ?case
  proof (cases "settled (relax_pass priorities edges b)")
    case True
    then have "\<forall>e\<in>set edges. relax priorities e (relax_pass priorities edges b) = relax_pass priorities edges b"
      using fold_relax_settled [of priorities edges "b\<lparr>settled := True\<rparr>"] by (auto simp: relax_pass_def)
    then show ?thesis
      using True 1(2) by (subst (1 2 3 4) settle.simps) (auto simp: Let_def intro: relax_fixed)
  next
    case False
    from 1(1) [OF refl False 1(2)] show ?thesis
      using False by (subst (1 2 3 4) settle.simps) (simp add: Let_def)
  qed
qed

section \<open>The resolved priorities\<close>

definition low_of :: "bounds \<Rightarrow> item \<Rightarrow> int" where
  "low_of b x = dict_get_or (lows b) x INT64_MIN"

definition high_of :: "bounds \<Rightarrow> item \<Rightarrow> int" where
  "high_of b x = dict_get_or (highs b) x INT64_MAX"

definition resolution :: "priorities \<Rightarrow> bounds \<Rightarrow> item \<Rightarrow> int" where
  "resolution priorities b x =
     (case declared priorities x of Some p \<Rightarrow> p | None \<Rightarrow> min (high_of b x) (max (low_of b x) 0))"

lemma resolution_declared: "declared priorities x = None \<or> declared priorities x = Some (resolution priorities b x)"
  by (simp add: resolution_def split: option.splits)

definition satisfiable :: "priorities \<Rightarrow> bounds \<Rightarrow> bool" where
  "satisfiable priorities b \<longleftrightarrow> (\<forall>x\<in>free priorities. low_of b x \<le> high_of b x)"

lemma bounds_ok_lookup:
  assumes "bounds_ok priorities b" "x \<in> free priorities"
  shows "map_of (lows b) x = Some (low_of b x)" "map_of (highs b) x = Some (high_of b x)"
  using assms by (auto simp: bounds_ok_def low_of_def high_of_def dict_get_or_def split: option.splits)

lemma bounds_ok_sources:
  assumes "bounds_ok priorities b" "x \<in> free priorities" "low_of b x > high_of b x"
  shows "map_of (lows_from b) x \<noteq> None" "map_of (highs_from b) x \<noteq> None"
proof -
  note look = bounds_ok_lookup [OF assms(1,2)]
  with assms(1) have "in_range (low_of b x)" "in_range (high_of b x)" by (auto simp: bounds_ok_def)
  with assms(3) have "low_of b x > INT64_MIN" "high_of b x < INT64_MAX" by (auto simp: in_range_def)
  with look assms(1) show "map_of (lows_from b) x \<noteq> None" "map_of (highs_from b) x \<noteq> None"
    by (auto simp: bounds_ok_def)
qed

lemma resolve_all:
  assumes "bounds_ok priorities b" "dict_ok priorities" "set ps \<subseteq> set priorities" "distinct (map fst ps)"
  shows "case fold_r (resolve_one b) ps resolved of
       Inl e \<Rightarrow> (\<exists>x l lf h hf. e = Unsatisfiable x l lf h hf) \<and> \<not> satisfiable priorities b
     | Inr res \<Rightarrow> (\<forall>x\<in>set (map fst ps). map_of res x = Some (resolution priorities b x)
                      \<and> (x \<in> free priorities \<longrightarrow> low_of b x \<le> high_of b x))
                 \<and> (\<forall>x. x \<notin> set (map fst ps) \<longrightarrow> map_of res x = map_of resolved x)"
  using assms(3,4)
proof (induction ps arbitrary: resolved)
  case (Cons ip ps)
  obtain x p where ip: "ip = (x, p)" by fastforce
  with Cons.prems(1) assms(2) have p: "map_of priorities x = Some p"
    by (auto simp: dict_ok_def)
  have IH: "case fold_r (resolve_one b) ps resolved of
       Inl e \<Rightarrow> (\<exists>x l lf h hf. e = Unsatisfiable x l lf h hf) \<and> \<not> satisfiable priorities b
     | Inr res \<Rightarrow> (\<forall>x\<in>set (map fst ps). map_of res x = Some (resolution priorities b x)
                      \<and> (x \<in> free priorities \<longrightarrow> low_of b x \<le> high_of b x))
                 \<and> (\<forall>x. x \<notin> set (map fst ps) \<longrightarrow> map_of res x = map_of resolved x)" for resolved
    using Cons by auto
  have notin: "x \<notin> fst ` set ps" using Cons.prems(2) by (simp add: ip)
  show ?case
  proof (cases p)
    case (Some q)
    then have "resolution priorities b x = q" "x \<notin> free priorities"
      using p by (simp_all add: resolution_def declared_def free_def)
    moreover have one: "resolve_one b (x, p) resolved = Inr (dict_set x q resolved)"
      by (simp add: resolve_one_def Some)
    ultimately show ?thesis
      using IH [of "dict_set x q resolved"] notin by (auto simp: ip one split: sum.splits)
  next
    case None
    then have free: "x \<in> free priorities" and res: "resolution priorities b x = min (high_of b x) (max (low_of b x) 0)"
      using p by (simp_all add: resolution_def declared_def free_def)
    show ?thesis
    proof (cases "low_of b x > high_of b x")
      case True
      then have "\<not> satisfiable priorities b" using free by (force simp: satisfiable_def)
      with True bounds_ok_sources [OF assms(1) free] show ?thesis
        by (auto simp: ip None resolve_one_def bounds_ok_lookup [OF assms(1) free])
    next
      case False
      then have one: "resolve_one b (x, p) resolved = Inr (dict_set x (resolution priorities b x) resolved)"
        by (simp add: resolve_one_def None bounds_ok_lookup [OF assms(1) free] res)
      show ?thesis
        using False IH [of "dict_set x (resolution priorities b x) resolved"] notin
        by (auto simp: ip one split: sum.splits)
    qed
  qed
qed simp

text \<open>The resolved priorities complete the declared ones, agree with the edges, and are the nearest to zero.\<close>

lemma raise_low_fixed:
  assumes "bounds_ok priorities b" "raise_low priorities (x, y) b = b" "x \<in> free priorities"
  shows "(case declared priorities y of Some p \<Rightarrow> p | None \<Rightarrow> low_of b y) \<le> low_of b x"
proof (rule ccontr)
  assume "\<not> ?thesis"
  then have "settled (raise_low priorities (x, y) b) \<noteq> settled b \<or> map_of (lows (raise_low priorities (x, y) b)) x \<noteq> map_of (lows b) x"
    using bounds_ok_lookup(1) [OF assms(1,3)]
    by (auto simp: raise_low_def Let_def simp flip: low_of_def split: option.splits)
  with assms(2) show False by auto
qed

lemma cut_high_fixed:
  assumes "bounds_ok priorities b" "cut_high priorities (x, y) b = b" "y \<in> free priorities"
  shows "high_of b y \<le> (case declared priorities x of Some p \<Rightarrow> p | None \<Rightarrow> high_of b x)"
proof (rule ccontr)
  assume "\<not> ?thesis"
  then have "settled (cut_high priorities (x, y) b) \<noteq> settled b \<or> map_of (highs (cut_high priorities (x, y) b)) y \<noteq> map_of (highs b) y"
    using bounds_ok_lookup(2) [OF assms(1,3)]
    by (auto simp: cut_high_def Let_def simp flip: high_of_def split: option.splits)
  with assms(2) show False by auto
qed

lemma resolution_agrees:
  assumes "bounds_ok priorities b" "satisfiable priorities b" "\<not> contradicted priorities R"
    and "R \<subseteq> {(x, y). x \<in> set (dict_keys priorities) \<and> y \<in> set (dict_keys priorities) \<and> x \<noteq> y}"
    and fixed: "\<And>e. e \<in> R \<Longrightarrow> raise_low priorities e b = b \<and> cut_high priorities e b = b"
  shows "agrees R (resolution priorities b)"
  unfolding agrees_def
proof (clarify)
  fix x y assume R: "(x, y) \<in> R"
  then have keys: "x \<in> set (dict_keys priorities)" "y \<in> set (dict_keys priorities)" using assms(4) by blast+
  have x: "x \<in> free priorities \<longleftrightarrow> declared priorities x = None" and y: "y \<in> free priorities \<longleftrightarrow> declared priorities y = None"
    using keys by (simp_all only: declared_free simp_thms)
  have ordered: "low_of b z \<le> high_of b z" if "z \<in> free priorities" for z
    using assms(2) that by (simp add: satisfiable_def)
  show "resolution priorities b y \<le> resolution priorities b x"
  proof (cases "declared priorities x")
    case None
    then have xf: "x \<in> free priorities" using x by simp
    have low: "(case declared priorities y of Some p \<Rightarrow> p | None \<Rightarrow> low_of b y) \<le> low_of b x"
      using raise_low_fixed [OF assms(1)] fixed [OF R] xf by blast
    show ?thesis
    proof (cases "declared priorities y")
      case (Some q)
      with low None ordered [OF xf] show ?thesis by (simp add: resolution_def)
    next
      case yNone: None
      then have "high_of b y \<le> high_of b x"
        using cut_high_fixed [OF assms(1)] fixed [OF R] y None by fastforce
      with low None yNone show ?thesis by (auto simp: resolution_def)
    qed
  next
    case (Some p)
    show ?thesis
    proof (cases "declared priorities y")
      case None
      then have "high_of b y \<le> p"
        using cut_high_fixed [OF assms(1)] fixed [OF R] y Some by fastforce
      with None Some show ?thesis by (simp add: resolution_def)
    next
      case ySome: (Some q)
      with assms(3) R Some show ?thesis by (fastforce simp: resolution_def contradicted_def)
    qed
  qed
qed

lemma resolution_nearest:
  assumes "bounded_by b r" "completes priorities r"
    and "bounds_ok priorities b" "x \<in> set (dict_keys priorities)"
  shows "\<bar>resolution priorities b x\<bar> \<le> \<bar>r x\<bar>"
proof (cases "declared priorities x")
  case None
  then have "x \<in> free priorities" using assms(4) unfolding declared_free by blast
  then have "low_of b x \<le> r x" "r x \<le> high_of b x"
    using assms(1) bounds_ok_lookup [OF assms(3)] unfolding bounded_by_def by blast+
  then show ?thesis by (simp add: resolution_def None)
next
  case (Some p)
  with assms(2) show ?thesis by (simp add: resolution_def completes_def)
qed

section \<open>Sorting with priorities\<close>

text \<open>The bounds a call settles on, and the priorities it resolves with them.\<close>

definition final_bounds :: "priorities \<Rightarrow> (item \<times> item) list \<Rightarrow> bounds" where
  "final_bounds priorities edges = settle priorities edges (initial_bounds priorities)"

abbreviation keys_of :: "priorities \<Rightarrow> item set" where
  "keys_of priorities \<equiv> set (dict_keys priorities)"

lemma resolve_priorities:
  assumes "dict_ok priorities" "bounds_ok priorities b"
  shows "case fold_r (resolve_one b) priorities [] of
       Inl e \<Rightarrow> (\<exists>x l lf h hf. e = Unsatisfiable x l lf h hf) \<and> \<not> satisfiable priorities b
     | Inr res \<Rightarrow> satisfiable priorities b \<and> (\<forall>x\<in>keys_of priorities. dict_get_or res x 0 = resolution priorities b x)"
proof -
  have keys: "x \<in> keys_of priorities" if "x \<in> free priorities" for x
    using that unfolding declared_free by blast
  show ?thesis
    using resolve_all [OF assms(2,1) subset_refl, of "[]"] assms(1) keys
    by (auto simp: dict_ok_def satisfiable_def dict_get_or_def split: sum.splits)
qed

lemma satisfiable_completion:
  assumes "dict_ok priorities" "priorities_in_range priorities" "completes priorities r" "agrees (set edges) r"
  shows "bounded_by (final_bounds priorities edges) (\<lambda>x. clamp (r x))"
    "satisfiable priorities (final_bounds priorities edges)"
proof -
  let ?b = "final_bounds priorities edges"
  show bounded: "bounded_by ?b (\<lambda>x. clamp (r x))"
    unfolding final_bounds_def
    using assms by (intro settle_bounded initial_bounds_bounded completes_clamp agrees_clamp) (simp_all add: clamp_in_range)
  have "bounds_ok priorities ?b"
    unfolding final_bounds_def using assms by (intro settle_ok initial_bounds_ok)
  then show "satisfiable priorities ?b"
    unfolding satisfiable_def using bounded bounds_ok_lookup [of priorities ?b] by (fastforce simp: bounded_by_def)
qed

lemma agrees_cong:
  "R \<subseteq> {(x, y). x \<in> K \<and> y \<in> K \<and> x \<noteq> y} \<Longrightarrow> (\<forall>x\<in>K. r x = r' x) \<Longrightarrow> agrees R r \<longleftrightarrow> agrees R r'"
  unfolding agrees_def by (intro ball_cong refl) fastforce

lemma mset_distinct_set: "mset xs = mset ys \<Longrightarrow> set xs = set ys"
  by (metis set_mset_mset)

lemma place_result:
  fixes priorities constraints aliases edges
  defines "R \<equiv> must_precede (keys_of priorities) constraints aliases"
    and "b \<equiv> final_bounds priorities edges"
  assumes "dict_ok priorities" "priorities_in_range priorities" "set edges = R" "acyclic R" "\<not> contradicted priorities R"
  shows "case place priorities constraints aliases edges of
       Inl e \<Rightarrow> (\<exists>x l lf h hf. e = Unsatisfiable x l lf h hf) \<and> \<not> satisfiable priorities b
     | Inr xs \<Rightarrow> \<exists>items. xs = map (\<lambda>x. (x, resolution priorities b x)) items \<and> mset items = mset (dict_keys priorities)
          \<and> in_order R items \<and> descending (resolution priorities b) items \<and> agrees R (resolution priorities b)"
proof -
  have ok: "bounds_ok priorities b"
    unfolding b_def final_bounds_def using assms by (intro settle_ok initial_bounds_ok)
  note res = resolve_priorities [OF assms(3) ok]
  show ?thesis
  proof (cases "fold_r (resolve_one b) priorities []")
    case (Inl e)
    with res show ?thesis by (simp add: place_def b_def flip: final_bounds_def)
  next
    case (Inr resolved)
    define r where "r = (\<lambda>item. dict_get_or resolved item 0)"
    define seed where "seed = seed_by_priority r (dict_keys priorities)"
    have sat: "satisfiable priorities b" and eq: "\<forall>x\<in>keys_of priorities. r x = resolution priorities b x"
      using res Inr by (simp_all add: r_def)
    have items: "R \<subseteq> {(x, y). x \<in> keys_of priorities \<and> y \<in> keys_of priorities \<and> x \<noteq> y}"
      unfolding R_def by (rule must_precede_items)
    have agrees: "agrees R (resolution priorities b)"
    proof (rule resolution_agrees [OF ok sat assms(7) items])
      show "raise_low priorities e b = b \<and> cut_high priorities e b = b" if "e \<in> R" for e
        unfolding b_def final_bounds_def using that assms(5) by (intro settle_fixed) simp
    qed
    then have agrees_r: "agrees R r"
      using items eq agrees_cong [of R "keys_of priorities" r "resolution priorities b"] by blast
    have seed: "set seed = keys_of priorities" "distinct seed" "descending r seed"
      using assms(3) by (auto simp: seed_def dict_ok_def seed_by_priority_descending)
    obtain items where s: "sort_items seed constraints aliases = Inr items" "mset items = mset seed" "in_order R items"
      using sort_items_acyclic [of seed constraints aliases] seed assms(6) unfolding R_def by metis
    have desc: "descending r items"
      using sort_items_descending [OF s(1) seed(3)] agrees_r seed(1) by (simp add: R_def)
    have "set items = keys_of priorities" using s(2) seed(1) by (metis mset_distinct_set)
    then have items_eq: "\<forall>x\<in>set items. r x = resolution priorities b x" using eq by blast
    then have "descending (resolution priorities b) items"
      using desc by (auto elim!: sorted_wrt_mono_rel [rotated])
    moreover have "check_order r items = Inr ()" using desc by (simp add: check_order_iff)
    then have "place priorities constraints aliases edges = Inr (map (\<lambda>x. (x, resolution priorities b x)) items)"
      using s(1) Inr items_eq by (simp add: place_def b_def r_def seed_def Let_def flip: final_bounds_def)
    ultimately show ?thesis using s(2,3) agrees by (auto simp: seed_def)
  qed
qed

text \<open>
  The call by its stages: without constraints the declared priorities decide; a cycle or a contradiction
  ends it; otherwise the bounds place the items.
\<close>

lemma sort_with_priorities_stages:
  fixes priorities constraints aliases
  assumes "dict_ok priorities"
  defines "R \<equiv> must_precede (keys_of priorities) constraints aliases"
  obtains
      (plain) items where "constraints = []" "R = {}" "mset items = mset (dict_keys priorities)"
        "descending (declared_or_zero priorities) items"
        "sort_with_priorities priorities constraints aliases = Inr (map (\<lambda>x. (x, declared_or_zero priorities x)) items)"
    | (cycle) c where "sort_with_priorities priorities constraints aliases = Inl (CycleDetected c)" "is_cycle R c"
    | (contra) x p d y q where "sort_with_priorities priorities constraints aliases = Inl (Contradiction x p d y q)"
        "acyclic R" "contradicted priorities R"
    | (place) edges where "sort_with_priorities priorities constraints aliases = place priorities constraints aliases edges"
        "acyclic R" "\<not> contradicted priorities R" "set edges = R"
proof -
  define seed where "seed = seed_by_priority (declared_or_zero priorities) (dict_keys priorities)"
  have seed: "distinct seed" "set seed = keys_of priorities" "mset seed = mset (dict_keys priorities)"
    using assms(1) by (simp_all add: seed_def dict_ok_def)
  have desc: "descending (declared_or_zero priorities) seed" by (simp add: seed_def seed_by_priority_descending)
  note sort = sort_items_spec [OF seed(1), of constraints aliases, unfolded seed(2), folded R_def]
  note unfold = sort_with_priorities_def seed_def [symmetric]
  show thesis
  proof (cases "constraints = []")
    case True
    with seed desc show thesis by (intro plain) (simp_all add: R_def unfold)
  next
    case False
    show thesis
    proof (cases "sort_items seed constraints aliases")
      case (Inl e)
      with sort False show thesis by (auto simp: unfold intro: cycle)
    next
      case (Inr xs)
      with sort have xs: "mset xs = mset seed" "in_order R xs" by simp_all
      have "distinct xs" using xs(1) seed(1) by (metis mset_eq_imp_distinct_iff)
      moreover have "set xs = keys_of priorities" using xs(1) seed(2) by (metis mset_distinct_set)
      moreover have "snd ` R \<subseteq> keys_of priorities"
        unfolding R_def using must_precede_items [of "keys_of priorities" constraints aliases] by fastforce
      ultimately have "acyclic R"
        using xs(2) by (intro in_order_acyclic [of R xs]) simp_all
      moreover have "read_result priorities [] R (read_edges priorities constraints aliases)"
        unfolding R_def read_edges_def by (rule read_constraints)
      ultimately show thesis
        using False Inr contra place
        by (cases "read_edges priorities constraints aliases") (auto simp: unfold read_result_def)
    qed
  qed
qed

text \<open>What a successful call returns.\<close>

lemma sort_with_priorities_success:
  assumes "dict_ok priorities" "priorities_in_range priorities"
    and "sort_with_priorities priorities constraints aliases = Inr xs"
  shows "mset (map fst xs) = mset (dict_keys priorities)
    \<and> in_order (must_precede (keys_of priorities) constraints aliases) (map fst xs)
    \<and> (\<forall>(x, p)\<in>set xs. declared priorities x = None \<or> declared priorities x = Some p)
    \<and> sorted_wrt (\<ge>) (map snd xs)"
  using assms(1)
proof (cases rule: sort_with_priorities_stages [of priorities constraints aliases])
  case (plain items)
  with assms(3) show ?thesis
    by (auto simp: comp_def in_order_def sorted_wrt_map declared_or_zero_def split: option.splits)
next
  case (place edges)
  let ?r = "resolution priorities (final_bounds priorities edges)"
  from assms(3) place(1) place_result [OF assms(1,2) place(4,2,3)]
  obtain items where xs: "xs = map (\<lambda>x. (x, ?r x)) items" and items:
    "mset items = mset (dict_keys priorities)" "descending ?r items"
    "in_order (must_precede (keys_of priorities) constraints aliases) items"
    by (auto simp del: mset_map)
  have "map fst xs = items" "map snd xs = map ?r items" by (simp_all add: xs comp_def)
  moreover have "\<forall>(x, p)\<in>set xs. declared priorities x = None \<or> declared priorities x = Some p"
    using resolution_declared by (auto simp: xs)
  ultimately show ?thesis using items by (simp add: sorted_wrt_map)
qed (use assms(3) in auto)

text \<open>
  C15: sorting with priorities is total and exact. It names a cycle of the constraints when there is one;
  otherwise it refuses exactly when no completion of the declared priorities agrees with the constraints,
  with one of the two messages that say so; and what it returns is a permutation of the items, in the order
  the constraints ask for, with every declared priority kept and the priorities never rising. (An order
  that contradicts the resolved priorities, the last check of the function, does not occur, nor does a
  failing lookup.) The priorities are within 64 bits.
\<close>

theorem sort_with_priorities_correct:
  assumes "dict_ok priorities" "priorities_in_range priorities"
  shows "case sort_with_priorities priorities constraints aliases of
       Inl e \<Rightarrow>
         (\<exists>c. e = CycleDetected c \<and> is_cycle (must_precede (keys_of priorities) constraints aliases) c)
         \<or> ((\<exists>x p d y q. e = Contradiction x p d y q) \<or> (\<exists>x l y h z. e = Unsatisfiable x l y h z))
           \<and> acyclic (must_precede (keys_of priorities) constraints aliases)
           \<and> (\<nexists>r. completes priorities r \<and> agrees (must_precede (keys_of priorities) constraints aliases) r)
     | Inr xs \<Rightarrow>
         mset (map fst xs) = mset (dict_keys priorities)
         \<and> in_order (must_precede (keys_of priorities) constraints aliases) (map fst xs)
         \<and> (\<forall>(x, p)\<in>set xs. declared priorities x = None \<or> declared priorities x = Some p)
         \<and> sorted_wrt (\<ge>) (map snd xs)"
proof (cases "sort_with_priorities priorities constraints aliases")
  case (Inr xs)
  with sort_with_priorities_success [OF assms] show ?thesis by simp
next
  case (Inl e)
  from assms(1) show ?thesis
  proof (cases rule: sort_with_priorities_stages [of priorities constraints aliases])
    case (contra x p d y q)
    then show ?thesis by (auto dest: contradicted_no_completion)
  next
    case (place edges)
    from place(1) Inl have "place priorities constraints aliases edges = Inl e" by simp
    with Inl place_result [OF assms place(4,2,3)] place show ?thesis
      using satisfiable_completion(2) [OF assms] by auto
  qed (use Inl in auto)
qed

text \<open>
  an item without a declared priority gets one as near to zero as the constraints allow: no completion
  of the declared priorities that agrees with the constraints is nearer, at any item.
\<close>

theorem sort_with_priorities_nearest:
  assumes "dict_ok priorities" "priorities_in_range priorities"
    and "sort_with_priorities priorities constraints aliases = Inr xs" "(x, p) \<in> set xs"
    and "completes priorities r" "agrees (must_precede (keys_of priorities) constraints aliases) r"
  shows "\<bar>p\<bar> \<le> \<bar>r x\<bar>"
  using assms(1)
proof (cases rule: sort_with_priorities_stages [of priorities constraints aliases])
  case (plain items)
  with assms show ?thesis
    by (auto simp: declared_or_zero_def completes_def split: option.splits)
next
  case (place edges)
  have "bounded_by (final_bounds priorities edges) (\<lambda>x. clamp (r x))"
    using satisfiable_completion(1) [OF assms(1,2,5)] assms(6) place by simp
  moreover have "bounds_ok priorities (final_bounds priorities edges)"
    unfolding final_bounds_def using assms by (intro settle_ok initial_bounds_ok)
  moreover have "p = resolution priorities (final_bounds priorities edges) x" "x \<in> keys_of priorities"
    using place_result [OF assms(1,2) place(4,2,3)] assms(3,4) place(1)
    by (auto dest!: mset_distinct_set [of _ "dict_keys priorities"] simp del: mset_map)
  ultimately have "\<bar>p\<bar> \<le> \<bar>clamp (r x)\<bar>"
    using resolution_nearest [OF _ completes_clamp [OF assms(2,5)]] by blast
  then show ?thesis using clamp_abs [of "r x"] by linarith
qed (use assms(3) in auto)

section \<open>Examples\<close>

text \<open>A declared priority, an item that runs before it, and one that runs after that.\<close>

definition example_priorities :: priorities where
  "example_priorities = [(''firewall'', Some 8), (''router'', None), (''profiler'', None)]"

lemma example_with_priorities:
  "sort_with_priorities example_priorities example_constraints [] =
     Inr [(''router'', 8), (''firewall'', 8), (''profiler'', 0)]"
  by code_simp

lemma example_priorities_ok: "dict_ok example_priorities" "priorities_in_range example_priorities"
  by (simp_all add: example_priorities_def dict_ok_def priorities_in_range_def in_range_def INT64_MIN_def INT64_MAX_def)

theorem sort_with_priorities_correct_witness:
  "dict_ok example_priorities \<and> priorities_in_range example_priorities
   \<and> in_order (must_precede (keys_of example_priorities) example_constraints []) [''router'', ''firewall'', ''profiler'']
   \<and> sorted_wrt (\<ge>) [8, 8, 0 :: int]"
  using sort_with_priorities_correct [OF example_priorities_ok, of example_constraints "[]"]
  by (simp add: example_with_priorities example_priorities_ok)

text \<open>The router may not be nearer to zero than the firewall it precedes.\<close>

theorem sort_with_priorities_nearest_witness:
  "sort_with_priorities example_priorities example_constraints [] =
     Inr [(''router'', 8), (''firewall'', 8), (''profiler'', 0)] \<and> \<bar>8 :: int\<bar> \<le> \<bar>(\<lambda>x. if x = ''firewall'' then 8 else 9) ''router''\<bar>"
proof -
  let ?r = "\<lambda>x. if x = ''firewall'' then 8 else (9 :: int)"
  have "completes example_priorities ?r"
    by (auto simp: completes_def example_priorities_def declared_def split: if_splits)
  moreover have "agrees (must_precede (keys_of example_priorities) example_constraints []) ?r"
    by (simp add: agrees_def example_priorities_def example_constraints_def targets_of_def designated_def)
  ultimately show ?thesis
    using sort_with_priorities_nearest [OF example_priorities_ok example_with_priorities, of "''router''" 8 ?r] example_with_priorities
    by simp
qed

text \<open>
  A declared priority below 64 bits has no bound to compare with: an item free to follow it makes the
  lookup of where its lower bound came from fail, though an order exists.
\<close>

lemma priority_below_64_bits:
  "sort_with_priorities [(''last'', Some (- (2 ^ 64))), (''after_last'', None)] [(''after_last'', [], [''last''])] [] =
     Inl (KeyError ''after_last'')"
  by code_simp

end
