(* ===== verification/Event_Listeners.thy ===== *)
theory Event_Listeners
  imports Prelude
begin

text \<open>
  Listeners of xtr-event-dispatcher: what a listener is (\<open>listener.py\<close> of the contracts package),
  how many of the three arguments it is given (\<open>_listener_call.py\<close>), how it is named in an error
  (\<open>_naming.py\<close>), the name an event is dispatched under (\<open>event_name_of.py\<close>), the stop flag of an
  event (\<open>event.py\<close>) and listeners built on first use (\<open>lazy_listener.py\<close>).

  Objects are identities. A listener is a routine or a class (known by its qualified name), a
  bound method (its object and its name), a callable object, or a lazy listener; two bound methods
  of one object are equal, as Python's are. The reflection of a running program (the signature of
  a callable, the attributes of an object, the class of an object) and the code of the
  application (the body of a listener, a factory) are parameters.
\<close>

section \<open>Listeners and their signatures\<close>

type_synonym obj = nat
type_synonym lazy_id = nat

datatype listener =
    Routine string
  | Bound_method obj string
  | Callable_object obj
  | Lazy_listener lazy_id

datatype param_kind =
    POSITIONAL_ONLY
  | POSITIONAL_OR_KEYWORD
  | VAR_POSITIONAL
  | KEYWORD_ONLY
  | VAR_KEYWORD

record parameter =
  param_name :: string
  param_kind :: param_kind
  param_required :: bool

type_synonym signature = "parameter list"

datatype event_error =
    ListenerSignatureError string signature
  | BadMethodCallError string
  | InvalidSubscriberError string "string option" string
  | ArgumentNotFoundError string
  | AttributeError string
  | TypeError
  | Raised nat

record reflection =
  inspect_signature :: "listener \<Rightarrow> signature option"
  get_attribute :: "listener \<Rightarrow> string \<Rightarrow> listener option"
  class_of :: "obj \<Rightarrow> string"

definition CALL :: string where
  "CALL = ''__call__''"

fun listener_name :: "reflection \<Rightarrow> listener \<Rightarrow> string" where
  "listener_name py (Bound_method ob m) = class_of py ob @ ''.'' @ m"
| "listener_name py (Routine q) = q"
| "listener_name py (Callable_object ob) = class_of py ob @ ''.__call__''"
| "listener_name py (Lazy_listener i) = ''xtr_event_dispatcher.lazy_listener.LazyListener.__call__''"

text \<open>The event, the name it was dispatched under, and the dispatcher.\<close>

definition ARGUMENTS :: nat where
  "ARGUMENTS = 3"

text \<open>
  One round of the loop of \<open>signature_arity\<close>: the counters are the positional parameters, the
  required ones among them, and whether the listener is variadic.
\<close>

definition count_parameter ::
  "string \<Rightarrow> signature \<Rightarrow> parameter \<Rightarrow> nat \<times> nat \<times> bool \<Rightarrow> event_error + (nat \<times> nat \<times> bool)" where
  "count_parameter name sig p = (\<lambda>(positional, required, variadic).
     case param_kind p of
       POSITIONAL_ONLY \<Rightarrow> Inr (positional + 1, if param_required p then required + 1 else required, variadic)
     | POSITIONAL_OR_KEYWORD \<Rightarrow>
         Inr (positional + 1, if param_required p then required + 1 else required, variadic)
     | VAR_POSITIONAL \<Rightarrow> Inr (positional, required, True)
     | KEYWORD_ONLY \<Rightarrow> if param_required p then Inl (ListenerSignatureError name sig)
                       else Inr (positional, required, variadic)
     | VAR_KEYWORD \<Rightarrow> Inr (positional, required, variadic))"

definition signature_arity :: "signature \<Rightarrow> string \<Rightarrow> event_error + nat" where
  "signature_arity sig name =
     (case fold_r (count_parameter name sig) sig (0, 0, False) of
        Inl e \<Rightarrow> Inl e
      | Inr (positional, required, variadic) \<Rightarrow>
          if required > ARGUMENTS then Inl (ListenerSignatureError name sig)
          else Inr (if variadic then ARGUMENTS else min positional ARGUMENTS))"

text \<open>
  \<open>positional_arity\<close>: a callable without a signature is given every argument. The signature of a
  lazy listener is that of its own \<open>__call__(self, *arguments)\<close>.
\<close>

definition lazy_signature :: signature where
  "lazy_signature = [\<lparr>param_name = ''arguments'', param_kind = VAR_POSITIONAL, param_required = True\<rparr>]"

definition signature_of :: "reflection \<Rightarrow> listener \<Rightarrow> signature option" where
  "signature_of py l =
     (case l of Lazy_listener i \<Rightarrow> Some lazy_signature | _ \<Rightarrow> inspect_signature py l)"

definition positional_arity :: "reflection \<Rightarrow> listener \<Rightarrow> event_error + nat" where
  "positional_arity py l =
     (case signature_of py l of
        None \<Rightarrow> Inr ARGUMENTS
      | Some sig \<Rightarrow> signature_arity sig (listener_name py l))"

section \<open>Names of events\<close>

text \<open>
  A class is its module and qualified name; \<open>Not_a_class\<close> is any other object, which a caller that
  is not type checked may give.
\<close>

datatype event_ref =
    Event_name string
  | Event_class string string
  | Not_a_class

fun event_name_of :: "event_ref \<Rightarrow> event_error + string" where
  "event_name_of (Event_name n) = Inr n"
| "event_name_of (Event_class mod_name qualname) = Inr (mod_name @ ''.'' @ qualname)"
| "event_name_of Not_a_class = Inl TypeError"

text \<open>
  An event is an object of a class; it is stoppable when its class has the two methods of
  \<open>StoppableEventInterface\<close>.
\<close>

record event =
  event_obj :: obj
  event_type :: event_ref
  event_stoppable :: bool

section \<open>The world a listener runs in\<close>

text \<open>
  A lazy listener is a mutable object of its own, which several events and several dispatchers may
  hold: its state lives in a store. The stop flags of the events live there too, beside the
  state of the application. The extension slot of the record holds what the dispatchers keep.
\<close>

record lazy_listener =
  lazy_factory :: nat
  lazy_method :: string
  lazy_resolved :: "listener option"
  lazy_arity :: nat

type_synonym lazies = "lazy_id \<Rightarrow> lazy_listener"

definition LazyListener_init :: "nat \<Rightarrow> string \<Rightarrow> lazy_listener" where
  "LazyListener_init factory m =
     \<lparr>lazy_factory = factory, lazy_method = m, lazy_resolved = None, lazy_arity = 0\<rparr>"

record store =
  lazies :: lazies
  stopped :: "obj \<Rightarrow> bool"

definition is_propagation_stopped :: "event \<Rightarrow> 'x store_scheme \<Rightarrow> bool" where
  "is_propagation_stopped e w = stopped w (event_obj e)"

definition stop_propagation :: "event \<Rightarrow> 'x store_scheme \<Rightarrow> 'x store_scheme" where
  "stop_propagation e w = w\<lparr>stopped := (stopped w)(event_obj e := True)\<rparr>"

text \<open>\<open>resolved\<close> of the lazy listener \<open>i\<close>.\<close>

definition resolved_in :: "lazies \<Rightarrow> lazy_id \<Rightarrow> listener option" where
  "resolved_in h i = lazy_resolved (h i)"

text \<open>
  What \<open>resolve\<close> does once the factory has returned: bind the method, read the arity, keep both.
  An attribute that is missing, or a signature that does not fit, is raised and nothing is kept.
\<close>

definition bind_built :: "reflection \<Rightarrow> string \<Rightarrow> listener \<Rightarrow> event_error + (listener \<times> nat)" where
  "bind_built py m built =
     (case (if m = CALL then Some built else get_attribute py built m) of
        None \<Rightarrow> Inl (AttributeError m)
      | Some l \<Rightarrow> (case positional_arity py l of Inl e \<Rightarrow> Inl e | Inr n \<Rightarrow> Inr (l, n)))"

definition keep_resolved :: "lazy_id \<Rightarrow> listener \<Rightarrow> nat \<Rightarrow> 'x store_scheme \<Rightarrow> 'x store_scheme" where
  "keep_resolved i l n w =
     w\<lparr>lazies := (lazies w)(i := (lazies w i)\<lparr>lazy_resolved := Some l, lazy_arity := n\<rparr>)\<rparr>"

text \<open>
  \<open>resolve\<close>: awaiting the factory lets other code run, another build of this very listener
  included, so the result is read again afterwards and the first one is kept.
\<close>

definition resolve ::
  "reflection \<Rightarrow> (nat \<Rightarrow> ('x store_scheme, event_error, listener) prog) \<Rightarrow> lazy_id
     \<Rightarrow> ('x store_scheme, event_error, listener) prog" where
  "resolve py factory i = (\<lambda>w.
     case resolved_in (lazies w) i of
       Some l \<Rightarrow> (Inr l, w)
     | None \<Rightarrow>
         andthen (factory (lazy_factory (lazies w i))) (\<lambda>built w1.
           case resolved_in (lazies w1) i of
             Some l \<Rightarrow> (Inr l, w1)
           | None \<Rightarrow>
               (case bind_built py (lazy_method (lazies w1 i)) built of
                  Inl e \<Rightarrow> (Inl e, w1)
                | Inr (l, n) \<Rightarrow> (Inr l, keep_resolved i l n w1))) w)"

section \<open>Calling a listener\<close>

datatype argument =
    Arg_event event
  | Arg_name string
  | Arg_dispatcher nat

text \<open>
  Running a callable on its arguments, and awaiting what it returns, is the application's code
  (\<open>invoke\<close>).
\<close>

type_synonym 'w invocation = "listener \<Rightarrow> argument list \<Rightarrow> ('w, event_error, unit) prog"

definition call_listener :: "'w invocation \<Rightarrow> listener \<Rightarrow> nat \<Rightarrow> argument list \<Rightarrow> ('w, event_error, unit) prog" where
  "call_listener invoke l arity arguments = invoke l (take arity arguments)"

text \<open>\<open>LazyListener.__call__\<close>: build if needed, then call as a dispatcher would.\<close>

definition lazy_call ::
  "reflection \<Rightarrow> (nat \<Rightarrow> ('x store_scheme, event_error, listener) prog) \<Rightarrow> ('x store_scheme) invocation
     \<Rightarrow> lazy_id \<Rightarrow> argument list \<Rightarrow> ('x store_scheme, event_error, unit) prog" where
  "lazy_call py factory invoke i arguments =
     andthen (resolve py factory i) (\<lambda>l w. call_listener invoke l (lazy_arity (lazies w i)) arguments w)"

section \<open>Which object a listener belongs to\<close>

fun owner_of :: "listener \<Rightarrow> (obj \<times> string) option" where
  "owner_of (Bound_method ob m) = Some (ob, m)"
| "owner_of (Routine q) = None"
| "owner_of (Lazy_listener i) = None"
| "owner_of (Callable_object ob) = Some (ob, CALL)"

fun is_unbuilt :: "lazies \<Rightarrow> listener \<Rightarrow> bool" where
  "is_unbuilt h (Lazy_listener i) = (resolved_in h i = None)"
| "is_unbuilt h (Routine q) = False"
| "is_unbuilt h (Bound_method ob m) = False"
| "is_unbuilt h (Callable_object ob) = False"

text \<open>
  \<open>_same\<close>: a registered lazy listener is compared by what it built into, before a lazy
  \<open>listener\<close> argument is.
\<close>

definition same :: "lazies \<Rightarrow> listener \<Rightarrow> listener \<Rightarrow> bool" where
  "same h registered l =
     (if registered = l then True
      else case registered of
        Lazy_listener i \<Rightarrow> resolved_in h i = Some l
      | _ \<Rightarrow> (case l of
          Lazy_listener i \<Rightarrow> resolved_in h i = Some registered
        | _ \<Rightarrow> False))"

lemmas [event_defs] =
  resolve_def bind_built_def keep_resolved_def resolved_in_def same_def
  is_propagation_stopped_def stop_propagation_def

section \<open>The arguments a listener is given\<close>

text \<open>
  Python's own rule for a call with \<open>k\<close> positional arguments and no keyword: no keyword-only
  parameter is required, every required positional parameter is filled, and no argument is left
  over unless the callable is variadic.
\<close>

definition is_positional :: "parameter \<Rightarrow> bool" where
  "is_positional p \<longleftrightarrow> param_kind p \<in> {POSITIONAL_ONLY, POSITIONAL_OR_KEYWORD}"

definition accepts :: "signature \<Rightarrow> nat \<Rightarrow> bool" where
  "accepts sig k \<longleftrightarrow>
     list_all (\<lambda>p. \<not> (param_kind p = KEYWORD_ONLY \<and> param_required p)) sig
     \<and> length (filter (\<lambda>p. is_positional p \<and> param_required p) sig) \<le> k
     \<and> (list_ex (\<lambda>p. param_kind p = VAR_POSITIONAL) sig \<or> k \<le> length (filter is_positional sig))"

lemma is_positional_kind:
  "param_kind p = POSITIONAL_ONLY \<Longrightarrow> is_positional p"
  "param_kind p = POSITIONAL_OR_KEYWORD \<Longrightarrow> is_positional p"
  "param_kind p = VAR_POSITIONAL \<Longrightarrow> \<not> is_positional p"
  "param_kind p = KEYWORD_ONLY \<Longrightarrow> \<not> is_positional p"
  "param_kind p = VAR_KEYWORD \<Longrightarrow> \<not> is_positional p"
  by (simp_all add: is_positional_def)

lemma count_parameters:
  "fold_r (count_parameter name sig) ps (a, b, v) =
     (if list_all (\<lambda>p. \<not> (param_kind p = KEYWORD_ONLY \<and> param_required p)) ps
      then Inr (a + length (filter is_positional ps),
                b + length (filter (\<lambda>p. is_positional p \<and> param_required p) ps),
                v \<or> list_ex (\<lambda>p. param_kind p = VAR_POSITIONAL) ps)
      else Inl (ListenerSignatureError name sig))"
proof (induction ps arbitrary: a b v)
  case Nil
  then show ?case by simp
next
  case (Cons p ps)
  then show ?case
    by (cases "param_kind p") (simp_all add: count_parameter_def is_positional_kind)
qed

lemma required_among_positional:
  "length (filter (\<lambda>p. is_positional p \<and> param_required p) sig) \<le> length (filter is_positional sig)"
  by (induction sig) auto

lemma signature_arity_eq:
  "signature_arity sig name =
     (if accepts sig ARGUMENTS \<or> accepts sig (length (filter is_positional sig))
            \<and> length (filter is_positional sig) \<le> ARGUMENTS
      then Inr (if list_ex (\<lambda>p. param_kind p = VAR_POSITIONAL) sig then ARGUMENTS
                else min (length (filter is_positional sig)) ARGUMENTS)
      else Inl (ListenerSignatureError name sig))"
  using required_among_positional [of sig]
  by (auto simp: signature_arity_def count_parameters accepts_def)

text \<open>
  A listener is given as many of the event, its name and the dispatcher as it can take: the
  arity read from its signature is the largest number up to three of positional arguments Python
  accepts for it, and the signature is refused exactly when no such call is possible.
\<close>

theorem arity_is_largest_accepted:
  "(case signature_arity sig name of
      Inr n \<Rightarrow> n = Max {k. k \<le> ARGUMENTS \<and> accepts sig k} \<and> accepts sig n \<and> n \<le> ARGUMENTS
    | Inl e \<Rightarrow> e = ListenerSignatureError name sig \<and> {k. k \<le> ARGUMENTS \<and> accepts sig k} = {})"
proof -
  let ?pos = "length (filter is_positional sig)"
  let ?K = "{k. k \<le> ARGUMENTS \<and> accepts sig k}"
  have max: "n = Max ?K \<and> accepts sig n \<and> n \<le> ARGUMENTS"
    if "accepts sig n" "n \<le> ARGUMENTS" "\<And>k. k \<le> ARGUMENTS \<Longrightarrow> accepts sig k \<Longrightarrow> k \<le> n" for n
    using that by (intro conjI sym [OF Max_eqI]) auto
  show ?thesis
  proof (cases "accepts sig ARGUMENTS \<or> accepts sig ?pos \<and> ?pos \<le> ARGUMENTS")
    case True
    define n where "n = (if list_ex (\<lambda>p. param_kind p = VAR_POSITIONAL) sig then ARGUMENTS
                         else min ?pos ARGUMENTS)"
    have "signature_arity sig name = Inr n"
      using True by (simp only: signature_arity_eq if_True n_def)
    moreover have "accepts sig n"
      using True required_among_positional [of sig] by (auto simp: accepts_def n_def)
    moreover have "n \<le> ARGUMENTS" by (simp add: n_def)
    moreover have "k \<le> n" if "k \<le> ARGUMENTS" "accepts sig k" for k
      using that by (auto simp: accepts_def n_def)
    ultimately show ?thesis
      using max [of n] by simp
  next
    case False
    then have "signature_arity sig name = Inl (ListenerSignatureError name sig)"
      by (simp only: signature_arity_eq if_False)
    moreover have "?K = {}"
      using False required_among_positional [of sig] by (auto simp: accepts_def)
    ultimately show ?thesis by simp
  qed
qed

lemma positional_arity_le: "positional_arity py l = Inr n \<Longrightarrow> n \<le> ARGUMENTS"
  by (auto simp: positional_arity_def signature_arity_eq split: option.splits if_splits)

section \<open>Lazy listeners keep what they first built\<close>

text \<open>
  A store in which no lazy listener is forgotten: what was resolved stays resolved, to the same
  listener, and the factory and the method never change.
\<close>

definition lazies_grow :: "lazies \<Rightarrow> lazies \<Rightarrow> bool" where
  "lazies_grow h h' \<longleftrightarrow>
     (\<forall>i. (\<forall>l. resolved_in h i = Some l \<longrightarrow> resolved_in h' i = Some l)
          \<and> lazy_factory (h' i) = lazy_factory (h i) \<and> lazy_method (h' i) = lazy_method (h i))"

lemma lazies_grow_refl [simp, intro]: "lazies_grow h h"
  by (simp add: lazies_grow_def)

lemma lazies_grow_trans [trans]: "lazies_grow h1 h2 \<Longrightarrow> lazies_grow h2 h3 \<Longrightarrow> lazies_grow h1 h3"
  by (simp add: lazies_grow_def)

lemma lazies_grow_unbuilt: "lazies_grow h h' \<Longrightarrow> is_unbuilt h' l \<Longrightarrow> is_unbuilt h l"
  by (cases l) (auto simp: lazies_grow_def, metis not_None_eq)

lemma lazies_grow_keep:
  "resolved_in (lazies w) i = None \<Longrightarrow> lazies_grow (lazies w) (lazies (keep_resolved i l n w))"
  by (auto simp: lazies_grow_def keep_resolved_def resolved_in_def)

lemma resolve_grows:
  assumes "resolve py factory i w = (r, w')"
    and fact: "\<And>f r v v'. factory f v = (r, v') \<Longrightarrow> lazies_grow (lazies v) (lazies v')"
  shows "lazies_grow (lazies w) (lazies w')"
    and "\<And>l. r = Inr l \<Longrightarrow> resolved_in (lazies w') i = Some l"
proof -
  obtain r1 w1 where f: "factory (lazy_factory (lazies w i)) w = (r1, w1)"
    by fastforce
  note g = fact [OF f]
  show "lazies_grow (lazies w) (lazies w')"
    using assms(1) g f
    by (auto simp: resolve_def andthen_def lazies_grow_keep intro: lazies_grow_trans
             split: option.splits sum.splits prod.splits)
  show "resolved_in (lazies w') i = Some l" if "r = Inr l" for l
    using assms(1) f that
    by (auto simp: resolve_def andthen_def keep_resolved_def resolved_in_def
             split: option.splits sum.splits prod.splits)
qed

text \<open>
  Once built, a lazy listener answers with the same listener and runs no factory again.
\<close>

lemma resolve_again: "resolved_in (lazies w) i = Some l \<Longrightarrow> resolve py factory i w = (Inr l, w)"
  by (simp add: resolve_def)

end
