(* ===== verification/Event_Dispatcher.thy ===== *)
theory Event_Dispatcher
  imports Event_Listeners "HOL-Library.Multiset"
begin

text \<open>
  The registry of \<open>EventDispatcher\<close> (\<open>event_dispatcher.py\<close>): listeners by event name and priority,
  the cache of the running order, and the removals kept for lazy listeners that are not built yet.
  Dispatching is in \<open>Event_Dispatch\<close>.

  The code tells entries and cached lists apart by identity (\<open>is\<close>, \<open>id()\<close>). Every entry and every
  cached list therefore carries a serial number, drawn from one counter of the dispatcher, and
  identity is equality of serial numbers.
\<close>

section \<open>State\<close>

record entry =
  entry_id :: nat
  entry_listener :: listener
  entry_arity :: nat

record pending_removal =
  removal_obj :: obj
  removal_method :: string
  removal_unbuilt :: "entry list"

type_synonym by_priority = "(int, entry list) dict"

record dispatcher =
  registered :: "(string, by_priority) dict"
  sorted_cache :: "(string, nat \<times> entry list) dict"
  pending_removals :: "(string, pending_removal list) dict"
  next_id :: nat

definition EventDispatcher_init :: dispatcher where
  "EventDispatcher_init = \<lparr>registered = [], sorted_cache = [], pending_removals = [], next_id = 0\<rparr>"

definition by_priority_of :: "dispatcher \<Rightarrow> string \<Rightarrow> by_priority" where
  "by_priority_of d name = dict_get_or (registered d) name []"

definition entries_at :: "by_priority \<Rightarrow> int \<Rightarrow> entry list" where
  "entries_at bp p = dict_get_or bp p []"

definition all_entries :: "by_priority \<Rightarrow> entry list" where
  "all_entries bp = concat (map snd bp)"

text \<open>An event left without entries is dropped from the registry.\<close>

definition put_by_priority :: "string \<Rightarrow> by_priority \<Rightarrow> dispatcher \<Rightarrow> dispatcher" where
  "put_by_priority name bp d =
     d\<lparr>registered := (if bp = [] then dict_del name (registered d) else dict_set name bp (registered d))\<rparr>"

definition forget_sorted :: "string \<Rightarrow> dispatcher \<Rightarrow> dispatcher" where
  "forget_sorted name d = d\<lparr>sorted_cache := dict_del name (sorted_cache d)\<rparr>"

section \<open>The running order\<close>

definition running_order :: "by_priority \<Rightarrow> entry list" where
  "running_order bp = concat (map (entries_at bp) (rev (sort (dict_keys bp))))"

text \<open>
  \<open>_sort\<close>: the list returned, with the serial number of the cached list it is; an event without
  listeners is not cached and yields an empty list of its own.
\<close>

definition sort_entries :: "string \<Rightarrow> dispatcher \<Rightarrow> (nat option \<times> entry list) \<times> dispatcher" where
  "sort_entries name d =
     (case map_of (sorted_cache d) name of
        Some (s, es) \<Rightarrow> ((Some s, es), d)
      | None \<Rightarrow>
          (case map_of (registered d) name of
             None \<Rightarrow> ((None, []), d)
           | Some bp \<Rightarrow>
               ((Some (next_id d), running_order bp),
                d\<lparr>sorted_cache := dict_set name (next_id d, running_order bp) (sorted_cache d),
                  next_id := next_id d + 1\<rparr>)))"

section \<open>Reading the registry\<close>

definition get_listeners :: "event_ref \<Rightarrow> (dispatcher, event_error, listener list) prog" where
  "get_listeners ref = (\<lambda>d.
     case event_name_of ref of
       Inl e \<Rightarrow> (Inl e, d)
     | Inr name \<Rightarrow> (case sort_entries name d of ((_, es), d') \<Rightarrow> (Inr (map entry_listener es), d')))"

definition get_all_listeners :: "(dispatcher, event_error, (string \<times> listener list) list) prog" where
  "get_all_listeners = (\<lambda>d.
     for_each (\<lambda>name acc d. case sort_entries name d of
                 ((_, es), d') \<Rightarrow> (Inr (acc @ [(name, map entry_listener es)]), d'))
       (dict_keys (registered d)) [] d)"

definition get_prioritized_listeners :: "event_ref \<Rightarrow> dispatcher \<Rightarrow> event_error + (int \<times> listener) list" where
  "get_prioritized_listeners ref d =
     (case event_name_of ref of
        Inl e \<Rightarrow> Inl e
      | Inr name \<Rightarrow>
          (let bp = by_priority_of d name
           in Inr (concat (map (\<lambda>p. map (\<lambda>e. (p, entry_listener e)) (entries_at bp p))
                     (rev (sort (dict_keys bp)))))))"

fun first_priority :: "lazies \<Rightarrow> listener \<Rightarrow> by_priority \<Rightarrow> int option" where
  "first_priority h l [] = None"
| "first_priority h l ((p, es) # bp) =
     (if list_ex (\<lambda>e. same h (entry_listener e) l) es then Some p else first_priority h l bp)"

definition get_listener_priority ::
  "lazies \<Rightarrow> event_ref \<Rightarrow> listener \<Rightarrow> dispatcher \<Rightarrow> event_error + int option" where
  "get_listener_priority h ref l d =
     (case event_name_of ref of
        Inl e \<Rightarrow> Inl e
      | Inr name \<Rightarrow> Inr (first_priority h l (by_priority_of d name)))"

definition has_listeners :: "event_ref option \<Rightarrow> dispatcher \<Rightarrow> event_error + bool" where
  "has_listeners ref d =
     (case ref of
        None \<Rightarrow> Inr (registered d \<noteq> [])
      | Some r \<Rightarrow>
          (case event_name_of r of
             Inl e \<Rightarrow> Inl e
           | Inr name \<Rightarrow> Inr (map_of (registered d) name \<noteq> None)))"

section \<open>Adding a listener\<close>

definition add_entry :: "int \<Rightarrow> entry \<Rightarrow> by_priority \<Rightarrow> by_priority" where
  "add_entry p e bp = dict_set p (entries_at bp p @ [e]) bp"

definition append_entry :: "string \<Rightarrow> listener \<Rightarrow> nat \<Rightarrow> int \<Rightarrow> dispatcher \<Rightarrow> dispatcher" where
  "append_entry name l arity p d =
     (let e = \<lparr>entry_id = next_id d, entry_listener = l, entry_arity = arity\<rparr>
      in forget_sorted name
           (d\<lparr>registered := dict_set name (add_entry p e (by_priority_of d name)) (registered d),
              next_id := next_id d + 1\<rparr>))"

definition built_or_itself :: "lazies \<Rightarrow> listener \<Rightarrow> listener" where
  "built_or_itself h l =
     (case l of
        Lazy_listener i \<Rightarrow> (case resolved_in h i of Some l' \<Rightarrow> l' | None \<Rightarrow> l)
      | _ \<Rightarrow> l)"

definition add_listener ::
  "reflection \<Rightarrow> lazies \<Rightarrow> event_ref \<Rightarrow> listener \<Rightarrow> int \<Rightarrow> (dispatcher, event_error, unit) prog" where
  "add_listener py h ref l p = (\<lambda>d.
     let l' = built_or_itself h l
     in case event_name_of ref of
          Inl e \<Rightarrow> (Inl e, d)
        | Inr name \<Rightarrow>
            (case positional_arity py l' of
               Inl e \<Rightarrow> (Inl e, d)
             | Inr arity \<Rightarrow> (Inr (), append_entry name l' arity p d)))"

section \<open>Removing a listener\<close>

text \<open>The loop over the priorities: the entries kept, a priority without entries dropped.\<close>

definition keep_entries :: "(entry \<Rightarrow> bool) \<Rightarrow> by_priority \<Rightarrow> by_priority" where
  "keep_entries P bp = filter (\<lambda>(p, es). es \<noteq> []) (map (\<lambda>(p, es). (p, filter P es)) bp)"

definition unbuilt_entries :: "lazies \<Rightarrow> by_priority \<Rightarrow> entry list" where
  "unbuilt_entries h bp = filter (\<lambda>e. is_unbuilt h (entry_listener e)) (all_entries bp)"

definition still_waiting :: "entry list \<Rightarrow> pending_removal \<Rightarrow> pending_removal" where
  "still_waiting waiting r =
     r\<lparr>removal_unbuilt := filter (\<lambda>e. list_ex (\<lambda>e'. entry_id e' = entry_id e) waiting) (removal_unbuilt r)\<rparr>"

definition prune_pending_removals :: "lazies \<Rightarrow> string \<Rightarrow> dispatcher \<Rightarrow> dispatcher" where
  "prune_pending_removals h name d =
     (let removals = dict_get_or (pending_removals d) name []
      in if removals = [] then d
         else let waiting = unbuilt_entries h (by_priority_of d name);
                  kept = filter (\<lambda>r. removal_unbuilt r \<noteq> []) (map (still_waiting waiting) removals)
              in d\<lparr>pending_removals :=
                     (if kept = [] then dict_del name (pending_removals d)
                      else dict_set name kept (pending_removals d))\<rparr>)"

definition note_removal :: "string \<Rightarrow> listener \<Rightarrow> entry list \<Rightarrow> dispatcher \<Rightarrow> dispatcher" where
  "note_removal name l unbuilt d =
     (case owner_of l of
        Some (ob, m) \<Rightarrow>
          if unbuilt = [] then d
          else d\<lparr>pending_removals :=
                   dict_set name
                     (dict_get_or (pending_removals d) name []
                        @ [\<lparr>removal_obj = ob, removal_method = m, removal_unbuilt = unbuilt\<rparr>])
                     (pending_removals d)\<rparr>
      | None \<Rightarrow> d)"

definition remove_listener ::
  "lazies \<Rightarrow> event_ref \<Rightarrow> listener \<Rightarrow> (dispatcher, event_error, unit) prog" where
  "remove_listener h ref l = (\<lambda>d.
     case event_name_of ref of
       Inl e \<Rightarrow> (Inl e, d)
     | Inr name \<Rightarrow>
         (case map_of (registered d) name of
            None \<Rightarrow> (Inr (), d)
          | Some bp \<Rightarrow>
              (let kept = keep_entries (\<lambda>e. \<not> same h (entry_listener e) l) bp
               in (Inr (), prune_pending_removals h name
                             (note_removal name l (unbuilt_entries h kept)
                               (forget_sorted name (put_by_priority name kept d)))))))"

section \<open>Putting a built listener in its place\<close>

fun replace_first :: "nat \<Rightarrow> entry option \<Rightarrow> entry list \<Rightarrow> entry list" where
  "replace_first i built [] = []"
| "replace_first i built (e # es) =
     (if entry_id e = i then (case built of None \<Rightarrow> es | Some b \<Rightarrow> b # es)
      else e # replace_first i built es)"

text \<open>A priority is dropped when the deletion left it empty.\<close>

definition replace_entry :: "nat \<Rightarrow> entry option \<Rightarrow> by_priority \<Rightarrow> by_priority" where
  "replace_entry i built bp =
     concat (map (\<lambda>(p, es). let es' = replace_first i built es
                            in if es \<noteq> [] \<and> es' = [] then [] else [(p, es')]) bp)"

definition replace_listener :: "lazies \<Rightarrow> string \<Rightarrow> entry \<Rightarrow> entry option \<Rightarrow> dispatcher \<Rightarrow> dispatcher" where
  "replace_listener h name e built d =
     prune_pending_removals h name
       (forget_sorted name
         (put_by_priority name (replace_entry (entry_id e) built (by_priority_of d name)) d))"

definition removal_drops :: "dispatcher \<Rightarrow> string \<Rightarrow> entry \<Rightarrow> listener \<Rightarrow> bool" where
  "removal_drops d name e l =
     (case owner_of l of
        None \<Rightarrow> False
      | Some (ob, m) \<Rightarrow>
          list_ex (\<lambda>r. removal_obj r = ob \<and> removal_method r = m
                       \<and> list_ex (\<lambda>e'. entry_id e' = entry_id e) (removal_unbuilt r))
            (dict_get_or (pending_removals d) name []))"

text \<open>The part of \<open>_build\<close> that follows \<open>resolve\<close>, for the listener \<open>l\<close> it returned.\<close>

definition finish_build ::
  "reflection \<Rightarrow> lazies \<Rightarrow> string \<Rightarrow> entry \<Rightarrow> listener \<Rightarrow> (dispatcher, event_error, entry option) prog" where
  "finish_build py h name e l = (\<lambda>d.
     if removal_drops d name e l then (Inr None, replace_listener h name e None d)
     else case positional_arity py l of
            Inl err \<Rightarrow> (Inl err, d)
          | Inr arity \<Rightarrow>
              (let b = \<lparr>entry_id = next_id d, entry_listener = l, entry_arity = arity\<rparr>
               in (Inr (Some b), replace_listener h name e (Some b) (d\<lparr>next_id := next_id d + 1\<rparr>))))"

lemmas [event_defs] =
  sort_entries_def add_listener_def remove_listener_def replace_listener_def finish_build_def
  append_entry_def put_by_priority_def forget_sorted_def prune_pending_removals_def note_removal_def

section \<open>What the operations do to the entries of an event\<close>

lemma add_entry_mset: "mset (all_entries (add_entry p e bp)) = add_mset e (mset (all_entries bp))"
proof (induction bp)
  case Nil
  then show ?case by (simp add: add_entry_def all_entries_def entries_at_def dict_get_or_def)
next
  case (Cons x bp)
  then show ?case
    by (cases x) (auto simp: add_entry_def all_entries_def entries_at_def dict_get_or_def)
qed

lemma add_entry_set [simp]: "set (all_entries (add_entry p e bp)) = insert e (set (all_entries bp))"
  by (metis add_entry_mset set_mset_add_mset_insert set_mset_mset)

lemma add_entry_distinct:
  "distinct (map entry_id (all_entries (add_entry p e bp))) \<longleftrightarrow>
     distinct (map entry_id (all_entries bp)) \<and> entry_id e \<notin> entry_id ` set (all_entries bp)"
proof -
  have "mset (map entry_id (all_entries (add_entry p e bp))) = mset (map entry_id (e # all_entries bp))"
    by (simp add: add_entry_mset)
  then have "distinct (map entry_id (all_entries (add_entry p e bp))) \<longleftrightarrow>
      distinct (map entry_id (e # all_entries bp))"
    by (rule mset_eq_imp_distinct_iff)
  then show ?thesis by auto
qed

lemma keep_entries_all [simp]: "all_entries (keep_entries P bp) = filter P (all_entries bp)"
  by (induction bp) (auto simp: keep_entries_def all_entries_def)

definition substituted :: "nat \<Rightarrow> entry option \<Rightarrow> entry \<Rightarrow> entry list" where
  "substituted i built e =
     (if entry_id e = i then (case built of None \<Rightarrow> [] | Some b \<Rightarrow> [b]) else [e])"

lemma substituted_at:
  "entry_id e = i \<Longrightarrow> substituted i built e = (case built of None \<Rightarrow> [] | Some b \<Rightarrow> [b])"
  "entry_id e \<noteq> i \<Longrightarrow> substituted i built e = [e]"
  by (simp_all add: substituted_def)

lemma substituted_other: "i \<notin> entry_id ` set es \<Longrightarrow> concat (map (substituted i built) es) = es"
  by (induction es) (auto simp: substituted_def)

lemma replace_first_distinct:
  "distinct (map entry_id es) \<Longrightarrow> replace_first i built es = concat (map (substituted i built) es)"
proof (induction es)
  case Nil
  then show ?case by simp
next
  case (Cons e es)
  then show ?case
    using substituted_other [of i es built]
    by (cases "entry_id e = i") (simp_all add: substituted_at split: option.splits)
qed

lemma replace_entry_all:
  "distinct (map entry_id (all_entries bp)) \<Longrightarrow>
     all_entries (replace_entry i built bp) = concat (map (substituted i built) (all_entries bp))"
  by (induction bp) (auto simp: replace_entry_def all_entries_def Let_def replace_first_distinct)

lemma substituted_set:
  "set (concat (map (substituted i built) es)) =
     {e \<in> set es. entry_id e \<noteq> i} \<union> (if i \<in> entry_id ` set es then set_option built else {})"
  by (induction es) (auto simp: substituted_def split: option.splits)

lemma substituted_distinct:
  assumes "distinct (map entry_id es)" and "\<And>b. built = Some b \<Longrightarrow> entry_id b \<notin> entry_id ` set es"
  shows "distinct (map entry_id (concat (map (substituted i built) es)))"
  using assms
proof (induction es)
  case Nil
  then show ?case by simp
next
  case (Cons e es)
  then have "distinct (map entry_id (concat (map (substituted i built) es)))" by simp
  moreover have "entry_id e \<notin> entry_id ` set (concat (map (substituted i built) es))"
    if "entry_id e \<noteq> i"
    using Cons.prems unfolding substituted_set by (cases built) auto
  ultimately show ?case
    using Cons.prems substituted_other [of i es built]
    by (cases "entry_id e = i") (auto simp: substituted_at split: option.splits)
qed

section \<open>The well-formed registry\<close>

text \<open>
  Every priority and every event that is present has entries, serial numbers are used once, and a
  cached order is the order of the entries as they are now.
\<close>

definition by_priority_ok :: "nat \<Rightarrow> by_priority \<Rightarrow> bool" where
  "by_priority_ok k bp \<longleftrightarrow>
     dict_ok bp \<and> bp \<noteq> [] \<and> list_all (\<lambda>(p, es). es \<noteq> []) bp
     \<and> distinct (map entry_id (all_entries bp)) \<and> list_all (\<lambda>e. entry_id e < k) (all_entries bp)"

definition dispatcher_ok :: "dispatcher \<Rightarrow> bool" where
  "dispatcher_ok d \<longleftrightarrow>
     dict_ok (registered d) \<and> dict_ok (sorted_cache d) \<and> dict_ok (pending_removals d)
     \<and> (\<forall>name bp. map_of (registered d) name = Some bp \<longrightarrow> by_priority_ok (next_id d) bp)
     \<and> (\<forall>name s es. map_of (sorted_cache d) name = Some (s, es) \<longrightarrow>
           s < next_id d \<and> map_of (registered d) name \<noteq> None
           \<and> es = running_order (by_priority_of d name))"

lemma dispatcher_okI:
  assumes "dict_ok (registered d)" "dict_ok (sorted_cache d)" "dict_ok (pending_removals d)"
    and "\<And>name bp. map_of (registered d) name = Some bp \<Longrightarrow> by_priority_ok (next_id d) bp"
    and "\<And>name s es. map_of (sorted_cache d) name = Some (s, es) \<Longrightarrow>
           s < next_id d \<and> map_of (registered d) name \<noteq> None
           \<and> es = running_order (by_priority_of d name)"
  shows "dispatcher_ok d"
  using assms by (simp add: dispatcher_ok_def)

lemma by_priority_ok_mono: "by_priority_ok k bp \<Longrightarrow> k \<le> k' \<Longrightarrow> by_priority_ok k' bp"
  by (auto simp: by_priority_ok_def list_all_iff)

lemma by_priority_of_other:
  "map_of (registered d') name = map_of (registered d) name \<Longrightarrow>
     by_priority_of d' name = by_priority_of d name"
  by (simp add: by_priority_of_def dict_get_or_def)

lemma dispatcher_ok_init [simp]: "dispatcher_ok EventDispatcher_init"
  by (simp add: dispatcher_ok_def EventDispatcher_init_def)

lemma dispatcher_ok_by:
  "dispatcher_ok d \<Longrightarrow> map_of (registered d) name \<noteq> None \<Longrightarrow>
     by_priority_ok (next_id d) (by_priority_of d name)"
  by (auto simp: dispatcher_ok_def by_priority_of_def dict_get_or_def)

lemma dispatcher_ok_distinct:
  assumes "dispatcher_ok d"
  shows "distinct (map entry_id (all_entries (by_priority_of d name)))"
    and "\<And>e. e \<in> set (all_entries (by_priority_of d name)) \<Longrightarrow> entry_id e < next_id d"
    and "dict_ok (by_priority_of d name)"
  using assms
  by (cases "map_of (registered d) name";
      force simp: dispatcher_ok_def by_priority_ok_def by_priority_of_def dict_get_or_def
                  all_entries_def list_all_iff)+

lemma dispatcher_ok_cached:
  "dispatcher_ok d \<Longrightarrow> map_of (sorted_cache d) name = Some (s, es) \<Longrightarrow>
     es = running_order (by_priority_of d name) \<and> s < next_id d \<and> map_of (registered d) name \<noteq> None"
  by (simp add: dispatcher_ok_def)

lemma dict_ok_keep [simp]: "dict_ok bp \<Longrightarrow> dict_ok (keep_entries P bp)"
  unfolding dict_ok_def keep_entries_def
  by (rule distinct_map_filter) (simp add: comp_def split_def)

lemma keep_entries_ok:
  "by_priority_ok k bp \<Longrightarrow> keep_entries P bp \<noteq> [] \<Longrightarrow> by_priority_ok k (keep_entries P bp)"
  by (auto simp: by_priority_ok_def keep_entries_all distinct_map_filter list_all_iff)
     (auto simp: keep_entries_def)

lemma dict_ok_add_entry [simp]: "dict_ok bp \<Longrightarrow> dict_ok (add_entry p e bp)"
  by (simp add: add_entry_def)

lemma add_entry_ok:
  assumes "bp = [] \<or> by_priority_ok k bp" "entry_id e = k"
  shows "by_priority_ok (Suc k) (add_entry p e bp)"
proof -
  have old: "dict_ok bp" "list_all (\<lambda>(p, es). es \<noteq> []) bp" "distinct (map entry_id (all_entries bp))"
    "list_all (\<lambda>e. entry_id e < k) (all_entries bp)"
    using assms(1) by (auto simp: by_priority_ok_def all_entries_def)
  have "list_all (\<lambda>(p, es). es \<noteq> []) (add_entry p e bp)"
    using old(2) by (induction bp) (auto simp: add_entry_def entries_at_def dict_get_or_def)
  moreover have "add_entry p e bp \<noteq> []"
    by (cases bp) (auto simp: add_entry_def)
  ultimately show ?thesis
    using old assms(2) by (auto simp: by_priority_ok_def add_entry_distinct list_all_iff less_Suc_eq)
qed

lemma replace_entry_Cons:
  "replace_entry i built ((p, es) # bp) =
     (if es \<noteq> [] \<and> replace_first i built es = [] then [] else [(p, replace_first i built es)])
       @ replace_entry i built bp"
  "replace_entry i built [] = []"
  by (simp_all add: replace_entry_def Let_def)

lemma replace_entry_subset: "fst ` set (replace_entry i built bp) \<subseteq> fst ` set bp"
proof (induction bp)
  case Nil
  then show ?case by (simp add: replace_entry_Cons)
next
  case (Cons x bp)
  then show ?case by (cases x) (simp add: replace_entry_Cons image_Un, blast)
qed

lemma dict_ok_replace [simp]: "dict_ok bp \<Longrightarrow> dict_ok (replace_entry i built bp)"
proof (induction bp)
  case Nil
  then show ?case by (simp add: replace_entry_Cons)
next
  case (Cons x bp)
  then show ?case
    using replace_entry_subset [of i built bp] by (cases x) (auto simp: dict_ok_def replace_entry_Cons)
qed

lemma replace_entry_nonempty:
  "list_all (\<lambda>(p, es). es \<noteq> []) bp \<Longrightarrow> list_all (\<lambda>(p, es). es \<noteq> []) (replace_entry i built bp)"
  by (induction bp) (auto simp: replace_entry_Cons)

lemma replace_entry_ok:
  assumes ok: "by_priority_ok k bp" and new: "\<And>b. built = Some b \<Longrightarrow> entry_id b = k \<and> k < k'"
    and some: "replace_entry i built bp \<noteq> []" and k': "k \<le> k'"
  shows "by_priority_ok k' (replace_entry i built bp)"
proof -
  from ok have d: "distinct (map entry_id (all_entries bp))"
    and lt: "\<And>e. e \<in> set (all_entries bp) \<Longrightarrow> entry_id e < k"
    by (auto simp: by_priority_ok_def list_all_iff)
  have "distinct (map entry_id (all_entries (replace_entry i built bp)))"
    unfolding replace_entry_all [OF d] using d new lt by (intro substituted_distinct) force+
  moreover have "list_all (\<lambda>e. entry_id e < k') (all_entries (replace_entry i built bp))"
    unfolding replace_entry_all [OF d] list_all_iff substituted_set
    using order.strict_trans2 [OF lt k'] new by (auto split: if_splits)
  ultimately show ?thesis
    using ok some by (simp add: by_priority_ok_def replace_entry_nonempty)
qed

section \<open>Every operation keeps the registry well formed\<close>

text \<open>
  The operations change the entries of one event and forget its cached order; the cached orders of
  the others still fit.
\<close>

lemma dispatcher_ok_put:
  assumes ok: "dispatcher_ok d" and bp: "bp = [] \<or> by_priority_ok k bp" and k: "next_id d \<le> k"
  shows "dispatcher_ok (forget_sorted name (put_by_priority name bp (d\<lparr>next_id := k\<rparr>)))"
proof (rule dispatcher_okI)
  fix n bp'
  assume "map_of (registered (forget_sorted name (put_by_priority name bp (d\<lparr>next_id := k\<rparr>)))) n = Some bp'"
  then show "by_priority_ok (next_id (forget_sorted name (put_by_priority name bp (d\<lparr>next_id := k\<rparr>)))) bp'"
    using ok bp k
    by (auto simp: forget_sorted_def put_by_priority_def dispatcher_ok_def split: if_splits
             intro: by_priority_ok_mono)
next
  fix n s es
  assume c: "map_of (sorted_cache (forget_sorted name (put_by_priority name bp (d\<lparr>next_id := k\<rparr>)))) n = Some (s, es)"
  then have "n \<noteq> name" "map_of (sorted_cache d) n = Some (s, es)"
    by (auto simp: forget_sorted_def put_by_priority_def split: if_splits)
  then show "s < next_id (forget_sorted name (put_by_priority name bp (d\<lparr>next_id := k\<rparr>)))
      \<and> map_of (registered (forget_sorted name (put_by_priority name bp (d\<lparr>next_id := k\<rparr>)))) n \<noteq> None
      \<and> es = running_order (by_priority_of (forget_sorted name (put_by_priority name bp (d\<lparr>next_id := k\<rparr>))) n)"
    using k dispatcher_ok_cached [OF ok, of n s es]
    by (auto simp: forget_sorted_def put_by_priority_def by_priority_of_def dict_get_or_def)
qed (use ok in \<open>auto simp: forget_sorted_def put_by_priority_def dispatcher_ok_def\<close>)

lemma next_id_same [simp]: "d\<lparr>next_id := next_id d\<rparr> = d"
  by simp

lemma dispatcher_ok_pending:
  "dispatcher_ok d \<Longrightarrow> dict_ok ps \<Longrightarrow> dispatcher_ok (d\<lparr>pending_removals := ps\<rparr>)"
  by (auto simp: dispatcher_ok_def by_priority_of_def)

lemma dispatcher_ok_prune [simp]: "dispatcher_ok d \<Longrightarrow> dispatcher_ok (prune_pending_removals h name d)"
  by (auto simp: prune_pending_removals_def Let_def dispatcher_ok_def by_priority_of_def)

lemma dispatcher_ok_note [simp]: "dispatcher_ok d \<Longrightarrow> dispatcher_ok (note_removal name l es d)"
  by (auto simp: note_removal_def dispatcher_ok_def by_priority_of_def split: option.splits)

lemma sort_entries_eq:
  assumes "dispatcher_ok d"
  shows "sort_entries name d =
     (case map_of (sorted_cache d) name of
        Some (s, es) \<Rightarrow> ((Some s, running_order (by_priority_of d name)), d)
      | None \<Rightarrow>
          if map_of (registered d) name = None then ((None, running_order (by_priority_of d name)), d)
          else ((Some (next_id d), running_order (by_priority_of d name)),
                d\<lparr>sorted_cache := dict_set name (next_id d, running_order (by_priority_of d name)) (sorted_cache d),
                  next_id := next_id d + 1\<rparr>))"
  using dispatcher_ok_cached [OF assms, of name]
  by (auto simp: sort_entries_def by_priority_of_def dict_get_or_def running_order_def split: option.splits)

lemma dispatcher_ok_sort:
  assumes "dispatcher_ok d"
  shows "dispatcher_ok (snd (sort_entries name d))"
proof (cases "map_of (sorted_cache d) name = None \<and> map_of (registered d) name \<noteq> None")
  case True
  let ?d = "d\<lparr>sorted_cache := dict_set name (next_id d, running_order (by_priority_of d name)) (sorted_cache d),
              next_id := next_id d + 1\<rparr>"
  have "dispatcher_ok ?d"
  proof (rule dispatcher_okI)
    show "by_priority_ok (next_id ?d) bp" if "map_of (registered ?d) n = Some bp" for n bp
      using that assms by_priority_ok_mono [of "next_id d" bp "Suc (next_id d)"]
      by (simp add: dispatcher_ok_def)
    show "s < next_id ?d \<and> map_of (registered ?d) n \<noteq> None \<and> es = running_order (by_priority_of ?d n)"
      if "map_of (sorted_cache ?d) n = Some (s, es)" for n s es
      using that True dispatcher_ok_cached [OF assms, of n s es]
      by (auto simp: by_priority_of_def split: if_splits)
  qed (use assms in \<open>simp_all add: dispatcher_ok_def\<close>)
  with True show ?thesis by (auto simp: sort_entries_eq [OF assms])
next
  case False
  with assms show ?thesis by (auto simp: sort_entries_eq [OF assms] split: option.splits)
qed

lemma append_entry_put:
  "append_entry name l arity p d =
     forget_sorted name (put_by_priority name
       (add_entry p \<lparr>entry_id = next_id d, entry_listener = l, entry_arity = arity\<rparr> (by_priority_of d name))
       (d\<lparr>next_id := next_id d + 1\<rparr>))"
proof -
  have "add_entry p e bp \<noteq> []" for e bp
    by (cases bp) (auto simp: add_entry_def)
  then show ?thesis
    by (simp add: append_entry_def put_by_priority_def forget_sorted_def by_priority_of_def)
qed

lemma by_priority_ok_or_empty:
  "dispatcher_ok d \<Longrightarrow> by_priority_of d name = [] \<or> by_priority_ok (next_id d) (by_priority_of d name)"
  by (auto simp: dispatcher_ok_def by_priority_of_def dict_get_or_def split: option.splits)

lemma dispatcher_ok_append: "dispatcher_ok d \<Longrightarrow> dispatcher_ok (append_entry name l arity p d)"
  unfolding append_entry_put
  by (rule dispatcher_ok_put) (use by_priority_ok_or_empty [of d name] add_entry_ok in auto)

lemma dispatcher_ok_add: "dispatcher_ok d \<Longrightarrow> dispatcher_ok (snd (add_listener py h ref l p d))"
  by (simp add: add_listener_def Let_def dispatcher_ok_append split: sum.splits)

lemma dispatcher_ok_keep:
  assumes "dispatcher_ok d" and "map_of (registered d) name = Some bp"
  shows "dispatcher_ok (forget_sorted name (put_by_priority name (keep_entries P bp) d))"
proof -
  have "by_priority_ok (next_id d) bp"
    using assms by (simp add: dispatcher_ok_def)
  then show ?thesis
    using dispatcher_ok_put [OF assms(1), of "keep_entries P bp" "next_id d" name] keep_entries_ok
    by auto
qed

lemma dispatcher_ok_remove: "dispatcher_ok d \<Longrightarrow> dispatcher_ok (snd (remove_listener h ref l d))"
  by (simp add: remove_listener_def Let_def dispatcher_ok_keep split: sum.splits option.splits)

lemma dispatcher_ok_replace:
  assumes "dispatcher_ok d" and "\<And>b. built = Some b \<Longrightarrow> entry_id b = next_id d \<and> next_id d < k"
    and "next_id d \<le> k"
  shows "dispatcher_ok (replace_listener h name e built (d\<lparr>next_id := k\<rparr>))"
proof -
  let ?bp = "replace_entry (entry_id e) built (by_priority_of d name)"
  have "?bp = [] \<or> by_priority_ok k ?bp"
    using by_priority_ok_or_empty [OF assms(1), of name]
      replace_entry_ok [of "next_id d" "by_priority_of d name" built k "entry_id e"] assms(2,3)
    by (auto simp: replace_entry_Cons)
  then show ?thesis
    using dispatcher_ok_put [OF assms(1), of ?bp k name] assms(3)
    by (simp add: replace_listener_def by_priority_of_def)
qed

lemma dispatcher_ok_build:
  assumes "dispatcher_ok d"
  shows "dispatcher_ok (snd (finish_build py h name e l d))"
  using assms dispatcher_ok_replace [OF assms, of None "next_id d" h name e]
    dispatcher_ok_replace [OF assms, of "Some \<lparr>entry_id = next_id d, entry_listener = l, entry_arity = n\<rparr>"
      "Suc (next_id d)" h name e for n]
  by (auto simp: finish_build_def Let_def split: sum.splits)

section \<open>Steps of a registry\<close>

text \<open>
  What may happen to a dispatcher while a listener or a factory runs: any public operation, a
  reading that fills the cache, the end of a build, and lazy listeners resolved elsewhere (by a
  direct call, by another event or by another dispatcher).
\<close>

inductive registry_step :: "reflection \<Rightarrow> dispatcher \<times> lazies \<Rightarrow> dispatcher \<times> lazies \<Rightarrow> bool"
  for py :: reflection where
  step_add: "registry_step py (d, h) (snd (add_listener py h ref l p d), h)"
| step_remove: "registry_step py (d, h) (snd (remove_listener h ref l d), h)"
| step_read: "registry_step py (d, h) (snd (sort_entries name d), h)"
| step_build: "registry_step py (d, h) (snd (finish_build py h name e l d), h)"
    if "entry_listener e = Lazy_listener i" and "resolved_in h i = Some l"
| step_resolve: "registry_step py (d, h) (d, h')" if "lazies_grow h h'"

abbreviation registry_steps :: "reflection \<Rightarrow> dispatcher \<times> lazies \<Rightarrow> dispatcher \<times> lazies \<Rightarrow> bool" where
  "registry_steps py \<equiv> (registry_step py)\<^sup>*\<^sup>*"

inductive_cases registry_stepE: "registry_step py (d, h) (d', h')"

lemmas registry_ok = dispatcher_ok_add dispatcher_ok_remove dispatcher_ok_sort dispatcher_ok_build

lemma registry_step_ok: "registry_step py s s' \<Longrightarrow> dispatcher_ok (fst s) \<Longrightarrow> dispatcher_ok (fst s')"
  by (induction rule: registry_step.induct) (simp_all add: registry_ok)

lemma registry_steps_ok: "registry_steps py s s' \<Longrightarrow> dispatcher_ok (fst s) \<Longrightarrow> dispatcher_ok (fst s')"
  by (induction rule: rtranclp_induct) (auto intro: registry_step_ok)

lemma registry_steps_lazies:
  "registry_steps py s s' \<Longrightarrow> lazies_grow (snd s) (snd s')"
proof (induction rule: rtranclp_induct)
  case (step s' s'')
  from step.hyps(2) have "lazies_grow (snd s') (snd s'')"
    by (induction rule: registry_step.induct) auto
  with step.IH show ?case by (rule lazies_grow_trans)
qed simp

section \<open>The running order is a stable sort\<close>

lemma concat_filter_mset:
  "distinct ps \<Longrightarrow> mset (concat (map (\<lambda>p. filter (\<lambda>x. fst x = p) xs) ps)) =
     mset (filter (\<lambda>x. fst x \<in> set ps) xs)"
proof (induction ps)
  case (Cons p ps)
  have "mset (filter (\<lambda>x. fst x = p) xs) + mset (filter (\<lambda>x. fst x \<in> set ps) xs) =
      mset (filter (\<lambda>x. fst x = p \<or> fst x \<in> set ps) xs)" if "p \<notin> set ps"
    using that by (induction xs) auto
  with Cons show ?case by simp
qed simp

lemma concat_filter_key:
  "distinct ps \<Longrightarrow> filter (\<lambda>x. k = fst x) (concat (map (\<lambda>p. filter (\<lambda>x. fst x = p) xs) ps)) =
     (if k \<in> set ps then filter (\<lambda>x. k = fst x) xs else [])"
proof (induction ps)
  case (Cons p ps)
  have "filter (\<lambda>x. k = fst x) (filter (\<lambda>x. fst x = p) xs) = (if k = p then filter (\<lambda>x. k = fst x) xs else [])"
    by (auto simp: filter_empty_conv intro: filter_cong)
  with Cons show ?case by auto
qed simp

lemma concat_filter_sorted:
  "sorted (rev ps) \<Longrightarrow> sorted (map (\<lambda>x. - fst x) (concat (map (\<lambda>p. filter (\<lambda>x. fst x = p) xs) ps)))"
  for ps :: "int list"
proof (induction ps)
  case (Cons p ps)
  have "sorted (map (\<lambda>x. - fst x) (filter (\<lambda>x. fst x = p) xs))"
    by (induction xs) auto
  with Cons show ?case by (auto simp: sorted_append)
qed simp

lemma grouped_is_sorted:
  fixes ps :: "int list"
  assumes "distinct ps" "fst ` set xs \<subseteq> set ps"
  shows "concat (map (\<lambda>p. filter (\<lambda>x. fst x = p) xs) (rev (sort ps))) = sort_key (\<lambda>x. - fst x) xs"
proof (rule sym, rule properties_for_sort_key)
  let ?ys = "concat (map (\<lambda>p. filter (\<lambda>x. fst x = p) xs) (rev (sort ps)))"
  have d: "distinct (rev (sort ps))" using assms by simp
  have "filter (\<lambda>x. fst x \<in> set ps) xs = xs"
    using assms(2) by (auto intro!: filter_True)
  then show "mset ?ys = mset xs"
    using concat_filter_mset [OF d, of xs] by simp
  show "filter (\<lambda>x. - fst k = - fst x) ?ys = filter (\<lambda>x. - fst k = - fst x) xs" if "k \<in> set ?ys" for k
    using that concat_filter_key [OF d, of "fst k" xs] by auto
  show "sorted (map (\<lambda>x. - fst x) ?ys)"
    by (rule concat_filter_sorted) simp
qed

section \<open>Refinement: registrations in order\<close>

text \<open>
  The abstract registry is, for every event, the list of its registrations in the order they were
  made. Adding appends, removing filters, and listeners run in the order of a stable sort by
  descending priority.
\<close>

datatype command =
    Add event_ref listener int
  | Remove event_ref listener
  | Read string
  | Resolved lazies

fun exec :: "reflection \<Rightarrow> command \<Rightarrow> dispatcher \<times> lazies \<Rightarrow> dispatcher \<times> lazies" where
  "exec py (Add ref l p) (d, h) = (snd (add_listener py h ref l p d), h)"
| "exec py (Remove ref l) (d, h) = (snd (remove_listener h ref l d), h)"
| "exec py (Read name) (d, h) = (snd (sort_entries name d), h)"
| "exec py (Resolved h') (d, h) = (d, h')"

type_synonym registrations = "string \<Rightarrow> (int \<times> listener) list"

fun spec_exec :: "reflection \<Rightarrow> command \<Rightarrow> registrations \<times> lazies \<Rightarrow> registrations \<times> lazies" where
  "spec_exec py (Add ref l p) (H, h) =
     (case (event_name_of ref, positional_arity py (built_or_itself h l)) of
        (Inr name, Inr n) \<Rightarrow> (H(name := H name @ [(p, built_or_itself h l)]), h)
      | _ \<Rightarrow> (H, h))"
| "spec_exec py (Remove ref l) (H, h) =
     (case event_name_of ref of
        Inr name \<Rightarrow> (H(name := filter (\<lambda>x. \<not> same h (snd x) l) (H name)), h)
      | Inl e \<Rightarrow> (H, h))"
| "spec_exec py (Read name) (H, h) = (H, h)"
| "spec_exec py (Resolved h') (H, h) = (H, h')"

definition represents :: "dispatcher \<Rightarrow> registrations \<Rightarrow> bool" where
  "represents d H \<longleftrightarrow>
     (\<forall>name p. map (\<lambda>e. (p, entry_listener e)) (entries_at (by_priority_of d name) p) =
               filter (\<lambda>x. fst x = p) (H name))"

text \<open>Reading the registry after an operation.\<close>

lemma by_priority_of_put [simp]:
  "by_priority_of (put_by_priority name bp d) n = (if n = name then bp else by_priority_of d n)"
  by (simp add: by_priority_of_def put_by_priority_def)

lemma by_priority_of_same [simp]:
  "by_priority_of (forget_sorted name d) n = by_priority_of d n"
  "by_priority_of (note_removal name l es d) n = by_priority_of d n"
  "by_priority_of (prune_pending_removals h name d) n = by_priority_of d n"
  "by_priority_of (snd (sort_entries name d)) n = by_priority_of d n"
  "by_priority_of (d\<lparr>next_id := k\<rparr>) n = by_priority_of d n"
  by (auto simp: by_priority_of_def forget_sorted_def note_removal_def prune_pending_removals_def
                 sort_entries_def Let_def split: option.splits)

lemma entries_at_add [simp]:
  "entries_at (add_entry p e bp) q = (if q = p then entries_at bp p @ [e] else entries_at bp q)"
  by (simp add: entries_at_def add_entry_def)

lemma entries_at_keep [simp]: "entries_at (keep_entries P bp) q = filter P (entries_at bp q)" if "dict_ok bp"
  using that
proof (induction bp)
  case Nil
  then show ?case by (simp add: keep_entries_def entries_at_def dict_get_or_def)
next
  case (Cons x bp)
  moreover have "fst ` set (keep_entries P bp) \<subseteq> fst ` set bp"
    by (force simp: keep_entries_def)
  then have "map_of (keep_entries P bp) (fst x) = None"
    using Cons.prems by (auto simp only: map_of_eq_None_iff dict_ok_def list.map distinct.simps set_map)
  ultimately show ?case
    by (cases x) (auto simp: keep_entries_def entries_at_def dict_get_or_def dict_ok_def
                       split: option.splits)
qed

lemma by_priority_of_add:
  "by_priority_of (snd (add_listener py h ref l p d)) n =
     (case (event_name_of ref, positional_arity py (built_or_itself h l)) of
        (Inr name, Inr k) \<Rightarrow>
          if n = name
          then add_entry p \<lparr>entry_id = next_id d, entry_listener = built_or_itself h l, entry_arity = k\<rparr>
                 (by_priority_of d n)
          else by_priority_of d n
      | _ \<Rightarrow> by_priority_of d n)"
  by (simp add: add_listener_def Let_def append_entry_put split: sum.splits)

lemma by_priority_of_remove:
  "by_priority_of (snd (remove_listener h ref l d)) n =
     (if event_name_of ref = Inr n
      then keep_entries (\<lambda>e. \<not> same h (entry_listener e) l) (by_priority_of d n)
      else by_priority_of d n)"
proof (cases "event_name_of ref")
  case (Inr name)
  then show ?thesis
    by (cases "map_of (registered d) name")
       (auto simp: remove_listener_def Let_def by_priority_of_def [of d] dict_get_or_def keep_entries_def)
qed (simp add: remove_listener_def)

lemma represents_add: "represents d H \<Longrightarrow>
    represents (fst (exec py (Add ref l p) (d, h))) (fst (spec_exec py (Add ref l p) (H, h)))"
  by (auto simp: represents_def by_priority_of_add split: sum.splits)

lemma represents_remove:
  assumes "dispatcher_ok d" "represents d H"
  shows "represents (fst (exec py (Remove ref l) (d, h))) (fst (spec_exec py (Remove ref l) (H, h)))"
  unfolding represents_def
proof (intro allI)
  fix n p
  have H: "filter (\<lambda>x. fst x = p) (H n) = map (\<lambda>e. (p, entry_listener e)) (entries_at (by_priority_of d n) p)"
    using assms(2) by (simp add: represents_def)
  have "filter (\<lambda>x. fst x = p) (filter (\<lambda>x. \<not> same h (snd x) l) (H n)) =
      filter (\<lambda>x. \<not> same h (snd x) l) (filter (\<lambda>x. fst x = p) (H n))"
    by (simp add: conj_commute)
  also have "\<dots> = map (\<lambda>e. (p, entry_listener e))
      (filter (\<lambda>e. \<not> same h (entry_listener e) l) (entries_at (by_priority_of d n) p))"
    by (simp add: H filter_map comp_def)
  finally show "map (\<lambda>e. (p, entry_listener e))
        (entries_at (by_priority_of (fst (exec py (Remove ref l) (d, h))) n) p) =
      filter (\<lambda>x. fst x = p) (fst (spec_exec py (Remove ref l) (H, h)) n)"
    using H dispatcher_ok_distinct(3) [OF assms(1), of n]
    by (cases "event_name_of ref") (auto simp: by_priority_of_remove)
qed

lemma exec_simulates:
  assumes "dispatcher_ok d" "represents d H"
  shows "dispatcher_ok (fst (exec py c (d, h))) \<and> represents (fst (exec py c (d, h))) (fst (spec_exec py c (H, h)))
    \<and> snd (exec py c (d, h)) = snd (spec_exec py c (H, h))"
proof (cases c)
  case (Add ref l p)
  then show ?thesis
    using assms represents_add [of d H py ref l p h]
    by (simp add: registry_ok split: sum.splits prod.splits)
next
  case (Remove ref l)
  then show ?thesis
    using assms represents_remove [OF assms, of py ref l h]
    by (simp add: registry_ok split: sum.splits)
qed (use assms in \<open>simp_all add: registry_ok represents_def\<close>)

lemma run_simulates:
  "dispatcher_ok d \<Longrightarrow> represents d H \<Longrightarrow> fold (exec py) cs (d, h) = (d', h') \<Longrightarrow>
     fold (spec_exec py) cs (H, h) = (H', h'') \<Longrightarrow> dispatcher_ok d' \<and> represents d' H' \<and> h' = h''"
proof (induction cs arbitrary: d H h)
  case Nil
  then show ?case by simp
next
  case (Cons c cs)
  obtain d1 h1 where c: "exec py c (d, h) = (d1, h1)" by fastforce
  obtain H1 h2 where sc: "spec_exec py c (H, h) = (H1, h2)" by fastforce
  have "dispatcher_ok d1 \<and> represents d1 H1 \<and> h1 = h2"
    using exec_simulates [OF Cons.prems(1,2), of py c h] c sc by simp
  then show ?case
    using Cons.IH [of d1 H1 h1] Cons.prems(3,4) c sc by simp
qed

lemma represents_sorted:
  assumes "dispatcher_ok d" "represents d H"
  shows "concat (map (\<lambda>p. map (\<lambda>e. (p, entry_listener e)) (entries_at (by_priority_of d name) p))
      (rev (sort (dict_keys (by_priority_of d name))))) = sort_key (\<lambda>x. - fst x) (H name)"
proof -
  have key: "fst x \<in> set (dict_keys (by_priority_of d name))" if "x \<in> set (H name)" for x
  proof (rule ccontr)
    assume "fst x \<notin> set (dict_keys (by_priority_of d name))"
    then have "entries_at (by_priority_of d name) (fst x) = []"
      unfolding dict_mem_iff by (simp add: entries_at_def dict_get_or_def)
    then have "filter (\<lambda>y. fst y = fst x) (H name) = []"
      using assms(2) by (metis represents_def list.map(1))
    with that show False by (auto simp: filter_empty_conv)
  qed
  have "distinct (dict_keys (by_priority_of d name))"
    using dispatcher_ok_distinct(3) [OF assms(1)] by (simp add: dict_ok_def)
  moreover have "fst ` set (H name) \<subseteq> set (dict_keys (by_priority_of d name))"
    using key by blast
  ultimately show ?thesis
    using grouped_is_sorted [of "dict_keys (by_priority_of d name)" "H name"] assms(2)
    by (simp add: represents_def)
qed

lemma represents_listeners:
  assumes "dispatcher_ok d" "represents d H"
  shows "map entry_listener (running_order (by_priority_of d name)) = map snd (sort_key (\<lambda>x. - fst x) (H name))"
  unfolding represents_sorted [OF assms, symmetric] running_order_def
  by (simp add: map_concat comp_def)

lemma sort_entries_list [simp]:
  "dispatcher_ok d \<Longrightarrow> snd (fst (sort_entries name d)) = running_order (by_priority_of d name)"
  by (auto simp: sort_entries_eq split: option.splits)

lemma get_listeners_order:
  "dispatcher_ok d \<Longrightarrow>
     fst (get_listeners (Event_name name) d) = Inr (map entry_listener (running_order (by_priority_of d name)))"
  by (simp add: get_listeners_def case_prod_beta)

lemma registered_iff_entries:
  assumes "dispatcher_ok d"
  shows "map_of (registered d) name \<noteq> None \<longleftrightarrow> running_order (by_priority_of d name) \<noteq> []"
proof (cases "map_of (registered d) name")
  case None
  then show ?thesis by (simp add: by_priority_of_def dict_get_or_def running_order_def)
next
  case (Some bp)
  with assms have ok: "by_priority_ok (next_id d) bp"
    by (simp add: dispatcher_ok_def)
  then obtain p es where "(p, es) \<in> set bp" "es \<noteq> []"
    by (cases bp) (auto simp: by_priority_ok_def)
  then have "p \<in> set (dict_keys bp)" "entries_at bp p \<noteq> []"
    using ok by (force simp: by_priority_ok_def dict_ok_def entries_at_def dict_get_or_def map_of_eq_Some_iff)+
  then show ?thesis
    using Some by (auto simp: by_priority_of_def dict_get_or_def running_order_def)
qed

text \<open>
  C24: Whatever sequence of additions, removals and readings a dispatcher has been through, and
  however lazy listeners were built elsewhere meanwhile, the listeners of an event are its
  registrations, in the order they were made, stably sorted by descending priority; the event has
  listeners exactly when a registration is left.
\<close>

theorem listeners_refine_registrations:
  "case (fold (exec py) cs (EventDispatcher_init, h), fold (spec_exec py) cs (\<lambda>name. [], h)) of
     ((d, h1), (H, h2)) \<Rightarrow>
       h1 = h2
       \<and> get_prioritized_listeners (Event_name name) d = Inr (sort_key (\<lambda>x. - fst x) (H name))
       \<and> fst (get_listeners (Event_name name) d) = Inr (map snd (sort_key (\<lambda>x. - fst x) (H name)))
       \<and> has_listeners (Some (Event_name name)) d = Inr (H name \<noteq> [])"
proof -
  obtain d h1 where d: "fold (exec py) cs (EventDispatcher_init, h) = (d, h1)" by fastforce
  obtain H h2 where H: "fold (spec_exec py) cs (\<lambda>name. [], h) = (H, h2)" by fastforce
  have "represents EventDispatcher_init (\<lambda>name. [])"
    by (simp add: represents_def EventDispatcher_init_def by_priority_of_def entries_at_def dict_get_or_def)
  then have sim: "dispatcher_ok d" "represents d H" "h1 = h2"
    using run_simulates [OF dispatcher_ok_init _ d H] by auto
  have "running_order (by_priority_of d name) \<noteq> [] \<longleftrightarrow> H name \<noteq> []"
    using represents_listeners [OF sim(1,2), of name]
    by (metis length_0_conv length_map length_sort)
  then show ?thesis
    using sim represents_sorted [OF sim(1,2), of name] represents_listeners [OF sim(1,2), of name]
      registered_iff_entries [OF sim(1), of name]
    by (simp add: d H get_prioritized_listeners_def get_listeners_order has_listeners_def Let_def)
qed

section \<open>A build keeps the place of the listener\<close>

lemma entries_at_subset: "set (entries_at bp q) \<subseteq> set (all_entries bp)"
proof (cases "map_of bp q")
  case (Some es)
  then have "(q, es) \<in> set bp" by (rule map_of_SomeD)
  with Some show ?thesis by (auto simp: entries_at_def dict_get_or_def all_entries_def)
qed (simp add: entries_at_def dict_get_or_def)

lemma distinct_entries_at:
  assumes "dispatcher_ok d"
  shows "distinct (map entry_id (entries_at (by_priority_of d name) p))"
    and "\<And>q e e'. p \<noteq> q \<Longrightarrow> e \<in> set (entries_at (by_priority_of d name) p) \<Longrightarrow>
      e' \<in> set (entries_at (by_priority_of d name) q) \<Longrightarrow> entry_id e \<noteq> entry_id e'"
proof -
  let ?bp = "by_priority_of d name"
  have "distinct (map entry_id (entries_at bp p)) \<and>
      (\<forall>q e e'. p \<noteq> q \<longrightarrow> e \<in> set (entries_at bp p) \<longrightarrow> e' \<in> set (entries_at bp q) \<longrightarrow> entry_id e \<noteq> entry_id e')"
    if "distinct (map entry_id (all_entries bp))" for bp
    using that
  proof (induction bp)
    case Nil
    then show ?case by (simp add: entries_at_def dict_get_or_def)
  next
    case (Cons x bp)
    have sub: "set (entries_at bp q) \<subseteq> set (all_entries bp)" for q
      by (rule entries_at_subset)
    obtain q0 es where x: "x = (q0, es)" by fastforce
    have at: "entries_at (x # bp) q = (if q = q0 then es else entries_at bp q)" for q
      by (simp add: x entries_at_def dict_get_or_def)
    have "distinct (map entry_id es)" "distinct (map entry_id (all_entries bp))"
      "entry_id ` set es \<inter> entry_id ` set (all_entries bp) = {}"
      using Cons.prems by (auto simp: x all_entries_def)
    with Cons.IH sub show ?case
      unfolding at by (cases "p = q0") (simp_all, blast+)
  qed
  from this [OF dispatcher_ok_distinct(1) [OF assms, of name]]
  show "distinct (map entry_id (entries_at ?bp p))"
    and "\<And>q e e'. p \<noteq> q \<Longrightarrow> e \<in> set (entries_at ?bp p) \<Longrightarrow>
      e' \<in> set (entries_at ?bp q) \<Longrightarrow> entry_id e \<noteq> entry_id e'"
    by auto
qed

lemma entries_at_replace:
  assumes "dict_ok bp"
  shows "entries_at (replace_entry i built bp) q = replace_first i built (entries_at bp q)"
  using assms
proof (induction bp)
  case Nil
  then show ?case by (simp add: replace_entry_Cons entries_at_def dict_get_or_def)
next
  case (Cons x bp)
  have "map_of (replace_entry i built bp) (fst x) = None"
    using replace_entry_subset [of i built bp] Cons.prems
    by (auto simp only: map_of_eq_None_iff dict_ok_def list.map distinct.simps set_map)
  with Cons show ?case
    by (cases x) (auto simp: replace_entry_Cons entries_at_def dict_get_or_def dict_ok_def
                       split: option.splits)
qed

lemma concat_map_nonempty:
  "(\<And>x. x \<in> set xs \<Longrightarrow> \<not> P x \<Longrightarrow> f x = []) \<Longrightarrow> concat (map f xs) = concat (map f (filter P xs))"
  by (induction xs) auto

lemma concat_map_concat:
  "concat (map f (concat (map g xs))) = concat (map (\<lambda>x. concat (map f (g x))) xs)"
  by (induction xs) auto

text \<open>Priorities without entries do not matter to the running order.\<close>

lemma running_order_over:
  assumes "dict_ok bp" "distinct ps" "fst ` set bp \<subseteq> set ps"
  shows "running_order bp = concat (map (entries_at bp) (rev (sort ps)))"
proof -
  let ?P = "\<lambda>p. p \<in> set (dict_keys bp)"
  have "filter ?P (sort ps) = sort (dict_keys bp)"
    using assms by (intro sorted_distinct_set_unique) (auto simp: dict_ok_def sorted_wrt_filter)
  then have "filter ?P (rev (sort ps)) = rev (sort (dict_keys bp))"
    by (simp add: rev_filter [symmetric])
  moreover have "entries_at bp p = []" if "\<not> ?P p" for p
    using that unfolding dict_mem_iff by (simp add: entries_at_def dict_get_or_def)
  ultimately show ?thesis
    unfolding running_order_def using concat_map_nonempty [of "rev (sort ps)" ?P "entries_at bp"] by simp
qed

lemma running_order_replace:
  assumes ok: "dispatcher_ok d"
  shows "running_order (replace_entry i built (by_priority_of d name)) =
    concat (map (substituted i built) (running_order (by_priority_of d name)))"
proof -
  let ?bp = "by_priority_of d name" and ?bp' = "replace_entry i built (by_priority_of d name)"
  have dict: "dict_ok ?bp" by (rule dispatcher_ok_distinct(3) [OF ok])
  have "entries_at ?bp' = (\<lambda>q. concat (map (substituted i built) (entries_at ?bp q)))"
    using entries_at_replace [OF dict] replace_first_distinct [OF distinct_entries_at(1) [OF ok]]
    by (intro ext) simp
  moreover have "running_order ?bp' = concat (map (entries_at ?bp') (rev (sort (dict_keys ?bp))))"
    using dict replace_entry_subset [of i built ?bp]
    by (intro running_order_over) (simp_all add: dict_ok_def [symmetric])
  ultimately show ?thesis
    by (simp add: running_order_def concat_map_concat)
qed

lemma by_priority_of_replace [simp]:
  "by_priority_of (replace_listener h name e built d) n =
     (if n = name then replace_entry (entry_id e) built (by_priority_of d n) else by_priority_of d n)"
  by (simp add: replace_listener_def)

lemma by_priority_of_build:
  "by_priority_of (snd (finish_build py h name e l d)) n =
     (case fst (finish_build py h name e l d) of
        Inr built \<Rightarrow> if n = name then replace_entry (entry_id e) built (by_priority_of d n) else by_priority_of d n
      | Inl err \<Rightarrow> by_priority_of d n)"
  by (simp add: finish_build_def Let_def split: sum.splits)

lemma build_keeps_place:
  assumes "dispatcher_ok d" and "finish_build py h name e l d = (Inr built, d')"
  shows "running_order (by_priority_of d' name) =
    concat (map (substituted (entry_id e) built) (running_order (by_priority_of d name)))"
  using by_priority_of_build [of py h name e l d name] running_order_replace [OF assms(1)] assms(2)
  by simp

section \<open>What stays true while other code runs\<close>

lemma next_id_simps [simp]:
  "next_id (forget_sorted name d) = next_id d"
  "next_id (put_by_priority name bp d) = next_id d"
  "next_id (note_removal name l es d) = next_id d"
  "next_id (prune_pending_removals h name d) = next_id d"
  by (auto simp: forget_sorted_def put_by_priority_def note_removal_def prune_pending_removals_def Let_def
           split: option.splits)

lemma sorted_cache_simps [simp]:
  "sorted_cache (put_by_priority name bp d) = sorted_cache d"
  "sorted_cache (note_removal name l es d) = sorted_cache d"
  "sorted_cache (prune_pending_removals h name d) = sorted_cache d"
  "sorted_cache (forget_sorted name d) = dict_del name (sorted_cache d)"
  by (auto simp: forget_sorted_def put_by_priority_def note_removal_def prune_pending_removals_def Let_def
           split: option.splits)

lemma next_id_grows: "registry_step py s s' \<Longrightarrow> next_id (fst s) \<le> next_id (fst s')"
  by (induction rule: registry_step.induct)
     (auto simp: add_listener_def remove_listener_def sort_entries_def finish_build_def
                 append_entry_put replace_listener_def Let_def split: sum.splits option.splits)

text \<open>A cached list that was there before is still the same list.\<close>

lemma cached_list_stable:
  "registry_step py s s' \<Longrightarrow> map_of (sorted_cache (fst s')) name = Some (k, es) \<Longrightarrow> k < next_id (fst s) \<Longrightarrow>
     map_of (sorted_cache (fst s)) name = Some (k, es)"
  by (induction rule: registry_step.induct)
     (auto simp: add_listener_def remove_listener_def sort_entries_def finish_build_def
                 append_entry_put replace_listener_def Let_def
           split: sum.splits option.splits if_splits)

lemma replace_entry_set:
  "set (all_entries (replace_entry i built bp)) \<subseteq> set (all_entries bp) \<union> set_option built"
proof (induction bp)
  case Nil
  then show ?case by (simp add: replace_entry_Cons all_entries_def)
next
  case (Cons x bp)
  have "set (replace_first i built es) \<subseteq> set es \<union> set_option built" for es
    by (induction es) (auto split: option.splits)
  with Cons show ?case
    by (cases x) (fastforce simp: replace_entry_Cons all_entries_def split: if_splits)
qed

text \<open>An entry that is registered, and whose serial number was already drawn, was registered then.\<close>

lemma old_entry_stable:
  assumes "registry_step py s s'" "e \<in> set (all_entries (by_priority_of (fst s') name))"
    "entry_id e < next_id (fst s)"
  shows "e \<in> set (all_entries (by_priority_of (fst s) name))"
  using assms
proof (induction rule: registry_step.induct)
  case (step_build e' i h l d name')
  then show ?case
    using replace_entry_set [of "entry_id e'" built "by_priority_of d name" for built]
    by (fastforce simp: by_priority_of_build finish_build_def Let_def split: sum.splits if_splits)
qed (auto simp: by_priority_of_add by_priority_of_remove split: sum.splits if_splits)

lemma registry_steps_stable:
  assumes "registry_steps py s s'"
  shows "next_id (fst s) \<le> next_id (fst s')"
    and "map_of (sorted_cache (fst s')) name = Some (k, es) \<Longrightarrow> k < next_id (fst s) \<Longrightarrow>
      map_of (sorted_cache (fst s)) name = Some (k, es)"
    and "e \<in> set (all_entries (by_priority_of (fst s') name)) \<Longrightarrow> entry_id e < next_id (fst s) \<Longrightarrow>
      e \<in> set (all_entries (by_priority_of (fst s) name))"
  using assms
proof (induction arbitrary: rule: rtranclp_induct)
  case (step s' s'')
  note one = next_id_grows [OF step.hyps(2)] cached_list_stable [OF step.hyps(2), of name k es]
    old_entry_stable [OF step.hyps(2), of e name]
  { case 1 then show ?case using step.IH one by linarith
  next case 2 then show ?case using step.IH one by force
  next case 3 then show ?case using step.IH one by force }
qed simp_all

section \<open>Removals that wait for a build\<close>

definition awaits :: "dispatcher \<Rightarrow> string \<Rightarrow> obj \<times> string \<Rightarrow> entry \<Rightarrow> bool" where
  "awaits d name owner e \<longleftrightarrow>
     list_ex (\<lambda>r. removal_obj r = fst owner \<and> removal_method r = snd owner
                  \<and> list_ex (\<lambda>e'. entry_id e' = entry_id e) (removal_unbuilt r))
       (dict_get_or (pending_removals d) name [])"

lemma removal_drops_awaits:
  "removal_drops d name e l \<longleftrightarrow> (\<exists>owner. owner_of l = Some owner \<and> awaits d name owner e)"
  by (auto simp: removal_drops_def awaits_def split: option.splits)

lemma pending_simps [simp]:
  "pending_removals (forget_sorted name d) = pending_removals d"
  "pending_removals (put_by_priority name bp d) = pending_removals d"
  "pending_removals (snd (sort_entries name d)) = pending_removals d"
  "pending_removals (append_entry name l arity p d) = pending_removals d"
  by (auto simp: forget_sorted_def put_by_priority_def sort_entries_def append_entry_def Let_def
           split: option.splits)

lemma awaits_cong: "pending_removals d = pending_removals d' \<Longrightarrow> awaits d name owner e = awaits d' name owner e"
  by (simp add: awaits_def)

lemma awaits_note: "awaits d name owner e \<Longrightarrow> awaits (note_removal name' l es d) name owner e"
  by (auto simp: awaits_def note_removal_def split: option.splits)

lemma awaits_noted:
  "owner_of l = Some owner \<Longrightarrow> e \<in> set es \<Longrightarrow> awaits (note_removal name l es d) name owner e"
  by (cases owner) (auto simp: awaits_def note_removal_def list_ex_iff)

text \<open>Pruning forgets nothing about an entry that is still registered and still unbuilt.\<close>

lemma awaits_prune:
  assumes "awaits d name owner e" and "e \<in> set (unbuilt_entries h (by_priority_of d name))"
  shows "awaits (prune_pending_removals h name' d) name owner e"
proof (cases "name' = name")
  case True
  let ?rs = "dict_get_or (pending_removals d) name []"
  let ?W = "unbuilt_entries h (by_priority_of d name)"
  from assms(1) obtain r e' where r: "r \<in> set ?rs" "removal_obj r = fst owner" "removal_method r = snd owner"
    and e': "e' \<in> set (removal_unbuilt r)" "entry_id e' = entry_id e"
    by (auto simp: awaits_def list_ex_iff)
  have "e' \<in> set (removal_unbuilt (still_waiting ?W r))"
    using e' assms(2) by (auto simp: still_waiting_def list_ex_iff)
  moreover have "still_waiting ?W r \<in> set (filter (\<lambda>r. removal_unbuilt r \<noteq> []) (map (still_waiting ?W) ?rs))"
    using r(1) calculation by force
  moreover have "removal_obj (still_waiting ?W r) = fst owner" "removal_method (still_waiting ?W r) = snd owner"
    using r by (simp_all add: still_waiting_def)
  ultimately have "list_ex (\<lambda>r. removal_obj r = fst owner \<and> removal_method r = snd owner
                  \<and> list_ex (\<lambda>e'. entry_id e' = entry_id e) (removal_unbuilt r))
      (filter (\<lambda>r. removal_unbuilt r \<noteq> []) (map (still_waiting ?W) ?rs))"
    using e'(2) unfolding list_ex_iff by blast
  moreover have "?rs \<noteq> []" using r(1) by auto
  ultimately show ?thesis
    unfolding awaits_def prune_pending_removals_def Let_def True
    by (cases "filter (\<lambda>r. removal_unbuilt r \<noteq> []) (map (still_waiting ?W) ?rs) = []")
       (simp_all del: list_ex_iff filter_map)
next
  case False
  then show ?thesis
    using assms(1) by (simp add: awaits_def prune_pending_removals_def Let_def)
qed

lemma unbuilt_entries_iff:
  "e \<in> set (unbuilt_entries h bp) \<longleftrightarrow> e \<in> set (all_entries bp) \<and> is_unbuilt h (entry_listener e)"
  by (auto simp: unbuilt_entries_def)

lemma awaits_step:
  assumes "registry_step py s s'" and "awaits (fst s) name owner e"
    and "e \<in> set (unbuilt_entries (snd s') (by_priority_of (fst s') name))"
  shows "awaits (fst s') name owner e"
  using assms
proof (induction rule: registry_step.induct)
  case (step_add d h ref l p)
  then show ?case
    by (auto simp: add_listener_def Let_def awaits_def split: sum.splits)
next
  case (step_remove d h ref l)
  then show ?case
    by (auto simp: remove_listener_def Let_def split: sum.splits option.splits
             intro!: awaits_prune awaits_note simp: awaits_def [of "forget_sorted _ _"] awaits_def [of d])
next
  case (step_read d h n)
  then show ?case by (simp add: awaits_def)
next
  case (step_build e' i h l d n)
  then show ?case
    by (auto simp: finish_build_def replace_listener_def Let_def split: sum.splits if_splits
             intro!: awaits_prune simp: awaits_def [of "forget_sorted _ _"] awaits_def [of d])
next
  case (step_resolve h h' d)
  then show ?case by simp
qed

lemma awaits_steps:
  assumes "registry_steps py s s'" and "awaits (fst s) name owner e" and "entry_id e < next_id (fst s)"
    and "e \<in> set (unbuilt_entries (snd s') (by_priority_of (fst s') name))"
  shows "awaits (fst s') name owner e"
  using assms(1,4)
proof (induction rule: rtranclp_induct)
  case base
  then show ?case using assms(2) by simp
next
  case (step s' s'')
  have "entry_id e < next_id (fst s')"
    using registry_steps_stable(1) [OF step.hyps(1)] assms(3) by linarith
  then have "e \<in> set (all_entries (by_priority_of (fst s') name))"
    using old_entry_stable [OF step.hyps(2), of e name] step.prems by (simp add: unbuilt_entries_iff)
  moreover have "is_unbuilt (snd s') (entry_listener e)"
    using registry_steps_lazies [OF r_into_rtranclp [of "registry_step py", OF step.hyps(2)]] step.prems
    by (auto simp: unbuilt_entries_iff intro: lazies_grow_unbuilt)
  ultimately show ?case
    using step by (simp add: awaits_step unbuilt_entries_iff)
qed

lemma build_dropped:
  assumes "dispatcher_ok d" and "owner_of l = Some owner" and "awaits d name owner e"
  shows "\<exists>d'. finish_build py h name e l d = (Inr None, d') \<and> e \<notin> set (all_entries (by_priority_of d' name))"
proof -
  have "finish_build py h name e l d = (Inr None, replace_listener h name e None d)"
    using assms by (simp add: finish_build_def removal_drops_awaits)
  moreover have "set (all_entries (replace_entry (entry_id e) None (by_priority_of d name))) =
      {e' \<in> set (all_entries (by_priority_of d name)). entry_id e' \<noteq> entry_id e}"
    using dispatcher_ok_distinct(1) [OF assms(1), of name]
    by (simp only: replace_entry_all substituted_set) simp
  ultimately show ?thesis by simp
qed

text \<open>
  C26: Removing a method while a lazy listener of the event is not built yet reaches that listener:
  whatever happens to the dispatcher in between, if it is still registered and still unbuilt, then
  building it into the removed method drops it, and it does not run.
\<close>

theorem removal_reaches_unbuilt:
  assumes "dispatcher_ok d" and "event_name_of ref = Inr name" and "owner_of l = Some owner"
    and removed: "remove_listener h ref l d = (r, d1)"
    and waiting: "e \<in> set (unbuilt_entries h (by_priority_of d1 name))"
    and later: "registry_steps py (d1, h) (d2, h2)"
    and still: "e \<in> set (unbuilt_entries h2 (by_priority_of d2 name))"
    and built: "owner_of l' = Some owner"
  shows "\<exists>d3. finish_build py h3 name e l' d2 = (Inr None, d3)
           \<and> e \<notin> set (all_entries (by_priority_of d3 name))"
proof (rule build_dropped)
  have ok: "dispatcher_ok d1"
    using dispatcher_ok_remove [OF assms(1), of h ref l] removed by simp
  then show "dispatcher_ok d2"
    using registry_steps_ok [OF later] by simp
  have e: "e \<in> set (unbuilt_entries h (keep_entries (\<lambda>e. \<not> same h (entry_listener e) l) (by_priority_of d name)))"
    using waiting by_priority_of_remove [of h ref l d name] removed assms(2) by simp
  obtain bp where bp: "map_of (registered d) name = Some bp"
    using e by (cases "map_of (registered d) name")
      (auto simp: by_priority_of_def dict_get_or_def keep_entries_def unbuilt_entries_def all_entries_def)
  have "by_priority_of d name = bp"
    using bp by (simp add: by_priority_of_def dict_get_or_def)
  then have "awaits d1 name owner e"
    using removed assms(2) bp e
    by (auto simp: remove_listener_def Let_def intro!: awaits_prune awaits_noted [OF assms(3)])
  moreover have "entry_id e < next_id d1"
    using dispatcher_ok_distinct(2) [OF ok] waiting by (auto simp: unbuilt_entries_iff)
  ultimately show "awaits d2 name owner e"
    using awaits_steps [OF later, of name owner e] still by simp
qed (rule built)

text \<open>
  A concrete program: every listener takes the event, and the lazy listener 0 builds the method
  \<open>on_placed\<close> of the object 7.
\<close>

definition shop_reflection :: reflection where
  "shop_reflection =
     \<lparr>inspect_signature = (\<lambda>l. Some [\<lparr>param_name = ''event'', param_kind = POSITIONAL_OR_KEYWORD,
                                        param_required = True\<rparr>]),
      get_attribute = (\<lambda>l m. case l of Callable_object ob \<Rightarrow> Some (Bound_method ob m) | _ \<Rightarrow> None),
      class_of = (\<lambda>ob. ''shop.Mailer'')\<rparr>"

definition shop_unbuilt :: lazies where
  "shop_unbuilt = (\<lambda>i. LazyListener_init 0 ''on_placed'')"

definition shop_built :: lazies where
  "shop_built = shop_unbuilt(0 := (shop_unbuilt 0)\<lparr>lazy_resolved := Some (Bound_method 7 ''on_placed''), lazy_arity := 1\<rparr>)"

definition shop_entry :: entry where
  "shop_entry = \<lparr>entry_id = 0, entry_listener = Lazy_listener 0, entry_arity = 3\<rparr>"

definition shop :: dispatcher where
  "shop = snd (add_listener shop_reflection shop_unbuilt (Event_name ''placed'') (Lazy_listener 0) 0 EventDispatcher_init)"

definition shop_removed :: dispatcher where
  "shop_removed = snd (remove_listener shop_unbuilt (Event_name ''placed'') (Bound_method 7 ''on_placed'') shop)"

lemmas shop_defs =
  shop_reflection_def shop_unbuilt_def shop_built_def shop_entry_def shop_def shop_removed_def
  LazyListener_init_def EventDispatcher_init_def

lemma shop_eq: "shop = \<lparr>registered = [(''placed'', [(0, [shop_entry])])], sorted_cache = [],
    pending_removals = [], next_id = 1\<rparr>"
  by (simp add: shop_defs add_listener_def built_or_itself_def resolved_in_def positional_arity_def
      signature_of_def lazy_signature_def signature_arity_def count_parameter_def append_entry_def
      add_entry_def entries_at_def by_priority_of_def dict_get_or_def forget_sorted_def ARGUMENTS_def)

lemma shop_removed_eq: "shop_removed = shop\<lparr>pending_removals :=
    [(''placed'', [\<lparr>removal_obj = 7, removal_method = ''on_placed'', removal_unbuilt = [shop_entry]\<rparr>])]\<rparr>"
  by (simp add: shop_removed_def shop_eq remove_listener_def same_def resolved_in_def shop_unbuilt_def
      LazyListener_init_def keep_entries_def unbuilt_entries_def all_entries_def shop_entry_def
      put_by_priority_def forget_sorted_def note_removal_def prune_pending_removals_def still_waiting_def
      by_priority_of_def dict_get_or_def Let_def)

lemma shop_ok: "dispatcher_ok shop" "dispatcher_ok shop_removed"
  by (simp_all add: shop_removed_def shop_def dispatcher_ok_add dispatcher_ok_remove)

lemma shop_built_resolved [simp]: "resolved_in shop_built 0 = Some (Bound_method 7 ''on_placed'')"
  by (auto simp: resolved_in_def shop_built_def)

lemma shop_waiting: "shop_entry \<in> set (unbuilt_entries shop_unbuilt (by_priority_of shop_removed ''placed''))"
  by (simp add: shop_removed_eq shop_eq by_priority_of_def dict_get_or_def unbuilt_entries_def all_entries_def
      shop_entry_def shop_unbuilt_def LazyListener_init_def resolved_in_def)

theorem removal_reaches_unbuilt_witness:
  "\<exists>d3. finish_build shop_reflection shop_built ''placed'' shop_entry (Bound_method 7 ''on_placed'') shop_removed
          = (Inr None, d3)
        \<and> shop_entry \<notin> set (all_entries (by_priority_of d3 ''placed''))"
proof (rule removal_reaches_unbuilt)
  show "remove_listener shop_unbuilt (Event_name ''placed'') (Bound_method 7 ''on_placed'') shop
      = (fst (remove_listener shop_unbuilt (Event_name ''placed'') (Bound_method 7 ''on_placed'') shop), shop_removed)"
    by (simp add: shop_removed_def)
qed (use shop_ok shop_waiting in auto)

section \<open>A removal that is forgotten\<close>

text \<open>
  A lazy listener may be built elsewhere: it is registered for another event as well, or it is
  called directly. It then counts as built when pending removals are pruned, although the removal
  has not been applied to it here.
\<close>

lemma prune_not_awaits:
  assumes "\<And>e'. e' \<in> set (unbuilt_entries h (by_priority_of d name)) \<Longrightarrow> entry_id e' \<noteq> entry_id e"
  shows "\<not> awaits (prune_pending_removals h name d) name owner e"
  using assms
  by (auto simp: awaits_def prune_pending_removals_def Let_def list_ex_iff still_waiting_def)

lemma distinct_ids_inj:
  "distinct (map entry_id es) \<Longrightarrow> e \<in> set es \<Longrightarrow> e' \<in> set es \<Longrightarrow> entry_id e' = entry_id e \<Longrightarrow> e' = e"
  by (metis distinct_map inj_on_eq_iff)

text \<open>
  A removal kept for an unbuilt lazy listener is lost when that listener is built elsewhere and
  any other listener is then removed from the event: the next dispatch of the event finds the
  listener built, installs the method that was removed, and runs it.
\<close>

theorem removal_lost_when_built_elsewhere:
  assumes "dispatcher_ok d" and e: "e \<in> set (all_entries (by_priority_of d name))"
    and lazy: "entry_listener e = Lazy_listener i" and built: "resolved_in h i = Some l"
    and pending: "owner_of l = Some owner" "awaits d name owner e"
    and other: "\<not> same h (Lazy_listener i) other" "remove_listener h (Event_name name) other d = (r, d1)"
    and arity: "positional_arity py l = Inr n"
  shows "\<exists>b d2. finish_build py h name e l d1 = (Inr (Some b), d2) \<and> entry_listener b = l
           \<and> b \<in> set (all_entries (by_priority_of d2 name))"
proof -
  have ok: "dispatcher_ok d1"
    using dispatcher_ok_remove [OF assms(1), of h "Event_name name" other] other(2) by simp
  note ids = dispatcher_ok_distinct(1) [OF ok, of name]
  have e1: "e \<in> set (all_entries (by_priority_of d1 name))"
    using by_priority_of_remove [of h "Event_name name" other d name] other e lazy by simp
  have not_unbuilt: "\<not> is_unbuilt h (entry_listener e)"
    by (simp add: lazy built)
  have "\<exists>d0. d1 = prune_pending_removals h name d0"
    using other(2) e
    by (cases "map_of (registered d) name")
       (auto simp: remove_listener_def Let_def by_priority_of_def dict_get_or_def all_entries_def)
  then obtain d0 where d0: "d1 = prune_pending_removals h name d0" by blast
  have "\<not> awaits d1 name owner e"
    unfolding d0
  proof (rule prune_not_awaits)
    fix e' assume "e' \<in> set (unbuilt_entries h (by_priority_of d0 name))"
    then have "e' \<in> set (all_entries (by_priority_of d1 name))" "is_unbuilt h (entry_listener e')"
      by (simp_all add: d0 unbuilt_entries_iff)
    then show "entry_id e' \<noteq> entry_id e"
      using distinct_ids_inj [OF ids e1] not_unbuilt by blast
  qed
  then have b: "finish_build py h name e l d1 =
      (Inr (Some \<lparr>entry_id = next_id d1, entry_listener = l, entry_arity = n\<rparr>),
       replace_listener h name e (Some \<lparr>entry_id = next_id d1, entry_listener = l, entry_arity = n\<rparr>)
         (d1\<lparr>next_id := next_id d1 + 1\<rparr>))"
    using pending(1) arity by (simp add: finish_build_def removal_drops_awaits Let_def)
  have "set (all_entries (replace_entry (entry_id e) (Some b) (by_priority_of d1 name))) =
      {e' \<in> set (all_entries (by_priority_of d1 name)). entry_id e' \<noteq> entry_id e} \<union> {b}" for b
    using ids e1 by (simp only: replace_entry_all substituted_set) auto
  then show ?thesis unfolding b by simp
qed

theorem removal_lost_when_built_elsewhere_witness:
  "\<exists>b d2. finish_build shop_reflection shop_built ''placed'' shop_entry (Bound_method 7 ''on_placed'')
             (snd (remove_listener shop_built (Event_name ''placed'') (Routine ''shop.audit'') shop_removed))
           = (Inr (Some b), d2)
        \<and> entry_listener b = Bound_method 7 ''on_placed''
        \<and> b \<in> set (all_entries (by_priority_of d2 ''placed''))"
proof (rule removal_lost_when_built_elsewhere [where i = 0])
  show "remove_listener shop_built (Event_name ''placed'') (Routine ''shop.audit'') shop_removed
      = (fst (remove_listener shop_built (Event_name ''placed'') (Routine ''shop.audit'') shop_removed),
         snd (remove_listener shop_built (Event_name ''placed'') (Routine ''shop.audit'') shop_removed))"
    by simp
  show "shop_entry \<in> set (all_entries (by_priority_of shop_removed ''placed''))"
    using shop_waiting by (simp add: unbuilt_entries_iff)
  show "awaits shop_removed ''placed'' (7, ''on_placed'') shop_entry"
    by (simp add: awaits_def shop_removed_eq dict_get_or_def)
  show "positional_arity shop_reflection (Bound_method 7 ''on_placed'') = Inr 1"
    by (simp add: positional_arity_def signature_of_def shop_reflection_def signature_arity_def
        count_parameter_def ARGUMENTS_def)
qed (simp_all add: shop_ok shop_entry_def shop_built_resolved same_def)

end
