(* ===== verification/Event_Dispatch.thy ===== *)
theory Event_Dispatch
  imports Event_Dispatcher
begin

text \<open>
  Dispatching an event (\<open>dispatch\<close>, \<open>dispatch_through\<close> and \<open>_build\<close> of \<open>event_dispatcher.py\<close>).
  Dispatchers are objects in a store, so that the code a listener runs can reach the dispatcher
  that is running it: while a listener or a factory is awaited, the dispatcher may go through any
  steps of its registry.
\<close>

section \<open>The dispatchers of a program\<close>

record world = store +
  dispatchers :: "nat \<Rightarrow> dispatcher"

definition on_dispatcher ::
  "nat \<Rightarrow> (dispatcher, event_error, 'a) prog \<Rightarrow> ('x world_scheme, event_error, 'a) prog" where
  "on_dispatcher this f = (\<lambda>w.
     case f (dispatchers w this) of (r, d) \<Rightarrow> (r, w\<lparr>dispatchers := (dispatchers w)(this := d)\<rparr>))"

definition sort_here :: "nat \<Rightarrow> string \<Rightarrow> 'x world_scheme \<Rightarrow> (nat option \<times> entry list) \<times> 'x world_scheme" where
  "sort_here this name w =
     (case sort_entries name (dispatchers w this) of
        (r, d) \<Rightarrow> (r, w\<lparr>dispatchers := (dispatchers w)(this := d)\<rparr>))"

type_synonym 'w factories = "nat \<Rightarrow> ('w, event_error, listener) prog"

text \<open>\<open>ListenerCall\<close>: the listener as registered, what runs, its arity and the arguments.\<close>

type_synonym 'w listener_call =
  "listener \<Rightarrow> listener \<Rightarrow> nat \<Rightarrow> argument list \<Rightarrow> ('w, event_error, unit) prog"

section \<open>Building and running one entry\<close>

definition build_entry ::
  "reflection \<Rightarrow> ('x world_scheme) factories \<Rightarrow> nat \<Rightarrow> string \<Rightarrow> entry \<Rightarrow> lazy_id
     \<Rightarrow> ('x world_scheme, event_error, entry option) prog" where
  "build_entry py factory this name e i =
     andthen (resolve py factory i)
       (\<lambda>l w. on_dispatcher this (finish_build py (lazies w) name e l) w)"

definition run_entry ::
  "reflection \<Rightarrow> ('x world_scheme) factories \<Rightarrow> ('x world_scheme) listener_call \<Rightarrow> nat \<Rightarrow> string
     \<Rightarrow> argument list \<Rightarrow> entry \<Rightarrow> ('x world_scheme, event_error, unit) prog" where
  "run_entry py factory call this name arguments e =
     andthen (case entry_listener e of
                Lazy_listener i \<Rightarrow> build_entry py factory this name e i
              | _ \<Rightarrow> ret (Some e))
       (\<lambda>runnable.
          case runnable of
            None \<Rightarrow> ret ()
          | Some b \<Rightarrow> call (entry_listener e) (entry_listener b) (entry_arity b) arguments)"

section \<open>The loop\<close>

text \<open>
  \<open>self._sorted.get(name) is not current\<close>: the list read last is no longer the cached one. The
  list of an event without listeners is never cached.
\<close>

definition order_changed :: "dispatcher \<Rightarrow> string \<Rightarrow> nat option \<Rightarrow> bool" where
  "order_changed d name current =
     (case (map_of (sorted_cache d) name, current) of
        (Some (s, es), Some k) \<Rightarrow> s \<noteq> k
      | _ \<Rightarrow> True)"

text \<open>The serial numbers registered now, read again only when the order changed.\<close>

definition refresh ::
  "nat \<Rightarrow> string \<Rightarrow> nat option \<Rightarrow> nat list option \<Rightarrow> 'x world_scheme
     \<Rightarrow> (nat option \<times> nat list option) \<times> 'x world_scheme" where
  "refresh this name current known w =
     (if order_changed (dispatchers w this) name current
      then (case sort_here this name w of
              ((current', es), w') \<Rightarrow> ((current', Some (map entry_id es)), w'))
      else ((current, known), w))"

definition still_known :: "nat list option \<Rightarrow> entry \<Rightarrow> bool" where
  "still_known known e = (case known of None \<Rightarrow> True | Some ids \<Rightarrow> entry_id e \<in> set ids)"

definition event_is_stopped :: "event \<Rightarrow> 'x world_scheme \<Rightarrow> bool" where
  "event_is_stopped event w = (event_stoppable event \<and> is_propagation_stopped event w)"

fun dispatch_loop ::
  "reflection \<Rightarrow> ('x world_scheme) factories \<Rightarrow> ('x world_scheme) listener_call \<Rightarrow> nat \<Rightarrow> event \<Rightarrow> string
     \<Rightarrow> argument list \<Rightarrow> entry list \<Rightarrow> nat option \<Rightarrow> nat list option \<Rightarrow> ('x world_scheme, event_error, event) prog" where
  "dispatch_loop py factory call this event name arguments [] current known w = (Inr event, w)"
| "dispatch_loop py factory call this event name arguments (e # es) current known w =
     (if event_is_stopped event w then (Inr event, w)
      else case refresh this name current known w of
        ((current', known'), w1) \<Rightarrow>
          if still_known known' e
          then andthen (run_entry py factory call this name arguments e)
                 (\<lambda>u. dispatch_loop py factory call this event name arguments es current' known') w1
          else dispatch_loop py factory call this event name arguments es current' known' w1)"

definition dispatch_name :: "event \<Rightarrow> event_ref option \<Rightarrow> event_error + string" where
  "dispatch_name event ref = event_name_of (case ref of None \<Rightarrow> event_type event | Some r \<Rightarrow> r)"

definition dispatch_through ::
  "reflection \<Rightarrow> ('x world_scheme) factories \<Rightarrow> nat \<Rightarrow> event \<Rightarrow> event_ref option \<Rightarrow> nat
     \<Rightarrow> ('x world_scheme) listener_call \<Rightarrow> ('x world_scheme, event_error, event) prog" where
  "dispatch_through py factory this event ref dispatcher call = (\<lambda>w.
     case dispatch_name event ref of
       Inl err \<Rightarrow> (Inl err, w)
     | Inr name \<Rightarrow>
         (case sort_here this name w of
            ((current, running), w1) \<Rightarrow>
              dispatch_loop py factory call this event name
                [Arg_event event, Arg_name name, Arg_dispatcher dispatcher] running current None w1))"

text \<open>\<open>_call\<close>: run the listener as a dispatcher on its own does.\<close>

definition plain_call :: "'w invocation \<Rightarrow> 'w listener_call" where
  "plain_call invoke reg l arity arguments = call_listener invoke l arity arguments"

definition dispatch ::
  "reflection \<Rightarrow> ('x world_scheme) factories \<Rightarrow> ('x world_scheme) invocation \<Rightarrow> nat \<Rightarrow> event
     \<Rightarrow> event_ref option \<Rightarrow> ('x world_scheme, event_error, event) prog" where
  "dispatch py factory invoke this event ref =
     dispatch_through py factory this event ref this (plain_call invoke)"

section \<open>What other code may do meanwhile\<close>

definition evolves :: "reflection \<Rightarrow> nat \<Rightarrow> 'x world_scheme \<Rightarrow> 'x world_scheme \<Rightarrow> bool" where
  "evolves py this w w' \<longleftrightarrow>
     registry_steps py (dispatchers w this, lazies w) (dispatchers w' this, lazies w')"

text \<open>Code that touches the dispatcher only through its operations.\<close>

definition well_behaved :: "reflection \<Rightarrow> nat \<Rightarrow> ('x world_scheme, event_error, 'a) prog \<Rightarrow> bool" where
  "well_behaved py this f \<longleftrightarrow> (\<forall>w r w'. f w = (r, w') \<longrightarrow> evolves py this w w')"

lemma evolves_refl [simp, intro]: "evolves py this w w"
  by (simp add: evolves_def)

lemma evolves_trans: "evolves py this w w' \<Longrightarrow> evolves py this w' w'' \<Longrightarrow> evolves py this w w''"
  by (simp add: evolves_def)

lemma well_behavedD: "well_behaved py this f \<Longrightarrow> f w = (r, w') \<Longrightarrow> evolves py this w w'"
  by (simp add: well_behaved_def)

lemma well_behavedI: "(\<And>w r w'. f w = (r, w') \<Longrightarrow> evolves py this w w') \<Longrightarrow> well_behaved py this f"
  by (simp add: well_behaved_def)

lemma well_behaved_andthen:
  assumes "well_behaved py this f" and "\<And>x. well_behaved py this (g x)"
  shows "well_behaved py this (andthen f g)"
proof (rule well_behavedI)
  fix w r w'
  assume "andthen f g w = (r, w')"
  then show "evolves py this w w'"
    using well_behavedD [OF assms(1)] well_behavedD [OF assms(2)]
    by (auto simp: andthen_def split: prod.splits sum.splits) (metis evolves_trans)
qed

lemma well_behaved_ret [simp]: "well_behaved py this (ret x)"
  by (simp add: well_behaved_def)

lemma evolves_lazies: "evolves py this w w' \<Longrightarrow> lazies_grow (lazies w) (lazies w')"
  using registry_steps_lazies [of py "(dispatchers w this, lazies w)"] by (fastforce simp: evolves_def)

lemma evolves_ok: "evolves py this w w' \<Longrightarrow> dispatcher_ok (dispatchers w this) \<Longrightarrow> dispatcher_ok (dispatchers w' this)"
  using registry_steps_ok [of py "(dispatchers w this, lazies w)"] by (fastforce simp: evolves_def)

lemma keep_resolved_dispatchers [simp]: "dispatchers (keep_resolved i l n w) = dispatchers w"
  by (simp add: keep_resolved_def)

lemma evolves_keep:
  "resolved_in (lazies w) i = None \<Longrightarrow> evolves py this w (keep_resolved i l n w)"
  unfolding evolves_def
  by (auto intro!: r_into_rtranclp registry_step.step_resolve lazies_grow_keep)

lemma well_behaved_resolve:
  assumes "\<And>f. well_behaved py this (factory f)"
  shows "well_behaved py this (resolve py factory i)"
proof (rule well_behavedI)
  fix w r w'
  assume "resolve py factory i w = (r, w')"
  then show "evolves py this w w'"
    using well_behavedD [OF assms]
    by (auto simp: resolve_def andthen_def split: option.splits sum.splits prod.splits
             intro: evolves_keep)
       (metis evolves_trans evolves_keep)
qed

lemma sort_here_evolves: "sort_here this name w = (x, w') \<Longrightarrow> evolves py this w w'"
  using registry_step.step_read [of py "dispatchers w this" "lazies w" name]
  by (auto simp: sort_here_def evolves_def split: prod.splits intro!: r_into_rtranclp)

lemma resolve_resolves:
  assumes "resolve py factory i w = (Inr l, w')" and "\<And>f. well_behaved py this (factory f)"
  shows "resolved_in (lazies w') i = Some l"
  using resolve_grows(2) [OF assms(1) _ refl] evolves_lazies [OF well_behavedD [OF assms(2)]] by blast

lemma finish_build_evolves:
  assumes "entry_listener e = Lazy_listener i" "resolved_in (lazies w) i = Some l"
    and "on_dispatcher this (finish_build py (lazies w) name e l) w = (r, w')"
  shows "evolves py this w w'"
  using registry_step.step_build [OF assms(1,2), of py "dispatchers w this" name] assms(3)
  by (auto simp: on_dispatcher_def evolves_def split: prod.splits intro!: r_into_rtranclp)

lemma build_entry_evolves:
  assumes "entry_listener e = Lazy_listener i" and fact: "\<And>f. well_behaved py this (factory f)"
    and "build_entry py factory this name e i w = (r, w')"
  shows "evolves py this w w'"
proof -
  obtain r1 w1 where r1: "resolve py factory i w = (r1, w1)" by fastforce
  have w1: "evolves py this w w1"
    by (rule well_behavedD [OF well_behaved_resolve [OF fact] r1])
  show ?thesis
  proof (cases r1)
    case (Inl err)
    with assms(3) r1 w1 show ?thesis by (simp add: build_entry_def andthen_def)
  next
    case (Inr l)
    have "resolved_in (lazies w1) i = Some l"
      using resolve_resolves [of py factory i w l w1 this] r1 Inr fact by simp
    then show ?thesis
      using finish_build_evolves [OF assms(1), of w1 l] assms(3) r1 Inr w1
      by (auto simp: build_entry_def andthen_def intro: evolves_trans)
  qed
qed

lemma well_behaved_run_entry:
  assumes fact: "\<And>f. well_behaved py this (factory f)"
    and call: "\<And>reg l n. well_behaved py this (call reg l n arguments)"
  shows "well_behaved py this (run_entry py factory call this name arguments e)"
proof -
  have "well_behaved py this (case entry_listener e of
      Lazy_listener i \<Rightarrow> build_entry py factory this name e i | _ \<Rightarrow> ret (Some e))"
    using build_entry_evolves [OF _ fact]
    by (auto intro: well_behavedI split: listener.splits)
  moreover have "well_behaved py this (case runnable of
      None \<Rightarrow> ret () | Some b \<Rightarrow> call (entry_listener e) (entry_listener b) (entry_arity b) arguments)" for runnable
    using call by (auto simp: well_behaved_def split: option.splits)
  ultimately show ?thesis
    unfolding run_entry_def by (rule well_behaved_andthen)
qed

lemma refresh_evolves: "refresh this name current known w = (x, w') \<Longrightarrow> evolves py this w w'"
  by (auto simp: refresh_def split: if_splits prod.splits intro: sort_here_evolves)

lemma dispatch_loop_evolves:
  assumes run: "\<And>e. well_behaved py this (run_entry py factory call this name arguments e)"
    and "dispatch_loop py factory call this event name arguments es current known w = (r, w')"
  shows "evolves py this w w'"
  using assms(2)
proof (induction es arbitrary: current known w)
  case Nil
  then show ?case by simp
next
  case (Cons e es)
  obtain c k w1 where ref: "refresh this name current known w = ((c, k), w1)"
    by (metis surj_pair)
  note w1 = refresh_evolves [OF ref, of py]
  show ?case
    using Cons well_behavedD [OF run [of e]] w1
    by (auto simp: ref andthen_def split: if_splits prod.splits sum.splits intro: evolves_trans)
       (metis evolves_trans)
qed

text \<open>
  A dispatch is itself made of steps of the registry, so a listener may dispatch again: what it
  does is then one more way to respect the dispatcher.
\<close>

lemma well_behaved_dispatch:
  assumes "\<And>f. well_behaved py this (factory f)" and "\<And>l args. well_behaved py this (invoke l args)"
  shows "well_behaved py this (dispatch py factory invoke this event ref)"
proof (rule well_behavedI)
  fix w r w'
  have run: "well_behaved py this (run_entry py factory (plain_call invoke) this name args e)" for name args e
    by (rule well_behaved_run_entry [OF assms(1)]) (simp add: plain_call_def call_listener_def assms(2))
  assume d: "dispatch py factory invoke this event ref w = (r, w')"
  show "evolves py this w w'"
  proof (cases "dispatch_name event ref")
    case (Inl err)
    with d show ?thesis by (simp add: dispatch_def dispatch_through_def)
  next
    case (Inr name)
    obtain c es w1 where s: "sort_here this name w = ((c, es), w1)" by (metis surj_pair)
    have "evolves py this w1 w'"
      using d Inr s by (auto simp: dispatch_def dispatch_through_def intro: dispatch_loop_evolves [OF run])
    with sort_here_evolves [OF s] show ?thesis by (rule evolves_trans)
  qed
qed

section \<open>Which listeners a dispatch calls\<close>

text \<open>
  The turn of a listener comes, in a world \<open>v\<close> that a dispatch begun in \<open>w0\<close> reaches: it was registered when the
  dispatch began, it is registered now, as this entry, and the event is not stopped.
\<close>

definition on_turn :: "reflection \<Rightarrow> nat \<Rightarrow> event \<Rightarrow> string \<Rightarrow> 'x world_scheme \<Rightarrow> 'x world_scheme \<Rightarrow> entry \<Rightarrow> bool" where
  "on_turn py this event name w0 v e \<longleftrightarrow> evolves py this w0 v \<and> \<not> event_is_stopped event v
     \<and> e \<in> set (all_entries (by_priority_of (dispatchers v this) name))
     \<and> entry_listener e \<in> entry_listener ` set (all_entries (by_priority_of (dispatchers w0 this) name))"

text \<open>A factory runs on the turn of a lazy listener it builds, which nothing built before.\<close>

definition may_build :: "reflection \<Rightarrow> nat \<Rightarrow> event \<Rightarrow> string \<Rightarrow> 'x world_scheme \<Rightarrow> 'x world_scheme \<Rightarrow> nat \<Rightarrow> bool" where
  "may_build py this event name w0 v f \<longleftrightarrow>
     (\<exists>e i. on_turn py this event name w0 v e \<and> entry_listener e = Lazy_listener i
        \<and> resolved_in (lazies v) i = None \<and> lazy_factory (lazies v i) = f)"

text \<open>
  A listener that was not lazy runs on its turn, as it is; a lazy one runs as what it was built into, in
  the world the build that began on its turn leaves.
\<close>

definition may_call ::
  "reflection \<Rightarrow> ('x world_scheme) factories \<Rightarrow> nat \<Rightarrow> event \<Rightarrow> string \<Rightarrow> 'x world_scheme \<Rightarrow> 'x world_scheme
     \<Rightarrow> listener \<Rightarrow> listener \<Rightarrow> nat \<Rightarrow> bool" where
  "may_call py factory this event name w0 w reg l n \<longleftrightarrow>
     (\<exists>v e. on_turn py this event name w0 v e \<and> entry_listener e = reg
        \<and> (case reg of
             Lazy_listener i \<Rightarrow> \<exists>b. build_entry py factory this name e i v = (Inr (Some b), w)
               \<and> entry_listener b = l \<and> entry_arity b = n
           | _ \<Rightarrow> v = w \<and> l = reg \<and> n = entry_arity e))"

definition loop_inv ::
  "reflection \<Rightarrow> nat \<Rightarrow> string \<Rightarrow> 'x world_scheme \<Rightarrow> 'x world_scheme \<Rightarrow> entry list \<Rightarrow> nat option
     \<Rightarrow> nat list option \<Rightarrow> bool" where
  "loop_inv py this name w0 w es current known \<longleftrightarrow>
     dispatcher_ok (dispatchers w0 this) \<and> evolves py this w0 w
     \<and> set es \<subseteq> set (all_entries (by_priority_of (dispatchers w0 this) name))
     \<and> (\<forall>s. current = Some s \<longrightarrow> s < next_id (dispatchers w this)
          \<and> (\<forall>es'. map_of (sorted_cache (dispatchers w this)) name = Some (s, es') \<longrightarrow>
                (\<forall>e \<in> set es. still_known known e \<longrightarrow> entry_id e \<in> entry_id ` set es')))"

lemma evolves_stable:
  assumes "evolves py this w w'"
  shows "next_id (dispatchers w this) \<le> next_id (dispatchers w' this)"
    and "map_of (sorted_cache (dispatchers w' this)) name = Some (k, es) \<Longrightarrow> k < next_id (dispatchers w this) \<Longrightarrow>
      map_of (sorted_cache (dispatchers w this)) name = Some (k, es)"
    and "e \<in> set (all_entries (by_priority_of (dispatchers w' this) name)) \<Longrightarrow>
      entry_id e < next_id (dispatchers w this) \<Longrightarrow>
      e \<in> set (all_entries (by_priority_of (dispatchers w this) name))"
  using registry_steps_stable [OF assms [unfolded evolves_def], simplified] by blast+

lemma loop_inv_evolves:
  assumes "loop_inv py this name w0 w es current known" and "evolves py this w w'"
  shows "loop_inv py this name w0 w' es current known"
proof -
  have "s < next_id (dispatchers w' this)
      \<and> (\<forall>es'. map_of (sorted_cache (dispatchers w' this)) name = Some (s, es') \<longrightarrow>
            (\<forall>e \<in> set es. still_known known e \<longrightarrow> entry_id e \<in> entry_id ` set es'))"
    if "current = Some s" for s
  proof -
    have s: "s < next_id (dispatchers w this)"
      and old: "\<And>es' e. map_of (sorted_cache (dispatchers w this)) name = Some (s, es') \<Longrightarrow> e \<in> set es \<Longrightarrow>
        still_known known e \<Longrightarrow> entry_id e \<in> entry_id ` set es'"
      using assms(1) that by (auto simp: loop_inv_def)
    then show ?thesis
      using evolves_stable(1) [OF assms(2)] evolves_stable(2) [OF assms(2), of name s] by fastforce
  qed
  then show ?thesis
    using assms evolves_trans by (auto simp: loop_inv_def)
qed

lemma loop_inv_tail:
  "loop_inv py this name w0 w (e # es) current known \<Longrightarrow> loop_inv py this name w0 w es current known"
  by (auto simp: loop_inv_def)

lemma running_order_subset: "set (running_order bp) \<subseteq> set (all_entries bp)"
  using entries_at_subset by (fastforce simp: running_order_def)

text \<open>An entry of the snapshot whose serial number is registered is that entry.\<close>

lemma same_entry:
  assumes "loop_inv py this name w0 w es current known" "e \<in> set es"
    and "entry_id e \<in> entry_id ` set (running_order (by_priority_of (dispatchers w this) name))"
  shows "e \<in> set (all_entries (by_priority_of (dispatchers w this) name))"
proof -
  from assms(3) obtain e' where e': "e' \<in> set (all_entries (by_priority_of (dispatchers w this) name))"
    "entry_id e' = entry_id e"
    using running_order_subset by force
  have ok: "dispatcher_ok (dispatchers w0 this)" and ev: "evolves py this w0 w"
    and e: "e \<in> set (all_entries (by_priority_of (dispatchers w0 this) name))"
    using assms(1,2) by (auto simp: loop_inv_def)
  have "e' \<in> set (all_entries (by_priority_of (dispatchers w0 this) name))"
    using evolves_stable(3) [OF ev e'(1)] dispatcher_ok_distinct(2) [OF ok e] e'(2) by simp
  then have "e' = e"
    by (rule distinct_ids_inj [OF dispatcher_ok_distinct(1) [OF ok] e _ e'(2)])
  with e' show ?thesis by simp
qed

lemma sort_here_result:
  assumes "dispatcher_ok (dispatchers w this)" and "sort_here this name w = ((c, es), w1)"
  shows "es = running_order (by_priority_of (dispatchers w1 this) name)"
    and "by_priority_of (dispatchers w1 this) name = by_priority_of (dispatchers w this) name"
    and "c = Some s \<Longrightarrow> map_of (sorted_cache (dispatchers w1 this)) name = Some (s, es)
           \<and> s < next_id (dispatchers w1 this)"
    and "dispatchers w1 = (dispatchers w)(this := dispatchers w1 this)"
    and "stopped w1 = stopped w" and "lazies w1 = lazies w"
proof -
  obtain d where d: "sort_entries name (dispatchers w this) = ((c, es), d)"
    and w1: "w1 = w\<lparr>dispatchers := (dispatchers w)(this := d)\<rparr>"
    using assms(2) by (auto simp: sort_here_def split: prod.splits)
  show "by_priority_of (dispatchers w1 this) name = by_priority_of (dispatchers w this) name"
    using by_priority_of_same(4) [of name "dispatchers w this" name] d w1 by simp
  then show "es = running_order (by_priority_of (dispatchers w1 this) name)"
    using sort_entries_list [OF assms(1), of name] d by simp
  show "map_of (sorted_cache (dispatchers w1 this)) name = Some (s, es) \<and> s < next_id (dispatchers w1 this)"
    if "c = Some s"
    using that d w1 sort_entries_eq [OF assms(1), of name] dispatcher_ok_cached [OF assms(1), of name]
    by (auto split: option.splits if_splits)
  show "dispatchers w1 = (dispatchers w)(this := dispatchers w1 this)"
    "stopped w1 = stopped w" "lazies w1 = lazies w"
    using w1 by simp_all
qed

lemma loop_inv_ok: "loop_inv py this name w0 w es current known \<Longrightarrow> dispatcher_ok (dispatchers w this)"
  by (auto simp: loop_inv_def intro: evolves_ok)

lemma refresh_result:
  assumes inv: "loop_inv py this name w0 w es current known"
    and ref: "refresh this name current known w = ((c, k), w1)"
  shows "loop_inv py this name w0 w1 es c k"
    and "\<And>e. e \<in> set es \<Longrightarrow> still_known k e \<Longrightarrow> e \<in> set (all_entries (by_priority_of (dispatchers w1 this) name))"
    and "stopped w1 = stopped w"
proof -
  note ok = loop_inv_ok [OF inv]
  let ?d1 = "dispatchers w1 this"
  have *: "loop_inv py this name w0 w1 es c k
      \<and> (\<forall>e \<in> set es. still_known k e \<longrightarrow> entry_id e \<in> entry_id ` set (running_order (by_priority_of ?d1 name)))
      \<and> stopped w1 = stopped w"
  proof (cases "order_changed (dispatchers w this) name current")
    case True
    then obtain run where s: "sort_here this name w = ((c, run), w1)" and k: "k = Some (map entry_id run)"
      using ref by (auto simp: refresh_def split: prod.splits)
    note sr = sort_here_result [OF ok s]
    have "evolves py this w0 w1"
      using inv sort_here_evolves [OF s] by (auto simp: loop_inv_def intro: evolves_trans)
    then show ?thesis
      using inv sr(1,5) sr(3) by (auto simp: loop_inv_def k still_known_def)
  next
    case False
    then have w1: "w1 = w" "c = current" "k = known"
      using ref by (simp_all add: refresh_def)
    from False obtain s es' where s: "map_of (sorted_cache (dispatchers w this)) name = Some (s, es')" "current = Some s"
      by (auto simp: order_changed_def split: option.splits)
    then show ?thesis
      using inv dispatcher_ok_cached [OF ok s(1)] by (auto simp: w1 loop_inv_def)
  qed
  then show "loop_inv py this name w0 w1 es c k" "stopped w1 = stopped w" by auto
  then show "e \<in> set (all_entries (by_priority_of ?d1 name))" if "e \<in> set es" "still_known k e" for e
    using same_entry [of py this name w0 w1 es c k e] * that by blast
qed

lemma build_entry_cong:
  assumes "on_turn py this event name w0 w e" and "entry_listener e = Lazy_listener i"
    and "\<And>f v. may_build py this event name w0 v f \<Longrightarrow> factory f v = factory' f v"
  shows "build_entry py factory this name e i w = build_entry py factory' this name e i w"
proof -
  have "resolve py factory i w = resolve py factory' i w"
  proof (cases "resolved_in (lazies w) i")
    case None
    then have "factory (lazy_factory (lazies w i)) w = factory' (lazy_factory (lazies w i)) w"
      using assms by (auto simp: may_build_def)
    then show ?thesis by (simp add: resolve_def None andthen_def)
  next
    case (Some l)
    then show ?thesis by (simp add: resolve_def)
  qed
  then show ?thesis by (simp add: build_entry_def andthen_def)
qed

lemma run_entry_cong:
  assumes build: "\<And>f v. may_build py this event name w0 v f \<Longrightarrow> factory f v = factory' f v"
    and agree: "\<And>reg l n v. may_call py factory this event name w0 v reg l n \<Longrightarrow> call reg l n arguments v = call' reg l n arguments v"
    and turn: "on_turn py this event name w0 w e"
  shows "run_entry py factory call this name arguments e w = run_entry py factory' call' this name arguments e w"
proof (cases "\<exists>i. entry_listener e = Lazy_listener i")
  case True
  then obtain i where i: "entry_listener e = Lazy_listener i" by blast
  have same: "build_entry py factory this name e i w = build_entry py factory' this name e i w"
    by (rule build_entry_cong [OF turn i]) (fact build)
  obtain r w1 where r: "build_entry py factory this name e i w = (r, w1)" by fastforce
  have "call (Lazy_listener i) (entry_listener b) (entry_arity b) arguments w1 =
      call' (Lazy_listener i) (entry_listener b) (entry_arity b) arguments w1" if b: "r = Inr (Some b)" for b
    using agree [of w1 "Lazy_listener i" "entry_listener b" "entry_arity b"] turn i r b by (auto simp: may_call_def)
  then show ?thesis
    unfolding run_entry_def i listener.case andthen_def same [symmetric] r by (auto split: sum.split option.split)
next
  case False
  then have "may_call py factory this event name w0 w (entry_listener e) (entry_listener e) (entry_arity e)"
    using turn by (auto simp: may_call_def split: listener.splits)
  with False show ?thesis
    by (auto simp: run_entry_def agree split: listener.splits)
qed

lemma dispatch_loop_cong:
  assumes fact: "\<And>f. well_behaved py this (factory f)"
    and call: "\<And>reg l n. well_behaved py this (call reg l n arguments)"
    and build: "\<And>f v. may_build py this event name w0 v f \<Longrightarrow> factory f v = factory' f v"
    and agree: "\<And>reg l n v. may_call py factory this event name w0 v reg l n \<Longrightarrow> call reg l n arguments v = call' reg l n arguments v"
    and inv: "loop_inv py this name w0 w es current known"
  shows "dispatch_loop py factory call this event name arguments es current known w =
    dispatch_loop py factory' call' this event name arguments es current known w"
  using inv
proof (induction es arbitrary: current known w)
  case Nil
  then show ?case by simp
next
  case (Cons e es)
  obtain c k w1 where ref: "refresh this name current known w = ((c, k), w1)"
    by (metis surj_pair)
  note rr = refresh_result [OF Cons.prems ref]
  show ?case
  proof (cases "event_is_stopped event w \<or> \<not> still_known k e")
    case True
    then show ?thesis
      using Cons.IH [OF loop_inv_tail [OF rr(1)]] by (auto simp: ref)
  next
    case False
    then have "\<not> event_is_stopped event w1"
      using rr(3) by (simp add: event_is_stopped_def is_propagation_stopped_def)
    moreover have "e \<in> set (all_entries (by_priority_of (dispatchers w1 this) name))"
      using rr(2) False by simp
    moreover have "entry_listener e \<in> entry_listener ` set (all_entries (by_priority_of (dispatchers w0 this) name))"
      using rr(1) by (auto simp: loop_inv_def)
    moreover have "evolves py this w0 w1" using rr(1) by (simp add: loop_inv_def)
    ultimately have turn: "on_turn py this event name w0 w1 e" by (simp add: on_turn_def)
    have run: "run_entry py factory call this name arguments e w1 = run_entry py factory' call' this name arguments e w1"
      by (rule run_entry_cong [OF _ _ turn]) (fact build, fact agree)
    obtain r w2 where w2: "run_entry py factory call this name arguments e w1 = (r, w2)" by fastforce
    have "well_behaved py this (run_entry py factory call this name arguments e)"
      by (rule well_behaved_run_entry) (rule fact, rule call)
    then have "loop_inv py this name w0 w2 es c k"
      using loop_inv_evolves [OF loop_inv_tail [OF rr(1)]] well_behavedD w2 by blast
    moreover have "run_entry py factory' call' this name arguments e w1 = (r, w2)"
      using run w2 by simp
    ultimately show ?thesis
      using False Cons.IH [of w2 c k] w2 by (cases r) (simp_all add: ref andthen_def)
  qed
qed

lemma loop_inv_start:
  assumes "dispatcher_ok (dispatchers w this)" and "sort_here this name w = ((c, es), w1)"
  shows "loop_inv py this name w w1 es c None"
  unfolding loop_inv_def
  using assms(1) sort_here_result [OF assms] sort_here_evolves [OF assms(2), of py] running_order_subset
  by (auto simp: still_known_def)

text \<open>
  C14: A dispatch calls a listener only if, when its turn came, it was registered, had been registered when
  the dispatch began, and the event was not stopped; a lazy one is built only then, and what it was built
  into is called as soon as that build ends. (Whether it is still registered after its build is not asked
  again.) Stated over the calls and the factories: replacing them by any others that agree with them on
  those occasions changes nothing. Listeners and factories may do to the dispatcher what its operations
  allow, dispatching included.
\<close>

theorem dispatch_calls_only_registered:
  assumes "dispatcher_ok (dispatchers w this)"
    and fact: "\<And>f. well_behaved py this (factory f)"
    and call: "\<And>reg l n args. well_behaved py this (call reg l n args)"
    and build: "\<And>name f v. dispatch_name event ref = Inr name \<Longrightarrow> may_build py this event name w v f \<Longrightarrow> factory f v = factory' f v"
    and agree: "\<And>name reg l n args v. dispatch_name event ref = Inr name \<Longrightarrow>
                  may_call py factory this event name w v reg l n \<Longrightarrow> call reg l n args v = call' reg l n args v"
  shows "dispatch_through py factory this event ref dispatcher call w =
         dispatch_through py factory' this event ref dispatcher call' w"
proof (cases "dispatch_name event ref")
  case (Inl err)
  then show ?thesis by (simp add: dispatch_through_def)
next
  case (Inr name)
  obtain c es w1 where s: "sort_here this name w = ((c, es), w1)" by (metis surj_pair)
  have "dispatch_loop py factory call this event name args es c None w1 =
      dispatch_loop py factory' call' this event name args es c None w1" for args
    using build [OF Inr] agree [OF Inr]
    by (intro dispatch_loop_cong [OF fact call _ _ loop_inv_start [OF assms(1) s]]) simp_all
  then show ?thesis by (simp add: dispatch_through_def Inr s)
qed

text \<open>The shop again: a world with one dispatcher for every identity, and an event placed in it.\<close>

definition shop_world :: world where
  "shop_world = \<lparr>lazies = shop_unbuilt, stopped = (\<lambda>ob. False), dispatchers = (\<lambda>i. shop)\<rparr>"

definition placed :: event where
  "placed = \<lparr>event_obj = 1, event_type = Event_name ''placed'', event_stoppable = True\<rparr>"

definition calm_factory :: "'w factories" where
  "calm_factory f = ret (Callable_object 7)"

definition quiet_call :: "'w listener_call" where
  "quiet_call reg l n args = ret ()"

definition strict_call :: "'w listener_call" where
  "strict_call reg l n args = (if reg = Lazy_listener 0 then ret () else raise (Raised 1))"

text \<open>The one listener is lazy: the calls differ on every other listener, the factories on every other factory.\<close>

definition strict_factory :: "'w factories" where
  "strict_factory f = (if f = 0 then calm_factory f else raise (Raised 1))"

theorem dispatch_calls_only_registered_witness:
  "dispatch_through shop_reflection calm_factory 0 placed None 0 quiet_call shop_world =
   dispatch_through shop_reflection strict_factory 0 placed None 0 strict_call shop_world"
proof (rule dispatch_calls_only_registered)
  show "dispatcher_ok (dispatchers shop_world 0)"
    by (simp add: shop_world_def shop_ok)
  have only: "reg = Lazy_listener 0"
    if "on_turn shop_reflection 0 placed name shop_world v e" "entry_listener e = reg" "dispatch_name placed None = Inr name" for name v e reg
    using that by (auto simp: on_turn_def shop_world_def shop_eq by_priority_of_def dict_get_or_def all_entries_def shop_entry_def
        dispatch_name_def placed_def)
  show "quiet_call reg l n args v = strict_call reg l n args v"
    if "dispatch_name placed None = Inr name" "may_call shop_reflection calm_factory 0 placed name shop_world v reg l n"
    for name reg l n args v
    using that only by (auto simp: quiet_call_def strict_call_def may_call_def)
  show "calm_factory f v = strict_factory f v" if "dispatch_name placed None = Inr name" "may_build shop_reflection 0 placed name shop_world v f" for name f v
  proof -
    from that(2) obtain e i where e: "on_turn shop_reflection 0 placed name shop_world v e" "entry_listener e = Lazy_listener i"
      "lazy_factory (lazies v i) = f"
      by (auto simp: may_build_def)
    then have "i = 0" "lazies_grow (lazies shop_world) (lazies v)" using only [OF e(1)] that(1) evolves_lazies by (auto simp: on_turn_def)
    then have "f = 0" using e(3) by (auto simp: lazies_grow_def shop_world_def shop_unbuilt_def LazyListener_init_def)
    then show ?thesis by (simp add: strict_factory_def)
  qed
qed (simp_all add: calm_factory_def quiet_call_def well_behaved_def)

section \<open>The order in which listeners run\<close>

text \<open>The reference: the listeners one after the other, until the event is stopped or one raises.\<close>

fun run_in_order ::
  "('x world_scheme) listener_call \<Rightarrow> event \<Rightarrow> argument list \<Rightarrow> entry list \<Rightarrow> ('x world_scheme, event_error, event) prog" where
  "run_in_order call event arguments [] w = (Inr event, w)"
| "run_in_order call event arguments (e # es) w =
     (if event_is_stopped event w then (Inr event, w)
      else andthen (call (entry_listener e) (entry_listener e) (entry_arity e) arguments)
             (\<lambda>u. run_in_order call event arguments es) w)"

lemma run_entry_built:
  "\<not> (\<exists>i. entry_listener e = Lazy_listener i) \<Longrightarrow>
     run_entry py factory call this name arguments e =
       call (entry_listener e) (entry_listener e) (entry_arity e) arguments"
  by (auto simp: run_entry_def split: listener.splits)

lemma dispatch_loop_in_order:
  assumes calm: "\<And>reg l n v r v'. call reg l n arguments v = (r, v') \<Longrightarrow> dispatchers v' this = dispatchers v this"
    and "list_all (\<lambda>e. \<not> (\<exists>i. entry_listener e = Lazy_listener i)) es"
    and "es = [] \<or> map_of (sorted_cache (dispatchers w this)) name = Some (s, run)"
  shows "dispatch_loop py factory call this event name arguments es (Some s) None w = run_in_order call event arguments es w"
  using assms(2,3)
proof (induction es arbitrary: w)
  case Nil
  then show ?case by simp
next
  case (Cons e es)
  have ref: "refresh this name (Some s) None w = ((Some s, None), w)"
    using Cons.prems(2) by (simp add: refresh_def order_changed_def)
  obtain r w1 where r: "call (entry_listener e) (entry_listener e) (entry_arity e) arguments w = (r, w1)"
    by fastforce
  have "dispatch_loop py factory call this event name arguments es (Some s) None w1 = run_in_order call event arguments es w1"
    using Cons.IH [of w1] Cons.prems calm [OF r] by simp
  then show ?case
    using Cons.prems(1) r by (cases r) (simp_all add: ref still_known_def run_entry_built andthen_def)
qed

text \<open>
  C37: With listeners that are built and that leave the dispatcher alone, a dispatch is exactly the
  listeners of the event run in priority order until one stops the event or raises; the event is
  returned, and listeners receive it, its name and the dispatcher.
\<close>

theorem dispatch_runs_in_order:
  assumes "dispatcher_ok (dispatchers w this)" and "dispatch_name event ref = Inr name"
    and "\<And>reg l n args v r v'. call reg l n args v = (r, v') \<Longrightarrow> dispatchers v' this = dispatchers v this"
    and "list_all (\<lambda>e. \<not> (\<exists>i. entry_listener e = Lazy_listener i))
           (running_order (by_priority_of (dispatchers w this) name))"
  shows "dispatch_through py factory this event ref dispatcher call w =
         run_in_order call event [Arg_event event, Arg_name name, Arg_dispatcher dispatcher]
           (running_order (by_priority_of (dispatchers w this) name)) (snd (sort_here this name w))"
proof -
  obtain c es w1 where s: "sort_here this name w = ((c, es), w1)" by (metis surj_pair)
  note sr = sort_here_result [OF assms(1) s]
  have "dispatch_loop py factory call this event name args es c None w1 = run_in_order call event args es w1" for args
  proof (cases c)
    case None
    then have "es = []"
      using s sort_entries_eq [OF assms(1), of name]
      by (auto simp: sort_here_def by_priority_of_def dict_get_or_def running_order_def
               split: prod.splits option.splits if_splits)
    then show ?thesis by simp
  next
    case (Some k)
    show ?thesis
      unfolding Some
      using assms(3,4) sr(1,2,3) Some by (intro dispatch_loop_in_order) auto
  qed
  then show ?thesis
    using sr(1,2) by (simp add: dispatch_through_def assms(2) s)
qed

definition audited :: dispatcher where
  "audited = snd (add_listener shop_reflection shop_unbuilt (Event_name ''placed'') (Routine ''shop.audit'') 5 EventDispatcher_init)"

definition stopping_call :: "('x world_scheme) listener_call" where
  "stopping_call reg l n args w = (Inr (), stop_propagation placed w)"

theorem dispatch_runs_in_order_witness:
  "dispatch_through shop_reflection calm_factory 0 placed None 0 stopping_call (shop_world\<lparr>dispatchers := (\<lambda>i. audited)\<rparr>) =
   run_in_order stopping_call placed [Arg_event placed, Arg_name ''placed'', Arg_dispatcher 0]
     (running_order (by_priority_of (dispatchers (shop_world\<lparr>dispatchers := (\<lambda>i. audited)\<rparr>) 0) ''placed''))
     (snd (sort_here 0 ''placed'' (shop_world\<lparr>dispatchers := (\<lambda>i. audited)\<rparr>)))"
proof (rule dispatch_runs_in_order)
  show "dispatcher_ok (dispatchers (shop_world\<lparr>dispatchers := (\<lambda>i. audited)\<rparr>) 0)"
    by (simp add: audited_def dispatcher_ok_add)
  show "dispatch_name placed None = Inr ''placed''"
    by (simp add: dispatch_name_def placed_def)
  show "dispatchers v' 0 = dispatchers v 0" if "stopping_call reg l n args v = (r, v')" for reg l n args r v v'
    using that by (auto simp: stopping_call_def stop_propagation_def)
  show "list_all (\<lambda>e. \<not> (\<exists>i. entry_listener e = Lazy_listener i))
      (running_order (by_priority_of (dispatchers (shop_world\<lparr>dispatchers := (\<lambda>i. audited)\<rparr>) 0) ''placed''))"
    by (simp add: audited_def add_listener_def append_entry_def forget_sorted_def built_or_itself_def
        positional_arity_def signature_of_def shop_reflection_def signature_arity_def count_parameter_def
        ARGUMENTS_def EventDispatcher_init_def by_priority_of_def add_entry_def entries_at_def
        dict_get_or_def running_order_def)
qed

section \<open>A listener removed while it is built\<close>

text \<open>
  A lazy listener that is removed from the event while its factory is awaited is called all the
  same: the build puts nothing back, yet what it built runs, although the event has no listener
  left.
\<close>

theorem removed_while_building_still_runs:
  assumes "entry_listener e = Lazy_listener i" and "resolved_in (lazies w) i = None"
    and "factory (lazy_factory (lazies w i)) w = (Inr built, w1)"
    and removed: "by_priority_of (dispatchers w1 this) name = []"
      "map_of (pending_removals (dispatchers w1 this)) name = None"
    and "resolved_in (lazies w1) i = None"
    and "bind_built py (lazy_method (lazies w1 i)) built = Inr (l, n)"
  shows "\<exists>w2. run_entry py factory call this name arguments e w = call (Lazy_listener i) l n arguments w2
           \<and> by_priority_of (dispatchers w2 this) name = []"
proof -
  let ?w = "keep_resolved i l n w1" and ?d = "dispatchers w1 this"
  let ?b = "\<lparr>entry_id = next_id ?d, entry_listener = l, entry_arity = n\<rparr>"
  let ?d' = "replace_listener (lazies ?w) name e (Some ?b) (?d\<lparr>next_id := next_id ?d + 1\<rparr>)"
  have "positional_arity py l = Inr n"
    using assms(7) by (auto simp: bind_built_def split: option.splits sum.splits if_splits)
  moreover have "\<not> removal_drops ?d name e l"
    using removed(2) by (auto simp: removal_drops_awaits awaits_def dict_get_or_def)
  ultimately have "finish_build py (lazies ?w) name e l ?d = (Inr (Some ?b), ?d')"
    by (simp add: finish_build_def Let_def)
  then have "run_entry py factory call this name arguments e w =
      call (Lazy_listener i) l n arguments (?w\<lparr>dispatchers := (dispatchers w1)(this := ?d')\<rparr>)"
    using assms(1-3,6,7)
    by (simp add: run_entry_def build_entry_def resolve_def on_dispatcher_def andthen_def)
  moreover have "by_priority_of ?d' name = []"
    using removed(1) by (simp add: replace_entry_Cons)
  ultimately show ?thesis by fastforce
qed

text \<open>The factory of the witness is awaited while another task removes the lazy listener.\<close>

definition removing_factory :: "('x world_scheme) factories" where
  "removing_factory f = (\<lambda>w.
     andthen (on_dispatcher 0 (remove_listener (lazies w) (Event_name ''placed'') (Lazy_listener 0)))
       (\<lambda>u. ret (Callable_object 7)) w)"

theorem removed_while_building_still_runs_witness:
  "\<exists>w2. run_entry shop_reflection removing_factory quiet_call 0 ''placed'' [Arg_event placed] shop_entry shop_world
          = quiet_call (Lazy_listener 0) (Bound_method 7 ''on_placed'') 1 [Arg_event placed] w2
        \<and> by_priority_of (dispatchers w2 0) ''placed'' = []"
proof (rule removed_while_building_still_runs)
  let ?w1 = "snd (removing_factory 0 shop_world)"
  have "remove_listener shop_unbuilt (Event_name ''placed'') (Lazy_listener 0) shop =
      (Inr (), \<lparr>registered = [], sorted_cache = [], pending_removals = [], next_id = 1\<rparr>)"
    by (simp add: shop_eq remove_listener_def same_def keep_entries_def unbuilt_entries_def all_entries_def
        shop_entry_def put_by_priority_def forget_sorted_def note_removal_def prune_pending_removals_def
        dict_get_or_def Let_def)
  then have w1: "removing_factory 0 shop_world = (Inr (Callable_object 7),
      shop_world\<lparr>dispatchers := (\<lambda>i. shop)(0 := \<lparr>registered = [], sorted_cache = [], pending_removals = [], next_id = 1\<rparr>)\<rparr>)"
    by (simp add: removing_factory_def on_dispatcher_def andthen_def shop_world_def)
  show "removing_factory (lazy_factory (lazies shop_world 0)) shop_world = (Inr (Callable_object 7), ?w1)"
  proof -
    have "lazy_factory (lazies shop_world 0) = 0"
      by (simp add: shop_world_def shop_unbuilt_def LazyListener_init_def)
    then show ?thesis by (simp add: w1)
  qed
  show "by_priority_of (dispatchers ?w1 0) ''placed'' = []"
    "map_of (pending_removals (dispatchers ?w1 0)) ''placed'' = None"
    "resolved_in (lazies ?w1) 0 = None"
    unfolding w1
    by (simp_all add: by_priority_of_def dict_get_or_def resolved_in_def shop_world_def shop_unbuilt_def
        LazyListener_init_def)
  show "bind_built shop_reflection (lazy_method (lazies ?w1 0)) (Callable_object 7) =
      Inr (Bound_method 7 ''on_placed'', 1)"
    unfolding w1
    by (simp add: bind_built_def shop_world_def shop_unbuilt_def LazyListener_init_def CALL_def
        shop_reflection_def positional_arity_def signature_of_def signature_arity_def count_parameter_def ARGUMENTS_def)
qed (simp_all add: shop_entry_def shop_world_def shop_unbuilt_def LazyListener_init_def resolved_in_def)

end
