(* ===== verification/Event_Wrappers.thy ===== *)
theory Event_Wrappers
  imports Event_Dispatch
begin

text \<open>
  What stands around a dispatcher: subscribers (\<open>_subscribed_events.py\<close>, \<open>_ordering.py\<close>,
  \<open>add_subscriber\<close> and \<open>remove_subscriber\<close>), the dispatcher whose listeners are fixed
  (\<open>compiled_event_dispatcher.py\<close>), the one that refuses changes (\<open>immutable_event_dispatcher.py\<close>),
  the one that adds listeners for a scope (\<open>scoped_event_dispatcher.py\<close>), and the event that
  carries named arguments (\<open>generic_event.py\<close>).
\<close>

section \<open>What a subscriber declares\<close>

text \<open>
  \<open>get_subscribed_events()\<close> returns any object. A class is its module and qualified name, a routine
  likewise; \<open>D_object\<close> is any other object. The texts of the errors are shortened to what went wrong.
\<close>

datatype declared_value =
    D_none
  | D_bool bool
  | D_int int
  | D_str string
  | D_list "declared_value list"
  | D_tuple "declared_value list"
  | D_mapping "(declared_value \<times> declared_value) list"
  | D_class string string
  | D_routine string string
  | D_object nat

record subscribed_listener_declaration =
  declared_event_name :: string
  declared_method :: string
  declared_priority :: "int option"
  declared_before :: "declared_value list"
  declared_after :: "declared_value list"

text \<open>\<open>_target\<close>: a name, a class or a routine can be ordered against.\<close>

fun order_target :: "event_error \<Rightarrow> declared_value \<Rightarrow> event_error + declared_value" where
  "order_target invalid (D_str s) = Inr (D_str s)"
| "order_target invalid (D_class m q) = Inr (D_class m q)"
| "order_target invalid (D_routine m q) = Inr (D_routine m q)"
| "order_target invalid v = Inl invalid"

definition append_result :: "('a \<Rightarrow> event_error + 'b) \<Rightarrow> 'a \<Rightarrow> 'b list \<Rightarrow> event_error + 'b list" where
  "append_result f x acc = (case f x of Inl e \<Rightarrow> Inl e | Inr y \<Rightarrow> Inr (acc @ [y]))"

fun ordering_targets :: "event_error \<Rightarrow> declared_value option \<Rightarrow> event_error + declared_value list" where
  "ordering_targets invalid None = Inr []"
| "ordering_targets invalid (Some D_none) = Inr []"
| "ordering_targets invalid (Some (D_list vs)) = fold_r (append_result (order_target invalid)) vs []"
| "ordering_targets invalid (Some (D_tuple vs)) = fold_r (append_result (order_target invalid)) vs []"
| "ordering_targets invalid (Some v) = append_result (order_target invalid) v []"

fun target_name :: "declared_value \<Rightarrow> string" where
  "target_name (D_str s) = s"
| "target_name (D_class m q) = m @ '':'' @ q"
| "target_name (D_routine m q) = m @ '':'' @ q"
| "target_name v = ''None:None''"

definition DECLARATION_KEYS :: "declared_value list" where
  "DECLARATION_KEYS = [D_str ''method'', D_str ''priority'', D_str ''before'', D_str ''after'']"

definition invalid_declaration :: "string \<Rightarrow> string \<Rightarrow> string \<Rightarrow> event_error" where
  "invalid_declaration subscriber event reason = InvalidSubscriberError subscriber (Some event) reason"

fun declared_priority_of :: "event_error \<Rightarrow> declared_value option \<Rightarrow> event_error + int option" where
  "declared_priority_of invalid None = Inr None"
| "declared_priority_of invalid (Some D_none) = Inr None"
| "declared_priority_of invalid (Some (D_int p)) = Inr (Some p)"
| "declared_priority_of invalid (Some v) = Inl invalid"

definition read_named ::
  "string \<Rightarrow> string \<Rightarrow> (declared_value \<times> declared_value) list \<Rightarrow> event_error + subscribed_listener_declaration" where
  "read_named subscriber event item =
     (if list_ex (\<lambda>k. k \<notin> set DECLARATION_KEYS) (map fst item)
      then Inl (invalid_declaration subscriber event ''unknown keys'')
      else case map_of item (D_str ''method'') of
        Some (D_str method) \<Rightarrow>
          (case declared_priority_of (invalid_declaration subscriber event ''priority'')
                  (map_of item (D_str ''priority'')) of
             Inl e \<Rightarrow> Inl e
           | Inr priority \<Rightarrow>
               (case ordering_targets (invalid_declaration subscriber event ''target'')
                       (map_of item (D_str ''before'')) of
                  Inl e \<Rightarrow> Inl e
                | Inr before \<Rightarrow>
                    (case ordering_targets (invalid_declaration subscriber event ''target'')
                            (map_of item (D_str ''after'')) of
                       Inl e \<Rightarrow> Inl e
                     | Inr after \<Rightarrow>
                         Inr \<lparr>declared_event_name = event, declared_method = method,
                              declared_priority = priority, declared_before = before,
                              declared_after = after\<rparr>)))
      | _ \<Rightarrow> Inl (invalid_declaration subscriber event ''method''))"

definition plain_declaration :: "string \<Rightarrow> string \<Rightarrow> int option \<Rightarrow> subscribed_listener_declaration" where
  "plain_declaration event method priority =
     \<lparr>declared_event_name = event, declared_method = method, declared_priority = priority,
      declared_before = [], declared_after = []\<rparr>"

fun read_one :: "string \<Rightarrow> string \<Rightarrow> declared_value \<Rightarrow> event_error + subscribed_listener_declaration" where
  "read_one subscriber event (D_str method) = Inr (plain_declaration event method None)"
| "read_one subscriber event (D_tuple [D_str method, D_int p]) = Inr (plain_declaration event method (Some p))"
| "read_one subscriber event (D_mapping item) = read_named subscriber event item"
| "read_one subscriber event v = Inl (invalid_declaration subscriber event ''declares no listener'')"

fun event_key :: "declared_value \<Rightarrow> event_ref option" where
  "event_key (D_str s) = Some (Event_name s)"
| "event_key (D_class m q) = Some (Event_class m q)"
| "event_key v = None"

definition read_event ::
  "string \<Rightarrow> declared_value \<times> declared_value \<Rightarrow> subscribed_listener_declaration list
     \<Rightarrow> event_error + subscribed_listener_declaration list" where
  "read_event subscriber entry acc =
     (case event_key (fst entry) of
        None \<Rightarrow> Inl (InvalidSubscriberError subscriber None ''neither an event name nor an event class'')
      | Some ref \<Rightarrow>
          (case event_name_of ref of
             Inl e \<Rightarrow> Inl e
           | Inr name \<Rightarrow>
               (case snd entry of
                  D_list items \<Rightarrow> fold_r (append_result (read_one subscriber name)) items acc
                | item \<Rightarrow> append_result (read_one subscriber name) item acc)))"

text \<open>A subscriber: an object, the qualified name of its class, and what the class declares.\<close>

record subscriber =
  subscriber_obj :: listener
  subscriber_class :: string
  subscribed_events :: declared_value

definition listeners_subscribed_by ::
  "subscriber \<Rightarrow> event_error + subscribed_listener_declaration list" where
  "listeners_subscribed_by sub =
     (case subscribed_events sub of
        D_mapping events \<Rightarrow> fold_r (read_event (subscriber_class sub)) events []
      | _ \<Rightarrow> Inl (InvalidSubscriberError (subscriber_class sub) None ''not a mapping''))"

definition bind_declared ::
  "reflection \<Rightarrow> subscriber \<Rightarrow> subscribed_listener_declaration \<Rightarrow> event_error + listener" where
  "bind_declared py sub decl =
     (case get_attribute py (subscriber_obj sub) (declared_method decl) of
        None \<Rightarrow> Inl (InvalidSubscriberError (subscriber_class sub) (Some (declared_event_name decl)) ''no such method'')
      | Some l \<Rightarrow> Inr l)"

section \<open>Adding and removing a subscriber\<close>

definition add_declared ::
  "reflection \<Rightarrow> lazies \<Rightarrow> subscriber \<Rightarrow> subscribed_listener_declaration \<Rightarrow> unit
     \<Rightarrow> (dispatcher, event_error, unit) prog" where
  "add_declared py h sub decl u =
     (if declared_priority decl = None \<and> (declared_before decl \<noteq> [] \<or> declared_after decl \<noteq> [])
      then raise (InvalidSubscriberError (subscriber_class sub) (Some (declared_event_name decl)) ''needs a priority'')
      else case bind_declared py sub decl of
        Inl e \<Rightarrow> raise e
      | Inr l \<Rightarrow>
          add_listener py h (Event_name (declared_event_name decl)) l
            (case declared_priority decl of None \<Rightarrow> 0 | Some p \<Rightarrow> p))"

definition add_subscriber ::
  "reflection \<Rightarrow> lazies \<Rightarrow> subscriber \<Rightarrow> (dispatcher, event_error, unit) prog" where
  "add_subscriber py h sub =
     (case listeners_subscribed_by sub of
        Inl e \<Rightarrow> raise e
      | Inr decls \<Rightarrow> for_each (add_declared py h sub) decls ())"

definition remove_declared ::
  "reflection \<Rightarrow> lazies \<Rightarrow> subscriber \<Rightarrow> subscribed_listener_declaration \<Rightarrow> unit
     \<Rightarrow> (dispatcher, event_error, unit) prog" where
  "remove_declared py h sub decl u =
     (case bind_declared py sub decl of
        Inl e \<Rightarrow> raise e
      | Inr l \<Rightarrow> remove_listener h (Event_name (declared_event_name decl)) l)"

definition remove_subscriber ::
  "reflection \<Rightarrow> lazies \<Rightarrow> subscriber \<Rightarrow> (dispatcher, event_error, unit) prog" where
  "remove_subscriber py h sub =
     (case listeners_subscribed_by sub of
        Inl e \<Rightarrow> raise e
      | Inr decls \<Rightarrow> for_each (remove_declared py h sub) decls ())"

section \<open>Fixed listeners\<close>

definition add_given ::
  "reflection \<Rightarrow> lazies \<Rightarrow> event_ref \<times> listener \<times> int \<Rightarrow> unit \<Rightarrow> (dispatcher, event_error, unit) prog" where
  "add_given py h given u = (case given of (ref, l, p) \<Rightarrow> add_listener py h ref l p)"

definition CompiledEventDispatcher_init ::
  "reflection \<Rightarrow> lazies \<Rightarrow> (event_ref \<times> (listener \<times> int) list) list \<Rightarrow> event_error + dispatcher" where
  "CompiledEventDispatcher_init py h given =
     (case for_each (add_given py h) (concat (map (\<lambda>(ref, ls). map (Pair ref) ls) given)) () EventDispatcher_init of
        (Inl e, d) \<Rightarrow> Inl e
      | (Inr u, d) \<Rightarrow> Inr d)"

text \<open>The four changes the compiled and the immutable dispatcher refuse.\<close>

definition refuse_add_listener :: "event_ref \<Rightarrow> listener \<Rightarrow> int \<Rightarrow> (dispatcher, event_error, unit) prog" where
  "refuse_add_listener ref l p = raise (BadMethodCallError ''add_listener'')"

definition refuse_add_subscriber :: "subscriber \<Rightarrow> (dispatcher, event_error, unit) prog" where
  "refuse_add_subscriber sub = raise (BadMethodCallError ''add_subscriber'')"

definition refuse_remove_listener :: "event_ref \<Rightarrow> listener \<Rightarrow> (dispatcher, event_error, unit) prog" where
  "refuse_remove_listener ref l = raise (BadMethodCallError ''remove_listener'')"

definition refuse_remove_subscriber :: "subscriber \<Rightarrow> (dispatcher, event_error, unit) prog" where
  "refuse_remove_subscriber sub = raise (BadMethodCallError ''remove_subscriber'')"

section \<open>Listeners of a scope\<close>

text \<open>
  \<open>ScopedEventDispatcher\<close>: its own registry, the dispatcher it wraps (here an \<open>EventDispatcher\<close>, which
  keeps priorities), and the events whose listeners were copied.
\<close>

record scoped =
  own :: dispatcher
  wrapped :: dispatcher
  merged :: "string list"

definition ScopedEventDispatcher_init :: "dispatcher \<Rightarrow> scoped" where
  "ScopedEventDispatcher_init d = \<lparr>own = EventDispatcher_init, wrapped = d, merged = []\<rparr>"

definition on_own :: "(dispatcher, event_error, 'a) prog \<Rightarrow> (scoped, event_error, 'a) prog" where
  "on_own f = (\<lambda>s. case f (own s) of (r, d) \<Rightarrow> (r, s\<lparr>own := d\<rparr>))"

definition on_wrapped :: "(dispatcher, event_error, 'a) prog \<Rightarrow> (scoped, event_error, 'a) prog" where
  "on_wrapped f = (\<lambda>s. case f (wrapped s) of (r, d) \<Rightarrow> (r, s\<lparr>wrapped := d\<rparr>))"

definition copy_listener ::
  "reflection \<Rightarrow> lazies \<Rightarrow> string \<Rightarrow> int \<times> listener \<Rightarrow> unit \<Rightarrow> (dispatcher, event_error, unit) prog" where
  "copy_listener py h name pl u = add_listener py h (Event_name name) (snd pl) (fst pl)"

definition merge_event :: "reflection \<Rightarrow> lazies \<Rightarrow> string \<Rightarrow> (scoped, event_error, unit) prog" where
  "merge_event py h name = (\<lambda>s.
     if name \<in> set (merged s) then (Inr (), s)
     else case get_prioritized_listeners (Event_name name) (wrapped s) of
       Inl e \<Rightarrow> (Inl e, s\<lparr>merged := name # merged s\<rparr>)
     | Inr ls \<Rightarrow> on_own (for_each (copy_listener py h name) ls ()) (s\<lparr>merged := name # merged s\<rparr>))"

definition scoped_add_listener ::
  "reflection \<Rightarrow> lazies \<Rightarrow> event_ref \<Rightarrow> listener \<Rightarrow> int \<Rightarrow> (scoped, event_error, unit) prog" where
  "scoped_add_listener py h ref l p =
     (case event_name_of ref of
        Inl e \<Rightarrow> raise e
      | Inr name \<Rightarrow>
          andthen (merge_event py h name) (\<lambda>u. on_own (add_listener py h (Event_name name) l p)))"

text \<open>Removing is inherited: it only looks at the scope's own registry.\<close>

definition scoped_remove_listener :: "lazies \<Rightarrow> event_ref \<Rightarrow> listener \<Rightarrow> (scoped, event_error, unit) prog" where
  "scoped_remove_listener h ref l = on_own (remove_listener h ref l)"

definition has_own :: "scoped \<Rightarrow> string \<Rightarrow> bool" where
  "has_own s name = (map_of (registered (own s)) name \<noteq> None)"

definition scoped_get_listeners :: "event_ref \<Rightarrow> (scoped, event_error, listener list) prog" where
  "scoped_get_listeners ref = (\<lambda>s.
     case event_name_of ref of
       Inl e \<Rightarrow> (Inl e, s)
     | Inr name \<Rightarrow>
         (if has_own s name then on_own (get_listeners (Event_name name)) s
          else on_wrapped (get_listeners (Event_name name)) s))"

definition scoped_get_all_listeners :: "(scoped, event_error, (string \<times> listener list) list) prog" where
  "scoped_get_all_listeners =
     andthen (on_own get_all_listeners) (\<lambda>mine.
     andthen (on_wrapped get_all_listeners) (\<lambda>theirs.
       for_each (\<lambda>name acc. andthen (scoped_get_listeners (Event_name name)) (\<lambda>ls. ret (acc @ [(name, ls)])))
         (rev (remdups (rev (map fst mine @ map fst theirs)))) []))"

definition scoped_get_listener_priority ::
  "lazies \<Rightarrow> event_ref \<Rightarrow> listener \<Rightarrow> scoped \<Rightarrow> event_error + int option" where
  "scoped_get_listener_priority h ref l s =
     (case event_name_of ref of
        Inl e \<Rightarrow> Inl e
      | Inr name \<Rightarrow> get_listener_priority h (Event_name name) l (if has_own s name then own s else wrapped s))"

definition scoped_get_prioritized_listeners :: "event_ref \<Rightarrow> scoped \<Rightarrow> event_error + (int \<times> listener) list" where
  "scoped_get_prioritized_listeners ref s =
     (case event_name_of ref of
        Inl e \<Rightarrow> Inl e
      | Inr name \<Rightarrow> get_prioritized_listeners (Event_name name) (if has_own s name then own s else wrapped s))"

definition scoped_has_listeners :: "event_ref option \<Rightarrow> scoped \<Rightarrow> event_error + bool" where
  "scoped_has_listeners ref s =
     (case has_listeners ref (own s) of
        Inl e \<Rightarrow> Inl e
      | Inr b \<Rightarrow> if b then Inr True else has_listeners ref (wrapped s))"

text \<open>
  Dispatching, in a world where the scope's own registry is the dispatcher \<open>this\<close> and the wrapped one
  is \<open>inner\<close>: here when a listener was added for the event, through the wrapped one otherwise.
\<close>

definition scoped_dispatch ::
  "reflection \<Rightarrow> ('x world_scheme) factories \<Rightarrow> ('x world_scheme) invocation \<Rightarrow> nat \<Rightarrow> nat \<Rightarrow> event
     \<Rightarrow> event_ref option \<Rightarrow> ('x world_scheme, event_error, event) prog" where
  "scoped_dispatch py factory invoke this inner event ref = (\<lambda>w.
     case dispatch_name event ref of
       Inl e \<Rightarrow> (Inl e, w)
     | Inr name \<Rightarrow>
         (if map_of (registered (dispatchers w this)) name \<noteq> None
          then dispatch_through py factory this event (Some (Event_name name)) this (plain_call invoke) w
          else dispatch py factory invoke inner event (Some (Event_name name)) w))"

definition scoped_dispatch_through ::
  "reflection \<Rightarrow> ('x world_scheme) factories \<Rightarrow> nat \<Rightarrow> nat \<Rightarrow> event \<Rightarrow> event_ref option \<Rightarrow> nat
     \<Rightarrow> ('x world_scheme) listener_call \<Rightarrow> ('x world_scheme, event_error, event) prog" where
  "scoped_dispatch_through py factory this inner event ref dispatcher call = (\<lambda>w.
     case dispatch_name event ref of
       Inl e \<Rightarrow> (Inl e, w)
     | Inr name \<Rightarrow>
         dispatch_through py factory
           (if map_of (registered (dispatchers w this)) name \<noteq> None then this else inner)
           event (Some (Event_name name)) dispatcher call w)"

section \<open>Events with named arguments\<close>

record generic_event =
  ge_subject :: pyval
  ge_arguments :: "(string, pyval) dict"
  ge_stopped :: bool

definition GenericEvent_init :: "pyval \<Rightarrow> (string, pyval) dict option \<Rightarrow> generic_event" where
  "GenericEvent_init subject arguments =
     \<lparr>ge_subject = subject, ge_arguments = (case arguments of None \<Rightarrow> [] | Some a \<Rightarrow> a), ge_stopped = False\<rparr>"

definition get_argument :: "string \<Rightarrow> generic_event \<Rightarrow> event_error + pyval" where
  "get_argument key ev =
     (case map_of (ge_arguments ev) key of None \<Rightarrow> Inl (ArgumentNotFoundError key) | Some v \<Rightarrow> Inr v)"

definition set_argument :: "string \<Rightarrow> pyval \<Rightarrow> generic_event \<Rightarrow> generic_event" where
  "set_argument key v ev = ev\<lparr>ge_arguments := dict_set key v (ge_arguments ev)\<rparr>"

definition set_arguments :: "(string, pyval) dict option \<Rightarrow> generic_event \<Rightarrow> generic_event" where
  "set_arguments arguments ev = ev\<lparr>ge_arguments := (case arguments of None \<Rightarrow> [] | Some a \<Rightarrow> a)\<rparr>"

definition has_argument :: "string \<Rightarrow> generic_event \<Rightarrow> bool" where
  "has_argument key ev = (key \<in> set (dict_keys (ge_arguments ev)))"

definition del_argument :: "string \<Rightarrow> (generic_event, event_error, unit) prog" where
  "del_argument key = (\<lambda>ev.
     if has_argument key ev then (Inr (), ev\<lparr>ge_arguments := dict_del key (ge_arguments ev)\<rparr>)
     else (Inl (ArgumentNotFoundError key), ev))"

section \<open>A subscriber comes and goes\<close>

lemma keep_entries_add: "\<not> P e \<Longrightarrow> keep_entries P (add_entry p e bp) = keep_entries P bp"
  by (induction bp) (auto simp: keep_entries_def add_entry_def entries_at_def dict_get_or_def)

lemma keep_entries_keep: "keep_entries Q (keep_entries P bp) = keep_entries (\<lambda>e. P e \<and> Q e) bp"
  by (induction bp) (auto simp: keep_entries_def intro: filter_cong)

lemma keep_entries_True:
  "list_all (\<lambda>(p, es). es \<noteq> []) bp \<Longrightarrow> list_all P (all_entries bp) \<Longrightarrow> keep_entries P bp = bp"
  by (induction bp) (auto simp: keep_entries_def all_entries_def list_all_iff)

text \<open>What the declarations of an event take away.\<close>

fun untouched :: "reflection \<Rightarrow> lazies \<Rightarrow> subscriber \<Rightarrow> string \<Rightarrow> subscribed_listener_declaration list \<Rightarrow> entry \<Rightarrow> bool" where
  "untouched py h sub name [] e = True"
| "untouched py h sub name (decl # decls) e =
     ((declared_event_name decl = name \<longrightarrow>
         (\<forall>l. bind_declared py sub decl = Inr l \<longrightarrow> \<not> same h (entry_listener e) l))
      \<and> untouched py h sub name decls e)"

lemma same_refl [simp]: "same h l l"
  by (simp add: same_def)

lemma untouched_iff:
  "untouched py h sub name decls e \<longleftrightarrow>
     (\<forall>decl \<in> set decls. declared_event_name decl = name \<longrightarrow>
        (\<forall>l. bind_declared py sub decl = Inr l \<longrightarrow> \<not> same h (entry_listener e) l))"
  by (induction decls) auto

lemma add_declared_keeps:
  assumes "add_declared py h sub decl u d = (Inr v, d1)" and "decl \<in> set decls"
    and "\<And>m l. get_attribute py (subscriber_obj sub) m = Some l \<Longrightarrow> built_or_itself h l = l"
  shows "keep_entries (untouched py h sub name decls) (by_priority_of d1 name) =
    keep_entries (untouched py h sub name decls) (by_priority_of d name)"
proof -
  from assms(1) obtain l p where l: "bind_declared py sub decl = Inr l"
    and add: "add_listener py h (Event_name (declared_event_name decl)) l p d = (Inr v, d1)"
    by (auto simp: add_declared_def split: if_splits sum.splits)
  have "built_or_itself h l = l"
    using l assms(3) by (auto simp: bind_declared_def split: option.splits)
  then show ?thesis
    using add l assms(2) by_priority_of_add [of py h "Event_name (declared_event_name decl)" l p d name]
    by (force simp: untouched_iff split: sum.splits intro!: keep_entries_add)
qed

lemma add_declareds_keep:
  assumes "for_each (add_declared py h sub) ds u d = (Inr v, d1)" and "set ds \<subseteq> set decls"
    and "\<And>m l. get_attribute py (subscriber_obj sub) m = Some l \<Longrightarrow> built_or_itself h l = l"
  shows "keep_entries (untouched py h sub name decls) (by_priority_of d1 name) =
    keep_entries (untouched py h sub name decls) (by_priority_of d name)"
  using assms(1,2)
proof (induction ds arbitrary: u d)
  case Nil
  then show ?case by simp
next
  case (Cons decl ds)
  then obtain u' d' where "add_declared py h sub decl u d = (Inr u', d')"
    "for_each (add_declared py h sub) ds u' d' = (Inr v, d1)"
    by (auto elim: andthen_InrE)
  with Cons show ?case
    using add_declared_keeps [of py h sub decl u d u' d' decls name] assms(3) by simp
qed

lemma add_declareds_bound:
  assumes "for_each (add_declared py h sub) ds u d = (Inr v, d1)"
  shows "\<forall>decl \<in> set ds. \<exists>l. bind_declared py sub decl = Inr l"
  using assms
proof (induction ds arbitrary: u d)
  case (Cons decl ds)
  then obtain u' d' where a: "add_declared py h sub decl u d = (Inr u', d')"
    "for_each (add_declared py h sub) ds u' d' = (Inr v, d1)"
    by (auto elim: andthen_InrE)
  then have "\<exists>l. bind_declared py sub decl = Inr l"
    by (auto simp: add_declared_def split: if_splits sum.splits)
  with Cons.IH [OF a(2)] show ?case by simp
qed simp

lemma keep_entries_ok_True: "dispatcher_ok d \<Longrightarrow> keep_entries (\<lambda>e. True) (by_priority_of d name) = by_priority_of d name"
  using by_priority_ok_or_empty [of d name]
  by (auto simp: by_priority_ok_def keep_entries_True list_all_iff)

lemma remove_declareds:
  assumes "\<forall>decl \<in> set ds. \<exists>l. bind_declared py sub decl = Inr l" and "dispatcher_ok d"
  shows "\<exists>d2. for_each (remove_declared py h sub) ds u d = (Inr (), d2) \<and> dispatcher_ok d2
    \<and> by_priority_of d2 name = keep_entries (untouched py h sub name ds) (by_priority_of d name)"
  using assms
proof (induction ds arbitrary: u d)
  case Nil
  moreover have "untouched py h sub name [] = (\<lambda>e. True)" by (rule ext) simp
  ultimately show ?case by (simp add: keep_entries_ok_True)
next
  case (Cons decl ds)
  then obtain l where l: "bind_declared py sub decl = Inr l" by auto
  let ?ref = "Event_name (declared_event_name decl)"
  obtain d' where d': "remove_listener h ?ref l d = (Inr (), d')"
    by (cases "map_of (registered d) (declared_event_name decl)") (auto simp: remove_listener_def Let_def)
  have "dispatcher_ok d'"
    using dispatcher_ok_remove [OF Cons.prems(2), of h ?ref l] d' by simp
  then obtain d2 where d2: "for_each (remove_declared py h sub) ds () d' = (Inr (), d2)" "dispatcher_ok d2"
    "by_priority_of d2 name = keep_entries (untouched py h sub name ds) (by_priority_of d' name)"
    using Cons.IH [of d' "()"] Cons.prems(1) by auto
  have "untouched py h sub name (decl # ds) = (\<lambda>e. (declared_event_name decl = name \<longrightarrow>
      \<not> same h (entry_listener e) l) \<and> untouched py h sub name ds e)"
    using l by (intro ext) simp
  then have "by_priority_of d2 name = keep_entries (untouched py h sub name (decl # ds)) (by_priority_of d name)"
    using d2(3) by_priority_of_remove [of h ?ref l d name] d'
    by (auto simp: keep_entries_keep)
  moreover have "remove_declared py h sub decl u d = (Inr (), d')"
    using l d' by (simp add: remove_declared_def)
  then have "for_each (remove_declared py h sub) (decl # ds) u d = (Inr (), d2)"
    using d2(1) by (simp add: andthen_def)
  ultimately show ?case using d2(2) by blast
qed

text \<open>
  Removing a subscriber takes back what adding it did: on a dispatcher that had none of its
  methods registered, adding the subscriber and removing it again succeeds and leaves the
  listeners of every event, with their priorities, as they were.
\<close>

theorem subscriber_roundtrip:
  assumes ok: "dispatcher_ok d" and decls: "listeners_subscribed_by sub = Inr decls"
    and added: "add_subscriber py h sub d = (Inr u, d1)"
    and methods: "\<And>m l. get_attribute py (subscriber_obj sub) m = Some l \<Longrightarrow> built_or_itself h l = l"
    and fresh: "\<And>name. list_all (untouched py h sub name decls) (all_entries (by_priority_of d name))"
  shows "\<exists>d2. remove_subscriber py h sub d1 = (Inr (), d2)
           \<and> (by_priority_of d2 = by_priority_of d)"
proof -
  have f: "for_each (add_declared py h sub) decls () d = (Inr u, d1)"
    using added decls by (simp add: add_subscriber_def)
  have "dispatcher_ok d1"
  proof -
    have "dispatcher_ok t'" if "add_declared py h sub x a t = (Inr a', t')" "dispatcher_ok t" for x a t a' t'
      using that dispatcher_ok_add [of t py h]
      by (auto simp: add_declared_def split: if_splits sum.splits) (metis snd_conv)+
    then show ?thesis
      using for_each_inv [OF f, where P = "\<lambda>a t. dispatcher_ok t"] ok by blast
  qed
  then have d2: "\<exists>d2. for_each (remove_declared py h sub) decls () d1 = (Inr (), d2)
      \<and> by_priority_of d2 name = keep_entries (untouched py h sub name decls) (by_priority_of d1 name)" for name
    using remove_declareds [OF add_declareds_bound [OF f], of d1] by blast
  have "keep_entries (untouched py h sub name decls) (by_priority_of d1 name) = by_priority_of d name" for name
  proof -
    have "keep_entries (untouched py h sub name decls) (by_priority_of d name) = by_priority_of d name"
      using by_priority_ok_or_empty [OF ok, of name] fresh [of name]
      by (auto simp: by_priority_ok_def keep_entries_True)
    then show ?thesis
      using add_declareds_keep [where name = name, OF f subset_refl methods] by simp
  qed
  note restored = this
  obtain d2' where removed: "for_each (remove_declared py h sub) decls () d1 = (Inr (), d2')"
    using d2 by blast
  then have "by_priority_of d2' name = by_priority_of d name" for name
    using d2 [of name] restored [of name] by auto
  then show ?thesis
    using removed decls by (auto simp: remove_subscriber_def)
qed

definition mailer :: subscriber where
  "mailer = \<lparr>subscriber_obj = Callable_object 7, subscriber_class = ''Mailer'',
     subscribed_events = D_mapping
       [(D_str ''placed'', D_list [D_str ''on_placed'', D_tuple [D_str ''archive'', D_int 10]]),
        (D_class ''shop'' ''Cancelled'', D_mapping [(D_str ''method'', D_str ''on_cancelled'')])]\<rparr>"

lemma mailer_declares:
  "listeners_subscribed_by mailer =
     Inr [plain_declaration ''placed'' ''on_placed'' None, plain_declaration ''placed'' ''archive'' (Some 10),
          plain_declaration ''shop.Cancelled'' ''on_cancelled'' None]"
  by (simp add: mailer_def listeners_subscribed_by_def read_event_def append_result_def read_named_def
      plain_declaration_def DECLARATION_KEYS_def)

lemma mailer_bound [simp]:
  "bind_declared shop_reflection mailer (plain_declaration ev m p) = Inr (Bound_method 7 m)"
  by (simp add: bind_declared_def mailer_def shop_reflection_def plain_declaration_def)

lemma shop_arity [simp]: "positional_arity shop_reflection (Bound_method ob m) = Inr 1"
  by (simp add: positional_arity_def signature_of_def shop_reflection_def signature_arity_def
      count_parameter_def ARGUMENTS_def)

lemma mailer_added: "\<exists>d1. add_subscriber shop_reflection shop_unbuilt mailer shop = (Inr (), d1)"
proof -
  have one: "\<exists>d'. add_declared shop_reflection shop_unbuilt mailer (plain_declaration ev m p) u d = (Inr (), d')" for ev m p u d
    unfolding add_declared_def mailer_bound
    by (simp add: plain_declaration_def add_listener_def built_or_itself_def)
  have "\<exists>d1. for_each (add_declared shop_reflection shop_unbuilt mailer)
      (map (\<lambda>(ev, m, p). plain_declaration ev m p) xs) u d = (Inr (), d1)" for xs u d
  proof (induction xs arbitrary: u d)
    case (Cons x xs)
    obtain ev m p where x: "x = (ev, m, p)" by (cases x)
    obtain d' where "add_declared shop_reflection shop_unbuilt mailer (plain_declaration ev m p) u d = (Inr (), d')"
      using one by blast
    then show ?case using Cons [of "()" d'] by (simp add: x andthen_def)
  qed simp
  from this [of "[(''placed'', ''on_placed'', None), (''placed'', ''archive'', Some 10),
      (''shop.Cancelled'', ''on_cancelled'', None)]" "()" shop]
  show ?thesis by (simp add: add_subscriber_def mailer_declares)
qed

theorem subscriber_roundtrip_witness:
  "\<exists>d2. remove_subscriber shop_reflection shop_unbuilt mailer
           (snd (add_subscriber shop_reflection shop_unbuilt mailer shop)) = (Inr (), d2)
        \<and> by_priority_of d2 = by_priority_of shop"
proof (rule subscriber_roundtrip [OF shop_ok(1) mailer_declares])
  show "add_subscriber shop_reflection shop_unbuilt mailer shop =
      (Inr (), snd (add_subscriber shop_reflection shop_unbuilt mailer shop))"
    using mailer_added by auto
  show "built_or_itself shop_unbuilt l = l"
    if "get_attribute shop_reflection (subscriber_obj mailer) m = Some l" for m l
    using that by (auto simp: shop_reflection_def mailer_def built_or_itself_def)
  show "list_all (untouched shop_reflection shop_unbuilt mailer name
      [plain_declaration ''placed'' ''on_placed'' None, plain_declaration ''placed'' ''archive'' (Some 10),
       plain_declaration ''shop.Cancelled'' ''on_cancelled'' None]) (all_entries (by_priority_of shop name))" for name
    by (simp add: shop_eq by_priority_of_def dict_get_or_def all_entries_def shop_entry_def
        same_def resolved_in_def shop_unbuilt_def LazyListener_init_def)
qed

section \<open>What a client of a registry relies on\<close>

text \<open>
  The interface of a registry of listeners: an addition that succeeds appends the listener, under the
  form it is kept in, and the listing is the stable sort by descending priority.
\<close>

lemma stable_key: "filter (\<lambda>x. k = f x) (sort_key f xs) = filter (\<lambda>x. k = f x) xs"
  using sort_key_stable [of f k xs] by (simp add: eq_commute)

lemma sort_key_append: "sort_key f (sort_key f xs @ ys) = sort_key f (xs @ ys)"
  by (rule properties_for_sort_key) (simp_all add: stable_key)

locale ordered_registry =
  fixes add :: "string \<Rightarrow> listener \<Rightarrow> int \<Rightarrow> ('d, event_error, unit) prog"
    and listed :: "string \<Rightarrow> 'd \<Rightarrow> (int \<times> listener) list"
    and invar :: "'d \<Rightarrow> bool"
    and kept_as :: "listener \<Rightarrow> listener"
  assumes add_invar: "invar d \<Longrightarrow> add name l p d = (Inr u, d') \<Longrightarrow> invar d'"
    and add_listed: "invar d \<Longrightarrow> add name l p d = (Inr u, d') \<Longrightarrow>
      listed n d' = (if n = name then sort_key (\<lambda>x. - fst x) (listed n d @ [(p, kept_as l)]) else listed n d)"
    and listed_sorted: "invar d \<Longrightarrow> sort_key (\<lambda>x. - fst x) (listed n d) = listed n d"
begin

definition add_all :: "(string \<times> listener \<times> int) list \<Rightarrow> ('d, event_error, unit) prog" where
  "add_all gs = for_each (\<lambda>g u. add (fst g) (fst (snd g)) (snd (snd g))) gs ()"

definition added_to :: "string \<Rightarrow> (string \<times> listener \<times> int) list \<Rightarrow> (int \<times> listener) list" where
  "added_to n gs = map (\<lambda>g. (snd (snd g), kept_as (fst (snd g)))) (filter (\<lambda>g. fst g = n) gs)"

lemma add_all_listed:
  assumes "add_all gs d = (Inr v, d')" and "invar d"
  shows "invar d' \<and> listed n d' = sort_key (\<lambda>x. - fst x) (listed n d @ added_to n gs)"
  using assms
proof (induction gs arbitrary: d)
  case Nil
  then show ?case by (simp add: add_all_def added_to_def listed_sorted)
next
  case (Cons g gs)
  from Cons.prems(1) obtain u d1 where g: "add (fst g) (fst (snd g)) (snd (snd g)) d = (Inr u, d1)"
    "add_all gs d1 = (Inr v, d')"
    by (auto simp: add_all_def elim: andthen_InrE)
  note rest = Cons.IH [OF g(2) add_invar [OF Cons.prems(2) g(1)]]
  have "sort_key (\<lambda>x. - fst x) (listed n d1 @ added_to n gs) =
      sort_key (\<lambda>x. - fst x) (listed n d @ added_to n (g # gs))"
    by (cases "n = fst g") (simp_all add: add_listed [OF Cons.prems(2) g(1)] added_to_def sort_key_append)
  with rest show ?case by simp
qed

end

text \<open>The dispatcher provides it.\<close>

definition prioritized :: "string \<Rightarrow> dispatcher \<Rightarrow> (int \<times> listener) list" where
  "prioritized name d =
     concat (map (\<lambda>p. map (\<lambda>e. (p, entry_listener e)) (entries_at (by_priority_of d name) p))
       (rev (sort (dict_keys (by_priority_of d name)))))"

lemma get_prioritized_eq: "get_prioritized_listeners (Event_name name) d = Inr (prioritized name d)"
  by (simp add: get_prioritized_listeners_def prioritized_def Let_def)

lemma represents_prioritized:
  assumes "dispatcher_ok d"
  shows "represents d (\<lambda>name. prioritized name d)"
  unfolding represents_def
proof (intro allI)
  fix name p
  let ?bp = "by_priority_of d name"
  let ?g = "\<lambda>q. map (\<lambda>e. (q, entry_listener e)) (entries_at ?bp q)"
  have one: "filter (\<lambda>x. fst x = p) (concat (map ?g ps)) = (if p \<in> set ps then ?g p else [])"
    if "distinct ps" for ps
    using that
  proof (induction ps)
    case (Cons q ps)
    moreover have "filter (\<lambda>x. fst x = p) (?g q) = (if q = p then ?g q else [])"
      by (auto simp: filter_empty_conv intro!: filter_True)
    ultimately show ?case by auto
  qed simp
  have "distinct (rev (sort (dict_keys ?bp)))"
    using dispatcher_ok_distinct(3) [OF assms, of name] by (simp add: dict_ok_def)
  moreover have "?g p = []" if "p \<notin> set (dict_keys ?bp)"
    using that unfolding dict_mem_iff by (simp add: entries_at_def dict_get_or_def)
  ultimately show "?g p = filter (\<lambda>x. fst x = p) (prioritized name d)"
    using one [of "rev (sort (dict_keys ?bp))"] by (auto simp: prioritized_def)
qed

lemma prioritized_represents:
  "dispatcher_ok d \<Longrightarrow> represents d H \<Longrightarrow> prioritized name d = sort_key (\<lambda>x. - fst x) (H name)"
  by (simp add: prioritized_def represents_sorted)

lemma prioritized_empty_iff: "dispatcher_ok d \<Longrightarrow> prioritized name d = [] \<longleftrightarrow> map_of (registered d) name = None"
  using registered_iff_entries [of d name] by (auto simp: prioritized_def running_order_def)

interpretation registry: ordered_registry "\<lambda>name. add_listener py h (Event_name name)" prioritized dispatcher_ok
  "built_or_itself h" for py h
proof unfold_locales
  fix d name l p u d' n
  assume ok: "dispatcher_ok d" and a: "add_listener py h (Event_name name) l p d = (Inr u, d')"
  then show ok': "dispatcher_ok d'"
    using dispatcher_ok_add [OF ok, of py h "Event_name name" l p] by simp
  obtain k where "positional_arity py (built_or_itself h l) = Inr k"
    using a by (auto simp: add_listener_def Let_def split: sum.splits)
  then have "represents d' ((\<lambda>m. prioritized m d)(name := prioritized name d @ [(p, built_or_itself h l)]))"
    using represents_add [OF represents_prioritized [OF ok], of py "Event_name name" l p h] a by simp
  from prioritized_represents [OF ok' this, of n]
  show "prioritized n d' = (if n = name then sort_key (\<lambda>x. - fst x) (prioritized n d @ [(p, built_or_itself h l)])
      else prioritized n d)"
    using prioritized_represents [OF ok represents_prioritized [OF ok], of n] by (simp split: if_splits)
next
  show "sort_key (\<lambda>x. - fst x) (prioritized n d) = prioritized n d" if "dispatcher_ok d" for n d
    using prioritized_represents [OF that represents_prioritized [OF that], of n] by simp
qed

section \<open>Compiled and scoped listeners\<close>

lemma for_each_map: "for_each f (map g xs) acc = for_each (\<lambda>x. f (g x)) xs acc"
proof (induction xs arbitrary: acc)
  case (Cons x xs)
  then have "for_each f (map g xs) = for_each (\<lambda>x. f (g x)) xs" by blast
  then show ?case by simp
qed simp

lemma prioritized_init [simp]: "prioritized name EventDispatcher_init = []"
  by (simp add: prioritized_def by_priority_of_def EventDispatcher_init_def dict_get_or_def)

text \<open>A compiled dispatcher lists what it was given, in the order it was given, by priority.\<close>

lemma compiled_order:
  assumes "CompiledEventDispatcher_init py h (map (\<lambda>(n, ls). (Event_name n, ls)) given) = Inr d"
  shows "prioritized name d = sort_key (\<lambda>x. - fst x)
    (map (\<lambda>(l, p). (p, built_or_itself h l)) (concat (map snd (filter (\<lambda>g. fst g = name) given))))"
proof -
  let ?gs = "concat (map (\<lambda>(n, ls). map (\<lambda>(l, p). (n, l, p)) ls) given)"
  have flat: "concat (map (\<lambda>(ref, ls). map (Pair ref) ls) (map (\<lambda>(n, ls). (Event_name n, ls)) given)) =
      map (\<lambda>(n, l, p). (Event_name n, l, p)) ?gs"
    by (induction given) auto
  have add: "add_given py h (case g of (n, l, p) \<Rightarrow> (Event_name n, l, p)) =
      (\<lambda>u. add_listener py h (Event_name (fst g)) (fst (snd g)) (snd (snd g)))" for g
    by (cases g) (simp add: add_given_def fun_eq_iff)
  have "\<exists>u. registry.add_all py h ?gs EventDispatcher_init = (Inr u, d)"
    using assms unfolding CompiledEventDispatcher_init_def flat for_each_map add registry.add_all_def
    by (auto split: prod.splits sum.splits)
  then have "prioritized name d = sort_key (\<lambda>x. - fst x) (registry.added_to h name ?gs)"
    using registry.add_all_listed [where n = name, OF _ dispatcher_ok_init] by fastforce
  moreover have "registry.added_to h name ?gs =
      map (\<lambda>(l, p). (p, built_or_itself h l)) (concat (map snd (filter (\<lambda>g. fst g = name) given)))"
    unfolding registry.added_to_def by (induction given) (auto simp: filter_map comp_def split_def)
  ultimately show ?thesis by simp
qed

text \<open>The registrations of a scope over \<open>d\<close> once the listeners \<open>new\<close> were added for the event.\<close>

definition scope_registrations :: "lazies \<Rightarrow> (int \<times> listener) list \<Rightarrow> (listener \<times> int) list \<Rightarrow> (int \<times> listener) list" where
  "scope_registrations h base new =
     map (\<lambda>(p, l). (p, built_or_itself h l)) base @ map (\<lambda>(l, p). (p, built_or_itself h l)) new"

definition scope_inv :: "lazies \<Rightarrow> dispatcher \<Rightarrow> string \<Rightarrow> (int \<times> listener) list \<Rightarrow> (listener \<times> int) list \<Rightarrow> scoped \<Rightarrow> bool" where
  "scope_inv h d name base new s \<longleftrightarrow>
     wrapped s = d \<and> merged s = [name] \<and> dispatcher_ok (own s)
     \<and> (\<forall>n. prioritized n (own s) =
            (if n = name then sort_key (\<lambda>x. - fst x) (scope_registrations h base new) else []))"

lemma copy_listeners_listed:
  assumes "for_each (copy_listener py h name) ls () EventDispatcher_init = (Inr u, d)"
  shows "dispatcher_ok d \<and> prioritized n d =
    (if n = name then sort_key (\<lambda>x. - fst x) (map (\<lambda>(p, l). (p, built_or_itself h l)) ls) else [])"
proof -
  let ?gs = "map (\<lambda>pl. (name, snd pl, fst pl)) ls"
  have "registry.add_all py h ?gs EventDispatcher_init = (Inr u, d)"
    using assms by (simp add: registry.add_all_def for_each_map copy_listener_def [abs_def])
  from registry.add_all_listed [where n = n, OF this dispatcher_ok_init] show ?thesis
    by (auto simp: registry.added_to_def filter_map comp_def split_def)
qed

lemma scope_add_own:
  assumes "scope_inv h d name base new s" and "add_listener py h (Event_name name) l p (own s) = (Inr u, d')"
  shows "scope_inv h d name base (new @ [(l, p)]) (s\<lparr>own := d'\<rparr>)"
  using assms registry.add_invar [where d = "own s", OF _ assms(2)]
    registry.add_listed [where d = "own s", OF _ assms(2)]
  by (simp add: scope_inv_def scope_registrations_def sort_key_append del: append_assoc add: append_assoc [symmetric])

lemma scoped_add_first:
  assumes "scoped_add_listener py h (Event_name name) l p (ScopedEventDispatcher_init d) = (Inr u, s)"
    and "get_prioritized_listeners (Event_name name) d = Inr base"
  shows "scope_inv h d name base [(l, p)] s"
proof -
  from assms obtain u0 d0 d' where
    c: "for_each (copy_listener py h name) base () EventDispatcher_init = (Inr u0, d0)"
    and a: "add_listener py h (Event_name name) l p d0 = (Inr u, d')"
    and s: "s = \<lparr>own = d', wrapped = d, merged = [name]\<rparr>"
    by (auto simp: scoped_add_listener_def merge_event_def ScopedEventDispatcher_init_def on_own_def andthen_def
             split: prod.splits sum.splits)
  have "scope_inv h d name base [] \<lparr>own = d0, wrapped = d, merged = [name]\<rparr>"
    using copy_listeners_listed [OF c] by (simp add: scope_inv_def scope_registrations_def)
  from scope_add_own [OF this, of py l p u d'] a show ?thesis by (simp add: s)
qed

lemma scoped_add_next:
  assumes "scoped_add_listener py h (Event_name name) l p s = (Inr u, s')" and "scope_inv h d name base new s"
  shows "scope_inv h d name base (new @ [(l, p)]) s'"
proof -
  have "name \<in> set (merged s)" using assms(2) by (simp add: scope_inv_def)
  then obtain d' where "add_listener py h (Event_name name) l p (own s) = (Inr u, d')" "s' = s\<lparr>own := d'\<rparr>"
    using assms(1)
    by (auto simp: scoped_add_listener_def merge_event_def on_own_def andthen_def split: prod.splits sum.splits)
  with scope_add_own [OF assms(2)] show ?thesis by simp
qed

definition scoped_add :: "reflection \<Rightarrow> lazies \<Rightarrow> string \<Rightarrow> listener \<times> int \<Rightarrow> unit \<Rightarrow> (scoped, event_error, unit) prog" where
  "scoped_add py h name lp u = scoped_add_listener py h (Event_name name) (fst lp) (snd lp)"

lemma scoped_adds:
  assumes "for_each (scoped_add py h name) new u s = (Inr v, s')" and "scope_inv h d name base old s"
  shows "scope_inv h d name base (old @ new) s'"
  using assms
proof (induction new arbitrary: u s old)
  case Nil
  then show ?case by simp
next
  case (Cons lp new)
  then obtain u' s1 where a: "scoped_add py h name lp u s = (Inr u', s1)"
    "for_each (scoped_add py h name) new u' s1 = (Inr v, s')"
    by (auto elim: andthen_InrE)
  have "scope_inv h d name base (old @ [lp]) s1"
    using scoped_add_next [of py h name "fst lp" "snd lp" s u' s1] a(1) Cons.prems(2) by (simp add: scoped_add_def)
  from Cons.IH [OF a(2) this] show ?case by simp
qed

lemma scoped_reads:
  assumes "dispatcher_ok (own s)"
  shows "scoped_get_prioritized_listeners (Event_name name) s =
    (if prioritized name (own s) = [] then get_prioritized_listeners (Event_name name) (wrapped s)
     else Inr (prioritized name (own s)))"
  using prioritized_empty_iff [OF assms, of name]
  by (simp add: scoped_get_prioritized_listeners_def has_own_def get_prioritized_eq)

text \<open>
  Listeners added to a scope interleave by priority with those of the wrapped dispatcher: the
  scope runs the wrapped listeners followed by the added ones, stably sorted by descending priority,
  while the wrapped dispatcher is left as it was and every other event is still its own.
\<close>

theorem scoped_interleaves:
  assumes added: "for_each (scoped_add py h name) (lp # new) () (ScopedEventDispatcher_init d) = (Inr v, s)"
    and base: "get_prioritized_listeners (Event_name name) d = Inr base"
  shows "wrapped s = d
    \<and> scoped_get_prioritized_listeners (Event_name name) s =
        Inr (sort_key (\<lambda>x. - fst x) (scope_registrations h base (lp # new)))
    \<and> (\<forall>other. other \<noteq> name \<longrightarrow> scoped_get_prioritized_listeners (Event_name other) s =
        get_prioritized_listeners (Event_name other) d)"
proof (intro conjI allI impI)
  from added obtain u s1 where a: "scoped_add py h name lp () (ScopedEventDispatcher_init d) = (Inr u, s1)"
    "for_each (scoped_add py h name) new u s1 = (Inr v, s)"
    by (auto elim: andthen_InrE)
  have "scope_inv h d name base [lp] s1"
    using scoped_add_first [of py h name "fst lp" "snd lp" d u s1] a(1) base by (simp add: scoped_add_def)
  then have inv: "scope_inv h d name base (lp # new) s"
    using scoped_adds [OF a(2)] by fastforce
  then show "wrapped s = d" by (simp add: scope_inv_def)
  have ok: "dispatcher_ok (own s)" and listed: "\<And>n. prioritized n (own s) =
      (if n = name then sort_key (\<lambda>x. - fst x) (scope_registrations h base (lp # new)) else [])"
    using inv by (auto simp: scope_inv_def)
  have "sort_key (\<lambda>x. - fst x) (scope_registrations h base (lp # new)) \<noteq> []"
    using length_sort [of "\<lambda>x. - fst x" "scope_registrations h base (lp # new)"]
    by (auto simp: scope_registrations_def simp del: length_sort)
  then show "scoped_get_prioritized_listeners (Event_name name) s =
      Inr (sort_key (\<lambda>x. - fst x) (scope_registrations h base (lp # new)))"
    using scoped_reads [OF ok, of name] listed [of name] by simp
  show "scoped_get_prioritized_listeners (Event_name other) s = get_prioritized_listeners (Event_name other) d"
    if "other \<noteq> name" for other
    using scoped_reads [OF ok, of other] listed [of other] that inv by (simp add: scope_inv_def)
qed

definition scope_example :: scoped where
  "scope_example = snd (for_each (scoped_add shop_reflection shop_unbuilt ''placed'')
     [(Routine ''shop.log'', 5), (Routine ''shop.first'', 9)] () (ScopedEventDispatcher_init audited))"

lemma shop_arity_routine [simp]: "positional_arity shop_reflection (Routine q) = Inr 1"
  by (simp add: positional_arity_def signature_of_def shop_reflection_def signature_arity_def
      count_parameter_def ARGUMENTS_def)

lemma audited_lists: "get_prioritized_listeners (Event_name ''placed'') audited = Inr [(5, Routine ''shop.audit'')]"
  by (simp add: get_prioritized_listeners_def audited_def by_priority_of_add built_or_itself_def
      EventDispatcher_init_def by_priority_of_def add_listener_def append_entry_def forget_sorted_def
      add_entry_def entries_at_def dict_get_or_def)

lemma scope_example_added:
  "for_each (scoped_add shop_reflection shop_unbuilt ''placed'')
     [(Routine ''shop.log'', 5), (Routine ''shop.first'', 9)] () (ScopedEventDispatcher_init audited) = (Inr (), scope_example)"
proof -
  have add: "add_listener shop_reflection shop_unbuilt (Event_name n) (Routine q) p d =
      (Inr (), append_entry n (Routine q) 1 p d)" for n q p d
    by (simp add: add_listener_def built_or_itself_def)
  show ?thesis
    by (simp add: scope_example_def scoped_add_def scoped_add_listener_def merge_event_def on_own_def
        ScopedEventDispatcher_init_def audited_lists copy_listener_def add andthen_def)
qed

theorem scoped_interleaves_witness:
  "wrapped scope_example = audited
   \<and> scoped_get_prioritized_listeners (Event_name ''placed'') scope_example =
       Inr [(9, Routine ''shop.first''), (5, Routine ''shop.audit''), (5, Routine ''shop.log'')]
   \<and> scoped_get_prioritized_listeners (Event_name ''sold'') scope_example =
       get_prioritized_listeners (Event_name ''sold'') audited"
  using scoped_interleaves [OF scope_example_added audited_lists]
  by (simp add: scope_registrations_def built_or_itself_def sort_key_def)

text \<open>
  Removing every listener of an event from a scope hands the event back to the wrapped dispatcher:
  a shared listener that was removed here runs again.
\<close>

lemma scoped_removal_undone:
  assumes "scoped_remove_listener h (Event_name name) l s = (r, s')"
    and "map_of (registered (own s')) name = None"
  shows "scoped_get_prioritized_listeners (Event_name name) s' = get_prioritized_listeners (Event_name name) (wrapped s)"
  using assms
  by (auto simp: scoped_remove_listener_def on_own_def scoped_get_prioritized_listeners_def has_own_def
           split: prod.splits)

end
