(* ===== verification/Order_Listeners.thy ===== *)
theory Order_Listeners
  imports Order_Priorities Event_Wrappers
begin

text \<open>
  From declared listeners to running order: \<open>bundle/_listener_ordering.py\<close>, \<open>bundle/listener_map.py\<close>, the
  grouping of \<open>bundle/register_listeners_pass.py\<close> and the construction of
  \<open>bundle/event_dispatcher_factory.py\<close>. This is where the sorter of xtr-dependency-injection meets the
  dispatcher: the last property says that a listener declared before another runs before it.

  What the container reads from its definitions (the declared listeners) and how a reference becomes a
  listener are arguments.
\<close>

section \<open>Declared listeners\<close>

type_synonym reference = nat

record declared_listener =
  listener_reference :: reference
  listener_event :: string
  listener_priority :: "int option"
  listener_dispatcher :: "string option"
  runs_before_names :: "string list"
  runs_after_names :: "string list"
  listener_names :: "string list"

definition label :: "declared_listener \<Rightarrow> string" where
  "label l = last (listener_names l)"

definition constrained :: "declared_listener \<Rightarrow> bool" where
  "constrained l \<longleftrightarrow> runs_before_names l \<noteq> [] \<or> runs_after_names l \<noteq> []"

text \<open>
  \<open>InvalidListenerError\<close> with what its message quotes; a lookup that fails inside the sorter is not a
  \<open>ServiceOrderError\<close> and passes through.
\<close>

datatype listener_error =
    Cannot_be_met string string order_error
  | Names_no_method string string string string string
  | No_dispatcher string "string option"
  | Lookup_failed item

section \<open>Ordering one event's listeners\<close>

text \<open>\<open>while key in keys\<close>: a label already taken gets a number.\<close>

function free_key :: "string \<Rightarrow> (string, 'v) dict \<Rightarrow> nat \<Rightarrow> string \<Rightarrow> string" where
  "free_key lab keys repeat key =
     (if key \<in> set (dict_keys keys) then free_key lab keys (repeat + 1) (lab @ ''#'' @ show_nat repeat) else key)"
  by pat_completeness auto

text \<open>The numbered labels are different, so one of them is free.\<close>

definition taken_from :: "string \<Rightarrow> (string, 'v) dict \<Rightarrow> nat \<Rightarrow> nat set" where
  "taken_from lab keys n = {i. n \<le> i \<and> lab @ ''#'' @ show_nat i \<in> set (dict_keys keys)}"

lemma finite_taken_from: "finite (taken_from lab keys n)"
proof (rule finite_imageD)
  show "finite ((\<lambda>i. lab @ ''#'' @ show_nat i) ` taken_from lab keys n)"
    by (rule finite_subset [of _ "set (dict_keys keys)"]) (auto simp: taken_from_def)
  show "inj_on (\<lambda>i. lab @ ''#'' @ show_nat i) (taken_from lab keys n)"
    by (auto intro!: inj_onI dest: show_nat_inject)
qed

lemma taken_from_step:
  "lab @ ''#'' @ show_nat n \<in> set (dict_keys keys) \<Longrightarrow> card (taken_from lab keys (n + 1)) < card (taken_from lab keys n)"
proof (rule psubset_card_mono [OF finite_taken_from])
  assume "lab @ ''#'' @ show_nat n \<in> set (dict_keys keys)"
  then have "n \<in> taken_from lab keys n" "n \<notin> taken_from lab keys (n + 1)"
    by (auto simp: taken_from_def)
  moreover have "taken_from lab keys (n + 1) \<subseteq> taken_from lab keys n" by (auto simp: taken_from_def)
  ultimately show "taken_from lab keys (n + 1) \<subset> taken_from lab keys n" by blast
qed

definition free_key_measure :: "string \<Rightarrow> (string, 'v) dict \<Rightarrow> nat \<Rightarrow> string \<Rightarrow> nat" where
  "free_key_measure lab keys n key =
     (if key \<notin> set (dict_keys keys) then 0
      else if lab @ ''#'' @ show_nat n \<in> set (dict_keys keys) then card (taken_from lab keys n) + 1 else 1)"

termination free_key
proof (relation "measure (\<lambda>(lab, keys, n, key). free_key_measure lab keys n key)", goal_cases)
  case (2 lab keys n key)
  then show ?case
    using taken_from_step [of lab n keys] unfolding free_key_measure_def by (auto simp del: set_map)
qed simp

declare free_key.simps [simp del]

lemma free_key_fresh: "free_key lab keys n key \<notin> set (dict_keys keys)"
proof (induction lab keys n key rule: free_key.induct)
  case (1 lab keys n key)
  then show ?case by (subst free_key.simps) auto
qed

definition key_listener ::
  "declared_listener \<Rightarrow> (string, declared_listener) dict \<times> aliases \<Rightarrow> (string, declared_listener) dict \<times> aliases" where
  "key_listener l acc =
     (case acc of (keys, aliases) \<Rightarrow>
        (let key = free_key (label l) keys 1 (label l)
         in (dict_set key l keys,
             fold (\<lambda>name as. dict_set name (dict_get_or as name [] @ [key]) as) (listener_names l) aliases)))"

definition read_group :: "declared_listener list \<Rightarrow> (string, declared_listener) dict \<times> aliases" where
  "read_group grp = fold key_listener grp ([], [])"

definition constraints_of :: "(string, declared_listener) dict \<Rightarrow> constraints" where
  "constraints_of keys =
     map (\<lambda>(key, l). (key, runs_before_names l, runs_after_names l)) (filter (\<lambda>(key, l). constrained l) keys)"

text \<open>\<open>str.rpartition\<close> at the last dot: what is before it and what is after it.\<close>

definition rpartition_dot :: "string \<Rightarrow> string \<times> string" where
  "rpartition_dot s =
     (if CHR ''.'' \<in> set s
      then (rev (tl (dropWhile (\<lambda>c. c \<noteq> CHR ''.'') (rev s))), rev (takeWhile (\<lambda>c. c \<noteq> CHR ''.'') (rev s)))
      else ([], s))"

definition check_target ::
  "string \<Rightarrow> aliases \<Rightarrow> declared_listener \<Rightarrow> string \<Rightarrow> unit \<Rightarrow> listener_error + unit" where
  "check_target event_name aliases l target u =
     (case rpartition_dot target of (owner, meth) \<Rightarrow>
        if target \<in> set (dict_keys aliases) \<or> owner = [] \<or> CHR '':'' \<notin> set owner \<or> owner \<notin> set (dict_keys aliases)
        then Inr () else Inl (Names_no_method (label l) target owner event_name meth))"

definition check_targets ::
  "string \<Rightarrow> (string, declared_listener) dict \<Rightarrow> aliases \<Rightarrow> listener_error + unit" where
  "check_targets event_name keys aliases =
     fold_r (\<lambda>l u. fold_r (check_target event_name aliases l) (runs_before_names l @ runs_after_names l) u)
       (map snd keys) ()"

definition ordered :: "string \<Rightarrow> declared_listener list \<Rightarrow> listener_error + (int \<times> reference) list" where
  "ordered event_name grp =
     (if \<not> list_ex constrained grp
      then Inr (map (\<lambda>l. (case listener_priority l of None \<Rightarrow> 0 | Some p \<Rightarrow> p, listener_reference l)) grp)
      else case read_group grp of (keys, aliases) \<Rightarrow>
        (case check_targets event_name keys aliases of
           Inl e \<Rightarrow> Inl e
         | Inr u \<Rightarrow>
             (case sort_with_priorities (map (\<lambda>(key, l). (key, listener_priority l)) keys) (constraints_of keys) aliases of
                Inl (Order_Sorter.KeyError item) \<Rightarrow> Inl (Lookup_failed item)
              | Inl e \<Rightarrow>
                  (case map_of keys (fst (hd (constraints_of keys))) of
                     None \<Rightarrow> Inl (Lookup_failed (fst (hd (constraints_of keys))))
                   | Some l \<Rightarrow> Inl (Cannot_be_met (label l) event_name e))
              | Inr resolved \<Rightarrow>
                  Inr (map (\<lambda>(key, p). (p, listener_reference (the (map_of keys key)))) resolved))))"

section \<open>The listeners of a dispatcher\<close>

type_synonym listener_map = "(string, (int \<times> reference) list) dict"

definition with_listeners_of :: "listener_map \<Rightarrow> listener_map \<Rightarrow> event_ref list \<Rightarrow> event_error + listener_map" where
  "with_listeners_of this other events =
     (case fold_r (\<lambda>ref names. case event_name_of ref of Inl e \<Rightarrow> Inl e | Inr n \<Rightarrow> Inr (names @ [n])) events [] of
        Inl e \<Rightarrow> Inl e
      | Inr names \<Rightarrow>
          Inr (fold (\<lambda>name merged_map.
                  if dict_get_or other name [] = [] then merged_map
                  else dict_set name (sort_key (\<lambda>pr. - fst pr) (dict_get_or merged_map name [] @ dict_get_or other name []))
                         merged_map)
                (rev (remdups (rev names))) this))"

text \<open>\<open>RegisterListenersPass.process\<close>: the listeners by dispatcher and event, then each group in order.\<close>

type_synonym by_dispatcher = "(string option, (string, declared_listener list) dict) dict"

definition add_to_dispatcher :: "declared_listener \<Rightarrow> by_dispatcher \<Rightarrow> listener_error + by_dispatcher" where
  "add_to_dispatcher l groups =
     (case map_of groups (listener_dispatcher l) of
        None \<Rightarrow> Inl (No_dispatcher (label l) (listener_dispatcher l))
      | Some events \<Rightarrow>
          Inr (dict_set (listener_dispatcher l)
                 (dict_set (listener_event l) (dict_get_or events (listener_event l) [] @ [l]) events) groups))"

definition listener_map_of :: "(string, declared_listener list) dict \<Rightarrow> listener_error + listener_map" where
  "listener_map_of events =
     fold_r (\<lambda>(event, grp) lm. case ordered event grp of Inl e \<Rightarrow> Inl e | Inr refs \<Rightarrow> Inr (dict_set event refs lm))
       events []"

definition process_listeners ::
  "string option list \<Rightarrow> declared_listener list \<Rightarrow> listener_error + (string option, listener_map) dict" where
  "process_listeners tagged declared_ls =
     (case fold_r add_to_dispatcher declared_ls (fold (\<lambda>name. dict_set name []) tagged []) of
        Inl e \<Rightarrow> Inl e
      | Inr groups \<Rightarrow>
          fold_r (\<lambda>(name, events) maps. case listener_map_of events of
                    Inl e \<Rightarrow> Inl e | Inr lm \<Rightarrow> Inr (dict_set name lm maps)) groups [])"

text \<open>\<open>event_dispatcher_factory\<close>: \<open>listener_of\<close> is \<open>reference.listener(container)\<close>.\<close>

definition event_dispatcher ::
  "reflection \<Rightarrow> lazies \<Rightarrow> (reference \<Rightarrow> listener) \<Rightarrow> listener_map \<Rightarrow> event_error + dispatcher" where
  "event_dispatcher py h listener_of listeners =
     CompiledEventDispatcher_init py h
       (map (\<lambda>(event, refs). (Event_name event, map (\<lambda>(p, ref). (listener_of ref, p)) refs)) listeners)"

lemmas [order_defs] = check_targets_def ordered_def listener_map_of_def process_listeners_def

section \<open>The keys and names of a group\<close>

lemma dict_set_fresh: "k \<notin> set (dict_keys d) \<Longrightarrow> dict_set k v d = d @ [(k, v)]"
  by (induction d) auto

lemma add_names:
  "set (dict_get_or (fold (\<lambda>name as. dict_set name (dict_get_or as name [] @ [key]) as) names aliases) n [])
     = set (dict_get_or aliases n []) \<union> (if n \<in> set names then {key} else {})"
  by (induction names arbitrary: aliases) auto

lemma read_group_ok:
  assumes "read_group grp = (keys, aliases)"
  shows "map snd keys = grp \<and> distinct (map fst keys)
    \<and> (\<forall>(k, l)\<in>set keys. \<forall>n\<in>set (listener_names l). k \<in> set (dict_get_or aliases n []))"
  using assms
proof (induction grp arbitrary: keys aliases rule: rev_induct)
  case Nil
  then show ?case by (simp add: read_group_def)
next
  case (snoc l grp)
  obtain keys0 aliases0 where 0: "read_group grp = (keys0, aliases0)" by fastforce
  define key where "key = free_key (label l) keys0 1 (label l)"
  have fresh: "key \<notin> set (dict_keys keys0)" unfolding key_def by (rule free_key_fresh)
  have "(keys, aliases) = key_listener l (keys0, aliases0)"
    using snoc.prems 0 by (simp add: read_group_def)
  then have "keys = keys0 @ [(key, l)]"
    and "aliases = fold (\<lambda>name as. dict_set name (dict_get_or as name [] @ [key]) as) (listener_names l) aliases0"
    unfolding key_listener_def prod.case key_def [symmetric] Let_def dict_set_fresh [OF fresh] by simp_all
  with snoc.IH [OF 0] fresh show ?case by (fastforce simp: add_names)
qed

text \<open>What a declaration asks of two listeners.\<close>

definition asks_before :: "declared_listener \<Rightarrow> declared_listener \<Rightarrow> bool" where
  "asks_before l1 l2 \<longleftrightarrow>
     (\<exists>n\<in>set (listener_names l2). n \<in> set (runs_before_names l1))
     \<or> (\<exists>n\<in>set (listener_names l1). n \<in> set (runs_after_names l2))"

lemma designated_names: "k \<in> set (dict_get_or aliases n []) \<Longrightarrow> k \<in> set (designated aliases n)"
  by (auto simp: designated_def dict_get_or_def split: option.splits)

lemma asks_before_edge:
  assumes "read_group grp = (keys, aliases)" "(k1, l1) \<in> set keys" "(k2, l2) \<in> set keys" "k1 \<noteq> k2" "asks_before l1 l2"
  shows "(k1, k2) \<in> must_precede (set (dict_keys keys)) (constraints_of keys) aliases"
proof -
  let ?K = "set (dict_keys keys)"
  have K: "k1 \<in> ?K" "k2 \<in> ?K" using assms(2,3) by (auto intro: rev_image_eqI)
  have names: "k \<in> set (designated aliases n)" if "(k, l) \<in> set keys" "n \<in> set (listener_names l)" for k l n
    using read_group_ok [OF assms(1)] that by (blast intro: designated_names)
  consider n where "n \<in> set (listener_names l2)" "n \<in> set (runs_before_names l1)"
    | n where "n \<in> set (listener_names l1)" "n \<in> set (runs_after_names l2)"
    using assms(5) by (auto simp: asks_before_def)
  then show ?thesis
  proof cases
    case 1
    let ?c = "(runs_before_names l1, runs_after_names l1)"
    have "(k1, ?c) \<in> set (constraints_of keys)"
      using assms(2) 1(2) by (force simp: constraints_of_def constrained_def)
    moreover have "(Before, k2) \<in> set (targets_of aliases ?c)"
      using names [OF assms(3) 1(1)] 1(2) by (auto simp: targets_of_def)
    then have "edge k1 (Before, k2) \<in> edges_to ?K k1 (targets_of aliases ?c)"
      unfolding edges_to_def using K(2) assms(4) by (intro imageI) auto
    ultimately show ?thesis
      unfolding must_precede_def using K(1) by (force simp del: set_map)
  next
    case 2
    let ?c = "(runs_before_names l2, runs_after_names l2)"
    have "(k2, ?c) \<in> set (constraints_of keys)"
      using assms(3) 2(2) by (force simp: constraints_of_def constrained_def)
    moreover have "(After, k1) \<in> set (targets_of aliases ?c)"
      using names [OF assms(2) 2(1)] 2(2) by (auto simp: targets_of_def)
    then have "edge k2 (After, k1) \<in> edges_to ?K k2 (targets_of aliases ?c)"
      unfolding edges_to_def using K(1) assms(4) by (intro imageI) auto
    ultimately show ?thesis
      unfolding must_precede_def using K(2) by (force simp del: set_map)
  qed
qed

section \<open>The order of a group\<close>

definition group_in_range :: "declared_listener list \<Rightarrow> bool" where
  "group_in_range ls \<longleftrightarrow> (\<forall>l\<in>set ls. \<forall>p. listener_priority l = Some p \<longrightarrow> in_range p)"

text \<open>A list of listeners runs a group: each once, by priority, each before those it asks to be before.\<close>

definition runs_group :: "declared_listener list \<Rightarrow> (int \<times> reference) list \<Rightarrow> bool" where
  "runs_group grp refs \<longleftrightarrow>
     mset (map snd refs) = mset (map listener_reference grp)
     \<and> sorted_wrt (\<ge>) (map fst refs)
     \<and> (\<forall>i<length grp. \<forall>j<length grp. i \<noteq> j \<and> asks_before (grp ! i) (grp ! j) \<longrightarrow>
          (\<exists>us p vs q ws. refs = us @ (p, listener_reference (grp ! i)) # vs @ (q, listener_reference (grp ! j)) # ws))"

lemma declared_of_group:
  "declared (map (\<lambda>(key, l). (key, listener_priority l)) keys) k = Option.bind (map_of keys k) listener_priority"
  by (simp add: declared_def map_of_map split: option.splits)

lemma ordered_constrained:
  assumes "ordered event grp = Inr refs" "list_ex constrained grp" "group_in_range grp"
  shows "runs_group grp refs"
proof -
  obtain keys aliases where g: "read_group grp = (keys, aliases)" by fastforce
  let ?P = "map (\<lambda>(key, l). (key, listener_priority l)) keys" and ?C = "constraints_of keys"
  from assms(1,2) g obtain xs where s: "sort_with_priorities ?P ?C aliases = Inr xs"
    and refs: "refs = map (\<lambda>(key, p). (p, listener_reference (the (map_of keys key)))) xs"
    by (auto simp: ordered_def split: sum.splits order_error.splits option.splits)
  have ok: "map snd keys = grp" "distinct (map fst keys)" using read_group_ok [OF g] by auto
  have fsts: "map fst ?P = map fst keys" by (simp add: comp_def split_def)
  have "dict_ok ?P" using ok(2) fsts by (simp add: dict_ok_def del: map_map)
  moreover have "priorities_in_range ?P"
    using assms(3) ok(1) by (fastforce simp: priorities_in_range_def group_in_range_def)
  ultimately have res: "mset (map fst xs) = mset (map fst keys)" "sorted_wrt (\<ge>) (map snd xs)"
    "in_order (must_precede (set (map fst keys)) ?C aliases) (map fst xs)"
    using sort_with_priorities_success [OF _ _ s] fsts by (metis (no_types, lifting))+
  define f where "f k = listener_reference (the (map_of keys k))" for k
  have refs_f: "map snd refs = map f (map fst xs)" "map fst refs = map snd xs"
    by (simp_all add: refs f_def split_def)
  have f: "f k = listener_reference l" if "(k, l) \<in> set keys" for k l
    using that ok(2) by (simp add: f_def)
  have "map f (map fst keys) = map listener_reference grp"
    using f by (auto simp flip: ok(1))
  then have "mset (map snd refs) = mset (map listener_reference grp)"
    unfolding refs_f mset_map [of f] res(1) by (metis mset_map)
  moreover have "\<exists>us p vs q ws. refs = us @ (p, listener_reference (grp ! i)) # vs @ (q, listener_reference (grp ! j)) # ws"
    if ij: "i < length grp" "j < length grp" "i \<noteq> j" "asks_before (grp ! i) (grp ! j)" for i j
  proof -
    have len: "length keys = length grp" using ok(1) by auto
    define k1 k2 where "k1 = fst (keys ! i)" and "k2 = fst (keys ! j)"
    have at: "(fst (keys ! n), grp ! n) \<in> set keys" if "n < length grp" for n
      using that len by (metis nth_map nth_mem ok(1) prod.collapse)
    then have k: "(k1, grp ! i) \<in> set keys" "(k2, grp ! j) \<in> set keys"
      using ij by (simp_all add: k1_def k2_def)
    moreover have "k1 \<noteq> k2" using ij len ok(2) nth_eq_iff_index_eq [OF ok(2), of i j] by (simp add: k1_def k2_def)
    ultimately have e: "(k1, k2) \<in> must_precede (set (map fst keys)) ?C aliases"
      using asks_before_edge [OF g] ij(4) by blast
    have "k2 \<in> set (map fst xs)" using res(1) k(2) by (metis fst_conv image_eqI list.set_map mset_distinct_set)
    from in_order_before [OF res(3) e this] obtain us vs ws where "map fst xs = us @ k1 # vs @ k2 # ws" by blast
    then obtain us' p vs' q ws' where "xs = us' @ (k1, p) # vs' @ (k2, q) # ws'"
      by (auto simp: map_eq_append_conv append_eq_map_conv map_eq_Cons_conv Cons_eq_map_conv)
    then have "refs = map (\<lambda>(k, p). (p, f k)) us' @ (p, f k1) # map (\<lambda>(k, p). (p, f k)) vs' @ (q, f k2) # map (\<lambda>(k, p). (p, f k)) ws'"
      by (simp add: refs f_def)
    then show ?thesis using f [OF k(1)] f [OF k(2)] by (metis (no_types, lifting))
  qed
  ultimately show ?thesis
    using res(2) by (auto simp: runs_group_def refs_f(2))
qed

section \<open>From declarations to the running order\<close>

text \<open>A dictionary comprehension whose values may fail.\<close>

lemma fold_r_dict:
  assumes "fold_r (\<lambda>(k, v) acc. case f k v of Inl e \<Rightarrow> Inl e | Inr w \<Rightarrow> Inr (dict_set k w acc)) d acc = Inr r"
    and "distinct (dict_keys acc @ dict_keys d)"
  shows "dict_keys r = dict_keys acc @ dict_keys d
    \<and> (\<forall>k v. map_of d k = Some v \<longrightarrow> (\<exists>w. f k v = Inr w \<and> map_of r k = Some w))
    \<and> (\<forall>k. k \<notin> set (dict_keys d) \<longrightarrow> map_of r k = map_of acc k)"
  using assms
proof (induction d arbitrary: acc)
  case (Cons kv d)
  obtain k v where kv: "kv = (k, v)" by fastforce
  from Cons.prems(1) obtain w where w: "f k v = Inr w"
    "fold_r (\<lambda>(k, v) acc. case f k v of Inl e \<Rightarrow> Inl e | Inr w \<Rightarrow> Inr (dict_set k w acc)) d (dict_set k w acc) = Inr r"
    by (auto simp: kv split: sum.splits)
  have keys: "dict_keys (dict_set k w acc) = dict_keys acc @ [k]"
    using Cons.prems(2) by (simp add: kv update_keys)
  from Cons.IH [OF w(2)] Cons.prems(2) w(1) show ?case
    by (auto simp: kv keys)
qed simp

definition listeners_on :: "string option \<Rightarrow> string \<Rightarrow> declared_listener list \<Rightarrow> declared_listener list" where
  "listeners_on name event ls = filter (\<lambda>l. listener_dispatcher l = name \<and> listener_event l = event) ls"

definition grouped :: "by_dispatcher \<Rightarrow> string option \<Rightarrow> string \<Rightarrow> declared_listener list" where
  "grouped groups name event = dict_get_or (dict_get_or groups name []) event []"

definition groups_ok :: "by_dispatcher \<Rightarrow> bool" where
  "groups_ok groups \<longleftrightarrow> dict_ok groups \<and> (\<forall>(name, events)\<in>set groups. dict_ok events)"

lemma groups_ok_lookup: "groups_ok groups \<Longrightarrow> map_of groups name = Some events \<Longrightarrow> dict_ok events"
  by (auto simp: groups_ok_def dest: map_of_SomeD)

lemma dict_set_pairs: "set (dict_set k v d) \<subseteq> insert (k, v) (set d)"
  by (induction d) auto

lemma add_to_dispatcher_groups:
  assumes "fold_r add_to_dispatcher ls groups = Inr groups'" "groups_ok groups"
  shows "groups_ok groups' \<and> grouped groups' name event = grouped groups name event @ listeners_on name event ls"
  using assms
proof (induction ls arbitrary: groups)
  case (Cons l ls)
  from Cons.prems(1) obtain events where e: "map_of groups (listener_dispatcher l) = Some events"
    by (auto simp: add_to_dispatcher_def split: sum.splits option.splits)
  let ?events = "dict_set (listener_event l) (dict_get_or events (listener_event l) [] @ [l]) events"
  let ?groups = "dict_set (listener_dispatcher l) ?events groups"
  have "add_to_dispatcher l groups = Inr ?groups" by (simp add: add_to_dispatcher_def e)
  with Cons.prems(1) have rest: "fold_r add_to_dispatcher ls ?groups = Inr groups'" by simp
  have "dict_ok ?events" using groups_ok_lookup [OF Cons.prems(2) e] by simp
  then have "groups_ok ?groups"
    using Cons.prems(2) dict_set_pairs [of "listener_dispatcher l" ?events groups] by (auto simp: groups_ok_def)
  from Cons.IH [OF rest this] e show ?case
    by (auto simp: grouped_def listeners_on_def dict_get_or_def)
qed (simp add: listeners_on_def)

lemma seed_groups_ok: "groups_ok (fold (\<lambda>name. dict_set name []) tagged [])"
  and seed_grouped: "grouped (fold (\<lambda>name. dict_set name []) tagged []) name event = []"
proof -
  have "groups_ok (fold (\<lambda>name. dict_set name []) tagged g) \<and> grouped (fold (\<lambda>name. dict_set name []) tagged g) name event = []"
    if "groups_ok g" "grouped g name event = []" for g
    using that
  proof (induction tagged arbitrary: g)
    case (Cons t tagged)
    have "groups_ok (dict_set t [] g)"
      using Cons.prems(1) dict_set_pairs [of t "[]" g] by (auto simp: groups_ok_def)
    moreover have "grouped (dict_set t [] g) name event = []"
      using Cons.prems(2) by (simp add: grouped_def dict_get_or_def)
    ultimately show ?case using Cons.IH [of "dict_set t [] g"] by simp
  qed simp
  from this [of "[]"] show "groups_ok (fold (\<lambda>name. dict_set name []) tagged [])"
    "grouped (fold (\<lambda>name. dict_set name []) tagged []) name event = []"
    by (auto simp: groups_ok_def [of "[]"] grouped_def [of "[]"] dict_get_or_def [of "[]"])
qed

lemma process_listeners_group:
  assumes "process_listeners tagged ls = Inr maps" "map_of maps name = Some lm"
  shows "dict_ok lm \<and> (if listeners_on name event ls = [] then dict_get_or lm event [] = []
     else \<exists>refs. ordered event (listeners_on name event ls) = Inr refs \<and> map_of lm event = Some refs)"
proof -
  from assms(1) obtain groups where g: "fold_r add_to_dispatcher ls (fold (\<lambda>name. dict_set name []) tagged []) = Inr groups"
    and maps: "fold_r (\<lambda>(name, events) maps. case listener_map_of events of
        Inl e \<Rightarrow> Inl e | Inr lm \<Rightarrow> Inr (dict_set name lm maps)) groups [] = Inr maps"
    by (auto simp: process_listeners_def split: sum.splits)
  have ok: "groups_ok groups" "grouped groups name event = listeners_on name event ls"
    using add_to_dispatcher_groups [OF g seed_groups_ok] seed_grouped by simp_all
  have "distinct (dict_keys [] @ dict_keys groups)" using ok(1) by (simp add: groups_ok_def dict_ok_def)
  note m = fold_r_dict [where f = "\<lambda>name. listener_map_of", OF maps this]
  from m assms(2) have "map_of groups name \<noteq> None"
    by (metis append_Nil dict_mem_iff list.simps(8) option.distinct(1))
  then obtain events where e: "map_of groups name = Some events" by blast
  with m assms(2) have lm: "listener_map_of events = Inr lm" by (metis option.inject)
  have events: "dict_ok events" by (rule groups_ok_lookup [OF ok(1) e])
  note l = fold_r_dict [where f = ordered, OF lm [unfolded listener_map_of_def]]
  have keys: "dict_keys lm = dict_keys events" using l events by (simp add: dict_ok_def)
  have grp: "dict_get_or events event [] = listeners_on name event ls"
    using ok(2) e by (simp add: grouped_def dict_get_or_def)
  show ?thesis
  proof (cases "map_of events event")
    case None
    then have "map_of lm event = None" using keys by (metis dict_mem_iff)
    with None grp keys events show ?thesis by (simp add: dict_get_or_def dict_ok_def)
  next
    case (Some g)
    with l events obtain refs where "ordered event g = Inr refs" "map_of lm event = Some refs"
      unfolding dict_ok_def by (metis append_Nil list.simps(8))
    moreover from Some grp have "g = listeners_on name event ls" by (simp add: dict_get_or_def)
    ultimately show ?thesis
      using keys events by (auto simp: dict_get_or_def dict_ok_def ordered_def)
  qed
qed

lemma filter_dict:
  "dict_ok d \<Longrightarrow> concat (map snd (filter (\<lambda>g. fst g = k) (map (\<lambda>(k, v). (k, map f v)) d))) = map f (dict_get_or d k [])"
proof (induction d)
  case (Cons kv d)
  have none: "filter (\<lambda>g. fst g = k) (map (\<lambda>(k, v). (k, map f v)) d) = []" if "k \<notin> fst ` set d"
    using that by (force simp: filter_empty_conv)
  from Cons none show ?case by (cases kv) (auto simp: dict_ok_def dict_get_or_def)
qed (simp add: dict_get_or_def)

lemma event_dispatcher_lists:
  assumes "event_dispatcher py h listener_of lm = Inr d" "dict_ok lm"
  shows "prioritized event d =
    sort_key (\<lambda>x. - fst x) (map (\<lambda>(p, ref). (p, built_or_itself h (listener_of ref))) (dict_get_or lm event []))"
proof -
  let ?given = "map (\<lambda>(event, refs). (event, map (\<lambda>(p, ref). (listener_of ref, p)) refs)) lm"
  have "CompiledEventDispatcher_init py h (map (\<lambda>(n, ls). (Event_name n, ls)) ?given) = Inr d"
    using assms(1) by (simp add: event_dispatcher_def comp_def split_def)
  from compiled_order [OF this, of event] show ?thesis
    unfolding filter_dict [OF assms(2)] by (simp add: comp_def split_def)
qed

text \<open>How the dispatcher keeps the listener a declaration refers to.\<close>

definition runs_as :: "lazies \<Rightarrow> (reference \<Rightarrow> listener) \<Rightarrow> declared_listener \<Rightarrow> listener" where
  "runs_as h listener_of l = built_or_itself h (listener_of (listener_reference l))"

lemma sorted_wrt_ge_key: "sorted_wrt (\<ge>) (map fst xs) \<Longrightarrow> sort_key (\<lambda>x. - fst x) xs = (xs :: (int \<times> 'a) list)"
  by (intro sort_key_id_if_sorted) (simp add: sorted_map sorted_wrt_map)

lemma mset_run_as:
  assumes "mset (map snd refs) = mset (map listener_reference grp)"
  shows "mset (map snd (map (\<lambda>(p, ref). (p, built_or_itself h (listener_of ref))) refs)) = mset (map (runs_as h listener_of) grp)"
proof -
  let ?g = "\<lambda>ref. built_or_itself h (listener_of ref)"
  have "map snd (map (\<lambda>(p, ref). (p, ?g ref)) refs) = map ?g (map snd refs)" by (simp add: split_def)
  moreover have "map (runs_as h listener_of) grp = map ?g (map listener_reference grp)" by (simp add: runs_as_def)
  ultimately show ?thesis using assms by (metis mset_map)
qed

lemma runs_group_prioritized:
  assumes "runs_group grp refs"
  shows "let run = map (\<lambda>(p, ref). (p, built_or_itself h (listener_of ref))) refs in
    sort_key (\<lambda>x. - fst x) run = run
    \<and> mset (map snd run) = mset (map (runs_as h listener_of) grp)
    \<and> (\<forall>i<length grp. \<forall>j<length grp. i \<noteq> j \<and> asks_before (grp ! i) (grp ! j) \<longrightarrow>
         (\<exists>us p vs q ws. run = us @ (p, runs_as h listener_of (grp ! i)) # vs @ (q, runs_as h listener_of (grp ! j)) # ws))"
proof -
  define f where "f = (\<lambda>(p :: int, ref). (p, built_or_itself h (listener_of ref)))"
  have fsts: "map fst (map f refs) = map fst refs" by (simp add: f_def split_def)
  have "mset (map snd (map f refs)) = mset (map (runs_as h listener_of) grp)"
    using mset_run_as [of refs grp h listener_of] assms by (simp add: runs_group_def f_def del: mset_map map_map)
  moreover have "sort_key (\<lambda>x. - fst x) (map f refs) = map f refs"
    using assms fsts by (intro sorted_wrt_ge_key) (simp only: runs_group_def)
  moreover have "\<exists>us p vs q ws. map f refs =
        us @ (p, runs_as h listener_of (grp ! i)) # vs @ (q, runs_as h listener_of (grp ! j)) # ws"
    if "i < length grp" "j < length grp" "i \<noteq> j" "asks_before (grp ! i) (grp ! j)" for i j
  proof -
    from assms that obtain us p vs q ws
      where "refs = us @ (p, listener_reference (grp ! i)) # vs @ (q, listener_reference (grp ! j)) # ws"
      unfolding runs_group_def by blast
    then have "map f refs = map f us @ (p, runs_as h listener_of (grp ! i)) # map f vs
        @ (q, runs_as h listener_of (grp ! j)) # map f ws"
      by (simp add: f_def runs_as_def)
    then show ?thesis by blast
  qed
  ultimately show ?thesis unfolding Let_def f_def [symmetric] by blast
qed

lemma ordered_unconstrained:
  assumes "\<not> list_ex constrained grp"
  shows "\<not> asks_before (grp ! i) (grp ! j) \<or> i \<ge> length grp \<or> j \<ge> length grp"
proof (rule ccontr)
  assume "\<not> ?thesis"
  then have "grp ! i \<in> set grp" "grp ! j \<in> set grp" "asks_before (grp ! i) (grp ! j)" by simp_all
  with assms show False by (auto simp: asks_before_def list_ex_iff constrained_def)
qed

text \<open>
  C17: what the listeners of an event declare is how they run. When the container's pass accepts the
  declared listeners of a dispatcher and the dispatcher is built from them, it lists for each event
  exactly the listeners declared for it, and a listener that asks to run before another (by its own
  \<open>before\<close>, or by the other's \<open>after\<close>, with any name of the other) comes ahead of it, whatever the order of
  the declarations. The sorter's order is one the dispatcher, which sorts by priority, does not undo.
\<close>

theorem declared_order_is_running_order:
  assumes "process_listeners tagged ls = Inr maps" "map_of maps name = Some lm"
    and "event_dispatcher py h listener_of lm = Inr d" "group_in_range ls"
  shows "mset (map snd (prioritized event d)) = mset (map (runs_as h listener_of) (listeners_on name event ls))
    \<and> (\<forall>i<length (listeners_on name event ls). \<forall>j<length (listeners_on name event ls).
         i \<noteq> j \<and> asks_before (listeners_on name event ls ! i) (listeners_on name event ls ! j) \<longrightarrow>
         (\<exists>us p vs q ws. prioritized event d =
            us @ (p, runs_as h listener_of (listeners_on name event ls ! i)) # vs
               @ (q, runs_as h listener_of (listeners_on name event ls ! j)) # ws))"
proof -
  let ?grp = "listeners_on name event ls"
  let ?run = "\<lambda>refs. map (\<lambda>(p, ref). (p, built_or_itself h (listener_of ref))) refs"
  have lm: "dict_ok lm" "if ?grp = [] then dict_get_or lm event [] = []
      else \<exists>refs. ordered event ?grp = Inr refs \<and> map_of lm event = Some refs"
    using process_listeners_group [OF assms(1,2)] by blast+
  have list: "prioritized event d = sort_key (\<lambda>x. - fst x) (?run (dict_get_or lm event []))"
    by (rule event_dispatcher_lists [OF assms(3) lm(1)])
  show ?thesis
  proof (cases "list_ex constrained ?grp")
    case True
    then have "?grp \<noteq> []" by auto
    with lm(2) obtain refs where refs: "ordered event ?grp = Inr refs" "map_of lm event = Some refs" by auto
    have "group_in_range ?grp" using assms(4) by (auto simp: group_in_range_def listeners_on_def)
    with ordered_constrained [OF refs(1) True] have "runs_group ?grp refs" by blast
    note run = runs_group_prioritized [OF this, of h listener_of, unfolded Let_def]
    then have "prioritized event d = ?run refs" using list refs(2) by (simp add: dict_get_or_def)
    then show ?thesis using run by (elim ssubst) blast
  next
    case False
    then have "map snd (dict_get_or lm event []) = map listener_reference ?grp"
      using lm(2) by (auto simp: ordered_def dict_get_or_def split: if_splits)
    then have "mset (map snd (?run (dict_get_or lm event []))) = mset (map (runs_as h listener_of) ?grp)"
      by (intro mset_run_as) (simp only:)
    then have "mset (map snd (prioritized event d)) = mset (map (runs_as h listener_of) ?grp)"
      unfolding list by (simp only: mset_map mset_sort)
    moreover have "\<not> (i \<noteq> j \<and> asks_before (?grp ! i) (?grp ! j))" if "i < length ?grp" "j < length ?grp" for i j
      using ordered_unconstrained [OF False, of i j] that by simp
    ultimately show ?thesis by blast
  qed
qed

section \<open>Example\<close>

text \<open>Three listeners of one event: the mailer has a priority, the audit asks to run ahead of it.\<close>

definition order_listener :: "nat \<Rightarrow> int option \<Rightarrow> string list \<Rightarrow> string \<Rightarrow> declared_listener" where
  "order_listener ref p before name =
     \<lparr>listener_reference = ref, listener_event = ''placed'', listener_priority = p, listener_dispatcher = None,
      runs_before_names = before, runs_after_names = [], listener_names = [name]\<rparr>"

definition order_listeners :: "declared_listener list" where
  "order_listeners = [order_listener 0 (Some 5) [] ''shop:mail'', order_listener 1 None [] ''shop:log'',
     order_listener 2 None [''shop:mail''] ''shop:audit'']"

definition order_map :: listener_map where
  "order_map = [(''placed'', [(5, 2), (5, 0), (0, 1)])]"

lemma order_processed: "process_listeners [None] order_listeners = Inr [(None, order_map)]"
  by code_simp

definition order_routine :: "reference \<Rightarrow> listener" where
  "order_routine ref = Routine ([''mail'', ''log'', ''audit''] ! ref)"

definition order_dispatcher :: dispatcher where
  "order_dispatcher = append_entry ''placed'' (Routine ''log'') 1 0
     (append_entry ''placed'' (Routine ''mail'') 1 5 (append_entry ''placed'' (Routine ''audit'') 1 5 EventDispatcher_init))"

lemma order_built: "event_dispatcher shop_reflection shop_unbuilt order_routine order_map = Inr order_dispatcher"
proof -
  have add: "add_given shop_reflection shop_unbuilt (Event_name n, Routine q, p) u d =
      (Inr (), append_entry n (Routine q) 1 p d)" for n q p u d
    by (simp add: add_given_def add_listener_def built_or_itself_def)
  show ?thesis
    by (simp add: event_dispatcher_def CompiledEventDispatcher_init_def order_map_def order_routine_def add
        order_dispatcher_def andthen_def)
qed

theorem declared_order_is_running_order_witness:
  "\<exists>us p vs q ws. prioritized ''placed'' order_dispatcher = us @ (p, Routine ''audit'') # vs @ (q, Routine ''mail'') # ws"
proof -
  have range: "group_in_range order_listeners"
    by (simp add: group_in_range_def order_listeners_def order_listener_def in_range_def INT64_MIN_def INT64_MAX_def)
  have on: "listeners_on None ''placed'' order_listeners = order_listeners"
    by (simp add: listeners_on_def order_listeners_def order_listener_def)
  have ask: "2 < length order_listeners" "0 < length order_listeners" "asks_before (order_listeners ! 2) (order_listeners ! 0)"
    by (simp_all add: order_listeners_def order_listener_def asks_before_def)
  have run: "runs_as shop_unbuilt order_routine (order_listeners ! 2) = Routine ''audit''"
    "runs_as shop_unbuilt order_routine (order_listeners ! 0) = Routine ''mail''"
    by (simp_all add: runs_as_def order_listeners_def order_listener_def order_routine_def built_or_itself_def)
  have "map_of [(None :: string option, order_map)] None = Some order_map" by simp
  from declared_order_is_running_order [OF order_processed this order_built range, of "''placed''", unfolded on] ask
  show ?thesis unfolding run [symmetric] by (metis zero_neq_numeral)
qed

end
