(* ===== verification/Dotenv_Expand.thy ===== *)
theory Dotenv_Expand
  imports Prelude "HOL-Library.List_Lexorder" "HOL-Library.Char_ord"
begin

text \<open>
  Reading one value of a \<open>.env\<close> file: the expansion of \<open>dotenv.py\<close> of xtr-dotenv (\<open>_expand\<close>), the check of
  what it cannot expand (\<open>_expansion_error\<close>), quoting and flags. The regular expressions of the module
  are written out as scanners; what they match is unambiguous, so that the greedy match is the only one.

  \<open>expand\<close> is shown to be an evaluation of the value's syntax tree, on which the other theories reason.
\<close>

section \<open>Characters\<close>

definition code :: "char \<Rightarrow> nat" where
  "code c = of_char c"

definition is_digit :: "char \<Rightarrow> bool" where
  "is_digit c \<longleftrightarrow> 48 \<le> code c \<and> code c \<le> 57"

definition name_start :: "char \<Rightarrow> bool" where
  "name_start c \<longleftrightarrow> 65 \<le> code c \<and> code c \<le> 90 \<or> 97 \<le> code c \<and> code c \<le> 122 \<or> c = CHR ''_''"

definition name_char :: "char \<Rightarrow> bool" where
  "name_char c \<longleftrightarrow> name_start c \<or> is_digit c"

text \<open>What \<open>str.strip\<close> takes away, among the characters of one byte.\<close>

definition is_space :: "char \<Rightarrow> bool" where
  "is_space c \<longleftrightarrow> 9 \<le> code c \<and> code c \<le> 13 \<or> 28 \<le> code c \<and> code c \<le> 32 \<or> code c = 133 \<or> code c = 160"

definition NEWLINE :: char where "NEWLINE = char_of (10 :: nat)"
definition BACKSLASH :: char where "BACKSLASH = char_of (92 :: nat)"
definition QUOTE :: char where "QUOTE = char_of (39 :: nat)"
definition DOUBLE_QUOTE :: char where "DOUBLE_QUOTE = char_of (34 :: nat)"

definition lstrip :: "string \<Rightarrow> string" where
  "lstrip s = dropWhile is_space s"

definition strip :: "string \<Rightarrow> string" where
  "strip s = rev (lstrip (rev (lstrip s)))"

definition lower :: "string \<Rightarrow> string" where
  "lower s = map (\<lambda>c. if 65 \<le> code c \<and> code c \<le> 90 then char_of (code c + 32) else c) s"

section \<open>References\<close>

text \<open>\<open>[A-Za-z_][A-Za-z0-9_]*\<close>\<close>

definition scan_name :: "string \<Rightarrow> (string \<times> string) option" where
  "scan_name s =
     (case s of [] \<Rightarrow> None
      | c # cs \<Rightarrow> if name_start c then Some (c # takeWhile name_char cs, dropWhile name_char cs) else None)"

text \<open>\<open>(?:[^}\\]|\\.)*\<close>\<close>

fun scan_default :: "string \<Rightarrow> string \<times> string" where
  "scan_default [] = ([], [])"
| "scan_default [c] = (if c = CHR ''}'' \<or> c = BACKSLASH then ([], [c]) else ([c], []))"
| "scan_default (c # d # cs) =
     (if c = CHR ''}'' then ([], c # d # cs)
      else if c = BACKSLASH then
        (if d = NEWLINE then ([], c # d # cs) else (case scan_default cs of (x, r) \<Rightarrow> (c # d # x, r)))
      else (case scan_default (d # cs) of (x, r) \<Rightarrow> (c # x, r)))"

text \<open>
  What follows a dollar: \<open>_BRACED\<close> when a brace does, \<open>_UNBRACED\<close> otherwise. The operator is whether it is
  \<open>:=\<close>, with the default.
\<close>

definition scan_operator :: "string \<Rightarrow> ((bool \<times> string) option \<times> string)" where
  "scan_operator s =
     (case s of
        c # d # cs \<Rightarrow>
          if c = CHR '':'' \<and> (d = CHR ''-'' \<or> d = CHR ''='')
          then (case scan_default cs of (x, r) \<Rightarrow> (Some (d = CHR ''='', x), r))
          else (None, s)
      | _ \<Rightarrow> (None, s))"

definition match_braced :: "string \<Rightarrow> (string \<times> (bool \<times> string) option \<times> string) option" where
  "match_braced s =
     (case scan_name s of
        None \<Rightarrow> None
      | Some (name, r) \<Rightarrow>
          (case scan_operator r of (operator, r') \<Rightarrow>
             case r' of [] \<Rightarrow> None
             | c # cs \<Rightarrow> if c = CHR ''}'' then Some (name, operator, cs) else None))"

definition match_reference :: "string \<Rightarrow> (string \<times> (bool \<times> string) option \<times> string) option" where
  "match_reference s =
     (case s of
        c # cs \<Rightarrow>
          if c = CHR ''{'' then match_braced cs
          else (case scan_name s of None \<Rightarrow> None | Some (name, r) \<Rightarrow> Some (name, None, r))
      | [] \<Rightarrow> None)"

text \<open>\<open>replace('\}', '}')\<close>\<close>

fun unescape_braces :: "string \<Rightarrow> string" where
  "unescape_braces (c # d # cs) =
     (if c = BACKSLASH \<and> d = CHR ''}'' then CHR ''}'' # unescape_braces cs else c # unescape_braces (d # cs))"
| "unescape_braces cs = cs"

lemma scan_name_length: "scan_name s = Some (name, r) \<Longrightarrow> length name + length r = length s \<and> length r < length s"
  by (auto simp: scan_name_def le_imp_less_Suc length_dropWhile_le split: list.splits if_splits simp flip: length_append)

lemma scan_default_length: "scan_default s = (x, r) \<Longrightarrow> length x + length r = length s"
  by (induction s arbitrary: x r rule: scan_default.induct) (auto split: if_splits prod.splits)

lemma scan_operator_length:
  "scan_operator s = (operator, r) \<Longrightarrow> (case operator of None \<Rightarrow> 0 | Some (a, x) \<Rightarrow> length x + 2) + length r = length s"
  by (auto simp: scan_operator_def dest!: scan_default_length split: list.splits if_splits prod.splits)

lemma unescape_braces_length: "length (unescape_braces s) \<le> length s"
  by (induction s rule: unescape_braces.induct) auto

lemma match_reference_rest: "match_reference s = Some (name, operator, r) \<Longrightarrow> length r < length s"
  by (auto simp: match_reference_def match_braced_def dest!: scan_name_length scan_operator_length
      split: list.splits if_splits option.splits prod.splits)

lemma match_reference_alternative:
  assumes "match_reference s = Some (name, Some (a, x), r)"
  shows "length (unescape_braces x) < length s"
proof -
  have "length x < length s"
    using assms by (auto simp: match_reference_def match_braced_def dest!: scan_name_length scan_operator_length
        split: list.splits if_splits option.splits prod.splits)
  then show ?thesis using unescape_braces_length [of x] by simp
qed

section \<open>Expansion\<close>

text \<open>
  \<open>_expand\<close>: the callbacks \<open>lookup\<close> and \<open>assign\<close> share a state, which the caller's closures keep.
\<close>

type_synonym 's lookup = "string \<Rightarrow> 's \<Rightarrow> string option \<times> 's"
type_synonym 's assign = "string \<Rightarrow> string \<Rightarrow> 's \<Rightarrow> 's"

definition or_empty :: "string option \<Rightarrow> string" where
  "or_empty v = (case v of None \<Rightarrow> [] | Some s \<Rightarrow> s)"

function expand :: "'s lookup \<Rightarrow> 's assign \<Rightarrow> string \<Rightarrow> 's \<Rightarrow> string \<times> 's" where
  "expand lookup assign [] st = ([], st)"
| "expand lookup assign (c # cs) st =
     (if c = BACKSLASH \<and> cs \<noteq> [] \<and> hd cs = CHR ''$''
      then (case expand lookup assign (tl cs) st of (out, st') \<Rightarrow> (CHR ''$'' # out, st'))
      else case (if c = CHR ''$'' then match_reference cs else None) of
        None \<Rightarrow> (case expand lookup assign cs st of (out, st') \<Rightarrow> (c # out, st'))
      | Some (name, operator, r) \<Rightarrow>
          (case lookup name st of (found, st1) \<Rightarrow>
             case operator of
               None \<Rightarrow> (case expand lookup assign r st1 of (out, st') \<Rightarrow> (or_empty found @ out, st'))
             | Some (assigns, alternative) \<Rightarrow>
                 if or_empty found \<noteq> []
                 then (case expand lookup assign r st1 of (out, st') \<Rightarrow> (or_empty found @ out, st'))
                 else (case expand lookup assign (unescape_braces alternative) st1 of (d, st2) \<Rightarrow>
                        case expand lookup assign r (if assigns then assign name d st2 else st2) of
                          (out, st') \<Rightarrow> (d @ out, st'))))"
  by pat_completeness auto

termination expand
  by (relation "measure (\<lambda>(lookup, assign, raw, st). length raw)")
     (auto dest: match_reference_rest match_reference_alternative split: if_splits intro: less_SucI)

declare expand.simps [simp del]

section \<open>The syntax of a value\<close>

text \<open>
  A value is a list of characters and references; a reference may have an alternative, a value of its
  own, which may be assigned.
\<close>

datatype token = Lit char | Ref string "(bool \<times> token list) option"

function tokens :: "string \<Rightarrow> token list" where
  "tokens [] = []"
| "tokens (c # cs) =
     (if c = BACKSLASH \<and> cs \<noteq> [] \<and> hd cs = CHR ''$'' then Lit CHR ''$'' # tokens (tl cs)
      else case (if c = CHR ''$'' then match_reference cs else None) of
        None \<Rightarrow> Lit c # tokens cs
      | Some (name, operator, r) \<Rightarrow>
          (case operator of
             None \<Rightarrow> Ref name None # tokens r
           | Some (assigns, alternative) \<Rightarrow>
               Ref name (Some (assigns, tokens (unescape_braces alternative))) # tokens r))"
  by pat_completeness auto

termination tokens
  by (relation "measure length")
     (auto dest: match_reference_rest match_reference_alternative split: if_splits intro: less_SucI)

declare tokens.simps [simp del]

fun evaluate :: "'s lookup \<Rightarrow> 's assign \<Rightarrow> token list \<Rightarrow> 's \<Rightarrow> string \<times> 's" where
  "evaluate lookup assign [] st = ([], st)"
| "evaluate lookup assign (Lit c # ts) st = (case evaluate lookup assign ts st of (out, st') \<Rightarrow> (c # out, st'))"
| "evaluate lookup assign (Ref name None # ts) st =
     (case lookup name st of (found, st1) \<Rightarrow>
        case evaluate lookup assign ts st1 of (out, st') \<Rightarrow> (or_empty found @ out, st'))"
| "evaluate lookup assign (Ref name (Some (assigns, alternative)) # ts) st =
     (case lookup name st of (found, st1) \<Rightarrow>
        if or_empty found \<noteq> []
        then (case evaluate lookup assign ts st1 of (out, st') \<Rightarrow> (or_empty found @ out, st'))
        else (case evaluate lookup assign alternative st1 of (d, st2) \<Rightarrow>
               case evaluate lookup assign ts (if assigns then assign name d st2 else st2) of
                 (out, st') \<Rightarrow> (d @ out, st')))"

lemma expand_tokens: "expand lookup assign raw st = evaluate lookup assign (tokens raw) st"
proof (induction lookup assign raw st rule: expand.induct)
  case (1 lookup assign st)
  then show ?case by (simp add: expand.simps tokens.simps)
next
  case (2 lookup assign c cs st)
  then show ?case
    by (subst expand.simps, subst tokens.simps) (auto split: option.splits prod.splits)
qed

text \<open>The names a value refers to, and whether it assigns any.\<close>

fun refs :: "token list \<Rightarrow> string set" where
  "refs [] = {}"
| "refs (Lit c # ts) = refs ts"
| "refs (Ref name None # ts) = insert name (refs ts)"
| "refs (Ref name (Some (assigns, alternative)) # ts) = insert name (refs alternative \<union> refs ts)"

fun assigns_none :: "token list \<Rightarrow> bool" where
  "assigns_none [] = True"
| "assigns_none (Lit c # ts) = assigns_none ts"
| "assigns_none (Ref name None # ts) = assigns_none ts"
| "assigns_none (Ref name (Some (assigns, alternative)) # ts) \<longleftrightarrow> \<not> assigns \<and> assigns_none alternative \<and> assigns_none ts"

text \<open>The meaning of a value in an environment.\<close>

definition expansion :: "(string \<Rightarrow> string option) \<Rightarrow> string \<Rightarrow> string" where
  "expansion env raw = fst (expand (\<lambda>name st. (env name, st)) (\<lambda>name value st. st) raw ())"

fun meaning :: "(string \<Rightarrow> string option) \<Rightarrow> token list \<Rightarrow> string" where
  "meaning env [] = []"
| "meaning env (Lit c # ts) = c # meaning env ts"
| "meaning env (Ref name None # ts) = or_empty (env name) @ meaning env ts"
| "meaning env (Ref name (Some (assigns, alternative)) # ts) =
     (if or_empty (env name) \<noteq> [] then or_empty (env name) else meaning env alternative) @ meaning env ts"

lemma evaluate_pure: "evaluate (\<lambda>name st. (env name, st)) (\<lambda>name value st. st) ts st = (meaning env ts, st)"
  by (induction "\<lambda>name (st :: 'a). (env name, st)" "\<lambda>(name :: string) (value :: string) (st :: 'a). st" ts st rule: evaluate.induct) auto

lemma expansion_meaning: "expansion env raw = meaning env (tokens raw)"
  unfolding expansion_def expand_tokens evaluate_pure by simp

lemma meaning_cong: "(\<And>n. n \<in> refs ts \<Longrightarrow> env n = env' n) \<Longrightarrow> meaning env ts = meaning env' ts"
  by (induction env ts rule: meaning.induct) auto

section \<open>What cannot be expanded\<close>

datatype expansion_problem = Unclosed string | Unsupported char string

text \<open>\<open>_ESCAPED.sub('', ...)\<close>\<close>

fun drop_escaped :: "string \<Rightarrow> string" where
  "drop_escaped (c # d # cs) =
     (if c = BACKSLASH \<and> d \<noteq> NEWLINE then drop_escaped cs else c # drop_escaped (d # cs))"
| "drop_escaped cs = cs"

definition unsupported :: "char \<Rightarrow> bool" where
  "unsupported c \<longleftrightarrow> c = QUOTE \<or> c = DOUBLE_QUOTE \<or> c = CHR ''{'' \<or> c = CHR ''$''"

text \<open>\<open>_BRACE_CHECK\<close> at one position: the name, the alternative, whether the brace is closed, the rest.\<close>

definition match_check :: "string \<Rightarrow> (string \<times> string option \<times> bool \<times> string) option" where
  "match_check s =
     (case s of
        c # d # cs \<Rightarrow>
          if c = CHR ''$'' \<and> d = CHR ''{''
          then (case scan_name cs of
                  None \<Rightarrow> None
                | Some (name, r) \<Rightarrow>
                    (case scan_operator r of (operator, r') \<Rightarrow>
                       case r' of
                         [] \<Rightarrow> Some (name, map_option snd operator, False, [])
                       | x # xs \<Rightarrow>
                           if x = CHR ''}'' then Some (name, map_option snd operator, True, xs)
                           else Some (name, map_option snd operator, False, r')))
          else None
      | _ \<Rightarrow> None)"

lemma match_check_rest: "match_check s = Some (name, alternative, closing, r) \<Longrightarrow> length r < length s"
  by (auto simp: match_check_def dest!: scan_name_length scan_operator_length
      split: list.splits if_splits option.splits prod.splits)

text \<open>\<open>_expansion_error\<close>: \<open>finditer\<close> goes on behind a match, and the character before one is the last of what was passed.\<close>

function check_from :: "char option \<Rightarrow> string \<Rightarrow> expansion_problem option" where
  "check_from prev [] = None"
| "check_from prev (c # cs) =
     (case match_check (c # cs) of
        None \<Rightarrow> check_from (Some c) cs
      | Some (name, alternative, closing, r) \<Rightarrow>
          (let prev' = Some (last (take (Suc (length cs) - length r) (c # cs)))
           in if prev = Some BACKSLASH then check_from prev' r
              else if \<not> closing then Some (Unclosed name)
              else case filter unsupported (drop_escaped (or_empty alternative)) of
                x # xs \<Rightarrow> Some (Unsupported x name)
              | [] \<Rightarrow> check_from prev' r))"
  by pat_completeness auto

termination check_from
  by (relation "measure (\<lambda>(prev, s). length s)") (auto dest: match_check_rest)

definition expansion_error :: "string \<Rightarrow> expansion_problem option" where
  "expansion_error raw = check_from None raw"

definition single_quoted :: "string \<Rightarrow> bool" where
  "single_quoted original =
     (case dropWhile (\<lambda>c. c \<noteq> CHR ''='') original of
        [] \<Rightarrow> False
      | sep # rest \<Rightarrow> (case lstrip rest of [] \<Rightarrow> False | c # cs \<Rightarrow> c = QUOTE))"

section \<open>Flags\<close>

definition TRUE :: "string list" where
  "TRUE = [''1'', ''true'', ''yes'', ''on'']"

text \<open>
  \<open>_NUMBER.fullmatch\<close>: the digits of the mantissa as a number, and the power of ten it is scaled by.
\<close>

definition unsigned :: "string \<Rightarrow> bool \<times> string" where
  "unsigned s = (case s of c # cs \<Rightarrow> if c = CHR ''+'' then (False, cs) else if c = CHR ''-'' then (True, cs) else (False, s) | [] \<Rightarrow> (False, []))"

definition parse_exponent :: "string \<Rightarrow> int option" where
  "parse_exponent s =
     (case s of
        [] \<Rightarrow> Some 0
      | c # cs \<Rightarrow>
          if c = CHR ''e'' \<or> c = CHR ''E''
          then (case unsigned cs of (negative, ds) \<Rightarrow>
                  if ds \<noteq> [] \<and> list_all is_digit ds
                  then Some (if negative then - int (read_nat ds) else int (read_nat ds)) else None)
          else None)"

definition parse_number :: "string \<Rightarrow> (nat \<times> int) option" where
  "parse_number s =
     (let r = snd (unsigned s);
          whole = takeWhile is_digit r;
          r1 = dropWhile is_digit r;
          dotted = (r1 \<noteq> [] \<and> hd r1 = CHR ''.'');
          fraction = (if dotted then takeWhile is_digit (tl r1) else []);
          r2 = (if dotted then dropWhile is_digit (tl r1) else r1)
      in if whole = [] \<and> fraction = [] then None
         else map_option (\<lambda>e. (read_nat (whole @ fraction), e - int (length fraction))) (parse_exponent r2))"

text \<open>\<open>float(text) != 0\<close>: a double rounds to zero when it is at most half of the smallest one.\<close>

definition nonzero_float :: "nat \<times> int \<Rightarrow> bool" where
  "nonzero_float mk =
     (case mk of (m, k) \<Rightarrow> m \<noteq> 0 \<and> (k \<ge> 0 \<or> 10 ^ nat (- k) < m * 2 ^ 1075))"

definition flag :: "string \<Rightarrow> bool" where
  "flag value =
     (let text = lower (strip value)
      in text \<in> set TRUE \<or> (case parse_number text of None \<Rightarrow> False | Some mk \<Rightarrow> nonzero_float mk))"

lemmas [dotenv_defs] = expansion_error_def single_quoted_def flag_def

end
