(* ===== verification/Dotenv_Loader.thy ===== *)
theory Dotenv_Loader
  imports Dotenv_Expand
begin

text \<open>
  The loader of \<open>.env\<close> files: \<open>dotenv.py\<close> of xtr-dotenv. The environment a loader writes is a map from names
  to values; the process-wide memories of the two warnings and the warnings given are kept beside it.
  The files and the parser of the python-dotenv package are arguments.
\<close>

section \<open>Data\<close>

text \<open>A loader (\<open>Dotenv\<close>); whether its target is \<open>os.environ\<close> decides whether it warns.\<close>

record dotenv =
  env_key :: string
  debug_key :: string
  prod_envs :: "string list"
  debug_envs :: "string list"
  on_os_environ :: bool

datatype warning = Undeclared_env string | Stale_dump string

type_synonym env = "string \<rightharpoonup> string"

record dotenv_world =
  environ :: env
  warned_envs :: "string list"
  warned_dumps :: "string list"
  given_warnings :: "warning list"

text \<open>What python-dotenv's \<open>parse_stream\<close> yields, and a value with whether it was single-quoted.\<close>

record binding =
  b_key :: "string option"
  b_value :: "string option"
  b_error :: bool
  b_line :: int
  b_string :: string

type_synonym raw = "string \<times> bool"
type_synonym bindings = "(string, raw) dict"

datatype format_problem =
    Cannot_parse_line
  | Missing_equals string
  | Not_expandable expansion_problem
  | Not_utf8
  | Names_environment string "string option" string

datatype dotenv_error =
    PathError string
  | FormatError string int format_problem
  | VariableCircularReferenceError "string list"

text \<open>
  The files: whether a path is one, its text (\<open>None\<close> when it cannot be read, \<open>Some None\<close> when it is not
  UTF-8), and what it holds as JSON (\<open>None\<close> when it cannot be read or is not JSON).
\<close>

record files =
  is_file :: "string \<Rightarrow> bool"
  text_of :: "string \<Rightarrow> string option option"
  json_of :: "string \<Rightarrow> pyval option"
  parse_stream :: "string \<Rightarrow> binding list"

definition TRACKING_VAR :: string where "TRACKING_VAR = ''XTR_DOTENV_VARS''"
definition PATH_VAR :: string where "PATH_VAR = ''XTR_DOTENV_PATH''"
definition DUMP_DEFAULT_ENV_VAR :: string where "DUMP_DEFAULT_ENV_VAR = ''XTR_DOTENV_DUMP_DEFAULT_ENV''"
definition DUMP_TEST_ENVS_VAR :: string where "DUMP_TEST_ENVS_VAR = ''XTR_DOTENV_DUMP_TEST_ENVS''"

section \<open>Reading files\<close>

definition read_file :: "files \<Rightarrow> string \<Rightarrow> dotenv_error + string" where
  "read_file fs path =
     (case text_of fs path of
        None \<Rightarrow> Inl (PathError path)
      | Some None \<Rightarrow> Inl (FormatError path 0 Not_utf8)
      | Some (Some t) \<Rightarrow> Inr t)"

definition read_binding :: "string \<Rightarrow> binding \<Rightarrow> bindings \<Rightarrow> dotenv_error + bindings" where
  "read_binding path b merged =
     (if b_error b then Inl (FormatError path (b_line b) Cannot_parse_line)
      else case b_key b of
        None \<Rightarrow> Inr merged
      | Some key \<Rightarrow>
          (case b_value b of
             None \<Rightarrow> Inl (FormatError path (b_line b) (Missing_equals key))
           | Some v \<Rightarrow>
               (let single = single_quoted (b_string b)
                in case (if single then None else expansion_error v) of
                     Some reason \<Rightarrow> Inl (FormatError path (b_line b) (Not_expandable reason))
                   | None \<Rightarrow> Inr (dict_set key (v, single) merged))))"

text \<open>\<open>merged.update(_bindings(data, path))\<close>\<close>

definition bindings_into :: "files \<Rightarrow> string \<Rightarrow> string \<Rightarrow> bindings \<Rightarrow> dotenv_error + bindings" where
  "bindings_into fs data path merged = fold_r (read_binding path) (parse_stream fs data) merged"

definition read_into :: "files \<Rightarrow> string \<Rightarrow> bindings \<Rightarrow> dotenv_error + bindings" where
  "read_into fs path merged =
     (case read_file fs path of Inl e \<Rightarrow> Inl e | Inr data \<Rightarrow> bindings_into fs data path merged)"

definition line_of :: "files \<Rightarrow> string \<Rightarrow> string \<Rightarrow> int" where
  "line_of fs data name =
     (case filter (\<lambda>b. b_key b = Some name) (parse_stream fs data) of [] \<Rightarrow> 0 | bs \<Rightarrow> b_line (last bs))"

section \<open>The environment\<close>

fun split_at :: "char \<Rightarrow> string \<Rightarrow> string list" where
  "split_at sep [] = [[]]"
| "split_at sep (c # cs) =
     (if c = sep then [] # split_at sep cs
      else case split_at sep cs of [] \<Rightarrow> [[c]] | p # ps \<Rightarrow> (c # p) # ps)"

fun join_with :: "char \<Rightarrow> string list \<Rightarrow> string" where
  "join_with sep [] = []"
| "join_with sep [p] = p"
| "join_with sep (p # q # ps) = p @ [sep] @ join_with sep (q # ps)"

definition tracked :: "env \<Rightarrow> string list" where
  "tracked env = filter (\<lambda>n. n \<noteq> []) (map strip (split_at CHR '','' (or_empty (env TRACKING_VAR))))"

definition is_set :: "dotenv \<Rightarrow> env \<Rightarrow> string \<Rightarrow> bool" where
  "is_set self env name =
     (case env name of None \<Rightarrow> False | Some v \<Rightarrow> v \<noteq> [] \<or> name \<noteq> env_key self)"

definition real_variable :: "dotenv \<Rightarrow> env \<Rightarrow> bool \<Rightarrow> string \<Rightarrow> string option" where
  "real_variable self env override name =
     (if override \<or> \<not> is_set self env name \<or> name \<in> set (tracked env) then None else env name)"

definition written :: "dotenv \<Rightarrow> env \<Rightarrow> bool \<Rightarrow> (string, string) dict \<Rightarrow> string list" where
  "written self env override values =
     filter (\<lambda>name. override \<or> \<not> is_set self env name \<or> name \<in> set (tracked env)) (dict_keys values)"

definition populate :: "dotenv \<Rightarrow> (string, string) dict \<Rightarrow> bool \<Rightarrow> env \<Rightarrow> env" where
  "populate self values override env =
     (let names = written self env override values;
          env1 = (\<lambda>n. if n \<in> set names then map_of values n else env n)
      in if set names \<subseteq> set (tracked env) then env1
         else env1(TRACKING_VAR \<mapsto> join_with CHR '','' (sort (remdups (tracked env @ names)))))"

section \<open>Expansion\<close>

datatype found = Blocked | Found "string option"

definition lookup_in ::
  "dotenv \<Rightarrow> env \<Rightarrow> string \<Rightarrow> string \<Rightarrow> (string, string) dict \<Rightarrow> string list \<Rightarrow> bool \<Rightarrow> found" where
  "lookup_in self env name other values pending override =
     (if other = name then Found (env name)
      else case real_variable self env override other of
        Some v \<Rightarrow> Found (Some v)
      | None \<Rightarrow>
          (case map_of values other of
             Some v \<Rightarrow> Found (Some v)
           | None \<Rightarrow> if other \<in> set pending then Blocked else Found (env other)))"

text \<open>\<open>_current\<close>: the values of the other names as they are written, not expanded.\<close>

definition current :: "dotenv \<Rightarrow> env \<Rightarrow> string \<Rightarrow> bindings \<Rightarrow> bool \<Rightarrow> string option" where
  "current self env name merged override =
     (case real_variable self env override name of
        Some v \<Rightarrow> Some v
      | None \<Rightarrow>
          (case map_of merged name of
             None \<Rightarrow> env name
           | Some (raw, single) \<Rightarrow>
               if single then Some raw
               else Some (fst (expand
                 (\<lambda>other st. (case lookup_in self env name other (map (\<lambda>(n, v). (n, fst v)) merged) [] override of
                                Blocked \<Rightarrow> None | Found v \<Rightarrow> v, st))
                 (\<lambda>n v st. st) raw ()))))"

text \<open>\<open>_expand_one\<close>: the closures keep whether a lookup was blocked and the values resolved so far.\<close>

type_synonym pass = "bool \<times> (string, string) dict"

definition pass_lookup :: "dotenv \<Rightarrow> env \<Rightarrow> string \<Rightarrow> string list \<Rightarrow> bool \<Rightarrow> pass lookup" where
  "pass_lookup self env name pending override other st =
     (case st of (blocked, resolved) \<Rightarrow>
        case lookup_in self env name other resolved pending override of
          Blocked \<Rightarrow> (None, (True, resolved))
        | Found v \<Rightarrow> (v, (blocked, resolved)))"

definition pass_assign :: "env \<Rightarrow> bindings \<Rightarrow> pass assign" where
  "pass_assign env merged other v st =
     (case st of (blocked, resolved) \<Rightarrow>
        if map_of merged other = None \<and> env other = None \<and> map_of resolved other = None
        then (blocked, dict_set other v resolved) else (blocked, resolved))"

definition expand_one ::
  "dotenv \<Rightarrow> env \<Rightarrow> bindings \<Rightarrow> bool \<Rightarrow> string list \<Rightarrow> string \<times> string \<Rightarrow> (string, string) dict
     \<Rightarrow> string option \<times> (string, string) dict" where
  "expand_one self env merged override pending nr resolved =
     (case nr of (name, raw) \<Rightarrow>
        case expand (pass_lookup self env name pending override) (pass_assign env merged) raw (False, resolved) of
          (expanded, (blocked, resolved')) \<Rightarrow> (if blocked then None else Some expanded, resolved'))"

text \<open>One pass over the pending values: those that still wait, and the values resolved.\<close>

definition resolve_step ::
  "dotenv \<Rightarrow> env \<Rightarrow> bindings \<Rightarrow> bool \<Rightarrow> string list \<Rightarrow> string \<times> string
     \<Rightarrow> (string \<times> string) list \<times> (string, string) dict \<Rightarrow> (string \<times> string) list \<times> (string, string) dict" where
  "resolve_step self env merged override pending nr acc =
     (case acc of (waiting, resolved) \<Rightarrow>
        case expand_one self env merged override pending nr resolved of
          (None, resolved') \<Rightarrow> (waiting @ [nr], resolved')
        | (Some v, resolved') \<Rightarrow> (waiting, dict_set (fst nr) v resolved'))"

definition resolve_pass ::
  "dotenv \<Rightarrow> env \<Rightarrow> bindings \<Rightarrow> bool \<Rightarrow> (string \<times> string) list \<Rightarrow> (string, string) dict
     \<Rightarrow> (string \<times> string) list \<times> (string, string) dict" where
  "resolve_pass self env merged override pending resolved =
     fold (resolve_step self env merged override (map fst pending)) pending ([], resolved)"

lemma resolve_pass_length: "length (fst (resolve_pass self env merged override pending resolved)) \<le> length pending"
proof -
  have "length (fst (fold (resolve_step self env merged override ns) ps acc)) \<le> length (fst acc) + length ps" for ns ps acc
  proof (induction ps arbitrary: acc)
    case (Cons p ps)
    have "length (fst (resolve_step self env merged override ns p acc)) \<le> Suc (length (fst acc))"
      by (simp add: resolve_step_def split: prod.splits option.splits)
    with Cons [of "resolve_step self env merged override ns p acc"] show ?case by simp
  qed simp
  from this [of "map fst pending" pending "([], resolved)"] show ?thesis by (simp add: resolve_pass_def)
qed

function resolve_loop ::
  "dotenv \<Rightarrow> env \<Rightarrow> bindings \<Rightarrow> bool \<Rightarrow> (string \<times> string) list \<Rightarrow> (string, string) dict
     \<Rightarrow> dotenv_error + (string, string) dict" where
  "resolve_loop self env merged override pending resolved =
     (if pending = [] then Inr resolved
      else case resolve_pass self env merged override pending resolved of
        (waiting, resolved') \<Rightarrow>
          if length waiting = length pending then Inl (VariableCircularReferenceError (map fst pending))
          else resolve_loop self env merged override waiting resolved')"
  by pat_completeness auto

termination resolve_loop
proof (relation "measure (\<lambda>(self, env, merged, override, pending, resolved). length pending)", goal_cases)
  case (2 self env merged override pending resolved waiting resolved')
  from 2(2) have "fst (resolve_pass self env merged override pending resolved) = waiting" by (metis fst_conv)
  then have "length waiting \<le> length pending"
    using resolve_pass_length [of self env merged override pending resolved] by simp
  with 2(3) show ?case by simp
qed simp

declare resolve_loop.simps [simp del]

definition resolve_values :: "dotenv \<Rightarrow> env \<Rightarrow> bindings \<Rightarrow> bool \<Rightarrow> dotenv_error + (string, string) dict" where
  "resolve_values self env merged override =
     resolve_loop self env merged override
       (map (\<lambda>(n, v). (n, fst v)) (filter (\<lambda>(n, v). \<not> snd v) merged))
       (map (\<lambda>(n, v). (n, fst v)) (filter (\<lambda>(n, v). snd v) merged))"

section \<open>Loading\<close>

text \<open>Operations that write the environment; an error leaves it as the code does.\<close>

type_synonym 'a dotenv_prog = "(env, dotenv_error, 'a) prog"

definition parse_data :: "dotenv \<Rightarrow> files \<Rightarrow> env \<Rightarrow> string \<Rightarrow> string \<Rightarrow> dotenv_error + (string, string) dict" where
  "parse_data self fs env data path =
     (case bindings_into fs data path [] of
        Inl e \<Rightarrow> Inl e
      | Inr merged \<Rightarrow> resolve_values self env merged False)"

definition load_files :: "dotenv \<Rightarrow> files \<Rightarrow> string list \<Rightarrow> bool \<Rightarrow> unit dotenv_prog" where
  "load_files self fs paths override env =
     (case fold_r (read_into fs) paths [] of
        Inl e \<Rightarrow> (Inl e, env)
      | Inr merged \<Rightarrow>
          (case resolve_values self env merged override of
             Inl e \<Rightarrow> (Inl e, env)
           | Inr values \<Rightarrow> (Inr (), populate self values override env)))"

text \<open>\<open>_cascade\<close>, stage by stage: the base file, the environment it names, the local file, the overlays.\<close>

definition base_of :: "files \<Rightarrow> string \<Rightarrow> string" where
  "base_of fs path =
     (if is_file fs path \<or> \<not> is_file fs (path @ ''.dist'') then path else path @ ''.dist'')"

text \<open>The value of the key, when there is one that is not empty.\<close>

definition named_env :: "dotenv \<Rightarrow> env \<Rightarrow> string \<Rightarrow> bindings \<Rightarrow> bool \<Rightarrow> string" where
  "named_env self env key merged override = or_empty (current self env key merged override)"

definition apply_overlay ::
  "dotenv \<Rightarrow> files \<Rightarrow> env \<Rightarrow> string \<Rightarrow> string \<Rightarrow> bool \<Rightarrow> string \<Rightarrow> bindings \<Rightarrow> dotenv_error + bindings" where
  "apply_overlay self fs env key chosen override overlay merged =
     (if \<not> is_file fs overlay then Inr merged
      else case read_file fs overlay of
        Inl e \<Rightarrow> Inl e
      | Inr data \<Rightarrow>
          (case bindings_into fs data overlay merged of
             Inl e \<Rightarrow> Inl e
           | Inr merged' \<Rightarrow>
               (let named = current self env key merged' override
                in if named \<noteq> Some chosen
                   then Inl (FormatError overlay (line_of fs data key) (Names_environment key named chosen))
                   else Inr merged')))"

definition local_stage ::
  "dotenv \<Rightarrow> files \<Rightarrow> env \<Rightarrow> string \<Rightarrow> string \<Rightarrow> string list \<Rightarrow> bool \<Rightarrow> string \<times> string list \<times> bindings
     \<Rightarrow> dotenv_error + (string \<times> string list \<times> bindings)" where
  "local_stage self fs env path key test_envs override acc =
     (case acc of (chosen, considered, merged) \<Rightarrow>
        if chosen \<in> set test_envs then Inr acc
        else let path_local = path @ ''.local'' in
          if \<not> is_file fs path_local then Inr (chosen, considered @ [path_local], merged)
          else case read_into fs path_local merged of
            Inl e \<Rightarrow> Inl e
          | Inr merged' \<Rightarrow>
              (let named = named_env self env key merged' override
               in Inr (if named \<noteq> [] then named else chosen, considered @ [path_local], merged')))"

definition overlay_stage ::
  "dotenv \<Rightarrow> files \<Rightarrow> env \<Rightarrow> string \<Rightarrow> string \<Rightarrow> bool \<Rightarrow> string \<times> string list \<times> bindings
     \<Rightarrow> dotenv_error + (string \<times> string list \<times> bindings)" where
  "overlay_stage self fs env path key override acc =
     (case acc of (chosen, considered, merged) \<Rightarrow>
        if chosen = ''local'' then Inr acc
        else let overlays = [path @ ''.'' @ chosen, path @ ''.'' @ chosen @ ''.local''] in
          (case fold_r (apply_overlay self fs env key chosen override) overlays merged of
             Inl e \<Rightarrow> Inl e
           | Inr merged' \<Rightarrow> Inr (chosen, considered @ overlays, merged')))"

definition cascade_of ::
  "dotenv \<Rightarrow> files \<Rightarrow> env \<Rightarrow> string \<Rightarrow> string \<Rightarrow> string \<Rightarrow> string list \<Rightarrow> bool
     \<Rightarrow> dotenv_error + (string \<times> string list \<times> bindings)" where
  "cascade_of self fs env path key default_env test_envs override =
     (let base = base_of fs path in
      case read_into fs base [] of
        Inl e \<Rightarrow> Inl e
      | Inr merged \<Rightarrow>
          (let named = named_env self env key merged override;
               start = (if named = [] then (default_env, [base], dict_set key (default_env, True) merged)
                        else (named, [base], merged))
           in case local_stage self fs env path key test_envs override start of
                Inl e \<Rightarrow> Inl e
              | Inr acc \<Rightarrow> overlay_stage self fs env path key override acc))"

definition load_env ::
  "dotenv \<Rightarrow> files \<Rightarrow> string \<Rightarrow> string option \<Rightarrow> string \<Rightarrow> string list \<Rightarrow> bool \<Rightarrow> unit dotenv_prog" where
  "load_env self fs path key_given default_env test_envs override env =
     (let key = (case key_given of None \<Rightarrow> env_key self | Some k \<Rightarrow> k);
          env1 = env(PATH_VAR \<mapsto> path)
      in case cascade_of self fs env1 path key default_env test_envs override of
           Inl e \<Rightarrow> (Inl e, env1(PATH_VAR := env PATH_VAR))
         | Inr (chosen, considered, merged) \<Rightarrow>
             (case resolve_values self env1 merged override of
                Inl e \<Rightarrow> (Inl e, env1(PATH_VAR := env PATH_VAR))
              | Inr values \<Rightarrow> (Inr (), populate self values override env1)))"

definition cascade ::
  "dotenv \<Rightarrow> files \<Rightarrow> env \<Rightarrow> string \<Rightarrow> string option \<Rightarrow> string \<Rightarrow> string list \<Rightarrow> bool
     \<Rightarrow> dotenv_error + (string \<times> string list)" where
  "cascade self fs env path key_given default_env test_envs override =
     (let key = (case key_given of None \<Rightarrow> env_key self | Some k \<Rightarrow> k)
      in case cascade_of self fs env path key default_env test_envs override of
           Inl e \<Rightarrow> Inl e
         | Inr (chosen, considered, merged) \<Rightarrow> Inr (chosen, considered))"

section \<open>Booting\<close>

fun json_strings :: "(string \<times> pyval) list \<Rightarrow> (string, string) dict option" where
  "json_strings [] = Some []"
| "json_strings ((k, VStr s) # d) = map_option (\<lambda>r. (k, s) # r) (json_strings d)"
| "json_strings (kv # d) = None"

definition read_dump :: "files \<Rightarrow> string \<Rightarrow> (string, string) dict option" where
  "read_dump fs path =
     (if \<not> is_file fs path then None
      else case json_of fs path of
        Some (VDict d) \<Rightarrow> json_strings d
      | _ \<Rightarrow> None)"

definition dump_applies :: "dotenv \<Rightarrow> env \<Rightarrow> (string, string) dict \<Rightarrow> bool \<Rightarrow> bool" where
  "dump_applies self env dumped override =
     (let dumped_env = map_of dumped (env_key self);
          cur = (if or_empty (env (env_key self)) \<noteq> [] then env (env_key self) else dumped_env)
      in override \<or> dumped_env = None \<or> cur = dumped_env)"

text \<open>The stamps are taken out of the dump either way.\<close>

definition strip_stamps :: "(string, string) dict \<Rightarrow> (string, string) dict" where
  "strip_stamps dumped = dict_del DUMP_TEST_ENVS_VAR (dict_del DUMP_DEFAULT_ENV_VAR dumped)"

definition dump_describes ::
  "dotenv \<Rightarrow> (string, string) dict \<Rightarrow> string \<Rightarrow> string list \<Rightarrow> string \<Rightarrow> dotenv_world \<Rightarrow> bool \<times> dotenv_world" where
  "dump_describes self dumped default_env test_envs dump_path w =
     (if (case map_of dumped DUMP_DEFAULT_ENV_VAR of None \<Rightarrow> False | Some d \<Rightarrow> d \<noteq> default_env)
         \<or> (case map_of dumped DUMP_TEST_ENVS_VAR of None \<Rightarrow> False | Some t \<Rightarrow> split_at CHR '','' t \<noteq> test_envs)
      then (False,
            if on_os_environ self \<and> dump_path \<notin> set (warned_dumps w)
            then w\<lparr>warned_dumps := warned_dumps w @ [dump_path], given_warnings := given_warnings w @ [Stale_dump dump_path]\<rparr>
            else w)
      else (True, w))"

definition undeclared_env_warning ::
  "dotenv \<Rightarrow> string \<Rightarrow> string \<Rightarrow> string list \<Rightarrow> dotenv_world \<Rightarrow> dotenv_world" where
  "undeclared_env_warning self chosen default_env test_envs w =
     (if chosen \<in> set (default_env # debug_envs self @ test_envs @ prod_envs self)
         \<or> \<not> on_os_environ self \<or> chosen \<in> set (warned_envs w)
      then w
      else w\<lparr>warned_envs := warned_envs w @ [chosen], given_warnings := given_warnings w @ [Undeclared_env chosen]\<rparr>)"

text \<open>The part of \<open>boot_env\<close> that brings the values in: the dump when it applies and describes this cascade.\<close>

definition boot_values ::
  "dotenv \<Rightarrow> files \<Rightarrow> string \<Rightarrow> string \<Rightarrow> string list \<Rightarrow> bool \<Rightarrow> (dotenv_world, dotenv_error, unit) prog" where
  "boot_values self fs path default_env test_envs override w =
     (let dump_path = path @ ''.local.json'';
          run_cascade = (\<lambda>w. case load_env self fs path None default_env test_envs override (environ w) of
                                (r, env) \<Rightarrow> (r, w\<lparr>environ := env\<rparr>))
      in case read_dump fs dump_path of
           None \<Rightarrow> run_cascade w
         | Some dumped \<Rightarrow>
             if \<not> dump_applies self (environ w) dumped override then run_cascade w
             else case dump_describes self dumped default_env test_envs dump_path w of
               (False, w1) \<Rightarrow> run_cascade w1
             | (True, w1) \<Rightarrow>
                 (Inr (), w1\<lparr>environ := populate self (strip_stamps dumped) override ((environ w1)(PATH_VAR \<mapsto> path))\<rparr>))"

definition settle_debug :: "dotenv \<Rightarrow> string \<Rightarrow> string list \<Rightarrow> dotenv_world \<Rightarrow> dotenv_world" where
  "settle_debug self default_env test_envs w =
     (let named = or_empty (environ w (env_key self));
          chosen = (if named = [] then default_env else named);
          debug = or_empty (environ w (debug_key self));
          enabled = (if debug = [] then chosen \<in> set (debug_envs self) else flag debug);
          w1 = (if debug = [] then undeclared_env_warning self chosen default_env test_envs w else w)
      in w1\<lparr>environ := (environ w1)(debug_key self \<mapsto> (if enabled then ''1'' else ''0''))\<rparr>)"

definition boot_env ::
  "dotenv \<Rightarrow> files \<Rightarrow> string \<Rightarrow> string \<Rightarrow> string list \<Rightarrow> bool \<Rightarrow> (dotenv_world, dotenv_error, unit) prog" where
  "boot_env self fs path default_env test_envs override =
     andthen (boot_values self fs path default_env test_envs override)
       (\<lambda>u w. (Inr (), settle_debug self default_env test_envs w))"

section \<open>Dumping\<close>

text \<open>
  \<open>DotenvDumpCommand\<close>, what it writes: the values loaded into a fresh environment that names the
  environment only, with the two stamps; the environment as a map, since the file sorts its keys.
\<close>

definition dump_payload ::
  "dotenv \<Rightarrow> files \<Rightarrow> string \<Rightarrow> string \<Rightarrow> string \<Rightarrow> string list \<Rightarrow> dotenv_error + env" where
  "dump_payload self fs path target_env default_env test_envs =
     (case load_env (self\<lparr>on_os_environ := False\<rparr>) fs path None target_env test_envs False [env_key self \<mapsto> target_env] of
        (Inl e, env) \<Rightarrow> Inl e
      | (Inr u, env) \<Rightarrow>
          Inr ((env(TRACKING_VAR := None, PATH_VAR := None))
                 (DUMP_DEFAULT_ENV_VAR \<mapsto> default_env, DUMP_TEST_ENVS_VAR \<mapsto> join_with CHR '','' test_envs)))"

lemmas [dotenv_defs] = read_file_def read_into_def bindings_into_def base_of_def named_env_def local_stage_def
  overlay_stage_def cascade_of_def load_env_def boot_values_def settle_debug_def boot_env_def

section \<open>Settings and configuration\<close>

text \<open>
  \<open>DotenvSettingsSource._load_env_vars\<close>: the cascade on a copy of the process environment, of which the names
  the files set are handed on, in lower case unless the settings are case-sensitive. The names form a set in
  the code; of two that differ in case only either may win there, here the later.
\<close>

definition settings_vars ::
  "files \<Rightarrow> env \<Rightarrow> string \<Rightarrow> string \<Rightarrow> string \<Rightarrow> string list \<Rightarrow> bool \<Rightarrow> dotenv_error + (string, string) dict" where
  "settings_vars fs os path key default_env test_envs case_sensitive =
     (let self = \<lparr>env_key = key, debug_key = ''APP_DEBUG'', prod_envs = [''prod''],
                  debug_envs = [''dev'', ''local'', ''test''], on_os_environ = False\<rparr>
      in case load_env self fs path None default_env test_envs False os of
           (Inl e, env) \<Rightarrow> Inl e
         | (Inr u, env) \<Rightarrow>
             (let names = filter (\<lambda>n. env n \<noteq> None \<and> n \<noteq> TRACKING_VAR \<and> n \<noteq> PATH_VAR) (remdups (tracked env))
              in Inr (fold (\<lambda>n. dict_set (if case_sensitive then n else lower n) (or_empty (env n))) names [])))"

text \<open>\<open>DotenvConfig\<close>: nothing may be empty.\<close>

record dotenv_config =
  config_path :: string
  config_env_key :: string
  config_debug_key :: string
  config_default_env :: string
  config_test_envs :: "string list"
  config_prod_envs :: "string list"
  config_debug_envs :: "string list"

text \<open>\<open>InvalidArgumentError\<close>, by the name of what is empty.\<close>

definition DotenvConfig_init :: "dotenv_config \<Rightarrow> string + dotenv_config" where
  "DotenvConfig_init c =
     (if config_path c = [] then Inl ''path''
      else if config_env_key c = [] then Inl ''env_key''
      else if config_debug_key c = [] then Inl ''debug_key''
      else if config_default_env c = [] then Inl ''default_env''
      else if config_test_envs c = [] then Inl ''test_envs''
      else if config_prod_envs c = [] then Inl ''prod_envs''
      else if config_debug_envs c = [] then Inl ''debug_envs''
      else Inr c)"

definition config_loader :: "dotenv_config \<Rightarrow> bool \<Rightarrow> dotenv" where
  "config_loader c on_os =
     \<lparr>env_key = config_env_key c, debug_key = config_debug_key c, prod_envs = config_prod_envs c,
      debug_envs = config_debug_envs c, on_os_environ = on_os\<rparr>"

text \<open>\<open>DotenvConfig.boot\<close>, with the base path resolved.\<close>

definition config_boot :: "dotenv_config \<Rightarrow> bool \<Rightarrow> files \<Rightarrow> string \<Rightarrow> (dotenv_world, dotenv_error, unit) prog" where
  "config_boot c on_os fs base_path =
     boot_env (config_loader c on_os) fs base_path (config_default_env c) (config_test_envs c) False"

end
