(* ===== verification/Dotenv_Rules.thy ===== *)
theory Dotenv_Rules
  imports Dotenv_Loader
begin

text \<open>
  What loading \<open>.env\<close> files promises: real variables win, the values loaded are the expansions of what the
  files say in the environment that results, values that cannot be expanded wait on each other, and what
  files set stays recognisable as such.
\<close>

section \<open>Which names an expansion looks up\<close>

fun used :: "(string \<Rightarrow> string option) \<Rightarrow> token list \<Rightarrow> string set" where
  "used env [] = {}"
| "used env (Lit c # ts) = used env ts"
| "used env (Ref name None # ts) = insert name (used env ts)"
| "used env (Ref name (Some (assigns, alternative)) # ts) =
     insert name ((if or_empty (env name) \<noteq> [] then {} else used env alternative) \<union> used env ts)"

lemma used_refs: "used env ts \<subseteq> refs ts"
  by (induction env ts rule: used.induct) auto

lemma meaning_used_cong: "(\<And>n. n \<in> used env ts \<Longrightarrow> env n = env' n) \<Longrightarrow> meaning env ts = meaning env' ts \<and> used env ts = used env' ts"
  by (induction env ts rule: used.induct) (auto split: if_splits)

section \<open>One expansion\<close>

definition seen :: "found \<Rightarrow> string option" where
  "seen f = (case f of Blocked \<Rightarrow> None | Found v \<Rightarrow> v)"

text \<open>What a value under a name sees, given the values resolved and those that wait.\<close>

definition view ::
  "dotenv \<Rightarrow> env \<Rightarrow> bool \<Rightarrow> (string, string) dict \<Rightarrow> string list \<Rightarrow> string \<Rightarrow> string \<Rightarrow> string option" where
  "view self env override values pending name other = seen (lookup_in self env name other values pending override)"

definition waits_for :: "dotenv \<Rightarrow> env \<Rightarrow> bool \<Rightarrow> string list \<Rightarrow> string \<Rightarrow> string \<Rightarrow> bool" where
  "waits_for self env override pending name other \<longleftrightarrow>
     other \<noteq> name \<and> real_variable self env override other = None \<and> other \<in> set pending"

lemma blocked_waits: "lookup_in self env name other values pending override = Blocked \<Longrightarrow> waits_for self env override pending name other"
  by (auto simp: lookup_in_def waits_for_def split: if_splits option.splits)

lemma evaluate_no_assign:
  assumes "assigns_none ts"
  shows "evaluate (pass_lookup self env name pending override) (pass_assign env merged) ts (blocked, resolved) =
    (meaning (view self env override resolved pending name) ts,
     (blocked \<or> (\<exists>m\<in>used (view self env override resolved pending name) ts.
                   lookup_in self env name m resolved pending override = Blocked), resolved))"
  using assms
proof (induction ts arbitrary: blocked rule: assigns_none.induct)
  case (3 n ts)
  then show ?case
    by (auto simp: pass_lookup_def view_def seen_def split: found.splits)
next
  case (4 n assigns alternative ts)
  show ?case
  proof (cases "lookup_in self env name n resolved pending override")
    case Blocked
    with 4 show ?thesis by (auto simp: pass_lookup_def view_def [of _ _ _ _ _ _ n] seen_def or_empty_def)
  next
    case (Found v)
    with 4 show ?thesis by (auto simp: pass_lookup_def view_def [of _ _ _ _ _ _ n] seen_def)
  qed
qed auto

lemma expand_one_no_assign:
  assumes "assigns_none (tokens raw)"
  shows "expand_one self env merged override pending (name, raw) resolved =
    (if \<exists>m\<in>used (view self env override resolved pending name) (tokens raw).
           lookup_in self env name m resolved pending override = Blocked
     then None else Some (meaning (view self env override resolved pending name) (tokens raw)), resolved)"
  by (simp add: expand_one_def expand_tokens evaluate_no_assign [OF assms])

text \<open>With assignments too, what blocks an expansion is a value that waits.\<close>

lemma pass_lookup_blocked:
  "pass_lookup self env name pending override n st = (f, st1) \<Longrightarrow>
     fst st1 \<longrightarrow> fst st \<or> waits_for self env override pending name n"
  by (auto simp: pass_lookup_def dest: blocked_waits split: prod.splits found.splits)

lemma pass_assign_blocked: "fst (pass_assign env merged n v st) = fst st"
  by (simp add: pass_assign_def split: prod.splits)

lemma evaluate_blocked:
  assumes "evaluate (pass_lookup self env name pending override) (pass_assign env merged) ts st = (out, st')"
  shows "fst st' \<longrightarrow> fst st \<or> (\<exists>m\<in>refs ts. waits_for self env override pending name m)"
  using assms
proof (induction ts arbitrary: st out st' rule: refs.induct)
  case (2 c ts)
  then show ?case by (auto split: prod.splits)
next
  case (3 n ts)
  obtain f st1 where l: "pass_lookup self env name pending override n st = (f, st1)" by (metis surj_pair)
  with 3(2) obtain out2 where "evaluate (pass_lookup self env name pending override) (pass_assign env merged) ts st1 = (out2, st')"
    by (auto split: prod.splits)
  from 3(1) [OF this] pass_lookup_blocked [OF l] show ?case by auto
next
  case (4 n assigns alternative ts)
  obtain f st1 where l: "pass_lookup self env name pending override n st = (f, st1)" by (metis surj_pair)
  show ?case
  proof (cases "or_empty f = []")
    case False
    with 4(3) l obtain out2 where "evaluate (pass_lookup self env name pending override) (pass_assign env merged) ts st1 = (out2, st')"
      by (auto split: prod.splits)
    from 4(2) [OF this] pass_lookup_blocked [OF l] show ?thesis by auto
  next
    case True
    obtain d st2 where a: "evaluate (pass_lookup self env name pending override) (pass_assign env merged) alternative st1 = (d, st2)" by (metis surj_pair)
    from True 4(3) l a obtain out2 where
      "evaluate (pass_lookup self env name pending override) (pass_assign env merged) ts
         (if assigns then pass_assign env merged n d st2 else st2) = (out2, st')"
      by (auto split: prod.splits)
    from 4(2) [OF this] 4(1) [OF a] pass_lookup_blocked [OF l] show ?thesis
      by (auto simp: pass_assign_blocked split: if_splits)
  qed
qed simp

lemma expand_one_waits:
  assumes "expand_one self env merged override pending (name, raw) resolved = (None, resolved')"
  shows "\<exists>m\<in>refs (tokens raw). waits_for self env override pending name m"
  using assms evaluate_blocked [of self env name pending override merged "tokens raw" "(False, resolved)"]
  by (fastforce simp: expand_one_def expand_tokens split: prod.splits if_splits)

section \<open>Passes\<close>

lemma pass_lookup_resolved: "pass_lookup self env name pending override n st = (f, st1) \<Longrightarrow> snd st1 = snd st"
  by (auto simp: pass_lookup_def split: prod.splits found.splits)

lemma resolved_grows:
  "evaluate (pass_lookup self env name pending override) (pass_assign env merged) ts st = (out, st') \<Longrightarrow>
     map_of (snd st) \<subseteq>\<^sub>m map_of (snd st')"
proof (induction ts arbitrary: st out st' rule: refs.induct)
  case (2 c ts)
  then show ?case by (auto split: prod.splits)
next
  case (3 n ts)
  obtain f st1 where l: "pass_lookup self env name pending override n st = (f, st1)" by (metis surj_pair)
  with 3(2) obtain out2 where "evaluate (pass_lookup self env name pending override) (pass_assign env merged) ts st1 = (out2, st')"
    by (auto split: prod.splits)
  from 3(1) [OF this] pass_lookup_resolved [OF l] show ?case by simp
next
  case (4 n assigns alternative ts)
  have assign: "map_of (snd st) \<subseteq>\<^sub>m map_of (snd (pass_assign env merged n d st))" for d st
    by (auto simp: pass_assign_def map_le_def split: prod.splits)
  obtain f st1 where l: "pass_lookup self env name pending override n st = (f, st1)" by (metis surj_pair)
  then have st1: "snd st1 = snd st" by (rule pass_lookup_resolved)
  show ?case
  proof (cases "or_empty f = []")
    case False
    with 4(3) l obtain out2 where "evaluate (pass_lookup self env name pending override) (pass_assign env merged) ts st1 = (out2, st')"
      by (auto split: prod.splits)
    from 4(2) [OF this] st1 show ?thesis by simp
  next
    case True
    obtain d st2 where a: "evaluate (pass_lookup self env name pending override) (pass_assign env merged) alternative st1 = (d, st2)" by (metis surj_pair)
    from True 4(3) l a obtain out2 where
      "evaluate (pass_lookup self env name pending override) (pass_assign env merged) ts
         (if assigns then pass_assign env merged n d st2 else st2) = (out2, st')"
      by (auto split: prod.splits)
    from 4(2) [OF this] 4(1) [OF a] st1 assign [of st2 d] show ?thesis
      by (auto intro: map_le_trans split: if_splits)
  qed
qed simp

lemma expand_one_grows:
  assumes "expand_one self env merged override pending nr resolved = (v, resolved')"
  shows "dom (map_of resolved) \<subseteq> dom (map_of resolved')"
proof -
  obtain out blocked where "evaluate (pass_lookup self env (fst nr) pending override) (pass_assign env merged)
      (tokens (snd nr)) (False, resolved) = (out, (blocked, resolved'))"
    using assms by (auto simp: expand_one_def expand_tokens split: prod.splits)
  from resolved_grows [OF this] show ?thesis by (simp add: map_le_implies_dom_le)
qed

text \<open>What a pass leaves waiting waits for a name of the pass; everything else is resolved.\<close>

lemma resolve_steps:
  assumes "fold (resolve_step self env merged override ns) ps (w0, r0) = (w, r)"
  shows "\<exists>ws. w = w0 @ ws \<and> set ws \<subseteq> set ps \<and> length ws \<le> length ps \<and> (length ws = length ps \<longrightarrow> ws = ps)
    \<and> (\<forall>(n, raw)\<in>set ws. \<exists>m\<in>refs (tokens raw). waits_for self env override ns n m)
    \<and> dom (map_of r0) \<subseteq> dom (map_of r) \<and> set (map fst ps) \<subseteq> set (map fst ws) \<union> dom (map_of r)"
  using assms
proof (induction ps arbitrary: w0 r0)
  case (Cons nr ps)
  obtain v r1 where e: "expand_one self env merged override ns nr r0 = (v, r1)" by (metis surj_pair)
  have grows: "dom (map_of r0) \<subseteq> dom (map_of r1)" by (rule expand_one_grows [OF e])
  show ?case
  proof (cases v)
    case None
    with e have "resolve_step self env merged override ns nr (w0, r0) = (w0 @ [nr], r1)"
      by (simp add: resolve_step_def)
    with Cons.prems have rest: "fold (resolve_step self env merged override ns) ps (w0 @ [nr], r1) = (w, r)" by simp
    obtain ws where ws: "w = (w0 @ [nr]) @ ws" "set ws \<subseteq> set ps" "length ws \<le> length ps" "length ws = length ps \<longrightarrow> ws = ps"
      "\<forall>(n, raw)\<in>set ws. \<exists>m\<in>refs (tokens raw). waits_for self env override ns n m"
      "dom (map_of r1) \<subseteq> dom (map_of r)" "set (map fst ps) \<subseteq> set (map fst ws) \<union> dom (map_of r)"
      using Cons.IH [OF rest] by blast
    have "\<exists>m\<in>refs (tokens (snd nr)). waits_for self env override ns (fst nr) m"
      using expand_one_waits [of self env merged override ns "fst nr" "snd nr" r0 r1] e None by simp
    then show ?thesis using ws order_trans [OF grows ws(6)] by (intro exI [of _ "nr # ws"]) (auto simp: case_prod_beta)
  next
    case (Some x)
    with e have "resolve_step self env merged override ns nr (w0, r0) = (w0, dict_set (fst nr) x r1)"
      by (simp add: resolve_step_def)
    with Cons.prems have rest: "fold (resolve_step self env merged override ns) ps (w0, dict_set (fst nr) x r1) = (w, r)" by simp
    obtain ws where ws: "w = w0 @ ws" "set ws \<subseteq> set ps" "length ws \<le> length ps"
      "\<forall>(n, raw)\<in>set ws. \<exists>m\<in>refs (tokens raw). waits_for self env override ns n m"
      "dom (map_of (dict_set (fst nr) x r1)) \<subseteq> dom (map_of r)" "set (map fst ps) \<subseteq> set (map fst ws) \<union> dom (map_of r)"
      using Cons.IH [OF rest] by blast
    moreover have "dom (map_of r0) \<subseteq> dom (map_of r)" using grows ws(5) by auto
    ultimately show ?thesis by (intro exI [of _ ws]) auto
  qed
qed simp

text \<open>Every value is resolved, or the names that are left wait on each other.\<close>

definition wait_on_each_other :: "dotenv \<Rightarrow> env \<Rightarrow> bool \<Rightarrow> (string \<times> string) list \<Rightarrow> string list \<Rightarrow> bool" where
  "wait_on_each_other self env override pending ns \<longleftrightarrow>
     ns \<noteq> [] \<and> (\<forall>n\<in>set ns. \<exists>raw. (n, raw) \<in> set pending
       \<and> (\<exists>m\<in>refs (tokens raw). m \<in> set ns \<and> m \<noteq> n \<and> real_variable self env override m = None))"

lemma wait_on_each_other_mono:
  "wait_on_each_other self env override ws ns \<Longrightarrow> set ws \<subseteq> set pending \<Longrightarrow> wait_on_each_other self env override pending ns"
  unfolding wait_on_each_other_def by blast

lemma resolve_loop_result:
  "case resolve_loop self env merged override pending resolved of
     Inl e \<Rightarrow> (\<exists>ns. e = VariableCircularReferenceError ns \<and> wait_on_each_other self env override pending ns)
   | Inr vals \<Rightarrow> set (map fst pending) \<union> dom (map_of resolved) \<subseteq> dom (map_of vals)"
proof (induction self env merged override pending resolved rule: resolve_loop.induct)
  case (1 self env merged override pending resolved)
  show ?case
  proof (cases "pending = []")
    case True
    then show ?thesis by (subst resolve_loop.simps) simp
  next
    case False
    obtain ws r where p: "resolve_pass self env merged override pending resolved = (ws, r)" by (metis surj_pair)
    have ws: "set ws \<subseteq> set pending" "length ws = length pending \<longrightarrow> ws = pending"
      "\<forall>(n, raw)\<in>set ws. \<exists>m\<in>refs (tokens raw). waits_for self env override (map fst pending) n m"
      "dom (map_of resolved) \<subseteq> dom (map_of r)" "set (map fst pending) \<subseteq> set (map fst ws) \<union> dom (map_of r)"
      using resolve_steps [of self env merged override "map fst pending" pending "[]" resolved ws r] p
      by (auto simp: resolve_pass_def)
    show ?thesis
    proof (cases "length ws = length pending")
      case True
      with ws(2,3) False have "wait_on_each_other self env override pending (map fst pending)"
        by (fastforce simp: waits_for_def wait_on_each_other_def)
      with True False p show ?thesis by (subst resolve_loop.simps) simp
    next
      case len: False
      have step: "resolve_loop self env merged override pending resolved = resolve_loop self env merged override ws r"
        using len False p by (subst resolve_loop.simps) simp
      show ?thesis
      proof (cases "resolve_loop self env merged override ws r")
        case (Inl e)
        with 1 [OF False p [symmetric] len] wait_on_each_other_mono [OF _ ws(1)] show ?thesis
          unfolding step by auto
      next
        case (Inr vals)
        with 1 [OF False p [symmetric] len] have "set (map fst ws) \<union> dom (map_of r) \<subseteq> dom (map_of vals)" by simp
        with ws(4,5) show ?thesis unfolding step Inr sum.case by blast
      qed
    qed
  qed
qed

section \<open>The values are expansions of each other\<close>

text \<open>A value that is the expansion of what the file says, without a name that waits.\<close>

definition solved ::
  "dotenv \<Rightarrow> env \<Rightarrow> bool \<Rightarrow> (string, string) dict \<Rightarrow> string list \<Rightarrow> string \<times> string \<Rightarrow> bool" where
  "solved self env override resolved pending nr \<longleftrightarrow>
     map_of resolved (fst nr) = Some (meaning (view self env override resolved pending (fst nr)) (tokens (snd nr)))
     \<and> (\<forall>m\<in>used (view self env override resolved pending (fst nr)) (tokens (snd nr)).
          lookup_in self env (fst nr) m resolved pending override \<noteq> Blocked)"

text \<open>What was found stays found while waiting values are resolved.\<close>

definition extends ::
  "(string, string) dict \<Rightarrow> string list \<Rightarrow> (string, string) dict \<Rightarrow> string list \<Rightarrow> bool" where
  "extends resolved pending resolved' pending' \<longleftrightarrow>
     map_of resolved \<subseteq>\<^sub>m map_of resolved' \<and> dom (map_of resolved') \<subseteq> dom (map_of resolved) \<union> set pending
     \<and> set pending' \<subseteq> set pending"

lemma lookup_stable:
  assumes "lookup_in self env n m resolved pending override \<noteq> Blocked" "extends resolved pending resolved' pending'"
  shows "lookup_in self env n m resolved' pending' override = lookup_in self env n m resolved pending override"
proof (cases "map_of resolved m")
  case None
  with assms(1) have "m \<notin> set pending \<or> m = n \<or> real_variable self env override m \<noteq> None"
    by (auto simp: lookup_in_def split: option.splits if_splits)
  moreover have "map_of resolved' m = None" if "m \<notin> set pending"
    using assms(2) None that by (auto simp: extends_def)
  ultimately show ?thesis
    using assms(2) None by (auto simp: lookup_in_def extends_def split: option.splits)
next
  case (Some v)
  with assms(2) have "map_of resolved' m = Some v"
    unfolding extends_def map_le_def by (metis domI)
  with Some show ?thesis by (simp add: lookup_in_def split: option.splits)
qed

lemma solved_stable:
  assumes "solved self env override resolved pending nr" "extends resolved pending resolved' pending'"
  shows "solved self env override resolved' pending' nr"
proof -
  let ?v = "view self env override resolved pending (fst nr)" and ?v' = "view self env override resolved' pending' (fst nr)"
  have eq: "lookup_in self env (fst nr) m resolved' pending' override = lookup_in self env (fst nr) m resolved pending override"
    if "m \<in> used ?v (tokens (snd nr))" for m
    using assms that by (intro lookup_stable) (auto simp: solved_def)
  then have same: "meaning ?v (tokens (snd nr)) = meaning ?v' (tokens (snd nr)) \<and> used ?v (tokens (snd nr)) = used ?v' (tokens (snd nr))"
    by (intro meaning_used_cong) (simp add: view_def)
  have "map_of resolved' (fst nr) = map_of resolved (fst nr)"
    using assms unfolding solved_def extends_def map_le_def by (metis domI)
  then show ?thesis
    using assms(1) same eq unfolding solved_def by metis
qed

lemma extends_refl: "set pending' \<subseteq> set pending \<Longrightarrow> extends resolved pending resolved pending'"
  by (simp add: extends_def)

lemma extends_trans:
  "extends r ns r1 ns \<Longrightarrow> extends r1 ns r2 ns \<Longrightarrow> extends r ns r2 ns"
  unfolding extends_def by (blast intro: map_le_trans)

lemma extends_weaken: "extends r ns r' [] \<Longrightarrow> set ns \<subseteq> set ms \<Longrightarrow> extends r ms r' []"
  unfolding extends_def by blast

lemma resolve_steps_solved:
  assumes "fold (resolve_step self env merged override ns) ps (w0, r0) = (w, r)"
    and "\<forall>nr\<in>set ps. assigns_none (tokens (snd nr))" "distinct (map fst ps)"
    and "set (map fst ps) \<inter> dom (map_of r0) = {}" "set (map fst ps) \<subseteq> set ns"
  shows "extends r0 ns r ns \<and> dom (map_of r) \<subseteq> dom (map_of r0) \<union> set (map fst ps)
    \<and> (\<forall>nr\<in>set ps. fst nr \<in> dom (map_of r) \<longrightarrow> solved self env override r ns nr)
    \<and> w = w0 @ filter (\<lambda>nr. fst nr \<notin> dom (map_of r)) ps"
  using assms
proof (induction ps arbitrary: w0 r0)
  case (Cons nr ps)
  obtain n raw where nr: "nr = (n, raw)" by fastforce
  have e: "expand_one self env merged override ns nr r0 =
    (if \<exists>m\<in>used (view self env override r0 ns n) (tokens raw). lookup_in self env n m r0 ns override = Blocked
     then None else Some (meaning (view self env override r0 ns n) (tokens raw)), r0)"
    using expand_one_no_assign [of raw] Cons.prems(2) by (simp add: nr)
  show ?case
  proof (cases "\<exists>m\<in>used (view self env override r0 ns n) (tokens raw). lookup_in self env n m r0 ns override = Blocked")
    case True
    then have "resolve_step self env merged override ns nr (w0, r0) = (w0 @ [nr], r0)"
      by (simp add: resolve_step_def e)
    with Cons.prems(1) have rest: "fold (resolve_step self env merged override ns) ps (w0 @ [nr], r0) = (w, r)" by simp
    have IH: "extends r0 ns r ns \<and> dom (map_of r) \<subseteq> dom (map_of r0) \<union> set (map fst ps)
      \<and> (\<forall>nr\<in>set ps. fst nr \<in> dom (map_of r) \<longrightarrow> solved self env override r ns nr)
      \<and> w = (w0 @ [nr]) @ filter (\<lambda>nr. fst nr \<notin> dom (map_of r)) ps"
      by (rule Cons.IH [OF rest]) (use Cons.prems in auto)
    moreover have "n \<notin> dom (map_of r)" using IH Cons.prems(3,4) by (auto simp: nr)
    ultimately show ?thesis by (auto simp: nr)
  next
    case False
    let ?v = "meaning (view self env override r0 ns n) (tokens raw)"
    let ?r1 = "dict_set n ?v r0"
    have step: "resolve_step self env merged override ns nr (w0, r0) = (w0, ?r1)"
      using False by (simp add: resolve_step_def e) (simp add: nr)
    with Cons.prems(1) have rest: "fold (resolve_step self env merged override ns) ps (w0, ?r1) = (w, r)" by simp
    have ext: "extends r0 ns ?r1 ns"
      using Cons.prems(4,5) by (auto simp: extends_def map_le_def nr)
    have IH: "extends ?r1 ns r ns \<and> dom (map_of r) \<subseteq> dom (map_of ?r1) \<union> set (map fst ps)
      \<and> (\<forall>nr\<in>set ps. fst nr \<in> dom (map_of r) \<longrightarrow> solved self env override r ns nr)
      \<and> w = w0 @ filter (\<lambda>nr. fst nr \<notin> dom (map_of r)) ps"
    proof (rule Cons.IH [OF rest])
      have "dom (map_of ?r1) = insert n (dom (map_of r0))" by simp
      then show "set (map fst ps) \<inter> dom (map_of ?r1) = {}" using Cons.prems(3,4) unfolding nr by auto
    qed (use Cons.prems in auto)
    have "solved self env override ?r1 ns nr"
    proof -
      have eq: "lookup_in self env n m ?r1 ns override = lookup_in self env n m r0 ns override"
        if "m \<in> used (view self env override r0 ns n) (tokens raw)" for m
        using False that ext by (intro lookup_stable) auto
      then have "meaning (view self env override r0 ns n) (tokens raw) = meaning (view self env override ?r1 ns n) (tokens raw)
          \<and> used (view self env override r0 ns n) (tokens raw) = used (view self env override ?r1 ns n) (tokens raw)"
        by (intro meaning_used_cong) (simp add: view_def)
      then show ?thesis using False eq unfolding solved_def nr fst_conv snd_conv by (metis fun_upd_same map_of_dict_set)
    qed
    then have sol: "solved self env override r ns nr" using IH by (blast intro: solved_stable)
    then have "n \<in> dom (map_of r)" by (simp add: solved_def nr domI)
    moreover have "extends r0 ns r ns" using IH extends_trans [OF ext] by blast
    ultimately show ?thesis using IH sol by (auto simp: nr)
  qed
qed (simp add: extends_refl)

lemma resolve_loop_solved:
  assumes "resolve_loop self env merged override pending resolved = Inr vals"
    and "\<forall>nr\<in>set pending. assigns_none (tokens (snd nr))" "distinct (map fst pending)"
    and "set (map fst pending) \<inter> dom (map_of resolved) = {}"
  shows "extends resolved (map fst pending) vals [] \<and> (\<forall>nr\<in>set pending. solved self env override vals [] nr)"
  using assms
proof (induction self env merged override pending resolved rule: resolve_loop.induct)
  case (1 self env merged override pending resolved)
  show ?case
  proof (cases "pending = []")
    case True
    then have "vals = resolved" using 1(2) by (subst (asm) resolve_loop.simps) simp
    with True show ?thesis by (simp add: extends_refl)
  next
    case False
    obtain ws r where p: "resolve_pass self env merged override pending resolved = (ws, r)" by (metis surj_pair)
    then have f: "fold (resolve_step self env merged override (map fst pending)) pending ([], resolved) = (ws, r)"
      by (simp add: resolve_pass_def)
    have len: "length ws \<noteq> length pending" and rest: "resolve_loop self env merged override ws r = Inr vals"
      using 1(2) False p by (subst (asm) resolve_loop.simps, simp split: if_splits)+
    have steps: "extends resolved (map fst pending) r (map fst pending)"
      "\<forall>nr\<in>set pending. fst nr \<in> dom (map_of r) \<longrightarrow> solved self env override r (map fst pending) nr"
      "ws = filter (\<lambda>nr. fst nr \<notin> dom (map_of r)) pending"
      using resolve_steps_solved [OF f 1(3,4,5)] by auto
    have IH: "extends r (map fst ws) vals [] \<and> (\<forall>nr\<in>set ws. solved self env override vals [] nr)"
    proof (rule 1(1) [OF False p [symmetric] len rest])
      show "\<forall>nr\<in>set ws. assigns_none (tokens (snd nr))" using 1(3) steps(3) by simp
      show "distinct (map fst ws)" using 1(4) steps(3) by (simp add: distinct_map_filter)
      show "set (map fst ws) \<inter> dom (map_of r) = {}" using steps(3) by auto
    qed
    have sub: "set (map fst ws) \<subseteq> set (map fst pending)" using steps(3) by auto
    have ext: "extends r (map fst pending) vals []" using IH sub by (blast intro: extends_weaken)
    have "extends resolved (map fst pending) vals []"
      using steps(1) ext unfolding extends_def by (blast intro: map_le_trans)
    moreover have "solved self env override vals [] nr" if "nr \<in> set pending" for nr
    proof (cases "fst nr \<in> dom (map_of r)")
      case True
      with steps(2) that ext show ?thesis by (blast intro: solved_stable)
    next
      case False
      with that steps(3) have "nr \<in> set ws" by simp
      with IH show ?thesis by blast
    qed
    ultimately show ?thesis by blast
  qed
qed

section \<open>What is bound\<close>

definition unquoted :: "bindings \<Rightarrow> (string \<times> string) list" where
  "unquoted merged = map (\<lambda>(n, v). (n, fst v)) (filter (\<lambda>(n, v). \<not> snd v) merged)"

definition quoted :: "bindings \<Rightarrow> (string, string) dict" where
  "quoted merged = map (\<lambda>(n, v). (n, fst v)) (filter (\<lambda>(n, v). snd v) merged)"

lemma resolve_values_eq: "resolve_values self env merged override = resolve_loop self env merged override (unquoted merged) (quoted merged)"
  by (simp add: resolve_values_def unquoted_def quoted_def)

lemma unquoted_iff: "(n, raw) \<in> set (unquoted merged) \<longleftrightarrow> (n, (raw, False)) \<in> set merged"
  by (force simp: unquoted_def)

lemma bound_names: "set (map fst (unquoted merged)) \<union> set (map fst (quoted merged)) = set (dict_keys merged)"
  by (force simp: unquoted_def quoted_def)

lemma dom_map_of: "dom (map_of d) = set (dict_keys d)"
  by (simp add: dom_map_of_conv_image_fst)

lemma bound_names_distinct:
  assumes "dict_ok merged"
  shows "distinct (map fst (unquoted merged))" "distinct (map fst (quoted merged))"
    "set (map fst (unquoted merged)) \<inter> dom (map_of (quoted merged)) = {}"
proof -
  have fsts: "map fst (map (\<lambda>(n, v). (n, fst v)) xs) = map fst xs" for xs :: bindings
    by (simp add: comp_def split_def)
  show "distinct (map fst (unquoted merged))" "distinct (map fst (quoted merged))"
    using assms unfolding unquoted_def quoted_def fsts dict_ok_def by (simp_all add: distinct_map_filter)
  have "False" if "(n, (raw, False)) \<in> set merged" "(n, (raw', True)) \<in> set merged" for n raw raw'
    using assms that by (auto simp: dict_ok_def dest: eq_key_imp_eq_value)
  then show "set (map fst (unquoted merged)) \<inter> dom (map_of (quoted merged)) = {}"
    unfolding dom_map_of by (fastforce simp: unquoted_def quoted_def)
qed

definition no_assignments :: "bindings \<Rightarrow> bool" where
  "no_assignments merged \<longleftrightarrow> (\<forall>(n, (raw, single))\<in>set merged. single \<or> assigns_none (tokens raw))"

lemma resolve_values_solved:
  assumes "resolve_values self env merged override = Inr vals" "dict_ok merged" "no_assignments merged"
  shows "dom (map_of vals) = set (dict_keys merged)"
    and "(n, (raw, single)) \<in> set merged \<Longrightarrow>
      map_of vals n = Some (if single then raw else meaning (view self env override vals [] n) (tokens raw))"
proof -
  have assigns: "\<forall>nr\<in>set (unquoted merged). assigns_none (tokens (snd nr))"
  proof
    fix nr assume "nr \<in> set (unquoted merged)"
    then have "(fst nr, (snd nr, False)) \<in> set merged" by (simp flip: unquoted_iff)
    with assms(3) show "assigns_none (tokens (snd nr))" by (fastforce simp: no_assignments_def)
  qed
  note loop = assms(1) [unfolded resolve_values_eq]
  have res: "extends (quoted merged) (map fst (unquoted merged)) vals []"
    "\<forall>nr\<in>set (unquoted merged). solved self env override vals [] nr"
    using resolve_loop_solved [OF loop assigns bound_names_distinct(1,3) [OF assms(2)]] by blast+
  have "dom (map_of (quoted merged)) \<union> set (map fst (unquoted merged)) \<subseteq> dom (map_of vals)"
    using resolve_loop_result [where self = self and env = env and merged = merged and override = override
        and pending = "unquoted merged" and resolved = "quoted merged"] loop by auto
  moreover have "dom (map_of vals) \<subseteq> dom (map_of (quoted merged)) \<union> set (map fst (unquoted merged))"
    using res(1) by (simp add: extends_def)
  ultimately show "dom (map_of vals) = set (dict_keys merged)"
    using bound_names [of merged] dom_map_of [of "quoted merged"] by blast
  show "map_of vals n = Some (if single then raw else meaning (view self env override vals [] n) (tokens raw))"
    if "(n, (raw, single)) \<in> set merged"
  proof (cases single)
    case True
    then have "(n, raw) \<in> set (quoted merged)" using that by (force simp: quoted_def)
    then have "map_of (quoted merged) n = Some raw" using bound_names_distinct(2) [OF assms(2)] by simp
    with res(1) True show ?thesis unfolding extends_def map_le_def by (metis domI)
  next
    case False
    with that have "(n, raw) \<in> set (unquoted merged)" by (simp add: unquoted_iff)
    with res(2) False show ?thesis by (auto simp: solved_def)
  qed
qed

section \<open>What the environment holds afterwards\<close>

lemma real_variable_None: "real_variable self env override n = None \<longleftrightarrow> override \<or> \<not> is_set self env n \<or> n \<in> set (tracked env)"
  by (auto simp: real_variable_def is_set_def split: option.splits)

lemma real_variable_Some: "real_variable self env override n = Some v \<Longrightarrow> env n = Some v"
  by (simp add: real_variable_def split: if_splits)

text \<open>A real variable, else what was loaded, else what was there.\<close>

lemma populate_lookup:
  assumes "n \<noteq> TRACKING_VAR"
  shows "populate self vals override env n =
    (case real_variable self env override n of
       Some v \<Rightarrow> Some v
     | None \<Rightarrow> (case map_of vals n of Some v \<Rightarrow> Some v | None \<Rightarrow> env n))"
proof -
  have w: "n \<in> set (written self env override vals) \<longleftrightarrow> map_of vals n \<noteq> None \<and> real_variable self env override n = None"
    unfolding real_variable_None written_def set_filter mem_Collect_eq dict_mem_iff by blast
  then have "populate self vals override env n = (if n \<in> set (written self env override vals) then map_of vals n else env n)"
    using assms by (simp add: populate_def Let_def)
  with w show ?thesis
    by (cases "real_variable self env override n") (auto dest: real_variable_Some split: option.splits)
qed

lemma view_populate:
  "other \<noteq> TRACKING_VAR \<Longrightarrow>
     view self env override vals [] n other = (if other = n then env n else populate self vals override env other)"
  by (auto simp: view_def seen_def lookup_in_def populate_lookup split: option.splits)

lemma resolved_expansion:
  assumes "resolve_values self env merged override = Inr vals" "dict_ok merged" "no_assignments merged"
    and "(n, (raw, single)) \<in> set merged" "n \<noteq> TRACKING_VAR" "TRACKING_VAR \<notin> refs (tokens raw)"
  shows "populate self vals override env n =
    (case real_variable self env override n of
       Some v \<Rightarrow> Some v
     | None \<Rightarrow> Some (if single then raw
          else expansion (\<lambda>other. if other = n then env n else populate self vals override env other) raw))"
proof -
  have "meaning (view self env override vals [] n) (tokens raw) =
      expansion (\<lambda>other. if other = n then env n else populate self vals override env other) raw"
    unfolding expansion_meaning using assms(6) by (intro meaning_cong) (metis view_populate)
  with resolve_values_solved(2) [OF assms(1,2,3,4)] show ?thesis
    by (simp add: populate_lookup [OF assms(5)] split: option.splits)
qed

text \<open>What every binding of a file there is keeps, the cascade keeps.\<close>

definition bindings_inv :: "files \<Rightarrow> (bindings \<Rightarrow> bool) \<Rightarrow> bool" where
  "bindings_inv fs P \<longleftrightarrow> P []
     \<and> (\<forall>data path b m m'. read_file fs path = Inr data \<and> b \<in> set (parse_stream fs data) \<and> P m \<and> read_binding path b m = Inr m'
          \<longrightarrow> P m')"

lemma bindings_into_inv:
  "bindings_into fs data path merged = Inr merged' \<Longrightarrow> read_file fs path = Inr data \<Longrightarrow> bindings_inv fs P \<Longrightarrow> P merged \<Longrightarrow> P merged'"
  unfolding bindings_into_def by (erule fold_r_inv) (auto simp: bindings_inv_def)

lemma read_into_inv: "read_into fs path merged = Inr merged' \<Longrightarrow> bindings_inv fs P \<Longrightarrow> P merged \<Longrightarrow> P merged'"
  by (auto simp: read_into_def intro: bindings_into_inv split: sum.splits)

lemma apply_overlay_inv:
  "apply_overlay self fs env key chosen override overlay merged = Inr merged' \<Longrightarrow> bindings_inv fs P \<Longrightarrow> P merged \<Longrightarrow> P merged'"
  by (auto simp: apply_overlay_def Let_def dest: bindings_into_inv split: if_splits sum.splits)

lemma cascade_inv:
  assumes "cascade_of self fs env path key default_env test_envs override = Inr (chosen, considered, merged)"
    and inv: "bindings_inv fs P" and default: "\<And>m. P m \<Longrightarrow> P (dict_set key (default_env, True) m)"
  shows "P merged"
proof -
  have overlay: "P m'" if "overlay_stage self fs env path key override (c, cs, m) = Inr (c', cs', m')" "P m" for c cs m c' cs' m'
  proof (cases "c = ''local''")
    case True
    with that show ?thesis by (simp add: overlay_stage_def)
  next
    case False
    let ?os = "[path @ ''.'' @ c, path @ ''.'' @ c @ ''.local'']"
    from that False have "fold_r (apply_overlay self fs env key c override) ?os m = Inr m'"
      by (auto simp add: overlay_stage_def Let_def simp del: fold_r.simps split: sum.splits)
    then show ?thesis by (rule fold_r_inv) (use that apply_overlay_inv [OF _ inv] in blast)+
  qed
  have local: "P m'" if "local_stage self fs env path key test_envs override (c, cs, m) = Inr (c', cs', m')" "P m" for c cs m c' cs' m'
    using that by (auto simp: local_stage_def Let_def dest: read_into_inv [OF _ inv] split: if_splits sum.splits)
  let ?start = "\<lambda>m. if named_env self env key m override = [] then (default_env, [base_of fs path], dict_set key (default_env, True) m)
       else (named_env self env key m override, [base_of fs path], m)"
  obtain m where base: "read_into fs (base_of fs path) [] = Inr m"
    using assms by (cases "read_into fs (base_of fs path) []") (simp_all add: cascade_of_def Let_def)
  have stages: "(case local_stage self fs env path key test_envs override (?start m) of
      Inl e \<Rightarrow> Inl e | Inr acc \<Rightarrow> overlay_stage self fs env path key override acc) = Inr (chosen, considered, merged)"
    using assms(1) unfolding cascade_of_def Let_def base sum.case .
  then obtain acc where l: "local_stage self fs env path key test_envs override (?start m) = Inr acc"
    by (cases "local_stage self fs env path key test_envs override (?start m)") simp_all
  with stages have ov: "overlay_stage self fs env path key override acc = Inr (chosen, considered, merged)"
    by (simp only: sum.case)
  obtain c cs m1 where acc: "acc = (c, cs, m1)" by (metis prod_cases3)
  obtain c0 cs0 m0 where start: "?start m = (c0, cs0, m0)" by (metis prod_cases3)
  have "P m" by (rule read_into_inv [OF base inv]) (use inv in \<open>simp add: bindings_inv_def\<close>)
  then have "P m0" using start default by (auto split: if_splits)
  then have "P m1" using local [OF l [unfolded start acc]] by blast
  then show ?thesis using overlay [OF ov [unfolded acc]] by blast
qed

lemma dict_ok_inv: "bindings_inv fs dict_ok"
  by (auto simp: bindings_inv_def read_binding_def Let_def split: if_splits option.splits)

lemma cascade_ok:
  "cascade_of self fs env path key default_env test_envs override = Inr (chosen, considered, merged) \<Longrightarrow> dict_ok merged"
  by (erule cascade_inv) (simp_all add: dict_ok_inv)

end
