(* ===== verification/Dotenv_Laws.thy ===== *)
theory Dotenv_Laws
  imports Dotenv_Rules
begin

text \<open>
  The properties of loading \<open>.env\<close> files, and concrete loads: which variables are the host's, over any
  sequence of loads; what the environment holds afterwards; what booting decides.
\<close>

section \<open>The list of names files have set\<close>

lemma split_at_ne: "split_at sep s \<noteq> []"
  by (induction s) (auto split: list.splits)

lemma split_at_no_sep: "p \<in> set (split_at sep s) \<Longrightarrow> sep \<notin> set p"
  by (induction s arbitrary: p) (auto split: list.splits if_splits)

lemma split_at_single: "sep \<notin> set p \<Longrightarrow> split_at sep p = [p]"
  by (induction p) auto

lemma split_at_append: "sep \<notin> set p \<Longrightarrow> split_at sep (p @ sep # s) = p # split_at sep s"
  by (induction p) auto

lemma split_join:
  "ps \<noteq> [] \<Longrightarrow> \<forall>p\<in>set ps. sep \<notin> set p \<Longrightarrow> split_at sep (join_with sep ps) = ps"
  by (induction sep ps rule: join_with.induct) (auto simp: split_at_single split_at_append)

lemma strip_idem: "strip (strip s) = strip s"
proof -
  have drop: "dropWhile P (rev (dropWhile P (rev (dropWhile P t)))) = rev (dropWhile P (rev (dropWhile P t)))" for P :: "char \<Rightarrow> bool" and t
  proof (cases "dropWhile P t")
    case (Cons x xs)
    then have x: "\<not> P x" by (metis dropWhile_eq_Cons_conv)
    then have "dropWhile P (rev (x # xs)) = dropWhile P (rev xs) @ [x] \<or> dropWhile P (rev (x # xs)) = [x]"
      by (induction xs rule: rev_induct) auto
    with x show ?thesis by (auto simp: Cons)
  next
    case Nil
    show ?thesis unfolding Nil by simp
  qed
  have idem: "dropWhile P (dropWhile P t) = dropWhile P t" for P :: "char \<Rightarrow> bool" and t
    by (induction t) auto
  show ?thesis unfolding strip_def lstrip_def drop rev_rev_ident idem ..
qed

text \<open>A name the list can hold.\<close>

definition clean :: "string \<Rightarrow> bool" where
  "clean n \<longleftrightarrow> n \<noteq> [] \<and> strip n = n \<and> CHR '','' \<notin> set n"

lemma strip_subset: "set (strip s) \<subseteq> set s"
  unfolding strip_def lstrip_def by (auto dest!: set_dropWhileD)

lemma tracked_clean: "n \<in> set (tracked env) \<Longrightarrow> clean n"
  unfolding tracked_def clean_def using strip_subset split_at_no_sep by (fastforce simp: strip_idem)

lemma tracked_join:
  assumes "\<forall>n\<in>set ns. clean n" "env TRACKING_VAR = Some (join_with CHR '','' ns)"
  shows "tracked env = ns"
proof (cases "ns = []")
  case True
  with assms(2) show ?thesis by (simp add: tracked_def or_empty_def strip_def lstrip_def)
next
  case False
  with assms have "split_at CHR '','' (or_empty (env TRACKING_VAR)) = ns"
    by (simp add: or_empty_def split_join clean_def)
  moreover have "map strip ns = ns" using assms(1) by (induction ns) (auto simp: clean_def)
  ultimately show ?thesis using assms(1) by (auto simp: tracked_def clean_def intro!: filter_True)
qed

lemma tracked_cong: "env TRACKING_VAR = env' TRACKING_VAR \<Longrightarrow> tracked env = tracked env'"
  by (simp add: tracked_def)

lemma populate_tracked:
  assumes "\<forall>n\<in>set (dict_keys values). clean n" "TRACKING_VAR \<notin> set (dict_keys values)"
  shows "set (tracked (populate self values override env)) = set (tracked env) \<union> set (written self env override values)"
proof (cases "set (written self env override values) \<subseteq> set (tracked env)")
  case True
  have "TRACKING_VAR \<notin> set (written self env override values)" using assms(2) by (auto simp: written_def)
  with True have "tracked (populate self values override env) = tracked env"
    by (intro tracked_cong) (simp add: populate_def Let_def)
  with True show ?thesis by (simp add: Un_absorb2)
next
  case False
  let ?ns = "sort (remdups (tracked env @ written self env override values))"
  have "\<forall>n\<in>set ?ns. clean n" using assms(1) tracked_clean by (auto simp: written_def)
  moreover have "populate self values override env TRACKING_VAR = Some (join_with CHR '','' ?ns)"
    using False by (simp add: populate_def Let_def)
  ultimately have "tracked (populate self values override env) = ?ns" by (rule tracked_join)
  then show ?thesis by simp
qed

text \<open>Loading without overriding changes neither which variables are real nor what they hold.\<close>

lemma populate_real:
  assumes "\<forall>n\<in>set (dict_keys values). clean n" "TRACKING_VAR \<notin> set (dict_keys values)" "n \<noteq> TRACKING_VAR"
  shows "real_variable self (populate self values False env) False n = real_variable self env False n"
proof -
  let ?env' = "populate self values False env"
  note tr = populate_tracked [OF assms(1,2), of self False env]
  show ?thesis
  proof (cases "n \<in> set (written self env False values)")
    case True
    then have "real_variable self env False n = None" unfolding real_variable_None by (auto simp: written_def)
    moreover have "real_variable self ?env' False n = None" unfolding real_variable_None using tr True by blast
    ultimately show ?thesis by simp
  next
    case False
    then have "?env' n = env n" using assms(3) by (simp add: populate_def Let_def)
    moreover have "n \<in> set (tracked ?env') \<longleftrightarrow> n \<in> set (tracked env)" using tr False by blast
    ultimately show ?thesis by (simp add: real_variable_def is_set_def)
  qed
qed

section \<open>The names files set\<close>

lemma no_space_strip: "\<forall>c\<in>set s. \<not> is_space c \<Longrightarrow> strip s = s"
proof -
  assume *: "\<forall>c\<in>set s. \<not> is_space c"
  have "dropWhile is_space t = t" if "\<forall>c\<in>set t. \<not> is_space c" for t
    using that by (cases t) auto
  from this [of s] this [of "rev s"] * show ?thesis by (simp add: strip_def lstrip_def)
qed

lemma name_char_clean: "name_char c \<Longrightarrow> \<not> is_space c \<and> c \<noteq> CHR '',''"
  by (auto simp: name_char_def name_start_def is_digit_def is_space_def code_def)

lemma name_start_char: "name_start c \<Longrightarrow> name_char c"
  by (simp add: name_char_def)

lemma scan_name_clean: "scan_name s = Some (name, r) \<Longrightarrow> clean name"
proof -
  assume "scan_name s = Some (name, r)"
  then have "name \<noteq> []" "\<forall>c\<in>set name. name_char c"
    by (auto simp: scan_name_def intro: name_start_char dest: set_takeWhileD split: list.splits if_splits)
  then show ?thesis using no_space_strip [of name] name_char_clean by (auto simp: clean_def)
qed

lemma match_reference_clean: "match_reference s = Some (name, operator, r) \<Longrightarrow> clean name"
  by (auto simp: match_reference_def match_braced_def dest: scan_name_clean
      split: list.splits if_splits option.splits prod.splits)

lemma refs_clean: "n \<in> refs (tokens raw) \<Longrightarrow> clean n"
proof (induction raw rule: tokens.induct)
  case (2 c cs)
  from "2.prems" [unfolded tokens.simps(2) [of c cs]] "2.IH" show ?case
    by (auto split: if_splits option.splits prod.splits dest: match_reference_clean)
qed (simp add: tokens.simps)

text \<open>Values are set under the names bound or assigned only.\<close>

lemma evaluate_keys:
  assumes "evaluate (pass_lookup self env name pending override) (pass_assign env merged) ts st = (out, st')"
    and "refs ts \<subseteq> K" "dom (map_of (snd st)) \<subseteq> K"
  shows "dom (map_of (snd st')) \<subseteq> K"
  using assms
proof (induction ts arbitrary: st out st' rule: refs.induct)
  case (2 c ts)
  then show ?case by (auto split: prod.splits)
next
  case (3 n ts)
  obtain f st1 where l: "pass_lookup self env name pending override n st = (f, st1)" by (metis surj_pair)
  with 3(2) obtain out2 where "evaluate (pass_lookup self env name pending override) (pass_assign env merged) ts st1 = (out2, st')"
    by (auto split: prod.splits)
  from 3(1) [OF this] pass_lookup_resolved [OF l] 3(3,4) show ?case by simp
next
  case (4 n assigns alternative ts)
  obtain f st1 where l: "pass_lookup self env name pending override n st = (f, st1)" by (metis surj_pair)
  then have st1: "snd st1 = snd st" by (rule pass_lookup_resolved)
  show ?case
  proof (cases "or_empty f = []")
    case False
    with 4(3) l obtain out2 where "evaluate (pass_lookup self env name pending override) (pass_assign env merged) ts st1 = (out2, st')"
      by (auto split: prod.splits)
    from 4(2) [OF this] st1 4(4,5) show ?thesis by simp
  next
    case True
    obtain d st2 where a: "evaluate (pass_lookup self env name pending override) (pass_assign env merged) alternative st1 = (d, st2)" by (metis surj_pair)
    from True 4(3) l a obtain out2 where e:
      "evaluate (pass_lookup self env name pending override) (pass_assign env merged) ts
         (if assigns then pass_assign env merged n d st2 else st2) = (out2, st')"
      by (auto split: prod.splits)
    have "dom (map_of (snd st2)) \<subseteq> K" using 4(1) [OF a] st1 4(4,5) by simp
    then have "dom (map_of (snd (if assigns then pass_assign env merged n d st2 else st2))) \<subseteq> K"
      using 4(4) by (auto simp: pass_assign_def split: prod.splits if_splits)
    from 4(2) [OF e _ this] 4(4) show ?thesis by simp
  qed
qed simp

lemma resolve_steps_keys:
  assumes "fold (resolve_step self env merged override ns) ps (w0, r0) = (w, r)"
    and "\<forall>nr\<in>set ps. fst nr \<in> K \<and> refs (tokens (snd nr)) \<subseteq> K" "dom (map_of r0) \<subseteq> K"
  shows "dom (map_of r) \<subseteq> K"
  using assms
proof (induction ps arbitrary: w0 r0)
  case (Cons nr ps)
  obtain v r1 where e: "expand_one self env merged override ns nr r0 = (v, r1)" by (metis surj_pair)
  then obtain out blocked where "evaluate (pass_lookup self env (fst nr) ns override) (pass_assign env merged)
      (tokens (snd nr)) (False, r0) = (out, (blocked, r1))"
    by (auto simp: expand_one_def expand_tokens split: prod.splits)
  from evaluate_keys [OF this] Cons.prems(2,3) have r1: "dom (map_of r1) \<subseteq> K" by simp
  obtain w1 r2 where s: "resolve_step self env merged override ns nr (w0, r0) = (w1, r2)" by (metis surj_pair)
  then have "r2 = r1 \<or> (\<exists>x. r2 = dict_set (fst nr) x r1)"
    using e by (auto simp: resolve_step_def split: option.splits)
  then have "dom (map_of r2) \<subseteq> K"
    using r1 Cons.prems(2) by (elim disjE exE) simp_all
  moreover have "fold (resolve_step self env merged override ns) ps (w1, r2) = (w, r)"
    using Cons.prems(1) s by simp
  ultimately show ?case using Cons.IH Cons.prems(2) by simp
qed simp

lemma resolve_loop_keys:
  assumes "resolve_loop self env merged override pending resolved = Inr vals"
    and "\<forall>nr\<in>set pending. fst nr \<in> K \<and> refs (tokens (snd nr)) \<subseteq> K" "dom (map_of resolved) \<subseteq> K"
  shows "dom (map_of vals) \<subseteq> K"
  using assms
proof (induction self env merged override pending resolved rule: resolve_loop.induct)
  case (1 self env merged override pending resolved)
  show ?case
  proof (cases "pending = []")
    case True
    with 1(2,4) show ?thesis by (subst (asm) resolve_loop.simps) simp
  next
    case False
    obtain ws r where p: "resolve_pass self env merged override pending resolved = (ws, r)" by (metis surj_pair)
    have len: "length ws \<noteq> length pending" and rest: "resolve_loop self env merged override ws r = Inr vals"
      using 1(2) False p by (subst (asm) resolve_loop.simps, simp split: if_splits)+
    have f: "fold (resolve_step self env merged override (map fst pending)) pending ([], resolved) = (ws, r)"
      using p by (simp add: resolve_pass_def)
    have "set ws \<subseteq> set pending" using resolve_steps [OF f] by auto
    then show ?thesis
      using 1(1) [OF False p [symmetric] len rest] 1(3,4) resolve_steps_keys [OF f 1(3,4)] by blast
  qed
qed

definition good_bindings :: "string set \<Rightarrow> bindings \<Rightarrow> bool" where
  "good_bindings K merged \<longleftrightarrow> (\<forall>(n, (raw, single))\<in>set merged. n \<in> K \<and> (single \<or> refs (tokens raw) \<subseteq> K))"

lemma resolve_values_keys:
  assumes "resolve_values self env merged override = Inr vals" "good_bindings K merged"
  shows "set (dict_keys vals) \<subseteq> K"
proof -
  have "\<forall>nr\<in>set (unquoted merged). fst nr \<in> K \<and> refs (tokens (snd nr)) \<subseteq> K"
    using assms(2) by (fastforce simp: good_bindings_def unquoted_def)
  moreover have "dom (map_of (quoted merged)) \<subseteq> K"
    unfolding dom_map_of using assms(2) by (fastforce simp: good_bindings_def quoted_def)
  ultimately show ?thesis
    using resolve_loop_keys [OF assms(1) [unfolded resolve_values_eq]] by (simp only: dom_map_of)
qed

text \<open>
  Files whose names the list of set names can hold, and that leave the list itself alone: of the files there
  are, no name one binds has a comma or spaces around it, and none binds or mentions the tracking variable.
\<close>

definition names_ok :: "string set" where
  "names_ok = {n. clean n \<and> n \<noteq> TRACKING_VAR}"

definition files_ok :: "files \<Rightarrow> bool" where
  "files_ok fs \<longleftrightarrow>
     (\<forall>path data. read_file fs path = Inr data \<longrightarrow> (\<forall>b\<in>set (parse_stream fs data).
        (\<forall>k. b_key b = Some k \<longrightarrow> k \<in> names_ok) \<and> (\<forall>v. b_value b = Some v \<longrightarrow> TRACKING_VAR \<notin> refs (tokens v))))"

lemma dict_set_good: "good_bindings K m \<Longrightarrow> n \<in> K \<Longrightarrow> single \<or> refs (tokens raw) \<subseteq> K \<Longrightarrow> good_bindings K (dict_set n (raw, single) m)"
proof -
  assume *: "good_bindings K m" "n \<in> K" "single \<or> refs (tokens raw) \<subseteq> K"
  have "set (dict_set n (raw, single) m) \<subseteq> insert (n, (raw, single)) (set m)" by (induction m) auto
  moreover have "\<forall>(n, (raw, single))\<in>insert (n, (raw, single)) (set m). n \<in> K \<and> (single \<or> refs (tokens raw) \<subseteq> K)"
    using * by (simp add: good_bindings_def)
  ultimately show ?thesis unfolding good_bindings_def by blast
qed

lemma files_ok_inv: "files_ok fs \<Longrightarrow> bindings_inv fs (good_bindings names_ok)"
  unfolding bindings_inv_def
proof (intro conjI allI impI)
  show "good_bindings names_ok []" by (simp add: good_bindings_def)
next
  fix data path b m m'
  assume fs: "files_ok fs" and *: "read_file fs path = Inr data \<and> b \<in> set (parse_stream fs data) \<and> good_bindings names_ok m \<and> read_binding path b m = Inr m'"
  show "good_bindings names_ok m'"
  proof (cases "b_key b")
    case None
    with * have "m' = m" by (simp add: read_binding_def split: if_splits)
    with * show ?thesis by simp
  next
    case (Some k)
    with * obtain v where v: "b_value b = Some v" "m' = dict_set k (v, single_quoted (b_string b)) m"
      by (auto simp: read_binding_def Let_def split: if_splits option.splits)
    have "k \<in> names_ok" "TRACKING_VAR \<notin> refs (tokens v)"
      using fs * Some v(1) by (auto simp: files_ok_def)
    moreover from this(2) have "refs (tokens v) \<subseteq> names_ok" using refs_clean by (auto simp: names_ok_def)
    ultimately show ?thesis using * v(2) by (simp add: dict_set_good)
  qed
qed

section \<open>Sequences of loads\<close>

datatype load_call =
    Load_files "string list"
  | Load_env string "string option" string "string list"

fun run_load :: "dotenv \<Rightarrow> files \<Rightarrow> load_call \<Rightarrow> env \<Rightarrow> env" where
  "run_load self fs (Load_files paths) env = snd (load_files self fs paths False env)"
| "run_load self fs (Load_env path key default_env test_envs) env = snd (load_env self fs path key default_env test_envs False env)"

fun call_ok :: "dotenv \<Rightarrow> load_call \<Rightarrow> bool" where
  "call_ok self (Load_files paths) \<longleftrightarrow> True"
| "call_ok self (Load_env path key default_env test_envs) \<longleftrightarrow> (case key of None \<Rightarrow> env_key self | Some k \<Rightarrow> k) \<in> names_ok"

lemma populate_resolved_real:
  assumes "resolve_values self env' merged False = Inr vals" "good_bindings names_ok merged" "n \<noteq> TRACKING_VAR"
  shows "real_variable self (populate self vals False env) False n = real_variable self env False n"
proof -
  have "set (dict_keys vals) \<subseteq> names_ok" by (rule resolve_values_keys [OF assms(1,2)])
  then have "\<forall>n\<in>set (dict_keys vals). clean n" "TRACKING_VAR \<notin> set (dict_keys vals)"
    unfolding names_ok_def by blast+
  then show ?thesis using assms(3) by (rule populate_real)
qed

lemma real_variable_path:
  "n \<noteq> PATH_VAR \<Longrightarrow> real_variable self (env(PATH_VAR := v)) override n = real_variable self env override n"
  by (simp add: real_variable_def is_set_def tracked_def TRACKING_VAR_def PATH_VAR_def)

lemma load_files_cases:
  "(\<exists>e. load_files self fs paths override env = (Inl e, env))
   \<or> (\<exists>merged vals. fold_r (read_into fs) paths [] = Inr merged \<and> resolve_values self env merged override = Inr vals
        \<and> load_files self fs paths override env = (Inr (), populate self vals override env))"
  by (auto simp: load_files_def split: sum.splits)

lemma load_env_cases:
  fixes path
  defines "env1 \<equiv> \<lambda>env. env(PATH_VAR \<mapsto> path)"
  shows "(\<exists>e. load_env self fs path key_given default_env test_envs override env = (Inl e, env))
   \<or> (\<exists>chosen considered merged vals.
        cascade_of self fs (env1 env) path (case key_given of None \<Rightarrow> env_key self | Some k \<Rightarrow> k) default_env test_envs override
          = Inr (chosen, considered, merged)
        \<and> resolve_values self (env1 env) merged override = Inr vals
        \<and> load_env self fs path key_given default_env test_envs override env = (Inr (), populate self vals override (env1 env)))"
proof -
  have restored: "(env(PATH_VAR \<mapsto> path))(PATH_VAR := env PATH_VAR) = env" by auto
  show ?thesis
    unfolding load_env_def Let_def env1_def
    by (cases "cascade_of self fs (env(PATH_VAR \<mapsto> path)) path (case key_given of None \<Rightarrow> env_key self | Some k \<Rightarrow> k)
          default_env test_envs override")
      (auto simp: restored split: sum.splits)
qed

lemma run_load_real:
  assumes "files_ok fs" "call_ok self call" "n \<noteq> TRACKING_VAR" "n \<noteq> PATH_VAR"
  shows "real_variable self (run_load self fs call env) False n = real_variable self env False n"
proof (cases call)
  case (Load_files paths)
  from load_files_cases [of self fs paths False env] show ?thesis
  proof (elim disjE exE conjE)
    fix merged vals
    assume read: "fold_r (read_into fs) paths [] = Inr merged" and res: "resolve_values self env merged False = Inr vals"
      and l: "load_files self fs paths False env = (Inr (), populate self vals False env)"
    have "good_bindings names_ok merged"
      using read by (rule fold_r_inv) (auto simp: good_bindings_def [of _ "[]"] intro: read_into_inv files_ok_inv [OF assms(1)])
    from populate_resolved_real [OF res this assms(3)] show ?thesis by (simp add: Load_files l)
  qed (simp add: Load_files)
next
  case (Load_env path key default_env test_envs)
  from load_env_cases [of self fs path key default_env test_envs False env] show ?thesis
  proof (elim disjE exE conjE)
    fix chosen considered merged vals
    assume cas: "cascade_of self fs (env(PATH_VAR \<mapsto> path)) path (case key of None \<Rightarrow> env_key self | Some k \<Rightarrow> k) default_env
        test_envs False = Inr (chosen, considered, merged)"
      and res: "resolve_values self (env(PATH_VAR \<mapsto> path)) merged False = Inr vals"
      and l: "load_env self fs path key default_env test_envs False env = (Inr (), populate self vals False (env(PATH_VAR \<mapsto> path)))"
    have "good_bindings names_ok merged"
      by (rule cascade_inv [OF cas files_ok_inv [OF assms(1)]]) (use assms(2) Load_env in \<open>simp add: dict_set_good\<close>)
    from populate_resolved_real [OF res this assms(3), of "env(PATH_VAR \<mapsto> path)"] assms(4) show ?thesis
      by (simp add: Load_env l real_variable_path)
  qed (simp add: Load_env)
qed

text \<open>
  C18: loads that do not override take no variable from the host. The files there are must bind only names
  the loader's own list of names can hold, without a comma or spaces around them, and neither bind that list
  nor mention it, the key that names the environment is such a name, and the files do not change from one
  load to the next. Then, whatever else the files hold and
  whether the loads succeed or fail, after any sequence of loads the variables that were real at the start
  are the ones that are real, with the values they had; a variable a file sets never becomes real, so that
  a later file may still replace it. (Of the variable itself that holds the list, and of the one that holds
  the path, nothing is said. A name with a comma in it does take a variable from the host, as the last
  example shows.)
\<close>

theorem loads_keep_real_variables:
  assumes "files_ok fs" "\<forall>call\<in>set calls. call_ok self call" "n \<noteq> TRACKING_VAR" "n \<noteq> PATH_VAR"
  shows "real_variable self (fold (run_load self fs) calls env) False n = real_variable self env False n"
  using assms(2)
proof (induction calls arbitrary: env)
  case (Cons call calls)
  then show ?case using run_load_real [OF assms(1) _ assms(3,4)] by simp
qed simp

text \<open>
  C39: the environment after a load is the solution of what the files say. Each name the files bind has its
  real value when it has one, its text as written when it was single-quoted, and otherwise the expansion of
  its text in the environment that results (where a value that refers to itself reads what was there
  before). No file uses the assigning form of a reference, and the value does not mention the loader's list.
\<close>

theorem load_env_values_expand:
  assumes "load_env self fs path key_given default_env test_envs override env = (Inr (), env')"
    and "cascade_of self fs (env(PATH_VAR \<mapsto> path)) path (case key_given of None \<Rightarrow> env_key self | Some k \<Rightarrow> k) default_env test_envs override
      = Inr (chosen, considered, merged)"
    and "no_assignments merged" "(n, (raw, single)) \<in> set merged" "n \<noteq> TRACKING_VAR" "TRACKING_VAR \<notin> refs (tokens raw)"
  shows "env' n =
    (case real_variable self (env(PATH_VAR \<mapsto> path)) override n of
       Some v \<Rightarrow> Some v
     | None \<Rightarrow> Some (if single then raw
          else expansion (\<lambda>other. if other = n then (env(PATH_VAR \<mapsto> path)) n else env' other) raw))"
proof -
  from load_env_cases [of self fs path key_given default_env test_envs override env] assms(1,2)
  obtain vals where "resolve_values self (env(PATH_VAR \<mapsto> path)) merged override = Inr vals"
    and "env' = populate self vals override (env(PATH_VAR \<mapsto> path))"
    by auto
  with resolved_expansion [OF _ cascade_ok [OF assms(2)] assms(3-6)] show ?thesis by blast
qed

text \<open>
  resolving values always ends: with a value for every name bound, or naming values each of which refers
  to another of them that no real variable stands in for, so that none can come first.
\<close>

theorem resolve_values_total:
  "case resolve_values self env merged override of
     Inl e \<Rightarrow> (\<exists>ns. e = VariableCircularReferenceError ns \<and> wait_on_each_other self env override (unquoted merged) ns)
   | Inr vals \<Rightarrow> set (dict_keys merged) \<subseteq> set (dict_keys vals)"
  using resolve_loop_result [where self = self and env = env and merged = merged and override = override
      and pending = "unquoted merged" and resolved = "quoted merged"] bound_names [of merged]
  unfolding resolve_values_eq dom_map_of by (auto split: sum.splits)

section \<open>Booting\<close>

lemma boot_values_keep:
  assumes "boot_values self fs path default_env test_envs False w = (Inr u, w')"
    and "real_variable self (environ w) False n = Some v" "n \<noteq> TRACKING_VAR" "n \<noteq> PATH_VAR"
  shows "environ w' n = Some v"
proof -
  have pop: "populate self vals False ((environ w)(PATH_VAR \<mapsto> path)) n = Some v" for vals
    using assms(2-4) by (simp add: populate_lookup real_variable_path)
  have run: "env' n = Some v" if "load_env self fs path None default_env test_envs False (environ w) = (Inr u', env')" for u' env'
    using load_env_cases [of self fs path None default_env test_envs False "environ w"] that pop by auto
  have dump: "environ (snd (dump_describes self dumped default_env test_envs p w)) = environ w" for dumped p
    by (simp add: dump_describes_def)
  have stay: "environ w1 = environ w" if "dump_describes self dumped default_env test_envs p w = (b, w1)" for dumped p b w1
    using dump [of dumped p] that by simp
  show ?thesis
    using assms(1) run pop
    by (auto simp: boot_values_def Let_def stay split: option.splits if_splits prod.splits bool.splits)
qed

text \<open>
  the host decides. When the environment key and the debug key are real variables, booting leaves the
  environment the host chose and settles debug from the host's value alone (as a flag, or, when it is set
  and empty, by whether the chosen environment is declared for debugging); every other real variable is
  untouched too. No file, overlay or dump can change any of it.
\<close>

theorem boot_env_host_decides:
  assumes "boot_env self fs path default_env test_envs False w = (Inr u, w')"
    and "real_variable self (environ w) False (env_key self) = Some e"
    and "real_variable self (environ w) False (debug_key self) = Some d"
    and "distinct [env_key self, debug_key self, TRACKING_VAR, PATH_VAR]"
  shows "environ w' (env_key self) = Some e
    \<and> environ w' (debug_key self) =
        Some (if (if d = [] then e \<in> set (debug_envs self) else flag d) then ''1'' else ''0'')
    \<and> (\<forall>n v. n \<notin> {TRACKING_VAR, PATH_VAR, debug_key self} \<and> real_variable self (environ w) False n = Some v
         \<longrightarrow> environ w' n = Some v)"
proof -
  obtain w1 where b: "boot_values self fs path default_env test_envs False w = (Inr (), w1)"
    and w': "w' = settle_debug self default_env test_envs w1"
    using assms(1) by (auto simp: boot_env_def elim: andthen_InrE)
  have keep: "environ w1 n = Some v" if "real_variable self (environ w) False n = Some v" "n \<noteq> TRACKING_VAR" "n \<noteq> PATH_VAR" for n v
    using boot_values_keep [OF b that] .
  have e: "environ w1 (env_key self) = Some e" and d: "environ w1 (debug_key self) = Some d"
    using keep assms(2-4) by auto
  have "e \<noteq> []"
    using assms(2) real_variable_Some [OF assms(2)] by (auto simp: real_variable_def is_set_def split: if_splits)
  moreover have same: "environ (undeclared_env_warning self c default_env test_envs w1) = environ w1" for c
    by (simp add: undeclared_env_warning_def)
  ultimately have "environ w' = (environ w1)(debug_key self \<mapsto>
      (if (if d = [] then e \<in> set (debug_envs self) else flag d) then ''1'' else ''0''))"
    using e d by (simp add: w' settle_debug_def Let_def or_empty_def)
  then show ?thesis using e assms(4) keep by auto
qed

section \<open>Examples\<close>

text \<open>A loader, and files given by a table of lines.\<close>

definition demo :: dotenv where
  "demo = \<lparr>env_key = ''APP_ENV'', debug_key = ''APP_DEBUG'', prod_envs = [''prod''],
     debug_envs = [''dev'', ''local'', ''test''], on_os_environ = False\<rparr>"

definition bind :: "string \<Rightarrow> string \<Rightarrow> binding" where
  "bind name text = \<lparr>b_key = Some name, b_value = Some text, b_error = False, b_line = 1, b_string = name @ ''='' @ text\<rparr>"

text \<open>The text of a file is its path, under which the table has its bindings.\<close>

definition table_files :: "(string \<times> binding list) list \<Rightarrow> files" where
  "table_files table =
     \<lparr>is_file = (\<lambda>p. p \<in> set (map fst table)),
      text_of = (\<lambda>p. if p \<in> set (map fst table) then Some (Some p) else None),
      json_of = (\<lambda>p. None),
      parse_stream = (\<lambda>data. case map_of table data of None \<Rightarrow> [] | Some bs \<Rightarrow> bs)\<rparr>"

definition shop_files :: files where
  "shop_files = table_files
     [(''env'', [bind ''APP_ENV'' ''prod'', bind ''URL'' ''http://${HOST:-localhost}/'', bind ''HOST'' ''shop'']),
      (''env.prod'', [bind ''HOST'' ''live''])]"

definition shop_host :: env where
  "shop_host = [''TOKEN'' \<mapsto> ''secret'']"

lemma shop_cascade:
  "cascade_of demo shop_files (shop_host(PATH_VAR \<mapsto> ''env'')) ''env'' ''APP_ENV'' ''dev'' [''test''] False =
     Inr (''prod'', [''env'', ''env.local'', ''env.prod'', ''env.prod.local''],
       [(''APP_ENV'', (''prod'', False)), (''URL'', (''http://${HOST:-localhost}/'', False)), (''HOST'', (''live'', False))])"
  by code_simp

lemma shop_load: "fst (load_env demo shop_files ''env'' None ''dev'' [''test''] False shop_host) = Inr ()"
  by code_simp

lemma shop_url: "snd (load_env demo shop_files ''env'' None ''dev'' [''test''] False shop_host) ''URL'' = Some ''http://live/''"
  by code_simp

definition shop_env :: env where
  "shop_env = snd (load_env demo shop_files ''env'' None ''dev'' [''test''] False shop_host)"

text \<open>The base file refers to a host that the file of the environment changes.\<close>

theorem load_env_values_expand_witness:
  "shop_env ''URL'' = Some (expansion (\<lambda>other. if other = ''URL'' then None else shop_env other) ''http://${HOST:-localhost}/'')"
proof -
  have l: "load_env demo shop_files ''env'' None ''dev'' [''test''] False shop_host = (Inr (), shop_env)"
    using shop_load unfolding shop_env_def by (metis prod.collapse)
  let ?merged = "[(''APP_ENV'', (''prod'', False)), (''URL'', (''http://${HOST:-localhost}/'', False)), (''HOST'', (''live'', False))]"
  have "(case (None :: string option) of None \<Rightarrow> env_key demo | Some k \<Rightarrow> k) = ''APP_ENV''"
    by (simp add: demo_def)
  then have c: "cascade_of demo shop_files (shop_host(PATH_VAR \<mapsto> ''env'')) ''env'' (case None of None \<Rightarrow> env_key demo | Some k \<Rightarrow> k)
      ''dev'' [''test''] False = Inr (''prod'', [''env'', ''env.local'', ''env.prod'', ''env.prod.local''], ?merged)"
    using shop_cascade by (simp only:)
  have "no_assignments ?merged" by code_simp
  moreover have "TRACKING_VAR \<notin> refs (tokens ''http://${HOST:-localhost}/'')" "''URL'' \<noteq> TRACKING_VAR"
    by code_simp+
  moreover have "real_variable demo (shop_host(PATH_VAR \<mapsto> ''env'')) False ''URL'' = None"
    "(shop_host(PATH_VAR \<mapsto> ''env'')) ''URL'' = None"
    by code_simp+
  ultimately show ?thesis
    using load_env_values_expand [OF l c, of "''URL''" "''http://${HOST:-localhost}/''" False]
    by (simp only: option.case if_False list.set_intros simp_thms insert_iff list.set)
qed

lemma shop_files_ok: "files_ok shop_files"
proof -
  have "(\<forall>k. b_key b = Some k \<longrightarrow> k \<in> names_ok) \<and> (\<forall>v. b_value b = Some v \<longrightarrow> TRACKING_VAR \<notin> refs (tokens v))"
    if "b \<in> set [bind ''APP_ENV'' ''prod'', bind ''URL'' ''http://${HOST:-localhost}/'', bind ''HOST'' ''shop'', bind ''HOST'' ''live'']" for b
  proof -
    have "clean ''APP_ENV'' \<and> clean ''URL'' \<and> clean ''HOST''" by code_simp
    moreover have "TRACKING_VAR \<notin> refs (tokens ''prod'') \<and> TRACKING_VAR \<notin> refs (tokens ''http://${HOST:-localhost}/'')
        \<and> TRACKING_VAR \<notin> refs (tokens ''shop'') \<and> TRACKING_VAR \<notin> refs (tokens ''live'')" by code_simp
    ultimately show ?thesis
      using that by (auto simp: bind_def names_ok_def TRACKING_VAR_def)
  qed
  moreover have "b \<in> set [bind ''APP_ENV'' ''prod'', bind ''URL'' ''http://${HOST:-localhost}/'', bind ''HOST'' ''shop'', bind ''HOST'' ''live'']"
    if "b \<in> set (parse_stream shop_files data)" for b data
    using that by (auto simp: shop_files_def table_files_def split: if_splits option.splits)
  ultimately show ?thesis unfolding files_ok_def by blast
qed

theorem loads_keep_real_variables_witness:
  "real_variable demo (fold (run_load demo shop_files) [Load_env ''env'' None ''dev'' [''test''], Load_files [''env.prod'']] shop_host)
     False ''TOKEN'' = Some ''secret''"
proof -
  have "clean ''APP_ENV''" by code_simp
  then have "call_ok demo (Load_env ''env'' None ''dev'' [''test''])" by (simp add: demo_def names_ok_def TRACKING_VAR_def)
  moreover have "''TOKEN'' \<noteq> TRACKING_VAR" "''TOKEN'' \<noteq> PATH_VAR" by (simp_all add: TRACKING_VAR_def PATH_VAR_def)
  moreover have "real_variable demo shop_host False ''TOKEN'' = Some ''secret''" by code_simp
  ultimately show ?thesis
    using loads_keep_real_variables [OF shop_files_ok, of "[Load_env ''env'' None ''dev'' [''test''], Load_files [''env.prod'']]" demo "''TOKEN''" shop_host]
    by simp
qed

text \<open>A host that says which environment it is and leaves the debug key empty.\<close>

definition staging_world :: dotenv_world where
  "staging_world = \<lparr>environ = [''APP_ENV'' \<mapsto> ''staging'', ''APP_DEBUG'' \<mapsto> ''''], warned_envs = [], warned_dumps = [], given_warnings = []\<rparr>"

lemma staging_boots: "fst (boot_env demo shop_files ''env'' ''dev'' [''test''] False staging_world) = Inr ()"
  by code_simp

theorem boot_env_host_decides_witness:
  "environ (snd (boot_env demo shop_files ''env'' ''dev'' [''test''] False staging_world)) ''APP_DEBUG'' = Some ''0''
   \<and> environ (snd (boot_env demo shop_files ''env'' ''dev'' [''test''] False staging_world)) ''APP_ENV'' = Some ''staging''"
proof -
  have b: "boot_env demo shop_files ''env'' ''dev'' [''test''] False staging_world =
      (Inr (), snd (boot_env demo shop_files ''env'' ''dev'' [''test''] False staging_world))"
    using staging_boots by (metis prod.collapse)
  have keys: "env_key demo = ''APP_ENV''" "debug_key demo = ''APP_DEBUG''" "debug_envs demo = [''dev'', ''local'', ''test'']"
    by (simp_all add: demo_def)
  have "real_variable demo (environ staging_world) False (env_key demo) = Some ''staging''"
    "real_variable demo (environ staging_world) False (debug_key demo) = Some ''''"
    "distinct [env_key demo, debug_key demo, TRACKING_VAR, PATH_VAR]"
    by code_simp+
  from boot_env_host_decides [OF b this] show ?thesis by (simp add: keys)
qed

section \<open>Where loading goes wrong\<close>

text \<open>
  The environment whose files are read is worked out from the values as written, one reference deep; the
  value the key gets is expanded to the end.
\<close>

definition chained_files :: files where
  "chained_files = table_files [(''env'', [bind ''APP_ENV'' ''$STAGE'', bind ''STAGE'' ''$NAME'', bind ''NAME'' ''prod''])]"

lemma chained_environment:
  "cascade demo chained_files Map.empty ''env'' None ''dev'' [''test''] False =
     Inr (''$NAME'', [''env'', ''env.local'', ''env.$NAME'', ''env.$NAME.local''])
   \<and> snd (load_env demo chained_files ''env'' None ''dev'' [''test''] False Map.empty) ''APP_ENV'' = Some ''prod''"
  by code_simp

text \<open>
  A local file that empties the key: the files of the environment named before are read all the same, but the
  key is empty afterwards, and debug is decided for the default environment.
\<close>

definition emptied_files :: files where
  "emptied_files = table_files [(''env'', [bind ''APP_ENV'' ''prod'']), (''env.local'', [bind ''APP_ENV'' ''''])]"

lemma emptied_environment:
  "cascade demo emptied_files Map.empty ''env'' None ''dev'' [''test''] False =
     Inr (''prod'', [''env'', ''env.local'', ''env.prod'', ''env.prod.local''])
   \<and> environ (snd (boot_env demo emptied_files ''env'' ''dev'' [''test''] False
        \<lparr>environ = Map.empty, warned_envs = [], warned_dumps = [], given_warnings = []\<rparr>)) ''APP_DEBUG'' = Some ''1''"
  by code_simp

text \<open>A name with a comma in it makes the names on its sides count as set by a file.\<close>

lemma comma_name_tracked:
  "real_variable demo [''B'' \<mapsto> ''host''] False ''B'' = Some ''host''
   \<and> real_variable demo (populate demo [(''A,B'', ''x'')] False [''B'' \<mapsto> ''host'']) False ''B'' = None"
  by code_simp

end
