(* ===== verification/Clock_Calendar.thy ===== *)
theory Clock_Calendar
  imports Prelude
begin

text \<open>
  The calendar of xtr-clock (\<open>calendar_shift.py\<close>) and the exact date arithmetic the scheduler adds to
  it (\<open>_time.py\<close>): the proleptic Gregorian calendar as Python's \<open>datetime\<close> counts it, a date as the
  fields a Python \<open>datetime\<close> has (its time of day in microseconds, its \<open>fold\<close> and its zone), and
  \<open>shift_calendar\<close>, which moves a date by months and days on its own wall clock.

  A timezone is a value of the model, two functions: the offset of a wall clock, and the wall clock
  shown at an instant. The first half translates the code; the second proves the ordinal of a date
  and the date of an ordinal inverse to each other, and the bounds of a calendar step that the
  scheduler's search relies on. Years are not bounded here; Python refuses those outside 1 to 9999.
\<close>

section \<open>Days, months and years\<close>

definition is_leap :: "int \<Rightarrow> bool" where
  "is_leap y \<longleftrightarrow> y mod 4 = 0 \<and> (y mod 100 \<noteq> 0 \<or> y mod 400 = 0)"

text \<open>The days of a month, as \<open>calendar.monthrange(year, month)[1]\<close>.\<close>

definition month_days :: "int \<Rightarrow> int \<Rightarrow> int" where
  "month_days y m = (if m = 2 then (if is_leap y then 29 else 28)
    else if m = 4 \<or> m = 6 \<or> m = 9 \<or> m = 11 then 30 else 31)"

definition days_before_year :: "int \<Rightarrow> int" where
  "days_before_year y = (let p = y - 1 in p * 365 + p div 4 - p div 100 + p div 400)"

definition days_before_month :: "int \<Rightarrow> int \<Rightarrow> int" where
  "days_before_month y m = sum_list (map (month_days y) [1..m - 1])"

text \<open>\<open>date(year, month, day).toordinal()\<close>.\<close>

definition to_ordinal :: "int \<Rightarrow> int \<Rightarrow> int \<Rightarrow> int" where
  "to_ordinal y m d = days_before_year y + days_before_month y m + d"

text \<open>\<open>date.fromordinal(n)\<close>: the year by the lengths of its cycles, then the month.\<close>

definition year_of :: "int \<Rightarrow> int" where
  "year_of n = (let a = n - 1; q = a div 146097; a = a mod 146097;
    c = a div 36524; a = a mod 36524; b = a div 1461; a = a mod 1461; e = a div 365
    in q * 400 + c * 100 + b * 4 + e + (if e = 4 \<or> c = 4 then 0 else 1))"

fun month_of :: "int \<Rightarrow> int \<Rightarrow> int list \<Rightarrow> int \<times> int" where
  "month_of y rest [] = (12, rest)"
| "month_of y rest (m # ms) = (if rest \<le> month_days y m \<or> ms = [] then (m, rest)
    else month_of y (rest - month_days y m) ms)"

definition from_ordinal :: "int \<Rightarrow> int \<times> int \<times> int" where
  "from_ordinal n = (let y = year_of n; (m, d) = month_of y (n - days_before_year y) [1..12] in (y, m, d))"

section \<open>Dates in a zone\<close>

abbreviation DAY :: int where
  "DAY \<equiv> 86400000000"

text \<open>
  A zone is what Python's documentation promises of a \<open>tzinfo\<close>: the offset in microseconds of a wall
  clock (counted in microseconds from the start of 1970) and \<open>fold\<close>, which stays within a day (Python
  refuses another), and the wall clock and \<open>fold\<close> it shows at an instant, which name that instant.
  \<open>zone_id\<close> stands for the identity of the object: subtracting two dates asks for it.
\<close>

definition zone_law :: "nat \<times> (int \<Rightarrow> bool \<Rightarrow> int) \<times> (int \<Rightarrow> int \<times> bool) \<Rightarrow> bool" where
  "zone_law z \<longleftrightarrow> (\<forall>w f. \<bar>fst (snd z) w f\<bar> < DAY)
    \<and> (\<forall>v. case snd (snd z) v of (w, f) \<Rightarrow> w - fst (snd z) w f = v)"

typedef zone = "{z :: nat \<times> (int \<Rightarrow> bool \<Rightarrow> int) \<times> (int \<Rightarrow> int \<times> bool). zone_law z}"
  by (rule exI [of _ "(0, \<lambda>w f. 0, \<lambda>v. (v, False))"]) (simp add: zone_law_def)

setup_lifting type_definition_zone

lift_definition zone_id :: "zone \<Rightarrow> nat" is fst .

lift_definition utc_offset :: "zone \<Rightarrow> int \<Rightarrow> bool \<Rightarrow> int" is "\<lambda>z. fst (snd z)" .

lift_definition shown_at :: "zone \<Rightarrow> int \<Rightarrow> int \<times> bool" is "\<lambda>z. snd (snd z)" .

text \<open>The zones of a constant offset: UTC, and a number of hours east of it.\<close>

lift_definition UTC :: zone is "(0, \<lambda>w f. 0, \<lambda>v. (v, False))"
  by (simp add: zone_law_def)

lift_definition hours_east :: "int \<Rightarrow> zone" is
  "\<lambda>h. if \<bar>h\<bar> < 24 then (nat (h + 24), \<lambda>w f. h * 3600000000, \<lambda>v. (v + h * 3600000000, False))
    else (0, \<lambda>w f. 0, \<lambda>v. (v, False))"
  by (auto simp: zone_law_def)

text \<open>
  A date has the fields of a Python \<open>datetime\<close>, its time of day in microseconds; a naive one has no zone.
\<close>

record naive =
  year :: int
  month :: int
  day :: int
  clock :: int
  dt_fold :: bool

record datetime = naive +
  tzinfo :: zone

definition EPOCH_DAY :: int where
  "EPOCH_DAY = 719163"

definition wall :: "'x naive_scheme \<Rightarrow> int" where
  "wall d = (to_ordinal (year d) (month d) (day d) - EPOCH_DAY) * DAY + clock d"

text \<open>\<open>microseconds(value)\<close>: the instant of a date, in microseconds from the epoch.\<close>

definition microseconds :: "datetime \<Rightarrow> int" where
  "microseconds d = wall d - utc_offset (tzinfo d) (wall d) (dt_fold d)"

definition of_wall :: "int \<Rightarrow> bool \<Rightarrow> zone \<Rightarrow> datetime" where
  "of_wall w f z = (let (y, m, d) = from_ordinal (w div DAY + EPOCH_DAY)
    in \<lparr>year = y, month = m, day = d, clock = w mod DAY, dt_fold = f, tzinfo = z\<rparr>)"

definition from_microseconds :: "int \<Rightarrow> zone \<Rightarrow> datetime" where
  "from_microseconds v z = (let (w, f) = shown_at z v in of_wall w f z)"

text \<open>\<open>shifted(value, delta)\<close>, \<open>delta\<close> in microseconds.\<close>

definition shifted :: "datetime \<Rightarrow> int \<Rightarrow> datetime" where
  "shifted d delta = from_microseconds (microseconds d + delta) (tzinfo d)"

definition EPOCH :: datetime where
  "EPOCH = \<lparr>year = 1970, month = 1, day = 1, clock = 0, dt_fold = False, tzinfo = UTC\<rparr>"

definition FAR_FUTURE :: datetime where
  "FAR_FUTURE = \<lparr>year = 3000, month = 1, day = 1, clock = 0, dt_fold = False, tzinfo = UTC\<rparr>"

section \<open>Moving a date\<close>

definition move_months :: "int \<Rightarrow> 'x naive_scheme \<Rightarrow> 'x naive_scheme" where
  "move_months months d = (let position = month d - 1 + months; y = year d + position div 12;
    m = position mod 12 + 1 in d\<lparr>year := y, month := m, day := min (day d) (month_days y m)\<rparr>)"

definition move_days :: "int \<Rightarrow> 'x naive_scheme \<Rightarrow> 'x naive_scheme" where
  "move_days days d = (let (y, m, dd) = from_ordinal (to_ordinal (year d) (month d) (day d) + days)
    in d\<lparr>year := y, month := m, day := dd\<rparr>)"

definition shift_calendar :: "datetime \<Rightarrow> int \<Rightarrow> int \<Rightarrow> datetime" where
  "shift_calendar d months days = (if months = 0 \<and> days = 0 then d
    else let d1 = (if months \<noteq> 0 then move_months months d else d);
      d2 = (if days \<noteq> 0 then move_days days d1 else d1)
    in from_microseconds (microseconds d2) (tzinfo d))"

text \<open>The same of a naive date, which names no instant: it is moved, and that is all.\<close>

definition shift_naive :: "naive \<Rightarrow> int \<Rightarrow> int \<Rightarrow> naive" where
  "shift_naive d months days = (if months = 0 \<and> days = 0 then d
    else let d1 = (if months \<noteq> 0 then move_months months d else d)
    in if days \<noteq> 0 then move_days days d1 else d1)"

section \<open>A date and its ordinal\<close>

text \<open>Where a year starts, by its place in the cycles of 400, 100 and 4 years.\<close>

lemma days_before_cycle:
  assumes "0 \<le> c" "c \<le> 3" "0 \<le> b" "b \<le> 24" "0 \<le> e" "e \<le> 3"
  shows "days_before_year (q * 400 + c * 100 + b * 4 + e + 1) = q * 146097 + c * 36524 + b * 1461 + e * 365"
proof -
  have "(q * 400 + c * 100 + b * 4 + e) div 4 = q * 100 + c * 25 + b"
    using assms by (intro int_div_pos_eq [of _ 4 _ e]) simp_all
  moreover have "(q * 400 + c * 100 + b * 4 + e) div 100 = q * 4 + c"
    using assms by (intro int_div_pos_eq [of _ 100 _ "b * 4 + e"]) simp_all
  moreover have "(q * 400 + c * 100 + b * 4 + e) div 400 = q"
    using assms by (intro int_div_pos_eq [of _ 400 _ "c * 100 + b * 4 + e"]) simp_all
  ultimately show ?thesis by (simp add: days_before_year_def Let_def)
qed

lemma leap_cycle:
  assumes "0 \<le> c" "c \<le> 3" "0 \<le> b" "b \<le> 24" "0 \<le> e" "e \<le> 3"
  shows "is_leap (q * 400 + c * 100 + b * 4 + e + 1) \<longleftrightarrow> e = 3 \<and> (b \<noteq> 24 \<or> c = 3)"
proof -
  let ?y = "q * 400 + c * 100 + b * 4 + e + 1"
  have full: "x mod k = 0 \<longleftrightarrow> x = k" if "0 < x" "x \<le> k" for x k :: int
    using that by (cases "x = k") (simp_all add: mod_pos_pos_trivial)
  have "?y = 4 * (q * 100 + c * 25 + b) + (e + 1)" by simp
  then have "?y mod 4 = (e + 1) mod 4" by (simp only: mod_mult_self4)
  moreover have "?y = 100 * (q * 4 + c) + (b * 4 + e + 1)" by simp
  then have "?y mod 100 = (b * 4 + e + 1) mod 100" by (simp only: mod_mult_self4)
  moreover have "?y = 400 * q + (c * 100 + b * 4 + e + 1)" by simp
  then have "?y mod 400 = (c * 100 + b * 4 + e + 1) mod 400" by (simp only: mod_mult_self4)
  moreover have "(e + 1) mod 4 = 0 \<longleftrightarrow> e = 3" using full [of "e + 1" 4] assms by simp
  moreover have "(b * 4 + e + 1) mod 100 = 0 \<longleftrightarrow> b * 4 + e + 1 = 100"
    using assms by (intro full) linarith+
  moreover have "(c * 100 + b * 4 + e + 1) mod 400 = 0 \<longleftrightarrow> c * 100 + b * 4 + e + 1 = 400"
    using assms by (intro full) linarith+
  moreover have "b * 4 + e + 1 = 100 \<longleftrightarrow> e = 3 \<and> b = 24" using assms by linarith
  moreover have "c * 100 + b * 4 + e + 1 = 400 \<longleftrightarrow> e = 3 \<and> b = 24 \<and> c = 3" using assms by linarith
  ultimately show ?thesis unfolding is_leap_def by (simp only:) blast
qed

definition year_days :: "int \<Rightarrow> int" where
  "year_days y = (if is_leap y then 366 else 365)"

lemma days_before_next: "days_before_year (y + 1) = days_before_year y + year_days y"
proof -
  have step: "y div k = (y - 1) div k + (if y mod k = 0 then 1 else 0)" if "1 < k" for k
  proof (cases "y mod k = 0")
    case True
    then have "y - 1 = k * (y div k - 1) + (k - 1)" by (simp add: algebra_simps minus_mod_eq_mult_div [symmetric])
    from int_div_pos_eq [OF this] that True show ?thesis by simp
  next
    case False
    have "0 \<le> y mod k" "y mod k < k" using that by simp_all
    with False have "0 \<le> y mod k - 1" "y mod k - 1 < k" by linarith+
    moreover have "y - 1 = k * (y div k) + (y mod k - 1)" using mult_div_mod_eq [of k y] by simp
    ultimately show ?thesis using False int_div_pos_eq [of "y - 1" k "y div k" "y mod k - 1"] by simp
  qed
  obtain A B C where b: "(y mod 4 = 0) = A" "(y mod 100 = 0) = B" "(y mod 400 = 0) = C" by blast
  obtain u4 u100 u400 where u: "(y - 1) div 4 = u4" "(y - 1) div 100 = u100" "(y - 1) div 400 = u400"
    by blast
  have y: "y + 1 - 1 = y" by simp
  have v: "y div 4 = u4 + (if A then 1 else 0)" "y div 100 = u100 + (if B then 1 else 0)"
    "y div 400 = u400 + (if C then 1 else 0)"
    using step [of 4] step [of 100] step [of 400] unfolding u b by (simp_all only: rel_simps)
  have "(100::int) dvd 400" "(4::int) dvd 100" by simp_all
  then have "C \<Longrightarrow> B" "B \<Longrightarrow> A" unfolding b [symmetric] mod_eq_0_iff_dvd by (blast intro: dvd_trans)+
  then show ?thesis unfolding days_before_year_def year_days_def is_leap_def Let_def y u v b
    by (cases A; cases B; cases C) simp_all
qed

text \<open>The remainders \<open>year_of\<close> divides, one after the other.\<close>

lemma year_of_parts:
  assumes "n - 1 = q * 146097 + a1" "0 \<le> a1" "a1 < 146097" "a1 = c * 36524 + a2" "0 \<le> a2" "a2 < 36524"
    "a2 = b * 1461 + a3" "0 \<le> a3" "a3 < 1461" "a3 = e * 365 + a4" "0 \<le> a4" "a4 < 365"
  shows "year_of n = q * 400 + c * 100 + b * 4 + e + (if e = 4 \<or> c = 4 then 0 else 1)"
proof -
  have d: "x div k = v" "x mod k = t" if "x = v * k + t" "0 \<le> t" "t < k" for x k v t :: int
    using that int_div_pos_eq [of x k v t] int_mod_pos_eq [of x k v t] by (simp_all add: mult.commute)
  show ?thesis unfolding year_of_def Let_def
    unfolding d [OF assms(1-3)] d [OF assms(4-6)] d [OF assms(7-9)] d [OF assms(10-12)] ..
qed

lemma year_of_holds: "days_before_year (year_of n) < n \<and> n \<le> days_before_year (year_of n) + year_days (year_of n)"
proof -
  obtain q a1 where a1: "n - 1 = q * 146097 + a1" "0 \<le> a1" "a1 < 146097"
    by (rule that [of "(n - 1) div 146097" "(n - 1) mod 146097"]) simp_all
  obtain c a2 where a2: "a1 = c * 36524 + a2" "0 \<le> a2" "a2 < 36524"
    by (rule that [of "a1 div 36524" "a1 mod 36524"]) simp_all
  obtain b a3 where a3: "a2 = b * 1461 + a3" "0 \<le> a3" "a3 < 1461"
    by (rule that [of "a2 div 1461" "a2 mod 1461"]) simp_all
  obtain e a4 where a4: "a3 = e * 365 + a4" "0 \<le> a4" "a4 < 365"
    by (rule that [of "a3 div 365" "a3 mod 365"]) simp_all
  have y: "year_of n = q * 400 + c * 100 + b * 4 + e + (if e = 4 \<or> c = 4 then 0 else 1)"
    by (rule year_of_parts [OF a1 a2 a3 a4])
  have n: "n = q * 146097 + c * 36524 + b * 1461 + e * 365 + a4 + 1" using a1 a2 a3 a4 by linarith
  have e: "0 \<le> e" "e \<le> 4" "e = 4 \<longrightarrow> a4 = 0" using a3 a4 by linarith+
  have b: "0 \<le> b" "b \<le> 24" "b = 24 \<longrightarrow> e < 4" using a2 a3 a4 by linarith+
  have c: "0 \<le> c" "c \<le> 4" using a1 a2 by linarith+
  consider "c = 4" "b = 0" "e = 0" "a4 = 0" | "c \<le> 3" "e = 4" | "c \<le> 3" "e \<le> 3"
  proof -
    have "c = 4 \<Longrightarrow> a2 = 0" using a1 a2 by linarith
    moreover have "a2 = 0 \<Longrightarrow> b = 0 \<and> a3 = 0" using a3 b by linarith
    moreover have "a3 = 0 \<Longrightarrow> e = 0 \<and> a4 = 0" using a4 e by linarith
    moreover have "c \<noteq> 4 \<Longrightarrow> c \<le> 3" "e \<noteq> 4 \<Longrightarrow> e \<le> 3" using c e by linarith+
    ultimately show ?thesis using that by blast
  qed
  then show ?thesis
  proof cases
    case 1
    then have "year_of n = q * 400 + 3 * 100 + 24 * 4 + 3 + 1" "n = q * 146097 + 146097" using y n by simp_all
    then show ?thesis using days_before_cycle [of 3 24 3 q] leap_cycle [of 3 24 3 q] by (simp add: year_days_def)
  next
    case 2
    then have y: "year_of n = q * 400 + c * 100 + b * 4 + 3 + 1" using y by simp
    have "is_leap (q * 400 + c * 100 + b * 4 + 3 + 1)" using leap_cycle [of c b 3 q] b c 2 by simp
    then show ?thesis unfolding y year_days_def using 2 n b c e days_before_cycle [of c b 3 q] by simp
  next
    case 3
    then have y: "year_of n = q * 400 + c * 100 + b * 4 + e + 1" using y by simp
    show ?thesis unfolding y year_days_def using 3 n b c e a4 days_before_cycle [of c b e q] by simp
  qed
qed

lemma months_upto: "[1..12] = [1, 2, 3, 4, 5, 6, 7, 8, 9, 10, 11, 12::int]"
  by code_simp

lemma month_days_bounds: "28 \<le> month_days y m" "month_days y m \<le> 31"
  by (auto simp: month_days_def)

lemma days_before_month_next:
  "1 \<le> m \<Longrightarrow> days_before_month y (m + 1) = days_before_month y m + month_days y m"
  by (simp add: days_before_month_def upto_rec2 [of 1 m])

lemma days_before_month_13: "days_before_month y 13 = year_days y"
  by (simp add: days_before_month_def months_upto month_days_def year_days_def)

text \<open>The search over the months keeps what is left of the year.\<close>

lemma month_of_search:
  assumes "month_of y rest [k..12] = (m, d)" "1 \<le> k" "k \<le> 12" "0 < rest" "days_before_month y k + rest \<le> year_days y"
  shows "k \<le> m \<and> m \<le> 12 \<and> 0 < d \<and> d \<le> month_days y m \<and> days_before_month y m + d = days_before_month y k + rest"
  using assms
proof (induction "nat (12 - k)" arbitrary: k rest)
  case 0
  then have "k = 12" by simp
  with 0 show ?case using days_before_month_next [of 12 y] days_before_month_13 [of y] by auto
next
  case (Suc n)
  then have k: "k < 12" by simp
  then have up: "[k..12] = k # [k + 1..12]" "[k + 1..12] \<noteq> []" by (simp_all add: upto_rec1)
  show ?case
  proof (cases "rest \<le> month_days y k")
    case True
    with Suc.prems up k show ?thesis by simp
  next
    case False
    then have "month_of y (rest - month_days y k) [k + 1..12] = (m, d)" using Suc.prems(1) up by simp
    moreover have "n = nat (12 - (k + 1))" using Suc.hyps(2) k by simp
    ultimately have "k + 1 \<le> m \<and> m \<le> 12 \<and> 0 < d \<and> d \<le> month_days y m
      \<and> days_before_month y m + d = days_before_month y (k + 1) + (rest - month_days y k)"
      using Suc.prems k False days_before_month_next [of k y] by (intro Suc.hyps(1)) simp_all
    then show ?thesis using Suc.prems(2) days_before_month_next [of k y] by simp
  qed
qed

definition date_ok :: "int \<Rightarrow> int \<Rightarrow> int \<Rightarrow> bool" where
  "date_ok y m d \<longleftrightarrow> 1 \<le> m \<and> m \<le> 12 \<and> 1 \<le> d \<and> d \<le> month_days y m"

lemma from_ordinal_ok:
  assumes "from_ordinal n = (y, m, d)"
  shows "date_ok y m d \<and> to_ordinal y m d = n"
proof -
  have y: "y = year_of n" and s: "month_of y (n - days_before_year y) [1..12] = (m, d)"
    using assms by (auto simp: from_ordinal_def Let_def split: prod.splits)
  have "days_before_month y 1 = 0" by (simp add: days_before_month_def)
  with month_of_search [OF s] year_of_holds [of n] show ?thesis
    by (auto simp: date_ok_def to_ordinal_def y)
qed

text \<open>Two dates compare as their ordinals, by year, then month, then day.\<close>

lemma days_before_year_mono: "y < y' \<Longrightarrow> days_before_year y + year_days y \<le> days_before_year y'"
proof (induction "nat (y' - y)" arbitrary: y')
  case 0
  then show ?case by simp
next
  case (Suc n)
  show ?case
  proof (cases "y' = y + 1")
    case True
    then show ?thesis using days_before_next by simp
  next
    case False
    then have "days_before_year y + year_days y \<le> days_before_year (y' - 1)" using Suc by force
    moreover have "0 \<le> year_days (y' - 1)" by (simp add: year_days_def)
    ultimately show ?thesis using days_before_next [of "y' - 1"] by simp
  qed
qed

lemma days_before_month_mono:
  "1 \<le> m \<Longrightarrow> m < m' \<Longrightarrow> days_before_month y m + month_days y m \<le> days_before_month y m'"
proof (induction "nat (m' - m)" arbitrary: m')
  case 0
  then show ?case by simp
next
  case (Suc n)
  show ?case
  proof (cases "m' = m + 1")
    case True
    then show ?thesis using Suc.prems days_before_month_next by simp
  next
    case False
    then have "days_before_month y m + month_days y m \<le> days_before_month y (m' - 1)" using Suc by force
    moreover have "0 \<le> month_days y (m' - 1)" using month_days_bounds(1) [of y "m' - 1"] by simp
    ultimately show ?thesis using Suc.prems days_before_month_next [of "m' - 1" y] by simp
  qed
qed

lemma day_in_year: "date_ok y m d \<Longrightarrow> 0 < days_before_month y m + d \<and> days_before_month y m + d \<le> year_days y"
proof -
  assume ok: "date_ok y m d"
  have "0 \<le> days_before_month y m"
    unfolding days_before_month_def by (intro sum_list_nonneg) (auto simp: month_days_def)
  moreover have "days_before_month y m + month_days y m \<le> year_days y"
    using ok days_before_month_mono [of m 13 y] days_before_month_13 [of y] by (auto simp: date_ok_def)
  ultimately show ?thesis using ok by (auto simp: date_ok_def)
qed

lemma to_ordinal_less:
  assumes "date_ok y m d" "date_ok y' m' d'" "y < y' \<or> y = y' \<and> (m < m' \<or> m = m' \<and> d < d')"
  shows "to_ordinal y m d < to_ordinal y' m' d'"
proof -
  consider "y < y'" | "y = y'" "m < m'" | "y = y'" "m = m'" "d < d'" using assms(3) by auto
  then show ?thesis
  proof cases
    case 1
    then show ?thesis using days_before_year_mono [OF 1] day_in_year [OF assms(1)] day_in_year [OF assms(2)]
      by (simp add: to_ordinal_def)
  next
    case 2
    then show ?thesis using days_before_month_mono [of m m' y] assms(1,2) by (auto simp: to_ordinal_def date_ok_def)
  next
    case 3
    then show ?thesis by (simp add: to_ordinal_def)
  qed
qed

lemma from_to_ordinal:
  assumes "date_ok y m d"
  shows "from_ordinal (to_ordinal y m d) = (y, m, d)"
proof -
  obtain y' m' d' where f: "from_ordinal (to_ordinal y m d) = (y', m', d')" by (metis surj_pair)
  from from_ordinal_ok [OF f] have ok: "date_ok y' m' d'" and eq: "to_ordinal y' m' d' = to_ordinal y m d" by auto
  have "\<not> (y < y' \<or> y = y' \<and> (m < m' \<or> m = m' \<and> d < d'))"
    using to_ordinal_less [OF assms ok] eq by auto
  moreover have "\<not> (y' < y \<or> y' = y \<and> (m' < m \<or> m' = m \<and> d' < d))"
    using to_ordinal_less [OF ok assms] eq by auto
  ultimately show ?thesis using f by auto
qed

section \<open>Instants and wall clocks\<close>

definition datetime_ok :: "datetime \<Rightarrow> bool" where
  "datetime_ok d \<longleftrightarrow> date_ok (year d) (month d) (day d) \<and> 0 \<le> clock d \<and> clock d < DAY"

lemma offset_bounds: "\<bar>utc_offset z w f\<bar> < DAY"
  by transfer (simp add: zone_law_def)

lemma shown_instant: "shown_at z v = (w, f) \<Longrightarrow> w - utc_offset z w f = v"
  by transfer (auto simp: zone_law_def split: prod.splits dest: spec)

lemma of_wall_ok: "datetime_ok (of_wall w f z)"
  using from_ordinal_ok by (auto simp: datetime_ok_def of_wall_def split: prod.splits)

lemma wall_of_wall: "wall (of_wall w f z) = w"
proof -
  obtain y m d where f: "from_ordinal (w div DAY + EPOCH_DAY) = (y, m, d)" by (metis surj_pair)
  from from_ordinal_ok [OF this] have "to_ordinal y m d = w div DAY + EPOCH_DAY" by simp
  then show ?thesis by (simp add: of_wall_def wall_def f)
qed

lemma of_wall_fields [simp]: "dt_fold (of_wall w f z) = f" "tzinfo (of_wall w f z) = z"
  by (simp_all add: of_wall_def split: prod.splits)

lemma of_wall_wall: "datetime_ok d \<Longrightarrow> of_wall (wall d) (dt_fold d) (tzinfo d) = d"
proof -
  assume ok: "datetime_ok d"
  let ?n = "to_ordinal (year d) (month d) (day d)"
  have "wall d div DAY = ?n - EPOCH_DAY" "wall d mod DAY = clock d"
    using ok int_div_pos_eq [of "wall d" DAY "?n - EPOCH_DAY" "clock d"] int_mod_pos_eq [of "wall d" DAY "?n - EPOCH_DAY" "clock d"]
    by (simp_all add: wall_def datetime_ok_def algebra_simps)
  with ok show ?thesis by (simp add: of_wall_def from_to_ordinal datetime_ok_def)
qed

lemma microseconds_from [simp]: "microseconds (from_microseconds v z) = v"
  by (auto simp: from_microseconds_def microseconds_def wall_of_wall shown_instant split: prod.splits)

lemma tzinfo_from [simp]: "tzinfo (from_microseconds v z) = z"
  by (simp add: from_microseconds_def split: prod.splits)

lemma from_microseconds_ok: "datetime_ok (from_microseconds v z)"
  by (simp add: from_microseconds_def of_wall_ok split: prod.splits)

lemma microseconds_shifted [simp]: "microseconds (shifted d delta) = microseconds d + delta"
  by (simp add: shifted_def)

lemma wall_near: "\<bar>microseconds d - wall d\<bar> < DAY"
  using offset_bounds [of "tzinfo d" "wall d" "dt_fold d"] by (simp add: microseconds_def)

section \<open>Calendar steps\<close>

text \<open>Months counted from the year 0.\<close>

definition month_index :: "datetime \<Rightarrow> int" where
  "month_index d = 12 * year d + month d - 1"

definition first_of :: "int \<Rightarrow> int" where
  "first_of p = to_ordinal (p div 12) (p mod 12 + 1) 1"

lemma next_month:
  "p mod 12 = 11 \<Longrightarrow> (p + 1) mod 12 = 0 \<and> (p + 1) div 12 = p div 12 + 1"
  "p mod 12 \<noteq> 11 \<Longrightarrow> (p + 1) mod 12 = p mod 12 + 1 \<and> (p + 1) div 12 = p div 12" for p :: int
proof -
  obtain a r where p: "p = 12 * a + r" "0 \<le> r" "r < 12"
    by (rule that [of "p div 12" "p mod 12"]) simp_all
  then have d: "p div 12 = a" "p mod 12 = r" using int_div_pos_eq int_mod_pos_eq by blast+
  show "(p + 1) mod 12 = 0 \<and> (p + 1) div 12 = p div 12 + 1" if "p mod 12 = 11"
  proof -
    have "p + 1 = 12 * (a + 1) + 0" using p that d by simp
    from int_div_pos_eq [OF this] int_mod_pos_eq [OF this] show ?thesis by (simp add: d)
  qed
  show "(p + 1) mod 12 = p mod 12 + 1 \<and> (p + 1) div 12 = p div 12" if "p mod 12 \<noteq> 11"
  proof -
    have q: "p + 1 = 12 * a + (r + 1)" using p by simp
    have "r + 1 < 12" "0 \<le> r + 1" using that p d by simp_all
    from int_div_pos_eq [OF q this(2,1)] int_mod_pos_eq [OF q this(2,1)] show ?thesis by (simp add: d)
  qed
qed

lemma first_of_next: "first_of (p + 1) = first_of p + month_days (p div 12) (p mod 12 + 1)"
proof (cases "p mod 12 = 11")
  case True
  moreover have "days_before_month (p div 12) 12 + 31 = year_days (p div 12)"
    using days_before_month_13 [of "p div 12"] days_before_month_next [of 12 "p div 12"] by (simp add: month_days_def)
  moreover have "days_before_month (p div 12 + 1) 1 = 0" by (simp add: days_before_month_def)
  ultimately show ?thesis using next_month(1) [OF True] days_before_next [of "p div 12"]
    by (simp add: first_of_def to_ordinal_def month_days_def)
next
  case False
  have "1 \<le> p mod 12 + 1" by simp
  from days_before_month_next [OF this, of "p div 12"] next_month(2) [OF False] show ?thesis
    by (simp add: first_of_def to_ordinal_def)
qed

lemma first_of_steps: "first_of p + 28 * int k \<le> first_of (p + int k)"
proof (induction k)
  case (Suc k)
  then show ?case
    using first_of_next [of "p + int k"] month_days_bounds(1) [of "(p + int k) div 12" "(p + int k) mod 12 + 1"]
    by (simp add: algebra_simps)
qed simp

lemma first_of_mono: "p \<le> p' \<Longrightarrow> first_of p + 28 * (p' - p) \<le> first_of p'"
  using first_of_steps [of p "nat (p' - p)"] by simp

lemma month_index_parts:
  "1 \<le> m \<Longrightarrow> m \<le> 12 \<Longrightarrow> (12 * y + m - 1) div 12 = y \<and> (12 * y + m - 1) mod 12 + 1 = m" for y m :: int
  using int_div_pos_eq [of "12 * y + m - 1" 12 y "m - 1"] int_mod_pos_eq [of "12 * y + m - 1" 12 y "m - 1"] by simp

lemma ordinal_in_month:
  assumes "date_ok (year d) (month d) (day d)"
  shows "first_of (month_index d) \<le> to_ordinal (year d) (month d) (day d)"
    "to_ordinal (year d) (month d) (day d) < first_of (month_index d + 1)"
proof -
  have parts: "month_index d div 12 = year d" "month_index d mod 12 + 1 = month d"
    using month_index_parts [of "month d" "year d"] assms by (simp_all add: month_index_def date_ok_def)
  then have "first_of (month_index d) = to_ordinal (year d) (month d) 1"
    by (simp add: first_of_def)
  then show "first_of (month_index d) \<le> to_ordinal (year d) (month d) (day d)"
    "to_ordinal (year d) (month d) (day d) < first_of (month_index d + 1)"
    using assms first_of_next [of "month_index d"] by (simp_all add: parts to_ordinal_def date_ok_def)
qed

lemma move_days_facts:
  "datetime_ok (move_days k d) \<longleftrightarrow> 0 \<le> clock d \<and> clock d < DAY"
  "wall (move_days k d) = wall d + k * DAY" "tzinfo (move_days k d) = tzinfo d"
  "dt_fold (move_days k d) = dt_fold d" "clock (move_days k d) = clock d"
proof -
  obtain y m dd where f: "from_ordinal (to_ordinal (year d) (month d) (day d) + k) = (y, m, dd)" by (metis surj_pair)
  have m: "move_days k d = d\<lparr>year := y, month := m, day := dd\<rparr>" by (simp add: move_days_def f)
  from from_ordinal_ok [OF f] show "datetime_ok (move_days k d) \<longleftrightarrow> 0 \<le> clock d \<and> clock d < DAY"
    "wall (move_days k d) = wall d + k * DAY" "tzinfo (move_days k d) = tzinfo d"
    "dt_fold (move_days k d) = dt_fold d" "clock (move_days k d) = clock d"
    unfolding m by (simp_all add: datetime_ok_def wall_def algebra_simps)
qed

lemma move_months_facts:
  assumes "datetime_ok d"
  shows "datetime_ok (move_months k d)" "month_index (move_months k d) = month_index d + k"
    "tzinfo (move_months k d) = tzinfo d" "dt_fold (move_months k d) = dt_fold d" "clock (move_months k d) = clock d"
    "day (move_months k d) = min (day d) (month_days (year (move_months k d)) (month (move_months k d)))"
proof -
  have "(month d - 1 + k) mod 12 + 1 \<le> 12" by (simp add: zless_imp_add1_zle)
  then show "datetime_ok (move_months k d)" using assms month_days_bounds(1) [THEN order_trans [rotated]]
    by (auto simp: datetime_ok_def move_months_def date_ok_def Let_def)
  have "12 * ((month d - 1 + k) div 12) + (month d - 1 + k) mod 12 = month d - 1 + k" by simp
  then show "month_index (move_months k d) = month_index d + k"
    by (simp add: month_index_def move_months_def Let_def)
qed (simp_all add: move_months_def Let_def)

lemma move_zero: "move_days 0 d = d" "move_months 0 d = d" if "datetime_ok d"
proof -
  show "move_days 0 d = d" using that by (simp add: move_days_def from_to_ordinal datetime_ok_def)
  have "(month d - 1) div 12 = 0" "(month d - 1) mod 12 = month d - 1"
    using that by (simp_all add: datetime_ok_def date_ok_def)
  then show "move_months 0 d = d" using that by (simp add: move_months_def datetime_ok_def date_ok_def Let_def)
qed

text \<open>Where a shift lands: the instant of the moved wall clock.\<close>

definition moved :: "datetime \<Rightarrow> int \<Rightarrow> int \<Rightarrow> datetime" where
  "moved d months days = move_days days (move_months months d)"

lemma shift_calendar_eq:
  assumes "datetime_ok d"
  shows "shift_calendar d months days = (if months = 0 \<and> days = 0 then d
    else from_microseconds (microseconds (moved d months days)) (tzinfo d))"
  using assms move_zero [OF assms] move_zero(1) [OF move_months_facts(1) [OF assms]]
  by (simp add: shift_calendar_def moved_def Let_def)

lemma moved_facts:
  assumes "datetime_ok d"
  shows "datetime_ok (moved d months days)" "wall (moved d months days) = wall (move_months months d) + days * DAY"
    "tzinfo (moved d months days) = tzinfo d" "dt_fold (moved d months days) = dt_fold d" "clock (moved d months days) = clock d"
proof -
  have "0 \<le> clock d \<and> clock d < DAY" using assms by (simp add: datetime_ok_def)
  then show "datetime_ok (moved d months days)" "wall (moved d months days) = wall (move_months months d) + days * DAY"
    "tzinfo (moved d months days) = tzinfo d" "dt_fold (moved d months days) = dt_fold d" "clock (moved d months days) = clock d"
    using move_months_facts(3-5) [OF assms] by (simp_all add: moved_def move_days_facts)
qed

lemma microseconds_shift:
  "datetime_ok d \<Longrightarrow> microseconds (shift_calendar d months days) = microseconds (moved d months days)"
  by (simp add: shift_calendar_eq) (simp add: moved_def move_zero)

lemma shift_calendar_ok:
  "datetime_ok d \<Longrightarrow> datetime_ok (shift_calendar d months days) \<and> tzinfo (shift_calendar d months days) = tzinfo d"
  by (simp add: shift_calendar_eq from_microseconds_ok)

text \<open>A wall clock that its zone does show: it is not one the clocks skip.\<close>

definition clock_exists :: "datetime \<Rightarrow> bool" where
  "clock_exists d \<longleftrightarrow> fst (shown_at (tzinfo d) (microseconds d)) = wall d"

lemma from_microseconds_exists: "clock_exists (from_microseconds v z)"
proof -
  have "wall (from_microseconds v z) = fst (shown_at z v)"
    by (simp add: from_microseconds_def wall_of_wall split: prod.split)
  then show ?thesis by (simp add: clock_exists_def)
qed

text \<open>A naive date is moved as it stands.\<close>

lemma shift_naive_moves:
  fixes d :: naive
  assumes "date_ok (year d) (month d) (day d)"
  shows "wall (shift_naive d months days) = wall (move_months months d) + days * DAY" "clock (shift_naive d months days) = clock d"
proof -
  have days: "wall (move_days k e) = wall e + k * DAY" "clock (move_days k e) = clock e" for k and e :: naive
  proof -
    obtain y m dd where f: "from_ordinal (to_ordinal (year e) (month e) (day e) + k) = (y, m, dd)" by (metis surj_pair)
    have m: "move_days k e = e\<lparr>year := y, month := m, day := dd\<rparr>" by (simp add: move_days_def f)
    from from_ordinal_ok [OF f] show "wall (move_days k e) = wall e + k * DAY" "clock (move_days k e) = clock e"
      unfolding m by (simp_all add: wall_def algebra_simps)
  qed
  have "(month d - 1) div 12 = 0" "(month d - 1) mod 12 = month d - 1"
    using assms by (simp_all add: date_ok_def)
  then have "move_months 0 d = d" using assms by (simp add: move_months_def date_ok_def Let_def)
  then show "wall (shift_naive d months days) = wall (move_months months d) + days * DAY" "clock (shift_naive d months days) = clock d"
    using days by (simp_all add: shift_naive_def move_months_def Let_def)
qed

text \<open>
  C40: What a date moved by months and days shows. Moving its wall clock takes it to the day that many days
  after the same day of the month so many months on, or after the last day of that month where it is
  shorter, no month skipped, at the time of day it had. Where the zone has that wall clock, it is the one
  the result shows. Where the zone skips it, the result is still the instant it names, on a wall clock that
  the zone does have, whatever was asked; only a shift by nothing hands the date back as it was.
\<close>

theorem shift_calendar_keeps_clock:
  assumes "datetime_ok d"
  shows "(clock_exists (moved d months days) \<longrightarrow>
        wall (shift_calendar d months days) = wall (moved d months days) \<and> clock (shift_calendar d months days) = clock d)
    \<and> microseconds (shift_calendar d months days) = microseconds (moved d months days)
    \<and> (if months = 0 \<and> days = 0 then shift_calendar d months days = d else clock_exists (shift_calendar d months days))
    \<and> wall (moved d months days) = wall (move_months months d) + days * DAY
    \<and> month_index (move_months months d) = month_index d + months
    \<and> day (move_months months d) = min (day d) (month_days (year (move_months months d)) (month (move_months months d)))"
proof -
  have w: "wall (shift_calendar d months days) = wall (moved d months days)" if "clock_exists (moved d months days)"
  proof (cases "months = 0 \<and> days = 0")
    case True
    then show ?thesis using assms by (simp add: shift_calendar_def moved_def move_zero)
  next
    case False
    then show ?thesis using assms that moved_facts(3) [OF assms]
      by (auto simp: shift_calendar_eq clock_exists_def from_microseconds_def wall_of_wall split: prod.splits)
  qed
  moreover have "clock t = wall t mod DAY" if "datetime_ok t" for t
    using that int_mod_pos_eq [of "wall t" DAY "to_ordinal (year t) (month t) (day t) - EPOCH_DAY" "clock t"]
    by (simp add: wall_def datetime_ok_def algebra_simps)
  then have "clock (shift_calendar d months days) = clock (moved d months days)" if "clock_exists (moved d months days)"
    using w [OF that] shift_calendar_ok [OF assms] moved_facts(1) [OF assms] by metis
  moreover have "if months = 0 \<and> days = 0 then shift_calendar d months days = d else clock_exists (shift_calendar d months days)"
    using assms by (auto simp: shift_calendar_eq from_microseconds_exists)
  ultimately show ?thesis
    using microseconds_shift [OF assms] moved_facts(2,5) [OF assms] move_months_facts(2,6) [OF assms] by simp
qed

definition last_of_january :: datetime where
  "last_of_january = \<lparr>year = 2026, month = 1, day = 31, clock = 32400000000, dt_fold = False, tzinfo = hours_east 2\<rparr>"

text \<open>A zone that skips the hour from 02:00 on 29 March 2026, and 02:30 on the day before.\<close>

lift_definition skips_an_hour :: zone is
  "(99, \<lambda>w f. if w < 1774753200000000 then 3600000000 else 7200000000,
    \<lambda>v. (if v < 1774746000000000 then v + 3600000000 else v + 7200000000, False))"
  by (simp add: zone_law_def)

definition before_the_gap :: datetime where
  "before_the_gap = \<lparr>year = 2026, month = 3, day = 28, clock = 9000000000, dt_fold = False, tzinfo = skips_an_hour\<rparr>"

theorem shift_calendar_keeps_clock_witness:
  "wall (shift_calendar last_of_january 1 0) = wall (last_of_january\<lparr>month := 2, day := 28\<rparr>)
    \<and> clock (shift_calendar last_of_january 1 0) = 32400000000
    \<and> clock_exists (shift_calendar before_the_gap 0 1) \<and> clock (shift_calendar before_the_gap 0 1) = 9000000000 + 3600000000"
proof -
  have ok: "datetime_ok last_of_january" "datetime_ok before_the_gap" by code_simp+
  have "clock_exists (moved last_of_january 1 0)" by code_simp
  with shift_calendar_keeps_clock [OF ok(1), of 1 0]
  have "wall (shift_calendar last_of_january 1 0) = wall (move_months 1 last_of_january)"
    "clock (shift_calendar last_of_january 1 0) = 32400000000" by (simp_all add: last_of_january_def)
  moreover have "wall (move_months 1 last_of_january) = wall (last_of_january\<lparr>month := 2, day := 28\<rparr>)" by code_simp
  moreover have "clock_exists (shift_calendar before_the_gap 0 1)" using shift_calendar_keeps_clock [OF ok(2), of 0 1] by simp
  moreover have "clock (shift_calendar before_the_gap 0 1) = 9000000000 + 3600000000" by code_simp
  ultimately show ?thesis by simp
qed

end
