(* ===== verification/Scheduler_Triggers.thy ===== *)
theory Scheduler_Triggers
  imports Clock_Calendar
begin

text \<open>
  The triggers of xtr-scheduler (\<open>trigger/\<close>): when a recurring message runs next.

  A trigger that counts its runs from the moment its schedule started learns that moment once, by
  \<open>continue_trigger\<close> or the first time it is asked; what it answers is \<open>run_after\<close>, which takes the moment it
  counts from where the trigger was given none. What a callback answers, what a cron expression
  matches and the delay drawn for a run (the seeded generator of Python's \<open>random\<close>) are parameters,
  values inside the trigger.
\<close>

section \<open>Triggers\<close>

datatype sched_error = SchedulerLogicError | SchedulerRuntimeError | RaisedByCode nat | SearchUnfinished

datatype calendar_step = CalendarStep (step_months: int) (step_days: int)

text \<open>
  \<open>PeriodicalTrigger\<close> has its start, its interval in microseconds, its calendar step and its end;
  \<open>JitterTrigger\<close> its longest delay in seconds and the delay of each run, in seconds.
\<close>

datatype trigger =
    PeriodicalTrigger "datetime option" int "calendar_step option" datetime
  | ExcludeTimeTrigger trigger datetime datetime
  | JitterTrigger trigger nat "int \<Rightarrow> nat"
  | CallbackTrigger "datetime \<Rightarrow> sched_error + datetime option"
  | CronExpressionTrigger "datetime \<Rightarrow> zone \<Rightarrow> sched_error + datetime option" "zone option"
  | SerializedTrigger

abbreviation SECOND :: int where
  "SECOND \<equiv> 1000000"

fun continue_trigger :: "trigger \<Rightarrow> datetime \<Rightarrow> trigger" where
  "continue_trigger (PeriodicalTrigger from interval step until) started_at =
    PeriodicalTrigger (case from of None \<Rightarrow> Some started_at | Some f \<Rightarrow> Some f) interval step until"
| "continue_trigger (ExcludeTimeTrigger inner from until) started_at = ExcludeTimeTrigger (continue_trigger inner started_at) from until"
| "continue_trigger (JitterTrigger inner longest draw) started_at = JitterTrigger (continue_trigger inner started_at) longest draw"
| "continue_trigger t started_at = t"

text \<open>The date the innermost trigger is first asked about, which it counts from when it has no start.\<close>

fun first_asked :: "trigger \<Rightarrow> datetime \<Rightarrow> datetime" where
  "first_asked (ExcludeTimeTrigger inner from until) run = first_asked inner run"
| "first_asked (JitterTrigger inner longest draw) run = first_asked inner (shifted run (- int longest * SECOND))"
| "first_asked t run = run"

section \<open>Runs on the calendar\<close>

text \<open>\<open>(a - b)\<close> of two dates: of their wall clocks when they share a zone, of their instants otherwise.\<close>

definition minus_dates :: "datetime \<Rightarrow> datetime \<Rightarrow> int" where
  "minus_dates a b = (if zone_id (tzinfo a) = zone_id (tzinfo b) then wall a - wall b
    else microseconds a - microseconds b)"

definition steps_before :: "datetime \<Rightarrow> calendar_step \<Rightarrow> datetime \<Rightarrow> int" where
  "steps_before start step run = (if step_months step \<noteq> 0
    then let elapsed = (year run - year start) * 12 + month run - month start in max 0 (elapsed div step_months step - 1)
    else max 0 (minus_dates run start div DAY div step_days step - 1))"

definition candidate :: "datetime \<Rightarrow> calendar_step \<Rightarrow> int \<Rightarrow> datetime" where
  "candidate start step count = shift_calendar start (step_months step * count) (step_days step * count)"

text \<open>
  The loop of \<open>_next_on_calendar\<close>: \<open>None\<close> when the fuel runs out, which \<open>search_limit\<close> steps never do.
\<close>

function search_calendar :: "int \<Rightarrow> datetime \<Rightarrow> calendar_step \<Rightarrow> int \<Rightarrow> int \<Rightarrow> int \<Rightarrow> datetime option option" where
  "search_calendar fuel start step until_at run_at count =
    (if fuel \<le> 0 then None
     else let found = candidate start step count; found_at = microseconds found
     in if until_at \<le> found_at then Some None
        else if run_at < found_at then Some (Some found)
        else search_calendar (fuel - 1) start step until_at run_at (count + 1))"
  by pat_completeness auto

termination by (relation "measure (\<lambda>(fuel, _). nat fuel)") auto

declare search_calendar.simps [simp del]

definition search_limit :: "datetime \<Rightarrow> int \<Rightarrow> int" where
  "search_limit start until_at = max 0 ((until_at - microseconds start) div DAY) + 40"

definition next_on_calendar :: "datetime \<Rightarrow> calendar_step \<Rightarrow> datetime \<Rightarrow> datetime \<Rightarrow> sched_error + datetime option" where
  "next_on_calendar start step until run =
    (case search_calendar (search_limit start (microseconds until)) start step (microseconds until) (microseconds run)
        (steps_before start step run) of
      None \<Rightarrow> Inl SearchUnfinished
    | Some found \<Rightarrow> Inr found)"

section \<open>Runs an exact time apart\<close>

definition next_exact :: "datetime \<Rightarrow> int \<Rightarrow> datetime \<Rightarrow> datetime \<Rightarrow> datetime option" where
  "next_exact from interval_us until run = (let until_at = microseconds until; run_at = microseconds run in
    if until_at \<le> run_at then None
    else let start = microseconds from; passed = (run_at - start) div interval_us;
        next_run = from_microseconds ((passed + 1) * interval_us + start) (tzinfo from)
      in if microseconds next_run < start then (if start < until_at then Some from else None)
         else if microseconds next_run < until_at then Some next_run else None)"

section \<open>Delayed runs\<close>

definition delayed_by :: "(int \<Rightarrow> nat) \<Rightarrow> datetime \<Rightarrow> datetime" where
  "delayed_by draw run = shifted run (int (draw (microseconds run)) * SECOND)"

text \<open>How far a candidate lies before the earliest landing: what the loop uses up.\<close>

definition jitter_rest :: "int \<Rightarrow> datetime option \<Rightarrow> datetime option \<Rightarrow> nat" where
  "jitter_rest run_at earliest c = (case c of None \<Rightarrow> 0
    | Some c \<Rightarrow> nat ((case earliest of None \<Rightarrow> run_at + 1 | Some e \<Rightarrow> microseconds e) - microseconds c) + 1)"

text \<open>
  The loop of \<open>JitterTrigger\<close>: the earliest landing after \<open>run_at\<close> of the candidates so far. It ends
  at a candidate past that landing; one that does not move forward is answered as it is.
\<close>

function jitter_search :: "(datetime \<Rightarrow> sched_error + datetime option) \<Rightarrow> (int \<Rightarrow> nat) \<Rightarrow> int
    \<Rightarrow> datetime option \<Rightarrow> datetime option \<Rightarrow> sched_error + datetime option" where
  "jitter_search ask draw run_at earliest None = Inr earliest"
| "jitter_search ask draw run_at earliest (Some c) =
    (if (case earliest of None \<Rightarrow> False | Some e \<Rightarrow> microseconds e \<le> microseconds c) then Inr earliest
     else let delayed = delayed_by draw c;
        best = (if run_at < microseconds delayed
            \<and> (case earliest of None \<Rightarrow> True | Some e \<Rightarrow> microseconds delayed < microseconds e)
          then Some delayed else earliest)
      in case ask c of
          Inl err \<Rightarrow> Inl err
        | Inr advanced \<Rightarrow>
            if (case advanced of None \<Rightarrow> False | Some n \<Rightarrow> microseconds n \<le> microseconds c)
            then Inr (Some (case best of None \<Rightarrow> delayed | Some e \<Rightarrow> e))
            else jitter_search ask draw run_at best advanced)"
  by pat_completeness auto

termination
proof (relation "measures [\<lambda>(ask, draw, run_at, earliest, c). if earliest = None then 1 else 0,
    \<lambda>(ask, draw, run_at, earliest, c). jitter_rest run_at earliest c]", goal_cases)
  case 1
  then show ?case by simp
next
  case (2 ask draw run_at earliest c delayed best x2)
  then show ?case
    by (cases earliest; cases x2) (auto simp: jitter_rest_def delayed_by_def Let_def split: if_splits)
qed

section \<open>The next run of a trigger\<close>

primrec run_after :: "trigger \<Rightarrow> datetime \<Rightarrow> datetime \<Rightarrow> sched_error + datetime option" where
  "run_after (PeriodicalTrigger from interval step until) anchor = (\<lambda>run.
    let start = (case from of None \<Rightarrow> anchor | Some f \<Rightarrow> f) in
    (case step of
      Some st \<Rightarrow> next_on_calendar start st until run
    | None \<Rightarrow> Inr (next_exact start interval until run)))"
| "run_after (ExcludeTimeTrigger inner from until) anchor = (\<lambda>run.
    case run_after inner anchor run of
      Inl err \<Rightarrow> Inl err
    | Inr None \<Rightarrow> Inr None
    | Inr (Some next_run) \<Rightarrow>
        if microseconds from \<le> microseconds next_run \<and> microseconds next_run \<le> microseconds until
        then run_after inner anchor until else Inr (Some next_run))"
| "run_after (JitterTrigger inner longest draw) anchor = (\<lambda>run.
    case run_after inner anchor (shifted run (- int longest * SECOND)) of
      Inl err \<Rightarrow> Inl err
    | Inr c \<Rightarrow> jitter_search (run_after inner anchor) draw (microseconds run) None c)"
| "run_after (CallbackTrigger callback) anchor = callback"
| "run_after (CronExpressionTrigger next_after timezone) anchor = (\<lambda>run.
    next_after run (case timezone of None \<Rightarrow> tzinfo run | Some z \<Rightarrow> z))"
| "run_after SerializedTrigger anchor = (\<lambda>run. Inl SchedulerLogicError)"

text \<open>Asking a trigger: what it is left as, and the answer.\<close>

definition get_next_run_date :: "trigger \<Rightarrow> datetime \<Rightarrow> trigger \<times> (sched_error + datetime option)" where
  "get_next_run_date t run = (continue_trigger t (first_asked t run), run_after t (first_asked t run) run)"

end
