(* ===== verification/Scheduler_Runs.thy ===== *)
theory Scheduler_Runs
  imports Scheduler_Triggers
begin

text \<open>
  What the triggers of xtr-scheduler promise, and that they keep it. A trigger stands for a set of
  instants, its runs; asked about any date it must answer the first of them strictly after that date.
  The sets are written down for every trigger (\<open>runs\<close>): the points of a grid, the dates of a calendar,
  the runs of another trigger without a window or each moved by its delay.
\<close>

definition answers :: "(datetime \<Rightarrow> sched_error + datetime option) \<Rightarrow> int set \<Rightarrow> bool" where
  "answers ask R \<longleftrightarrow> (\<forall>run. datetime_ok run \<longrightarrow> (\<exists>found. ask run = Inr found \<and> (case found of
      None \<Rightarrow> \<forall>x\<in>R. x \<le> microseconds run
    | Some d \<Rightarrow> datetime_ok d \<and> microseconds d \<in> R \<and> microseconds run < microseconds d
        \<and> (\<forall>x\<in>R. microseconds run < x \<longrightarrow> microseconds d \<le> x))))"

lemma answersE:
  assumes "answers ask R" "datetime_ok run"
  obtains "ask run = Inr None" "\<And>x. x \<in> R \<Longrightarrow> x \<le> microseconds run"
  | d where "ask run = Inr (Some d)" "datetime_ok d" "microseconds d \<in> R" "microseconds run < microseconds d"
      "\<And>x. x \<in> R \<Longrightarrow> microseconds run < x \<Longrightarrow> microseconds d \<le> x"
proof -
  obtain found where f: "ask run = Inr found" "case found of
      None \<Rightarrow> \<forall>x\<in>R. x \<le> microseconds run
    | Some d \<Rightarrow> datetime_ok d \<and> microseconds d \<in> R \<and> microseconds run < microseconds d
        \<and> (\<forall>x\<in>R. microseconds run < x \<longrightarrow> microseconds d \<le> x)"
    using assms unfolding answers_def by blast
  show ?thesis
  proof (cases found)
    case None
    with f show ?thesis by (auto intro: that(1))
  next
    case (Some d)
    with f show ?thesis by (auto intro: that(2))
  qed
qed

lemma answersI:
  assumes "\<And>run. datetime_ok run \<Longrightarrow> \<exists>found. ask run = Inr found
    \<and> (found = None \<longrightarrow> (\<forall>x\<in>R. x \<le> microseconds run))
    \<and> (\<forall>d. found = Some d \<longrightarrow> datetime_ok d \<and> microseconds d \<in> R \<and> microseconds run < microseconds d
        \<and> (\<forall>x\<in>R. microseconds run < x \<longrightarrow> microseconds d \<le> x))"
  shows "answers ask R"
  unfolding answers_def
proof (intro allI impI)
  fix run
  assume "datetime_ok run"
  from assms [OF this] obtain found where f: "ask run = Inr found"
    "found = None \<longrightarrow> (\<forall>x\<in>R. x \<le> microseconds run)"
    "\<forall>d. found = Some d \<longrightarrow> datetime_ok d \<and> microseconds d \<in> R \<and> microseconds run < microseconds d
        \<and> (\<forall>x\<in>R. microseconds run < x \<longrightarrow> microseconds d \<le> x)" by blast
  then show "\<exists>found. ask run = Inr found \<and> (case found of
      None \<Rightarrow> \<forall>x\<in>R. x \<le> microseconds run
    | Some d \<Rightarrow> datetime_ok d \<and> microseconds d \<in> R \<and> microseconds run < microseconds d
        \<and> (\<forall>x\<in>R. microseconds run < x \<longrightarrow> microseconds d \<le> x))"
    by (intro exI [of _ found]) (cases found; simp)
qed

section \<open>Exact intervals\<close>

lemma exact_answers:
  assumes "0 < interval" "datetime_ok start"
  shows "answers (\<lambda>run. Inr (next_exact start interval until run))
    {x. \<exists>k\<ge>0. x = microseconds start + k * interval \<and> x < microseconds until}" (is "answers _ ?R")
proof (rule answersI)
  fix run
  let ?r = "microseconds run" and ?s = "microseconds start" and ?u = "microseconds until"
  define p where "p = (?r - ?s) div interval"
  define n where "n = (p + 1) * interval + ?s"
  have "p * interval + (?r - ?s) mod interval = ?r - ?s" by (simp add: p_def)
  moreover have "0 \<le> (?r - ?s) mod interval" "(?r - ?s) mod interval < interval" using assms by simp_all
  ultimately have p: "p * interval + ?s \<le> ?r" "?r < n" by (simp_all add: n_def algebra_simps)
  have least: "n \<le> x" if "x = ?s + k * interval" "?r < x" for x k
  proof -
    have "p * interval < k * interval" using that p by simp
    then have "p + 1 \<le> k" using assms(1) by (simp add: mult_less_cancel_right)
    then have "(p + 1) * interval \<le> k * interval" using assms(1) by (intro mult_right_mono) simp_all
    then show ?thesis using that by (simp add: n_def)
  qed
  have found: "next_exact start interval until run = (if ?u \<le> ?r then None
      else if n < ?s then (if ?s < ?u then Some start else None)
      else if n < ?u then Some (from_microseconds n (tzinfo start)) else None)"
    by (simp add: next_exact_def Let_def p_def n_def)
  have later: "?s \<le> x \<and> x < ?u" if "x \<in> ?R" for x using that assms(1) by auto
  have grid: "n \<in> ?R" if "\<not> n < ?s" "n < ?u"
  proof -
    have "0 \<le> (p + 1) * interval" using that by (simp add: n_def)
    then have "0 \<le> p + 1" using assms(1) by (simp add: zero_le_mult_iff)
    with that show ?thesis by (auto simp: n_def)
  qed
  have start: "?s \<in> ?R" if "?s < ?u" using that by (auto intro: exI [of _ 0])
  have "\<exists>k\<ge>0. x = ?s + k * interval" if "x \<in> ?R" for x using that by blast
  then have least: "n \<le> x" if "x \<in> ?R" "?r < x" for x using that least by blast
  show "\<exists>found. Inr (next_exact start interval until run) = Inr found
    \<and> (found = None \<longrightarrow> (\<forall>x\<in>?R. x \<le> ?r))
    \<and> (\<forall>d. found = Some d \<longrightarrow> datetime_ok d \<and> microseconds d \<in> ?R \<and> ?r < microseconds d
        \<and> (\<forall>x\<in>?R. ?r < x \<longrightarrow> microseconds d \<le> x))"
  proof (intro exI [of _ "next_exact start interval until run"] conjI impI allI)
    show "Inr (next_exact start interval until run) = Inr (next_exact start interval until run)" ..
  next
    assume none: "next_exact start interval until run = None"
    show "\<forall>x\<in>?R. x \<le> ?r"
    proof
      fix x
      assume x: "x \<in> ?R"
      show "x \<le> ?r"
      proof (rule ccontr)
        assume "\<not> x \<le> ?r"
        then have "?r < x" by simp
        with none later [OF x] least [OF x this] p show False by (simp add: found split: if_splits)
      qed
    qed
  next
    fix d
    assume some: "next_exact start interval until run = Some d"
    consider "\<not> ?u \<le> ?r" "n < ?s" "?s < ?u" "d = start"
      | "\<not> ?u \<le> ?r" "\<not> n < ?s" "n < ?u" "d = from_microseconds n (tzinfo start)"
      using some by (auto simp: found split: if_splits)
    then have "datetime_ok d \<and> microseconds d \<in> ?R \<and> ?r < microseconds d \<and> (\<forall>x\<in>?R. ?r < x \<longrightarrow> microseconds d \<le> x)"
    proof (cases)
      case 1
      then have "?r < ?s" using p by simp
      with 1 later start assms(2) show ?thesis by blast
    next
      case 2
      with grid least p from_microseconds_ok show ?thesis by simp
    qed
    then show "datetime_ok d" "microseconds d \<in> ?R" "?r < microseconds d" "\<forall>x\<in>?R. ?r < x \<longrightarrow> microseconds d \<le> x"
      by blast+
  qed
qed

section \<open>Calendar steps\<close>

text \<open>A step of \<open>_read\<close> moves by months or by days. A zone is steady when no two of its offsets lie more than a day apart.\<close>

definition step_ok :: "calendar_step \<Rightarrow> bool" where
  "step_ok st \<longleftrightarrow> 0 < step_months st \<and> step_days st = 0 \<or> step_months st = 0 \<and> 0 < step_days st"

definition steady :: "zone \<Rightarrow> bool" where
  "steady z \<longleftrightarrow> (\<forall>w f w' f'. \<bar>utc_offset z w f - utc_offset z w' f'\<bar> \<le> DAY)"

lemma ordinal_wall:
  "wall d = (to_ordinal (year d) (month d) (day d) - EPOCH_DAY) * DAY + clock d"
  by (simp add: wall_def)

abbreviation ordinal :: "datetime \<Rightarrow> int" where
  "ordinal d \<equiv> to_ordinal (year d) (month d) (day d)"

lemma candidate_months:
  fixes k :: int
  assumes "datetime_ok start" "step_days st = 0"
  defines "m \<equiv> move_months (step_months st * k) start"
  shows "microseconds (candidate start st k) = microseconds m" "datetime_ok m"
    "month_index m = month_index start + step_months st * k" "clock m = clock start" "tzinfo m = tzinfo start"
  using move_months_facts [OF assms(1), of "step_months st * k"] assms
    move_zero(1) [OF move_months_facts(1) [OF assms(1)]]
  by (simp_all add: candidate_def microseconds_shift moved_def)

lemma candidate_days:
  fixes k :: int
  assumes "datetime_ok start" "step_months st = 0"
  defines "m \<equiv> move_days (step_days st * k) start"
  shows "microseconds (candidate start st k) = microseconds m"
    "wall m = wall start + step_days st * k * DAY" "tzinfo m = tzinfo start"
  using assms move_zero(2) [OF assms(1)]
  by (simp_all add: candidate_def microseconds_shift moved_def move_days_facts)

lemma candidate_ok: "datetime_ok start \<Longrightarrow> datetime_ok (candidate start st k)"
  by (simp add: candidate_def shift_calendar_ok)

text \<open>Later months are later days.\<close>

lemma month_gap:
  assumes "datetime_ok a" "datetime_ok b" "month_index a < month_index b"
  shows "ordinal a + 28 * (month_index b - month_index a - 1) < ordinal b"
  using ordinal_in_month(2) [of a] ordinal_in_month(1) [of b] assms
    first_of_mono [of "month_index a + 1" "month_index b"]
  by (simp add: datetime_ok_def)


text \<open>The candidates grow by at least a day a step; in a steady zone they never go back.\<close>

lemma candidate_grows:
  assumes "datetime_ok start" "step_ok st" "0 \<le> k"
  shows "microseconds start + (k - 33) * DAY \<le> microseconds (candidate start st k)"
proof (cases "step_days st = 0")
  case True
  define m where "m = move_months (step_months st * k) start"
  note c = candidate_months [OF assms(1) True, of k, folded m_def]
  have "k \<le> step_months st * k" using assms True by (simp add: step_ok_def mult_le_cancel_right1)
  then have "first_of (month_index start) + 28 * k \<le> first_of (month_index m)"
    using first_of_mono [of "month_index start" "month_index m"] c(3) assms(3) by simp
  moreover have "ordinal start < first_of (month_index start) + 31"
    using ordinal_in_month(2) [of start] first_of_next [of "month_index start"] month_days_bounds(2) assms(1)
    by (smt (verit) datetime_ok_def)
  moreover have "first_of (month_index m) \<le> ordinal m"
    using ordinal_in_month(1) [of m] c(2) by (simp add: datetime_ok_def)
  ultimately have "ordinal start + k - 31 \<le> ordinal m" using assms(3) by simp
  then have "wall start + (k - 31) * DAY \<le> wall m" by (simp add: ordinal_wall c(4))
  then show ?thesis using wall_near [of start] wall_near [of m] c(1) by simp
next
  case False
  define m where "m = move_days (step_days st * k) start"
  have days: "step_months st = 0" "0 < step_days st" using assms False by (auto simp: step_ok_def)
  note c = candidate_days [OF assms(1) days(1), of k, folded m_def]
  have "k \<le> step_days st * k" using assms(3) days by (simp add: mult_le_cancel_right1)
  then have "wall start + k * DAY \<le> wall m" using c(2) by simp
  then show ?thesis using wall_near [of start] wall_near [of m] c(1) by simp
qed

lemma candidate_step_wall:
  assumes "datetime_ok start" "step_ok st"
  obtains a b where "microseconds (candidate start st k) = microseconds a"
    "microseconds (candidate start st (k + 1)) = microseconds b" "wall a + DAY \<le> wall b"
    "tzinfo a = tzinfo start" "tzinfo b = tzinfo start"
proof (cases "step_days st = 0")
  case True
  define a b where "a = move_months (step_months st * k) start" and "b = move_months (step_months st * (k + 1)) start"
  note a = candidate_months [OF assms(1) True, of k, folded a_def]
  note b = candidate_months [OF assms(1) True, of "k + 1", folded b_def]
  have "0 < step_months st" using assms True by (auto simp: step_ok_def)
  then have less: "month_index a < month_index b" using a(3) b(3) by (simp add: algebra_simps)
  have "ordinal a + 1 \<le> ordinal b" using month_gap [OF a(2) b(2) less] less by simp
  then have "wall a + DAY \<le> wall b" by (simp add: ordinal_wall a(4) b(4))
  with a b show ?thesis by (intro that [of a b])
next
  case False
  then have days: "step_months st = 0" "0 < step_days st" using assms by (auto simp: step_ok_def)
  note a = candidate_days [OF assms(1) days(1), of k]
  note b = candidate_days [OF assms(1) days(1), of "k + 1"]
  have "wall start + step_days st * k * DAY + DAY \<le> wall start + step_days st * (k + 1) * DAY"
    using days by (simp add: algebra_simps)
  with a b show ?thesis by (intro that [OF a(1) b(1)]) simp_all
qed

lemma candidate_mono:
  assumes "datetime_ok start" "step_ok st" "steady (tzinfo start)" "k \<le> k'"
  shows "microseconds (candidate start st k) \<le> microseconds (candidate start st k')"
proof -
  have step: "microseconds (candidate start st k) \<le> microseconds (candidate start st (k + 1))" for k
  proof -
    obtain a b where c: "microseconds (candidate start st k) = microseconds a"
      "microseconds (candidate start st (k + 1)) = microseconds b" "wall a + DAY \<le> wall b"
      "tzinfo a = tzinfo start" "tzinfo b = tzinfo start"
      by (rule candidate_step_wall [OF assms(1,2)])
    have "\<bar>utc_offset (tzinfo start) (wall a) (dt_fold a) - utc_offset (tzinfo start) (wall b) (dt_fold b)\<bar> \<le> DAY"
      using assms(3) by (simp add: steady_def)
    with c show ?thesis by (simp add: microseconds_def)
  qed
  have "microseconds (candidate start st k) \<le> microseconds (candidate start st (k + int n))" for n
  proof (induction n)
    case (Suc n)
    then show ?case using step [of "k + int n"] by (simp add: algebra_simps)
  qed simp
  from this [of "nat (k' - k)"] assms(4) show ?thesis by simp
qed

text \<open>No candidate the search skips lies after the date asked about, whatever zone that date is in.\<close>

lemma skipped_candidates:
  assumes "datetime_ok start" "datetime_ok run" "step_ok st" "0 \<le> k" "k < steps_before start st run"
  shows "microseconds (candidate start st k) \<le> microseconds run"
proof (cases "step_days st = 0")
  case True
  define m where "m = move_months (step_months st * k) start"
  note c = candidate_months [OF assms(1) True, of k, folded m_def]
  have pos: "0 < step_months st" using assms True by (auto simp: step_ok_def)
  define e where "e = month_index run - month_index start"
  have "steps_before start st run = max 0 (e div step_months st - 1)"
    using pos by (simp add: steps_before_def e_def month_index_def Let_def algebra_simps)
  then have "k + 2 \<le> e div step_months st" using assms(4,5) by simp
  then have "(k + 2) * step_months st \<le> e div step_months st * step_months st" using pos by (intro mult_right_mono) simp_all
  also have "\<dots> \<le> e" using pos by (simp add: minus_mod_eq_div_mult [symmetric])
  finally have "step_months st * k + 2 \<le> e" using pos by (simp add: algebra_simps)
  then have "month_index m + 2 \<le> month_index run" using c(3) by (simp add: e_def)
  then have "ordinal m + 28 < ordinal run" using month_gap [OF c(2) assms(2)] by simp
  then have "wall m + 27 * DAY \<le> wall run" using c(2) assms(2) by (simp add: ordinal_wall datetime_ok_def)
  then show ?thesis using wall_near [of run] wall_near [of m] c(1) by simp
next
  case False
  then have days: "step_months st = 0" "0 < step_days st" using assms by (auto simp: step_ok_def)
  define m where "m = move_days (step_days st * k) start"
  note c = candidate_days [OF assms(1) days(1), of k, folded m_def]
  define e where "e = minus_dates run start div DAY"
  have "k + 2 \<le> e div step_days st" using assms(4,5) days by (simp add: steps_before_def e_def)
  then have "(k + 2) * step_days st \<le> e div step_days st * step_days st" using days by (intro mult_right_mono) simp_all
  also have "\<dots> \<le> e" using days(2) by (simp add: minus_mod_eq_div_mult [symmetric])
  finally have "step_days st * k + 2 \<le> e" using days by (simp add: algebra_simps)
  moreover have "e * DAY \<le> minus_dates run start" by (simp add: e_def minus_mod_eq_div_mult [symmetric])
  ultimately have "wall m + 2 * DAY \<le> wall start + minus_dates run start"
    using c(2) by (simp add: algebra_simps)
  then show ?thesis
    using wall_near [of run] wall_near [of m] wall_near [of start] c(1) by (simp add: minus_dates_def split: if_splits)
qed

text \<open>The search ends at the first candidate past the date asked about, or at the end date.\<close>

lemma search_calendar_ends:
  assumes "search_calendar fuel start step until_at run_at count = Some found"
  obtains n where "count \<le> n" "\<And>k. count \<le> k \<Longrightarrow> k < n \<Longrightarrow> microseconds (candidate start step k) \<le> run_at"
    "found = None \<and> until_at \<le> microseconds (candidate start step n)
      \<or> found = Some (candidate start step n) \<and> microseconds (candidate start step n) < until_at
        \<and> run_at < microseconds (candidate start step n)"
  using assms
proof (induction fuel start step until_at run_at count arbitrary: thesis rule: search_calendar.induct)
  case (1 fuel start step until_at run_at count)
  let ?c = "\<lambda>k. microseconds (candidate start step k)"
  consider "until_at \<le> ?c count" "found = None" | "?c count < until_at" "run_at < ?c count" "found = Some (candidate start step count)"
    | "?c count < until_at" "?c count \<le> run_at" "search_calendar (fuel - 1) start step until_at run_at (count + 1) = Some found"
      "0 < fuel"
    using "1.prems"(2) by (auto simp: search_calendar.simps [of fuel] Let_def split: if_splits)
  then show ?case
  proof cases
    case 1
    then show ?thesis by (intro "1.prems"(1) [of count]) auto
  next
    case 2
    then show ?thesis by (intro "1.prems"(1) [of count]) auto
  next
    case 3
    obtain n where n: "count + 1 \<le> n" "\<And>k. count + 1 \<le> k \<Longrightarrow> k < n \<Longrightarrow> ?c k \<le> run_at"
      "found = None \<and> until_at \<le> ?c n \<or> found = Some (candidate start step n) \<and> ?c n < until_at \<and> run_at < ?c n"
      using "1.IH" [OF _ refl refl _ _ _ 3(3)] 3 by auto
    have "?c k \<le> run_at" if "count \<le> k" "k < n" for k
      using n(2) [of k] 3(2) that by (cases "k = count") auto
    with n show ?thesis by (intro "1.prems"(1) [of n]) auto
  qed
qed

lemma search_calendar_returns:
  assumes "\<And>k. count + fuel \<le> k + 1 \<Longrightarrow> until_at \<le> microseconds (candidate start step k)" "0 < fuel"
  shows "search_calendar fuel start step until_at run_at count \<noteq> None"
  using assms
proof (induction "nat fuel" arbitrary: fuel count)
  case (Suc n)
  show ?case
  proof (cases "fuel = 1")
    case True
    then show ?thesis using Suc.prems(1) [of count] by (simp add: search_calendar.simps Let_def)
  next
    case False
    then have "search_calendar (fuel - 1) start step until_at run_at (count + 1) \<noteq> None"
      using Suc.hyps(2) Suc.prems by (intro Suc.hyps(1)) simp_all
    then show ?thesis using Suc.prems(2) by (simp add: search_calendar.simps [of fuel] Let_def)
  qed
qed simp

lemma calendar_answers:
  assumes "datetime_ok start" "step_ok st" "steady (tzinfo start)"
  shows "answers (next_on_calendar start st until)
    {x. \<exists>k\<ge>0. x = microseconds (candidate start st k) \<and> x < microseconds until}" (is "answers _ ?R")
proof (rule answersI)
  fix run
  assume run: "datetime_ok run"
  let ?r = "microseconds run" and ?u = "microseconds until" and ?c = "\<lambda>k. microseconds (candidate start st k)"
  define low where "low = steps_before start st run"
  have low: "0 \<le> low" by (simp add: low_def steps_before_def Let_def)
  have "?u \<le> ?c k" if "low + search_limit start ?u \<le> k + 1" for k
  proof -
    have "(?u - microseconds start) div DAY + 39 \<le> k" "0 \<le> k" using that low by (auto simp: search_limit_def split: if_splits)
    moreover have "?u - microseconds start < ((?u - microseconds start) div DAY + 1) * DAY"
      using minus_mod_eq_div_mult [of "?u - microseconds start" DAY] by (simp add: algebra_simps)
    ultimately show ?thesis using candidate_grows [OF assms(1,2), of k] by simp
  qed
  moreover have "0 < search_limit start ?u" by (simp add: search_limit_def)
  ultimately obtain found where search: "search_calendar (search_limit start ?u) start st ?u ?r low = Some found"
    using search_calendar_returns by blast
  from search_calendar_ends [OF this] obtain n where n: "low \<le> n" "\<And>k. low \<le> k \<Longrightarrow> k < n \<Longrightarrow> ?c k \<le> ?r"
    "found = None \<and> ?u \<le> ?c n \<or> found = Some (candidate start st n) \<and> ?c n < ?u \<and> ?r < ?c n"
    by blast
  have before: "?c k \<le> ?r" if "0 \<le> k" "k < n" for k
  proof (cases "k < low")
    case True
    then show ?thesis using skipped_candidates [OF assms(1) run assms(2) that(1)] by (simp add: low_def)
  next
    case False
    with n(2) that show ?thesis by simp
  qed
  have after: "?c n \<le> ?c k" if "n \<le> k" for k by (rule candidate_mono [OF assms that])
  have past: "?c n \<le> x" if "x \<in> ?R" "?r < x" for x
  proof -
    obtain k where k: "0 \<le> k" "x = ?c k" using \<open>x \<in> ?R\<close> by blast
    with that before [of k] after [of k] show ?thesis by (cases "k < n") auto
  qed
  show "\<exists>found. next_on_calendar start st until run = Inr found
    \<and> (found = None \<longrightarrow> (\<forall>x\<in>?R. x \<le> ?r))
    \<and> (\<forall>d. found = Some d \<longrightarrow> datetime_ok d \<and> microseconds d \<in> ?R \<and> ?r < microseconds d
        \<and> (\<forall>x\<in>?R. ?r < x \<longrightarrow> microseconds d \<le> x))"
  proof (intro exI [of _ found] conjI impI allI)
    show "next_on_calendar start st until run = Inr found" using search by (simp add: next_on_calendar_def low_def)
  next
    assume "found = None"
    with n(3) past show "\<forall>x\<in>?R. x \<le> ?r" by force
  next
    fix d
    assume "found = Some d"
    with n(3) have d: "d = candidate start st n" "?c n < ?u" "?r < ?c n" by auto
    from d show "datetime_ok d" by (simp add: candidate_ok assms(1))
    from d n(1) low show "microseconds d \<in> ?R" by (auto intro!: exI [of _ n])
    from d show "?r < microseconds d" "\<forall>x\<in>?R. ?r < x \<longrightarrow> microseconds d \<le> x" using past by auto
  qed
qed

section \<open>Windows and delays\<close>

lemma exclude_answers:
  assumes "answers ask R" "datetime_ok until"
  shows "answers (\<lambda>run. case ask run of Inl err \<Rightarrow> Inl err | Inr None \<Rightarrow> Inr None
    | Inr (Some n) \<Rightarrow> if microseconds first \<le> microseconds n \<and> microseconds n \<le> microseconds until
        then ask until else Inr (Some n)) (R - {microseconds first..microseconds until})" (is "answers ?ask ?R")
proof (rule answersI)
  fix run
  assume ok: "datetime_ok run"
  show "\<exists>found. ?ask run = Inr found \<and> (found = None \<longrightarrow> (\<forall>x\<in>?R. x \<le> microseconds run))
    \<and> (\<forall>d. found = Some d \<longrightarrow> datetime_ok d \<and> microseconds d \<in> ?R \<and> microseconds run < microseconds d
        \<and> (\<forall>x\<in>?R. microseconds run < x \<longrightarrow> microseconds d \<le> x))"
  proof (cases rule: answersE [OF assms(1) ok])
    case 1
    then show ?thesis by simp
  next
    case (2 n)
    show ?thesis
    proof (cases "microseconds first \<le> microseconds n \<and> microseconds n \<le> microseconds until")
      case False
      with 2 show ?thesis by auto
    next
      case True
      have past: "microseconds until < x" if "x \<in> ?R" "microseconds run < x" for x
        using that 2(5) [of x] True by auto
      show ?thesis
      proof (cases rule: answersE [OF assms])
        case 1
        with 2(1) True past show ?thesis by force
      next
        case (2 d)
        with \<open>ask run = Inr (Some n)\<close> True past \<open>microseconds run < microseconds n\<close> show ?thesis by force
      qed
    qed
  qed
qed

definition landing :: "(int \<Rightarrow> nat) \<Rightarrow> int \<Rightarrow> int" where
  "landing draw x = x + int (draw x) * SECOND"

lemma delayed_by_facts:
  "microseconds (delayed_by draw d) = landing draw (microseconds d)" "datetime_ok (delayed_by draw d)"
  by (simp_all add: delayed_by_def landing_def shifted_def from_microseconds_ok)

text \<open>
  What the search knows before a candidate: the best landing is one of a run, past the date asked about,
  and no run before the candidate lands between the two.
\<close>

definition jitter_inv :: "(int \<Rightarrow> nat) \<Rightarrow> int set \<Rightarrow> int \<Rightarrow> datetime option \<Rightarrow> datetime option \<Rightarrow> bool" where
  "jitter_inv draw R run_at best c \<longleftrightarrow>
    (\<forall>x\<in>R. run_at < landing draw x \<longrightarrow> (case c of None \<Rightarrow> True | Some c \<Rightarrow> x < microseconds c)
      \<longrightarrow> (\<exists>e. best = Some e \<and> microseconds e \<le> landing draw x))
    \<and> (\<forall>e. best = Some e \<longrightarrow> datetime_ok e \<and> run_at < microseconds e \<and> microseconds e \<in> landing draw ` R)
    \<and> (\<forall>d. c = Some d \<longrightarrow> datetime_ok d \<and> microseconds d \<in> R)"

definition jitter_result :: "(int \<Rightarrow> nat) \<Rightarrow> int set \<Rightarrow> int \<Rightarrow> datetime option \<Rightarrow> bool" where
  "jitter_result draw R run_at found \<longleftrightarrow> jitter_inv draw R run_at found None"

lemma jitter_search_result:
  assumes "answers ask R" "jitter_inv draw R run_at best c"
  shows "\<exists>found. jitter_search ask draw run_at best c = Inr found \<and> jitter_result draw R run_at found"
  using assms
proof (induction ask draw run_at best c rule: jitter_search.induct)
  case (1 ask draw run_at best)
  then show ?case by (simp add: jitter_result_def)
next
  case (2 ask draw run_at best c)
  let ?at = microseconds and ?L = "landing draw"
  note inv = "2.prems"(2)
  have c: "datetime_ok c" "?at c \<in> R" using inv by (simp_all add: jitter_inv_def)
  show ?case
  proof (cases "\<exists>e. best = Some e \<and> ?at e \<le> ?at c")
    case True
    then obtain e where e: "best = Some e" "?at e \<le> ?at c" by blast
    have "?at e \<le> ?L x" if "x \<in> R" "run_at < ?L x" for x
    proof (cases "x < ?at c")
      case True
      with inv that e show ?thesis by (auto simp: jitter_inv_def)
    next
      case False
      with e show ?thesis by (simp add: landing_def)
    qed
    with e inv show ?thesis by (simp add: jitter_result_def jitter_inv_def)
  next
    case False
    define best' where "best' = (if run_at < ?L (?at c) \<and> (case best of None \<Rightarrow> True | Some e \<Rightarrow> ?L (?at c) < ?at e)
      then Some (delayed_by draw c) else best)"
    have step: "jitter_search ask draw run_at best (Some c) = (case ask c of Inl err \<Rightarrow> Inl err
      | Inr advanced \<Rightarrow> if (case advanced of None \<Rightarrow> False | Some n \<Rightarrow> ?at n \<le> ?at c)
          then Inr (Some (case best' of None \<Rightarrow> delayed_by draw c | Some e \<Rightarrow> e))
          else jitter_search ask draw run_at best' advanced)"
    proof -
      have "(case best of None \<Rightarrow> False | Some e \<Rightarrow> ?at e \<le> ?at c) = False" using False by (auto split: option.split)
      then show ?thesis unfolding jitter_search.simps Let_def best'_def delayed_by_facts by (simp only: if_False)
    qed
    have known: "\<exists>e. best' = Some e \<and> ?at e \<le> ?L x" if "x \<in> R" "run_at < ?L x" "x \<le> ?at c" for x
    proof (cases "x = ?at c")
      case True
      with that show ?thesis by (cases best) (auto simp: best'_def delayed_by_facts)
    next
      case False
      with that inv obtain e where "best = Some e" "?at e \<le> ?L x" by (auto simp: jitter_inv_def)
      then show ?thesis by (auto simp: best'_def delayed_by_facts)
    qed
    have sound: "datetime_ok e \<and> run_at < ?at e \<and> ?at e \<in> ?L ` R" if "best' = Some e" for e
      using that inv c by (auto simp: best'_def jitter_inv_def delayed_by_facts split: if_splits)
    have inv': "jitter_inv draw R run_at best' advanced"
      if "advanced = None \<and> (\<forall>x\<in>R. x \<le> ?at c) \<or> (\<exists>n. advanced = Some n \<and> datetime_ok n \<and> ?at n \<in> R
        \<and> (\<forall>x\<in>R. ?at c < x \<longrightarrow> ?at n \<le> x))" for advanced
      using that known sound by (auto simp: jitter_inv_def not_less)
    show ?thesis
    proof (cases rule: answersE [OF "2.prems"(1) c(1)])
      case 1
      then have "jitter_inv draw R run_at best' None" by (intro inv') auto
      with 1(1) step show ?thesis by (auto simp: jitter_result_def)
    next
      case (2 n)
      then have inv'': "jitter_inv draw R run_at best' (Some n)" by (intro inv') auto
      have "jitter_search ask draw run_at best (Some c) = jitter_search ask draw run_at best' (Some n)"
        using 2 step by simp
      moreover have "\<exists>found. jitter_search ask draw run_at best' (Some n) = Inr found \<and> jitter_result draw R run_at found"
        using False 2(1,4) inv'' "2.prems"(1)
        by (intro "2.IH" [of "delayed_by draw c"]) (auto simp: best'_def delayed_by_facts split: option.splits)
      ultimately show ?thesis by simp
    qed
  qed
qed

lemma jitter_answers:
  assumes "answers ask R" "\<And>x. draw x \<le> longest"
  shows "answers (\<lambda>run. case ask (shifted run (- int longest * SECOND)) of Inl err \<Rightarrow> Inl err
    | Inr c \<Rightarrow> jitter_search ask draw (microseconds run) None c) (landing draw ` R)" (is "answers ?ask _")
proof (rule answersI)
  fix run
  let ?at = microseconds and ?probe = "shifted run (- int longest * SECOND)"
  have probe: "datetime_ok ?probe" by (simp add: shifted_def from_microseconds_ok)
  have early: "x \<le> ?at ?probe \<Longrightarrow> landing draw x \<le> ?at run" for x
    using assms(2) [of x] by (simp add: landing_def)
  obtain c where c: "ask ?probe = Inr c" "jitter_inv draw R (?at run) None c"
  proof (cases rule: answersE [OF assms(1) probe])
    case 1
    then have "jitter_inv draw R (?at run) None None" using early by (fastforce simp: jitter_inv_def)
    with 1(1) that show ?thesis by blast
  next
    case (2 d)
    have "landing draw x \<le> ?at run" if "x \<in> R" "x < ?at d" for x
      using 2(5) [of x] that early [of x] by (cases "?at ?probe < x") auto
    with 2 have "jitter_inv draw R (?at run) None (Some d)" by (auto simp: jitter_inv_def not_less [symmetric])
    with 2(1) that show ?thesis by blast
  qed
  from jitter_search_result [OF assms(1) c(2)] obtain found where
    f: "jitter_search ask draw (?at run) None c = Inr found" "jitter_result draw R (?at run) found" by blast
  with c(1) show "\<exists>found. ?ask run = Inr found \<and> (found = None \<longrightarrow> (\<forall>x\<in>landing draw ` R. x \<le> ?at run))
    \<and> (\<forall>d. found = Some d \<longrightarrow> datetime_ok d \<and> ?at d \<in> landing draw ` R \<and> ?at run < ?at d
        \<and> (\<forall>x\<in>landing draw ` R. ?at run < x \<longrightarrow> ?at d \<le> x))"
    by (intro exI [of _ found]) (auto simp: jitter_result_def jitter_inv_def not_less [symmetric])
qed

section \<open>The runs of a trigger\<close>

text \<open>\<open>anchor\<close> is the date a trigger without a start of its own counts from.\<close>

primrec runs :: "trigger \<Rightarrow> datetime \<Rightarrow> int set" where
  "runs (PeriodicalTrigger from interval step until) anchor =
    (let start = (case from of None \<Rightarrow> anchor | Some f \<Rightarrow> f) in
     {x. \<exists>k\<ge>0. x = (case step of None \<Rightarrow> microseconds start + k * interval
        | Some st \<Rightarrow> microseconds (candidate start st k)) \<and> x < microseconds until})"
| "runs (ExcludeTimeTrigger inner from until) anchor = runs inner anchor - {microseconds from..microseconds until}"
| "runs (JitterTrigger inner longest draw) anchor = landing draw ` runs inner anchor"
| "runs (CallbackTrigger callback) anchor = {x. \<exists>run d. callback run = Inr (Some d) \<and> x = microseconds d}"
| "runs (CronExpressionTrigger next_after timezone) anchor =
    {x. \<exists>run d. next_after run (case timezone of None \<Rightarrow> tzinfo run | Some z \<Rightarrow> z) = Inr (Some d) \<and> x = microseconds d}"
| "runs SerializedTrigger anchor = {}"

text \<open>
  What a trigger is built from: a positive interval and dates that are dates (the constructors refuse
  others), delays within the longest, and callbacks that answer the first of their dates after a given one.
\<close>

primrec wf_trigger :: "trigger \<Rightarrow> datetime \<Rightarrow> bool" where
  "wf_trigger (PeriodicalTrigger from interval step until) anchor \<longleftrightarrow>
    (let start = (case from of None \<Rightarrow> anchor | Some f \<Rightarrow> f) in datetime_ok start
     \<and> (case step of None \<Rightarrow> 0 < interval | Some st \<Rightarrow> step_ok st \<and> steady (tzinfo start)))"
| "wf_trigger (ExcludeTimeTrigger inner from until) anchor \<longleftrightarrow> wf_trigger inner anchor \<and> datetime_ok until"
| "wf_trigger (JitterTrigger inner longest draw) anchor \<longleftrightarrow> wf_trigger inner anchor \<and> (\<forall>x. draw x \<le> longest)"
| "wf_trigger (CallbackTrigger callback) anchor \<longleftrightarrow> answers callback (runs (CallbackTrigger callback) anchor)"
| "wf_trigger (CronExpressionTrigger next_after timezone) anchor \<longleftrightarrow>
    answers (run_after (CronExpressionTrigger next_after timezone) anchor) (runs (CronExpressionTrigger next_after timezone) anchor)"
| "wf_trigger SerializedTrigger anchor \<longleftrightarrow> False"

lemma run_after_answers: "wf_trigger t anchor \<Longrightarrow> answers (run_after t anchor) (runs t anchor)"
proof (induction t)
  case (PeriodicalTrigger first interval step until)
  then show ?case using exact_answers calendar_answers by (cases step) (simp_all add: Let_def)
next
  case (ExcludeTimeTrigger inner first until)
  then show ?case using exclude_answers [of "run_after inner anchor" "runs inner anchor" until first] by simp
next
  case (JitterTrigger inner longest draw)
  then show ?case using jitter_answers [of "run_after inner anchor" "runs inner anchor" draw longest] by simp
qed simp_all

text \<open>A trigger that was told, or asked, once counts from the same date ever after.\<close>

lemma run_after_continued: "run_after (continue_trigger t started_at) anchor = run_after t started_at"
  by (induction t) (simp_all split: option.splits cong: sum.case_cong option.case_cong if_cong)

lemma continued_stays: "continue_trigger (continue_trigger t started_at) d = continue_trigger t started_at"
  by (induction t) (simp_all split: option.splits)

lemma runs_continued: "runs (continue_trigger t started_at) anchor = runs t started_at"
  by (induction t) (simp_all split: option.splits)

lemma wf_continued: "wf_trigger (continue_trigger t started_at) anchor = wf_trigger t started_at"
  by (induction t) (simp_all split: option.splits)

lemma get_next_continued:
  "get_next_run_date (continue_trigger t started_at) run = (continue_trigger t started_at, run_after t started_at run)"
  by (simp add: get_next_run_date_def continued_stays run_after_continued)

text \<open>
  C12: A trigger enumerates its runs. Told where its schedule starts, it answers any date with the first
  of its runs strictly after that date and with nothing when there is none: the points of the interval's
  grid or the dates of the calendar from the start and before the end date, less an excluded window, each
  moved by its delay. The search that starts near the date asked about never steps over a run, whatever
  zone that date is in, and it comes to an end.
\<close>

theorem triggers_enumerate_their_runs:
  assumes "wf_trigger t started_at" "datetime_ok run"
  shows "\<exists>found. get_next_run_date (continue_trigger t started_at) run = (continue_trigger t started_at, Inr found)
    \<and> (case found of None \<Rightarrow> \<forall>x\<in>runs t started_at. x \<le> microseconds run
      | Some d \<Rightarrow> microseconds d \<in> runs t started_at \<and> microseconds run < microseconds d
          \<and> (\<forall>x\<in>runs t started_at. microseconds run < x \<longrightarrow> microseconds d \<le> x))"
  by (cases rule: answersE [OF run_after_answers [OF assms(1)] assms(2)]) (auto simp: get_next_continued)

text \<open>Every month from the last of January, without March.\<close>

definition monthly :: trigger where
  "monthly = ExcludeTimeTrigger (PeriodicalTrigger None 0 (Some (CalendarStep 1 0)) FAR_FUTURE)
    (last_of_january\<lparr>month := 3, day := 1\<rparr>) (last_of_january\<lparr>month := 3, clock := 40000000000\<rparr>)"

lemma constant_zones_steady: "steady UTC" "steady (hours_east h)"
  unfolding steady_def by (transfer, simp)+

lemma monthly_ok: "wf_trigger monthly last_of_january"
  by (simp add: monthly_def Let_def step_ok_def last_of_january_def constant_zones_steady)
    (simp add: datetime_ok_def date_ok_def month_days_def)

theorem triggers_enumerate_their_runs_witness:
  "map_sum id (map_option microseconds) (run_after monthly last_of_january (last_of_january\<lparr>month := 2, day := 28, clock := 39000000000\<rparr>))
      = Inr (Some (microseconds (last_of_january\<lparr>month := 4, day := 30\<rparr>)))
    \<and> microseconds (last_of_january\<lparr>month := 4, day := 30\<rparr>) \<in> runs monthly last_of_january"
proof -
  let ?run = "last_of_january\<lparr>month := 2, day := 28, clock := 39000000000\<rparr>"
  let ?next = "microseconds (last_of_january\<lparr>month := 4, day := 30\<rparr>)"
  have ok: "datetime_ok ?run" by code_simp
  have found: "map_sum id (map_option microseconds) (run_after monthly last_of_january ?run) = Inr (Some ?next)" by code_simp
  with triggers_enumerate_their_runs [OF monthly_ok ok] have "?next \<in> runs monthly last_of_january"
    by (auto simp: get_next_continued split: option.splits)
  with found show ?thesis by blast
qed
end
