(* ===== verification/Scheduler_Generator.thy ===== *)
theory Scheduler_Generator
  imports Scheduler_Runs "HOL-Library.Product_Lexorder"
begin

text \<open>
  Schedules, checkpoints and the generator that turns a schedule into the messages that are due
  (\<open>schedule.py\<close>, \<open>generator/\<close>).

  A pass is one exhausted call of \<open>get_messages\<close>. What happens to a run that is handed on is an
  argument of the pass: how many of its messages were taken, and whether the provider or the consumer
  ended the iteration there. The cache and the lock are the part of the world outside the process: the
  record kept under the checkpoint's name, whether it can be saved, what the lock answers and the calls
  made on it. A change of the schedule made while a pass runs takes effect in the next one.
\<close>

section \<open>Schedules\<close>

record recurring =
  r_id :: string
  r_trigger :: trigger

record schedule =
  s_messages :: "(string, recurring) dict"
  s_restart :: bool
  s_only_last :: bool

definition Schedule_empty :: schedule where
  "Schedule_empty = \<lparr>s_messages = [], s_restart = False, s_only_last = False\<rparr>"

fun add_messages :: "recurring list \<Rightarrow> schedule \<Rightarrow> (sched_error + unit) \<times> schedule" where
  "add_messages [] s = (Inr (), s)"
| "add_messages (r # rs) s = (if map_of (s_messages s) (r_id r) \<noteq> None then (Inl SchedulerLogicError, s)
    else add_messages rs (s\<lparr>s_messages := dict_set (r_id r) r (s_messages s)\<rparr>))"

definition schedule_add :: "recurring list \<Rightarrow> schedule \<Rightarrow> (sched_error + unit) \<times> schedule" where
  "schedule_add rs s = (case add_messages rs s of
      (Inl err, s') \<Rightarrow> (Inl err, s')
    | (Inr u, s') \<Rightarrow> (Inr u, s'\<lparr>s_restart := s_restart s' \<or> rs \<noteq> []\<rparr>))"

definition Schedule_init :: "recurring list \<Rightarrow> (sched_error + unit) \<times> schedule" where
  "Schedule_init rs = schedule_add rs Schedule_empty"

definition remove_by_id :: "string \<Rightarrow> schedule \<Rightarrow> schedule" where
  "remove_by_id i s = s\<lparr>s_messages := dict_del i (s_messages s), s_restart := True\<rparr>"

definition schedule_remove :: "recurring \<Rightarrow> schedule \<Rightarrow> schedule" where
  "schedule_remove r s = remove_by_id (r_id r) s"

definition schedule_clear :: "schedule \<Rightarrow> schedule" where
  "schedule_clear s = s\<lparr>s_messages := [], s_restart := True\<rparr>"

definition process_only_last_missed_run :: "bool \<Rightarrow> schedule \<Rightarrow> schedule" where
  "process_only_last_missed_run b s = s\<lparr>s_only_last := b\<rparr>"

definition recurring_messages :: "schedule \<Rightarrow> recurring list" where
  "recurring_messages s = map snd (s_messages s)"

section \<open>The world outside a process\<close>

datatype lock_call = LockAcquire | LockRelease | LockRefresh int

record message_context =
  mc_name :: string
  mc_id :: string
  mc_trigger :: trigger
  triggered_at :: datetime
  next_trigger_at :: "datetime option"

text \<open>
  \<open>saved\<close> is the record in the cache (an old one has no start), \<open>sent\<close> the runs whose messages were
  taken: the position of the recurring message, the context and the number of messages.
\<close>

record sched_world =
  saved :: "(datetime \<times> int \<times> datetime option) option"
  saves :: bool
  lock_free :: bool
  lock_held :: bool
  lock_left :: "int option"
  lock_calls :: "lock_call list"
  sent :: "(nat \<times> message_context \<times> nat) list"

section \<open>Checkpoints\<close>

record checkpoint =
  c_lock :: bool
  c_cache :: bool
  c_from :: "datetime option"
  c_time :: "datetime option"
  c_index :: int
  c_reset :: bool

definition Checkpoint_init :: "bool \<Rightarrow> bool \<Rightarrow> checkpoint" where
  "Checkpoint_init locked cached = \<lparr>c_lock = locked, c_cache = cached, c_from = None, c_time = None,
    c_index = -1, c_reset = False\<rparr>"

definition checkpoint_save :: "datetime \<Rightarrow> int \<Rightarrow> checkpoint \<Rightarrow> sched_world
    \<Rightarrow> (sched_error + unit) \<times> checkpoint \<times> sched_world" where
  "checkpoint_save t i c w =
    (let start = (case c_from c of None \<Rightarrow> t | Some f \<Rightarrow> f);
        c' = c\<lparr>c_time := Some t, c_index := i, c_from := Some start\<rparr>
     in if \<not> c_cache c then (Inr (), c', w)
        else if saves w then (Inr (), c', w\<lparr>saved := Some (t, i, Some start)\<rparr>)
        else (Inl SchedulerRuntimeError, c', w))"

text \<open>What the cache answers, storing \<open>(now, -1, now)\<close> where it has nothing.\<close>

definition cached_state :: "datetime \<Rightarrow> sched_world \<Rightarrow> (datetime \<times> int \<times> datetime option) \<times> sched_world" where
  "cached_state now w = (case saved w of
      Some st \<Rightarrow> (st, w)
    | None \<Rightarrow> let st = (now, -1, Some now) in (st, if saves w then w\<lparr>saved := Some st\<rparr> else w))"

definition fill_in :: "datetime \<Rightarrow> checkpoint \<Rightarrow> checkpoint" where
  "fill_in now c = (let c1 = (case c_time c of None \<Rightarrow> c\<lparr>c_time := Some now\<rparr> | Some t \<Rightarrow> c)
    in (case c_from c1 of None \<Rightarrow> c1\<lparr>c_from := Some now\<rparr> | Some t \<Rightarrow> c1))"

definition checkpoint_acquire :: "datetime \<Rightarrow> checkpoint \<Rightarrow> sched_world
    \<Rightarrow> (sched_error + bool) \<times> checkpoint \<times> sched_world" where
  "checkpoint_acquire now c w =
    (let w1 = (if c_lock c then w\<lparr>lock_calls := lock_calls w @ [LockAcquire]\<rparr> else w)
     in if c_lock c \<and> \<not> lock_free w then (Inr False, c\<lparr>c_reset := True\<rparr>, w1)
     else let w2 = (if c_lock c then w1\<lparr>lock_held := True\<rparr> else w1);
        (saving, c', w') = (if c_cache c
          then let ((t, i, f), w3) = cached_state now w2;
              c1 = c\<lparr>c_time := Some t, c_index := i, c_from := Some (case f of None \<Rightarrow> now | Some s \<Rightarrow> s)\<rparr>
            in checkpoint_save t i c1 w3
          else if c_reset c then checkpoint_save now (-1) (c\<lparr>c_reset := False\<rparr>) w2
          else (Inr (), c, w2))
      in (case saving of Inl err \<Rightarrow> (Inl err, c', w') | Inr u \<Rightarrow> (Inr True, fill_in now c', w')))"

definition checkpoint_release :: "datetime \<Rightarrow> datetime option \<Rightarrow> checkpoint \<Rightarrow> sched_world \<Rightarrow> sched_world" where
  "checkpoint_release now next_time c w =
    (if \<not> c_lock c then w
     else case next_time of
       None \<Rightarrow> w\<lparr>lock_calls := lock_calls w @ [LockRelease], lock_held := False\<rparr>
     | Some n \<Rightarrow> (case lock_left w of
         None \<Rightarrow> w
       | Some remaining \<Rightarrow> if remaining \<le> 0 then w
           else let ttl = microseconds n - microseconds now + remaining
             in w\<lparr>lock_calls := lock_calls w @ [LockRefresh (max ttl SECOND)]\<rparr>))"

definition checkpoint_close :: "checkpoint \<Rightarrow> sched_world \<Rightarrow> sched_world" where
  "checkpoint_close c w = (if c_lock c \<and> lock_held w
    then w\<lparr>lock_calls := lock_calls w @ [LockRelease], lock_held := False\<rparr> else w)"

section \<open>The plan\<close>

record heap_entry =
  e_time :: datetime
  e_index :: nat
  e_message :: recurring

text \<open>The heap orders by instant, then by position; it is kept as the sorted list of its entries.\<close>

definition entry_key :: "heap_entry \<Rightarrow> int \<times> int" where
  "entry_key e = (microseconds (e_time e), int (e_index e))"

record trigger_heap =
  h_time :: datetime
  h_entries :: "heap_entry list"

definition heap_insert :: "datetime \<Rightarrow> nat \<Rightarrow> recurring \<Rightarrow> heap_entry list \<Rightarrow> heap_entry list" where
  "heap_insert t i r hs = insort_key entry_key \<lparr>e_time = t, e_index = i, e_message = r\<rparr> hs"

definition heap_top :: "heap_entry list \<Rightarrow> datetime option" where
  "heap_top hs = (case hs of [] \<Rightarrow> None | e # rest \<Rightarrow> Some (e_time e))"

text \<open>\<open>_next_time\<close>: a trigger that does not move forward is refused.\<close>

definition next_time_of :: "trigger \<Rightarrow> datetime \<Rightarrow> sched_error + datetime option" where
  "next_time_of t time = (case snd (get_next_run_date t time) of
      Inl err \<Rightarrow> Inl err
    | Inr None \<Rightarrow> Inr None
    | Inr (Some n) \<Rightarrow> if microseconds n \<le> microseconds time then Inl SchedulerLogicError else Inr (Some n))"

text \<open>\<open>_latest_due\<close>: the walk from a due run to the latest one due.\<close>

function latest_walk :: "trigger \<Rightarrow> int \<Rightarrow> datetime \<Rightarrow> datetime option \<Rightarrow> sched_error + datetime" where
  "latest_walk t now_at latest None = Inr latest"
| "latest_walk t now_at latest (Some c) =
    (if microseconds latest < microseconds c \<and> microseconds c \<le> now_at
     then case snd (get_next_run_date t c) of Inl err \<Rightarrow> Inl err | Inr n \<Rightarrow> latest_walk t now_at c n
     else Inr latest)"
  by pat_completeness auto

termination by (relation "measure (\<lambda>(t, now_at, latest, c). nat (now_at - microseconds latest))") auto

definition latest_due :: "trigger \<Rightarrow> datetime \<Rightarrow> int \<Rightarrow> sched_error + datetime" where
  "latest_due t time now_at = (case snd (get_next_run_date t time) of
      Inl err \<Rightarrow> Inl err
    | Inr c \<Rightarrow> latest_walk t now_at time c)"

text \<open>The later instant a missed run is put back at, if the schedule asks for the latest only.\<close>

definition reschedule_to_latest :: "bool \<Rightarrow> trigger \<Rightarrow> datetime \<Rightarrow> int \<Rightarrow> sched_error + datetime option" where
  "reschedule_to_latest only_last t time now_at = (if \<not> only_last then Inr None
    else case latest_due t time now_at of
      Inl err \<Rightarrow> Inl err
    | Inr latest \<Rightarrow> if microseconds latest = microseconds time then Inr None else Inr (Some latest))"

section \<open>Handing on what is due\<close>

text \<open>How a run went: the messages taken of it, and the error or the end of the iteration it stopped with.\<close>

datatype delivery = Completed nat | Stopped nat sched_error

fun taken :: "delivery \<Rightarrow> nat" where
  "taken (Completed n) = n"
| "taken (Stopped n err) = n"

record tick =
  t_now :: datetime
  t_deliver :: "nat \<Rightarrow> message_context \<Rightarrow> delivery"

text \<open>Iterating the messages of one run, and recording it once one was handed on.\<close>

definition hand_on :: "tick \<Rightarrow> nat \<Rightarrow> message_context \<Rightarrow> checkpoint \<Rightarrow> sched_world
    \<Rightarrow> (sched_error + unit) \<times> checkpoint \<times> sched_world" where
  "hand_on k index context c w =
    (let how = t_deliver k index context;
        (saving, c', w') = (if 0 < taken how
          then checkpoint_save (triggered_at context) (int index) c (w\<lparr>sent := sent w @ [(index, context, taken how)]\<rparr>)
          else (Inr (), c, w))
     in (case saving of Inl err \<Rightarrow> (Inl err, c', w')
       | Inr u \<Rightarrow> (case how of Completed n \<Rightarrow> Inr () | Stopped n err \<Rightarrow> Inl err, c', w')))"

definition already_sent :: "datetime \<Rightarrow> int \<Rightarrow> heap_entry \<Rightarrow> bool" where
  "already_sent last_time last_index e \<longleftrightarrow> \<not> (microseconds last_time < microseconds (e_time e)
    \<or> microseconds (e_time e) = microseconds last_time \<and> last_index < int (e_index e))"

lemma latest_walk_later: "latest_walk t now_at latest c = Inr d \<Longrightarrow> microseconds latest \<le> microseconds d"
  by (induction t now_at latest c rule: latest_walk.induct) (fastforce split: if_splits sum.splits)+

lemma reschedule_later:
  "reschedule_to_latest only_last t time now_at = Inr (Some latest) \<Longrightarrow> microseconds time < microseconds latest"
  by (fastforce simp: reschedule_to_latest_def latest_due_def dest: latest_walk_later split: if_splits sum.splits)

lemma next_time_later: "next_time_of t time = Inr (Some n) \<Longrightarrow> microseconds time < microseconds n"
  by (auto simp: next_time_of_def split: sum.splits option.splits if_splits)

text \<open>How far the entries of the plan lie before the present: what the loop uses up.\<close>

definition overdue :: "int \<Rightarrow> heap_entry list \<Rightarrow> nat" where
  "overdue now_at hs = sum_list (map (\<lambda>e. nat (now_at + 1 - microseconds (e_time e))) hs)"

lemma overdue_insert: "overdue now_at (heap_insert t i r hs) = nat (now_at + 1 - microseconds t) + overdue now_at hs"
  unfolding heap_insert_def by (induction hs) (simp_all add: overdue_def)

function due_loop :: "string \<Rightarrow> tick \<Rightarrow> bool \<Rightarrow> datetime \<Rightarrow> int \<Rightarrow> heap_entry list \<Rightarrow> checkpoint \<Rightarrow> sched_world
    \<Rightarrow> (sched_error + unit) \<times> heap_entry list \<times> checkpoint \<times> sched_world" where
  "due_loop name k only_last last_time last_index [] c w = (Inr (), [], c, w)"
| "due_loop name k only_last last_time last_index (e # rest) c w =
    (if microseconds (t_now k) < microseconds (e_time e) then (Inr (), e # rest, c, w)
     else let send = (\<not> already_sent last_time last_index e);
        time = (if microseconds last_time \<le> microseconds (e_time e) then e_time e else last_time);
        t = r_trigger (e_message e)
     in case (if send then reschedule_to_latest only_last t time (microseconds (t_now k)) else Inr None) of
         Inl err \<Rightarrow> (Inl err, rest, c, w)
       | Inr (Some latest) \<Rightarrow>
           due_loop name k only_last last_time last_index (heap_insert latest (e_index e) (e_message e) rest) c w
       | Inr None \<Rightarrow> (case next_time_of t time of
             Inl err \<Rightarrow> (Inl err, rest, c, w)
           | Inr next_time \<Rightarrow>
               let hs = (case next_time of None \<Rightarrow> rest | Some n \<Rightarrow> heap_insert n (e_index e) (e_message e) rest)
               in if \<not> send then due_loop name k only_last last_time last_index hs c w
                  else let context = \<lparr>mc_name = name, mc_id = r_id (e_message e), mc_trigger = t,
                        triggered_at = time, next_trigger_at = next_time\<rparr>;
                      handed = hand_on k (e_index e) context c w
                    in (case fst handed of
                        Inl err \<Rightarrow> (Inl err, hs, fst (snd handed), snd (snd handed))
                      | Inr u \<Rightarrow> due_loop name k only_last last_time last_index hs (fst (snd handed)) (snd (snd handed)))))"
  by pat_completeness auto

termination
proof (relation "measure (\<lambda>(name, k, only_last, last_time, last_index, hs, c, w). overdue (microseconds (t_now k)) hs)", goal_cases)
  case 1
  then show ?case by simp
next
  case (2 name k only_last last_time last_index e rest c w x xa xb b ba xc)
  then have "xc = rest \<or> (\<exists>n. xc = heap_insert n (e_index e) (e_message e) rest \<and> microseconds (e_time e) < microseconds n)"
    using next_time_later [of xb xa] by (cases ba) (force split: if_splits)+
  with 2 show ?case by (auto simp: overdue_insert) (simp_all add: overdue_def)
next
  case (3 name k only_last last_time last_index e rest c w x xa xb b ba xc)
  then have "xc = rest \<or> (\<exists>n. xc = heap_insert n (e_index e) (e_message e) rest \<and> microseconds (e_time e) < microseconds n)"
    using next_time_later [of xb xa] by (cases ba) (force split: if_splits)+
  with 3 show ?case by (auto simp: overdue_insert) (simp_all add: overdue_def)
next
  case (4 name k only_last last_time last_index e rest c w x xa xb b x2)
  then have "microseconds (e_time e) < microseconds x2"
    using reschedule_later [of only_last xb xa "microseconds (t_now k)" x2] by (auto split: if_splits)
  with 4 show ?case by (simp add: overdue_insert) (simp add: overdue_def)
qed

declare due_loop.simps(2) [simp del]

section \<open>A pass of the generator\<close>

record generator =
  g_name :: string
  g_schedule :: schedule
  g_checkpoint :: checkpoint
  g_heap :: "trigger_heap option"
  g_initialized :: bool
  g_wait_until :: "datetime option"

definition MessageGenerator_init :: "string \<Rightarrow> schedule \<Rightarrow> bool \<Rightarrow> bool \<Rightarrow> generator" where
  "MessageGenerator_init name s locked cached = \<lparr>g_name = name, g_schedule = s,
    g_checkpoint = Checkpoint_init locked cached, g_heap = None, g_initialized = False, g_wait_until = Some EPOCH\<rparr>"

definition restart_if_changed :: "generator \<Rightarrow> generator" where
  "restart_if_changed g = (if s_restart (g_schedule g)
    then g\<lparr>g_heap := None, g_wait_until := Some EPOCH, g_schedule := (g_schedule g)\<lparr>s_restart := False\<rparr>\<rparr> else g)"

text \<open>
  Asking every recurring message for its first run: the entries, or the error of the first trigger that
  raised, and the recurring messages with the triggers as they were left.
\<close>

fun build_plan :: "datetime \<Rightarrow> datetime \<Rightarrow> nat \<Rightarrow> (string, recurring) dict \<Rightarrow> heap_entry list
    \<Rightarrow> (sched_error + heap_entry list) \<times> (string, recurring) dict" where
  "build_plan start probe i [] hs = (Inr hs, [])"
| "build_plan start probe i ((key, r) # rs) hs =
    (let (t', answer) = get_next_run_date (continue_trigger (r_trigger r) start) probe; r' = r\<lparr>r_trigger := t'\<rparr>
     in case answer of
       Inl err \<Rightarrow> (Inl err, (key, r') # rs)
     | Inr next_time \<Rightarrow>
         let (result, rs') = build_plan start probe (i + 1) rs
           (case next_time of None \<Rightarrow> hs | Some n \<Rightarrow> heap_insert n i r' hs)
         in (result, (key, r') # rs'))"

definition rebuild_plan :: "datetime \<Rightarrow> datetime \<Rightarrow> int \<Rightarrow> generator \<Rightarrow> (sched_error + trigger_heap) \<times> generator" where
  "rebuild_plan time start last_index g =
    (let probe = (if \<not> g_initialized g \<and> 0 \<le> last_index then shifted time (-1) else time);
        (result, messages) = build_plan start probe 0 (s_messages (g_schedule g)) [];
        g' = g\<lparr>g_initialized := True, g_schedule := (g_schedule g)\<lparr>s_messages := messages\<rparr>\<rparr>
     in case result of
       Inl err \<Rightarrow> (Inl err, g')
     | Inr hs \<Rightarrow> let h = \<lparr>h_time = time, h_entries = hs\<rparr> in (Inr h, g'\<lparr>g_heap := Some h\<rparr>))"

definition heap_for :: "datetime \<Rightarrow> datetime \<Rightarrow> int \<Rightarrow> generator \<Rightarrow> (sched_error + trigger_heap) \<times> generator" where
  "heap_for time start last_index g =
    (case g_heap g of
      Some h \<Rightarrow> if microseconds (h_time h) \<le> microseconds time then (Inr h, g) else rebuild_plan time start last_index g
    | None \<Rightarrow> rebuild_plan time start last_index g)"

text \<open>What a checkpoint that was acquired answers; reading one that was not is refused.\<close>

definition acquired_date :: "datetime option \<Rightarrow> sched_error + datetime" where
  "acquired_date v = (case v of None \<Rightarrow> Inl SchedulerRuntimeError | Some d \<Rightarrow> Inr d)"

text \<open>
  From the plan on, under the lock: the loop, then what is left of the plan says when to come back and
  how long to keep the lock. A plan that could not be built leaves the time to come back as it was.
\<close>

definition run_plan :: "tick \<Rightarrow> generator \<Rightarrow> sched_world \<Rightarrow> (sched_error + unit) \<times> generator \<times> sched_world" where
  "run_plan k g w =
    (let c = g_checkpoint g in
     case (acquired_date (c_time c), acquired_date (c_from c)) of
       (Inr last_time, Inr start) \<Rightarrow>
         (case heap_for last_time start (c_index c) g of
            (Inl err, g') \<Rightarrow> (Inl err, g', checkpoint_release (t_now k) None c w)
          | (Inr h, g') \<Rightarrow>
              let (result, hs, c', w') = due_loop (g_name g) k (s_only_last (g_schedule g)) last_time (c_index c)
                    (h_entries h) c w
              in (result, g'\<lparr>g_heap := Some (h\<lparr>h_entries := hs\<rparr>), g_checkpoint := c', g_wait_until := heap_top hs\<rparr>,
                  checkpoint_release (t_now k) (heap_top hs) c' w'))
     | (Inl err, _) \<Rightarrow> (Inl err, g, checkpoint_release (t_now k) None c w)
     | (_, Inl err) \<Rightarrow> (Inl err, g, checkpoint_release (t_now k) None c w))"

definition get_messages :: "tick \<Rightarrow> generator \<Rightarrow> sched_world \<Rightarrow> (sched_error + unit) \<times> generator \<times> sched_world" where
  "get_messages k g0 w =
    (let g = restart_if_changed g0 in
     case g_wait_until g of
       None \<Rightarrow> (Inr (), g, w)
     | Some wait \<Rightarrow>
         if microseconds (t_now k) < microseconds wait then (Inr (), g, w)
         else case checkpoint_acquire (t_now k) (g_checkpoint g) w of
             (Inl err, c, w') \<Rightarrow> (Inl err, g\<lparr>g_checkpoint := c\<rparr>, w')
           | (Inr False, c, w') \<Rightarrow> (Inr (), g\<lparr>g_checkpoint := c\<rparr>, w')
           | (Inr True, c, w') \<Rightarrow> run_plan k (g\<lparr>g_checkpoint := c\<rparr>) w')"

definition generator_close :: "generator \<Rightarrow> sched_world \<Rightarrow> sched_world" where
  "generator_close g w = checkpoint_close (g_checkpoint g) w"

end
