(* ===== verification/Scheduler_Order.thy ===== *)
theory Scheduler_Order
  imports Scheduler_Generator
begin

text \<open>
  The laws of the generator's loop, whatever the triggers answer: the shape of one turn, and the order in
  which runs are handed on and recorded.
\<close>

section \<open>One turn of the loop\<close>

abbreviation at_entry :: "heap_entry \<Rightarrow> int" where
  "at_entry e \<equiv> microseconds (e_time e)"

definition planned :: "datetime option \<Rightarrow> heap_entry \<Rightarrow> heap_entry list \<Rightarrow> heap_entry list" where
  "planned next_time e rest = (case next_time of None \<Rightarrow> rest | Some n \<Rightarrow> heap_insert n (e_index e) (e_message e) rest)"

definition context_of :: "string \<Rightarrow> heap_entry \<Rightarrow> datetime option \<Rightarrow> message_context" where
  "context_of name e next_time = \<lparr>mc_name = name, mc_id = r_id (e_message e), mc_trigger = r_trigger (e_message e),
    triggered_at = e_time e, next_trigger_at = next_time\<rparr>"

lemma sendable_clamp:
  "\<not> already_sent last_time last_index e \<Longrightarrow> (if microseconds last_time \<le> at_entry e then e_time e else last_time) = e_time e"
  by (auto simp: already_sent_def)

lemma due_loop_cases:
  assumes R: "due_loop name k only_last last_time last_index (e # rest) c w = R"
  obtains (future) "microseconds (t_now k) < at_entry e" "R = (Inr (), e # rest, c, w)"
  | (failed) err where "at_entry e \<le> microseconds (t_now k)" "R = (Inl err, rest, c, w)"
      "reschedule_to_latest only_last (r_trigger (e_message e)) (e_time e) (microseconds (t_now k)) = Inl err
        \<or> next_time_of (r_trigger (e_message e)) (if microseconds last_time \<le> at_entry e then e_time e else last_time) = Inl err"
  | (latest) latest where "at_entry e \<le> microseconds (t_now k)" "\<not> already_sent last_time last_index e"
      "reschedule_to_latest only_last (r_trigger (e_message e)) (e_time e) (microseconds (t_now k)) = Inr (Some latest)"
      "at_entry e < microseconds latest"
      "R = due_loop name k only_last last_time last_index (heap_insert latest (e_index e) (e_message e) rest) c w"
  | (skipped) next_time where "at_entry e \<le> microseconds (t_now k)" "already_sent last_time last_index e"
      "next_time_of (r_trigger (e_message e)) (if microseconds last_time \<le> at_entry e then e_time e else last_time) = Inr next_time"
      "R = due_loop name k only_last last_time last_index (planned next_time e rest) c w"
  | (handed) next_time where "at_entry e \<le> microseconds (t_now k)" "\<not> already_sent last_time last_index e"
      "reschedule_to_latest only_last (r_trigger (e_message e)) (e_time e) (microseconds (t_now k)) = Inr None"
      "next_time_of (r_trigger (e_message e)) (e_time e) = Inr next_time"
      "R = (let (result, c', w') = hand_on k (e_index e) (context_of name e next_time) c w in case result of
          Inl err \<Rightarrow> (Inl err, planned next_time e rest, c', w')
        | Inr u \<Rightarrow> due_loop name k only_last last_time last_index (planned next_time e rest) c' w')"
proof (cases "microseconds (t_now k) < at_entry e")
  case True
  with R show ?thesis by (intro future) (simp_all add: due_loop.simps)
next
  case False
  then have due: "at_entry e \<le> microseconds (t_now k)" by simp
  let ?t = "r_trigger (e_message e)"
  show ?thesis
  proof (cases "already_sent last_time last_index e")
    case True
    let ?time = "if microseconds last_time \<le> at_entry e then e_time e else last_time"
    show ?thesis
    proof (cases "next_time_of ?t ?time")
      case (Inl err)
      with R due True show ?thesis by (intro failed [of err]) (simp_all add: due_loop.simps(2) Let_def)
    next
      case (Inr next_time)
      with R due True show ?thesis
        by (intro skipped [of next_time]) (simp_all add: due_loop.simps(2) Let_def planned_def)
    qed
  next
    case send: False
    note clamp = sendable_clamp [OF send]
    show ?thesis
    proof (cases "reschedule_to_latest only_last ?t (e_time e) (microseconds (t_now k))")
      case (Inl err)
      with R due send clamp show ?thesis by (intro failed [of err]) (simp_all add: due_loop.simps(2) Let_def)
    next
      case (Inr found)
      show ?thesis
      proof (cases found)
        case (Some l)
        with Inr have "at_entry e < microseconds l" using reschedule_later by blast
        with R due send clamp Inr Some show ?thesis
          by (intro latest [of l]) (simp_all add: due_loop.simps(2) Let_def)
      next
        case None
        show ?thesis
        proof (cases "next_time_of ?t (e_time e)")
          case (Inl err)
          with R due send clamp \<open>_ = Inr found\<close> None show ?thesis
            by (intro failed [of err]) (simp_all add: due_loop.simps(2) Let_def)
        next
          case (Inr next_time)
          obtain res c' w' where h: "hand_on k (e_index e) (context_of name e next_time) c w = (res, c', w')"
            by (metis surj_pair)
          with R due send clamp \<open>_ = Inr found\<close> None Inr show ?thesis
            by (intro handed [of next_time]) (cases res; simp add: due_loop.simps(2) Let_def planned_def context_of_def)+
        qed
      qed
    qed
  qed
qed

lemma overdue_planned:
  assumes "at_entry e \<le> now_at" "\<And>n. next_time = Some n \<Longrightarrow> at_entry e < microseconds n"
  shows "overdue now_at (planned next_time e rest) < overdue now_at (e # rest)"
proof (cases next_time)
  case None
  with assms(1) show ?thesis by (simp add: planned_def overdue_def)
next
  case (Some n)
  with assms(1) assms(2) [OF Some] show ?thesis by (simp add: planned_def overdue_insert) (simp add: overdue_def)
qed

lemma overdue_latest:
  assumes "at_entry e \<le> now_at" "at_entry e < microseconds latest"
  shows "overdue now_at (heap_insert latest (e_index e) (e_message e) rest) < overdue now_at (e # rest)"
  using overdue_planned [of e now_at "Some latest" rest] assms by (simp add: planned_def)

section \<open>The heap\<close>

definition heap_ok :: "heap_entry list \<Rightarrow> bool" where
  "heap_ok hs \<longleftrightarrow> sorted (map entry_key hs) \<and> distinct (map e_index hs)"

lemma set_heap_insert: "set (heap_insert t i r hs) = insert \<lparr>e_time = t, e_index = i, e_message = r\<rparr> (set hs)"
  by (simp add: heap_insert_def set_insort_key)

lemma indices_insert: "distinct (map e_index (heap_insert t i r hs)) \<longleftrightarrow> i \<notin> e_index ` set hs \<and> distinct (map e_index hs)"
proof (induction hs)
  case (Cons e hs)
  have "set (insort_key entry_key \<lparr>e_time = t, e_index = i, e_message = r\<rparr> hs) = insert \<lparr>e_time = t, e_index = i, e_message = r\<rparr> (set hs)"
    by (simp add: set_insort_key)
  with Cons show ?case by (auto simp: heap_insert_def)
qed (simp add: heap_insert_def)

lemma heap_insert_ok: "heap_ok hs \<Longrightarrow> i \<notin> e_index ` set hs \<Longrightarrow> heap_ok (heap_insert t i r hs)"
  unfolding heap_ok_def indices_insert by (simp add: heap_insert_def sorted_insort_key)

lemma heap_rest:
  assumes "heap_ok (e # rest)"
  shows "heap_ok rest" "e_index e \<notin> e_index ` set rest" "\<And>e'. e' \<in> set rest \<Longrightarrow> entry_key e < entry_key e'"
proof -
  show "heap_ok rest" "e_index e \<notin> e_index ` set rest" using assms by (auto simp: heap_ok_def)
  fix e'
  assume "e' \<in> set rest"
  with assms have "entry_key e \<le> entry_key e'" "e_index e \<noteq> e_index e'" by (auto simp: heap_ok_def)
  then show "entry_key e < entry_key e'" by (auto simp: entry_key_def)
qed

lemma planned_ok:
  assumes "heap_ok (e # rest)"
  shows "heap_ok (planned next_time e rest)"
  using heap_rest(1,2) [OF assms] by (auto simp: planned_def heap_insert_ok split: option.split)

lemma planned_later:
  assumes "heap_ok (e # rest)" "\<And>n. next_time = Some n \<Longrightarrow> at_entry e < microseconds n" "e' \<in> set (planned next_time e rest)"
  shows "entry_key e < entry_key e'"
  using assms heap_rest(3) [OF assms(1)]
  by (auto simp: planned_def set_heap_insert entry_key_def split: option.splits)

section \<open>What is sent, and what is recorded\<close>

definition run_key :: "nat \<times> message_context \<times> nat \<Rightarrow> int \<times> int" where
  "run_key s = (microseconds (triggered_at (fst (snd s))), int (fst s))"

definition record_key :: "checkpoint \<Rightarrow> int \<times> int" where
  "record_key c = (microseconds (the (c_time c)), c_index c)"

definition sent_keys :: "sched_world \<Rightarrow> (int \<times> int) list" where
  "sent_keys w = map run_key (sent w)"

text \<open>No run twice, each after the one before it, and none past \<open>bound\<close>.\<close>

definition sent_until :: "int \<times> int \<Rightarrow> sched_world \<Rightarrow> bool" where
  "sent_until bound w \<longleftrightarrow> sorted_wrt (<) (sent_keys w) \<and> (\<forall>x\<in>set (sent_keys w). x \<le> bound)"

definition in_step :: "checkpoint \<Rightarrow> sched_world \<Rightarrow> bool" where
  "in_step c w \<longleftrightarrow> c_time c \<noteq> None \<and> c_from c \<noteq> None
    \<and> (c_cache c \<and> saves w \<longrightarrow> saved w = Some (the (c_time c), c_index c, c_from c))"

lemma sent_until_snoc:
  assumes "sent_until bound w" "bound < run_key s"
  shows "sent_until (run_key s) (w\<lparr>sent := sent w @ [s]\<rparr>)"
  using assms by (force simp: sent_until_def sent_keys_def sorted_wrt_append)

lemma sent_until_mono: "sent_until b w \<Longrightarrow> b \<le> b' \<Longrightarrow> sent_until b' w"
  by (auto simp: sent_until_def)

lemma sent_until_cong: "sent w = sent w' \<Longrightarrow> sent_until b w = sent_until b w'"
  by (simp add: sent_until_def sent_keys_def)

lemma checkpoint_save_facts:
  assumes "checkpoint_save t i c w = (result, c', w')"
  shows "record_key c' = (microseconds t, i)" "in_step c' w'" "sent w' = sent w" "saves w' = saves w"
    "c_cache c' = c_cache c" "c_lock c' = c_lock c"
    "c_from c' = Some (case c_from c of None \<Rightarrow> t | Some f \<Rightarrow> f)" "c_time c' = Some t" "c_index c' = i"
  using assms by (auto simp: checkpoint_save_def record_key_def in_step_def Let_def split: if_splits option.splits)

text \<open>Handing on a run later than all before it keeps the log in order; nothing taken changes nothing.\<close>

lemma hand_on_sent:
  assumes "hand_on k i ctx c w = (result, c', w')" "sent_until (record_key c) w" "in_step c w"
    "record_key c < (microseconds (triggered_at ctx), int i)"
  shows "in_step c' w'" "sent_until (record_key c') w'" "saves w' = saves w" "c_cache c' = c_cache c" "c_lock c' = c_lock c"
    "record_key c' = record_key c \<or> record_key c' = (microseconds (triggered_at ctx), int i)"
proof -
  have key: "run_key (i, ctx, n) = (microseconds (triggered_at ctx), int i)" for n by (simp add: run_key_def)
  have "in_step c' w' \<and> sent_until (record_key c') w' \<and> saves w' = saves w \<and> c_cache c' = c_cache c \<and> c_lock c' = c_lock c
    \<and> (record_key c' = record_key c \<or> record_key c' = (microseconds (triggered_at ctx), int i))"
  proof (cases "0 < taken (t_deliver k i ctx)")
    case False
    with assms show ?thesis by (simp add: hand_on_def Let_def)
  next
    case True
    let ?w = "w\<lparr>sent := sent w @ [(i, ctx, taken (t_deliver k i ctx))]\<rparr>"
    obtain r where s: "checkpoint_save (triggered_at ctx) (int i) c ?w = (r, c', w')"
      using assms(1) True by (auto simp: hand_on_def Let_def split: prod.splits sum.splits)
    note f = checkpoint_save_facts [OF s]
    have "sent_until (record_key c') ?w" using sent_until_snoc [OF assms(2), of "(i, ctx, taken (t_deliver k i ctx))"] assms(4)
      by (simp add: f(1) key)
    then have "sent_until (record_key c') w'" using sent_until_cong [of w' ?w] f(3) by simp
    with f show ?thesis by simp
  qed
  then show "in_step c' w'" "sent_until (record_key c') w'" "saves w' = saves w" "c_cache c' = c_cache c" "c_lock c' = c_lock c"
    "record_key c' = record_key c \<or> record_key c' = (microseconds (triggered_at ctx), int i)" by blast+
qed

text \<open>
  The loop, from a record that is either the one it started from or before everything left in the plan.
\<close>

lemma already_sent_iff: "already_sent last_time last_index e \<longleftrightarrow> entry_key e \<le> (microseconds last_time, last_index)"
  by (auto simp: already_sent_def entry_key_def)

lemma due_loop_sent:
  assumes "due_loop name k only_last last_time last_index hs c w = (result, hs', c', w')"
    "heap_ok hs" "in_step c w" "sent_until (record_key c) w" "(microseconds last_time, last_index) \<le> record_key c"
    "record_key c = (microseconds last_time, last_index) \<or> (\<forall>e\<in>set hs. record_key c < entry_key e)"
  shows "heap_ok hs' \<and> in_step c' w' \<and> sent_until (record_key c') w' \<and> record_key c \<le> record_key c'
    \<and> saves w' = saves w \<and> c_cache c' = c_cache c \<and> c_lock c' = c_lock c"
  using assms
proof (induction "overdue (microseconds (t_now k)) hs" arbitrary: hs c w rule: less_induct)
  case less
  let ?last = "(microseconds last_time, last_index)"
  show ?case
  proof (cases hs)
    case Nil
    with less.prems show ?thesis by simp
  next
    case (Cons e rest)
    note prems = less.prems [unfolded Cons]
    note IH = less.hyps [unfolded Cons]
    have ok: "heap_ok rest" using heap_rest(1) [OF prems(2)] .
    from prems(1) show ?thesis
    proof (cases rule: due_loop_cases)
      case future
      with prems show ?thesis by auto
    next
      case (failed err)
      with prems ok show ?thesis by auto
    next
      case (latest l)
      let ?hs = "planned (Some l) e rest"
      have p: "heap_insert l (e_index e) (e_message e) rest = ?hs" by (simp add: planned_def)
      have "\<forall>e'\<in>set ?hs. entry_key e < entry_key e'" using planned_later [OF prems(2), of "Some l"] latest(4) by blast
      then have "record_key c = ?last \<or> (\<forall>e'\<in>set ?hs. record_key c < entry_key e')"
        using prems(6) by (auto intro: less_trans)
      with latest prems planned_ok [OF prems(2), of "Some l"] show ?thesis
        unfolding p by (intro IH [OF overdue_planned [of e _ "Some l"]]) simp_all
    next
      case (skipped next_time)
      have rec: "record_key c = ?last"
        using prems(5,6) skipped(2) by (auto simp: already_sent_iff)
      have "at_entry e < microseconds n" if "next_time = Some n" for n
        using next_time_later skipped(3) that by (smt (verit, ccfv_SIG))
      with rec skipped prems planned_ok [OF prems(2)] show ?thesis
        by (intro IH [OF overdue_planned]) simp_all
    next
      case (handed next_time)
      have later: "at_entry e < microseconds n" if "next_time = Some n" for n
        using next_time_later handed(4) that by blast
      obtain r c1 w1 where h: "hand_on k (e_index e) (context_of name e next_time) c w = (r, c1, w1)" by (metis surj_pair)
      have key: "(microseconds (triggered_at (context_of name e next_time)), int (e_index e)) = entry_key e"
        by (simp add: context_of_def entry_key_def)
      have less: "record_key c < entry_key e"
        using prems(6) handed(2) by (auto simp: already_sent_iff)
      note f = hand_on_sent [OF h prems(4,3), unfolded key, OF less]
      have grows: "record_key c \<le> record_key c1" using f(6) less by auto
      show ?thesis
      proof (cases r)
        case (Inl err)
        with handed(5) h f grows planned_ok [OF prems(2)] show ?thesis by auto
      next
        case (Inr u)
        have "\<forall>e'\<in>set (planned next_time e rest). entry_key e < entry_key e'"
          using planned_later [OF prems(2) later] by blast
        then have "record_key c1 = ?last \<or> (\<forall>e'\<in>set (planned next_time e rest). record_key c1 < entry_key e')"
          using f(6) less by (auto intro: less_trans)
        moreover have "?last \<le> record_key c1" using prems(5) grows by simp
        moreover have "due_loop name k only_last last_time last_index (planned next_time e rest) c1 w1 = (result, hs', c', w')"
          using handed(5) h Inr by simp
        ultimately have "heap_ok hs' \<and> in_step c' w' \<and> sent_until (record_key c') w' \<and> record_key c1 \<le> record_key c'
          \<and> saves w' = saves w1 \<and> c_cache c' = c_cache c1 \<and> c_lock c' = c_lock c1"
          using f planned_ok [OF prems(2)] by (intro IH [OF overdue_planned [OF handed(1) later]])
        with f grows show ?thesis by auto
      qed
    qed
  qed
qed


section \<open>A pass keeps the order\<close>

lemma build_plan_ok:
  assumes "build_plan start probe i rs hs = (Inr hs', rs')" "heap_ok hs" "\<forall>e\<in>set hs. e_index e < i"
  shows "heap_ok hs'"
  using assms
proof (induction start probe i rs hs arbitrary: hs' rs' rule: build_plan.induct)
  case (2 start probe i key r rs hs)
  obtain t answer where a: "get_next_run_date (continue_trigger (r_trigger r) start) probe = (t, answer)" by (metis surj_pair)
  then obtain n where n: "answer = Inr n" using "2.prems"(1) by (cases answer) (auto simp: Let_def)
  let ?hs = "case n of None \<Rightarrow> hs | Some d \<Rightarrow> heap_insert d i (r\<lparr>r_trigger := t\<rparr>) hs"
  obtain rs'' where "build_plan start probe (i + 1) rs ?hs = (Inr hs', rs'')"
    using "2.prems"(1) a n by (auto simp: Let_def split: prod.splits)
  moreover have "i \<notin> e_index ` set hs" using "2.prems"(3) by auto
  then have "heap_ok ?hs" "\<forall>e\<in>set ?hs. e_index e < i + 1"
    using "2.prems"(2,3) by (auto simp: heap_insert_ok set_heap_insert split: option.split)
  ultimately show ?case using "2.IH" [OF refl a [symmetric] refl n] by blast
qed simp

definition plan_ok :: "generator \<Rightarrow> bool" where
  "plan_ok g \<longleftrightarrow> (\<forall>h. g_heap g = Some h \<longrightarrow> heap_ok (h_entries h))"

lemma heap_for_ok:
  assumes "heap_for time start last_index g = (result, g')" "plan_ok g"
  shows "plan_ok g' \<and> g_checkpoint g' = g_checkpoint g \<and> (\<forall>h. result = Inr h \<longrightarrow> heap_ok (h_entries h))"
proof -
  have "plan_ok g' \<and> g_checkpoint g' = g_checkpoint g \<and> (\<forall>h. result = Inr h \<longrightarrow> heap_ok (h_entries h))"
    if "rebuild_plan time start last_index g = (result, g')"
    using that assms(2) build_plan_ok [of start _ 0 _ "[]"]
    by (auto simp: rebuild_plan_def plan_ok_def heap_ok_def Let_def split: prod.splits sum.splits)
  with assms show ?thesis by (auto simp: heap_for_def plan_ok_def split: option.splits if_splits)
qed

lemma release_facts:
  "sent (checkpoint_release now n c w) = sent w" "saved (checkpoint_release now n c w) = saved w"
  "saves (checkpoint_release now n c w) = saves w" "lock_free (checkpoint_release now n c w) = lock_free w"
  by (simp_all add: checkpoint_release_def Let_def split: option.split)

lemma release_keeps: "in_step d (checkpoint_release now n c w) = in_step d w"
  "sent_until b (checkpoint_release now n c w) = sent_until b w"
  by (simp_all add: in_step_def sent_until_def sent_keys_def release_facts)

lemma run_plan_sent:
  assumes "run_plan k g w = (result, g', w')" "plan_ok g" "in_step (g_checkpoint g) w"
    "sent_until (record_key (g_checkpoint g)) w"
  shows "plan_ok g' \<and> in_step (g_checkpoint g') w' \<and> sent_until (record_key (g_checkpoint g')) w'
    \<and> saves w' = saves w \<and> c_cache (g_checkpoint g') = c_cache (g_checkpoint g)"
proof -
  let ?c = "g_checkpoint g"
  obtain t f where c: "c_time ?c = Some t" "c_from ?c = Some f" using assms(3) by (auto simp: in_step_def)
  obtain hr g1 where h: "heap_for t f (c_index ?c) g = (hr, g1)" by (metis surj_pair)
  note plan = heap_for_ok [OF h assms(2)]
  show ?thesis
  proof (cases hr)
    case (Inl err)
    then have "g' = g1" "w' = checkpoint_release (t_now k) None ?c w"
      using assms(1) c h by (auto simp: run_plan_def acquired_date_def Let_def)
    with plan assms(3,4) show ?thesis
      by (simp add: release_facts release_keeps)
  next
    case (Inr h0)
    obtain r hs c1 w1 where l: "due_loop (g_name g) k (s_only_last (g_schedule g)) t (c_index ?c) (h_entries h0) ?c w = (r, hs, c1, w1)"
      by (metis surj_pair)
    have last: "record_key ?c = (microseconds t, c_index ?c)" by (simp add: record_key_def c)
    have loop: "heap_ok hs \<and> in_step c1 w1 \<and> sent_until (record_key c1) w1 \<and> record_key ?c \<le> record_key c1
      \<and> saves w1 = saves w \<and> c_cache c1 = c_cache ?c \<and> c_lock c1 = c_lock ?c"
      using due_loop_sent [OF l] plan Inr assms(3,4) last by auto
    have "g' = g1\<lparr>g_heap := Some (h0\<lparr>h_entries := hs\<rparr>), g_checkpoint := c1, g_wait_until := heap_top hs\<rparr>"
      "w' = checkpoint_release (t_now k) (heap_top hs) c1 w1"
      using assms(1) c h Inr l by (auto simp: run_plan_def acquired_date_def Let_def)
    with loop show ?thesis
      by (simp add: plan_ok_def release_facts release_keeps)
  qed
qed

section \<open>Processes that share a cache\<close>

text \<open>
  What happens to a schedule run by several processes: a process starts, or starts anew, with a schedule,
  under a lock or not; it makes a pass, finding the lock free or not and with some lifetime left on it;
  the schedule it holds is changed; it closes. Every process keeps its record in the one cache.
\<close>

datatype sched_step =
    Begins nat string schedule bool
  | Passes nat tick bool "int option"
  | Changes nat "schedule \<Rightarrow> schedule"
  | Closes nat

type_synonym sched_system = "(nat \<Rightarrow> generator option) \<times> sched_world"

fun sched_does :: "sched_step \<Rightarrow> sched_system \<Rightarrow> sched_system" where
  "sched_does (Begins p name s locked) (procs, w) = (procs(p := Some (MessageGenerator_init name s locked True)), w)"
| "sched_does (Passes p k free left) (procs, w) = (case procs p of
      None \<Rightarrow> (procs, w)
    | Some g \<Rightarrow> let (result, g', w') = get_messages k g (w\<lparr>lock_free := free, lock_left := left\<rparr>)
        in (procs(p := Some g'), w'))"
| "sched_does (Changes p change) (procs, w) = (case procs p of
      None \<Rightarrow> (procs, w)
    | Some g \<Rightarrow> (procs(p := Some (g\<lparr>g_schedule := change (g_schedule g)\<rparr>)), w))"
| "sched_does (Closes p) (procs, w) = (case procs p of
      None \<Rightarrow> (procs, w)
    | Some g \<Rightarrow> (procs, generator_close g w))"

definition sched_run :: "sched_step list \<Rightarrow> sched_system \<Rightarrow> sched_system" where
  "sched_run steps sys = fold sched_does steps sys"

text \<open>A cache nobody has written to yet, and no process.\<close>

definition sched_fresh :: "sched_system" where
  "sched_fresh = (\<lambda>p. None, \<lparr>saved = None, saves = True, lock_free = True, lock_held = False, lock_left = None,
    lock_calls = [], sent = []\<rparr>)"

definition shared_ok :: "sched_system \<Rightarrow> bool" where
  "shared_ok sys \<longleftrightarrow> (case sys of (procs, w) \<Rightarrow> saves w
    \<and> (case saved w of None \<Rightarrow> sent w = [] | Some (t, i, f) \<Rightarrow> sent_until (microseconds t, i) w)
    \<and> (\<forall>p g. procs p = Some g \<longrightarrow> plan_ok g \<and> c_cache (g_checkpoint g)))"

lemma cached_acquire:
  assumes "checkpoint_acquire now c w = (Inr True, c', w')" "c_cache c" "saves w"
    "case saved w of None \<Rightarrow> sent w = [] | Some (t, i, f) \<Rightarrow> sent_until (microseconds t, i) w"
  shows "in_step c' w' \<and> sent_until (record_key c') w' \<and> saves w' \<and> c_cache c'"
proof -
  have fill: "fill_in now d = d" if "c_time d \<noteq> None" "c_from d \<noteq> None" for d
    using that by (auto simp: fill_in_def split: option.splits)
  show ?thesis
  proof (cases "saved w")
    case None
    with assms show ?thesis
      by (auto simp: checkpoint_acquire_def cached_state_def checkpoint_save_def fill in_step_def record_key_def
          sent_until_def sent_keys_def Let_def split: if_splits)
  next
    case (Some st)
    with assms show ?thesis
      by (auto simp: checkpoint_acquire_def cached_state_def checkpoint_save_def fill in_step_def record_key_def
          sent_until_def sent_keys_def Let_def split: if_splits prod.splits option.splits)
  qed
qed

lemma cached_acquire_other:
  assumes "checkpoint_acquire now c w = (result, c', w')" "result \<noteq> Inr True" "c_cache c" "saves w"
  shows "saved w' = saved w \<and> sent w' = sent w \<and> saves w' \<and> c_cache c'"
  using assms by (auto simp: checkpoint_acquire_def cached_state_def checkpoint_save_def Let_def
      split: if_splits prod.splits option.splits)


lemma get_messages_shared:
  assumes "get_messages k g w = (result, g', w')" "plan_ok g" "c_cache (g_checkpoint g)" "saves w"
    "case saved w of None \<Rightarrow> sent w = [] | Some (t, i, f) \<Rightarrow> sent_until (microseconds t, i) w"
  shows "plan_ok g' \<and> c_cache (g_checkpoint g') \<and> saves w'
    \<and> (case saved w' of None \<Rightarrow> sent w' = [] | Some (t, i, f) \<Rightarrow> sent_until (microseconds t, i) w')"
proof -
  define g1 where "g1 = restart_if_changed g"
  have g1: "plan_ok g1" "g_checkpoint g1 = g_checkpoint g"
    using assms(2) by (auto simp: g1_def restart_if_changed_def plan_ok_def)
  show ?thesis
  proof (cases "\<exists>wait. g_wait_until g1 = Some wait \<and> microseconds wait \<le> microseconds (t_now k)")
    case False
    then have same: "g' = g1" "w' = w"
      using assms(1) by (auto simp: get_messages_def g1_def [symmetric] Let_def split: option.splits if_splits)
    show ?thesis unfolding same using g1 assms(3-5) by simp
  next
    case True
    obtain r c2 w2 where a: "checkpoint_acquire (t_now k) (g_checkpoint g) w = (r, c2, w2)" by (metis surj_pair)
    let ?g2 = "g1\<lparr>g_checkpoint := c2\<rparr>"
    show ?thesis
    proof (cases "r = Inr True")
      case False
      with True a g1(2) have "g' = ?g2" "w' = w2"
        using assms(1) by (auto simp: get_messages_def g1_def [symmetric] Let_def split: option.splits if_splits sum.splits bool.splits)
      with cached_acquire_other [OF a False assms(3,4)] g1 assms(5) show ?thesis
        by (auto simp: plan_ok_def sent_until_def sent_keys_def split: option.splits)
    next
      case run: True
      with True a g1(2) have p: "run_plan k ?g2 w2 = (result, g', w')"
        using assms(1) by (auto simp: get_messages_def g1_def [symmetric] Let_def)
      have acq: "in_step c2 w2 \<and> sent_until (record_key c2) w2 \<and> saves w2 \<and> c_cache c2"
        using cached_acquire [OF _ assms(3,4,5)] a run by blast
      have "plan_ok ?g2" using g1 by (simp add: plan_ok_def)
      from run_plan_sent [OF p this] acq
      have "plan_ok g' \<and> in_step (g_checkpoint g') w' \<and> sent_until (record_key (g_checkpoint g')) w' \<and> saves w'
        \<and> c_cache (g_checkpoint g')" by simp
      then show ?thesis by (auto simp: in_step_def record_key_def)
    qed
  qed
qed

lemma close_facts: "sent (generator_close g w) = sent w" "saved (generator_close g w) = saved w" "saves (generator_close g w) = saves w"
  by (simp_all add: generator_close_def checkpoint_close_def)

lemma sched_does_ok: "shared_ok sys \<Longrightarrow> shared_ok (sched_does step sys)"
proof (cases sys)
  case (Pair procs w)
  assume ok: "shared_ok sys"
  show ?thesis
  proof (cases step)
    case (Begins p name s locked)
    with ok Pair show ?thesis by (auto simp: shared_ok_def MessageGenerator_init_def Checkpoint_init_def plan_ok_def)
  next
    case (Passes p k free left)
    show ?thesis
    proof (cases "procs p")
      case None
      with ok Pair Passes show ?thesis by simp
    next
      case (Some g)
      let ?w = "w\<lparr>lock_free := free, lock_left := left\<rparr>"
      obtain r g' w' where m: "get_messages k g ?w = (r, g', w')" by (metis surj_pair)
      have g: "plan_ok g" "c_cache (g_checkpoint g)" "saves ?w"
        "case saved ?w of None \<Rightarrow> sent ?w = [] | Some (t, i, f) \<Rightarrow> sent_until (microseconds t, i) ?w"
        using ok Pair Some by (auto simp: shared_ok_def sent_until_def sent_keys_def split: option.splits)
      from get_messages_shared [OF m g] ok Pair Passes Some m show ?thesis by (auto simp: shared_ok_def)
    qed
  next
    case (Changes p change)
    with ok Pair show ?thesis by (auto simp: shared_ok_def plan_ok_def split: option.split)
  next
    case (Closes p)
    with ok Pair show ?thesis
      by (auto simp: shared_ok_def close_facts sent_until_def sent_keys_def split: option.splits)
  qed
qed

lemma sched_run_ok: "shared_ok sys \<Longrightarrow> shared_ok (sched_run steps sys)"
  unfolding sched_run_def by (induction steps arbitrary: sys) (simp_all add: sched_does_ok)

text \<open>
  Passes that do not overlap: under a lock or not, no run is sent twice as long as the cache keeps the record.
\<close>

lemma passes_in_turn_send_once:
  "case sched_run steps sched_fresh of (procs, w) \<Rightarrow> sorted_wrt (<) (sent_keys w) \<and> distinct (sent_keys w)
    \<and> (sent w = [] \<or> (case saved w of None \<Rightarrow> False | Some (t, i, f) \<Rightarrow> last (sent_keys w) \<le> (microseconds t, i)))"
proof -
  obtain procs w where r: "sched_run steps sched_fresh = (procs, w)" by (metis surj_pair)
  have "shared_ok sched_fresh" by (simp add: shared_ok_def sched_fresh_def)
  from sched_run_ok [OF this, of steps] have ok: "shared_ok (procs, w)" by (simp add: r)
  show ?thesis
  proof (cases "saved w")
    case None
    with ok show ?thesis by (simp add: r shared_ok_def sent_keys_def)
  next
    case (Some st)
    obtain t i f where st: "st = (t, i, f)" by (metis surj_pair)
    have s: "sent_until (microseconds t, i) w" using ok Some by (simp add: shared_ok_def st)
    then have "distinct (sent_keys w)" by (auto simp: sent_until_def strict_sorted_iff)
    moreover have "last (sent_keys w) \<in> set (sent_keys w)" if "sent w \<noteq> []"
      using that by (intro last_in_set) (simp add: sent_keys_def)
    then have "sent w = [] \<or> last (sent_keys w) \<le> (microseconds t, i)"
      using s by (auto simp: sent_until_def)
    ultimately show ?thesis using s Some by (auto simp: r st sent_until_def)
  qed
qed

end
