(* ===== verification/Scheduler_Complete.thy ===== *)
theory Scheduler_Complete
  imports Scheduler_Order
begin

text \<open>
  What a pass sends: every run that is due. The plan covers the runs after some point when it holds, for
  every recurring message, the first of its runs past that point; the loop moves the point to the present
  and sends what it passes.
\<close>

section \<open>A plan that covers what is to come\<close>

definition asks :: "recurring \<Rightarrow> datetime \<Rightarrow> sched_error + datetime option" where
  "asks r d = snd (get_next_run_date (r_trigger r) d)"

definition covers :: "recurring list \<Rightarrow> (nat \<Rightarrow> int set) \<Rightarrow> int \<times> int \<Rightarrow> heap_entry list \<Rightarrow> bool" where
  "covers rs R point hs \<longleftrightarrow> heap_ok hs
    \<and> (\<forall>e\<in>set hs. e_index e < length rs \<and> e_message e = rs ! e_index e \<and> datetime_ok (e_time e)
        \<and> at_entry e \<in> R (e_index e) \<and> point < entry_key e)
    \<and> (\<forall>i<length rs. \<forall>x\<in>R i. point < (x, int i) \<longrightarrow> (\<exists>e\<in>set hs. e_index e = i \<and> at_entry e \<le> x))"

text \<open>The runs due by an instant, past a point.\<close>

definition due_runs :: "nat \<Rightarrow> (nat \<Rightarrow> int set) \<Rightarrow> int \<times> int \<Rightarrow> int \<Rightarrow> (int \<times> int) set" where
  "due_runs n R point now_at = {(x, i). \<exists>j<n. i = int j \<and> x \<in> R j \<and> point < (x, i) \<and> x \<le> now_at}"

lemma covers_first:
  assumes "covers rs R point (e # rest)" "i < length rs" "x \<in> R i" "point < (x, int i)"
  shows "entry_key e \<le> (x, int i)"
proof -
  obtain e' where e': "e' \<in> set (e # rest)" "e_index e' = i" "at_entry e' \<le> x"
    using assms unfolding covers_def by blast
  then have "entry_key e' \<le> (x, int i)" by (auto simp: entry_key_def)
  moreover have "entry_key e \<le> entry_key e'"
    using e'(1) heap_rest(3) [of e rest e'] assms(1) by (auto simp: covers_def)
  ultimately show ?thesis by simp
qed

text \<open>Past its first entry, with the next run of that message put back, the plan covers what follows the entry.\<close>

lemma covers_advance:
  assumes "covers rs R point (e # rest)" "answers (asks (e_message e)) (R (e_index e))"
    "asks (e_message e) (e_time e) = Inr next_time"
  shows "covers rs R (entry_key e) (planned next_time e rest)"
proof -
  have e: "e_index e < length rs" "e_message e = rs ! e_index e" "datetime_ok (e_time e)" "point < entry_key e"
    and ok: "heap_ok (e # rest)" using assms(1) by (auto simp: covers_def)
  have n: "case next_time of None \<Rightarrow> \<forall>x\<in>R (e_index e). x \<le> at_entry e
    | Some d \<Rightarrow> datetime_ok d \<and> microseconds d \<in> R (e_index e) \<and> at_entry e < microseconds d
        \<and> (\<forall>x\<in>R (e_index e). at_entry e < x \<longrightarrow> microseconds d \<le> x)"
    using assms(2,3) e(3) by (auto simp: answers_def)
  show ?thesis unfolding covers_def
  proof (intro conjI ballI allI impI)
    show "heap_ok (planned next_time e rest)" using planned_ok [OF ok] .
  next
    fix e'
    assume e': "e' \<in> set (planned next_time e rest)"
    then show "entry_key e < entry_key e'"
      using planned_later [OF ok _ e'] n by (auto split: option.splits)
    show "e_index e' < length rs" "e_message e' = rs ! e_index e'" "datetime_ok (e_time e')" "at_entry e' \<in> R (e_index e')"
      using e' n e assms(1) by (auto simp: planned_def set_heap_insert covers_def split: option.splits)
  next
    fix i x
    assume i: "i < length rs" and x: "x \<in> R i" "entry_key e < (x, int i)"
    show "\<exists>e'\<in>set (planned next_time e rest). e_index e' = i \<and> at_entry e' \<le> x"
    proof (cases "i = e_index e")
      case True
      then have "at_entry e < x" using x(2) by (auto simp: entry_key_def)
      with True n x(1) obtain d where "next_time = Some d" "microseconds d \<le> x"
        by (auto split: option.splits)
      with True show ?thesis by (simp add: planned_def set_heap_insert)
    next
      case False
      have "point < (x, int i)" using e(4) x(2) by simp
      then obtain e' where "e' \<in> set (e # rest)" "e_index e' = i" "at_entry e' \<le> x"
        using assms(1) i x(1) unfolding covers_def by blast
      with False have "e' \<in> set rest" by auto
      with \<open>e_index e' = i\<close> \<open>at_entry e' \<le> x\<close> show ?thesis
        by (auto simp: planned_def set_heap_insert split: option.split)
    qed
  qed
qed

lemma due_runs_first:
  assumes "covers rs R point (e # rest)" "at_entry e \<le> now_at"
  shows "due_runs (length rs) R point now_at = insert (entry_key e) (due_runs (length rs) R (entry_key e) now_at)"
proof -
  have e: "e_index e < length rs" "at_entry e \<in> R (e_index e)" "point < entry_key e" using assms(1) by (auto simp: covers_def)
  have "y \<in> due_runs (length rs) R point now_at \<longleftrightarrow> y \<in> insert (entry_key e) (due_runs (length rs) R (entry_key e) now_at)" for y
  proof
    assume "y \<in> due_runs (length rs) R point now_at"
    then obtain x j where y: "y = (x, int j)" "j < length rs" "x \<in> R j" "point < y" "x \<le> now_at"
      by (auto simp: due_runs_def)
    then have "entry_key e \<le> y" using covers_first [OF assms(1), of j x] by simp
    with y show "y \<in> insert (entry_key e) (due_runs (length rs) R (entry_key e) now_at)"
      by (auto simp: due_runs_def)
  next
    assume "y \<in> insert (entry_key e) (due_runs (length rs) R (entry_key e) now_at)"
    then consider "y = entry_key e" | "y \<in> due_runs (length rs) R (entry_key e) now_at" by blast
    then show "y \<in> due_runs (length rs) R point now_at"
    proof cases
      case 1
      with e assms(2) show ?thesis by (auto simp: due_runs_def entry_key_def)
    next
      case 2
      then have "point < y" using e(3) by (auto simp: due_runs_def intro: less_trans)
      with 2 show ?thesis by (auto simp: due_runs_def)
    qed
  qed
  then show ?thesis by blast
qed

lemma covers_future:
  assumes "covers rs R point hs" "\<forall>e\<in>set hs. now_at < at_entry e" "point \<le> (now_at, int (length rs))"
  shows "covers rs R (now_at, int (length rs)) hs" "due_runs (length rs) R point now_at = {}"
proof -
  show "covers rs R (now_at, int (length rs)) hs" unfolding covers_def
  proof (intro conjI ballI allI impI)
    show "heap_ok hs" using assms(1) by (simp add: covers_def)
  next
    fix e
    assume e: "e \<in> set hs"
    then show "e_index e < length rs" "e_message e = rs ! e_index e" "datetime_ok (e_time e)" "at_entry e \<in> R (e_index e)"
      using assms(1) by (auto simp: covers_def)
    show "(now_at, int (length rs)) < entry_key e" using assms(2) e by (simp add: entry_key_def)
  next
    fix i x
    assume "i < length rs" "x \<in> R i" "(now_at, int (length rs)) < (x, int i)"
    moreover from this have "point < (x, int i)" using assms(3) by (simp add: order.strict_trans1)
    ultimately show "\<exists>e\<in>set hs. e_index e = i \<and> at_entry e \<le> x" using assms(1) unfolding covers_def by blast
  qed
  show "due_runs (length rs) R point now_at = {}"
  proof (rule ccontr)
    assume "due_runs (length rs) R point now_at \<noteq> {}"
    then obtain x j where "j < length rs" "x \<in> R j" "point < (x, int j)" "x \<le> now_at" by (auto simp: due_runs_def)
    moreover from this obtain e where "e \<in> set hs" "at_entry e \<le> x" using assms(1) unfolding covers_def by blast
    ultimately show False using assms(2) by force
  qed
qed

section \<open>The loop sends what is due\<close>

text \<open>A pass in which every run is handed on whole, at least one message each.\<close>

definition takes_all :: "tick \<Rightarrow> bool" where
  "takes_all k \<longleftrightarrow> (\<forall>i ctx. \<exists>n. t_deliver k i ctx = Completed (Suc n))"

lemma hand_on_all:
  assumes "takes_all k" "c_cache c \<longrightarrow> saves w"
  obtains c' w' where "hand_on k i ctx c w = (Inr (), c', w')" "c_time c' = Some (triggered_at ctx)" "c_index c' = int i"
    "c_cache c' = c_cache c" "c_lock c' = c_lock c" "c_reset c' = c_reset c" "c_from c \<noteq> None \<Longrightarrow> c_from c' = c_from c"
    "saves w' = saves w" "lock_free w' = lock_free w" "sent_keys w' = sent_keys w @ [(microseconds (triggered_at ctx), int i)]"
    "in_step c' w'"
proof -
  obtain n where n: "t_deliver k i ctx = Completed (Suc n)" using assms(1) unfolding takes_all_def by blast
  obtain res c' w' where "checkpoint_save (triggered_at ctx) (int i) c (w\<lparr>sent := sent w @ [(i, ctx, Suc n)]\<rparr>) = (res, c', w')"
    by (metis surj_pair)
  moreover from this have "res = Inr ()" using assms(2) by (auto simp: checkpoint_save_def Let_def split: if_splits)
  ultimately have s: "checkpoint_save (triggered_at ctx) (int i) c (w\<lparr>sent := sent w @ [(i, ctx, Suc n)]\<rparr>) = (Inr (), c', w')"
    by simp
  then have "hand_on k i ctx c w = (Inr (), c', w')" by (simp add: hand_on_def n)
  moreover have "lock_free w' = lock_free w" "c_reset c' = c_reset c"
    using s by (auto simp: checkpoint_save_def Let_def split: if_splits)
  ultimately show ?thesis
    using checkpoint_save_facts [OF s] by (intro that [of c' w']) (auto simp: sent_keys_def run_key_def)
qed

lemma next_time_asks:
  assumes "answers (asks r) R" "datetime_ok d"
  obtains n where "next_time_of (r_trigger r) d = Inr n" "asks r d = Inr n"
proof (cases rule: answersE [OF assms])
  case 1
  then show ?thesis by (intro that [of None]) (simp_all add: next_time_of_def asks_def)
next
  case (2 n)
  then show ?thesis by (intro that [of "Some n"]) (simp_all add: next_time_of_def asks_def)
qed

lemma due_loop_complete:
  assumes "due_loop name k False last_time last_index hs c w = (result, hs', c', w')"
    "covers rs R point hs" "\<And>i. i < length rs \<Longrightarrow> answers (asks (rs ! i)) (R i)" "takes_all k"
    "c_cache c \<longrightarrow> saves w" "point \<le> (microseconds (t_now k), int (length rs))" "\<forall>e\<in>set hs. microseconds last_time \<le> at_entry e"
    "in_step c w" "microseconds (the (c_time c)) \<le> microseconds (t_now k)"
    "\<forall>e\<in>set hs. microseconds (the (c_time c)) \<le> at_entry e"
  shows "result = Inr () \<and> covers rs R (microseconds (t_now k), int (length rs)) hs'
    \<and> set (sent_keys w') = set (sent_keys w)
        \<union> {y \<in> due_runs (length rs) R point (microseconds (t_now k)). (microseconds last_time, last_index) < y}
    \<and> c_cache c' = c_cache c \<and> c_lock c' = c_lock c \<and> c_reset c' = c_reset c \<and> c_from c' = c_from c \<and> in_step c' w'
    \<and> microseconds (the (c_time c)) \<le> microseconds (the (c_time c')) \<and> microseconds (the (c_time c')) \<le> microseconds (t_now k) \<and> saves w' = saves w \<and> lock_free w' = lock_free w"
  using assms(1,2,5-)
proof (induction "overdue (microseconds (t_now k)) hs" arbitrary: hs c w point rule: less_induct)
  case less
  let ?now = "microseconds (t_now k)" and ?last = "(microseconds last_time, last_index)"
  show ?case
  proof (cases hs)
    case Nil
    with less.prems covers_future [OF less.prems(2), of ?now] show ?thesis by simp
  next
    case (Cons e rest)
    note prems = less.prems [unfolded Cons]
    have e: "e_index e < length rs" "e_message e = rs ! e_index e" "datetime_ok (e_time e)" "heap_ok (e # rest)"
      "microseconds last_time \<le> at_entry e" using prems(2,5) by (auto simp: covers_def)
    have ans: "answers (asks (e_message e)) (R (e_index e))" using assms(3) [OF e(1)] e(2) by simp
    obtain n where n: "next_time_of (r_trigger (e_message e)) (e_time e) = Inr n" "asks (e_message e) (e_time e) = Inr n"
      by (rule next_time_asks [OF ans e(3)])
    have later: "at_entry e < microseconds d" if "n = Some d" for d using n(1) that next_time_later by blast
    have cov: "covers rs R (entry_key e) (planned n e rest)" by (rule covers_advance [OF prems(2) ans n(2)])
    have old: "\<forall>e'\<in>set (planned n e rest). microseconds last_time \<le> at_entry e'"
      using planned_later [OF e(4) later] e(5) by (force simp: entry_key_def)
    from prems(1) show ?thesis
    proof (cases rule: due_loop_cases)
      case future
      moreover have "at_entry e \<le> at_entry e'" if "e' \<in> set rest" for e'
        using heap_rest(3) [OF e(4) that] by (auto simp: entry_key_def)
      ultimately have "\<forall>e'\<in>set (e # rest). ?now < at_entry e'" by force
      with future prems covers_future [OF prems(2), of ?now] show ?thesis by auto
    next
      case (failed err)
      with n e(5) show ?thesis by (simp add: reschedule_to_latest_def)
    next
      case (latest l)
      then show ?thesis by (simp add: reschedule_to_latest_def)
    next
      case (skipped m)
      then have m: "m = n" using n(1) e(5) by simp
      have key: "entry_key e \<le> (?now, int (length rs))" using skipped(1) e(1) by (auto simp: entry_key_def)
      have "due_runs (length rs) R point ?now = insert (entry_key e) (due_runs (length rs) R (entry_key e) ?now)"
        by (rule due_runs_first [OF prems(2) skipped(1)])
      moreover have "\<not> ?last < entry_key e" using skipped(2) by (simp add: already_sent_iff)
      ultimately have sends: "{y \<in> due_runs (length rs) R point ?now. ?last < y} = {y \<in> due_runs (length rs) R (entry_key e) ?now. ?last < y}"
        by auto
      have old': "\<forall>e'\<in>set (planned n e rest). microseconds (the (c_time c)) \<le> at_entry e'"
        using planned_later [OF e(4) later] prems(8) by (force simp: entry_key_def)
      show ?thesis unfolding sends
        by (rule less.hyps [OF _ _ cov])
          (use skipped(4) m prems old old' key overdue_planned [OF skipped(1) later] in \<open>simp_all add: Cons\<close>)
    next
      case (handed m)
      then have m: "m = n" using n(1) by simp
      have key: "entry_key e \<le> (?now, int (length rs))" using handed(1) e(1) by (auto simp: entry_key_def)
      let ?ctx = "context_of name e n"
      have ctx: "triggered_at ?ctx = e_time e" by (simp add: context_of_def)
      obtain c1 w1 where h: "hand_on k (e_index e) ?ctx c w = (Inr (), c1, w1)" "c_time c1 = Some (triggered_at ?ctx)"
        "c_cache c1 = c_cache c" "c_lock c1 = c_lock c" "c_reset c1 = c_reset c" "c_from c1 = c_from c"
        "saves w1 = saves w" "lock_free w1 = lock_free w" "sent_keys w1 = sent_keys w @ [(microseconds (triggered_at ?ctx), int (e_index e))]"
        "in_step c1 w1"
        using hand_on_all [OF assms(4) prems(3), of "e_index e" ?ctx] prems(6) unfolding in_step_def by metis
      have after: "\<forall>e'\<in>set (planned n e rest). at_entry e \<le> at_entry e'"
        using planned_later [OF e(4) later] by (force simp: entry_key_def)
      have grows: "microseconds (the (c_time c)) \<le> at_entry e" using prems(8) by simp
      have "due_runs (length rs) R point ?now = insert (entry_key e) (due_runs (length rs) R (entry_key e) ?now)"
        by (rule due_runs_first [OF prems(2) handed(1)])
      moreover have "?last < entry_key e" using handed(2) by (simp add: already_sent_iff)
      ultimately have sends: "{y \<in> due_runs (length rs) R point ?now. ?last < y}
          = insert (entry_key e) {y \<in> due_runs (length rs) R (entry_key e) ?now. ?last < y}" by auto
      have sent1: "set (sent_keys w1) = insert (entry_key e) (set (sent_keys w))" by (simp add: h(9) ctx entry_key_def)
      have loop: "due_loop name k False last_time last_index (planned n e rest) c1 w1 = (result, hs', c', w')"
        using handed(5) h(1) m by simp
      have "result = Inr () \<and> covers rs R (?now, int (length rs)) hs'
        \<and> set (sent_keys w') = set (sent_keys w1) \<union> {y \<in> due_runs (length rs) R (entry_key e) ?now. ?last < y}
        \<and> c_cache c' = c_cache c1 \<and> c_lock c' = c_lock c1 \<and> c_reset c' = c_reset c1 \<and> c_from c' = c_from c1 \<and> in_step c' w'
        \<and> microseconds (the (c_time c1)) \<le> microseconds (the (c_time c')) \<and> microseconds (the (c_time c')) \<le> ?now \<and> saves w' = saves w1 \<and> lock_free w' = lock_free w1"
        by (rule less.hyps [OF _ loop cov])
          (use h ctx prems old after key handed(1) overdue_planned [OF handed(1) later] in \<open>simp_all add: Cons\<close>)
      with h sends sent1 grows ctx show ?thesis by simp
    qed
  qed
qed


section \<open>A fresh plan\<close>

definition counted_from :: "datetime \<Rightarrow> recurring \<Rightarrow> recurring" where
  "counted_from start r = r\<lparr>r_trigger := continue_trigger (r_trigger r) start\<rparr>"

lemma asks_counted: "asks (counted_from start r) = run_after (r_trigger r) start"
  by (rule ext) (simp add: asks_def counted_from_def get_next_continued)

definition runs_of :: "recurring list \<Rightarrow> datetime \<Rightarrow> nat \<Rightarrow> int set" where
  "runs_of rs start j = runs (r_trigger (rs ! j)) start"

definition well_formed :: "recurring list \<Rightarrow> datetime \<Rightarrow> bool" where
  "well_formed rs start \<longleftrightarrow> (\<forall>r\<in>set rs. wf_trigger (r_trigger r) start)"

lemma answers_counted:
  assumes "well_formed rs start" "i < length rs"
  shows "answers (asks (map (counted_from start) rs ! i)) (runs_of rs start i)"
  using assms run_after_answers by (simp add: asks_counted runs_of_def well_formed_def)

lemma build_plan_entries:
  assumes "\<forall>r\<in>set (map snd ms). wf_trigger (r_trigger r) start" "datetime_ok probe"
  shows "\<exists>hs' ms'. build_plan start probe i ms hs = (Inr hs', ms')
    \<and> ms' = map (\<lambda>(key, r). (key, counted_from start r)) ms
    \<and> set hs' = set hs \<union> {e. \<exists>j<length ms. run_after (r_trigger (snd (ms ! j))) start probe = Inr (Some (e_time e))
        \<and> e_index e = i + j \<and> e_message e = counted_from start (snd (ms ! j)) }"
  using assms(1)
proof (induction ms arbitrary: i hs)
  case Nil
  then show ?case by simp
next
  case (Cons m ms)
  obtain key r where m: "m = (key, r)" by (metis surj_pair)
  have wf: "wf_trigger (r_trigger r) start" using Cons.prems m by simp
  obtain n where n: "run_after (r_trigger r) start probe = Inr n"
    using answersE [OF run_after_answers [OF wf] assms(2)] by metis
  let ?hs = "case n of None \<Rightarrow> hs | Some d \<Rightarrow> heap_insert d i (counted_from start r) hs"
  obtain hs' where b: "build_plan start probe (i + 1) ms ?hs = (Inr hs', map (\<lambda>(key, r). (key, counted_from start r)) ms)"
    and set': "set hs' = set ?hs \<union> {e. \<exists>j<length ms. run_after (r_trigger (snd (ms ! j))) start probe = Inr (Some (e_time e))
        \<and> e_index e = i + 1 + j \<and> e_message e = counted_from start (snd (ms ! j))}"
    using Cons.IH [of "i + 1" ?hs] Cons.prems by auto
  have build: "build_plan start probe i (m # ms) hs = (Inr hs', map (\<lambda>(key, r). (key, counted_from start r)) (m # ms))"
    using b n by (cases n) (simp_all add: m get_next_continued Let_def counted_from_def [symmetric])
  have here: "set ?hs = set hs \<union> {e. run_after (r_trigger r) start probe = Inr (Some (e_time e)) \<and> e_index e = i
      \<and> e_message e = counted_from start r}"
    by (cases n) (auto simp: n set_heap_insert intro!: heap_entry.equality)
  have split: "(\<exists>j<length (m # ms). P (snd ((m # ms) ! j)) (i + j)) \<longleftrightarrow> P r i \<or> (\<exists>j<length ms. P (snd (ms ! j)) (i + 1 + j))"
    for P :: "recurring \<Rightarrow> nat \<Rightarrow> bool"
    by (simp add: m Ex_less_Suc2)
  have "set hs' = set hs \<union> {e. \<exists>j<length (m # ms). run_after (r_trigger (snd ((m # ms) ! j))) start probe = Inr (Some (e_time e))
        \<and> e_index e = i + j \<and> e_message e = counted_from start (snd ((m # ms) ! j))}"
    unfolding set' here
    using split [of "\<lambda>r j. run_after (r_trigger r) start probe = Inr (Some (e_time _)) \<and> e_index _ = j \<and> e_message _ = counted_from start r"]
    by (simp add: m Ex_less_Suc2) auto
  with build show ?case by blast
qed

lemma fresh_plan_covers:
  assumes "well_formed (map snd ms) start" "datetime_ok probe"
  obtains hs where "build_plan start probe 0 ms [] = (Inr hs, map (\<lambda>(key, r). (key, counted_from start r)) ms)"
    "covers (map (counted_from start) (map snd ms)) (runs_of (map snd ms) start) (microseconds probe, int (length ms)) hs"
proof -
  let ?rs = "map (counted_from start) (map snd ms)" and ?R = "runs_of (map snd ms) start"
  obtain hs where b: "build_plan start probe 0 ms [] = (Inr hs, map (\<lambda>(key, r). (key, counted_from start r)) ms)"
    and hs: "set hs = {e. \<exists>j<length ms. run_after (r_trigger (snd (ms ! j))) start probe = Inr (Some (e_time e))
        \<and> e_index e = j \<and> e_message e = counted_from start (snd (ms ! j))}"
    using build_plan_entries [of ms start probe 0 "[]"] assms by (auto simp: well_formed_def)
  have ans: "case run_after (r_trigger (snd (ms ! j))) start probe of Inl err \<Rightarrow> False
      | Inr None \<Rightarrow> \<forall>x\<in>?R j. x \<le> microseconds probe
      | Inr (Some d) \<Rightarrow> datetime_ok d \<and> microseconds d \<in> ?R j \<and> microseconds probe < microseconds d
          \<and> (\<forall>x\<in>?R j. microseconds probe < x \<longrightarrow> microseconds d \<le> x)" if "j < length ms" for j
  proof -
    have "wf_trigger (r_trigger (snd (ms ! j))) start" using assms(1) that by (simp add: well_formed_def)
    from answersE [OF run_after_answers [OF this] assms(2)] show ?thesis
      using that by (fastforce simp: runs_of_def)
  qed
  have "covers ?rs ?R (microseconds probe, int (length ms)) hs" unfolding covers_def
  proof (intro conjI ballI allI impI)
    show "heap_ok hs" using build_plan_ok [OF b] by (simp add: heap_ok_def)
  next
    fix e
    assume "e \<in> set hs"
    then obtain j where j: "j < length ms" "run_after (r_trigger (snd (ms ! j))) start probe = Inr (Some (e_time e))"
      "e_index e = j" "e_message e = counted_from start (snd (ms ! j))" using hs by blast
    with ans [OF j(1)] show "e_index e < length ?rs" "e_message e = ?rs ! e_index e" "datetime_ok (e_time e)"
      "at_entry e \<in> ?R (e_index e)" "(microseconds probe, int (length ms)) < entry_key e"
      by (simp_all add: entry_key_def)
  next
    fix i x
    assume i: "i < length ?rs" and x: "x \<in> ?R i" "(microseconds probe, int (length ms)) < (x, int i)"
    then have "microseconds probe < x" by auto
    with ans [of i] i x(1) obtain d where d: "run_after (r_trigger (snd (ms ! i))) start probe = Inr (Some d)" "microseconds d \<le> x"
      by (fastforce split: sum.splits option.splits)
    let ?e = "\<lparr>e_time = d, e_index = i, e_message = counted_from start (snd (ms ! i))\<rparr>"
    have "?e \<in> set hs" using d i by (simp add: hs)
    with d show "\<exists>e\<in>set hs. e_index e = i \<and> at_entry e \<le> x" by (intro bexI [of _ ?e]) simp_all
  qed
  with b show ?thesis by (rule that)
qed


section \<open>Passes\<close>

text \<open>A process that sent everything up to \<open>until_at\<close> and whose plan holds what comes after.\<close>

definition serving :: "recurring list \<Rightarrow> (nat \<Rightarrow> int set) \<Rightarrow> int \<Rightarrow> generator \<Rightarrow> sched_world \<Rightarrow> bool" where
  "serving rs R until_at g w \<longleftrightarrow> (\<exists>h. g_heap g = Some h \<and> g_wait_until g = heap_top (h_entries h)
      \<and> covers rs R (until_at, int (length rs)) (h_entries h)
      \<and> microseconds (h_time h) \<le> microseconds (the (c_time (g_checkpoint g))))
    \<and> microseconds (the (c_time (g_checkpoint g))) \<le> until_at
    \<and> in_step (g_checkpoint g) w \<and> \<not> c_reset (g_checkpoint g) \<and> (c_lock (g_checkpoint g) \<longrightarrow> lock_free w) \<and> saves w
    \<and> \<not> s_restart (g_schedule g) \<and> \<not> s_only_last (g_schedule g)"

lemma acquire_again:
  assumes "in_step c w" "saves w" "\<not> c_reset c" "c_lock c \<longrightarrow> lock_free w"
  obtains w' where "checkpoint_acquire now c w = (Inr True, c, w')" "in_step c w'" "sent_keys w' = sent_keys w" "saves w'" "lock_free w' = lock_free w"
proof -
  have fill: "fill_in now c = c" using assms(1) by (auto simp: fill_in_def in_step_def split: option.splits)
  have "\<exists>w'. checkpoint_acquire now c w = (Inr True, c, w') \<and> in_step c w' \<and> sent_keys w' = sent_keys w \<and> saves w' \<and> lock_free w' = lock_free w"
  proof (cases "c_cache c")
    case True
    then have "saved w = Some (the (c_time c), c_index c, c_from c)" "c_time c \<noteq> None" "c_from c \<noteq> None"
      using assms(1,2) by (auto simp: in_step_def)
    with True assms show ?thesis
      by (cases c) (auto simp: checkpoint_acquire_def cached_state_def checkpoint_save_def fill_in_def in_step_def sent_keys_def Let_def)
  next
    case False
    with assms fill show ?thesis by (auto simp: checkpoint_acquire_def in_step_def sent_keys_def Let_def)
  qed
  with that show ?thesis by blast
qed

lemma release_sent: "sent_keys (checkpoint_release now n c w) = sent_keys w"
  by (simp add: sent_keys_def release_facts)

lemma covers_later: "covers rs R (a, int (length rs)) hs \<Longrightarrow> e \<in> set hs \<Longrightarrow> a < at_entry e"
  by (auto simp: covers_def entry_key_def)

lemma nothing_due:
  assumes "covers rs R (a, int (length rs)) hs" "heap_top hs = None \<or> (\<exists>d. heap_top hs = Some d \<and> now_at < microseconds d)" "a \<le> now_at"
  shows "covers rs R (now_at, int (length rs)) hs" "due_runs (length rs) R (a, int (length rs)) now_at = {}"
proof -
  have ok: "heap_ok hs" using assms(1) by (simp add: covers_def)
  have "\<forall>e\<in>set hs. now_at < at_entry e"
  proof (cases hs)
    case (Cons e rest)
    moreover have "at_entry e \<le> at_entry e'" if "e' \<in> set rest" for e'
      using heap_rest(3) [of e rest e'] ok that by (auto simp: Cons entry_key_def)
    ultimately show ?thesis using assms(2) by (force simp: heap_top_def)
  qed simp
  then show "covers rs R (now_at, int (length rs)) hs" "due_runs (length rs) R (a, int (length rs)) now_at = {}"
    using covers_future [OF assms(1)] assms(3) by simp_all
qed

text \<open>From the plan on: everything past the plan's point and past the record is sent.\<close>

lemma run_plan_complete:
  assumes "heap_for last_time start (c_index c) (g\<lparr>g_checkpoint := c\<rparr>) = (Inr h, g1)" "g_checkpoint g1 = c" "s_only_last (g_schedule g) = False"
    "s_restart (g_schedule g1) = False" "s_only_last (g_schedule g1) = False" "c_time c = Some last_time" "c_from c = Some start"
    "covers rs R point (h_entries h)" "\<And>i. i < length rs \<Longrightarrow> answers (asks (rs ! i)) (R i)" "takes_all k" "saves w"
    "point \<le> (microseconds (t_now k), int (length rs))" "\<forall>e\<in>set (h_entries h). microseconds last_time \<le> at_entry e"
    "in_step c w" "microseconds last_time \<le> microseconds (t_now k)" "microseconds (h_time h) \<le> microseconds last_time"
    "\<not> c_reset c" "c_lock c \<longrightarrow> lock_free w"
  shows "\<exists>g' w'. run_plan k (g\<lparr>g_checkpoint := c\<rparr>) w = (Inr (), g', w') \<and> serving rs R (microseconds (t_now k)) g' w'
    \<and> set (sent_keys w') = set (sent_keys w)
        \<union> {y \<in> due_runs (length rs) R point (microseconds (t_now k)). (microseconds last_time, c_index c) < y}
    \<and> c_cache (g_checkpoint g') = c_cache c \<and> c_lock (g_checkpoint g') = c_lock c"
proof -
  obtain r hs c1 w1 where l: "due_loop (g_name g) k False last_time (c_index c) (h_entries h) c w = (r, hs, c1, w1)"
    by (metis surj_pair)
  have loop: "r = Inr () \<and> covers rs R (microseconds (t_now k), int (length rs)) hs
    \<and> set (sent_keys w1) = set (sent_keys w)
        \<union> {y \<in> due_runs (length rs) R point (microseconds (t_now k)). (microseconds last_time, c_index c) < y}
    \<and> c_cache c1 = c_cache c \<and> c_lock c1 = c_lock c \<and> c_reset c1 = c_reset c \<and> c_from c1 = c_from c \<and> in_step c1 w1
    \<and> microseconds (the (c_time c)) \<le> microseconds (the (c_time c1)) \<and> microseconds (the (c_time c1)) \<le> microseconds (t_now k)
    \<and> saves w1 = saves w \<and> lock_free w1 = lock_free w"
    by (rule due_loop_complete [OF l assms(8,9,10) _ assms(12,13,14)]) (simp_all add: assms)
  let ?g = "g1\<lparr>g_heap := Some (h\<lparr>h_entries := hs\<rparr>), g_checkpoint := c1, g_wait_until := heap_top hs\<rparr>"
  let ?w = "checkpoint_release (t_now k) (heap_top hs) c1 w1"
  have "run_plan k (g\<lparr>g_checkpoint := c\<rparr>) w = (Inr (), ?g, ?w)"
    using l loop assms(1,3,6,7) by (simp add: run_plan_def acquired_date_def Let_def)
  moreover have "serving rs R (microseconds (t_now k)) ?g ?w"
    using loop assms(4,5,6,11,16,17,18) by (auto simp: serving_def release_keeps release_facts)
  ultimately show ?thesis using loop by (auto simp: release_sent)
qed

lemma pass_complete:
  assumes "serving rs R until_at g w" "\<And>i. i < length rs \<Longrightarrow> answers (asks (rs ! i)) (R i)" "takes_all k"
    "until_at \<le> microseconds (t_now k)"
  shows "\<exists>g' w'. get_messages k g w = (Inr (), g', w') \<and> serving rs R (microseconds (t_now k)) g' w'
    \<and> set (sent_keys w') = set (sent_keys w) \<union> due_runs (length rs) R (until_at, int (length rs)) (microseconds (t_now k))"
proof -
  let ?now = "microseconds (t_now k)" and ?c = "g_checkpoint g"
  obtain h where h: "g_heap g = Some h" "g_wait_until g = heap_top (h_entries h)"
    "covers rs R (until_at, int (length rs)) (h_entries h)" "microseconds (h_time h) \<le> microseconds (the (c_time ?c))"
    and c: "microseconds (the (c_time ?c)) \<le> until_at" "in_step ?c w" "\<not> c_reset ?c" "c_lock ?c \<longrightarrow> lock_free w" "saves w"
    and s: "\<not> s_restart (g_schedule g)" "\<not> s_only_last (g_schedule g)"
    using assms(1) unfolding serving_def by blast
  have restart: "restart_if_changed g = g" using s by (simp add: restart_if_changed_def)
  show ?thesis
  proof (cases "\<exists>d. heap_top (h_entries h) = Some d \<and> microseconds d \<le> ?now")
    case False
    then have idle: "heap_top (h_entries h) = None \<or> (\<exists>d. heap_top (h_entries h) = Some d \<and> ?now < microseconds d)"
      by (cases "heap_top (h_entries h)") auto
    then have "get_messages k g w = (Inr (), g, w)" using h(2) by (auto simp: get_messages_def restart)
    moreover have "serving rs R ?now g w"
      using h c s nothing_due(1) [OF h(3) idle assms(4)] assms(4) unfolding serving_def by auto
    ultimately show ?thesis using nothing_due(2) [OF h(3) idle assms(4)] by auto
  next
    case True
    then obtain d where d: "g_wait_until g = Some d" "microseconds d \<le> ?now" using h(2) by auto
    obtain w2 where a: "checkpoint_acquire (t_now k) ?c w = (Inr True, ?c, w2)" "in_step ?c w2" "sent_keys w2 = sent_keys w"
      "saves w2" "lock_free w2 = lock_free w"
      by (rule acquire_again [OF c(2,5,3,4)])
    obtain t f where tf: "c_time ?c = Some t" "c_from ?c = Some f" using c(2) by (auto simp: in_step_def)
    have plan: "heap_for t f (c_index ?c) (g\<lparr>g_checkpoint := ?c\<rparr>) = (Inr h, g)" using h(1,4) tf by (simp add: heap_for_def)
    have "\<forall>e\<in>set (h_entries h). microseconds t \<le> at_entry e" using covers_later [OF h(3)] c(1) tf by force
    then obtain g' w' where g': "run_plan k (g\<lparr>g_checkpoint := ?c\<rparr>) w2 = (Inr (), g', w')" "serving rs R ?now g' w'"
      "set (sent_keys w') = set (sent_keys w2) \<union> {y \<in> due_runs (length rs) R (until_at, int (length rs)) ?now. (microseconds t, c_index ?c) < y}"
      using run_plan_complete [OF plan _ _ _ _ tf h(3) assms(2,3) a(4) _ _ a(2)] s c h(4) tf a(5) assms(4) by auto
    have "get_messages k g w = (Inr (), g', w')" using d a(1) g'(1) by (simp add: get_messages_def restart)
    moreover have "{y \<in> due_runs (length rs) R (until_at, int (length rs)) ?now. (microseconds t, c_index ?c) < y}
      = due_runs (length rs) R (until_at, int (length rs)) ?now"
      using c(1) tf by (auto simp: due_runs_def)
    ultimately show ?thesis using g' a(3) by auto
  qed
qed


section \<open>From the first pass on\<close>

text \<open>Where a new process takes up: the record in the cache if it keeps one there, the present otherwise.\<close>

definition resumes_from :: "bool \<Rightarrow> datetime \<Rightarrow> sched_world \<Rightarrow> datetime \<times> int \<times> datetime" where
  "resumes_from cached now w = (case (if cached then saved w else None) of
      None \<Rightarrow> (now, -1, now)
    | Some (t, i, f) \<Rightarrow> (t, i, case f of None \<Rightarrow> now | Some start \<Rightarrow> start))"

lemma acquire_first:
  assumes "resumes_from cached now w = (t, i, start)" "saves w" "locked \<longrightarrow> lock_free w"
  obtains c w' where "checkpoint_acquire now (Checkpoint_init locked cached) w = (Inr True, c, w')"
    "c_time c = Some t" "c_from c = Some start" "c_index c = i" "\<not> c_reset c" "c_lock c = locked" "in_step c w'"
    "sent_keys w' = sent_keys w" "saves w'" "lock_free w' = lock_free w"
proof -
  obtain res c w' where a: "checkpoint_acquire now (Checkpoint_init locked cached) w = (res, c, w')" by (metis surj_pair)
  note defs = resumes_from_def checkpoint_acquire_def Checkpoint_init_def cached_state_def checkpoint_save_def
    fill_in_def in_step_def sent_keys_def Let_def
  have "res = Inr True \<and> c_time c = Some t \<and> c_from c = Some start \<and> c_index c = i \<and> \<not> c_reset c \<and> c_lock c = locked
    \<and> in_step c w' \<and> sent_keys w' = sent_keys w \<and> saves w' \<and> lock_free w' = lock_free w"
  proof (cases cached)
    case True
    show ?thesis
    proof (cases "saved w")
      case None
      with True assms a show ?thesis by (auto simp: defs split: if_splits)
    next
      case (Some st)
      with True assms a show ?thesis by (auto simp: defs split: if_splits prod.splits)
    qed
  next
    case False
    with assms a show ?thesis by (auto simp: defs split: if_splits)
  qed
  with a that show ?thesis by blast
qed

text \<open>What is to be sent past a record: a record with no position stands for a whole batch.\<close>

definition past_record :: "int \<Rightarrow> int \<Rightarrow> int \<times> int \<Rightarrow> bool" where
  "past_record t i y \<longleftrightarrow> (if 0 \<le> i then (t, i) < y else t < fst y)"

definition start_point :: "datetime \<Rightarrow> int \<Rightarrow> datetime" where
  "start_point t i = (if 0 \<le> i then shifted t (-1) else t)"

lemma first_pass:
  assumes "resumes_from cached (t_now k) w = (t, i, start)" "saves w" "locked \<longrightarrow> lock_free w"
    "well_formed (recurring_messages s) start" "datetime_ok t" "\<not> s_only_last s" "takes_all k"
    "microseconds t \<le> microseconds (t_now k)" "0 \<le> microseconds (t_now k)"
  defines "n \<equiv> length (recurring_messages s)" and "R \<equiv> runs_of (recurring_messages s) start"
    and "rs \<equiv> map (counted_from start) (recurring_messages s)"
  shows "\<exists>g' w'. get_messages k (MessageGenerator_init name s locked cached) w = (Inr (), g', w')
    \<and> serving rs R (microseconds (t_now k)) g' w'
    \<and> set (sent_keys w') = set (sent_keys w) \<union> {y \<in> due_runs n R (microseconds t - 1, int n) (microseconds (t_now k)).
        past_record (microseconds t) i y}"
proof -
  let ?now = "microseconds (t_now k)" and ?probe = "start_point t i"
  let ?g = "restart_if_changed (MessageGenerator_init name s locked cached)"
  have g: "g_heap ?g = None" "g_wait_until ?g = Some EPOCH" "\<not> g_initialized ?g" "g_checkpoint ?g = Checkpoint_init locked cached"
    "s_messages (g_schedule ?g) = s_messages s" "s_restart (g_schedule ?g) = False" "s_only_last (g_schedule ?g) = False"
    using assms(6) by (auto simp: restart_if_changed_def MessageGenerator_init_def)
  have epoch: "microseconds EPOCH \<le> ?now"
  proof -
    have "microseconds EPOCH = 0" by code_simp
    with assms(9) show ?thesis by simp
  qed
  obtain c w2 where a: "checkpoint_acquire (t_now k) (Checkpoint_init locked cached) w = (Inr True, c, w2)"
    "c_time c = Some t" "c_from c = Some start" "c_index c = i" "\<not> c_reset c" "c_lock c = locked" "in_step c w2"
    "sent_keys w2 = sent_keys w" "saves w2" "lock_free w2 = lock_free w"
    by (rule acquire_first [OF assms(1-3)])
  have ok: "datetime_ok ?probe" using assms(5) by (simp add: start_point_def shifted_def from_microseconds_ok)
  have wf: "well_formed (map snd (s_messages s)) start" using assms(4) by (simp add: recurring_messages_def)
  obtain hs where b: "build_plan start ?probe 0 (s_messages s) [] = (Inr hs, map (\<lambda>(key, r). (key, counted_from start r)) (s_messages s))"
    "covers rs R (microseconds ?probe, int n) hs"
    by (rule fresh_plan_covers [OF wf ok]) (simp_all add: rs_def R_def n_def recurring_messages_def)
  let ?h = "\<lparr>h_time = t, h_entries = hs\<rparr>"
  let ?ms = "map (\<lambda>(key, r). (key, counted_from start r)) (s_messages s)"
  let ?g1 = "?g\<lparr>g_checkpoint := c, g_initialized := True, g_schedule := (g_schedule ?g)\<lparr>s_messages := ?ms\<rparr>, g_heap := Some ?h\<rparr>"
  have plan: "heap_for t start (c_index c) (?g\<lparr>g_checkpoint := c\<rparr>) = (Inr ?h, ?g1)"
    using g b(1) a(4) by (simp add: heap_for_def rebuild_plan_def start_point_def Let_def)
  have n: "length rs = n" by (simp add: rs_def n_def)
  have ans: "\<And>j. j < length rs \<Longrightarrow> answers (asks (rs ! j)) (R j)"
    using answers_counted [OF assms(4)] by (simp add: rs_def R_def)
  have probe: "microseconds t - 1 \<le> microseconds ?probe" "microseconds ?probe \<le> microseconds t" by (simp_all add: start_point_def)
  have old: "\<forall>e\<in>set hs. microseconds t \<le> at_entry e" using covers_later [of rs R _ hs] b(2) probe n by force
  have "\<exists>g' w'. run_plan k (?g\<lparr>g_checkpoint := c\<rparr>) w2 = (Inr (), g', w') \<and> serving rs R ?now g' w'
    \<and> set (sent_keys w') = set (sent_keys w2) \<union> {y \<in> due_runs (length rs) R (microseconds ?probe, int n) ?now. (microseconds t, c_index c) < y}
    \<and> c_cache (g_checkpoint g') = c_cache c \<and> c_lock (g_checkpoint g') = c_lock c"
    by (rule run_plan_complete [OF plan]) (use g a b ans old assms(3,7,8) probe n in simp_all)
  then obtain g' w' where g': "run_plan k (?g\<lparr>g_checkpoint := c\<rparr>) w2 = (Inr (), g', w')" "serving rs R ?now g' w'"
    "set (sent_keys w') = set (sent_keys w) \<union> {y \<in> due_runs n R (microseconds ?probe, int n) ?now. (microseconds t, i) < y}"
    using a n by auto
  have "{y \<in> due_runs n R (microseconds ?probe, int n) ?now. (microseconds t, i) < y}
    = {y \<in> due_runs n R (microseconds t - 1, int n) ?now. past_record (microseconds t) i y}"
    by (auto simp: start_point_def past_record_def due_runs_def split: if_splits)
  moreover have "get_messages k (MessageGenerator_init name s locked cached) w = (Inr (), g', w')"
    using g a(1) g'(1) epoch by (simp add: get_messages_def Let_def)
  ultimately show ?thesis using g' by auto
qed

text \<open>Passes one after the other, until one fails.\<close>

fun run_passes :: "tick list \<Rightarrow> generator \<Rightarrow> sched_world \<Rightarrow> (sched_error + unit) \<times> generator \<times> sched_world" where
  "run_passes [] g w = (Inr (), g, w)"
| "run_passes (k # ks) g w = (case get_messages k g w of
      (Inl err, g', w') \<Rightarrow> (Inl err, g', w')
    | (Inr u, g', w') \<Rightarrow> run_passes ks g' w')"

lemma due_runs_join:
  assumes "a \<le> b"
  shows "due_runs n R (a, int n) b \<union> due_runs n R (b, int n) c = due_runs n R (a, int n) (max b c)"
  using assms by (auto simp: due_runs_def)

lemma later_passes:
  assumes "serving rs R until_at g w" "\<And>i. i < length rs \<Longrightarrow> answers (asks (rs ! i)) (R i)" "\<forall>k\<in>set ks. takes_all k"
    "sorted (until_at # map (\<lambda>k. microseconds (t_now k)) ks)"
  shows "\<exists>g' w'. run_passes ks g w = (Inr (), g', w') \<and> set (sent_keys w') = set (sent_keys w)
    \<union> due_runs (length rs) R (until_at, int (length rs)) (last (until_at # map (\<lambda>k. microseconds (t_now k)) ks))"
  using assms(1,3,4)
proof (induction ks arbitrary: until_at g w)
  case Nil
  then show ?case by (auto simp: due_runs_def)
next
  case (Cons k ks)
  let ?now = "microseconds (t_now k)"
  have le: "until_at \<le> ?now" "takes_all k" using Cons.prems by simp_all
  obtain g1 w1 where g1: "get_messages k g w = (Inr (), g1, w1)" "serving rs R ?now g1 w1"
    "set (sent_keys w1) = set (sent_keys w) \<union> due_runs (length rs) R (until_at, int (length rs)) ?now"
    using pass_complete [OF Cons.prems(1) assms(2) le(2,1)] by blast
  let ?last = "last (?now # map (\<lambda>k. microseconds (t_now k)) ks)"
  obtain g' w' where g': "run_passes ks g1 w1 = (Inr (), g', w')"
    "set (sent_keys w') = set (sent_keys w1) \<union> due_runs (length rs) R (?now, int (length rs)) ?last"
    using Cons.IH [OF g1(2)] Cons.prems(2,3) by auto
  have "?last \<in> set (?now # map (\<lambda>k. microseconds (t_now k)) ks)" by (rule last_in_set) simp
  then have "?now \<le> ?last" using Cons.prems(3) by auto
  then have "due_runs (length rs) R (until_at, int (length rs)) ?now \<union> due_runs (length rs) R (?now, int (length rs)) ?last
    = due_runs (length rs) R (until_at, int (length rs)) ?last"
    using due_runs_join [OF le(1), of "length rs" R ?last] by (simp add: max_def)
  then show ?case using g1 g' by auto
qed


text \<open>
  C1: Every run is sent. A process makes its passes one after another, in order of time, over a schedule
  of well-formed triggers (cron expressions and callbacks among them answer the first of their runs after
  any date) that does not change meanwhile and does not ask for the last missed run only; its lock, if it has one, is
  free for it, its cache, if it has one, saves, and every run it hands on yields at least one message and is
  taken whole. Starting fresh, or where the record in the cache says another left off, it then sends in
  those passes every run of every recurring message past that record up to the moment of its last pass,
  whatever was missed before it started and however far apart the passes lie, the rest of a batch that was
  left half sent included, and nothing else; no pass fails. (Without these conditions runs do get lost, as
  the examples at the end show.)
\<close>

theorem every_due_run_is_sent:
  assumes "resumes_from cached (t_now k) w = (t, i, start)" "saves w" "locked \<longrightarrow> lock_free w"
    "well_formed (recurring_messages s) start" "datetime_ok t" "\<not> s_only_last s"
    "\<forall>k'\<in>set (k # ks). takes_all k'" "sorted (map microseconds (t # map t_now (k # ks)))" "0 \<le> microseconds (t_now k)"
  shows "\<exists>g' w'. run_passes (k # ks) (MessageGenerator_init name s locked cached) w = (Inr (), g', w')
    \<and> set (sent_keys w') = set (sent_keys w) \<union> {(x, int j) | x j. j < length (recurring_messages s)
        \<and> x \<in> runs (r_trigger (recurring_messages s ! j)) start \<and> past_record (microseconds t) i (x, int j)
        \<and> x \<le> microseconds (t_now (last (k # ks)))}"
proof -
  let ?now = "microseconds (t_now k)" and ?last = "microseconds (t_now (last (k # ks)))"
  define n R where "n = length (recurring_messages s)" and "R = runs_of (recurring_messages s) start"
  define rs where "rs = map (counted_from start) (recurring_messages s)"
  obtain g1 w1 where g1: "get_messages k (MessageGenerator_init name s locked cached) w = (Inr (), g1, w1)" "serving rs R ?now g1 w1"
    "set (sent_keys w1) = set (sent_keys w) \<union> {y \<in> due_runs n R (microseconds t - 1, int n) ?now. past_record (microseconds t) i y}"
  proof -
    have "takes_all k" "microseconds t \<le> ?now" using assms(7,8) by simp_all
    from first_pass [OF assms(1-6) this assms(9), of name] that show ?thesis unfolding n_def R_def rs_def by blast
  qed
  have "\<And>j. j < length rs \<Longrightarrow> answers (asks (rs ! j)) (R j)" using answers_counted [OF assms(4)] by (simp add: rs_def R_def)
  moreover have "sorted (?now # map (\<lambda>k. microseconds (t_now k)) ks)" using assms(8) by (simp add: comp_def)
  moreover have "last (?now # map (\<lambda>k. microseconds (t_now k)) ks) = ?last" by (simp add: last_map)
  moreover have "\<forall>k'\<in>set ks. takes_all k'" using assms(7) by simp
  ultimately obtain g' w' where g': "run_passes ks g1 w1 = (Inr (), g', w')"
    "set (sent_keys w') = set (sent_keys w1) \<union> due_runs n R (?now, int n) ?last"
    using later_passes [OF g1(2), of ks] by (auto simp: n_def rs_def)
  have now: "microseconds t \<le> ?now" "?now \<le> ?last" using assms(8) by auto
  have joined: "{y \<in> due_runs n R (microseconds t - 1, int n) ?now. past_record (microseconds t) i y} \<union> due_runs n R (?now, int n) ?last
    = {y \<in> due_runs n R (microseconds t - 1, int n) ?last. past_record (microseconds t) i y}"
    using now by (auto simp: due_runs_def past_record_def split: if_splits)
  have shown: "{y \<in> due_runs n R (microseconds t - 1, int n) ?last. past_record (microseconds t) i y}
    = {(x, int j) | x j. j < n \<and> x \<in> R j \<and> past_record (microseconds t) i (x, int j) \<and> x \<le> ?last}"
  proof -
    have "microseconds t - 1 < x" if "past_record (microseconds t) i (x, j)" for x j
      using that by (auto simp: past_record_def split: if_splits)
    then show ?thesis by (fastforce simp: due_runs_def)
  qed
  have "set (sent_keys w') = set (sent_keys w) \<union> {(x, int j) | x j. j < n \<and> x \<in> R j
    \<and> past_record (microseconds t) i (x, int j) \<and> x \<le> ?last}"
    unfolding g'(2) g1(3) Un_assoc joined shown ..
  moreover have "run_passes (k # ks) (MessageGenerator_init name s locked cached) w = (Inr (), g', w')"
    using g1(1) g'(1) by simp
  ultimately show ?thesis by (auto simp: n_def R_def runs_of_def)
qed

section \<open>Concrete schedules\<close>

abbreviation HOUR :: int where
  "HOUR \<equiv> 3600000000"

definition hour :: "int \<Rightarrow> datetime" where
  "hour h = from_microseconds (h * HOUR) UTC"

definition every_hours :: "int \<Rightarrow> string \<Rightarrow> recurring" where
  "every_hours h i = \<lparr>r_id = i, r_trigger = PeriodicalTrigger None (h * HOUR) None FAR_FUTURE\<rparr>"

definition two_hourly :: schedule where
  "two_hourly = snd (Schedule_init [every_hours 1 ''report'', every_hours 1 ''cleanup''])"

definition whole :: "int \<Rightarrow> tick" where
  "whole h = \<lparr>t_now = hour h, t_deliver = \<lambda>i ctx. Completed 1\<rparr>"

text \<open>A pass whose consumer stops after the first message of one run, or whose provider raises before any.\<close>

definition stopped_at :: "int \<Rightarrow> nat \<Rightarrow> nat \<Rightarrow> tick" where
  "stopped_at h i n = \<lparr>t_now = hour h, t_deliver = \<lambda>j ctx.
    if j = i \<and> microseconds (triggered_at ctx) = microseconds (hour h) then Stopped n (RaisedByCode 0) else Completed 1\<rparr>"

lemma two_hourly_facts:
  "recurring_messages two_hourly = [every_hours 1 ''report'', every_hours 1 ''cleanup'']" "\<not> s_only_last two_hourly"
  by (simp_all add: two_hourly_def Schedule_init_def schedule_add_def Schedule_empty_def recurring_messages_def every_hours_def)

theorem every_due_run_is_sent_witness:
  "\<exists>g' w'. run_passes [whole 5, whole 8] (MessageGenerator_init ''main'' two_hourly True True)
      (snd sched_fresh\<lparr>saved := Some (hour 3, 0, Some (hour 0))\<rparr>) = (Inr (), g', w')
    \<and> {(3 * HOUR, 1), (4 * HOUR, 0), (8 * HOUR, 1)} \<subseteq> set (sent_keys w') \<and> (3 * HOUR, 0) \<notin> set (sent_keys w')
    \<and> (9 * HOUR, 0) \<notin> set (sent_keys w')"
proof -
  let ?w = "snd sched_fresh\<lparr>saved := Some (hour 3, 0, Some (hour 0))\<rparr>"
  have hour [simp]: "microseconds (hour h) = h * HOUR" "datetime_ok (hour h)" for h
    by (simp_all add: hour_def from_microseconds_ok)
  have far: "microseconds FAR_FUTURE = 32503680000000000" by code_simp
  have "well_formed (recurring_messages two_hourly) (hour 0)"
    by (simp add: well_formed_def two_hourly_facts every_hours_def)
  from every_due_run_is_sent [of True "whole 5" ?w "hour 3" 0 "hour 0" True two_hourly "[whole 8]" "''main''", OF _ _ _ this]
  obtain g' w' where r: "run_passes [whole 5, whole 8] (MessageGenerator_init ''main'' two_hourly True True) ?w = (Inr (), g', w')"
    and s: "set (sent_keys w') = set (sent_keys ?w) \<union> {(x, int j) | x j. j < length (recurring_messages two_hourly)
        \<and> x \<in> runs (r_trigger (recurring_messages two_hourly ! j)) (hour 0) \<and> past_record (microseconds (hour 3)) 0 (x, int j)
        \<and> x \<le> microseconds (t_now (last [whole 5, whole 8]))}"
    by (auto simp: resumes_from_def sched_fresh_def whole_def takes_all_def two_hourly_facts)
  have runs: "x \<in> runs (r_trigger (every_hours 1 i)) (hour 0) \<longleftrightarrow> (\<exists>k\<ge>0. x = k * HOUR \<and> x < 32503680000000000)" for x i
    by (auto simp: every_hours_def far)
  have sent: "y \<in> set (sent_keys w') \<longleftrightarrow> (\<exists>k\<ge>0. \<exists>j<2. y = (k * HOUR, int j) \<and> (3, 0) < (k, int j) \<and> k \<le> 8)" for y
    unfolding s by (auto simp: two_hourly_facts runs sched_fresh_def sent_keys_def past_record_def whole_def less_Suc_eq numeral_2_eq_2)
  have "(3 * HOUR, 1) \<in> set (sent_keys w')" unfolding sent by (intro exI [of _ 3] conjI exI [of _ 1]) simp_all
  moreover have "(4 * HOUR, 0) \<in> set (sent_keys w')" unfolding sent by (intro exI [of _ 4] conjI exI [of _ 0]) simp_all
  moreover have "(8 * HOUR, 1) \<in> set (sent_keys w')" unfolding sent by (intro exI [of _ 8] conjI exI [of _ 1]) simp_all
  moreover have "(3 * HOUR, 0) \<notin> set (sent_keys w')" "(9 * HOUR, 0) \<notin> set (sent_keys w')" unfolding sent by auto
  ultimately show ?thesis using r by blast
qed

text \<open>
  A run whose provider raises before it yields anything is not sent by the next pass of the same process:
  the plan has moved past it, though nothing was recorded.
\<close>

lemma broken_run_not_sent_again:
  "sent_keys (snd (sched_run [Begins 0 ''main'' two_hourly False, Passes 0 (whole 0) True None,
      Passes 0 (stopped_at 1 0 0) True None, Passes 0 (whole 2) True None] sched_fresh))
    = [(HOUR, 1), (2 * HOUR, 0), (2 * HOUR, 1)]"
  by code_simp


text \<open>
  A process that takes over from one that stopped in the middle of a batch, but made its own plan before,
  does not finish the batch: its plan moves past the whole of it.
\<close>

lemma batch_lost_by_stale_plan:
  "sent_keys (snd (sched_run [Begins 0 ''main'' two_hourly True, Begins 1 ''main'' two_hourly True,
      Passes 0 (whole 0) True None, Passes 1 (stopped_at 2 0 1) True None, Passes 0 (whole 3) True None] sched_fresh))
    = [(HOUR, 0), (HOUR, 1), (2 * HOUR, 0), (3 * HOUR, 0), (3 * HOUR, 1)]"
  by code_simp

text \<open>A schedule changed after a pass stopped in the middle of a batch: the rest of the batch is not sent.\<close>

lemma batch_lost_by_change:
  "sent_keys (snd (sched_run [Begins 0 ''main'' two_hourly False, Passes 0 (whole 0) True None,
      Passes 0 (stopped_at 1 0 1) True None, Changes 0 (\<lambda>s. snd (schedule_add [every_hours 4 ''backup''] s)),
      Passes 0 (whole 2) True None] sched_fresh))
    = [(HOUR, 0), (2 * HOUR, 0), (2 * HOUR, 1)]"
  by code_simp

text \<open>Only the latest of the missed runs of each message, when the schedule asks for that.\<close>

lemma only_latest_example:
  "sent_keys (snd (sched_run [Begins 0 ''main'' (process_only_last_missed_run True two_hourly) False,
      Passes 0 (whole 0) True None, Passes 0 (whole 3) True None] sched_fresh))
    = [(3 * HOUR, 0), (3 * HOUR, 1)]"
  by code_simp

end
