(* ===== verification/Scheduler_Sharing.thy ===== *)
theory Scheduler_Sharing
  imports Scheduler_Complete
begin

text \<open>
  Processes that run one schedule under one lock, their passes overlapping: a pass is taken apart into its
  entry (the lock, the record, the plan) and the turns of its loop, and the steps of the processes come in
  any order.
\<close>

section \<open>A pass, turn by turn\<close>

datatype due_step =
    Again "heap_entry list" checkpoint sched_world
  | Over "sched_error + unit" "heap_entry list" checkpoint sched_world

text \<open>One turn of the loop of \<open>get_messages\<close>: what it leaves, and whether the loop goes on.\<close>

definition due_turn :: "string \<Rightarrow> tick \<Rightarrow> bool \<Rightarrow> datetime \<Rightarrow> int \<Rightarrow> heap_entry list \<Rightarrow> checkpoint \<Rightarrow> sched_world
    \<Rightarrow> due_step" where
  "due_turn name k only_last last_time last_index entries c w = (case entries of
      [] \<Rightarrow> Over (Inr ()) [] c w
    | e # rest \<Rightarrow>
        if microseconds (t_now k) < microseconds (e_time e) then Over (Inr ()) (e # rest) c w
        else let send = (\<not> already_sent last_time last_index e);
           time = (if microseconds last_time \<le> microseconds (e_time e) then e_time e else last_time);
           t = r_trigger (e_message e)
        in case (if send then reschedule_to_latest only_last t time (microseconds (t_now k)) else Inr None) of
            Inl err \<Rightarrow> Over (Inl err) rest c w
          | Inr (Some latest) \<Rightarrow> Again (heap_insert latest (e_index e) (e_message e) rest) c w
          | Inr None \<Rightarrow> (case next_time_of t time of
                Inl err \<Rightarrow> Over (Inl err) rest c w
              | Inr next_time \<Rightarrow>
                  let hs = (case next_time of None \<Rightarrow> rest | Some n \<Rightarrow> heap_insert n (e_index e) (e_message e) rest)
                  in if \<not> send then Again hs c w
                     else let context = \<lparr>mc_name = name, mc_id = r_id (e_message e), mc_trigger = t,
                           triggered_at = time, next_trigger_at = next_time\<rparr>;
                         (result, c', w') = hand_on k (e_index e) context c w
                       in (case result of Inl err \<Rightarrow> Over (Inl err) hs c' w' | Inr u \<Rightarrow> Again hs c' w')))"

lemma due_loop_turn:
  "due_loop name k only_last last_time last_index hs c w =
    (case due_turn name k only_last last_time last_index hs c w of
      Again hs' c' w' \<Rightarrow> due_loop name k only_last last_time last_index hs' c' w'
    | Over result hs' c' w' \<Rightarrow> (result, hs', c', w'))"
proof (cases hs)
  case Nil
  then show ?thesis by (simp add: due_turn_def)
next
  case (Cons e rest)
  define send where "send = (\<not> already_sent last_time last_index e)"
  define time where "time = (if microseconds last_time \<le> microseconds (e_time e) then e_time e else last_time)"
  define moved where "moved = (if send then reschedule_to_latest only_last (r_trigger (e_message e)) time (microseconds (t_now k)) else Inr None)"
  define follows where "follows = next_time_of (r_trigger (e_message e)) time"
  note one = due_turn_def due_loop.simps(2) Let_def send_def [symmetric] time_def [symmetric] moved_def [symmetric] follows_def [symmetric]
  consider (future) "microseconds (t_now k) < microseconds (e_time e)"
    | (failed) err where "\<not> microseconds (t_now k) < microseconds (e_time e)" "moved = Inl err"
    | (later) l where "\<not> microseconds (t_now k) < microseconds (e_time e)" "moved = Inr (Some l)"
    | (stuck) err where "\<not> microseconds (t_now k) < microseconds (e_time e)" "moved = Inr None" "follows = Inl err"
    | (run) n where "\<not> microseconds (t_now k) < microseconds (e_time e)" "moved = Inr None" "follows = Inr n"
    by (metis old.sum.exhaust option.exhaust)
  then show ?thesis unfolding Cons
    by cases (simp_all add: one split: sum.split prod.split)
qed

text \<open>What a pass that is under way holds: its clock, the record it took up and its plan.\<close>

record running =
  rn_tick :: tick
  rn_time :: datetime
  rn_index :: int
  rn_heap :: trigger_heap

type_synonym pass_step = "((sched_error + unit) + running) \<times> generator \<times> sched_world"

definition plan_pass :: "tick \<Rightarrow> generator \<Rightarrow> sched_world \<Rightarrow> pass_step" where
  "plan_pass k g w =
    (let c = g_checkpoint g in
     case (acquired_date (c_time c), acquired_date (c_from c)) of
       (Inr last_time, Inr start) \<Rightarrow>
         (case heap_for last_time start (c_index c) g of
            (Inl err, g') \<Rightarrow> (Inl (Inl err), g', checkpoint_release (t_now k) None c w)
          | (Inr h, g') \<Rightarrow> (Inr \<lparr>rn_tick = k, rn_time = last_time, rn_index = c_index c, rn_heap = h\<rparr>, g', w))
     | (Inl err, _) \<Rightarrow> (Inl (Inl err), g, checkpoint_release (t_now k) None c w)
     | (_, Inl err) \<Rightarrow> (Inl (Inl err), g, checkpoint_release (t_now k) None c w))"

definition enter_pass :: "tick \<Rightarrow> generator \<Rightarrow> sched_world \<Rightarrow> pass_step" where
  "enter_pass k g0 w =
    (let g = restart_if_changed g0 in
     case g_wait_until g of
       None \<Rightarrow> (Inl (Inr ()), g, w)
     | Some wait \<Rightarrow>
         if microseconds (t_now k) < microseconds wait then (Inl (Inr ()), g, w)
         else case checkpoint_acquire (t_now k) (g_checkpoint g) w of
             (Inl err, c, w') \<Rightarrow> (Inl (Inl err), g\<lparr>g_checkpoint := c\<rparr>, w')
           | (Inr False, c, w') \<Rightarrow> (Inl (Inr ()), g\<lparr>g_checkpoint := c\<rparr>, w')
           | (Inr True, c, w') \<Rightarrow> plan_pass k (g\<lparr>g_checkpoint := c\<rparr>) w')"

definition turn_pass :: "running \<Rightarrow> generator \<Rightarrow> sched_world \<Rightarrow> pass_step" where
  "turn_pass r g w = (let h = rn_heap r; k = rn_tick r in
    case due_turn (g_name g) k (s_only_last (g_schedule g)) (rn_time r) (rn_index r) (h_entries h) (g_checkpoint g) w of
      Again hs c w' \<Rightarrow> (Inr (r\<lparr>rn_heap := h\<lparr>h_entries := hs\<rparr>\<rparr>),
          g\<lparr>g_heap := Some (h\<lparr>h_entries := hs\<rparr>), g_checkpoint := c\<rparr>, w')
    | Over result hs c w' \<Rightarrow> (Inl result,
          g\<lparr>g_heap := Some (h\<lparr>h_entries := hs\<rparr>), g_checkpoint := c, g_wait_until := heap_top hs\<rparr>,
          checkpoint_release (t_now k) (heap_top hs) c w'))"

text \<open>The rest of a pass that nothing interrupts; entering it and taking its turns is \<open>get_messages\<close>.\<close>

definition finish_pass :: "running \<Rightarrow> generator \<Rightarrow> sched_world \<Rightarrow> (sched_error + unit) \<times> generator \<times> sched_world" where
  "finish_pass r g w = (let h = rn_heap r; k = rn_tick r;
      (result, hs, c, w') = due_loop (g_name g) k (s_only_last (g_schedule g)) (rn_time r) (rn_index r) (h_entries h)
        (g_checkpoint g) w
    in (result, g\<lparr>g_heap := Some (h\<lparr>h_entries := hs\<rparr>), g_checkpoint := c, g_wait_until := heap_top hs\<rparr>,
        checkpoint_release (t_now k) (heap_top hs) c w'))"

lemma finish_pass_turn:
  "finish_pass r g w = (case turn_pass r g w of
      (Inl result, g', w') \<Rightarrow> (result, g', w')
    | (Inr r', g', w') \<Rightarrow> finish_pass r' g' w')"
  unfolding finish_pass_def turn_pass_def Let_def
  by (subst due_loop_turn) (simp split: due_step.split prod.split)

lemma get_messages_turns:
  "get_messages k g w = (case enter_pass k g w of
      (Inl result, g', w') \<Rightarrow> (result, g', w')
    | (Inr r, g', w') \<Rightarrow> finish_pass r g' w')"
proof -
  have plan: "run_plan k g1 w1 = (case plan_pass k g1 w1 of
      (Inl result, g', w') \<Rightarrow> (result, g', w') | (Inr r, g', w') \<Rightarrow> finish_pass r g' w')" for g1 w1
  proof (cases "acquired_date (c_time (g_checkpoint g1))")
    case (Inl err)
    then show ?thesis by (simp add: run_plan_def plan_pass_def)
  next
    case a: (Inr t)
    show ?thesis
    proof (cases "acquired_date (c_from (g_checkpoint g1))")
      case (Inl err)
      with a show ?thesis by (simp add: run_plan_def plan_pass_def)
    next
      case (Inr f)
      obtain hr g2 where h: "heap_for t f (c_index (g_checkpoint g1)) g1 = (hr, g2)" by (metis surj_pair)
      have "g_checkpoint g2 = g_checkpoint g1 \<and> g_name g2 = g_name g1 \<and> s_only_last (g_schedule g2) = s_only_last (g_schedule g1)"
        using h by (auto simp: heap_for_def rebuild_plan_def Let_def split: option.splits if_splits prod.splits sum.splits)
      with a Inr h show ?thesis
        by (cases hr) (simp_all add: run_plan_def plan_pass_def finish_pass_def Let_def)
    qed
  qed
  show ?thesis
    by (simp add: get_messages_def enter_pass_def Let_def plan split: option.split prod.split sum.split bool.split)
qed

section \<open>Processes under one lock\<close>

text \<open>
  The processes, each with the pass it is in, if any; whose the lock is; the cache and what was sent. A process
  finds the lock free when it is nobody's or its own.
\<close>

record sharing =
  sh_procs :: "nat \<Rightarrow> (generator \<times> running option) option"
  sh_owner :: "nat option"
  sh_world :: sched_world

definition seen_by :: "nat \<Rightarrow> int option \<Rightarrow> sharing \<Rightarrow> sched_world" where
  "seen_by p left sys = (sh_world sys)\<lparr>lock_free := sh_owner sys = None \<or> sh_owner sys = Some p,
    lock_held := sh_owner sys = Some p, lock_left := left\<rparr>"

definition owner_after :: "nat \<Rightarrow> sched_world \<Rightarrow> nat option \<Rightarrow> nat option" where
  "owner_after p w owner = (if lock_held w then Some p else if owner = Some p then None else owner)"

text \<open>Process \<open>p\<close> has did a step of a pass.\<close>

definition stepped :: "nat \<Rightarrow> pass_step \<Rightarrow> sharing \<Rightarrow> sharing" where
  "stepped p did sys = (case did of (result, g, w) \<Rightarrow>
    sys\<lparr>sh_procs := (sh_procs sys)(p := Some (g, case result of Inl over \<Rightarrow> None | Inr r \<Rightarrow> Some r)),
      sh_owner := owner_after p w (sh_owner sys), sh_world := w\<rparr>)"

text \<open>
  A process starts with a schedule; it enters a pass, the lock having some lifetime left; it takes a turn of
  the pass it is in; its schedule is changed, in a pass or between two; it closes between two; it is killed,
  anywhere between two turns, and leaves the lock behind; the lock of a process that is not in a pass runs out.
\<close>

datatype sharing_step =
    Starts nat string schedule
  | Enters nat tick "int option"
  | Turns nat "int option"
  | Alters nat "schedule \<Rightarrow> schedule"
  | Leaves nat
  | Dies nat
  | Lapses

fun sharing_does :: "bool \<Rightarrow> sharing_step \<Rightarrow> sharing \<Rightarrow> sharing" where
  "sharing_does locked (Starts p name s) sys = (if sh_procs sys p = None \<and> sh_owner sys \<noteq> Some p
    then sys\<lparr>sh_procs := (sh_procs sys)(p := Some (MessageGenerator_init name s locked True, None))\<rparr> else sys)"
| "sharing_does locked (Enters p k left) sys = (case sh_procs sys p of
      Some (g, None) \<Rightarrow> stepped p (enter_pass k g (seen_by p left sys)) sys
    | _ \<Rightarrow> sys)"
| "sharing_does locked (Turns p left) sys = (case sh_procs sys p of
      Some (g, Some r) \<Rightarrow> stepped p (turn_pass r g (seen_by p left sys)) sys
    | _ \<Rightarrow> sys)"
| "sharing_does locked (Alters p change) sys = (case sh_procs sys p of
      Some (g, inside) \<Rightarrow> sys\<lparr>sh_procs := (sh_procs sys)(p := Some (g\<lparr>g_schedule := change (g_schedule g)\<rparr>, inside))\<rparr>
    | None \<Rightarrow> sys)"
| "sharing_does locked (Leaves p) sys = (case sh_procs sys p of
      Some (g, None) \<Rightarrow> stepped p (Inl (Inr ()), g, generator_close g (seen_by p None sys)) sys
    | _ \<Rightarrow> sys)"
| "sharing_does locked (Dies p) sys = sys\<lparr>sh_procs := (sh_procs sys)(p := None)\<rparr>"
| "sharing_does locked Lapses sys = (case sh_owner sys of
      None \<Rightarrow> sys
    | Some p \<Rightarrow> (case sh_procs sys p of Some (g, Some r) \<Rightarrow> sys | _ \<Rightarrow> sys\<lparr>sh_owner := None\<rparr>))"

definition sharing_run :: "bool \<Rightarrow> sharing_step list \<Rightarrow> sharing" where
  "sharing_run locked steps = fold (sharing_does locked) steps
    \<lparr>sh_procs = \<lambda>p. None, sh_owner = None, sh_world = \<lparr>saved = None, saves = True, lock_free = True, lock_held = False,
      lock_left = None, lock_calls = [], sent = []\<rparr>\<rparr>"

text \<open>In a pass, the record is the one taken up or lies before everything left in the plan.\<close>

definition turn_ok :: "int \<times> int \<Rightarrow> heap_entry list \<Rightarrow> checkpoint \<Rightarrow> sched_world \<Rightarrow> bool" where
  "turn_ok taken_up hs c w \<longleftrightarrow> heap_ok hs \<and> in_step c w \<and> sent_until (record_key c) w \<and> taken_up \<le> record_key c
    \<and> (record_key c = taken_up \<or> (\<forall>e\<in>set hs. record_key c < entry_key e))"

definition pass_ok :: "running \<Rightarrow> checkpoint \<Rightarrow> sched_world \<Rightarrow> bool" where
  "pass_ok r c w \<longleftrightarrow> turn_ok (microseconds (rn_time r), rn_index r) (h_entries (rn_heap r)) c w"

definition locked_cached :: "generator \<Rightarrow> bool" where
  "locked_cached g \<longleftrightarrow> plan_ok g \<and> c_cache (g_checkpoint g) \<and> c_lock (g_checkpoint g)"

definition cache_ok :: "sched_world \<Rightarrow> bool" where
  "cache_ok w \<longleftrightarrow> saves w
    \<and> (case saved w of None \<Rightarrow> sent w = [] | Some (t, i, f) \<Rightarrow> sent_until (microseconds t, i) w)"

definition sharing_ok :: "sharing \<Rightarrow> bool" where
  "sharing_ok sys \<longleftrightarrow> cache_ok (sh_world sys)
    \<and> (\<forall>p g inside. sh_procs sys p = Some (g, inside) \<longrightarrow> locked_cached g)
    \<and> (\<forall>p g r. sh_procs sys p = Some (g, Some r) \<longrightarrow> sh_owner sys = Some p \<and> pass_ok r (g_checkpoint g) (sh_world sys))"

text \<open>Only the cache and the log of what was sent matter to these, not the lock.\<close>

lemma same_store:
  assumes "saved w = saved w'" "saves w = saves w'" "sent w = sent w'"
  shows "in_step c w = in_step c w'" "sent_until b w = sent_until b w'" "cache_ok w = cache_ok w'" "pass_ok r c w = pass_ok r c w'"
proof -
  show step: "in_step c w = in_step c w'" and til: "sent_until b w = sent_until b w'" for b
    using assms by (simp_all add: in_step_def sent_until_def sent_keys_def)
  then show "cache_ok w = cache_ok w'" "pass_ok r c w = pass_ok r c w'"
    using assms by (simp_all add: cache_ok_def pass_ok_def turn_ok_def split: option.split)
qed

lemma seen_store: "saved (seen_by p left sys) = saved (sh_world sys)" "saves (seen_by p left sys) = saves (sh_world sys)"
  "sent (seen_by p left sys) = sent (sh_world sys)" "lock_held (seen_by p left sys) \<longleftrightarrow> sh_owner sys = Some p"
  "lock_free (seen_by p left sys) \<longleftrightarrow> sh_owner sys = None \<or> sh_owner sys = Some p"
  by (simp_all add: seen_by_def)

lemma pass_ok_cache: "pass_ok r c w \<Longrightarrow> saves w \<Longrightarrow> c_cache c \<Longrightarrow> cache_ok w"
  by (auto simp: pass_ok_def turn_ok_def cache_ok_def in_step_def record_key_def)

section \<open>Every step keeps the order\<close>

definition kept_apart :: "checkpoint \<Rightarrow> sched_world \<Rightarrow> checkpoint \<Rightarrow> sched_world \<Rightarrow> bool" where
  "kept_apart c w c' w' \<longleftrightarrow> saves w' = saves w \<and> c_cache c' = c_cache c \<and> c_lock c' = c_lock c"

lemma hand_on_lock: "hand_on k i ctx c w = (result, c', w') \<Longrightarrow> lock_held w' = lock_held w"
  by (auto simp: hand_on_def checkpoint_save_def Let_def split: if_splits)

lemma due_turn_ok:
  assumes "turn_ok (microseconds last_time, last_index) hs c w"
  shows "case due_turn name k only_last last_time last_index hs c w of
      Again hs' c' w' \<Rightarrow> turn_ok (microseconds last_time, last_index) hs' c' w' \<and> kept_apart c w c' w' \<and> lock_held w' = lock_held w
    | Over result hs' c' w' \<Rightarrow> heap_ok hs' \<and> in_step c' w' \<and> sent_until (record_key c') w' \<and> kept_apart c w c' w'"
proof (cases hs)
  case Nil
  with assms show ?thesis by (simp add: due_turn_def turn_ok_def kept_apart_def)
next
  case (Cons e rest)
  let ?last = "(microseconds last_time, last_index)"
  let ?turn = "due_turn name k only_last last_time last_index hs c w"
  note ok = assms [unfolded Cons turn_ok_def]
  have rest: "heap_ok rest" using heap_rest(1) ok by blast
  define time where "time = (if microseconds last_time \<le> microseconds (e_time e) then e_time e else last_time)"
  define send where "send = (\<not> already_sent last_time last_index e)"
  define moved where "moved = (if send
    then reschedule_to_latest only_last (r_trigger (e_message e)) time (microseconds (t_now k)) else Inr None)"
  define follows where "follows = next_time_of (r_trigger (e_message e)) time"
  note one = due_turn_def Let_def Cons send_def [symmetric] time_def [symmetric] moved_def [symmetric] follows_def [symmetric]
  have time: "time = e_time e" if send
    using sendable_clamp that unfolding time_def send_def by blast
  consider (over) result hs' where "?turn = Over result hs' c w" "hs' = e # rest \<or> hs' = rest"
    | (later) l where "at_entry e < microseconds l" "?turn = Again (planned (Some l) e rest) c w"
    | (skipped) n where "\<not> send" "follows = Inr n" "?turn = Again (planned n e rest) c w"
    | (run) n result c' w' where send "follows = Inr n"
        "hand_on k (e_index e) (context_of name e n) c w = (result, c', w')"
        "?turn = (case result of Inl err \<Rightarrow> Over (Inl err) (planned n e rest) c' w' | Inr u \<Rightarrow> Again (planned n e rest) c' w')"
  proof (cases "microseconds (t_now k) < microseconds (e_time e)")
    case True
    then show ?thesis by (intro over [of "Inr ()" "e # rest"]) (simp_all add: one)
  next
    case due: False
    show ?thesis
    proof (cases moved)
      case (Inl err)
      with due show ?thesis by (intro over [of "Inl err" rest]) (simp_all add: one)
    next
      case (Inr found)
      show ?thesis
      proof (cases found)
        case (Some l)
        with Inr have send by (auto simp: moved_def split: if_splits)
        then have "at_entry e < microseconds l"
          using Inr Some reschedule_later time [OF \<open>send\<close>] by (auto simp: moved_def)
        moreover have "?turn = Again (planned (Some l) e rest) c w"
          using due Inr Some by (simp add: one planned_def)
        ultimately show ?thesis by (rule later)
      next
        case None
        note found = due Inr None
        show ?thesis
        proof (cases follows)
          case (Inl err)
          with found show ?thesis by (intro over [of "Inl err" rest]) (simp_all add: one)
        next
          case (Inr n)
          have turn: "?turn = (if \<not> send then Again (planned n e rest) c w
            else (let (result, c', w') = hand_on k (e_index e) \<lparr>mc_name = name, mc_id = r_id (e_message e),
                mc_trigger = r_trigger (e_message e), triggered_at = time, next_trigger_at = n\<rparr> c w
              in case result of Inl err \<Rightarrow> Over (Inl err) (planned n e rest) c' w' | Inr u \<Rightarrow> Again (planned n e rest) c' w'))"
            using found Inr by (simp add: one planned_def cong: sum.case_cong split: prod.split)
          show ?thesis
          proof (cases send)
            case False
            with turn Inr show ?thesis by (intro skipped [of n]) simp_all
          next
            case True
            obtain result c' w' where h: "hand_on k (e_index e) (context_of name e n) c w = (result, c', w')" by (metis surj_pair)
            with turn Inr True time [OF True] show ?thesis
              by (intro run [of n result c' w']) (simp_all add: context_of_def)
          qed
        qed
      qed
    qed
  qed
  then show ?thesis
  proof cases
    case over
    with ok rest show ?thesis by (auto simp: kept_apart_def)
  next
    case (later l)
    have "\<forall>e'\<in>set (planned (Some l) e rest). entry_key e < entry_key e'"
      using planned_later [of e rest "Some l"] ok later(1) by blast
    with later ok planned_ok [of e rest "Some l"] show ?thesis
      by (auto simp: turn_ok_def kept_apart_def intro: less_trans)
  next
    case (skipped n)
    have "record_key c = ?last" using ok skipped(1) by (auto simp: send_def already_sent_iff)
    with skipped ok planned_ok [of e rest n] show ?thesis by (simp add: turn_ok_def kept_apart_def)
  next
    case (run n result c' w')
    have key: "(microseconds (triggered_at (context_of name e n)), int (e_index e)) = entry_key e"
      by (simp add: context_of_def entry_key_def)
    have less: "record_key c < entry_key e" using ok run(1) by (auto simp: send_def already_sent_iff)
    have f: "in_step c' w'" "sent_until (record_key c') w'" "kept_apart c w c' w'" "record_key c' = record_key c \<or> record_key c' = entry_key e"
      using hand_on_sent [OF run(3), unfolded key] ok less by (simp_all add: kept_apart_def)
    have "at_entry e < microseconds m" if "n = Some m" for m
      using next_time_later run(2) that time [OF run(1)] by (auto simp: follows_def)
    then have "\<forall>e'\<in>set (planned n e rest). entry_key e < entry_key e'"
      using planned_later [of e rest n] ok by blast
    then have "record_key c' = ?last \<or> (\<forall>e'\<in>set (planned n e rest). record_key c' < entry_key e')"
      using f(4) less ok by (auto intro: less_trans)
    moreover have "?last \<le> record_key c'" using f(4) less ok by auto
    ultimately show ?thesis using run(4) f ok planned_ok [of e rest n] hand_on_lock [OF run(3)]
      by (cases result) (simp_all add: turn_ok_def)
  qed
qed

lemma turn_pass_ok:
  assumes "turn_pass r g w = (result, g', w')" "pass_ok r (g_checkpoint g) w" "locked_cached g" "saves w" "lock_held w"
  shows "locked_cached g' \<and> cache_ok w' \<and> (\<forall>r'. result = Inr r' \<longrightarrow> pass_ok r' (g_checkpoint g') w' \<and> lock_held w')"
proof -
  let ?turn = "due_turn (g_name g) (rn_tick r) (s_only_last (g_schedule g)) (rn_time r) (rn_index r) (h_entries (rn_heap r))
    (g_checkpoint g) w"
  note turn = due_turn_ok [OF assms(2) [unfolded pass_ok_def], of "g_name g" "rn_tick r" "s_only_last (g_schedule g)"]
  have cache: "cache_ok v" if "in_step c v" "sent_until (record_key c) v" "kept_apart (g_checkpoint g) w c v" for c v
    using that assms(3,4) by (auto simp: cache_ok_def in_step_def record_key_def kept_apart_def locked_cached_def)
  show ?thesis
  proof (cases ?turn)
    case (Again hs c v)
    then have "result = Inr (r\<lparr>rn_heap := (rn_heap r)\<lparr>h_entries := hs\<rparr>\<rparr>)" "w' = v"
      "g' = g\<lparr>g_heap := Some ((rn_heap r)\<lparr>h_entries := hs\<rparr>), g_checkpoint := c\<rparr>"
      using assms(1) by (simp_all add: turn_pass_def Let_def)
    with turn Again cache [of c v] assms(3,5) show ?thesis
      by (simp add: pass_ok_def turn_ok_def locked_cached_def plan_ok_def kept_apart_def)
  next
    case (Over res hs c v)
    then have "result = Inl res" "w' = checkpoint_release (t_now (rn_tick r)) (heap_top hs) c v"
      "g' = g\<lparr>g_heap := Some ((rn_heap r)\<lparr>h_entries := hs\<rparr>), g_checkpoint := c, g_wait_until := heap_top hs\<rparr>"
      using assms(1) by (simp_all add: turn_pass_def Let_def)
    moreover have "cache_ok w' = cache_ok v" by (rule same_store) (simp_all add: \<open>w' = _\<close> release_facts)
    ultimately show ?thesis using turn Over cache [of c v] assms(3)
      by (simp add: locked_cached_def plan_ok_def kept_apart_def)
  qed
qed

lemma save_lock: "checkpoint_save t i c w = (r, c', w') \<Longrightarrow> c_lock c' = c_lock c \<and> lock_held w' = lock_held w"
  by (auto simp: checkpoint_save_def Let_def split: if_splits)

lemma acquire_lock:
  assumes "checkpoint_acquire now c w = (result, c', w')" "c_lock c"
  shows "c_lock c'" "result = Inr True \<Longrightarrow> lock_held w'"
    "\<not> lock_free w \<Longrightarrow> result = Inr False \<and> c' = c\<lparr>c_reset := True\<rparr> \<and> w' = w\<lparr>lock_calls := lock_calls w @ [LockAcquire]\<rparr>"
proof -
  let ?w2 = "w\<lparr>lock_calls := lock_calls w @ [LockAcquire], lock_held := True\<rparr>"
  have barred: "result = Inr False \<and> c' = c\<lparr>c_reset := True\<rparr> \<and> w' = w\<lparr>lock_calls := lock_calls w @ [LockAcquire]\<rparr>"
    if "\<not> lock_free w"
    using assms that by (simp add: checkpoint_acquire_def Let_def)
  have "c_lock c' \<and> lock_held w'" if "lock_free w"
  proof -
    have cached: "lock_held (snd (cached_state now ?w2))" by (simp add: cached_state_def Let_def split: option.split)
    define saved_as where "saved_as = (if c_cache c
        then let ((t, i, f), w3) = cached_state now ?w2;
            c1 = c\<lparr>c_time := Some t, c_index := i, c_from := Some (case f of None \<Rightarrow> now | Some s \<Rightarrow> s)\<rparr>
          in checkpoint_save t i c1 w3
        else if c_reset c then checkpoint_save now (-1) (c\<lparr>c_reset := False\<rparr>) ?w2
        else (Inr (), c, ?w2))"
    obtain saving d v where s: "saved_as = (saving, d, v)" by (cases saved_as)
    then have "c_lock d \<and> lock_held v"
      using cached assms(2) save_lock
      by (cases "cached_state now ?w2") (auto simp: saved_as_def Let_def split: if_splits prod.splits dest!: save_lock)
    moreover have "(c' = d \<or> c' = fill_in now d) \<and> w' = v"
      using assms that s
      by (cases saving) (simp_all add: checkpoint_acquire_def Let_def saved_as_def)
    ultimately show ?thesis by (auto simp: fill_in_def Let_def split: option.splits)
  qed
  with barred assms(2) show "c_lock c'" "result = Inr True \<Longrightarrow> lock_held w'" by (cases "lock_free w"; simp)+
  show "\<not> lock_free w \<Longrightarrow> result = Inr False \<and> c' = c\<lparr>c_reset := True\<rparr> \<and> w' = w\<lparr>lock_calls := lock_calls w @ [LockAcquire]\<rparr>"
    by (rule barred)
qed

lemma plan_pass_ok:
  assumes "plan_pass k g w = (result, g', w')" "locked_cached g" "saves w" "in_step (g_checkpoint g) w"
    "sent_until (record_key (g_checkpoint g)) w" "lock_held w"
  shows "locked_cached g' \<and> cache_ok w' \<and> (\<forall>r. result = Inr r \<longrightarrow> pass_ok r (g_checkpoint g') w' \<and> lock_held w')"
proof -
  let ?c = "g_checkpoint g"
  obtain t f where c: "c_time ?c = Some t" "c_from ?c = Some f" using assms(4) by (auto simp: in_step_def)
  have cache: "cache_ok w"
    using assms(2-5) by (auto simp: cache_ok_def in_step_def record_key_def locked_cached_def)
  obtain hr g1 where h: "heap_for t f (c_index ?c) g = (hr, g1)" by (metis surj_pair)
  have plan: "plan_ok g1" "g_checkpoint g1 = ?c" "\<And>h. hr = Inr h \<Longrightarrow> heap_ok (h_entries h)"
    using heap_for_ok [OF h] assms(2) by (simp_all add: locked_cached_def)
  show ?thesis
  proof (cases hr)
    case (Inl err)
    then have "result = Inl (Inl err)" "g' = g1" "w' = checkpoint_release (t_now k) None ?c w"
      using assms(1) c h by (simp_all add: plan_pass_def acquired_date_def Let_def)
    moreover have "cache_ok w' = cache_ok w" by (rule same_store) (simp_all add: \<open>w' = _\<close> release_facts)
    ultimately show ?thesis using plan cache assms(2) by (simp add: locked_cached_def)
  next
    case (Inr h0)
    then have "result = Inr \<lparr>rn_tick = k, rn_time = t, rn_index = c_index ?c, rn_heap = h0\<rparr>" "g' = g1" "w' = w"
      using assms(1) c h by (simp_all add: plan_pass_def acquired_date_def Let_def)
    then show ?thesis
      using plan Inr cache assms(2,4-6) c by (simp add: pass_ok_def turn_ok_def locked_cached_def record_key_def)
  qed
qed

lemma enter_pass_ok:
  assumes "enter_pass k g w = (result, g', w')" "locked_cached g" "cache_ok w"
  shows "locked_cached g' \<and> cache_ok w' \<and> (\<forall>r. result = Inr r \<longrightarrow> pass_ok r (g_checkpoint g') w' \<and> lock_held w')"
proof -
  define g1 where "g1 = restart_if_changed g"
  have g1: "locked_cached g1" "g_checkpoint g1 = g_checkpoint g"
    using assms(2) by (auto simp: g1_def restart_if_changed_def locked_cached_def plan_ok_def)
  obtain a c w1 where a: "checkpoint_acquire (t_now k) (g_checkpoint g) w = (a, c, w1)" by (metis surj_pair)
  note lock = acquire_lock [OF a]
  have own: "saves w" "case saved w of None \<Rightarrow> sent w = [] | Some (t, i, f) \<Rightarrow> sent_until (microseconds t, i) w"
    "c_cache (g_checkpoint g)" "c_lock (g_checkpoint g)"
    using assms(2,3) by (auto simp: cache_ok_def locked_cached_def)
  show ?thesis
  proof (cases "\<exists>wait. g_wait_until g1 = Some wait \<and> microseconds wait \<le> microseconds (t_now k)")
    case False
    then have "result = Inl (Inr ())" "g' = g1" "w' = w"
      using assms(1) by (auto simp: enter_pass_def g1_def [symmetric] Let_def split: option.splits if_splits)
    with g1 assms(3) show ?thesis by simp
  next
    case due: True
    show ?thesis
    proof (cases "a = Inr True")
      case True
      have "plan_pass k (g1\<lparr>g_checkpoint := c\<rparr>) w1 = (result, g', w')"
        using due a True g1(2) assms(1) by (auto simp: enter_pass_def g1_def [symmetric] Let_def)
      moreover have "in_step c w1 \<and> sent_until (record_key c) w1 \<and> saves w1 \<and> c_cache c"
        using cached_acquire [OF a [unfolded True] own(3,1,2)] .
      moreover have "locked_cached (g1\<lparr>g_checkpoint := c\<rparr>)"
        using g1 lock(1) own(4) calculation(2) by (simp add: locked_cached_def plan_ok_def)
      moreover have "lock_held w1" using lock(2) own(4) True by blast
      ultimately show ?thesis using plan_pass_ok [of k "g1\<lparr>g_checkpoint := c\<rparr>" w1 result g' w'] by simp
    next
      case False
      then have "\<exists>res. result = Inl res" "g' = g1\<lparr>g_checkpoint := c\<rparr>" "w' = w1"
        using due a g1(2) assms(1)
        by (auto simp: enter_pass_def g1_def [symmetric] Let_def split: sum.splits bool.splits)
      moreover have same: "saved w1 = saved w" "sent w1 = sent w" "saves w1" "c_cache c"
        using cached_acquire_other [OF a False own(3,1)] by simp_all
      moreover have "cache_ok w1" using same_store(3) [of w1 w] same own(1) assms(3) by simp
      ultimately show ?thesis using g1 lock(1) own(4) by (auto simp: locked_cached_def plan_ok_def)
    qed
  qed
qed

text \<open>A process that finds the lock taken enters no pass and changes neither the cache nor what was sent.\<close>

lemma enter_pass_barred:
  assumes "enter_pass k g w = (result, g', w')" "c_lock (g_checkpoint g)" "\<not> lock_free w"
  shows "result = Inl (Inr ()) \<and> saved w' = saved w \<and> saves w' = saves w \<and> sent w' = sent w \<and> lock_held w' = lock_held w"
proof -
  obtain a c w1 where a: "checkpoint_acquire (t_now k) (g_checkpoint g) w = (a, c, w1)" by (metis surj_pair)
  note barred = acquire_lock(3) [OF a assms(2,3)]
  have "g_checkpoint (restart_if_changed g) = g_checkpoint g" by (simp add: restart_if_changed_def)
  with a barred assms(1) show ?thesis
    by (auto simp: enter_pass_def Let_def split: option.splits if_splits)
qed

lemma sharing_ok_start: "sharing_ok (sharing_run True [])"
  by (simp add: sharing_run_def sharing_ok_def cache_ok_def)

lemma stepped_ok:
  assumes "sharing_ok sys" "locked_cached g" "cache_ok w"
    and "\<And>r. result = Inr r \<Longrightarrow> lock_held w \<and> pass_ok r (g_checkpoint g) w"
    and "\<And>q. sh_owner sys = Some q \<Longrightarrow> q \<noteq> p \<Longrightarrow>
      \<not> lock_held w \<and> saved w = saved (sh_world sys) \<and> saves w = saves (sh_world sys) \<and> sent w = sent (sh_world sys)"
  shows "sharing_ok (stepped p (result, g, w) sys)"
proof -
  have "sh_owner (stepped p (result, g, w) sys) = Some q \<and> pass_ok r (g_checkpoint h) w"
    if "sh_procs sys q = Some (h, Some r)" "q \<noteq> p" for q h r
  proof -
    have "sh_owner sys = Some q \<and> pass_ok r (g_checkpoint h) (sh_world sys)" using assms(1) that by (auto simp: sharing_ok_def)
    with assms(5) [of q] that(2) same_store(4) [of w "sh_world sys"] show ?thesis by (simp add: stepped_def owner_after_def)
  qed
  with assms show ?thesis
    by (auto simp: sharing_ok_def owner_after_def stepped_def split: sum.splits if_splits)
qed

lemma sharing_does_ok:
  assumes "sharing_ok sys"
  shows "sharing_ok (sharing_does True step sys)"
proof (cases step)
  case (Starts p name s)
  with assms show ?thesis
    by (auto simp: sharing_ok_def locked_cached_def MessageGenerator_init_def Checkpoint_init_def plan_ok_def)
next
  case (Enters p k left)
  show ?thesis
  proof (cases "\<exists>g. sh_procs sys p = Some (g, None)")
    case False
    with assms Enters show ?thesis by (auto split: option.split)
  next
    case True
    then obtain g where g: "sh_procs sys p = Some (g, None)" by blast
    let ?v = "seen_by p left sys"
    have ok: "locked_cached g" "cache_ok ?v"
      using assms g same_store(3) [OF seen_store(1-3), of p left sys] by (auto simp: sharing_ok_def)
    obtain result g' w' where e: "enter_pass k g ?v = (result, g', w')" by (metis surj_pair)
    have "\<not> lock_held w' \<and> saved w' = saved (sh_world sys) \<and> saves w' = saves (sh_world sys) \<and> sent w' = sent (sh_world sys)"
      if "sh_owner sys = Some q" "q \<noteq> p" for q
      using enter_pass_barred [OF e] ok(1) that by (simp add: seen_store locked_cached_def)
    with stepped_ok [OF assms, of g' w' result p] enter_pass_ok [OF e ok] g Enters e show ?thesis by simp
  qed
next
  case (Turns p left)
  show ?thesis
  proof (cases "\<exists>g r. sh_procs sys p = Some (g, Some r)")
    case False
    with assms Turns show ?thesis by (auto split: option.split)
  next
    case True
    then obtain g r where g: "sh_procs sys p = Some (g, Some r)" by blast
    let ?v = "seen_by p left sys"
    have own: "sh_owner sys = Some p" and ok: "locked_cached g" "cache_ok (sh_world sys)"
      and "pass_ok r (g_checkpoint g) (sh_world sys)"
      using assms g by (auto simp: sharing_ok_def)
    then have pass: "pass_ok r (g_checkpoint g) ?v" using same_store(4) [OF seen_store(1-3), of r _ p left sys] by simp
    obtain result g' w' where e: "turn_pass r g ?v = (result, g', w')" by (metis surj_pair)
    have "saves ?v" using ok(2) by (simp add: seen_store cache_ok_def)
    then have "locked_cached g' \<and> cache_ok w' \<and> (\<forall>r'. result = Inr r' \<longrightarrow> pass_ok r' (g_checkpoint g') w' \<and> lock_held w')"
      using turn_pass_ok [OF e pass ok(1)] own by (simp add: seen_store)
    with stepped_ok [OF assms, of g' w' result p] own g Turns e show ?thesis by simp
  qed
next
  case (Alters p change)
  with assms show ?thesis by (auto simp: sharing_ok_def locked_cached_def plan_ok_def split: option.split)
next
  case (Leaves p)
  show ?thesis
  proof (cases "\<exists>g. sh_procs sys p = Some (g, None)")
    case False
    with assms Leaves show ?thesis by (auto split: option.split)
  next
    case True
    then obtain g where g: "sh_procs sys p = Some (g, None)" by blast
    let ?v = "seen_by p None sys" and ?w = "generator_close g (seen_by p None sys)"
    have store: "saved ?w = saved (sh_world sys)" "saves ?w = saves (sh_world sys)" "sent ?w = sent (sh_world sys)"
      by (simp_all add: close_facts seen_store)
    have "\<not> lock_held ?w" if "sh_owner sys = Some q" "q \<noteq> p" for q
      using that by (simp add: generator_close_def checkpoint_close_def seen_store)
    moreover have "locked_cached g" "cache_ok (sh_world sys)" using assms g by (auto simp: sharing_ok_def)
    ultimately show ?thesis
      using stepped_ok [OF assms, of g ?w "Inl (Inr ())" p] same_store(3) [OF store] store g Leaves by simp
  qed
next
  case (Dies p)
  with assms show ?thesis by (auto simp: sharing_ok_def)
next
  case Lapses
  have "sh_owner sys = Some p" if "sh_procs sys p = Some (g, Some r)" for p g r
    using assms that by (simp add: sharing_ok_def)
  then show ?thesis
    using assms Lapses by (cases "sh_owner sys") (auto simp: sharing_ok_def split: option.splits prod.splits)
qed

lemma sharing_run_ok: "sharing_ok (sharing_run True steps)"
proof -
  have "sharing_ok (fold (sharing_does True) steps sys)" if "sharing_ok sys" for sys
    using that by (induction steps arbitrary: sys) (simp_all add: sharing_does_ok)
  with sharing_ok_start show ?thesis by (simp add: sharing_run_def)
qed

text \<open>
  C5: No run is sent twice. Any number of processes run one schedule under one lock and keep their record
  in one cache; they start, pass, have their schedules changed, close and are killed in any order, their
  passes interleaved turn by turn, with whatever triggers, providers that fail and consumers that stop in
  the middle of a batch. As long as the cache keeps what it is given, the lock of a process does not run
  out while that process is in a pass, and no process is killed between handing on a run and recording it:
  two processes are never in a pass at once, the runs whose messages were handed on come in strictly
  increasing order of the instant they were due and, at one instant, of their position in the schedule, and
  the record in the cache is at or past the last of them.
\<close>

theorem no_run_is_sent_twice:
  "let sys = sharing_run True steps; w = sh_world sys in
    (\<nexists>p q g r h s. p \<noteq> q \<and> sh_procs sys p = Some (g, Some r) \<and> sh_procs sys q = Some (h, Some s))
    \<and> sorted_wrt (<) (sent_keys w) \<and> distinct (sent_keys w)
    \<and> (sent w = [] \<or> (case saved w of None \<Rightarrow> False | Some (t, i, f) \<Rightarrow> last (sent_keys w) \<le> (microseconds t, i)))"
proof -
  define sys w where "sys = sharing_run True steps" and "w = sh_world sys"
  have ok: "sharing_ok sys" unfolding sys_def by (rule sharing_run_ok)
  then have apart: "\<nexists>p q g r h s. p \<noteq> q \<and> sh_procs sys p = Some (g, Some r) \<and> sh_procs sys q = Some (h, Some s)"
    unfolding sharing_ok_def by (metis option.inject)
  have cache: "case saved w of None \<Rightarrow> sent w = [] | Some (t, i, f) \<Rightarrow> sent_until (microseconds t, i) w"
    using ok by (simp add: sharing_ok_def cache_ok_def w_def cong: option.case_cong)
  have "sorted_wrt (<) (sent_keys w) \<and> distinct (sent_keys w)
    \<and> (sent w = [] \<or> (case saved w of None \<Rightarrow> False | Some (t, i, f) \<Rightarrow> last (sent_keys w) \<le> (microseconds t, i)))"
  proof (cases "saved w")
    case None
    with cache show ?thesis by (simp add: sent_keys_def)
  next
    case (Some st)
    obtain t i f where st: "st = (t, i, f)" by (metis surj_pair)
    with cache Some have s: "sent_until (microseconds t, i) w" by simp
    then have "distinct (sent_keys w)" by (auto simp: sent_until_def strict_sorted_iff)
    moreover have "last (sent_keys w) \<in> set (sent_keys w)" if "sent w \<noteq> []"
      using that by (intro last_in_set) (simp add: sent_keys_def)
    then have "sent w = [] \<or> last (sent_keys w) \<le> (microseconds t, i)"
      using s by (auto simp: sent_until_def)
    ultimately show ?thesis using s Some by (auto simp: st sent_until_def)
  qed
  with apart show ?thesis unfolding Let_def sys_def [symmetric] w_def [symmetric] by blast
qed

text \<open>
  Two processes whose passes overlap: without a lock each sends what is due, with one only the first does.
\<close>

definition overlapping :: "sharing_step list" where
  "overlapping = [Starts 0 ''main'' two_hourly, Enters 0 (whole 0) None, Turns 0 None,
    Starts 1 ''main'' two_hourly, Enters 0 (whole 1) None, Enters 1 (whole 1) None,
    Turns 0 None, Turns 1 None, Turns 0 None, Turns 1 None, Turns 0 None, Turns 1 None]"

lemma unlocked_processes_send_twice:
  "sent_keys (sh_world (sharing_run False overlapping)) = [(HOUR, 0), (HOUR, 0), (HOUR, 1), (HOUR, 1)]"
  by code_simp

lemma locked_processes_send_once:
  "sent_keys (sh_world (sharing_run True overlapping)) = [(HOUR, 0), (HOUR, 1)]"
  by code_simp

end
