(* ===== verification/Oauth_Tasks.thy ===== *)
theory Oauth_Tasks
  imports Prelude
begin

text \<open>
  Coroutines: code that is answered piece by piece, other code running in between.

  A \<open>task\<close> is finished or waits for a collaborator; each step of it is one awaited call, which sees and
  changes the shared state at once. \<open>finish\<close> runs a task with nothing in between. \<open>obeys\<close> is the way to
  speak of a task whatever happens in between: each of its steps, from any state, is one its phase
  allows, and what it ends with is one its last phase allows.
\<close>

section \<open>Tasks\<close>

datatype ('s, 'a) task = Finished 'a | Await "'s \<Rightarrow> ('s, 'a) task \<times> 's"

type_synonym ('s, 'e, 'a) coro = "('s, 'e + 'a) task"

primrec then_do :: "('s, 'a) task \<Rightarrow> ('a \<Rightarrow> ('s, 'b) task) \<Rightarrow> ('s, 'b) task" where
  "then_do (Finished a) f = f a"
| "then_do (Await k) f = Await (map_prod (\<lambda>t. then_do t f) id \<circ> k)"

definition answer :: "'a \<Rightarrow> ('s, 'e, 'a) coro" where
  "answer x = Finished (Inr x)"

definition refuse :: "'e \<Rightarrow> ('s, 'e, 'a) coro" where
  "refuse e = Finished (Inl e)"

definition await :: "('s, 'e, 'a) prog \<Rightarrow> ('s, 'e, 'a) coro" where
  "await m = Await (map_prod Finished id \<circ> m)"

definition seq :: "('s, 'e, 'a) coro \<Rightarrow> ('a \<Rightarrow> ('s, 'e, 'b) coro) \<Rightarrow> ('s, 'e, 'b) coro" where
  "seq m f = then_do m (\<lambda>r. case r of Inl e \<Rightarrow> Finished (Inl e) | Inr x \<Rightarrow> f x)"

text \<open>\<open>try ... except\<close>: what to do after an error, or to let it through.\<close>

definition caught :: "('s, 'e, 'a) coro \<Rightarrow> ('e \<Rightarrow> ('s, 'e, 'a) coro) \<Rightarrow> ('s, 'e, 'a) coro" where
  "caught m h = then_do m (\<lambda>r. case r of Inl e \<Rightarrow> h e | Inr x \<Rightarrow> Finished (Inr x))"

definition settled :: "'e + 'a \<Rightarrow> ('s, 'e, 'a) coro" where
  "settled r = Finished r"

primrec finish :: "('s, 'a) task \<Rightarrow> 's \<Rightarrow> 'a \<times> 's" where
  "finish (Finished a) = Pair a"
| "finish (Await k) = (\<lambda>s. case (map_prod finish id \<circ> k) s of (go, s') \<Rightarrow> go s')"

fun task_step :: "('s, 'a) task \<Rightarrow> 's \<Rightarrow> ('s, 'a) task \<times> 's" where
  "task_step (Finished a) s = (Finished a, s)"
| "task_step (Await k) s = k s"

fun result_of :: "('s, 'a) task \<Rightarrow> 'a option" where
  "result_of (Finished a) = Some a"
| "result_of (Await k) = None"

section \<open>Running a task with nothing in between\<close>

named_theorems task_simps \<open>how tasks compute when nothing runs in between\<close>

lemma finish_then_do [task_simps]: "finish (then_do t f) s = (case finish t s of (a, s') \<Rightarrow> finish (f a) s')"
proof (induction t arbitrary: s)
  case (Finished a)
  then show ?case by simp
next
  case (Await k)
  obtain t' s' where k: "k s = (t', s')" by fastforce
  have "finish (then_do t' f) s' = (case finish t' s' of (a, x) \<Rightarrow> finish (f a) x)"
    by (rule Await.IH [of "k s"]) (metis k rangeI, simp add: k)
  then show ?case by (simp add: k split: prod.splits)
qed

lemma finish_answer [simp, task_simps]: "finish (answer x) s = (Inr x, s)"
  by (simp add: answer_def)

lemma finish_refuse [simp, task_simps]: "finish (refuse e) s = (Inl e, s)"
  by (simp add: refuse_def)

lemma finish_settled [simp, task_simps]: "finish (settled r) s = (r, s)"
  by (simp add: settled_def)

lemma finish_await [simp, task_simps]: "finish (await m) s = m s"
  by (cases "m s") (simp add: await_def)

lemma finish_seq [task_simps]: "finish (seq t f) s = (case finish t s of (r, s') \<Rightarrow>
    (case r of Inl e \<Rightarrow> (Inl e, s') | Inr x \<Rightarrow> finish (f x) s'))"
  by (simp add: seq_def finish_then_do split: prod.splits sum.splits)

lemma finish_caught [task_simps]: "finish (caught t h) s = (case finish t s of (r, s') \<Rightarrow>
    (case r of Inl e \<Rightarrow> finish (h e) s' | Inr x \<Rightarrow> (Inr x, s')))"
  by (simp add: caught_def finish_then_do split: prod.splits sum.splits)

lemma seq_answer [simp]: "seq (answer x) f = f x"
  by (simp add: seq_def answer_def)

lemma seq_refuse [simp]: "seq (refuse e) f = refuse e"
  by (simp add: seq_def refuse_def)

section \<open>Tasks in phases\<close>

text \<open>
  From states of which \<open>I\<close> holds: \<open>G p s s' p'\<close>, a step from \<open>s\<close> to \<open>s'\<close> is allowed in phase \<open>p\<close> and leads to
  phase \<open>p'\<close>; \<open>F p a\<close>, the task may end with \<open>a\<close> in phase \<open>p\<close>.
\<close>

primrec obeys :: "('s \<Rightarrow> bool) \<Rightarrow> ('p \<Rightarrow> 's \<Rightarrow> 's \<Rightarrow> 'p \<Rightarrow> bool) \<Rightarrow> ('p \<Rightarrow> 'a \<Rightarrow> bool) \<Rightarrow> ('s, 'a) task \<Rightarrow> 'p \<Rightarrow> bool" where
  "obeys I G F (Finished a) = (\<lambda>p. F p a)"
| "obeys I G F (Await k) = (\<lambda>p. \<forall>s. I s \<longrightarrow> (\<exists>p'. G p s (snd (k s)) p' \<and> fst ((map_prod (obeys I G F) id \<circ> k) s) p'))"

lemma obeys_Await: "obeys I G F (Await k) p \<longleftrightarrow>
    (\<forall>s. I s \<longrightarrow> (\<exists>p'. G p s (snd (k s)) p' \<and> obeys I G F (fst (k s)) p'))"
  by simp

declare obeys.simps(2) [simp del]

lemma obeys_step:
  assumes "obeys I G F t p" "task_step t s = (t', s')" "I s"
  obtains "t' = t" "s' = s" | p' where "G p s s' p'" "obeys I G F t' p'"
proof (cases t)
  case (Finished a)
  then show ?thesis using assms by (intro that(1)) simp_all
next
  case (Await k)
  then show ?thesis using assms that(2) by (auto simp: obeys_Await)
qed

lemma obeys_result: "obeys I G F t p \<Longrightarrow> result_of t = Some a \<Longrightarrow> F p a"
  by (cases t) simp_all

lemma obeys_then_do:
  assumes "obeys I G F t p" "\<And>p' a. F p' a \<Longrightarrow> obeys I G F' (f a) p'"
  shows "obeys I G F' (then_do t f) p"
  using assms(1)
proof (induction t arbitrary: p)
  case (Finished a)
  then show ?case using assms(2) by simp
next
  case (Await k)
  show ?case unfolding then_do.simps obeys_Await
  proof (intro allI impI)
    fix s
    assume "I s"
    then obtain p' where "G p s (snd (k s)) p'" "obeys I G F (fst (k s)) p'" using Await.prems unfolding obeys_Await by blast
    moreover have "fst (k s) \<in> Basic_BNFs.fsts (k s)" by (simp add: prod_set_defs)
    ultimately show "\<exists>p'. G p s (snd ((map_prod (\<lambda>t. then_do t f) id \<circ> k) s)) p'
        \<and> obeys I G F' (fst ((map_prod (\<lambda>t. then_do t f) id \<circ> k) s)) p'"
      using Await.IH [of "k s" "fst (k s)" p'] by (intro exI [of _ p']) simp
  qed
qed

lemma obeys_mono:
  assumes "obeys I G F t p" "\<And>p a. F p a \<Longrightarrow> F' p a"
  shows "obeys I G F' t p"
proof -
  have "then_do t Finished = t"
    by (induction t) (auto simp: map_prod_def comp_def fun_eq_iff split: prod.splits, metis rangeI)
  with obeys_then_do [of I G F t p F' Finished] assms show ?thesis by simp
qed

lemma obeys_seq:
  assumes "obeys I G F t p" "\<And>p' e. F p' (Inl e) \<Longrightarrow> F' p' (Inl e)"
    "\<And>p' x. F p' (Inr x) \<Longrightarrow> obeys I G F' (f x) p'"
  shows "obeys I G F' (seq t f) p"
  unfolding seq_def by (rule obeys_then_do [OF assms(1)]) (auto split: sum.splits intro: assms)

lemma obeys_caught:
  assumes "obeys I G F t p" "\<And>p' x. F p' (Inr x) \<Longrightarrow> F' p' (Inr x)"
    "\<And>p' e. F p' (Inl e) \<Longrightarrow> obeys I G F' (h e) p'"
  shows "obeys I G F' (caught t h) p"
  unfolding caught_def by (rule obeys_then_do [OF assms(1)]) (auto split: sum.splits intro: assms)

lemma obeys_weaker_when: "obeys I G F t p \<Longrightarrow> (\<And>s. I' s \<Longrightarrow> I s) \<Longrightarrow> obeys I' G F t p"
proof (induction t arbitrary: p)
  case (Await k)
  show ?case unfolding obeys_Await
  proof (intro allI impI)
    fix s
    assume "I' s"
    then obtain p' where "G p s (snd (k s)) p'" "obeys I G F (fst (k s)) p'" using Await.prems unfolding obeys_Await by blast
    then show "\<exists>p'. G p s (snd (k s)) p' \<and> obeys I' G F (fst (k s)) p'"
      using Await.IH [of "k s" "fst (k s)" p'] Await.prems(2) by (auto simp: prod_set_defs)
  qed
qed simp

lemma obeys_await: "obeys I G F (await m) p \<longleftrightarrow> (\<forall>s. I s \<longrightarrow> (\<exists>p'. G p s (snd (m s)) p' \<and> F p' (fst (m s))))"
  by (simp add: await_def obeys_Await)

lemma obeys_answer [simp]: "obeys I G F (answer x) p \<longleftrightarrow> F p (Inr x)"
  by (simp add: answer_def)

lemma obeys_refuse [simp]: "obeys I G F (refuse e) p \<longleftrightarrow> F p (Inl e)"
  by (simp add: refuse_def)

lemma obeys_settled [simp]: "obeys I G F (settled r) p \<longleftrightarrow> F p r"
  by (simp add: settled_def)

text \<open>Settling a value first, and a call awaited first.\<close>

lemma seq_settled: "seq (settled r) f = (case r of Inl e \<Rightarrow> refuse e | Inr x \<Rightarrow> f x)"
  by (simp add: seq_def settled_def refuse_def split: sum.splits)

lemma obeys_seq_settled [simp]:
  "obeys I G F (seq (settled r) f) p \<longleftrightarrow> (case r of Inl e \<Rightarrow> F p (Inl e) | Inr x \<Rightarrow> obeys I G F (f x) p)"
  by (simp add: seq_settled split: sum.splits)

lemma obeys_case_sum:
  "obeys I G F (case r of Inl e \<Rightarrow> t e | Inr x \<Rightarrow> u x) p \<longleftrightarrow>
    (case r of Inl e \<Rightarrow> obeys I G F (t e) p | Inr x \<Rightarrow> obeys I G F (u x) p)"
  by (cases r) simp_all

lemma obeys_seq_await:
  "obeys I G F (seq (await m) f) p \<longleftrightarrow> (\<forall>s. I s \<longrightarrow> (\<exists>p'. G p s (snd (m s)) p'
    \<and> (case fst (m s) of Inl e \<Rightarrow> F p' (Inl e) | Inr x \<Rightarrow> obeys I G F (f x) p')))"
  by (simp add: seq_def await_def obeys_Await obeys_case_sum cong: sum.case_cong)

text \<open>Undisturbed, a task leads from its first phase to the one it ends in.\<close>

inductive leads :: "('p \<Rightarrow> 's \<Rightarrow> 's \<Rightarrow> 'p \<Rightarrow> bool) \<Rightarrow> 'p \<Rightarrow> 's \<Rightarrow> 's \<Rightarrow> 'p \<Rightarrow> bool" for G where
  stay: "leads G p s s p"
| go: "G p s s' p' \<Longrightarrow> leads G p' s' s'' p'' \<Longrightarrow> leads G p s s'' p''"

lemma obeys_finish:
  assumes "obeys I G F t p" "I s" "\<And>p s s' p'. I s \<Longrightarrow> G p s s' p' \<Longrightarrow> I s'"
  shows "\<exists>p'. leads G p s (snd (finish t s)) p' \<and> F p' (fst (finish t s)) \<and> I (snd (finish t s))"
  using assms(1,2)
proof (induction t arbitrary: p s)
  case (Finished a)
  then show ?case by (auto intro: leads.stay)
next
  case (Await k)
  obtain t' s' where k: "k s = (t', s')" by fastforce
  with Await.prems obtain p' where p: "G p s s' p'" "obeys I G F t' p'" by (fastforce simp: obeys_Await)
  have "\<exists>p''. leads G p' s' (snd (finish t' s')) p'' \<and> F p'' (fst (finish t' s')) \<and> I (snd (finish t' s'))"
  proof (rule Await.IH)
    show "k s \<in> range k" by simp
    show "t' \<in> Basic_BNFs.fsts (k s)" by (simp add: k prod_set_defs)
    show "obeys I G F t' p'" by (rule p(2))
    show "I s'" by (rule assms(3) [OF Await.prems(2) p(1)])
  qed
  moreover have "finish (Await k) s = finish t' s'" by (simp add: k)
  ultimately show ?case using p(1) by (auto intro: leads.go)
qed

section \<open>Tasks that take only steps of one kind\<close>

definition does_only :: "('s \<Rightarrow> 's \<Rightarrow> bool) \<Rightarrow> ('s, 'a) task \<Rightarrow> bool" where
  "does_only Q t \<longleftrightarrow> obeys (\<lambda>s. True) (\<lambda>p s s' p'. Q s s') (\<lambda>p a. True) t ()"

named_theorems only_intros \<open>tasks that take only steps of one kind\<close>

lemma only_finished [only_intros]: "does_only Q (Finished a)"
  by (simp add: does_only_def)

lemma only_answer [only_intros]: "does_only Q (answer x)"
  by (simp add: does_only_def)

lemma only_refuse [only_intros]: "does_only Q (refuse e)"
  by (simp add: does_only_def)

lemma only_settled [only_intros]: "does_only Q (settled r)"
  by (simp add: does_only_def)

lemma only_await: "(\<And>s. Q s (snd (m s))) \<Longrightarrow> does_only Q (await m)"
  by (simp add: does_only_def obeys_await)

lemma only_seq [only_intros]: "does_only Q t \<Longrightarrow> (\<And>x. does_only Q (f x)) \<Longrightarrow> does_only Q (seq t f)"
  unfolding does_only_def by (rule obeys_seq) simp_all

lemma only_caught [only_intros]: "does_only Q t \<Longrightarrow> (\<And>e. does_only Q (h e)) \<Longrightarrow> does_only Q (caught t h)"
  unfolding does_only_def by (rule obeys_caught) simp_all

lemma only_finish: "does_only Q t \<Longrightarrow> (\<And>s. Q s s) \<Longrightarrow> (\<And>a b c. Q a b \<Longrightarrow> Q b c \<Longrightarrow> Q a c) \<Longrightarrow> Q s (snd (finish t s))"
proof -
  assume t: "does_only Q t" and refl: "\<And>s. Q s s" and trans: "\<And>a b c. Q a b \<Longrightarrow> Q b c \<Longrightarrow> Q a c"
  have "leads (\<lambda>p s s' p'. Q s s') p a b p' \<Longrightarrow> Q a b" for p p' :: unit and a b
    by (induction rule: leads.induct) (blast intro: refl trans)+
  moreover obtain p' where "leads (\<lambda>p s s' p'. Q s s') () s (snd (finish t s)) p'"
    using obeys_finish [OF t [unfolded does_only_def]] by blast
  ultimately show "Q s (snd (finish t s))" by blast
qed

text \<open>Such a task within one that goes through phases, in a phase those steps are allowed in.\<close>

lemma only_obeys:
  assumes "does_only Q t" "\<And>s s'. I s \<Longrightarrow> Q s s' \<Longrightarrow> G p s s' p" "\<And>r. F p r"
  shows "obeys I G F t p"
  using assms(1) unfolding does_only_def
proof (induction t)
  case (Finished a)
  then show ?case using assms(3) by simp
next
  case (Await k)
  show ?case unfolding obeys_Await
  proof (intro allI impI)
    fix s
    assume "I s"
    have k: "Q s (snd (k s))" "obeys (\<lambda>s. True) (\<lambda>p s s' p'. Q s s') (\<lambda>p a. True) (fst (k s)) ()"
      using Await.prems unfolding obeys_Await by auto
    have "obeys I G F (fst (k s)) p"
      by (rule Await.IH [of "k s"]) (use k in \<open>simp_all add: prod_set_defs\<close>)
    with k \<open>I s\<close> show "\<exists>p'. G p s (snd (k s)) p' \<and> obeys I G F (fst (k s)) p'" using assms(2) by blast
  qed
qed

section \<open>What a task may end with\<close>

primrec yields :: "('a \<Rightarrow> bool) \<Rightarrow> ('s, 'a) task \<Rightarrow> bool" where
  "yields P (Finished a) = P a"
| "yields P (Await k) = (\<forall>s. fst ((map_prod (yields P) id \<circ> k) s))"

lemma yields_Await: "yields P (Await k) \<longleftrightarrow> (\<forall>s. yields P (fst (k s)))"
  by simp

declare yields.simps(2) [simp del]

lemma yields_any [simp]: "yields (\<lambda>a. True) t"
  by (induction t) (auto simp: yields_Await prod_set_defs)

lemma yields_then_do: "yields P t \<Longrightarrow> (\<And>a. P a \<Longrightarrow> yields P' (f a)) \<Longrightarrow> yields P' (then_do t f)"
proof (induction t)
  case (Await k)
  show ?case unfolding then_do.simps yields_Await
  proof
    fix s
    have "yields P' (then_do (fst (k s)) f)"
      by (rule Await.IH [of "k s"]) (use Await.prems in \<open>auto simp: yields_Await prod_set_defs\<close>)
    then show "yields P' (fst ((map_prod (\<lambda>t. then_do t f) id \<circ> k) s))" by simp
  qed
qed simp

lemma yields_mono:
  assumes "yields P t" "\<And>a. P a \<Longrightarrow> P' a"
  shows "yields P' t"
proof -
  have "then_do t Finished = t"
    by (induction t) (auto simp: map_prod_def comp_def fun_eq_iff split: prod.splits, metis rangeI)
  with yields_then_do [of P t P' Finished] assms show ?thesis by simp
qed

lemma yields_conj: "yields P t \<Longrightarrow> yields P' t \<Longrightarrow> yields (\<lambda>a. P a \<and> P' a) t"
  by (induction t) (auto simp: yields_Await prod_set_defs)

lemma yields_result: "yields P t \<Longrightarrow> result_of t = Some a \<Longrightarrow> P a"
  by (cases t) simp_all

lemma yields_finish: "yields P t \<Longrightarrow> P (fst (finish t s))"
proof (induction t arbitrary: s)
  case (Await k)
  obtain t' s' where k: "k s = (t', s')" by fastforce
  from Await.prems have "yields P (fst (k s))" by (simp add: yields_Await)
  then have "P (fst (finish t' s'))" by (intro Await.IH [OF rangeI [of k s]]) (simp_all add: k prod_set_defs)
  then show ?case by (simp add: k)
qed simp

lemma yields_step: "yields P t \<Longrightarrow> yields P (fst (task_step t s))"
  by (cases t) (simp_all add: yields_Await)

lemma obeys_yields:
  assumes "obeys I G F t p" "yields P t"
  shows "obeys I G (\<lambda>p a. F p a \<and> P a) t p"
  using assms
proof (induction t arbitrary: p)
  case (Await k)
  show ?case unfolding obeys_Await
  proof (intro allI impI)
    fix s
    assume "I s"
    obtain p' where p': "G p s (snd (k s)) p'" "obeys I G F (fst (k s)) p'"
      using Await.prems(1) \<open>I s\<close> unfolding obeys_Await by blast
    have "obeys I G (\<lambda>p a. F p a \<and> P a) (fst (k s)) p'"
      by (rule Await.IH [of "k s", OF _ _ p'(2)]) (use Await.prems(2) in \<open>auto simp: yields_Await prod_set_defs\<close>)
    with p'(1) show "\<exists>p'. G p s (snd (k s)) p' \<and> obeys I G (\<lambda>p a. F p a \<and> P a) (fst (k s)) p'" by blast
  qed
qed simp

text \<open>The same where errors do not matter: what is returned, and what may follow it.\<close>

definition returns :: "('a \<Rightarrow> bool) \<Rightarrow> ('s, 'e, 'a) coro \<Rightarrow> bool" where
  "returns P t \<longleftrightarrow> yields (\<lambda>r. case r of Inl e \<Rightarrow> True | Inr x \<Rightarrow> P x) t"

lemma returns_any [simp]: "returns (\<lambda>x. True) t"
  unfolding returns_def by (rule yields_mono [OF yields_any]) (simp split: sum.splits)

lemma returns_answer [simp]: "returns P (answer x) \<longleftrightarrow> P x"
  by (simp add: returns_def answer_def)

lemma returns_refuse [simp]: "returns P (refuse e)"
  by (simp add: returns_def refuse_def)

lemma returns_settled [simp]: "returns P (settled r) \<longleftrightarrow> (case r of Inl e \<Rightarrow> True | Inr x \<Rightarrow> P x)"
  by (simp add: returns_def settled_def)

lemma returns_seq: "returns P t \<Longrightarrow> (\<And>x. P x \<Longrightarrow> returns P' (f x)) \<Longrightarrow> returns P' (seq t f)"
  unfolding returns_def seq_def by (erule yields_then_do) (auto split: sum.splits)

lemma returns_after: "(\<And>x. returns P (f x)) \<Longrightarrow> returns P (seq t f)"
  by (rule returns_seq [of "\<lambda>x. True"]) simp_all

lemma returns_caught: "returns P t \<Longrightarrow> (\<And>e. returns P (h e)) \<Longrightarrow> returns P (caught t h)"
  unfolding returns_def caught_def by (erule yields_then_do) (auto split: sum.splits)

lemma returns_seq_settled [simp]:
  "returns P (seq (settled r) f) \<longleftrightarrow> (case r of Inl e \<Rightarrow> True | Inr x \<Rightarrow> returns P (f x))"
  by (simp add: seq_settled split: sum.splits)

lemma returns_mono: "returns P t \<Longrightarrow> (\<And>x. P x \<Longrightarrow> P' x) \<Longrightarrow> returns P' t"
  unfolding returns_def by (erule yields_mono) (auto split: sum.splits)

lemma returns_conj: "returns P t \<Longrightarrow> returns P' t \<Longrightarrow> returns (\<lambda>x. P x \<and> P' x) t"
  unfolding returns_def by (drule (1) yields_conj, erule yields_mono) (auto split: sum.splits)

lemma returns_result: "returns P t \<Longrightarrow> result_of t = Some (Inr x) \<Longrightarrow> P x"
  unfolding returns_def by (drule (1) yields_result) simp

lemma returns_finish: "returns P t \<Longrightarrow> finish t s = (Inr x, s') \<Longrightarrow> P x"
  unfolding returns_def by (drule yields_finish [where s = s]) simp

text \<open>A part whose steps and answers are known, and what comes after it, in the phase it left alone.\<close>

lemma obeys_seq_only:
  assumes "does_only Q t" "\<And>s s'. I s \<Longrightarrow> Q s s' \<Longrightarrow> G p s s' p" "returns P t" "\<And>e. F p (Inl e)"
    "\<And>x. P x \<Longrightarrow> obeys I G F (f x) p"
  shows "obeys I G F (seq t f) p"
proof (rule obeys_seq)
  have "obeys I G (\<lambda>p' r. p' = p) t p" by (rule only_obeys [OF assms(1)]) (use assms(2) in auto)
  from obeys_yields [OF this assms(3) [unfolded returns_def]]
  show "obeys I G (\<lambda>p' r. p' = p \<and> (case r of Inl e \<Rightarrow> True | Inr x \<Rightarrow> P x)) t p" .
qed (use assms(4,5) in auto)

end
