(* ===== verification/Oauth_Store.thy ===== *)
theory Oauth_Store
  imports Oauth_Tasks
begin

text \<open>
  What an authorization server stores, the managers that keep it in a process and the repositories the
  flows reach it through (\<open>model/\<close>, \<open>manager/in_memory/\<close>, \<open>repository/\<close> of xtr-security-oauth2-server).

  A manager's method is a program, done at once. A repository's method is a coroutine over them: what
  other requests do may come between a reading and the writing that follows it. The client a record
  points at is known by its identifier.
\<close>

section \<open>What is stored\<close>

datatype json = JText string | JWhole int | JReal real | JBool bool | JNull | JList "json list" | JObject

type_synonym payload = "(string \<times> json) list"

record oauth_client =
  cl_identifier :: string
  cl_secret :: "string option"
  cl_redirect_uris :: "string list"
  cl_grants :: "string list"
  cl_scopes :: "string list"
  cl_active :: bool
  cl_plain_pkce :: bool

definition is_confidential :: "oauth_client \<Rightarrow> bool" where
  "is_confidential c \<longleftrightarrow> cl_secret c \<noteq> None \<and> cl_secret c \<noteq> Some ''''"

text \<open>The client as the flows read it.\<close>

record client_entity =
  ce_identifier :: string
  ce_redirect_uris :: "string list"
  ce_confidential :: bool
  ce_grants :: "string list"

definition client_entity_of :: "oauth_client \<Rightarrow> client_entity" where
  "client_entity_of c = \<lparr>ce_identifier = cl_identifier c, ce_redirect_uris = cl_redirect_uris c,
    ce_confidential = is_confidential c, ce_grants = cl_grants c\<rparr>"

definition entity_supports_grant_type :: "client_entity \<Rightarrow> string \<Rightarrow> bool" where
  "entity_supports_grant_type c g \<longleftrightarrow> ce_grants c = [] \<or> g \<in> set (ce_grants c)"

text \<open>An access token or an authorization code as stored, without the identifier it is stored under.\<close>

record stored_token =
  st_expiry :: int
  st_client :: string
  st_user :: "string option"
  st_scopes :: "string list"
  st_revoked :: bool

record stored_refresh =
  sr_expiry :: int
  sr_access :: "string option"
  sr_revoked :: bool

record stored_device =
  sd_expiry :: int
  sd_client :: string
  sd_user :: "string option"
  sd_scopes :: "string list"
  sd_user_code :: string
  sd_approved :: bool
  sd_uri :: string
  sd_polled :: "int option"
  sd_interval :: int
  sd_complete :: bool
  sd_revoked :: bool

text \<open>Tokens and codes as the flows hold them.\<close>

record access_token =
  at_identifier :: string
  at_expiry :: int
  at_client :: client_entity
  at_user :: "string option"
  at_scopes :: "string list"
  at_claims :: payload

record auth_code =
  ac_identifier :: string
  ac_expiry :: int
  ac_client :: client_entity
  ac_user :: "string option"
  ac_redirect_uri :: "string option"
  ac_scopes :: "string list"

record refresh_token =
  rt_identifier :: string
  rt_expiry :: int
  rt_access_token :: access_token

record device_code =
  dc_identifier :: string
  dc_expiry :: int
  dc_client :: "client_entity option"
  dc_user :: "string option"
  dc_scopes :: "string list"
  dc_user_code :: string
  dc_approved :: bool
  dc_uri :: string
  dc_polled :: "int option"
  dc_interval :: int
  dc_complete :: bool

text \<open>Scopes are kept keyed by identifier, each once, where it was first put.\<close>

definition add_scope :: "string \<Rightarrow> string list \<Rightarrow> string list" where
  "add_scope scope held = (if scope \<in> set held then held else held @ [scope])"

definition scopes_held :: "string list \<Rightarrow> string list" where
  "scopes_held scopes = fold add_scope scopes []"

lemma set_scopes_held [simp]: "set (scopes_held scopes) = set scopes"
proof -
  have "set (fold add_scope scopes held) = set held \<union> set scopes" for held
    by (induction scopes arbitrary: held) (auto simp: add_scope_def)
  then show ?thesis by (simp add: scopes_held_def)
qed

section \<open>The state of a server\<close>

datatype oauth_redirect = OauthRedirect (to_uri: string) (to_params: "(string \<times> string) list") (to_delimiter: string)

datatype oauth_error =
    InvalidRequest string | InvalidClient | InvalidScope string "oauth_redirect option" | InvalidGrant
  | InvalidCredentials | InvalidRefreshToken | OauthServerFault | AccessDenied "oauth_redirect option"
  | UnauthorizedClient | UnsupportedGrantType | AuthorizationPending | SlowDown | ExpiredToken
  | UnsupportedTokenType | UniqueIdentifierTaken | OauthInvalidArgument

text \<open>\<open>isinstance(e, OAuthServerError)\<close>.\<close>

definition is_server_error :: "oauth_error \<Rightarrow> bool" where
  "is_server_error e \<longleftrightarrow> e \<noteq> UniqueIdentifierTaken \<and> e \<noteq> OauthInvalidArgument"

datatype oauth_event =
    ClientAuthenticationFailed | UserAuthenticationFailed | RefreshTokenClientFailed
  | AccessTokenIssued access_token | RefreshTokenIssued refresh_token

record oauth =
  o_now :: int
  o_clients :: "(string, oauth_client) dict"
  o_scopes :: "(string, unit) dict"
  o_access :: "(string, stored_token) dict"
  o_refresh :: "(string, stored_refresh) dict"
  o_codes :: "(string, stored_token) dict"
  o_devices :: "(string, stored_device) dict"
  o_events :: "oauth_event list"

type_synonym 'a oauth_call = "(oauth, oauth_error, 'a) prog"
type_synonym 'a oauth_coro = "(oauth, oauth_error, 'a) coro"

text \<open>
  What a deployment brings: the cipher and the signatures (joserfc), the password hasher, the digest and
  the base64 of the standard library, the splitting of a URI (scheme, host name, the URI without its port)
  and what listeners of the application answer.
\<close>

record oauth_env =
  v_seal :: "nat \<Rightarrow> payload \<Rightarrow> string"
  v_unseal :: "string \<Rightarrow> payload option"
  v_sign :: "payload \<Rightarrow> payload \<Rightarrow> string option"
  v_load :: "string \<Rightarrow> (payload \<times> payload \<times> bool) option"
  v_verify :: "string \<Rightarrow> string \<Rightarrow> bool"
  v_rehash :: "string \<Rightarrow> string \<Rightarrow> string option"
  v_scopes :: "string list \<Rightarrow> string \<Rightarrow> oauth_client \<Rightarrow> string option \<Rightarrow> string list"
  v_claims :: "client_entity \<Rightarrow> string list \<Rightarrow> string option \<Rightarrow> payload"
  v_user :: "string \<Rightarrow> string \<Rightarrow> string \<Rightarrow> oauth_client \<Rightarrow> string option"
  v_s256 :: "string \<Rightarrow> string"
  v_split :: "string \<Rightarrow> (string \<times> string \<times> string) option"
  v_basic :: "string \<Rightarrow> string option"

definition read_now :: "int oauth_call" where
  "read_now w = (Inr (o_now w), w)"

definition dispatch_event :: "oauth_event \<Rightarrow> unit oauth_call" where
  "dispatch_event e w = (Inr (), w\<lparr>o_events := o_events w @ [e]\<rparr>)"

section \<open>Managers in memory\<close>

definition client_find :: "string \<Rightarrow> oauth_client option oauth_call" where
  "client_find i w = (Inr (map_of (o_clients w) i), w)"

definition scope_find :: "string \<Rightarrow> bool oauth_call" where
  "scope_find i w = (Inr (map_of (o_scopes w) i \<noteq> None), w)"

definition access_find :: "string \<Rightarrow> stored_token option oauth_call" where
  "access_find i w = (Inr (map_of (o_access w) i), w)"

definition access_save :: "string \<Rightarrow> stored_token \<Rightarrow> unit oauth_call" where
  "access_save i t w = (Inr (), w\<lparr>o_access := dict_set i t (o_access w)\<rparr>)"

definition refresh_find :: "string \<Rightarrow> stored_refresh option oauth_call" where
  "refresh_find i w = (Inr (map_of (o_refresh w) i), w)"

definition refresh_save :: "string \<Rightarrow> stored_refresh \<Rightarrow> unit oauth_call" where
  "refresh_save i t w = (Inr (), w\<lparr>o_refresh := dict_set i t (o_refresh w)\<rparr>)"

text \<open>It decides and writes without awaiting anything in between.\<close>

definition refresh_revoke :: "string \<Rightarrow> bool oauth_call" where
  "refresh_revoke i w = (case map_of (o_refresh w) i of
      None \<Rightarrow> (Inr False, w)
    | Some t \<Rightarrow> if sr_revoked t then (Inr False, w)
        else (Inr True, w\<lparr>o_refresh := dict_set i (t\<lparr>sr_revoked := True\<rparr>) (o_refresh w)\<rparr>))"

definition code_find :: "string \<Rightarrow> stored_token option oauth_call" where
  "code_find i w = (Inr (map_of (o_codes w) i), w)"

definition code_save :: "string \<Rightarrow> stored_token \<Rightarrow> unit oauth_call" where
  "code_save i t w = (Inr (), w\<lparr>o_codes := dict_set i t (o_codes w)\<rparr>)"

definition device_find :: "string \<Rightarrow> stored_device option oauth_call" where
  "device_find i w = (Inr (map_of (o_devices w) i), w)"

definition device_save :: "string \<Rightarrow> stored_device \<Rightarrow> unit oauth_call" where
  "device_save i d w = (Inr (), w\<lparr>o_devices := dict_set i d (o_devices w)\<rparr>)"

text \<open>
  The short code a resource owner typed, and the sweeps: what expires at this very instant is kept.
\<close>

definition find_by_user_code :: "string \<Rightarrow> oauth \<Rightarrow> stored_device option" where
  "find_by_user_code code w = find (\<lambda>d. sd_user_code d = code) (map snd (o_devices w))"

definition access_clear_expired :: "oauth \<Rightarrow> oauth" where
  "access_clear_expired w = w\<lparr>o_access := filter (\<lambda>(i, t). o_now w \<le> st_expiry t) (o_access w)\<rparr>"

definition refresh_clear_expired :: "oauth \<Rightarrow> oauth" where
  "refresh_clear_expired w = w\<lparr>o_refresh := filter (\<lambda>(i, t). o_now w \<le> sr_expiry t) (o_refresh w)\<rparr>"

definition code_clear_expired :: "oauth \<Rightarrow> oauth" where
  "code_clear_expired w = w\<lparr>o_codes := filter (\<lambda>(i, t). o_now w \<le> st_expiry t) (o_codes w)\<rparr>"

definition device_clear_expired :: "oauth \<Rightarrow> oauth" where
  "device_clear_expired w = w\<lparr>o_devices := filter (\<lambda>(i, d). o_now w \<le> sd_expiry d) (o_devices w)\<rparr>"

definition client_save :: "oauth_client \<Rightarrow> oauth \<Rightarrow> oauth" where
  "client_save c w = w\<lparr>o_clients := dict_set (cl_identifier c) c (o_clients w)\<rparr>"

definition client_remove :: "string \<Rightarrow> oauth \<Rightarrow> oauth" where
  "client_remove i w = w\<lparr>o_clients := dict_del i (o_clients w)\<rparr>"

section \<open>Repositories\<close>

definition stored_client_of :: "client_entity \<Rightarrow> oauth_client oauth_coro" where
  "stored_client_of e = seq (await (client_find (ce_identifier e))) (\<lambda>found.
    case found of None \<Rightarrow> refuse OauthInvalidArgument | Some c \<Rightarrow> answer c)"

definition get_client_entity :: "string \<Rightarrow> client_entity option oauth_coro" where
  "get_client_entity i = seq (await (client_find i)) (\<lambda>found.
    answer (case found of None \<Rightarrow> None | Some c \<Rightarrow> if cl_active c then Some (client_entity_of c) else None))"

definition may_use :: "oauth_client \<Rightarrow> string option \<Rightarrow> bool" where
  "may_use c grant_type = (case grant_type of None \<Rightarrow> True | Some g \<Rightarrow> cl_grants c = [] \<or> g \<in> set (cl_grants c))"

text \<open>
  A hash out of date is replaced once the secret was proved: on the record found, which a registration
  that was removed meanwhile comes back with.
\<close>

definition rehash :: "oauth_client \<Rightarrow> string \<Rightarrow> unit oauth_call" where
  "rehash c fresh w = (Inr (), client_save ((case map_of (o_clients w) (cl_identifier c) of
      None \<Rightarrow> c | Some current \<Rightarrow> current)\<lparr>cl_secret := Some fresh\<rparr>) w)"

definition validate_secret :: "oauth_env \<Rightarrow> string \<Rightarrow> string \<Rightarrow> string option \<Rightarrow> bool oauth_coro" where
  "validate_secret v i secret grant_type = seq (await (client_find i)) (\<lambda>found.
    case found of
      None \<Rightarrow> answer False
    | Some c \<Rightarrow>
        if \<not> cl_active c then answer False
        else if \<not> may_use c grant_type then answer False
        else if \<not> is_confidential c then answer True
        else let stored = (case cl_secret c of None \<Rightarrow> '''' | Some s \<Rightarrow> s)
          in seq (await (ret (v_verify v stored secret))) (\<lambda>proved.
            if \<not> proved then answer False
            else case v_rehash v stored secret of
                None \<Rightarrow> answer True
              | Some fresh \<Rightarrow> seq (await (rehash c fresh)) (\<lambda>_. answer True)))"

definition get_new_token :: "oauth_env \<Rightarrow> client_entity \<Rightarrow> string list \<Rightarrow> string option \<Rightarrow> access_token oauth_coro" where
  "get_new_token v c scopes user = seq (await (ret (v_claims v c scopes user))) (\<lambda>extra.
    if \<exists>k\<in>set (map fst extra). k \<in> set [''aud'', ''client_id'', ''exp'', ''iat'', ''iss'', ''jti'', ''nbf'', ''scope'', ''sub'']
    then refuse OauthInvalidArgument
    else answer \<lparr>at_identifier = '''', at_expiry = 0, at_client = c,
      at_user = (if user = Some '''' then None else user), at_scopes = scopes_held scopes, at_claims = extra\<rparr>)"

definition persist_new_access_token :: "access_token \<Rightarrow> unit oauth_coro" where
  "persist_new_access_token t = seq (await (access_find (at_identifier t))) (\<lambda>found.
    if found \<noteq> None then refuse UniqueIdentifierTaken
    else seq (stored_client_of (at_client t)) (\<lambda>c.
      await (access_save (at_identifier t) \<lparr>st_expiry = at_expiry t, st_client = cl_identifier c,
        st_user = at_user t, st_scopes = at_scopes t, st_revoked = False\<rparr>)))"

definition revoke_access_token :: "string \<Rightarrow> unit oauth_coro" where
  "revoke_access_token i = seq (await (access_find i)) (\<lambda>found.
    case found of None \<Rightarrow> answer () | Some t \<Rightarrow> await (access_save i (t\<lparr>st_revoked := True\<rparr>)))"

definition is_access_token_revoked :: "string \<Rightarrow> bool oauth_coro" where
  "is_access_token_revoked i = seq (await (access_find i)) (\<lambda>found.
    answer (case found of None \<Rightarrow> True | Some t \<Rightarrow> st_revoked t))"

definition persist_new_auth_code :: "auth_code \<Rightarrow> unit oauth_coro" where
  "persist_new_auth_code a = seq (await (code_find (ac_identifier a))) (\<lambda>found.
    if found \<noteq> None then refuse UniqueIdentifierTaken
    else seq (stored_client_of (ac_client a)) (\<lambda>c.
      await (code_save (ac_identifier a) \<lparr>st_expiry = ac_expiry a, st_client = cl_identifier c,
        st_user = ac_user a, st_scopes = ac_scopes a, st_revoked = False\<rparr>)))"

definition revoke_auth_code :: "string \<Rightarrow> unit oauth_coro" where
  "revoke_auth_code i = seq (await (code_find i)) (\<lambda>found.
    case found of None \<Rightarrow> answer () | Some t \<Rightarrow> await (code_save i (t\<lparr>st_revoked := True\<rparr>)))"

definition is_auth_code_revoked :: "string \<Rightarrow> bool oauth_coro" where
  "is_auth_code_revoked i = seq (await (code_find i)) (\<lambda>found.
    answer (case found of None \<Rightarrow> True | Some t \<Rightarrow> st_revoked t))"

definition persist_new_refresh_token :: "refresh_token \<Rightarrow> unit oauth_coro" where
  "persist_new_refresh_token t = seq (await (refresh_find (rt_identifier t))) (\<lambda>found.
    if found \<noteq> None then refuse UniqueIdentifierTaken
    else let beside = at_identifier (rt_access_token t)
      in seq (await (access_find beside)) (\<lambda>access.
        await (refresh_save (rt_identifier t) \<lparr>sr_expiry = rt_expiry t,
          sr_access = (if access = None then None else Some beside), sr_revoked = False\<rparr>)))"

definition is_refresh_token_revoked :: "string \<Rightarrow> bool oauth_coro" where
  "is_refresh_token_revoked i = seq (await (refresh_find i)) (\<lambda>found.
    answer (case found of None \<Rightarrow> True | Some t \<Rightarrow> sr_revoked t))"

text \<open>
  The record of a device code is changed where it lies and then saved: in this process both happen to the
  very object that is stored, so the change is one of what is stored by then.
\<close>

definition device_change :: "string \<Rightarrow> stored_device \<Rightarrow> (stored_device \<Rightarrow> stored_device) \<Rightarrow> unit oauth_call" where
  "device_change i found f w = device_save i (f (case map_of (o_devices w) i of None \<Rightarrow> found | Some current \<Rightarrow> current)) w"

definition revoke_device_code :: "string \<Rightarrow> unit oauth_coro" where
  "revoke_device_code i = seq (await (device_find i)) (\<lambda>found.
    case found of None \<Rightarrow> answer () | Some d \<Rightarrow> await (device_change i d (\<lambda>d. d\<lparr>sd_revoked := True\<rparr>)))"

definition is_device_code_revoked :: "string \<Rightarrow> bool oauth_coro" where
  "is_device_code_revoked i = seq (await (device_find i)) (\<lambda>found.
    answer (case found of None \<Rightarrow> True | Some d \<Rightarrow> sd_revoked d))"

text \<open>
  The two things a live device flow changes. A poll names no resource owner and leaves the decision alone.
\<close>

definition record_progress :: "stored_device \<Rightarrow> device_code \<Rightarrow> stored_device" where
  "record_progress stored e =
    (let polled = (case dc_polled e of None \<Rightarrow> stored | Some instant \<Rightarrow> stored\<lparr>sd_polled := Some instant\<rparr>)
     in case dc_user e of
       None \<Rightarrow> polled
     | Some user \<Rightarrow> if user = '''' then polled else polled\<lparr>sd_user := Some user, sd_approved := dc_approved e\<rparr>)"

definition new_device_model :: "device_code \<Rightarrow> oauth_client \<Rightarrow> stored_device" where
  "new_device_model e c = \<lparr>sd_expiry = dc_expiry e, sd_client = cl_identifier c, sd_user = dc_user e,
    sd_scopes = dc_scopes e, sd_user_code = dc_user_code e, sd_approved = dc_approved e, sd_uri = dc_uri e,
    sd_polled = dc_polled e, sd_interval = dc_interval e, sd_complete = dc_complete e, sd_revoked = False\<rparr>"

definition persist_device_code :: "device_code \<Rightarrow> unit oauth_coro" where
  "persist_device_code e = seq (await (device_find (dc_identifier e))) (\<lambda>found.
    case found of
      None \<Rightarrow> (case dc_client e of
          None \<Rightarrow> refuse OauthInvalidArgument
        | Some ce \<Rightarrow> seq (stored_client_of ce) (\<lambda>c. await (device_save (dc_identifier e) (new_device_model e c))))
    | Some stored \<Rightarrow> await (device_change (dc_identifier e) stored (\<lambda>d. record_progress d e)))"

definition device_entity_of :: "string \<Rightarrow> stored_device \<Rightarrow> device_code oauth_coro" where
  "device_entity_of i d = seq (get_client_entity (sd_client d)) (\<lambda>ce.
    answer \<lparr>dc_identifier = i, dc_expiry = sd_expiry d, dc_client = ce, dc_user = sd_user d,
      dc_scopes = scopes_held (sd_scopes d), dc_user_code = sd_user_code d, dc_approved = sd_approved d,
      dc_uri = sd_uri d, dc_polled = sd_polled d, dc_interval = sd_interval d, dc_complete = sd_complete d\<rparr>)"

definition get_device_code_entity :: "string \<Rightarrow> device_code option oauth_coro" where
  "get_device_code_entity i = seq (await (device_find i)) (\<lambda>found.
    case found of None \<Rightarrow> answer None | Some d \<Rightarrow> seq (device_entity_of i d) (\<lambda>e. answer (Some e)))"

definition get_scope_entity :: "string \<Rightarrow> string option oauth_coro" where
  "get_scope_entity i = seq (await (scope_find i)) (\<lambda>known. answer (if known then Some i else None))"

definition narrowed_to_registration :: "oauth_client \<Rightarrow> string list \<Rightarrow> oauth_error + string list" where
  "narrowed_to_registration c requested =
    (if cl_scopes c = [] then Inr requested
     else if requested = [] then Inr (cl_scopes c)
     else case find (\<lambda>s. s \<notin> set (cl_scopes c)) requested of
         Some s \<Rightarrow> Inl (InvalidScope s None)
       | None \<Rightarrow> Inr requested)"

definition finalize_scopes :: "oauth_env \<Rightarrow> string list \<Rightarrow> string \<Rightarrow> client_entity \<Rightarrow> string option \<Rightarrow> string list oauth_coro" where
  "finalize_scopes v scopes grant_type e user = seq (stored_client_of e) (\<lambda>c.
    seq (settled (narrowed_to_registration c scopes)) (\<lambda>narrowed.
      await (ret (v_scopes v narrowed grant_type c user))))"

definition get_user_by_credentials :: "oauth_env \<Rightarrow> string \<Rightarrow> string \<Rightarrow> string \<Rightarrow> client_entity \<Rightarrow> string option oauth_coro" where
  "get_user_by_credentials v username password grant_type e = seq (stored_client_of e) (\<lambda>c.
    await (ret (v_user v username password grant_type c)))"

end
