(* ===== verification/Oauth_Grants.thy ===== *)
theory Oauth_Grants
  imports Oauth_Store
begin

text \<open>
  How a token request is answered: what every handler does (\<open>abstract_handler.py\<close>), what every grant does
  (\<open>grant/abstract_grant.py\<close>), the six grants and the bearer answer (\<open>response_types/\<close>) of
  xtr-security-oauth2-server-core.

  A grant is what its setters were given (\<open>grant_setup\<close>); one that lacks a setter is not a grant of this
  model. The identifiers drawn while a request is answered, ten for each kind of token, come with the
  request. A redirect is kept as where it goes and what it carries.
\<close>

section \<open>Requests\<close>

datatype param_value = PText string | PNotText

datatype token_kind = AccessKind | RefreshKind | CodeKind | DeviceKind

text \<open>
  A source of parameters keeps every value sent under a name. The body is \<open>None\<close> when it was parsed into
  something that has no names.
\<close>

type_synonym param_source = "(string, param_value list) dict"

record oauth_request =
  rq_query :: param_source
  rq_body :: "param_source option"
  rq_authorization :: "string option"
  rq_names :: "token_kind \<Rightarrow> nat \<Rightarrow> string"
  rq_user_codes :: "nat \<Rightarrow> string"
  rq_nonce :: nat

definition values_sent :: "string \<Rightarrow> param_source \<Rightarrow> param_value list" where
  "values_sent name source = (case map_of source name of None \<Rightarrow> [] | Some vs \<Rightarrow> vs)"

definition refuse_if_repeated :: "string \<Rightarrow> param_source \<Rightarrow> oauth_error + unit" where
  "refuse_if_repeated name source = (if 1 < length (values_sent name source) then Inl (InvalidRequest name) else Inr ())"

definition parse_param :: "string \<Rightarrow> param_source \<Rightarrow> string option \<Rightarrow> oauth_error + string option" where
  "parse_param name source fallback =
    (case refuse_if_repeated name source of
       Inl err \<Rightarrow> Inl err
     | Inr u \<Rightarrow> (case (case values_sent name source of [] \<Rightarrow> PText '''' | v # vs \<Rightarrow> v) of
         PNotText \<Rightarrow> Inl (InvalidRequest name)
       | PText carried \<Rightarrow>
           let sent = strip_text carried;
             value = (if sent = '''' then (case fallback of None \<Rightarrow> sent | Some d \<Rightarrow> strip_text d) else sent)
           in Inr (if value = '''' then None else Some value)))"

definition parsed_body :: "oauth_request \<Rightarrow> param_source" where
  "parsed_body rq = (case rq_body rq of None \<Rightarrow> [] | Some body \<Rightarrow> body)"

definition get_request_parameter :: "string \<Rightarrow> oauth_request \<Rightarrow> string option \<Rightarrow> oauth_error + string option" where
  "get_request_parameter name rq fallback = parse_param name (parsed_body rq) fallback"

definition get_query_string_parameter :: "string \<Rightarrow> oauth_request \<Rightarrow> string option \<Rightarrow> oauth_error + string option" where
  "get_query_string_parameter name rq fallback = parse_param name (rq_query rq) fallback"

definition lower :: "string \<Rightarrow> string" where
  "lower s = map (\<lambda>c. if 65 \<le> (of_char c :: nat) \<and> (of_char c :: nat) \<le> 90 then char_of (of_char c + 32 :: nat) else c) s"

definition get_basic_auth_credentials :: "oauth_env \<Rightarrow> oauth_request \<Rightarrow> string option \<times> string option" where
  "get_basic_auth_credentials v rq =
    (let header = (case rq_authorization rq of None \<Rightarrow> '''' | Some h \<Rightarrow> h)
     in if lower (take 6 header) \<noteq> ''basic '' then (None, None)
        else case v_basic v (drop 6 header) of
          None \<Rightarrow> (None, None)
        | Some decoded \<Rightarrow>
            let username = takeWhile (\<lambda>c. c \<noteq> CHR '':'') decoded
            in if CHR '':'' \<notin> set decoded \<or> username = '''' then (None, None)
               else (Some username, Some (tl (dropWhile (\<lambda>c. c \<noteq> CHR '':'') decoded))))"

definition get_client_credentials :: "oauth_env \<Rightarrow> oauth_request \<Rightarrow> oauth_error + string \<times> string" where
  "get_client_credentials v rq =
    (let (basic_user, basic_password) = get_basic_auth_credentials v rq
     in case get_request_parameter ''client_id'' rq basic_user of
         Inl err \<Rightarrow> Inl err
       | Inr None \<Rightarrow> Inl (InvalidRequest ''client_id'')
       | Inr (Some client_id) \<Rightarrow> (case get_request_parameter ''client_secret'' rq basic_password of
           Inl err \<Rightarrow> Inl err
         | Inr secret \<Rightarrow> Inr (client_id, case secret of None \<Rightarrow> '''' | Some s \<Rightarrow> s)))"

section \<open>Payloads\<close>

definition payload_text :: "payload \<Rightarrow> string \<Rightarrow> string option" where
  "payload_text p name = (case map_of p name of Some (JText s) \<Rightarrow> Some s | _ \<Rightarrow> None)"

definition payload_whole_number :: "payload \<Rightarrow> string \<Rightarrow> int option" where
  "payload_whole_number p name = (case map_of p name of Some (JWhole n) \<Rightarrow> Some n | _ \<Rightarrow> None)"

fun texts_in :: "json list \<Rightarrow> string list" where
  "texts_in [] = []"
| "texts_in (JText s # xs) = s # texts_in xs"
| "texts_in (x # xs) = texts_in xs"

definition payload_names :: "payload \<Rightarrow> string \<Rightarrow> string list" where
  "payload_names p name = (case map_of p name of Some (JList xs) \<Rightarrow> texts_in xs | _ \<Rightarrow> [])"

definition show_int :: "int \<Rightarrow> string" where
  "show_int n = (if n < 0 then CHR ''-'' # show_nat (nat (- n)) else show_nat (nat n))"

definition payload_identity :: "payload \<Rightarrow> string \<Rightarrow> string option" where
  "payload_identity p name = (case map_of p name of Some (JText s) \<Rightarrow> Some s | Some (JWhole n) \<Rightarrow> Some (show_int n) | _ \<Rightarrow> None)"

definition text_or_null :: "string option \<Rightarrow> json" where
  "text_or_null s = (case s of None \<Rightarrow> JNull | Some x \<Rightarrow> JText x)"

text \<open>\<open>int(instant.timestamp())\<close>: whole seconds, towards zero.\<close>

definition whole_seconds :: "int \<Rightarrow> int" where
  "whole_seconds t = (if 0 \<le> t then t div 1000000 else - ((- t) div 1000000))"

section \<open>Clients\<close>

definition announce_event :: "oauth_event \<Rightarrow> unit oauth_coro" where
  "announce_event e = await (dispatch_event e)"

text \<open>A flow also asks whether the client may use it; a handler that is no flow names none.\<close>

definition get_client_entity_or_fail :: "string option \<Rightarrow> string \<Rightarrow> client_entity oauth_coro" where
  "get_client_entity_or_fail flow client_id = seq (get_client_entity client_id) (\<lambda>found.
    case found of
      None \<Rightarrow> seq (announce_event ClientAuthenticationFailed) (\<lambda>_. refuse InvalidClient)
    | Some c \<Rightarrow>
        if (case flow of None \<Rightarrow> False | Some g \<Rightarrow> \<not> entity_supports_grant_type c g) then refuse UnauthorizedClient
        else answer c)"

definition validate_client :: "oauth_env \<Rightarrow> string option \<Rightarrow> oauth_request \<Rightarrow> client_entity oauth_coro" where
  "validate_client v flow rq = seq (settled (get_client_credentials v rq)) (\<lambda>(client_id, client_secret).
    seq (get_client_entity_or_fail flow client_id) (\<lambda>c.
      if \<not> ce_confidential c then answer c
      else if client_secret = '''' then refuse (InvalidRequest ''client_secret'')
      else seq (validate_secret v client_id client_secret flow) (\<lambda>proved.
        if proved then answer c
        else seq (announce_event ClientAuthenticationFailed) (\<lambda>_. refuse InvalidClient))))"

section \<open>Reading a refresh token back\<close>

definition validate_encrypted_refresh_token :: "oauth_env \<Rightarrow> string \<Rightarrow> string \<Rightarrow> payload oauth_coro" where
  "validate_encrypted_refresh_token v sealed client_id = (case v_unseal v sealed of
      None \<Rightarrow> refuse InvalidRefreshToken
    | Some p \<Rightarrow>
        if payload_text p ''client_id'' \<noteq> Some client_id
        then seq (announce_event RefreshTokenClientFailed) (\<lambda>_. refuse InvalidRefreshToken)
        else seq (await read_now) (\<lambda>now.
          if (case payload_whole_number p ''expire_time'' of None \<Rightarrow> True | Some e \<Rightarrow> e < whole_seconds now)
          then refuse InvalidRefreshToken
          else case payload_text p ''refresh_token_id'' of
              None \<Rightarrow> refuse InvalidRefreshToken
            | Some i \<Rightarrow> seq (is_refresh_token_revoked i) (\<lambda>revoked.
                if revoked then refuse InvalidRefreshToken else answer p)))"

section \<open>Scopes\<close>

definition split_scopes :: "string \<Rightarrow> string list" where
  "split_scopes scopes = filter (\<lambda>name. name \<noteq> '''') (split_on CHR '' '' (strip_text scopes))"

fun join_scopes :: "string list \<Rightarrow> string" where
  "join_scopes [] = ''''"
| "join_scopes [s] = s"
| "join_scopes (s # ss) = s @ CHR '' '' # join_scopes ss"

fun known_scopes :: "oauth_redirect option \<Rightarrow> string list \<Rightarrow> string list oauth_coro" where
  "known_scopes redirect [] = answer []"
| "known_scopes redirect (name # names) = seq (get_scope_entity name) (\<lambda>found.
    case found of
      None \<Rightarrow> refuse (InvalidScope name redirect)
    | Some s \<Rightarrow> seq (known_scopes redirect names) (\<lambda>ss. answer (s # ss)))"

definition validate_scope_parameter :: "string option \<Rightarrow> oauth_redirect option \<Rightarrow> string list oauth_coro" where
  "validate_scope_parameter scopes redirect =
    known_scopes redirect (case scopes of None \<Rightarrow> [] | Some s \<Rightarrow> split_scopes s)"

section \<open>Issuing\<close>

record grant_setup =
  gs_default_scope :: string
  gs_rotate :: bool
  gs_access_ttl :: int
  gs_implicit_ttl :: int
  gs_refresh_ttl :: int
  gs_code_ttl :: int
  gs_require_challenge :: bool
  gs_device_ttl :: int
  gs_verification_uri :: string
  gs_retry_interval :: int
  gs_interval_visible :: bool
  gs_uri_complete :: bool
  gs_delimiter :: string
  gs_issuer :: string
  gs_audience :: "string option"
  gs_key_id :: string

text \<open>\<open>_store_under_a_free_identifier\<close>: ten names, the last refusal let through.\<close>

definition names_drawn :: "oauth_request \<Rightarrow> token_kind \<Rightarrow> string list" where
  "names_drawn rq kind = map (rq_names rq kind) [0..<10]"

fun store_under_a_free_identifier :: "('n \<Rightarrow> unit oauth_coro) \<Rightarrow> 'n list \<Rightarrow> 'n oauth_coro" where
  "store_under_a_free_identifier store [] = refuse UniqueIdentifierTaken"
| "store_under_a_free_identifier store (n # ns) =
    (if ns = [] then seq (store n) (\<lambda>_. answer n)
     else caught (seq (store n) (\<lambda>_. answer n)) (\<lambda>err.
       if err = UniqueIdentifierTaken then store_under_a_free_identifier store ns else refuse err))"

definition issue_access_token :: "oauth_env \<Rightarrow> oauth_request \<Rightarrow> int \<Rightarrow> client_entity \<Rightarrow> string option \<Rightarrow> string list
    \<Rightarrow> access_token oauth_coro" where
  "issue_access_token v rq ttl c user scopes = seq (get_new_token v c scopes user) (\<lambda>fresh.
    seq (await read_now) (\<lambda>now.
      let t = fresh\<lparr>at_expiry := now + ttl\<rparr>
      in seq (store_under_a_free_identifier (\<lambda>n. persist_new_access_token (t\<lparr>at_identifier := n\<rparr>))
          (names_drawn rq AccessKind)) (\<lambda>n. answer (t\<lparr>at_identifier := n\<rparr>))))"

definition issue_auth_code :: "oauth_request \<Rightarrow> int \<Rightarrow> client_entity \<Rightarrow> string option \<Rightarrow> string option \<Rightarrow> string list
    \<Rightarrow> auth_code oauth_coro" where
  "issue_auth_code rq ttl c user redirect_uri scopes = seq (await read_now) (\<lambda>now.
    let a = \<lparr>ac_identifier = '''', ac_expiry = now + ttl, ac_client = c, ac_user = user,
        ac_redirect_uri = redirect_uri, ac_scopes = scopes_held scopes\<rparr>
    in seq (store_under_a_free_identifier (\<lambda>n. persist_new_auth_code (a\<lparr>ac_identifier := n\<rparr>))
        (names_drawn rq CodeKind)) (\<lambda>n. answer (a\<lparr>ac_identifier := n\<rparr>)))"

definition issue_refresh_token :: "oauth_request \<Rightarrow> grant_setup \<Rightarrow> access_token \<Rightarrow> refresh_token option oauth_coro" where
  "issue_refresh_token rq g t =
    (if \<not> entity_supports_grant_type (at_client t) ''refresh_token'' then answer None
     else seq (await read_now) (\<lambda>now.
       let r = \<lparr>rt_identifier = '''', rt_expiry = now + gs_refresh_ttl g, rt_access_token = t\<rparr>
       in seq (store_under_a_free_identifier (\<lambda>n. persist_new_refresh_token (r\<lparr>rt_identifier := n\<rparr>))
           (names_drawn rq RefreshKind)) (\<lambda>n. answer (Some (r\<lparr>rt_identifier := n\<rparr>)))))"

text \<open>The claims an access token makes, the extra ones last, and the string a client is handed.\<close>

definition token_claims :: "grant_setup \<Rightarrow> access_token \<Rightarrow> int \<Rightarrow> payload" where
  "token_claims g t issued_at =
    (let client = ce_identifier (at_client t)
     in [(''iss'', JText (gs_issuer g)), (''sub'', JText (case at_user t of None \<Rightarrow> client | Some u \<Rightarrow> u)),
      (''aud'', JText (case gs_audience g of None \<Rightarrow> client | Some a \<Rightarrow> a)), (''client_id'', JText client),
      (''iat'', JWhole issued_at), (''nbf'', JWhole issued_at), (''exp'', JWhole (whole_seconds (at_expiry t))),
      (''jti'', JText (at_identifier t)), (''scope'', JText (join_scopes (at_scopes t)))] @ at_claims t)"

definition to_signed_string :: "oauth_env \<Rightarrow> grant_setup \<Rightarrow> access_token \<Rightarrow> string oauth_coro" where
  "to_signed_string v g t = seq (await read_now) (\<lambda>now.
    case v_sign v [(''typ'', JText ''at+jwt''), (''kid'', JText (gs_key_id g))] (token_claims g t (whole_seconds now)) of
      None \<Rightarrow> refuse OauthInvalidArgument
    | Some s \<Rightarrow> answer s)"

type_synonym issued = "access_token \<times> refresh_token option"

definition issue_tokens :: "oauth_env \<Rightarrow> oauth_request \<Rightarrow> grant_setup \<Rightarrow> client_entity \<Rightarrow> string option \<Rightarrow> string list
    \<Rightarrow> issued oauth_coro" where
  "issue_tokens v rq g c user scopes = seq (issue_access_token v rq (gs_access_ttl g) c user scopes) (\<lambda>t.
    seq (announce_event (AccessTokenIssued t)) (\<lambda>_.
      seq (issue_refresh_token rq g t) (\<lambda>refresh.
        case refresh of
          None \<Rightarrow> answer (t, None)
        | Some r \<Rightarrow> seq (announce_event (RefreshTokenIssued r)) (\<lambda>_. answer (t, Some r)))))"

section \<open>Where a browser is sent\<close>

definition make_redirect_uri :: "string \<Rightarrow> (string \<times> string option) list \<Rightarrow> string \<Rightarrow> oauth_redirect" where
  "make_redirect_uri uri params delimiter =
    OauthRedirect uri (map (\<lambda>(n, v). (n, the v)) (filter (\<lambda>(n, v). v \<noteq> None) params)) delimiter"

definition is_loopback :: "oauth_env \<Rightarrow> string \<Rightarrow> bool" where
  "is_loopback v url = (case v_split v url of
      None \<Rightarrow> False
    | Some (scheme, hostname, portless) \<Rightarrow> scheme = ''http'' \<and> hostname \<in> {''127.0.0.1'', ''::1''})"

definition without_port :: "oauth_env \<Rightarrow> string \<Rightarrow> string option" where
  "without_port v url = map_option (\<lambda>(scheme, hostname, portless). portless) (v_split v url)"

definition validate_redirect_uri :: "oauth_env \<Rightarrow> string list \<Rightarrow> string \<Rightarrow> bool" where
  "validate_redirect_uri v allowed uri =
    (if is_loopback v uri
     then (case without_port v uri of
         None \<Rightarrow> False
       | Some candidate \<Rightarrow> list_ex (\<lambda>a. without_port v a = Some candidate) allowed)
     else uri \<in> set allowed)"

record auth_request =
  ar_grant :: string
  ar_client :: client_entity
  ar_redirect_uri :: "string option"
  ar_state :: "string option"
  ar_scopes :: "string list"
  ar_challenge :: "string option"
  ar_method :: "string option"
  ar_user :: "string option"
  ar_approved :: bool

definition get_client_redirect_uri :: "client_entity \<Rightarrow> string" where
  "get_client_redirect_uri c = hd (ce_redirect_uris c)"

definition answered_at :: "auth_request \<Rightarrow> string" where
  "answered_at a = (case ar_redirect_uri a of None \<Rightarrow> get_client_redirect_uri (ar_client a) | Some uri \<Rightarrow> uri)"

definition read_authorization_request :: "oauth_env \<Rightarrow> grant_setup \<Rightarrow> string \<Rightarrow> string \<Rightarrow> oauth_request
    \<Rightarrow> auth_request oauth_coro" where
  "read_authorization_request v g flow delimiter rq =
    seq (settled (get_query_string_parameter ''client_id'' rq (fst (get_basic_auth_credentials v rq)))) (\<lambda>named.
    case named of
      None \<Rightarrow> refuse (InvalidRequest ''client_id'')
    | Some client_id \<Rightarrow> seq (get_client_entity_or_fail (Some flow) client_id) (\<lambda>c.
        seq (settled (get_query_string_parameter ''redirect_uri'' rq None)) (\<lambda>redirect_uri.
          if (case redirect_uri of
              None \<Rightarrow> length (ce_redirect_uris c) \<noteq> 1
            | Some uri \<Rightarrow> \<not> validate_redirect_uri v (ce_redirect_uris c) uri)
          then seq (announce_event ClientAuthenticationFailed) (\<lambda>_. refuse InvalidClient)
          else seq (settled (get_query_string_parameter ''state'' rq None)) (\<lambda>state.
            seq (settled (get_query_string_parameter ''scope'' rq (Some (gs_default_scope g)))) (\<lambda>scope.
              seq (validate_scope_parameter scope (Some (make_redirect_uri
                  (case redirect_uri of None \<Rightarrow> get_client_redirect_uri c | Some uri \<Rightarrow> uri) [(''state'', state)] delimiter))) (\<lambda>scopes.
                answer \<lparr>ar_grant = flow, ar_client = c, ar_redirect_uri = redirect_uri, ar_state = state,
                  ar_scopes = scopes, ar_challenge = None, ar_method = None, ar_user = None, ar_approved = False\<rparr>))))))"

end
