(* ===== verification/Oauth_Flows.thy ===== *)
theory Oauth_Flows
  imports Oauth_Grants
begin

text \<open>
  The six grants of xtr-security-oauth2-server-core (\<open>grant/\<close>), the answer they end in
  (\<open>response_types/bearer_token_response.py\<close>) and the authorization server that offers a request to them
  (\<open>authorization_server.py\<close>).
\<close>

section \<open>The authorization code grant\<close>

definition proof_key_ok :: "string \<Rightarrow> bool" where
  "proof_key_ok s \<longleftrightarrow> 43 \<le> length s \<and> length s \<le> 128 \<and> list_all (\<lambda>c. let n = (of_char c :: nat) in
    65 \<le> n \<and> n \<le> 90 \<or> 97 \<le> n \<and> n \<le> 122 \<or> 48 \<le> n \<and> n \<le> 57 \<or> n \<in> {45, 46, 95, 126}) s"

text \<open>The verifiers, by the method that names them.\<close>

definition challenge_verifier :: "oauth_env \<Rightarrow> string \<Rightarrow> (string \<Rightarrow> string \<Rightarrow> bool) option" where
  "challenge_verifier v name =
    (if name = ''S256'' then Some (\<lambda>verifier challenge. v_s256 v verifier = challenge)
     else if name = ''plain'' then Some (\<lambda>verifier challenge. verifier = challenge)
     else None)"

definition validate_code_authorization :: "oauth_env \<Rightarrow> grant_setup \<Rightarrow> oauth_request \<Rightarrow> auth_request oauth_coro" where
  "validate_code_authorization v g rq =
    seq (read_authorization_request v g ''authorization_code'' ''?'' rq) (\<lambda>a.
    seq (settled (get_query_string_parameter ''code_challenge'' rq None)) (\<lambda>sent.
    case sent of
      None \<Rightarrow> if gs_require_challenge g \<and> \<not> ce_confidential (ar_client a) then refuse (InvalidRequest ''code_challenge'')
          else answer a
    | Some challenge \<Rightarrow>
        seq (settled (get_query_string_parameter ''code_challenge_method'' rq None)) (\<lambda>named.
          let how = (case named of None \<Rightarrow> ''plain'' | Some n \<Rightarrow> n)
          in if challenge_verifier v how = None then refuse (InvalidRequest ''code_challenge_method'')
             else if \<not> proof_key_ok challenge then refuse (InvalidRequest ''code_challenge'')
             else answer (a\<lparr>ar_challenge := Some challenge, ar_method := Some how\<rparr>))))"

definition auth_code_payload :: "auth_code \<Rightarrow> auth_request \<Rightarrow> payload" where
  "auth_code_payload c a = [(''client_id'', JText (ce_identifier (ac_client c))),
    (''redirect_uri'', text_or_null (ac_redirect_uri c)), (''auth_code_id'', JText (ac_identifier c)),
    (''scopes'', JList (map JText (ac_scopes c))), (''user_id'', text_or_null (ac_user c)),
    (''expire_time'', JWhole (whole_seconds (ac_expiry c))), (''code_challenge'', text_or_null (ar_challenge a)),
    (''code_challenge_method'', text_or_null (ar_method a))]"

definition complete_code_authorization :: "oauth_env \<Rightarrow> grant_setup \<Rightarrow> oauth_request \<Rightarrow> auth_request \<Rightarrow> oauth_redirect oauth_coro" where
  "complete_code_authorization v g rq a = (case ar_user a of
      None \<Rightarrow> refuse OauthInvalidArgument
    | Some user \<Rightarrow>
        if \<not> ar_approved a
        then refuse (AccessDenied (Some (make_redirect_uri (answered_at a) [(''state'', ar_state a)] ''?'')))
        else seq (issue_auth_code rq (gs_code_ttl g) (ar_client a) (Some user) (ar_redirect_uri a) (ar_scopes a)) (\<lambda>c.
          answer (make_redirect_uri (answered_at a)
            [(''code'', Some (v_seal v (rq_nonce rq) (auth_code_payload c a))), (''state'', ar_state a)] ''?'')))"

definition validate_authorization_code :: "payload \<Rightarrow> client_entity \<Rightarrow> oauth_request \<Rightarrow> string oauth_coro" where
  "validate_authorization_code p c rq = (case payload_text p ''auth_code_id'' of
      None \<Rightarrow> refuse (InvalidRequest ''code'')
    | Some i \<Rightarrow> seq (await read_now) (\<lambda>now.
        if (case payload_whole_number p ''expire_time'' of None \<Rightarrow> True | Some e \<Rightarrow> e < whole_seconds now)
        then refuse InvalidGrant
        else seq (is_auth_code_revoked i) (\<lambda>revoked.
          if revoked then refuse InvalidGrant
          else if payload_text p ''client_id'' \<noteq> Some (ce_identifier c) then refuse (InvalidRequest ''code'')
          else seq (settled (get_request_parameter ''redirect_uri'' rq None)) (\<lambda>named.
            let issued_for = payload_text p ''redirect_uri''
            in if issued_for \<noteq> None \<and> named = None then refuse (InvalidRequest ''redirect_uri'')
               else if named \<noteq> None \<and> issued_for \<noteq> named then refuse (InvalidRequest ''redirect_uri'')
               else answer i))))"

definition validate_code_challenge :: "oauth_env \<Rightarrow> payload \<Rightarrow> string option \<Rightarrow> oauth_error + unit" where
  "validate_code_challenge v p verifier = (case payload_text p ''code_challenge'' of
      None \<Rightarrow> (case verifier of None \<Rightarrow> Inr () | Some s \<Rightarrow> Inl (InvalidRequest ''code_challenge''))
    | Some challenge \<Rightarrow> (case verifier of
        None \<Rightarrow> Inl (InvalidRequest ''code_verifier'')
      | Some s \<Rightarrow>
          if \<not> proof_key_ok s then Inl (InvalidRequest ''code_verifier'')
          else (case (case payload_text p ''code_challenge_method'' of None \<Rightarrow> None | Some how \<Rightarrow> challenge_verifier v how) of
              None \<Rightarrow> Inl OauthServerFault
            | Some judge \<Rightarrow> if judge s challenge then Inr () else Inl InvalidGrant)))"

definition respond_code :: "oauth_env \<Rightarrow> grant_setup \<Rightarrow> oauth_request \<Rightarrow> issued oauth_coro" where
  "respond_code v g rq = seq (validate_client v (Some ''authorization_code'') rq) (\<lambda>c.
    seq (settled (get_request_parameter ''code'' rq None)) (\<lambda>sealed.
    case (case sealed of None \<Rightarrow> None | Some s \<Rightarrow> v_unseal v s) of
      None \<Rightarrow> refuse (InvalidRequest ''code'')
    | Some p \<Rightarrow> seq (validate_authorization_code p c rq) (\<lambda>i.
        seq (known_scopes None (payload_names p ''scopes'')) (\<lambda>scopes.
        seq (finalize_scopes v scopes ''authorization_code'' c (payload_text p ''user_id'')) (\<lambda>granted.
        seq (settled (get_request_parameter ''code_verifier'' rq None)) (\<lambda>verifier.
        seq (settled (validate_code_challenge v p verifier)) (\<lambda>_.
        seq (issue_tokens v rq g c (payload_text p ''user_id'') granted) (\<lambda>tokens.
        seq (revoke_auth_code i) (\<lambda>_. answer tokens)))))))))"

section \<open>The refresh token grant\<close>

record spent_token =
  sp_identifier :: string
  sp_access_token :: string
  sp_scopes :: "string list"
  sp_user :: "string option"

definition spent_of :: "payload \<Rightarrow> oauth_error + spent_token" where
  "spent_of p = (case (payload_text p ''refresh_token_id'', payload_text p ''access_token_id'') of
      (Some i, Some beside) \<Rightarrow> Inr \<lparr>sp_identifier = i, sp_access_token = beside,
        sp_scopes = payload_names p ''scopes'', sp_user = payload_identity p ''user_id''\<rparr>
    | _ \<Rightarrow> Inl InvalidRefreshToken)"

definition validate_old_refresh_token :: "oauth_env \<Rightarrow> oauth_request \<Rightarrow> string \<Rightarrow> spent_token oauth_coro" where
  "validate_old_refresh_token v rq client_id = seq (settled (get_request_parameter ''refresh_token'' rq None)) (\<lambda>sealed.
    case sealed of
      None \<Rightarrow> refuse (InvalidRequest ''refresh_token'')
    | Some s \<Rightarrow> seq (validate_encrypted_refresh_token v s client_id) (\<lambda>p. settled (spent_of p)))"

definition none_added :: "string list \<Rightarrow> string list \<Rightarrow> oauth_error + unit" where
  "none_added scopes held = (case find (\<lambda>s. s \<notin> set held) scopes of
      None \<Rightarrow> Inr () | Some s \<Rightarrow> Inl (InvalidScope s None))"

definition spend :: "grant_setup \<Rightarrow> string \<Rightarrow> unit oauth_coro" where
  "spend g i = (if \<not> gs_rotate g then answer ()
    else seq (await (refresh_revoke i)) (\<lambda>ours. if ours then answer () else refuse InvalidRefreshToken))"

definition respond_refresh :: "oauth_env \<Rightarrow> grant_setup \<Rightarrow> oauth_request \<Rightarrow> issued oauth_coro" where
  "respond_refresh v g rq = seq (validate_client v (Some ''refresh_token'') rq) (\<lambda>c.
    seq (validate_old_refresh_token v rq (ce_identifier c)) (\<lambda>spent.
    seq (settled (get_request_parameter ''scope'' rq (Some (join_scopes (sp_scopes spent))))) (\<lambda>asked.
    seq (validate_scope_parameter asked None) (\<lambda>scopes.
    seq (settled (none_added scopes (sp_scopes spent))) (\<lambda>_.
    seq (finalize_scopes v scopes ''refresh_token'' c (sp_user spent)) (\<lambda>granted.
    seq (revoke_access_token (sp_access_token spent)) (\<lambda>_.
    seq (spend g (sp_identifier spent)) (\<lambda>_.
    issue_tokens v rq g c (sp_user spent) granted))))))))"

section \<open>Client credentials, passwords\<close>

definition respond_credentials :: "oauth_env \<Rightarrow> grant_setup \<Rightarrow> oauth_request \<Rightarrow> issued oauth_coro" where
  "respond_credentials v g rq = seq (validate_client v (Some ''client_credentials'') rq) (\<lambda>c.
    if \<not> ce_confidential c then seq (announce_event ClientAuthenticationFailed) (\<lambda>_. refuse InvalidClient)
    else seq (settled (get_request_parameter ''scope'' rq (Some (gs_default_scope g)))) (\<lambda>asked.
      seq (validate_scope_parameter asked None) (\<lambda>scopes.
      seq (finalize_scopes v scopes ''client_credentials'' c None) (\<lambda>granted.
      seq (issue_access_token v rq (gs_access_ttl g) c None granted) (\<lambda>t.
      seq (announce_event (AccessTokenIssued t)) (\<lambda>_. answer (t, None)))))))"

definition validate_user :: "oauth_env \<Rightarrow> oauth_request \<Rightarrow> client_entity \<Rightarrow> string oauth_coro" where
  "validate_user v rq c = seq (settled (get_request_parameter ''username'' rq None)) (\<lambda>username.
    case username of
      None \<Rightarrow> refuse (InvalidRequest ''username'')
    | Some name \<Rightarrow> seq (settled (get_request_parameter ''password'' rq None)) (\<lambda>password.
        case password of
          None \<Rightarrow> refuse (InvalidRequest ''password'')
        | Some secret \<Rightarrow> seq (get_user_by_credentials v name secret ''password'' c) (\<lambda>user.
            case user of
              None \<Rightarrow> seq (announce_event UserAuthenticationFailed) (\<lambda>_. refuse InvalidCredentials)
            | Some u \<Rightarrow> answer u)))"

definition respond_password :: "oauth_env \<Rightarrow> grant_setup \<Rightarrow> oauth_request \<Rightarrow> issued oauth_coro" where
  "respond_password v g rq = seq (validate_client v (Some ''password'') rq) (\<lambda>c.
    seq (settled (get_request_parameter ''scope'' rq (Some (gs_default_scope g)))) (\<lambda>asked.
    seq (validate_scope_parameter asked None) (\<lambda>scopes.
    seq (validate_user v rq c) (\<lambda>user.
    seq (finalize_scopes v scopes ''password'' c (Some user)) (\<lambda>granted.
    issue_tokens v rq g c (Some user) granted)))))"

section \<open>The device grant\<close>

abbreviation DEVICE_CODE :: string where
  "DEVICE_CODE \<equiv> ''urn:ietf:params:oauth:grant-type:device_code''"

text \<open>Both codes are minted together on every attempt; each name comes with the user code of its attempt.\<close>

definition issue_device_code :: "oauth_request \<Rightarrow> grant_setup \<Rightarrow> client_entity \<Rightarrow> string list \<Rightarrow> device_code oauth_coro" where
  "issue_device_code rq g c scopes = seq (await read_now) (\<lambda>now.
    let d = \<lparr>dc_identifier = '''', dc_expiry = now + gs_device_ttl g, dc_client = Some c, dc_user = None,
        dc_scopes = scopes_held scopes, dc_user_code = '''', dc_approved = False, dc_uri = gs_verification_uri g,
        dc_polled = None, dc_interval = gs_retry_interval g, dc_complete = False\<rparr>;
      named = (\<lambda>k. d\<lparr>dc_identifier := rq_names rq DeviceKind k, dc_user_code := rq_user_codes rq k\<rparr>)
    in seq (store_under_a_free_identifier (\<lambda>k. persist_device_code (named k)) [0..<10]) (\<lambda>k. answer (named k)))"

definition respond_device_authorization :: "oauth_env \<Rightarrow> grant_setup \<Rightarrow> oauth_request \<Rightarrow> device_code oauth_coro" where
  "respond_device_authorization v g rq =
    seq (settled (get_request_parameter ''client_id'' rq (fst (get_basic_auth_credentials v rq)))) (\<lambda>named.
    case named of
      None \<Rightarrow> refuse (InvalidRequest ''client_id'')
    | Some client_id \<Rightarrow> seq (get_client_entity_or_fail (Some DEVICE_CODE) client_id) (\<lambda>c.
        seq (settled (get_request_parameter ''scope'' rq (Some (gs_default_scope g)))) (\<lambda>asked.
        seq (validate_scope_parameter asked None) (\<lambda>scopes. issue_device_code rq g c scopes))))"

definition complete_device_authorization :: "string \<Rightarrow> string \<Rightarrow> bool \<Rightarrow> unit oauth_coro" where
  "complete_device_authorization code user approved = seq (get_device_code_entity code) (\<lambda>found.
    case found of
      None \<Rightarrow> refuse (InvalidRequest ''device_code'')
    | Some d \<Rightarrow>
        if user = '''' then refuse (InvalidRequest ''user_id'')
        else persist_device_code (d\<lparr>dc_user := Some user, dc_approved := approved\<rparr>))"

definition validate_device_code :: "oauth_request \<Rightarrow> client_entity \<Rightarrow> device_code oauth_coro" where
  "validate_device_code rq c = seq (settled (get_request_parameter ''device_code'' rq None)) (\<lambda>sent.
    case sent of
      None \<Rightarrow> refuse (InvalidRequest ''device_code'')
    | Some i \<Rightarrow> seq (get_device_code_entity i) (\<lambda>found.
        case found of
          None \<Rightarrow> seq (announce_event UserAuthenticationFailed) (\<lambda>_. refuse InvalidGrant)
        | Some d \<Rightarrow> seq (await read_now) (\<lambda>now.
            if dc_expiry d < now then refuse ExpiredToken
            else seq (is_device_code_revoked i) (\<lambda>revoked.
              if revoked then refuse (InvalidRequest ''device_code'')
              else case dc_client d of
                  None \<Rightarrow> refuse OauthInvalidArgument
                | Some owner \<Rightarrow> if ce_identifier owner \<noteq> ce_identifier c then refuse (InvalidRequest ''device_code'')
                    else answer d))))"

definition polled_too_soon :: "grant_setup \<Rightarrow> int option \<Rightarrow> int \<Rightarrow> bool" where
  "polled_too_soon g polled now = (case polled of None \<Rightarrow> False | Some p \<Rightarrow> now < p + gs_retry_interval g * 1000000)"

definition record_poll :: "grant_setup \<Rightarrow> device_code \<Rightarrow> unit oauth_coro" where
  "record_poll g d = seq (await read_now) (\<lambda>now.
    seq (persist_device_code (d\<lparr>dc_polled := Some now\<rparr>)) (\<lambda>_.
      if polled_too_soon g (dc_polled d) now then refuse SlowDown else answer ()))"

definition respond_device :: "oauth_env \<Rightarrow> grant_setup \<Rightarrow> oauth_request \<Rightarrow> issued oauth_coro" where
  "respond_device v g rq = seq (validate_client v (Some DEVICE_CODE) rq) (\<lambda>c.
    seq (validate_device_code rq c) (\<lambda>d.
    case dc_user d of
      None \<Rightarrow> seq (record_poll g d) (\<lambda>_. refuse AuthorizationPending)
    | Some owner \<Rightarrow>
        if \<not> dc_approved d then refuse (AccessDenied None)
        else seq (finalize_scopes v (dc_scopes d) DEVICE_CODE c (Some owner)) (\<lambda>granted.
          seq (issue_tokens v rq g c (Some owner) granted) (\<lambda>tokens.
          seq (revoke_device_code (dc_identifier d)) (\<lambda>_. answer tokens)))))"

section \<open>The implicit grant\<close>

definition complete_implicit_authorization :: "oauth_env \<Rightarrow> grant_setup \<Rightarrow> oauth_request \<Rightarrow> auth_request
    \<Rightarrow> oauth_redirect oauth_coro" where
  "complete_implicit_authorization v g rq a = (case ar_user a of
      None \<Rightarrow> refuse OauthInvalidArgument
    | Some user \<Rightarrow>
        if \<not> ar_approved a
        then refuse (AccessDenied (Some (make_redirect_uri (answered_at a) [(''state'', ar_state a)] (gs_delimiter g))))
        else seq (finalize_scopes v (ar_scopes a) ''implicit'' (ar_client a) (Some user)) (\<lambda>granted.
          seq (issue_access_token v rq (gs_implicit_ttl g) (ar_client a) (Some user) granted) (\<lambda>t.
          seq (announce_event (AccessTokenIssued t)) (\<lambda>_.
          seq (to_signed_string v g t) (\<lambda>signed.
          seq (await read_now) (\<lambda>now.
            answer (make_redirect_uri (answered_at a) [(''access_token'', Some signed), (''token_type'', Some ''Bearer''),
              (''expires_in'', Some (show_int (whole_seconds (at_expiry t - now)))), (''state'', ar_state a)]
              (gs_delimiter g))))))))"

section \<open>The bearer answer\<close>

record token_answer =
  ta_access_token :: string
  ta_expires_in :: int
  ta_refresh_token :: "string option"
  ta_scope :: "string option"

definition refresh_payload :: "access_token \<Rightarrow> refresh_token \<Rightarrow> payload" where
  "refresh_payload t r = [(''client_id'', JText (ce_identifier (at_client t))), (''refresh_token_id'', JText (rt_identifier r)),
    (''access_token_id'', JText (at_identifier t)), (''scopes'', JList (map JText (at_scopes t))),
    (''user_id'', text_or_null (at_user t)), (''expire_time'', JWhole (whole_seconds (rt_expiry r)))]"

definition bearer_answer :: "oauth_env \<Rightarrow> oauth_request \<Rightarrow> grant_setup \<Rightarrow> issued \<Rightarrow> token_answer oauth_coro" where
  "bearer_answer v rq g = (\<lambda>(t, refresh). seq (await read_now) (\<lambda>now. seq (to_signed_string v g t) (\<lambda>signed.
    answer \<lparr>ta_access_token = signed, ta_expires_in = whole_seconds (at_expiry t - now),
      ta_refresh_token = map_option (\<lambda>r. v_seal v (rq_nonce rq) (refresh_payload t r)) refresh,
      ta_scope = (let granted = join_scopes (at_scopes t) in if granted = '''' then None else Some granted)\<rparr>)))"

section \<open>The authorization server\<close>

datatype grant_type = AuthCodeGrant | RefreshTokenGrant | ClientCredentialsGrant | PasswordGrant | DeviceCodeGrant | ImplicitGrant

fun grant_identifier :: "grant_type \<Rightarrow> string" where
  "grant_identifier AuthCodeGrant = ''authorization_code''"
| "grant_identifier RefreshTokenGrant = ''refresh_token''"
| "grant_identifier ClientCredentialsGrant = ''client_credentials''"
| "grant_identifier PasswordGrant = ''password''"
| "grant_identifier DeviceCodeGrant = DEVICE_CODE"
| "grant_identifier ImplicitGrant = ''implicit''"

fun respond_with :: "grant_type \<Rightarrow> oauth_env \<Rightarrow> grant_setup \<Rightarrow> oauth_request \<Rightarrow> issued oauth_coro" where
  "respond_with AuthCodeGrant v g rq = respond_code v g rq"
| "respond_with RefreshTokenGrant v g rq = respond_refresh v g rq"
| "respond_with ClientCredentialsGrant v g rq = respond_credentials v g rq"
| "respond_with PasswordGrant v g rq = respond_password v g rq"
| "respond_with DeviceCodeGrant v g rq = respond_device v g rq"
| "respond_with ImplicitGrant v g rq = refuse OauthInvalidArgument"

definition can_respond :: "grant_type \<Rightarrow> oauth_request \<Rightarrow> bool" where
  "can_respond t rq \<longleftrightarrow> t \<noteq> ImplicitGrant
    \<and> (case values_sent ''grant_type'' (parsed_body rq) of [] \<Rightarrow> False | x # vs \<Rightarrow> last (x # vs) = PText (grant_identifier t))"

definition can_authorize :: "grant_type \<Rightarrow> oauth_request \<Rightarrow> bool" where
  "can_authorize t rq \<longleftrightarrow> (t = AuthCodeGrant \<or> t = ImplicitGrant)
    \<and> (case values_sent ''response_type'' (rq_query rq) of
        [] \<Rightarrow> False
      | x # vs \<Rightarrow> last (x # vs) = PText (if t = AuthCodeGrant then ''code'' else ''token''))
    \<and> ''client_id'' \<in> fst ` set (rq_query rq)"

record oauth_server =
  os_grants :: "(string, grant_type \<times> grant_setup) dict"
  os_default_scope :: string
  os_rotate :: bool

definition AuthorizationServer_init :: oauth_server where
  "AuthorizationServer_init = \<lparr>os_grants = [], os_default_scope = '''', os_rotate = True\<rparr>"

definition enable_grant_type :: "grant_type \<Rightarrow> grant_setup \<Rightarrow> int option \<Rightarrow> oauth_server \<Rightarrow> oauth_server" where
  "enable_grant_type t g ttl s = s\<lparr>os_grants := dict_set (grant_identifier t) (t, g\<lparr>gs_default_scope := os_default_scope s,
    gs_rotate := os_rotate s, gs_access_ttl := (case ttl of None \<Rightarrow> 3600000000 | Some x \<Rightarrow> x)\<rparr>) (os_grants s)\<rparr>"

definition server_set_default_scope :: "string \<Rightarrow> oauth_server \<Rightarrow> oauth_server" where
  "server_set_default_scope scope s = s\<lparr>os_default_scope := scope\<rparr>"

definition server_revoke_refresh_tokens :: "bool \<Rightarrow> oauth_server \<Rightarrow> oauth_server" where
  "server_revoke_refresh_tokens b s = s\<lparr>os_rotate := b\<rparr>"

definition respond_to_access_token_request :: "oauth_env \<Rightarrow> oauth_server \<Rightarrow> oauth_request \<Rightarrow> token_answer oauth_coro" where
  "respond_to_access_token_request v s rq = seq (settled (refuse_if_repeated ''grant_type'' (parsed_body rq))) (\<lambda>_.
    case find (\<lambda>(t, g). can_respond t rq) (map snd (os_grants s)) of
      None \<Rightarrow> refuse UnsupportedGrantType
    | Some (t, g) \<Rightarrow> seq (respond_with t v g rq) (bearer_answer v rq g))"

definition validate_authorization_request :: "oauth_env \<Rightarrow> oauth_server \<Rightarrow> oauth_request \<Rightarrow> auth_request oauth_coro" where
  "validate_authorization_request v s rq = (if ''response_type'' \<notin> fst ` set (rq_query rq) then refuse (InvalidRequest ''response_type'')
    else seq (settled (refuse_if_repeated ''response_type'' (rq_query rq))) (\<lambda>_.
      case find (\<lambda>(t, g). can_authorize t rq) (map snd (os_grants s)) of
        None \<Rightarrow> refuse UnsupportedGrantType
      | Some (t, g) \<Rightarrow> if t = AuthCodeGrant then validate_code_authorization v g rq
          else read_authorization_request v g ''implicit'' (gs_delimiter g) rq))"

definition complete_authorization_request :: "oauth_env \<Rightarrow> oauth_server \<Rightarrow> oauth_request \<Rightarrow> auth_request \<Rightarrow> oauth_redirect oauth_coro" where
  "complete_authorization_request v s rq a = (case map_of (os_grants s) (ar_grant a) of
      None \<Rightarrow> refuse OauthInvalidArgument
    | Some (t, g) \<Rightarrow>
        if t = AuthCodeGrant then complete_code_authorization v g rq a
        else if t = ImplicitGrant then complete_implicit_authorization v g rq a
        else refuse OauthInvalidArgument)"

definition respond_to_device_authorization :: "oauth_env \<Rightarrow> oauth_server \<Rightarrow> oauth_request \<Rightarrow> device_code oauth_coro" where
  "respond_to_device_authorization v s rq = (case find (\<lambda>(t, g). t = DeviceCodeGrant) (map snd (os_grants s)) of
      None \<Rightarrow> refuse UnsupportedGrantType
    | Some (t, g) \<Rightarrow> respond_device_authorization v g rq)"

definition server_complete_device :: "oauth_server \<Rightarrow> string \<Rightarrow> string \<Rightarrow> bool \<Rightarrow> unit oauth_coro" where
  "server_complete_device s code user approved = (case map_of (os_grants s) DEVICE_CODE of
      None \<Rightarrow> refuse OauthInvalidArgument
    | Some tg \<Rightarrow> complete_device_authorization code user approved)"

section \<open>The authorization endpoint\<close>

text \<open>
  \<open>AuthorizationController.index_action\<close>: the resource owner the firewall established, and what the
  deployment answers about the request: a page of its own, or a decision in the name of a user.
\<close>

datatype consent = OwnPage | Decided string bool

definition refuse_plain_pkce_unless_allowed :: "auth_request \<Rightarrow> unit oauth_coro" where
  "refuse_plain_pkce_unless_allowed a = (if ar_method a \<noteq> Some ''plain'' then answer ()
    else seq (await (client_find (ce_identifier (ar_client a)))) (\<lambda>found.
      if (case found of None \<Rightarrow> True | Some c \<Rightarrow> \<not> cl_plain_pkce c) then refuse (InvalidRequest ''code_challenge_method'')
      else answer ()))"

definition authorize :: "oauth_env \<Rightarrow> oauth_server \<Rightarrow> oauth_request \<Rightarrow> string option \<Rightarrow> consent \<Rightarrow> oauth_redirect option oauth_coro" where
  "authorize v s rq owner decision = seq (validate_authorization_request v s rq) (\<lambda>a.
    seq (refuse_plain_pkce_unless_allowed a) (\<lambda>_.
    case owner of
      None \<Rightarrow> refuse (AccessDenied (map_option (\<lambda>uri. make_redirect_uri uri [(''state'', ar_state a)] ''?'') (ar_redirect_uri a)))
    | Some u \<Rightarrow> seq (stored_client_of (ar_client a)) (\<lambda>_. case decision of
        OwnPage \<Rightarrow> answer None
      | Decided user approved \<Rightarrow>
          seq (complete_authorization_request v s rq (a\<lparr>ar_user := Some user, ar_approved := approved\<rparr>)) (\<lambda>uri.
            answer (Some uri)))))"

end
