(* ===== verification/Oauth_Handlers.thy ===== *)
theory Oauth_Handlers
  imports Oauth_Flows
begin

text \<open>
  Reading tokens back: the validator a resource server uses (\<open>authorization_validators/\<close>) and the two
  endpoints about a token (\<open>handlers/\<close>, \<open>token_server.py\<close>); then a server answering any number of requests
  at the same time.

  A step of the server is one awaited call of one of the requests it is answering, the arrival of a
  request, the passing of time, a sweep of what has expired or a change of the registered clients.
\<close>

section \<open>The bearer token validator\<close>

record token_reader =
  tr_issuer :: string
  tr_audience :: "string option"
  tr_leeway :: int

definition media_type :: "json option \<Rightarrow> string option" where
  "media_type declared = (case declared of
      Some (JText t) \<Rightarrow> let written = lower (strip_text t)
        in Some (if CHR ''/'' \<in> set written then written else ''application/'' @ written)
    | _ \<Rightarrow> None)"

definition claim_number :: "payload \<Rightarrow> string \<Rightarrow> real option" where
  "claim_number p name = (case map_of p name of Some (JWhole n) \<Rightarrow> Some (real_of_int n) | Some (JReal r) \<Rightarrow> Some r | _ \<Rightarrow> None)"

definition claim_audiences :: "payload \<Rightarrow> string list" where
  "claim_audiences p = (case map_of p ''aud'' of Some (JText s) \<Rightarrow> [s] | Some (JList xs) \<Rightarrow> texts_in xs | _ \<Rightarrow> [])"

definition outside_its_window :: "token_reader \<Rightarrow> payload \<Rightarrow> int \<Rightarrow> bool" where
  "outside_its_window r claims instant =
    (let now = real_of_int instant / 1000000; leeway = real_of_int (tr_leeway r) / 1000000
     in (case claim_number claims ''exp'' of None \<Rightarrow> True | Some e \<Rightarrow> e \<le> now - leeway)
        \<or> (case claim_number claims ''nbf'' of None \<Rightarrow> False | Some b \<Rightarrow> now < b - leeway))"

definition addressed_to_us :: "token_reader \<Rightarrow> payload \<Rightarrow> bool" where
  "addressed_to_us r claims \<longleftrightarrow> map_of claims ''iss'' = Some (JText (tr_issuer r))
    \<and> (case tr_audience r of None \<Rightarrow> True | Some a \<Rightarrow> a \<in> set (claim_audiences claims))"

definition validate_bearer_token :: "oauth_env \<Rightarrow> token_reader \<Rightarrow> string \<Rightarrow> payload oauth_coro" where
  "validate_bearer_token v r token = (case v_load v token of
      None \<Rightarrow> refuse (AccessDenied None)
    | Some (header, claims, verified) \<Rightarrow>
        if \<not> verified \<or> media_type (map_of header ''typ'') \<noteq> Some ''application/at+jwt'' then refuse (AccessDenied None)
        else seq (await read_now) (\<lambda>now.
          if outside_its_window r claims now \<or> \<not> addressed_to_us r claims then refuse (AccessDenied None)
          else case payload_text claims ''jti'' of
              None \<Rightarrow> refuse (AccessDenied None)
            | Some i \<Rightarrow> seq (is_access_token_revoked i) (\<lambda>revoked.
                if revoked then refuse (AccessDenied None) else answer claims)))"

text \<open>\<open>_bearer_token\<close>: what the header presents under the bearer scheme.\<close>

definition bearer_token :: "oauth_request \<Rightarrow> oauth_error + string" where
  "bearer_token rq = (case rq_authorization rq of
      None \<Rightarrow> Inl (AccessDenied None)
    | Some header \<Rightarrow>
        let body = dropWhile is_white header;
          token = (if lower (take 6 body) = ''bearer'' \<and> drop 6 body \<noteq> [] \<and> is_white (hd (drop 6 body))
            then strip_text (drop 7 body) else strip_text header)
        in if token = '''' \<or> token = strip_text header then Inl (AccessDenied None) else Inr token)"

record validated_request =
  oauth_access_token_id :: "string option"
  oauth_client_id :: "string option"
  oauth_user_id :: "string option"
  oauth_scopes :: "string list"

definition validate_authorization :: "oauth_env \<Rightarrow> token_reader \<Rightarrow> oauth_request \<Rightarrow> validated_request oauth_coro" where
  "validate_authorization v r rq = seq (settled (bearer_token rq)) (\<lambda>token. seq (validate_bearer_token v r token) (\<lambda>claims.
    answer \<lparr>oauth_access_token_id = payload_text claims ''jti'', oauth_client_id = payload_text claims ''client_id'',
      oauth_user_id = payload_text claims ''sub'',
      oauth_scopes = (case payload_text claims ''scope'' of None \<Rightarrow> [] | Some s \<Rightarrow> split_scopes s)\<rparr>))"

section \<open>The endpoints about a token\<close>

datatype validated_token = ValidAccess payload | ValidRefresh payload

definition read_as_refresh :: "oauth_env \<Rightarrow> string \<Rightarrow> client_entity \<Rightarrow> validated_token option oauth_coro" where
  "read_as_refresh v token c = caught
    (seq (validate_encrypted_refresh_token v token (ce_identifier c)) (\<lambda>p. answer (Some (ValidRefresh p))))
    (\<lambda>err. if is_server_error err then answer None else refuse err)"

definition read_as_access :: "oauth_env \<Rightarrow> token_reader \<Rightarrow> string \<Rightarrow> validated_token option oauth_coro" where
  "read_as_access v r token = caught
    (seq (validate_bearer_token v r token) (\<lambda>claims. answer (Some (ValidAccess claims))))
    (\<lambda>err. if is_server_error err then answer None else refuse err)"

definition validate_token :: "oauth_env \<Rightarrow> token_reader \<Rightarrow> oauth_request \<Rightarrow> client_entity \<Rightarrow> validated_token option oauth_coro" where
  "validate_token v r rq c = seq (settled (get_request_parameter ''token'' rq None)) (\<lambda>sent.
    case sent of
      None \<Rightarrow> refuse (InvalidRequest ''token'')
    | Some token \<Rightarrow> seq (settled (get_request_parameter ''token_type_hint'' rq (Some ''access_token''))) (\<lambda>hint.
        if hint = Some ''refresh_token''
        then seq (read_as_refresh v token c) (\<lambda>sealed. if sealed \<noteq> None then answer sealed else read_as_access v r token)
        else seq (read_as_access v r token) (\<lambda>signed. if signed \<noteq> None then answer signed else read_as_refresh v token c)))"

definition token_issued_to :: "payload \<Rightarrow> string \<Rightarrow> bool" where
  "token_issued_to data client_id \<longleftrightarrow> payload_text data ''client_id'' = Some client_id
    \<or> client_id \<in> set (payload_names data ''aud'')"

definition withdraw_named :: "payload \<Rightarrow> string \<Rightarrow> unit oauth_coro" where
  "withdraw_named data name = (case payload_text data name of None \<Rightarrow> answer () | Some i \<Rightarrow> revoke_access_token i)"

fun withdraw :: "validated_token \<Rightarrow> client_entity \<Rightarrow> unit oauth_coro" where
  "withdraw (ValidRefresh data) c =
    seq (case payload_text data ''refresh_token_id'' of
        None \<Rightarrow> answer ()
      | Some i \<Rightarrow> seq (await (refresh_revoke i)) (\<lambda>_. answer ())) (\<lambda>_. withdraw_named data ''access_token_id'')"
| "withdraw (ValidAccess data) c =
    (if token_issued_to data (ce_identifier c) then withdraw_named data ''jti'' else answer ())"

definition respond_revocation :: "oauth_env \<Rightarrow> token_reader \<Rightarrow> oauth_request \<Rightarrow> unit oauth_coro" where
  "respond_revocation v r rq = seq (validate_client v None rq) (\<lambda>c. seq (validate_token v r rq c) (\<lambda>found.
    case found of None \<Rightarrow> answer () | Some t \<Rightarrow> withdraw t c))"

text \<open>What the introspection document is filled with: nothing for a token that is not active.\<close>

definition respond_introspection :: "oauth_env \<Rightarrow> token_reader \<Rightarrow> oauth_request \<Rightarrow> validated_token option oauth_coro" where
  "respond_introspection v r rq = seq (validate_client v None rq) (\<lambda>c. validate_token v r rq c)"

section \<open>A server at work\<close>

datatype oauth_job =
    TokenRequest oauth_request
  | AuthorizeRequest oauth_request "string option" consent
  | DeviceRequest oauth_request
  | DeviceDecision string string bool
  | RevocationRequest oauth_request
  | IntrospectionRequest oauth_request
  | ResourceRequest oauth_request

datatype oauth_result =
    TokenGiven token_answer | BrowserSent "oauth_redirect option" | DeviceGiven device_code | DecisionTaken
  | TokenWithdrawn | TokenDescribed "validated_token option" | ResourceOpened validated_request

record oauth_deployment =
  od_env :: oauth_env
  od_server :: oauth_server
  od_reader :: token_reader

fun job_task :: "oauth_deployment \<Rightarrow> oauth_job \<Rightarrow> oauth_result oauth_coro" where
  "job_task d (TokenRequest rq) = seq (respond_to_access_token_request (od_env d) (od_server d) rq) (\<lambda>a. answer (TokenGiven a))"
| "job_task d (AuthorizeRequest rq owner decision) =
    seq (authorize (od_env d) (od_server d) rq owner decision) (\<lambda>uri. answer (BrowserSent uri))"
| "job_task d (DeviceRequest rq) = seq (respond_to_device_authorization (od_env d) (od_server d) rq) (\<lambda>c. answer (DeviceGiven c))"
| "job_task d (DeviceDecision code user approved) =
    seq (server_complete_device (od_server d) code user approved) (\<lambda>_. answer DecisionTaken)"
| "job_task d (RevocationRequest rq) = seq (respond_revocation (od_env d) (od_reader d) rq) (\<lambda>_. answer TokenWithdrawn)"
| "job_task d (IntrospectionRequest rq) =
    seq (respond_introspection (od_env d) (od_reader d) rq) (\<lambda>t. answer (TokenDescribed t))"
| "job_task d (ResourceRequest rq) = seq (validate_authorization (od_env d) (od_reader d) rq) (\<lambda>q. answer (ResourceOpened q))"

datatype oauth_move =
    Arrive oauth_job | Resume nat | Elapse nat | SweepTokens | RegisterClient oauth_client | RemoveClient string

type_synonym oauth_answering = "oauth_job \<times> oauth_result oauth_coro"

type_synonym oauth_machine = "oauth_answering list \<times> oauth"

definition sweep_tokens :: "oauth \<Rightarrow> oauth" where
  "sweep_tokens w = device_clear_expired (code_clear_expired (refresh_clear_expired (access_clear_expired w)))"

fun oauth_does :: "oauth_deployment \<Rightarrow> oauth_move \<Rightarrow> oauth_machine \<Rightarrow> oauth_machine" where
  "oauth_does d (Arrive j) (as, w) = (as @ [(j, job_task d j)], w)"
| "oauth_does d (Resume i) (as, w) = (if i < length as
    then let (t, w') = task_step (snd (as ! i)) w in (as[i := (fst (as ! i), t)], w') else (as, w))"
| "oauth_does d (Elapse n) (as, w) = (as, w\<lparr>o_now := o_now w + int n\<rparr>)"
| "oauth_does d SweepTokens (as, w) = (as, sweep_tokens w)"
| "oauth_does d (RegisterClient c) (as, w) = (as, client_save c w)"
| "oauth_does d (RemoveClient i) (as, w) = (as, client_remove i w)"

definition oauth_runs :: "oauth_deployment \<Rightarrow> oauth_move list \<Rightarrow> oauth_machine \<Rightarrow> oauth_machine" where
  "oauth_runs d moves m = fold (oauth_does d) moves m"

definition oauth_fresh :: "(string, oauth_client) dict \<Rightarrow> string list \<Rightarrow> int \<Rightarrow> oauth_machine" where
  "oauth_fresh clients scopes now = ([], \<lparr>o_now = now, o_clients = clients, o_scopes = map (\<lambda>s. (s, ())) scopes,
    o_access = [], o_refresh = [], o_codes = [], o_devices = [], o_events = []\<rparr>)"

text \<open>What was answered, in the order the requests arrived.\<close>

definition oauth_answers :: "oauth_machine \<Rightarrow> (oauth_job \<times> (oauth_error + oauth_result)) list" where
  "oauth_answers m = List.map_filter (\<lambda>(j, t). map_option (Pair j) (result_of t)) (fst m)"

end
