(* ===== verification/Oauth_Steps.thy ===== *)
theory Oauth_Steps
  imports Oauth_Handlers
begin

text \<open>
  What the steps of each request can do to the state. A relation between states that allows reading,
  announcing and changes of the clients (locale \<open>calm_steps\<close>) allows every step of a client
  authentication; one that also allows storing access tokens under the names a request drew and revoking
  them (\<open>access_steps\<close>) those of issuing; and so on for refresh tokens, codes and device codes. The
  relations the theorems are about are interpretations.
\<close>

lemma only_if [only_intros]: "(c \<Longrightarrow> does_only Q t) \<Longrightarrow> (\<not> c \<Longrightarrow> does_only Q u) \<Longrightarrow> does_only Q (if c then t else u)"
  by simp

lemma only_option [only_intros]:
  "does_only Q t \<Longrightarrow> (\<And>x. does_only Q (u x)) \<Longrightarrow> does_only Q (case x of None \<Rightarrow> t | Some x \<Rightarrow> u x)"
  by (simp split: option.splits)

lemma only_prod [only_intros]: "(\<And>x y. does_only Q (u x y)) \<Longrightarrow> does_only Q (case p of (x, y) \<Rightarrow> u x y)"
  by (simp split: prod.splits)

lemma only_let [only_intros]: "(\<And>x. does_only Q (u x)) \<Longrightarrow> does_only Q (let x = y in u x)"
  by simp

lemma only_store_under:
  "(\<And>n. n \<in> set ns \<Longrightarrow> does_only Q (store n)) \<Longrightarrow> does_only Q (store_under_a_free_identifier store ns)"
  by (induction store ns rule: store_under_a_free_identifier.induct) (auto intro!: only_intros)

section \<open>Reading, announcing, changes of clients\<close>

locale calm_steps =
  fixes Q :: "oauth \<Rightarrow> oauth \<Rightarrow> bool"
  assumes same: "Q w w"
    and events: "Q w (w\<lparr>o_events := es\<rparr>)"
    and clients: "Q w (w\<lparr>o_clients := cs\<rparr>)"
begin

lemma reads [only_intros]:
  "does_only Q (await read_now)" "does_only Q (await (client_find i))" "does_only Q (await (scope_find i))"
  "does_only Q (await (access_find i))" "does_only Q (await (refresh_find i))" "does_only Q (await (code_find i))"
  "does_only Q (await (device_find i))" "does_only Q (await (ret x))"
  by (auto intro!: only_await simp: same read_now_def client_find_def scope_find_def access_find_def refresh_find_def
      code_find_def device_find_def)

lemma announces [only_intros]: "does_only Q (announce_event e)"
  unfolding announce_event_def by (rule only_await) (simp add: dispatch_event_def events)

lemma rehashes [only_intros]: "does_only Q (await (rehash c fresh))"
  by (rule only_await) (simp add: rehash_def client_save_def clients)

lemma only_entity [only_intros]: "does_only Q (get_client_entity i)"
  unfolding get_client_entity_def by (intro only_intros)

lemma only_stored_client [only_intros]: "does_only Q (stored_client_of e)"
  unfolding stored_client_of_def by (intro only_intros)

lemma only_secret [only_intros]: "does_only Q (validate_secret v i secret flow)"
  unfolding validate_secret_def by (intro only_intros)

lemma only_entity_or_fail [only_intros]: "does_only Q (get_client_entity_or_fail flow i)"
  unfolding get_client_entity_or_fail_def by (intro only_intros)

lemma only_client [only_intros]: "does_only Q (validate_client v flow rq)"
  unfolding validate_client_def by (intro only_intros)

lemma only_revoked [only_intros]:
  "does_only Q (is_access_token_revoked i)" "does_only Q (is_refresh_token_revoked i)"
  "does_only Q (is_auth_code_revoked i)" "does_only Q (is_device_code_revoked i)"
  unfolding is_access_token_revoked_def is_refresh_token_revoked_def is_auth_code_revoked_def is_device_code_revoked_def
  by (intro only_intros)+

lemma only_sealed [only_intros]: "does_only Q (validate_encrypted_refresh_token v s i)"
  unfolding validate_encrypted_refresh_token_def by (intro only_intros)

lemma only_known_scopes [only_intros]: "does_only Q (known_scopes redirect names)"
  by (induction names) (auto intro!: only_intros simp: get_scope_entity_def)

lemma only_scopes [only_intros]: "does_only Q (validate_scope_parameter s redirect)"
  "does_only Q (finalize_scopes v scopes flow e user)"
  unfolding validate_scope_parameter_def finalize_scopes_def by (intro only_intros)+

lemma only_new_token [only_intros]: "does_only Q (get_new_token v c scopes user)"
  unfolding get_new_token_def by (intro only_intros)

lemma only_signed [only_intros]: "does_only Q (to_signed_string v g t)" "does_only Q (bearer_answer v rq g x)"
  unfolding to_signed_string_def bearer_answer_def by (cases x) (auto intro!: only_intros)

lemma only_user [only_intros]: "does_only Q (validate_user v rq c)"
  unfolding validate_user_def get_user_by_credentials_def by (intro only_intros)

lemma only_read_request [only_intros]: "does_only Q (read_authorization_request v g flow delimiter rq)"
  unfolding read_authorization_request_def by (intro only_intros)

lemma only_validate_request [only_intros]: "does_only Q (validate_authorization_request v s rq)"
  unfolding validate_authorization_request_def validate_code_authorization_def Let_def by (intro only_intros)

lemma only_plain [only_intros]: "does_only Q (refuse_plain_pkce_unless_allowed a)"
  unfolding refuse_plain_pkce_unless_allowed_def by (intro only_intros)

lemma only_validate_code [only_intros]: "does_only Q (validate_authorization_code p c rq)"
  unfolding validate_authorization_code_def Let_def by (intro only_intros)

lemma only_old_refresh [only_intros]: "does_only Q (validate_old_refresh_token v rq i)"
  unfolding validate_old_refresh_token_def by (intro only_intros)

lemma only_device_entity [only_intros]: "does_only Q (get_device_code_entity i)" "does_only Q (validate_device_code rq c)"
  unfolding validate_device_code_def get_device_code_entity_def device_entity_of_def by (intro only_intros)+

lemma only_bearer [only_intros]: "does_only Q (validate_bearer_token v r token)" "does_only Q (validate_authorization v r rq)"
  unfolding validate_authorization_def validate_bearer_token_def by (intro only_intros)+

lemma only_validate_token [only_intros]: "does_only Q (validate_token v r rq c)"
  unfolding validate_token_def read_as_refresh_def read_as_access_def by (intro only_intros)

lemma only_introspection [only_intros]: "does_only Q (respond_introspection v r rq)"
  unfolding respond_introspection_def by (intro only_intros)

end

section \<open>Issuing and withdrawing\<close>

locale access_steps = calm_steps +
  fixes NA :: "string set"
  assumes access_saved: "n \<in> NA \<Longrightarrow> Q w (w\<lparr>o_access := dict_set n t (o_access w)\<rparr>)"
    and access_withdrawn: "st_revoked t \<Longrightarrow> Q w (w\<lparr>o_access := dict_set n t (o_access w)\<rparr>)"
begin

lemma only_access_revoke [only_intros]: "does_only Q (revoke_access_token i)"
proof -
  have "does_only Q (await (access_save i (t\<lparr>st_revoked := True\<rparr>)))" for t
    by (rule only_await) (simp add: access_save_def access_withdrawn)
  then show ?thesis unfolding revoke_access_token_def by (intro only_intros)
qed

lemma only_access_persist: "at_identifier t \<in> NA \<Longrightarrow> does_only Q (persist_new_access_token t)"
proof -
  assume "at_identifier t \<in> NA"
  then have "does_only Q (await (access_save (at_identifier t) x))" for x
    by (intro only_await) (simp add: access_save_def access_saved)
  then show ?thesis unfolding persist_new_access_token_def by (intro only_intros)
qed

lemma only_issue_access: "set (names_drawn rq AccessKind) \<subseteq> NA \<Longrightarrow> does_only Q (issue_access_token v rq ttl c user scopes)"
  unfolding issue_access_token_def Let_def
  by (intro only_intros only_store_under only_access_persist) auto

lemma only_withdraw_named [only_intros]: "does_only Q (withdraw_named data name)"
  unfolding withdraw_named_def by (intro only_intros)

lemma only_credentials: "set (names_drawn rq AccessKind) \<subseteq> NA \<Longrightarrow> does_only Q (respond_credentials v g rq)"
  unfolding respond_credentials_def by (intro only_intros only_issue_access) auto

lemma only_implicit: "set (names_drawn rq AccessKind) \<subseteq> NA \<Longrightarrow> does_only Q (complete_implicit_authorization v g rq a)"
  unfolding complete_implicit_authorization_def by (intro only_intros only_issue_access) auto

end

locale refresh_steps = access_steps +
  fixes NR :: "string set"
  assumes refresh_saved: "n \<in> NR \<Longrightarrow> Q w (w\<lparr>o_refresh := dict_set n t (o_refresh w)\<rparr>)"
    and refresh_withdrawn: "sr_revoked t \<Longrightarrow> Q w (w\<lparr>o_refresh := dict_set n t (o_refresh w)\<rparr>)"
begin

lemma only_refresh_revoke [only_intros]: "does_only Q (await (refresh_revoke i))"
  by (rule only_await) (auto simp: refresh_revoke_def refresh_withdrawn same split: option.splits)

lemma only_refresh_persist: "rt_identifier r \<in> NR \<Longrightarrow> does_only Q (persist_new_refresh_token r)"
proof -
  assume "rt_identifier r \<in> NR"
  then have "does_only Q (await (refresh_save (rt_identifier r) x))" for x
    by (intro only_await) (simp add: refresh_save_def refresh_saved)
  then show ?thesis unfolding persist_new_refresh_token_def Let_def by (intro only_intros)
qed

lemma only_issue:
  assumes "set (names_drawn rq AccessKind) \<subseteq> NA" "set (names_drawn rq RefreshKind) \<subseteq> NR"
  shows "does_only Q (issue_tokens v rq g c user scopes)"
proof -
  have "does_only Q (issue_refresh_token rq g t)" for t
    unfolding issue_refresh_token_def Let_def
    by (intro only_intros only_store_under only_refresh_persist) (use assms in auto)
  then show ?thesis unfolding issue_tokens_def by (intro only_intros only_issue_access assms)
qed

lemma only_refresh_grant:
  assumes "set (names_drawn rq AccessKind) \<subseteq> NA" "set (names_drawn rq RefreshKind) \<subseteq> NR"
  shows "does_only Q (respond_refresh v g rq)"
  unfolding respond_refresh_def spend_def by (intro only_intros only_issue assms)

lemma only_password_grant:
  assumes "set (names_drawn rq AccessKind) \<subseteq> NA" "set (names_drawn rq RefreshKind) \<subseteq> NR"
  shows "does_only Q (respond_password v g rq)"
  unfolding respond_password_def by (intro only_intros only_issue assms)

lemma only_withdraw [only_intros]: "does_only Q (withdraw t c)"
  by (cases t) (auto intro!: only_intros)

lemma only_revocation [only_intros]: "does_only Q (respond_revocation v r rq)"
  unfolding respond_revocation_def by (intro only_intros)

end

locale code_steps = access_steps +
  fixes NC :: "string set"
  assumes code_saved: "n \<in> NC \<Longrightarrow> Q w (w\<lparr>o_codes := dict_set n t (o_codes w)\<rparr>)"
    and code_withdrawn: "st_revoked t \<Longrightarrow> Q w (w\<lparr>o_codes := dict_set n t (o_codes w)\<rparr>)"
begin

lemma only_code_revoke [only_intros]: "does_only Q (revoke_auth_code i)"
proof -
  have "does_only Q (await (code_save i (t\<lparr>st_revoked := True\<rparr>)))" for t
    by (rule only_await) (simp add: code_save_def code_withdrawn)
  then show ?thesis unfolding revoke_auth_code_def by (intro only_intros)
qed

lemma only_code_persist: "ac_identifier a \<in> NC \<Longrightarrow> does_only Q (persist_new_auth_code a)"
proof -
  assume "ac_identifier a \<in> NC"
  then have "does_only Q (await (code_save (ac_identifier a) x))" for x
    by (intro only_await) (simp add: code_save_def code_saved)
  then show ?thesis unfolding persist_new_auth_code_def by (intro only_intros)
qed

lemma only_issue_code: "set (names_drawn rq CodeKind) \<subseteq> NC \<Longrightarrow> does_only Q (issue_auth_code rq ttl c user uri scopes)"
  unfolding issue_auth_code_def Let_def by (intro only_intros only_store_under only_code_persist) auto

lemma only_authorize:
  assumes "set (names_drawn rq AccessKind) \<subseteq> NA" "set (names_drawn rq CodeKind) \<subseteq> NC"
  shows "does_only Q (authorize v s rq owner decision)"
proof -
  have "does_only Q (case decision of OwnPage \<Rightarrow> answer None | Decided user approved \<Rightarrow>
      seq (complete_authorization_request v s rq (a\<lparr>ar_user := Some user, ar_approved := approved\<rparr>)) (\<lambda>uri. answer (Some uri)))" for a
    unfolding complete_authorization_request_def complete_code_authorization_def
    by (cases decision) (auto intro!: only_intros only_issue_code only_implicit assms)
  then show ?thesis unfolding authorize_def by (intro only_intros)
qed

end

locale device_steps = calm_steps +
  assumes device_saved: "Q w (w\<lparr>o_devices := ds\<rparr>)"
begin

lemma only_device_save [only_intros]: "does_only Q (await (device_save i x))" "does_only Q (await (device_change i y f))"
  by (auto intro!: only_await simp: device_change_def device_save_def device_saved)

lemma only_device_persist [only_intros]: "does_only Q (persist_device_code e)"
  unfolding persist_device_code_def by (intro only_intros)

lemma only_device_revoke [only_intros]: "does_only Q (revoke_device_code i)"
  unfolding revoke_device_code_def by (intro only_intros)

lemma only_device_request [only_intros]: "does_only Q (respond_to_device_authorization v s rq)"
  unfolding respond_to_device_authorization_def respond_device_authorization_def issue_device_code_def Let_def
  by (intro only_intros only_store_under)

lemma only_decision [only_intros]: "does_only Q (server_complete_device s code user approved)"
  unfolding server_complete_device_def complete_device_authorization_def by (intro only_intros)

lemma only_poll [only_intros]: "does_only Q (record_poll g d)"
  unfolding record_poll_def by (intro only_intros)

end

text \<open>The names a request may draw.\<close>

fun job_names :: "token_kind \<Rightarrow> oauth_job \<Rightarrow> string list" where
  "job_names kind (TokenRequest rq) = names_drawn rq kind"
| "job_names kind (AuthorizeRequest rq owner decision) = names_drawn rq kind"
| "job_names kind (DeviceRequest rq) = names_drawn rq kind"
| "job_names kind j = []"

text \<open>A relation that allows all of it allows every step of a request.\<close>

locale all_steps = refresh_steps + code_steps + device_steps
begin

lemma only_code_grant:
  assumes "set (names_drawn rq AccessKind) \<subseteq> NA" "set (names_drawn rq RefreshKind) \<subseteq> NR"
  shows "does_only Q (respond_code v g rq)"
  unfolding respond_code_def by (intro only_intros only_issue assms)

lemma only_device_grant:
  assumes "set (names_drawn rq AccessKind) \<subseteq> NA" "set (names_drawn rq RefreshKind) \<subseteq> NR"
  shows "does_only Q (respond_device v g rq)"
  unfolding respond_device_def by (intro only_intros only_issue assms)

lemma only_token_request:
  assumes "set (names_drawn rq AccessKind) \<subseteq> NA" "set (names_drawn rq RefreshKind) \<subseteq> NR"
  shows "does_only Q (respond_to_access_token_request v s rq)"
proof -
  have "does_only Q (respond_with t v g rq)" for t g
    by (cases t) (auto intro!: only_intros only_code_grant only_refresh_grant only_credentials only_password_grant
        only_device_grant assms)
  then show ?thesis unfolding respond_to_access_token_request_def by (intro only_intros)
qed

lemma only_job:
  assumes "set (job_names AccessKind j) \<subseteq> NA" "set (job_names RefreshKind j) \<subseteq> NR" "set (job_names CodeKind j) \<subseteq> NC"
  shows "does_only Q (job_task d j)"
  using assms by (cases j) (auto intro!: only_intros only_token_request only_authorize)

end

end
