(* ===== verification/Oauth_Spent.thy ===== *)
theory Oauth_Spent
  imports Oauth_Steps
begin

text \<open>
  Refresh tokens are spent once. A request is followed through phases: the names of refresh tokens it may
  still store a token under, and whether one of its steps withdrew the token it presents. A token is
  stored under a name once and withdrawn once, so one request at most gets through.
\<close>

definition live_refresh :: "oauth \<Rightarrow> string \<Rightarrow> bool" where
  "live_refresh w i \<longleftrightarrow> (case map_of (o_refresh w) i of None \<Rightarrow> False | Some t \<Rightarrow> \<not> sr_revoked t)"

section \<open>Steps\<close>

definition no_new_refresh :: "oauth \<Rightarrow> oauth \<Rightarrow> bool" where
  "no_new_refresh w w' \<longleftrightarrow> (dict_ok (o_refresh w) \<longrightarrow> dict_ok (o_refresh w')) \<and> (\<forall>i. live_refresh w' i \<longrightarrow> live_refresh w i)"

lemma no_new_refresh_cong: "o_refresh w' = o_refresh w \<Longrightarrow> no_new_refresh w w'"
  by (simp add: no_new_refresh_def live_refresh_def)

interpretation nr: refresh_steps no_new_refresh UNIV "{}"
  by unfold_locales (auto intro: no_new_refresh_cong simp: no_new_refresh_def live_refresh_def)

interpretation nc: code_steps no_new_refresh UNIV UNIV
  by unfold_locales (auto intro: no_new_refresh_cong)

interpretation nd: device_steps no_new_refresh
  by unfold_locales (auto intro: no_new_refresh_cong)

text \<open>Which refresh token a request presents, when it is the refresh grant that answers it.\<close>

definition chosen_grant :: "oauth_server \<Rightarrow> oauth_request \<Rightarrow> (grant_type \<times> grant_setup) option" where
  "chosen_grant s rq = find (\<lambda>(t, g). can_respond t rq) (map snd (os_grants s))"

definition presented :: "oauth_env \<Rightarrow> string \<Rightarrow> string \<Rightarrow> oauth_request \<Rightarrow> string option" where
  "presented v name field rq = (case get_request_parameter name rq None of
      Inr (Some s) \<Rightarrow> (case v_unseal v s of None \<Rightarrow> None | Some p \<Rightarrow> payload_text p field)
    | _ \<Rightarrow> None)"

definition refresh_presented :: "oauth_deployment \<Rightarrow> oauth_job \<Rightarrow> string option" where
  "refresh_presented d j = (case j of
      TokenRequest rq \<Rightarrow> (case chosen_grant (od_server d) rq of
          Some (RefreshTokenGrant, g) \<Rightarrow> presented (od_env d) ''refresh_token'' ''refresh_token_id'' rq
        | _ \<Rightarrow> None)
    | _ \<Rightarrow> None)"

text \<open>The phases.\<close>

type_synonym spending = "string set \<times> bool"

definition spend_step :: "string option \<Rightarrow> spending \<Rightarrow> oauth \<Rightarrow> oauth \<Rightarrow> spending \<Rightarrow> bool" where
  "spend_step target p w w' p' \<longleftrightarrow> fst p' \<subseteq> fst p \<and> (dict_ok (o_refresh w) \<longrightarrow> dict_ok (o_refresh w'))
    \<and> (\<forall>i. live_refresh w' i \<longrightarrow> live_refresh w i \<or> i \<in> fst p - fst p')
    \<and> (snd p' \<longrightarrow> snd p \<or> (\<exists>i. target = Some i \<and> live_refresh w i \<and> \<not> live_refresh w' i))"

lemma spend_step_none: "no_new_refresh w w' \<Longrightarrow> spend_step target p w w' p"
  by (auto simp: spend_step_def no_new_refresh_def)

abbreviation spends where
  "spends target F t p \<equiv> obeys (\<lambda>w. True) (spend_step target) F t p"

lemma spends_only: "does_only no_new_refresh t \<Longrightarrow> (\<And>r. F p r) \<Longrightarrow> spends target F t p"
  by (erule only_obeys) (auto intro: spend_step_none)

lemma spends_seq_only:
  assumes "does_only no_new_refresh t" "returns P t" "\<And>e. F p (Inl e)" "\<And>x. P x \<Longrightarrow> spends target F (f x) p"
  shows "spends target F (seq t f) p"
  by (rule obeys_seq_only [OF assms(1) _ assms(2)]) (auto intro: spend_step_none assms)

lemma spends_then:
  "does_only no_new_refresh t \<Longrightarrow> (\<And>e. F p (Inl e)) \<Longrightarrow> (\<And>x. spends target F (f x) p) \<Longrightarrow> spends target F (seq t f) p"
  by (rule spends_seq_only [of _ "\<lambda>x. True"]) simp_all

section \<open>Issuing\<close>

lemma refresh_persist_spends:
  assumes "n = rt_identifier r" "n \<in> S"
  shows "spends target (\<lambda>p res. if res = Inr () then p = (S - {n}, b) else p = (S, b)) (persist_new_refresh_token r) (S, b)"
proof -
  have "spend_step target (S, b) w (w\<lparr>o_refresh := dict_set n t (o_refresh w)\<rparr>) (S - {n}, b)" for w t
    using assms by (auto simp: spend_step_def live_refresh_def)
  then have save: "spends target (\<lambda>p res. if res = Inr () then p = (S - {n}, b) else p = (S, b)) (await (refresh_save n t)) (S, b)" for t
    unfolding obeys_await by (auto simp: refresh_save_def)
  have later: "spends target (\<lambda>p res. if res = Inr () then p = (S - {n}, b) else p = (S, b))
      (seq (await (access_find a)) (\<lambda>access. await (refresh_save n (x access)))) (S, b)" for a x
    by (rule spends_then, rule nr.reads, simp, rule save)
  show ?thesis unfolding persist_new_refresh_token_def Let_def assms(1) [symmetric]
  proof (rule spends_then, rule nr.reads)
    fix found :: "stored_refresh option"
    show "spends target (\<lambda>p res. if res = Inr () then p = (S - {n}, b) else p = (S, b))
        (if found \<noteq> None then refuse UniqueIdentifierTaken
         else seq (await (access_find (at_identifier (rt_access_token r)))) (\<lambda>access.
           await (refresh_save n \<lparr>sr_expiry = rt_expiry r,
             sr_access = (if access = None then None else Some (at_identifier (rt_access_token r))), sr_revoked = False\<rparr>))) (S, b)"
    proof (cases found)
      case None
      show ?thesis unfolding None simp_thms if_False by (rule later)
    qed simp
  qed simp
qed

lemma store_refresh_spends:
  assumes "\<And>n. rt_identifier (r n) = n" "set ns \<subseteq> S"
  shows "spends target (\<lambda>p res. snd p = b) (store_under_a_free_identifier (\<lambda>n. persist_new_refresh_token (r n)) ns) (S, b)"
  using assms(2)
proof (induction ns)
  case Nil
  then show ?case by simp
next
  case (Cons n ns)
  let ?F = "\<lambda>p (res :: oauth_error + string). if (\<exists>x. res = Inr x) then snd p = b else p = (S, b)"
  have "spends target ?F (seq (persist_new_refresh_token (r n)) (\<lambda>_. answer n)) (S, b)"
    by (rule obeys_seq [OF refresh_persist_spends [where S = S]]) (use Cons.prems assms(1) in \<open>auto split: if_splits\<close>)
  then have one: "spends target ?F (seq (persist_new_refresh_token (r n)) (\<lambda>_. answer n)) (S, b)" .
  show ?case
  proof (cases "ns = []")
    case True
    then show ?thesis using one by (auto elim!: obeys_mono split: if_splits)
  next
    case False
    have "spends target (\<lambda>p res. snd p = b) (caught (seq (persist_new_refresh_token (r n)) (\<lambda>_. answer n)) (\<lambda>err.
        if err = UniqueIdentifierTaken then store_under_a_free_identifier (\<lambda>n. persist_new_refresh_token (r n)) ns
        else refuse err)) (S, b)"
      by (rule obeys_caught [OF one]) (use Cons in auto)
    with False show ?thesis by simp
  qed
qed

lemma issue_spends:
  assumes "set (names_drawn rq RefreshKind) \<subseteq> S"
  shows "spends target (\<lambda>p res. snd p = b) (issue_tokens v rq g c user scopes) (S, b)"
proof -
  have refresh: "spends target (\<lambda>p res. snd p = b) (issue_refresh_token rq g t) (S, b)" for t
  proof -
    have "spends target (\<lambda>p res. snd p = b) (seq (store_under_a_free_identifier
        (\<lambda>n. persist_new_refresh_token (x\<lparr>rt_identifier := n\<rparr>)) (names_drawn rq RefreshKind)) (\<lambda>n. answer (Some (x\<lparr>rt_identifier := n\<rparr>)))) (S, b)"
      for x :: refresh_token
      by (rule obeys_seq [OF store_refresh_spends]) (use assms in auto)
    then have later: "spends target (\<lambda>p res. snd p = b) (let x = y now in seq (store_under_a_free_identifier
        (\<lambda>n. persist_new_refresh_token (x\<lparr>rt_identifier := n\<rparr>)) (names_drawn rq RefreshKind)) (\<lambda>n. answer (Some (x\<lparr>rt_identifier := n\<rparr>)))) (S, b)"
      for y :: "int \<Rightarrow> refresh_token" and now by (simp only: Let_def)
    show ?thesis
    proof (cases "entity_supports_grant_type (at_client t) ''refresh_token''")
      case True
      show ?thesis
        by (simp only: issue_refresh_token_def True simp_thms if_False)
          (rule spends_then, rule nr.reads, simp, rule later)
    qed (simp add: issue_refresh_token_def)
  qed
  have announced: "spends target (\<lambda>p res. snd p = b) (seq (announce_event e) (\<lambda>_. answer x)) p" if "snd p = b" for p e and x :: issued
    by (rule spends_only) (auto intro!: only_intros nr.announces that)
  have end_: "spends target (\<lambda>p res. snd p = b) (seq (issue_refresh_token rq g t) (\<lambda>refresh. case refresh of
      None \<Rightarrow> answer (t, None)
    | Some r \<Rightarrow> seq (announce_event (RefreshTokenIssued r)) (\<lambda>_. answer (t, Some r)))) (S, b)" for t
  proof (rule obeys_seq [OF refresh])
    fix p' :: spending and x :: "refresh_token option"
    assume "snd p' = b"
    then show "spends target (\<lambda>p res. snd p = b) (case x of None \<Rightarrow> answer (t, None)
        | Some r \<Rightarrow> seq (announce_event (RefreshTokenIssued r)) (\<lambda>_. answer (t, Some r))) p'"
      by (cases x) (simp, simp only: option.case, rule announced)
  qed
  show ?thesis unfolding issue_tokens_def
    by (rule spends_then, rule nr.only_issue_access, simp, simp, rule spends_then, rule nr.announces, simp, rule end_)
qed

section \<open>The refresh grant\<close>

lemma returns_unsealed: "returns (\<lambda>p. v_unseal v s = Some p) (validate_encrypted_refresh_token v s i)"
  unfolding validate_encrypted_refresh_token_def
  by (auto intro!: returns_after split: option.split)

lemma returns_spent:
  "returns (\<lambda>sp. presented v ''refresh_token'' ''refresh_token_id'' rq = Some (sp_identifier sp)) (validate_old_refresh_token v rq i)"
  unfolding validate_old_refresh_token_def
  by (auto intro!: returns_seq [OF returns_unsealed] simp: presented_def spent_of_def split: sum.split option.split)

lemma spend_spends:
  assumes "target = Some i" "gs_rotate g"
  shows "spends target (\<lambda>p res. case res of Inl e \<Rightarrow> True | Inr u \<Rightarrow> p = (S, True)) (spend g i) (S, False)"
proof -
  have step: "\<exists>p'. spend_step target (S, False) w (snd (refresh_revoke i w)) p'
      \<and> (case fst (refresh_revoke i w) of Inl e \<Rightarrow> True
        | Inr ours \<Rightarrow> spends target (\<lambda>p res. case res of Inl e \<Rightarrow> True | Inr u \<Rightarrow> p = (S, True))
            (if ours then answer () else refuse InvalidRefreshToken) p')" for w
  proof (cases "live_refresh w i")
    case True
    then show ?thesis using assms(1)
      by (intro exI [of _ "(S, True)"]) (auto simp: refresh_revoke_def spend_step_def live_refresh_def split: option.splits)
  next
    case False
    then show ?thesis
      by (intro exI [of _ "(S, False)"]) (auto simp: refresh_revoke_def spend_step_def live_refresh_def split: option.splits)
  qed
  show ?thesis
    by (simp only: spend_def assms(2) simp_thms if_False obeys_seq_await sum.case) (use step in blast)
qed

lemma refresh_spends:
  assumes "presented v ''refresh_token'' ''refresh_token_id'' rq = target" "gs_rotate g"
    "set (names_drawn rq RefreshKind) \<subseteq> S"
  shows "spends target (\<lambda>p res. case res of Inl e \<Rightarrow> True | Inr u \<Rightarrow> snd p) (respond_refresh v g rq) (S, False)"
proof -
  let ?F = "\<lambda>p (res :: oauth_error + issued). case res of Inl e \<Rightarrow> True | Inr u \<Rightarrow> snd p"
  have end_: "spends target ?F (seq (spend g i) (\<lambda>_. issue_tokens v rq g c user scopes)) (S, False)" if "target = Some i" for i c user scopes
    by (rule obeys_seq [OF spend_spends [OF that assms(2), where S = S]])
      (auto intro: obeys_mono [OF issue_spends [OF assms(3)]] split: sum.splits)
  show ?thesis unfolding respond_refresh_def
    by (rule spends_then, rule nr.only_client, simp)
      (rule spends_seq_only [OF nr.only_old_refresh returns_spent], simp,
       intro spends_then only_settled nr.only_scopes nr.only_access_revoke end_; simp add: assms(1) [symmetric])
qed

section \<open>Every request\<close>

lemma other_grants_spend:
  assumes "set (names_drawn rq RefreshKind) \<subseteq> S" "t \<noteq> RefreshTokenGrant"
  shows "spends target (\<lambda>p res. True) (respond_with t v g rq) (S, b)"
proof -
  have issue: "spends target (\<lambda>p res. True) (issue_tokens v rq g c user scopes) (S, b)" for c user scopes
    by (rule obeys_mono [OF issue_spends [OF assms(1)]]) simp
  have then_revoke: "spends target (\<lambda>p res. True) (seq (issue_tokens v rq g c user scopes) (\<lambda>tokens. seq u (\<lambda>_. answer tokens))) (S, b)"
    if "does_only no_new_refresh u" for c user scopes and u :: "unit oauth_coro"
    by (rule obeys_seq [OF issue]) (auto intro!: spends_only only_intros that)
  show ?thesis
  proof (cases t)
    case AuthCodeGrant
    have "spends target (\<lambda>p res. True) (respond_code v g rq) (S, b)"
      unfolding respond_code_def
      by (intro spends_then only_settled nr.only_client nr.only_validate_code nr.only_known_scopes nr.only_scopes)
        (auto intro!: spends_then only_settled nr.only_client nr.only_validate_code nr.only_known_scopes nr.only_scopes
          then_revoke nc.only_code_revoke split: option.split)
    then show ?thesis by (simp add: AuthCodeGrant)
  next
    case PasswordGrant
    have "spends target (\<lambda>p res. True) (respond_password v g rq) (S, b)"
      unfolding respond_password_def
      by (intro spends_then only_settled nr.only_client nr.only_scopes nr.only_user issue) simp_all
    then show ?thesis by (simp add: PasswordGrant)
  next
    case DeviceCodeGrant
    have "spends target (\<lambda>p res. True) (case dc_user e of
        None \<Rightarrow> seq (record_poll g e) (\<lambda>_. refuse AuthorizationPending)
      | Some owner \<Rightarrow>
          if \<not> dc_approved e then refuse (AccessDenied None)
          else seq (finalize_scopes v (dc_scopes e) DEVICE_CODE c (Some owner)) (\<lambda>granted.
            seq (issue_tokens v rq g c (Some owner) granted) (\<lambda>tokens.
            seq (revoke_device_code (dc_identifier e)) (\<lambda>_. answer tokens)))) (S, b)" for e c
    proof (cases "dc_user e")
      case None
      show ?thesis unfolding None option.case by (rule spends_only) (auto intro!: only_intros nd.only_poll)
    next
      case (Some owner)
      have "spends target (\<lambda>p res. True) (seq (finalize_scopes v (dc_scopes e) DEVICE_CODE c (Some owner)) (\<lambda>granted.
            seq (issue_tokens v rq g c (Some owner) granted) (\<lambda>tokens.
            seq (revoke_device_code (dc_identifier e)) (\<lambda>_. answer tokens)))) (S, b)"
        by (rule spends_then, rule nr.only_scopes, simp, rule then_revoke, rule nd.only_device_revoke)
      then show ?thesis by (simp add: Some)
    qed
    then have "spends target (\<lambda>p res. True) (respond_device v g rq) (S, b)"
      unfolding respond_device_def
      by (intro spends_then nr.only_client nr.only_device_entity) simp_all
    then show ?thesis by (simp add: DeviceCodeGrant)
  next
    case ClientCredentialsGrant
    show ?thesis unfolding ClientCredentialsGrant respond_with.simps
      by (rule spends_only) (auto intro!: nr.only_credentials)
  qed (use assms(2) in simp_all)
qed

definition rotates :: "oauth_deployment \<Rightarrow> bool" where
  "rotates d \<longleftrightarrow> (\<forall>(n, t, g)\<in>set (os_grants (od_server d)). t = RefreshTokenGrant \<longrightarrow> gs_rotate g)"

fun token_given :: "(oauth_error + oauth_result) option \<Rightarrow> bool" where
  "token_given (Some (Inr (TokenGiven a))) = True"
| "token_given r = False"

lemma job_spends:
  assumes "rotates d" "set (job_names RefreshKind j) \<subseteq> S"
  shows "spends (refresh_presented d j) (\<lambda>p res. token_given (Some res) \<longrightarrow> refresh_presented d j \<noteq> None \<longrightarrow> snd p)
    (job_task d j) (S, False)"
proof (cases j)
  case (TokenRequest rq)
  let ?F = "\<lambda>(p :: spending) res. token_given (Some res) \<longrightarrow> refresh_presented d j \<noteq> None \<longrightarrow> snd p"
  have last: "spends target ?F (seq (seq m (bearer_answer (od_env d) rq g)) (\<lambda>a. answer (TokenGiven a))) (S, False)"
    if "spends target (\<lambda>p res. case res of Inl e \<Rightarrow> True | Inr u \<Rightarrow> refresh_presented d j \<noteq> None \<longrightarrow> snd p) m (S, False)" for target m g
  proof -
    have "spends target (\<lambda>p res. case res of Inl e \<Rightarrow> True | Inr u \<Rightarrow> refresh_presented d j \<noteq> None \<longrightarrow> snd p)
        (seq m (bearer_answer (od_env d) rq g)) (S, False)"
      by (rule obeys_seq [OF that]) (auto intro!: spends_only nr.only_signed split: sum.split)
    then show ?thesis by (rule obeys_seq) auto
  qed
  show ?thesis
  proof (cases "chosen_grant (od_server d) rq")
    case None
    then show ?thesis
      by (auto simp: TokenRequest respond_to_access_token_request_def chosen_grant_def seq_settled split: sum.split)
  next
    case (Some tg)
    obtain t g where tg: "tg = (t, g)" by fastforce
    have "(t, g) \<in> set (map snd (os_grants (od_server d)))"
      using Some by (auto simp: chosen_grant_def tg find_Some_iff) (metis image_eqI nth_mem)
    then have rotate: "t = RefreshTokenGrant \<Longrightarrow> gs_rotate g" using assms(1) by (auto simp: rotates_def)
    have "spends (refresh_presented d j) (\<lambda>p res. case res of Inl e \<Rightarrow> True | Inr u \<Rightarrow> refresh_presented d j \<noteq> None \<longrightarrow> snd p)
        (respond_with t (od_env d) g rq) (S, False)"
    proof (cases "t = RefreshTokenGrant")
      case True
      have "refresh_presented d j = presented (od_env d) ''refresh_token'' ''refresh_token_id'' rq"
        by (simp add: refresh_presented_def TokenRequest Some tg True)
      from refresh_spends [OF this [symmetric] rotate [OF True], of S] assms(2)
      have "spends (refresh_presented d j) (\<lambda>p res. case res of Inl e \<Rightarrow> True | Inr u \<Rightarrow> snd p) (respond_refresh (od_env d) g rq) (S, False)"
        by (simp add: TokenRequest)
      then have "spends (refresh_presented d j) (\<lambda>p res. case res of Inl e \<Rightarrow> True | Inr u \<Rightarrow> refresh_presented d j \<noteq> None \<longrightarrow> snd p)
          (respond_refresh (od_env d) g rq) (S, False)"
        by (rule obeys_mono) (simp split: sum.splits)
      then show ?thesis by (simp add: True)
    next
      case False
      then have "refresh_presented d j = None"
        by (simp add: refresh_presented_def TokenRequest Some tg split: grant_type.split)
      then show ?thesis using other_grants_spend [OF _ False] assms(2)
        by (auto simp: TokenRequest intro!: obeys_mono [OF other_grants_spend [OF _ False]] split: sum.splits)
    qed
    from last [OF this] show ?thesis
      using Some by (auto simp: TokenRequest respond_to_access_token_request_def chosen_grant_def tg seq_settled split: sum.split)
  qed
next
  case (AuthorizeRequest rq owner decision)
  show ?thesis unfolding AuthorizeRequest
    by (rule spends_only) (auto intro!: only_intros nc.only_authorize simp: refresh_presented_def)
next
  case (DeviceRequest rq)
  show ?thesis unfolding DeviceRequest
    by (rule spends_only) (auto intro!: only_intros nd.only_device_request simp: refresh_presented_def)
next
  case (DeviceDecision code user approved)
  show ?thesis unfolding DeviceDecision
    by (rule spends_only) (auto intro!: only_intros nd.only_decision simp: refresh_presented_def)
next
  case (RevocationRequest rq)
  show ?thesis unfolding RevocationRequest
    by (rule spends_only) (auto intro!: only_intros nr.only_revocation simp: refresh_presented_def)
next
  case (IntrospectionRequest rq)
  show ?thesis unfolding IntrospectionRequest
    by (rule spends_only) (auto intro!: only_intros nr.only_introspection simp: refresh_presented_def)
next
  case (ResourceRequest rq)
  show ?thesis unfolding ResourceRequest
    by (rule spends_only) (auto intro!: only_intros nr.only_bearer simp: refresh_presented_def)
qed

section \<open>The server at work\<close>

definition arriving :: "oauth_move list \<Rightarrow> oauth_job list" where
  "arriving moves = List.map_filter (\<lambda>mv. case mv of Arrive j \<Rightarrow> Some j | _ \<Rightarrow> None) moves"

text \<open>No two identifiers drawn are the same, which \<open>secrets.token_hex\<close> of forty bytes is taken to grant.\<close>

definition names_differ :: "token_kind \<Rightarrow> oauth_move list \<Rightarrow> bool" where
  "names_differ kind moves \<longleftrightarrow> distinct (concat (map (job_names kind) (arriving moves)))"

definition later_names :: "token_kind \<Rightarrow> oauth_move list \<Rightarrow> string set" where
  "later_names kind moves = (\<Union>j\<in>set (arriving moves). set (job_names kind j))"

lemma arriving_Cons: "arriving (mv # moves) = (case mv of Arrive j \<Rightarrow> j # arriving moves | _ \<Rightarrow> arriving moves)"
  by (cases mv) (simp_all add: arriving_def map_filter_simps)

lemma later_names_Cons:
  "later_names kind (mv # moves) = (case mv of Arrive j \<Rightarrow> set (job_names kind j) \<union> later_names kind moves | _ \<Rightarrow> later_names kind moves)"
  by (cases mv) (simp_all add: later_names_def arriving_Cons)

lemma names_differ_Cons:
  "names_differ kind (mv # moves) \<longleftrightarrow> names_differ kind moves
    \<and> (case mv of Arrive j \<Rightarrow> distinct (job_names kind j) \<and> set (job_names kind j) \<inter> later_names kind moves = {} | _ \<Rightarrow> True)"
  by (cases mv) (auto simp: names_differ_def arriving_Cons later_names_def)

definition won_over :: "oauth_deployment \<Rightarrow> oauth_machine \<Rightarrow> spending list \<Rightarrow> nat \<Rightarrow> string \<Rightarrow> bool" where
  "won_over d m ps i n \<longleftrightarrow> i < length (fst m) \<and> snd (ps ! i) \<and> refresh_presented d (fst (fst m ! i)) = Some n"

definition names_open :: "oauth_machine \<Rightarrow> spending list \<Rightarrow> string set \<Rightarrow> string set" where
  "names_open m ps later = (\<Union>i<length (fst m). fst (ps ! i)) \<union> later"

definition spending_ok :: "oauth_deployment \<Rightarrow> string set \<Rightarrow> oauth_machine \<Rightarrow> spending list \<Rightarrow> bool" where
  "spending_ok d later m ps \<longleftrightarrow> length ps = length (fst m) \<and> dict_ok (o_refresh (snd m))
    \<and> (\<forall>i<length ps. spends (refresh_presented d (fst (fst m ! i)))
        (\<lambda>p res. token_given (Some res) \<longrightarrow> refresh_presented d (fst (fst m ! i)) \<noteq> None \<longrightarrow> snd p) (snd (fst m ! i)) (ps ! i))
    \<and> (\<forall>n. live_refresh (snd m) n \<longrightarrow> n \<notin> names_open m ps later)
    \<and> (\<forall>i n. won_over d m ps i n \<longrightarrow> \<not> live_refresh (snd m) n \<and> n \<notin> names_open m ps later)
    \<and> (\<forall>i j n. won_over d m ps i n \<longrightarrow> won_over d m ps j n \<longrightarrow> i = j)
    \<and> (\<forall>i<length ps. fst (ps ! i) \<inter> later = {} \<and> (\<forall>j<length ps. i \<noteq> j \<longrightarrow> fst (ps ! i) \<inter> fst (ps ! j) = {}))"

lemma spending_calm:
  assumes "spending_ok d later (as, w) ps" "no_new_refresh w w'"
  shows "spending_ok d later (as, w') ps"
  using assms unfolding spending_ok_def no_new_refresh_def won_over_def names_open_def by simp blast

lemma spending_arrive:
  assumes "spending_ok d (set (job_names RefreshKind j) \<union> later) (as, w) ps" "rotates d"
    "set (job_names RefreshKind j) \<inter> later = {}"
  shows "spending_ok d later (as @ [(j, job_task d j)], w) (ps @ [(set (job_names RefreshKind j), False)])"
proof -
  let ?S = "set (job_names RefreshKind j)"
  have len: "length ps = length as" using assms(1) by (simp add: spending_ok_def)
  have won: "won_over d (as @ [(j, job_task d j)], w) (ps @ [(?S, False)]) i n \<longleftrightarrow> won_over d (as, w) ps i n" for i n
    by (auto simp: won_over_def nth_append len less_Suc_eq)
  have "names_open (as @ [(j, job_task d j)], w) (ps @ [(?S, False)]) later = names_open (as, w) ps (?S \<union> later)"
    by (auto simp: names_open_def nth_append len less_Suc_eq split: if_splits)
  with assms(1,3) job_spends [OF assms(2) subset_refl, of j] show ?thesis
    unfolding spending_ok_def won by (auto simp: nth_append len less_Suc_eq)
qed

lemma spending_resume:
  assumes ok: "spending_ok d later (as, w) ps" and i: "i < length as" and t: "task_step (snd (as ! i)) w = (t', w')"
  shows "\<exists>ps'. spending_ok d later (as[i := (fst (as ! i), t')], w') ps'"
proof -
  let ?j = "fst (as ! i)"
  have len: "length ps = length as" using ok by (simp add: spending_ok_def)
  have "spends (refresh_presented d ?j) (\<lambda>p res. token_given (Some res) \<longrightarrow> refresh_presented d ?j \<noteq> None \<longrightarrow> snd p) (snd (as ! i)) (ps ! i)"
    using ok i len by (simp add: spending_ok_def)
  then show ?thesis
  proof (rule obeys_step [OF _ t])
    assume "t' = snd (as ! i)" "w' = w"
    then show ?thesis using ok by (auto simp: list_update_id)
  next
    fix p'
    assume step: "spend_step (refresh_presented d ?j) (ps ! i) w w' p'"
      and rest: "spends (refresh_presented d ?j) (\<lambda>p res. token_given (Some res) \<longrightarrow> refresh_presented d ?j \<noteq> None \<longrightarrow> snd p) t' p'"
    let ?m = "(as, w)" and ?m' = "(as[i := (?j, t')], w')" and ?ps' = "ps[i := p']"
    have jobs: "fst (fst ?m' ! k) = fst (as ! k)" for k by (cases "k = i") (use i in auto)
    have sub: "fst (?ps' ! k) \<subseteq> fst (ps ! k)" if "k < length as" for k
      using step that len i by (cases "k = i") (auto simp: spend_step_def)
    have opened: "names_open ?m' ?ps' later \<subseteq> names_open ?m ps later"
      using sub by (fastforce simp: names_open_def)
    have mine: "fst (ps ! i) \<subseteq> names_open ?m ps later" using i by (auto simp: names_open_def)
    have gone: "n \<notin> names_open ?m' ?ps' later" if "n \<in> fst (ps ! i) - fst p'" for n
    proof
      assume "n \<in> names_open ?m' ?ps' later"
      then consider "n \<in> later" | k where "k < length as" "n \<in> fst (?ps' ! k)" by (auto simp: names_open_def)
      then show False
      proof cases
        case 1
        then show ?thesis using ok that i len by (auto simp: spending_ok_def)
      next
        case 2
        show ?thesis
        proof (cases "k = i")
          case True
          then show ?thesis using 2 that i len by simp
        next
          case False
          then have "n \<in> fst (ps ! k)" using 2 sub by blast
          then show ?thesis using ok that i len 2 False unfolding spending_ok_def by fastforce
        qed
      qed
    qed
    have fresh: "\<not> won_over d ?m ps k n" "\<not> live_refresh w n" if "n \<in> names_open ?m ps later" for k n
      using ok that unfolding spending_ok_def by (metis snd_conv)+
    have alive: "live_refresh w n \<or> n \<in> fst (ps ! i) - fst p'" if "live_refresh w' n" for n
      using step that by (auto simp: spend_step_def)
    have won: "won_over d ?m ps k n \<or> k = i \<and> live_refresh w n \<and> \<not> live_refresh w' n" if "won_over d ?m' ?ps' k n" for k n
    proof (cases "k = i")
      case True
      then have "snd p'" "refresh_presented d ?j = Some n" using that i len by (auto simp: won_over_def)
      then show ?thesis using step True i by (auto simp: spend_step_def won_over_def)
    next
      case False
      then show ?thesis using that by (auto simp: won_over_def)
    qed
    have dead: "\<not> live_refresh w n" if "won_over d ?m ps k n" for k n
      using ok that unfolding spending_ok_def by (metis snd_conv)
    have "spending_ok d later ?m' ?ps'"
      unfolding spending_ok_def
    proof (intro conjI)
      show "length ?ps' = length (fst ?m')" by (simp add: len)
      show "dict_ok (o_refresh (snd ?m'))" using step ok by (simp add: spend_step_def spending_ok_def)
      show "\<forall>k<length ?ps'. spends (refresh_presented d (fst (fst ?m' ! k)))
          (\<lambda>p res. token_given (Some res) \<longrightarrow> refresh_presented d (fst (fst ?m' ! k)) \<noteq> None \<longrightarrow> snd p) (snd (fst ?m' ! k)) (?ps' ! k)"
      proof (intro allI impI)
        fix k
        assume "k < length ?ps'"
        then show "spends (refresh_presented d (fst (fst ?m' ! k)))
          (\<lambda>p res. token_given (Some res) \<longrightarrow> refresh_presented d (fst (fst ?m' ! k)) \<noteq> None \<longrightarrow> snd p) (snd (fst ?m' ! k)) (?ps' ! k)"
          unfolding jobs using rest ok i len by (cases "k = i") (simp_all add: spending_ok_def)
      qed
      show "\<forall>n. live_refresh (snd ?m') n \<longrightarrow> n \<notin> names_open ?m' ?ps' later"
      proof (intro allI impI)
        fix n
        assume "live_refresh (snd ?m') n"
        then consider "live_refresh w n" | "n \<in> fst (ps ! i) - fst p'" using alive by auto
        then show "n \<notin> names_open ?m' ?ps' later"
        proof cases
          case 1
          then show ?thesis using fresh(2) opened by blast
        next
          case 2
          then show ?thesis by (rule gone)
        qed
      qed
      show "\<forall>k n. won_over d ?m' ?ps' k n \<longrightarrow> \<not> live_refresh (snd ?m') n \<and> n \<notin> names_open ?m' ?ps' later"
      proof (intro allI impI)
        fix k n
        assume "won_over d ?m' ?ps' k n"
        then consider "won_over d ?m ps k n" | "live_refresh w n" "\<not> live_refresh w' n" using won by blast
        then show "\<not> live_refresh (snd ?m') n \<and> n \<notin> names_open ?m' ?ps' later"
        proof cases
          case 1
          then have "n \<notin> names_open ?m ps later" using fresh(1) by blast
          then show ?thesis using dead [OF 1] alive [of n] mine opened by auto
        next
          case 2
          then have "n \<notin> names_open ?m ps later" using fresh(2) by blast
          then show ?thesis using 2 opened by auto
        qed
      qed
      show "\<forall>k l n. won_over d ?m' ?ps' k n \<longrightarrow> won_over d ?m' ?ps' l n \<longrightarrow> k = l"
      proof (intro allI impI)
        fix k l n
        assume "won_over d ?m' ?ps' k n" "won_over d ?m' ?ps' l n"
        then consider "won_over d ?m ps k n" "won_over d ?m ps l n" | "won_over d ?m ps k n" "live_refresh w n"
          | "won_over d ?m ps l n" "live_refresh w n" | "k = l" using won by metis
        then show "k = l"
        proof cases
          case 1
          then show ?thesis using ok unfolding spending_ok_def by blast
        qed (use dead in blast)+
      qed
      show "\<forall>k<length ?ps'. fst (?ps' ! k) \<inter> later = {} \<and> (\<forall>l<length ?ps'. k \<noteq> l \<longrightarrow> fst (?ps' ! k) \<inter> fst (?ps' ! l) = {})"
      proof -
        have apart: "fst (ps ! k) \<inter> later = {}" "\<And>l. l < length ps \<Longrightarrow> k \<noteq> l \<Longrightarrow> fst (ps ! k) \<inter> fst (ps ! l) = {}" if "k < length ps" for k
          using ok that unfolding spending_ok_def by blast+
        show ?thesis
        proof (intro allI impI conjI)
          fix k
          assume k: "k < length ?ps'"
          show "fst (?ps' ! k) \<inter> later = {}" using apart(1) [of k] sub [of k] k len by auto
          fix l
          assume "l < length ?ps'" "k \<noteq> l"
          then show "fst (?ps' ! k) \<inter> fst (?ps' ! l) = {}" using apart(2) [of k l] sub [of k] sub [of l] k len by auto
        qed
      qed
    qed
    then show ?thesis by blast
  qed simp
qed

lemma dict_ok_filter: "dict_ok d \<Longrightarrow> dict_ok (filter P d)"
  by (simp add: dict_ok_def distinct_map_filter)

lemma map_of_filter_ok: "dict_ok d \<Longrightarrow> map_of (filter P d) k = Some x \<Longrightarrow> map_of d k = Some x"
  by (simp add: dict_ok_def distinct_map_filter)

lemma sweep_calm: "dict_ok (o_refresh w) \<Longrightarrow> no_new_refresh w (sweep_tokens w)"
  by (auto simp: no_new_refresh_def live_refresh_def sweep_tokens_def device_clear_expired_def code_clear_expired_def
      refresh_clear_expired_def access_clear_expired_def dict_ok_filter split: option.splits dest: map_of_filter_ok)

lemma spending_does:
  assumes "spending_ok d (later_names RefreshKind (mv # moves)) m ps" "rotates d" "names_differ RefreshKind (mv # moves)"
  shows "\<exists>ps'. spending_ok d (later_names RefreshKind moves) (oauth_does d mv m) ps'"
proof -
  obtain as w where m: "m = (as, w)" by fastforce
  have dict: "dict_ok (o_refresh w)" using assms(1) by (simp add: spending_ok_def m)
  show ?thesis
  proof (cases mv)
    case (Arrive j)
    then show ?thesis using assms spending_arrive [of d j "later_names RefreshKind moves" as w ps]
      by (auto simp: m later_names_Cons names_differ_Cons)
  next
    case (Resume i)
    show ?thesis
    proof (cases "i < length as")
      case True
      obtain t' w' where t: "task_step (snd (as ! i)) w = (t', w')" by fastforce
      from spending_resume [OF _ True t, of d "later_names RefreshKind moves" ps] assms(1)
      show ?thesis by (simp add: m Resume True t later_names_Cons)
    qed (use assms(1) in \<open>auto simp: m Resume later_names_Cons\<close>)
  next
    case (Elapse n)
    have "spending_ok d (later_names RefreshKind moves) (as, w\<lparr>o_now := o_now w + int n\<rparr>) ps"
      by (rule spending_calm [of _ _ as w]) (use assms(1) in \<open>auto simp: m Elapse later_names_Cons intro: no_new_refresh_cong\<close>)
    then show ?thesis by (auto simp: m Elapse)
  next
    case SweepTokens
    have "spending_ok d (later_names RefreshKind moves) (as, sweep_tokens w) ps"
      by (rule spending_calm [of _ _ as w, OF _ sweep_calm [OF dict]]) (use assms(1) in \<open>simp add: m SweepTokens later_names_Cons\<close>)
    then show ?thesis by (auto simp: m SweepTokens)
  next
    case (RegisterClient c)
    have "spending_ok d (later_names RefreshKind moves) (as, client_save c w) ps"
      by (rule spending_calm [of _ _ as w]) (use assms(1) in \<open>auto simp: m RegisterClient later_names_Cons client_save_def intro: no_new_refresh_cong\<close>)
    then show ?thesis by (auto simp: m RegisterClient)
  next
    case (RemoveClient i)
    have "spending_ok d (later_names RefreshKind moves) (as, client_remove i w) ps"
      by (rule spending_calm [of _ _ as w]) (use assms(1) in \<open>auto simp: m RemoveClient later_names_Cons client_remove_def intro: no_new_refresh_cong\<close>)
    then show ?thesis by (auto simp: m RemoveClient)
  qed
qed

lemma spending_runs:
  assumes "spending_ok d (later_names RefreshKind moves) m ps" "rotates d" "names_differ RefreshKind moves"
  shows "\<exists>ps'. spending_ok d {} (oauth_runs d moves m) ps'"
  using assms
proof (induction moves arbitrary: m ps)
  case Nil
  then show ?case by (auto simp: oauth_runs_def later_names_def arriving_def map_filter_simps)
next
  case (Cons mv moves)
  from spending_does [OF Cons.prems] obtain ps' where "spending_ok d (later_names RefreshKind moves) (oauth_does d mv m) ps'" by blast
  from Cons.IH [OF this Cons.prems(2)] Cons.prems(3) show ?case by (simp add: oauth_runs_def names_differ_Cons)
qed

lemma distinct_map_filterI:
  assumes "\<And>i j x. i < j \<Longrightarrow> j < length xs \<Longrightarrow> f (xs ! i) = Some x \<Longrightarrow> f (xs ! j) = Some x \<Longrightarrow> False"
  shows "distinct (List.map_filter f xs)"
  using assms
proof (induction xs)
  case Nil
  then show ?case by (simp add: map_filter_simps)
next
  case (Cons a xs)
  have "distinct (List.map_filter f xs)"
    by (rule Cons.IH) (metis Cons.prems Suc_less_eq length_Cons nth_Cons_Suc)
  moreover have "y \<notin> set (List.map_filter f xs)" if "f a = Some y" for y
  proof
    assume "y \<in> set (List.map_filter f xs)"
    then obtain j where "j < length xs" "f (xs ! j) = Some y" by (auto simp: map_filter_def in_set_conv_nth)
    then show False using Cons.prems [of 0 "Suc j" y] that by simp
  qed
  ultimately show ?case by (auto simp: map_filter_simps split: option.splits)
qed

text \<open>The refresh tokens the requests that were answered with tokens presented, in order of arrival.\<close>

definition refresh_tokens_spent :: "oauth_deployment \<Rightarrow> oauth_machine \<Rightarrow> string list" where
  "refresh_tokens_spent d m = List.map_filter (\<lambda>(j, t). if token_given (result_of t) then refresh_presented d j else None) (fst m)"

text \<open>
  C2: A refresh token is spent once. However the requests a server is answering are interleaved, and
  whatever the clients, the sweeps and the time do in between, no two requests are answered with tokens for
  presenting the same refresh token, as long as redeemed refresh tokens are withdrawn and no two identifiers
  drawn are the same.
\<close>

theorem refresh_token_spent_once:
  assumes "rotates d" "names_differ RefreshKind moves"
  shows "distinct (refresh_tokens_spent d (oauth_runs d moves (oauth_fresh clients scopes now)))"
proof -
  let ?m = "oauth_runs d moves (oauth_fresh clients scopes now)"
  have "spending_ok d (later_names RefreshKind moves) (oauth_fresh clients scopes now) []"
    by (simp add: spending_ok_def oauth_fresh_def live_refresh_def won_over_def)
  from spending_runs [OF this assms] obtain ps where ps: "spending_ok d {} ?m ps" by blast
  have won: "won_over d ?m ps i n"
    if "i < length (fst ?m)" "token_given (result_of (snd (fst ?m ! i)))" "refresh_presented d (fst (fst ?m ! i)) = Some n" for i n
  proof -
    note given = that
    obtain r where r: "result_of (snd (fst ?m ! i)) = Some r" using given(2) by (cases "result_of (snd (fst ?m ! i))") auto
    have "spends (refresh_presented d (fst (fst ?m ! i)))
        (\<lambda>p res. token_given (Some res) \<longrightarrow> refresh_presented d (fst (fst ?m ! i)) \<noteq> None \<longrightarrow> snd p) (snd (fst ?m ! i)) (ps ! i)"
      using ps given(1) by (simp add: spending_ok_def)
    from obeys_result [OF this r] given show ?thesis by (simp add: won_over_def r)
  qed
  show ?thesis unfolding refresh_tokens_spent_def
  proof (rule distinct_map_filterI)
    fix i j n
    assume "i < j" "j < length (fst ?m)"
      "(case fst ?m ! i of (j, t) \<Rightarrow> if token_given (result_of t) then refresh_presented d j else None) = Some n"
      "(case fst ?m ! j of (j, t) \<Rightarrow> if token_given (result_of t) then refresh_presented d j else None) = Some n"
    then have "won_over d ?m ps i n" "won_over d ?m ps j n" using won by (auto split: prod.splits if_splits)
    then have "i = j" using ps unfolding spending_ok_def by blast
    with \<open>i < j\<close> show False by simp
  qed
qed

end
