(* ===== verification/Oauth_Codes.thy ===== *)
theory Oauth_Codes
  imports Oauth_Spent
begin

text \<open>
  Authorization codes: one at a time, a code is redeemed once; a request for tokens only gets through with
  a code that names its client, its redirect URI and a proof key the verifier answers; and two requests for
  the same code answered at the same time can both get through.
\<close>

definition live_code :: "oauth \<Rightarrow> string \<Rightarrow> bool" where
  "live_code w i \<longleftrightarrow> (case map_of (o_codes w) i of None \<Rightarrow> False | Some t \<Rightarrow> \<not> st_revoked t)"

definition keeps_codes :: "oauth \<Rightarrow> oauth \<Rightarrow> bool" where
  "keeps_codes w w' \<longleftrightarrow> o_codes w' = o_codes w"

definition new_codes_in :: "string set \<Rightarrow> oauth \<Rightarrow> oauth \<Rightarrow> bool" where
  "new_codes_in names w w' \<longleftrightarrow> (dict_ok (o_codes w) \<longrightarrow> dict_ok (o_codes w'))
    \<and> (\<forall>i. live_code w' i \<longrightarrow> live_code w i \<or> i \<in> names)"

lemma new_codes_cong: "o_codes w' = o_codes w \<Longrightarrow> new_codes_in names w w'"
  by (simp add: new_codes_in_def live_code_def)

interpretation kc: refresh_steps keeps_codes UNIV UNIV
  by unfold_locales (simp_all add: keeps_codes_def)

interpretation cc: all_steps "new_codes_in names" UNIV UNIV names
  by unfold_locales (auto intro: new_codes_cong simp: new_codes_in_def live_code_def)

lemma codes_kept: "does_only keeps_codes t \<Longrightarrow> finish t w = (r, w') \<Longrightarrow> o_codes w' = o_codes w"
  using only_finish [of keeps_codes t w] by (auto simp: keeps_codes_def)

lemma job_codes: "new_codes_in (set (job_names CodeKind j)) w (snd (finish (job_task d j) w))"
  by (rule only_finish [OF cc.only_job]) (auto simp: new_codes_in_def)

section \<open>What a request for tokens must present\<close>

text \<open>
  The code opens into a payload that names the client, is not expired, was issued for the redirect URI the
  request names, and whose challenge the verifier answers; a verifier without a challenge is refused.
\<close>

definition code_matches :: "oauth_env \<Rightarrow> oauth_request \<Rightarrow> payload \<Rightarrow> string \<Rightarrow> bool" where
  "code_matches v rq p client \<longleftrightarrow> payload_text p ''client_id'' = Some client
    \<and> (case get_request_parameter ''redirect_uri'' rq None of
        Inl e \<Rightarrow> False
      | Inr named \<Rightarrow> named = payload_text p ''redirect_uri'')
    \<and> (case get_request_parameter ''code_verifier'' rq None of
        Inl e \<Rightarrow> False
      | Inr verifier \<Rightarrow> (case payload_text p ''code_challenge'' of
          None \<Rightarrow> verifier = None
        | Some challenge \<Rightarrow> (case (verifier, payload_text p ''code_challenge_method'') of
            (Some s, Some how) \<Rightarrow> proof_key_ok s
              \<and> (how = ''S256'' \<and> v_s256 v s = challenge \<or> how = ''plain'' \<and> s = challenge)
          | _ \<Rightarrow> False)))"

lemma returns_validated_code:
  "returns (\<lambda>i. payload_text p ''auth_code_id'' = Some i \<and> payload_text p ''client_id'' = Some (ce_identifier c)
    \<and> get_request_parameter ''redirect_uri'' rq None = Inr (payload_text p ''redirect_uri''))
    (validate_authorization_code p c rq)"
  unfolding validate_authorization_code_def
  by (auto intro!: returns_after simp: Let_def split: option.split sum.split)

lemma code_challenge_checked:
  "validate_code_challenge v p verifier = Inr () \<Longrightarrow> (case payload_text p ''code_challenge'' of
      None \<Rightarrow> verifier = None
    | Some challenge \<Rightarrow> (case (verifier, payload_text p ''code_challenge_method'') of
        (Some s, Some how) \<Rightarrow> proof_key_ok s \<and> (how = ''S256'' \<and> v_s256 v s = challenge \<or> how = ''plain'' \<and> s = challenge)
      | _ \<Rightarrow> False))"
  by (auto simp: validate_code_challenge_def challenge_verifier_def split: option.splits if_splits)

lemma returns_issued:
  "returns (\<lambda>t. at_client t = c \<and> at_user t = (if user = Some '''' then None else user) \<and> set (at_scopes t) = set scopes)
    (issue_access_token v rq ttl c user scopes)"
proof -
  have "returns (\<lambda>t. at_client t = c \<and> at_user t = (if user = Some '''' then None else user) \<and> set (at_scopes t) = set scopes)
      (get_new_token v c scopes user)"
    unfolding get_new_token_def by (auto intro!: returns_after)
  then show ?thesis unfolding issue_access_token_def Let_def
    by (rule returns_seq) (auto intro!: returns_after)
qed

lemma returns_issued_pair:
  "returns (\<lambda>x. at_client (fst x) = c \<and> at_user (fst x) = (if user = Some '''' then None else user)
      \<and> set (at_scopes (fst x)) = set scopes \<and> (case snd x of None \<Rightarrow> True | Some r \<Rightarrow> rt_access_token r = fst x))
    (issue_tokens v rq g c user scopes)"
proof -
  have refresh: "returns (\<lambda>r. case r of None \<Rightarrow> True | Some r \<Rightarrow> rt_access_token r = t) (issue_refresh_token rq g t)" for t
    unfolding issue_refresh_token_def Let_def by (auto intro!: returns_after)
  show ?thesis unfolding issue_tokens_def
    by (rule returns_seq [OF returns_issued], rule returns_after, rule returns_seq [OF refresh])
      (auto intro!: returns_after split: option.split)
qed

text \<open>What the tokens a code request is answered with rest on.\<close>

definition rests_on_code :: "oauth_env \<Rightarrow> oauth_request \<Rightarrow> client_entity \<Rightarrow> string option \<Rightarrow> bool" where
  "rests_on_code v rq client user \<longleftrightarrow> (case get_request_parameter ''code'' rq None of
      Inr (Some s) \<Rightarrow> (case v_unseal v s of
          None \<Rightarrow> False
        | Some p \<Rightarrow> code_matches v rq p (ce_identifier client)
            \<and> user = (if payload_text p ''user_id'' = Some '''' then None else payload_text p ''user_id''))
    | _ \<Rightarrow> False)"

lemma returns_code: "returns (\<lambda>x. rests_on_code v rq (at_client (fst x)) (at_user (fst x))) (respond_code v g rq)"
  unfolding respond_code_def
proof (rule returns_after, unfold returns_seq_settled)
  fix c
  let ?P = "\<lambda>x :: issued. rests_on_code v rq (at_client (fst x)) (at_user (fst x))"
  have code: "returns ?P (seq (validate_authorization_code p c rq) (\<lambda>i.
        seq (known_scopes None (payload_names p ''scopes'')) (\<lambda>scopes.
        seq (finalize_scopes v scopes ''authorization_code'' c (payload_text p ''user_id'')) (\<lambda>granted.
        seq (settled (get_request_parameter ''code_verifier'' rq None)) (\<lambda>verifier.
        seq (settled (validate_code_challenge v p verifier)) (\<lambda>_.
        seq (issue_tokens v rq g c (payload_text p ''user_id'') granted) (\<lambda>tokens.
        seq (revoke_auth_code i) (\<lambda>_. answer tokens))))))))"
    if s: "get_request_parameter ''code'' rq None = Inr (Some s)" "v_unseal v s = Some p" for s p
  proof (rule returns_seq [OF returns_validated_code], rule returns_after, rule returns_after, unfold returns_seq_settled)
    fix i scopes granted
    assume i: "payload_text p ''auth_code_id'' = Some i \<and> payload_text p ''client_id'' = Some (ce_identifier c)
      \<and> get_request_parameter ''redirect_uri'' rq None = Inr (payload_text p ''redirect_uri'')"
    have "returns ?P (seq (issue_tokens v rq g c (payload_text p ''user_id'') granted) (\<lambda>tokens.
          seq (revoke_auth_code i) (\<lambda>_. answer tokens)))"
      if r: "get_request_parameter ''code_verifier'' rq None = Inr verifier" "validate_code_challenge v p verifier = Inr ()" for verifier
    proof -
      have matched: "code_matches v rq p (ce_identifier c)"
        using i code_challenge_checked [OF r(2)] r(1) by (simp add: code_matches_def)
      show ?thesis
      proof (rule returns_seq [OF returns_issued_pair], rule returns_after)
        fix x :: issued and u
        assume "at_client (fst x) = c \<and> at_user (fst x) = (if payload_text p ''user_id'' = Some '''' then None else payload_text p ''user_id'')
          \<and> set (at_scopes (fst x)) = set granted \<and> (case snd x of None \<Rightarrow> True | Some r \<Rightarrow> rt_access_token r = fst x)"
        then show "returns ?P (answer x)" using matched by (simp add: rests_on_code_def s)
      qed
    qed
    then show "case get_request_parameter ''code_verifier'' rq None of Inl e \<Rightarrow> True
      | Inr verifier \<Rightarrow> (case validate_code_challenge v p verifier of Inl e \<Rightarrow> True
        | Inr u \<Rightarrow> returns ?P (seq (issue_tokens v rq g c (payload_text p ''user_id'') granted) (\<lambda>tokens.
            seq (revoke_auth_code i) (\<lambda>_. answer tokens))))"
      by (simp split: sum.split)
  qed
  show "case get_request_parameter ''code'' rq None of Inl e \<Rightarrow> True
      | Inr sealed \<Rightarrow> returns ?P (case (case sealed of None \<Rightarrow> None | Some s \<Rightarrow> v_unseal v s) of
          None \<Rightarrow> refuse (InvalidRequest ''code'')
        | Some p \<Rightarrow> seq (validate_authorization_code p c rq) (\<lambda>i.
            seq (known_scopes None (payload_names p ''scopes'')) (\<lambda>scopes.
            seq (finalize_scopes v scopes ''authorization_code'' c (payload_text p ''user_id'')) (\<lambda>granted.
            seq (settled (get_request_parameter ''code_verifier'' rq None)) (\<lambda>verifier.
            seq (settled (validate_code_challenge v p verifier)) (\<lambda>_.
            seq (issue_tokens v rq g c (payload_text p ''user_id'') granted) (\<lambda>tokens.
            seq (revoke_auth_code i) (\<lambda>_. answer tokens))))))))"
  proof (cases "get_request_parameter ''code'' rq None")
    case (Inr sealed)
    show ?thesis
    proof (cases "case sealed of None \<Rightarrow> None | Some s \<Rightarrow> v_unseal v s")
      case (Some p)
      then obtain s where "sealed = Some s" "v_unseal v s = Some p" by (auto split: option.splits)
      then show ?thesis using code [of s p] Inr by (simp only: sum.case option.case)
    qed (simp add: Inr)
  qed simp
qed

section \<open>Whatever the interleaving\<close>

text \<open>What every task of a job may only end with is what the job is answered.\<close>

lemma answers_yielded:
  assumes "\<And>j. yields (F j) (job_task d j)" "(j, r) \<in> set (oauth_answers (oauth_runs d moves (oauth_fresh clients scopes now)))"
  shows "F j r"
proof -
  let ?ok = "\<lambda>m :: oauth_machine. \<forall>(j, t)\<in>set (fst m). yields (F j) t"
  have task: "yields (F j) (job_task d j)" for j by (rule assms(1))
  have step: "?ok (oauth_does d mv (as, w))" if ok: "\<forall>(j, t)\<in>set as. yields (F j) t" for mv as w
  proof (cases mv)
    case (Resume i)
    show ?thesis
    proof (cases "i < length as")
      case True
      obtain t w' where t: "task_step (snd (as ! i)) w = (t, w')" by fastforce
      have "yields (F (fst (as ! i))) (snd (as ! i))" using ok nth_mem [OF True] by (simp add: case_prod_unfold)
      from yields_step [OF this, of w] have "yields (F (fst (as ! i))) t" by (simp add: t)
      then have "\<forall>x\<in>insert (fst (as ! i), t) (set as). yields (F (fst x)) (snd x)" using ok by (simp add: case_prod_unfold)
      then have "\<forall>x\<in>set (as[i := (fst (as ! i), t)]). yields (F (fst x)) (snd x)" by (meson set_update_subset_insert subsetD)
      then show ?thesis using True by (simp add: Resume t case_prod_unfold)
    qed (use ok in \<open>simp add: Resume\<close>)
  next
    case (Arrive j)
    show ?thesis using ok by (simp only: Arrive oauth_does.simps fst_conv set_append list.set ball_Un) (simp add: task)
  qed (use ok in simp_all)
  have "?ok (oauth_runs d moves (as, w))" if "\<forall>(j, t)\<in>set as. yields (F j) t" for as w
    using that
  proof (induction moves arbitrary: as w)
    case (Cons mv moves)
    obtain as' w' where m: "oauth_does d mv (as, w) = (as', w')" by fastforce
    with step [OF Cons.prems, of mv w] Cons.IH [of as' w'] show ?case by (simp add: oauth_runs_def)
  qed (simp add: oauth_runs_def)
  from this [of "[]"] have "?ok (oauth_runs d moves (oauth_fresh clients scopes now))" by (simp add: oauth_fresh_def)
  then show ?thesis using assms(2) by (fastforce simp: oauth_answers_def map_filter_def dest: yields_result)
qed

definition signs_for :: "oauth_env \<Rightarrow> grant_setup \<Rightarrow> access_token \<Rightarrow> string \<Rightarrow> bool" where
  "signs_for v g t signed \<longleftrightarrow> (\<exists>instant.
    v_sign v [(''typ'', JText ''at+jwt''), (''kid'', JText (gs_key_id g))] (token_claims g t instant) = Some signed)"

lemma returns_bearer: "returns (\<lambda>a. signs_for v g (fst x) (ta_access_token a)) (bearer_answer v rq g x)"
proof -
  have "returns (signs_for v g t) (to_signed_string v g t)" for t
    unfolding to_signed_string_def by (auto intro!: returns_after simp: signs_for_def split: option.split)
  then have "returns (\<lambda>a. signs_for v g t (ta_access_token a)) (seq (to_signed_string v g t) (\<lambda>signed. answer (f signed)))"
    if "\<And>signed. ta_access_token (f signed) = signed" for t f
    by (rule returns_seq) (simp add: that)
  then have signed: "returns (\<lambda>a. signs_for v g t (ta_access_token a)) (bearer_answer v rq g (t, refresh))" for t refresh
    unfolding bearer_answer_def prod.case by (rule returns_after, simp)
  show ?thesis by (cases x) (simp only: fst_conv signed)
qed

text \<open>
  C4: Whatever other requests run in between, a request the authorization code grant answers with tokens
  presented a code that opens, that names the client the signed token is for and the redirect URI the
  request names, and whose proof key the verifier answers (a code without one admits no verifier); the token
  acts for the user the code names.
\<close>

theorem code_tokens_rest_on_code:
  assumes "(TokenRequest rq, Inr (TokenGiven a)) \<in> set (oauth_answers (oauth_runs d moves (oauth_fresh clients scopes now)))"
    "chosen_grant (od_server d) rq = Some (AuthCodeGrant, g)"
  shows "\<exists>t. signs_for (od_env d) g t (ta_access_token a) \<and> rests_on_code (od_env d) rq (at_client t) (at_user t)"
proof -
  let ?F = "\<lambda>j r. \<forall>rq g a. j = TokenRequest rq \<longrightarrow> chosen_grant (od_server d) rq = Some (AuthCodeGrant, g) \<longrightarrow> r = Inr (TokenGiven a) \<longrightarrow>
    (\<exists>t. signs_for (od_env d) g t (ta_access_token a) \<and> rests_on_code (od_env d) rq (at_client t) (at_user t))"
  have code: "returns (\<lambda>a. \<exists>t. signs_for (od_env d) g t (ta_access_token a) \<and> rests_on_code (od_env d) rq (at_client t) (at_user t))
      (respond_to_access_token_request (od_env d) (od_server d) rq)"
    if "chosen_grant (od_server d) rq = Some (AuthCodeGrant, g)" for rq g
    using that by (auto simp: respond_to_access_token_request_def chosen_grant_def seq_settled split: sum.split
        intro!: returns_seq [OF returns_code] intro: returns_mono [OF returns_bearer])
  have "yields (?F j) (job_task d j)" for j
  proof (cases "\<exists>rq g. j = TokenRequest rq \<and> chosen_grant (od_server d) rq = Some (AuthCodeGrant, g)")
    case True
    then obtain rq g where j: "j = TokenRequest rq" "chosen_grant (od_server d) rq = Some (AuthCodeGrant, g)" by blast
    have "returns (\<lambda>r. \<forall>a. r = TokenGiven a \<longrightarrow> (\<exists>t. signs_for (od_env d) g t (ta_access_token a)
        \<and> rests_on_code (od_env d) rq (at_client t) (at_user t))) (job_task d j)"
      unfolding j(1) job_task.simps by (rule returns_seq [OF code [OF j(2)]]) simp
    then show ?thesis unfolding returns_def by (rule yields_mono) (use j in \<open>auto split: sum.splits\<close>)
  next
    case False
    then show ?thesis by (intro yields_mono [OF yields_any]) auto
  qed
  from answers_yielded [of ?F, OF this assms(1)] assms(2) show ?thesis by blast
qed

section \<open>One request at a time\<close>

text \<open>A server that answers each request before it takes the next; the other moves as before.\<close>

type_synonym oauth_record = "(oauth_job \<times> (oauth_error + oauth_result)) list \<times> oauth"

fun oauth_serves :: "oauth_deployment \<Rightarrow> oauth_move \<Rightarrow> oauth_record \<Rightarrow> oauth_record" where
  "oauth_serves d (Arrive j) (past, w) = (case finish (job_task d j) w of (r, w') \<Rightarrow> (past @ [(j, r)], w'))"
| "oauth_serves d mv (past, w) = (past, snd (oauth_does d mv ([], w)))"

definition code_presented :: "oauth_deployment \<Rightarrow> oauth_job \<Rightarrow> string option" where
  "code_presented d j = (case j of
      TokenRequest rq \<Rightarrow> (case chosen_grant (od_server d) rq of
          Some (AuthCodeGrant, g) \<Rightarrow> presented (od_env d) ''code'' ''auth_code_id'' rq
        | _ \<Rightarrow> None)
    | _ \<Rightarrow> None)"

definition codes_redeemed :: "oauth_deployment \<Rightarrow> oauth_record \<Rightarrow> string list" where
  "codes_redeemed d = (\<lambda>(past, w). List.map_filter (\<lambda>(j, r). if token_given (Some r) then code_presented d j else None) past)"

lemma finish_seqE:
  assumes "finish (seq t f) w = (Inr y, w')"
  obtains x w1 where "finish t w = (Inr x, w1)" "finish (f x) w1 = (Inr y, w')"
  using assms by (auto simp: finish_seq split: prod.splits sum.splits)

lemma revoked_code_dead:
  assumes "finish (revoke_auth_code i) w = (r, w')"
  shows "\<not> live_code w' i"
  using assms by (auto simp: revoke_auth_code_def finish_seq code_find_def code_save_def live_code_def split: option.splits)

lemma validated_code_live:
  assumes "finish (validate_authorization_code p c rq) w = (Inr i, w')"
  shows "payload_text p ''auth_code_id'' = Some i \<and> live_code w i"
proof -
  have revoked: "finish (is_auth_code_revoked j) w1 = (Inr (\<not> live_code w1 j), w1)" for j w1
    by (auto simp: is_auth_code_revoked_def finish_seq code_find_def live_code_def split: option.splits)
  have "returns (\<lambda>i. payload_text p ''auth_code_id'' = Some i) (validate_authorization_code p c rq)"
    by (rule returns_mono [OF returns_validated_code]) simp
  from returns_finish [OF this assms] have i: "payload_text p ''auth_code_id'' = Some i" .
  with assms have "live_code w i"
    by (auto simp: validate_authorization_code_def finish_seq read_now_def revoked split: if_splits)
  with i show ?thesis by simp
qed

lemma redeemed_code_dies:
  assumes "finish (respond_code v g rq) w = (Inr x, w')"
  shows "\<exists>i. presented v ''code'' ''auth_code_id'' rq = Some i \<and> live_code w i \<and> \<not> live_code w' i"
proof (rule finish_seqE [OF assms [unfolded respond_code_def]], erule finish_seqE)
  fix c sealed w1 w2
  let ?redeem = "\<lambda>p. seq (validate_authorization_code p c rq) (\<lambda>i.
          seq (known_scopes None (payload_names p ''scopes'')) (\<lambda>scopes.
          seq (finalize_scopes v scopes ''authorization_code'' c (payload_text p ''user_id'')) (\<lambda>granted.
          seq (settled (get_request_parameter ''code_verifier'' rq None)) (\<lambda>verifier.
          seq (settled (validate_code_challenge v p verifier)) (\<lambda>_.
          seq (issue_tokens v rq g c (payload_text p ''user_id'') granted) (\<lambda>tokens.
          seq (revoke_auth_code i) (\<lambda>_. answer tokens)))))))"
  assume c: "finish (validate_client v (Some ''authorization_code'') rq) w = (Inr c, w1)"
    and sealed: "finish (settled (get_request_parameter ''code'' rq None)) w1 = (Inr sealed, w2)"
    and rest: "finish (case (case sealed of None \<Rightarrow> None | Some s \<Rightarrow> v_unseal v s) of
        None \<Rightarrow> refuse (InvalidRequest ''code'') | Some p \<Rightarrow> ?redeem p) w2 = (Inr x, w')"
  have calm: "live_code w1 = live_code w"
    using codes_kept [OF kc.only_client c] by (simp add: live_code_def fun_eq_iff)
  from sealed have same: "w2 = w1" "get_request_parameter ''code'' rq None = Inr sealed" by simp_all
  show ?thesis
  proof (cases "case sealed of None \<Rightarrow> None | Some s \<Rightarrow> v_unseal v s")
    case None
    from rest [unfolded None] show ?thesis by simp
  next
    case (Some p)
    then obtain s where s: "sealed = Some s" "v_unseal v s = Some p" by (cases sealed) auto
    from rest [unfolded Some] have "finish (?redeem p) w2 = (Inr x, w')" by simp
    then obtain i w3 w4 u where i: "finish (validate_authorization_code p c rq) w2 = (Inr i, w3)"
      and revoked: "finish (revoke_auth_code i) w4 = (Inr u, w')"
      by (elim finish_seqE) (metis finish_answer prod.inject)
    from revoked have "\<not> live_code w' i" by (rule revoked_code_dead)
    with validated_code_live [OF i] calm same s show ?thesis by (simp add: presented_def)
  qed
qed

lemma answered_code_dies:
  assumes "finish (job_task d j) w = (r, w')" "token_given (Some r)" "code_presented d j = Some i"
  shows "live_code w i \<and> \<not> live_code w' i"
proof -
  obtain rq g where j: "j = TokenRequest rq" and g: "chosen_grant (od_server d) rq = Some (AuthCodeGrant, g)"
    and i: "presented (od_env d) ''code'' ''auth_code_id'' rq = Some i"
    using assms(3) by (auto simp: code_presented_def split: oauth_job.splits option.splits grant_type.splits)
  obtain y where y: "r = Inr y" using assms(2) by (cases r) auto
  have "respond_to_access_token_request (od_env d) (od_server d) rq =
      seq (settled (refuse_if_repeated ''grant_type'' (parsed_body rq))) (\<lambda>_.
        seq (respond_with AuthCodeGrant (od_env d) g rq) (bearer_answer (od_env d) rq g))"
    using g by (simp add: respond_to_access_token_request_def chosen_grant_def)
  with assms(1) obtain x w1 a where x: "finish (respond_code (od_env d) g rq) w = (Inr x, w1)"
    and a: "finish (bearer_answer (od_env d) rq g x) w1 = (Inr a, w')"
    by (auto simp: j y seq_settled split: sum.splits elim!: finish_seqE)
  have "live_code w' = live_code w1" using codes_kept [OF kc.only_signed(2) a] by (simp add: live_code_def fun_eq_iff)
  with redeemed_code_dies [OF x] i show ?thesis by auto
qed

definition codes_in_order :: "oauth_deployment \<Rightarrow> string set \<Rightarrow> oauth_record \<Rightarrow> bool" where
  "codes_in_order d later st \<longleftrightarrow> dict_ok (o_codes (snd st)) \<and> (\<forall>i. live_code (snd st) i \<longrightarrow> i \<notin> later)
    \<and> (\<forall>i\<in>set (codes_redeemed d st). \<not> live_code (snd st) i \<and> i \<notin> later) \<and> distinct (codes_redeemed d st)"

lemma codes_redeemed_append:
  "codes_redeemed d (past @ [(j, r)], w) = codes_redeemed d (past, w') @
    (case (if token_given (Some r) then code_presented d j else None) of None \<Rightarrow> [] | Some i \<Rightarrow> [i])"
  by (simp add: codes_redeemed_def map_filter_def split: option.splits)

lemma codes_calm:
  assumes "codes_in_order d later (past, w)" "dict_ok (o_codes w) \<Longrightarrow> dict_ok (o_codes w')" "\<And>i. live_code w' i \<Longrightarrow> dict_ok (o_codes w) \<Longrightarrow> live_code w i"
  shows "codes_in_order d later (past, w')"
  using assms by (auto simp: codes_in_order_def codes_redeemed_def)

lemma codes_serve:
  assumes "codes_in_order d (later_names CodeKind (mv # moves)) st" "names_differ CodeKind (mv # moves)"
  shows "codes_in_order d (later_names CodeKind moves) (oauth_serves d mv st)"
proof -
  obtain past w where st: "st = (past, w)" by fastforce
  show ?thesis
  proof (cases mv)
    case (Arrive j)
    obtain r w' where f: "finish (job_task d j) w = (r, w')" by fastforce
    have new: "new_codes_in (set (job_names CodeKind j)) w w'" using job_codes [of j w d] by (simp add: f)
    have apart: "set (job_names CodeKind j) \<inter> later_names CodeKind moves = {}"
      using assms(2) by (simp add: names_differ_Cons Arrive)
    have ok: "codes_in_order d (set (job_names CodeKind j) \<union> later_names CodeKind moves) (past, w)"
      using assms(1) by (simp add: st Arrive later_names_Cons)
    let ?new = "if token_given (Some r) then code_presented d j else None"
    have dies: "live_code w i \<and> \<not> live_code w' i" if "?new = Some i" for i
      using answered_code_dies [OF f] that by (simp split: if_splits)
    have old: "\<not> live_code w' i" if "\<not> live_code w i" "i \<notin> set (job_names CodeKind j)" for i
      using new that by (auto simp: new_codes_in_def)
    show ?thesis
      using ok new apart dies old
      unfolding st Arrive oauth_serves.simps f prod.case codes_in_order_def snd_conv codes_redeemed_append [where w' = w]
      by (cases ?new) (auto simp: new_codes_in_def)
  next
    case SweepTokens
    have "codes_in_order d (later_names CodeKind moves) (past, sweep_tokens w)"
      by (rule codes_calm [where w = w]) (use assms(1) in \<open>auto simp: st SweepTokens later_names_Cons sweep_tokens_def
        device_clear_expired_def code_clear_expired_def refresh_clear_expired_def access_clear_expired_def live_code_def
        dict_ok_filter split: option.splits dest: map_of_filter_ok\<close>)
    then show ?thesis by (simp add: st SweepTokens)
  qed (use assms(1) in \<open>auto simp: st later_names_Cons client_save_def client_remove_def live_code_def
      elim!: codes_calm split: option.splits\<close>)
qed

text \<open>
  C10: A server that answers one request at a time redeems a code once: no two of its answers with tokens
  were for the same authorization code, whatever the clients, the sweeps and the time do in between, as long
  as no two identifiers drawn are the same.
\<close>

theorem code_redeemed_once_in_turn:
  assumes "names_differ CodeKind moves"
  shows "distinct (codes_redeemed d (fold (oauth_serves d) moves ([], snd (oauth_fresh clients scopes now))))"
proof -
  have "codes_in_order d (later_names CodeKind []) (fold (oauth_serves d) moves st)"
    if "codes_in_order d (later_names CodeKind moves) st" "names_differ CodeKind moves" for st
    using that
  proof (induction moves arbitrary: st)
    case (Cons mv moves)
    from Cons.IH [OF codes_serve [OF Cons.prems]] Cons.prems(2) show ?case by (simp add: names_differ_Cons)
  qed simp
  moreover have "codes_in_order d (later_names CodeKind moves) ([], snd (oauth_fresh clients scopes now))"
    by (simp add: codes_in_order_def oauth_fresh_def live_code_def codes_redeemed_def map_filter_def)
  ultimately show ?thesis using assms unfolding codes_in_order_def by blast
qed

end
