(* ===== verification/Oauth_Cases.thy ===== *)
theory Oauth_Cases
  imports Oauth_Codes
begin

text \<open>
  A small deployment and runs of it: one public client, a cipher that numbers what it seals, signatures that
  carry the token's identifier. The theorems about refresh tokens and codes are applied to these runs, and
  one of them shows what the code theorem leaves open.
\<close>

definition demo_client :: oauth_client where
  "demo_client = \<lparr>cl_identifier = ''app'', cl_secret = None, cl_redirect_uris = [''https://app/cb''], cl_grants = [],
    cl_scopes = [], cl_active = True, cl_plain_pkce = False\<rparr>"

definition demo_names :: "string \<Rightarrow> token_kind \<Rightarrow> nat \<Rightarrow> string" where
  "demo_names tag kind k = tag @ (case kind of AccessKind \<Rightarrow> ''a'' | RefreshKind \<Rightarrow> ''r'' | CodeKind \<Rightarrow> ''c'' | DeviceKind \<Rightarrow> ''d'')
    @ replicate k CHR ''x''"

definition demo_code :: payload where
  "demo_code = [(''client_id'', JText ''app''), (''redirect_uri'', JNull), (''auth_code_id'', JText ''0c''), (''scopes'', JList []),
    (''user_id'', JText ''ann''), (''expire_time'', JWhole 600), (''code_challenge'', JNull), (''code_challenge_method'', JNull)]"

definition demo_refresh :: payload where
  "demo_refresh = [(''client_id'', JText ''app''), (''refresh_token_id'', JText ''0r''), (''access_token_id'', JText ''0a''),
    (''scopes'', JList []), (''user_id'', JText ''ann''), (''expire_time'', JWhole 6000)]"

definition demo_header :: payload where
  "demo_header = [(''typ'', JText ''at+jwt''), (''kid'', JText ''k'')]"

definition demo_claims :: payload where
  "demo_claims = [(''iss'', JText ''op''), (''sub'', JText ''ann''), (''aud'', JText ''app''), (''client_id'', JText ''app''),
    (''iat'', JWhole 0), (''nbf'', JWhole 0), (''exp'', JWhole 3600), (''jti'', JText ''0a''), (''scope'', JText '''')]"

definition demo_env :: oauth_env where
  "demo_env = \<lparr>v_seal = (\<lambda>nonce p. if p = demo_code then ''code'' else if p = demo_refresh then ''refresh'' else ''other''),
    v_unseal = (\<lambda>s. if s = ''code'' then Some demo_code else if s = ''refresh'' then Some demo_refresh else None),
    v_sign = (\<lambda>header claims. Some (''jwt'' @ (case payload_text claims ''jti'' of None \<Rightarrow> '''' | Some i \<Rightarrow> i))),
    v_load = (\<lambda>s. if s = ''jwt0a'' then Some (demo_header, demo_claims, True) else None), v_verify = (\<lambda>stored secret. stored = secret), v_rehash = (\<lambda>stored secret. None),
    v_scopes = (\<lambda>scopes flow c user. scopes), v_claims = (\<lambda>c scopes user. []),
    v_user = (\<lambda>name password flow c. if password = ''pass'' then Some name else None), v_s256 = rev,
    v_split = (\<lambda>s. None), v_basic = (\<lambda>s. None)\<rparr>"

definition demo_setup :: grant_setup where
  "demo_setup = \<lparr>gs_default_scope = '''', gs_rotate = True, gs_access_ttl = 0, gs_implicit_ttl = 0, gs_refresh_ttl = 6000000000,
    gs_code_ttl = 600000000, gs_require_challenge = False, gs_device_ttl = 600000000, gs_verification_uri = ''https://op/device'',
    gs_retry_interval = 5, gs_interval_visible = False, gs_uri_complete = False, gs_delimiter = ''#'', gs_issuer = ''op'',
    gs_audience = None, gs_key_id = ''k''\<rparr>"

definition demo_server :: oauth_deployment where
  "demo_server = \<lparr>od_env = demo_env,
    od_server = enable_grant_type PasswordGrant demo_setup None (enable_grant_type RefreshTokenGrant demo_setup None
      (enable_grant_type AuthCodeGrant demo_setup None AuthorizationServer_init)),
    od_reader = \<lparr>tr_issuer = ''op'', tr_audience = None, tr_leeway = 0\<rparr>\<rparr>"

definition demo_request :: "string \<Rightarrow> param_source \<Rightarrow> param_source \<Rightarrow> oauth_request" where
  "demo_request tag query body = \<lparr>rq_query = query, rq_body = Some body, rq_authorization = None, rq_names = demo_names tag,
    rq_user_codes = (\<lambda>k. tag), rq_nonce = 0\<rparr>"

definition demo_login :: oauth_job where
  "demo_login = TokenRequest (demo_request ''0'' [] [(''grant_type'', [PText ''password'']), (''client_id'', [PText ''app'']),
    (''username'', [PText ''ann'']), (''password'', [PText ''pass''])])"

definition demo_renewal :: "string \<Rightarrow> oauth_job" where
  "demo_renewal tag = TokenRequest (demo_request tag [] [(''grant_type'', [PText ''refresh_token'']), (''client_id'', [PText ''app'']),
    (''refresh_token'', [PText ''refresh''])])"

definition demo_consent :: oauth_job where
  "demo_consent = AuthorizeRequest (demo_request ''0'' [(''response_type'', [PText ''code'']), (''client_id'', [PText ''app''])] [])
    (Some ''ann'') (Decided ''ann'' True)"

definition demo_redeeming :: "string \<Rightarrow> oauth_request" where
  "demo_redeeming tag = demo_request tag [] [(''grant_type'', [PText ''authorization_code'']), (''client_id'', [PText ''app'']),
    (''code'', [PText ''code''])]"

abbreviation "demo_redeem tag \<equiv> TokenRequest (demo_redeeming tag)"

text \<open>One request answered to its end, then two others step by step in turns.\<close>

definition demo_moves :: "oauth_job \<Rightarrow> oauth_job \<Rightarrow> oauth_job \<Rightarrow> oauth_move list" where
  "demo_moves first one other = Arrive first # replicate 25 (Resume 0) @ [Arrive one, Arrive other]
    @ concat (replicate 30 [Resume 1, Resume 2])"

definition demo_start :: oauth_machine where
  "demo_start = oauth_fresh [(''app'', demo_client)] [] 0"

abbreviation "renewal_moves \<equiv> demo_moves demo_login (demo_renewal ''1'') (demo_renewal ''2'')"

abbreviation "redeem_moves \<equiv> demo_moves demo_consent (demo_redeem ''1'') (demo_redeem ''2'')"

lemma arriving_resumes: "(\<And>j. Arrive j \<notin> set moves) \<Longrightarrow> arriving moves = []"
  by (induction moves) (auto simp: arriving_def map_filter_simps split: oauth_move.splits)

lemma arriving_append: "arriving (moves @ moves') = arriving moves @ arriving moves'"
  by (simp add: arriving_def map_filter_def)

lemma arriving_demo: "arriving (demo_moves first one other) = [first, one, other]"
  by (simp add: demo_moves_def arriving_append arriving_Cons arriving_resumes)

lemma jobs_arrived: "map fst (fst (oauth_runs d moves (as, w))) = map fst as @ arriving moves"
proof (induction moves arbitrary: as w)
  case Nil
  then show ?case by (simp add: oauth_runs_def arriving_def map_filter_simps)
next
  case (Cons mv moves)
  obtain as' w' where m: "oauth_does d mv (as, w) = (as', w')" by fastforce
  have step: "map fst as' = map fst as @ (case mv of Arrive j \<Rightarrow> [j] | _ \<Rightarrow> [])"
  proof (cases mv)
    case (Resume i)
    have "map fst (as[i := (fst (as ! i), t)]) = map fst as" if "i < length as" for t
      using that by (simp add: map_update list_update_same_conv)
    with m show ?thesis by (auto simp: Resume Let_def split: if_splits prod.splits)
  qed (use m in auto)
  have "oauth_runs d (mv # moves) (as, w) = oauth_runs d moves (as', w')" by (simp add: oauth_runs_def m)
  then show ?case by (simp only: Cons.IH step arriving_Cons append_assoc) (simp split: oauth_move.split)
qed

lemma answered_arrival:
  assumes "result_of (snd (fst (oauth_runs d moves ([], w)) ! i)) = Some r" "i < length (arriving moves)"
  shows "(arriving moves ! i, r) \<in> set (oauth_answers (oauth_runs d moves ([], w)))"
proof -
  let ?as = "fst (oauth_runs d moves ([], w))"
  have jobs: "map fst ?as = arriving moves" using jobs_arrived [of d moves "[]" w] by simp
  then have i: "i < length ?as" using assms(2) by (metis length_map)
  moreover have "fst (?as ! i) = arriving moves ! i" using jobs i by (metis nth_map)
  ultimately have "(arriving moves ! i, snd (?as ! i)) \<in> set ?as" by (metis nth_mem prod.collapse)
  with assms(1) show ?thesis by (force simp: oauth_answers_def map_filter_def)
qed

section \<open>Refresh tokens\<close>

lemma demo_rotates: "rotates demo_server"
  by code_simp

lemma renewal_names: "names_differ RefreshKind renewal_moves"
  by code_simp

lemma renewal_spent: "refresh_tokens_spent demo_server (oauth_runs demo_server renewal_moves demo_start) = [''0r'']"
  by code_simp

theorem refresh_token_spent_once_witness:
  "rotates demo_server \<and> names_differ RefreshKind renewal_moves
    \<and> refresh_tokens_spent demo_server (oauth_runs demo_server renewal_moves demo_start) = [''0r'']
    \<and> distinct (refresh_tokens_spent demo_server (oauth_runs demo_server renewal_moves demo_start))"
  using refresh_token_spent_once [OF demo_rotates renewal_names, of "[(''app'', demo_client)]" "[]" 0, folded demo_start_def]
  by (simp only: demo_rotates renewal_names renewal_spent simp_thms)

section \<open>Authorization codes\<close>

text \<open>The code is issued, then two requests present it at the same time. Both are answered with tokens.\<close>

definition demo_token :: "string \<Rightarrow> token_answer" where
  "demo_token signed = \<lparr>ta_access_token = signed, ta_expires_in = 3600, ta_refresh_token = Some ''other'', ta_scope = None\<rparr>"

lemma redeem_names: "names_differ CodeKind redeem_moves"
  by code_simp

lemma one_redeemed: "result_of (snd (fst (oauth_runs demo_server redeem_moves demo_start) ! 1)) = Some (Inr (TokenGiven (demo_token ''jwt1a'')))"
  by code_simp

lemma other_redeemed: "result_of (snd (fst (oauth_runs demo_server redeem_moves demo_start) ! 2)) = Some (Inr (TokenGiven (demo_token ''jwt2a'')))"
  by code_simp

lemma same_code_presented: "code_presented demo_server (demo_redeem ''1'') = Some ''0c''" "code_presented demo_server (demo_redeem ''2'') = Some ''0c''"
  by code_simp+

lemma redeem_answers:
  "(demo_redeem ''1'', Inr (TokenGiven (demo_token ''jwt1a''))) \<in> set (oauth_answers (oauth_runs demo_server redeem_moves demo_start))"
  "(demo_redeem ''2'', Inr (TokenGiven (demo_token ''jwt2a''))) \<in> set (oauth_answers (oauth_runs demo_server redeem_moves demo_start))"
  using answered_arrival [OF one_redeemed [unfolded demo_start_def oauth_fresh_def]]
    answered_arrival [OF other_redeemed [unfolded demo_start_def oauth_fresh_def]]
  by (simp_all add: arriving_demo demo_start_def oauth_fresh_def)

theorem code_redeemed_twice_at_once:
  "names_differ CodeKind redeem_moves \<and> code_presented demo_server (demo_redeem ''1'') = code_presented demo_server (demo_redeem ''2'')
    \<and> (demo_redeem ''1'', Inr (TokenGiven (demo_token ''jwt1a''))) \<in> set (oauth_answers (oauth_runs demo_server redeem_moves demo_start))
    \<and> (demo_redeem ''2'', Inr (TokenGiven (demo_token ''jwt2a''))) \<in> set (oauth_answers (oauth_runs demo_server redeem_moves demo_start))"
  by (simp add: redeem_names same_code_presented redeem_answers)

definition demo_grant :: grant_setup where
  "demo_grant = demo_setup\<lparr>gs_access_ttl := 3600000000\<rparr>"

lemma redeem_grant: "chosen_grant (od_server demo_server) (demo_redeeming ''1'') = Some (AuthCodeGrant, demo_grant)"
  by code_simp

theorem code_tokens_rest_on_code_witness:
  "\<exists>t. signs_for demo_env demo_grant t ''jwt1a'' \<and> rests_on_code demo_env (demo_redeeming ''1'') (at_client t) (at_user t)"
  using code_tokens_rest_on_code [OF redeem_answers(1) [unfolded demo_start_def] redeem_grant]
  by (simp add: demo_server_def demo_token_def)

abbreviation "served_moves \<equiv> [Arrive demo_consent, Arrive (demo_redeem ''1''), Elapse 60, Arrive (demo_redeem ''2'')]"

lemma served_names: "names_differ CodeKind served_moves"
  by code_simp

lemma served_codes: "codes_redeemed demo_server (fold (oauth_serves demo_server) served_moves ([], snd demo_start)) = [''0c'']"
  by code_simp

theorem code_redeemed_once_in_turn_witness:
  "names_differ CodeKind served_moves
    \<and> codes_redeemed demo_server (fold (oauth_serves demo_server) served_moves ([], snd demo_start)) = [''0c'']
    \<and> distinct (codes_redeemed demo_server (fold (oauth_serves demo_server) served_moves ([], snd demo_start)))"
  using code_redeemed_once_in_turn [OF served_names, of demo_server "[(''app'', demo_client)]" "[]" 0, folded demo_start_def]
  by (simp only: served_names served_codes simp_thms)

end
