(* ===== verification/Oauth_Tokens.thy ===== *)
theory Oauth_Tokens
  imports Oauth_Cases
begin

text \<open>
  What a token is worth: who it is given to, that a resource server reads it back, and that it is worth
  nothing once it was withdrawn.
\<close>

section \<open>Who is given tokens\<close>

text \<open>
  The request names a registered client that may use the flow, and proves it is that client where the client
  has a secret.
\<close>

definition proves_client :: "oauth_env \<Rightarrow> oauth \<Rightarrow> oauth_request \<Rightarrow> string \<Rightarrow> client_entity \<Rightarrow> bool" where
  "proves_client v w rq flow c \<longleftrightarrow> (case get_client_credentials v rq of
      Inl e \<Rightarrow> False
    | Inr (client_id, secret) \<Rightarrow> (case map_of (o_clients w) client_id of
        None \<Rightarrow> False
      | Some stored \<Rightarrow> cl_active stored \<and> may_use stored (Some flow) \<and> c = client_entity_of stored
          \<and> (case cl_secret stored of
              None \<Rightarrow> True
            | Some s \<Rightarrow> s = '''' \<or> secret \<noteq> '''' \<and> v_verify v s secret)))"

lemma client_proved:
  assumes "finish (validate_client v (Some flow) rq) w = (Inr c, w')"
  shows "proves_client v w rq flow c"
proof (cases "get_client_credentials v rq")
  case (Inl e)
  with assms show ?thesis by (simp add: validate_client_def seq_settled)
next
  case (Inr creds)
  obtain client_id secret where creds: "creds = (client_id, secret)" by fastforce
  have entity: "finish (get_client_entity_or_fail (Some flow) client_id) w = (case map_of (o_clients w) client_id of
      None \<Rightarrow> (Inl InvalidClient, w\<lparr>o_events := o_events w @ [ClientAuthenticationFailed]\<rparr>)
    | Some stored \<Rightarrow> if \<not> cl_active stored then (Inl InvalidClient, w\<lparr>o_events := o_events w @ [ClientAuthenticationFailed]\<rparr>)
        else if \<not> may_use stored (Some flow) then (Inl UnauthorizedClient, w) else (Inr (client_entity_of stored), w))"
    by (auto simp: get_client_entity_or_fail_def get_client_entity_def finish_seq client_find_def announce_event_def
        dispatch_event_def may_use_def entity_supports_grant_type_def client_entity_of_def split: option.splits)
  show ?thesis
  proof (cases "map_of (o_clients w) client_id")
    case None
    with assms Inr creds entity show ?thesis by (simp add: validate_client_def seq_settled finish_seq)
  next
    case (Some stored)
    have proved: "fst (finish (validate_secret v client_id secret (Some flow)) w) = Inr (cl_active stored \<and> may_use stored (Some flow)
        \<and> (is_confidential stored \<longrightarrow> v_verify v (case cl_secret stored of None \<Rightarrow> '''' | Some s \<Rightarrow> s) secret))"
      by (simp add: validate_secret_def finish_seq client_find_def Some Let_def ret_def rehash_def split: option.split)
    from assms Inr creds entity Some proved show ?thesis
      by (auto simp: validate_client_def seq_settled finish_seq proves_client_def client_entity_of_def is_confidential_def
          announce_event_def split: if_splits prod.splits sum.splits option.splits)
  qed
qed

lemma returns_client_kept: "returns (\<lambda>x. at_client (fst x) = c) (issue_tokens v rq g c user scopes)"
  by (rule returns_mono [OF returns_issued_pair]) simp

lemma respond_with_client:
  assumes "t \<noteq> ImplicitGrant"
  shows "\<exists>later. respond_with t v g rq = seq (validate_client v (Some (grant_identifier t)) rq) later
    \<and> (\<forall>c. returns (\<lambda>x. at_client (fst x) = c) (later c))"
proof (cases t)
  case AuthCodeGrant
  have then_revoke: "returns (\<lambda>x. at_client (fst x) = c) (seq (issue_tokens v rq g c user scopes) (\<lambda>tokens. seq u (\<lambda>_. answer tokens)))"
    for c user scopes and u :: "unit oauth_coro"
    by (rule returns_seq [OF returns_client_kept], rule returns_after) simp
  show ?thesis unfolding AuthCodeGrant respond_with.simps grant_identifier.simps respond_code_def
    by (intro exI conjI, rule refl) (auto intro!: returns_after then_revoke split: option.split sum.split)
next
  case RefreshTokenGrant
  show ?thesis unfolding RefreshTokenGrant respond_with.simps grant_identifier.simps respond_refresh_def
    by (intro exI conjI, rule refl) (auto intro!: returns_after returns_client_kept split: sum.split)
next
  case ClientCredentialsGrant
  have issue: "returns (\<lambda>x. at_client (fst x) = c) (seq (issue_access_token v rq (gs_access_ttl g) c None granted) (\<lambda>t.
      seq (announce_event (AccessTokenIssued t)) (\<lambda>_. answer (t, None :: refresh_token option))))" for c granted
    by (rule returns_seq [OF returns_issued], rule returns_after) simp
  show ?thesis unfolding ClientCredentialsGrant respond_with.simps grant_identifier.simps respond_credentials_def
    by (intro exI conjI, rule refl) (auto intro!: returns_after issue split: sum.split)
next
  case PasswordGrant
  show ?thesis unfolding PasswordGrant respond_with.simps grant_identifier.simps respond_password_def
    by (intro exI conjI, rule refl) (auto intro!: returns_after returns_client_kept split: sum.split)
next
  case DeviceCodeGrant
  have then_revoke: "returns (\<lambda>x. at_client (fst x) = c) (seq (issue_tokens v rq g c user scopes) (\<lambda>tokens. seq u (\<lambda>_. answer tokens)))"
    for c user scopes and u :: "unit oauth_coro"
    by (rule returns_seq [OF returns_client_kept], rule returns_after) simp
  show ?thesis unfolding DeviceCodeGrant respond_with.simps grant_identifier.simps respond_device_def
    by (intro exI conjI, rule refl) (auto intro!: returns_after then_revoke split: option.split)
qed (use assms in simp)


text \<open>
  C9: A token request answered with nothing else running in between is answered with tokens only by an
  enabled grant whose name it sent, for the client it named, and only if that client is registered, active,
  allowed that grant and, where it has a secret, sent one the hasher accepts; the signed token is made out to
  that client.
\<close>

theorem tokens_go_to_proved_clients:
  assumes "finish (respond_to_access_token_request v s rq) w = (Inr a, w')"
  shows "\<exists>t g issued. chosen_grant s rq = Some (t, g) \<and> can_respond t rq \<and> signs_for v g issued (ta_access_token a)
    \<and> proves_client v w rq (grant_identifier t) (at_client issued)"
proof -
  obtain t g where g: "chosen_grant s rq = Some (t, g)"
    using assms by (cases "chosen_grant s rq")
      (auto simp: respond_to_access_token_request_def chosen_grant_def seq_settled split: sum.splits)
  then have t: "can_respond t rq" by (auto simp: chosen_grant_def find_Some_iff)
  then have "t \<noteq> ImplicitGrant" by (simp add: can_respond_def)
  then obtain later where later: "respond_with t v g rq = seq (validate_client v (Some (grant_identifier t)) rq) later"
    "\<And>c. returns (\<lambda>x. at_client (fst x) = c) (later c)" using respond_with_client by blast
  have "finish (seq (respond_with t v g rq) (bearer_answer v rq g)) w = (Inr a, w')"
    using assms g by (auto simp: respond_to_access_token_request_def chosen_grant_def seq_settled split: sum.splits)
  then obtain x w1 where x: "finish (respond_with t v g rq) w = (Inr x, w1)" and a: "finish (bearer_answer v rq g x) w1 = (Inr a, w')"
    by (rule finish_seqE)
  obtain c w2 where c: "finish (validate_client v (Some (grant_identifier t)) rq) w = (Inr c, w2)" and "finish (later c) w2 = (Inr x, w1)"
    using x unfolding later(1) by (rule finish_seqE)
  then have "at_client (fst x) = c" using returns_finish [OF later(2)] by blast
  with client_proved [OF c] returns_finish [OF returns_bearer a] g t show ?thesis by blast
qed

text \<open>The login of the demonstration, answered in one go.\<close>

lemma demo_login_answered: "fst (finish (respond_to_access_token_request demo_env (od_server demo_server)
    (demo_request ''0'' [] [(''grant_type'', [PText ''password'']), (''client_id'', [PText ''app'']),
      (''username'', [PText ''ann'']), (''password'', [PText ''pass''])])) (snd demo_start))
  = Inr \<lparr>ta_access_token = ''jwt0a'', ta_expires_in = 3600, ta_refresh_token = Some ''refresh'', ta_scope = None\<rparr>"
  by code_simp

theorem tokens_go_to_proved_clients_witness:
  "\<exists>t g issued. chosen_grant (od_server demo_server) (demo_request ''0'' [] [(''grant_type'', [PText ''password'']),
      (''client_id'', [PText ''app'']), (''username'', [PText ''ann'']), (''password'', [PText ''pass''])]) = Some (t, g)
    \<and> signs_for demo_env g issued ''jwt0a'' \<and> proves_client demo_env (snd demo_start) (demo_request ''0'' []
      [(''grant_type'', [PText ''password'']), (''client_id'', [PText ''app'']), (''username'', [PText ''ann'']),
       (''password'', [PText ''pass''])]) (grant_identifier t) (at_client issued)"
proof -
  let ?rq = "demo_request ''0'' [] [(''grant_type'', [PText ''password'']), (''client_id'', [PText ''app'']),
      (''username'', [PText ''ann'']), (''password'', [PText ''pass''])]"
  obtain w' where "finish (respond_to_access_token_request demo_env (od_server demo_server) ?rq) (snd demo_start)
    = (Inr \<lparr>ta_access_token = ''jwt0a'', ta_expires_in = 3600, ta_refresh_token = Some ''refresh'', ta_scope = None\<rparr>, w')"
    using demo_login_answered by (metis fst_conv surj_pair)
  from tokens_go_to_proved_clients [OF this] show ?thesis by (simp only: token_answer.simps) blast
qed

section \<open>A token withdrawn\<close>

definition live_access :: "oauth \<Rightarrow> string \<Rightarrow> bool" where
  "live_access w i \<longleftrightarrow> (case map_of (o_access w) i of None \<Rightarrow> False | Some t \<Rightarrow> \<not> st_revoked t)"

definition stays_withdrawn :: "string \<Rightarrow> oauth \<Rightarrow> oauth \<Rightarrow> bool" where
  "stays_withdrawn i w w' \<longleftrightarrow> (dict_ok (o_access w) \<longrightarrow> dict_ok (o_access w') \<and> (\<not> live_access w i \<longrightarrow> \<not> live_access w' i))"

lemma stays_cong: "o_access w' = o_access w \<Longrightarrow> stays_withdrawn i w w'"
  by (simp add: stays_withdrawn_def live_access_def)

interpretation sw: all_steps "stays_withdrawn i" "- {i}" UNIV UNIV
  by unfold_locales (auto intro: stays_cong simp: stays_withdrawn_def live_access_def)

text \<open>The answers that vouch for an access token: a resource opened with it, and one that describes it.\<close>

fun vouches_for :: "string \<Rightarrow> oauth_error + oauth_result \<Rightarrow> bool" where
  "vouches_for i (Inr (ResourceOpened q)) \<longleftrightarrow> oauth_access_token_id q = Some i"
| "vouches_for i (Inr (TokenDescribed (Some (ValidAccess claims)))) \<longleftrightarrow> payload_text claims ''jti'' = Some i"
| "vouches_for i r \<longleftrightarrow> False"

lemma vouches_described: "vouches_for i (Inr (TokenDescribed x)) \<longleftrightarrow> (\<exists>claims. x = Some (ValidAccess claims) \<and> payload_text claims ''jti'' = Some i)"
proof (cases x)
  case (Some t)
  then show ?thesis by (cases t) simp_all
qed simp

abbreviation shuns where
  "shuns i F t \<equiv> obeys (\<lambda>w. \<not> live_access w i) (\<lambda>p w w' p'. True) (\<lambda>p r. F r) t ()"

lemma shuns_any: "(\<And>r. F r) \<Longrightarrow> shuns i F t"
  by (rule obeys_mono [of _ _ "\<lambda>p r. True"]) (induction t, auto simp: obeys_Await prod_set_defs)

lemma shuns_after: "(\<And>e. F (Inl e)) \<Longrightarrow> (\<And>x. shuns i F (f x)) \<Longrightarrow> shuns i F (seq t f)"
  by (rule obeys_seq [OF shuns_any [of "\<lambda>r. True"]]) simp_all

lemma bearer_shuns: "shuns i (\<lambda>r. case r of Inl e \<Rightarrow> True | Inr claims \<Rightarrow> payload_text claims ''jti'' \<noteq> Some i) (validate_bearer_token v r token)"
proof -
  let ?F = "\<lambda>r. case r of Inl e \<Rightarrow> True | Inr claims \<Rightarrow> payload_text claims ''jti'' \<noteq> Some i"
  have "shuns i (\<lambda>r. case r of Inl e \<Rightarrow> True | Inr revoked \<Rightarrow> k = i \<longrightarrow> revoked) (is_access_token_revoked k)" for k
    by (simp add: is_access_token_revoked_def obeys_seq_await access_find_def live_access_def split: option.splits)
  then have "shuns i ?F (seq (is_access_token_revoked k) (\<lambda>revoked. if revoked then refuse (AccessDenied None) else answer claims))"
    if "payload_text claims ''jti'' = Some k" for k claims
    by (rule obeys_seq) (use that in auto)
  then show ?thesis unfolding validate_bearer_token_def
    by (auto intro!: shuns_after split: option.split)
qed

lemma arriving_shuns: "shuns i (\<lambda>r. \<not> vouches_for i r) (job_task d j)"
proof (cases j)
  case (ResourceRequest rq)
  show ?thesis unfolding ResourceRequest job_task.simps validate_authorization_def
    by (rule obeys_seq [of _ _ "\<lambda>p r. case r of Inl e \<Rightarrow> True | Inr q \<Rightarrow> oauth_access_token_id q \<noteq> Some i"])
      (auto intro!: obeys_seq [OF bearer_shuns] split: sum.split)
next
  case (IntrospectionRequest rq)
  let ?F = "\<lambda>r. case r of Inr (Some (ValidAccess claims)) \<Rightarrow> payload_text claims ''jti'' \<noteq> Some i | _ \<Rightarrow> True"
  have one: "shuns i ?F (read_as_access v r token)" for v r token
  proof -
    have "shuns i ?F (seq (validate_bearer_token v r token) (\<lambda>claims. answer (Some (ValidAccess claims))))"
      by (rule obeys_seq [OF bearer_shuns]) simp_all
    then show ?thesis unfolding read_as_access_def by (rule obeys_caught) simp_all
  qed
  have two: "shuns i ?F (read_as_refresh v token c)" for v token c
  proof -
    have "shuns i ?F (seq (validate_encrypted_refresh_token v token (ce_identifier c)) (\<lambda>p. answer (Some (ValidRefresh p))))"
      by (rule shuns_after) simp_all
    then show ?thesis unfolding read_as_refresh_def by (rule obeys_caught) simp_all
  qed
  have "shuns i ?F (validate_token v r rq c)" for v r c
    unfolding validate_token_def
    by (auto intro!: obeys_seq [OF one] obeys_seq [OF two] one two split: sum.split option.split validated_token.splits)
  then have "shuns i ?F (respond_introspection v r rq)" for v r
    unfolding respond_introspection_def by (intro shuns_after) simp_all
  then show ?thesis unfolding IntrospectionRequest job_task.simps
    apply (rule obeys_seq)
    subgoal by simp
    subgoal for p' x by (cases x) (simp_all add: vouches_described split: validated_token.splits)
    done
qed (auto intro!: shuns_after)

text \<open>
  A run keeps what every step of its requests keeps, as do time, sweeps and changes of clients; what a
  request may be answered while that holds, the requests from the \<open>n\<close>-th on are answered.
\<close>

definition keeps_to :: "(oauth \<Rightarrow> bool) \<Rightarrow> (oauth \<Rightarrow> oauth \<Rightarrow> bool) \<Rightarrow> (oauth_job \<Rightarrow> oauth_error + oauth_result \<Rightarrow> bool) \<Rightarrow> nat
    \<Rightarrow> oauth_machine \<Rightarrow> bool" where
  "keeps_to I Q F n m \<longleftrightarrow> I (snd m) \<and> n \<le> length (fst m) \<and> (\<forall>(j, t)\<in>set (fst m). does_only Q t)
    \<and> (\<forall>(j, t)\<in>set (drop n (fst m)). obeys I (\<lambda>p w w' p'. True) (\<lambda>p. F j) t ())"

lemma task_step_only:
  assumes "does_only Q t" "task_step t w = (t', w')"
  shows "does_only Q t' \<and> (w' = w \<or> Q w w')"
  by (rule obeys_step [OF assms(1) [unfolded does_only_def] assms(2)]) (use assms(1) in \<open>auto simp: does_only_def\<close>)

lemma keeps_resume:
  assumes keep: "keeps_to I Q F n (as, w)" and step: "\<And>w w'. I w \<Longrightarrow> Q w w' \<Longrightarrow> I w'"
    and k: "k < length as" and t: "task_step (snd (as ! k)) w = (t, w')"
  shows "keeps_to I Q F n (as[k := (fst (as ! k), t)], w')"
proof -
  let ?as = "as[k := (fst (as ! k), t)]"
  have I: "I w" and n: "n \<le> length as" using keep by (simp_all add: keeps_to_def)
  have "does_only Q (snd (as ! k))" using keep nth_mem [OF k] by (simp add: keeps_to_def case_prod_unfold)
  from task_step_only [OF this t] have only: "does_only Q t" "w' = w \<or> Q w w'" by simp_all
  have "does_only Q (snd x)" if "x \<in> set ?as" for x
  proof -
    from that have "x = (fst (as ! k), t) \<or> x \<in> set as" using set_update_subset_insert [of as k "(fst (as ! k), t)"] by auto
    then show ?thesis using keep only(1) by (auto simp: keeps_to_def case_prod_unfold)
  qed
  moreover have "obeys I (\<lambda>p w w' p'. True) (\<lambda>p. F (fst x)) (snd x) ()" if x: "x \<in> set (drop n ?as)" for x
  proof (cases "n \<le> k")
    case True
    then have "drop n ?as = (drop n as)[k - n := (fst (as ! k), t)]" by (simp add: drop_update_swap)
    with x have "x = (fst (as ! k), t) \<or> x \<in> set (drop n as)"
      using set_update_subset_insert [of "drop n as" "k - n" "(fst (as ! k), t)"] by auto
    moreover have "obeys I (\<lambda>p w w' p'. True) (\<lambda>p. F (fst (as ! k))) t ()"
    proof -
      have "as ! k \<in> set (drop n as)" using nth_mem [of "k - n" "drop n as"] True k by simp
      then have now: "obeys I (\<lambda>p w w' p'. True) (\<lambda>p. F (fst (as ! k))) (snd (as ! k)) ()"
        using keep by (auto simp: keeps_to_def case_prod_unfold)
      show ?thesis by (rule obeys_step [OF now t]) (use I now in simp_all)
    qed
    ultimately show ?thesis using keep by (auto simp: keeps_to_def case_prod_unfold)
  next
    case False
    then have "drop n ?as = drop n as" by (simp add: drop_update_cancel)
    with x keep show ?thesis by (auto simp: keeps_to_def case_prod_unfold)
  qed
  ultimately show ?thesis using step [OF I] only(2) I n by (auto simp: keeps_to_def case_prod_unfold)
qed

lemma keeps_runs:
  assumes step: "\<And>w w'. I w \<Longrightarrow> Q w w' \<Longrightarrow> I w'"
    and calm: "\<And>mv w. mv = SweepTokens \<or> (\<exists>n. mv = Elapse n) \<or> (\<exists>c. mv = RegisterClient c) \<or> (\<exists>i. mv = RemoveClient i)
      \<Longrightarrow> I w \<Longrightarrow> I (snd (oauth_does d mv ([], w)))"
    and jobs: "\<And>j. j \<in> set (arriving moves) \<Longrightarrow> does_only Q (job_task d j) \<and> obeys I (\<lambda>p w w' p'. True) (\<lambda>p. F j) (job_task d j) ()"
    and keep: "keeps_to I Q F n m"
  shows "keeps_to I Q F n (oauth_runs d moves m)"
  using jobs keep
proof (induction moves arbitrary: m)
  case Nil
  then show ?case by (simp add: oauth_runs_def)
next
  case (Cons mv moves)
  obtain as w where m: "m = (as, w)" by fastforce
  have keep: "keeps_to I Q F n (as, w)" using Cons.prems(2) by (simp add: m)
  have "keeps_to I Q F n (oauth_does d mv (as, w))"
  proof (cases mv)
    case (Arrive j)
    then show ?thesis using Cons.prems(1) [of j] keep by (simp add: arriving_Cons keeps_to_def)
  next
    case (Resume k)
    show ?thesis
    proof (cases "k < length as")
      case True
      obtain t w' where t: "task_step (snd (as ! k)) w = (t, w')" by fastforce
      from keeps_resume [OF keep step True t] True t show ?thesis by (simp add: Resume)
    qed (use keep in \<open>simp add: Resume\<close>)
  qed (use keep calm [of mv w] in \<open>simp_all add: keeps_to_def\<close>)
  then have "keeps_to I Q F n (oauth_runs d moves (oauth_does d mv m))"
    unfolding m by (intro Cons.IH) (use Cons.prems(1) in \<open>simp_all add: arriving_Cons split: oauth_move.splits\<close>)
  then show ?case by (simp add: oauth_runs_def)
qed

section \<open>Withdrawn for good\<close>

lemma jobs_stay_withdrawn: "i \<notin> set (job_names AccessKind j) \<Longrightarrow> does_only (stays_withdrawn i) (job_task d j)"
  by (rule sw.only_job) auto

lemma sweep_keeps_withdrawn: "dict_ok (o_access w) \<Longrightarrow> \<not> live_access w i \<Longrightarrow> dict_ok (o_access (sweep_tokens w)) \<and> \<not> live_access (sweep_tokens w) i"
  by (auto simp: live_access_def sweep_tokens_def device_clear_expired_def code_clear_expired_def
      refresh_clear_expired_def access_clear_expired_def dict_ok_filter split: option.splits dest: map_of_filter_ok)

lemma later_name: "i \<notin> later_names kind moves \<Longrightarrow> j \<in> set (arriving moves) \<Longrightarrow> i \<notin> set (job_names kind j)"
  by (auto simp: later_names_def)

text \<open>Where the run stands: the token is not live, nobody is at work who drew its name.\<close>

definition withdrawn_in :: "string \<Rightarrow> oauth_machine \<Rightarrow> bool" where
  "withdrawn_in i m \<longleftrightarrow> dict_ok (o_access (snd m)) \<and> \<not> live_access (snd m) i
    \<and> (\<forall>(j, t)\<in>set (fst m). i \<in> set (job_names AccessKind j) \<longrightarrow> result_of t \<noteq> None)"

definition reached_by :: "oauth_deployment \<Rightarrow> oauth_machine \<Rightarrow> bool" where
  "reached_by d m \<longleftrightarrow> (\<exists>moves clients scopes now. m = oauth_runs d moves (oauth_fresh clients scopes now))"

lemma reached_only:
  assumes "reached_by d m" "(j, t) \<in> set (fst m)" "does_only Q (job_task d j)"
  shows "does_only Q t"
proof -
  have "\<forall>(j, t)\<in>set (fst (oauth_runs d moves m)). does_only Q (job_task d j) \<longrightarrow> does_only Q t"
    if "\<forall>(j, t)\<in>set (fst m). does_only Q (job_task d j) \<longrightarrow> does_only Q t" for moves m
    using that
  proof (induction moves arbitrary: m)
    case (Cons mv moves)
    obtain as w where m: "m = (as, w)" by fastforce
    have "\<forall>(j, t)\<in>set (fst (oauth_does d mv m)). does_only Q (job_task d j) \<longrightarrow> does_only Q t"
    proof (cases mv)
      case (Resume k)
      show ?thesis
      proof (cases "k < length as")
        case True
        obtain t w' where t: "task_step (snd (as ! k)) w = (t, w')" by fastforce
        have "does_only Q (job_task d (fst (as ! k))) \<Longrightarrow> does_only Q t"
          using Cons.prems nth_mem [OF True] task_step_only [OF _ t] by (fastforce simp: m)
        moreover have "x = (fst (as ! k), t) \<or> x \<in> set as" if "x \<in> set (as[k := (fst (as ! k), t)])" for x
          using that set_update_subset_insert [of as k "(fst (as ! k), t)"] by auto
        ultimately show ?thesis using Cons.prems True t by (fastforce simp: m Resume)
      qed (use Cons.prems in \<open>simp add: m Resume\<close>)
    qed (use Cons.prems in \<open>simp_all add: m\<close>)
    then show ?case using Cons.IH by (simp add: oauth_runs_def)
  qed (simp add: oauth_runs_def)
  moreover obtain moves clients scopes now where "m = oauth_runs d moves (oauth_fresh clients scopes now)"
    using assms(1) by (auto simp: reached_by_def)
  moreover have "\<forall>(j, t)\<in>set (fst (oauth_fresh clients scopes now)). does_only Q (job_task d j) \<longrightarrow> does_only Q t"
    by (simp add: oauth_fresh_def)
  ultimately show ?thesis using assms(2,3) by blast
qed

text \<open>
  C7: An access token withdrawn is worth nothing for good. From a state a server can reach in which the token
  is not live and every request that drew its identifier is answered, however the server goes on, no request
  that arrives later opens a resource with it or is told that it is active.
\<close>

theorem withdrawn_token_never_vouched_for:
  assumes "reached_by d m" "withdrawn_in i m" "i \<notin> later_names AccessKind moves"
    "(j, t) \<in> set (drop (length (fst m)) (fst (oauth_runs d moves m)))" "result_of t = Some r"
  shows "\<not> vouches_for i r"
proof -
  let ?I = "\<lambda>w. dict_ok (o_access w) \<and> \<not> live_access w i"
  have flight: "does_only (stays_withdrawn i) t" if "(j, t) \<in> set (fst m)" for j t
  proof (cases "i \<in> set (job_names AccessKind j)")
    case True
    then have "result_of t \<noteq> None" using that assms(2) by (fastforce simp: withdrawn_in_def)
    then show ?thesis by (cases t) (simp_all add: does_only_def)
  next
    case False
    then show ?thesis using reached_only [OF assms(1) that] jobs_stay_withdrawn by blast
  qed
  have "keeps_to ?I (stays_withdrawn i) (\<lambda>j r. \<not> vouches_for i r) (length (fst m)) (oauth_runs d moves m)"
  proof (rule keeps_runs)
    show "does_only (stays_withdrawn i) (job_task d j) \<and> obeys ?I (\<lambda>p w w' p'. True) (\<lambda>p r. \<not> vouches_for i r) (job_task d j) ()"
      if "j \<in> set (arriving moves)" for j
      by (intro conjI jobs_stay_withdrawn later_name [OF assms(3) that] obeys_weaker_when [OF arriving_shuns]) simp
    show "keeps_to ?I (stays_withdrawn i) (\<lambda>j r. \<not> vouches_for i r) (length (fst m)) m"
      using assms(2) flight by (auto simp: keeps_to_def withdrawn_in_def)
  qed (auto simp: stays_withdrawn_def client_save_def client_remove_def live_access_def sweep_keeps_withdrawn [unfolded live_access_def])
  then have "obeys ?I (\<lambda>p w w' p'. True) (\<lambda>p r. \<not> vouches_for i r) t ()"
    using assms(4) by (auto simp: keeps_to_def)
  from obeys_result [OF this assms(5)] show ?thesis .
qed

text \<open>Login, a resource opened with the token, the token withdrawn by its client; then the resource again.\<close>

definition demo_knock :: oauth_job where
  "demo_knock = ResourceRequest (demo_request ''0'' [] [] \<lparr>rq_authorization := Some ''Bearer jwt0a''\<rparr>)"

definition demo_withdrawal :: oauth_job where
  "demo_withdrawal = RevocationRequest (demo_request ''0'' [] [(''client_id'', [PText ''app'']), (''token'', [PText ''jwt0a''])])"

definition demo_withdrawn :: "oauth_move list" where
  "demo_withdrawn = [Arrive demo_login] @ replicate 25 (Resume 0) @ [Arrive demo_knock] @ replicate 5 (Resume 1)
    @ [Arrive demo_withdrawal] @ replicate 15 (Resume 2)"

abbreviation "knock_again \<equiv> [Elapse 60, Arrive demo_knock, Resume 3, Resume 3, Resume 3]"

lemma only_image: "map f xs = [y] \<Longrightarrow> \<exists>x\<in>set xs. f x = y"
  by auto

lemma demo_is_withdrawn: "withdrawn_in ''0a'' (oauth_runs demo_server demo_withdrawn demo_start)"
  by code_simp

lemma demo_later_names: "''0a'' \<notin> later_names AccessKind knock_again"
  by code_simp

lemma demo_opened: "result_of (snd (fst (oauth_runs demo_server demo_withdrawn demo_start) ! 1)) =
    Some (Inr (ResourceOpened \<lparr>oauth_access_token_id = Some ''0a'', oauth_client_id = Some ''app'', oauth_user_id = Some ''ann'', oauth_scopes = []\<rparr>))"
  by code_simp

lemma demo_refused: "map (result_of \<circ> snd) (drop (length (fst (oauth_runs demo_server demo_withdrawn demo_start)))
    (fst (oauth_runs demo_server knock_again (oauth_runs demo_server demo_withdrawn demo_start)))) = [Some (Inl (AccessDenied None))]"
  by code_simp

theorem withdrawn_token_never_vouched_for_witness:
  "withdrawn_in ''0a'' (oauth_runs demo_server demo_withdrawn demo_start) \<and> \<not> vouches_for ''0a'' (Inl (AccessDenied None))"
proof -
  let ?m = "oauth_runs demo_server demo_withdrawn demo_start"
  have reached: "reached_by demo_server ?m" unfolding reached_by_def demo_start_def by blast
  obtain x where x: "x \<in> set (drop (length (fst ?m)) (fst (oauth_runs demo_server knock_again ?m)))"
    "result_of (snd x) = Some (Inl (AccessDenied None))"
    using only_image [OF demo_refused] unfolding comp_apply by blast
  from x(1) have "(fst x, snd x) \<in> set (drop (length (fst ?m)) (fst (oauth_runs demo_server knock_again ?m)))"
    by (simp only: prod.collapse)
  from withdrawn_token_never_vouched_for [OF reached demo_is_withdrawn demo_later_names this x(2)] demo_is_withdrawn
  show ?thesis by (rule conjI [rotated])
qed

section \<open>A token read back\<close>

definition scope_word :: "string \<Rightarrow> bool" where
  "scope_word s \<longleftrightarrow> s \<noteq> '''' \<and> list_all (\<lambda>c. \<not> is_white c) s"

lemma white_space: "is_white CHR '' ''"
  by (simp add: is_white_def)

lemma strip_plain:
  assumes "list_all (\<lambda>c. \<not> is_white c) s"
  shows "strip_text s = s"
proof -
  have whole: "dropWhile is_white t = t" if "list_all (\<lambda>c. \<not> is_white c) t" for t
    using that by (cases t) simp_all
  show ?thesis using assms whole [of s] whole [of "rev s"] by (simp add: strip_text_def)
qed

lemma split_on_plain: "c \<notin> set s \<Longrightarrow> split_on c s = [s]"
  by (induction s) auto

lemma split_on_joined: "c \<notin> set s \<Longrightarrow> split_on c (s @ c # rest) = s # split_on c rest"
  by (induction s) auto

lemma joined_ends:
  assumes "list_all scope_word (s # ss)"
  shows "join_scopes (s # ss) \<noteq> '''' \<and> \<not> is_white (hd (join_scopes (s # ss))) \<and> \<not> is_white (last (join_scopes (s # ss)))"
  using assms
proof (induction ss arbitrary: s)
  case Nil
  then show ?case by (cases s) (auto simp: scope_word_def list_all_iff)
next
  case (Cons u us)
  then show ?case by (cases s) (auto simp: scope_word_def list_all_iff)
qed

lemma strip_ends: "s \<noteq> '''' \<Longrightarrow> \<not> is_white (hd s) \<Longrightarrow> \<not> is_white (last s) \<Longrightarrow> strip_text s = s"
proof -
  assume s: "s \<noteq> ''''" "\<not> is_white (hd s)" "\<not> is_white (last s)"
  then have "dropWhile is_white s = s" by (cases s) simp_all
  moreover have "dropWhile is_white (rev s) = rev s" using s(1,3) by (cases s rule: rev_cases) simp_all
  ultimately show ?thesis by (simp add: strip_text_def)
qed

lemma scopes_read_back: "list_all scope_word ss \<Longrightarrow> split_scopes (join_scopes ss) = ss"
proof (cases ss)
  case (Cons a as)
  assume words: "list_all scope_word ss"
  have "filter (\<lambda>n. n \<noteq> '''') (split_on CHR '' '' (join_scopes (a # as))) = a # as" if "list_all scope_word (a # as)" for a as
    using that
  proof (induction as arbitrary: a)
    case Nil
    then have "CHR '' '' \<notin> set a" using white_space by (auto simp: scope_word_def list_all_iff)
    with Nil show ?case by (simp add: split_on_plain scope_word_def)
  next
    case (Cons b bs)
    then have "CHR '' '' \<notin> set a" using white_space by (auto simp: scope_word_def list_all_iff)
    with Cons show ?case by (simp add: split_on_joined scope_word_def)
  qed
  with words Cons joined_ends [of a as] strip_ends show ?thesis by (simp add: split_scopes_def)
qed (simp add: split_scopes_def strip_text_def)

text \<open>The signature is checked by what made it, and the reader is set up for the issuer.\<close>

definition reads_what_it_signs :: "oauth_env \<Rightarrow> bool" where
  "reads_what_it_signs v \<longleftrightarrow> (\<forall>header claims s. v_sign v header claims = Some s \<longrightarrow> v_load v s = Some (header, claims, True))"

definition reader_of :: "grant_setup \<Rightarrow> string \<Rightarrow> token_reader \<Rightarrow> bool" where
  "reader_of g client r \<longleftrightarrow> tr_issuer r = gs_issuer g \<and> 0 \<le> tr_leeway r
    \<and> (case tr_audience r of None \<Rightarrow> True | Some a \<Rightarrow> a = (case gs_audience g of None \<Rightarrow> client | Some a \<Rightarrow> a))"

lemma bearer_presented:
  assumes "rq_authorization rq = Some (''Bearer '' @ s)" "scope_word s"
  shows "bearer_token rq = Inr s"
proof -
  have plain: "strip_text s = s" using assms(2) by (intro strip_plain) (simp add: scope_word_def)
  have whole: "strip_text (''Bearer '' @ s) = ''Bearer '' @ s"
    by (rule strip_ends) (use assms(2) in \<open>simp_all add: scope_word_def list_all_iff is_white_def\<close>)
  have "dropWhile is_white (''Bearer '' @ s) = ''Bearer '' @ s" by (simp add: is_white_def)
  moreover have "lower (take 6 (''Bearer '' @ s)) = ''bearer''" by (simp add: lower_def numeral_eq_Suc) code_simp
  ultimately show ?thesis using assms whole plain
    by (simp add: bearer_token_def Let_def white_space scope_word_def numeral_eq_Suc)
qed

lemma at_jwt: "media_type (Some (JText ''at+jwt'')) = Some ''application/at+jwt''"
  by code_simp

lemma claims_read:
  "map_of (token_claims g t n) ''iss'' = Some (JText (gs_issuer g))"
  "map_of (token_claims g t n) ''nbf'' = Some (JWhole n)"
  "map_of (token_claims g t n) ''exp'' = Some (JWhole (whole_seconds (at_expiry t)))"
  "map_of (token_claims g t n) ''jti'' = Some (JText (at_identifier t))"
  "map_of (token_claims g t n) ''client_id'' = Some (JText (ce_identifier (at_client t)))"
  "map_of (token_claims g t n) ''scope'' = Some (JText (join_scopes (at_scopes t)))"
  "map_of (token_claims g t n) ''sub'' = Some (JText (case at_user t of None \<Rightarrow> ce_identifier (at_client t) | Some u \<Rightarrow> u))"
  "map_of (token_claims g t n) ''aud'' = Some (JText (case gs_audience g of None \<Rightarrow> ce_identifier (at_client t) | Some a \<Rightarrow> a))"
  by (simp_all add: token_claims_def Let_def)

text \<open>
  C11: What the server signs, a resource server reads back. While the token is live and its lifetime in whole
  seconds is not over, a request that presents it under the bearer scheme is let in with its identifier, its
  client, its user (the client itself where it acts for nobody) and its scopes in order, by a reader set up
  for the same issuer and audience.
\<close>

theorem signed_token_opens_resource:
  assumes "reads_what_it_signs v" "reader_of g (ce_identifier (at_client t)) r"
    and signed: "finish (to_signed_string v g t) w = (Inr signed, w')"
    and "list_all scope_word (at_scopes t)" "rq_authorization rq = Some (''Bearer '' @ signed)" "scope_word signed"
    and live: "live_access w2 (at_identifier t)"
    and time: "0 \<le> o_now w" "o_now w \<le> o_now w2" "o_now w2 < 1000000 * whole_seconds (at_expiry t)"
  shows "finish (validate_authorization v r rq) w2 = (Inr \<lparr>oauth_access_token_id = Some (at_identifier t),
    oauth_client_id = Some (ce_identifier (at_client t)),
    oauth_user_id = Some (case at_user t of None \<Rightarrow> ce_identifier (at_client t) | Some u \<Rightarrow> u), oauth_scopes = at_scopes t\<rparr>, w2)"
proof -
  let ?n = "whole_seconds (o_now w)"
  let ?claims = "token_claims g t ?n"
  have "v_sign v [(''typ'', JText ''at+jwt''), (''kid'', JText (gs_key_id g))] ?claims = Some signed"
    using signed by (auto simp: to_signed_string_def finish_seq read_now_def split: option.splits)
  then have load: "v_load v signed = Some ([(''typ'', JText ''at+jwt''), (''kid'', JText (gs_key_id g))], ?claims, True)"
    using assms(1) by (simp add: reads_what_it_signs_def)
  have n: "1000000 * ?n \<le> o_now w" using time(1) by (simp add: whole_seconds_def)
  have window: "\<not> outside_its_window r ?claims (o_now w2)"
  proof -
    have leeway: "0 \<le> tr_leeway r" using assms(2) by (simp add: reader_of_def)
    have "real_of_int (o_now w2) / 1000000 - real_of_int (tr_leeway r) / 1000000 < real_of_int (whole_seconds (at_expiry t))"
      using time(3) leeway by (simp add: field_simps; linarith?)
    moreover have "real_of_int ?n - real_of_int (tr_leeway r) / 1000000 \<le> real_of_int (o_now w2) / 1000000"
      using n time(2) leeway by (simp add: field_simps; linarith?)
    ultimately show ?thesis by (simp add: outside_its_window_def claim_number_def claims_read Let_def)
  qed
  have ours: "addressed_to_us r ?claims"
    using assms(2) by (auto simp: addressed_to_us_def reader_of_def claim_audiences_def claims_read split: option.splits)
  have "finish (is_access_token_revoked (at_identifier t)) w2 = (Inr False, w2)"
    using live by (auto simp: is_access_token_revoked_def finish_seq access_find_def live_access_def split: option.splits)
  then have "finish (validate_bearer_token v r signed) w2 = (Inr ?claims, w2)"
    using window ours by (simp add: validate_bearer_token_def load at_jwt finish_seq read_now_def payload_text_def claims_read)
  then show ?thesis using assms(4) bearer_presented [OF assms(5,6)]
    by (simp add: validate_authorization_def seq_settled finish_seq payload_text_def claims_read scopes_read_back)
qed

definition demo_issued :: access_token where
  "demo_issued = \<lparr>at_identifier = ''0a'', at_expiry = 3600000000, at_client = client_entity_of demo_client, at_user = Some ''ann'',
    at_scopes = [], at_claims = []\<rparr>"

definition one_signature :: oauth_env where
  "one_signature = demo_env\<lparr>v_sign := (\<lambda>header claims. if header = demo_header \<and> claims = demo_claims then Some ''jwt0a'' else None)\<rparr>"

definition demo_live :: oauth where
  "demo_live = (snd demo_start)\<lparr>o_now := 60000000, o_access := [(''0a'', \<lparr>st_expiry = 3600000000, st_client = ''app'', st_user = Some ''ann'',
    st_scopes = [], st_revoked = False\<rparr>)]\<rparr>"

lemma one_signature_read: "reads_what_it_signs one_signature"
  by (auto simp: reads_what_it_signs_def one_signature_def demo_env_def split: if_splits)

lemma demo_facts:
  "reader_of demo_setup (ce_identifier (at_client demo_issued)) (od_reader demo_server)"
  "fst (finish (to_signed_string one_signature demo_setup demo_issued) (snd demo_start)) = Inr ''jwt0a''"
  "list_all scope_word (at_scopes demo_issued)" "scope_word ''jwt0a''"
  "live_access demo_live (at_identifier demo_issued)" "0 \<le> o_now (snd demo_start)" "o_now (snd demo_start) \<le> o_now demo_live"
  "o_now demo_live < 1000000 * whole_seconds (at_expiry demo_issued)"
  by code_simp+

theorem signed_token_opens_resource_witness:
  "finish (validate_authorization one_signature (od_reader demo_server) (demo_request ''0'' [] [] \<lparr>rq_authorization := Some ''Bearer jwt0a''\<rparr>)) demo_live
    = (Inr \<lparr>oauth_access_token_id = Some ''0a'', oauth_client_id = Some ''app'', oauth_user_id = Some ''ann'', oauth_scopes = []\<rparr>, demo_live)"
proof -
  obtain w' where signed: "finish (to_signed_string one_signature demo_setup demo_issued) (snd demo_start) = (Inr ''jwt0a'', w')"
    using demo_facts(2) by (metis surj_pair fst_conv)
  have "rq_authorization (demo_request ''0'' [] [] \<lparr>rq_authorization := Some ''Bearer jwt0a''\<rparr>) = Some (''Bearer '' @ ''jwt0a'')" by simp
  from signed_token_opens_resource [OF one_signature_read demo_facts(1) signed demo_facts(3) this demo_facts(4-8)]
  show ?thesis by (simp add: demo_issued_def client_entity_of_def demo_client_def)
qed

end
