(* ===== verification/Oauth_Redirects.thy ===== *)
theory Oauth_Redirects
  imports Oauth_Cases
begin

text \<open>
  Where the authorization endpoint sends a browser: only to a URI its client registered, with an answer or
  with an error, and with a code or a token only after the resource owner agreed.
\<close>

fun error_redirect :: "oauth_error \<Rightarrow> oauth_redirect option" where
  "error_redirect (InvalidScope s redirect) = redirect"
| "error_redirect (AccessDenied redirect) = redirect"
| "error_redirect e = None"

fun sent_to :: "oauth_error + oauth_redirect option \<Rightarrow> oauth_redirect option" where
  "sent_to (Inl e) = error_redirect e"
| "sent_to (Inr redirect) = redirect"

definition uri_ok :: "oauth_env \<Rightarrow> client_entity \<Rightarrow> string \<Rightarrow> bool" where
  "uri_ok v c uri \<longleftrightarrow> validate_redirect_uri v (ce_redirect_uris c) uri \<or> ce_redirect_uris c = [uri]"

section \<open>Errors that send nobody anywhere\<close>

definition stays :: "(oauth_redirect \<Rightarrow> bool) \<Rightarrow> ('a \<Rightarrow> bool) \<Rightarrow> 'a oauth_coro \<Rightarrow> bool" where
  "stays R P t \<longleftrightarrow> yields (\<lambda>r. case r of Inl e \<Rightarrow> (case error_redirect e of None \<Rightarrow> True | Some red \<Rightarrow> R red) | Inr x \<Rightarrow> P x) t"

named_theorems stay_intros \<open>coroutines whose errors send a browser nowhere\<close>

lemma stays_answer [simp, stay_intros]: "stays R P (answer x) \<longleftrightarrow> P x"
  by (simp add: stays_def answer_def)

lemma stays_refuse [simp]: "stays R P (refuse e) \<longleftrightarrow> (case error_redirect e of None \<Rightarrow> True | Some red \<Rightarrow> R red)"
  by (simp add: stays_def refuse_def)

lemma stays_settled [simp]: "stays R P (settled r) \<longleftrightarrow>
    (case r of Inl e \<Rightarrow> (case error_redirect e of None \<Rightarrow> True | Some red \<Rightarrow> R red) | Inr x \<Rightarrow> P x)"
  by (simp add: stays_def settled_def)

lemma stays_seq: "stays R P t \<Longrightarrow> (\<And>x. P x \<Longrightarrow> stays R P' (f x)) \<Longrightarrow> stays R P' (seq t f)"
  unfolding stays_def seq_def by (erule yields_then_do) (auto split: sum.splits)

lemma stays_after [stay_intros]: "stays R (\<lambda>x. True) t \<Longrightarrow> (\<And>x. stays R P' (f x)) \<Longrightarrow> stays R P' (seq t f)"
  by (rule stays_seq)

lemma stays_caught [stay_intros]: "stays R P t
    \<Longrightarrow> (\<And>e. case error_redirect e of None \<Rightarrow> True | Some red \<Rightarrow> R red \<Longrightarrow> stays R P (h e)) \<Longrightarrow> stays R P (caught t h)"
  unfolding stays_def caught_def by (erule yields_then_do) (auto split: sum.splits)

lemma stays_await: "(\<And>w. \<exists>x. fst (m w) = Inr x) \<Longrightarrow> stays R (\<lambda>x. True) (await m)"
proof -
  assume m: "\<And>w. \<exists>x. fst (m w) = Inr x"
  have "case fst (m w) of Inl e \<Rightarrow> (case error_redirect e of None \<Rightarrow> True | Some red \<Rightarrow> R red) | Inr x \<Rightarrow> True" for w
    using m [of w] by auto
  then show ?thesis by (simp add: stays_def await_def yields_Await)
qed

lemma stays_seq_settled: "stays R P (seq (settled r) f) \<longleftrightarrow>
    (case r of Inl e \<Rightarrow> (case error_redirect e of None \<Rightarrow> True | Some red \<Rightarrow> R red) | Inr x \<Rightarrow> stays R P (f x))"
  by (simp add: seq_settled split: sum.splits)

lemma stays_calls [stay_intros]:
  "stays R (\<lambda>x. True) (await read_now)" "stays R (\<lambda>x. True) (await (client_find i))" "stays R (\<lambda>x. True) (await (scope_find i))"
  "stays R (\<lambda>x. True) (await (access_find i))" "stays R (\<lambda>x. True) (await (access_save i st))" "stays R (\<lambda>x. True) (await (code_find i))"
  "stays R (\<lambda>x. True) (await (code_save i sc))" "stays R (\<lambda>x. True) (await (Pair (Inr y)))" "stays R (\<lambda>x. True) (announce_event e)"
  by (auto intro!: stays_await simp: read_now_def client_find_def scope_find_def access_find_def access_save_def
      code_find_def code_save_def announce_event_def dispatch_event_def)

lemma stays_branches [stay_intros]:
  "(b \<Longrightarrow> stays R P t) \<Longrightarrow> (\<not> b \<Longrightarrow> stays R P u) \<Longrightarrow> stays R P (if b then t else u)"
  "(c = None \<Longrightarrow> stays R P t) \<Longrightarrow> (\<And>x. c = Some x \<Longrightarrow> stays R P (g x)) \<Longrightarrow> stays R P (case c of None \<Rightarrow> t | Some x \<Rightarrow> g x)"
  by (auto split: option.splits)

lemma stays_mono: "stays R P t \<Longrightarrow> (\<And>x. P x \<Longrightarrow> P' x) \<Longrightarrow> stays R P' t"
  unfolding stays_def by (erule yields_mono) (auto split: sum.splits)

lemma params_refuse: "get_query_string_parameter n rq d = Inl e \<Longrightarrow> error_redirect e = None"
  by (auto simp: get_query_string_parameter_def parse_param_def refuse_if_repeated_def Let_def split: if_splits sum.splits param_value.splits list.splits)

lemma stays_store: "(\<And>n. stays R (\<lambda>x. True) (store n)) \<Longrightarrow> stays R (\<lambda>x. True) (store_under_a_free_identifier store ns)"
  by (induction store ns rule: store_under_a_free_identifier.induct) (auto intro!: stay_intros)

lemma stays_stored_client [stay_intros]: "stays R (\<lambda>x. True) (stored_client_of c)"
  unfolding stored_client_of_def by (intro stay_intros) simp_all

lemma stays_issued [stay_intros]:
  "stays R (\<lambda>x. True) (issue_auth_code rq ttl c user uri scopes)" "stays R (\<lambda>x. True) (issue_access_token v rq ttl c user scopes)"
  unfolding issue_auth_code_def issue_access_token_def get_new_token_def Let_def persist_new_auth_code_def persist_new_access_token_def
  by (auto intro!: stay_intros stays_store)

lemma stays_signed [stay_intros]: "stays R (\<lambda>x. True) (to_signed_string v g t)"
  unfolding to_signed_string_def by (auto intro!: stay_intros)

lemma stays_finalized [stay_intros]: "stays R (\<lambda>x. True) (finalize_scopes v scopes flow c user)"
proof -
  have "error_redirect e = None" if "narrowed_to_registration c scopes = Inl e" for c e
    using that by (auto simp: narrowed_to_registration_def split: if_splits option.splits)
  then show ?thesis unfolding finalize_scopes_def
    by (auto intro!: stay_intros split: sum.split)
qed

lemma stays_known_scopes: "(\<And>red. redirect = Some red \<Longrightarrow> R red) \<Longrightarrow> stays R (\<lambda>x. True) (known_scopes redirect names)"
  by (induction names) (auto intro!: stay_intros simp: get_scope_entity_def split: option.split)

section \<open>Reading a request\<close>

definition auth_ok :: "oauth_env \<Rightarrow> client_entity \<Rightarrow> auth_request \<Rightarrow> bool" where
  "auth_ok v c a \<longleftrightarrow> ar_client a = c \<and> uri_ok v c (answered_at a)
    \<and> (case ar_redirect_uri a of None \<Rightarrow> True | Some uri \<Rightarrow> uri_ok v c uri)"

definition registered_client :: "oauth_env \<Rightarrow> oauth \<Rightarrow> oauth_request \<Rightarrow> oauth_client option" where
  "registered_client v w rq = (case get_query_string_parameter ''client_id'' rq (fst (get_basic_auth_credentials v rq)) of
      Inr (Some i) \<Rightarrow> (case map_of (o_clients w) i of None \<Rightarrow> None | Some c \<Rightarrow> if cl_active c then Some c else None)
    | _ \<Rightarrow> None)"

definition may_be_sent :: "oauth_env \<Rightarrow> oauth \<Rightarrow> oauth_request \<Rightarrow> string \<Rightarrow> bool" where
  "may_be_sent v w rq uri \<longleftrightarrow> (case registered_client v w rq of
      None \<Rightarrow> False
    | Some c \<Rightarrow> validate_redirect_uri v (cl_redirect_uris c) uri \<or> cl_redirect_uris c = [uri])"

lemma may_be_sent_entity: "registered_client v w rq = Some c \<Longrightarrow> may_be_sent v w rq uri \<longleftrightarrow> uri_ok v (client_entity_of c) uri"
  by (simp add: may_be_sent_def uri_ok_def client_entity_of_def)

text \<open>What the two flows read the same way once the client is known.\<close>

definition read_for :: "oauth_env \<Rightarrow> grant_setup \<Rightarrow> string \<Rightarrow> string \<Rightarrow> oauth_request \<Rightarrow> client_entity \<Rightarrow> auth_request oauth_coro" where
  "read_for v g flow delimiter rq c = seq (settled (get_query_string_parameter ''redirect_uri'' rq None)) (\<lambda>redirect_uri.
          if (case redirect_uri of
              None \<Rightarrow> length (ce_redirect_uris c) \<noteq> 1
            | Some uri \<Rightarrow> \<not> validate_redirect_uri v (ce_redirect_uris c) uri)
          then seq (announce_event ClientAuthenticationFailed) (\<lambda>_. refuse InvalidClient)
          else seq (settled (get_query_string_parameter ''state'' rq None)) (\<lambda>state.
            seq (settled (get_query_string_parameter ''scope'' rq (Some (gs_default_scope g)))) (\<lambda>scope.
              seq (validate_scope_parameter scope (Some (make_redirect_uri
                  (case redirect_uri of None \<Rightarrow> get_client_redirect_uri c | Some uri \<Rightarrow> uri) [(''state'', state)] delimiter))) (\<lambda>scopes.
                answer \<lparr>ar_grant = flow, ar_client = c, ar_redirect_uri = redirect_uri, ar_state = state,
                  ar_scopes = scopes, ar_challenge = None, ar_method = None, ar_user = None, ar_approved = False\<rparr>))))"

lemma read_request_split: "read_authorization_request v g flow delimiter rq =
    seq (settled (get_query_string_parameter ''client_id'' rq (fst (get_basic_auth_credentials v rq)))) (\<lambda>named.
    case named of None \<Rightarrow> refuse (InvalidRequest ''client_id'')
    | Some client_id \<Rightarrow> seq (get_client_entity_or_fail (Some flow) client_id) (read_for v g flow delimiter rq))"
  unfolding read_authorization_request_def read_for_def [abs_def] by (rule refl)

lemma sent_settled: "stays R P (seq (settled (get_query_string_parameter n rq d)) f)"
  if "\<And>x. get_query_string_parameter n rq d = Inr x \<Longrightarrow> stays R P (f x)"
  using that by (auto simp: stays_seq_settled params_refuse split: sum.split)

lemma read_for_stays: "stays (\<lambda>red. uri_ok v c (to_uri red)) (auth_ok v c) (read_for v g flow delimiter rq c)"
  unfolding read_for_def
proof (rule sent_settled)
  fix redirect_uri
  let ?at = "case redirect_uri of None \<Rightarrow> get_client_redirect_uri c | Some uri \<Rightarrow> uri"
  have ok: "uri_ok v c ?at" if "\<not> (case redirect_uri of
      None \<Rightarrow> length (ce_redirect_uris c) \<noteq> 1 | Some uri \<Rightarrow> \<not> validate_redirect_uri v (ce_redirect_uris c) uri)"
    using that by (auto simp: uri_ok_def get_client_redirect_uri_def length_Suc_conv split: option.splits)
  have scopes: "stays (\<lambda>red. uri_ok v c (to_uri red)) (auth_ok v c) (seq (validate_scope_parameter scope (Some (make_redirect_uri ?at params delimiter)))
      (\<lambda>scopes. answer \<lparr>ar_grant = flow, ar_client = c, ar_redirect_uri = redirect_uri, ar_state = state,
        ar_scopes = scopes, ar_challenge = None, ar_method = None, ar_user = None, ar_approved = False\<rparr>))"
    if "uri_ok v c ?at" for scope params state
    unfolding validate_scope_parameter_def
    by (rule stays_seq [OF stays_known_scopes]) (use that in \<open>auto simp: make_redirect_uri_def auth_ok_def answered_at_def split: option.splits\<close>)
  show "stays (\<lambda>red. uri_ok v c (to_uri red)) (auth_ok v c) (if (case redirect_uri of
              None \<Rightarrow> length (ce_redirect_uris c) \<noteq> 1
            | Some uri \<Rightarrow> \<not> validate_redirect_uri v (ce_redirect_uris c) uri)
          then seq (announce_event ClientAuthenticationFailed) (\<lambda>_. refuse InvalidClient)
          else seq (settled (get_query_string_parameter ''state'' rq None)) (\<lambda>state.
            seq (settled (get_query_string_parameter ''scope'' rq (Some (gs_default_scope g)))) (\<lambda>scope.
              seq (validate_scope_parameter scope (Some (make_redirect_uri ?at [(''state'', state)] delimiter))) (\<lambda>scopes.
                answer \<lparr>ar_grant = flow, ar_client = c, ar_redirect_uri = redirect_uri, ar_state = state,
                  ar_scopes = scopes, ar_challenge = None, ar_method = None, ar_user = None, ar_approved = False\<rparr>))))"
    by (rule stays_branches(1)) (auto intro!: stay_intros sent_settled scopes ok)
qed

text \<open>A request read with nothing in between.\<close>

definition read_ok :: "oauth_env \<Rightarrow> oauth \<Rightarrow> oauth_request \<Rightarrow> oauth_error + auth_request \<Rightarrow> bool" where
  "read_ok v w rq r \<longleftrightarrow> (case r of
      Inl e \<Rightarrow> (case error_redirect e of None \<Rightarrow> True | Some red \<Rightarrow> may_be_sent v w rq (to_uri red))
    | Inr a \<Rightarrow> (\<exists>c. registered_client v w rq = Some c \<and> auth_ok v (client_entity_of c) a))"

lemma read_request_ok: "read_ok v w rq (fst (finish (read_authorization_request v g flow delimiter rq) w))"
proof (cases "get_query_string_parameter ''client_id'' rq (fst (get_basic_auth_credentials v rq))")
  case (Inl e)
  then show ?thesis by (simp add: read_request_split seq_settled read_ok_def params_refuse)
next
  case (Inr named)
  show ?thesis
  proof (cases named)
    case None
    with Inr show ?thesis by (simp add: read_request_split seq_settled read_ok_def)
  next
    case (Some i)
    obtain r w1 where r: "finish (get_client_entity_or_fail (Some flow) i) w = (r, w1)" by fastforce
    have entity: "case r of Inl e \<Rightarrow> error_redirect e = None | Inr c \<Rightarrow> (\<exists>stored. registered_client v w rq = Some stored \<and> c = client_entity_of stored)"
      using r Inr Some by (auto simp: get_client_entity_or_fail_def get_client_entity_def finish_seq client_find_def announce_event_def
        dispatch_event_def registered_client_def split: option.splits if_splits)
    show ?thesis
    proof (cases r)
      case (Inl e)
      with r entity Inr Some show ?thesis by (simp add: read_request_split seq_settled finish_seq read_ok_def \<open>r = Inl e\<close>)
    next
      case (Inr c)
      with entity obtain stored where c: "registered_client v w rq = Some stored" "c = client_entity_of stored" by auto
      have "finish (read_authorization_request v g flow delimiter rq) w = finish (read_for v g flow delimiter rq c) w1"
        using r Inr \<open>get_query_string_parameter _ _ _ = Inr named\<close> Some by (simp add: read_request_split seq_settled finish_seq)
      with yields_finish [OF read_for_stays [unfolded stays_def], of v c g flow delimiter rq w1] c
      show ?thesis by (simp add: read_ok_def may_be_sent_entity split: sum.splits option.splits)
    qed
  qed
qed

lemma read_ok_then:
  assumes "read_ok v w rq (fst (finish t w))"
    "\<And>c a. registered_client v w rq = Some c \<Longrightarrow> auth_ok v (client_entity_of c) a \<Longrightarrow>
      stays (\<lambda>red. uri_ok v (client_entity_of c) (to_uri red)) (auth_ok v (client_entity_of c)) (f a)"
  shows "read_ok v w rq (fst (finish (seq t f) w))"
proof -
  obtain r w1 where r: "finish t w = (r, w1)" by fastforce
  show ?thesis
  proof (cases r)
    case (Inl e)
    with assms(1) r show ?thesis by (simp add: finish_seq read_ok_def)
  next
    case (Inr a)
    with assms(1) r obtain c where c: "registered_client v w rq = Some c" "auth_ok v (client_entity_of c) a" by (auto simp: read_ok_def)
    have "fst (finish (seq t f) w) = fst (finish (f a) w1)" using r Inr by (simp add: finish_seq)
    with yields_finish [OF assms(2) [OF c, unfolded stays_def], of w1] c(1) show ?thesis
      by (auto simp: read_ok_def may_be_sent_entity split: sum.splits option.splits)
  qed
qed

lemma challenge_stays: "auth_ok v c a \<Longrightarrow> auth_ok v c (a\<lparr>ar_challenge := x, ar_method := y\<rparr>)"
  by (auto simp: auth_ok_def answered_at_def split: option.splits)

lemma validated_request_ok: "read_ok v w rq (fst (finish (validate_authorization_request v s rq) w))"
proof -
  have code: "read_ok v w rq (fst (finish (validate_code_authorization v g rq) w))" for g
    unfolding validate_code_authorization_def
  proof (rule read_ok_then [OF read_request_ok], rule sent_settled)
    fix c a sent
    assume a: "auth_ok v (client_entity_of c) a"
    have named: "stays (\<lambda>red. uri_ok v (client_entity_of c) (to_uri red)) (auth_ok v (client_entity_of c))
        (seq (settled (get_query_string_parameter ''code_challenge_method'' rq None)) (\<lambda>named.
          let how = (case named of None \<Rightarrow> ''plain'' | Some n \<Rightarrow> n)
          in if challenge_verifier v how = None then refuse (InvalidRequest ''code_challenge_method'')
             else if \<not> proof_key_ok challenge then refuse (InvalidRequest ''code_challenge'')
             else answer (a\<lparr>ar_challenge := Some challenge, ar_method := Some how\<rparr>)))" for challenge
      by (rule sent_settled) (auto simp: Let_def challenge_stays [OF a])
    show "stays (\<lambda>red. uri_ok v (client_entity_of c) (to_uri red)) (auth_ok v (client_entity_of c)) (case sent of
      None \<Rightarrow> if gs_require_challenge g \<and> \<not> ce_confidential (ar_client a) then refuse (InvalidRequest ''code_challenge'')
          else answer a
    | Some challenge \<Rightarrow>
        seq (settled (get_query_string_parameter ''code_challenge_method'' rq None)) (\<lambda>named.
          let how = (case named of None \<Rightarrow> ''plain'' | Some n \<Rightarrow> n)
          in if challenge_verifier v how = None then refuse (InvalidRequest ''code_challenge_method'')
             else if \<not> proof_key_ok challenge then refuse (InvalidRequest ''code_challenge'')
             else answer (a\<lparr>ar_challenge := Some challenge, ar_method := Some how\<rparr>)))"
      using a by (cases sent) (auto simp: named)
  qed
  have repeated: "error_redirect e = None" if "refuse_if_repeated n src = Inl e" for n src e
    using that by (auto simp: refuse_if_repeated_def split: if_splits)
  show ?thesis unfolding validate_authorization_request_def
    by (auto simp: seq_settled read_ok_def [of _ _ _ "Inl _"] code read_request_ok repeated split: sum.split option.split)
qed

section \<open>The endpoint\<close>

lemma completed_stays:
  assumes "auth_ok v c a"
  shows "stays (\<lambda>red. uri_ok v c (to_uri red)) (\<lambda>red. uri_ok v c (to_uri red) \<and> ar_approved a) (complete_authorization_request v s rq a)"
proof -
  have at: "uri_ok v c (to_uri (make_redirect_uri (answered_at a) params delimiter))" for params delimiter
    using assms by (simp add: auth_ok_def make_redirect_uri_def)
  have code: "stays (\<lambda>red. uri_ok v c (to_uri red)) (\<lambda>red. uri_ok v c (to_uri red) \<and> ar_approved a) (complete_code_authorization v g rq a)" for g
    unfolding complete_code_authorization_def by (auto intro!: stay_intros simp: at split: option.split)
  have "stays (\<lambda>red. uri_ok v c (to_uri red)) (\<lambda>red. uri_ok v c (to_uri red) \<and> ar_approved a) (complete_implicit_authorization v g rq a)" for g
    unfolding complete_implicit_authorization_def by (auto intro!: stay_intros simp: at split: option.split)
  with code show ?thesis unfolding complete_authorization_request_def by (auto split: option.split)
qed

text \<open>
  C8: The authorization endpoint sends a browser only where the client the request names is registered to
  be answered, whether with an answer or with an error: to one of its URIs, but for the port of a loopback
  one. It sends an answer only for a resource owner who is signed in, and only after the deployment answered
  that a user agreed; whoever is not signed in or did not agree is sent back with an error or not at all.
\<close>

theorem browser_sent_only_where_registered:
  assumes "finish (authorize v s rq owner decision) w = (r, w')"
  shows "(\<forall>red. sent_to r = Some red \<longrightarrow> may_be_sent v w rq (to_uri red))
    \<and> (\<forall>red. r = Inr (Some red) \<longrightarrow> owner \<noteq> None \<and> (\<exists>u. decision = Decided u True))"
proof -
  obtain r1 w1 where r1: "finish (validate_authorization_request v s rq) w = (r1, w1)" by fastforce
  have ok: "read_ok v w rq r1" using validated_request_ok [of v w rq s] by (simp add: r1)
  show ?thesis
  proof (cases r1)
    case (Inl e)
    with assms r1 have "r = Inl e" by (simp add: authorize_def finish_seq)
    with ok Inl show ?thesis by (auto simp: read_ok_def split: option.splits)
  next
    case (Inr a)
    with ok obtain c where c: "registered_client v w rq = Some c" and a: "auth_ok v (client_entity_of c) a" by (auto simp: read_ok_def)
    let ?R = "\<lambda>red. uri_ok v (client_entity_of c) (to_uri red)"
    let ?P = "\<lambda>x. case x of None \<Rightarrow> True | Some red \<Rightarrow> ?R red \<and> owner \<noteq> None \<and> (\<exists>u. decision = Decided u True)"
    let ?rest = "seq (refuse_plain_pkce_unless_allowed a) (\<lambda>_.
      case owner of
        None \<Rightarrow> refuse (AccessDenied (map_option (\<lambda>uri. make_redirect_uri uri [(''state'', ar_state a)] ''?'') (ar_redirect_uri a)))
      | Some u \<Rightarrow> seq (stored_client_of (ar_client a)) (\<lambda>_. case decision of
          OwnPage \<Rightarrow> answer None
        | Decided user approved \<Rightarrow>
            seq (complete_authorization_request v s rq (a\<lparr>ar_user := Some user, ar_approved := approved\<rparr>)) (\<lambda>uri.
              answer (Some uri))))"
    have plain: "stays ?R (\<lambda>x. True) (refuse_plain_pkce_unless_allowed a)"
      unfolding refuse_plain_pkce_unless_allowed_def by (auto intro!: stay_intros)
    have decided: "stays ?R ?P (seq (complete_authorization_request v s rq (a\<lparr>ar_user := Some user, ar_approved := approved\<rparr>)) (\<lambda>uri. answer (Some uri)))"
      if "decision = Decided user approved" "owner \<noteq> None" for user approved
    proof (rule stays_seq [OF completed_stays])
      show "auth_ok v (client_entity_of c) (a\<lparr>ar_user := Some user, ar_approved := approved\<rparr>)"
        using a by (auto simp: auth_ok_def answered_at_def split: option.splits)
    qed (use that in simp)
    have "stays ?R ?P ?rest"
    proof (rule stays_after [OF plain])
      fix u :: unit
      show "stays ?R ?P (case owner of
        None \<Rightarrow> refuse (AccessDenied (map_option (\<lambda>uri. make_redirect_uri uri [(''state'', ar_state a)] ''?'') (ar_redirect_uri a)))
      | Some u \<Rightarrow> seq (stored_client_of (ar_client a)) (\<lambda>_. case decision of
          OwnPage \<Rightarrow> answer None
        | Decided user approved \<Rightarrow>
            seq (complete_authorization_request v s rq (a\<lparr>ar_user := Some user, ar_approved := approved\<rparr>)) (\<lambda>uri.
              answer (Some uri))))"
      proof (cases owner)
        case None
        then show ?thesis using a by (auto simp: auth_ok_def make_redirect_uri_def split: option.splits)
      next
        case (Some u)
        have "stays ?R ?P (case decision of
            OwnPage \<Rightarrow> answer None
          | Decided user approved \<Rightarrow>
              seq (complete_authorization_request v s rq (a\<lparr>ar_user := Some user, ar_approved := approved\<rparr>)) (\<lambda>uri. answer (Some uri)))"
        proof (cases decision)
          case OwnPage
          then show ?thesis by simp
        next
          case (Decided user approved)
          then have "(case decision of OwnPage \<Rightarrow> answer None | Decided user approved \<Rightarrow>
              seq (complete_authorization_request v s rq (a\<lparr>ar_user := Some user, ar_approved := approved\<rparr>)) (\<lambda>uri. answer (Some uri)))
            = seq (complete_authorization_request v s rq (a\<lparr>ar_user := Some user, ar_approved := approved\<rparr>)) (\<lambda>uri. answer (Some uri))"
            by simp
          then show ?thesis by (simp only:) (rule decided [OF Decided], simp add: Some)
        qed
        then show ?thesis unfolding Some option.case by (rule stays_after [OF stays_stored_client])
      qed
    qed
    from yields_finish [OF this [unfolded stays_def], of w1]
    have "case r of Inl e \<Rightarrow> (case error_redirect e of None \<Rightarrow> True | Some red \<Rightarrow> ?R red) | Inr x \<Rightarrow> ?P x"
      using assms r1 Inr by (simp add: authorize_def finish_seq)
    then show ?thesis using may_be_sent_entity [OF c] by (cases r) (auto split: option.splits)
  qed
qed

text \<open>The consent of the demonstration, and the same request refused.\<close>

definition demo_asking :: oauth_request where
  "demo_asking = demo_request ''0'' [(''response_type'', [PText ''code'']), (''client_id'', [PText ''app''])] []"

lemma demo_sent: "fst (finish (authorize demo_env (od_server demo_server) demo_asking (Some ''ann'') (Decided ''ann'' True)) (snd demo_start))
    = Inr (Some (OauthRedirect ''https://app/cb'' [(''code'', ''code'')] ''?''))"
  by code_simp

theorem browser_sent_only_where_registered_witness:
  "fst (finish (authorize demo_env (od_server demo_server) demo_asking (Some ''ann'') (Decided ''ann'' True)) (snd demo_start))
      = Inr (Some (OauthRedirect ''https://app/cb'' [(''code'', ''code'')] ''?''))
    \<and> may_be_sent demo_env (snd demo_start) demo_asking ''https://app/cb''"
proof -
  obtain w' where "finish (authorize demo_env (od_server demo_server) demo_asking (Some ''ann'') (Decided ''ann'' True)) (snd demo_start)
      = (Inr (Some (OauthRedirect ''https://app/cb'' [(''code'', ''code'')] ''?'')), w')"
    using demo_sent by (metis surj_pair fst_conv)
  from browser_sent_only_where_registered [OF this] demo_sent show ?thesis by simp
qed

end
