(* ===== verification/Spec2Isabelle.thy ===== *)
theory Spec2Isabelle
  imports Workflow_Validation Workflow_Services Lock_Client Limiter_Compound Access_Rules Order_Listeners Dotenv_Laws Scheduler_Sharing Oauth_Tokens Oauth_Redirects
begin

text \<open>
  \<^bold>\<open>The xtr framework, verified component by component.\<close>

  The repository is a framework of some forty Python packages under \<open>src/packages\<close>. This development
  models those that carry a policy or a protocol of their own (workflows, locks, rate limiters,
  authorization, events, ordering, \<open>.env\<close> files, schedules, an OAuth 2.0 server) and proves what an
  application may rely on. Everything is a shallow embedding: a class is a \<open>record\<close> or a \<open>datatype\<close>, a method is a
  function of the state it is called in, and a method that may raise returns an error or a result
  beside the state it leaves behind (\<open>prog\<close> in \<open>Prelude\<close>), so that what was done before an exception
  stays done. A Python \<open>dict\<close> is an association list in insertion order, Python integers are \<open>int\<close>,
  instants and spans are \<open>real\<close>, or whole microseconds where the code computes with \<open>datetime\<close>.
  Definitions keep the names of the source.

  \<^bold>\<open>Parts and how they interact.\<close> A workflow moves tokens of a subject and announces each step through
  an event dispatcher; its guards ask an authorization checker; a lock keeps two holders of a resource
  apart, over one store or a quorum of stores; a rate limiter spends tokens of a state it saves in a
  storage, under a lock; the authorization checker asks voters, and the role voters ask a hierarchy of
  roles; the event dispatcher runs listeners that may add, remove or dispatch in turn, in the order the
  container's sorter gave those that were declared; a schedule asks its triggers, which ask the calendar,
  and keeps its place in a cache under a lock; the grants of the OAuth server reach clients, tokens and
  codes through repositories over managers, one awaited call at a time.

  \<^bold>\<open>Workflows\<close> (\<open>src/packages/xtr-workflow\<close>).
  \<^item> \<open>Workflow_Net\<close>: arcs, transitions, markings, definitions and their builder (\<open>arc.py\<close>,
    \<open>transition.py\<close>, \<open>marking.py\<close>, \<open>definition.py\<close>, \<open>definition_builder.py\<close>). A marking is a bag of
    tokens (locale \<open>token_bag\<close>, interpreted on \<open>mark\<close> and \<open>unmark\<close>); every definition that is built is
    well formed.
  \<^item> \<open>Workflow_Engine\<close>: \<open>workflow.py\<close> with its events and blockers. The marking store and the dispatcher
    are the two collaborators (locale \<open>marking_store\<close>); applying a transition refines the firing rule of
    a Petri net.
  \<^item> \<open>Workflow_Store\<close>: \<open>marking_store/method_marking_store.py\<close>, which interprets \<open>marking_store\<close> in its
    single-place and its many-places form.
  \<^item> \<open>Workflow_Validation\<close>: the validators and the state machine. Over a validated definition, a
    workflow without an event dispatcher never fails halfway through a transition (a subject without
    tokens is given the initial marking first, whatever follows), and a validated state machine is a
    finite automaton.
  \<^item> \<open>Workflow_Trace\<close>: which events go out, in which order, and when the marking is written.
  \<^item> \<open>Workflow_Services\<close>: registry, metadata, guard listener and audit trail.

  \<^bold>\<open>Locks\<close> (\<open>src/packages/xtr-lock\<close>).
  \<^item> \<open>Lock_Key\<close>: \<open>key.py\<close> and the token of a holder, lifetimes and pickling.
  \<^item> \<open>Lock_Store\<close>: the in-memory and the null store. The in-memory store refines a readers-writer lock
    and provides the interface of a store (locale \<open>persisting_store\<close>).
  \<^item> \<open>Lock_Combined\<close>: \<open>combined_store.py\<close> and its strategies. A quorum (locale \<open>quorum\<close>) of stores of
    one family (\<open>store_family\<close>, \<open>combined_family\<close>) is again a \<open>persisting_store\<close>, by \<open>sublocale\<close>: two
    writers, or a writer and a reader, never both reach a quorum (locale \<open>asked_family\<close>; readers share
    it), and a failed save leaves nothing behind.
  \<^item> \<open>Lock_Client\<close>: \<open>lock.py\<close> and the factory over any \<open>persisting_store\<close>: handover between holders,
    waiting, nesting of blocks, expiry, and cancellation, between two tries or while a combined store is
    asking its stores, which leaves nothing held. The waiting loop runs on fuel: its theorem names
    the number of rounds that is enough, and running out of rounds is the value \<open>StillWaiting\<close>, which no
    operation of the code raises.

  \<^bold>\<open>Rate limiters\<close> (\<open>src/packages/xtr-rate-limiter\<close>).
  \<^item> \<open>Limiter_State\<close>: windows, buckets and the in-memory storage. \<open>Limiter_Policies\<close>: the limiters that
    reserve from a stored state. \<open>Limiter_Bounds\<close>: the locale \<open>stored_policy\<close>, a \<open>sublocale\<close> of
    \<open>metered\<close>, bounds what any policy with a level of tokens can grant; it is interpreted on the token
    bucket here, on the fixed and the sliding window in \<open>Limiter_Windows\<close>. \<open>Limiter_Compound\<close>: several
    limits on one hit, and the name a state is kept under.
  \<^item> The bounds hold for any sequence of calls and any sweeps of the storage. That of the sliding window
    rests on a potential, the room left when the hits carried over from the window before are counted:
    in any span a key grants a limit's worth, one more, and what the span drains. Two theorems show where
    the sliding window departs from its documentation.

  \<^bold>\<open>Authorization\<close> (\<open>src/packages/xtr-security-core\<close>).
  \<^item> \<open>Access_Roles\<close>: \<open>role/role_hierarchy.py\<close>. The roles returned are exactly those reached through the
    declared entries, wildcards and memo included. The walk over a hierarchy with wildcards need not end
    by itself; the code bounds it at ten thousand roles and so does the model, and a hierarchy without
    wildcards always answers.
  \<^item> \<open>Access_Decision\<close>: tokens, the trust resolver, strategies, the decision manager with its caches, the
    voters and the checker.
  \<^item> \<open>Access_Rules\<close>: each strategy asks lazily and decides as its reference does (locale
    \<open>lazy_strategy\<close>); the caches change no answer; a role is granted exactly when it is reached; the
    authentication attributes are ordered by strength (locale \<open>trust\<close>).

  \<^bold>\<open>Events\<close> (\<open>src/packages/xtr-event-dispatcher\<close> and its contracts).
  \<^item> \<open>Event_Listeners\<close>: what a listener is, how many arguments it is given (\<open>_listener_call.py\<close>), lazy
    listeners (\<open>lazy_listener.py\<close>), names of events. The arity read from a signature is the largest the
    call accepts.
  \<^item> \<open>Event_Dispatcher\<close>: the registry of \<open>event_dispatcher.py\<close>. Identity of entries and of cached lists
    is a serial number. Its operations are the steps of \<open>registry_step\<close>; a well-formed registry stays
    so, and the listing refines a list of registrations, stably sorted by priority. A removal made
    before a lazy listener was built reaches it; one theorem shows how it can be lost.
  \<^item> \<open>Event_Dispatch\<close>: \<open>dispatch_through\<close> and \<open>_build\<close>. Dispatchers live in a store, and the code of a
    listener or of a factory is any program that changes the dispatcher through its operations. Only
    listeners that were registered at the start get called, each when its turn comes, if it is still
    registered and nobody stopped the event; for a lazy listener that is asked before its factory builds
    it, and not again after. Undisturbed, a dispatch is the
    listeners in order. One theorem shows that a listener removed while it is built runs all the same.
  \<^item> \<open>Event_Wrappers\<close>: subscribers, and the compiled, immutable and scoped dispatchers, clients of the
    locale \<open>ordered_registry\<close> that the dispatcher interprets.

  \<^bold>\<open>Ordering\<close> (\<open>src/packages/xtr-dependency-injection\<close>, \<open>src/packages/xtr-event-dispatcher/.../bundle\<close>).
  \<^item> \<open>Order_Sorter\<close>: \<open>compiler/before_after_sorter.py\<close>. The depth-first visit is a loop over an explicit
    stack; its measure is what is left to visit. \<open>Order_Search\<close>: a sort succeeds exactly when the
    constraints have no cycle, keeps every item, obeys the constraints and otherwise names a cycle.
    \<open>Order_Priorities\<close>: the same with numbers, which agree with the constraints; the numbers are kept in
    the range of 64 bits the code starts from, a hypothesis of the theorems on priorities.
  \<^item> \<open>Order_Listeners\<close>: declared listeners become registrations (\<open>bundle/_listener_ordering.py\<close>,
    \<open>register_listeners_pass.py\<close>); the order of running is the one declared. The declared listeners, read
    from tags and signatures, are an argument.

  \<^bold>\<open>Environment files\<close> (\<open>src/packages/xtr-dotenv\<close>).
  \<^item> \<open>Dotenv_Expand\<close>: the expansion of one value. \<open>Dotenv_Loader\<close>: loading, the cascade of files, boot and
    dump. \<open>Dotenv_Rules\<close> and \<open>Dotenv_Laws\<close>: a variable the host set is never replaced, a loaded value is
    the expansion of what its file says, resolving ends or names values that wait on each other. The
    parser of python-dotenv and the contents of files are arguments: that a real variable stays is
    proved for files that are there and bind neither a name with a comma nor the variable in which loads
    keep their own names, and lemma \<open>comma_name_tracked\<close> shows what a comma does.

  \<^bold>\<open>Calendar and schedules\<close> (\<open>src/packages/xtr-clock\<close>, \<open>src/packages/xtr-scheduler\<close>).
  \<^item> \<open>Clock_Calendar\<close>: \<open>calendar_shift.py\<close> over dates with a zone (\<open>shift_calendar\<close>) and without (\<open>shift_naive\<close>).
    A zone is any function with the promises of a \<open>tzinfo\<close>, a \<open>typedef\<close>. A shift keeps the time of day on
    the clock where the zone has that time, and otherwise shows the one that replaced it.
  \<^item> \<open>Scheduler_Triggers\<close>: \<open>trigger/\<close>. Callbacks, cron expressions and the jitter drawn are arguments; the
    search along the calendar runs on fuel (\<open>search_limit\<close>), which never runs out. \<open>Scheduler_Runs\<close>: a trigger answers the first of its runs after any date, the runs
    written down as a set.
  \<^item> \<open>Scheduler_Generator\<close>: schedules, the checkpoint, the heap of due runs and \<open>message_generator.py\<close>. The
    cache is the record kept under a name; the lock is what it answers. \<open>Scheduler_Order\<close>: runs are handed
    on in strictly increasing order. \<open>Scheduler_Complete\<close>: a process that is taken up whole sends every run
    due past the record it takes up, and nothing else; lemmas show three ways in which a batch that was
    cut short is lost. \<open>Scheduler_Sharing\<close>: the same code a run at a time (\<open>get_messages_turns\<close>: the turns
    make up the pass), by any number of processes that share a cache and a lock, each killed between
    any two turns: no run is sent twice. Two runs of the system show that without the lock one is. Handing
    a run on and recording it are one turn, so that what a kill between the two does is outside the model
    (the source says the run is sent again); the lock does not run out during a pass, and the cache saves
    what it is given.

  \<^bold>\<open>OAuth 2.0 server\<close> (\<open>src/packages/xtr-security-oauth2-server-core\<close>,
  \<open>src/packages/xtr-security-oauth2-server\<close>).
  \<^item> \<open>Oauth_Tasks\<close>: a coroutine is finished or waits for a collaborator; every step of it is one awaited
    call. \<open>obeys\<close>, \<open>does_only\<close> and \<open>returns\<close> speak of a coroutine whatever runs in between.
  \<^item> \<open>Oauth_Store\<close>: \<open>model/\<close>, \<open>manager/in_memory/\<close>, \<open>repository/\<close>. A manager's method is one step, a
    repository's a coroutine. \<open>Oauth_Grants\<close>: \<open>abstract_handler.py\<close>, \<open>grant/abstract_grant.py\<close>, the tokens.
    \<open>Oauth_Flows\<close>: the six grants, \<open>authorization_server.py\<close> and the authorization endpoint.
    \<open>Oauth_Handlers\<close>: \<open>authorization_validators/\<close>, \<open>handlers/\<close>, and a server answering any number of
    requests at the same time (\<open>oauth_runs\<close>), with time, sweeps and changes of clients in between.
  \<^item> \<open>Oauth_Steps\<close>: which steps a request takes, in locales by what the relation must allow
    (\<open>calm_steps\<close>, \<open>access_steps\<close>, \<open>refresh_steps\<close>, \<open>code_steps\<close>, \<open>device_steps\<close>, \<open>all_steps\<close>), interpreted
    on the relations the theorems are about. \<open>Oauth_Spent\<close>: a refresh token is spent once, however
    requests interleave. \<open>Oauth_Codes\<close>: what a code request must present, and that a code is redeemed once
    by a server that answers one request at a time. \<open>Oauth_Cases\<close>: a small deployment; one run of it
    redeems a code twice, at the same time. \<open>Oauth_Tokens\<close>: who is given tokens, that a resource server
    reads them back, and that a token withdrawn is worth nothing for good. \<open>Oauth_Redirects\<close>: the
    authorization endpoint sends a browser only where the client is registered, and an answer only for
    a user who agreed.
  \<^item> The environment of a deployment (\<open>oauth_env\<close>) holds the cipher, signatures, the password hasher, the
    digest, the splitting of URIs and what listeners answer. The ten identifiers a request may draw for
    each kind of token come with the request; the theorems on refresh tokens and codes assume that no two
    drawn are the same.

  \<^bold>\<open>Not modelled, and why.\<close> Text rendering, console commands, container bundles and tracing keep no
  state of these components. Stores and limiters in Redis run scripts on a server; file locks are the
  operating system's; the managers of the OAuth server over a database are statements run there. The
  rounding of floats is left out. One task runs at a time; where the code awaits, the model lets other
  code run at that point (factories and listeners of the dispatcher, requests of the OAuth server) or
  states that operations of one holder take turns (locks). Reflection on application classes, the body of
  a listener, a guard, a factory or a voter are arguments. Texts of error messages are kept only where the
  code compares or returns them. Of the packages in part modelled: the intervals and factories of the rate
  limiter, the user providers, remember-me and signatures of \<open>xtr-security-core\<close>, the container builder and
  kernel of \<open>xtr-dependency-injection\<close>, the clocks and modifiers of \<open>xtr-clock\<close>, the in-process runner of
  \<open>xtr-scheduler\<close>, the metadata, key and device pages of the OAuth server and its authenticator. The
  remaining packages (HTTP messages and kernel, cache, storage, messenger, mailer, ORM and others) are
  input and output, interfaces, wiring, or work on third-party frameworks; some hold pure functions (URIs,
  path normalisation, retry delays) that nothing here rests on.
\<close>

end
